(* ===== verification/Prelude.thy ===== *)
theory Prelude
  imports Main
begin

text \<open>
  Generic material shared by the components: the named theorem collections, C strings and
  the bounded copies into fixed character arrays, the first-match loop over a table, and
  reachability of state machines with the interface every component invariant is proved
  through.
\<close>

named_theorems c_consts "the preprocessor constants of the headers"
named_theorems preserves "operations that keep a component invariant"
named_theorems frames "what an operation leaves alone"

section \<open>C strings\<close>

text \<open>
  The content of a \<open>char[N]\<close> array is the list of characters before its terminating NUL.
  The pair \<open>strncpy(dst, src, N - 1); dst[N - 1] = 0\<close>, which every component uses, leaves
  the first \<open>N - 1\<close> characters of the source in the array. A pointer that may be NULL and
  whose NULL case the code distinguishes is a \<open>string option\<close>.
\<close>

definition c_strncpy :: "nat \<Rightarrow> string \<Rightarrow> string" where
  "c_strncpy n src = take n src"

definition c_string_ok :: "string \<Rightarrow> bool" where
  "c_string_ok s = (CHR 0x00 \<notin> set s)"

lemma c_strncpy_fits [simp]: "length s \<le> n \<Longrightarrow> c_strncpy n s = s"
  by (simp add: c_strncpy_def)

lemma length_c_strncpy [simp]: "length (c_strncpy n s) = min (length s) n"
  by (simp add: c_strncpy_def)

lemma c_strncpy_eq_iff: "length s \<le> n \<Longrightarrow> c_strncpy n t = s \<longleftrightarrow> take n t = s"
  by (simp add: c_strncpy_def)

lemma c_string_ok_strncpy [simp]: "c_string_ok s \<Longrightarrow> c_string_ok (c_strncpy n s)"
  by (auto simp: c_string_ok_def c_strncpy_def dest: in_set_takeD)

section \<open>C arithmetic\<close>

text \<open>Division and remainder of C truncate towards zero.\<close>

definition c_div :: "int \<Rightarrow> int \<Rightarrow> int" where
  "c_div a b = sgn a * sgn b * (\<bar>a\<bar> div \<bar>b\<bar>)"

lemma c_div_pos: "0 \<le> a \<Longrightarrow> 0 < b \<Longrightarrow> c_div a b = a div b"
  by (cases "a = 0") (simp_all add: c_div_def)

section \<open>First match in a table\<close>

text \<open>
  The loops \<open>for (i = 0; i < count; i++) if (P(tab[i])) return i;\<close> return the first index
  whose entry satisfies the test.
\<close>

fun find_idx :: "('a \<Rightarrow> bool) \<Rightarrow> 'a list \<Rightarrow> nat option" where
  "find_idx P [] = None"
| "find_idx P (x # xs) = (if P x then Some 0 else map_option Suc (find_idx P xs))"

lemma find_idx_None_iff: "find_idx P xs = None \<longleftrightarrow> (\<forall>x \<in> set xs. \<not> P x)"
  by (induction xs) auto

lemma find_idx_SomeD:
  assumes "find_idx P xs = Some i"
  shows "i < length xs" "P (xs ! i)" "\<And>j. j < i \<Longrightarrow> \<not> P (xs ! j)"
proof -
  have "i < length xs \<and> P (xs ! i) \<and> (\<forall>j < i. \<not> P (xs ! j))"
    using assms
    by (induction xs arbitrary: i) (fastforce simp: less_Suc_eq_0_disj split: if_splits)+
  then show "i < length xs" "P (xs ! i)" "\<And>j. j < i \<Longrightarrow> \<not> P (xs ! j)"
    by auto
qed

lemma find_idx_SomeI:
  "i < length xs \<Longrightarrow> P (xs ! i) \<Longrightarrow> (\<And>j. j < i \<Longrightarrow> \<not> P (xs ! j)) \<Longrightarrow> find_idx P xs = Some i"
proof (induction xs arbitrary: i)
  case (Cons x xs)
  show ?case
  proof (cases i)
    case (Suc k)
    have "find_idx P xs = Some k"
      using Cons.prems(1,2) Cons.prems(3)[of "Suc _"] Suc by (intro Cons.IH) auto
    moreover have "\<not> P x" using Cons.prems(3)[of 0] Suc by simp
    ultimately show ?thesis using Suc by simp
  qed (use Cons.prems in simp)
qed simp

lemma find_idx_append:
  "find_idx P (xs @ ys) =
     (case find_idx P xs of Some i \<Rightarrow> Some i | None \<Rightarrow> map_option (\<lambda>i. length xs + i) (find_idx P ys))"
proof (induction xs)
  case Nil
  then show ?case by (cases "find_idx P ys") (simp_all)
next
  case (Cons x xs)
  then show ?case
    by (cases "find_idx P ys"; cases "find_idx P xs") (simp_all)
qed

lemma find_idx_map: "find_idx P (map f xs) = find_idx (P \<circ> f) xs"
  by (induction xs) auto

lemma find_idx_distinct:
  assumes "distinct (map f xs)" "i < length xs"
  shows "find_idx (\<lambda>x. f x = f (xs ! i)) xs = Some i"
  using assms by (intro find_idx_SomeI) (auto simp: distinct_conv_nth)

lemma find_idx_update_same:
  "i < length xs \<Longrightarrow> P y = P (xs ! i) \<Longrightarrow> find_idx P (xs[i := y]) = find_idx P xs"
  by (induction xs arbitrary: i) (auto split: nat.splits)

section \<open>Tables of named slots\<close>

text \<open>
  A table whose slots carry a name is looked up by the first slot with that name. What the
  lookup sees after a slot was replaced, or a new one appended, is all a client needs.
\<close>

definition tab_get :: "('a \<Rightarrow> 'n) \<Rightarrow> 'n \<Rightarrow> 'a list \<Rightarrow> 'a option" where
  "tab_get name n xs = map_option ((!) xs) (find_idx (\<lambda>x. name x = n) xs)"

lemma tab_get_Nil [simp]: "tab_get name n [] = None"
  by (simp add: tab_get_def)

lemma tab_get_Cons [simp]:
  "tab_get name n (x # xs) = (if name x = n then Some x else tab_get name n xs)"
  by (simp add: tab_get_def option.map_comp comp_def)

lemma tab_get_idx: "find_idx (\<lambda>x. name x = n) xs = Some i \<Longrightarrow> tab_get name n xs = Some (xs ! i)"
  by (simp add: tab_get_def)

lemma tab_get_None_iff: "tab_get name n xs = None \<longleftrightarrow> n \<notin> name ` set xs"
  by (auto simp: tab_get_def find_idx_None_iff)

lemma tab_get_SomeD: "tab_get name n xs = Some x \<Longrightarrow> x \<in> set xs \<and> name x = n"
  by (induction xs) (auto split: if_splits)

lemma tab_get_snoc:
  "tab_get name m (xs @ [y]) =
     (case tab_get name m xs of Some x \<Rightarrow> Some x | None \<Rightarrow> if name y = m then Some y else None)"
  by (induction xs) auto

lemma tab_get_update:
  "find_idx (\<lambda>x. name x = n) xs = Some i \<Longrightarrow> name y = n \<Longrightarrow>
   tab_get name m (xs[i := y]) = (if m = n then Some y else tab_get name m xs)"
  by (induction xs arbitrary: i) (auto split: if_splits nat.splits)

section \<open>Lists\<close>

lemma filter_eq_drop_prefix:
  "(\<And>x. x \<in> set xs \<Longrightarrow> \<not> P x) \<Longrightarrow> filter P (xs @ ys) = filter P ys"
  by (auto simp: filter_empty_conv)

lemma concat_update:
  "i < length xss \<Longrightarrow>
   concat (xss[i := ys]) = concat (take i xss) @ ys @ concat (drop (Suc i) xss)"
  by (simp add: upd_conv_take_nth_drop)

lemma map_update_same: "i < length xs \<Longrightarrow> f y = f (xs ! i) \<Longrightarrow> map f (xs[i := y]) = map f xs"
  by (metis list_update_id map_update)

lemma nth_upd_if: "xs[i := y] ! j = (if j = i \<and> i < length xs then y else xs ! j)"
  by (cases "i < length xs") (auto simp: nth_list_update list_update_beyond)

lemma last_update [simp]: "xs \<noteq> [] \<Longrightarrow> last (xs[length xs - Suc 0 := y]) = y"
  by (simp add: last_list_update)

lemma butlast_update_last [simp]: "xs \<noteq> [] \<Longrightarrow> butlast (xs[length xs - Suc 0 := y]) = butlast xs"
  by (simp add: butlast_list_update)

lemma update_last_conv: "xs \<noteq> [] \<Longrightarrow> xs[length xs - Suc 0 := y] = butlast xs @ [y]"
  by (metis append_butlast_last_id butlast_update_last last_update list_update_nonempty)

section \<open>Operations in sequence\<close>

text \<open>
  A loop that calls an operation for each element of a list, threading the state and
  collecting the results.
\<close>

fun run_all :: "('a \<Rightarrow> 's \<Rightarrow> 'b \<times> 's) \<Rightarrow> 'a list \<Rightarrow> 's \<Rightarrow> 'b list \<times> 's" where
  "run_all f [] s = ([], s)"
| "run_all f (a # as) s =
     (let (b, s') = f a s; (bs, s'') = run_all f as s' in (b # bs, s''))"

lemma run_all_Nil_iff: "run_all f as s = (bs, s') \<Longrightarrow> length bs = length as"
  by (induction as arbitrary: s bs s') (auto simp: Let_def split: prod.splits)

lemma run_all_append:
  "run_all f (as @ as') s =
     (let (bs, s') = run_all f as s; (bs', s'') = run_all f as' s' in (bs @ bs', s''))"
  by (induction as arbitrary: s) (simp_all add: Let_def split: prod.splits)

section \<open>State machines\<close>

text \<open>
  The states a component can be in: the initial ones and whatever its operations make of
  them. An invariant is proved once per operation, and the interface below turns the
  per-operation lemmas into a fact about every reachable state.
\<close>

inductive reach :: "('s \<Rightarrow> bool) \<Rightarrow> ('op \<Rightarrow> 's \<Rightarrow> 's) \<Rightarrow> 's \<Rightarrow> bool" for init step where
  reach_init: "init s \<Longrightarrow> reach init step s"
| reach_step: "reach init step s \<Longrightarrow> reach init step (step op s)"

locale invariant_system =
  fixes init :: "'s \<Rightarrow> bool" and step :: "'op \<Rightarrow> 's \<Rightarrow> 's" and inv :: "'s \<Rightarrow> bool"
  assumes inv_init: "init s \<Longrightarrow> inv s"
    and inv_step: "inv s \<Longrightarrow> inv (step op s)"
begin

lemma reach_inv: "reach init step s \<Longrightarrow> inv s"
  by (induction rule: reach.induct) (auto intro: inv_init inv_step)

lemma fold_inv: "inv s \<Longrightarrow> inv (fold step ops s)"
  by (induction ops arbitrary: s) (auto intro: inv_step)

lemma run_inv: "init s \<Longrightarrow> inv (fold step ops s)"
  by (intro fold_inv inv_init)

end

lemma reach_fold: "reach init step s \<Longrightarrow> reach init step (fold step ops s)"
  by (induction ops arbitrary: s) (auto intro: reach_step)

section \<open>Monotone observations\<close>

text \<open>
  Several components promise that a counter (a high watermark, a watermark, an end offset)
  never moves back, whatever the operations do.
\<close>

locale monotone_system = invariant_system init step inv
  for init :: "'s \<Rightarrow> bool" and step :: "'op \<Rightarrow> 's \<Rightarrow> 's" and inv :: "'s \<Rightarrow> bool" +
  fixes obs :: "'s \<Rightarrow> int"
  assumes obs_step: "inv s \<Longrightarrow> obs s \<le> obs (step op s)"
begin

lemma fold_obs: "inv s \<Longrightarrow> obs s \<le> obs (fold step ops s)"
proof (induction ops arbitrary: s)
  case (Cons op ops)
  from Cons.prems have "obs s \<le> obs (step op s)" by (rule obs_step)
  also have "\<dots> \<le> obs (fold step ops (step op s))"
    using Cons by (auto intro: inv_step)
  finally show ?case by simp
qed simp

end

end
