(* ===== verification/Topic_Partition.thy ===== *)
theory Topic_Partition
  imports Prelude
begin

text \<open>
  The partitioned log of \<open>mini-message-stream\<close> (\<open>topic_partition.h\<close>,
  \<open>topic_partition.c\<close>): a topic is an array of partitions, a partition an array of at most
  eight segments, a segment an array of at most 128 records, the last segment being the
  active one. An array with its element count is a list of that length. The partition's
  invariant, the behaviour of append, roll and read against the flat list of records, and
  the capacity of a partition are proved here; the interface \<open>offset_log\<close> is what the
  clients of a partition (broker, producer) rely on.
\<close>

section \<open>Constants and data\<close>

definition MAX_PARTITIONS :: nat where [c_consts]: "MAX_PARTITIONS = 8"
definition MAX_SEGMENTS :: nat where [c_consts]: "MAX_SEGMENTS = 8"
definition MAX_RECORDS_PER_SEG :: nat where [c_consts]: "MAX_RECORDS_PER_SEG = 128"
definition MAX_KEY_LEN :: nat where [c_consts]: "MAX_KEY_LEN = 256"
definition MAX_VALUE_LEN :: nat where [c_consts]: "MAX_VALUE_LEN = 4096"
definition MAX_HEADER_LEN :: nat where [c_consts]: "MAX_HEADER_LEN = 1024"
definition MAX_TOPIC_NAME_LEN :: nat where [c_consts]: "MAX_TOPIC_NAME_LEN = 128"
definition MAX_REPLICAS :: nat where [c_consts]: "MAX_REPLICAS = 4"

record msg_record =
  r_offset :: int
  r_timestamp :: int
  r_key :: string
  r_value :: string
  r_headers :: string

record log_segment =
  base_offset :: int
  records :: "msg_record list"
  is_active :: bool

record log_partition =
  part_id :: int
  leader_broker :: int
  replicas :: "int list"
  segments :: "log_segment list"
  active_segment_idx :: nat

record topic =
  topic_name :: string
  partitions :: "log_partition list"
  retention_ms :: int

text \<open>The size of a \<open>Record\<close>: two 8 byte integers and the three character arrays.\<close>

definition sizeof_Record :: int where
  "sizeof_Record = 16 + int (MAX_KEY_LEN + MAX_VALUE_LEN + MAX_HEADER_LEN)"

section \<open>Operations\<close>

definition seg_end :: "log_segment \<Rightarrow> int" where
  "seg_end seg = base_offset seg + int (length (records seg))"

definition active_seg :: "log_partition \<Rightarrow> log_segment" where
  "active_seg p = segments p ! active_segment_idx p"

definition empty_partition :: "nat \<Rightarrow> log_partition" where
  "empty_partition i =
     \<lparr> part_id = int i, leader_broker = -1, replicas = [],
       segments = [\<lparr> base_offset = 0, records = [], is_active = True \<rparr>],
       active_segment_idx = 0 \<rparr>"

definition topic_create :: "bool \<Rightarrow> string \<Rightarrow> int \<Rightarrow> int \<Rightarrow> topic option" where
  "topic_create mem name num_partitions retention =
     (if num_partitions < 1 \<or> num_partitions > int MAX_PARTITIONS then None
      else if \<not> mem then None
      else Some \<lparr> topic_name = c_strncpy (MAX_TOPIC_NAME_LEN - 1) name,
                  partitions = map empty_partition [0..<nat num_partitions],
                  retention_ms = retention \<rparr>)"

definition partition_roll_segment :: "log_partition \<Rightarrow> log_partition" where
  "partition_roll_segment p =
     (if length (segments p) \<ge> MAX_SEGMENTS then p
      else
        (let active = active_seg p;
             next_base = seg_end active;
             closed = (segments p)[active_segment_idx p := active\<lparr>is_active := False\<rparr>]
         in p\<lparr> segments := closed @ [\<lparr> base_offset = next_base, records = [], is_active = True \<rparr>],
               active_segment_idx := length (segments p) \<rparr>))"

definition make_record ::
  "int \<Rightarrow> int \<Rightarrow> string option \<Rightarrow> string option \<Rightarrow> string option \<Rightarrow> msg_record" where
  "make_record now offset key value headers =
     \<lparr> r_offset = offset, r_timestamp = now,
       r_key = (case key of Some k \<Rightarrow> c_strncpy (MAX_KEY_LEN - 1) k | None \<Rightarrow> []),
       r_value = (case value of Some v \<Rightarrow> c_strncpy (MAX_VALUE_LEN - 1) v | None \<Rightarrow> []),
       r_headers = (case headers of Some h \<Rightarrow> c_strncpy (MAX_HEADER_LEN - 1) h | None \<Rightarrow> []) \<rparr>"

definition partition_append ::
  "int \<Rightarrow> string option \<Rightarrow> string option \<Rightarrow> string option \<Rightarrow> log_partition \<Rightarrow> int \<times> log_partition"
where
  "partition_append now key value headers p =
     (if segments p = [] then (-1, p)
      else
        (let p' = (if length (records (active_seg p)) \<ge> MAX_RECORDS_PER_SEG
                   then partition_roll_segment p else p);
             seg = active_seg p'
         in if length (records seg) < MAX_RECORDS_PER_SEG \<and> is_active seg then
              (let offset = seg_end seg;
                   rec = make_record now offset key value headers
               in (offset,
                   p'\<lparr> segments := (segments p')[active_segment_idx p' :=
                         seg\<lparr> records := records seg @ [rec] \<rparr>] \<rparr>))
            else (-1, p')))"

fun read_records :: "int \<Rightarrow> int \<Rightarrow> msg_record list \<Rightarrow> msg_record list \<Rightarrow> msg_record list" where
  "read_records start max_records [] out = out"
| "read_records start max_records (r # rs) out =
     (if int (length out) < max_records then
        read_records start max_records rs (if r_offset r \<ge> start then out @ [r] else out)
      else out)"

fun read_segments :: "int \<Rightarrow> int \<Rightarrow> log_segment list \<Rightarrow> msg_record list \<Rightarrow> msg_record list" where
  "read_segments start max_records [] out = out"
| "read_segments start max_records (seg # segs) out =
     (if int (length out) < max_records then
        (if start \<ge> seg_end seg then read_segments start max_records segs out
         else read_segments start max_records segs
                (read_records start max_records (records seg) out))
      else out)"

definition partition_read :: "log_partition \<Rightarrow> int \<Rightarrow> int \<Rightarrow> msg_record list" where
  "partition_read p start_offset max_records =
     read_segments start_offset max_records (segments p) []"

definition partition_get_segment_count :: "log_partition \<Rightarrow> int" where
  "partition_get_segment_count p = int (length (segments p))"

definition partition_get_end_offset :: "log_partition \<Rightarrow> int" where
  "partition_get_end_offset p =
     (if segments p = [] then 0 else seg_end (active_seg p))"

section \<open>The log a partition stands for\<close>

definition log_of :: "log_partition \<Rightarrow> msg_record list" where
  "log_of p = concat (map records (segments p))"

definition segment_ok :: "log_segment \<Rightarrow> bool" where
  "segment_ok seg \<longleftrightarrow>
     0 \<le> base_offset seg \<and> length (records seg) \<le> MAX_RECORDS_PER_SEG \<and>
     (\<forall>r \<in> set (records seg). length (r_key r) < MAX_KEY_LEN) \<and>
     map r_offset (records seg) =
       map (\<lambda>i. base_offset seg + int i) [0..<length (records seg)]"

text \<open>
  Segments follow each other: the next one starts at or after the end of the previous one
  (after it, once the cleaner has emptied a segment).
\<close>

definition segs_ordered :: "log_segment list \<Rightarrow> bool" where
  "segs_ordered segs = sorted_wrt (\<lambda>a b. seg_end a \<le> base_offset b) segs"

definition wf_partition :: "log_partition \<Rightarrow> bool" where
  "wf_partition p \<longleftrightarrow>
     segments p \<noteq> [] \<and> length (segments p) \<le> MAX_SEGMENTS \<and>
     active_segment_idx p = length (segments p) - 1 \<and>
     is_active (last (segments p)) \<and>
     (\<forall>seg \<in> set (butlast (segments p)). \<not> is_active seg) \<and>
     (\<forall>seg \<in> set (segments p). segment_ok seg) \<and>
     segs_ordered (segments p)"

definition room :: "log_partition \<Rightarrow> nat" where
  "room p = (MAX_SEGMENTS - length (segments p)) * MAX_RECORDS_PER_SEG +
            (MAX_RECORDS_PER_SEG - length (records (active_seg p)))"

text \<open>A log from which nothing was cleaned holds every offset from 0 to its end.\<close>

definition complete_log :: "log_partition \<Rightarrow> bool" where
  "complete_log p \<longleftrightarrow> map r_offset (log_of p) = map int [0..<length (log_of p)]
                    \<and> partition_get_end_offset p = int (length (log_of p))"


section \<open>Shape of a well-formed partition\<close>

lemma wf_partitionE:
  assumes "wf_partition p"
  obtains init act where
    "segments p = init @ [act]" "active_segment_idx p = length init"
    "active_seg p = act" "length init < MAX_SEGMENTS" "is_active act"
    "\<forall>seg \<in> set init. \<not> is_active seg" "\<forall>seg \<in> set init. segment_ok seg" "segment_ok act"
    "segs_ordered (init @ [act])"
proof -
  from assms have ne: "segments p \<noteq> []" by (simp add: wf_partition_def)
  define init act where "init = butlast (segments p)" and "act = last (segments p)"
  with ne have eq: "segments p = init @ [act]" by simp
  from assms have idx: "active_segment_idx p = length init"
    by (simp add: wf_partition_def eq)
  show thesis
  proof (rule that[OF eq idx])
    show "active_seg p = act" by (simp add: active_seg_def eq idx)
  qed (use assms in \<open>simp_all add: wf_partition_def eq\<close>)
qed

lemma wf_partitionI:
  assumes "segments p = init @ [act]" "active_segment_idx p = length init"
    "length init < MAX_SEGMENTS" "is_active act"
    "\<forall>seg \<in> set init. \<not> is_active seg" "\<forall>seg \<in> set init. segment_ok seg" "segment_ok act"
    "segs_ordered (init @ [act])"
  shows "wf_partition p"
  using assms(2-) by (simp add: wf_partition_def assms(1) ball_Un)

lemma active_seg_snoc:
  "segments p = init @ [act] \<Longrightarrow> active_segment_idx p = length init \<Longrightarrow> active_seg p = act"
  by (simp add: active_seg_def)

lemma segs_ordered_snoc:
  "segs_ordered (init @ [act]) \<longleftrightarrow>
     segs_ordered init \<and> (\<forall>seg \<in> set init. seg_end seg \<le> base_offset act)"
  by (simp add: segs_ordered_def sorted_wrt_append)

lemma seg_end_ge: "base_offset seg \<le> seg_end seg"
  by (simp add: seg_end_def)

lemma segment_ok_offset:
  assumes "segment_ok seg" "i < length (records seg)"
  shows "r_offset (records seg ! i) = base_offset seg + int i"
proof -
  have "map r_offset (records seg) ! i =
        map (\<lambda>i. base_offset seg + int i) [0..<length (records seg)] ! i"
    using assms(1) by (simp add: segment_ok_def)
  with assms(2) show ?thesis by simp
qed

lemma segment_ok_bounds:
  assumes "segment_ok seg" "r \<in> set (records seg)"
  shows "base_offset seg \<le> r_offset r \<and> r_offset r < seg_end seg"
  using assms by (auto simp: in_set_conv_nth segment_ok_offset seg_end_def)

lemma segment_ok_empty [simp]:
  "segment_ok \<lparr>base_offset = b, records = [], is_active = a\<rparr> \<longleftrightarrow> 0 \<le> b"
  by (simp add: segment_ok_def)

lemma segment_ok_end: "segment_ok seg \<Longrightarrow> 0 \<le> seg_end seg"
  by (simp add: segment_ok_def seg_end_def)

lemma segment_ok_active [simp]: "segment_ok (seg\<lparr>is_active := a\<rparr>) = segment_ok seg"
  by (simp add: segment_ok_def)

lemma seg_end_active [simp]: "seg_end (seg\<lparr>is_active := a\<rparr>) = seg_end seg"
  by (simp add: seg_end_def)

lemma seg_end_snoc [simp]: "seg_end (seg\<lparr>records := records seg @ [r]\<rparr>) = seg_end seg + 1"
  by (simp add: seg_end_def)

lemma segment_ok_snoc:
  "segment_ok seg \<Longrightarrow> length (records seg) < MAX_RECORDS_PER_SEG \<Longrightarrow> r_offset r = seg_end seg \<Longrightarrow>
     length (r_key r) < MAX_KEY_LEN \<Longrightarrow> segment_ok (seg\<lparr>records := records seg @ [r]\<rparr>)"
  by (simp add: segment_ok_def seg_end_def)

lemma wf_active_ok: "wf_partition p \<Longrightarrow> segment_ok (active_seg p)"
  by (erule wf_partitionE) simp

lemma end_offset_wf: "wf_partition p \<Longrightarrow> partition_get_end_offset p = seg_end (active_seg p)"
  by (auto simp: partition_get_end_offset_def wf_partition_def)

lemma end_offset_nonneg: "wf_partition p \<Longrightarrow> 0 \<le> partition_get_end_offset p"
  by (simp add: end_offset_wf segment_ok_end wf_active_ok)

lemma room_0_iff:
  assumes "wf_partition p"
  shows "room p = 0 \<longleftrightarrow>
    length (segments p) = MAX_SEGMENTS \<and> length (records (active_seg p)) = MAX_RECORDS_PER_SEG"
  using assms by (elim wf_partitionE) (auto simp: room_def segment_ok_def c_consts)

lemma log_offsets_lt_end:
  assumes "wf_partition p" "r \<in> set (log_of p)"
  shows "r_offset r < partition_get_end_offset p"
proof -
  from assms(1) show ?thesis
  proof (rule wf_partitionE)
    fix init act
    assume a: "segments p = init @ [act]" "active_seg p = act" "segment_ok act"
      "\<forall>seg \<in> set init. segment_ok seg" "segs_ordered (init @ [act])"
    from a(1) assms(2) obtain seg where s: "seg \<in> set init \<or> seg = act" "r \<in> set (records seg)"
      by (auto simp: log_of_def)
    moreover have "segment_ok seg" using s a by auto
    moreover have "seg_end seg \<le> seg_end act"
      using s a seg_end_ge[of act] by (auto simp: segs_ordered_snoc)
    ultimately show ?thesis
      using end_offset_wf[OF assms(1)] a segment_ok_bounds[of seg r] by simp
  qed
qed

lemma log_sorted:
  assumes "wf_partition p"
  shows "sorted_wrt (\<lambda>r s. r_offset r < r_offset s) (log_of p)"
proof -
  have "sorted_wrt (\<lambda>r s. r_offset r < r_offset s) (concat (map records segs))"
    if "\<forall>seg \<in> set segs. segment_ok seg" "segs_ordered segs" for segs
    using that
  proof (induction segs rule: rev_induct)
    case (snoc seg segs)
    have "sorted_wrt (\<lambda>r s. r_offset r < r_offset s) (records seg)"
      using snoc.prems by (auto simp: sorted_wrt_iff_nth_less segment_ok_offset)
    moreover have "r_offset r < r_offset s"
      if "seg' \<in> set segs" "r \<in> set (records seg')" "s \<in> set (records seg)" for seg' r s
      using that snoc.prems segment_ok_bounds[of seg' r] segment_ok_bounds[of seg s]
      by (force simp: segs_ordered_snoc)
    ultimately show ?case
      using snoc by (auto simp: sorted_wrt_append segs_ordered_snoc)
  qed simp
  with assms show ?thesis by (auto simp: wf_partition_def log_of_def)
qed

section \<open>Creation and rolling\<close>

lemma wf_empty_partition [simp]: "wf_partition (empty_partition i)"
  by (simp add: wf_partition_def empty_partition_def c_consts segs_ordered_def)

lemma log_of_empty_partition [simp]: "log_of (empty_partition i) = []"
  by (simp add: log_of_def empty_partition_def)

lemma end_offset_empty [simp]: "partition_get_end_offset (empty_partition i) = 0"
  by (simp add: partition_get_end_offset_def empty_partition_def active_seg_def seg_end_def)

lemma room_empty [simp]: "room (empty_partition i) = 1024"
  by (simp add: room_def empty_partition_def active_seg_def c_consts)

lemma complete_empty [simp]: "complete_log (empty_partition i)"
  by (simp add: complete_log_def)

lemma roll_spec:
  assumes "wf_partition p" "length (segments p) < MAX_SEGMENTS"
  shows "wf_partition (partition_roll_segment p)"
    and "log_of (partition_roll_segment p) = log_of p"
    and "active_seg (partition_roll_segment p) =
           \<lparr>base_offset = partition_get_end_offset p, records = [], is_active = True\<rparr>"
    and "length (segments (partition_roll_segment p)) = Suc (length (segments p))"
proof -
  from assms(1) have "wf_partition (partition_roll_segment p) \<and>
    log_of (partition_roll_segment p) = log_of p \<and>
    active_seg (partition_roll_segment p) =
      \<lparr>base_offset = partition_get_end_offset p, records = [], is_active = True\<rparr> \<and>
    length (segments (partition_roll_segment p)) = Suc (length (segments p))"
  proof (rule wf_partitionE)
    fix init act
    assume a: "segments p = init @ [act]" "active_segment_idx p = length init"
      "active_seg p = act" "is_active act" "\<forall>seg \<in> set init. \<not> is_active seg"
      "\<forall>seg \<in> set init. segment_ok seg" "segment_ok act" "segs_ordered (init @ [act])"
    define new where
      "new = \<lparr>base_offset = partition_get_end_offset p, records = [], is_active = True\<rparr>"
    have roll: "partition_roll_segment p =
      p\<lparr>segments := (init @ [act\<lparr>is_active := False\<rparr>]) @ [new],
        active_segment_idx := length (init @ [act\<lparr>is_active := False\<rparr>])\<rparr>"
      using assms a by (simp add: partition_roll_segment_def Let_def new_def end_offset_wf
          list_update_append)
    have "segs_ordered ((init @ [act\<lparr>is_active := False\<rparr>]) @ [new])"
      using a(8) seg_end_ge[of act] order_trans[OF _ seg_end_ge[of act]]
      by (auto simp: segs_ordered_def sorted_wrt_append new_def end_offset_wf[OF assms(1)] a(3))
    then have "wf_partition (partition_roll_segment p)"
      using a assms(2)
      by (intro wf_partitionI[of _ "init @ [act\<lparr>is_active := False\<rparr>]" new])
        (auto simp: roll new_def end_offset_nonneg[OF assms(1)])
    then show ?thesis
      using a by (simp add: roll log_of_def active_seg_def new_def nth_append)
  qed
  then show "wf_partition (partition_roll_segment p)"
    and "log_of (partition_roll_segment p) = log_of p"
    and "active_seg (partition_roll_segment p) =
           \<lparr>base_offset = partition_get_end_offset p, records = [], is_active = True\<rparr>"
    and "length (segments (partition_roll_segment p)) = Suc (length (segments p))"
    by simp_all
qed


section \<open>Append\<close>

text \<open>Appending to an active segment that has space.\<close>


definition push_active :: "msg_record \<Rightarrow> log_partition \<Rightarrow> log_partition" where
  "push_active r p = p\<lparr>segments := (segments p)[active_segment_idx p :=
     (active_seg p)\<lparr>records := records (active_seg p) @ [r]\<rparr>]\<rparr>"

lemma push_active_spec:
  assumes "wf_partition p" "length (records (active_seg p)) < MAX_RECORDS_PER_SEG"
    "r_offset r = partition_get_end_offset p" "length (r_key r) < MAX_KEY_LEN"
  shows "wf_partition (push_active r p) \<and> log_of (push_active r p) = log_of p @ [r] \<and>
    partition_get_end_offset (push_active r p) = partition_get_end_offset p + 1 \<and>
    Suc (room (push_active r p)) = room p"
  using assms(1)
proof (rule wf_partitionE)
  fix init act
  assume a: "segments p = init @ [act]" "active_segment_idx p = length init"
    "active_seg p = act" "length init < MAX_SEGMENTS" "is_active act"
    "\<forall>seg \<in> set init. \<not> is_active seg"
    "\<forall>seg \<in> set init. segment_ok seg" "segment_ok act" "segs_ordered (init @ [act])"
  let ?act = "act\<lparr>records := records act @ [r]\<rparr>"
  have push: "push_active r p = p\<lparr>segments := init @ [?act]\<rparr>"
    using a by (simp add: push_active_def)
  have ok: "segment_ok ?act"
    using a assms by (intro segment_ok_snoc) (simp_all add: end_offset_wf)
  have wf: "wf_partition (push_active r p)"
    using a ok by (intro wf_partitionI[of _ init ?act])
      (auto simp: push segs_ordered_snoc)
  have act: "active_seg (push_active r p) = ?act"
    using a by (simp add: push active_seg_def)
  show ?thesis
    using a assms wf by (auto simp: end_offset_wf act log_of_def room_def) (auto simp: push)
qed

lemma append_when_space:
  assumes "wf_partition p" "length (records (active_seg p)) < MAX_RECORDS_PER_SEG"
  shows "partition_append now key value headers p =
    (partition_get_end_offset p,
     push_active (make_record now (partition_get_end_offset p) key value headers) p)"
proof -
  have "is_active (active_seg p)" using assms(1) by (rule wf_partitionE) simp
  moreover have "segments p \<noteq> []" using assms(1) by (simp add: wf_partition_def)
  ultimately show ?thesis
    using assms(2)
    by (simp add: partition_append_def Let_def push_active_def end_offset_wf[OF assms(1)])
qed

lemma append_rolls:
  assumes "wf_partition p" "length (records (active_seg p)) \<ge> MAX_RECORDS_PER_SEG"
    "length (segments p) < MAX_SEGMENTS"
  shows "partition_append now key value headers p =
         partition_append now key value headers (partition_roll_segment p)"
proof -
  have "segments p \<noteq> []" using assms(1) by (simp add: wf_partition_def)
  moreover have "segments (partition_roll_segment p) \<noteq> []"
    using roll_spec(4)[OF assms(1,3)] by auto
  ultimately show ?thesis
    using assms roll_spec(3)[OF assms(1,3)]
    by (simp add: partition_append_def Let_def c_consts)
qed

lemma append_when_full:
  assumes "wf_partition p" "room p = 0"
  shows "partition_append now key value headers p = (-1, p)"
proof -
  have "segments p \<noteq> []" using assms(1) by (simp add: wf_partition_def)
  with assms show ?thesis
    by (simp add: partition_append_def room_0_iff partition_roll_segment_def)
qed

lemma room_roll:
  assumes "wf_partition p" "length (records (active_seg p)) = MAX_RECORDS_PER_SEG"
    "length (segments p) < MAX_SEGMENTS"
  shows "room (partition_roll_segment p) = room p"
  using assms roll_spec(3,4)[OF assms(1,3)]
  by (simp add: room_def c_consts)

lemma append_room:
  assumes wf: "wf_partition p" and room: "0 < room p"
    and app: "partition_append now key value headers p = (off, p')"
  shows "wf_partition p' \<and> off = partition_get_end_offset p \<and>
    log_of p' = log_of p @ [make_record now off key value headers] \<and>
    partition_get_end_offset p' = off + 1 \<and> Suc (room p') = room p"
proof (cases "length (records (active_seg p)) < MAX_RECORDS_PER_SEG")
  case True
  let ?r = "make_record now (partition_get_end_offset p) key value headers"
  have "r_offset ?r = partition_get_end_offset p" "length (r_key ?r) < MAX_KEY_LEN"
    by (simp_all add: make_record_def c_consts min_def split: option.splits)
  from push_active_spec[OF wf True this] app append_when_space[OF wf True]
  show ?thesis by auto
next
  case False
  have full: "length (records (active_seg p)) = MAX_RECORDS_PER_SEG"
    using wf_active_ok[OF wf] False by (simp add: segment_ok_def)
  have "length (segments p) < MAX_SEGMENTS"
    using room full room_0_iff[OF wf] wf by (auto simp: wf_partition_def)
  note roll = roll_spec[OF wf this] room_roll[OF wf full this]
  let ?q = "partition_roll_segment p"
  have sp: "length (records (active_seg ?q)) < MAX_RECORDS_PER_SEG"
    using roll(3) by (simp add: c_consts)
  have e: "partition_get_end_offset ?q = partition_get_end_offset p"
    using roll(1,3) by (simp add: end_offset_wf seg_end_def)
  let ?r = "make_record now (partition_get_end_offset ?q) key value headers"
  have "r_offset ?r = partition_get_end_offset ?q" "length (r_key ?r) < MAX_KEY_LEN"
    by (simp_all add: make_record_def c_consts min_def split: option.splits)
  from push_active_spec[OF roll(1) sp this] app append_when_space[OF roll(1) sp]
    append_rolls[OF wf] full \<open>length (segments p) < MAX_SEGMENTS\<close> roll e
  show ?thesis by auto
qed

lemma append_wf [preserves]:
  "wf_partition p \<Longrightarrow> wf_partition (snd (partition_append now key value headers p))"
  by (cases "room p = 0"; cases "partition_append now key value headers p")
    (auto simp: append_when_full dest: append_room)

section \<open>Read\<close>

lemma read_records_eq:
  "read_records start m rs out =
     out @ take (nat m - length out) (filter (\<lambda>r. r_offset r \<ge> start) rs)"
  by (induction rs arbitrary: out) (auto simp: take_Cons' Suc_diff_Suc nat_less_iff)

lemma read_segments_eq:
  "\<forall>seg \<in> set segs. segment_ok seg \<Longrightarrow>
   read_segments start m segs out =
     out @ take (nat m - length out)
             (filter (\<lambda>r. r_offset r \<ge> start) (concat (map records segs)))"
proof (induction segs arbitrary: out)
  case (Cons seg segs)
  have skip: "filter (\<lambda>r. r_offset r \<ge> start) (records seg) = []" if "start \<ge> seg_end seg"
    using that Cons.prems segment_ok_bounds[of seg] by (fastforce simp: filter_empty_conv)
  show ?case
    using Cons skip by (auto simp: read_records_eq min_def) 
qed simp


lemma partition_read_eq:
  "wf_partition p \<Longrightarrow>
   partition_read p start m = take (nat m) (filter (\<lambda>r. r_offset r \<ge> start) (log_of p))"
  by (simp add: partition_read_def log_of_def read_segments_eq wf_partition_def)

section \<open>The interface of an offset log\<close>

text \<open>
  What a client of a partition relies on: every append either stores one entry at the
  current end offset or, without space, reports -1 and changes nothing; a read returns the
  first entries at or after an offset.
\<close>

locale offset_log =
  fixes inv :: "'s \<Rightarrow> bool"
    and recs :: "'s \<Rightarrow> 'r list"
    and end_off :: "'s \<Rightarrow> int"
    and space :: "'s \<Rightarrow> nat"
    and push :: "'a \<Rightarrow> 's \<Rightarrow> int \<times> 's"
    and entry :: "'a \<Rightarrow> int \<Rightarrow> 'r"
  assumes push_space: "inv s \<Longrightarrow> 0 < space s \<Longrightarrow> push a s = (off, s') \<Longrightarrow>
      inv s' \<and> off = end_off s \<and> recs s' = recs s @ [entry a off] \<and>
      end_off s' = off + 1 \<and> Suc (space s') = space s"
    and push_full: "inv s \<Longrightarrow> space s = 0 \<Longrightarrow> push a s = (-1, s)"
begin

lemma push_inv: "inv s \<Longrightarrow> push a s = (off, s') \<Longrightarrow> inv s'"
  using push_space push_full by (cases "space s = 0") fastforce+

lemma push_many_full:
  "inv s \<Longrightarrow> space s = 0 \<Longrightarrow> run_all push as s = (replicate (length as) (-1), s)"
  by (induction as) (simp_all add: push_full)

lemma push_many:
  assumes "inv s" "run_all push as s = (offs, s')"
  shows "inv s' \<and>
    offs = map (\<lambda>i. if i < space s then end_off s + int i else -1) [0..<length as] \<and>
    recs s' = recs s @ map (\<lambda>i. entry (as ! i) (end_off s + int i)) [0..<min (length as) (space s)] \<and>
    end_off s' = end_off s + int (min (length as) (space s)) \<and>
    space s' = space s - length as"
  using assms
proof (induction as arbitrary: s offs s')
  case (Cons a as)
  show ?case
  proof (cases "space s = 0")
    case True
    then show ?thesis
      using push_many_full[OF Cons.prems(1) True, of "a # as"] Cons.prems
      by (simp add: map_replicate_const)
  next
    case False
    obtain o1 s1 where p: "push a s = (o1, s1)" by (cases "push a s")
    obtain os s2 where r: "run_all push as s1 = (os, s2)" by (cases "run_all push as s1")
    from push_space[OF Cons.prems(1) _ p] False
    have h: "inv s1" "o1 = end_off s" "recs s1 = recs s @ [entry a o1]"
      "end_off s1 = o1 + 1" "Suc (space s1) = space s" by auto
    from Cons.IH[OF h(1) r]
    have ih: "inv s2"
      "os = map (\<lambda>i. if i < space s1 then end_off s1 + int i else -1) [0..<length as]"
      "recs s2 = recs s1 @ map (\<lambda>i. entry (as ! i) (end_off s1 + int i))
                             [0..<min (length as) (space s1)]"
      "end_off s2 = end_off s1 + int (min (length as) (space s1))"
      "space s2 = space s1 - length as" by auto
    have out: "offs = o1 # os" "s' = s2" using Cons.prems(2) p r by auto
    have m: "min (Suc (length as)) (space s) = Suc (min (length as) (space s1))"
      using h(5) by simp
    show ?thesis
      unfolding out ih list.size
      using ih(1) h by (auto simp: algebra_simps map_upt_Suc m simp del: upt_Suc)
  qed
qed simp

end

locale readable_log = offset_log inv recs end_off space push entry
  for inv :: "'s \<Rightarrow> bool"
    and recs :: "'s \<Rightarrow> 'r list"
    and end_off :: "'s \<Rightarrow> int"
    and space :: "'s \<Rightarrow> nat"
    and push :: "'a \<Rightarrow> 's \<Rightarrow> int \<times> 's"
    and entry :: "'a \<Rightarrow> int \<Rightarrow> 'r" +
  fixes read :: "'s \<Rightarrow> int \<Rightarrow> int \<Rightarrow> 'r list"
    and off_of :: "'r \<Rightarrow> int"
  assumes read_law: "inv s \<Longrightarrow> read s start m = take (nat m) (filter (\<lambda>r. off_of r \<ge> start) (recs s))"
    and entry_off: "off_of (entry a off) = off"
    and recs_lt: "inv s \<Longrightarrow> r \<in> set (recs s) \<Longrightarrow> off_of r < end_off s"
    and recs_sorted: "inv s \<Longrightarrow> sorted_wrt (\<lambda>r r'. off_of r < off_of r') (recs s)"
begin

lemma read_at_end: "inv s \<Longrightarrow> end_off s \<le> start \<Longrightarrow> read s start m = []"
  using recs_lt by (fastforce simp: read_law filter_empty_conv)

lemma read_own_write:
  assumes "inv s" "0 < space s" "push a s = (off, s')" "0 < m"
  shows "read s' off m = [entry a off]"
proof -
  from push_space[OF assms(1-3)]
  have h: "inv s'" "off = end_off s" "recs s' = recs s @ [entry a off]" by auto
  have "filter (\<lambda>r. off_of r \<ge> off) (recs s) = []"
    using recs_lt[OF assms(1)] h(2) by (fastforce simp: filter_empty_conv)
  then show ?thesis using assms(4) by (simp add: read_law h(1,3) entry_off)
qed

text \<open>Reading on from the offset after the last record returned loses and repeats nothing.\<close>

lemma filter_after_prefix:
  assumes "sorted_wrt (\<lambda>r r'. off_of r < off_of r') xs" "k < length xs"
  shows "filter (\<lambda>r. off_of r \<ge> off_of (xs ! k) + 1) xs = drop (Suc k) xs"
proof -
  have less: "off_of (xs ! i) < off_of (xs ! j)" if "i < j" "j < length xs" for i j
    using assms(1) that by (simp add: sorted_wrt_iff_nth_less)
  have "off_of r \<le> off_of (xs ! k)" if r: "r \<in> set (take (Suc k) xs)" for r
  proof -
    from r obtain i where "i < Suc k" "r = xs ! i" by (auto simp: in_set_conv_nth)
    then show ?thesis using less[of i k] assms(2) by (cases "i = k") auto
  qed
  then have "filter (\<lambda>r. off_of r \<ge> off_of (xs ! k) + 1) (take (Suc k) xs) = []"
    by (fastforce simp: filter_empty_conv)
  moreover have "off_of (xs ! k) + 1 \<le> off_of r" if r: "r \<in> set (drop (Suc k) xs)" for r
  proof -
    from r obtain i where "i < length (drop (Suc k) xs)" "r = drop (Suc k) xs ! i"
      unfolding in_set_conv_nth by blast
    then have "i < length xs - Suc k" "r = xs ! Suc (k + i)" by simp_all
    moreover from this have "Suc (k + i) < length xs" by linarith
    ultimately show ?thesis using less[of k "Suc (k + i)"] by simp
  qed
  then have "filter (\<lambda>r. off_of r \<ge> off_of (xs ! k) + 1) (drop (Suc k) xs) = drop (Suc k) xs"
    by (simp add: filter_id_conv)
  ultimately show ?thesis by (metis append_Nil append_take_drop_id filter_append)
qed

lemma read_resume:
  assumes "inv s" "read s start m = batch" "batch \<noteq> []"
  shows "batch @ read s (off_of (last batch) + 1) k = read s start (m + max k 0)"
proof -
  let ?xs = "filter (\<lambda>r. off_of r \<ge> start) (recs s)"
  have s: "sorted_wrt (\<lambda>r r'. off_of r < off_of r') ?xs"
    using recs_sorted[OF assms(1)] by (rule sorted_wrt_filter)
  have b: "batch = take (nat m) ?xs" using assms(2) read_law[OF assms(1)] by simp
  define j where "j = length batch - 1"
  have lb: "length batch \<le> length ?xs" "0 < length batch"
    using assms(3) b by auto
  then have j: "j < length ?xs" "Suc j = length batch" unfolding j_def by linarith+
  have l: "last batch = batch ! j" using assms(3) by (simp add: last_conv_nth j_def)
  also have "\<dots> = ?xs ! j" using j(2) unfolding b by simp
  finally have j3: "last batch = ?xs ! j" .
  have m: "nat m > 0" using assms(3) b by (cases "nat m") auto
  have "filter (\<lambda>r. off_of r \<ge> off_of (last batch) + 1) (recs s) =
        filter (\<lambda>r. off_of r \<ge> off_of (last batch) + 1) ?xs"
  proof -
    have "start \<le> off_of (last batch)" using j(1) nth_mem[OF j(1)] by (simp add: j3)
    then show ?thesis by (auto intro!: filter_cong simp: filter_filter)
  qed
  also have "\<dots> = drop (length batch) ?xs"
    using filter_after_prefix[OF s j(1)] j(2) j3 by simp
  finally have r: "read s (off_of (last batch) + 1) k = take (nat k) (drop (length batch) ?xs)"
    by (simp add: read_law[OF assms(1)])
  have "nat (m + max k 0) = nat m + nat k" using m by auto
  then have "read s start (m + max k 0) = take (nat m + nat k) ?xs"
    by (simp add: read_law[OF assms(1)])
  also have "\<dots> = take (nat m) ?xs @ take (nat k) (drop (nat m) ?xs)"
    by (simp add: take_add)
  also have "\<dots> = batch @ take (nat k) (drop (length batch) ?xs)"
    unfolding b by (cases "nat m \<le> length ?xs") auto
  finally show ?thesis by (simp add: r)
qed

end


section \<open>Partitions provide the interface\<close>

type_synonym append_args = "int \<times> string option \<times> string option \<times> string option"

definition append_to :: "append_args \<Rightarrow> log_partition \<Rightarrow> int \<times> log_partition" where
  "append_to a p = (case a of (now, k, v, h) \<Rightarrow> partition_append now k v h p)"

definition record_of :: "append_args \<Rightarrow> int \<Rightarrow> msg_record" where
  "record_of a off = (case a of (now, k, v, h) \<Rightarrow> make_record now off k v h)"

interpretation plog: readable_log wf_partition log_of partition_get_end_offset room append_to
  record_of partition_read r_offset
proof
  fix p p' :: log_partition and a :: append_args and off :: int
  show "wf_partition p \<Longrightarrow> 0 < room p \<Longrightarrow> append_to a p = (off, p') \<Longrightarrow>
      wf_partition p' \<and> off = partition_get_end_offset p \<and>
      log_of p' = log_of p @ [record_of a off] \<and>
      partition_get_end_offset p' = off + 1 \<and> Suc (room p') = room p"
    by (cases a) (simp add: append_to_def record_of_def append_room)
  show "wf_partition p \<Longrightarrow> room p = 0 \<Longrightarrow> append_to a p = (-1, p)"
    by (cases a) (simp add: append_to_def append_when_full)
  show "r_offset (record_of a off) = off"
    by (cases a) (simp add: record_of_def make_record_def)
qed (auto simp: partition_read_eq log_offsets_lt_end log_sorted)


section \<open>Properties\<close>

text \<open>
  C1. Appending to a well-formed partition: with space left the record is stored at the end
  of the log under the partition's end offset, which grows by one, and the partition stays
  well formed (contiguous segments of at most 128 records, the last one active); with all
  eight segments full the call returns -1 and changes nothing.
\<close>

theorem partition_append_spec:
  assumes "wf_partition p" "partition_append now key value headers p = (off, p')"
  shows "wf_partition p' \<and>
    (if room p = 0 then off = -1 \<and> p' = p
     else off = partition_get_end_offset p \<and>
          log_of p' = log_of p @ [make_record now off key value headers] \<and>
          partition_get_end_offset p' = off + 1 \<and> room p' = room p - 1)"
proof (cases "room p = 0")
  case True
  with assms append_when_full[OF assms(1) True] show ?thesis by simp
next
  case False
  with append_room[OF assms(1) _ assms(2)] show ?thesis by auto
qed

theorem partition_append_spec_witness:
  "\<exists>p'. partition_append 7 (Some ''k'') (Some ''v'') None (empty_partition 0) = (0, p') \<and>
     wf_partition p' \<and> room p' = 1023"
proof -
  obtain off p' where a:
    "partition_append 7 (Some ''k'') (Some ''v'') None (empty_partition 0) = (off, p')"
    by (cases "partition_append 7 (Some ''k'') (Some ''v'') None (empty_partition 0)")
  from partition_append_spec[OF wf_empty_partition a] a show ?thesis by auto
qed


lemma partition_append_three:
  "\<exists>p. run_all append_to [(1, None, Some ''a'', None), (2, None, Some ''b'', None),
                          (3, None, Some ''c'', None)] (empty_partition 0) = ([0, 1, 2], p) \<and>
     wf_partition p \<and>
     log_of p = [make_record 1 0 None (Some ''a'') None, make_record 2 1 None (Some ''b'') None,
                 make_record 3 2 None (Some ''c'') None]"
proof -
  let ?as = "[(1, None, Some ''a'', None), (2, None, Some ''b'', None),
              (3, None, Some ''c'', None)] :: append_args list"
  obtain offs p where r: "run_all append_to ?as (empty_partition 0) = (offs, p)"
    by (cases "run_all append_to ?as (empty_partition 0)")
  from plog.push_many[OF wf_empty_partition r] r show ?thesis
    by (simp add: record_of_def upt_rec)
qed

text \<open>
  C2. A read returns exactly the first \<open>max_records\<close> records of the log, in order, whose
  offset is at least the one asked for, across segment boundaries.
\<close>

theorem partition_read_spec:
  assumes "wf_partition p"
  shows "partition_read p start_offset max_records =
         take (nat max_records) (filter (\<lambda>r. start_offset \<le> r_offset r) (log_of p))"
  using assms by (rule partition_read_eq)

theorem partition_read_spec_witness:
  "\<exists>p. wf_partition p \<and> map r_offset (log_of p) = [0, 1, 2] \<and>
     map r_offset (partition_read p 1 10) = [1, 2] \<and> map r_offset (partition_read p 0 2) = [0, 1]"
proof -
  obtain p where p: "wf_partition p" and
    l: "log_of p = [make_record 1 0 None (Some ''a'') None, make_record 2 1 None (Some ''b'') None,
                 make_record 3 2 None (Some ''c'') None]"
    using partition_append_three by blast
  show ?thesis
    by (intro exI[of _ p]) (simp add: p partition_read_spec[OF p] l make_record_def)
qed

text \<open>
  A consumer that reads a batch and asks again from the offset after the batch's last
  record sees the log without a gap and without a repetition.
\<close>

theorem partition_read_resume:
  assumes "wf_partition p" "partition_read p start m = batch" "batch \<noteq> []"
  shows "batch @ partition_read p (r_offset (last batch) + 1) k =
         partition_read p start (m + max k 0)"
  using assms by (rule plog.read_resume)

theorem partition_read_resume_witness:
  "\<exists>p batch. map r_offset batch = [0, 1] \<and>
     map r_offset (batch @ partition_read p 2 5) = [0, 1, 2]"
proof -
  obtain p where p: "wf_partition p" and
    l: "log_of p = [make_record 1 0 None (Some ''a'') None, make_record 2 1 None (Some ''b'') None,
                 make_record 3 2 None (Some ''c'') None]"
    using partition_append_three by blast
  let ?b = "[make_record 1 0 None (Some ''a'') None, make_record 2 1 None (Some ''b'') None]"
  have b: "partition_read p 0 2 = ?b"
    using partition_read_eq[OF p, of 0 2] by (simp add: l make_record_def)
  have "?b @ partition_read p 2 5 = partition_read p 0 7"
    using partition_read_resume[OF p b, of 5] by (simp add: make_record_def)
  then show ?thesis
    by (intro exI[of _ p] exI[of _ ?b])
      (simp add: partition_read_eq[OF p] l make_record_def)
qed

text \<open>
  Whatever is appended to a partition as \<open>topic_create\<close> makes it, the first 1024
  appends get the offsets 0, 1, 2, ... and every later one is refused with -1; the log holds
  exactly the accepted records in order.
\<close>

theorem partition_capacity:
  "fst (run_all append_to as (empty_partition i)) =
     map (\<lambda>k. if k < 1024 then int k else -1) [0..<length as] \<and>
   log_of (snd (run_all append_to as (empty_partition i))) =
     map (\<lambda>k. record_of (as ! k) (int k)) [0..<min (length as) 1024]"
  using plog.push_many[OF wf_empty_partition prod.collapse[symmetric], of as i] by simp

end
