(* ===== verification/Offset_Manager.thy ===== *)
theory Offset_Manager
  imports Prelude
begin

text \<open>
  The store of committed consumer offsets (\<open>offset_manager.h\<close>, \<open>offset_manager.c\<close>): at
  most 16 groups, each with at most 16 topics, each with 8 partition slots. Groups and
  topics are found by name and created on first use, also by a fetch. The store refines a
  map from (group, topic, partition) to the committed offset for names that fit their
  arrays; names that do not fit are stored truncated and never found again. The interface
  \<open>commit_store\<close> is what a consumer relies on.
\<close>

definition MAX_OFFSET_GROUPS :: nat where [c_consts]: "MAX_OFFSET_GROUPS = 16"
definition MAX_OFFSET_TOPICS :: nat where [c_consts]: "MAX_OFFSET_TOPICS = 16"
definition MAX_OFFSET_PARTS :: nat where [c_consts]: "MAX_OFFSET_PARTS = 8"

record partition_offset =
  committed_offset :: int
  is_set :: bool

record topic_offset =
  to_topic :: string
  partition_offsets :: "partition_offset list"
  to_partition_count :: int

record group_offset =
  go_group_id :: string
  topic_offsets :: "topic_offset list"

record offset_store =
  go_groups :: "group_offset list"

section \<open>Operations\<close>

definition offset_store_create :: "bool \<Rightarrow> offset_store option" where
  "offset_store_create mem = (if mem then Some \<lparr> go_groups = [] \<rparr> else None)"

definition find_or_create_group :: "offset_store \<Rightarrow> string \<Rightarrow> int \<times> offset_store" where
  "find_or_create_group os gid =
     (case find_idx (\<lambda>g. go_group_id g = gid) (go_groups os) of
        Some i \<Rightarrow> (int i, os)
      | None \<Rightarrow>
          if length (go_groups os) \<ge> MAX_OFFSET_GROUPS then (-1, os)
          else (int (length (go_groups os)),
                os\<lparr> go_groups := go_groups os @
                      [\<lparr> go_group_id = c_strncpy 63 gid, topic_offsets = [] \<rparr>] \<rparr>))"

text \<open>A topic slot is fresh zeroed memory: slots are never freed and the store is calloc'ed.\<close>

definition fresh_topic :: "string \<Rightarrow> topic_offset" where
  "fresh_topic name =
     \<lparr> to_topic = name,
       partition_offsets = replicate MAX_OFFSET_PARTS \<lparr> committed_offset = 0, is_set = False \<rparr>,
       to_partition_count = 0 \<rparr>"

definition find_or_create_topic :: "group_offset \<Rightarrow> string \<Rightarrow> int \<times> group_offset" where
  "find_or_create_topic go name =
     (case find_idx (\<lambda>t. to_topic t = name) (topic_offsets go) of
        Some i \<Rightarrow> (int i, go)
      | None \<Rightarrow>
          if length (topic_offsets go) \<ge> MAX_OFFSET_TOPICS then (-1, go)
          else (int (length (topic_offsets go)),
                go\<lparr> topic_offsets := topic_offsets go @ [fresh_topic (c_strncpy 127 name)] \<rparr>))"

text \<open>
  Replacing the topic slot \<open>ti\<close> of group slot \<open>gi\<close>. A commit or fetch whose partition is
  negative indexes the array out of bounds: the result is \<open>None\<close>, undefined behaviour.
\<close>

definition set_group :: "offset_store \<Rightarrow> nat \<Rightarrow> group_offset \<Rightarrow> offset_store" where
  "set_group os gi go = os\<lparr> go_groups := (go_groups os)[gi := go] \<rparr>"

definition commit_cell :: "topic_offset \<Rightarrow> int \<Rightarrow> int \<Rightarrow> topic_offset" where
  "commit_cell t part off =
     t\<lparr> partition_offsets := (partition_offsets t)[nat part :=
           \<lparr> committed_offset = off, is_set = True \<rparr>],
        to_partition_count :=
           (if part \<ge> to_partition_count t then part + 1 else to_partition_count t) \<rparr>"

definition offset_commit ::
  "offset_store \<Rightarrow> string option \<Rightarrow> string option \<Rightarrow> int \<Rightarrow> int \<Rightarrow> (int \<times> offset_store) option"
where
  "offset_commit os group_id topic part off =
     (case (group_id, topic) of
        (Some g, Some t) \<Rightarrow>
          (let (gi, os1) = find_or_create_group os g in
           if gi < 0 then Some (-1, os1)
           else
             (let (ti, go) = find_or_create_topic (go_groups os1 ! nat gi) t;
                  os2 = set_group os1 (nat gi) go
              in if ti < 0 then Some (-1, os2)
                 else if part \<ge> int MAX_OFFSET_PARTS then Some (-1, os2)
                 else if part < 0 then None
                 else Some (0, set_group os2 (nat gi)
                        (go\<lparr> topic_offsets := (topic_offsets go)[nat ti :=
                               commit_cell (topic_offsets go ! nat ti) part off] \<rparr>))))
      | _ \<Rightarrow> Some (-1, os))"

definition offset_fetch ::
  "offset_store \<Rightarrow> string option \<Rightarrow> string option \<Rightarrow> int \<Rightarrow> (int \<times> offset_store) option"
where
  "offset_fetch os group_id topic part =
     (case (group_id, topic) of
        (Some g, Some t) \<Rightarrow>
          (let (gi, os1) = find_or_create_group os g in
           if gi < 0 then Some (-1, os1)
           else
             (let (ti, go) = find_or_create_topic (go_groups os1 ! nat gi) t;
                  os2 = set_group os1 (nat gi) go
              in if ti < 0 then Some (-1, os2)
                 else if part \<ge> int MAX_OFFSET_PARTS then Some (0, os2)
                 else if part < 0 then None
                 else
                   (let cell = partition_offsets (topic_offsets go ! nat ti) ! nat part
                    in Some (if is_set cell then committed_offset cell else 0, os2))))
      | _ \<Rightarrow> Some (-1, os))"

definition offset_reset_to_earliest ::
  "offset_store \<Rightarrow> string option \<Rightarrow> string option \<Rightarrow> int \<Rightarrow> (int \<times> offset_store) option" where
  "offset_reset_to_earliest os g t part = offset_commit os g t part 0"

definition offset_reset_to_latest ::
  "offset_store \<Rightarrow> string option \<Rightarrow> string option \<Rightarrow> int \<Rightarrow> int \<Rightarrow> (int \<times> offset_store) option"
where
  "offset_reset_to_latest os g t part latest = offset_commit os g t part latest"

definition consumer_lag_calculate :: "int \<Rightarrow> int \<Rightarrow> int" where
  "consumer_lag_calculate end_offset committed =
     (if committed < 0 then end_offset
      else if committed > end_offset then 0
      else end_offset - committed)"

datatype lag_level = Lag_warn | Lag_info | Lag_ok

text \<open>The lag and the level that \<open>print_consumer_lag\<close> reports.\<close>

definition print_consumer_lag :: "int \<Rightarrow> int \<Rightarrow> int \<times> lag_level" where
  "print_consumer_lag end_offset committed =
     (let lag = consumer_lag_calculate end_offset committed
      in (lag, if lag > 100 then Lag_warn else if lag > 10 then Lag_info else Lag_ok))"

section \<open>The map a store stands for\<close>

type_synonym offset_key = "string \<times> string \<times> int"

definition cell_view :: "topic_offset \<Rightarrow> int \<Rightarrow> int option" where
  "cell_view t part =
     (if 0 \<le> part \<and> part < int MAX_OFFSET_PARTS \<and> is_set (partition_offsets t ! nat part)
      then Some (committed_offset (partition_offsets t ! nat part)) else None)"

definition group_view :: "group_offset \<Rightarrow> string \<Rightarrow> int \<Rightarrow> int option" where
  "group_view go t part =
     (case tab_get to_topic t (topic_offsets go) of None \<Rightarrow> None | Some x \<Rightarrow> cell_view x part)"

definition store_view :: "offset_store \<Rightarrow> offset_key \<Rightarrow> int option" where
  "store_view os k =
     (case k of (g, t, part) \<Rightarrow>
       (case tab_get go_group_id g (go_groups os) of None \<Rightarrow> None | Some x \<Rightarrow> group_view x t part))"

definition wf_group :: "group_offset \<Rightarrow> bool" where
  "wf_group go \<longleftrightarrow> length (topic_offsets go) \<le> MAX_OFFSET_TOPICS \<and>
     length (go_group_id go) \<le> 63 \<and>
     (\<forall>t \<in> set (topic_offsets go).
        length (partition_offsets t) = MAX_OFFSET_PARTS \<and> length (to_topic t) \<le> 127)"

definition wf_store :: "offset_store \<Rightarrow> bool" where
  "wf_store os \<longleftrightarrow>
     length (go_groups os) \<le> MAX_OFFSET_GROUPS \<and> (\<forall>g \<in> set (go_groups os). wf_group g)"

text \<open>A key whose names fit their arrays and whose partition is one of the eight slots.\<close>

definition key_ok :: "offset_key \<Rightarrow> bool" where
  "key_ok k \<longleftrightarrow> (case k of (g, t, part) \<Rightarrow>
     length g \<le> 63 \<and> length t \<le> 127 \<and> 0 \<le> part \<and> part < int MAX_OFFSET_PARTS)"

text \<open>The store has, or can create, the slots of a key.\<close>

definition has_slot :: "offset_store \<Rightarrow> offset_key \<Rightarrow> bool" where
  "has_slot os k = (case k of (g, t, part) \<Rightarrow>
     (case tab_get go_group_id g (go_groups os) of
        None \<Rightarrow> length (go_groups os) < MAX_OFFSET_GROUPS
      | Some x \<Rightarrow> (case tab_get to_topic t (topic_offsets x) of
                     None \<Rightarrow> length (topic_offsets x) < MAX_OFFSET_TOPICS
                   | Some _ \<Rightarrow> True)))"


section \<open>Finding and creating slots\<close>

lemma find_idx_names:
  "find_idx (\<lambda>x. name x = n) xs = Some i \<Longrightarrow> i < length xs \<and> name (xs ! i) = n"
  using find_idx_SomeD(1,2)[of "\<lambda>x. name x = n" xs i] by blast

lemma find_idx_fresh:
  "n \<notin> name ` set xs \<Longrightarrow> name y = n \<Longrightarrow>
   find_idx (\<lambda>x. name x = n) (xs @ [y]) = Some (length xs)"
  by (induction xs) auto

lemma group_view_empty [simp]: "group_view \<lparr>go_group_id = g, topic_offsets = []\<rparr> t part = None"
  by (simp add: group_view_def)

lemma cell_view_fresh [simp]: "cell_view (fresh_topic t) part = None"
  by (auto simp: cell_view_def fresh_topic_def c_consts)

lemma group_resolve:
  assumes "wf_store os" "length g \<le> 63"
    and slot: "tab_get go_group_id g (go_groups os) = None \<longrightarrow> length (go_groups os) < MAX_OFFSET_GROUPS"
  obtains gi os1 where
    "find_or_create_group os g = (int gi, os1)"
    "find_idx (\<lambda>x. go_group_id x = g) (go_groups os1) = Some gi"
    "go_groups os1 ! gi = (case tab_get go_group_id g (go_groups os) of
       Some x \<Rightarrow> x | None \<Rightarrow> \<lparr>go_group_id = g, topic_offsets = []\<rparr>)"
    "wf_store os1" "store_view os1 = store_view os"
    "\<And>m. m \<noteq> g \<Longrightarrow> tab_get go_group_id m (go_groups os1) = tab_get go_group_id m (go_groups os)"
proof (cases "find_idx (\<lambda>x. go_group_id x = g) (go_groups os)")
  case (Some i)
  then show ?thesis
    using assms tab_get_idx[OF Some] by (intro that[of i os]) (auto simp: find_or_create_group_def)
next
  case None
  then have none: "tab_get go_group_id g (go_groups os) = None" by (simp add: tab_get_def)
  let ?new = "\<lparr>go_group_id = g, topic_offsets = []\<rparr>"
  let ?os1 = "os\<lparr>go_groups := go_groups os @ [?new]\<rparr>"
  have room: "length (go_groups os) < MAX_OFFSET_GROUPS" using slot none by blast
  have wf: "wf_store ?os1" using assms room by (simp add: wf_store_def wf_group_def)
  have sv: "store_view ?os1 = store_view os"
    by (auto simp: store_view_def tab_get_snoc fun_eq_iff split: option.splits)
  show ?thesis
  proof (rule that[of "length (go_groups os)" ?os1])
    show "find_or_create_group os g = (int (length (go_groups os)), ?os1)"
      using None room assms by (simp add: find_or_create_group_def)
    show "find_idx (\<lambda>x. go_group_id x = g) (go_groups ?os1) = Some (length (go_groups os))"
      using none by (simp add: find_idx_fresh tab_get_None_iff)
  qed (use wf sv none in \<open>auto simp: tab_get_snoc split: option.splits\<close>)
qed

lemma topic_resolve:
  assumes "wf_group go" "length t \<le> 127"
    and slot: "tab_get to_topic t (topic_offsets go) = None \<longrightarrow>
               length (topic_offsets go) < MAX_OFFSET_TOPICS"
  obtains ti go1 where
    "find_or_create_topic go t = (int ti, go1)"
    "find_idx (\<lambda>x. to_topic x = t) (topic_offsets go1) = Some ti"
    "wf_group go1" "group_view go1 = group_view go" "go_group_id go1 = go_group_id go"
proof (cases "find_idx (\<lambda>x. to_topic x = t) (topic_offsets go)")
  case (Some i)
  then show ?thesis
    using assms by (intro that[of i go]) (auto simp: find_or_create_topic_def)
next
  case None
  then have none: "tab_get to_topic t (topic_offsets go) = None" by (simp add: tab_get_def)
  let ?go1 = "go\<lparr>topic_offsets := topic_offsets go @ [fresh_topic t]\<rparr>"
  have room: "length (topic_offsets go) < MAX_OFFSET_TOPICS" using slot none by blast
  have id: "to_topic (fresh_topic t) = t" by (simp add: fresh_topic_def)
  have wf: "wf_group ?go1" using assms room by (simp add: wf_group_def fresh_topic_def)
  have gv: "group_view ?go1 = group_view go"
    by (auto simp: group_view_def tab_get_snoc fun_eq_iff id split: option.splits)
  show ?thesis
  proof (rule that[of "length (topic_offsets go)" ?go1])
    show "find_or_create_topic go t = (int (length (topic_offsets go)), ?go1)"
      using None room assms by (simp add: find_or_create_topic_def)
    show "find_idx (\<lambda>x. to_topic x = t) (topic_offsets ?go1) = Some (length (topic_offsets go))"
      using none by (simp add: find_idx_fresh id tab_get_None_iff)
  qed (use wf gv in simp_all)
qed

lemma set_group_view:
  assumes "find_idx (\<lambda>x. go_group_id x = g) (go_groups os) = Some gi" "go_group_id go = g"
  shows "store_view (set_group os gi go) =
    (\<lambda>(m, t, part). if m = g then group_view go t part else store_view os (m, t, part))"
  using assms
  by (auto simp: store_view_def set_group_def tab_get_update fun_eq_iff)

lemma wf_set_group: "wf_store os \<Longrightarrow> wf_group go \<Longrightarrow> wf_store (set_group os gi go)"
  by (auto simp: wf_store_def set_group_def dest!: set_update_subset_insert[THEN subsetD])

text \<open>
  Both operations first resolve the slots of their key. When they exist or can be created,
  the resolved store \<open>os2\<close> stands for the same map.
\<close>

lemma resolve:
  assumes wf: "wf_store os" and names: "length g \<le> 63" "length t \<le> 127"
    and slot: "has_slot os (g, t, part)"
  obtains gi ti os1 go where
    "find_or_create_group os g = (int gi, os1)"
    "find_or_create_topic (go_groups os1 ! gi) t = (int ti, go)"
    "find_idx (\<lambda>x. go_group_id x = g) (go_groups (set_group os1 gi go)) = Some gi"
    "find_idx (\<lambda>x. to_topic x = t) (topic_offsets go) = Some ti"
    "store_view (set_group os1 gi go) = store_view os" "wf_store (set_group os1 gi go)"
    "wf_group go" "go_group_id go = g" "gi < length (go_groups os1)"
    "group_view go t = (\<lambda>part. store_view os (g, t, part))"
proof -
  have "tab_get go_group_id g (go_groups os) = None \<longrightarrow> length (go_groups os) < MAX_OFFSET_GROUPS"
    using slot by (auto simp: has_slot_def split: option.splits)
  from group_resolve[OF wf names(1) this] obtain gi os1 where
    g: "find_or_create_group os g = (int gi, os1)"
    "find_idx (\<lambda>x. go_group_id x = g) (go_groups os1) = Some gi"
    "go_groups os1 ! gi = (case tab_get go_group_id g (go_groups os) of
       Some x \<Rightarrow> x | None \<Rightarrow> \<lparr>go_group_id = g, topic_offsets = []\<rparr>)"
    "wf_store os1" "store_view os1 = store_view os" by metis
  let ?go = "go_groups os1 ! gi"
  have gi: "gi < length (go_groups os1)" "go_group_id ?go = g"
    using find_idx_names[OF g(2)] by auto
  have wfg: "wf_group ?go" using g(4) gi(1) by (simp add: wf_store_def)
  have "tab_get to_topic t (topic_offsets ?go) = None \<longrightarrow>
        length (topic_offsets ?go) < MAX_OFFSET_TOPICS"
    using slot by (auto simp: has_slot_def g(3) c_consts split: option.splits)
  from topic_resolve[OF wfg names(2) this] obtain ti go where
    t: "find_or_create_topic ?go t = (int ti, go)"
    "find_idx (\<lambda>x. to_topic x = t) (topic_offsets go) = Some ti"
    "wf_group go" "group_view go = group_view ?go" "go_group_id go = go_group_id ?go" by metis
  have f: "find_idx (\<lambda>x. go_group_id x = g) (go_groups (set_group os1 gi go)) = Some gi"
    using g(2) gi t(5) by (simp add: set_group_def find_idx_update_same)
  have tab: "tab_get go_group_id g (go_groups os1) = Some ?go" using g(2) by (rule tab_get_idx)
  have gv: "group_view ?go u part = store_view os1 (g, u, part)" for u part
    by (simp add: store_view_def tab)
  have sv: "store_view (set_group os1 gi go) = store_view os"
    using set_group_view[OF g(2), of go] t(4,5) gi(2) g(5)
    by (auto simp: fun_eq_iff gv split: if_splits)
  show ?thesis
    by (rule that[OF g(1) t(1) f t(2) sv wf_set_group[OF g(4) t(3)] t(3) _ gi(1)])
      (simp_all add: t(4,5) gi(2) gv g(5) fun_eq_iff)
qed

section \<open>Commit and fetch against the map\<close>

lemma cell_view_commit:
  assumes "length (partition_offsets x) = MAX_OFFSET_PARTS" "0 \<le> part" "part < int MAX_OFFSET_PARTS"
  shows "cell_view (commit_cell x part off) q = (if q = part then Some off else cell_view x q)"
  using assms by (auto simp: cell_view_def commit_cell_def nth_list_update nat_eq_iff)

lemma commit_ok:
  assumes wf: "wf_store os" and key: "key_ok (g, t, part)" and slot: "has_slot os (g, t, part)"
  shows "\<exists>os'. offset_commit os (Some g) (Some t) part off = Some (0, os') \<and> wf_store os' \<and>
           store_view os' = (store_view os)((g, t, part) \<mapsto> off) \<and> has_slot os' (g, t, part)"
proof -
  from key have k: "length g \<le> 63" "length t \<le> 127" "0 \<le> part" "part < int MAX_OFFSET_PARTS"
    by (auto simp: key_ok_def)
  obtain gi ti os1 go where r:
    "find_or_create_group os g = (int gi, os1)"
    "find_or_create_topic (go_groups os1 ! gi) t = (int ti, go)"
    "find_idx (\<lambda>x. go_group_id x = g) (go_groups (set_group os1 gi go)) = Some gi"
    "find_idx (\<lambda>x. to_topic x = t) (topic_offsets go) = Some ti"
    "store_view (set_group os1 gi go) = store_view os" "wf_store (set_group os1 gi go)"
    "wf_group go" "go_group_id go = g"
    "group_view go t = (\<lambda>part. store_view os (g, t, part))"
    by (rule resolve[OF wf k(1,2) slot]) metis
  let ?x = "topic_offsets go ! ti"
  let ?go = "go\<lparr>topic_offsets := (topic_offsets go)[ti := commit_cell ?x part off]\<rparr>"
  let ?os' = "set_group (set_group os1 gi go) gi ?go"
  have ti: "ti < length (topic_offsets go)" "to_topic ?x = t"
    using find_idx_names[OF r(4)] by auto
  have len: "length (partition_offsets ?x) = MAX_OFFSET_PARTS"
    using r(7) ti(1) by (auto simp: wf_group_def)
  have name: "to_topic (commit_cell ?x part off) = t" using ti(2) by (simp add: commit_cell_def)
  have wfg: "wf_group ?go"
    using r(7) len name ti by (auto simp: wf_group_def commit_cell_def
        dest!: set_update_subset_insert[THEN subsetD])
  have tab: "tab_get to_topic t (topic_offsets go) = Some ?x" using r(4) by (rule tab_get_idx)
  have gv: "group_view ?go u q =
      (if u = t then (if q = part then Some off else cell_view ?x q) else group_view go u q)" for u q
    using tab_get_update[OF r(4) name] cell_view_commit[OF len k(3,4)]
    by (auto simp: group_view_def)
  have gx: "cell_view ?x q = store_view os (g, t, q)" for q
    using fun_cong[OF r(9), of q] by (simp add: group_view_def tab)
  have gg: "group_view go u q = store_view os (g, u, q)" for u q
    using fun_cong[OF r(5), of "(g, u, q)"] tab_get_idx[OF r(3)] find_idx_names[OF r(3)]
    by (simp add: store_view_def set_group_def)
  have "store_view ?os' = (store_view os)((g, t, part) \<mapsto> off)"
    using set_group_view[OF r(3), of ?go] r(5,8)
    by (auto simp: fun_eq_iff gv gx gg)
  moreover have "has_slot ?os' (g, t, part)"
    using tab_get_update[OF r(3), of ?go g] tab_get_update[OF r(4) name, of t] r(8)
    by (simp add: has_slot_def set_group_def)
  moreover have "offset_commit os (Some g) (Some t) part off = Some (0, ?os')"
    using k r(1,2) by (simp add: offset_commit_def Let_def)
  ultimately show ?thesis using wf_set_group[OF r(6) wfg] by blast
qed

lemma fetch_ok:
  assumes wf: "wf_store os" and key: "key_ok (g, t, part)" and slot: "has_slot os (g, t, part)"
  shows "\<exists>os'. offset_fetch os (Some g) (Some t) part =
             Some (case store_view os (g, t, part) of None \<Rightarrow> 0 | Some off \<Rightarrow> off, os') \<and>
           wf_store os' \<and> store_view os' = store_view os"
proof -
  from key have k: "length g \<le> 63" "length t \<le> 127" "0 \<le> part" "part < int MAX_OFFSET_PARTS"
    by (auto simp: key_ok_def)
  obtain gi ti os1 go where r:
    "find_or_create_group os g = (int gi, os1)"
    "find_or_create_topic (go_groups os1 ! gi) t = (int ti, go)"
    "find_idx (\<lambda>x. to_topic x = t) (topic_offsets go) = Some ti"
    "store_view (set_group os1 gi go) = store_view os" "wf_store (set_group os1 gi go)"
    "group_view go t = (\<lambda>part. store_view os (g, t, part))"
    by (rule resolve[OF wf k(1,2) slot]) metis
  let ?x = "topic_offsets go ! ti"
  have tab: "tab_get to_topic t (topic_offsets go) = Some ?x" using r(3) by (rule tab_get_idx)
  have gx: "cell_view ?x part = store_view os (g, t, part)"
    using fun_cong[OF r(6), of part] by (simp add: group_view_def tab)
  have "offset_fetch os (Some g) (Some t) part =
    Some (case cell_view ?x part of None \<Rightarrow> 0 | Some off \<Rightarrow> off, set_group os1 gi go)"
    using k r(1,2) by (simp add: offset_fetch_def Let_def cell_view_def)
  then show ?thesis using r(4,5) gx by auto
qed


text \<open>Without a slot both operations return -1 and leave the store as it was.\<close>

lemma no_slot:
  assumes "\<not> has_slot os (g, t, part)"
  shows "offset_commit os (Some g) (Some t) part off = Some (-1, os)"
    and "offset_fetch os (Some g) (Some t) part = Some (-1, os)"
proof -
  have "offset_commit os (Some g) (Some t) part off = Some (-1, os) \<and>
        offset_fetch os (Some g) (Some t) part = Some (-1, os)"
  proof (cases "find_idx (\<lambda>x. go_group_id x = g) (go_groups os)")
    case None
    with assms show ?thesis
      by (simp add: has_slot_def tab_get_def find_or_create_group_def
          offset_commit_def offset_fetch_def)
  next
    case (Some i)
    let ?x = "go_groups os ! i"
    have t: "find_idx (\<lambda>y. to_topic y = t) (topic_offsets ?x) = None"
      "\<not> length (topic_offsets ?x) < MAX_OFFSET_TOPICS"
      using assms by (auto simp: has_slot_def tab_get_def Some split: option.splits)
    have "set_group os i ?x = os" by (simp add: set_group_def)
    with Some t show ?thesis
      by (simp add: find_or_create_group_def find_or_create_topic_def Let_def
          offset_commit_def offset_fetch_def)
  qed
  then show "offset_commit os (Some g) (Some t) part off = Some (-1, os)"
    and "offset_fetch os (Some g) (Some t) part = Some (-1, os)" by simp_all
qed

section \<open>The interface of a store of committed offsets\<close>

locale commit_store =
  fixes inv :: "'s \<Rightarrow> bool"
    and view :: "'s \<Rightarrow> 'k \<Rightarrow> int option"
    and ok :: "'k \<Rightarrow> bool"
    and avail :: "'s \<Rightarrow> 'k \<Rightarrow> bool"
    and commit :: "'s \<Rightarrow> 'k \<Rightarrow> int \<Rightarrow> (int \<times> 's) option"
    and fetch :: "'s \<Rightarrow> 'k \<Rightarrow> (int \<times> 's) option"
  assumes commit_stores: "inv s \<Longrightarrow> ok k \<Longrightarrow> avail s k \<Longrightarrow>
      \<exists>s'. commit s k v = Some (0, s') \<and> inv s' \<and> view s' = (view s)(k \<mapsto> v) \<and> avail s' k"
    and commit_refused: "inv s \<Longrightarrow> ok k \<Longrightarrow> \<not> avail s k \<Longrightarrow> commit s k v = Some (-1, s)"
    and fetch_returns: "inv s \<Longrightarrow> ok k \<Longrightarrow> avail s k \<Longrightarrow>
      \<exists>s'. fetch s k = Some (case view s k of None \<Rightarrow> 0 | Some v \<Rightarrow> v, s') \<and> inv s' \<and> view s' = view s"
begin

lemma fetch_after_commit:
  assumes "inv s" "ok k" "commit s k v = Some (0, s1)"
  shows "\<exists>s2. fetch s1 k = Some (v, s2) \<and> inv s2 \<and> view s2 = (view s)(k \<mapsto> v)"
proof -
  have "avail s k" using assms commit_refused by (metis Pair_inject option.inject zero_neq_neg_one)
  from commit_stores[OF assms(1,2) this, of v] assms(3)
  have "inv s1" "view s1 = (view s)(k \<mapsto> v)" "avail s1 k" by auto
  with fetch_returns[OF this(1) assms(2) this(3)] show ?thesis by auto
qed

text \<open>A run of commits, with the results; \<open>None\<close> once a commit has no defined result.\<close>

primrec commits :: "('k \<times> int) list \<Rightarrow> 's \<Rightarrow> (int list \<times> 's) option" where
  "commits [] s = Some ([], s)"
| "commits (kv # kvs) s =
     (case commit s (fst kv) (snd kv) of
        None \<Rightarrow> None
      | Some (r, s') \<Rightarrow> (case commits kvs s' of
                           None \<Rightarrow> None | Some (rs, s'') \<Rightarrow> Some (r # rs, s'')))"

lemma commits_view:
  assumes "inv s" "\<forall>kv \<in> set kvs. ok (fst kv)"
  shows "\<exists>rs s'. commits kvs s = Some (rs, s') \<and> inv s' \<and> length rs = length kvs \<and>
    view s' = view s ++ map_of (rev (map fst (filter (\<lambda>(kv, r). r = 0) (zip kvs rs))))"
  using assms
proof (induction kvs arbitrary: s)
  case (Cons kv kvs)
  show ?case
  proof (cases "avail s (fst kv)")
    case True
    with commit_stores[OF Cons.prems(1) _ True] Cons.prems(2) obtain s1 where
      s1: "commit s (fst kv) (snd kv) = Some (0, s1)" "inv s1"
        "view s1 = (view s)(fst kv \<mapsto> snd kv)" by fastforce
    from Cons.IH[OF s1(2)] Cons.prems(2) obtain rs s' where r:
      "commits kvs s1 = Some (rs, s')" "inv s'" "length rs = length kvs"
      "view s' = view s1 ++ map_of (rev (map fst (filter (\<lambda>(kv, r). r = 0) (zip kvs rs))))" by auto
    from s1 r show ?thesis
      by (intro exI[of _ "0 # rs"] exI[of _ s']) (cases kv; simp)
  next
    case False
    with commit_refused[OF Cons.prems(1)] Cons.prems(2)
    have c: "commit s (fst kv) (snd kv) = Some (-1, s)" by simp
    with Cons.IH[OF Cons.prems(1)] Cons.prems(2) show ?thesis by auto
  qed
qed simp

end

definition commit_key :: "offset_store \<Rightarrow> offset_key \<Rightarrow> int \<Rightarrow> (int \<times> offset_store) option" where
  "commit_key os k v = (case k of (g, t, part) \<Rightarrow> offset_commit os (Some g) (Some t) part v)"

definition fetch_key :: "offset_store \<Rightarrow> offset_key \<Rightarrow> (int \<times> offset_store) option" where
  "fetch_key os k = (case k of (g, t, part) \<Rightarrow> offset_fetch os (Some g) (Some t) part)"

interpretation ostore: commit_store wf_store store_view key_ok has_slot commit_key fetch_key
proof
  fix os :: offset_store and k :: offset_key and v :: int
  obtain g t part where k: "k = (g, t, part)" by (cases k)
  show "wf_store os \<Longrightarrow> key_ok k \<Longrightarrow> has_slot os k \<Longrightarrow>
     \<exists>s'. commit_key os k v = Some (0, s') \<and> wf_store s' \<and>
          store_view s' = (store_view os)(k \<mapsto> v) \<and> has_slot s' k"
    unfolding k using commit_ok[of os g t part v] by (simp add: commit_key_def)
  show "wf_store os \<Longrightarrow> key_ok k \<Longrightarrow> \<not> has_slot os k \<Longrightarrow> commit_key os k v = Some (-1, os)"
    unfolding k using no_slot(1) by (simp add: commit_key_def)
  show "wf_store os \<Longrightarrow> key_ok k \<Longrightarrow> has_slot os k \<Longrightarrow>
     \<exists>s'. fetch_key os k = Some (case store_view os k of None \<Rightarrow> 0 | Some v \<Rightarrow> v, s') \<and>
          wf_store s' \<and> store_view s' = store_view os"
    unfolding k using fetch_ok[of os g t part] by (simp add: fetch_key_def)
qed


section \<open>Names that do not fit\<close>

text \<open>
  The slot of a group is created with the first 63 characters of its name, and looked up by
  comparing the whole name. A longer group is therefore never found again.
\<close>

lemma long_group_not_found:
  assumes "wf_store os" "63 < length g"
  shows "find_idx (\<lambda>x. go_group_id x = g) (go_groups os) = None"
  using assms by (fastforce simp: find_idx_None_iff wf_store_def wf_group_def)

lemma long_group_slot:
  assumes "wf_store os" "63 < length g" "length (go_groups os) < MAX_OFFSET_GROUPS"
  defines "os1 \<equiv> os\<lparr>go_groups := go_groups os @ [\<lparr>go_group_id = take 63 g, topic_offsets = []\<rparr>]\<rparr>"
  shows "find_or_create_group os g = (int (length (go_groups os)), os1)" "wf_store os1"
  using assms long_group_not_found[OF assms(1,2)]
  by (auto simp: find_or_create_group_def c_strncpy_def wf_store_def wf_group_def)

lemma topic_of_empty_group:
  "length t \<le> 127 \<Longrightarrow> find_or_create_topic \<lparr>go_group_id = g, topic_offsets = []\<rparr> t =
     (0, \<lparr>go_group_id = g, topic_offsets = [fresh_topic t]\<rparr>)"
  by (simp add: find_or_create_topic_def c_consts)

lemma set_group_snoc [simp]:
  "set_group (os\<lparr>go_groups := gs @ [x]\<rparr>) (length gs) y = os\<lparr>go_groups := gs @ [y]\<rparr>"
  by (simp add: set_group_def)

lemma long_group_fetch:
  assumes "wf_store os" "63 < length g" "length t \<le> 127" "0 \<le> part" "part < int MAX_OFFSET_PARTS"
    "length (go_groups os) < MAX_OFFSET_GROUPS"
  shows "\<exists>os'. offset_fetch os (Some g) (Some t) part = Some (0, os') \<and> wf_store os' \<and>
               length (go_groups os') = Suc (length (go_groups os))"
proof -
  let ?g = "take 63 g"
  let ?os' = "os\<lparr>go_groups := go_groups os @
    [\<lparr>go_group_id = ?g, topic_offsets = [fresh_topic t]\<rparr>]\<rparr>"
  have "offset_fetch os (Some g) (Some t) part = Some (0, ?os')"
    using assms long_group_slot(1)[OF assms(1,2,6)]
    by (simp add: offset_fetch_def Let_def topic_of_empty_group fresh_topic_def nat_less_iff)
  moreover have "wf_store ?os'"
    using assms by (auto simp: wf_store_def wf_group_def fresh_topic_def c_consts)
  ultimately show ?thesis by auto
qed

lemma long_group_commit:
  assumes "wf_store os" "63 < length g" "length t \<le> 127" "0 \<le> part" "part < int MAX_OFFSET_PARTS"
    "length (go_groups os) < MAX_OFFSET_GROUPS"
  shows "\<exists>os'. offset_commit os (Some g) (Some t) part v = Some (0, os') \<and> wf_store os' \<and>
               length (go_groups os') = Suc (length (go_groups os))"
proof -
  let ?g = "take 63 g"
  let ?os' = "os\<lparr>go_groups := go_groups os @
    [\<lparr>go_group_id = ?g, topic_offsets = [commit_cell (fresh_topic t) part v]\<rparr>]\<rparr>"
  have "offset_commit os (Some g) (Some t) part v = Some (0, ?os')"
    using assms long_group_slot(1)[OF assms(1,2,6)]
    by (simp add: offset_commit_def Let_def topic_of_empty_group)
  moreover have "wf_store ?os'"
    using assms by (auto simp: wf_store_def wf_group_def fresh_topic_def commit_cell_def c_consts)
  ultimately show ?thesis by auto
qed

lemma wf_store_create: "offset_store_create mem = Some os \<Longrightarrow> wf_store os"
  by (auto simp: offset_store_create_def wf_store_def split: if_splits)

section \<open>Properties\<close>

text \<open>
  C3. The store refines a map from (group, topic, partition) to offsets: for names that fit
  their arrays and a partition below eight, a commit that finds or can create its slot
  returns 0 and updates exactly that key; a fetch returns the committed offset, or 0 for a
  key never committed, and changes no key. Without a slot both return -1 and nothing changes.
\<close>

theorem offset_store_refines_map:
  assumes "wf_store os" "key_ok (g, t, part)"
  shows "\<exists>os1 os2.
     offset_commit os (Some g) (Some t) part off =
       Some (if has_slot os (g, t, part) then 0 else -1, os1) \<and>
     wf_store os1 \<and>
     store_view os1 = (if has_slot os (g, t, part) then (store_view os)((g, t, part) \<mapsto> off)
                       else store_view os) \<and>
     offset_fetch os (Some g) (Some t) part =
       Some (if has_slot os (g, t, part)
             then (case store_view os (g, t, part) of None \<Rightarrow> 0 | Some v \<Rightarrow> v) else -1, os2) \<and>
     wf_store os2 \<and> store_view os2 = store_view os"
proof (cases "has_slot os (g, t, part)")
  case True
  from commit_ok[OF assms True] fetch_ok[OF assms True] True show ?thesis by auto
next
  case False
  from no_slot[OF False] False assms(1) show ?thesis by auto
qed

theorem offset_store_refines_map_witness:
  "\<exists>os1. offset_commit \<lparr>go_groups = []\<rparr> (Some ''g'') (Some ''t'') 3 42 = Some (0, os1) \<and>
     store_view os1 (''g'', ''t'', 3) = Some 42"
  using offset_store_refines_map[of "\<lparr>go_groups = []\<rparr>" "''g''" "''t''" 3 42]
  by (auto simp: wf_store_def key_ok_def has_slot_def c_consts)

text \<open>
  From any well-formed store, whatever commits are made (with names that fit), a fetch
  of a committed key returns the offset of the last commit to it that returned 0.
\<close>

theorem fetch_returns_last_commit:
  assumes "wf_store os" "\<forall>kv \<in> set kvs. key_ok (fst kv)" "key_ok k"
    "ostore.commits kvs os = Some (rs, os1)"
    "map_of (rev (map fst (filter (\<lambda>(kv, r). r = 0) (zip kvs rs)))) k = Some v"
    "has_slot os1 k"
  shows "\<exists>os2. fetch_key os1 k = Some (v, os2)"
proof -
  from ostore.commits_view[OF assms(1,2)] assms(4)
  have "wf_store os1"
    "store_view os1 = store_view os ++ map_of (rev (map fst (filter (\<lambda>(kv, r). r = 0) (zip kvs rs))))"
    by auto
  moreover from this(2) assms(5) have "store_view os1 k = Some v" by simp
  ultimately show ?thesis using ostore.fetch_returns[OF _ assms(3,6)] by fastforce
qed


text \<open>Two consumers' commits in a row, the second one overriding the first.\<close>

theorem fetch_returns_last_commit_witness:
  "\<exists>os1 os2. fetch_key os1 (''g'', ''t'', 0) = Some (9, os2)"
proof -
  let ?os = "\<lparr>go_groups = []\<rparr>"
  let ?k = "(''g'', ''t'', 0) :: offset_key"
  have wf: "wf_store ?os" by (simp add: wf_store_def)
  have ok: "key_ok ?k" by (simp add: key_ok_def c_consts)
  have "has_slot ?os ?k" by (simp add: has_slot_def c_consts)
  from ostore.commit_stores[OF wf ok this, of 5] obtain s1 where
    s1: "commit_key ?os ?k 5 = Some (0, s1)" "wf_store s1" "has_slot s1 ?k" by auto
  from ostore.commit_stores[OF s1(2) ok s1(3), of 9] obtain s2 where
    s2: "commit_key s1 ?k 9 = Some (0, s2)" "has_slot s2 ?k" by auto
  have run: "ostore.commits [(?k, 5), (?k, 9)] ?os = Some ([0, 0], s2)"
    by (simp add: s1(1) s2(1))
  have "\<exists>os2. fetch_key s2 ?k = Some (9, os2)"
    by (rule fetch_returns_last_commit[OF wf _ ok run _ s2(2)]) (use ok in auto)
  then show ?thesis by blast
qed

text \<open>
  A commit under a group name of 64 characters or more succeeds and is lost: the fetch
  that follows, with the same arguments, creates another slot and returns 0.
\<close>

theorem long_group_commit_lost:
  assumes "wf_store os" "63 < length g" "length t \<le> 127" "0 \<le> part" "part < int MAX_OFFSET_PARTS"
    "length (go_groups os) + 1 < MAX_OFFSET_GROUPS"
  shows "\<exists>os1 os2. offset_commit os (Some g) (Some t) part v = Some (0, os1) \<and>
     offset_fetch os1 (Some g) (Some t) part = Some (0, os2) \<and>
     length (go_groups os2) = length (go_groups os) + 2"
proof -
  from assms(6) have "length (go_groups os) < MAX_OFFSET_GROUPS" by simp
  from long_group_commit[OF assms(1-5) this] obtain os1 where
    c: "offset_commit os (Some g) (Some t) part v = Some (0, os1)" "wf_store os1"
    "length (go_groups os1) = Suc (length (go_groups os))" by blast
  have "length (go_groups os1) < MAX_OFFSET_GROUPS" using assms(6) c(3) by simp
  from long_group_fetch[OF c(2) assms(2-5) this] c show ?thesis by auto
qed

theorem long_group_commit_lost_witness:
  "\<exists>os1 os2. offset_commit \<lparr>go_groups = []\<rparr> (Some (replicate 64 CHR ''g'')) (Some ''t'') 0 5 =
       Some (0, os1) \<and>
     offset_fetch os1 (Some (replicate 64 CHR ''g'')) (Some ''t'') 0 = Some (0, os2)"
  using long_group_commit_lost[of "\<lparr>go_groups = []\<rparr>" "replicate 64 CHR ''g''" "''t''" 0 5]
  by (auto simp: wf_store_def c_consts)

end
