(* ===== verification/Broker.thy ===== *)
theory Broker
  imports Topic_Partition Offset_Manager
begin

text \<open>
  The broker (\<open>broker.h\<close>, \<open>broker.c\<close>): it registers topics, becomes the leader of their
  partitions and serves produce, fetch and metadata requests. Topics and partitions are
  shared objects the broker only points to, so they live in an explicit heap: a pointer is
  an address, a pointer to a partition inside a topic is the topic's address with the index.
  An operation that would dereference an unallocated address has the result \<open>None\<close>.
\<close>

definition MAX_BROKER_TOPICS :: nat where [c_consts]: "MAX_BROKER_TOPICS = 16"
definition MAX_BROKER_PARTITIONS :: nat where [c_consts]: "MAX_BROKER_PARTITIONS = 64"
definition MAX_BROKER_HOST_LEN :: nat where [c_consts]: "MAX_BROKER_HOST_LEN = 64"

datatype part_ref = In_topic nat nat | Standalone nat

record heap =
  h_topics :: "nat \<Rightarrow> topic option"
  h_parts :: "nat \<Rightarrow> log_partition option"

record broker =
  b_id :: int
  host :: string
  port :: int
  b_topics :: "nat list"
  managed_partitions :: "part_ref list"
  is_controller :: bool
  b_offset_store :: "offset_store option"

section \<open>Operations\<close>

text \<open>The second allocation, of the offset store, may fail on its own; its result is not checked.\<close>

definition broker_create :: "bool \<Rightarrow> bool \<Rightarrow> int \<Rightarrow> string \<Rightarrow> int \<Rightarrow> bool \<Rightarrow> broker option" where
  "broker_create mem mem_store bid hst prt ctl =
     (if \<not> mem then None
      else Some \<lparr> b_id = bid, host = c_strncpy (MAX_BROKER_HOST_LEN - 1) hst, port = prt,
                  b_topics = [], managed_partitions = [], is_controller = ctl,
                  b_offset_store = offset_store_create mem_store \<rparr>)"

definition set_partition :: "topic \<Rightarrow> nat \<Rightarrow> log_partition \<Rightarrow> topic" where
  "set_partition t i p = t\<lparr> partitions := (partitions t)[i := p] \<rparr>"

definition set_topic :: "heap \<Rightarrow> nat \<Rightarrow> topic \<Rightarrow> heap" where
  "set_topic h a t = h\<lparr> h_topics := (h_topics h)(a \<mapsto> t) \<rparr>"

fun lead_partitions ::
  "int \<Rightarrow> nat \<Rightarrow> nat list \<Rightarrow> topic \<Rightarrow> part_ref list \<Rightarrow> topic \<times> part_ref list" where
  "lead_partitions bid a [] t managed = (t, managed)"
| "lead_partitions bid a (i # is) t managed =
     (if length managed < MAX_BROKER_PARTITIONS
      then lead_partitions bid a is
             (set_partition t i ((partitions t ! i)\<lparr> leader_broker := bid \<rparr>))
             (managed @ [In_topic a i])
      else lead_partitions bid a is t managed)"

definition broker_register_topic ::
  "broker \<Rightarrow> nat option \<Rightarrow> heap \<Rightarrow> (int \<times> broker \<times> heap) option" where
  "broker_register_topic b a_opt h =
     (case a_opt of None \<Rightarrow> Some (-1, b, h) | Some a \<Rightarrow>
       if length (b_topics b) \<ge> MAX_BROKER_TOPICS then Some (-1, b, h)
       else
         (case h_topics h a of None \<Rightarrow> None | Some t \<Rightarrow>
           (let (t', managed) = lead_partitions (b_id b) a [0..<length (partitions t)] t
                                  (managed_partitions b)
            in Some (0, b\<lparr> b_topics := b_topics b @ [a], managed_partitions := managed \<rparr>,
                     set_topic h a t'))))"

definition broker_manage_partition ::
  "broker \<Rightarrow> part_ref option \<Rightarrow> heap \<Rightarrow> (int \<times> broker \<times> heap) option" where
  "broker_manage_partition b r_opt h =
     (case r_opt of None \<Rightarrow> Some (-1, b, h) | Some r \<Rightarrow>
       if length (managed_partitions b) \<ge> MAX_BROKER_PARTITIONS then Some (-1, b, h)
       else
         (let b' = b\<lparr> managed_partitions := managed_partitions b @ [r] \<rparr> in
          case r of
            In_topic a i \<Rightarrow>
              (case h_topics h a of None \<Rightarrow> None | Some t \<Rightarrow>
                 if i < length (partitions t)
                 then Some (0, b', set_topic h a
                        (set_partition t i ((partitions t ! i)\<lparr> leader_broker := b_id b \<rparr>)))
                 else None)
          | Standalone a \<Rightarrow>
              (case h_parts h a of None \<Rightarrow> None | Some p \<Rightarrow>
                 Some (0, b', h\<lparr> h_parts := (h_parts h)(a \<mapsto> p\<lparr> leader_broker := b_id b \<rparr>) \<rparr>))))"

fun find_topic :: "heap \<Rightarrow> nat list \<Rightarrow> string \<Rightarrow> nat option option" where
  "find_topic h [] name = Some None"
| "find_topic h (a # as) name =
     (case h_topics h a of None \<Rightarrow> None
      | Some t \<Rightarrow> if topic_name t = name then Some (Some a) else find_topic h as name)"

text \<open>Every failure returns -1; the constructors tell the branches apart.\<close>

datatype broker_error =
    Bad_argument | Topic_not_found | Bad_partition | Not_leader | Append_failed

definition broker_handle_produce ::
  "int \<Rightarrow> broker \<Rightarrow> string option \<Rightarrow> int \<Rightarrow> string option \<Rightarrow> string option \<Rightarrow> string option
     \<Rightarrow> heap \<Rightarrow> ((broker_error + int) \<times> heap) option" where
  "broker_handle_produce now b name_opt part key value headers h =
     (case name_opt of None \<Rightarrow> Some (Inl Bad_argument, h) | Some name \<Rightarrow>
       (case find_topic h (b_topics b) name of
          None \<Rightarrow> None
        | Some None \<Rightarrow> Some (Inl Topic_not_found, h)
        | Some (Some a) \<Rightarrow>
            (let t = the (h_topics h a) in
             if part < 0 \<or> part \<ge> int (length (partitions t)) then Some (Inl Bad_partition, h)
             else
               (let p = partitions t ! nat part in
                if leader_broker p \<noteq> b_id b \<and> \<not> is_controller b then Some (Inl Not_leader, h)
                else
                  (let (offset, p') = partition_append now key value headers p;
                       h' = set_topic h a (set_partition t (nat part) p')
                   in if offset < 0 then Some (Inl Append_failed, h')
                      else Some (Inr offset, h'))))))"

definition broker_handle_fetch ::
  "broker \<Rightarrow> string option \<Rightarrow> int \<Rightarrow> int \<Rightarrow> int \<Rightarrow> heap \<Rightarrow> (broker_error + msg_record list) option"
where
  "broker_handle_fetch b name_opt part fetch_offset max_bytes h =
     (case name_opt of None \<Rightarrow> Some (Inl Bad_argument) | Some name \<Rightarrow>
       (case find_topic h (b_topics b) name of
          None \<Rightarrow> None
        | Some None \<Rightarrow> Some (Inl Topic_not_found)
        | Some (Some a) \<Rightarrow>
            (let t = the (h_topics h a) in
             if part < 0 \<or> part \<ge> int (length (partitions t)) then Some (Inl Bad_partition)
             else
               (let p = partitions t ! nat part;
                    q = c_div max_bytes sizeof_Record;
                    max_records = (if q < 1 then 1 else q)
                in Some (Inr (partition_read p fetch_offset max_records))))))"

text \<open>The partition count, the leader of partition 0 and the port, or the values of a failure.\<close>

definition broker_handle_metadata ::
  "broker \<Rightarrow> string option \<Rightarrow> heap \<Rightarrow> (int \<times> (int \<times> int \<times> int) option) option" where
  "broker_handle_metadata b name_opt h =
     (case name_opt of None \<Rightarrow> Some (-1, None) | Some name \<Rightarrow>
       (case find_topic h (b_topics b) name of
          None \<Rightarrow> None
        | Some None \<Rightarrow> Some (-1, Some (0, -1, -1))
        | Some (Some a) \<Rightarrow>
            (let t = the (h_topics h a); n = length (partitions t)
             in Some (0, Some (int n,
                  if n > 0 then leader_broker (partitions t ! 0) else -1, port b)))))"

section \<open>Invariant\<close>

definition wf_topic :: "topic \<Rightarrow> bool" where
  "wf_topic t \<longleftrightarrow> 0 < length (partitions t) \<and> length (partitions t) \<le> MAX_PARTITIONS \<and>
     (\<forall>p \<in> set (partitions t). wf_partition p)"

definition wf_heap :: "heap \<Rightarrow> bool" where
  "wf_heap h \<longleftrightarrow> (\<forall>t \<in> ran (h_topics h). wf_topic t) \<and> (\<forall>p \<in> ran (h_parts h). wf_partition p)"

definition ref_ok :: "heap \<Rightarrow> part_ref \<Rightarrow> bool" where
  "ref_ok h r = (case r of
     In_topic a i \<Rightarrow> (\<exists>t. h_topics h a = Some t \<and> i < length (partitions t))
   | Standalone a \<Rightarrow> a \<in> dom (h_parts h))"

definition wf_broker :: "broker \<times> heap \<Rightarrow> bool" where
  "wf_broker bh \<longleftrightarrow> (case bh of (b, h) \<Rightarrow>
     wf_heap h \<and> length (b_topics b) \<le> MAX_BROKER_TOPICS \<and>
     length (managed_partitions b) \<le> MAX_BROKER_PARTITIONS \<and>
     set (b_topics b) \<subseteq> dom (h_topics h) \<and>
     (\<forall>r \<in> set (managed_partitions b). ref_ok h r))"

lemma topic_create_wf:
  assumes "topic_create mem name n ret = Some t"
  shows "wf_topic t" "length (partitions t) = nat n"
    "i < nat n \<Longrightarrow> partitions t ! i = empty_partition i"
  using assms by (auto simp: topic_create_def wf_topic_def split: if_splits)


section \<open>Topics and the heap\<close>

lemma set_partition_simps [simp]:
  "topic_name (set_partition t i p) = topic_name t"
  "length (partitions (set_partition t i p)) = length (partitions t)"
  "i < length (partitions t) \<Longrightarrow> partitions (set_partition t i p) ! i = p"
  "i \<noteq> j \<Longrightarrow> partitions (set_partition t i p) ! j = partitions t ! j"
  by (simp_all add: set_partition_def)

lemma set_topic_simps [simp]:
  "h_topics (set_topic h a t) a = Some t"
  "a \<noteq> a' \<Longrightarrow> h_topics (set_topic h a t) a' = h_topics h a'"
  "h_parts (set_topic h a t) = h_parts h"
  by (simp_all add: set_topic_def)

lemma wf_topic_set_partition:
  "wf_topic t \<Longrightarrow> wf_partition p \<Longrightarrow> wf_topic (set_partition t i p)"
  by (auto simp: wf_topic_def set_partition_def dest!: set_update_subset_insert[THEN subsetD])

lemma wf_heap_topic: "wf_heap h \<Longrightarrow> h_topics h a = Some t \<Longrightarrow> wf_topic t"
  by (auto simp: wf_heap_def ran_def)

lemma wf_heap_set_topic: "wf_heap h \<Longrightarrow> wf_topic t \<Longrightarrow> wf_heap (set_topic h a t)"
  by (auto simp: wf_heap_def set_topic_def ran_def split: if_splits)

lemma ref_ok_set_topic:
  "ref_ok h r \<Longrightarrow> h_topics h a = Some t \<Longrightarrow> length (partitions t') = length (partitions t) \<Longrightarrow>
   ref_ok (set_topic h a t') r"
  by (cases r) (auto simp: ref_ok_def set_topic_def)

lemma wf_broker_set_topic:
  assumes "wf_broker (b, h)" "h_topics h a = Some t" "wf_topic t'"
    "length (partitions t') = length (partitions t)"
  shows "wf_broker (b, set_topic h a t')"
  using assms wf_heap_set_topic[of h t' a] ref_ok_set_topic[of h _ a t t']
  by (auto simp: wf_broker_def set_topic_def)

lemma wf_partition_leader [simp]: "wf_partition (p\<lparr> leader_broker := l \<rparr>) = wf_partition p"
  by (simp add: wf_partition_def)

lemma log_of_leader [simp]: "log_of (p\<lparr> leader_broker := l \<rparr>) = log_of p"
  by (simp add: log_of_def)

lemma find_topic_total: "set as \<subseteq> dom (h_topics h) \<Longrightarrow> \<exists>r. find_topic h as name = Some r"
  by (induction as) auto

lemma find_topic_SomeD:
  "find_topic h as name = Some (Some a) \<Longrightarrow>
   a \<in> set as \<and> (\<exists>t. h_topics h a = Some t \<and> topic_name t = name)"
  by (induction as) (auto split: option.splits if_splits)

lemma find_topic_set_topic:
  "h_topics h a = Some t \<Longrightarrow> topic_name t' = topic_name t \<Longrightarrow>
   find_topic (set_topic h a t') as name = find_topic h as name"
  by (induction as) (auto simp: set_topic_def split: option.splits)

section \<open>Leadership\<close>

lemma lead_partitions_spec:
  assumes "k \<le> length (partitions t)"
    "lead_partitions bid a [k..<length (partitions t)] t managed = (t', managed')"
  shows "topic_name t' = topic_name t \<and> length (partitions t') = length (partitions t) \<and>
    (\<forall>i < length (partitions t). partitions t' ! i =
       (if k \<le> i \<and> i < k + (MAX_BROKER_PARTITIONS - length managed)
        then (partitions t ! i)\<lparr> leader_broker := bid \<rparr> else partitions t ! i)) \<and>
    managed' = managed @ map (In_topic a)
      [k..<min (length (partitions t)) (k + (MAX_BROKER_PARTITIONS - length managed))]"
  using assms
proof (induction "length (partitions t) - k" arbitrary: k t managed)
  case 0
  then show ?case by simp
next
  case (Suc d)
  let ?n = "length (partitions t)"
  have k: "k < ?n" "[k..<?n] = k # [Suc k..<?n]" using Suc.hyps(2) by (auto simp: upt_conv_Cons)
  show ?case
  proof (cases "length managed < MAX_BROKER_PARTITIONS")
    case False
    have run: "lead_partitions bid a [Suc k..<?n] t managed = (t', managed')"
      using Suc.prems(2) False k by simp
    have "topic_name t' = topic_name t \<and> length (partitions t') = ?n \<and>
      (\<forall>i < ?n. partitions t' ! i = partitions t ! i) \<and> managed' = managed"
      using Suc.hyps(1)[of t "Suc k" managed] Suc.hyps(2) k(1) run False by simp
    with False show ?thesis by simp
  next
    case True
    let ?t = "set_partition t k ((partitions t ! k)\<lparr> leader_broker := bid \<rparr>)"
    let ?r = "MAX_BROKER_PARTITIONS - length managed"
    have run: "lead_partitions bid a [Suc k..<?n] ?t (managed @ [In_topic a k]) = (t', managed')"
      using Suc.prems(2) True k by simp
    have r: "Suc k + (MAX_BROKER_PARTITIONS - length (managed @ [In_topic a k])) = k + ?r"
      using True by simp
    have ih: "topic_name t' = topic_name t" "length (partitions t') = ?n"
      "\<forall>i < ?n. partitions t' ! i =
         (if Suc k \<le> i \<and> i < k + ?r
          then (partitions ?t ! i)\<lparr> leader_broker := bid \<rparr> else partitions ?t ! i)"
      "managed' = (managed @ [In_topic a k]) @ map (In_topic a) [Suc k..<min ?n (k + ?r)]"
      using Suc.hyps(1)[of ?t "Suc k" "managed @ [In_topic a k]"] Suc.hyps(2) k(1) run
      unfolding r by simp_all
    have "k < min ?n (k + ?r)" using k(1) True by simp
    then have "managed' = managed @ map (In_topic a) [k..<min ?n (k + ?r)]"
      unfolding ih(4) by (subst (2) upt_conv_Cons) auto
    moreover have "partitions t' ! i = (if k \<le> i \<and> i < k + ?r
        then (partitions t ! i)\<lparr> leader_broker := bid \<rparr> else partitions t ! i)" if "i < ?n" for i
      using ih(3) that k(1) True by (cases "i = k") auto
    ultimately show ?thesis using ih(1,2) by blast
  qed
qed

lemma lead_partitions_wf:
  assumes "wf_topic t" "lead_partitions bid a [0..<length (partitions t)] t managed = (t', managed')"
  shows "wf_topic t'"
proof -
  from lead_partitions_spec[OF _ assms(2)] have
    "length (partitions t') = length (partitions t)"
    "\<forall>i < length (partitions t). partitions t' ! i = partitions t ! i \<or>
       partitions t' ! i = (partitions t ! i)\<lparr> leader_broker := bid \<rparr>" by auto
  with assms(1) show ?thesis by (fastforce simp: wf_topic_def all_set_conv_all_nth)
qed

section \<open>Produce\<close>

lemma produce_cases:
  assumes "find_topic h (b_topics b) name = Some (Some a)" "h_topics h a = Some t" "wf_topic t"
  shows "broker_handle_produce now b (Some name) part key value headers h = Some
    (if part < 0 \<or> part \<ge> int (length (partitions t)) then (Inl Bad_partition, h)
     else if leader_broker (partitions t ! nat part) \<noteq> b_id b \<and> \<not> is_controller b
          then (Inl Not_leader, h)
     else if room (partitions t ! nat part) = 0 then (Inl Append_failed, h)
     else (Inr (partition_get_end_offset (partitions t ! nat part)),
           set_topic h a (set_partition t (nat part)
             (snd (partition_append now key value headers (partitions t ! nat part))))))"
proof (cases "part < 0 \<or> part \<ge> int (length (partitions t))")
  case False
  let ?p = "partitions t ! nat part"
  have wf: "wf_partition ?p" using False assms(3) by (simp add: wf_topic_def nat_less_iff)
  have same: "set_topic h a (set_partition t (nat part) ?p) = h"
    using assms(2) by (simp add: set_topic_def set_partition_def fun_upd_idem)
  obtain off p' where app: "partition_append now key value headers ?p = (off, p')"
    by (cases "partition_append now key value headers ?p")
  show ?thesis
  proof (cases "room ?p = 0")
    case True
    with append_when_full[OF wf True] False assms(1,2) same show ?thesis
      by (simp add: broker_handle_produce_def Let_def)
  next
    case room: False
    then have "off = partition_get_end_offset ?p" using append_room[OF wf _ app] by simp
    with room app False assms(1,2) end_offset_nonneg[OF wf] show ?thesis
      by (simp add: broker_handle_produce_def Let_def)
  qed
qed (use assms in \<open>simp add: broker_handle_produce_def Let_def\<close>)


section \<open>Every reachable broker\<close>

lemma wf_brokerD:
  assumes "wf_broker (b, h)"
  shows "wf_heap h" "set (b_topics b) \<subseteq> dom (h_topics h)"
  using assms by (simp_all add: wf_broker_def)

lemma produce_wf [preserves]:
  assumes "wf_broker (b, h)" "broker_handle_produce now b name part key value headers h = Some (r, h')"
  shows "wf_broker (b, h')"
proof (cases name)
  case None
  with assms show ?thesis by (simp add: broker_handle_produce_def)
next
  case (Some n)
  note wf = wf_brokerD[OF assms(1)]
  obtain f where f: "find_topic h (b_topics b) n = Some f"
    using find_topic_total[OF wf(2)] by blast
  show ?thesis
  proof (cases f)
    case None
    with f Some assms show ?thesis by (simp add: broker_handle_produce_def)
  next
    case (Some a)
    with find_topic_SomeD f obtain t where t: "h_topics h a = Some t" by blast
    have wft: "wf_topic t" using wf_heap_topic[OF wf(1) t] .
    have wfp: "wf_topic (set_partition t (nat part)
        (snd (partition_append now key value headers (partitions t ! nat part))))"
      if "\<not> (part < 0 \<or> part \<ge> int (length (partitions t)))"
      using that wft append_wf by (intro wf_topic_set_partition) (auto simp: wf_topic_def nat_less_iff)
    from produce_cases[OF _ t wft, of b n now part key "value" headers] f Some \<open>name = Some n\<close> assms(2)
    have "h' = h \<or> \<not> (part < 0 \<or> part \<ge> int (length (partitions t))) \<and>
       h' = set_topic h a (set_partition t (nat part)
        (snd (partition_append now key value headers (partitions t ! nat part))))"
      by (auto split: if_splits)
    with wfp wf_broker_set_topic[OF assms(1) t] assms(1) show ?thesis by auto
  qed
qed

lemma register_wf [preserves]:
  assumes "wf_broker (b, h)" "broker_register_topic b a_opt h = Some (r, b', h')"
  shows "wf_broker (b', h')"
proof (cases "a_opt = None \<or> length (b_topics b) \<ge> MAX_BROKER_TOPICS")
  case True
  with assms show ?thesis by (auto simp: broker_register_topic_def split: option.splits)
next
  case False
  then obtain a where a: "a_opt = Some a" by auto
  obtain t where t: "h_topics h a = Some t"
    using assms(2) False a by (cases "h_topics h a") (auto simp: broker_register_topic_def)
  obtain t' managed where
    lead: "lead_partitions (b_id b) a [0..<length (partitions t)] t (managed_partitions b) = (t', managed)"
    by fastforce
  have res: "b' = b\<lparr> b_topics := b_topics b @ [a], managed_partitions := managed \<rparr>"
    "h' = set_topic h a t'"
    using assms(2) False a t lead by (auto simp: broker_register_topic_def Let_def)
  have wft: "wf_topic t'" using lead_partitions_wf[OF wf_heap_topic[OF wf_brokerD(1)[OF assms(1)] t] lead] .
  from lead_partitions_spec[OF _ lead] have
    len: "length (partitions t') = length (partitions t)" and
    man: "managed = managed_partitions b @ map (In_topic a)
       [0..<min (length (partitions t)) (MAX_BROKER_PARTITIONS - length (managed_partitions b))]"
    by auto
  have "wf_broker (b, h')" unfolding res using wf_broker_set_topic[OF assms(1) t wft len] .
  moreover have "length managed \<le> MAX_BROKER_PARTITIONS"
    using assms(1) by (auto simp: man wf_broker_def)
  moreover have "\<forall>r \<in> set (map (In_topic a) [0..<min (length (partitions t))
      (MAX_BROKER_PARTITIONS - length (managed_partitions b))]). ref_ok h' r"
    using len by (auto simp: res ref_ok_def)
  ultimately show ?thesis
    using False unfolding res(1) by (auto simp: wf_broker_def man res(2) set_topic_def)
qed

lemma manage_wf [preserves]:
  assumes "wf_broker (b, h)" "broker_manage_partition b r_opt h = Some (r, b', h')"
  shows "wf_broker (b', h')"
proof (cases "r_opt = None \<or> length (managed_partitions b) \<ge> MAX_BROKER_PARTITIONS")
  case True
  with assms show ?thesis by (auto simp: broker_manage_partition_def split: option.splits)
next
  case False
  then obtain x where x: "r_opt = Some x" by auto
  let ?b = "b\<lparr> managed_partitions := managed_partitions b @ [x] \<rparr>"
  have ext: "wf_broker (?b, h'')" if "wf_broker (b, h'')" "ref_ok h'' x" for h''
    using that False by (auto simp: wf_broker_def)
  show ?thesis
  proof (cases x)
    case (In_topic a i)
    obtain t where t: "h_topics h a = Some t" and i: "i < length (partitions t)"
      using assms(2) False x In_topic
      by (cases "h_topics h a") (auto simp: broker_manage_partition_def Let_def split: if_splits)
    let ?t = "set_partition t i ((partitions t ! i)\<lparr> leader_broker := b_id b \<rparr>)"
    have wft: "wf_topic t" using wf_heap_topic[OF wf_brokerD(1)[OF assms(1)] t] .
    then have "wf_topic ?t" using i by (intro wf_topic_set_partition) (auto simp: wf_topic_def)
    from wf_broker_set_topic[OF assms(1) t this] ext[of "set_topic h a ?t"] show ?thesis
      using assms(2) False x In_topic t i
      by (auto simp: broker_manage_partition_def Let_def ref_ok_def)
  next
    case (Standalone a)
    obtain p where p: "h_parts h a = Some p"
      using assms(2) False x Standalone
      by (cases "h_parts h a") (auto simp: broker_manage_partition_def Let_def)
    let ?h = "h\<lparr> h_parts := (h_parts h)(a \<mapsto> p\<lparr> leader_broker := b_id b \<rparr>) \<rparr>"
    have "wf_heap ?h" using wf_brokerD(1)[OF assms(1)] p by (auto simp: wf_heap_def ran_def)
    then have "wf_broker (b, ?h)"
      using assms(1) by (auto simp: wf_broker_def ref_ok_def split: part_ref.splits)
    from ext[OF this] show ?thesis
      using assms(2) False x Standalone p
      by (auto simp: broker_manage_partition_def Let_def ref_ok_def)
  qed
qed

datatype broker_op =
    Register "nat option"
  | Manage "part_ref option"
  | Produce int "string option" int "string option" "string option" "string option"
  | New_topic nat string int int

text \<open>
  A step of the broker's world: a request, or the creation of a topic at a free address. A
  request that would touch an unallocated address is no step.
\<close>

fun broker_step :: "broker_op \<Rightarrow> broker \<times> heap \<Rightarrow> broker \<times> heap" where
  "broker_step (Register a) (b, h) =
     (case broker_register_topic b a h of None \<Rightarrow> (b, h) | Some (_, bh) \<Rightarrow> bh)"
| "broker_step (Manage r) (b, h) =
     (case broker_manage_partition b r h of None \<Rightarrow> (b, h) | Some (_, bh) \<Rightarrow> bh)"
| "broker_step (Produce now name part k v hdr) (b, h) =
     (case broker_handle_produce now b name part k v hdr h of None \<Rightarrow> (b, h) | Some (_, h') \<Rightarrow> (b, h'))"
| "broker_step (New_topic a name n ret) (b, h) =
     (if h_topics h a \<noteq> None then (b, h)
      else (case topic_create True name n ret of None \<Rightarrow> (b, h) | Some t \<Rightarrow> (b, set_topic h a t)))"

definition fresh_broker :: "broker \<times> heap \<Rightarrow> bool" where
  "fresh_broker bh \<longleftrightarrow> (\<exists>ms bid hst prt ctl. broker_create True ms bid hst prt ctl = Some (fst bh)) \<and>
     snd bh = \<lparr> h_topics = Map.empty, h_parts = Map.empty \<rparr>"

lemma new_topic_wf:
  assumes "wf_broker (b, h)" "h_topics h a = None" "wf_topic t"
  shows "wf_broker (b, set_topic h a t)"
proof -
  have "ref_ok (set_topic h a t) r" if "ref_ok h r" for r
    using that assms(2) by (cases r) (auto simp: ref_ok_def set_topic_def)
  with assms wf_heap_set_topic[of h t a] show ?thesis
    by (auto simp: wf_broker_def set_topic_def)
qed

interpretation broker_sys: invariant_system fresh_broker broker_step wf_broker
proof
  show "fresh_broker bh \<Longrightarrow> wf_broker bh" for bh
    by (cases bh) (auto simp: fresh_broker_def broker_create_def wf_broker_def wf_heap_def)
  fix op bh
  assume wf: "wf_broker bh"
  obtain b h where bh: "bh = (b, h)" by fastforce
  show "wf_broker (broker_step op bh)"
  proof (cases op)
    case (Register a)
    then show ?thesis using wf register_wf[of b h a] unfolding bh by (auto split: option.split)
  next
    case (Manage r)
    then show ?thesis using wf manage_wf[of b h r] unfolding bh by (auto split: option.split)
  next
    case (Produce now name part k v hdr)
    then show ?thesis using wf produce_wf[of b h now name part k v hdr] unfolding bh
      by (auto split: option.split)
  next
    case (New_topic a name n ret)
    then show ?thesis using wf new_topic_wf[of b h a] topic_create_wf(1)[of True name n ret]
      unfolding bh by (auto split: option.split)
  qed
qed


section \<open>Properties\<close>

lemma fetch_found:
  assumes "find_topic h (b_topics b) name = Some (Some a)" "h_topics h a = Some t"
    "0 \<le> part" "part < int (length (partitions t))"
  shows "broker_handle_fetch b (Some name) part start max_bytes h =
    Some (Inr (partition_read (partitions t ! nat part) start
      (if c_div max_bytes sizeof_Record < 1 then 1 else c_div max_bytes sizeof_Record)))"
  using assms by (simp add: broker_handle_fetch_def Let_def)

lemma produce_InrE:
  assumes "wf_broker (b, h)"
    "broker_handle_produce now b (Some name) part key value headers h = Some (Inr off, h')"
  obtains a t where "find_topic h (b_topics b) name = Some (Some a)" "h_topics h a = Some t"
    "topic_name t = name" "wf_partition (partitions t ! nat part)"
    "0 \<le> part" "part < int (length (partitions t))"
    "0 < room (partitions t ! nat part)" "off = partition_get_end_offset (partitions t ! nat part)"
    "h' = set_topic h a (set_partition t (nat part)
       (snd (partition_append now key value headers (partitions t ! nat part))))"
proof -
  obtain a where a: "find_topic h (b_topics b) name = Some (Some a)"
    using assms(2) by (auto simp: broker_handle_produce_def split: option.splits)
  from find_topic_SomeD[OF a] obtain t where t: "h_topics h a = Some t" "topic_name t = name" by blast
  have wft: "wf_topic t" using wf_heap_topic[OF wf_brokerD(1)[OF assms(1)] t(1)] .
  note c = produce_cases[OF a t(1) wft, of now part key "value" headers]
  have r: "0 \<le> part" "part < int (length (partitions t))"
    using assms(2) c by (auto split: if_splits)
  then have "wf_partition (partitions t ! nat part)" using wft by (auto simp: wf_topic_def nat_less_iff)
  with a t r assms(2) c show ?thesis by (intro that[of a t]) (auto split: if_splits)
qed

lemma fetch_frame:
  assumes "h_topics h a = Some t" "(topic_name t, part) \<noteq> (name', part')" "0 \<le> part"
  shows "broker_handle_fetch b (Some name') part' start max_bytes
           (set_topic h a (set_partition t (nat part) p)) =
         broker_handle_fetch b (Some name') part' start max_bytes h"
proof -
  let ?h = "set_topic h a (set_partition t (nat part) p)"
  have f: "find_topic ?h (b_topics b) name' = find_topic h (b_topics b) name'"
    using assms(1) by (intro find_topic_set_topic) simp_all
  show ?thesis
  proof (cases "find_topic h (b_topics b) name' = Some (Some a)")
    case True
    with find_topic_SomeD assms(1,2) have "part \<noteq> part'" by fastforce
    with True f assms(1,3) show ?thesis
      by (auto simp: broker_handle_fetch_def Let_def eq_nat_nat_iff not_less)
  next
    case False
    with f show ?thesis
      by (auto simp: broker_handle_fetch_def Let_def set_topic_def split: option.splits)
  qed
qed

text \<open>
  C5. A produce request the broker accepts is served back by a fetch at the offset it
  returned: the fetch yields exactly the record just stored. The broker stays well formed,
  and every fetch of another topic name or another partition answers as before.
\<close>

theorem produce_then_fetch:
  assumes "wf_broker (b, h)"
    "broker_handle_produce now b (Some name) part key value headers h = Some (Inr off, h')"
  shows "wf_broker (b, h') \<and>
    broker_handle_fetch b (Some name) part off max_bytes h' =
      Some (Inr [make_record now off key value headers]) \<and>
    ((name', part') \<noteq> (name, part) \<longrightarrow>
      broker_handle_fetch b (Some name') part' start max_bytes h' =
      broker_handle_fetch b (Some name') part' start max_bytes h)"
proof -
  obtain a t where p: "find_topic h (b_topics b) name = Some (Some a)" "h_topics h a = Some t"
    "topic_name t = name" "wf_partition (partitions t ! nat part)"
    "0 \<le> part" "part < int (length (partitions t))"
    "0 < room (partitions t ! nat part)" "off = partition_get_end_offset (partitions t ! nat part)"
    "h' = set_topic h a (set_partition t (nat part)
       (snd (partition_append now key value headers (partitions t ! nat part))))"
    using assms by (rule produce_InrE)
  let ?p = "partitions t ! nat part"
  obtain off' p' where app: "append_to (now, key, value, headers) ?p = (off', p')"
    by (cases "append_to (now, key, value, headers) ?p")
  have "off' = off" using plog.push_space[OF p(4,7) app] p(8) by simp
  with plog.read_own_write[OF p(4,7) app]
  have own: "partition_read p' off m = [make_record now off key value headers]" if "0 < m" for m
    using that by (simp add: record_of_def)
  have p': "snd (partition_append now key value headers ?p) = p'"
    using app by (simp add: append_to_def)
  have "find_topic h' (b_topics b) name = Some (Some a)"
    using p(1,2) unfolding p(9) by (subst find_topic_set_topic) auto
  then have "broker_handle_fetch b (Some name) part off max_bytes h' =
      Some (Inr [make_record now off key value headers])"
    using fetch_found[of h' b name a "set_partition t (nat part) p'" part off max_bytes] p own
    unfolding p(9) p' by (simp add: nat_less_iff)
  with produce_wf[OF assms] fetch_frame[OF p(2) _ p(5)] p(3,9) show ?thesis by auto
qed

text \<open>What a produce request must answer, as a function of the state alone.\<close>

definition produce_outcome :: "broker \<Rightarrow> heap \<Rightarrow> string \<Rightarrow> int \<Rightarrow> broker_error + int" where
  "produce_outcome b h name part =
     (case find_topic h (b_topics b) name of
        Some (Some a) \<Rightarrow>
          (let ps = partitions (the (h_topics h a)); p = ps ! nat part in
           if part < 0 \<or> part \<ge> int (length ps) then Inl Bad_partition
           else if leader_broker p \<noteq> b_id b \<and> \<not> is_controller b then Inl Not_leader
           else if room p = 0 then Inl Append_failed
           else Inr (partition_get_end_offset p))
      | _ \<Rightarrow> Inl Topic_not_found)"

text \<open>
  A produce request always has a defined result. It fails exactly for an unknown topic, a
  partition out of range, a partition led by another broker (unless this one is the
  controller) or a full partition, and then the whole heap is unchanged; otherwise it returns
  the end offset of the partition.
\<close>

theorem produce_answers:
  assumes "wf_broker (b, h)"
  shows "\<exists>h'. broker_handle_produce now b (Some name) part key value headers h =
              Some (produce_outcome b h name part, h') \<and>
           (if isl (produce_outcome b h name part) then h' = h else wf_broker (b, h'))"
proof -
  obtain f where f: "find_topic h (b_topics b) name = Some f"
    using find_topic_total[OF wf_brokerD(2)[OF assms]] by blast
  show ?thesis
  proof (cases f)
    case None
    with f show ?thesis by (simp add: broker_handle_produce_def produce_outcome_def)
  next
    case (Some a)
    with find_topic_SomeD f obtain t where t: "h_topics h a = Some t" by blast
    have wft: "wf_topic t" using wf_heap_topic[OF wf_brokerD(1)[OF assms] t] .
    show ?thesis
      using f Some t produce_cases[OF _ t wft, of b name now part key "value" headers]
        produce_wf[OF assms, of now "Some name" part key "value" headers]
      by (auto simp: Let_def produce_outcome_def)
  qed
qed

text \<open>
  Registering a topic makes the broker the leader of its partitions only as far as its
  table of 64 managed partitions has space: the first partitions get it as their leader,
  the others keep the leader they had, and the call reports success all the same.
\<close>

theorem register_topic_leads:
  assumes "h_topics h a = Some t" "length (b_topics b) < MAX_BROKER_TOPICS"
  shows "\<exists>b' h' t'. broker_register_topic b (Some a) h = Some (0, b', h') \<and>
    b_topics b' = b_topics b @ [a] \<and> h_topics h' a = Some t' \<and>
    map leader_broker (partitions t') =
      map (\<lambda>i. if i < MAX_BROKER_PARTITIONS - length (managed_partitions b) then b_id b
               else leader_broker (partitions t ! i)) [0..<length (partitions t)] \<and>
    map log_of (partitions t') = map log_of (partitions t)"
proof -
  obtain t' managed where
    lead: "lead_partitions (b_id b) a [0..<length (partitions t)] t (managed_partitions b) = (t', managed)"
    by fastforce
  from lead_partitions_spec[OF _ lead] have l: "length (partitions t') = length (partitions t)"
    "\<And>i. i < length (partitions t) \<Longrightarrow> partitions t' ! i =
       (if i < MAX_BROKER_PARTITIONS - length (managed_partitions b)
        then (partitions t ! i)\<lparr> leader_broker := b_id b \<rparr> else partitions t ! i)" by auto
  have "map leader_broker (partitions t') =
      map (\<lambda>i. if i < MAX_BROKER_PARTITIONS - length (managed_partitions b) then b_id b
               else leader_broker (partitions t ! i)) [0..<length (partitions t)]"
    "map log_of (partitions t') = map log_of (partitions t)"
    by (intro nth_equalityI; simp add: l)+
  with assms lead show ?thesis by (simp add: broker_register_topic_def)
qed


section \<open>A broker with one topic\<close>

definition demo_topic :: topic where
  "demo_topic = \<lparr> topic_name = ''t'', partitions = map empty_partition [0..<2], retention_ms = 0 \<rparr>"

definition demo_heap :: heap where
  "demo_heap = \<lparr> h_topics = [7 \<mapsto> demo_topic], h_parts = Map.empty \<rparr>"

definition demo_broker :: broker where
  "demo_broker = \<lparr> b_id = 1, host = ''h'', port = 9092, b_topics = [7], managed_partitions = [],
     is_controller = True, b_offset_store = None \<rparr>"

lemma demo_wf: "wf_broker (demo_broker, demo_heap)"
  by (auto simp: wf_broker_def demo_broker_def demo_heap_def demo_topic_def wf_heap_def
      wf_topic_def c_consts)

lemma demo_find: "find_topic demo_heap (b_topics demo_broker) ''t'' = Some (Some 7)"
  by (simp add: demo_heap_def demo_broker_def demo_topic_def)

lemma demo_outcome: "produce_outcome demo_broker demo_heap ''t'' 1 = Inr 0"
  unfolding produce_outcome_def demo_find
  by (simp add: demo_broker_def demo_heap_def demo_topic_def nth_append)

theorem produce_answers_witness:
  "\<exists>h'. broker_handle_produce 5 demo_broker (Some ''t'') 1 None (Some ''v'') None demo_heap =
     Some (Inr 0, h') \<and> wf_broker (demo_broker, h')"
  using produce_answers[OF demo_wf, of 5 "''t''" 1 None "Some ''v''" None]
  by (simp add: demo_outcome)

lemma demo_produce:
  "\<exists>h'. broker_handle_produce 5 demo_broker (Some ''t'') 1 None (Some ''v'') None demo_heap =
     Some (Inr 0, h')"
proof -
  have "h_topics demo_heap 7 = Some demo_topic" "wf_topic demo_topic"
    by (simp_all add: demo_heap_def demo_topic_def wf_topic_def c_consts)
  from produce_cases[OF demo_find this, of 5 1 None "Some ''v''" None] show ?thesis
    by (simp add: demo_topic_def demo_broker_def upt_rec)
qed

theorem produce_then_fetch_witness:
  "\<exists>h'. broker_handle_produce 5 demo_broker (Some ''t'') 1 None (Some ''v'') None demo_heap =
     Some (Inr 0, h') \<and>
   broker_handle_fetch demo_broker (Some ''t'') 1 0 100000 h' =
     Some (Inr [make_record 5 0 None (Some ''v'') None])"
proof -
  obtain h' where h': "broker_handle_produce 5 demo_broker (Some ''t'') 1 None (Some ''v'') None
      demo_heap = Some (Inr 0, h')" using demo_produce by blast
  from produce_then_fetch[OF demo_wf h'] h' show ?thesis by blast
qed

theorem register_topic_leads_witness:
  "\<exists>b' h' t'. broker_register_topic (demo_broker\<lparr> managed_partitions := replicate 63 (Standalone 0) \<rparr>)
       (Some 7) demo_heap = Some (0, b', h') \<and>
     h_topics h' 7 = Some t' \<and> map leader_broker (partitions t') = [1, -1]"
proof -
  have t: "h_topics demo_heap 7 = Some demo_topic" by (simp add: demo_heap_def)
  let ?b = "demo_broker\<lparr> managed_partitions := replicate 63 (Standalone 0) \<rparr>"
  have "length (b_topics ?b) < MAX_BROKER_TOPICS" by (simp add: demo_broker_def c_consts)
  from register_topic_leads[OF t this] show ?thesis
    by (auto simp: demo_topic_def demo_broker_def c_consts empty_partition_def upt_rec)
qed

end
