(* ===== verification/Consumer_Group.thy ===== *)
theory Consumer_Group
  imports Topic_Partition
begin

text \<open>
  The consumer group coordinator (\<open>consumer_group.h\<close>, \<open>consumer_group.c\<close>): membership with
  heartbeats, and the two partition assignment strategies a rebalance runs. The assignment
  loops are compared with their closed form: consecutive balanced blocks for the range
  strategy, the positions congruent to the member's index for round robin.
\<close>

definition MAX_GROUP_MEMBERS :: nat where [c_consts]: "MAX_GROUP_MEMBERS = 8"
definition MAX_GROUP_ID_LEN :: nat where [c_consts]: "MAX_GROUP_ID_LEN = 64"
definition MAX_MEMBER_ID_LEN :: nat where [c_consts]: "MAX_MEMBER_ID_LEN = 64"

record offset_commit_msg =
  oc_topic :: string
  oc_partition :: int
  oc_offset :: int

record consumer_member =
  member_id :: string
  assigned_partitions :: "int list"
  last_heartbeat :: int
  session_timeout_ms :: int
  member_active :: bool

datatype partition_strategy = STRATEGY_RANGE | STRATEGY_ROUND_ROBIN

record consumer_group =
  cg_group_id :: string
  members :: "consumer_member list"
  subscribed_topics :: "string list"
  coordinator :: string
  generation_id :: int
  strategy :: partition_strategy
  is_rebalancing :: bool

section \<open>Membership\<close>

definition group_create ::
  "bool \<Rightarrow> string \<Rightarrow> string \<Rightarrow> partition_strategy \<Rightarrow> consumer_group option" where
  "group_create mem gid coord strat =
     (if \<not> mem then None
      else Some \<lparr> cg_group_id = c_strncpy (MAX_GROUP_ID_LEN - 1) gid, members = [],
                  subscribed_topics = [], coordinator = c_strncpy 127 coord,
                  generation_id = 0, strategy = strat, is_rebalancing = False \<rparr>)"

definition find_member :: "consumer_group \<Rightarrow> string \<Rightarrow> nat option" where
  "find_member g mid = find_idx (\<lambda>m. member_id m = mid) (members g)"

definition group_join ::
  "int \<Rightarrow> consumer_group \<Rightarrow> string option \<Rightarrow> int \<Rightarrow> int \<times> consumer_group" where
  "group_join now g mid_opt timeout =
     (case mid_opt of None \<Rightarrow> (-1, g) | Some mid \<Rightarrow>
       (case find_member g mid of
          Some i \<Rightarrow> (0, g\<lparr> members := (members g)[i :=
                      (members g ! i)\<lparr> last_heartbeat := now, member_active := True \<rparr>] \<rparr>)
        | None \<Rightarrow>
            if length (members g) \<ge> MAX_GROUP_MEMBERS then (-1, g)
            else (0, g\<lparr> members := members g @
                          [\<lparr> member_id = c_strncpy (MAX_MEMBER_ID_LEN - 1) mid,
                             assigned_partitions = [], last_heartbeat = now,
                             session_timeout_ms = timeout, member_active = True \<rparr>],
                        is_rebalancing := True,
                        generation_id := generation_id g + 1 \<rparr>)))"

definition group_leave :: "consumer_group \<Rightarrow> string option \<Rightarrow> consumer_group" where
  "group_leave g mid_opt =
     (case mid_opt of None \<Rightarrow> g | Some mid \<Rightarrow>
       (case find_member g mid of
          Some i \<Rightarrow> g\<lparr> members := take i (members g) @ drop (Suc i) (members g),
                       is_rebalancing := True \<rparr>
        | None \<Rightarrow> g))"

definition group_heartbeat :: "int \<Rightarrow> consumer_group \<Rightarrow> string option \<Rightarrow> int \<times> consumer_group" where
  "group_heartbeat now g mid_opt =
     (case mid_opt of None \<Rightarrow> (-1, g) | Some mid \<Rightarrow>
       (case find_member g mid of
          None \<Rightarrow> (-1, g)
        | Some i \<Rightarrow>
            (let m = members g ! i;
                 elapsed = now - last_heartbeat m;
                 m1 = m\<lparr> last_heartbeat := now \<rparr>
             in if elapsed > c_div (session_timeout_ms m) 1000
                then (-1, g\<lparr> members := (members g)[i := m1\<lparr> member_active := False \<rparr>],
                             is_rebalancing := True \<rparr>)
                else (0, g\<lparr> members := (members g)[i := m1] \<rparr>))))"

text \<open>The assignment of a member; an unknown member gets an empty one and -1.\<close>

definition group_get_assignment :: "consumer_group \<Rightarrow> string \<Rightarrow> int \<times> int list" where
  "group_get_assignment g mid =
     (case find_member g mid of
        Some i \<Rightarrow> (0, assigned_partitions (members g ! i))
      | None \<Rightarrow> (-1, []))"

definition offset_commit_create :: "bool \<Rightarrow> string \<Rightarrow> int \<Rightarrow> int \<Rightarrow> offset_commit_msg option" where
  "offset_commit_create mem tname part off =
     (if mem then Some \<lparr> oc_topic = c_strncpy 127 tname, oc_partition = part, oc_offset = off \<rparr>
      else None)"

section \<open>Assignment\<close>

definition total_partitions :: "topic list \<Rightarrow> nat" where
  "total_partitions topics = sum_list (map (\<lambda>t. length (partitions t)) topics)"

function assign_block :: "nat \<Rightarrow> nat \<Rightarrow> int list \<Rightarrow> int list" where
  "assign_block p stop acc =
     (if p < stop \<and> length acc < MAX_PARTITIONS
      then assign_block (Suc p) stop (acc @ [int p]) else acc)"
  by pat_completeness auto
termination by (relation "measure (\<lambda>(p, stop, acc). stop - p)") auto

declare assign_block.simps [simp del]

fun range_loop ::
  "nat \<Rightarrow> nat \<Rightarrow> nat \<Rightarrow> nat \<Rightarrow> nat \<Rightarrow> consumer_member list \<Rightarrow> consumer_member list" where
  "range_loop per extra tot m start [] = []"
| "range_loop per extra tot m start (x # xs) =
     (let assigned = per + (if m < extra then 1 else 0);
          stop = (if start + assigned > tot then tot else start + assigned)
      in x\<lparr> assigned_partitions := assign_block start stop [] \<rparr> #
         range_loop per extra tot (Suc m) stop xs)"

definition group_assign_range :: "consumer_group \<Rightarrow> topic list \<Rightarrow> int \<times> consumer_group" where
  "group_assign_range g topics =
     (if members g = [] then (-1, g)
      else
        (let tot = total_partitions topics; n = length (members g)
         in (0, g\<lparr> members := range_loop (tot div n) (tot mod n) tot 0 0 (members g) \<rparr>)))"

fun rr_partitions :: "nat \<Rightarrow> nat list \<Rightarrow> consumer_member list \<Rightarrow> consumer_member list" where
  "rr_partitions part_idx [] ms = ms"
| "rr_partitions part_idx (p # ps) ms =
     (let m = part_idx mod length ms; x = ms ! m
      in rr_partitions (Suc part_idx) ps
           (if length (assigned_partitions x) < MAX_PARTITIONS
            then ms[m := x\<lparr> assigned_partitions := assigned_partitions x @ [int p] \<rparr>]
            else ms))"

fun rr_topics :: "nat \<Rightarrow> topic list \<Rightarrow> consumer_member list \<Rightarrow> consumer_member list" where
  "rr_topics part_idx [] ms = ms"
| "rr_topics part_idx (t # ts) ms =
     rr_topics (part_idx + length (partitions t)) ts
       (rr_partitions part_idx [0..<length (partitions t)] ms)"

definition group_assign_round_robin :: "consumer_group \<Rightarrow> topic list \<Rightarrow> int \<times> consumer_group" where
  "group_assign_round_robin g topics =
     (if members g = [] then (-1, g)
      else (0, g\<lparr> members := rr_topics 0 topics
                     (map (\<lambda>m. m\<lparr> assigned_partitions := [] \<rparr>) (members g)) \<rparr>))"

text \<open>\<open>group_sync\<close> ignores the result of the assignment.\<close>

definition group_sync :: "consumer_group \<Rightarrow> topic list option \<Rightarrow> int \<times> consumer_group" where
  "group_sync g topics_opt =
     (case topics_opt of None \<Rightarrow> (-1, g) | Some topics \<Rightarrow>
       if topics = [] then (-1, g)
       else
         (let g' = snd (case strategy g of
                          STRATEGY_RANGE \<Rightarrow> group_assign_range g topics
                        | STRATEGY_ROUND_ROBIN \<Rightarrow> group_assign_round_robin g topics)
          in (0, g'\<lparr> is_rebalancing := False \<rparr>)))"

section \<open>The range strategy\<close>

lemma assign_block_eq:
  "assign_block p e acc = acc @ map int (take (MAX_PARTITIONS - length acc) [p..<e])"
proof (induction p e acc rule: assign_block.induct)
  case (1 p e acc)
  show ?case
  proof (cases "p < e \<and> length acc < MAX_PARTITIONS")
    case True
    then obtain k where "MAX_PARTITIONS - length acc = Suc k" by (metis Suc_diff_Suc)
    with 1 True show ?thesis
      by (subst assign_block.simps) (simp add: upt_conv_Cons diff_Suc)
  next
    case False
    then show ?thesis by (subst assign_block.simps) auto
  qed
qed

definition block_start :: "nat \<Rightarrow> nat \<Rightarrow> nat \<Rightarrow> nat" where
  "block_start tot n m = m * (tot div n) + min m (tot mod n)"

lemma block_start_Suc:
  "block_start tot n (Suc m) =
   block_start tot n m + (tot div n + (if m < tot mod n then 1 else 0))"
  by (simp add: block_start_def min_def)

lemma block_start_total: "0 < n \<Longrightarrow> block_start tot n n = tot"
  by (simp add: block_start_def min_absorb2 less_imp_le)

lemma block_start_mono: "m \<le> m' \<Longrightarrow> block_start tot n m \<le> block_start tot n m'"
  by (auto simp: block_start_def intro!: add_mono mult_le_mono1)

lemma range_loop_eq:
  assumes "m + length xs \<le> n" "0 < n"
  shows "range_loop (tot div n) (tot mod n) tot m (block_start tot n m) xs =
    map (\<lambda>(x, i). x\<lparr> assigned_partitions :=
           map int (take MAX_PARTITIONS [block_start tot n i ..< block_start tot n (Suc i)]) \<rparr>)
        (zip xs [m..<m + length xs])"
  using assms
proof (induction xs arbitrary: m)
  case (Cons x xs)
  have "block_start tot n (Suc m) \<le> block_start tot n n"
    using Cons.prems by (intro block_start_mono) simp
  then have "\<not> block_start tot n (Suc m) > tot"
    using block_start_total[OF Cons.prems(2)] by simp
  then show ?case
    using Cons.IH[of "Suc m"] Cons.prems
    by (simp add: Let_def upt_conv_Cons assign_block_eq block_start_Suc del: upt_Suc)
qed simp


lemma concat_blocks:
  assumes "0 < n" "k \<le> n"
  shows "concat (map (\<lambda>i. [block_start tot n i..<block_start tot n (Suc i)]) [0..<k]) =
         [0..<block_start tot n k]"
  using assms(2)
proof (induction k)
  case (Suc k)
  have "[0..<block_start tot n (Suc k)] =
        [0..<block_start tot n k] @ [block_start tot n k..<block_start tot n (Suc k)]"
    using block_start_mono[of k "Suc k" tot n] upt_add_eq_append[of 0 "block_start tot n k"]
    by (metis le_add_diff_inverse le_SucI order_refl zero_le)
  with Suc show ?case by simp
qed (simp add: block_start_def)

lemma assign_range_members:
  assumes "members g \<noteq> []"
  shows "members (snd (group_assign_range g topics)) =
    map (\<lambda>(x, i). x\<lparr> assigned_partitions :=
           map int (take MAX_PARTITIONS
             [block_start (total_partitions topics) (length (members g)) i ..<
              block_start (total_partitions topics) (length (members g)) (Suc i)]) \<rparr>)
        (zip (members g) [0..<length (members g)])"
proof -
  let ?n = "length (members g)" and ?t = "total_partitions topics"
  have "range_loop (?t div ?n) (?t mod ?n) ?t 0 (block_start ?t ?n 0) (members g) =
    map (\<lambda>(x, i). x\<lparr> assigned_partitions :=
           map int (take MAX_PARTITIONS [block_start ?t ?n i ..< block_start ?t ?n (Suc i)]) \<rparr>)
        (zip (members g) [0..<0 + ?n])"
    using assms by (intro range_loop_eq) auto
  then show ?thesis using assms by (simp add: group_assign_range_def Let_def block_start_def)
qed

section \<open>The round robin strategy\<close>

definition rr_picks :: "nat \<Rightarrow> nat \<Rightarrow> nat \<Rightarrow> nat list \<Rightarrow> int list" where
  "rr_picks k n m ps =
     map (int \<circ> fst) (filter (\<lambda>(p, i). i mod n = m) (zip ps [k..<k + length ps]))"

lemma rr_picks_Nil [simp]: "rr_picks k n m [] = []"
  by (simp add: rr_picks_def)

lemma rr_picks_Cons [simp]:
  "rr_picks k n m (p # ps) =
     (if k mod n = m then int p # rr_picks (Suc k) n m ps else rr_picks (Suc k) n m ps)"
  by (simp add: rr_picks_def upt_conv_Cons del: upt_Suc)

lemma rr_partitions_length [simp]: "length (rr_partitions k ps ms) = length ms"
  by (induction k ps ms rule: rr_partitions.induct) (simp_all add: Let_def)

lemma rr_partitions_append:
  "rr_partitions k (ps @ qs) ms = rr_partitions (k + length ps) qs (rr_partitions k ps ms)"
  by (induction k ps ms rule: rr_partitions.induct) (simp_all add: Let_def)

lemma rr_topics_eq:
  "rr_topics k ts ms = rr_partitions k (concat (map (\<lambda>t. [0..<length (partitions t)]) ts)) ms"
  by (induction k ts ms rule: rr_topics.induct) (simp_all add: rr_partitions_append)

lemma rr_partitions_nth:
  assumes "m < length ms" "\<forall>x \<in> set ms. length (assigned_partitions x) \<le> MAX_PARTITIONS"
  shows "rr_partitions k ps ms ! m = (ms ! m)\<lparr> assigned_partitions :=
    take MAX_PARTITIONS (assigned_partitions (ms ! m) @ rr_picks k (length ms) m ps) \<rparr>"
  using assms
proof (induction ps arbitrary: k ms)
  case Nil
  then show ?case by simp
next
  case (Cons p ps)
  let ?j = "k mod length ms"
  let ?x = "ms ! ?j"
  let ?ms = "if length (assigned_partitions ?x) < MAX_PARTITIONS
    then ms[?j := ?x\<lparr> assigned_partitions := assigned_partitions ?x @ [int p] \<rparr>] else ms"
  have j: "?j < length ms" using Cons.prems(1) by (intro mod_less_divisor) auto
  have xj: "length (assigned_partitions ?x) \<le> MAX_PARTITIONS" using Cons.prems(2) j by simp
  have ok: "\<forall>x \<in> set ?ms. length (assigned_partitions x) \<le> MAX_PARTITIONS"
    using Cons.prems(2) xj by (auto dest!: set_update_subset_insert[THEN subsetD])
  have "rr_partitions k (p # ps) ms ! m = (?ms ! m)\<lparr> assigned_partitions :=
    take MAX_PARTITIONS (assigned_partitions (?ms ! m) @ rr_picks (Suc k) (length ms) m ps) \<rparr>"
    using Cons.IH[of ?ms "Suc k", OF _ ok] Cons.prems(1) by (simp add: Let_def)
  then show ?case
    using xj j Cons.prems by (cases "?j = m") (auto simp: take_Cons')
qed

lemma assign_rr_members:
  assumes "m < length (members g)"
  shows "members (snd (group_assign_round_robin g topics)) ! m =
    (members g ! m)\<lparr> assigned_partitions := take MAX_PARTITIONS
       (rr_picks 0 (length (members g)) m
         (concat (map (\<lambda>t. [0..<length (partitions t)]) topics))) \<rparr>"
proof -
  have "members g \<noteq> []" using assms by auto
  with assms show ?thesis
    by (simp add: group_assign_round_robin_def rr_topics_eq rr_partitions_nth)
qed

section \<open>Invariant\<close>

definition wf_member :: "consumer_member \<Rightarrow> bool" where
  "wf_member m \<longleftrightarrow> length (member_id m) < MAX_MEMBER_ID_LEN \<and>
     length (assigned_partitions m) \<le> MAX_PARTITIONS"

definition wf_cgroup :: "consumer_group \<Rightarrow> bool" where
  "wf_cgroup g \<longleftrightarrow> length (members g) \<le> MAX_GROUP_MEMBERS \<and> (\<forall>m \<in> set (members g). wf_member m)"

datatype group_op =
    Join int "string option" int
  | Leave "string option"
  | Heartbeat int "string option"
  | Sync "topic list option"

fun group_step :: "group_op \<Rightarrow> consumer_group \<Rightarrow> consumer_group" where
  "group_step (Join now mid timeout) g = snd (group_join now g mid timeout)"
| "group_step (Leave mid) g = group_leave g mid"
| "group_step (Heartbeat now mid) g = snd (group_heartbeat now g mid)"
| "group_step (Sync ts) g = snd (group_sync g ts)"

definition fresh_group :: "consumer_group \<Rightarrow> bool" where
  "fresh_group g = (\<exists>gid coord strat. group_create True gid coord strat = Some g)"

lemma find_member_lt: "find_member g mid = Some i \<Longrightarrow> i < length (members g)"
  by (auto simp: find_member_def dest: find_idx_SomeD)

lemma wf_update:
  "wf_cgroup g \<Longrightarrow> wf_member m \<Longrightarrow> wf_cgroup (g\<lparr> members := (members g)[i := m] \<rparr>)"
  by (auto simp: wf_cgroup_def dest!: set_update_subset_insert[THEN subsetD])

lemma wf_flags [simp]:
  "wf_cgroup (g\<lparr> is_rebalancing := b \<rparr>) = wf_cgroup g"
  "wf_cgroup (g\<lparr> generation_id := n \<rparr>) = wf_cgroup g"
  by (simp_all add: wf_cgroup_def)

lemma join_wf [preserves]: "wf_cgroup g \<Longrightarrow> wf_cgroup (snd (group_join now g mid timeout))"
  by (auto simp: group_join_def wf_cgroup_def wf_member_def c_consts find_member_lt
      split: option.splits dest!: set_update_subset_insert[THEN subsetD])

lemma leave_wf [preserves]: "wf_cgroup g \<Longrightarrow> wf_cgroup (group_leave g mid)"
  by (auto simp: group_leave_def wf_cgroup_def split: option.splits
      dest: in_set_takeD in_set_dropD find_member_lt)

lemma heartbeat_wf [preserves]: "wf_cgroup g \<Longrightarrow> wf_cgroup (snd (group_heartbeat now g mid))"
  by (auto simp: group_heartbeat_def wf_cgroup_def wf_member_def Let_def find_member_lt
      split: option.splits dest!: set_update_subset_insert[THEN subsetD])

lemma assign_no_members:
  "members g = [] \<Longrightarrow> group_assign_range g ts = (-1, g)"
  "members g = [] \<Longrightarrow> group_assign_round_robin g ts = (-1, g)"
  by (simp_all add: group_assign_range_def group_assign_round_robin_def)

lemma range_wf [preserves]: "wf_cgroup g \<Longrightarrow> wf_cgroup (snd (group_assign_range g ts))"
proof (cases "members g = []")
  case False
  assume "wf_cgroup g"
  with False show ?thesis
    by (auto simp: wf_cgroup_def assign_range_members wf_member_def dest!: set_zip_leftD)
qed (simp add: assign_no_members)

lemma rr_length:
  "length (members (snd (group_assign_round_robin g ts))) = length (members g)"
  by (simp add: group_assign_round_robin_def rr_topics_eq)

lemma rr_wf [preserves]: "wf_cgroup g \<Longrightarrow> wf_cgroup (snd (group_assign_round_robin g ts))"
  by (auto simp: wf_cgroup_def all_set_conv_all_nth rr_length assign_rr_members wf_member_def)

lemma sync_wf [preserves]: "wf_cgroup g \<Longrightarrow> wf_cgroup (snd (group_sync g ts))"
  by (auto simp: group_sync_def Let_def range_wf rr_wf split: option.splits partition_strategy.splits)

lemma fresh_group_wf: "fresh_group g \<Longrightarrow> wf_cgroup g"
  by (auto simp: fresh_group_def group_create_def wf_cgroup_def)

lemma sync_generation [simp]: "generation_id (snd (group_sync g ts)) = generation_id g"
  by (auto simp: group_sync_def Let_def group_assign_range_def group_assign_round_robin_def
      split: option.splits partition_strategy.splits)

interpretation cgroup: monotone_system fresh_group group_step wf_cgroup generation_id
proof
  show "fresh_group g \<Longrightarrow> wf_cgroup g" for g by (rule fresh_group_wf)
  show "wf_cgroup g \<Longrightarrow> wf_cgroup (group_step op g)" for op g
    by (cases op) (simp_all add: preserves)
  show "generation_id g \<le> generation_id (group_step op g)" for op g
    by (cases op) (auto simp: group_join_def group_leave_def group_heartbeat_def Let_def
        split: option.splits)
qed


section \<open>Properties\<close>

lemma block_length:
  "block_start tot n (Suc i) - block_start tot n i = tot div n + (if i < tot mod n then 1 else 0)"
  by (simp add: block_start_Suc)

lemma block_length_le:
  assumes "0 < n" "tot \<le> k * n"
  shows "block_start tot n (Suc i) - block_start tot n i \<le> k"
proof -
  have q: "tot div n \<le> k"
    using div_le_mono[OF assms(2), of n] assms(1) by simp
  have "tot mod n = 0" if "tot div n = k"
  proof -
    have "tot = k * n + tot mod n" using that by (metis div_mult_mod_eq)
    with assms(2) show ?thesis by simp
  qed
  with q show ?thesis unfolding block_length by (cases "tot div n = k") auto
qed

lemma sync_range:
  "strategy g = STRATEGY_RANGE \<Longrightarrow> ts \<noteq> [] \<Longrightarrow>
   group_sync g (Some ts) = (0, (snd (group_assign_range g ts))\<lparr> is_rebalancing := False \<rparr>)"
  by (simp add: group_sync_def)

lemma sync_rr:
  "strategy g = STRATEGY_ROUND_ROBIN \<Longrightarrow> ts \<noteq> [] \<Longrightarrow>
   group_sync g (Some ts) = (0, (snd (group_assign_round_robin g ts))\<lparr> is_rebalancing := False \<rparr>)"
  by (simp add: group_sync_def)

text \<open>
  C4. A range rebalance with at most eight partitions per member (the size of the array a member
  has for them, beyond which the code cuts a block off) hands out consecutive blocks: together the members hold every index from 0 to the total exactly once and in
  order, the first \<open>total mod n\<close> members hold one partition more than the others, and the
  group is no longer rebalancing.
\<close>

theorem range_assignment_balanced:
  assumes "strategy g = STRATEGY_RANGE" "ts \<noteq> []" "members g \<noteq> []"
    "total_partitions ts \<le> MAX_PARTITIONS * length (members g)"
  shows "\<exists>g'. group_sync g (Some ts) = (0, g') \<and> \<not> is_rebalancing g' \<and>
     map member_id (members g') = map member_id (members g) \<and>
     concat (map assigned_partitions (members g')) = map int [0..<total_partitions ts] \<and>
     map (\<lambda>m. length (assigned_partitions m)) (members g') =
       map (\<lambda>i. total_partitions ts div length (members g) +
                (if i < total_partitions ts mod length (members g) then 1 else 0))
           [0..<length (members g)]"
proof -
  let ?n = "length (members g)" and ?t = "total_partitions ts"
  let ?b = "\<lambda>i. [block_start ?t ?n i..<block_start ?t ?n (Suc i)]"
  let ?g = "snd (group_assign_range g ts)"
  have n: "0 < ?n" using assms(3) by simp
  have "take MAX_PARTITIONS (?b i) = ?b i" for i
    using block_length_le[OF n assms(4)] by simp
  then have ms: "members ?g =
      map (\<lambda>(x, i). x\<lparr> assigned_partitions := map int (?b i) \<rparr>) (zip (members g) [0..<?n])"
    using assign_range_members[OF assms(3)] by simp
  then have ass: "map assigned_partitions (members ?g) = map (map int) (map ?b [0..<?n])"
    by (intro nth_equalityI) simp_all
  have "concat (map assigned_partitions (members ?g)) = map int [0..<?t]"
    unfolding ass map_concat[symmetric] concat_blocks[OF n order_refl]
    by (simp add: block_start_total[OF n])
  moreover have "map (\<lambda>m. length (assigned_partitions m)) (members ?g) =
      map length (map assigned_partitions (members ?g))" by simp
  then have "map (\<lambda>m. length (assigned_partitions m)) (members ?g) =
    map (\<lambda>i. ?t div ?n + (if i < ?t mod ?n then 1 else 0)) [0..<?n]"
    unfolding ass by (simp add: block_length)
  moreover have "map member_id (members ?g) = map member_id (members g)"
    unfolding ms by (intro nth_equalityI) simp_all
  ultimately show ?thesis using sync_range[OF assms(1,2)] by simp
qed

text \<open>A group of three members used by the witnesses.\<close>

definition example_member :: "string \<Rightarrow> consumer_member" where
  "example_member mid = \<lparr> member_id = mid, assigned_partitions = [], last_heartbeat = 0,
     session_timeout_ms = 10000, member_active = True \<rparr>"

definition example_group :: "partition_strategy \<Rightarrow> consumer_group" where
  "example_group strat = \<lparr> cg_group_id = ''g'',
     members = [example_member ''a'', example_member ''b'', example_member ''c''],
     subscribed_topics = [], coordinator = ''c'', generation_id = 3,
     strategy = strat, is_rebalancing = True \<rparr>"

definition example_topic :: topic where
  "example_topic = \<lparr> topic_name = ''t'', partitions = map empty_partition [0..<4],
     retention_ms = 0 \<rparr>"

theorem range_assignment_balanced_witness:
  "\<exists>g'. group_sync (example_group STRATEGY_RANGE) (Some [example_topic]) = (0, g') \<and>
     concat (map assigned_partitions (members g')) = [0, 1, 2, 3] \<and>
     map (\<lambda>m. length (assigned_partitions m)) (members g') = [2, 1, 1]"
proof -
  let ?g = "example_group STRATEGY_RANGE"
  have "strategy ?g = STRATEGY_RANGE" "members ?g \<noteq> []"
    "total_partitions [example_topic] \<le> MAX_PARTITIONS * length (members ?g)"
    by (simp_all add: example_group_def total_partitions_def example_topic_def c_consts)
  from range_assignment_balanced[OF this(1) _ this(2,3)]
  show ?thesis
    by (auto simp: example_group_def total_partitions_def example_topic_def upt_rec)
qed

text \<open>
  A round robin rebalance deals the partitions of all topics, one topic after the other,
  in turn: the member at position m gets the partition indices at the positions congruent to
  m modulo the number of members, up to the eight its array holds. Only the index within the
  topic is stored, not the topic it belongs to.
\<close>

theorem round_robin_assignment:
  assumes "strategy g = STRATEGY_ROUND_ROBIN" "ts \<noteq> []" "m < length (members g)"
    "ps = concat (map (\<lambda>t. [0..<length (partitions t)]) ts)"
  shows "assigned_partitions (members (snd (group_sync g (Some ts))) ! m) =
    take MAX_PARTITIONS (map (\<lambda>i. int (ps ! i))
      (filter (\<lambda>i. i mod length (members g) = m) [0..<length ps]))"
proof -
  have "rr_picks 0 n m ps = map (\<lambda>i. int (ps ! i)) (filter (\<lambda>i. i mod n = m) [0..<length ps])" for n
  proof -
    have z: "zip ps [0..<length ps] = map (\<lambda>i. (ps ! i, i)) [0..<length ps]"
      by (intro nth_equalityI) simp_all
    show ?thesis by (simp add: rr_picks_def z filter_map comp_def)
  qed
  then show ?thesis
    using assign_rr_members[OF assms(3), of ts] assms(4) by (simp add: sync_rr[OF assms(1,2)])
qed

theorem round_robin_assignment_witness:
  "assigned_partitions (members (snd (group_sync (example_group STRATEGY_ROUND_ROBIN)
      (Some [example_topic, example_topic]))) ! 0) = [0, 3, 2]"
proof -
  let ?g = "example_group STRATEGY_ROUND_ROBIN" and ?ts = "[example_topic, example_topic]"
  have h: "strategy ?g = STRATEGY_ROUND_ROBIN" "(0::nat) < length (members ?g)"
    by (simp_all add: example_group_def)
  have ps: "concat (map (\<lambda>t. [0..<length (partitions t)]) ?ts) = [0, 1, 2, 3, 0, 1, 2, 3]"
    by (simp add: example_topic_def upt_rec)
  show ?thesis
    using round_robin_assignment[OF h(1) _ h(2) refl, of ?ts] unfolding ps
    by (simp add: example_group_def c_consts upt_rec)
qed

lemma heartbeat_in_time:
  "find_member g mid = Some i \<Longrightarrow>
   now - last_heartbeat (members g ! i) \<le> c_div (session_timeout_ms (members g ! i)) 1000 \<Longrightarrow>
   group_heartbeat now g (Some mid) =
     (0, g\<lparr> members := (members g)[i := (members g ! i)\<lparr> last_heartbeat := now \<rparr>] \<rparr>)"
  by (simp add: group_heartbeat_def Let_def)

text \<open>
  A member that missed its session timeout is marked inactive and the heartbeat returns
  -1, but its heartbeat time is refreshed and it keeps its place: the next heartbeat in time
  returns 0 although the member is still inactive, and the rebalance still assigns it its
  share of the partitions.
\<close>

theorem timed_out_member_keeps_partitions:
  assumes "find_member g mid = Some i"
    "now - last_heartbeat (members g ! i) > c_div (session_timeout_ms (members g ! i)) 1000"
    "0 \<le> session_timeout_ms (members g ! i)"
  shows "\<exists>g1 g2. group_heartbeat now g (Some mid) = (-1, g1) \<and> is_rebalancing g1 \<and>
     \<not> member_active (members g1 ! i) \<and>
     group_heartbeat now g1 (Some mid) = (0, g2) \<and> \<not> member_active (members g2 ! i) \<and>
     map assigned_partitions (members (snd (group_sync g2 (Some ts)))) =
       map assigned_partitions (members (snd (group_sync g (Some ts))))"
proof -
  let ?m1 = "(members g ! i)\<lparr> last_heartbeat := now, member_active := False \<rparr>"
  let ?g1 = "g\<lparr> members := (members g)[i := ?m1], is_rebalancing := True \<rparr>"
  have i: "i < length (members g)" "member_id (members g ! i) = mid"
    using assms(1) find_idx_SomeD(1,2)[of "\<lambda>m. member_id m = mid" "members g" i]
    by (auto simp: find_member_def)
  have h1: "group_heartbeat now g (Some mid) = (-1, ?g1)"
    using assms(1,2) by (simp add: group_heartbeat_def Let_def)
  have f1: "find_member ?g1 mid = Some i"
    using assms(1) i by (simp add: find_member_def find_idx_update_same)
  have h2: "group_heartbeat now ?g1 (Some mid) = (0, ?g1)"
  proof -
    have "now - last_heartbeat (members ?g1 ! i) \<le> c_div (session_timeout_ms (members ?g1 ! i)) 1000"
      using assms(3) i by (simp add: c_div_pos pos_imp_zdiv_nonneg_iff)
    note heartbeat_in_time[OF f1 this]
    also have "?g1\<lparr> members := (members ?g1)[i := (members ?g1 ! i)\<lparr> last_heartbeat := now \<rparr>] \<rparr> = ?g1"
      using i by (cases "members g ! i"; cases g) simp
    finally show ?thesis .
  qed
  have ne: "members ?g1 \<noteq> []" "members g \<noteq> []" using i by auto
  have "map assigned_partitions (members (snd (group_assign_range ?g1 ts))) =
        map assigned_partitions (members (snd (group_assign_range g ts)))"
    unfolding assign_range_members[OF ne(1)] assign_range_members[OF ne(2)]
    using i by (intro nth_equalityI) (simp_all add: nth_list_update)
  moreover have "map assigned_partitions (members (snd (group_assign_round_robin ?g1 ts))) =
        map assigned_partitions (members (snd (group_assign_round_robin g ts)))"
    using i by (intro nth_equalityI) (simp_all add: rr_length assign_rr_members nth_list_update)
  moreover have "map assigned_partitions (members ?g1) = map assigned_partitions (members g)"
    using i by (simp add: map_update_same)
  ultimately have "map assigned_partitions (members (snd (group_sync ?g1 (Some ts)))) =
      map assigned_partitions (members (snd (group_sync g (Some ts))))"
    by (cases "strategy g") (auto simp: group_sync_def Let_def)
  with h1 h2 i show ?thesis by auto
qed

theorem timed_out_member_keeps_partitions_witness:
  "\<exists>g1 g2. group_heartbeat 60 (example_group STRATEGY_RANGE) (Some ''b'') = (-1, g1) \<and>
     group_heartbeat 60 g1 (Some ''b'') = (0, g2) \<and> \<not> member_active (members g2 ! 1)"
proof -
  let ?g = "example_group STRATEGY_RANGE"
  have f: "find_member ?g ''b'' = Some 1"
    by (simp add: find_member_def example_group_def example_member_def)
  have m: "members ?g ! 1 = example_member ''b''" by (simp add: example_group_def)
  have "60 - last_heartbeat (members ?g ! 1) > c_div (session_timeout_ms (members ?g ! 1)) 1000"
    "0 \<le> session_timeout_ms (members ?g ! 1)"
    unfolding m by (simp_all add: example_member_def c_div_pos)
  from timed_out_member_keeps_partitions[OF f this] show ?thesis by blast
qed

end
