(* ===== verification/Producer_Client.thy ===== *)
theory Producer_Client
  imports Prelude "HOL-Library.Word"
begin

unbundle bit_operations_syntax

text \<open>
  The batching producer (\<open>producer_client.h\<close>, \<open>producer_client.c\<close>): sends fill a batch of
  256 records that is flushed when full, and the partitioner hashes the key with the DJB2
  function on 64 bit unsigned integers. A flush prints the batch and empties it; the printed
  records are the result of the flush here, and nothing else happens to them in the code.
\<close>

definition MAX_BATCH_SIZE :: nat where [c_consts]: "MAX_BATCH_SIZE = 256"
definition MAX_CLIENT_ID_LEN :: nat where [c_consts]: "MAX_CLIENT_ID_LEN = 64"

datatype producer_ack = PRODUCER_ACK_NONE | PRODUCER_ACK_LEADER | PRODUCER_ACK_ALL

record batch_record =
  br_key :: string
  br_value :: string
  br_headers :: string

record producer =
  client_id :: string
  target_broker :: string
  pr_topic :: string
  pending_batch :: "batch_record list"
  linger_ms :: int
  ack_mode :: producer_ack
  next_seq :: int

definition producer_create ::
  "bool \<Rightarrow> string \<Rightarrow> string \<Rightarrow> string \<Rightarrow> producer_ack \<Rightarrow> int \<Rightarrow> producer option" where
  "producer_create mem cid broker topic ack linger =
     (if \<not> mem then None
      else Some \<lparr> client_id = c_strncpy (MAX_CLIENT_ID_LEN - 1) cid,
                  target_broker = c_strncpy 127 broker, pr_topic = c_strncpy 127 topic,
                  pending_batch = [], linger_ms = linger, ack_mode = ack, next_seq = 0 \<rparr>)"

section \<open>Partitioner\<close>

fun djb2 :: "string \<Rightarrow> 64 word \<Rightarrow> 64 word" where
  "djb2 [] hash = hash"
| "djb2 (c # cs) hash = djb2 cs (((push_bit 5 hash) + hash) + of_char c)"

definition producer_partitioner :: "int \<Rightarrow> string option \<Rightarrow> int \<Rightarrow> int" where
  "producer_partitioner now key num_partitions =
     (if num_partitions \<le> 0 then -1
      else
        (case key of
           Some k \<Rightarrow>
             if k = [] then now - c_div now num_partitions * num_partitions
             else uint (djb2 k 5381) mod num_partitions
         | None \<Rightarrow> now - c_div now num_partitions * num_partitions))"

section \<open>Batching\<close>

definition producer_flush :: "producer \<Rightarrow> batch_record list list \<times> producer" where
  "producer_flush p =
     (if pending_batch p = [] then ([], p)
      else ([pending_batch p], p\<lparr> pending_batch := [] \<rparr>))"

definition batch_entry :: "string option \<Rightarrow> string \<Rightarrow> string option \<Rightarrow> batch_record" where
  "batch_entry key value headers =
     \<lparr> br_key = (case key of Some k \<Rightarrow> c_strncpy 255 k | None \<Rightarrow> []),
       br_value = c_strncpy 4095 value,
       br_headers = (case headers of Some h \<Rightarrow> c_strncpy 1023 h | None \<Rightarrow> []) \<rparr>"

text \<open>The result code, the batches flushed on the way, and the producer afterwards.\<close>

definition producer_send ::
  "int \<Rightarrow> string option \<Rightarrow> string option \<Rightarrow> string option \<Rightarrow> producer
     \<Rightarrow> (int \<times> batch_record list list) \<times> producer" where
  "producer_send now key value_opt headers p =
     (case value_opt of None \<Rightarrow> ((-1, []), p) | Some value \<Rightarrow>
       if producer_partitioner now key (int MAX_BATCH_SIZE) < 0 then ((-1, []), p)
       else
         (let (fl1, p1) = (if length (pending_batch p) \<ge> MAX_BATCH_SIZE
                           then producer_flush p else ([], p));
              p2 = p1\<lparr> pending_batch := pending_batch p1 @ [batch_entry key value headers],
                       next_seq := next_seq p1 + 1 \<rparr>;
              (fl2, p3) = (if length (pending_batch p2) \<ge> MAX_BATCH_SIZE
                           then producer_flush p2 else ([], p2))
          in ((0, fl1 @ fl2), p3)))"

definition producer_destroy :: "producer \<Rightarrow> batch_record list list" where
  "producer_destroy p = fst (producer_flush p)"

section \<open>The hash as a polynomial\<close>

lemma djb2_step: "push_bit 5 h + h = 33 * (h :: 64 word)"
  by (simp add: push_bit_eq_mult)

lemma uint_of_char: "uint (of_char c :: 64 word) = of_char c mod 2 ^ 64"
proof -
  have "(of_char c :: 64 word) = word_of_int (of_char c)" by (rule of_int_of_char[symmetric])
  then have "uint (of_char c :: 64 word) = uint (word_of_int (of_char c) :: 64 word)"
    by (rule arg_cong)
  also have "\<dots> = of_char c mod 2 ^ LENGTH(64)" by (rule uint_word_of_int)
  finally show ?thesis by simp
qed

lemma mod_mult_add_left: "(a mod m * b + c) mod m = (a * b + c) mod (m :: int)"
  by (metis mod_add_left_eq mod_mult_left_eq)

lemma djb2_poly:
  "uint (djb2 s h) =
     (uint h * 33 ^ length s + (\<Sum>i < length s. of_char (s ! i) * 33 ^ (length s - 1 - i))) mod 2 ^ 64"
proof (induction s arbitrary: h)
  case Nil
  show ?case using uint_lt2p[of h] by (simp add: take_bit_eq_mod[symmetric] take_bit_int_eq_self)
next
  case (Cons c s)
  let ?n = "length s"
  let ?S = "\<Sum>i < ?n. (of_char (s ! i) :: int) * 33 ^ (?n - 1 - i)"
  have "uint (djb2 (c # s) h) = (uint (33 * h + of_char c) * 33 ^ ?n + ?S) mod 2 ^ 64"
    using Cons by (simp add: djb2_step)
  also have "uint (33 * h + of_char c) = (33 * uint h + of_char c) mod 2 ^ 64"
  proof -
    have "33 * h + of_char c = word_of_int (33 * uint h + of_char c)"
      by (simp add: of_int_of_char)
    then show ?thesis by (simp only: uint_word_of_int) simp
  qed
  also have "((33 * uint h + of_char c) mod 2 ^ 64 * 33 ^ ?n + ?S) mod 2 ^ 64 =
             ((33 * uint h + of_char c) * 33 ^ ?n + ?S) mod 2 ^ 64"
    by (rule mod_mult_add_left)
  also have "(33 * uint h + of_char c) * 33 ^ ?n + ?S =
      uint h * 33 ^ length (c # s) +
      (\<Sum>i < length (c # s). of_char ((c # s) ! i) * 33 ^ (length (c # s) - 1 - i))"
    by (simp add: sum.lessThan_Suc_shift algebra_simps del: sum.lessThan_Suc)
  finally show ?case .
qed


section \<open>Batches\<close>

definition send_args :: "(int \<times> string option \<times> string \<times> string option) \<Rightarrow> producer
    \<Rightarrow> (int \<times> batch_record list list) \<times> producer" where
  "send_args a p = (case a of (now, k, v, h) \<Rightarrow> producer_send now k (Some v) h p)"

definition entry_of :: "(int \<times> string option \<times> string \<times> string option) \<Rightarrow> batch_record" where
  "entry_of a = (case a of (now, k, v, h) \<Rightarrow> batch_entry k v h)"

lemma partitioner_nonneg:
  assumes "0 \<le> now" "0 < n"
  shows "0 \<le> producer_partitioner now key n \<and> producer_partitioner now key n < n"
  using assms by (auto simp: producer_partitioner_def c_div_pos minus_div_mult_eq_mod
      split: option.splits)

lemma send_step:
  assumes "0 \<le> now" "length (pending_batch p) < MAX_BATCH_SIZE"
  shows "send_args (now, k, v, h) p =
    (if Suc (length (pending_batch p)) = MAX_BATCH_SIZE
     then ((0, [pending_batch p @ [batch_entry k v h]]),
           p\<lparr> pending_batch := [], next_seq := next_seq p + 1 \<rparr>)
     else ((0, []), p\<lparr> pending_batch := pending_batch p @ [batch_entry k v h],
                      next_seq := next_seq p + 1 \<rparr>))"
proof -
  have "\<not> producer_partitioner now k (int MAX_BATCH_SIZE) < 0"
    using partitioner_nonneg[OF assms(1), of "int MAX_BATCH_SIZE" k] by (simp add: c_consts)
  with assms(2) show ?thesis
    by (auto simp: send_args_def producer_send_def producer_flush_def Let_def)
qed

lemma send_many:
  assumes "\<forall>a \<in> set as. 0 \<le> fst a" "length (pending_batch p) < MAX_BATCH_SIZE"
    "run_all send_args as p = (rs, p')"
  shows "pending_batch p @ map entry_of as = concat (concat (map snd rs)) @ pending_batch p' \<and>
    length (pending_batch p') < MAX_BATCH_SIZE \<and>
    (\<forall>b \<in> set (concat (map snd rs)). length b = MAX_BATCH_SIZE) \<and>
    map fst rs = replicate (length as) 0 \<and> next_seq p' = next_seq p + int (length as)"
  using assms
proof (induction as arbitrary: p rs)
  case (Cons a as)
  obtain now k v h where a: "a = (now, k, v, h)" by (cases a)
  obtain r p1 where s: "send_args a p = (r, p1)" by fastforce
  obtain rs' where r: "run_all send_args as p1 = (rs', p')" "rs = r # rs'"
    using Cons.prems(3) s by (auto split: prod.splits)
  have now: "0 \<le> now" using Cons.prems(1) a by simp
  note step = send_step[OF now Cons.prems(2), of k v h, folded a, unfolded s]
  have "length (pending_batch p1) < MAX_BATCH_SIZE"
    using step Cons.prems(2) by (auto split: if_splits simp: c_consts)
  from Cons.IH[OF _ this r(1)] Cons.prems(1)
  have ih: "pending_batch p1 @ map entry_of as = concat (concat (map snd rs')) @ pending_batch p'"
    "length (pending_batch p') < MAX_BATCH_SIZE"
    "\<forall>b \<in> set (concat (map snd rs')). length b = MAX_BATCH_SIZE"
    "map fst rs' = replicate (length as) 0" "next_seq p' = next_seq p1 + int (length as)" by auto
  have e: "entry_of a = batch_entry k v h" by (simp add: a entry_of_def)
  show ?case
  proof (cases "Suc (length (pending_batch p)) = MAX_BATCH_SIZE")
    case True
    with step ih r(2) e show ?thesis by auto
  next
    case False
    with step ih r(2) e show ?thesis by auto
  qed
qed simp

section \<open>Properties\<close>

text \<open>
  C6. Whatever is sent, the flushed batches followed by the pending one are exactly the
  records sent, in order: nothing is lost, repeated or reordered by batching. Every flushed
  batch holds 256 records, the pending one fewer, and the sequence number counts the sends.
\<close>

theorem producer_batches:
  assumes "\<forall>a \<in> set as. 0 \<le> fst a" "producer_create True cid broker topic ack linger = Some p"
    "run_all send_args as p = (rs, p')"
  shows "concat (concat (map snd rs)) @ pending_batch p' = map entry_of as \<and>
    (\<forall>b \<in> set (concat (map snd rs)). length b = MAX_BATCH_SIZE) \<and>
    length (pending_batch p') < MAX_BATCH_SIZE \<and>
    map fst rs = replicate (length as) 0 \<and> next_seq p' = int (length as)"
proof -
  from assms(2) have p: "pending_batch p = []" "next_seq p = 0"
    by (auto simp: producer_create_def)
  then have "length (pending_batch p) < MAX_BATCH_SIZE" by (simp add: c_consts)
  from send_many[OF assms(1) this assms(3)] show ?thesis by (simp add: p)
qed

theorem producer_batches_witness:
  "\<exists>p rs p'. producer_create True ''c'' ''b'' ''t'' PRODUCER_ACK_ALL 5 = Some p \<and>
     run_all send_args (replicate 256 (3, None, ''v'', None)) p = (rs, p') \<and>
     concat (map snd rs) = [replicate 256 (batch_entry None ''v'' None)] \<and> pending_batch p' = []"
proof -
  let ?as = "replicate 256 (3, None, ''v'', None) :: (int \<times> string option \<times> string \<times> string option) list"
  obtain p where p: "producer_create True ''c'' ''b'' ''t'' PRODUCER_ACK_ALL 5 = Some p"
    by (simp add: producer_create_def)
  obtain rs p' where r: "run_all send_args ?as p = (rs, p')" by fastforce
  have as: "\<forall>a \<in> set ?as. 0 \<le> fst a" by simp
  define bs where "bs = concat (map snd rs)"
  from producer_batches[OF as p r]
  have c: "concat bs @ pending_batch p' = replicate 256 (batch_entry None ''v'' None)"
    "\<forall>b \<in> set bs. length b = 256" "length (pending_batch p') < 256"
    by (simp_all add: entry_of_def c_consts bs_def)
  have "length (concat bs) + length (pending_batch p') = 256"
    using arg_cong[OF c(1), of length] by simp
  moreover have "length (concat bs) = 256 * length bs"
    using c(2) by (induction bs) auto
  ultimately have "length bs = 1" "length (pending_batch p') = 0" using c(3) by presburger+
  then show ?thesis using p r c(1) bs_def by (auto simp: length_Suc_conv)
qed

text \<open>
  The partition chosen for a non-empty key is the DJB2 polynomial of its bytes, reduced
  modulo \<open>2 ^ 64\<close> and then modulo the number of partitions, whatever the time; it is a
  valid partition number.
\<close>

theorem partitioner_polynomial:
  assumes "k \<noteq> []" "0 < n"
  shows "producer_partitioner now (Some k) n =
    (5381 * 33 ^ length k + (\<Sum>i < length k. of_char (k ! i) * 33 ^ (length k - 1 - i)))
      mod 2 ^ 64 mod n \<and>
    0 \<le> producer_partitioner now (Some k) n \<and> producer_partitioner now (Some k) n < n"
  using assms djb2_poly[of k 5381] by (simp add: producer_partitioner_def)

theorem partitioner_polynomial_witness:
  "producer_partitioner 99 (Some ''ab'') 8 = 0"
  using partitioner_polynomial[of "''ab''" 8 99] by (simp add: numeral_2_eq_2)

end
