(* ===== verification/Log_Cleaner.thy ===== *)
theory Log_Cleaner
  imports Complex_Main Topic_Partition
begin

text \<open>
  The log cleaner (\<open>log_cleaner.h\<close>, \<open>log_cleaner.c\<close>): retention by time and by size,
  compaction by key, removal of expired tombstones, and the cleaning cycle over them. A
  deleted segment is emptied in place; a record removed by compaction has its key and value
  blanked. Proved here: every operation keeps the partition well formed and its active
  segment, compaction keeps the latest record of every key, size retention drops a prefix of
  the log, and what time retention does to fresh records. The ratio fields, doubles in the
  code, are rationals here.
\<close>

definition MAX_COMPACTION_MAP_SIZE :: nat where [c_consts]: "MAX_COMPACTION_MAP_SIZE = 1024"

datatype retention_policy = RETENTION_TIME | RETENTION_SIZE | RETENTION_COMPACTION

record cleaner_config =
  policy :: retention_policy
  cfg_retention_ms :: int
  max_partition_bytes :: int
  min_cleanable_ratio :: rat
  min_compaction_lag_ms :: int
  delete_retention_ms :: int

record compaction_entry =
  ce_key :: string
  ce_offset :: int
  ce_timestamp :: int
  ce_is_tombstone :: bool

record cleaner_stats =
  segments_scanned :: int
  segments_deleted :: int
  segments_compacted :: int
  bytes_before_cleaning :: int
  bytes_after_cleaning :: int
  tombstones_removed :: int
  st_dirty_ratio :: rat

section \<open>Configuration\<close>

definition log_cleaner_config_init :: "retention_policy \<Rightarrow> int \<Rightarrow> int \<Rightarrow> cleaner_config" where
  "log_cleaner_config_init pol ret max_bytes =
     \<lparr> policy = pol, cfg_retention_ms = ret, max_partition_bytes = max_bytes,
       min_cleanable_ratio = 1/2, min_compaction_lag_ms = 0, delete_retention_ms = 86400000 \<rparr>"

definition log_cleaner_config_validate :: "cleaner_config \<Rightarrow> int" where
  "log_cleaner_config_validate cfg =
     (if cfg_retention_ms cfg < 0 then -1
      else if max_partition_bytes cfg < -1 then -1
      else if min_cleanable_ratio cfg < 0 \<or> min_cleanable_ratio cfg > 1 then -1
      else 0)"

definition log_cleaner_stats_reset :: "cleaner_stats \<Rightarrow> cleaner_stats" where
  "log_cleaner_stats_reset st =
     \<lparr> segments_scanned = 0, segments_deleted = 0, segments_compacted = 0,
       bytes_before_cleaning = 0, bytes_after_cleaning = 0, tombstones_removed = 0,
       st_dirty_ratio = 0 \<rparr>"

section \<open>Retention by time\<close>

fun max_timestamp :: "msg_record list \<Rightarrow> int \<Rightarrow> int" where
  "max_timestamp [] m = m"
| "max_timestamp (r # rs) m = max_timestamp rs (if r_timestamp r > m then r_timestamp r else m)"

definition seg_bytes :: "log_segment \<Rightarrow> int" where
  "seg_bytes seg = int (length (records seg)) * sizeof_Record"

fun expire_segments ::
  "cleaner_config \<Rightarrow> int \<Rightarrow> log_segment list \<Rightarrow> cleaner_stats option
     \<Rightarrow> int \<times> log_segment list \<times> cleaner_stats option" where
  "expire_segments cfg now_ms [] stats = (0, [], stats)"
| "expire_segments cfg now_ms (seg # segs) stats =
     (if is_active seg then
        (let (n, segs', stats') = expire_segments cfg now_ms segs stats in (n, seg # segs', stats'))
      else
        (let max_ts = max_timestamp (records seg) 0 in
         if max_ts > 0 \<and> now_ms - max_ts > cfg_retention_ms cfg then
           (let stats1 = map_option (\<lambda>st. st\<lparr>
                  segments_scanned := segments_scanned st + 1,
                  segments_deleted := segments_deleted st + 1,
                  bytes_before_cleaning := bytes_before_cleaning st + seg_bytes seg \<rparr>) stats;
                (n, segs', stats') = expire_segments cfg now_ms segs stats1
            in (n + 1, seg\<lparr> records := [] \<rparr> # segs', stats'))
         else
           (let stats1 = map_option (\<lambda>st. st\<lparr> segments_scanned := segments_scanned st + 1 \<rparr>) stats;
                (n, segs', stats') = expire_segments cfg now_ms segs stats1
            in (n, seg # segs', stats'))))"

definition log_cleaner_delete_expired_segments ::
  "log_partition \<Rightarrow> cleaner_config \<Rightarrow> int \<Rightarrow> cleaner_stats option
     \<Rightarrow> int \<times> log_partition \<times> cleaner_stats option" where
  "log_cleaner_delete_expired_segments p cfg now_ms stats =
     (let (n, segs, stats') = expire_segments cfg now_ms (segments p) stats
      in (n, p\<lparr> segments := segs \<rparr>, stats'))"

section \<open>Retention by size\<close>

fun shrink_segments ::
  "int \<Rightarrow> int \<Rightarrow> log_segment list \<Rightarrow> cleaner_stats option
     \<Rightarrow> int \<times> int \<times> log_segment list \<times> cleaner_stats option" where
  "shrink_segments target tot [] stats = (0, tot, [], stats)"
| "shrink_segments target tot (seg # segs) stats =
     (if tot > target then
        (if is_active seg then
           (let (n, tot', segs', stats') = shrink_segments target tot segs stats
            in (n, tot', seg # segs', stats'))
         else
           (let stats1 = map_option (\<lambda>st. st\<lparr> segments_deleted := segments_deleted st + 1 \<rparr>) stats;
                (n, tot', segs', stats') = shrink_segments target (tot - seg_bytes seg) segs stats1
            in (n + 1, tot', seg\<lparr> records := [] \<rparr> # segs', stats')))
      else (0, tot, seg # segs, stats))"

definition log_cleaner_calculate_retention_bytes :: "log_partition \<Rightarrow> int" where
  "log_cleaner_calculate_retention_bytes p = sum_list (map seg_bytes (segments p))"

definition log_cleaner_delete_by_size ::
  "log_partition \<Rightarrow> cleaner_config \<Rightarrow> cleaner_stats option
     \<Rightarrow> int \<times> log_partition \<times> cleaner_stats option" where
  "log_cleaner_delete_by_size p cfg stats =
     (if max_partition_bytes cfg \<le> 0 then (-1, p, stats)
      else
        (let tot = sum_list (map seg_bytes (segments p));
             stats1 = map_option (\<lambda>st. st\<lparr> bytes_before_cleaning := tot \<rparr>) stats
         in if tot \<le> max_partition_bytes cfg then (0, p, stats1)
            else
              (let (n, tot', segs, stats2) =
                     shrink_segments (max_partition_bytes cfg) tot (segments p) stats1
               in (n, p\<lparr> segments := segs \<rparr>,
                   map_option (\<lambda>st. st\<lparr> bytes_after_cleaning := tot' \<rparr>) stats2))))"

section \<open>Compaction\<close>

definition is_tombstone :: "msg_record \<Rightarrow> bool" where
  "is_tombstone r \<longleftrightarrow> r_value r = [] \<and> r_key r \<noteq> []"

definition entry_for :: "msg_record \<Rightarrow> compaction_entry" where
  "entry_for r = \<lparr> ce_key = c_strncpy 255 (r_key r), ce_offset = r_offset r,
     ce_timestamp = r_timestamp r, ce_is_tombstone = (r_value r = []) \<rparr>"

definition build_step :: "msg_record \<Rightarrow> compaction_entry list \<Rightarrow> compaction_entry list" where
  "build_step r es =
     (if r_key r = [] then es
      else
        (case find_idx (\<lambda>e. ce_key e = r_key r) es of
           Some i \<Rightarrow>
             if r_offset r > ce_offset (es ! i)
             then es[i := (es ! i)\<lparr> ce_offset := r_offset r, ce_timestamp := r_timestamp r,
                                      ce_is_tombstone := (r_value r = []) \<rparr>]
             else es
         | None \<Rightarrow>
             if length es < MAX_COMPACTION_MAP_SIZE then es @ [entry_for r] else es))"

definition log_compact_build_map :: "log_partition \<Rightarrow> compaction_entry list" where
  "log_compact_build_map p = fold (\<lambda>seg. fold build_step (records seg)) (segments p) []"

definition is_latest :: "compaction_entry list \<Rightarrow> msg_record \<Rightarrow> bool" where
  "is_latest es r = list_ex (\<lambda>e. ce_key e = r_key r \<and> ce_offset e = r_offset r) es"

definition blank :: "msg_record \<Rightarrow> msg_record" where
  "blank r = r\<lparr> r_key := [], r_value := [] \<rparr>"

fun compact_records :: "compaction_entry list \<Rightarrow> msg_record list \<Rightarrow> int \<times> msg_record list" where
  "compact_records es [] = (0, [])"
| "compact_records es (r # rs) =
     (let (removed, rs') = compact_records es rs in
      if r_key r = [] \<or> is_latest es r then (removed, r # rs')
      else (removed + 1, blank r # rs'))"

fun compact_segments :: "compaction_entry list \<Rightarrow> log_segment list \<Rightarrow> int \<times> log_segment list" where
  "compact_segments es [] = (0, [])"
| "compact_segments es (seg # segs) =
     (let (n, segs') = compact_segments es segs in
      if is_active seg then (n, seg # segs')
      else (let (m, rs) = compact_records es (records seg)
            in (m + n, seg\<lparr> records := rs \<rparr> # segs')))"

definition log_compact_apply_map ::
  "log_partition \<Rightarrow> compaction_entry list \<Rightarrow> cleaner_stats option
     \<Rightarrow> int \<times> log_partition \<times> cleaner_stats option" where
  "log_compact_apply_map p es stats =
     (let (removed, segs) = compact_segments es (segments p)
      in (removed, p\<lparr> segments := segs \<rparr>,
          map_option (\<lambda>st. st\<lparr> segments_compacted := segments_compacted st + 1,
                              tombstones_removed := tombstones_removed st + removed \<rparr>) stats))"

definition log_compact_partition ::
  "log_partition \<Rightarrow> cleaner_config \<Rightarrow> int \<Rightarrow> cleaner_stats option
     \<Rightarrow> int \<times> log_partition \<times> cleaner_stats option" where
  "log_compact_partition p cfg now_ms stats =
     log_compact_apply_map p (log_compact_build_map p) stats"

section \<open>Tombstones\<close>

definition log_cleaner_count_tombstones :: "log_partition \<Rightarrow> int" where
  "log_cleaner_count_tombstones p =
     sum_list (map (\<lambda>seg. int (length (filter is_tombstone (records seg)))) (segments p))"

fun drop_tombstones :: "int \<Rightarrow> int \<Rightarrow> msg_record list \<Rightarrow> int \<times> msg_record list" where
  "drop_tombstones now_ms keep [] = (0, [])"
| "drop_tombstones now_ms keep (r # rs) =
     (let (n, rs') = drop_tombstones now_ms keep rs in
      if is_tombstone r \<and> now_ms - r_timestamp r > keep then (n + 1, r\<lparr> r_key := [] \<rparr> # rs')
      else (n, r # rs'))"

fun drop_tombstones_segs :: "int \<Rightarrow> int \<Rightarrow> log_segment list \<Rightarrow> int \<times> log_segment list" where
  "drop_tombstones_segs now_ms keep [] = (0, [])"
| "drop_tombstones_segs now_ms keep (seg # segs) =
     (let (n, segs') = drop_tombstones_segs now_ms keep segs in
      if is_active seg then (n, seg # segs')
      else (let (m, rs) = drop_tombstones now_ms keep (records seg)
            in (m + n, seg\<lparr> records := rs \<rparr> # segs')))"

definition log_cleaner_remove_expired_tombstones ::
  "log_partition \<Rightarrow> cleaner_config \<Rightarrow> int \<Rightarrow> cleaner_stats option
     \<Rightarrow> int \<times> log_partition \<times> cleaner_stats option" where
  "log_cleaner_remove_expired_tombstones p cfg now_ms stats =
     (let (n, segs) = drop_tombstones_segs now_ms (delete_retention_ms cfg) (segments p)
      in (n, p\<lparr> segments := segs \<rparr>,
          map_option (\<lambda>st. st\<lparr> tombstones_removed := tombstones_removed st + n \<rparr>) stats))"

section \<open>The cleaning cycle\<close>

definition log_cleaner_run_cycle ::
  "log_partition \<Rightarrow> cleaner_config \<Rightarrow> int \<Rightarrow> cleaner_stats option
     \<Rightarrow> int \<times> log_partition \<times> cleaner_stats option" where
  "log_cleaner_run_cycle p cfg now_ms stats =
     (let (t1, p1, s1) =
            (if policy cfg = RETENTION_TIME \<or> policy cfg = RETENTION_SIZE
             then (let (n, p', s') = log_cleaner_delete_expired_segments p cfg now_ms stats
                   in (if n > 0 then n else 0, p', s'))
             else (0, p, stats));
          (t2, p2, s2) =
            (if policy cfg = RETENTION_SIZE
             then (let (n, p', s') = log_cleaner_delete_by_size p1 cfg s1
                   in (if n > 0 then t1 + n else t1, p', s'))
             else (t1, p1, s1));
          (t3, p3, s3) =
            (if policy cfg = RETENTION_COMPACTION
             then (let (n, p', s') = log_compact_partition p2 cfg now_ms s2
                   in (if n > 0 then t2 + n else t2, p', s'))
             else (t2, p2, s2));
          (n, p4, s4) = log_cleaner_remove_expired_tombstones p3 cfg now_ms s3
      in (if n > 0 then t3 + n else t3, p4, s4))"

section \<open>Utilities\<close>

text \<open>
  The dirty ratio has its own map: the offset of a known key is overwritten without
  comparing. Its result is the quotient of the dirty and the total records.
\<close>

definition dirty_step :: "msg_record \<Rightarrow> (string \<times> int) list \<Rightarrow> (string \<times> int) list" where
  "dirty_step r es =
     (if r_key r = [] then es
      else
        (case find_idx (\<lambda>e. fst e = r_key r) es of
           Some i \<Rightarrow> es[i := (fst (es ! i), r_offset r)]
         | None \<Rightarrow> if length es < MAX_COMPACTION_MAP_SIZE
                   then es @ [(c_strncpy 255 (r_key r), r_offset r)] else es))"

definition log_cleaner_calculate_dirty_ratio :: "log_partition \<Rightarrow> rat" where
  "log_cleaner_calculate_dirty_ratio p =
     (let tot = sum_list (map (\<lambda>seg. length (records seg)) (segments p)) in
      if tot = 0 then 0
      else
        (let es = fold (\<lambda>seg. fold dirty_step (records seg)) (segments p) [];
             dirty = sum_list (map (\<lambda>seg. length (filter
               (\<lambda>r. r_key r \<noteq> [] \<and> list_ex (\<lambda>e. fst e = r_key r \<and> r_offset r < snd e) es)
               (records seg))) (segments p))
         in of_nat dirty / of_nat tot))"

definition log_cleaner_estimate_cleanable_segments :: "log_partition \<Rightarrow> int" where
  "log_cleaner_estimate_cleanable_segments p =
     int (length (filter (\<lambda>seg. \<not> is_active seg) (segments p)))"


section \<open>What cleaning may do to a segment\<close>

text \<open>
  Every operation leaves the active segment alone and either empties a closed segment or
  replaces its records one by one by records with the same offset and no longer key.
\<close>

definition rec_cleaned :: "msg_record \<Rightarrow> msg_record \<Rightarrow> bool" where
  "rec_cleaned r r' \<longleftrightarrow> r_offset r' = r_offset r \<and> length (r_key r') \<le> length (r_key r)"

definition cleaned :: "log_segment \<Rightarrow> log_segment \<Rightarrow> bool" where
  "cleaned s s' \<longleftrightarrow> base_offset s' = base_offset s \<and> is_active s' = is_active s \<and>
     (is_active s \<longrightarrow> s' = s) \<and>
     (records s' = [] \<or> list_all2 rec_cleaned (records s) (records s'))"

lemma rec_cleaned_refl [simp]: "rec_cleaned r r"
  by (simp add: rec_cleaned_def)

lemma rec_cleaned_trans: "rec_cleaned a b \<Longrightarrow> rec_cleaned b c \<Longrightarrow> rec_cleaned a c"
  by (simp add: rec_cleaned_def)

lemma cleaned_refl [simp]: "cleaned s s"
  by (simp add: cleaned_def list_all2_same)

lemma cleaned_trans:
  assumes "cleaned s s'" "cleaned s' s''"
  shows "cleaned s s''"
proof (cases "records s'' = []")
  case True
  with assms show ?thesis by (auto simp: cleaned_def)
next
  case False
  with assms have l: "list_all2 rec_cleaned (records s') (records s'')" by (simp add: cleaned_def)
  with False assms(1) have "list_all2 rec_cleaned (records s) (records s')"
    by (auto simp: cleaned_def)
  from list_all2_trans[OF _ this l]
  have "list_all2 rec_cleaned (records s) (records s'')" by (simp add: rec_cleaned_def)
  with assms show ?thesis by (simp add: cleaned_def)
qed

lemma cleaned_empty [simp]: "\<not> is_active s \<Longrightarrow> cleaned s (s\<lparr> records := [] \<rparr>)"
  by (simp add: cleaned_def)

lemma cleaned_map [simp]:
  "\<not> is_active s \<Longrightarrow> (\<And>r. rec_cleaned r (f r)) \<Longrightarrow> cleaned s (s\<lparr> records := map f (records s) \<rparr>)"
  by (simp add: cleaned_def list_all2_conv_all_nth)

lemma cleaned_offsets:
  assumes "list_all2 rec_cleaned rs rs'"
  shows "map r_offset rs' = map r_offset rs"
    "\<forall>r \<in> set rs. length (r_key r) < n \<Longrightarrow> \<forall>r \<in> set rs'. length (r_key r) < n"
  using assms by (induction rule: list_all2_induct) (auto simp: rec_cleaned_def)

lemma cleaned_segment_ok:
  assumes "cleaned s s'" "segment_ok s"
  shows "segment_ok s'"
proof (cases "records s' = []")
  case True
  with assms show ?thesis by (simp add: cleaned_def segment_ok_def)
next
  case False
  with assms(1) have l: "list_all2 rec_cleaned (records s) (records s')" by (simp add: cleaned_def)
  note o = cleaned_offsets[OF l]
  have "length (records s') = length (records s)" using l by (simp add: list_all2_lengthD)
  with o assms show ?thesis by (simp add: segment_ok_def cleaned_def)
qed

lemma cleaned_end: "cleaned s s' \<Longrightarrow> seg_end s' \<le> seg_end s"
  by (auto simp: cleaned_def seg_end_def dest: list_all2_lengthD)

lemma cleaned_ordered:
  assumes "list_all2 cleaned segs segs'" "segs_ordered segs"
  shows "segs_ordered segs'"
proof -
  note len = list_all2_lengthD[OF assms(1)] and nth = list_all2_nthD[OF assms(1)]
  have "seg_end (segs' ! i) \<le> base_offset (segs' ! j)" if "i < j" "j < length segs'" for i j
  proof -
    have "seg_end (segs' ! i) \<le> seg_end (segs ! i)" using nth[of i] that len cleaned_end by simp
    also have "\<dots> \<le> base_offset (segs ! j)"
      using assms(2) that len by (simp add: segs_ordered_def sorted_wrt_iff_nth_less)
    also have "\<dots> = base_offset (segs' ! j)" using nth[of j] that len by (simp add: cleaned_def)
    finally show ?thesis .
  qed
  then show ?thesis by (simp add: segs_ordered_def sorted_wrt_iff_nth_less)
qed

lemma cleaned_wf:
  assumes "wf_partition p" "list_all2 cleaned (segments p) segs"
  shows "wf_partition (p\<lparr> segments := segs \<rparr>) \<and>
    active_seg (p\<lparr> segments := segs \<rparr>) = active_seg p \<and>
    room (p\<lparr> segments := segs \<rparr>) = room p \<and>
    partition_get_end_offset (p\<lparr> segments := segs \<rparr>) = partition_get_end_offset p"
  using assms(1)
proof (rule wf_partitionE)
  fix init act
  assume a: "segments p = init @ [act]" "active_segment_idx p = length init"
    "active_seg p = act" "length init < MAX_SEGMENTS" "is_active act"
    "\<forall>seg \<in> set init. \<not> is_active seg"
    "\<forall>seg \<in> set init. segment_ok seg" "segment_ok act" "segs_ordered (init @ [act])"
  from assms(2) a(1) obtain init' act' where s: "segs = init' @ [act']"
    "list_all2 cleaned init init'" "cleaned act act'"
    by (auto simp: list_all2_append1 list_all2_Cons1)
  have act: "act' = act" using s(3) a(5) by (simp add: cleaned_def)
  have len: "length init' = length init" using s(2) by (simp add: list_all2_lengthD)
  have "\<not> is_active seg \<and> segment_ok seg" if "seg \<in> set init'" for seg
  proof -
    from that obtain i where i: "i < length init'" "seg = init' ! i" by (auto simp: in_set_conv_nth)
    then have c: "cleaned (init ! i) seg" "init ! i \<in> set init"
      using list_all2_nthD2[OF s(2)] len by auto
    then show ?thesis using cleaned_segment_ok[OF c(1)] a(6,7) by (simp add: cleaned_def)
  qed
  moreover have "segs_ordered segs"
    using cleaned_ordered[OF assms(2)] a(1,9) by simp
  ultimately have wf: "wf_partition (p\<lparr> segments := segs \<rparr>)"
    using a s len act by (intro wf_partitionI[of _ init' act]) simp_all
  have seg: "active_seg (p\<lparr> segments := segs \<rparr>) = act"
    using a s len act by (intro active_seg_snoc[of _ init']) simp_all
  with wf a s len assms(1) show ?thesis
    by (simp add: end_offset_wf room_def)
qed

lemmas list_all2_cleaned_refl [simp] = list_all2_refl[of cleaned, OF cleaned_refl]

lemma list_all2_cleaned_trans:
  assumes "list_all2 cleaned a b" "list_all2 cleaned b c"
  shows "list_all2 cleaned a c"
  using assms
proof (induction arbitrary: c rule: list_all2_induct)
  case (Cons x xs y ys)
  then show ?case using cleaned_trans[of x y] by (auto simp: list_all2_Cons1)
qed simp

section \<open>Every operation is such a cleaning\<close>

definition expired :: "cleaner_config \<Rightarrow> int \<Rightarrow> log_segment \<Rightarrow> bool" where
  "expired cfg now s \<longleftrightarrow> \<not> is_active s \<and> max_timestamp (records s) 0 > 0 \<and>
     now - max_timestamp (records s) 0 > cfg_retention_ms cfg"

lemma expire_segments_eq:
  "fst (expire_segments cfg now segs stats) = int (length (filter (expired cfg now) segs)) \<and>
   fst (snd (expire_segments cfg now segs stats)) =
     map (\<lambda>s. if expired cfg now s then s\<lparr> records := [] \<rparr> else s) segs"
proof (induction segs arbitrary: stats)
  case (Cons s segs)
  then show ?case
    by (cases "is_active s") (simp_all add: Let_def case_prod_beta expired_def)
qed simp

lemma expire_cleaned: "list_all2 cleaned segs (fst (snd (expire_segments cfg now segs stats)))"
  by (auto simp: expire_segments_eq list_all2_conv_all_nth expired_def)

lemma shrink_cleaned:
  "list_all2 cleaned segs (fst (snd (snd (shrink_segments target tot segs stats))))"
proof (induction segs arbitrary: tot stats)
  case (Cons s segs)
  then show ?case by (simp add: Let_def case_prod_beta)
qed simp

definition compact_record :: "compaction_entry list \<Rightarrow> msg_record \<Rightarrow> msg_record" where
  "compact_record es r = (if r_key r = [] \<or> is_latest es r then r else blank r)"

lemma compact_records_eq:
  "compact_records es rs =
     (int (length (filter (\<lambda>r. r_key r \<noteq> [] \<and> \<not> is_latest es r) rs)), map (compact_record es) rs)"
  by (induction rs) (auto simp: Let_def compact_record_def)

lemma compact_segments_eq:
  "snd (compact_segments es segs) =
     map (\<lambda>s. if is_active s then s else s\<lparr> records := map (compact_record es) (records s) \<rparr>) segs"
  by (induction segs) (auto simp: Let_def compact_records_eq split: prod.splits)

lemma compact_cleaned: "list_all2 cleaned segs (snd (compact_segments es segs))"
  by (auto simp: compact_segments_eq list_all2_conv_all_nth rec_cleaned_def compact_record_def blank_def)

definition bury :: "int \<Rightarrow> int \<Rightarrow> msg_record \<Rightarrow> msg_record" where
  "bury now keep r = (if is_tombstone r \<and> now - r_timestamp r > keep then r\<lparr> r_key := [] \<rparr> else r)"

lemma drop_tombstones_eq:
  "drop_tombstones now keep rs =
     (int (length (filter (\<lambda>r. is_tombstone r \<and> now - r_timestamp r > keep) rs)),
      map (bury now keep) rs)"
  by (induction rs) (auto simp: Let_def bury_def)

lemma drop_tombstones_segs_eq:
  "snd (drop_tombstones_segs now keep segs) =
     map (\<lambda>s. if is_active s then s else s\<lparr> records := map (bury now keep) (records s) \<rparr>) segs"
  by (induction segs) (auto simp: Let_def drop_tombstones_eq split: prod.splits)

lemma bury_cleaned: "list_all2 cleaned segs (snd (drop_tombstones_segs now keep segs))"
  by (auto simp: drop_tombstones_segs_eq list_all2_conv_all_nth rec_cleaned_def bury_def)

lemma delete_expired_cleaned:
  "\<exists>segs. fst (snd (log_cleaner_delete_expired_segments p cfg now stats)) = p\<lparr> segments := segs \<rparr> \<and>
     list_all2 cleaned (segments p) segs"
  using expire_cleaned[of "segments p" cfg now stats]
  by (auto simp: log_cleaner_delete_expired_segments_def case_prod_beta)

lemma partition_self: "p = p\<lparr> segments := segments p \<rparr>"
  by simp

lemma delete_by_size_cleaned:
  "\<exists>segs. fst (snd (log_cleaner_delete_by_size p cfg stats)) = p\<lparr> segments := segs \<rparr> \<and>
     list_all2 cleaned (segments p) segs"
proof (cases "max_partition_bytes cfg \<le> 0 \<or>
    sum_list (map seg_bytes (segments p)) \<le> max_partition_bytes cfg")
  case True
  then show ?thesis
    by (intro exI[of _ "segments p"]) (auto simp: log_cleaner_delete_by_size_def Let_def)
next
  case False
  then show ?thesis
    using shrink_cleaned[of "segments p"]
    by (auto simp: log_cleaner_delete_by_size_def Let_def case_prod_beta)
qed

lemma compact_partition_cleaned:
  "\<exists>segs. fst (snd (log_compact_partition p cfg now stats)) = p\<lparr> segments := segs \<rparr> \<and>
     list_all2 cleaned (segments p) segs"
  using compact_cleaned[of "segments p"]
  by (auto simp: log_compact_partition_def log_compact_apply_map_def case_prod_beta)

lemma remove_tombstones_cleaned:
  "\<exists>segs. fst (snd (log_cleaner_remove_expired_tombstones p cfg now stats)) =
       p\<lparr> segments := segs \<rparr> \<and> list_all2 cleaned (segments p) segs"
  using bury_cleaned[of "segments p"]
  by (auto simp: log_cleaner_remove_expired_tombstones_def case_prod_beta)

lemmas steps_cleaned = delete_expired_cleaned delete_by_size_cleaned compact_partition_cleaned
  remove_tombstones_cleaned


section \<open>The table a log stands for\<close>

text \<open>The latest record of every key: the state a consumer rebuilds from the log.\<close>

definition table_of :: "msg_record list \<Rightarrow> string \<Rightarrow> msg_record option" where
  "table_of rs = map_of (rev (map (\<lambda>r. (r_key r, r)) (filter (\<lambda>r. r_key r \<noteq> []) rs)))"

lemma table_of_Nil [simp]: "table_of [] = Map.empty"
  by (simp add: table_of_def)

lemma table_of_snoc [simp]:
  "table_of (rs @ [r]) = (if r_key r = [] then table_of rs else (table_of rs)(r_key r \<mapsto> r))"
  by (simp add: table_of_def)

lemma table_of_append: "table_of (rs @ rs') = table_of rs ++ table_of rs'"
  by (simp add: table_of_def)

lemma table_of_SomeD: "table_of rs k = Some r \<Longrightarrow> r \<in> set rs \<and> r_key r = k \<and> k \<noteq> []"
  by (induction rs rule: rev_induct) (auto split: if_splits)

lemma table_of_None: "table_of rs k = None \<longleftrightarrow> (\<forall>r \<in> set rs. r_key r = k \<longrightarrow> k = [])"
  by (induction rs rule: rev_induct) (auto split: if_splits)

text \<open>
  Replacing records by themselves or by unkeyed ones keeps the table, when the latest record
  of each key is among those kept.
\<close>

lemma table_of_map:
  assumes "\<And>r. r \<in> set rs \<Longrightarrow> g r = r \<or> r_key (g r) = []"
    "\<And>r. table_of rs k = Some r \<Longrightarrow> g r = r"
  shows "table_of (map g rs) k = table_of rs k"
  using assms
proof (induction rs rule: rev_induct)
  case (snoc x xs)
  show ?case
  proof (cases "r_key x = k \<and> k \<noteq> []")
    case True
    with snoc.prems(2)[of x] show ?thesis by auto
  next
    case False
    then have "table_of (xs @ [x]) k = table_of xs k" by auto
    with snoc have "table_of (map g xs) k = table_of xs k" by auto
    with False snoc.prems(1)[of x] show ?thesis by auto
  qed
qed simp

definition closed_log :: "log_partition \<Rightarrow> msg_record list" where
  "closed_log p = concat (map records (filter (\<lambda>s. \<not> is_active s) (segments p)))"

lemma log_of_closed:
  assumes "wf_partition p"
  shows "log_of p = closed_log p @ records (active_seg p)"
  using assms
proof (rule wf_partitionE)
  fix init act
  assume a: "segments p = init @ [act]" "active_seg p = act" "is_active act"
    "\<forall>seg \<in> set init. \<not> is_active seg"
  then have "filter (\<lambda>s. \<not> is_active s) init = init" by (simp add: filter_id_conv)
  with a show ?thesis by (simp add: log_of_def closed_log_def)
qed

lemma length_log_of:
  assumes "wf_partition p"
  shows "length (log_of p) \<le> MAX_COMPACTION_MAP_SIZE"
proof -
  have "length (concat (map records segs)) \<le> length segs * MAX_RECORDS_PER_SEG"
    if "\<forall>s \<in> set segs. segment_ok s" for segs
    using that by (induction segs) (auto simp: segment_ok_def)
  from this[of "segments p"] assms show ?thesis
    by (auto simp: wf_partition_def log_of_def c_consts)
qed

lemma log_keys: "wf_partition p \<Longrightarrow> r \<in> set (log_of p) \<Longrightarrow> length (r_key r) < MAX_KEY_LEN"
  by (auto simp: wf_partition_def log_of_def segment_ok_def)

section \<open>The compaction map\<close>

lemma fold_records: "fold (\<lambda>seg. fold f (records seg)) segs a = fold f (concat (map records segs)) a"
  by (induction segs arbitrary: a) simp_all

lemma build_map_fold: "log_compact_build_map p = fold build_step (log_of p) []"
  by (simp add: log_compact_build_map_def log_of_def fold_records)

text \<open>
  On records with increasing offsets and keys that fit, no more than the map's capacity, the
  map holds each key once, with the offset of its latest record: a full map is never met.
\<close>

lemma build_map_spec:
  assumes "sorted_wrt (\<lambda>r r'. r_offset r < r_offset r') rs" "length rs \<le> MAX_COMPACTION_MAP_SIZE"
    "\<forall>r \<in> set rs. length (r_key r) < MAX_KEY_LEN"
  shows "length (fold build_step rs []) \<le> length rs \<and>
    distinct (map ce_key (fold build_step rs [])) \<and>
    (\<forall>k. map_option ce_offset (tab_get ce_key k (fold build_step rs [])) =
         map_option r_offset (table_of rs k))"
  using assms
proof (induction rs rule: rev_induct)
  case (snoc r rs)
  let ?es = "fold build_step rs []"
  from snoc have ih: "length ?es \<le> length rs" "distinct (map ce_key ?es)"
    "\<And>k. map_option ce_offset (tab_get ce_key k ?es) = map_option r_offset (table_of rs k)"
    by (auto simp: sorted_wrt_append)
  have less: "r_offset x < r_offset r" if "x \<in> set rs" for x
    using snoc.prems(1) that by (simp add: sorted_wrt_append)
  have key: "c_strncpy 255 (r_key r) = r_key r" using snoc.prems(3) by (simp add: c_consts)
  show ?case
  proof (cases "r_key r = []")
    case True
    then have "build_step r ?es = ?es" by (simp add: build_step_def)
    with ih True show ?thesis by simp
  next
    case keyed: False
    show ?thesis
    proof (cases "find_idx (\<lambda>e. ce_key e = r_key r) ?es")
      case None
      then have no: "r_key r \<notin> ce_key ` set ?es" by (auto simp: find_idx_None_iff)
      then have "tab_get ce_key (r_key r) ?es = None" by (simp add: tab_get_None_iff)
      then have step: "build_step r ?es = ?es @ [entry_for r]"
        using None keyed ih(1) snoc.prems(2) by (simp add: build_step_def)
      have e: "ce_key (entry_for r) = r_key r" "ce_offset (entry_for r) = r_offset r"
        by (simp_all add: entry_for_def key)
      have "map_option ce_offset (tab_get ce_key k (?es @ [entry_for r])) =
            map_option r_offset (table_of (rs @ [r]) k)" for k
      proof (cases "k = r_key r")
        case True
        with no keyed e show ?thesis
          by (simp add: tab_get_snoc tab_get_None_iff[THEN iffD2])
      next
        case False
        with keyed e ih(3)[of k] show ?thesis
          by (cases "tab_get ce_key k ?es") (simp_all add: tab_get_snoc)
      qed
      with ih step no e show ?thesis by simp
    next
      case (Some i)
      let ?e = "?es ! i"
      have i: "i < length ?es" "ce_key ?e = r_key r" using find_idx_SomeD(1,2)[OF Some] by auto
      have tab: "tab_get ce_key (r_key r) ?es = Some ?e" using Some by (rule tab_get_idx)
      then obtain x where x: "table_of rs (r_key r) = Some x" "ce_offset ?e = r_offset x"
        using ih(3)[of "r_key r"] by (cases "table_of rs (r_key r)") auto
      have lt: "ce_offset ?e < r_offset r" using x less table_of_SomeD[OF x(1)] by simp
      let ?e' = "?e\<lparr> ce_offset := r_offset r, ce_timestamp := r_timestamp r,
                     ce_is_tombstone := (r_value r = []) \<rparr>"
      have step: "build_step r ?es = ?es[i := ?e']"
        using Some keyed lt by (simp add: build_step_def)
      have "tab_get ce_key k (?es[i := ?e']) =
            (if k = r_key r then Some ?e' else tab_get ce_key k ?es)" for k
        using tab_get_update[OF Some, of ?e' k] i(2) by simp
      moreover have "map ce_key (?es[i := ?e']) = map ce_key ?es"
        using i by (simp add: map_update_same)
      ultimately show ?thesis using ih keyed by (simp add: step)
    qed
  qed
qed simp

lemma is_latest_iff:
  assumes "distinct (map ce_key es)"
  shows "is_latest es r \<longleftrightarrow>
    map_option ce_offset (tab_get ce_key (r_key r) es) = Some (r_offset r)"
proof -
  have "tab_get ce_key (ce_key e) es = Some e" if "e \<in> set es" for e
    using that assms by (induction es) (auto simp: image_iff)
  then show ?thesis
    unfolding is_latest_def list_ex_iff
    by (auto dest: tab_get_SomeD) force+
qed

lemma latest_in_log:
  assumes "wf_partition p" "r \<in> set (log_of p)" "r_key r \<noteq> []"
  shows "is_latest (log_compact_build_map p) r \<longleftrightarrow> table_of (log_of p) (r_key r) = Some r"
proof -
  note spec = build_map_spec[OF log_sorted[OF assms(1)] length_log_of[OF assms(1)]]
  have "is_latest (log_compact_build_map p) r \<longleftrightarrow>
      map_option r_offset (table_of (log_of p) (r_key r)) = Some (r_offset r)"
    using spec log_keys[OF assms(1)] by (simp add: build_map_fold is_latest_iff)
  also have "\<dots> \<longleftrightarrow> table_of (log_of p) (r_key r) = Some r"
  proof -
    have "x = r" if "x \<in> set (log_of p)" "r_offset x = r_offset r" for x
      using log_sorted[OF assms(1)] that assms(2)
      by (auto simp: sorted_wrt_iff_nth_less in_set_conv_nth)
        (metis less_irrefl linorder_neqE_nat)
    then show ?thesis using table_of_SomeD[of "log_of p" "r_key r"] by auto
  qed
  finally show ?thesis .
qed


section \<open>Compaction\<close>

lemma closed_log_map:
  "closed_log (p\<lparr> segments := map (\<lambda>s. if is_active s then s
       else s\<lparr> records := map f (records s) \<rparr>) (segments p) \<rparr>) = map f (closed_log p)"
proof -
  have "concat (map records (filter (\<lambda>s. \<not> is_active s) (map (\<lambda>s. if is_active s then s
       else s\<lparr> records := map f (records s) \<rparr>) segs))) =
     map f (concat (map records (filter (\<lambda>s. \<not> is_active s) segs)))" for segs
    by (induction segs) auto
  then show ?thesis by (simp add: closed_log_def)
qed

lemma compact_partition_eq:
  "log_compact_partition p cfg now stats =
     (fst (log_compact_partition p cfg now stats),
      p\<lparr> segments := map (\<lambda>s. if is_active s then s
         else s\<lparr> records := map (compact_record (log_compact_build_map p)) (records s) \<rparr>) (segments p) \<rparr>,
      map_option (\<lambda>st. st\<lparr> segments_compacted := segments_compacted st + 1,
         tombstones_removed := tombstones_removed st + fst (log_compact_partition p cfg now stats) \<rparr>) stats)"
  by (simp add: log_compact_partition_def log_compact_apply_map_def case_prod_beta
      compact_segments_eq)

lemma compact_count:
  "fst (log_compact_partition p cfg now stats) =
     int (length (filter (\<lambda>r. r_key r \<noteq> [] \<and> \<not> is_latest (log_compact_build_map p) r) (closed_log p)))"
proof -
  have "fst (compact_segments es segs) = int (length (filter (\<lambda>r. r_key r \<noteq> [] \<and> \<not> is_latest es r)
      (concat (map records (filter (\<lambda>s. \<not> is_active s) segs)))))" for es segs
    by (induction segs) (auto simp: case_prod_beta Let_def compact_records_eq)
  then show ?thesis
    by (simp add: log_compact_partition_def log_compact_apply_map_def case_prod_beta closed_log_def)
qed

lemma compaction:
  assumes "wf_partition p" "log_compact_partition p cfg now stats = (n, p', stats')"
  shows "wf_partition p'" "active_seg p' = active_seg p"
    and "closed_log p' = map (\<lambda>r. if r_key r = [] \<or> table_of (log_of p) (r_key r) = Some r
                                  then r else blank r) (closed_log p)"
    and "table_of (log_of p') = table_of (log_of p)"
    and "map r_offset (log_of p') = map r_offset (log_of p)"
proof -
  let ?es = "log_compact_build_map p"
  from compact_partition_eq[of p cfg now stats] assms(2)
  have p': "p' = p\<lparr> segments := map (\<lambda>s. if is_active s then s
      else s\<lparr> records := map (compact_record ?es) (records s) \<rparr>) (segments p) \<rparr>" by simp
  from compact_partition_cleaned[of p cfg now stats] assms(2) obtain segs where
    "p' = p\<lparr> segments := segs \<rparr>" "list_all2 cleaned (segments p) segs" by auto
  with cleaned_wf[OF assms(1)] show wf: "wf_partition p'" and act: "active_seg p' = active_seg p"
    by simp_all
  let ?g = "\<lambda>r. if r_key r = [] \<or> table_of (log_of p) (r_key r) = Some r then r else blank r"
  have sub: "set (closed_log p) \<subseteq> set (log_of p)"
    using log_of_closed[OF assms(1)] by simp
  have "compact_record ?es r = ?g r" if "r \<in> set (closed_log p)" for r
    using latest_in_log[OF assms(1), of r] sub that by (auto simp: compact_record_def)
  then show closed: "closed_log p' = map ?g (closed_log p)"
    unfolding p' closed_log_map by simp
  have log': "log_of p' = map ?g (closed_log p) @ records (active_seg p)"
    using log_of_closed[OF wf] by (simp add: closed act)
  show "map r_offset (log_of p') = map r_offset (log_of p)"
    unfolding log' log_of_closed[OF assms(1)] by (simp add: blank_def)
  have "table_of (log_of p') k = table_of (log_of p) k" for k
  proof (cases "table_of (records (active_seg p)) k")
    case None
    have "table_of (map ?g (closed_log p)) k = table_of (closed_log p) k"
    proof (rule table_of_map)
      show "?g r = r \<or> r_key (?g r) = []" for r by (simp add: blank_def)
      show "?g r = r" if "table_of (closed_log p) k = Some r" for r
        using table_of_SomeD[OF that] that None
        by (auto simp: log_of_closed[OF assms(1)] table_of_append map_add_def)
    qed
    with None show ?thesis
      unfolding log' log_of_closed[OF assms(1)] by (simp add: table_of_append map_add_def)
  next
    case (Some r)
    then show ?thesis
      unfolding log' log_of_closed[OF assms(1)] by (simp add: table_of_append map_add_def)
  qed
  then show "table_of (log_of p') = table_of (log_of p)" by blast
qed

lemma compaction_dedup:
  assumes "wf_partition p" "log_compact_partition p cfg now stats = (n, p', stats')"
    "r \<in> set (closed_log p')" "r_key r \<noteq> []"
  shows "table_of (log_of p') (r_key r) = Some r"
proof -
  from assms(3) obtain x where x: "x \<in> set (closed_log p)"
    "r = (if r_key x = [] \<or> table_of (log_of p) (r_key x) = Some x then x else blank x)"
    unfolding compaction(3)[OF assms(1,2)] by auto
  with assms(4) have "r = x" "table_of (log_of p) (r_key x) = Some x"
    by (auto simp: blank_def split: if_splits)
  then show ?thesis using compaction(4)[OF assms(1,2)] by simp
qed

lemma compaction_again:
  assumes "wf_partition p" "log_compact_partition p cfg now stats = (n, p', stats')"
  shows "log_compact_partition p' cfg' now' None = (0, p', None)"
proof -
  note wf = compaction(1)[OF assms]
  have latest: "is_latest (log_compact_build_map p') r"
    if "r \<in> set (closed_log p')" "r_key r \<noteq> []" for r
    using latest_in_log[OF wf, of r] compaction_dedup[OF assms that] that log_of_closed[OF wf] by simp
  then have zero: "fst (log_compact_partition p' cfg' now' None) = 0"
    unfolding compact_count by (auto simp: filter_empty_conv)
  have "map (compact_record (log_compact_build_map p')) (records s) = records s"
    if "s \<in> set (segments p')" "\<not> is_active s" for s
  proof (rule map_idI)
    fix r assume "r \<in> set (records s)"
    with that have "r \<in> set (closed_log p')" by (auto simp: closed_log_def)
    with latest[of r] show "compact_record (log_compact_build_map p') r = r"
      by (auto simp: compact_record_def)
  qed
  then have "map (\<lambda>s. if is_active s then s else s\<lparr> records :=
      map (compact_record (log_compact_build_map p')) (records s) \<rparr>) (segments p') = segments p'"
    by (intro map_idI) simp
  with compact_partition_eq[of p' cfg' now' None] zero show ?thesis by simp
qed


section \<open>Retention by size\<close>

definition empty_seg :: "log_segment \<Rightarrow> log_segment" where
  "empty_seg s = s\<lparr> records := [] \<rparr>"

lemma shrink_spec:
  assumes "\<forall>s \<in> set init. \<not> is_active s" "is_active act"
  shows "\<exists>j. j \<le> length init \<and>
    fst (snd (snd (shrink_segments target tot (init @ [act]) stats))) =
      map empty_seg (take j init) @ drop j init @ [act] \<and>
    (tot - sum_list (map seg_bytes (take j init)) \<le> target \<or> j = length init)"
  using assms
proof (induction init arbitrary: tot stats)
  case Nil
  then show ?case by (simp add: case_prod_beta Let_def)
next
  case (Cons s init)
  show ?case
  proof (cases "tot > target")
    case False
    then show ?thesis by (intro exI[of _ 0]) simp
  next
    case True
    let ?stats = "map_option (\<lambda>st. st\<lparr> segments_deleted := segments_deleted st + 1 \<rparr>) stats"
    from Cons.IH[of "tot - seg_bytes s" ?stats] Cons.prems obtain j where
      "j \<le> length init"
      "fst (snd (snd (shrink_segments target (tot - seg_bytes s) (init @ [act]) ?stats))) =
        map empty_seg (take j init) @ drop j init @ [act]"
      "tot - seg_bytes s - sum_list (map seg_bytes (take j init)) \<le> target \<or> j = length init" by auto
    with True Cons.prems show ?thesis
      by (intro exI[of _ "Suc j"]) (auto simp: case_prod_beta Let_def empty_seg_def)
  qed
qed

lemma records_empty_seg [simp]: "records (empty_seg s) = []" "is_active (empty_seg s) = is_active s"
  "seg_bytes (empty_seg s) = 0"
  by (simp_all add: empty_seg_def seg_bytes_def)

lemma delete_by_size:
  assumes "wf_partition p" "0 < max_partition_bytes cfg"
    "log_cleaner_delete_by_size p cfg stats = (n, p', stats')"
  shows "wf_partition p' \<and> active_seg p' = active_seg p \<and>
    (\<exists>k. log_of p' = drop k (log_of p)) \<and>
    (log_cleaner_calculate_retention_bytes p' \<le> max_partition_bytes cfg \<or> closed_log p' = []) \<and>
    (log_cleaner_calculate_retention_bytes p \<le> max_partition_bytes cfg \<longrightarrow> p' = p)"
proof -
  from delete_by_size_cleaned[of p cfg stats] assms(3) obtain segs where
    "p' = p\<lparr> segments := segs \<rparr>" "list_all2 cleaned (segments p) segs" by auto
  with cleaned_wf[OF assms(1)] have wf: "wf_partition p'" "active_seg p' = active_seg p" by simp_all
  let ?tot = "sum_list (map seg_bytes (segments p))"
  show ?thesis
  proof (cases "?tot \<le> max_partition_bytes cfg")
    case True
    then have "p' = p" using assms(2,3) by (auto simp: log_cleaner_delete_by_size_def Let_def)
    with True assms(1) show ?thesis
      by (auto simp: log_cleaner_calculate_retention_bytes_def intro: exI[of _ 0])
  next
    case False
    from assms(1) obtain init act where a: "segments p = init @ [act]"
      "\<forall>s \<in> set init. \<not> is_active s" "is_active act" by (rule wf_partitionE)
    let ?st = "map_option (\<lambda>st. st\<lparr> bytes_before_cleaning := ?tot \<rparr>) stats"
    have p': "p' = p\<lparr> segments := fst (snd (snd
        (shrink_segments (max_partition_bytes cfg) ?tot (init @ [act]) ?st))) \<rparr>"
      using assms(2,3) False a(1)
      by (auto simp: log_cleaner_delete_by_size_def Let_def case_prod_beta)
    from shrink_spec[OF a(2,3)] obtain j where j: "j \<le> length init"
      "segments p' = map empty_seg (take j init) @ drop j init @ [act]"
      "?tot - sum_list (map seg_bytes (take j init)) \<le> max_partition_bytes cfg \<or> j = length init"
      unfolding p' by fastforce
    have e: "concat (map records (map empty_seg xs)) = []"
      "sum_list (map seg_bytes (map empty_seg xs)) = 0" for xs by (induction xs) simp_all
    have "log_of p' = concat (map records (drop j init)) @ records act"
      by (simp add: log_of_def j(2) e del: map_map)
    moreover have "log_of p = concat (map records (take j init)) @
        concat (map records (drop j init)) @ records act"
      unfolding log_of_def a(1)
      by (metis append_take_drop_id append.assoc concat.simps concat_append list.simps(8,9) map_append
          append_Nil2)
    ultimately have "log_of p' = drop (length (concat (map records (take j init)))) (log_of p)"
      by simp
    moreover have "log_cleaner_calculate_retention_bytes p' =
        ?tot - sum_list (map seg_bytes (take j init))"
    proof -
      have "sum_list (map seg_bytes init) =
          sum_list (map seg_bytes (take j init)) + sum_list (map seg_bytes (drop j init))"
        by (metis append_take_drop_id map_append sum_list_append)
      then show ?thesis
        by (simp add: log_cleaner_calculate_retention_bytes_def a(1) j(2) e del: map_map)
    qed
    moreover have "closed_log p' = []" if "j = length init"
      using that a(2,3) by (simp add: closed_log_def j(2) filter_map comp_def)
    ultimately show ?thesis
      using wf j(3) False by (auto simp: log_cleaner_calculate_retention_bytes_def)
  qed
qed

section \<open>Retention by time\<close>

lemma max_timestamp_ge: "m \<le> max_timestamp rs m \<and> (\<forall>r \<in> set rs. r_timestamp r \<le> max_timestamp rs m)"
proof (induction rs arbitrary: m)
  case (Cons r rs)
  show ?case using Cons.IH[of m] Cons.IH[of "r_timestamp r"] by auto
qed simp

lemma max_timestamp_le:
  "\<forall>r \<in> set rs. r_timestamp r \<le> b \<Longrightarrow> m \<le> b \<Longrightarrow> max_timestamp rs m \<le> b"
  by (induction rs arbitrary: m) auto

section \<open>The whole cycle\<close>

lemma fst_snd_delete_expired:
  "fst (snd (log_cleaner_delete_expired_segments p cfg now stats)) =
   p\<lparr> segments := map (\<lambda>s. if expired cfg now s then s\<lparr> records := [] \<rparr> else s) (segments p) \<rparr>"
  by (simp add: log_cleaner_delete_expired_segments_def case_prod_beta expire_segments_eq)

definition keeps :: "log_partition \<Rightarrow> log_partition \<Rightarrow> bool" where
  "keeps p p' \<longleftrightarrow> wf_partition p' \<and> active_seg p' = active_seg p \<and> room p' = room p \<and>
     partition_get_end_offset p' = partition_get_end_offset p"

lemma keeps_trans: "keeps p p' \<Longrightarrow> keeps p' p'' \<Longrightarrow> keeps p p''"
  by (simp add: keeps_def)

lemma keeps_refl: "wf_partition p \<Longrightarrow> keeps p p"
  by (simp add: keeps_def)

lemma keeps_wf: "keeps p p' \<Longrightarrow> wf_partition p'"
  by (simp add: keeps_def)

lemma step_keeps:
  assumes "wf_partition p"
  shows "keeps p (fst (snd (log_cleaner_delete_expired_segments p cfg now stats)))"
    "keeps p (fst (snd (log_cleaner_delete_by_size p cfg stats)))"
    "keeps p (fst (snd (log_compact_partition p cfg now stats)))"
    "keeps p (fst (snd (log_cleaner_remove_expired_tombstones p cfg now stats)))"
  using steps_cleaned[of p] cleaned_wf[OF assms] unfolding keeps_def by metis+

lemma run_cycle_keeps:
  assumes "wf_partition p"
  shows "keeps p (fst (snd (log_cleaner_run_cycle p cfg now stats)))"
proof -
  note chain = keeps_trans[OF _ step_keeps(4)]
  have fin: "keeps p (fst (snd (log_cleaner_remove_expired_tombstones q cfg now st)))"
    if "keeps p q" for q st
    using keeps_trans[OF that step_keeps(4)[OF keeps_wf[OF that]]] .
  show ?thesis
  proof (cases "policy cfg")
    case RETENTION_TIME
    then show ?thesis
      by (simp add: log_cleaner_run_cycle_def case_prod_beta Let_def fin step_keeps[OF assms])
  next
    case RETENTION_SIZE
    have "keeps p (fst (snd (log_cleaner_delete_by_size q cfg st)))" if "keeps p q" for q st
      using keeps_trans[OF that step_keeps(2)[OF keeps_wf[OF that]]] .
    with RETENTION_SIZE show ?thesis
      by (simp add: log_cleaner_run_cycle_def case_prod_beta Let_def fin step_keeps[OF assms])
  next
    case RETENTION_COMPACTION
    then show ?thesis
      by (simp add: log_cleaner_run_cycle_def case_prod_beta Let_def fin step_keeps[OF assms])
  qed
qed

section \<open>Properties\<close>

text \<open>
  C7. Compaction keeps the latest record of every key, so the table a reader rebuilds from
  the log is the same before and after; every record keeps its offset, the active segment is
  untouched, a closed segment holds at most the latest record of a key, and a second
  compaction finds nothing to remove.
\<close>

theorem compaction_keeps_table:
  assumes "wf_partition p" "log_compact_partition p cfg now stats = (n, p', stats')"
  shows "wf_partition p' \<and> table_of (log_of p') = table_of (log_of p) \<and>
    map r_offset (log_of p') = map r_offset (log_of p) \<and> active_seg p' = active_seg p \<and>
    (\<forall>r \<in> set (closed_log p'). r_key r \<noteq> [] \<longrightarrow> table_of (log_of p') (r_key r) = Some r) \<and>
    log_compact_partition p' cfg now None = (0, p', None)"
  using compaction(1,2,4,5)[OF assms] compaction_dedup[OF assms] compaction_again[OF assms]
  by blast

text \<open>
  Size retention drops a prefix of the log, never a record of the active segment: after
  it the partition is within its limit or has no closed record left, and a partition within
  its limit is not touched.
\<close>

theorem size_retention_drops_prefix:
  assumes "wf_partition p" "0 < max_partition_bytes cfg"
    "log_cleaner_delete_by_size p cfg stats = (n, p', stats')"
  shows "wf_partition p' \<and> active_seg p' = active_seg p \<and>
    (\<exists>k. log_of p' = drop k (log_of p)) \<and>
    (log_cleaner_calculate_retention_bytes p' \<le> max_partition_bytes cfg \<or> closed_log p' = []) \<and>
    (log_cleaner_calculate_retention_bytes p \<le> max_partition_bytes cfg \<longrightarrow> p' = p)"
  using assms by (rule delete_by_size)

text \<open>
  Records are stamped in seconds (\<open>time(NULL)\<close>) while the cleaner's clock and its
  retention are in milliseconds. With any retention shorter than 999 times the time since the
  epoch, time retention run at the very second the records were appended already deletes all
  of them but those of the active segment.
\<close>

theorem time_retention_deletes_fresh:
  assumes "wf_partition p" "\<forall>r \<in> set (log_of p). r_timestamp r = now_s" "0 < now_s"
    "cfg_retention_ms cfg < 999 * now_s"
  shows "log_of (fst (snd (log_cleaner_delete_expired_segments p cfg (1000 * now_s) stats))) =
         records (active_seg p)"
proof -
  let ?p' = "fst (snd (log_cleaner_delete_expired_segments p cfg (1000 * now_s) stats))"
  have k: "wf_partition ?p'" "active_seg ?p' = active_seg p"
    using step_keeps(1)[OF assms(1)] by (simp_all add: keeps_def)
  have "records s = []" if s: "s \<in> set (segments ?p')" "\<not> is_active s" for s
  proof -
    from s obtain x where x: "x \<in> set (segments p)"
      "s = (if expired cfg (1000 * now_s) x then x\<lparr> records := [] \<rparr> else x)"
      unfolding fst_snd_delete_expired by auto
    have ts: "\<forall>r \<in> set (records x). r_timestamp r = now_s"
      using assms(2) x(1) by (auto simp: log_of_def)
    show ?thesis
    proof (cases "records x = []")
      case True
      with x show ?thesis by auto
    next
      case False
      have "max_timestamp (records x) 0 = now_s"
        using max_timestamp_ge[of 0 "records x"] max_timestamp_le[of "records x" now_s 0] ts
          assms(3) False by (auto simp: neq_Nil_conv)
      moreover have "\<not> is_active x" using s(2) x(2) by (auto split: if_splits)
      ultimately show ?thesis using assms(3,4) x(2) by (simp add: expired_def)
    qed
  qed
  then have "closed_log ?p' = []" by (auto simp: closed_log_def)
  with log_of_closed[OF k(1)] k(2) show ?thesis by simp
qed

text \<open>
  A cleaning cycle, under every policy, keeps the partition well formed, its active
  segment and its end offset. It also frees no space: a partition whose eight segments are
  full refuses every append after the cycle as it did before.
\<close>

theorem cleaning_frees_no_space:
  assumes "wf_partition p" "log_cleaner_run_cycle p cfg now_ms stats = (n, p', stats')"
  shows "wf_partition p' \<and> active_seg p' = active_seg p \<and>
    partition_get_end_offset p' = partition_get_end_offset p \<and> room p' = room p \<and>
    (room p = 0 \<longrightarrow> partition_append now key value headers p' = (-1, p'))"
  using run_cycle_keeps[OF assms(1), of cfg now_ms stats] assms(2) append_when_full[of p']
  by (simp add: keeps_def)

section \<open>A partition with a closed segment\<close>

definition demo_record :: "int \<Rightarrow> string \<Rightarrow> string \<Rightarrow> msg_record" where
  "demo_record off k v = \<lparr> r_offset = off, r_timestamp = 1700000000, r_key = k, r_value = v,
     r_headers = [] \<rparr>"

definition demo_partition :: log_partition where
  "demo_partition = \<lparr> part_id = 0, leader_broker = -1, replicas = [],
     segments = [\<lparr> base_offset = 0,
                   records = [demo_record 0 ''a'' ''1'', demo_record 1 ''b'' ''2'', demo_record 2 ''a'' ''3''],
                   is_active = False \<rparr>,
                 \<lparr> base_offset = 3, records = [demo_record 3 ''b'' ''4''], is_active = True \<rparr>],
     active_segment_idx = 1 \<rparr>"

definition demo_config :: "retention_policy \<Rightarrow> cleaner_config" where
  "demo_config pol = log_cleaner_config_init pol 604800000 6000"

lemma demo_partition_wf: "wf_partition demo_partition"
  by (simp add: wf_partition_def demo_partition_def demo_record_def segment_ok_def segs_ordered_def
      seg_end_def c_consts upt_rec)

lemma demo_end: "partition_get_end_offset demo_partition = 4"
  by (simp add: partition_get_end_offset_def demo_partition_def active_seg_def seg_end_def)

lemma demo_log: "log_of demo_partition = [demo_record 0 ''a'' ''1'', demo_record 1 ''b'' ''2'',
    demo_record 2 ''a'' ''3'', demo_record 3 ''b'' ''4'']"
  by (simp add: log_of_def demo_partition_def)

theorem compaction_keeps_table_witness:
  "\<exists>n p' st. log_compact_partition demo_partition (demo_config RETENTION_COMPACTION) 0 None = (n, p', st) \<and>
     table_of (log_of p') ''a'' = Some (demo_record 2 ''a'' ''3'') \<and>
     map r_offset (log_of p') = [0, 1, 2, 3]"
proof -
  obtain n p' st where
    r: "log_compact_partition demo_partition (demo_config RETENTION_COMPACTION) 0 None = (n, p', st)"
    by (cases "log_compact_partition demo_partition (demo_config RETENTION_COMPACTION) 0 None")
  from compaction_keeps_table[OF demo_partition_wf r] r show ?thesis
    by (auto simp: demo_log) (simp_all add: table_of_def demo_record_def)
qed

theorem size_retention_drops_prefix_witness:
  "\<exists>n p' st k. log_cleaner_delete_by_size demo_partition (demo_config RETENTION_SIZE) None = (n, p', st) \<and>
     log_of p' = drop k (log_of demo_partition)"
proof -
  have m: "0 < max_partition_bytes (demo_config RETENTION_SIZE)"
    by (simp add: demo_config_def log_cleaner_config_init_def)
  obtain n p' st where
    r: "log_cleaner_delete_by_size demo_partition (demo_config RETENTION_SIZE) None = (n, p', st)"
    by (cases "log_cleaner_delete_by_size demo_partition (demo_config RETENTION_SIZE) None")
  from size_retention_drops_prefix[OF demo_partition_wf m r] r show ?thesis by auto
qed

text \<open>A week of retention deletes the segment closed this very second.\<close>

theorem time_retention_deletes_fresh_witness:
  "log_of (fst (snd (log_cleaner_delete_expired_segments demo_partition (demo_config RETENTION_TIME)
     (1000 * 1700000000) None))) = [demo_record 3 ''b'' ''4'']"
proof -
  have "\<forall>r \<in> set (log_of demo_partition). r_timestamp r = 1700000000"
    unfolding demo_log by (simp add: demo_record_def)
  from time_retention_deletes_fresh[OF demo_partition_wf this, of "demo_config RETENTION_TIME" None]
  show ?thesis
    by (simp add: demo_config_def log_cleaner_config_init_def active_seg_def demo_partition_def)
qed

theorem cleaning_frees_no_space_witness:
  "\<exists>n p' st. log_cleaner_run_cycle demo_partition (demo_config RETENTION_SIZE) 1700000001000 None = (n, p', st) \<and>
     wf_partition p' \<and> partition_get_end_offset p' = 4 \<and> room p' = room demo_partition"
proof -
  obtain n p' st where
    r: "log_cleaner_run_cycle demo_partition (demo_config RETENTION_SIZE) 1700000001000 None = (n, p', st)"
    by (cases "log_cleaner_run_cycle demo_partition (demo_config RETENTION_SIZE) 1700000001000 None")
  from cleaning_frees_no_space[OF demo_partition_wf r] r show ?thesis
    by (auto simp: demo_end)
qed

end
