(* ===== verification/Replication.thy ===== *)
theory Replication
  imports Prelude
begin

text \<open>
  Replication (\<open>replication.h\<close>, \<open>replication.c\<close>): the in-sync replica set with its high
  watermark, leader election by votes, the follower's fetcher and the configuration checks.
  A vote beyond the eight slots of the vote arrays writes outside them: its result is
  \<open>None\<close>. Proved here: the high watermark never moves back and is the minimum it should be,
  the acknowledgement quorum implies it, shrinking is a filter, the election's winner is the
  most voted candidate of lowest id, and what the in-sync flag does not guarantee.
\<close>

definition MAX_ISR_SIZE :: nat where [c_consts]: "MAX_ISR_SIZE = 8"

datatype replica_role = REPLICA_ROLE_LEADER | REPLICA_ROLE_FOLLOWER | REPLICA_ROLE_OBSERVER

record isr_entry =
  ie_broker :: int
  log_end_offset :: int
  ie_last_fetch_ms :: int
  is_in_sync :: bool

record isr_state =
  isr_broker :: int
  isr_epoch :: int
  isr_list :: "isr_entry list"
  high_watermark :: int
  last_commit_offset :: int

record leader_election =
  le_partition :: int
  current_leader :: int
  current_epoch :: int
  candidates :: "int list"
  votes :: "int list"
  voters :: "int list"

record replica_fetcher =
  follower_id :: int
  leader_id :: int
  rf_fetch_offset :: int
  rf_last_fetch_ms :: int
  rf_max_bytes :: int

record replication_config =
  min_insync_replicas :: int
  replication_factor :: int

section \<open>The in-sync replica set\<close>

definition isr_add_replica :: "isr_state \<Rightarrow> int \<Rightarrow> int \<Rightarrow> int \<times> isr_state" where
  "isr_add_replica isr bid initial_leo =
     (if length (isr_list isr) \<ge> MAX_ISR_SIZE then (-1, isr)
      else
        (case find_idx (\<lambda>e. ie_broker e = bid) (isr_list isr) of
           Some i \<Rightarrow> (0, isr\<lparr> isr_list := (isr_list isr)[i :=
                        (isr_list isr ! i)\<lparr> log_end_offset := initial_leo \<rparr>] \<rparr>)
         | None \<Rightarrow> (0, isr\<lparr> isr_list := isr_list isr @
                     [\<lparr> ie_broker = bid, log_end_offset = initial_leo, ie_last_fetch_ms = 0,
                        is_in_sync = (initial_leo \<ge> high_watermark isr) \<rparr>] \<rparr>)))"

definition isr_state_create :: "bool \<Rightarrow> int \<Rightarrow> int \<Rightarrow> isr_state option" where
  "isr_state_create mem bid epoch =
     (if \<not> mem then None
      else Some (snd (isr_add_replica
             \<lparr> isr_broker = bid, isr_epoch = epoch, isr_list = [], high_watermark = 0,
               last_commit_offset = -1 \<rparr> bid 0)))"

definition isr_remove_replica :: "isr_state \<Rightarrow> int \<Rightarrow> int \<times> isr_state" where
  "isr_remove_replica isr bid =
     (case find_idx (\<lambda>e. ie_broker e = bid) (isr_list isr) of
        Some i \<Rightarrow> (0, isr\<lparr> isr_list := take i (isr_list isr) @ drop (Suc i) (isr_list isr) \<rparr>)
      | None \<Rightarrow> (-1, isr))"

definition isr_update_leo :: "isr_state \<Rightarrow> int \<Rightarrow> int \<Rightarrow> int \<Rightarrow> int \<times> isr_state" where
  "isr_update_leo isr bid new_leo fetch_time_ms =
     (if new_leo < 0 then (-1, isr)
      else
        (case find_idx (\<lambda>e. ie_broker e = bid) (isr_list isr) of
           Some i \<Rightarrow>
             (let e = isr_list isr ! i;
                  e1 = (if new_leo > log_end_offset e then e\<lparr> log_end_offset := new_leo \<rparr> else e)
              in (0, isr\<lparr> isr_list := (isr_list isr)[i :=
                       e1\<lparr> ie_last_fetch_ms := fetch_time_ms, is_in_sync := True \<rparr>] \<rparr>))
         | None \<Rightarrow> isr_add_replica isr bid new_leo))"

fun min_leo :: "isr_entry list \<Rightarrow> int \<Rightarrow> int" where
  "min_leo [] m = m"
| "min_leo (e # es) m = min_leo es (if log_end_offset e < m then log_end_offset e else m)"

definition isr_advance_hw :: "isr_state \<Rightarrow> int \<times> isr_state" where
  "isr_advance_hw isr =
     (case isr_list isr of
        [] \<Rightarrow> (-1, isr)
      | e # es \<Rightarrow>
          (let m = min_leo es (log_end_offset e);
               isr' = (if m > high_watermark isr then isr\<lparr> high_watermark := m \<rparr> else isr)
           in (high_watermark isr', isr')))"

definition isr_get_high_watermark :: "isr_state \<Rightarrow> int" where
  "isr_get_high_watermark isr = high_watermark isr"

definition isr_count_in_sync :: "isr_state \<Rightarrow> int" where
  "isr_count_in_sync isr = int (length (filter is_in_sync (isr_list isr)))"

text \<open>The loop of \<open>isr_maybe_shrink\<close> over the indices below \<open>i\<close>, downwards.\<close>

fun shrink_loop :: "nat \<Rightarrow> int \<Rightarrow> int \<Rightarrow> isr_state \<Rightarrow> int \<times> isr_state" where
  "shrink_loop 0 now_ms max_lag_ms isr = (0, isr)"
| "shrink_loop (Suc i) now_ms max_lag_ms isr =
     (let entry = isr_list isr ! i in
      if ie_broker entry = isr_broker isr then shrink_loop i now_ms max_lag_ms isr
      else if ie_last_fetch_ms entry > 0 \<and> now_ms - ie_last_fetch_ms entry > max_lag_ms then
        (let (n, isr') = shrink_loop i now_ms max_lag_ms
                           (snd (isr_remove_replica isr (ie_broker entry)))
         in (n + 1, isr'))
      else shrink_loop i now_ms max_lag_ms isr)"

definition isr_maybe_shrink :: "isr_state \<Rightarrow> int \<Rightarrow> int \<Rightarrow> int \<times> isr_state" where
  "isr_maybe_shrink isr now_ms max_lag_ms =
     shrink_loop (length (isr_list isr)) now_ms max_lag_ms isr"

definition isr_quorum_satisfied :: "isr_state \<Rightarrow> int \<Rightarrow> bool" where
  "isr_quorum_satisfied isr offset =
     (if isr_list isr = [] then False
      else list_all (\<lambda>e. \<not> log_end_offset e \<le> offset) (isr_list isr))"

section \<open>Leader election\<close>

definition leader_election_init :: "int \<Rightarrow> int \<Rightarrow> isr_state \<Rightarrow> leader_election" where
  "leader_election_init pid epoch isr =
     \<lparr> le_partition = pid, current_leader = isr_broker isr, current_epoch = epoch + 1,
       candidates = map ie_broker (filter is_in_sync (take MAX_ISR_SIZE (isr_list isr))),
       votes = [], voters = [] \<rparr>"

definition leader_election_cast_vote ::
  "leader_election \<Rightarrow> int \<Rightarrow> int \<Rightarrow> (int \<times> leader_election) option" where
  "leader_election_cast_vote el voter candidate =
     (if voter \<in> set (voters el) then Some (-1, el)
      else if candidate \<notin> set (candidates el) then Some (-1, el)
      else if length (votes el) \<ge> MAX_ISR_SIZE then None
      else Some (0, el\<lparr> voters := voters el @ [voter], votes := votes el @ [candidate] \<rparr>))"

fun count_votes :: "int list \<Rightarrow> int list \<Rightarrow> int list \<Rightarrow> int list" where
  "count_votes cands [] counts = counts"
| "count_votes cands (v # vs) counts =
     (case find_idx (\<lambda>c. c = v) cands of
        Some i \<Rightarrow> count_votes cands vs (counts[i := counts ! i + 1])
      | None \<Rightarrow> count_votes cands vs counts)"

definition winner_step :: "int list \<Rightarrow> int list \<Rightarrow> nat \<Rightarrow> int \<times> nat \<Rightarrow> int \<times> nat" where
  "winner_step cands counts i s =
     (case s of (max_votes, winner) \<Rightarrow>
       if counts ! i > max_votes then (counts ! i, i)
       else if counts ! i = max_votes \<and> cands ! i < cands ! winner then (max_votes, i)
       else (max_votes, winner))"

definition leader_election_get_winner :: "leader_election \<Rightarrow> int option" where
  "leader_election_get_winner el =
     (if candidates el = [] then None
      else
        (let n = length (candidates el);
             counts = count_votes (candidates el) (votes el) (replicate n 0);
             (mx, winner) = fold (winner_step (candidates el) counts) [0..<n] (-1, 0)
         in Some (candidates el ! winner)))"

section \<open>Fetcher, truncation and configuration\<close>

definition replica_fetcher_create :: "bool \<Rightarrow> int \<Rightarrow> int \<Rightarrow> int \<Rightarrow> replica_fetcher option" where
  "replica_fetcher_create mem follower leader start_offset =
     (if mem then Some \<lparr> follower_id = follower, leader_id = leader,
        rf_fetch_offset = start_offset, rf_last_fetch_ms = 0, rf_max_bytes = 1024 * 1024 \<rparr>
      else None)"

definition replica_fetcher_next_offset :: "replica_fetcher \<Rightarrow> int" where
  "replica_fetcher_next_offset rf = rf_fetch_offset rf"

definition replica_calculate_truncation_offset :: "int \<Rightarrow> int \<Rightarrow> int" where
  "replica_calculate_truncation_offset follower_leo leader_hw =
     (if follower_leo \<le> leader_hw then follower_leo else leader_hw)"

definition replication_config_validate :: "replication_config \<Rightarrow> int" where
  "replication_config_validate cfg =
     (if replication_factor cfg < 1 \<or> replication_factor cfg > int MAX_ISR_SIZE then -1
      else if min_insync_replicas cfg < 1 \<or> min_insync_replicas cfg > replication_factor cfg then -1
      else 0)"

datatype availability = HEALTHY | DEGRADED | UNDER_REPLICATED

definition replication_availability_status :: "isr_state \<Rightarrow> replication_config \<Rightarrow> availability" where
  "replication_availability_status isr cfg =
     (let in_sync = isr_count_in_sync isr in
      if in_sync \<ge> replication_factor cfg then HEALTHY
      else if in_sync \<ge> min_insync_replicas cfg then DEGRADED
      else UNDER_REPLICATED)"

section \<open>Invariant and high watermark\<close>

definition wf_isr :: "isr_state \<Rightarrow> bool" where
  "wf_isr isr \<longleftrightarrow> length (isr_list isr) \<le> MAX_ISR_SIZE \<and> distinct (map ie_broker (isr_list isr))"

lemma Min_insert_min:
  "finite S \<Longrightarrow> Min (insert (min a b) S) = Min (insert a (insert b S))" for a b :: int
  by (cases "S = {}") (simp_all add: min.assoc)

lemma min_leo_eq: "min_leo es m = Min (insert m (log_end_offset ` set es))"
proof (induction es arbitrary: m)
  case (Cons e es)
  have "min_leo (e # es) m = min_leo es (min (log_end_offset e) m)" by (simp add: min_def)
  also have "\<dots> = Min (insert (log_end_offset e) (insert m (log_end_offset ` set es)))"
    unfolding Cons by (rule Min_insert_min) simp
  finally show ?case by (simp add: insert_commute)
qed simp

lemma advance_hw_eq:
  assumes "isr_list isr \<noteq> []"
  shows "isr_advance_hw isr =
     (let hw = max (high_watermark isr) (Min (log_end_offset ` set (isr_list isr)))
      in (hw, isr\<lparr> high_watermark := hw \<rparr>))"
proof -
  from assms obtain e es where l: "isr_list isr = e # es" by (cases "isr_list isr") auto
  define m where "m = Min (log_end_offset ` set (isr_list isr))"
  have "min_leo es (log_end_offset e) = m" by (simp add: m_def l min_leo_eq)
  then show ?thesis
    unfolding m_def[symmetric] by (simp add: isr_advance_hw_def l Let_def max_def)
qed

lemma wf_isr_update:
  "wf_isr isr \<Longrightarrow> i < length (isr_list isr) \<Longrightarrow> ie_broker e = ie_broker (isr_list isr ! i) \<Longrightarrow>
   wf_isr (isr\<lparr> isr_list := (isr_list isr)[i := e] \<rparr>)"
  by (simp add: wf_isr_def map_update_same)

lemma find_entry:
  "find_idx (\<lambda>e. ie_broker e = bid) (isr_list isr) = Some i \<Longrightarrow>
   i < length (isr_list isr) \<and> ie_broker (isr_list isr ! i) = bid"
  by (auto dest: find_idx_SomeD)

lemma add_replica_wf [preserves]: "wf_isr isr \<Longrightarrow> wf_isr (snd (isr_add_replica isr bid leo))"
  using find_entry[of bid isr]
  by (auto simp: isr_add_replica_def wf_isr_update split: option.split)
    (auto simp: wf_isr_def find_idx_None_iff)

lemma distinct_remove_nth:
  assumes "distinct (map f xs)"
  shows "distinct (map f (take i xs @ drop (Suc i) xs))"
proof -
  have "distinct (take i (map f xs) @ drop (Suc i) (map f xs))"
    using assms set_take_disj_set_drop_if_distinct[of "map f xs" i "Suc i"]
    by (auto intro: distinct_take distinct_drop)
  then show ?thesis by (simp add: take_map drop_map)
qed

lemma remove_replica_wf [preserves]: "wf_isr isr \<Longrightarrow> wf_isr (snd (isr_remove_replica isr bid))"
  unfolding isr_remove_replica_def
  by (auto simp: wf_isr_def dest!: find_entry split: option.split
      simp del: map_append intro!: distinct_remove_nth)

lemma update_leo_wf [preserves]: "wf_isr isr \<Longrightarrow> wf_isr (snd (isr_update_leo isr bid leo t))"
  using find_entry[of bid isr] add_replica_wf[of isr bid leo]
  by (auto simp: isr_update_leo_def Let_def wf_isr_update split: option.split)

lemma advance_hw_wf [preserves]: "wf_isr isr \<Longrightarrow> wf_isr (snd (isr_advance_hw isr))"
  by (auto simp: isr_advance_hw_def wf_isr_def Let_def split: list.split)

lemma shrink_loop_wf [preserves]: "wf_isr isr \<Longrightarrow> wf_isr (snd (shrink_loop i now lag isr))"
  by (induction i now lag isr rule: shrink_loop.induct)
    (simp_all add: Let_def case_prod_beta remove_replica_wf)

lemma maybe_shrink_wf [preserves]: "wf_isr isr \<Longrightarrow> wf_isr (snd (isr_maybe_shrink isr now lag))"
  by (simp add: isr_maybe_shrink_def shrink_loop_wf)

text \<open>Only \<open>isr_advance_hw\<close> moves the high watermark.\<close>

lemma add_hw [frames]: "high_watermark (snd (isr_add_replica isr bid leo)) = high_watermark isr"
  by (auto simp: isr_add_replica_def split: option.split)

lemma remove_frame [frames]:
  "high_watermark (snd (isr_remove_replica isr bid)) = high_watermark isr"
  "isr_broker (snd (isr_remove_replica isr bid)) = isr_broker isr"
  by (auto simp: isr_remove_replica_def split: option.split)

lemma update_hw [frames]: "high_watermark (snd (isr_update_leo isr bid leo t)) = high_watermark isr"
  by (auto simp: isr_update_leo_def Let_def frames split: option.split)

lemma shrink_hw [frames]: "high_watermark (snd (shrink_loop i now lag isr)) = high_watermark isr"
  by (induction i now lag isr rule: shrink_loop.induct)
    (simp_all add: Let_def case_prod_beta frames)

datatype isr_op =
    Add_replica int int
  | Remove_replica int
  | Update_leo int int int
  | Advance_hw
  | Maybe_shrink int int

fun isr_step :: "isr_op \<Rightarrow> isr_state \<Rightarrow> isr_state" where
  "isr_step (Add_replica b leo) isr = snd (isr_add_replica isr b leo)"
| "isr_step (Remove_replica b) isr = snd (isr_remove_replica isr b)"
| "isr_step (Update_leo b leo t) isr = snd (isr_update_leo isr b leo t)"
| "isr_step Advance_hw isr = snd (isr_advance_hw isr)"
| "isr_step (Maybe_shrink now lag) isr = snd (isr_maybe_shrink isr now lag)"

definition fresh_isr :: "isr_state \<Rightarrow> bool" where
  "fresh_isr isr \<longleftrightarrow> (\<exists>b e. isr_state_create True b e = Some isr)"

lemma advance_hw_ge: "high_watermark isr \<le> high_watermark (snd (isr_advance_hw isr))"
  by (auto simp: isr_advance_hw_def Let_def split: list.split)

interpretation isr_sys: monotone_system fresh_isr isr_step wf_isr high_watermark
proof
  show "fresh_isr isr \<Longrightarrow> wf_isr isr" for isr
    by (auto simp: fresh_isr_def isr_state_create_def wf_isr_def isr_add_replica_def c_consts)
  show "wf_isr isr \<Longrightarrow> wf_isr (isr_step op isr)" for op isr
    by (cases op) (simp_all add: preserves)
  show "high_watermark isr \<le> high_watermark (isr_step op isr)" for op isr
    by (cases op) (simp_all add: frames advance_hw_ge isr_maybe_shrink_def)
qed

section \<open>Shrinking\<close>

definition lagging :: "isr_state \<Rightarrow> int \<Rightarrow> int \<Rightarrow> isr_entry \<Rightarrow> bool" where
  "lagging isr now_ms max_lag e \<longleftrightarrow> ie_broker e \<noteq> isr_broker isr \<and> ie_last_fetch_ms e > 0 \<and>
     now_ms - ie_last_fetch_ms e > max_lag"

lemma remove_at:
  assumes "distinct (map ie_broker (isr_list isr))" "i < length (isr_list isr)"
  shows "snd (isr_remove_replica isr (ie_broker (isr_list isr ! i))) =
    isr\<lparr> isr_list := take i (isr_list isr) @ drop (Suc i) (isr_list isr) \<rparr>"
  using find_idx_distinct[OF assms] by (simp add: isr_remove_replica_def)

lemma shrink_loop_eq:
  assumes "distinct (map ie_broker (isr_list isr))" "i \<le> length (isr_list isr)"
  shows "shrink_loop i now lag isr =
    (int (length (filter (lagging isr now lag) (take i (isr_list isr)))),
     isr\<lparr> isr_list := filter (\<lambda>e. \<not> lagging isr now lag e) (take i (isr_list isr)) @
                     drop i (isr_list isr) \<rparr>)"
  using assms
proof (induction i arbitrary: isr)
  case (Suc i)
  let ?l = "isr_list isr" and ?e = "isr_list isr ! i"
  have i: "i < length ?l" using Suc.prems(2) by simp
  have t: "take (Suc i) ?l = take i ?l @ [?e]" "drop i ?l = ?e # drop (Suc i) ?l"
    using i by (simp_all add: take_Suc_conv_app_nth Cons_nth_drop_Suc)
  show ?case
  proof (cases "lagging isr now lag ?e")
    case True
    let ?r = "isr\<lparr> isr_list := take i ?l @ drop (Suc i) ?l \<rparr>"
    have same: "lagging ?r = lagging isr" by (simp add: lagging_def fun_eq_iff)
    have "distinct (map ie_broker (isr_list ?r))" "i \<le> length (isr_list ?r)"
      using distinct_remove_nth[OF Suc.prems(1)] i by simp_all
    from Suc.IH[OF this] i True remove_at[OF Suc.prems(1) i]
    show ?thesis by (simp add: Let_def lagging_def same t(1))
  next
    case False
    then have "shrink_loop (Suc i) now lag isr = shrink_loop i now lag isr"
      by (auto simp: Let_def lagging_def)
    with Suc.IH[OF Suc.prems(1)] i False show ?thesis by (simp add: t)
  qed
qed simp


section \<open>Counting votes\<close>

lemma length_count_votes [simp]: "length (count_votes cands vs counts) = length counts"
  by (induction cands vs counts rule: count_votes.induct) (auto split: option.split)

lemma count_votes_nth:
  assumes "distinct cands" "length counts = length cands" "i < length cands"
  shows "count_votes cands vs counts ! i = counts ! i + int (count_list vs (cands ! i))"
  using assms
proof (induction vs arbitrary: counts)
  case (Cons v vs)
  show ?case
  proof (cases "find_idx (\<lambda>c. c = v) cands")
    case None
    then have "v \<noteq> cands ! i" using Cons.prems(3) by (auto simp: find_idx_None_iff)
    with None Cons show ?thesis by simp
  next
    case (Some j)
    then have j: "j < length cands" "cands ! j = v" by (auto dest: find_idx_SomeD)
    have "v = cands ! i \<longleftrightarrow> i = j" using j Cons.prems by (auto simp: nth_eq_iff_index_eq)
    with Some j Cons.IH[of "counts[j := counts ! j + 1]"] Cons.prems show ?thesis
      by (auto simp: nth_list_update)
  qed
qed simp

lemma winner_fold:
  assumes "\<forall>j < n. 0 \<le> counts ! j" "k \<le> n" "0 < k"
    "fold (winner_step cands counts) [0..<k] (-1, 0) = (mx, w)"
  shows "w < k \<and> mx = counts ! w \<and>
    (\<forall>j < k. counts ! j < counts ! w \<or> counts ! j = counts ! w \<and> cands ! w \<le> cands ! j)"
  using assms(2-)
proof (induction k arbitrary: mx w)
  case (Suc k)
  obtain mx' w' where f: "fold (winner_step cands counts) [0..<k] (-1, 0) = (mx', w')" by fastforce
  have step: "winner_step cands counts k (mx', w') = (mx, w)" using Suc.prems(3) f by simp
  show ?case
  proof (cases "k = 0")
    case True
    with f step assms(1) Suc.prems(1) show ?thesis by (auto simp: winner_step_def split: if_splits)
  next
    case False
    with Suc.IH[OF _ _ f] Suc.prems(1) have
      "w' < k" "mx' = counts ! w'"
      "\<forall>j < k. counts ! j < counts ! w' \<or> counts ! j = counts ! w' \<and> cands ! w' \<le> cands ! j" by auto
    with step show ?thesis
      unfolding winner_step_def by (auto simp: less_Suc_eq split: if_splits; fastforce)
  qed
qed simp

lemma winner_spec:
  assumes "distinct (candidates el)" "leader_election_get_winner el = Some w"
  shows "w \<in> set (candidates el) \<and>
    (\<forall>c \<in> set (candidates el). count_list (votes el) c < count_list (votes el) w \<or>
       count_list (votes el) c = count_list (votes el) w \<and> w \<le> c)"
proof -
  let ?c = "candidates el"
  let ?n = "length ?c"
  let ?k = "count_votes ?c (votes el) (replicate ?n 0)"
  obtain mx i where f: "fold (winner_step ?c ?k) [0..<?n] (-1, 0) = (mx, i)" by fastforce
  have ne: "?c \<noteq> []" and w: "w = ?c ! i"
    using assms(2) f by (auto simp: leader_election_get_winner_def split: if_splits)
  have k: "?k ! j = int (count_list (votes el) (?c ! j))" if "j < ?n" for j
    using count_votes_nth[OF assms(1) _ that] that by simp
  have "i < ?n \<and> (\<forall>j < ?n. ?k ! j < ?k ! i \<or> ?k ! j = ?k ! i \<and> ?c ! i \<le> ?c ! j)"
    using winner_fold[OF _ order_refl _ f] ne k by auto
  then show ?thesis using k w by (auto simp: in_set_conv_nth)
qed

lemma candidates_distinct:
  "wf_isr isr \<Longrightarrow> distinct (candidates (leader_election_init pid epoch isr))"
  by (auto simp: leader_election_init_def wf_isr_def
      intro!: distinct_map_filter distinct_take simp flip: take_map)

section \<open>Properties\<close>

text \<open>
  C8. Whatever sequence of joins, removals, fetch reports, watermark advances and shrinks is
  applied, the high watermark never decreases and the replica set stays well formed (at most
  eight replicas with distinct ids). Advancing it sets it to the larger of its old value and
  the smallest log end offset of the set.
\<close>

theorem high_watermark_monotone:
  assumes "wf_isr isr" "s = fold isr_step ops isr"
  shows "wf_isr s \<and> high_watermark isr \<le> high_watermark s \<and>
    (isr_list s \<noteq> [] \<longrightarrow>
       fst (isr_advance_hw s) = max (high_watermark s) (Min (log_end_offset ` set (isr_list s))) \<and>
       high_watermark (snd (isr_advance_hw s)) = fst (isr_advance_hw s))"
  using isr_sys.fold_inv[OF assms(1), of ops] isr_sys.fold_obs[OF assms(1), of ops]
  by (simp add: assms(2) advance_hw_eq Let_def)

definition demo_isr :: isr_state where
  "demo_isr = \<lparr> isr_broker = 1, isr_epoch = 0,
     isr_list = [\<lparr> ie_broker = 1, log_end_offset = 10, ie_last_fetch_ms = 500, is_in_sync = True \<rparr>,
                 \<lparr> ie_broker = 2, log_end_offset = 4, ie_last_fetch_ms = 100, is_in_sync = False \<rparr>],
     high_watermark = 7, last_commit_offset = -1 \<rparr>"

lemma demo_isr_wf: "wf_isr demo_isr"
  by (simp add: wf_isr_def demo_isr_def c_consts)

theorem high_watermark_monotone_witness:
  "7 \<le> high_watermark (fold isr_step [Update_leo 2 9 600, Advance_hw, Remove_replica 2] demo_isr)"
  using high_watermark_monotone[OF demo_isr_wf refl,
      of "[Update_leo 2 9 600, Advance_hw, Remove_replica 2]"]
  by (simp add: demo_isr_def)

text \<open>
  Acknowledgement by all replicas and the high watermark agree: for an offset not yet
  below the watermark, every replica has the record at that offset exactly if the next
  advance moves the watermark past it.
\<close>

theorem quorum_iff_watermark:
  assumes "isr_list isr \<noteq> []" "high_watermark isr \<le> offset"
  shows "isr_quorum_satisfied isr offset \<longleftrightarrow> offset < fst (isr_advance_hw isr)"
  using assms by (auto simp: isr_quorum_satisfied_def advance_hw_eq Let_def list_all_iff less_max_iff_disj)

theorem quorum_iff_watermark_witness:
  "isr_quorum_satisfied demo_isr 8 \<longleftrightarrow> 8 < fst (isr_advance_hw demo_isr)"
  using quorum_iff_watermark[of demo_isr 8] by (simp add: demo_isr_def)

text \<open>
  Shrinking removes exactly the replicas other than the leader that have fetched before
  and whose last fetch is longer ago than the limit, keeps the order of the others, and
  returns how many it removed.
\<close>

theorem maybe_shrink_filters:
  assumes "wf_isr isr"
  shows "isr_maybe_shrink isr now_ms max_lag_ms =
    (int (length (filter (lagging isr now_ms max_lag_ms) (isr_list isr))),
     isr\<lparr> isr_list := filter (\<lambda>e. \<not> lagging isr now_ms max_lag_ms e) (isr_list isr) \<rparr>)"
  using assms shrink_loop_eq[of isr "length (isr_list isr)"]
  by (simp add: isr_maybe_shrink_def wf_isr_def)

theorem maybe_shrink_filters_witness:
  "map ie_broker (isr_list (snd (isr_maybe_shrink demo_isr 20000 10000))) = [1]"
  using maybe_shrink_filters[OF demo_isr_wf, of 20000 10000]
  by (simp add: demo_isr_def lagging_def)

text \<open>
  The winner of an election started from a well-formed replica set, after any votes, is
  a candidate with the most votes, and the one with the lowest id among those.
\<close>

theorem election_winner:
  assumes "wf_isr isr" "candidates el = candidates (leader_election_init pid epoch isr)"
    "leader_election_get_winner el = Some w"
  shows "w \<in> ie_broker ` {e \<in> set (isr_list isr). is_in_sync e} \<and>
    (\<forall>c \<in> set (candidates el). count_list (votes el) c < count_list (votes el) w \<or>
       count_list (votes el) c = count_list (votes el) w \<and> w \<le> c)"
proof -
  have "set (candidates el) \<subseteq> ie_broker ` {e \<in> set (isr_list isr). is_in_sync e}"
    by (auto simp: assms(2) leader_election_init_def dest: in_set_takeD)
  with winner_spec[OF _ assms(3)] candidates_distinct[OF assms(1), of pid epoch] show ?thesis
    by (auto simp: assms(2))
qed

definition demo_sync :: isr_state where
  "demo_sync = snd (isr_update_leo demo_isr 2 5 600)"

theorem election_winner_witness:
  "\<exists>el1 el2. leader_election_cast_vote (leader_election_init 0 3 demo_sync) 8 2 = Some (0, el1) \<and>
     leader_election_cast_vote el1 9 2 = Some (0, el2) \<and> leader_election_get_winner el2 = Some 2 \<and>
     (\<forall>c \<in> {1, 2}. count_list (votes el2) c < count_list (votes el2) 2 \<or> (2::int) \<le> c)"
proof -
  let ?el = "leader_election_init 0 3 demo_sync"
  let ?el2 = "?el\<lparr> voters := [8, 9], votes := [2, 2] \<rparr>"
  have wf: "wf_isr demo_sync" by (simp add: demo_sync_def update_leo_wf demo_isr_wf)
  have c: "candidates ?el = [1, 2]"
    by (simp add: leader_election_init_def demo_sync_def isr_update_leo_def demo_isr_def c_consts)
  have win: "leader_election_get_winner ?el2 = Some 2"
    by (simp add: leader_election_get_winner_def c winner_step_def upt_rec)
  from election_winner[OF wf _ win, of 0 3] c have
    "\<forall>c \<in> {1, 2}. count_list (votes ?el2) c < count_list (votes ?el2) 2 \<or> (2::int) \<le> c" by auto
  moreover have "leader_election_cast_vote ?el 8 2 =
      Some (0, ?el\<lparr> voters := [8], votes := [2] \<rparr>)"
    "leader_election_cast_vote (?el\<lparr> voters := [8], votes := [2] \<rparr>) 9 2 = Some (0, ?el2)"
    using c by (simp_all add: leader_election_cast_vote_def leader_election_init_def c_consts)
  ultimately show ?thesis using win by blast
qed

text \<open>
  The in-sync flag does not mean the replica holds the committed records: a replica far
  behind the high watermark that reports any fetch becomes in sync, hence a candidate for
  leadership, with its log still ending below the watermark.
\<close>

theorem stale_replica_becomes_candidate:
  assumes "wf_isr isr" "e \<in> set (isr_list isr)" "0 \<le> new_leo" "log_end_offset e < high_watermark isr"
    "new_leo < high_watermark isr" "isr' = snd (isr_update_leo isr (ie_broker e) new_leo t)"
  shows "ie_broker e \<in> set (candidates (leader_election_init pid epoch isr')) \<and>
    (\<exists>e' \<in> set (isr_list isr'). ie_broker e' = ie_broker e \<and> is_in_sync e' \<and>
       log_end_offset e' < high_watermark isr')"
proof -
  from assms(2) obtain i where i: "i < length (isr_list isr)" "e = isr_list isr ! i"
    by (auto simp: in_set_conv_nth)
  have f: "find_idx (\<lambda>x. ie_broker x = ie_broker e) (isr_list isr) = Some i"
    using find_idx_distinct[of ie_broker "isr_list isr" i] assms(1) i by (simp add: wf_isr_def)
  let ?e1 = "(if new_leo > log_end_offset e then e\<lparr> log_end_offset := new_leo \<rparr> else e)
      \<lparr> ie_last_fetch_ms := t, is_in_sync := True \<rparr>"
  have isr': "isr' = isr\<lparr> isr_list := (isr_list isr)[i := ?e1] \<rparr>"
    using f i assms(3,6) by (simp add: isr_update_leo_def Let_def)
  have mem: "?e1 \<in> set (isr_list isr')" using i by (auto simp: isr' set_update_memI)
  have "take MAX_ISR_SIZE (isr_list isr') = isr_list isr'"
    using assms(1) by (simp add: isr' wf_isr_def)
  with mem have "ie_broker ?e1 \<in> set (candidates (leader_election_init pid epoch isr'))"
    by (auto simp: leader_election_init_def image_iff)
  moreover have "log_end_offset ?e1 < high_watermark isr'" using assms(4,5) by (simp add: isr')
  moreover have "ie_broker ?e1 = ie_broker e" "is_in_sync ?e1" by simp_all
  ultimately show ?thesis using mem by metis
qed

theorem stale_replica_becomes_candidate_witness:
  "2 \<in> set (candidates (leader_election_init 0 3 demo_sync))"
proof -
  let ?e = "\<lparr> ie_broker = 2, log_end_offset = 4, ie_last_fetch_ms = 100, is_in_sync = False \<rparr>"
  have "?e \<in> set (isr_list demo_isr)" "log_end_offset ?e < high_watermark demo_isr"
    "(5::int) < high_watermark demo_isr" "demo_sync = snd (isr_update_leo demo_isr (ie_broker ?e) 5 600)"
    by (simp_all add: demo_isr_def demo_sync_def)
  from stale_replica_becomes_candidate[OF demo_isr_wf this(1) _ this(2,3,4), of 0 3]
  show ?thesis by simp
qed

end
