(* ===== verification/Codec_Base.thy ===== *)
theory Codec_Base
  imports Prelude "HOL-Library.Word"
begin

unbundle bit_operations_syntax

text \<open>
  What the byte-level codecs share: bytes as 8 bit words, the outcome of an operation on a
  bounded buffer, integers as sequences of bytes in either byte order, the 7 bit groups of
  variable length integers, and the interface of a decoder that reads back its own encoding
  and leaves the bytes after it. Derived once inside that interface: encodings are prefix
  free, and pairs and counted lists of encodings decode again.
\<close>

type_synonym byte = "8 word"

text \<open>
  An operation on buffers ends with a value, with an error return, or reads or writes outside
  a buffer (\<open>Undefined\<close>).
\<close>

datatype 'a outcome = Done 'a | Failed | Undefined

fun bind_outcome :: "'a outcome \<Rightarrow> ('a \<Rightarrow> 'b outcome) \<Rightarrow> 'b outcome" where
  "bind_outcome (Done a) f = f a"
| "bind_outcome Failed f = Failed"
| "bind_outcome Undefined f = Undefined"

lemma bind_outcome_Done [simp]:
  "bind_outcome x f = Done b \<longleftrightarrow> (\<exists>a. x = Done a \<and> f a = Done b)"
  by (cases x) auto

section \<open>Integers as bytes\<close>

fun le_bytes :: "nat \<Rightarrow> 'a::len word \<Rightarrow> byte list" where
  "le_bytes 0 w = []"
| "le_bytes (Suc n) w = ucast w # le_bytes n (drop_bit 8 w)"

fun le_value :: "byte list \<Rightarrow> 'a::len word" where
  "le_value [] = 0"
| "le_value (b # bs) = ucast b OR push_bit 8 (le_value bs)"

definition be_bytes :: "nat \<Rightarrow> 'a::len word \<Rightarrow> byte list" where
  "be_bytes n w = rev (le_bytes n w)"

definition be_value :: "byte list \<Rightarrow> 'a::len word" where
  "be_value bs = le_value (rev bs)"

lemma length_le_bytes [simp]: "length (le_bytes n w) = n"
  by (induction n arbitrary: w) simp_all

lemma length_be_bytes [simp]: "length (be_bytes n w) = n"
  by (simp add: be_bytes_def)

lemma low_byte_join: "ucast (ucast w :: byte) OR push_bit 8 (take_bit m (drop_bit 8 w)) =
    take_bit (8 + m) (w :: 'a::len word)"
proof (rule bit_word_eqI)
  fix n assume "n < LENGTH('a)"
  then show "bit (ucast (ucast w :: byte) OR push_bit 8 (take_bit m (drop_bit 8 w))) n =
      bit (take_bit (8 + m) w) n"
    by (cases "n < 8") (auto simp: bit_simps)
qed

lemma le_value_le_bytes: "le_value (le_bytes n w) = take_bit (8 * n) (w :: 'a::len word)"
proof (induction n arbitrary: w)
  case (Suc n)
  then show ?case by (simp add: low_byte_join)
qed simp

lemma le_value_full: "LENGTH('a) \<le> 8 * n \<Longrightarrow> le_value (le_bytes n w) = (w :: 'a::len word)"
  by (simp add: le_value_le_bytes take_bit_word_eq_self)

lemma be_value_full: "LENGTH('a) \<le> 8 * n \<Longrightarrow> be_value (be_bytes n w) = (w :: 'a::len word)"
  by (simp add: be_value_def be_bytes_def le_value_full)

section \<open>Groups of seven bits\<close>

fun put7 :: "nat \<Rightarrow> 'a::len word \<Rightarrow> byte list option" where
  "put7 0 v = None"
| "put7 (Suc f) v =
     (if v \<ge> 0x80 then map_option ((#) (ucast ((v AND 0x7F) OR 0x80))) (put7 f (drop_bit 7 v))
      else Some [ucast (v AND 0x7F)])"

fun get7 :: "nat \<Rightarrow> nat \<Rightarrow> 'a::len word \<Rightarrow> byte list \<Rightarrow> ('a word \<times> nat) option" where
  "get7 0 s acc bs = None"
| "get7 (Suc f) s acc [] = None"
| "get7 (Suc f) s acc (b # bs) =
     (let acc' = acc OR push_bit s (ucast (b AND 0x7F)) in
      if b AND 0x80 = 0 then Some (acc', 1)
      else map_option (\<lambda>(v, n). (v, Suc n)) (get7 f (s + 7) acc' bs))"

lemma mask7: "(0x7F :: 'a::len word) = mask 7"
  by (simp add: mask_eq_exp_minus_1)

lemma bit_0x80: "bit (0x80 :: 'a::len word) n \<longleftrightarrow> n = 7 \<and> 7 < LENGTH('a)"
  "bit (0x80 :: int) n \<longleftrightarrow> n = 7"
proof -
  have e: "(0x80 :: 'a word) = 2 ^ 7" "(0x80 :: int) = 2 ^ 7" by simp_all
  show "bit (0x80 :: 'a word) n \<longleftrightarrow> n = 7 \<and> 7 < LENGTH('a)" unfolding e bit_exp_iff by auto
  show "bit (0x80 :: int) n \<longleftrightarrow> n = 7" unfolding e bit_exp_iff by auto
qed

lemma low_group: "ucast ((ucast ((v AND 0x7F) OR 0x80) :: byte) AND 0x7F) = (v AND 0x7F :: 'a::len word)"
  unfolding mask7
  by (rule bit_word_eqI) (auto simp: bit_simps bit_0x80)

lemma last_group: "ucast ((ucast (v AND 0x7F) :: byte) AND 0x7F) = (v AND 0x7F :: 'a::len word)"
  unfolding mask7
  by (rule bit_word_eqI) (auto simp: bit_simps)

lemma and_0x80_iff: "(b AND 0x80 = 0) \<longleftrightarrow> \<not> bit b 7" for b :: byte
proof
  assume "b AND 0x80 = 0"
  then have "\<not> bit (b AND 0x80) 7" by simp
  then show "\<not> bit b 7" by (simp add: bit_and_iff bit_0x80)
next
  assume "\<not> bit b 7"
  then show "b AND 0x80 = 0" by (intro bit_word_eqI) (auto simp: bit_and_iff bit_0x80)
qed

lemma continuation [simp]:
  "(ucast ((v AND 0x7F) OR 0x80) :: byte) AND 0x80 \<noteq> 0" if "7 < LENGTH('a)" for v :: "'a::len word"
  using that by (simp add: and_0x80_iff bit_simps bit_0x80)

lemma no_continuation [simp]: "(ucast (v AND 0x7F) :: byte) AND 0x80 = 0" for v :: "'a::len word"
  unfolding mask7 by (simp add: and_0x80_iff bit_simps)

lemma join_groups:
  "push_bit s (v AND 0x7F) OR push_bit (s + 7) (drop_bit 7 v) = push_bit s (v :: 'a::len word)"
  unfolding mask7
proof (rule bit_word_eqI)
  fix n assume "n < LENGTH('a)"
  show "bit (push_bit s (v AND mask 7) OR push_bit (s + 7) (drop_bit 7 v)) n = bit (push_bit s v) n"
    by (cases "s + 7 \<le> n") (auto simp: bit_simps)
qed

lemma small_group: "\<not> v \<ge> 0x80 \<Longrightarrow> v AND 0x7F = v" for v :: "'a::len word"
proof -
  assume "\<not> v \<ge> 0x80"
  then have "v < 2 ^ 7" by simp
  then show ?thesis unfolding mask7
    by (rule less_mask_eq)
qed

lemma get7_put7:
  assumes "put7 f v = Some bs" "7 < LENGTH('a)"
  shows "get7 f s acc (bs @ rest) = Some (acc OR push_bit s (v :: 'a::len word), length bs)"
  using assms(1)
proof (induction f arbitrary: v s acc bs)
  case (Suc f)
  show ?case
  proof (cases "v \<ge> 0x80")
    case True
    then obtain cs where cs: "put7 f (drop_bit 7 v) = Some cs"
      "bs = ucast ((v AND 0x7F) OR 0x80) # cs" using Suc.prems by auto
    have "get7 f (s + 7) (acc OR push_bit s (v AND 0x7F)) (cs @ rest) =
        Some ((acc OR push_bit s (v AND 0x7F)) OR push_bit (s + 7) (drop_bit 7 v), length cs)"
      by (rule Suc.IH[OF cs(1)])
    also have "(acc OR push_bit s (v AND 0x7F)) OR push_bit (s + 7) (drop_bit 7 v) =
        acc OR push_bit s v"
      unfolding or.assoc join_groups ..
    finally show ?thesis using assms(2) unfolding cs(2) append_Cons get7.simps low_group
      by (simp add: Let_def del: push_bit_and)
  next
    case False
    then have bs: "bs = [ucast (v AND 0x7F)]" using Suc.prems by simp
    have "get7 (Suc f) s acc (bs @ rest) = Some (acc OR push_bit s (v AND 0x7F), length bs)"
      unfolding bs append_Cons get7.simps last_group by (simp add: Let_def del: push_bit_and)
    then show ?thesis unfolding small_group[OF False] .
  qed
qed simp

lemma put7_length: "put7 f v = Some bs \<Longrightarrow> 0 < length bs \<and> length bs \<le> f"
  by (induction f arbitrary: v bs) (fastforce split: if_splits)+

lemma put7_mono: "put7 f v = Some bs \<Longrightarrow> put7 (f + k) v = Some bs"
  by (induction f arbitrary: v bs) (auto split: if_splits)

lemma put7_total:
  assumes "unat v < 2 ^ (7 * f)" "0 < f" "7 < LENGTH('a)"
  shows "\<exists>bs. put7 f (v :: 'a::len word) = Some bs"
  using assms(1,2)
proof (induction f arbitrary: v)
  case (Suc f)
  show ?case
  proof (cases "v \<ge> 0x80")
    case True
    have "(2::nat) ^ 7 < 2 ^ LENGTH('a)" using assms(3) by (intro power_strict_increasing) auto
    then have "take_bit LENGTH('a) (128 :: nat) = 128" by (simp add: take_bit_nat_eq_self)
    then have "unat (0x80 :: 'a word) = 128" by (simp add: unsigned_numeral)
    then have "128 \<le> unat v" using True by (simp add: word_le_nat_alt)
    then have "f \<noteq> 0" using Suc.prems by (cases f) auto
    moreover have "unat (drop_bit 7 v) < 2 ^ (7 * f)"
    proof -
      have "unat (drop_bit 7 v) = unat v div 2 ^ 7"
        unfolding unat_drop_bit_eq by (rule drop_bit_eq_div)
      moreover have "unat v < 2 ^ (7 * f) * 2 ^ 7"
        using Suc.prems(1) by (simp add: power_add mult.commute)
      ultimately show ?thesis by (simp only: less_mult_imp_div_less)
    qed
    ultimately show ?thesis using Suc.IH[of "drop_bit 7 v"] True by auto
  qed simp
qed simp

section \<open>Decoders that read back their own encoding\<close>

text \<open>
  A decoder returns the value and the number of bytes it consumed. On every encoded value it
  consumes exactly the encoding, whatever follows.
\<close>

locale prefix_codec =
  fixes ok :: "'a \<Rightarrow> bool" and enc :: "'a \<Rightarrow> byte list" and dec :: "byte list \<Rightarrow> ('a \<times> nat) option"
  assumes dec_enc: "ok a \<Longrightarrow> dec (enc a @ rest) = Some (a, length (enc a))"
begin

lemma dec_enc_only: "ok a \<Longrightarrow> dec (enc a) = Some (a, length (enc a))"
  using dec_enc[of a "[]"] by simp

lemma enc_prefix_free: "ok a \<Longrightarrow> ok b \<Longrightarrow> enc a @ r = enc b @ s \<Longrightarrow> a = b \<and> r = s"
  by (metis (no_types, lifting) dec_enc option.inject prod.inject same_append_eq)

lemma enc_inj: "inj_on enc {a. ok a}"
  by (rule inj_onI) (metis append_Nil2 enc_prefix_free mem_Collect_eq)

fun dec_list :: "nat \<Rightarrow> byte list \<Rightarrow> ('a list \<times> nat) option" where
  "dec_list 0 bs = Some ([], 0)"
| "dec_list (Suc n) bs =
     (case dec bs of None \<Rightarrow> None
      | Some (a, k) \<Rightarrow> (case dec_list n (drop k bs) of None \<Rightarrow> None
                        | Some (as, m) \<Rightarrow> Some (a # as, k + m)))"

lemma dec_list_concat:
  "\<forall>a \<in> set as. ok a \<Longrightarrow>
   dec_list (length as) (concat (map enc as) @ rest) = Some (as, length (concat (map enc as)))"
  by (induction as) (simp_all add: dec_enc)

lemma concat_enc_inj:
  "\<forall>a \<in> set as. ok a \<Longrightarrow> \<forall>b \<in> set bs. ok b \<Longrightarrow> length as = length bs \<Longrightarrow>
   concat (map enc as) = concat (map enc bs) \<Longrightarrow> as = bs"
  using dec_list_concat[of as "[]"] dec_list_concat[of bs "[]"] by auto

end

locale codec_pair =
  a: prefix_codec ok1 enc1 dec1 + b: prefix_codec ok2 enc2 dec2
  for ok1 :: "'a \<Rightarrow> bool" and enc1 dec1 and ok2 :: "'b \<Rightarrow> bool" and enc2 dec2
begin

definition enc_pair :: "'a \<times> 'b \<Rightarrow> byte list" where
  "enc_pair p = enc1 (fst p) @ enc2 (snd p)"

definition dec_pair :: "byte list \<Rightarrow> (('a \<times> 'b) \<times> nat) option" where
  "dec_pair bs =
     (case dec1 bs of None \<Rightarrow> None
      | Some (x, k) \<Rightarrow> (case dec2 (drop k bs) of None \<Rightarrow> None
                        | Some (y, m) \<Rightarrow> Some ((x, y), k + m)))"

lemma pair_rt: "ok1 (fst p) \<and> ok2 (snd p) \<Longrightarrow>
   dec_pair (enc_pair p @ rest) = Some (p, length (enc_pair p))"
  by (simp add: dec_pair_def enc_pair_def a.dec_enc b.dec_enc)

end

sublocale codec_pair \<subseteq> pair: prefix_codec "\<lambda>p. ok1 (fst p) \<and> ok2 (snd p)" enc_pair dec_pair
  by unfold_locales (rule pair_rt)

end
