(* ===== verification/Encoding.thy ===== *)
theory Encoding
  imports Codec_Base
begin

text \<open>
  The key and value encodings of \<open>mini-file-storage\<close> (\<open>encoding.h\<close>, \<open>encoding.c\<close>):
  variable length integers of 32 and 64 bits, big-endian integers, composite keys with
  escaped strings, and common prefixes. An output buffer is the list of the bytes written;
  an input range \<open>[p, end)\<close> is the list of its bytes, and a decoder's advance of \<open>p\<close> the
  number of bytes consumed.
\<close>

section \<open>Variable length integers\<close>

function varint32_encode :: "32 word \<Rightarrow> byte list" where
  "varint32_encode v =
     (if v \<ge> 0x80 then ucast ((v AND 0x7F) OR 0x80) # varint32_encode (drop_bit 7 v)
      else [ucast (v AND 0x7F)])"
  by pat_completeness auto
termination
proof (relation "measure unat")
  fix v :: "32 word"
  assume "v \<ge> 0x80"
  then have "unat v > 0" by (auto simp: word_le_nat_alt)
  moreover have "unat (drop_bit 7 v) = unat v div 2 ^ 7"
    unfolding unat_drop_bit_eq by (rule drop_bit_eq_div)
  ultimately show "(drop_bit 7 v, v) \<in> measure unat" by simp
qed simp

function varint64_encode :: "64 word \<Rightarrow> byte list" where
  "varint64_encode v =
     (if v \<ge> 0x80 then ucast ((v AND 0x7F) OR 0x80) # varint64_encode (drop_bit 7 v)
      else [ucast (v AND 0x7F)])"
  by pat_completeness auto
termination
proof (relation "measure unat")
  fix v :: "64 word"
  assume "v \<ge> 0x80"
  then have "unat v > 0" by (auto simp: word_le_nat_alt)
  moreover have "unat (drop_bit 7 v) = unat v div 2 ^ 7"
    unfolding unat_drop_bit_eq by (rule drop_bit_eq_div)
  ultimately show "(drop_bit 7 v, v) \<in> measure unat" by simp
qed simp

declare varint32_encode.simps [simp del] varint64_encode.simps [simp del]

text \<open>The decoding loop with the bytes read so far; \<open>None\<close> is the return value 0.\<close>

fun varint32_loop :: "nat \<Rightarrow> nat \<Rightarrow> 32 word \<Rightarrow> byte list \<Rightarrow> (32 word \<times> nat) option" where
  "varint32_loop bytes shift v [] = None"
| "varint32_loop bytes shift v (b # q) =
     (let v' = v OR push_bit shift (ucast (b AND 0x7F)) in
      if b AND 0x80 = 0 then Some (v', Suc bytes)
      else if Suc bytes \<ge> 5 then None
      else varint32_loop (Suc bytes) (shift + 7) v' q)"

definition varint32_decode :: "byte list \<Rightarrow> (32 word \<times> nat) option" where
  "varint32_decode q = varint32_loop 0 0 0 q"

fun varint64_loop :: "nat \<Rightarrow> nat \<Rightarrow> 64 word \<Rightarrow> byte list \<Rightarrow> (64 word \<times> nat) option" where
  "varint64_loop bytes shift v [] = None"
| "varint64_loop bytes shift v (b # q) =
     (let v' = v OR push_bit shift (ucast (b AND 0x7F)) in
      if b AND 0x80 = 0 then Some (v', Suc bytes)
      else if Suc bytes \<ge> 10 then None
      else varint64_loop (Suc bytes) (shift + 7) v' q)"

definition varint64_decode :: "byte list \<Rightarrow> (64 word \<times> nat) option" where
  "varint64_decode q = varint64_loop 0 0 0 q"

section \<open>Big-endian integers\<close>

definition int32_be_encode :: "32 word \<Rightarrow> byte list" where
  "int32_be_encode val =
     [ucast (drop_bit 24 val AND 0xFF), ucast (drop_bit 16 val AND 0xFF),
      ucast (drop_bit 8 val AND 0xFF), ucast (val AND 0xFF)]"

definition int32_be_decode :: "byte list \<Rightarrow> 32 word" where
  "int32_be_decode buf =
     push_bit 24 (ucast (buf ! 0)) OR push_bit 16 (ucast (buf ! 1)) OR
     push_bit 8 (ucast (buf ! 2)) OR ucast (buf ! 3)"

definition int64_be_encode :: "64 word \<Rightarrow> byte list" where
  "int64_be_encode val =
     [ucast (drop_bit 56 val AND 0xFF), ucast (drop_bit 48 val AND 0xFF),
      ucast (drop_bit 40 val AND 0xFF), ucast (drop_bit 32 val AND 0xFF),
      ucast (drop_bit 24 val AND 0xFF), ucast (drop_bit 16 val AND 0xFF),
      ucast (drop_bit 8 val AND 0xFF), ucast (val AND 0xFF)]"

definition int64_be_decode :: "byte list \<Rightarrow> 64 word" where
  "int64_be_decode buf =
     push_bit 56 (ucast (buf ! 0)) OR push_bit 48 (ucast (buf ! 1)) OR
     push_bit 40 (ucast (buf ! 2)) OR push_bit 32 (ucast (buf ! 3)) OR
     push_bit 24 (ucast (buf ! 4)) OR push_bit 16 (ucast (buf ! 5)) OR
     push_bit 8 (ucast (buf ! 6)) OR ucast (buf ! 7)"

section \<open>Composite keys\<close>

definition COMPOSITE_KEY_MAX_PARTS :: nat where [c_consts]: "COMPOSITE_KEY_MAX_PARTS = 4"

record composite_key_builder =
  parts :: "byte list list"

definition composite_key_init :: "composite_key_builder \<Rightarrow> composite_key_builder" where
  "composite_key_init b = \<lparr> parts = [] \<rparr>"

definition add_bytes :: "bool \<Rightarrow> byte list \<Rightarrow> composite_key_builder \<Rightarrow> int \<times> composite_key_builder" where
  "add_bytes mem data b =
     (if length (parts b) \<ge> COMPOSITE_KEY_MAX_PARTS then (-1, b)
      else if \<not> mem then (-1, b)
      else (0, b\<lparr> parts := parts b @ [data] \<rparr>))"

definition composite_key_add_part ::
  "bool \<Rightarrow> composite_key_builder \<Rightarrow> byte list option \<Rightarrow> int \<times> composite_key_builder" where
  "composite_key_add_part mem b data_opt =
     (case data_opt of None \<Rightarrow> (-1, b) | Some data \<Rightarrow> add_bytes mem data b)"

definition composite_key_add_uint32 ::
  "bool \<Rightarrow> composite_key_builder \<Rightarrow> 32 word \<Rightarrow> int \<times> composite_key_builder" where
  "composite_key_add_uint32 mem b v = add_bytes mem (int32_be_encode v) b"

fun escape_bytes :: "byte list \<Rightarrow> byte list" where
  "escape_bytes [] = []"
| "escape_bytes (c # cs) =
     (if c = 0x00 then [0x00, 0xFF] else if c = 0xFF then [0xFF, 0xFF] else [c]) @ escape_bytes cs"

definition composite_key_add_string ::
  "bool \<Rightarrow> composite_key_builder \<Rightarrow> byte list option \<Rightarrow> int \<times> composite_key_builder" where
  "composite_key_add_string mem b str_opt =
     (case str_opt of None \<Rightarrow> (-1, b) | Some str \<Rightarrow> add_bytes mem (escape_bytes str) b)"

fun join_parts :: "byte list list \<Rightarrow> byte list" where
  "join_parts [] = []"
| "join_parts (p # ps) = p @ concat (map (\<lambda>q. 0x00 # q) ps)"

definition composite_key_build :: "composite_key_builder \<Rightarrow> byte list \<times> composite_key_builder" where
  "composite_key_build b = (join_parts (parts b), b\<lparr> parts := [] \<rparr>)"

section \<open>Common prefixes\<close>

fun common_prefix_len :: "byte list \<Rightarrow> byte list \<Rightarrow> nat" where
  "common_prefix_len (a # as) (b # bs) = (if a = b then Suc (common_prefix_len as bs) else 0)"
| "common_prefix_len as bs = 0"

text \<open>Keys are looked up by index; an index past the array is undefined behaviour.\<close>

definition common_prefix_skip :: "byte list list \<Rightarrow> nat \<Rightarrow> nat \<Rightarrow> nat \<Rightarrow> nat outcome" where
  "common_prefix_skip keys from to max_gap =
     (if to \<le> from \<or> to - from > max_gap then
        (if to > 0 then
           (if to < length keys then Done (common_prefix_len (keys ! (to - 1)) (keys ! to))
            else Undefined)
         else Done 0)
      else if to < length keys then Done (common_prefix_len (keys ! from) (keys ! to))
      else Undefined)"

section \<open>Varints are codecs\<close>

lemma varint32_encode_put7: "put7 f v = Some bs \<Longrightarrow> varint32_encode v = bs"
proof (induction f arbitrary: v bs)
  case (Suc f)
  then show ?case by (subst varint32_encode.simps) (auto split: if_splits)
qed simp

lemma varint64_encode_put7: "put7 f v = Some bs \<Longrightarrow> varint64_encode v = bs"
proof (induction f arbitrary: v bs)
  case (Suc f)
  then show ?case by (subst varint64_encode.simps) (auto split: if_splits)
qed simp

lemma varint32_loop_get7:
  "n + f = 5 \<Longrightarrow> 0 < f \<Longrightarrow>
   varint32_loop n s acc q = map_option (\<lambda>(v, k). (v, n + k)) (get7 f s acc q)"
proof (induction f arbitrary: n s acc q)
  case (Suc f)
  show ?case
  proof (cases q)
    case (Cons b q')
    show ?thesis
    proof (cases "b AND 0x80 = 0 \<or> f = 0")
      case True
      with Cons Suc.prems show ?thesis by (auto simp: Let_def)
    next
      case False
      then have "Suc n + f = 5" "0 < f" "\<not> Suc n \<ge> 5" using Suc.prems by auto
      with Suc.IH[of "Suc n"] False Cons show ?thesis
        by (simp add: Let_def option.map_comp comp_def case_prod_beta)
    qed
  qed simp
qed simp

lemma varint64_loop_get7:
  "n + f = 10 \<Longrightarrow> 0 < f \<Longrightarrow>
   varint64_loop n s acc q = map_option (\<lambda>(v, k). (v, n + k)) (get7 f s acc q)"
proof (induction f arbitrary: n s acc q)
  case (Suc f)
  show ?case
  proof (cases q)
    case (Cons b q')
    show ?thesis
    proof (cases "b AND 0x80 = 0 \<or> f = 0")
      case True
      with Cons Suc.prems show ?thesis by (auto simp: Let_def)
    next
      case False
      then have "Suc n + f = 10" "0 < f" "\<not> Suc n \<ge> 10" using Suc.prems by auto
      with Suc.IH[of "Suc n"] False Cons show ?thesis
        by (simp add: Let_def option.map_comp comp_def case_prod_beta)
    qed
  qed simp
qed simp

lemma put7_32: "\<exists>bs. put7 5 (v :: 32 word) = Some bs"
proof (rule put7_total)
  have "unat v < 2 ^ LENGTH(32)" by (rule unsigned_less)
  then show "unat v < 2 ^ (7 * 5)" by simp
qed simp_all

lemma put7_64: "\<exists>bs. put7 10 (v :: 64 word) = Some bs"
proof (rule put7_total)
  have "unat v < 2 ^ LENGTH(64)" by (rule unsigned_less)
  then show "unat v < 2 ^ (7 * 10)" by simp
qed simp_all

lemma varint32_rt: "varint32_decode (varint32_encode v @ rest) = Some (v, length (varint32_encode v))"
proof -
  obtain bs where bs: "put7 5 v = Some bs" using put7_32 by blast
  then show ?thesis
    using get7_put7[OF bs, of 0 0 rest] varint32_loop_get7[of 0 5 0 0 "bs @ rest"]
    by (simp add: varint32_decode_def varint32_encode_put7[OF bs])
qed

lemma varint64_rt: "varint64_decode (varint64_encode v @ rest) = Some (v, length (varint64_encode v))"
proof -
  obtain bs where bs: "put7 10 v = Some bs" using put7_64 by blast
  then show ?thesis
    using get7_put7[OF bs, of 0 0 rest] varint64_loop_get7[of 0 10 0 0 "bs @ rest"]
    by (simp add: varint64_decode_def varint64_encode_put7[OF bs])
qed

interpretation varint32: prefix_codec "\<lambda>_. True" varint32_encode varint32_decode
  by unfold_locales (rule varint32_rt)

interpretation varint64: prefix_codec "\<lambda>_. True" varint64_encode varint64_decode
  by unfold_locales (rule varint64_rt)

lemma varint32_length: "0 < length (varint32_encode v) \<and> length (varint32_encode v) \<le> 5"
  using put7_32[of v] put7_length[of 5 v] varint32_encode_put7[of 5 v] by auto

lemma varint64_length: "0 < length (varint64_encode v) \<and> length (varint64_encode v) \<le> 10"
  using put7_64[of v] put7_length[of 10 v] varint64_encode_put7[of 10 v] by auto

section \<open>Big-endian integers are codecs and keep the order\<close>

lemma and_FF: "ucast (w AND 0xFF) = (ucast w :: byte)" for w :: "'a::len word"
proof -
  have m: "(0xFF :: 'a word) = mask 8" by (simp add: mask_eq_exp_minus_1)
  show ?thesis unfolding m by (rule bit_word_eqI) (auto simp: bit_simps dest: bit_imp_le_length)
qed

lemma int32_be_encode_eq: "int32_be_encode v = be_bytes 4 v"
  by (simp add: int32_be_encode_def and_FF be_bytes_def numeral_eq_Suc)

lemma int64_be_encode_eq: "int64_be_encode v = be_bytes 8 v"
  by (simp add: int64_be_encode_def and_FF be_bytes_def numeral_eq_Suc)


lemma int32_be_decode_eq:
  "length buf \<ge> 4 \<Longrightarrow> int32_be_decode buf = be_value (take 4 buf)"
  by (auto simp: int32_be_decode_def be_value_def numeral_eq_Suc Suc_le_length_iff or.assoc or.commute
      or.left_commute push_bit_or)

lemma int64_be_decode_eq:
  "length buf \<ge> 8 \<Longrightarrow> int64_be_decode buf = be_value (take 8 buf)"
  by (auto simp: int64_be_decode_def be_value_def numeral_eq_Suc Suc_le_length_iff or.assoc or.commute
      or.left_commute push_bit_or)

definition be32_read :: "byte list \<Rightarrow> (32 word \<times> nat) option" where
  "be32_read bs = (if length bs \<ge> 4 then Some (int32_be_decode bs, 4) else None)"

definition be64_read :: "byte list \<Rightarrow> (64 word \<times> nat) option" where
  "be64_read bs = (if length bs \<ge> 8 then Some (int64_be_decode bs, 8) else None)"

interpretation be32: prefix_codec "\<lambda>_. True" int32_be_encode be32_read
  by unfold_locales
    (simp add: be32_read_def int32_be_decode_eq int32_be_encode_eq be_value_full)

interpretation be64: prefix_codec "\<lambda>_. True" int64_be_encode be64_read
  by unfold_locales
    (simp add: be64_read_def int64_be_decode_eq int64_be_encode_eq be_value_full)

text \<open>The order of \<open>memcmp\<close> on byte sequences of the same length.\<close>

abbreviation mem_less :: "byte list \<Rightarrow> byte list \<Rightarrow> bool" where
  "mem_less xs ys \<equiv> (xs, ys) \<in> lexord {(a, b). a < b}"

fun be_num :: "byte list \<Rightarrow> nat" where
  "be_num [] = 0"
| "be_num (b # bs) = unat b * 256 ^ length bs + be_num bs"

lemma byte_less: "unat (b :: byte) < 256"
proof -
  have "unat b < 2 ^ LENGTH(8)" by (rule unsigned_less)
  then show ?thesis by simp
qed

lemma be_num_less: "be_num bs < 256 ^ length bs"
proof (induction bs)
  case (Cons b bs)
  have "unat b * 256 ^ length bs + be_num bs < (unat b + 1) * 256 ^ length bs"
    using Cons by simp
  also have "\<dots> \<le> 256 * 256 ^ length bs"
    using byte_less[of b] by (intro mult_le_mono1) simp
  finally show ?case by simp
qed simp

lemma mem_less_num:
  "length xs = length ys \<Longrightarrow> mem_less xs ys \<longleftrightarrow> be_num xs < be_num ys"
proof (induction xs ys rule: list_induct2)
  case (Cons x xs y ys)
  let ?k = "256 ^ length ys :: nat"
  have less: "unat a * ?k + m < unat b * ?k + n" if "a < b" "m < ?k" for a b :: byte and m n
  proof -
    have "unat a + 1 \<le> unat b" using that(1) by (simp add: word_less_nat_alt)
    then have "(unat a + 1) * ?k \<le> unat b * ?k" by (rule mult_le_mono1)
    with that(2) show ?thesis by simp
  qed
  have bx: "be_num xs < ?k" and by': "be_num ys < ?k"
    using be_num_less[of xs] be_num_less[of ys] Cons.hyps by simp_all
  show ?case
    using Cons less[of x y "be_num xs" "be_num ys"] less[of y x "be_num ys" "be_num xs"] bx by'
    by (cases x y rule: linorder_cases) auto
qed simp

lemma be_num_snoc: "be_num (bs @ [b]) = be_num bs * 256 + unat b"
  by (induction bs) (simp_all add: algebra_simps)

lemma be_num_le_bytes: "be_num (rev (le_bytes n w)) = unat (w :: 'a::len word) mod 256 ^ n"
proof (induction n arbitrary: w)
  case (Suc n)
  have d: "unat (drop_bit 8 w) = unat w div 256"
    using drop_bit_eq_div[of 8 "unat w"] by (simp add: unat_drop_bit_eq del: drop_bit_eq_div)
  have u: "unat (ucast w :: byte) = unat w mod 256"
    by (simp add: unsigned_ucast_eq take_bit_eq_mod)
  show ?case
    using mod_mult2_eq[of "unat w" 256 "256 ^ n"]
    by (simp add: be_num_snoc Suc d u del: drop_bit_eq_div)
qed (simp add: mod_Suc)

lemma be_num_be_bytes: "LENGTH('a) \<le> 8 * n \<Longrightarrow> be_num (be_bytes n w) = unat (w :: 'a::len word)"
proof -
  assume "LENGTH('a) \<le> 8 * n"
  then have "(2::nat) ^ LENGTH('a) \<le> 2 ^ (8 * n)" by (intro power_increasing) auto
  also have "(2::nat) ^ (8 * n) = 256 ^ n" by (simp add: power_mult)
  finally have "unat w < 256 ^ n" using less_le_trans[OF unsigned_less[of w]] by blast
  then show ?thesis by (simp add: be_bytes_def be_num_le_bytes)
qed

section \<open>Composite keys and prefixes\<close>

lemma common_prefix_len_spec:
  "take (common_prefix_len as bs) as = take (common_prefix_len as bs) bs \<and>
   common_prefix_len as bs \<le> min (length as) (length bs) \<and>
   (common_prefix_len as bs < min (length as) (length bs) \<longrightarrow>
      as ! common_prefix_len as bs \<noteq> bs ! common_prefix_len as bs)"
  by (induction as bs rule: common_prefix_len.induct) auto

lemma composite_key_capacity:
  "length (parts b) \<le> COMPOSITE_KEY_MAX_PARTS \<Longrightarrow>
   length (parts (snd (add_bytes mem data b))) \<le> COMPOSITE_KEY_MAX_PARTS"
  by (simp add: add_bytes_def)

text \<open>
  The escape doubles the bytes 0x00 and 0xFF, but the separator between components is the
  bare byte 0x00: a component that starts with 0xFF after the separator compares above the
  escape of a longer first component, so composite keys do not sort as their tuples.
\<close>

lemma composite_order_broken:
  "mem_less [0x61] [0x61, 0x00] \<and>
   \<not> mem_less (join_parts [escape_bytes [0x61], escape_bytes [0xFF, 0xFF]])
              (join_parts [escape_bytes [0x61, 0x00], escape_bytes []])"
  by simp


section \<open>Properties\<close>

text \<open>
  The fixed-width keys round-trip and sort as the integers they encode: comparing the
  four (or eight) bytes as \<open>memcmp\<close> does is comparing the unsigned integers; and the
  variable-length integers decode to themselves with any bytes following, in at most five
  (ten) bytes.
\<close>

theorem fixed_width_keys_ordered:
  "int32_be_decode (int32_be_encode v) = v \<and> int64_be_decode (int64_be_encode x) = x \<and>
   (mem_less (int32_be_encode v) (int32_be_encode w) \<longleftrightarrow> v < w) \<and>
   (mem_less (int64_be_encode x) (int64_be_encode y) \<longleftrightarrow> x < y) \<and>
   varint32_decode (varint32_encode v @ rest) = Some (v, length (varint32_encode v)) \<and>
   length (varint32_encode v) \<le> 5 \<and>
   varint64_decode (varint64_encode x @ rest) = Some (x, length (varint64_encode x)) \<and>
   length (varint64_encode x) \<le> 10"
proof (intro conjI)
  show "int32_be_decode (int32_be_encode v) = v"
    using be32.dec_enc_only[of v] by (simp add: be32_read_def split: if_splits)
  show "int64_be_decode (int64_be_encode x) = x"
    using be64.dec_enc_only[of x] by (simp add: be64_read_def split: if_splits)
  show "mem_less (int32_be_encode v) (int32_be_encode w) \<longleftrightarrow> v < w"
    using mem_less_num[of "be_bytes 4 v" "be_bytes 4 w"]
    by (simp add: int32_be_encode_eq be_num_be_bytes word_less_nat_alt[of v w])
  show "mem_less (int64_be_encode x) (int64_be_encode y) \<longleftrightarrow> x < y"
    using mem_less_num[of "be_bytes 8 x" "be_bytes 8 y"]
    by (simp add: int64_be_encode_eq be_num_be_bytes word_less_nat_alt[of x y])
qed (use varint32_rt varint64_rt varint32_length varint64_length in simp_all)

end
