(* ===== verification/Message_Codec.thy ===== *)
theory Message_Codec
  imports Codec_Base
begin

text \<open>
  The message codec of \<open>mini-message-stream\<close> (\<open>message_codec.h\<close>, \<open>message_codec.c\<close>):
  variable length integers with ZigZag, the table-driven checksum, the envelope of one
  message, the batch of messages and the run-length compression. An output buffer of size
  \<open>out_max\<close> is the list of the bytes written so far; writing past it, or reading past a
  buffer, is \<open>Undefined\<close>. Integers are words of the width of the C type, read with \<open>sint\<close>
  where the type is signed.
\<close>

definition MAX_VARINT_BYTES :: nat where [c_consts]: "MAX_VARINT_BYTES = 10"
definition CRC32C_POLY :: "32 word" where [c_consts]: "CRC32C_POLY = 0x1EDC6F41"

datatype compression_type =
    COMPRESSION_NONE | COMPRESSION_GZIP | COMPRESSION_SNAPPY | COMPRESSION_LZ4 | COMPRESSION_ZSTD

record message_envelope =
  magic_byte :: byte
  attributes :: byte
  env_timestamp :: "64 word"
  key_length :: "32 word"
  env_key :: "byte list option"
  value_length :: "32 word"
  env_value :: "byte list option"
  headers_length :: "32 word"
  env_headers :: "byte list option"

record message_set =
  ms_base_offset :: "64 word"
  batch_length :: "32 word"
  partition_leader_epoch :: "32 word"
  ms_magic :: byte
  ms_crc :: "32 word"
  ms_attributes :: byte
  last_offset_delta :: "32 word"
  first_timestamp :: "64 word"
  ms_max_timestamp :: "64 word"
  producer_id :: "32 word"
  producer_epoch :: "16 word"
  base_sequence :: "32 word"
  record_count :: "32 word"
  ms_records :: "message_envelope list"

section \<open>Variable length integers\<close>

text \<open>The loop with the number of bytes written; the check against ten bytes is in the loop.\<close>

function varint_encode_loop :: "nat \<Rightarrow> 32 word \<Rightarrow> byte list option" where
  "varint_encode_loop i v =
     (if v \<ge> 0x80 then
        (if Suc i \<ge> MAX_VARINT_BYTES then None
         else map_option ((#) (ucast ((v AND 0x7F) OR 0x80))) (varint_encode_loop (Suc i) (drop_bit 7 v)))
      else Some [ucast (v AND 0x7F)])"
  by pat_completeness auto
termination by (relation "measure (\<lambda>(i, v). MAX_VARINT_BYTES - i)") auto

declare varint_encode_loop.simps [simp del]

definition varint_encode_u32 :: "32 word \<Rightarrow> byte list option" where
  "varint_encode_u32 v = varint_encode_loop 0 v"

fun varint_decode_loop :: "nat \<Rightarrow> nat \<Rightarrow> 32 word \<Rightarrow> byte list \<Rightarrow> (32 word \<times> nat) option" where
  "varint_decode_loop i shift result [] = None"
| "varint_decode_loop i shift result (b # bs) =
     (if i \<ge> MAX_VARINT_BYTES then None
      else
        (let result' = result OR push_bit shift (ucast (b AND 0x7F)) in
         if b AND 0x80 = 0 then Some (result', Suc i)
         else if shift + 7 \<ge> 32 then None
         else varint_decode_loop (Suc i) (shift + 7) result' bs))"

definition varint_decode_u32 :: "byte list \<Rightarrow> (32 word \<times> nat) option" where
  "varint_decode_u32 bs = (if bs = [] then None else varint_decode_loop 0 0 0 bs)"

text \<open>The conversion to 32 bits before encoding drops the upper half of the ZigZag value.\<close>

definition zigzag :: "64 word \<Rightarrow> 64 word" where
  "zigzag v = push_bit 1 v XOR signed_drop_bit 63 v"

definition unzigzag :: "64 word \<Rightarrow> 64 word" where
  "unzigzag z = drop_bit 1 z XOR - (z AND 1)"

definition varint_encode_i64 :: "64 word \<Rightarrow> byte list option" where
  "varint_encode_i64 v = varint_encode_u32 (ucast (zigzag v))"

definition varint_decode_i64 :: "byte list \<Rightarrow> (64 word \<times> nat) option" where
  "varint_decode_i64 bs =
     (case varint_decode_u32 bs of None \<Rightarrow> None
      | Some (uval, consumed) \<Rightarrow> Some (unzigzag (ucast uval), consumed))"

section \<open>Checksum\<close>

definition crc_step :: "32 word \<Rightarrow> 32 word" where
  "crc_step r = (if r AND 1 \<noteq> 0 then drop_bit 1 r XOR CRC32C_POLY else drop_bit 1 r)"

definition crc32c_table :: "32 word list" where
  "crc32c_table = map (\<lambda>i. (crc_step ^^ 8) (word_of_nat i)) [0..<256]"

definition crc_update :: "32 word \<Rightarrow> byte \<Rightarrow> 32 word" where
  "crc_update crc b = crc32c_table ! unat ((crc XOR ucast b) AND 0xFF) XOR drop_bit 8 crc"

definition crc32c_compute :: "byte list \<Rightarrow> 32 word" where
  "crc32c_compute data = foldl crc_update 0xFFFFFFFF data XOR 0xFFFFFFFF"

definition crc32c_append :: "32 word \<Rightarrow> byte list \<Rightarrow> 32 word" where
  "crc32c_append prev_crc data = foldl crc_update (prev_crc XOR 0xFFFFFFFF) data XOR 0xFFFFFFFF"

definition crc32c_verify :: "byte list \<Rightarrow> 32 word \<Rightarrow> int" where
  "crc32c_verify data expected = (if crc32c_compute data = expected then 0 else -1)"

section \<open>Envelopes\<close>

definition message_envelope_init :: message_envelope where
  "message_envelope_init =
     \<lparr> magic_byte = 2, attributes = 0, env_timestamp = 0, key_length = 0, env_key = None,
       value_length = 0, env_value = None, headers_length = 0, env_headers = None \<rparr>"

text \<open>
  One length-prefixed field: the length is written before any check, then the end of the
  field is compared with the size of the buffer, then the bytes are copied.
\<close>

definition put_field :: "int \<Rightarrow> 32 word \<Rightarrow> byte list option \<Rightarrow> byte list \<Rightarrow> byte list outcome" where
  "put_field out_max len data out =
     (case varint_encode_u32 len of None \<Rightarrow> Failed
      | Some n \<Rightarrow>
          (let out1 = out @ n in
           if int (length out1) > out_max then Undefined
           else if int (length out1) + sint len > out_max then Failed
           else
             (case data of
                Some d \<Rightarrow>
                  if sint len > 0 then
                    (if length d < nat (sint len) then Undefined
                     else Done (out1 @ take (nat (sint len)) d))
                  else Done out1
              | None \<Rightarrow> Done out1)))"

definition timestamp_bytes :: "64 word \<Rightarrow> byte list" where
  "timestamp_bytes t =
     [ucast (drop_bit 56 t AND 0xFF), ucast (drop_bit 48 t AND 0xFF),
      ucast (drop_bit 40 t AND 0xFF), ucast (drop_bit 32 t AND 0xFF),
      ucast (drop_bit 24 t AND 0xFF), ucast (drop_bit 16 t AND 0xFF),
      ucast (drop_bit 8 t AND 0xFF), ucast (t AND 0xFF)]"

definition message_envelope_serialize :: "message_envelope \<Rightarrow> int \<Rightarrow> byte list outcome" where
  "message_envelope_serialize env out_max =
     (if out_max < 14 then Failed
      else
        bind_outcome (put_field out_max (key_length env) (env_key env)
                        ([magic_byte env, attributes env] @ timestamp_bytes (env_timestamp env)))
          (\<lambda>out. bind_outcome (put_field out_max (value_length env) (env_value env) out)
             (put_field out_max (headers_length env) (env_headers env))))"

text \<open>
  Reading a field at position \<open>pos\<close>: its length, its bytes (absent when the length is not
  positive, when it runs past the input, or when the allocation fails), and the position
  after it.
\<close>

definition get_field :: "bool \<Rightarrow> byte list \<Rightarrow> nat \<Rightarrow> (32 word \<times> byte list option \<times> nat) option" where
  "get_field mem bs pos =
     (case varint_decode_u32 (drop pos bs) of None \<Rightarrow> None
      | Some (ulen, n) \<Rightarrow>
          (let pos1 = pos + n in
           if sint ulen > 0 \<and> int pos1 + sint ulen \<le> int (length bs)
           then Some (ulen, if mem then Some (take (nat (sint ulen)) (drop pos1 bs)) else None,
                      pos1 + nat (sint ulen))
           else Some (ulen, None, pos1)))"

text \<open>The position after the headers' length, not after the headers, is the result \<open>consumed\<close>.\<close>

definition message_envelope_deserialize ::
  "bool \<Rightarrow> byte list \<Rightarrow> (message_envelope \<times> nat) option" where
  "message_envelope_deserialize mem bs =
     (if length bs < 10 then None
      else
        (let t = push_bit 56 (ucast (bs ! 2)) OR push_bit 48 (ucast (bs ! 3)) OR
                 push_bit 40 (ucast (bs ! 4)) OR push_bit 32 (ucast (bs ! 5)) OR
                 push_bit 24 (ucast (bs ! 6)) OR push_bit 16 (ucast (bs ! 7)) OR
                 push_bit 8 (ucast (bs ! 8)) OR ucast (bs ! 9)
         in case get_field mem bs 10 of None \<Rightarrow> None
            | Some (klen, k, pos1) \<Rightarrow>
                (case get_field mem bs pos1 of None \<Rightarrow> None
                 | Some (vlen, v, pos2) \<Rightarrow>
                     (case varint_decode_u32 (drop pos2 bs) of None \<Rightarrow> None
                      | Some (hlen, n) \<Rightarrow>
                          (let pos3 = pos2 + n;
                               h = (if sint hlen > 0 \<and> int pos3 + sint hlen \<le> int (length bs) \<and> mem
                                    then Some (take (nat (sint hlen)) (drop pos3 bs)) else None)
                           in Some (\<lparr> magic_byte = bs ! 0, attributes = bs ! 1, env_timestamp = t,
                                      key_length = klen, env_key = k,
                                      value_length = vlen, env_value = v,
                                      headers_length = hlen, env_headers = h \<rparr>, pos3))))))"

definition message_envelope_validate_header :: "byte list \<Rightarrow> int" where
  "message_envelope_validate_header data =
     (if length data < 2 then -1
      else if data ! 0 > 2 then -1
      else if data ! 1 AND 0xF0 \<noteq> 0 then -1
      else 0)"

section \<open>Batches\<close>

definition messageset_create :: "bool \<Rightarrow> 64 word \<Rightarrow> message_set option" where
  "messageset_create mem base =
     (if \<not> mem then None
      else Some \<lparr> ms_base_offset = base, batch_length = 0, partition_leader_epoch = 0, ms_magic = 2,
                  ms_crc = 0, ms_attributes = 0, last_offset_delta = 0, first_timestamp = 0,
                  ms_max_timestamp = 0, producer_id = 0, producer_epoch = 0, base_sequence = 0,
                  record_count = 0, ms_records = [] \<rparr>)"

text \<open>The deep copy of a field: the bytes named by its length, when there are any.\<close>

definition copy_field :: "32 word \<Rightarrow> byte list option \<Rightarrow> byte list option" where
  "copy_field len data =
     (case data of None \<Rightarrow> None
      | Some d \<Rightarrow> if sint len > 0 then Some (take (nat (sint len)) d) else None)"

definition copy_envelope :: "message_envelope \<Rightarrow> message_envelope" where
  "copy_envelope env =
     \<lparr> magic_byte = magic_byte env, attributes = attributes env, env_timestamp = env_timestamp env,
       key_length = key_length env, env_key = copy_field (key_length env) (env_key env),
       value_length = value_length env, env_value = copy_field (value_length env) (env_value env),
       headers_length = headers_length env,
       env_headers = copy_field (headers_length env) (env_headers env) \<rparr>"

definition messageset_add_record :: "bool \<Rightarrow> message_set \<Rightarrow> message_envelope \<Rightarrow> int \<times> message_set" where
  "messageset_add_record mem ms env =
     (if \<not> mem then (-1, ms)
      else
        (let count = record_count ms + 1;
             t = env_timestamp env;
             (ft, mt) = (if count = 1 then (t, t)
                         else (if sint t < sint (first_timestamp ms) then t else first_timestamp ms,
                               if sint t > sint (ms_max_timestamp ms) then t else ms_max_timestamp ms))
         in (0, ms\<lparr> ms_records := ms_records ms @ [copy_envelope env], record_count := count,
                   first_timestamp := ft, ms_max_timestamp := mt,
                   last_offset_delta := count - 1 \<rparr>)))"

text \<open>
  The records area: each envelope is serialised into a buffer of 4096 bytes and copied to
  the position \<open>pos\<close>.
\<close>

fun serialize_records :: "int \<Rightarrow> nat \<Rightarrow> message_envelope list \<Rightarrow> byte list outcome" where
  "serialize_records out_max pos [] = Done []"
| "serialize_records out_max pos (r # rs) =
     bind_outcome (message_envelope_serialize r 4096) (\<lambda>rec_buf.
       if int (pos + length rec_buf) > out_max then Failed
       else bind_outcome (serialize_records out_max (pos + length rec_buf) rs)
              (\<lambda>rest. Done (rec_buf @ rest)))"

text \<open>
  The header is little-endian. The producer id is a 32 bit integer whose last four bytes are
  shifts by 32 and more, which C does not define: those bytes are the parameter \<open>ub\<close>. The
  checksum covers everything after its own field, the batch length everything after its own.
\<close>

definition header_tail :: "byte list \<Rightarrow> message_set \<Rightarrow> byte list" where
  "header_tail ub ms =
     [ms_attributes ms, 0] @ le_bytes 4 (last_offset_delta ms) @
     le_bytes 8 (first_timestamp ms) @ le_bytes 8 (ms_max_timestamp ms) @
     le_bytes 4 (producer_id ms) @ ub @
     le_bytes 2 (producer_epoch ms) @ le_bytes 4 (base_sequence ms) @ le_bytes 4 (record_count ms)"

definition messageset_serialize :: "byte list \<Rightarrow> message_set \<Rightarrow> int \<Rightarrow> byte list outcome" where
  "messageset_serialize ub ms out_max =
     (if out_max < 61 then Failed
      else if nat (sint (record_count ms)) > length (ms_records ms) then Undefined
      else
        bind_outcome (serialize_records out_max 61 (take (nat (sint (record_count ms))) (ms_records ms)))
          (\<lambda>recs.
             (let after_crc = header_tail ub ms @ recs;
                  pos = 21 + length after_crc;
                  batch_len = word_of_nat (pos - 12) :: 32 word
              in Done (le_bytes 8 (ms_base_offset ms) @ le_bytes 4 batch_len @
                       le_bytes 4 (partition_leader_epoch ms) @ [ms_magic ms] @
                       le_bytes 4 (crc32c_compute after_crc) @ after_crc))))"

fun deserialize_records :: "bool \<Rightarrow> nat \<Rightarrow> byte list \<Rightarrow> message_envelope list option" where
  "deserialize_records mem 0 bs = Some []"
| "deserialize_records mem (Suc n) bs =
     (case message_envelope_deserialize mem bs of None \<Rightarrow> None
      | Some (env, consumed) \<Rightarrow>
          (case deserialize_records mem n (drop consumed bs) of None \<Rightarrow> None
           | Some envs \<Rightarrow> Some (env # envs)))"

text \<open>
  The batch length is read and dropped, so the caller's field keeps its value; the checksum
  is stored and never compared.
\<close>

definition messageset_deserialize :: "bool \<Rightarrow> byte list \<Rightarrow> message_set \<Rightarrow> message_set option" where
  "messageset_deserialize mem bs out_ms =
     (if length bs < 61 then None
      else
        (let rec_count = le_value (take 4 (drop 57 bs)) :: 32 word;
             recs = (if sint rec_count > 0
                     then (if mem then deserialize_records mem (nat (sint rec_count)) (drop 61 bs)
                           else None)
                     else Some [])
         in case recs of None \<Rightarrow> None
            | Some envs \<Rightarrow>
                Some (out_ms\<lparr>
                  ms_base_offset := le_value (take 8 bs),
                  partition_leader_epoch := le_value (take 4 (drop 12 bs)),
                  ms_magic := bs ! 16,
                  ms_crc := le_value (take 4 (drop 17 bs)),
                  ms_attributes := bs ! 21,
                  last_offset_delta := le_value (take 4 (drop 23 bs)),
                  first_timestamp := le_value (take 8 (drop 27 bs)),
                  ms_max_timestamp := le_value (take 8 (drop 35 bs)),
                  producer_id := le_value (take 4 (drop 43 bs)),
                  producer_epoch := le_value (take 2 (drop 51 bs)),
                  base_sequence := le_value (take 4 (drop 53 bs)),
                  record_count := rec_count,
                  ms_records := envs \<rparr>)))"

section \<open>Compression\<close>

text \<open>
  The length of the run at the head of the input, at most 255.
\<close>

definition run_length :: "byte list \<Rightarrow> nat" where
  "run_length xs = length (takeWhile (\<lambda>x. x = hd xs) (take 255 xs))"

function compress_loop :: "nat \<Rightarrow> nat \<Rightarrow> byte list \<Rightarrow> byte list" where
  "compress_loop out_max opos xs =
     (if xs \<noteq> [] \<and> opos + 2 \<le> out_max then
        (let run_len = run_length xs in
         if run_len > 1 \<or> run_len = length xs \<or> opos + 3 > out_max
         then [word_of_nat run_len OR 0x80, hd xs] @ compress_loop out_max (opos + 2) (drop run_len xs)
         else hd xs # compress_loop out_max (opos + 1) (tl xs))
      else [])"
  by pat_completeness auto
termination
proof (relation "measure (\<lambda>(out_max, opos, xs). length xs)")
  fix out_max opos x and xs :: "byte list"
  assume "xs \<noteq> [] \<and> opos + 2 \<le> out_max" "x = run_length xs"
  moreover from this have "0 < run_length xs" by (cases xs) (simp_all add: run_length_def)
  ultimately show "((out_max, opos + 2, drop x xs), out_max, opos, xs)
      \<in> measure (\<lambda>(out_max, opos, xs). length xs)" by simp
qed auto

declare compress_loop.simps [simp del]

definition compress_rle :: "byte list \<Rightarrow> nat \<Rightarrow> byte list" where
  "compress_rle xs out_max = (if xs = [] then [] else compress_loop out_max 0 xs)"

fun decompress_loop :: "nat \<Rightarrow> nat \<Rightarrow> byte list \<Rightarrow> byte list option" where
  "decompress_loop out_max opos [] = Some []"
| "decompress_loop out_max opos [b] =
     (if b AND 0x80 \<noteq> 0 then None
      else if opos \<ge> out_max then None else Some [b])"
| "decompress_loop out_max opos (b # c # bs) =
     (if b AND 0x80 \<noteq> 0 then
        (let count0 = unat (b AND 0x7F); count = (if count0 = 0 then 1 else count0) in
         if opos + count > out_max then None
         else map_option ((@) (replicate count c)) (decompress_loop out_max (opos + count) bs))
      else if opos \<ge> out_max then None
      else map_option ((#) b) (decompress_loop out_max (opos + 1) (c # bs)))"

definition decompress_rle :: "byte list \<Rightarrow> nat \<Rightarrow> byte list option" where
  "decompress_rle xs out_max = decompress_loop out_max 0 xs"

definition compress_data :: "compression_type \<Rightarrow> byte list \<Rightarrow> nat \<Rightarrow> byte list option" where
  "compress_data ty xs out_max =
     (case ty of
        COMPRESSION_NONE \<Rightarrow> if length xs > out_max then None else Some xs
      | _ \<Rightarrow> Some (compress_rle xs out_max))"

definition decompress_data :: "compression_type \<Rightarrow> byte list \<Rightarrow> nat \<Rightarrow> byte list option" where
  "decompress_data ty xs out_max =
     (case ty of
        COMPRESSION_NONE \<Rightarrow> if length xs > out_max then None else Some xs
      | _ \<Rightarrow> decompress_rle xs out_max)"

definition compression_type_name :: "compression_type \<Rightarrow> string" where
  "compression_type_name t =
     (case t of COMPRESSION_NONE \<Rightarrow> ''none'' | COMPRESSION_GZIP \<Rightarrow> ''gzip''
      | COMPRESSION_SNAPPY \<Rightarrow> ''snappy'' | COMPRESSION_LZ4 \<Rightarrow> ''lz4'' | COMPRESSION_ZSTD \<Rightarrow> ''zstd'')"

definition compression_type_from_name :: "string option \<Rightarrow> compression_type" where
  "compression_type_from_name name_opt =
     (case name_opt of None \<Rightarrow> COMPRESSION_NONE
      | Some name \<Rightarrow>
          if name = ''gzip'' then COMPRESSION_GZIP
          else if name = ''snappy'' then COMPRESSION_SNAPPY
          else if name = ''lz4'' then COMPRESSION_LZ4
          else if name = ''zstd'' then COMPRESSION_ZSTD
          else COMPRESSION_NONE)"

lemma compression_type_name_rt: "compression_type_from_name (Some (compression_type_name t)) = t"
  by (cases t) (simp_all add: compression_type_from_name_def compression_type_name_def)


section \<open>Variable length integers are codecs\<close>

lemma varint_encode_loop_put7:
  "i + f = MAX_VARINT_BYTES \<Longrightarrow> 0 < f \<Longrightarrow> varint_encode_loop i v = put7 f v"
proof (induction f arbitrary: i v)
  case (Suc f)
  show ?case
  proof (cases "f = 0")
    case True
    with Suc.prems show ?thesis by (subst varint_encode_loop.simps) auto
  next
    case False
    with Suc show ?thesis by (subst varint_encode_loop.simps) auto
  qed
qed simp

lemma varint_decode_loop_get7:
  "n + f = 5 \<Longrightarrow> 0 < f \<Longrightarrow>
   varint_decode_loop n (7 * n) acc q = map_option (\<lambda>(v, k). (v, n + k)) (get7 f (7 * n) acc q)"
proof (induction f arbitrary: n acc q)
  case (Suc f)
  show ?case
  proof (cases q)
    case (Cons b q')
    show ?thesis
    proof (cases "b AND 0x80 = 0 \<or> f = 0")
      case True
      with Cons Suc.prems show ?thesis by (auto simp: Let_def c_consts)
    next
      case False
      then have h: "Suc n + f = 5" "0 < f" "\<not> 7 * n + 7 \<ge> 32" "\<not> n \<ge> MAX_VARINT_BYTES"
        "7 * n + 7 = 7 * Suc n" using Suc.prems by (auto simp: c_consts)
      note Suc.IH[OF h(1,2), unfolded h(5)[symmetric]]
      with False Cons h(3,4) show ?thesis
        by (simp add: Let_def option.map_comp comp_def case_prod_beta)
    qed
  qed simp
qed simp

lemma varint_u32_encode: "\<exists>bs. varint_encode_u32 v = Some bs \<and> put7 5 v = Some bs"
proof -
  have "\<exists>bs. put7 5 v = Some bs"
  proof (rule put7_total)
    have "unat v < 2 ^ LENGTH(32)" by (rule unsigned_less)
    then show "unat v < 2 ^ (7 * 5)" by simp
  qed simp_all
  then obtain bs where "put7 5 v = Some bs" by blast
  with put7_mono[OF this, of 5] varint_encode_loop_put7[of 0 10 v]
  show ?thesis by (simp add: varint_encode_u32_def c_consts)
qed

definition u32_bytes :: "32 word \<Rightarrow> byte list" where
  "u32_bytes v = the (varint_encode_u32 v)"

lemma varint_encode_u32_eq: "varint_encode_u32 v = Some (u32_bytes v)"
  using varint_u32_encode[of v] by (auto simp: u32_bytes_def)

lemma u32_bytes_length: "0 < length (u32_bytes v) \<and> length (u32_bytes v) \<le> 5"
  using varint_u32_encode[of v] put7_length[of 5 v] by (auto simp: u32_bytes_def)

lemma varint_u32_rt: "varint_decode_u32 (u32_bytes v @ rest) = Some (v, length (u32_bytes v))"
proof -
  obtain bs where bs: "varint_encode_u32 v = Some bs" "put7 5 v = Some bs"
    using varint_u32_encode by blast
  then have "u32_bytes v = bs" by (simp add: u32_bytes_def)
  moreover have "bs \<noteq> []" using put7_length[OF bs(2)] by auto
  ultimately show ?thesis
    using get7_put7[OF bs(2), of 0 0 rest] varint_decode_loop_get7[of 0 5 0 "bs @ rest"]
    by (simp add: varint_decode_u32_def)
qed

interpretation u32: prefix_codec "\<lambda>_. True" u32_bytes varint_decode_u32
  by unfold_locales (rule varint_u32_rt)

lemma u32_bytes_0: "u32_bytes 0 = [0]"
  using varint_encode_u32_eq[of 0] by (simp add: varint_encode_u32_def varint_encode_loop.simps)

section \<open>ZigZag\<close>

lemma signed_drop_63: "signed_drop_bit 63 v = (if sint v < 0 then -1 else 0)" for v :: "64 word"
proof -
  have "sint (signed_drop_bit 63 v) = sint v div 2 ^ 63"
    by (simp add: sint_signed_drop_bit_eq drop_bit_eq_div)
  moreover have "- (2 ^ 63) \<le> sint v" "sint v < 2 ^ 63"
    using sint_range_size[of v] by (simp_all add: word_size)
  ultimately have "sint (signed_drop_bit 63 v) = (if sint v < 0 then -1 else 0)"
    by (auto simp: div_pos_pos_trivial zdiv_eq_0_iff div_eq_minus1)
  then have "sint (signed_drop_bit 63 v) = sint (if sint v < 0 then -1 else 0 :: 64 word)"
    by (simp split: if_splits)
  then show ?thesis by (rule signed_word_eqI)
qed

lemma sint64_lower: "- (2 ^ 63) \<le> sint v" for v :: "64 word"
  using sint_range_size[of v] by (simp add: word_size)
lemma sint64_upper: "sint v < 2 ^ 63" for v :: "64 word"
  using sint_range_size[of v] by (simp add: word_size)

lemma uint_not64: "uint (NOT x) = 2 ^ 64 - 1 - uint x" for x :: "64 word"
proof -
  have "uint (NOT x) = take_bit 64 (NOT (uint x))" by (simp add: unsigned_not_eq)
  also have "\<dots> = (- uint x - 1) mod 2 ^ 64" by (simp add: not_int_def take_bit_eq_mod)
  also have "\<dots> = (2 ^ 64 - 1 - uint x) mod 2 ^ 64"
    by (metis (no_types, lifting) diff_diff_eq2 diff_right_commute mod_add_self2 add.commute uminus_add_conv_diff add_diff_eq)
  also have "\<dots> = 2 ^ 64 - 1 - uint x"
    using uint_bounded[of x] uint_ge_0[of x] by (intro mod_pos_pos_trivial) (simp, linarith)
  finally show ?thesis .
qed

lemma not_push1_and_1: "NOT (push_bit 1 v) AND 1 = (1 :: 64 word)"
  by (rule bit_word_eqI) (auto simp del: push_bit_eq_mult push_bit_of_1 simp: bit_simps bit_0)
lemma push_and_1: "0 < m \<Longrightarrow> push_bit m v AND 1 = (0 :: 64 word)"
  by (rule bit_word_eqI) (auto simp: bit_simps)
lemma push1_and_1: "(push_bit 1 v) AND 1 = (0 :: 64 word)"
  by (rule push_and_1) simp
lemma bit_push1: "bit (push_bit 1 v) n \<longleftrightarrow> 0 < n \<and> n < 64 \<and> bit v (n - 1)" for v :: "64 word"
  unfolding bit_push_bit_iff by (cases n) (auto dest: bit_imp_le_length)

lemma uint_ucast_32: "uint (ucast (ucast z :: 32 word) :: 64 word) = uint z mod 2 ^ 32" for z :: "64 word"
  unfolding unsigned_ucast_eq take_bit_eq_mod by (simp add: uint_mod)
lemma zigzag_neg: "sint v < 0 \<Longrightarrow> zigzag v = NOT (push_bit 1 v)"
  by (simp add: zigzag_def signed_drop_63)
lemma zigzag_nonneg: "0 \<le> sint v \<Longrightarrow> zigzag v = push_bit 1 v"
  by (simp add: zigzag_def signed_drop_63)
lemma unzigzag_zigzag: "unzigzag (zigzag v) = v"
proof (cases "sint v < 0")
  case True
  have msb: "bit v 63" using True bit_last_iff[of v] by simp
  show ?thesis unfolding zigzag_neg[OF True] unzigzag_def not_push1_and_1
  proof (rule bit_word_eqI)
    fix n assume "n < LENGTH(64)"
    then show "bit (drop_bit 1 (NOT (push_bit 1 v)) XOR - 1) n = bit v n"
      using msb unfolding bit_xor_iff bit_drop_bit_eq o_apply bit_not_iff bit_push1
      by (cases "n = 63") (auto simp: bit_simps)
  qed
next
  case False
  then have msb: "\<not> bit v 63" using bit_last_iff[of v] by simp
  have nn: "0 \<le> sint v" using False by simp
  show ?thesis unfolding zigzag_nonneg[OF nn] unzigzag_def push1_and_1
  proof (rule bit_word_eqI)
    fix n assume "n < LENGTH(64)"
    then show "bit (drop_bit 1 (push_bit 1 v) XOR - 0) n = bit v n"
      using msb unfolding bit_xor_iff bit_drop_bit_eq o_apply bit_not_iff bit_push1
      by (cases "n = 63") (auto simp: bit_simps)
  qed
qed

lemma zigzag_value: "uint (zigzag v) = (if sint v < 0 then - 2 * sint v - 1 else 2 * sint v)"
proof -
  have p: "uint (push_bit 1 v) = (2 * sint v) mod 2 ^ 64"
  proof -
    have "uint (push_bit 1 v) = (2 * uint v) mod 2 ^ 64"
      by (simp add: push_bit_eq_mult uint_word_ariths mult.commute)
    also have "uint v = sint v mod 2 ^ 64" by (simp add: uint_sint take_bit_eq_mod)
    finally show ?thesis by (simp add: mod_simps)
  qed
  show ?thesis
  proof (cases "sint v < 0")
    case True
    have "(2 * sint v) mod 2 ^ 64 = (2 * sint v + 2 ^ 64) mod 2 ^ 64" by simp
    also have "\<dots> = 2 * sint v + 2 ^ 64"
      using True sint64_lower[of v] by (intro mod_pos_pos_trivial) auto
    finally show ?thesis using True unfolding zigzag_neg[OF True] uint_not64 p by simp
  next
    case False
    then have nn: "0 \<le> sint v" by simp
    have "(2 * sint v) mod 2 ^ 64 = 2 * sint v"
      using nn sint64_upper[of v] by (intro mod_pos_pos_trivial) auto
    then show ?thesis using nn unfolding zigzag_nonneg[OF nn] p by simp
  qed
qed
lemma zigzag_fits: "ucast (ucast (zigzag v) :: 32 word) = zigzag v \<longleftrightarrow> - (2 ^ 31) \<le> sint v \<and> sint v < 2 ^ 31"
proof -
  have "ucast (ucast (zigzag v) :: 32 word) = zigzag v \<longleftrightarrow> uint (zigzag v) mod 2 ^ 32 = uint (zigzag v)"
    unfolding word_uint_eq_iff uint_ucast_32 ..
  also have "\<dots> \<longleftrightarrow> uint (zigzag v) < 2 ^ 32"
    by (metis mod_pos_pos_trivial pos_mod_bound uint_ge_0 zero_less_numeral zero_less_power)
  also have "\<dots> \<longleftrightarrow> - (2 ^ 31) \<le> sint v \<and> sint v < 2 ^ 31"
    by (cases "sint v < 0") (auto simp: zigzag_value)
  finally show ?thesis .
qed

lemma varint_i64_rt:
  assumes "varint_encode_i64 v = Some bs"
  shows "varint_decode_i64 (bs @ rest) =
    Some (unzigzag (ucast (ucast (zigzag v) :: 32 word)), length bs)"
  using assms varint_u32_rt[of "ucast (zigzag v)" rest]
  by (simp add: varint_encode_i64_def varint_decode_i64_def varint_encode_u32_eq)

section \<open>The checksum, bit by bit\<close>

lemma and_1_iff: "r AND 1 \<noteq> (0::32 word) \<longleftrightarrow> bit r 0"
  by (simp add: and_one_eq bit_0 odd_iff_mod_2_eq_one)
lemma crc_step_eq: "crc_step r = drop_bit 1 r XOR (if bit r 0 then CRC32C_POLY else 0)"
  unfolding crc_step_def and_1_iff by simp
lemma if_xor: "(if P \<noteq> Q then c else 0) = (if P then c else 0) XOR (if Q then c else (0 :: 32 word))"
  by simp
lemma crc_step_xor: "crc_step (a XOR b) = crc_step a XOR crc_step b"
  unfolding crc_step_eq drop_bit_xor bit_xor_iff if_xor
  by (simp only: xor.assoc xor.left_commute)

lemma crc_steps_xor: "(crc_step ^^ n) (a XOR b) = (crc_step ^^ n) a XOR (crc_step ^^ n) b"
  by (induction n) (simp_all add: crc_step_xor)

lemma crc_steps_shift: "take_bit n r = 0 \<Longrightarrow> (crc_step ^^ n) r = drop_bit n r"
proof (induction n arbitrary: r)
  case (Suc n)
  have low: "\<not> bit r m" if "m < Suc n" for m
  proof -
    have "\<not> bit (take_bit (Suc n) r) m" using Suc.prems by simp
    with that show ?thesis by (simp add: bit_take_bit_iff)
  qed
  have "crc_step r = drop_bit 1 r" using low[of 0] by (simp add: crc_step_eq)
  moreover have "take_bit n (drop_bit 1 r) = 0"
    by (rule bit_word_eqI) (simp add: bit_take_bit_iff bit_drop_bit_eq low)
  ultimately have "(crc_step ^^ n) (crc_step r) = drop_bit n (drop_bit 1 r)"
    by (simp only: Suc.IH)
  then show ?case by (simp only: funpow_Suc_right o_apply drop_bit_drop_bit) simp
qed simp

lemma zigzag_unzigzag: "zigzag (unzigzag z) = z"
proof -
  have "inj zigzag" by (rule inj_on_inverseI[where g = unzigzag]) (rule unzigzag_zigzag)
  then have "surj zigzag" by (rule finite_UNIV_inj_surj[OF finite])
  then obtain v where "z = zigzag v" by (rule surjE)
  then show ?thesis by (simp add: unzigzag_zigzag)
qed

lemma low_byte_split: "t = (t AND 0xFF) XOR push_bit 8 (drop_bit 8 t)" for t :: "32 word"
proof -
  have e: "(0xFF :: 32 word) = mask 8" by (simp add: mask_eq_exp_minus_1)
  show ?thesis unfolding e by (rule bit_word_eqI) (auto simp: bit_simps)
qed

lemma crc_steps_8: "(crc_step ^^ 8) t = (crc_step ^^ 8) (t AND 0xFF) XOR drop_bit 8 t"
proof -
  have "(crc_step ^^ 8) (push_bit 8 (drop_bit 8 t)) = drop_bit 8 (push_bit 8 (drop_bit 8 t))"
    by (rule crc_steps_shift) (rule bit_word_eqI, auto simp: bit_simps)
  also have "\<dots> = drop_bit 8 t" by (rule bit_word_eqI) (auto simp: bit_simps dest: bit_imp_le_length)
  finally show ?thesis
    by (subst low_byte_split) (simp only: crc_steps_xor)
qed

lemma crc_table_entry: "n < 256 \<Longrightarrow> crc32c_table ! n = (crc_step ^^ 8) (word_of_nat n)"
  by (simp add: crc32c_table_def)

lemma unat_low_byte: "unat (t AND 0xFF :: 32 word) < 256"
proof -
  have e: "(0xFF :: 32 word) = mask 8" by (simp add: mask_eq_exp_minus_1)
  have "unat (take_bit 8 t) < 2 ^ 8" unfolding unsigned_take_bit_eq by (rule take_bit_nat_less_exp)
  then show ?thesis unfolding e by (simp add: take_bit_eq_mask)
qed

lemma crc_update_steps: "crc_update crc b = (crc_step ^^ 8) (crc XOR ucast b)"
proof -
  have d: "drop_bit 8 (crc XOR ucast b) = drop_bit 8 crc"
    by (rule bit_word_eqI) (auto simp: bit_simps dest: bit_imp_le_length)
  have w: "word_of_nat (unat x) = x" for x :: "32 word" by simp
  show ?thesis
    unfolding crc_update_def crc_table_entry[OF unat_low_byte] w
    by (subst (2) crc_steps_8) (simp only: d)
qed

lemma crc_step_bit: "m < 31 \<Longrightarrow> \<not> bit CRC32C_POLY m \<Longrightarrow> bit (crc_step r) m = bit r (Suc m)"
  by (simp add: crc_step_eq bit_simps)
lemma crc_step_31: "\<not> bit (crc_step r) 31"
  by (auto simp: crc_step_eq bit_simps CRC32C_POLY_def dest: bit_imp_le_length)
lemma poly_top: "\<not> bit CRC32C_POLY 29" "\<not> bit CRC32C_POLY 30"
  by (simp_all add: CRC32C_POLY_def)

lemma drop_29: "\<not> bit x 29 \<Longrightarrow> \<not> bit x 30 \<Longrightarrow> \<not> bit x 31 \<Longrightarrow> drop_bit 29 x = 0" for x :: "32 word"
proof (rule bit_word_eqI)
  fix m assume a: "\<not> bit x 29" "\<not> bit x 30" "\<not> bit x 31" "m < LENGTH(32)"
  consider "m = 0" | "m = 1" | "m = 2" | "32 \<le> 29 + m" by linarith
  then show "bit (drop_bit 29 x) m = bit 0 m"
    using a by cases (auto simp: bit_drop_bit_eq dest: bit_imp_le_length)
qed

lemma crc_steps_top: "drop_bit 29 (crc_step (crc_step (crc_step r))) = 0"
  by (rule drop_29) (simp_all add: crc_step_bit poly_top crc_step_31)

lemma crc_8_top: "drop_bit 29 ((crc_step ^^ 8) r) = 0"
proof -
  have "(8::nat) = Suc (Suc (Suc 5))" by simp
  then show ?thesis by (simp only: funpow.simps o_apply crc_steps_top)
qed

section \<open>Properties of the integers and the checksum\<close>

text \<open>
  Every 32 bit value has a varint encoding of one to five bytes, and decoding it from
  the front of any buffer gives the value back and consumes exactly the encoding.
\<close>

theorem varint_u32_codec:
  "\<exists>bs. varint_encode_u32 v = Some bs \<and> 1 \<le> length bs \<and> length bs \<le> 5 \<and>
        varint_decode_u32 (bs @ rest) = Some (v, length bs)"
  using varint_encode_u32_eq[of v] u32_bytes_length[of v] u32.dec_enc[of v rest]
  by (auto simp: Suc_le_eq)

text \<open>
  The 64 bit varint always encodes and its encoding always decodes, but to the encoded
  value exactly when the value fits in 32 bits: the upper half of the ZigZag value is
  dropped by the encoder without an error.
\<close>

theorem varint_i64_lossy:
  "\<exists>bs w. varint_encode_i64 v = Some bs \<and> varint_decode_i64 (bs @ rest) = Some (w, length bs) \<and>
     (w = v \<longleftrightarrow> - (2 ^ 31) \<le> sint v \<and> sint v < 2 ^ 31)"
proof -
  define u where "u = (ucast (ucast (zigzag v) :: 32 word) :: 64 word)"
  have e: "varint_encode_i64 v = Some (u32_bytes (ucast (zigzag v)))"
    by (simp add: varint_encode_i64_def varint_encode_u32_eq)
  have "unzigzag u = v \<longleftrightarrow> u = zigzag v"
    using zigzag_unzigzag[of u] unzigzag_zigzag[of v] by auto
  then have "unzigzag u = v \<longleftrightarrow> - (2 ^ 31) \<le> sint v \<and> sint v < 2 ^ 31"
    unfolding u_def zigzag_fits .
  with e varint_i64_rt[OF e, of rest] show ?thesis unfolding u_def by blast
qed

text \<open>
  The table-driven checksum is the bit-by-bit one, and appending to a checksum is the
  checksum of the concatenation.
\<close>

theorem crc_table_is_bitwise:
  "crc32c_compute bs = foldl (\<lambda>r b. (crc_step ^^ 8) (r XOR ucast b)) 0xFFFFFFFF bs XOR 0xFFFFFFFF \<and>
   crc32c_append (crc32c_compute bs) cs = crc32c_compute (bs @ cs)"
proof
  have "crc_update = (\<lambda>r b. (crc_step ^^ 8) (r XOR ucast b))"
    by (intro ext) (rule crc_update_steps)
  then show "crc32c_compute bs =
      foldl (\<lambda>r b. (crc_step ^^ 8) (r XOR ucast b)) 0xFFFFFFFF bs XOR 0xFFFFFFFF"
    by (simp only: crc32c_compute_def)
  have "(x XOR 0xFFFFFFFF) XOR 0xFFFFFFFF = x" for x :: "32 word"
    by (simp only: xor.assoc xor_self_eq xor.right_neutral)
  then show "crc32c_append (crc32c_compute bs) cs = crc32c_compute (bs @ cs)"
    by (simp only: crc32c_append_def crc32c_compute_def foldl_append)
qed

text \<open>
  The polynomial is written for the other bit order than the shifts: the top three bits
  of the checksum of any non-empty data are always set, so it is not CRC-32C and tells apart
  at most an eighth of what 32 bits could.
\<close>

theorem crc_top_bits_stuck:
  assumes "bs \<noteq> []"
  shows "drop_bit 29 (crc32c_compute bs) = 7"
proof -
  have "foldl crc_update 0xFFFFFFFF bs = crc_update (foldl crc_update 0xFFFFFFFF (butlast bs)) (last bs)"
    by (subst append_butlast_last_id[OF assms, symmetric]) (simp only: foldl_append foldl_Cons foldl_Nil)
  then have "drop_bit 29 (foldl crc_update 0xFFFFFFFF bs) = 0"
    by (simp only: crc_update_steps crc_8_top)
  then have "drop_bit 29 (crc32c_compute bs) = drop_bit 29 (0xFFFFFFFF :: 32 word)"
    unfolding crc32c_compute_def drop_bit_xor by simp
  also have "\<dots> = 7" by simp
  finally show ?thesis .
qed

lemma crc_top_bits_stuck_witness: "drop_bit 29 (crc32c_compute [0x31, 0x32]) = 7"
  by (rule crc_top_bits_stuck) simp

section \<open>Envelopes\<close>

text \<open>
  A field is well formed when its length is the length of its bytes, and absent when empty.
\<close>

definition field_ok :: "32 word \<Rightarrow> byte list option \<Rightarrow> bool" where
  "field_ok len data =
     (case data of None \<Rightarrow> len = 0 | Some d \<Rightarrow> d \<noteq> [] \<and> sint len = int (length d))"

definition field_data :: "byte list option \<Rightarrow> byte list" where
  "field_data data = (case data of None \<Rightarrow> [] | Some d \<Rightarrow> d)"

definition field_bytes :: "32 word \<Rightarrow> byte list option \<Rightarrow> byte list" where
  "field_bytes len data = u32_bytes len @ field_data data"

lemma field_ok_length: "field_ok len data \<Longrightarrow> sint len = int (length (field_data data))"
  by (auto simp: field_ok_def field_data_def split: option.splits)

lemma field_ok_copy: "field_ok len data \<Longrightarrow> copy_field len data = data"
  by (auto simp: field_ok_def copy_field_def split: option.splits)

lemma put_field_ok:
  assumes "field_ok len data"
  shows "put_field out_max len data out =
    (let out1 = out @ u32_bytes len in
     if int (length out1) > out_max then Undefined
     else if int (length (out @ field_bytes len data)) > out_max then Failed
     else Done (out @ field_bytes len data))"
  using assms field_ok_length[OF assms]
  by (cases data)
     (simp_all add: put_field_def varint_encode_u32_eq Let_def field_ok_def field_bytes_def field_data_def)

lemma get_field_ok:
  assumes "field_ok len data"
  shows "get_field True (pre @ field_bytes len data @ rest) (length pre) =
    Some (len, data, length (pre @ field_bytes len data))"
  using assms field_ok_length[OF assms]
  by (cases data)
     (auto simp add: get_field_def field_bytes_def field_data_def varint_u32_rt field_ok_def Let_def)

definition ts_value :: "byte list \<Rightarrow> 64 word" where
  "ts_value bs = push_bit 56 (ucast (bs ! 2)) OR push_bit 48 (ucast (bs ! 3)) OR
                 push_bit 40 (ucast (bs ! 4)) OR push_bit 32 (ucast (bs ! 5)) OR
                 push_bit 24 (ucast (bs ! 6)) OR push_bit 16 (ucast (bs ! 7)) OR
                 push_bit 8 (ucast (bs ! 8)) OR ucast (bs ! 9)"


lemma mask8: "(0xFF :: 64 word) = mask 8" by (simp add: mask_eq_exp_minus_1)

lemma byte_at: "bit (push_bit k (ucast (ucast (drop_bit k t AND 0xFF) :: byte)) :: 64 word) n \<longleftrightarrow>
    k \<le> n \<and> n < k + 8 \<and> bit t n" for t :: "64 word"
  unfolding mask8 by (auto simp: bit_simps dest: bit_imp_le_length)

lemma byte_at_0: "bit (ucast (ucast (t AND 0xFF) :: byte) :: 64 word) n \<longleftrightarrow> n < 8 \<and> bit t n" for t :: "64 word"
  unfolding mask8 by (auto simp: bit_simps dest: bit_imp_le_length)

lemma ts_value_list: "ts_value ([m, a, b7, b6, b5, b4, b3, b2, b1, b0] @ rest) =
   push_bit 56 (ucast b7) OR push_bit 48 (ucast b6) OR push_bit 40 (ucast b5) OR push_bit 32 (ucast b4) OR
   push_bit 24 (ucast b3) OR push_bit 16 (ucast b2) OR push_bit 8 (ucast b1) OR ucast b0"
  by (simp add: ts_value_def)

lemma ts_value_bytes: "ts_value ([m, a] @ timestamp_bytes t @ rest) = t"
proof (rule bit_word_eqI)
  fix n assume n: "n < LENGTH(64)"
  then have r: "n < 64" by simp
  have c: "n < 8 \<or> 8 \<le> n \<and> n < 16 \<or> 16 \<le> n \<and> n < 24 \<or> 24 \<le> n \<and> n < 32 \<or> 32 \<le> n \<and> n < 40 \<or>
     40 \<le> n \<and> n < 48 \<or> 48 \<le> n \<and> n < 56 \<or> 56 \<le> n" by linarith
  show "bit (ts_value ([m, a] @ timestamp_bytes t @ rest)) n = bit t n"
    unfolding timestamp_bytes_def append_Cons append_Nil ts_value_list[unfolded append_Cons append_Nil]
      bit_or_iff byte_at byte_at_0
    using c r by (elim disjE) simp_all
qed

definition wf_envelope :: "message_envelope \<Rightarrow> bool" where
  "wf_envelope env \<longleftrightarrow> field_ok (key_length env) (env_key env) \<and>
     field_ok (value_length env) (env_value env) \<and> field_ok (headers_length env) (env_headers env)"

definition env_bytes :: "message_envelope \<Rightarrow> byte list" where
  "env_bytes env = [magic_byte env, attributes env] @ timestamp_bytes (env_timestamp env) @
     field_bytes (key_length env) (env_key env) @ field_bytes (value_length env) (env_value env) @
     field_bytes (headers_length env) (env_headers env)"

lemma length_timestamp_bytes [simp]: "length (timestamp_bytes t) = 8"
  by (simp add: timestamp_bytes_def)

lemma length_field_bytes: "length (field_bytes len d) = length (u32_bytes len) + length (field_data d)"
  by (simp add: field_bytes_def)

lemma envelope_serialize_ok:
  assumes "wf_envelope env" "14 \<le> out_max" "int (length (env_bytes env)) \<le> out_max"
  shows "message_envelope_serialize env out_max = Done (env_bytes env)"
  using assms
  by (simp add: message_envelope_serialize_def wf_envelope_def put_field_ok Let_def env_bytes_def
      length_field_bytes)

lemma envelope_deserialize_get:
  "message_envelope_deserialize mem bs =
     (if length bs < 10 then None
      else case get_field mem bs 10 of None \<Rightarrow> None
            | Some (klen, k, pos1) \<Rightarrow>
                (case get_field mem bs pos1 of None \<Rightarrow> None
                 | Some (vlen, v, pos2) \<Rightarrow>
                     (case varint_decode_u32 (drop pos2 bs) of None \<Rightarrow> None
                      | Some (hlen, n) \<Rightarrow>
                          (let pos3 = pos2 + n;
                               h = (if sint hlen > 0 \<and> int pos3 + sint hlen \<le> int (length bs) \<and> mem
                                    then Some (take (nat (sint hlen)) (drop pos3 bs)) else None)
                           in Some (\<lparr> magic_byte = bs ! 0, attributes = bs ! 1, env_timestamp = ts_value bs,
                                      key_length = klen, env_key = k,
                                      value_length = vlen, env_value = v,
                                      headers_length = hlen, env_headers = h \<rparr>, pos3)))))"
  unfolding message_envelope_deserialize_def ts_value_def Let_def ..

lemma headers_ok:
  assumes "field_ok len d"
  shows "(if sint len > 0 \<and> int (length pre + length (u32_bytes len)) + sint len \<le> int (length (pre @ field_bytes len d @ rest)) \<and> True
          then Some (take (nat (sint len)) (drop (length pre + length (u32_bytes len)) (pre @ field_bytes len d @ rest))) else None) = d"
  using assms by (cases d) (auto simp: field_ok_def field_bytes_def field_data_def)

lemma envelope_deserialize_ok:
  assumes "wf_envelope env"
  shows "message_envelope_deserialize True (env_bytes env @ rest) =
    Some (env, length (env_bytes env) - length (field_data (env_headers env)))"
proof -
  define p0 where "p0 = [magic_byte env, attributes env] @ timestamp_bytes (env_timestamp env)"
  define kb vb hb where "kb = field_bytes (key_length env) (env_key env)"
    and "vb = field_bytes (value_length env) (env_value env)"
    and "hb = field_bytes (headers_length env) (env_headers env)"
  note ok = assms[unfolded wf_envelope_def]
  have bs: "env_bytes env @ rest = p0 @ kb @ vb @ hb @ rest"
    by (simp add: env_bytes_def p0_def kb_def vb_def hb_def)
  have l0: "length p0 = 10" by (simp add: p0_def)
  have k: "get_field True (p0 @ kb @ vb @ hb @ rest) 10 =
      Some (key_length env, env_key env, length (p0 @ kb))"
    using get_field_ok[of "key_length env" "env_key env" p0 "vb @ hb @ rest"] ok
    unfolding kb_def[symmetric] l0 by blast
  have v: "get_field True (p0 @ kb @ vb @ hb @ rest) (length (p0 @ kb)) =
      Some (value_length env, env_value env, length (p0 @ kb @ vb))"
    using get_field_ok[of "value_length env" "env_value env" "p0 @ kb" "hb @ rest"] ok
    unfolding vb_def[symmetric] by simp
  have h: "varint_decode_u32 (drop (length (p0 @ kb @ vb)) (p0 @ kb @ vb @ hb @ rest)) =
      Some (headers_length env, length (u32_bytes (headers_length env)))"
    by (simp add: hb_def field_bytes_def varint_u32_rt)
  have hd_ok: "(if sint (headers_length env) > 0 \<and>
        int (length (p0 @ kb @ vb) + length (u32_bytes (headers_length env))) + sint (headers_length env)
          \<le> int (length (p0 @ kb @ vb @ hb @ rest)) \<and> True
      then Some (take (nat (sint (headers_length env)))
        (drop (length (p0 @ kb @ vb) + length (u32_bytes (headers_length env))) (p0 @ kb @ vb @ hb @ rest)))
      else None) = env_headers env"
    using headers_ok[OF ok[THEN conjunct2, THEN conjunct2], of "p0 @ kb @ vb" rest]
    unfolding hb_def by (simp only: append_assoc)
  have t: "ts_value (p0 @ kb @ vb @ hb @ rest) = env_timestamp env"
    using ts_value_bytes[of "magic_byte env" "attributes env" "env_timestamp env" "kb @ vb @ hb @ rest"]
    by (simp add: p0_def)
  have m: "(p0 @ kb @ vb @ hb @ rest) ! 0 = magic_byte env" "(p0 @ kb @ vb @ hb @ rest) ! 1 = attributes env"
    by (simp_all add: p0_def)
  have len: "\<not> length (p0 @ kb @ vb @ hb @ rest) < 10" using l0 by simp
  have pos: "length (p0 @ kb @ vb) + length (u32_bytes (headers_length env)) =
      length (env_bytes env) - length (field_data (env_headers env))"
    by (simp add: env_bytes_def p0_def kb_def vb_def length_field_bytes)
  show ?thesis
    unfolding bs envelope_deserialize_get if_not_P[OF len] k option.case prod.case v h Let_def t m hd_ok unfolding pos by simp
qed

lemma drop_to_suffix: "e = p @ d \<Longrightarrow> drop (length e - length d) (e @ rest) = d @ rest"
  by simp

text \<open>
  C9. An envelope whose lengths match its fields is serialised when the buffer is large
  enough, and read back whole from the front of any input; but the number of bytes reported
  as consumed leaves out the headers, so what a caller reads next are the headers, not what
  follows the message.
\<close>

theorem envelope_roundtrip:
  assumes "wf_envelope env" "14 \<le> out_max" "int (length (env_bytes env)) \<le> out_max"
  shows "\<exists>bs k. message_envelope_serialize env out_max = Done bs \<and>
     message_envelope_deserialize True (bs @ rest) = Some (env, k) \<and>
     drop k (bs @ rest) = field_data (env_headers env) @ rest"
proof -
  have "drop (length (env_bytes env) - length (field_data (env_headers env))) (env_bytes env @ rest) =
      field_data (env_headers env) @ rest"
    by (rule drop_to_suffix[where p = "[magic_byte env, attributes env] @
        timestamp_bytes (env_timestamp env) @ field_bytes (key_length env) (env_key env) @
        field_bytes (value_length env) (env_value env) @ u32_bytes (headers_length env)"])
       (simp add: env_bytes_def field_bytes_def)
  with envelope_serialize_ok[OF assms] envelope_deserialize_ok[OF assms(1)] show ?thesis by blast
qed

lemma envelope_roundtrip_witness:
  "\<exists>bs k. message_envelope_serialize
       (message_envelope_init\<lparr> headers_length := 2, env_headers := Some [7, 8] \<rparr>) 100 = Done bs \<and>
     message_envelope_deserialize True (bs @ [9]) =
       Some (message_envelope_init\<lparr> headers_length := 2, env_headers := Some [7, 8] \<rparr>, k) \<and>
     drop k (bs @ [9]) = [7, 8, 9]"
proof -
  let ?e = "message_envelope_init\<lparr> headers_length := 2, env_headers := Some [7, 8] \<rparr>"
  have u: "u32_bytes 2 = [2]"
    using varint_encode_u32_eq[of 2] by (simp add: varint_encode_u32_def varint_encode_loop.simps)
  have "wf_envelope ?e" by (simp add: wf_envelope_def field_ok_def message_envelope_init_def)
  moreover have "int (length (env_bytes ?e)) \<le> 100"
    by (simp add: env_bytes_def length_field_bytes message_envelope_init_def u32_bytes_0 u field_data_def)
  ultimately show ?thesis
    using envelope_roundtrip[of ?e 100 "[9]"] by (simp add: field_data_def)
qed

section \<open>Batches\<close>

definition wf_batch :: "message_set \<Rightarrow> bool" where
  "wf_batch ms \<longleftrightarrow> sint (record_count ms) = int (length (ms_records ms)) \<and>
     (\<forall>r \<in> set (ms_records ms). wf_envelope r \<and> env_headers r = None \<and> length (env_bytes r) \<le> 4096)"

lemma serialize_records_ok:
  assumes "\<forall>r \<in> set rs. wf_envelope r \<and> length (env_bytes r) \<le> 4096"
    "int (pos + length (concat (map env_bytes rs))) \<le> out_max"
  shows "serialize_records out_max pos rs = Done (concat (map env_bytes rs))"
  using assms
  by (induction rs arbitrary: pos) (simp_all add: envelope_serialize_ok)

lemma deserialize_records_ok:
  assumes "\<forall>r \<in> set rs. wf_envelope r \<and> env_headers r = None"
  shows "deserialize_records True (length rs) (concat (map env_bytes rs) @ rest) = Some rs"
  using assms
  by (induction rs) (simp_all add: envelope_deserialize_ok field_data_def)


text \<open>The fields of a serialised batch, at the offsets the reader takes them from.\<close>

lemma batch_fields:
  assumes "length ub = 4" and bs: "bs = le_bytes 8 (ms_base_offset ms) @ le_bytes 4 blen @
     le_bytes 4 (partition_leader_epoch ms) @ [ms_magic ms] @ le_bytes 4 crc @ header_tail ub ms @ recs"
  shows "le_value (take 8 (bs @ rest)) = ms_base_offset ms"
    "le_value (take 4 (drop 12 (bs @ rest))) = partition_leader_epoch ms"
    "(bs @ rest) ! 16 = ms_magic ms" "le_value (take 4 (drop 17 (bs @ rest))) = (crc :: 32 word)"
    "(bs @ rest) ! 21 = ms_attributes ms" "le_value (take 4 (drop 23 (bs @ rest))) = last_offset_delta ms"
    "le_value (take 8 (drop 27 (bs @ rest))) = first_timestamp ms"
    "le_value (take 8 (drop 35 (bs @ rest))) = ms_max_timestamp ms"
    "le_value (take 4 (drop 43 (bs @ rest))) = producer_id ms"
    "le_value (take 2 (drop 51 (bs @ rest))) = producer_epoch ms"
    "le_value (take 4 (drop 53 (bs @ rest))) = base_sequence ms"
    "le_value (take 4 (drop 57 (bs @ rest))) = record_count ms"
    "drop 61 (bs @ rest) = recs @ rest" "61 \<le> length (bs @ rest)"
  using assms(1) by (simp_all add: bs header_tail_def le_value_full nth_append)

text \<open>
  C10. A batch of messages without headers whose count is its number of records comes back
  from its serialisation, with whatever follows it in the input: every header field and every
  record, except the batch length, which the reader keeps from the caller's structure. The
  checksum of the result is that of the bytes after the checksum field.
\<close>

theorem messageset_roundtrip:
  assumes "wf_batch ms" "length ub = 4"
    "int (61 + length (concat (map env_bytes (ms_records ms)))) \<le> out_max"
  shows "\<exists>bs. messageset_serialize ub ms out_max = Done bs \<and>
    messageset_deserialize True (bs @ rest) out =
      Some (ms\<lparr> batch_length := batch_length out, ms_crc := crc32c_compute (drop 21 bs) \<rparr>)"
proof -
  define recs where "recs = concat (map env_bytes (ms_records ms))"
  define after where "after = header_tail ub ms @ recs"
  define blen where "blen = (word_of_nat (21 + length after - 12) :: 32 word)"
  define bs where "bs = le_bytes 8 (ms_base_offset ms) @ le_bytes 4 blen @
     le_bytes 4 (partition_leader_epoch ms) @ [ms_magic ms] @ le_bytes 4 (crc32c_compute after) @ after"
  have n: "nat (sint (record_count ms)) = length (ms_records ms)"
    using assms(1) by (simp add: wf_batch_def)
  have "serialize_records out_max 61 (ms_records ms) = Done recs"
    unfolding recs_def using assms by (intro serialize_records_ok) (simp_all add: wf_batch_def)
  then have ser: "messageset_serialize ub ms out_max = Done bs"
    using assms(3) by (simp add: messageset_serialize_def n Let_def bs_def after_def blen_def)
  have recs: "(if sint (record_count ms) > 0
      then (if True then deserialize_records True (nat (sint (record_count ms))) (recs @ rest) else None)
      else Some []) = Some (ms_records ms)"
    using deserialize_records_ok[of "ms_records ms" rest] assms(1)
    by (auto simp: n wf_batch_def recs_def)
  note f = batch_fields[OF assms(2), of bs ms blen "crc32c_compute (header_tail ub ms @ recs)" recs rest, OF bs_def[unfolded after_def],
    folded after_def]
  have len: "\<not> length (bs @ rest) < 61" using f(14) by simp
  note recs' = recs[folded f(13)]
  have "messageset_deserialize True (bs @ rest) out =
      Some (ms\<lparr> batch_length := batch_length out, ms_crc := crc32c_compute after \<rparr>)"
    unfolding messageset_deserialize_def Let_def if_not_P[OF len] f(12) recs' option.case f(1-11) by simp
  moreover have "drop 21 bs = after" by (simp add: bs_def)
  ultimately show ?thesis using ser by blast
qed

lemma messageset_roundtrip_witness:
  "\<exists>bs. messageset_serialize [0, 0, 0, 0] (snd (messageset_add_record True
        (the (messageset_create True 5)) message_envelope_init)) 1000 = Done bs \<and>
    messageset_deserialize True (bs @ [1]) (the (messageset_create True 0)) =
      Some ((snd (messageset_add_record True (the (messageset_create True 5)) message_envelope_init))
        \<lparr> batch_length := batch_length (the (messageset_create True 0)),
          ms_crc := crc32c_compute (drop 21 bs) \<rparr>)"
proof (rule messageset_roundtrip)
  show "wf_batch (snd (messageset_add_record True (the (messageset_create True 5)) message_envelope_init))"
    by (simp add: wf_batch_def messageset_add_record_def messageset_create_def copy_envelope_def
        message_envelope_init_def copy_field_def wf_envelope_def field_ok_def env_bytes_def
        field_bytes_def field_data_def u32_bytes_0)
  show "int (61 + length (concat (map env_bytes (ms_records
      (snd (messageset_add_record True (the (messageset_create True 5)) message_envelope_init)))))) \<le> 1000"
    by (simp add: messageset_add_record_def messageset_create_def copy_envelope_def
        message_envelope_init_def copy_field_def env_bytes_def field_bytes_def field_data_def u32_bytes_0)
qed simp

text \<open>The checksum field of the input is stored and never compared with the bytes it covers.\<close>

lemma crc_never_checked:
  assumes "61 \<le> length bs" "length c = 4"
  shows "messageset_deserialize mem (take 17 bs @ c @ drop 21 bs) out =
    map_option (\<lambda>m. m\<lparr> ms_crc := le_value c \<rparr>) (messageset_deserialize mem bs out)"
proof -
  define ds where "ds = take 17 bs @ c @ drop 21 bs"
  have l: "length ds = length bs" using assms by (simp add: ds_def)
  have d: "drop n ds = drop n bs" if "21 \<le> n" for n using that assms by (simp add: ds_def)
  have n: "ds ! 16 = bs ! 16" "ds ! 21 = bs ! 21" using assms by (simp_all add: ds_def nth_append)
  have t: "take 8 ds = take 8 bs" "take 4 (drop 12 ds) = take 4 (drop 12 bs)" "take 4 (drop 17 ds) = c"
    using assms by (simp_all add: ds_def drop_take min_def)
  show ?thesis
    unfolding ds_def[symmetric] messageset_deserialize_def Let_def l n t
    using assms by (simp add: d split: option.split)
qed

section \<open>Run-length compression\<close>

lemma run_length_bounds: "xs \<noteq> [] \<Longrightarrow> 0 < run_length xs \<and> run_length xs \<le> length xs \<and> run_length xs \<le> 255"
  using length_takeWhile_le[of "\<lambda>x. x = hd xs" "take 255 xs"]
  by (cases xs) (auto simp: run_length_def min_def split: if_splits)

lemma run_length_split: "xs = replicate (run_length xs) (hd xs) @ drop (run_length xs) xs"
proof -
  have "takeWhile (\<lambda>x. x = hd xs) (take 255 xs) = replicate (run_length xs) (hd xs)"
    unfolding run_length_def by (rule replicate_eqI) (auto dest: set_takeWhileD)
  moreover have "takeWhile (\<lambda>x. x = hd xs) (take 255 xs) = take (run_length xs) xs"
    using takeWhile_eq_take[of "\<lambda>x. x = hd xs" "take 255 xs"] length_takeWhile_le[of "\<lambda>x. x = hd xs" "take 255 xs"]
    by (simp add: run_length_def)
  ultimately show ?thesis by (metis append_take_drop_id)
qed

lemma run_length_replicate: "0 < n \<Longrightarrow> n \<le> 255 \<Longrightarrow> run_length (replicate n b) = n"
  by (cases n) (simp_all add: run_length_def min_def takeWhile_eq_all_conv[THEN iffD2])

lemma run_byte_flag: "(w OR 0x80) AND 0x80 \<noteq> (0 :: byte)"
proof
  assume "(w OR 0x80) AND 0x80 = (0 :: byte)"
  then have "bit ((w OR 0x80) AND 0x80) 7 = bit (0 :: byte) 7" by (rule arg_cong)
  then show False by (simp add: bit_simps bit_0x80)
qed

lemma run_byte_count: "unat ((word_of_nat n OR 0x80) AND 0x7F :: byte) = n mod 128"
proof -
  have "(word_of_nat n OR 0x80) AND 0x7F = (take_bit 7 (word_of_nat n) :: byte)"
    unfolding mask7 by (rule bit_word_eqI) (auto simp: bit_simps bit_0x80)
  moreover have "unat (take_bit 7 (word_of_nat n) :: byte) = take_bit 7 n"
    by (simp add: unsigned_take_bit_eq unsigned_of_nat)
  ultimately show ?thesis by (simp add: take_bit_eq_mod)
qed

lemma decompress_run:
  "decompress_loop m p ((word_of_nat n OR 0x80) # c # bs) =
     (let k = (if n mod 128 = 0 then 1 else n mod 128) in
      if p + k > m then None else map_option ((@) (replicate k c)) (decompress_loop m (p + k) bs))"
  by (simp add: run_byte_flag run_byte_count Let_def del: word_of_nat_eq_0_iff)

lemma decompress_literal:
  "b AND 0x80 = 0 \<Longrightarrow> decompress_loop m p (b # bs) =
     (if p \<ge> m then None else map_option ((#) b) (decompress_loop m (p + 1) bs))"
  by (cases bs) simp_all

text \<open>No byte uses the flag bit, and no 128 equal bytes follow each other.\<close>

definition rle_safe :: "byte list \<Rightarrow> bool" where
  "rle_safe xs \<longleftrightarrow> (\<forall>b \<in> set xs. b AND 0x80 = 0) \<and> (\<forall>us b vs. xs \<noteq> us @ replicate 128 b @ vs)"

lemma rle_safe_drop: "rle_safe xs \<Longrightarrow> rle_safe (drop n xs)"
  unfolding rle_safe_def by (metis append_assoc append_take_drop_id in_set_dropD)

lemma rle_safe_run:
  assumes "rle_safe xs"
  shows "run_length xs < 128"
proof (rule ccontr)
  assume "\<not> run_length xs < 128"
  then obtain k where "run_length xs = 128 + k" using le_Suc_ex not_less by blast
  then have "xs = [] @ replicate 128 (hd xs) @ (replicate k (hd xs) @ drop (run_length xs) xs)"
    using run_length_split[of xs] by (simp add: replicate_add)
  with assms show False unfolding rle_safe_def by blast
qed

lemma compress_loop_rt:
  "rle_safe xs \<Longrightarrow> opos + 2 * length xs \<le> out_max \<Longrightarrow> p + length xs \<le> m \<Longrightarrow>
   decompress_loop m p (compress_loop out_max opos xs) = Some xs"
proof (induction out_max opos xs arbitrary: p rule: compress_loop.induct)
  case (1 out_max opos xs)
  show ?case
  proof (cases "xs = []")
    case True
    then show ?thesis by (subst compress_loop.simps) simp
  next
    case False
    define n where "n = run_length xs"
    have n: "0 < n" "n \<le> length xs" "n < 128"
      using run_length_bounds[OF False] rle_safe_run[OF "1.prems"(1)] by (simp_all add: n_def)
    have sp: "xs = replicate n (hd xs) @ drop n xs" unfolding n_def by (rule run_length_split)
    have room: "xs \<noteq> [] \<and> opos + 2 \<le> out_max" using False "1.prems"(2) by (cases xs) auto
    show ?thesis
    proof (cases "n > 1 \<or> n = length xs \<or> opos + 3 > out_max")
      case True
      have "decompress_loop m (p + n) (compress_loop out_max (opos + 2) (drop n xs)) = Some (drop n xs)"
        using "1.prems" n room True
        by (intro "1.IH"(1)[OF room n_def]) (auto simp: rle_safe_drop)
      moreover have "compress_loop out_max opos xs =
          (word_of_nat n OR 0x80) # hd xs # compress_loop out_max (opos + 2) (drop n xs)"
        using room True by (subst compress_loop.simps) (simp add: n_def[symmetric] Let_def)
      ultimately show ?thesis
        using n "1.prems"(3) sp by (simp add: decompress_run Let_def del: word_of_nat_eq_0_iff decompress_loop.simps)
    next
      case lit: False
      have "decompress_loop m (p + 1) (compress_loop out_max (opos + 1) (tl xs)) = Some (tl xs)"
        using "1.prems" n room lit rle_safe_drop[of xs 1]
        by (intro "1.IH"(2)[OF room n_def]) (auto simp: drop_Suc)
      moreover have "compress_loop out_max opos xs = hd xs # compress_loop out_max (opos + 1) (tl xs)"
        using room lit by (subst compress_loop.simps) (simp add: n_def[symmetric] Let_def)
      moreover have "hd xs AND 0x80 = 0" using "1.prems"(1) False by (simp add: rle_safe_def)
      ultimately show ?thesis
        using room "1.prems"(3) by (cases xs) (simp_all add: decompress_literal)
    qed
  qed
qed

text \<open>
  C11. Data without the flag bit and without runs of 128 or more survives compression and
  decompression, under every compression type, when the buffer for the compressed bytes has twice
  the length of the data and the one for the result its length.
\<close>

theorem compression_roundtrip:
  assumes "rle_safe xs" "2 * length xs \<le> out_max" "length xs \<le> m"
  shows "\<exists>zs. compress_data ty xs out_max = Some zs \<and> decompress_data ty zs m = Some xs"
proof -
  have "decompress_loop m 0 (compress_loop out_max 0 xs) = Some xs"
    using assms by (intro compress_loop_rt) simp_all
  then have "decompress_rle (compress_rle xs out_max) m = Some xs"
    by (cases "xs = []") (simp_all add: decompress_rle_def compress_rle_def)
  then show ?thesis
    using assms by (cases ty) (simp_all add: compress_data_def decompress_data_def)
qed

lemma compression_roundtrip_witness:
  "\<exists>zs. compress_data COMPRESSION_LZ4 [65, 65, 66] 6 = Some zs \<and>
        decompress_data COMPRESSION_LZ4 zs 3 = Some [65, 65, 66]"
proof (rule compression_roundtrip)
  show "rle_safe [65, 65, 66]"
    by (auto simp: rle_safe_def dest: arg_cong[where f = length])
qed simp_all

text \<open>
  A run of 128 to 255 equal bytes is not given back: its length is written into seven
  bits, so 128 bytes come back as one and \<open>n\<close> bytes as \<open>n - 128\<close>.
\<close>

theorem long_runs_shrink:
  assumes "128 \<le> n" "n \<le> 255" "2 \<le> out_max" "n \<le> m"
  shows "decompress_rle (compress_rle (replicate n b) out_max) m =
    Some (replicate (if n = 128 then 1 else n - 128) b)"
proof -
  have "compress_loop out_max 0 (replicate n b) = [word_of_nat n OR 0x80, b]"
  proof (subst compress_loop.simps)
    show "(if replicate n b \<noteq> [] \<and> 0 + 2 \<le> out_max then
        let run_len = run_length (replicate n b) in
        if run_len > 1 \<or> run_len = length (replicate n b) \<or> 0 + 3 > out_max
        then [word_of_nat run_len OR 0x80, hd (replicate n b)] @
             compress_loop out_max (0 + 2) (drop run_len (replicate n b))
        else hd (replicate n b) # compress_loop out_max (0 + 1) (tl (replicate n b)) else []) =
      [word_of_nat n OR 0x80, b]"
      using assms run_length_replicate[of n b]
      by (simp add: Let_def compress_loop.simps[of _ _ "[]"])
  qed
  moreover have "n mod 128 = n - 128" using assms by (simp add: mod_if)
  moreover have "\<not> m < n - 128" "\<not> m < 1" using assms by simp_all
  ultimately show ?thesis
    using assms by (simp add: compress_rle_def decompress_rle_def decompress_run Let_def
        decompress_loop.simps(1) del: decompress_loop.simps(2,3))
qed

lemma long_runs_shrink_witness:
  "decompress_rle (compress_rle (replicate 130 7) 10) 200 = Some [7, 7]"
  using long_runs_shrink[of 130 10 200 7] by (simp add: numeral_2_eq_2)
end
