(* ===== verification/Wire_Protocol.thy ===== *)
theory Wire_Protocol
  imports Codec_Base
begin

text \<open>
  The wire protocol of \<open>mini-message-stream\<close> (\<open>wire_protocol.h\<close>, \<open>wire_protocol.c\<close>): the byte
  swaps, the bounded buffer with its typed writes and reads, the serialisers of requests and
  responses, version negotiation, error names, the validation of a request header and the
  size estimates. A buffer write returns the C result (0 or -1) with the new buffer. The
  copies between an integer and the buffer are those of a little-endian host. The results of
  the writes are ignored by the serialisers, as in the code.
\<close>

definition WIRE_MAX_REQUEST_SIZE :: int where [c_consts]: "WIRE_MAX_REQUEST_SIZE = 1024 * 1024"
definition WIRE_MAX_RESPONSE_SIZE :: int where [c_consts]: "WIRE_MAX_RESPONSE_SIZE = 1024 * 1024"

datatype api_key =
    API_KEY_PRODUCE | API_KEY_FETCH | API_KEY_LIST_OFFSETS | API_KEY_METADATA
  | API_KEY_OFFSET_COMMIT | API_KEY_OFFSET_FETCH | API_KEY_FIND_COORDINATOR | API_KEY_JOIN_GROUP
  | API_KEY_HEARTBEAT | API_KEY_LEAVE_GROUP | API_KEY_SYNC_GROUP | API_KEY_DESCRIBE_GROUPS
  | API_KEY_LIST_GROUPS | API_KEY_API_VERSIONS | API_KEY_CREATE_TOPICS | API_KEY_DELETE_TOPICS

datatype protocol_error =
    ERROR_NONE | ERROR_UNKNOWN | ERROR_OFFSET_OUT_OF_RANGE | ERROR_CORRUPT_MESSAGE
  | ERROR_UNKNOWN_TOPIC_OR_PART | ERROR_INVALID_FETCH_SIZE | ERROR_LEADER_NOT_AVAILABLE
  | ERROR_NOT_LEADER_FOR_PARTITION | ERROR_REQUEST_TIMED_OUT | ERROR_BROKER_NOT_AVAILABLE
  | ERROR_REPLICA_NOT_AVAILABLE | ERROR_MESSAGE_TOO_LARGE | ERROR_STALE_CONTROLLER_EPOCH
  | ERROR_OFFSET_METADATA_TOO_LARGE | ERROR_NETWORK_EXCEPTION | ERROR_COORDINATOR_LOADING
  | ERROR_COORDINATOR_NOT_AVAILABLE | ERROR_NOT_COORDINATOR | ERROR_INVALID_TOPIC_EXCEPTION
  | ERROR_RECORD_LIST_TOO_LARGE | ERROR_NOT_ENOUGH_REPLICAS | ERROR_NOT_ENOUGH_REPLICAS_AFTER_APPEND
  | ERROR_INVALID_REQUIRED_ACKS | ERROR_ILLEGAL_GENERATION | ERROR_INCONSISTENT_GROUP_PROTOCOL
  | ERROR_INVALID_GROUP_ID | ERROR_UNKNOWN_MEMBER_ID | ERROR_INVALID_SESSION_TIMEOUT
  | ERROR_REBALANCE_IN_PROGRESS | ERROR_INVALID_COMMIT_OFFSET_SIZE | ERROR_TOPIC_AUTHORIZATION_FAILED
  | ERROR_GROUP_AUTHORIZATION_FAILED | ERROR_CLUSTER_AUTHORIZATION_FAILED | ERROR_UNSUPPORTED_VERSION
  | ERROR_TOPIC_ALREADY_EXISTS | ERROR_INVALID_PARTITIONS

record request_header =
  rh_api_key :: "16 word"
  rh_api_version :: "16 word"
  rh_correlation_id :: "32 word"
  rh_client_id :: string

record response_header =
  rsh_correlation_id :: "32 word"

record produce_request =
  preq_header :: request_header
  required_acks :: "16 word"
  timeout_ms :: "32 word"
  preq_topic :: string
  preq_partition :: "32 word"
  message_count :: "32 word"

record produce_response =
  presp_header :: response_header
  presp_topic :: string
  presp_partition :: "32 word"
  presp_error_code :: "16 word"
  presp_base_offset :: "64 word"
  log_append_time_ms :: "64 word"

record fetch_request =
  freq_header :: request_header
  replica_id :: "32 word"
  max_wait_ms :: "32 word"
  min_bytes :: "32 word"
  freq_topic :: string
  freq_partition :: "32 word"
  fetch_offset :: "64 word"
  max_bytes :: "32 word"

record fetch_response =
  fresp_header :: response_header
  fresp_topic :: string
  fresp_partition :: "32 word"
  fresp_error_code :: "16 word"
  fresp_high_watermark :: "64 word"
  fresp_record_count :: "32 word"

record offset_commit_request =
  ocreq_header :: request_header
  ocreq_group_id :: string
  ocreq_topic :: string
  ocreq_partition :: "32 word"
  committed_offset :: "64 word"
  commit_timestamp :: "64 word"
  ocreq_metadata :: string

record offset_fetch_response =
  ofresp_header :: response_header
  ofresp_topic :: string
  ofresp_partition :: "32 word"
  ofresp_offset :: "64 word"
  ofresp_error_code :: "16 word"

record protocol_buffer =
  pb_data :: "byte list"
  pb_capacity :: int
  pb_position :: nat
  pb_limit :: int

section \<open>Byte order\<close>

definition htons_i16 :: "16 word \<Rightarrow> 16 word" where
  "htons_i16 v = drop_bit 8 v OR push_bit 8 v"

definition htonl_i32 :: "32 word \<Rightarrow> 32 word" where
  "htonl_i32 v = drop_bit 24 v OR (drop_bit 8 v AND 0xFF00) OR (push_bit 8 v AND 0xFF0000) OR
     push_bit 24 v"

definition htonll_i64 :: "64 word \<Rightarrow> 64 word" where
  "htonll_i64 v = drop_bit 56 v OR (drop_bit 40 v AND 0xFF00) OR (drop_bit 24 v AND 0xFF0000) OR
     (drop_bit 8 v AND 0xFF000000) OR (push_bit 8 v AND 0xFF00000000) OR
     (push_bit 24 v AND 0xFF0000000000) OR (push_bit 40 v AND 0xFF000000000000) OR push_bit 56 v"

definition ntohs_i16 :: "16 word \<Rightarrow> 16 word" where "ntohs_i16 v = htons_i16 v"
definition ntohl_i32 :: "32 word \<Rightarrow> 32 word" where "ntohl_i32 v = htonl_i32 v"
definition ntohll_i64 :: "64 word \<Rightarrow> 64 word" where "ntohll_i64 v = htonll_i64 v"

section \<open>The buffer\<close>

definition protocol_buffer_create :: "bool \<Rightarrow> int \<Rightarrow> protocol_buffer option" where
  "protocol_buffer_create mem capacity =
     (let cap = (if capacity < 1 then 256 else capacity) in
      if mem then Some \<lparr> pb_data = replicate (nat cap) 0, pb_capacity = cap, pb_position = 0, pb_limit = cap \<rparr>
      else None)"

text \<open>\<open>memcpy\<close> into the buffer at its position.\<close>

definition store_bytes :: "byte list \<Rightarrow> nat \<Rightarrow> byte list \<Rightarrow> byte list" where
  "store_bytes bs pos data = take pos data @ bs @ drop (pos + length bs) data"

definition protocol_buffer_write_i16 :: "16 word \<Rightarrow> protocol_buffer \<Rightarrow> int \<times> protocol_buffer" where
  "protocol_buffer_write_i16 v pb =
     (if int (pb_position pb) + 2 > pb_capacity pb then (-1, pb)
      else (0, pb\<lparr> pb_data := store_bytes (le_bytes 2 (htons_i16 v)) (pb_position pb) (pb_data pb),
                  pb_position := pb_position pb + 2 \<rparr>))"

definition protocol_buffer_write_i32 :: "32 word \<Rightarrow> protocol_buffer \<Rightarrow> int \<times> protocol_buffer" where
  "protocol_buffer_write_i32 v pb =
     (if int (pb_position pb) + 4 > pb_capacity pb then (-1, pb)
      else (0, pb\<lparr> pb_data := store_bytes (le_bytes 4 (htonl_i32 v)) (pb_position pb) (pb_data pb),
                  pb_position := pb_position pb + 4 \<rparr>))"

definition protocol_buffer_write_i64 :: "64 word \<Rightarrow> protocol_buffer \<Rightarrow> int \<times> protocol_buffer" where
  "protocol_buffer_write_i64 v pb =
     (if int (pb_position pb) + 8 > pb_capacity pb then (-1, pb)
      else (0, pb\<lparr> pb_data := store_bytes (le_bytes 8 (htonll_i64 v)) (pb_position pb) (pb_data pb),
                  pb_position := pb_position pb + 8 \<rparr>))"

definition char_byte :: "char \<Rightarrow> byte" where
  "char_byte c = word_of_nat (of_char c)"

definition byte_char :: "byte \<Rightarrow> char" where
  "byte_char b = char_of (unat b)"

definition protocol_buffer_write_bytes :: "byte list \<Rightarrow> protocol_buffer \<Rightarrow> int \<times> protocol_buffer" where
  "protocol_buffer_write_bytes data pb =
     (if int (pb_position pb) + int (length data) > pb_capacity pb then (-1, pb)
      else (0, pb\<lparr> pb_data := store_bytes data (pb_position pb) (pb_data pb),
                  pb_position := pb_position pb + length data \<rparr>))"

definition protocol_buffer_write_string :: "string \<Rightarrow> protocol_buffer \<Rightarrow> int \<times> protocol_buffer" where
  "protocol_buffer_write_string str pb =
     (let len = (if length str > 32767 then 32767 else length str) in
      if int (pb_position pb) + 2 + int len > pb_capacity pb then (-1, pb)
      else
        (let (r, pb1) = protocol_buffer_write_i16 (word_of_nat len) pb in
         if r \<noteq> 0 then (-1, pb1)
         else (0, pb1\<lparr> pb_data := store_bytes (map char_byte (take len str)) (pb_position pb1) (pb_data pb1),
                      pb_position := pb_position pb1 + len \<rparr>)))"

definition protocol_buffer_read_i16 :: "protocol_buffer \<Rightarrow> (16 word \<times> protocol_buffer) option" where
  "protocol_buffer_read_i16 pb =
     (if int (pb_position pb) + 2 > pb_limit pb then None
      else Some (ntohs_i16 (le_value (take 2 (drop (pb_position pb) (pb_data pb)))),
                 pb\<lparr> pb_position := pb_position pb + 2 \<rparr>))"

definition protocol_buffer_read_i32 :: "protocol_buffer \<Rightarrow> (32 word \<times> protocol_buffer) option" where
  "protocol_buffer_read_i32 pb =
     (if int (pb_position pb) + 4 > pb_limit pb then None
      else Some (ntohl_i32 (le_value (take 4 (drop (pb_position pb) (pb_data pb)))),
                 pb\<lparr> pb_position := pb_position pb + 4 \<rparr>))"

definition protocol_buffer_read_i64 :: "protocol_buffer \<Rightarrow> (64 word \<times> protocol_buffer) option" where
  "protocol_buffer_read_i64 pb =
     (if int (pb_position pb) + 8 > pb_limit pb then None
      else Some (ntohll_i64 (le_value (take 8 (drop (pb_position pb) (pb_data pb)))),
                 pb\<lparr> pb_position := pb_position pb + 8 \<rparr>))"

text \<open>
  Reading a string: the length is cut to what the destination holds, and the position then
  moves by the cut length. A negative length reaches \<open>memcpy\<close>. On a failure the position has
  already moved past the length.
\<close>

definition protocol_buffer_read_string :: "int \<Rightarrow> protocol_buffer \<Rightarrow> (string option \<times> protocol_buffer) outcome" where
  "protocol_buffer_read_string max_len pb =
     (case protocol_buffer_read_i16 pb of None \<Rightarrow> Done (None, pb)
      | Some (raw, pb1) \<Rightarrow>
          (let n = (if sint raw \<ge> max_len then sint (word_of_int (max_len - 1) :: 16 word) else sint raw) in
           if int (pb_position pb1) + n > pb_limit pb1 then Done (None, pb1)
           else if n < 0 then Undefined
           else Done (Some (map byte_char (take (nat n) (drop (pb_position pb1) (pb_data pb1)))),
                      pb1\<lparr> pb_position := pb_position pb1 + nat n \<rparr>)))"

section \<open>Serialisers\<close>

text \<open>
  The writes of a serialiser one after the other, their results dropped, into a fresh buffer
  whose first four bytes are left for the size; then the size and the copy to the output.
\<close>

definition run_writes :: "(protocol_buffer \<Rightarrow> int \<times> protocol_buffer) list \<Rightarrow> protocol_buffer \<Rightarrow> protocol_buffer" where
  "run_writes ws pb = fold (\<lambda>w pb. snd (w pb)) ws pb"

definition finish_message :: "int \<Rightarrow> protocol_buffer \<Rightarrow> byte list option" where
  "finish_message out_max pb =
     (let total_size = int (pb_position pb) - 4;
          data = store_bytes (le_bytes 4 (htonl_i32 (word_of_int total_size))) 0 (pb_data pb)
      in if int (pb_position pb) \<le> out_max then Some (take (pb_position pb) data) else None)"

definition header_writes :: "request_header \<Rightarrow> (protocol_buffer \<Rightarrow> int \<times> protocol_buffer) list" where
  "header_writes h =
     [protocol_buffer_write_i16 (rh_api_key h), protocol_buffer_write_i16 (rh_api_version h),
      protocol_buffer_write_i32 (rh_correlation_id h), protocol_buffer_write_string (rh_client_id h)]"

definition produce_request_serialize :: "bool \<Rightarrow> produce_request \<Rightarrow> int \<Rightarrow> byte list option" where
  "produce_request_serialize mem req out_max =
     (if out_max < 50 then None
      else (case protocol_buffer_create mem out_max of None \<Rightarrow> None
      | Some pb \<Rightarrow>
          finish_message out_max (run_writes
            (header_writes (preq_header req) @
             [protocol_buffer_write_i16 (required_acks req), protocol_buffer_write_i32 (timeout_ms req),
              protocol_buffer_write_string (preq_topic req), protocol_buffer_write_i32 (preq_partition req),
              protocol_buffer_write_i32 (message_count req)])
            (pb\<lparr> pb_position := 4 \<rparr>))))"

definition produce_response_serialize :: "bool \<Rightarrow> produce_response \<Rightarrow> int \<Rightarrow> byte list option" where
  "produce_response_serialize mem resp out_max =
     (if out_max < 30 then None
      else (case protocol_buffer_create mem out_max of None \<Rightarrow> None
      | Some pb \<Rightarrow>
          finish_message out_max (run_writes
            [protocol_buffer_write_i32 (rsh_correlation_id (presp_header resp)),
             protocol_buffer_write_string (presp_topic resp),
             protocol_buffer_write_i32 (presp_partition resp),
             protocol_buffer_write_i16 (presp_error_code resp),
             protocol_buffer_write_i64 (presp_base_offset resp),
             protocol_buffer_write_i64 (log_append_time_ms resp)]
            (pb\<lparr> pb_position := 4 \<rparr>))))"

definition fetch_request_serialize :: "bool \<Rightarrow> fetch_request \<Rightarrow> int \<Rightarrow> byte list option" where
  "fetch_request_serialize mem req out_max =
     (if out_max < 60 then None
      else (case protocol_buffer_create mem out_max of None \<Rightarrow> None
      | Some pb \<Rightarrow>
          finish_message out_max (run_writes
            (header_writes (freq_header req) @
             [protocol_buffer_write_i32 (replica_id req), protocol_buffer_write_i32 (max_wait_ms req),
              protocol_buffer_write_i32 (min_bytes req), protocol_buffer_write_string (freq_topic req),
              protocol_buffer_write_i32 (freq_partition req), protocol_buffer_write_i64 (fetch_offset req),
              protocol_buffer_write_i32 (max_bytes req)])
            (pb\<lparr> pb_position := 4 \<rparr>))))"

definition fetch_response_serialize :: "bool \<Rightarrow> fetch_response \<Rightarrow> int \<Rightarrow> byte list option" where
  "fetch_response_serialize mem resp out_max =
     (if out_max < 30 then None
      else (case protocol_buffer_create mem out_max of None \<Rightarrow> None
      | Some pb \<Rightarrow>
          finish_message out_max (run_writes
            [protocol_buffer_write_i32 (rsh_correlation_id (fresp_header resp)),
             protocol_buffer_write_string (fresp_topic resp),
             protocol_buffer_write_i32 (fresp_partition resp),
             protocol_buffer_write_i16 (fresp_error_code resp),
             protocol_buffer_write_i64 (fresp_high_watermark resp),
             protocol_buffer_write_i32 (fresp_record_count resp)]
            (pb\<lparr> pb_position := 4 \<rparr>))))"

definition offset_commit_request_serialize :: "bool \<Rightarrow> offset_commit_request \<Rightarrow> int \<Rightarrow> byte list option" where
  "offset_commit_request_serialize mem req out_max =
     (if out_max < 80 then None
      else (case protocol_buffer_create mem out_max of None \<Rightarrow> None
      | Some pb \<Rightarrow>
          finish_message out_max (run_writes
            (header_writes (ocreq_header req) @
             [protocol_buffer_write_string (ocreq_group_id req), protocol_buffer_write_string (ocreq_topic req),
              protocol_buffer_write_i32 (ocreq_partition req),
              protocol_buffer_write_i64 (committed_offset req),
              protocol_buffer_write_i64 (commit_timestamp req),
              protocol_buffer_write_string (ocreq_metadata req)])
            (pb\<lparr> pb_position := 4 \<rparr>))))"

definition offset_fetch_response_serialize :: "bool \<Rightarrow> offset_fetch_response \<Rightarrow> int \<Rightarrow> byte list option" where
  "offset_fetch_response_serialize mem resp out_max =
     (if out_max < 40 then None
      else (case protocol_buffer_create mem out_max of None \<Rightarrow> None
      | Some pb \<Rightarrow>
          finish_message out_max (run_writes
            [protocol_buffer_write_i32 (rsh_correlation_id (ofresp_header resp)),
             protocol_buffer_write_string (ofresp_topic resp),
             protocol_buffer_write_i32 (ofresp_partition resp),
             protocol_buffer_write_i64 (ofresp_offset resp),
             protocol_buffer_write_i16 (ofresp_error_code resp)]
            (pb\<lparr> pb_position := 4 \<rparr>))))"

section \<open>Versions, errors, validation\<close>

definition wire_api_versions_supported :: "api_key \<Rightarrow> 16 word \<Rightarrow> int" where
  "wire_api_versions_supported key version =
     (case key of
        API_KEY_PRODUCE \<Rightarrow> if sint version \<ge> 0 \<and> sint version \<le> 7 then 1 else 0
      | API_KEY_FETCH \<Rightarrow> if sint version \<ge> 0 \<and> sint version \<le> 7 then 1 else 0
      | API_KEY_METADATA \<Rightarrow> if sint version \<ge> 0 \<and> sint version \<le> 5 then 1 else 0
      | API_KEY_OFFSET_COMMIT \<Rightarrow> if sint version \<ge> 0 \<and> sint version \<le> 5 then 1 else 0
      | API_KEY_OFFSET_FETCH \<Rightarrow> if sint version \<ge> 0 \<and> sint version \<le> 3 then 1 else 0
      | API_KEY_FIND_COORDINATOR \<Rightarrow> if sint version \<ge> 0 \<and> sint version \<le> 2 then 1 else 0
      | API_KEY_JOIN_GROUP \<Rightarrow> if sint version \<ge> 0 \<and> sint version \<le> 4 then 1 else 0
      | API_KEY_HEARTBEAT \<Rightarrow> if sint version \<ge> 0 \<and> sint version \<le> 3 then 1 else 0
      | API_KEY_LEAVE_GROUP \<Rightarrow> if sint version \<ge> 0 \<and> sint version \<le> 2 then 1 else 0
      | API_KEY_SYNC_GROUP \<Rightarrow> if sint version \<ge> 0 \<and> sint version \<le> 3 then 1 else 0
      | API_KEY_API_VERSIONS \<Rightarrow> if sint version \<ge> 0 \<and> sint version \<le> 2 then 1 else 0
      | API_KEY_CREATE_TOPICS \<Rightarrow> if sint version \<ge> 0 \<and> sint version \<le> 3 then 1 else 0
      | API_KEY_DELETE_TOPICS \<Rightarrow> if sint version \<ge> 0 \<and> sint version \<le> 2 then 1 else 0
      | _ \<Rightarrow> 0)"

definition wire_get_max_supported_version :: "api_key \<Rightarrow> int" where
  "wire_get_max_supported_version key =
     (case key of
        API_KEY_PRODUCE \<Rightarrow> 7 | API_KEY_FETCH \<Rightarrow> 7 | API_KEY_METADATA \<Rightarrow> 5
      | API_KEY_OFFSET_COMMIT \<Rightarrow> 5 | API_KEY_OFFSET_FETCH \<Rightarrow> 3 | API_KEY_FIND_COORDINATOR \<Rightarrow> 2
      | API_KEY_JOIN_GROUP \<Rightarrow> 4 | API_KEY_HEARTBEAT \<Rightarrow> 3 | API_KEY_LEAVE_GROUP \<Rightarrow> 2
      | API_KEY_SYNC_GROUP \<Rightarrow> 3 | API_KEY_API_VERSIONS \<Rightarrow> 2 | API_KEY_CREATE_TOPICS \<Rightarrow> 3
      | API_KEY_DELETE_TOPICS \<Rightarrow> 2 | _ \<Rightarrow> -1)"

definition wire_error_string :: "protocol_error \<Rightarrow> string" where
  "wire_error_string error =
     (case error of
        ERROR_NONE \<Rightarrow> ''No error''
      | ERROR_UNKNOWN \<Rightarrow> ''Unknown server error''
      | ERROR_OFFSET_OUT_OF_RANGE \<Rightarrow> ''Offset out of range''
      | ERROR_CORRUPT_MESSAGE \<Rightarrow> ''Corrupt message''
      | ERROR_UNKNOWN_TOPIC_OR_PART \<Rightarrow> ''Unknown topic or partition''
      | ERROR_LEADER_NOT_AVAILABLE \<Rightarrow> ''Leader not available''
      | ERROR_NOT_LEADER_FOR_PARTITION \<Rightarrow> ''Not leader for partition''
      | ERROR_REQUEST_TIMED_OUT \<Rightarrow> ''Request timed out''
      | ERROR_BROKER_NOT_AVAILABLE \<Rightarrow> ''Broker not available''
      | ERROR_MESSAGE_TOO_LARGE \<Rightarrow> ''Message too large''
      | ERROR_NETWORK_EXCEPTION \<Rightarrow> ''Network exception''
      | ERROR_NOT_ENOUGH_REPLICAS \<Rightarrow> ''Not enough replicas''
      | ERROR_ILLEGAL_GENERATION \<Rightarrow> ''Illegal generation''
      | ERROR_UNKNOWN_MEMBER_ID \<Rightarrow> ''Unknown member ID''
      | ERROR_REBALANCE_IN_PROGRESS \<Rightarrow> ''Rebalance in progress''
      | ERROR_UNSUPPORTED_VERSION \<Rightarrow> ''Unsupported version''
      | ERROR_TOPIC_ALREADY_EXISTS \<Rightarrow> ''Topic already exists''
      | ERROR_INVALID_PARTITIONS \<Rightarrow> ''Invalid partitions''
      | _ \<Rightarrow> ''Unknown error code'')"

definition wire_validate_request_header :: "byte list \<Rightarrow> int" where
  "wire_validate_request_header data =
     (if length data < 12 then -1
      else
        (let msg_size = sint (push_bit 24 (ucast (data ! 0)) OR push_bit 16 (ucast (data ! 1)) OR
                              push_bit 8 (ucast (data ! 2)) OR ucast (data ! 3) :: 32 word);
             api_key = sint (push_bit 8 (ucast (data ! 4)) OR ucast (data ! 5) :: 16 word);
             correlation_id = sint (push_bit 24 (ucast (data ! 8)) OR push_bit 16 (ucast (data ! 9)) OR
                              push_bit 8 (ucast (data ! 10)) OR ucast (data ! 11) :: 32 word)
         in if msg_size < 0 \<or> msg_size > WIRE_MAX_REQUEST_SIZE then -1
            else if int (length data) < msg_size + 4 then -1
            else if api_key < 0 \<or> api_key > 50 then -1
            else if correlation_id < 0 then -1
            else if length data > 14 \<and> unat (data ! 12) + 14 > length data then -1
            else 0))"

text \<open>The estimate is a 32 bit integer: its overflow is undefined.\<close>

definition wire_estimate_response_size :: "api_key \<Rightarrow> int \<Rightarrow> int outcome" where
  "wire_estimate_response_size key record_count =
     (let base = (case key of
          API_KEY_PRODUCE \<Rightarrow> 60
        | API_KEY_FETCH \<Rightarrow> 60 + record_count * (30 + 256)
        | API_KEY_METADATA \<Rightarrow> 80
        | API_KEY_OFFSET_COMMIT \<Rightarrow> 40
        | API_KEY_OFFSET_FETCH \<Rightarrow> 50
        | API_KEY_FIND_COORDINATOR \<Rightarrow> 40
        | API_KEY_JOIN_GROUP \<Rightarrow> 200
        | API_KEY_HEARTBEAT \<Rightarrow> 20
        | API_KEY_SYNC_GROUP \<Rightarrow> 200
        | _ \<Rightarrow> 100)
      in if base > 2 ^ 31 - 1 \<or> base < - (2 ^ 31) then Undefined
         else Done (if base > WIRE_MAX_RESPONSE_SIZE then WIRE_MAX_RESPONSE_SIZE else base))"

section \<open>Network byte order\<close>

lemma bit_byte_mask: "bit (push_bit k (mask 8) :: 'a::len word) n \<longleftrightarrow> k \<le> n \<and> n < k + 8 \<and> n < LENGTH('a)"
  by (auto simp: bit_simps)

lemma byte_masks:
  "(0xFF00 :: 32 word) = push_bit 8 (mask 8)" "(0xFF0000 :: 32 word) = push_bit 16 (mask 8)"
  "(0xFF00 :: 64 word) = push_bit 8 (mask 8)" "(0xFF0000 :: 64 word) = push_bit 16 (mask 8)"
  "(0xFF000000 :: 64 word) = push_bit 24 (mask 8)" "(0xFF00000000 :: 64 word) = push_bit 32 (mask 8)"
  "(0xFF0000000000 :: 64 word) = push_bit 40 (mask 8)"
  "(0xFF000000000000 :: 64 word) = push_bit 48 (mask 8)"
  by (simp_all add: mask_eq_exp_minus_1)

lemma bit_byte: "bit (ucast (drop_bit k w) :: byte) n \<longleftrightarrow> n < 8 \<and> bit w (k + n)" for w :: "'a::len word"
  by (auto simp: bit_simps)

lemma bit_htons: "bit (htons_i16 v) n \<longleftrightarrow> bit v (8 + n) \<or> 8 \<le> n \<and> n < 16 \<and> bit v (n - 8)"
  by (auto simp: htons_i16_def bit_simps)

lemma bit_htonl: "bit (htonl_i32 v) n \<longleftrightarrow> bit v (24 + n) \<or> 8 \<le> n \<and> n < 16 \<and> bit v (8 + n) \<or>
    16 \<le> n \<and> n < 24 \<and> bit v (n - 8) \<or> 24 \<le> n \<and> n < 32 \<and> bit v (n - 24)"
  unfolding htonl_i32_def byte_masks bit_or_iff bit_and_iff bit_byte_mask
  by (auto simp: bit_drop_bit_eq bit_push_bit_iff)

lemma bit_htonll: "bit (htonll_i64 v) n \<longleftrightarrow> bit v (56 + n) \<or> 8 \<le> n \<and> n < 16 \<and> bit v (40 + n) \<or>
    16 \<le> n \<and> n < 24 \<and> bit v (24 + n) \<or> 24 \<le> n \<and> n < 32 \<and> bit v (8 + n) \<or>
    32 \<le> n \<and> n < 40 \<and> bit v (n - 8) \<or> 40 \<le> n \<and> n < 48 \<and> bit v (n - 24) \<or>
    48 \<le> n \<and> n < 56 \<and> bit v (n - 40) \<or> 56 \<le> n \<and> n < 64 \<and> bit v (n - 56)"
  unfolding htonll_i64_def byte_masks bit_or_iff bit_and_iff bit_byte_mask
  by (intro arg_cong2[where f = "(\<or>)"]) (auto simp: bit_drop_bit_eq bit_push_bit_iff dest: bit_imp_le_length)

lemma byte_eqI: "(\<And>n. n < 8 \<Longrightarrow> bit v (j + n) = bit w (k + n)) \<Longrightarrow>
    (ucast (drop_bit j v) :: byte) = ucast (drop_bit k w)" for v w :: "'a::len word"
  by (rule bit_word_eqI) (simp add: bit_byte)

lemma bit_beyond: "LENGTH('a) \<le> n \<Longrightarrow> \<not> bit (w :: 'a::len word) n"
  by (auto dest: bit_imp_le_length)

lemma htons_bytes:
  "(ucast (htons_i16 v) :: byte) = ucast (drop_bit 8 v)" "(ucast (drop_bit 8 (htons_i16 v)) :: byte) = ucast v"
  using byte_eqI[of "htons_i16 v" 0 v 8] byte_eqI[of "htons_i16 v" 8 v 0]
  by (simp_all add: bit_htons bit_beyond)

lemma htonl_byte:
  assumes "k < 4"
  shows "(ucast (drop_bit (8 * k) (htonl_i32 v)) :: byte) = ucast (drop_bit (24 - 8 * k) v)"
proof (rule byte_eqI)
  fix n :: nat assume "n < 8"
  moreover have "k = 0 \<or> k = 1 \<or> k = 2 \<or> k = 3" using assms by linarith
  ultimately show "bit (htonl_i32 v) (8 * k + n) = bit v (24 - 8 * k + n)"
    by (elim disjE) (simp_all add: bit_htonl bit_beyond)
qed

lemma htonll_byte:
  assumes "k < 8"
  shows "(ucast (drop_bit (8 * k) (htonll_i64 v)) :: byte) = ucast (drop_bit (56 - 8 * k) v)"
proof (rule byte_eqI)
  fix n :: nat assume "n < 8"
  moreover have "k = 0 \<or> k = 1 \<or> k = 2 \<or> k = 3 \<or> k = 4 \<or> k = 5 \<or> k = 6 \<or> k = 7" using assms by linarith
  ultimately show "bit (htonll_i64 v) (8 * k + n) = bit v (56 - 8 * k + n)"
    by (elim disjE) (simp_all add: bit_htonll bit_beyond)
qed

lemma le_bytes_map: "le_bytes n w = map (\<lambda>k. ucast (drop_bit (8 * k) w)) [0..<n]"
  by (induction n arbitrary: w)
     (simp_all add: upt_conv_Cons map_Suc_upt[symmetric] comp_def drop_bit_drop_bit add.commute del: upt_Suc)

lemma be_bytes_map: "be_bytes n w = map (\<lambda>k. ucast (drop_bit (8 * (n - Suc k)) w)) [0..<n]"
  by (rule nth_equalityI) (simp_all add: be_bytes_def le_bytes_map rev_nth)

lemma net_bytes: "le_bytes 2 (htons_i16 v) = be_bytes 2 v"
  "le_bytes 4 (htonl_i32 w) = be_bytes 4 w" "le_bytes 8 (htonll_i64 x) = be_bytes 8 x"
proof -
  show "le_bytes 2 (htons_i16 v) = be_bytes 2 v"
    by (simp add: be_bytes_def numeral_2_eq_2 htons_bytes)
  show "le_bytes 4 (htonl_i32 w) = be_bytes 4 w"
    unfolding le_bytes_map be_bytes_map
    by (intro map_cong refl, subst htonl_byte) (auto simp: diff_mult_distrib2)
  show "le_bytes 8 (htonll_i64 x) = be_bytes 8 x"
    unfolding le_bytes_map be_bytes_map
    by (intro map_cong refl, subst htonll_byte) (auto simp: diff_mult_distrib2)
qed

lemma le_bytes_inject: "LENGTH('a) \<le> 8 * n \<Longrightarrow> le_bytes n v = le_bytes n w \<Longrightarrow> v = (w :: 'a::len word)"
  by (metis le_value_full)

lemma net_swap: "htons_i16 (htons_i16 v) = v" "htonl_i32 (htonl_i32 w) = w" "htonll_i64 (htonll_i64 x) = x"
proof -
  show "htons_i16 (htons_i16 v) = v"
    by (rule le_bytes_inject[where n = 2]) (simp_all only: net_bytes be_bytes_def rev_rev_ident, simp)
  show "htonl_i32 (htonl_i32 w) = w"
    by (rule le_bytes_inject[where n = 4]) (simp_all only: net_bytes be_bytes_def rev_rev_ident, simp)
  show "htonll_i64 (htonll_i64 x) = x"
    by (rule le_bytes_inject[where n = 8]) (simp_all only: net_bytes be_bytes_def rev_rev_ident, simp)
qed

lemma net_read:
  "ntohs_i16 (le_value (be_bytes 2 v)) = v"
  "ntohl_i32 (le_value (be_bytes 4 w)) = w"
  "ntohll_i64 (le_value (be_bytes 8 x)) = x"
  unfolding net_bytes[symmetric] by (simp_all add: le_value_full net_swap ntohs_i16_def ntohl_i32_def ntohll_i64_def)

section \<open>Writes as appends\<close>

text \<open>
  On a buffer whose capacity is the size of its data, every write either stores a fixed
  sequence of bytes at the position and moves past it, or leaves the buffer alone.
\<close>

definition wf_pb :: "protocol_buffer \<Rightarrow> bool" where
  "wf_pb pb \<longleftrightarrow> pb_capacity pb = int (length (pb_data pb)) \<and> pb_position pb \<le> length (pb_data pb)"

definition put_bytes :: "byte list \<Rightarrow> protocol_buffer \<Rightarrow> protocol_buffer" where
  "put_bytes bs pb =
     (if pb_position pb + length bs > length (pb_data pb) then pb
      else pb\<lparr> pb_data := store_bytes bs (pb_position pb) (pb_data pb), pb_position := pb_position pb + length bs \<rparr>)"

definition string_bytes :: "string \<Rightarrow> byte list" where
  "string_bytes s = be_bytes 2 (word_of_nat (min (length s) 32767) :: 16 word) @ map char_byte (take 32767 s)"

definition writes :: "byte list \<Rightarrow> (protocol_buffer \<Rightarrow> int \<times> protocol_buffer) \<Rightarrow> bool" where
  "writes bs w \<longleftrightarrow> (\<forall>pb. wf_pb pb \<longrightarrow> snd (w pb) = put_bytes bs pb)"

lemma length_store_bytes [simp]: "pos + length bs \<le> length d \<Longrightarrow> length (store_bytes bs pos d) = length d"
  by (simp add: store_bytes_def)

lemma store_bytes_append:
  "pos + length bs + length cs \<le> length d \<Longrightarrow>
   store_bytes cs (pos + length bs) (store_bytes bs pos d) = store_bytes (bs @ cs) pos d"
  by (simp add: store_bytes_def ac_simps)

lemma wf_put_bytes [simp]: "wf_pb pb \<Longrightarrow> wf_pb (put_bytes bs pb)"
  by (auto simp: wf_pb_def put_bytes_def)

lemma capacity_put_bytes [simp]: "length (pb_data (put_bytes bs pb)) = length (pb_data pb)"
  by (simp add: put_bytes_def)

lemma writes_i16: "writes (be_bytes 2 v) (protocol_buffer_write_i16 v)"
  by (auto simp: writes_def protocol_buffer_write_i16_def put_bytes_def wf_pb_def net_bytes)

lemma writes_i32: "writes (be_bytes 4 v) (protocol_buffer_write_i32 v)"
  by (auto simp: writes_def protocol_buffer_write_i32_def put_bytes_def wf_pb_def net_bytes)

lemma writes_i64: "writes (be_bytes 8 v) (protocol_buffer_write_i64 v)"
  by (auto simp: writes_def protocol_buffer_write_i64_def put_bytes_def wf_pb_def net_bytes)

lemma writes_string: "writes (string_bytes s) (protocol_buffer_write_string s)"
  unfolding writes_def
proof (intro allI impI)
  fix pb :: protocol_buffer
  assume wf: "wf_pb pb"
  define len where "len = min (length s) 32767"
  have l: "(if length s > 32767 then 32767 else length s) = len" by (simp add: len_def)
  have t: "take len s = take 32767 s" by (simp add: len_def min_def)
  have lt: "length (take 32767 s) = len" by (simp add: len_def)
  show "snd (protocol_buffer_write_string s pb) = put_bytes (string_bytes s) pb"
  proof (cases "pb_position pb + 2 + len > length (pb_data pb)")
    case True
    then show ?thesis using wf
      by (simp add: protocol_buffer_write_string_def l wf_pb_def put_bytes_def string_bytes_def lt len_def[symmetric])
  next
    case False
    have "store_bytes (map char_byte (take 32767 s)) (Suc (Suc (pb_position pb)))
        (store_bytes (be_bytes 2 (word_of_nat len :: 16 word)) (pb_position pb) (pb_data pb)) =
      store_bytes (string_bytes s) (pb_position pb) (pb_data pb)"
      using store_bytes_append[of "pb_position pb" "be_bytes 2 (word_of_nat len :: 16 word)"
          "map char_byte (take 32767 s)" "pb_data pb"] False
      by (simp add: string_bytes_def lt len_def[symmetric])
    with False wf show ?thesis
      by (simp add: protocol_buffer_write_string_def l wf_pb_def put_bytes_def
          protocol_buffer_write_i16_def net_bytes t string_bytes_def lt len_def[symmetric])
  qed
qed

lemmas writes_rules = writes_i16 writes_i32 writes_i64 writes_string

lemma run_writes_put:
  "list_all2 writes bss ws \<Longrightarrow> wf_pb pb \<Longrightarrow> run_writes ws pb = fold put_bytes bss pb \<and> wf_pb (fold put_bytes bss pb)"
  by (induction arbitrary: pb rule: list_all2_induct) (simp_all add: run_writes_def writes_def)

lemma fold_put_bytes:
  "wf_pb pb \<Longrightarrow> pb_position pb + length (concat bss) \<le> length (pb_data pb) \<Longrightarrow>
   fold put_bytes bss pb =
     pb\<lparr> pb_data := store_bytes (concat bss) (pb_position pb) (pb_data pb),
        pb_position := pb_position pb + length (concat bss) \<rparr>"
proof (induction bss arbitrary: pb)
  case Nil
  then show ?case by (simp add: store_bytes_def)
next
  case (Cons bs bss)
  have fit: "\<not> pb_position pb + length bs > length (pb_data pb)" using Cons.prems by simp
  have "pb_position (put_bytes bs pb) + length (concat bss) \<le> length (pb_data (put_bytes bs pb))"
    using Cons.prems(2) fit by (simp add: put_bytes_def)
  from Cons.IH[OF wf_put_bytes[OF Cons.prems(1)] this] show ?case
    using Cons.prems(2) fit by (simp add: put_bytes_def store_bytes_append add.assoc)
qed

text \<open>A message: the four bytes of its size, then the fields.\<close>

definition message_layout :: "byte list list \<Rightarrow> byte list" where
  "message_layout bss = be_bytes 4 (word_of_nat (length (concat bss)) :: 32 word) @ concat bss"

definition send_message :: "(protocol_buffer \<Rightarrow> int \<times> protocol_buffer) list \<Rightarrow> int \<Rightarrow> byte list option" where
  "send_message ws out_max =
     (case protocol_buffer_create True out_max of None \<Rightarrow> None
      | Some pb \<Rightarrow> finish_message out_max (run_writes ws (pb\<lparr> pb_position := 4 \<rparr>)))"

lemma fold_put_position:
  "pb_position pb \<le> pb_position (fold put_bytes bss pb) \<and>
   length (pb_data (fold put_bytes bss pb)) = length (pb_data pb)"
proof (induction bss arbitrary: pb)
  case (Cons bs bss)
  have "pb_position pb \<le> pb_position (put_bytes bs pb)" by (simp add: put_bytes_def)
  with Cons.IH[of "put_bytes bs pb"] show ?case by simp
qed simp

lemma send_message_total:
  assumes "list_all2 writes bss ws" "4 \<le> out_max"
  shows "\<exists>bs. send_message ws out_max = Some bs \<and> int (length bs) \<le> out_max"
proof -
  define pb where "pb = \<lparr> pb_data = replicate (nat out_max) 0, pb_capacity = out_max, pb_position = 4, pb_limit = out_max \<rparr>"
  have wf: "wf_pb pb" using assms(2) by (simp add: wf_pb_def pb_def)
  note r = run_writes_put[OF assms(1) wf]
  have "int (pb_position (run_writes ws pb)) \<le> out_max"
    using r fold_put_position[of pb bss] assms(2) by (auto simp: wf_pb_def pb_def)
  with assms(2) show ?thesis
    by (simp add: send_message_def protocol_buffer_create_def pb_def finish_message_def Let_def)
qed

lemma send_message_layout:
  assumes "list_all2 writes bss ws" "int (length (message_layout bss)) \<le> out_max"
  shows "send_message ws out_max = Some (message_layout bss)"
proof -
  define pb where "pb = \<lparr> pb_data = replicate (nat out_max) 0, pb_capacity = out_max, pb_position = 4, pb_limit = out_max \<rparr>"
  define n where "n = length (concat bss)"
  have fit: "4 + int n \<le> out_max" using assms(2) by (simp add: message_layout_def n_def)
  have wf: "wf_pb pb" using fit by (simp add: wf_pb_def pb_def)
  have "run_writes ws pb = pb\<lparr> pb_data := store_bytes (concat bss) 4 (pb_data pb), pb_position := 4 + n \<rparr>"
    using run_writes_put[OF assms(1) wf] fold_put_bytes[OF wf, of bss] fit
    by (simp add: pb_def n_def)
  moreover have "take (4 + n) (store_bytes (be_bytes 4 (word_of_int (int n) :: 32 word)) 0
      (store_bytes (concat bss) 4 (replicate (nat out_max) 0))) = message_layout bss"
    using fit by (simp add: store_bytes_def message_layout_def n_def min_def)
  ultimately show ?thesis
    using fit
    by (simp add: send_message_def protocol_buffer_create_def pb_def finish_message_def Let_def net_bytes)
qed

section \<open>Requests\<close>

definition header_fields :: "request_header \<Rightarrow> byte list list" where
  "header_fields h = [be_bytes 2 (rh_api_key h), be_bytes 2 (rh_api_version h),
     be_bytes 4 (rh_correlation_id h), string_bytes (rh_client_id h)]"

definition produce_request_fields :: "produce_request \<Rightarrow> byte list list" where
  "produce_request_fields req = header_fields (preq_header req) @
     [be_bytes 2 (required_acks req), be_bytes 4 (timeout_ms req), string_bytes (preq_topic req),
      be_bytes 4 (preq_partition req), be_bytes 4 (message_count req)]"

lemma header_writes_fields: "list_all2 writes (header_fields h) (header_writes h)"
  by (simp add: header_fields_def header_writes_def writes_rules)

lemma produce_request_serialize_send:
  "\<exists>ws. list_all2 writes (produce_request_fields req) ws \<and>
     (\<forall>out_max. produce_request_serialize True req out_max =
        (if out_max < 50 then None else send_message ws out_max))"
proof (intro exI conjI allI)
  show "list_all2 writes (produce_request_fields req)
      (header_writes (preq_header req) @
       [protocol_buffer_write_i16 (required_acks req), protocol_buffer_write_i32 (timeout_ms req),
        protocol_buffer_write_string (preq_topic req), protocol_buffer_write_i32 (preq_partition req),
        protocol_buffer_write_i32 (message_count req)])"
    unfolding produce_request_fields_def
    by (intro list_all2_appendI header_writes_fields) (simp add: writes_rules)
qed (simp add: produce_request_serialize_def send_message_def)

lemma fetch_request_layout:
  assumes "60 \<le> out_max"
    "int (length (message_layout (header_fields (freq_header req) @
        [be_bytes 4 (replica_id req), be_bytes 4 (max_wait_ms req), be_bytes 4 (min_bytes req),
         string_bytes (freq_topic req), be_bytes 4 (freq_partition req), be_bytes 8 (fetch_offset req),
         be_bytes 4 (max_bytes req)]))) \<le> out_max" (is "int (length (message_layout ?bss)) \<le> _")
  shows "fetch_request_serialize True req out_max = Some (message_layout ?bss)"
proof -
  have "list_all2 writes ?bss (header_writes (freq_header req) @
      [protocol_buffer_write_i32 (replica_id req), protocol_buffer_write_i32 (max_wait_ms req),
       protocol_buffer_write_i32 (min_bytes req), protocol_buffer_write_string (freq_topic req),
       protocol_buffer_write_i32 (freq_partition req), protocol_buffer_write_i64 (fetch_offset req),
       protocol_buffer_write_i32 (max_bytes req)])"
    by (intro list_all2_appendI header_writes_fields) (simp add: writes_rules)
  from send_message_layout[OF this assms(2)] show ?thesis
    using assms(1) by (simp add: fetch_request_serialize_def send_message_def)
qed

lemma offset_commit_request_layout:
  assumes "80 \<le> out_max"
    "int (length (message_layout (header_fields (ocreq_header req) @
        [string_bytes (ocreq_group_id req), string_bytes (ocreq_topic req),
         be_bytes 4 (ocreq_partition req), be_bytes 8 (committed_offset req),
         be_bytes 8 (commit_timestamp req), string_bytes (ocreq_metadata req)]))) \<le> out_max"
      (is "int (length (message_layout ?bss)) \<le> _")
  shows "offset_commit_request_serialize True req out_max = Some (message_layout ?bss)"
proof -
  have "list_all2 writes ?bss (header_writes (ocreq_header req) @
      [protocol_buffer_write_string (ocreq_group_id req), protocol_buffer_write_string (ocreq_topic req),
       protocol_buffer_write_i32 (ocreq_partition req), protocol_buffer_write_i64 (committed_offset req),
       protocol_buffer_write_i64 (commit_timestamp req), protocol_buffer_write_string (ocreq_metadata req)])"
    by (intro list_all2_appendI header_writes_fields) (simp add: writes_rules)
  from send_message_layout[OF this assms(2)] show ?thesis
    using assms(1) by (simp add: offset_commit_request_serialize_def send_message_def)
qed

section \<open>Reading back\<close>

definition buffer_of :: "byte list \<Rightarrow> nat \<Rightarrow> protocol_buffer" where
  "buffer_of bs pos = \<lparr> pb_data = bs, pb_capacity = int (length bs), pb_position = pos, pb_limit = int (length bs) \<rparr>"

lemma char_byte_rt [simp]: "byte_char (char_byte c) = c"
proof -
  have "of_char c < (256 :: nat)" by (rule nat_of_char_less_256)
  then have "unat (char_byte c) = of_char c"
    by (simp add: char_byte_def unat_of_nat)
  then show ?thesis by (simp add: byte_char_def)
qed

lemma read_i16_back:
  "protocol_buffer_read_i16 (buffer_of (pre @ be_bytes 2 v @ post) (length pre)) =
     Some (v, buffer_of (pre @ be_bytes 2 v @ post) (length pre + 2))"
  by (simp add: protocol_buffer_read_i16_def buffer_of_def net_read)

lemma read_i32_back:
  "protocol_buffer_read_i32 (buffer_of (pre @ be_bytes 4 v @ post) (length pre)) =
     Some (v, buffer_of (pre @ be_bytes 4 v @ post) (length pre + 4))"
  by (simp add: protocol_buffer_read_i32_def buffer_of_def net_read)

lemma read_i64_back:
  "protocol_buffer_read_i64 (buffer_of (pre @ be_bytes 8 v @ post) (length pre)) =
     Some (v, buffer_of (pre @ be_bytes 8 v @ post) (length pre + 8))"
  by (simp add: protocol_buffer_read_i64_def buffer_of_def net_read)

lemma sint_small: "n < 2 ^ 15 \<Longrightarrow> sint (word_of_nat n :: 16 word) = int n"
  by (simp add: signed_of_nat signed_take_bit_int_eq_self)

lemma length_string_bytes: "length s \<le> 32767 \<Longrightarrow> length (string_bytes s) = 2 + length s"
  by (simp add: string_bytes_def)

lemma read_string_back:
  assumes "int (length s) < max_len" "length s \<le> 32767"
  shows "protocol_buffer_read_string max_len (buffer_of (pre @ string_bytes s @ post) (length pre)) =
    Done (Some s, buffer_of (pre @ string_bytes s @ post) (length pre + 2 + length s))"
proof -
  define l where "l = be_bytes 2 (word_of_nat (length s) :: 16 word)"
  have e: "pre @ string_bytes s @ post = pre @ l @ (map char_byte s @ post)"
    using assms(2) by (simp add: string_bytes_def l_def min_def)
  have ll: "length l = 2" by (simp add: l_def)
  note r = read_i16_back[of pre "word_of_nat (length s)" "map char_byte s @ post", folded l_def]
  have "sint (word_of_nat (length s) :: 16 word) = int (length s)"
    using assms(2) by (intro sint_small) simp
  then show ?thesis
    using assms ll unfolding e protocol_buffer_read_string_def r
    by (simp add: Let_def buffer_of_def comp_def)
qed

lemma read_i16_at:
  assumes "drop n msg = be_bytes 2 v @ post"
  shows "protocol_buffer_read_i16 (buffer_of msg n) = Some (v, buffer_of msg (n + 2))"
proof -
  have "n \<le> length msg" using assms by (metis drop_all length_be_bytes list.size(3) nat_le_linear append_is_Nil_conv zero_neq_numeral)
  then show ?thesis
    using read_i16_back[of "take n msg" v post] assms by (metis append_take_drop_id length_take min.absorb2)
qed

lemma read_i32_at:
  assumes "drop n msg = be_bytes 4 v @ post"
  shows "protocol_buffer_read_i32 (buffer_of msg n) = Some (v, buffer_of msg (n + 4))"
proof -
  have "n \<le> length msg" using assms by (metis drop_all length_be_bytes list.size(3) nat_le_linear append_is_Nil_conv zero_neq_numeral)
  then show ?thesis
    using read_i32_back[of "take n msg" v post] assms by (metis append_take_drop_id length_take min.absorb2)
qed

lemma read_string_at:
  assumes "drop n msg = string_bytes s @ post" "int (length s) < max_len" "length s \<le> 32767"
  shows "protocol_buffer_read_string max_len (buffer_of msg n) = Done (Some s, buffer_of msg (n + 2 + length s))"
proof -
  have "n \<le> length msg"
    using assms(1) length_string_bytes[OF assms(3)]
    by (metis drop_all list.size(3) nat_le_linear append_is_Nil_conv add_is_0 zero_neq_numeral)
  then show ?thesis
    using read_string_back[OF assms(2,3), of "take n msg" post] assms(1)
    by (metis append_take_drop_id length_take min.absorb2)
qed

lemma drop_past: "drop n msg = xs @ post \<Longrightarrow> drop (n + length xs) msg = post"
  by (metis add.commute append_eq_conv_conj drop_drop)

text \<open>Reading a produce request field by field, into arrays of 128 characters.\<close>

definition read_request_header :: "protocol_buffer \<Rightarrow> (request_header \<times> protocol_buffer) option" where
  "read_request_header pb =
     (case protocol_buffer_read_i16 pb of None \<Rightarrow> None
      | Some (k, pb1) \<Rightarrow> (case protocol_buffer_read_i16 pb1 of None \<Rightarrow> None
      | Some (v, pb2) \<Rightarrow> (case protocol_buffer_read_i32 pb2 of None \<Rightarrow> None
      | Some (c, pb3) \<Rightarrow> (case protocol_buffer_read_string 128 pb3 of Done (Some s, pb4) \<Rightarrow>
          Some (\<lparr> rh_api_key = k, rh_api_version = v, rh_correlation_id = c, rh_client_id = s \<rparr>, pb4)
        | _ \<Rightarrow> None))))"

definition read_produce_request :: "protocol_buffer \<Rightarrow> (produce_request \<times> protocol_buffer) option" where
  "read_produce_request pb0 =
     (case read_request_header pb0 of None \<Rightarrow> None
      | Some (h, pb) \<Rightarrow> (case protocol_buffer_read_i16 pb of None \<Rightarrow> None
      | Some (a, pb1) \<Rightarrow> (case protocol_buffer_read_i32 pb1 of None \<Rightarrow> None
      | Some (t, pb2) \<Rightarrow> (case protocol_buffer_read_string 128 pb2 of Done (Some s, pb3) \<Rightarrow>
          (case protocol_buffer_read_i32 pb3 of None \<Rightarrow> None
           | Some (p, pb4) \<Rightarrow> (case protocol_buffer_read_i32 pb4 of None \<Rightarrow> None
           | Some (n, pb5) \<Rightarrow>
               Some (\<lparr> preq_header = h, required_acks = a, timeout_ms = t, preq_topic = s,
                       preq_partition = p, message_count = n \<rparr>, pb5)))
        | _ \<Rightarrow> None))))"

lemma read_request_header_at:
  assumes "drop n msg = concat (header_fields h) @ post" "length (rh_client_id h) < 128"
  shows "read_request_header (buffer_of msg n) =
    Some (h, buffer_of msg (n + length (concat (header_fields h))))"
proof -
  have d0: "drop n msg = be_bytes 2 (rh_api_key h) @ (be_bytes 2 (rh_api_version h) @
      be_bytes 4 (rh_correlation_id h) @ string_bytes (rh_client_id h) @ post)"
    using assms(1) by (simp add: header_fields_def)
  note d1 = drop_past[OF d0, unfolded length_be_bytes]
  note d2 = drop_past[OF d1, unfolded length_be_bytes]
  note d3 = drop_past[OF d2, unfolded length_be_bytes]
  have s: "int (length (rh_client_id h)) < 128" "length (rh_client_id h) \<le> 32767" using assms(2) by simp_all
  have l: "n + length (concat (header_fields h)) = n + 2 + 2 + 4 + 2 + length (rh_client_id h)"
    using s by (simp add: header_fields_def length_string_bytes)
  show ?thesis
    unfolding read_request_header_def read_i16_at[OF d0] option.case prod.case read_i16_at[OF d1]
      read_i32_at[OF d2] read_string_at[OF d3 s] outcome.case l
    by simp
qed

lemma read_produce_request_at:
  assumes "drop n msg = concat (produce_request_fields req)"
    "length (rh_client_id (preq_header req)) < 128" "length (preq_topic req) < 128"
  shows "read_produce_request (buffer_of msg n) =
    Some (req, buffer_of msg (n + length (concat (produce_request_fields req))))"
proof -
  have dh: "drop n msg = concat (header_fields (preq_header req)) @ (be_bytes 2 (required_acks req) @
      be_bytes 4 (timeout_ms req) @ string_bytes (preq_topic req) @ be_bytes 4 (preq_partition req) @
      be_bytes 4 (message_count req) @ [])"
    using assms(1) by (simp add: produce_request_fields_def)
  note d0 = drop_past[OF dh]
  note d1 = drop_past[OF d0, unfolded length_be_bytes]
  note d2 = drop_past[OF d1, unfolded length_be_bytes]
  have s: "int (length (preq_topic req)) < 128" "length (preq_topic req) \<le> 32767" using assms(3) by simp_all
  note d3 = drop_past[OF d2, unfolded length_string_bytes[OF s(2)], folded add.assoc]
  note d4 = drop_past[OF d3, unfolded length_be_bytes]
  have l: "n + length (concat (produce_request_fields req)) =
      n + length (concat (header_fields (preq_header req))) + 2 + 4 + 2 + length (preq_topic req) + 4 + 4"
    using s by (simp add: produce_request_fields_def length_string_bytes)
  show ?thesis
    unfolding read_produce_request_def read_request_header_at[OF dh assms(2)] option.case prod.case
      read_i16_at[OF d0] read_i32_at[OF d1] read_string_at[OF d2 s] outcome.case
      read_i32_at[OF d3] read_i32_at[OF d4] l
    by simp
qed

section \<open>The typed fields are codecs\<close>

definition read_front :: "(protocol_buffer \<Rightarrow> ('a \<times> protocol_buffer) option) \<Rightarrow> byte list \<Rightarrow> ('a \<times> nat) option" where
  "read_front rd bs = map_option (\<lambda>(v, pb). (v, pb_position pb)) (rd (buffer_of bs 0))"

interpretation net16: prefix_codec "\<lambda>_. True" "be_bytes 2" "read_front protocol_buffer_read_i16"
  by unfold_locales (simp add: read_front_def read_i16_back[of "[]", simplified], simp add: buffer_of_def)

interpretation net32: prefix_codec "\<lambda>_. True" "be_bytes 4" "read_front protocol_buffer_read_i32"
  by unfold_locales (simp add: read_front_def read_i32_back[of "[]", simplified], simp add: buffer_of_def)

interpretation api_version: codec_pair "\<lambda>_. True" "be_bytes 2" "read_front protocol_buffer_read_i16"
    "\<lambda>_. True" "be_bytes 2" "read_front protocol_buffer_read_i16" ..

section \<open>Properties\<close>

text \<open>
  On a little-endian host the bytes a write stores are the big-endian bytes of the value,
  for the three widths, and the swaps are their own inverses.
\<close>

theorem network_byte_order:
  "le_bytes 2 (htons_i16 a) = be_bytes 2 a \<and> le_bytes 4 (htonl_i32 b) = be_bytes 4 b \<and>
   le_bytes 8 (htonll_i64 c) = be_bytes 8 c \<and>
   ntohs_i16 (htons_i16 a) = a \<and> ntohl_i32 (htonl_i32 b) = b \<and> ntohll_i64 (htonll_i64 c) = c"
  by (simp add: net_bytes net_swap ntohs_i16_def ntohl_i32_def ntohll_i64_def)

lemma produce_request_some:
  assumes "50 \<le> out_max" "int (length (message_layout (produce_request_fields req))) \<le> out_max"
  shows "produce_request_serialize True req out_max = Some (message_layout (produce_request_fields req))"
proof -
  obtain ws where ws: "list_all2 writes (produce_request_fields req) ws"
    "\<And>m. produce_request_serialize True req m = (if m < 50 then None else send_message ws m)"
    using produce_request_serialize_send[of req] by blast
  show ?thesis using send_message_layout[OF ws(1) assms(2)] assms(1) by (simp add: ws(2))
qed

text \<open>
  C12. A produce request whose names fit their arrays and whose message fits the output is
  serialised, and reading the typed fields after the four bytes of the size gives the request
  back, with the position at the end of the message.
\<close>

theorem produce_request_roundtrip:
  assumes "50 \<le> out_max" "int (length (message_layout (produce_request_fields req))) \<le> out_max"
    "length (rh_client_id (preq_header req)) < 128" "length (preq_topic req) < 128"
  shows "\<exists>bs. produce_request_serialize True req out_max = Some bs \<and>
    read_produce_request (buffer_of bs 4) = Some (req, buffer_of bs (length bs))"
proof -
  define bs where "bs = message_layout (produce_request_fields req)"
  have d: "drop 4 bs = concat (produce_request_fields req)" by (simp add: bs_def message_layout_def)
  have "4 + length (concat (produce_request_fields req)) = length bs"
    by (simp add: bs_def message_layout_def)
  with read_produce_request_at[OF d assms(3,4)] produce_request_some[OF assms(1,2)]
  show ?thesis by (simp add: bs_def)
qed

definition demo_request :: produce_request where
  "demo_request = \<lparr> preq_header = \<lparr> rh_api_key = 0, rh_api_version = 7, rh_correlation_id = 42,
     rh_client_id = ''me'' \<rparr>, required_acks = 1, timeout_ms = 1000, preq_topic = ''orders'',
     preq_partition = 3, message_count = 1 \<rparr>"

lemma demo_request_length: "length (message_layout (produce_request_fields demo_request)) = 38"
  by (simp add: message_layout_def produce_request_fields_def header_fields_def demo_request_def
      length_string_bytes)

theorem produce_request_roundtrip_witness:
  "\<exists>bs. produce_request_serialize True demo_request 50 = Some bs \<and>
    read_produce_request (buffer_of bs 4) = Some (demo_request, buffer_of bs (length bs))"
  by (rule produce_request_roundtrip) (simp_all only: demo_request_length, simp_all add: demo_request_def)

lemma be_value_4:
  "be_value [a, b, c, d] = (push_bit 24 (ucast a) OR push_bit 16 (ucast b) OR push_bit 8 (ucast c) OR
     ucast d :: 'a::len word)"
  by (simp add: be_value_def push_bit_or or.assoc or.commute or.left_commute)

lemma be_value_2: "be_value [a, b] = (push_bit 8 (ucast a) OR ucast b :: 'a::len word)"
  by (simp add: be_value_def or.commute)

lemma take_4: "n + 4 \<le> length bs \<Longrightarrow> take 4 (drop n bs) = [bs ! n, bs ! (n + 1), bs ! (n + 2), bs ! (n + 3)]"
  by (rule nth_equalityI) (auto simp: less_Suc_eq numeral_eq_Suc)

lemma take_2: "n + 2 \<le> length bs \<Longrightarrow> take 2 (drop n bs) = [bs ! n, bs ! (n + 1)]"
  by (rule nth_equalityI) (auto simp: less_Suc_eq numeral_eq_Suc)

lemma validate_fields:
  assumes "12 \<le> length bs"
  shows "wire_validate_request_header bs =
    (let msg_size = sint (be_value (take 4 bs) :: 32 word); key = sint (be_value (take 2 (drop 4 bs)) :: 16 word);
         corr = sint (be_value (take 4 (drop 8 bs)) :: 32 word)
     in if msg_size < 0 \<or> msg_size > WIRE_MAX_REQUEST_SIZE then -1
        else if int (length bs) < msg_size + 4 then -1
        else if key < 0 \<or> key > 50 then -1
        else if corr < 0 then -1
        else if length bs > 14 \<and> unat (bs ! 12) + 14 > length bs then -1 else 0)"
proof -
  have "take 4 bs = [bs ! 0, bs ! 1, bs ! 2, bs ! 3]"
    "take 2 (drop 4 bs) = [bs ! 4, bs ! 5]" "take 4 (drop 8 bs) = [bs ! 8, bs ! 9, bs ! 10, bs ! 11]"
    using take_4[of 0 bs, unfolded add_0 drop_0] take_2[of 4 bs] take_4[of 8 bs] assms by simp_all
  then show ?thesis
    using assms unfolding wire_validate_request_header_def by (simp only: be_value_4 be_value_2) simp
qed

text \<open>
  The validation accepts every produce request the serialiser writes completely, when its
  API key is at most 50, its correlation id is not negative and its client id fits the array.
\<close>

theorem serialized_request_valid:
  assumes "50 \<le> out_max" "int (length (message_layout (produce_request_fields req))) \<le> out_max"
    "out_max \<le> WIRE_MAX_REQUEST_SIZE" "length (rh_client_id (preq_header req)) < 128"
    "0 \<le> sint (rh_api_key (preq_header req))" "sint (rh_api_key (preq_header req)) \<le> 50"
    "0 \<le> sint (rh_correlation_id (preq_header req))"
  shows "\<exists>bs. produce_request_serialize True req out_max = Some bs \<and> wire_validate_request_header bs = 0"
proof -
  define n where "n = length (concat (produce_request_fields req))"
  define bs where "bs = message_layout (produce_request_fields req)"
  define cl where "cl = (word_of_nat (length (rh_client_id (preq_header req))) :: 16 word)"
  define tl where "tl = map char_byte (rh_client_id (preq_header req)) @ be_bytes 2 (required_acks req) @
    be_bytes 4 (timeout_ms req) @ string_bytes (preq_topic req) @ be_bytes 4 (preq_partition req) @
    be_bytes 4 (message_count req)"
  have bs: "bs = be_bytes 4 (word_of_nat n :: 32 word) @ be_bytes 2 (rh_api_key (preq_header req)) @
      be_bytes 2 (rh_api_version (preq_header req)) @ be_bytes 4 (rh_correlation_id (preq_header req)) @
      be_bytes 2 cl @ tl"
    using assms(4) by (simp add: bs_def message_layout_def n_def produce_request_fields_def header_fields_def
        string_bytes_def cl_def tl_def min_def)
  have len: "length bs = 4 + n" by (simp add: bs_def message_layout_def n_def)
  have n: "n < 2 ^ 31" "int n \<le> WIRE_MAX_REQUEST_SIZE" "10 \<le> n"
    using assms(2,3) len bs by (simp_all add: bs_def[symmetric] c_consts)
  have "sint (word_of_nat n :: 32 word) = int n"
    using n(1) by (simp add: signed_of_nat signed_take_bit_int_eq_self)
  moreover have "take 4 bs = be_bytes 4 (word_of_nat n :: 32 word)"
    "take 2 (drop 4 bs) = be_bytes 2 (rh_api_key (preq_header req))"
    "take 4 (drop 8 bs) = be_bytes 4 (rh_correlation_id (preq_header req))"
    by (simp_all add: bs)
  moreover have "unat (bs ! 12) = 0"
  proof -
    have "bs ! 12 = be_bytes 2 cl ! 0" by (simp add: bs nth_append)
    also have "\<dots> = ucast (drop_bit 8 cl)" by (simp add: be_bytes_map)
    also have "drop_bit 8 cl = 0"
      using assms(4) 
      unfolding word_unat_eq_iff unat_drop_bit_eq unfolding drop_bit_eq_div cl_def
      by (simp add: unsigned_of_nat take_bit_nat_eq_self)
    finally show ?thesis by simp
  qed
  ultimately have "wire_validate_request_header bs = 0"
    using assms(5,6,7) n len by (subst validate_fields) (simp_all add: be_value_full Let_def)
  with produce_request_some[OF assms(1,2)] show ?thesis by (simp add: bs_def)
qed

theorem serialized_request_valid_witness:
  "\<exists>bs. produce_request_serialize True demo_request 50 = Some bs \<and> wire_validate_request_header bs = 0"
  by (rule serialized_request_valid)
     (simp_all only: demo_request_length, simp_all add: demo_request_def c_consts)

text \<open>
  The results of the buffer writes are ignored: a produce request that does not fit the
  output is reported as serialised all the same, with fields missing.
\<close>

theorem request_truncated_silently:
  assumes "50 \<le> out_max" "out_max < int (length (message_layout (produce_request_fields req)))"
  shows "\<exists>bs. produce_request_serialize True req out_max = Some bs \<and> int (length bs) \<le> out_max \<and>
    length bs < length (message_layout (produce_request_fields req))"
proof -
  obtain ws where ws: "list_all2 writes (produce_request_fields req) ws"
    "\<And>m. produce_request_serialize True req m = (if m < 50 then None else send_message ws m)"
    using produce_request_serialize_send[of req] by blast
  obtain bs where "send_message ws out_max = Some bs" "int (length bs) \<le> out_max"
    using send_message_total[OF ws(1), of out_max] assms(1) by auto
  then show ?thesis using assms by (intro exI[of _ bs]) (simp add: ws(2))
qed

theorem request_truncated_silently_witness:
  "\<exists>bs. produce_request_serialize True
      (demo_request\<lparr> preq_topic := replicate 100 (CHR ''x'') \<rparr>) 60 = Some bs \<and> int (length bs) \<le> 60 \<and>
    length bs < length (message_layout (produce_request_fields
      (demo_request\<lparr> preq_topic := replicate 100 (CHR ''x'') \<rparr>)))"
  by (rule request_truncated_silently)
     (simp_all add: message_layout_def produce_request_fields_def header_fields_def demo_request_def
        length_string_bytes)

text \<open>Version negotiation: the supported versions of an API are 0 to its maximum.\<close>

lemma versions_supported_range:
  "wire_api_versions_supported key v = 1 \<longleftrightarrow>
     0 \<le> sint v \<and> sint v \<le> wire_get_max_supported_version key"
  by (cases key) (auto simp: wire_api_versions_supported_def wire_get_max_supported_version_def)

text \<open>
  A string longer than the destination is cut, and the position moves only by the cut length,
  so the next read starts inside the string.
\<close>

lemma long_string_desync:
  assumes "1 \<le> max_len" "max_len \<le> int (length s)" "length s \<le> 32767"
  shows "protocol_buffer_read_string max_len (buffer_of (string_bytes s @ post) 0) =
    Done (Some (take (nat max_len - 1) s), buffer_of (string_bytes s @ post) (nat max_len + 1))"
proof -
  define l where "l = be_bytes 2 (word_of_nat (length s) :: 16 word)"
  have e: "string_bytes s @ post = [] @ l @ (map char_byte s @ post)"
    using assms(3) by (simp add: string_bytes_def l_def min_def)
  have ll: "length l = 2" by (simp add: l_def)
  note r = read_i16_back[of "[]" "word_of_nat (length s)" "map char_byte s @ post", folded l_def, unfolded list.size]
  have s: "sint (word_of_nat (length s) :: 16 word) = int (length s)"
    using assms(3) by (intro sint_small) simp
  define k where "k = nat max_len - 1"
  have k: "max_len - 1 = int k" "k < length s" "nat max_len + 1 = 2 + k"
    using assms by (simp_all add: k_def)
  have sk: "sint (word_of_int (max_len - 1) :: 16 word) = int k"
    unfolding k(1) using k(2) assms(3) sint_small[of k] by simp
  show ?thesis
    using assms(1,2) ll k(2) unfolding e protocol_buffer_read_string_def r option.case prod.case s Let_def k(3) k_def[symmetric] sk
    by (simp add: buffer_of_def comp_def take_map)
qed

end
