(* ===== verification/Stream_Processor.thy ===== *)
theory Stream_Processor
  imports Prelude
begin

text \<open>
  The windowed stream processor of \<open>mini-message-stream\<close> (\<open>stream_processor.h\<close>,
  \<open>stream_processor.c\<close>): window assignment, late events, the watermark, closing of windows
  and the aggregates. Event values are C doubles: they are an abstract type \<open>'v\<close>, and the
  floating point operations the aggregates use are passed as a record of functions. The
  comparisons of \<open>qsort\<close> are those of a linear order, so NaN values are excluded. Times are
  mathematical integers.
\<close>

definition MAX_WINDOW_SIZE :: int where [c_consts]: "MAX_WINDOW_SIZE = 1024"
definition MAX_AGGREGATIONS :: nat where [c_consts]: "MAX_AGGREGATIONS = 8"

datatype window_type = WINDOW_TUMBLING | WINDOW_HOPPING | WINDOW_SLIDING | WINDOW_SESSION

datatype aggregation_type =
  AGG_COUNT | AGG_SUM | AGG_AVG | AGG_MIN | AGG_MAX | AGG_TOP_K | AGG_DISTINCT_COUNT

record 'v aggregation_result =
  ar_type :: aggregation_type
  value_double :: 'v
  value_int64 :: int
  ar_key_count :: int

record window_config =
  w_type :: window_type
  window_size_ms :: int
  hop_ms :: int
  session_gap_ms :: int
  grace_period_ms :: int
  max_events :: int

record 'v event =
  ev_value :: 'v
  ev_timestamp :: int
  ev_key :: "string option"

record 'v window_state =
  window_start_ms :: int
  window_end_ms :: int
  events :: "'v event list"
  key_count :: nat
  is_closed :: bool

record 'v stream_processor =
  sp_config :: window_config
  windows :: "'v window_state list"
  aggregators :: "aggregation_type list"
  watermark_ms :: int
  total_events_processed :: int
  total_late_events :: int

text \<open>The floating point operations of C.\<close>

record 'v double_ops =
  d_zero :: 'v
  d_add :: "'v \<Rightarrow> 'v \<Rightarrow> 'v"
  d_div :: "'v \<Rightarrow> 'v \<Rightarrow> 'v"
  d_of_int :: "int \<Rightarrow> 'v"
  d_to_int :: "'v \<Rightarrow> int"

section \<open>Operations\<close>

definition window_config_validate :: "window_config \<Rightarrow> int" where
  "window_config_validate cfg =
     (if w_type cfg \<noteq> WINDOW_SESSION \<and> window_size_ms cfg < 1 then -1
      else if max_events cfg < 1 \<or> max_events cfg > MAX_WINDOW_SIZE then -1
      else if w_type cfg = WINDOW_HOPPING \<and> (hop_ms cfg < 1 \<or> hop_ms cfg > window_size_ms cfg) then -1
      else if w_type cfg = WINDOW_SESSION \<and> session_gap_ms cfg < 1 then -1
      else 0)"

definition stream_processor_create :: "bool \<Rightarrow> window_config \<Rightarrow> 'v stream_processor option" where
  "stream_processor_create mem cfg =
     (if window_config_validate cfg \<noteq> 0 then None
      else if \<not> mem then None
      else Some \<lparr> sp_config = cfg, windows = [], aggregators = [], watermark_ms = 0,
                  total_events_processed = 0, total_late_events = 0 \<rparr>)"

text \<open>The session search runs from the last window to the first.\<close>

definition session_match :: "window_config \<Rightarrow> int \<Rightarrow> 'v window_state \<Rightarrow> bool" where
  "session_match cfg ts w \<longleftrightarrow> \<not> is_closed w \<and> ts - window_end_ms w \<le> session_gap_ms cfg"

definition find_session :: "window_config \<Rightarrow> int \<Rightarrow> 'v window_state list \<Rightarrow> nat option" where
  "find_session cfg ts ws =
     map_option (\<lambda>j. length ws - 1 - j) (find_idx (session_match cfg ts) (rev ws))"

definition window_start :: "window_config \<Rightarrow> int \<Rightarrow> int" where
  "window_start cfg ts =
     (case w_type cfg of
        WINDOW_TUMBLING \<Rightarrow> c_div ts (window_size_ms cfg) * window_size_ms cfg
      | WINDOW_HOPPING \<Rightarrow>
          (let last_window = c_div ts (hop_ms cfg) * hop_ms cfg;
               ws = last_window - window_size_ms cfg + hop_ms cfg
           in if ws < 0 then 0 else ws)
      | WINDOW_SLIDING \<Rightarrow> (if ts - window_size_ms cfg < 0 then 0 else ts - window_size_ms cfg)
      | WINDOW_SESSION \<Rightarrow> ts)"

definition open_window :: "window_config \<Rightarrow> int \<Rightarrow> 'v window_state list \<Rightarrow> int \<times> 'v window_state list" where
  "open_window cfg ts ws =
     (let start = window_start cfg ts in
      case find_idx (\<lambda>w. window_start_ms w = start \<and> \<not> is_closed w) ws of
        Some i \<Rightarrow> (int i, ws)
      | None \<Rightarrow>
          if length ws \<ge> 8 then (-1, ws)
          else (int (length ws),
                ws @ [\<lparr> window_start_ms = start,
                        window_end_ms = (if w_type cfg = WINDOW_SESSION then ts else start + window_size_ms cfg),
                        events = [], key_count = 0, is_closed = False \<rparr>]))"

definition find_or_create_window :: "window_config \<Rightarrow> int \<Rightarrow> 'v window_state list \<Rightarrow> int \<times> 'v window_state list" where
  "find_or_create_window cfg ts ws =
     (case (if w_type cfg = WINDOW_SESSION then find_session cfg ts ws else None) of
        Some i \<Rightarrow>
          (int i, if ts > window_end_ms (ws ! i) then ws[i := (ws ! i)\<lparr> window_end_ms := ts \<rparr>] else ws)
      | None \<Rightarrow> open_window cfg ts ws)"

definition add_event :: "int \<Rightarrow> 'v \<Rightarrow> string option \<Rightarrow> 'v window_state \<Rightarrow> 'v window_state" where
  "add_event ts v key w =
     w\<lparr> events := events w @ [\<lparr> ev_value = v, ev_timestamp = ts, ev_key = key \<rparr>],
        key_count := (if key = None then key_count w else key_count w + 1) \<rparr>"

definition stream_processor_push ::
  "bool \<Rightarrow> int \<Rightarrow> 'v \<Rightarrow> string option \<Rightarrow> 'v stream_processor \<Rightarrow> int \<times> 'v stream_processor" where
  "stream_processor_push mem ts v key sp =
     (let sp1 = sp\<lparr> total_events_processed := total_events_processed sp + 1 \<rparr>;
          sp2 = (if ts < watermark_ms sp1
                 then sp1\<lparr> total_late_events := total_late_events sp1 + 1 \<rparr> else sp1)
      in if ts < watermark_ms sp2 \<and> watermark_ms sp2 - ts > grace_period_ms (sp_config sp2)
         then (-2, sp2)
         else
           (let (wi, ws) = find_or_create_window (sp_config sp2) ts (windows sp2);
                sp3 = sp2\<lparr> windows := ws \<rparr>
            in if wi < 0 then (-1, sp3)
               else if int (length (events (ws ! nat wi))) \<ge> max_events (sp_config sp3) then (-1, sp3)
               else if key \<noteq> None \<and> \<not> mem then (-1, sp3)
               else (wi, sp3\<lparr> windows := ws[nat wi := add_event ts v key (ws ! nat wi)] \<rparr>)))"

fun push_loop :: "bool \<Rightarrow> (int \<times> 'v \<times> string option) list \<Rightarrow> 'v stream_processor \<Rightarrow> int \<times> 'v stream_processor" where
  "push_loop mem [] sp = (0, sp)"
| "push_loop mem ((ts, v, key) # evs) sp =
     (let (ok, sp1) = stream_processor_push mem ts v key sp;
          (n, sp2) = push_loop mem evs sp1
      in ((if ok \<ge> 0 then n + 1 else n), sp2))"

definition stream_processor_push_batch ::
  "bool \<Rightarrow> (int \<times> 'v \<times> string option) list \<Rightarrow> 'v stream_processor \<Rightarrow> int \<times> 'v stream_processor" where
  "stream_processor_push_batch mem evs sp = (if evs = [] then (-1, sp) else push_loop mem evs sp)"

definition stream_processor_add_aggregation ::
  "aggregation_type \<Rightarrow> 'v stream_processor \<Rightarrow> int \<times> 'v stream_processor" where
  "stream_processor_add_aggregation a sp =
     (if length (aggregators sp) \<ge> MAX_AGGREGATIONS then (-1, sp)
      else (0, sp\<lparr> aggregators := aggregators sp @ [a] \<rparr>))"

definition stream_processor_aggregate_window ::
  "'v double_ops \<Rightarrow> 'v window_state \<Rightarrow> aggregation_type \<Rightarrow> 'v aggregation_result" where
  "stream_processor_aggregate_window d w ty =
     (let result = \<lparr> ar_type = ty, value_double = d_zero d, value_int64 = 0, ar_key_count = 0 \<rparr>;
          vals = map ev_value (events w);
          sum = foldl (d_add d) (d_zero d) vals
      in if vals = [] then result
         else (case ty of
            AGG_COUNT \<Rightarrow> result\<lparr> value_int64 := int (length vals), value_double := d_of_int d (int (length vals)) \<rparr>
          | AGG_SUM \<Rightarrow> result\<lparr> value_double := sum, value_int64 := d_to_int d sum \<rparr>
          | AGG_AVG \<Rightarrow> result\<lparr> value_double := d_div d sum (d_of_int d (int (length vals))) \<rparr>
          | AGG_MIN \<Rightarrow>
              (let m = foldl (\<lambda>m v. if d_to_int d v < m then d_to_int d v else m) (d_to_int d (hd vals)) (tl vals)
               in result\<lparr> value_int64 := m, value_double := d_of_int d m \<rparr>)
          | AGG_MAX \<Rightarrow>
              (let m = foldl (\<lambda>m v. if d_to_int d v > m then d_to_int d v else m) (d_to_int d (hd vals)) (tl vals)
               in result\<lparr> value_int64 := m, value_double := d_of_int d m \<rparr>)
          | AGG_TOP_K \<Rightarrow> result\<lparr> value_int64 := int (length vals) \<rparr>
          | AGG_DISTINCT_COUNT \<Rightarrow> result\<lparr> value_int64 := int (length vals) \<rparr>))"

definition stream_processor_aggregate_current ::
  "'v double_ops \<Rightarrow> 'v stream_processor \<Rightarrow> aggregation_type \<Rightarrow> 'v aggregation_result" where
  "stream_processor_aggregate_current d sp ty =
     (if windows sp = []
      then \<lparr> ar_type = AGG_COUNT, value_double = d_zero d, value_int64 = 0, ar_key_count = 0 \<rparr>
      else stream_processor_aggregate_window d (last (windows sp)) ty)"

text \<open>\<open>qsort\<close> in descending order. A negative \<open>k\<close> copies nothing but is stored as the count.\<close>

definition sorted_desc :: "'v::linorder list \<Rightarrow> 'v list" where
  "sorted_desc vs = rev (sort vs)"

definition stream_processor_top_k :: "bool \<Rightarrow> 'v::linorder window_state \<Rightarrow> int \<Rightarrow> (int \<times> 'v list) option" where
  "stream_processor_top_k mem w k =
     (if events w = [] \<or> \<not> mem then None
      else
        (let sorted = sorted_desc (map ev_value (events w));
             k' = (if k > int (length sorted) then int (length sorted) else k)
         in Some (k', take (nat k') sorted)))"

fun count_changes :: "'v list \<Rightarrow> int" where
  "count_changes (a # b # vs) = (if b \<noteq> a then 1 else 0) + count_changes (b # vs)"
| "count_changes vs = 0"

definition stream_processor_distinct_count :: "bool \<Rightarrow> 'v::linorder window_state \<Rightarrow> int" where
  "stream_processor_distinct_count mem w =
     (if events w = [] then 0
      else if \<not> mem then -1
      else 1 + count_changes (sorted_desc (map ev_value (events w))))"

definition stream_processor_advance_watermark :: "int \<Rightarrow> 'v stream_processor \<Rightarrow> int \<times> 'v stream_processor" where
  "stream_processor_advance_watermark t sp =
     (let sp' = (if t > watermark_ms sp then sp\<lparr> watermark_ms := t \<rparr> else sp) in (watermark_ms sp', sp'))"

definition expired_window :: "'v stream_processor \<Rightarrow> 'v window_state \<Rightarrow> bool" where
  "expired_window sp w \<longleftrightarrow>
     \<not> is_closed w \<and> window_end_ms w + grace_period_ms (sp_config sp) \<le> watermark_ms sp"

definition stream_processor_close_expired_windows :: "'v stream_processor \<Rightarrow> int \<times> 'v stream_processor" where
  "stream_processor_close_expired_windows sp =
     (int (length (filter (expired_window sp) (windows sp))),
      sp\<lparr> windows := map (\<lambda>w. if expired_window sp w then w\<lparr> is_closed := True \<rparr> else w) (windows sp) \<rparr>)"

definition stream_processor_get_late_event_count :: "'v stream_processor \<Rightarrow> int" where
  "stream_processor_get_late_event_count sp = total_late_events sp"

definition stream_processor_watermark_lag :: "'v stream_processor \<Rightarrow> int" where
  "stream_processor_watermark_lag sp =
     (if windows sp = [] then 0 else
      let latest = foldl (\<lambda>m e. if ev_timestamp e > m then ev_timestamp e else m) 0
                     (concat (map events (windows sp)))
      in if latest > watermark_ms sp then latest - watermark_ms sp else 0)"

definition stream_processor_get_window :: "'v stream_processor \<Rightarrow> int \<Rightarrow> 'v window_state option" where
  "stream_processor_get_window sp i =
     (if i < 0 \<or> i \<ge> int (length (windows sp)) then None else Some (windows sp ! nat i))"

section \<open>Finding the window\<close>

lemma find_session_SomeD:
  assumes "find_session cfg ts ws = Some i"
  shows "i < length ws" "\<not> is_closed (ws ! i)"
proof -
  obtain j where j: "find_idx (session_match cfg ts) (rev ws) = Some j" "i = length ws - 1 - j"
    using assms by (auto simp: find_session_def)
  have "j < length ws" "session_match cfg ts (rev ws ! j)" using find_idx_SomeD[OF j(1)] by simp_all
  then show "i < length ws" "\<not> is_closed (ws ! i)" using j(2) by (simp_all add: session_match_def rev_nth)
qed

lemma find_session_closed: "\<forall>w \<in> set ws. is_closed w \<Longrightarrow> find_session cfg ts ws = None"
  by (simp add: find_session_def find_idx_None_iff session_match_def)

text \<open>
  What an operation does to the table of windows: it never shrinks, never exceeds eight, and
  windows already closed stay as they are.
\<close>

definition windows_kept :: "'v window_state list \<Rightarrow> 'v window_state list \<Rightarrow> bool" where
  "windows_kept ws ws' \<longleftrightarrow> length ws \<le> length ws' \<and> (length ws \<le> 8 \<longrightarrow> length ws' \<le> 8) \<and>
     (\<forall>i < length ws. is_closed (ws ! i) \<longrightarrow> ws' ! i = ws ! i)"

lemma windows_kept_refl [simp]: "windows_kept ws ws"
  by (simp add: windows_kept_def)

lemma windows_kept_trans: "windows_kept a b \<Longrightarrow> windows_kept b c \<Longrightarrow> windows_kept a c"
  unfolding windows_kept_def by (metis le_trans less_le_trans)

lemma windows_kept_update: "i < length ws \<Longrightarrow> \<not> is_closed (ws ! i) \<Longrightarrow> windows_kept ws (ws[i := w])"
  by (auto simp: windows_kept_def nth_list_update)

lemma windows_kept_snoc: "length ws < 8 \<Longrightarrow> windows_kept ws (ws @ [w])"
  by (auto simp: windows_kept_def nth_append)

lemma open_window_cases:
  obtains i where "open_window cfg ts ws = (int i, ws)" "i < length ws" "\<not> is_closed (ws ! i)"
      "window_start_ms (ws ! i) = window_start cfg ts"
  | "open_window cfg ts ws = (-1, ws)" "length ws \<ge> 8"
  | w where "open_window cfg ts ws = (int (length ws), ws @ [w])" "length ws < 8" "\<not> is_closed w"
      "events w = []" "window_start_ms w = window_start cfg ts"
      "window_end_ms w = (if w_type cfg = WINDOW_SESSION then ts else window_start cfg ts + window_size_ms cfg)"
proof (cases "find_idx (\<lambda>w. window_start_ms w = window_start cfg ts \<and> \<not> is_closed w) ws")
  case None
  show ?thesis
  proof (cases "length ws \<ge> 8")
    case True
    with None that(2) show ?thesis by (simp add: open_window_def Let_def)
  next
    case False
    with None that(3) show ?thesis by (simp add: open_window_def Let_def)
  qed
next
  case (Some i)
  with find_idx_SomeD[OF Some] that(1) show ?thesis by (simp add: open_window_def Let_def)
qed

lemma find_or_create_cases:
  obtains i ws' where "find_or_create_window cfg ts ws = (int i, ws')" "windows_kept ws ws'" "i < length ws'"
      "\<not> is_closed (ws' ! i)"
  | "find_or_create_window cfg ts ws = (-1, ws)" "length ws \<ge> 8"
proof (cases "if w_type cfg = WINDOW_SESSION then find_session cfg ts ws else None")
  case None
  show ?thesis
  proof (cases rule: open_window_cases[of cfg ts ws])
    case (1 i)
    with None that(1)[of i ws] show ?thesis by (simp add: find_or_create_window_def)
  next
    case 2
    with None that(2) show ?thesis by (simp add: find_or_create_window_def)
  next
    case (3 w)
    with None that(1)[of "length ws" "ws @ [w]"] show ?thesis
      by (simp add: find_or_create_window_def windows_kept_snoc)
  qed
next
  case (Some i)
  then have i: "i < length ws" "\<not> is_closed (ws ! i)"
    using find_session_SomeD[of cfg ts ws i] by (auto split: if_splits)
  with Some that(1)[of i "if ts > window_end_ms (ws ! i) then ws[i := (ws ! i)\<lparr> window_end_ms := ts \<rparr>] else ws"]
  show ?thesis by (auto simp: find_or_create_window_def windows_kept_update)
qed

definition late :: "int \<Rightarrow> 'v stream_processor \<Rightarrow> bool" where
  "late ts sp \<longleftrightarrow> ts < watermark_ms sp \<and> watermark_ms sp - ts > grace_period_ms (sp_config sp)"

definition counted :: "int \<Rightarrow> 'v stream_processor \<Rightarrow> 'v stream_processor" where
  "counted ts sp = sp\<lparr> total_events_processed := total_events_processed sp + 1,
     total_late_events := total_late_events sp + (if ts < watermark_ms sp then 1 else 0) \<rparr>"

lemma push_eq:
  "stream_processor_push mem ts v key sp =
     (if late ts sp then (-2, counted ts sp)
      else
        (let (wi, ws) = find_or_create_window (sp_config sp) ts (windows sp); sp' = (counted ts sp)\<lparr> windows := ws \<rparr>
         in if wi < 0 \<or> int (length (events (ws ! nat wi))) \<ge> max_events (sp_config sp) \<or> key \<noteq> None \<and> \<not> mem
            then (-1, sp')
            else (wi, sp'\<lparr> windows := ws[nat wi := add_event ts v key (ws ! nat wi)] \<rparr>)))"
  by (cases "find_or_create_window (sp_config sp) ts (windows sp)"; cases key)
     (auto simp: stream_processor_push_def late_def counted_def Let_def)

lemma counted_sel [simp]: "windows (counted ts sp) = windows sp" "watermark_ms (counted ts sp) = watermark_ms sp"
  "sp_config (counted ts sp) = sp_config sp" "aggregators (counted ts sp) = aggregators sp"
  by (simp_all add: counted_def)

lemma push_kept: "windows_kept (windows sp) (windows (snd (stream_processor_push mem ts v key sp)))"
proof (cases "late ts sp")
  case True
  then show ?thesis by (simp add: push_eq)
next
  case False
  show ?thesis
  proof (cases rule: find_or_create_cases[of "sp_config sp" ts "windows sp"])
    case (1 i ws')
    then have "windows_kept (windows sp) (ws'[i := add_event ts v key (ws' ! i)])"
      using windows_kept_update windows_kept_trans by blast
    with 1 False show ?thesis by (simp add: push_eq Let_def)
  next
    case 2
    with False show ?thesis by (simp add: push_eq Let_def)
  qed
qed

lemma push_same [simp]: "sp_config (snd (stream_processor_push mem ts v key sp)) = sp_config sp"
  "watermark_ms (snd (stream_processor_push mem ts v key sp)) = watermark_ms sp"
  "aggregators (snd (stream_processor_push mem ts v key sp)) = aggregators sp"
  by (simp_all add: push_eq Let_def split: prod.split)

section \<open>The processor as a state machine\<close>

definition wf_sp :: "'v stream_processor \<Rightarrow> bool" where
  "wf_sp sp \<longleftrightarrow> window_config_validate (sp_config sp) = 0 \<and> length (windows sp) \<le> 8 \<and>
     (\<forall>w \<in> set (windows sp). int (length (events w)) \<le> max_events (sp_config sp)) \<and>
     length (aggregators sp) \<le> MAX_AGGREGATIONS"

datatype 'v sp_op = Push bool int 'v "string option" | Advance int | Close_Expired | Add_Aggregation aggregation_type

fun sp_step :: "'v sp_op \<Rightarrow> 'v stream_processor \<Rightarrow> 'v stream_processor" where
  "sp_step (Push mem ts v key) sp = snd (stream_processor_push mem ts v key sp)"
| "sp_step (Advance t) sp = snd (stream_processor_advance_watermark t sp)"
| "sp_step Close_Expired sp = snd (stream_processor_close_expired_windows sp)"
| "sp_step (Add_Aggregation a) sp = snd (stream_processor_add_aggregation a sp)"

definition fresh_sp :: "'v stream_processor \<Rightarrow> bool" where
  "fresh_sp sp \<longleftrightarrow> (\<exists>cfg. stream_processor_create True cfg = Some sp)"

lemma foc_events:
  assumes "find_or_create_window cfg ts ws = (wi, ws')" "0 \<le> m" "\<forall>w \<in> set ws. int (length (events w)) \<le> m"
  shows "\<forall>w \<in> set ws'. int (length (events w)) \<le> m"
proof -
  have upd: "\<forall>w \<in> set (ws[i := (ws ! i)\<lparr> window_end_ms := ts \<rparr>]). int (length (events w)) \<le> m" if "i < length ws" for i
    using assms(3) that by (auto dest!: set_update_subset_insert[THEN subsetD])
  show ?thesis
  proof (cases "if w_type cfg = WINDOW_SESSION then find_session cfg ts ws else None")
    case None
    with assms show ?thesis
      by (cases rule: open_window_cases[of cfg ts ws]) (auto simp: find_or_create_window_def)
  next
    case (Some i)
    then have "i < length ws" using find_session_SomeD(1) by (metis option.distinct(1))
    with Some assms upd show ?thesis by (auto simp: find_or_create_window_def split: if_splits)
  qed
qed

lemma push_wf: "wf_sp sp \<Longrightarrow> wf_sp (snd (stream_processor_push mem ts v key sp))"
proof -
  assume wf: "wf_sp sp"
  have m: "0 \<le> max_events (sp_config sp)" using wf by (auto simp: wf_sp_def window_config_validate_def split: if_splits)
  have len: "length (windows (snd (stream_processor_push mem ts v key sp))) \<le> 8"
    using push_kept[of sp mem ts v key] wf by (simp add: windows_kept_def wf_sp_def)
  obtain wi ws' where f: "find_or_create_window (sp_config sp) ts (windows sp) = (wi, ws')" by fastforce
  have ev: "\<forall>w \<in> set ws'. int (length (events w)) \<le> max_events (sp_config sp)"
    using foc_events[OF f m] wf by (simp add: wf_sp_def)
  have "\<forall>w \<in> set (ws'[nat wi := add_event ts v key (ws' ! nat wi)]). int (length (events w)) \<le> max_events (sp_config sp)"
    if "\<not> int (length (events (ws' ! nat wi))) \<ge> max_events (sp_config sp)"
    using ev that by (auto simp: add_event_def dest!: set_update_subset_insert[THEN subsetD])
  then have "\<forall>w \<in> set (windows (snd (stream_processor_push mem ts v key sp))).
      int (length (events w)) \<le> max_events (sp_config sp)"
    using ev wf by (auto simp: push_eq f Let_def wf_sp_def)
  with len wf show ?thesis by (simp add: wf_sp_def)
qed

lemma sp_step_kept: "windows_kept (windows sp) (windows (sp_step op sp))"
proof (cases op)
  case Close_Expired
  then show ?thesis
    by (auto simp: windows_kept_def stream_processor_close_expired_windows_def expired_window_def)
qed (simp_all add: push_kept stream_processor_advance_watermark_def stream_processor_add_aggregation_def Let_def)

lemma sp_step_wf: "wf_sp sp \<Longrightarrow> wf_sp (sp_step op sp)"
proof (cases op)
  case (Push mem ts v key)
  assume "wf_sp sp"
  then show ?thesis by (simp add: Push push_wf)
qed (auto simp: wf_sp_def stream_processor_advance_watermark_def Let_def
      stream_processor_close_expired_windows_def stream_processor_add_aggregation_def)

interpretation stream_sys: monotone_system fresh_sp sp_step wf_sp watermark_ms
proof unfold_locales
  fix s :: "'v stream_processor"
  assume "fresh_sp s"
  then show "wf_sp s"
    by (auto simp: fresh_sp_def stream_processor_create_def wf_sp_def split: if_splits)
next
  fix s :: "'v stream_processor" and op
  assume "wf_sp s"
  then show "wf_sp (sp_step op s)" by (rule sp_step_wf)
next
  fix s :: "'v stream_processor" and op
  show "watermark_ms s \<le> watermark_ms (sp_step op s)"
    by (cases op) (auto simp: stream_processor_advance_watermark_def Let_def
        stream_processor_close_expired_windows_def stream_processor_add_aggregation_def)
qed

lemma fold_kept: "windows_kept (windows sp) (windows (fold sp_step ops sp))"
  by (induction ops arbitrary: sp) (auto intro: windows_kept_trans sp_step_kept)

section \<open>Properties\<close>

lemma c_div_bounds: "0 \<le> a \<Longrightarrow> 0 < b \<Longrightarrow> c_div a b * b \<le> a \<and> a < c_div a b * b + b"
  for a b :: int
proof -
  assume "0 \<le> a" "0 < b"
  moreover have "b * (a div b) + a mod b = a" by simp
  moreover have "0 \<le> a mod b" "a mod b < b" using \<open>0 < b\<close> by simp_all
  ultimately have "b * (a div b) \<le> a" "a < b * (a div b) + b" by linarith+
  then show ?thesis using \<open>0 \<le> a\<close> \<open>0 < b\<close> by (simp add: c_div_pos mult.commute)
qed

definition fixed_windows :: "'v stream_processor \<Rightarrow> bool" where
  "fixed_windows sp \<longleftrightarrow> w_type (sp_config sp) \<in> {WINDOW_TUMBLING, WINDOW_HOPPING} \<longrightarrow>
     (\<forall>w \<in> set (windows sp). window_end_ms w = window_start_ms w + window_size_ms (sp_config sp))"

lemma push_fixed: "fixed_windows sp \<Longrightarrow> fixed_windows (snd (stream_processor_push mem ts v key sp))"
proof -
  assume fw: "fixed_windows sp"
  obtain wi ws' where f: "find_or_create_window (sp_config sp) ts (windows sp) = (wi, ws')" by fastforce
  have "\<forall>w \<in> set ws'. window_end_ms w = window_start_ms w + window_size_ms (sp_config sp)"
    if "w_type (sp_config sp) \<in> {WINDOW_TUMBLING, WINDOW_HOPPING}"
    using that fw f
    by (cases rule: open_window_cases[of "sp_config sp" ts "windows sp"])
       (auto simp: find_or_create_window_def fixed_windows_def)
  moreover have "wi < 0 \<or> nat wi < length ws'"
    using f by (cases rule: find_or_create_cases[of "sp_config sp" ts "windows sp"]) auto
  ultimately show ?thesis
    using fw unfolding fixed_windows_def
    by (auto simp: push_eq f Let_def add_event_def dest!: set_update_subset_insert[THEN subsetD])
qed

lemma step_fixed: "fixed_windows sp \<Longrightarrow> fixed_windows (sp_step op sp)"
proof (cases op)
  case (Push mem ts v key)
  assume "fixed_windows sp"
  then show ?thesis by (simp add: Push push_fixed)
qed (auto simp: fixed_windows_def stream_processor_advance_watermark_def Let_def
      stream_processor_close_expired_windows_def stream_processor_add_aggregation_def)

lemma fold_fixed: "fixed_windows sp \<Longrightarrow> fixed_windows (fold sp_step ops sp)"
  by (induction ops arbitrary: sp) (auto intro: step_fixed)

lemma step_config [simp]: "sp_config (sp_step op sp) = sp_config sp"
  by (cases op) (auto simp: stream_processor_advance_watermark_def Let_def
      stream_processor_close_expired_windows_def stream_processor_add_aggregation_def)

lemma fold_config [simp]: "sp_config (fold sp_step ops sp) = sp_config sp"
  by (induction ops arbitrary: sp) simp_all

lemma window_start_contains:
  assumes "window_config_validate cfg = 0" "w_type cfg \<in> {WINDOW_TUMBLING, WINDOW_HOPPING}" "0 \<le> ts"
  shows "window_start cfg ts \<le> ts \<and> ts < window_start cfg ts + window_size_ms cfg"
proof -
  have "0 < window_size_ms cfg" "w_type cfg = WINDOW_HOPPING \<Longrightarrow> 0 < hop_ms cfg \<and> hop_ms cfg \<le> window_size_ms cfg"
    using assms(1,2) by (auto simp: window_config_validate_def split: if_splits)
  then show ?thesis
    using assms(2,3) c_div_bounds[of ts "window_size_ms cfg"] c_div_bounds[of ts "hop_ms cfg"]
    by (auto simp: window_start_def Let_def)
qed

lemma foc_fixed_start:
  assumes "find_or_create_window cfg ts ws = (int i, ws')" "w_type cfg \<in> {WINDOW_TUMBLING, WINDOW_HOPPING}"
  shows "i < length ws' \<and> \<not> is_closed (ws' ! i) \<and> window_start_ms (ws' ! i) = window_start cfg ts"
  using assms
  by (cases rule: open_window_cases[of cfg ts ws]) (auto simp: find_or_create_window_def)

text \<open>
  C17. In a processor made by \<open>stream_processor_create\<close> with tumbling or hopping windows,
  whatever was done to it before, an event that is not negative and is accepted lands in an
  open window whose interval contains its time, as that window's last event. A tumbling window
  starts at the last multiple of the size.
\<close>

theorem accepted_event_in_window:
  assumes "stream_processor_create True cfg = Some sp0"
    "w_type cfg \<in> {WINDOW_TUMBLING, WINDOW_HOPPING}" "0 \<le> ts"
    "stream_processor_push mem ts v key (fold sp_step ops sp0) = (wi, sp)" "0 \<le> wi"
  shows "\<exists>w. stream_processor_get_window sp wi = Some w \<and> \<not> is_closed w \<and>
     window_start_ms w \<le> ts \<and> ts < window_end_ms w \<and>
     last (events w) = \<lparr> ev_value = v, ev_timestamp = ts, ev_key = key \<rparr> \<and>
     (w_type cfg = WINDOW_TUMBLING \<longrightarrow> window_start_ms w = ts div window_size_ms cfg * window_size_ms cfg)"
proof -
  define s where "s = fold sp_step ops sp0"
  have c0: "sp_config sp0 = cfg" "windows sp0 = []" "window_config_validate cfg = 0"
    using assms(1) by (auto simp: stream_processor_create_def split: if_splits)
  have cfg: "sp_config s = cfg" by (simp add: s_def c0)
  have "fixed_windows sp" 
    using push_fixed[OF fold_fixed[of sp0 ops], of mem ts v key] assms(4) c0(2)
    by (simp add: fixed_windows_def)
  moreover have cfg': "sp_config sp = cfg" using push_same(1)[of mem ts v key s] assms(4) cfg by (simp add: s_def)
  ultimately have fixed: "window_end_ms w = window_start_ms w + window_size_ms cfg" if "w \<in> set (windows sp)" for w
    using assms(2) that by (auto simp: fixed_windows_def)
  obtain ws' where f: "find_or_create_window cfg ts (windows s) = (wi, ws')"
    "windows sp = ws'[nat wi := add_event ts v key (ws' ! nat wi)]"
    using assms(4,5) unfolding s_def[symmetric] push_eq cfg
    by (auto simp: Let_def split: prod.splits if_splits)
  have fs: "nat wi < length ws' \<and> \<not> is_closed (ws' ! nat wi) \<and> window_start_ms (ws' ! nat wi) = window_start cfg ts"
    using foc_fixed_start[of cfg ts "windows s" "nat wi" ws'] f(1) assms(2,5) by simp
  define w where "w = add_event ts v key (ws' ! nat wi)"
  have get: "stream_processor_get_window sp wi = Some w"
    using fs f(2) assms(5) by (simp add: stream_processor_get_window_def w_def) linarith
  have wsel: "\<not> is_closed w" "window_start_ms w = window_start cfg ts"
    "last (events w) = \<lparr> ev_value = v, ev_timestamp = ts, ev_key = key \<rparr>"
    using fs by (simp_all add: w_def add_event_def)
  have "w \<in> set (windows sp)" unfolding f(2) w_def using fs by (simp add: set_update_memI)
  from fixed[OF this] have e: "window_end_ms w = window_start cfg ts + window_size_ms cfg" by (simp add: wsel(2))
  note cont = window_start_contains[OF c0(3) assms(2,3)]
  have tumb: "w_type cfg = WINDOW_TUMBLING \<longrightarrow> window_start cfg ts = ts div window_size_ms cfg * window_size_ms cfg"
    using assms(3) c0(3) by (auto simp: window_start_def c_div_pos window_config_validate_def split: if_splits)
  show ?thesis using get wsel cont e tumb by auto
qed

definition demo_windows :: window_config where
  "demo_windows = \<lparr> w_type = WINDOW_TUMBLING, window_size_ms = 10, hop_ms = 0, session_gap_ms = 0,
     grace_period_ms = 0, max_events = 4 \<rparr>"

theorem accepted_event_in_window_witness:
  "\<exists>w. stream_processor_get_window (snd (stream_processor_push True 25 (3 :: int) None
        (fold sp_step [Push True 21 1 None, Advance 20] (the (stream_processor_create True demo_windows))))) 0 = Some w \<and>
     \<not> is_closed w \<and> window_start_ms w \<le> 25 \<and> 25 < window_end_ms w \<and>
     last (events w) = \<lparr> ev_value = 3, ev_timestamp = 25, ev_key = None \<rparr> \<and>
     window_start_ms w = 20"
proof -
  have c: "stream_processor_create True demo_windows = Some (the (stream_processor_create True demo_windows))"
    by (simp add: stream_processor_create_def window_config_validate_def demo_windows_def c_consts)
  have p: "stream_processor_push True 25 (3 :: int) None
      (fold sp_step [Push True 21 1 None, Advance 20] (the (stream_processor_create True demo_windows))) =
    (0, snd (stream_processor_push True 25 (3 :: int) None
      (fold sp_step [Push True 21 1 None, Advance 20] (the (stream_processor_create True demo_windows)))))"
    by (simp add: stream_processor_create_def window_config_validate_def demo_windows_def c_consts
        stream_processor_push_def Let_def find_or_create_window_def open_window_def window_start_def
        stream_processor_advance_watermark_def add_event_def c_div_def)
  have t: "w_type demo_windows \<in> {WINDOW_TUMBLING, WINDOW_HOPPING}" "(0 :: int) \<le> 25" "(0 :: int) \<le> 0"
    by (simp_all add: demo_windows_def)
  show ?thesis
    using accepted_event_in_window[OF c t(1,2) p t(3)] by (auto simp: demo_windows_def)
qed

text \<open>
  Whatever is pushed, advanced and closed, there are at most eight windows with at most
  \<open>max_events\<close> events each, the watermark never moves back, no window disappears, and a
  window that is closed never changes again.
\<close>

theorem closed_windows_final:
  assumes "wf_sp sp" "sp' = fold sp_step ops sp"
  shows "wf_sp sp' \<and> watermark_ms sp \<le> watermark_ms sp' \<and> length (windows sp) \<le> length (windows sp') \<and>
    (\<forall>i < length (windows sp). is_closed (windows sp ! i) \<longrightarrow> windows sp' ! i = windows sp ! i)"
  using stream_sys.fold_inv[OF assms(1), of ops] stream_sys.fold_obs[OF assms(1), of ops]
    fold_kept[of sp ops] assms(2)
  by (simp add: windows_kept_def)

definition demo_sp :: "int stream_processor" where
  "demo_sp = the (stream_processor_create True demo_windows)"

definition demo_closed :: "int stream_processor" where
  "demo_closed = demo_sp\<lparr> watermark_ms := 10, windows :=
     [\<lparr> window_start_ms = 0, window_end_ms = 10, events = [], key_count = 0, is_closed = True \<rparr>] \<rparr>"

theorem closed_windows_final_witness:
  "wf_sp (fold sp_step [Push True 11 1 None, Close_Expired] demo_closed) \<and>
   windows (fold sp_step [Push True 11 1 None, Close_Expired] demo_closed) ! 0 = windows demo_closed ! 0"
proof -
  have "wf_sp demo_closed"
    by (simp add: demo_closed_def demo_sp_def stream_processor_create_def wf_sp_def
        window_config_validate_def demo_windows_def c_consts)
  moreover have "0 < length (windows demo_closed)" "is_closed (windows demo_closed ! 0)"
    by (simp_all add: demo_closed_def)
  ultimately show ?thesis
    using closed_windows_final[of demo_closed, OF _ refl, of "[Push True 11 1 None, Close_Expired]"] by blast
qed

text \<open>
  A closed window keeps its slot: once all eight windows are closed, every event that is
  not dropped as late is refused, whatever the type of window, and so is every later one.
\<close>

theorem closed_windows_block:
  assumes "length (windows sp) = 8" "\<forall>w \<in> set (windows sp). is_closed w" "\<not> late ts (fold sp_step ops sp)"
  shows "fst (stream_processor_push mem ts v key (fold sp_step ops sp)) = -1"
proof -
  define s where "s = fold sp_step ops sp"
  have k: "windows_kept (windows sp) (windows s)" unfolding s_def by (rule fold_kept)
  have len: "length (windows s) = 8" using k assms(1) by (simp add: windows_kept_def)
  have all: "\<forall>w \<in> set (windows s). is_closed w"
  proof
    fix w assume "w \<in> set (windows s)"
    then obtain i where i: "i < 8" "w = windows s ! i" using len by (auto simp: in_set_conv_nth)
    then have "is_closed (windows sp ! i)" using assms(1,2) by simp
    with k i assms(1) show "is_closed w" by (simp add: windows_kept_def)
  qed
  have "find_or_create_window (sp_config s) ts (windows s) = (-1, windows s)"
    using all len by (auto simp: find_or_create_window_def find_session_closed open_window_def Let_def
        find_idx_None_iff split: option.split dest!: find_idx_SomeD)
  then show ?thesis using assms(3) unfolding s_def[symmetric] by (simp add: push_eq Let_def)
qed

theorem closed_windows_block_witness:
  "fst (stream_processor_push True 100 (0 :: int) None
     (fold sp_step []
       ((the (stream_processor_create True demo_windows))\<lparr> windows := replicate 8
          \<lparr> window_start_ms = 0, window_end_ms = 10, events = [], key_count = 0, is_closed = True \<rparr> \<rparr>))) = -1"
  by (rule closed_windows_block)
     (simp_all add: late_def stream_processor_create_def window_config_validate_def demo_windows_def c_consts)

lemma count_changes_card:
  "sorted_wrt (\<ge>) vs \<Longrightarrow> vs \<noteq> [] \<Longrightarrow> 1 + count_changes vs = int (card (set vs))" for vs :: "'v::linorder list"
proof (induction vs rule: count_changes.induct)
  case (1 a b vs)
  then have IH: "1 + count_changes (b # vs) = int (card (set (b # vs)))" by simp
  show ?case
  proof (cases "b = a")
    case True
    with IH show ?thesis by simp
  next
    case False
    with "1.prems"(1) have "a \<notin> set (b # vs)" by auto
    with IH False show ?thesis by simp
  qed
qed simp_all

lemma distinct_count_card:
  assumes "events w \<noteq> []"
  shows "stream_processor_distinct_count True w = int (card (ev_value ` set (events w)))"
proof -
  have "sorted_wrt (\<ge>) (sorted_desc (map ev_value (events w)))"
    by (simp add: sorted_desc_def sorted_wrt_rev)
  moreover have "sorted_desc (map ev_value (events w)) \<noteq> []"
    using assms by (metis Nil_is_map_conv Nil_is_rev_conv set_empty set_sort sorted_desc_def)
  ultimately have "1 + count_changes (sorted_desc (map ev_value (events w))) =
      int (card (set (sorted_desc (map ev_value (events w)))))" by (rule count_changes_card)
  with assms show ?thesis
    by (simp add: stream_processor_distinct_count_def sorted_desc_def)
qed
end
