(* ===== verification/Slotted_Page.thy ===== *)
theory Slotted_Page
  imports Codec_Base
begin

text \<open>
  The slotted page of \<open>mini-db-kernel\<close> (\<open>slotted_page.h\<close>, \<open>slotted_page.c\<close>): a header, an
  array of slots and the tuple data, which grows from the end of the page downwards. The slots
  in use are a list, so \<open>slot_count\<close> is its length; offsets and lengths are integers. A copy
  that would leave the data area, or read past the caller's tuple, is \<open>Undefined\<close>. Whether
  \<open>malloc\<close> succeeds is the parameter \<open>mem\<close>.
\<close>

definition SP_PAGE_SIZE :: int where [c_consts]: "SP_PAGE_SIZE = 4096"
definition SP_MAX_SLOTS :: nat where [c_consts]: "SP_MAX_SLOTS = 256"
definition SP_HEADER_SIZE :: int where [c_consts]: "SP_HEADER_SIZE = 64"

record slot_entry =
  slot_offset :: int
  slot_length :: int

record slotted_page =
  sp_page_id :: int
  sp_lsn :: int
  free_start :: int
  free_end :: int
  tuple_count :: int
  sp_dirty :: bool
  slots :: "slot_entry list"
  sp_data :: "byte list"

section \<open>Operations\<close>

definition slot_array_end :: "slot_entry list \<Rightarrow> int" where
  "slot_array_end ss = SP_HEADER_SIZE + int (length ss) * 8"

definition sp_init_page :: "int \<Rightarrow> slotted_page" where
  "sp_init_page pid =
     \<lparr> sp_page_id = pid, sp_lsn = 0, free_start = SP_HEADER_SIZE, free_end = SP_PAGE_SIZE,
       tuple_count = 0, sp_dirty = False, slots = [], sp_data = replicate (nat SP_PAGE_SIZE) 0 \<rparr>"

definition in_page :: "int \<Rightarrow> int \<Rightarrow> bool" where
  "in_page off len \<longleftrightarrow> 0 \<le> off \<and> 0 \<le> len \<and> off + len \<le> SP_PAGE_SIZE"

definition bytes_at :: "byte list \<Rightarrow> int \<Rightarrow> int \<Rightarrow> byte list" where
  "bytes_at d off len = take (nat len) (drop (nat off) d)"

definition copy_in :: "byte list \<Rightarrow> int \<Rightarrow> byte list \<Rightarrow> byte list" where
  "copy_in bs off d = take (nat off) d @ bs @ drop (nat off + length bs) d"

definition live :: "slot_entry \<Rightarrow> bool" where
  "live s \<longleftrightarrow> slot_length s > 0"

text \<open>
  Compaction: the live tuples are gathered in slot order and written back at the end of the
  page; a page without deleted slots is left alone.
\<close>

definition total_data :: "slot_entry list \<Rightarrow> int" where
  "total_data ss = sum_list (map slot_length (filter live ss))"

definition gather :: "byte list \<Rightarrow> slot_entry list \<Rightarrow> byte list" where
  "gather d ss = concat (map (\<lambda>s. bytes_at d (slot_offset s) (slot_length s)) (filter live ss))"

fun relocate :: "int \<Rightarrow> slot_entry list \<Rightarrow> slot_entry list" where
  "relocate cur [] = []"
| "relocate cur (s # ss) =
     (if live s then s\<lparr> slot_offset := cur \<rparr> # relocate (cur + slot_length s) ss
      else s # relocate cur ss)"

definition sp_compact :: "bool \<Rightarrow> slotted_page \<Rightarrow> (bool \<times> slotted_page) outcome" where
  "sp_compact mem p =
     (if list_all live (slots p) then Done (True, p)
      else if \<not> mem then Done (False, p)
      else if \<not> list_all (\<lambda>s. live s \<longrightarrow> in_page (slot_offset s) (slot_length s)) (slots p) \<or>
              total_data (slots p) > SP_PAGE_SIZE then Undefined
      else
        (let fe = SP_PAGE_SIZE - total_data (slots p) in
         Done (True, p\<lparr> free_end := fe,
                       sp_data := copy_in (gather (sp_data p) (slots p)) fe (sp_data p),
                       slots := relocate fe (slots p),
                       free_start := slot_array_end (slots p),
                       sp_dirty := True \<rparr>)))"

text \<open>The result is the new slot; the check compares the tuple alone with the free space.\<close>

definition sp_insert_tuple ::
  "bool \<Rightarrow> byte list \<Rightarrow> int \<Rightarrow> slotted_page \<Rightarrow> (int option \<times> slotted_page) outcome" where
  "sp_insert_tuple mem tuple tsize p =
     (if tsize \<le> 0 then Done (None, p)
      else if length (slots p) \<ge> SP_MAX_SLOTS then Done (None, p)
      else
        bind_outcome
          (if tsize > free_end p - free_start p
           then bind_outcome (sp_compact mem p)
                  (\<lambda>(ok, p1). Done (ok \<and> \<not> tsize > free_end p1 - free_start p1, p1))
           else Done (True, p))
          (\<lambda>(fits, p1).
             if \<not> fits then Done (None, p1)
             else if \<not> in_page (free_end p1 - tsize) tsize \<or> int (length tuple) < tsize then Undefined
             else
               (let fe = free_end p1 - tsize;
                    ss = slots p1 @ [\<lparr> slot_offset = fe, slot_length = tsize \<rparr>]
                in Done (Some (int (length (slots p1))),
                         p1\<lparr> free_end := fe, slots := ss,
                             sp_data := copy_in (take (nat tsize) tuple) fe (sp_data p1),
                             tuple_count := tuple_count p1 + 1,
                             free_start := slot_array_end ss, sp_dirty := True \<rparr>))))"

definition slot_valid :: "slotted_page \<Rightarrow> int \<Rightarrow> bool" where
  "slot_valid p i \<longleftrightarrow> 0 \<le> i \<and> i < int (length (slots p)) \<and> slot_length (slots p ! nat i) \<noteq> 0"

definition drop_slot :: "int \<Rightarrow> slotted_page \<Rightarrow> slotted_page" where
  "drop_slot i p = p\<lparr> slots := (slots p)[nat i := (slots p ! nat i)\<lparr> slot_length := 0 \<rparr>],
                      tuple_count := tuple_count p - 1 \<rparr>"

definition sp_delete_tuple :: "int \<Rightarrow> slotted_page \<Rightarrow> bool \<times> slotted_page" where
  "sp_delete_tuple i p =
     (if \<not> slot_valid p i then (False, p) else (True, (drop_slot i p)\<lparr> sp_dirty := True \<rparr>))"

definition sp_update_tuple ::
  "bool \<Rightarrow> int \<Rightarrow> byte list \<Rightarrow> int \<Rightarrow> slotted_page \<Rightarrow> (bool \<times> slotted_page) outcome" where
  "sp_update_tuple mem i new_data new_size p =
     (if new_size \<le> 0 \<or> \<not> slot_valid p i then Done (False, p)
      else
        (let s = slots p ! nat i in
         if new_size \<le> slot_length s then
           (if \<not> in_page (slot_offset s) new_size \<or> int (length new_data) < new_size then Undefined
            else Done (True, p\<lparr> sp_data := copy_in (take (nat new_size) new_data) (slot_offset s) (sp_data p),
                               slots := (slots p)[nat i := s\<lparr> slot_length := new_size \<rparr>],
                               sp_dirty := True \<rparr>))
         else
           bind_outcome (sp_insert_tuple mem new_data new_size (drop_slot i p))
             (\<lambda>(r, p1). case r of None \<Rightarrow> Done (False, p1) | Some _ \<Rightarrow> Done (True, p1\<lparr> sp_dirty := True \<rparr>))))"

definition sp_get_tuple :: "int \<Rightarrow> slotted_page \<Rightarrow> byte list option outcome" where
  "sp_get_tuple i p =
     (if \<not> slot_valid p i then Done None
      else
        (let s = slots p ! nat i in
         if in_page (slot_offset s) (slot_length s)
         then Done (Some (bytes_at (sp_data p) (slot_offset s) (slot_length s)))
         else Undefined))"

definition sp_get_free_space :: "slotted_page \<Rightarrow> int" where
  "sp_get_free_space p = free_end p - free_start p"

definition sp_get_used_space :: "slotted_page \<Rightarrow> int" where
  "sp_get_used_space p = SP_PAGE_SIZE - (free_end p - free_start p)"

text \<open>The visitor answers whether to go on; the result counts the tuples it accepted.\<close>

fun iterate_loop :: "(int \<Rightarrow> byte list \<Rightarrow> 'c \<Rightarrow> bool \<times> 'c) \<Rightarrow> byte list \<Rightarrow> int \<Rightarrow> slot_entry list \<Rightarrow> 'c \<Rightarrow> int \<times> 'c" where
  "iterate_loop visit d i [] c = (0, c)"
| "iterate_loop visit d i (s # ss) c =
     (if live s then
        (let (go, c1) = visit i (bytes_at d (slot_offset s) (slot_length s)) c in
         if \<not> go then (0, c1)
         else (let (n, c2) = iterate_loop visit d (i + 1) ss c1 in (n + 1, c2)))
      else iterate_loop visit d (i + 1) ss c)"

definition sp_iterate_tuples :: "(int \<Rightarrow> byte list \<Rightarrow> 'c \<Rightarrow> bool \<times> 'c) \<Rightarrow> slotted_page \<Rightarrow> 'c \<Rightarrow> int \<times> 'c" where
  "sp_iterate_tuples visit p c = iterate_loop visit (sp_data p) 0 (slots p) c"

definition sp_copy_page :: "slotted_page \<Rightarrow> slotted_page" where
  "sp_copy_page src = src"

section \<open>Well-formed pages and what they store\<close>

definition slots_apart :: "slot_entry list \<Rightarrow> bool" where
  "slots_apart ss \<longleftrightarrow>
     (\<forall>i < length ss. \<forall>j < length ss. i \<noteq> j \<longrightarrow> live (ss ! i) \<longrightarrow> live (ss ! j) \<longrightarrow>
        slot_offset (ss ! i) + slot_length (ss ! i) \<le> slot_offset (ss ! j) \<or>
        slot_offset (ss ! j) + slot_length (ss ! j) \<le> slot_offset (ss ! i))"

definition wf_page :: "slotted_page \<Rightarrow> bool" where
  "wf_page p \<longleftrightarrow>
     length (sp_data p) = nat SP_PAGE_SIZE \<and> length (slots p) \<le> SP_MAX_SLOTS \<and>
     free_start p = slot_array_end (slots p) \<and> SP_HEADER_SIZE \<le> free_end p \<and> free_end p \<le> SP_PAGE_SIZE \<and>
     (\<forall>s \<in> set (slots p). 0 \<le> slot_length s \<and>
        (live s \<longrightarrow> free_end p \<le> slot_offset s \<and> slot_offset s + slot_length s \<le> SP_PAGE_SIZE)) \<and>
     slots_apart (slots p) \<and> tuple_count p = int (length (filter live (slots p)))"

definition tuple_at :: "slotted_page \<Rightarrow> nat \<Rightarrow> byte list option" where
  "tuple_at p i =
     (if i < length (slots p) \<and> live (slots p ! i)
      then Some (bytes_at (sp_data p) (slot_offset (slots p ! i)) (slot_length (slots p ! i))) else None)"

section \<open>Bytes of the page\<close>

lemma length_copy_in: "0 \<le> off \<Longrightarrow> nat off + length bs \<le> length d \<Longrightarrow> length (copy_in bs off d) = length d"
  by (simp add: copy_in_def)

lemma length_bytes_at: "0 \<le> off \<Longrightarrow> 0 \<le> len \<Longrightarrow> off + len \<le> int (length d) \<Longrightarrow> length (bytes_at d off len) = nat len"
  by (simp add: bytes_at_def)

lemma bytes_at_copy_in:
  "0 \<le> off \<Longrightarrow> nat off + length bs \<le> length d \<Longrightarrow> bytes_at (copy_in bs off d) off (int (length bs)) = bs"
  by (simp add: bytes_at_def copy_in_def)

lemma bytes_at_copy_in_prefix:
  "0 \<le> off \<Longrightarrow> nat off + length bs \<le> length d \<Longrightarrow> len \<le> int (length bs) \<Longrightarrow>
   bytes_at (copy_in bs off d) off len = take (nat len) bs"
  by (simp add: bytes_at_def copy_in_def)

lemma bytes_at_apart:
  assumes "0 \<le> off" "nat off + length bs \<le> length d" "0 \<le> o'" "0 \<le> l'" "o' + l' \<le> int (length d)"
    "o' + l' \<le> off \<or> off + int (length bs) \<le> o'"
  shows "bytes_at (copy_in bs off d) o' l' = bytes_at d o' l'"
proof (rule nth_equalityI)
  have l: "length (bytes_at (copy_in bs off d) o' l') = nat l'"
    using assms by (subst length_bytes_at) (simp_all add: length_copy_in)
  then show "length (bytes_at (copy_in bs off d) o' l') = length (bytes_at d o' l')"
    using assms by (simp add: length_bytes_at)
  fix i assume "i < length (bytes_at (copy_in bs off d) o' l')"
  with l have i: "i < nat l'" by simp
  have "copy_in bs off d ! (nat o' + i) = d ! (nat o' + i)"
  proof (cases "o' + l' \<le> off")
    case True
    then have "nat o' + i < nat off" using assms(3) i by linarith
    with assms(2) show ?thesis by (simp add: copy_in_def nth_append)
  next
    case False
    have "nat off + length bs \<le> nat o' + i" using False assms(1,3,6) by linarith
    then obtain m where m: "nat o' + i = nat off + length bs + m" using le_Suc_ex by blast
    from assms(2) show ?thesis unfolding m by (simp add: copy_in_def nth_append)
  qed
  with assms i show "bytes_at (copy_in bs off d) o' l' ! i = bytes_at d o' l' ! i"
    by (simp add: bytes_at_def length_copy_in)
qed

section \<open>Relocation\<close>

lemma length_relocate [simp]: "length (relocate cur ss) = length ss"
  by (induction ss arbitrary: cur) auto

lemma relocate_nth:
  "i < length ss \<Longrightarrow> relocate cur ss ! i =
     (if live (ss ! i) then (ss ! i)\<lparr> slot_offset := cur + total_data (take i ss) \<rparr> else ss ! i)"
proof (induction ss arbitrary: cur i)
  case (Cons s ss)
  then show ?case by (cases i) (auto simp: total_data_def)
qed simp

lemma total_data_nonneg [simp]: "0 \<le> total_data ss"
  by (induction ss) (auto simp: total_data_def live_def)

lemma total_data_append [simp]: "total_data (xs @ ys) = total_data xs + total_data ys"
  by (simp add: total_data_def)

lemma total_data_prefix:
  assumes "i < j" "j \<le> length ss" "live (ss ! i)"
  shows "total_data (take i ss) + slot_length (ss ! i) \<le> total_data (take j ss)"
proof -
  have "take j ss = take i (take j ss) @ (take j ss ! i) # drop (Suc i) (take j ss)"
    using assms(1,2) by (intro id_take_nth_drop) simp
  then have "take j ss = take i ss @ [ss ! i] @ drop (Suc i) (take j ss)"
    using assms(1,2) by (simp add: min_absorb1)
  then have "total_data (take j ss) = total_data (take i ss @ [ss ! i] @ drop (Suc i) (take j ss))"
    by (rule arg_cong)
  then have "total_data (take j ss) = total_data (take i ss) + total_data [ss ! i] + total_data (drop (Suc i) (take j ss))"
    by (simp only: total_data_append add.assoc)
  moreover have "total_data [ss ! i] = slot_length (ss ! i)" using assms(3) by (simp add: total_data_def)
  ultimately show ?thesis using total_data_nonneg[of "drop (Suc i) (take j ss)"] by linarith
qed

definition slots_in :: "int \<Rightarrow> byte list \<Rightarrow> slot_entry list \<Rightarrow> bool" where
  "slots_in lo d ss \<longleftrightarrow> (\<forall>s \<in> set ss. live s \<longrightarrow> lo \<le> slot_offset s \<and> slot_offset s + slot_length s \<le> int (length d))"

lemma length_gather: "slots_in 0 d ss \<Longrightarrow> length (gather d ss) = nat (total_data ss)"
proof (induction ss)
  case (Cons s ss)
  then have IH: "length (gather d ss) = nat (total_data ss)" by (simp add: slots_in_def)
  show ?case
  proof (cases "live s")
    case True
    then have "length (bytes_at d (slot_offset s) (slot_length s)) = nat (slot_length s)"
      using Cons.prems by (intro length_bytes_at) (auto simp: slots_in_def live_def)
    then show ?thesis using IH True total_data_nonneg[of ss]
      by (simp add: gather_def total_data_def live_def nat_add_distrib)
  next
    case False
    then show ?thesis using IH by (simp add: gather_def total_data_def)
  qed
qed (simp add: gather_def total_data_def)

lemma gather_nth:
  assumes "slots_in 0 d ss" "i < length ss" "live (ss ! i)"
  shows "bytes_at (gather d ss) (total_data (take i ss)) (slot_length (ss ! i)) =
    bytes_at d (slot_offset (ss ! i)) (slot_length (ss ! i))"
proof -
  have "gather d ss = gather d (take i ss) @ bytes_at d (slot_offset (ss ! i)) (slot_length (ss ! i)) @
      gather d (drop (Suc i) ss)"
    using assms(3) by (subst id_take_nth_drop[OF assms(2)]) (simp add: gather_def)
  moreover have "length (gather d (take i ss)) = nat (total_data (take i ss))"
    using assms(1) by (intro length_gather) (auto simp: slots_in_def dest: in_set_takeD)
  moreover have "length (bytes_at d (slot_offset (ss ! i)) (slot_length (ss ! i))) = nat (slot_length (ss ! i))"
    using assms by (intro length_bytes_at) (auto simp: slots_in_def live_def)
  ultimately show ?thesis by (simp add: bytes_at_def)
qed

lemma total_data_bound:
  assumes "slots_in lo d ss" "slots_apart ss" "lo \<le> int (length d)"
  shows "total_data ss \<le> int (length d) - lo"
proof -
  define I where "I = {i. i < length ss \<and> live (ss ! i)}"
  define A where "A i = {slot_offset (ss ! i)..<slot_offset (ss ! i) + slot_length (ss ! i)}" for i
  have fin: "finite I" by (simp add: I_def)
  have "total_data ss = (\<Sum>i < length ss. if live (ss ! i) then slot_length (ss ! i) else 0)"
  proof -
    have "total_data ss = sum_list (map (\<lambda>s. if live s then slot_length s else 0) ss)"
      by (induction ss) (simp_all add: total_data_def)
    then show ?thesis by (simp add: sum_list_sum_nth atLeast0LessThan)
  qed
  also have "\<dots> = (\<Sum>i \<in> I. slot_length (ss ! i))"
    by (rule sum.mono_neutral_cong_right) (auto simp: I_def)
  also have "\<dots> = (\<Sum>i \<in> I. int (card (A i)))"
    by (rule sum.cong) (auto simp: I_def A_def live_def)
  also have "\<dots> = int (card (\<Union>i \<in> I. A i))"
  proof -
    have "card (\<Union>i \<in> I. A i) = (\<Sum>i \<in> I. card (A i))"
    proof (rule card_UN_disjoint[OF fin])
      show "\<forall>i \<in> I. \<forall>j \<in> I. i \<noteq> j \<longrightarrow> A i \<inter> A j = {}"
      proof (intro ballI impI)
        fix i j assume ij: "i \<in> I" "j \<in> I" "i \<noteq> j"
        then have "slot_offset (ss ! i) + slot_length (ss ! i) \<le> slot_offset (ss ! j) \<or>
            slot_offset (ss ! j) + slot_length (ss ! j) \<le> slot_offset (ss ! i)"
          using assms(2) by (simp add: slots_apart_def I_def)
        then show "A i \<inter> A j = {}" by (auto simp: A_def)
      qed
    qed (simp add: A_def)
    then show ?thesis by simp
  qed
  also have "\<dots> \<le> int (card {lo..<int (length d)})"
  proof -
    have "(\<Union>i \<in> I. A i) \<subseteq> {lo..<int (length d)}"
      using assms(1) by (fastforce simp: A_def I_def slots_in_def)
    then have "card (\<Union>i \<in> I. A i) \<le> card {lo..<int (length d)}" by (rule card_mono[OF finite_atLeastLessThan_int])
    then show ?thesis by (rule iffD2[OF of_nat_le_iff])
  qed
  finally show ?thesis using assms(3) by simp
qed

lemma wf_slots_in: "wf_page p \<Longrightarrow> slots_in (free_end p) (sp_data p) (slots p) \<and> slots_in 0 (sp_data p) (slots p)"
  by (force simp: wf_page_def slots_in_def c_consts)

lemma slots_apart_relocate: "slots_apart (relocate cur ss)"
  unfolding slots_apart_def
proof (intro allI impI)
  fix i j
  assume ij: "i < length (relocate cur ss)" "j < length (relocate cur ss)" "i \<noteq> j"
    "live (relocate cur ss ! i)" "live (relocate cur ss ! j)"
  then have l: "live (ss ! i)" "live (ss ! j)" by (auto simp: relocate_nth live_def split: if_splits)
  from ij(3) have "i < j \<or> j < i" by auto
  then show "slot_offset (relocate cur ss ! i) + slot_length (relocate cur ss ! i) \<le> slot_offset (relocate cur ss ! j) \<or>
      slot_offset (relocate cur ss ! j) + slot_length (relocate cur ss ! j) \<le> slot_offset (relocate cur ss ! i)"
    using ij(1,2) l total_data_prefix[of i j ss] total_data_prefix[of j i ss]
    by (auto simp: relocate_nth)
qed

lemma live_relocate: "i < length ss \<Longrightarrow> live (relocate cur ss ! i) = live (ss ! i)"
  by (simp add: relocate_nth live_def)

lemma slot_length_relocate: "i < length ss \<Longrightarrow> slot_length (relocate cur ss ! i) = slot_length (ss ! i)"
  by (simp add: relocate_nth)

lemma filter_relocate: "length (filter live (relocate cur ss)) = length (filter live ss)"
  by (induction ss arbitrary: cur) (auto simp: live_def)
section \<open>The operations on well-formed pages\<close>

lemma wf_slot:
  assumes "wf_page p" "i < length (slots p)" "live (slots p ! i)"
  shows "0 \<le> free_end p" "free_end p \<le> slot_offset (slots p ! i)" "0 < slot_length (slots p ! i)"
    "slot_offset (slots p ! i) + slot_length (slots p ! i) \<le> SP_PAGE_SIZE"
  using assms by (auto simp: wf_page_def live_def c_consts)

lemma slot_valid_iff: "wf_page p \<Longrightarrow> slot_valid p i \<longleftrightarrow> 0 \<le> i \<and> nat i < length (slots p) \<and> live (slots p ! nat i)"
proof -
  assume "wf_page p"
  then have "0 \<le> slot_length (slots p ! j)" if "j < length (slots p)" for j
    using that by (simp add: wf_page_def)
  from this[of "nat i"] show ?thesis by (cases "0 \<le> i") (auto simp: slot_valid_def live_def nat_less_iff)
qed

lemma length_page_data: "wf_page p \<Longrightarrow> int (length (sp_data p)) = SP_PAGE_SIZE"
  by (simp add: wf_page_def c_consts)

lemma get_tuple_at:
  "wf_page p \<Longrightarrow> sp_get_tuple i p = Done (if 0 \<le> i then tuple_at p (nat i) else None)"
  using wf_slot[of p "nat i"]
  by (auto simp: sp_get_tuple_def slot_valid_iff tuple_at_def Let_def in_page_def)

lemma compact_wf:
  assumes "wf_page p"
  obtains ok p' where "sp_compact mem p = Done (ok, p')" "wf_page p'" "tuple_at p' = tuple_at p"
    "length (slots p') = length (slots p)" "tuple_count p' = tuple_count p" "sp_page_id p' = sp_page_id p"
proof (cases "list_all live (slots p) \<or> \<not> mem")
  case True
  then show ?thesis using that[of "mem \<or> list_all live (slots p)" p] assms
    by (cases "list_all live (slots p)") (simp_all add: sp_compact_def)
next
  case False
  define d ss where "d = sp_data p" and "ss = slots p"
  define t where "t = total_data ss"
  define fe where "fe = SP_PAGE_SIZE - t"
  define p' where "p' = p\<lparr> free_end := fe, sp_data := copy_in (gather d ss) fe d, slots := relocate fe ss,
      free_start := slot_array_end ss, sp_dirty := True \<rparr>"
  have wf: "length d = nat SP_PAGE_SIZE" "slots_in (free_end p) d ss" "slots_in 0 d ss" "slots_apart ss"
    "SP_HEADER_SIZE \<le> free_end p" "free_end p \<le> SP_PAGE_SIZE" "length ss \<le> SP_MAX_SLOTS"
    "\<forall>s \<in> set ss. 0 \<le> slot_length s" "tuple_count p = int (length (filter live ss))"
    using assms wf_slots_in[OF assms] by (simp_all add: wf_page_def d_def ss_def)
  have ld: "int (length d) = SP_PAGE_SIZE" using wf(1) by (simp add: c_consts)
  have t: "0 \<le> t" "t \<le> SP_PAGE_SIZE - free_end p"
    using total_data_bound[OF wf(2,4)] wf(6) ld by (simp_all add: t_def)
  have fe: "free_end p \<le> fe" "fe \<le> SP_PAGE_SIZE" "0 \<le> fe" "fe + t = SP_PAGE_SIZE"
    using t wf(5) by (simp_all add: fe_def c_consts)
  have lg: "length (gather d ss) = nat t" using length_gather[OF wf(3)] by (simp add: t_def)
  have room: "nat fe + length (gather d ss) \<le> length d" using ld lg fe t by linarith
  have done_: "sp_compact mem p = Done (True, p')"
  proof -
    have "list_all (\<lambda>s. live s \<longrightarrow> in_page (slot_offset s) (slot_length s)) (slots p)"
      using wf(3) ld by (auto simp: list_all_iff slots_in_def in_page_def ss_def[symmetric] live_def)
    moreover have "\<not> total_data (slots p) > SP_PAGE_SIZE"
      using t wf(5) by (simp add: t_def ss_def c_consts)
    ultimately show ?thesis
      using False by (simp add: sp_compact_def p'_def d_def ss_def fe_def t_def Let_def)
  qed
  have off: "slot_offset (relocate fe ss ! i) = fe + total_data (take i ss)" if "i < length ss" "live (ss ! i)" for i
    using that by (simp add: relocate_nth)
  have bound: "total_data (take i ss) + slot_length (ss ! i) \<le> t" if "i < length ss" "live (ss ! i)" for i
    using total_data_prefix[of i "length ss" ss] that by (simp add: t_def)
  have tup: "tuple_at p' = tuple_at p"
  proof
    fix i
    show "tuple_at p' i = tuple_at p i"
    proof (cases "i < length ss \<and> live (ss ! i)")
      case True
      have "bytes_at (copy_in (gather d ss) fe d) (fe + total_data (take i ss)) (slot_length (ss ! i)) =
          bytes_at (gather d ss) (total_data (take i ss)) (slot_length (ss ! i))"
      proof -
        have "nat (fe + total_data (take i ss)) = nat fe + nat (total_data (take i ss))"
          using fe by (simp add: nat_add_distrib)
        moreover have "length (take (nat fe) d) = nat fe" using room by simp
        moreover have "drop (nat fe + length (gather d ss)) d = []"
          using ld lg fe t by simp
        ultimately show ?thesis by (simp add: bytes_at_def copy_in_def)
      qed
      also have "\<dots> = bytes_at d (slot_offset (ss ! i)) (slot_length (ss ! i))"
        using gather_nth[OF wf(3)] True by blast
      finally show ?thesis
        using True off[of i] by (simp add: tuple_at_def p'_def live_relocate slot_length_relocate d_def ss_def)
    next
      case False
      then show ?thesis by (auto simp: tuple_at_def p'_def live_relocate ss_def)
    qed
  qed
  have slots_ok: "0 \<le> slot_length s \<and> (live s \<longrightarrow> fe \<le> slot_offset s \<and> slot_offset s + slot_length s \<le> SP_PAGE_SIZE)"
    if in_ss: "s \<in> set (relocate fe ss)" for s
  proof -
    obtain i where "i < length (relocate fe ss)" "relocate fe ss ! i = s"
      using in_ss unfolding in_set_conv_nth by blast
    then have i: "i < length ss" "s = relocate fe ss ! i" by simp_all
    show ?thesis
      using i wf(8) bound[of i] off[of i] fe live_relocate[OF i(1), of fe]
      by (auto simp: slot_length_relocate)
  qed
  have "wf_page p'"
    unfolding wf_page_def
  proof (intro conjI)
    show "length (sp_data p') = nat SP_PAGE_SIZE"
      using wf(1) room fe by (simp add: p'_def length_copy_in)
    show "\<forall>s \<in> set (slots p'). 0 \<le> slot_length s \<and>
        (live s \<longrightarrow> free_end p' \<le> slot_offset s \<and> slot_offset s + slot_length s \<le> SP_PAGE_SIZE)"
      using slots_ok by (simp add: p'_def)
  qed (use wf fe in \<open>simp_all add: p'_def slot_array_end_def slots_apart_relocate filter_relocate\<close>)
  with that[OF done_ _ tup] show ?thesis by (simp add: p'_def ss_def)
qed

lemma drop_slot_wf:
  assumes "wf_page p" "slot_valid p i"
  shows "wf_page (drop_slot i p)" "tuple_at (drop_slot i p) = (tuple_at p)(nat i := None)"
proof -
  have i: "nat i < length (slots p)" "live (slots p ! nat i)" using assms slot_valid_iff by auto
  define ss where "ss = (slots p)[nat i := (slots p ! nat i)\<lparr> slot_length := 0 \<rparr>]"
  have l: "live (ss ! j) = (j \<noteq> nat i \<and> live (slots p ! j))" if "j < length (slots p)" for j
    using that by (cases "j = nat i") (simp_all add: ss_def live_def)
  have n: "j \<noteq> nat i \<Longrightarrow> ss ! j = slots p ! j" for j by (simp add: ss_def)
  have "length (filter live (slots p)) = Suc (length (filter live ss))"
  proof -
    have "slots p = take (nat i) (slots p) @ slots p ! nat i # drop (Suc (nat i)) (slots p)"
      using i(1) by (rule id_take_nth_drop)
    then have "filter live (slots p) = filter live (take (nat i) (slots p)) @ slots p ! nat i # filter live (drop (Suc (nat i)) (slots p))"
      using i(2) by (metis filter.simps(2) filter_append)
    moreover have "filter live ss = filter live (take (nat i) (slots p)) @ filter live (drop (Suc (nat i)) (slots p))"
      using i(1) by (simp add: ss_def upd_conv_take_nth_drop live_def)
    ultimately show ?thesis by simp
  qed
  moreover have "slots_apart ss"
    using assms(1) unfolding wf_page_def slots_apart_def
    by (metis l n length_list_update ss_def)
  moreover have "\<forall>s \<in> set ss. 0 \<le> slot_length s \<and>
      (live s \<longrightarrow> free_end p \<le> slot_offset s \<and> slot_offset s + slot_length s \<le> SP_PAGE_SIZE)"
    using assms(1) by (auto simp: ss_def wf_page_def live_def dest!: set_update_subset_insert[THEN subsetD])
  ultimately show "wf_page (drop_slot i p)"
    using assms(1) by (simp add: wf_page_def drop_slot_def ss_def[symmetric] slot_array_end_def) (simp add: ss_def)
  show "tuple_at (drop_slot i p) = (tuple_at p)(nat i := None)"
    by (rule ext) (auto simp: tuple_at_def drop_slot_def ss_def[symmetric] l n, auto simp: ss_def live_def)
qed

lemma put_tuple_wf:
  assumes "wf_page p" "tup \<noteq> []" "int (length tup) \<le> free_end p - free_start p" "length (slots p) < SP_MAX_SLOTS"
  defines "fe \<equiv> free_end p - int (length tup)"
  defines "ss \<equiv> slots p @ [\<lparr> slot_offset = fe, slot_length = int (length tup) \<rparr>]"
  defines "p' \<equiv> p\<lparr> free_end := fe, slots := ss, sp_data := copy_in tup fe (sp_data p),
      tuple_count := tuple_count p + 1, free_start := slot_array_end ss, sp_dirty := True \<rparr>"
  shows "in_page fe (int (length tup))" "wf_page p'" "tuple_at p' = (tuple_at p)(length (slots p) \<mapsto> tup)"
proof -
  have ld: "int (length (sp_data p)) = SP_PAGE_SIZE" by (rule length_page_data[OF assms(1)])
  have fs: "SP_HEADER_SIZE \<le> free_start p" "free_end p \<le> SP_PAGE_SIZE"
    using assms(1) by (simp_all add: wf_page_def slot_array_end_def)
  have fe: "SP_HEADER_SIZE \<le> fe" "0 \<le> fe" "fe + int (length tup) \<le> SP_PAGE_SIZE"
    using assms(3) fs by (simp_all add: fe_def c_consts)
  then show "in_page fe (int (length tup))" by (simp add: in_page_def)
  have room: "nat fe + length tup \<le> length (sp_data p)" using fe ld by linarith
  have n: "i < length (slots p) \<Longrightarrow> ss ! i = slots p ! i" for i by (simp add: ss_def nth_append)
  have old: "fe + int (length tup) \<le> slot_offset (slots p ! i)"
    "slot_offset (slots p ! i) + slot_length (slots p ! i) \<le> SP_PAGE_SIZE"
    if "i < length (slots p)" "live (slots p ! i)" for i
    using wf_slot[OF assms(1) that] by (simp_all add: fe_def)
  have apart: "slots_apart ss"
    unfolding slots_apart_def
  proof (intro allI impI)
    fix i j assume ij: "i < length ss" "j < length ss" "i \<noteq> j" "live (ss ! i)" "live (ss ! j)"
    then consider "i < length (slots p)" "j < length (slots p)" | "i = length (slots p)" "j < length (slots p)"
      | "i < length (slots p)" "j = length (slots p)"
      by (auto simp: ss_def less_Suc_eq)
    then show "slot_offset (ss ! i) + slot_length (ss ! i) \<le> slot_offset (ss ! j) \<or>
        slot_offset (ss ! j) + slot_length (ss ! j) \<le> slot_offset (ss ! i)"
    proof cases
      case 1
      with ij assms(1) show ?thesis by (simp add: n wf_page_def slots_apart_def)
    next
      case 2
      with ij old[of j] show ?thesis by (simp add: n) (simp add: ss_def)
    next
      case 3
      with ij old[of i] show ?thesis by (simp add: n) (simp add: ss_def)
    qed
  qed
  have new: "live \<lparr> slot_offset = fe, slot_length = int (length tup) \<rparr>" using assms(2) by (simp add: live_def)
  show "wf_page p'"
    unfolding wf_page_def
  proof (intro conjI)
    show "\<forall>s \<in> set (slots p'). 0 \<le> slot_length s \<and>
        (live s \<longrightarrow> free_end p' \<le> slot_offset s \<and> slot_offset s + slot_length s \<le> SP_PAGE_SIZE)"
      using assms(1) fe by (auto simp: p'_def ss_def wf_page_def fe_def)
    show "length (sp_data p') = nat SP_PAGE_SIZE"
      using assms(1) room fe by (simp add: p'_def length_copy_in wf_page_def)
    show "length (slots p') \<le> SP_MAX_SLOTS" using assms(4) by (simp add: p'_def ss_def)
    show "tuple_count p' = int (length (filter live (slots p')))"
      using assms(1) new by (simp add: p'_def ss_def wf_page_def)
  qed (use fe fs apart in \<open>simp_all add: p'_def\<close>)
  show "tuple_at p' = (tuple_at p)(length (slots p) \<mapsto> tup)"
  proof
    fix i
    consider "i < length (slots p)" "live (slots p ! i)" | "i < length (slots p)" "\<not> live (slots p ! i)"
      | "i = length (slots p)" | "i > length (slots p)" by linarith
    then show "tuple_at p' i = ((tuple_at p)(length (slots p) \<mapsto> tup)) i"
    proof cases
      case 1
      then have "bytes_at (copy_in tup fe (sp_data p)) (slot_offset (slots p ! i)) (slot_length (slots p ! i)) =
          bytes_at (sp_data p) (slot_offset (slots p ! i)) (slot_length (slots p ! i))"
        using wf_slot[OF assms(1) 1] old[OF 1] fe room ld by (intro bytes_at_apart) auto
      with 1 show ?thesis by (simp add: tuple_at_def p'_def n) (simp add: ss_def)
    next
      case 2
      then show ?thesis by (simp add: tuple_at_def p'_def n)
    next
      case 3
      then show ?thesis using bytes_at_copy_in[OF fe(2) room] new by (simp add: tuple_at_def p'_def ss_def)
    qed (simp add: tuple_at_def p'_def ss_def)
  qed
qed

lemma insert_wf:
  assumes "wf_page p"
  obtains r p' where "sp_insert_tuple mem tup (int (length tup)) p = Done (r, p')" "wf_page p'"
    "r = None \<and> tuple_at p' = tuple_at p \<and> length (slots p') = length (slots p) \<or>
     r = Some (int (length (slots p))) \<and> tuple_at p' = (tuple_at p)(length (slots p) \<mapsto> tup)"
proof (cases "tup = [] \<or> length (slots p) \<ge> SP_MAX_SLOTS")
  case True
  then show ?thesis using that[of None p] assms by (auto simp: sp_insert_tuple_def)
next
  case False
  note fin = that
  have put: thesis if p1: "wf_page p1" "tuple_at p1 = tuple_at p" "length (slots p1) = length (slots p)"
    "int (length tup) \<le> free_end p1 - free_start p1"
    "sp_insert_tuple mem tup (int (length tup)) p =
       (if \<not> in_page (free_end p1 - int (length tup)) (int (length tup)) \<or> int (length tup) < int (length tup) then Undefined
        else (let fe = free_end p1 - int (length tup);
                    ss = slots p1 @ [\<lparr> slot_offset = fe, slot_length = int (length tup) \<rparr>]
                in Done (Some (int (length (slots p1))),
                         p1\<lparr> free_end := fe, slots := ss,
                             sp_data := copy_in (take (nat (int (length tup))) tup) fe (sp_data p1),
                             tuple_count := tuple_count p1 + 1,
                             free_start := slot_array_end ss, sp_dirty := True \<rparr>)))" for p1
  proof -
    have "length (slots p1) < SP_MAX_SLOTS" "tup \<noteq> []" using False p1(3) by auto
    note w = put_tuple_wf[OF p1(1) this(2) p1(4) this(1)]
    show thesis using fin[OF _ w(2)] w(1,3) p1(2,3,5) by (simp add: Let_def)
  qed
  show ?thesis
  proof (cases "int (length tup) > free_end p - free_start p")
    case fits: False
    show ?thesis using False fits assms by (intro put[of p]) (simp_all add: sp_insert_tuple_def)
  next
    case True
    obtain ok p1 where c: "sp_compact mem p = Done (ok, p1)" "wf_page p1" "tuple_at p1 = tuple_at p"
      "length (slots p1) = length (slots p)"
      using compact_wf[OF assms] by metis
    show ?thesis
    proof (cases "ok \<and> \<not> int (length tup) > free_end p1 - free_start p1")
      case fits: True
      show ?thesis using False True fits c by (intro put[of p1]) (simp_all add: sp_insert_tuple_def)
    next
      case no: False
      then show ?thesis using that[of None p1] False True c by (auto simp: sp_insert_tuple_def)
    qed
  qed
qed
lemma shrink_slot_wf:
  assumes "wf_page p" "slot_valid p i" "new \<noteq> []" "int (length new) \<le> slot_length (slots p ! nat i)"
  defines "s \<equiv> slots p ! nat i"
  defines "p' \<equiv> p\<lparr> sp_data := copy_in new (slot_offset s) (sp_data p),
      slots := (slots p)[nat i := s\<lparr> slot_length := int (length new) \<rparr>], sp_dirty := True \<rparr>"
  shows "in_page (slot_offset s) (int (length new))" "wf_page p'" "tuple_at p' = (tuple_at p)(nat i \<mapsto> new)"
proof -
  have i: "nat i < length (slots p)" "live s" using assms(1,2) slot_valid_iff by (auto simp: s_def)
  have w: "0 \<le> free_end p" "free_end p \<le> slot_offset s" "slot_offset s + slot_length s \<le> SP_PAGE_SIZE"
    using wf_slot[OF assms(1) i(1)] i(2) by (simp_all add: s_def)
  have le: "int (length new) \<le> slot_length s" using assms(4) by (simp add: s_def)
  have ld: "int (length (sp_data p)) = SP_PAGE_SIZE" by (rule length_page_data[OF assms(1)])
  show "in_page (slot_offset s) (int (length new))" using w le by (simp add: in_page_def)
  have room: "0 \<le> slot_offset s" "nat (slot_offset s) + length new \<le> length (sp_data p)" using w le ld by linarith+
  define ss where "ss = (slots p)[nat i := s\<lparr> slot_length := int (length new) \<rparr>]"
  have n: "j \<noteq> nat i \<Longrightarrow> ss ! j = slots p ! j" for j by (simp add: ss_def)
  have n': "ss ! nat i = s\<lparr> slot_length := int (length new) \<rparr>" using i(1) by (simp add: ss_def)
  have l: "live (ss ! j) = live (slots p ! j)" if "j < length (slots p)" for j
    using that assms(3) i by (cases "j = nat i") (simp_all add: n n' live_def s_def)
  have smaller: "slot_offset (ss ! j) = slot_offset (slots p ! j)" "slot_length (ss ! j) \<le> slot_length (slots p ! j)"
    for j using le by (cases "j = nat i"; simp add: n n' s_def)+
  have apart: "slots_apart ss"
    unfolding slots_apart_def
  proof (intro allI impI)
    fix a b assume ab: "a < length ss" "b < length ss" "a \<noteq> b" "live (ss ! a)" "live (ss ! b)"
    then have "a < length (slots p)" "b < length (slots p)" by (simp_all add: ss_def)
    moreover from this have "live (slots p ! a)" "live (slots p ! b)" using ab l by simp_all
    ultimately have "slot_offset (slots p ! a) + slot_length (slots p ! a) \<le> slot_offset (slots p ! b) \<or>
        slot_offset (slots p ! b) + slot_length (slots p ! b) \<le> slot_offset (slots p ! a)"
      using ab(3) assms(1) by (simp add: wf_page_def slots_apart_def)
    then show "slot_offset (ss ! a) + slot_length (ss ! a) \<le> slot_offset (ss ! b) \<or>
        slot_offset (ss ! b) + slot_length (ss ! b) \<le> slot_offset (ss ! a)"
      using smaller[of a] smaller[of b] by linarith
  qed
  have cnt: "length (filter live ss) = length (filter live (slots p))"
  proof -
    have "length ss = length (slots p)" by (simp add: ss_def)
    then have "map live ss = map live (slots p)"
      by (intro nth_equalityI) (simp_all add: l)
    then have "filter id (map live ss) = filter id (map live (slots p))" by simp
    then have "map live (filter (id \<circ> live) ss) = map live (filter (id \<circ> live) (slots p))" by (simp add: filter_map)
    from arg_cong[OF this, of length] show ?thesis by (simp add: comp_def)
  qed
  show "wf_page p'"
    unfolding wf_page_def
  proof (intro conjI)
    show "length (sp_data p') = nat SP_PAGE_SIZE"
      using assms(1) room by (simp add: p'_def length_copy_in wf_page_def)
    show "\<forall>s \<in> set (slots p'). 0 \<le> slot_length s \<and>
        (live s \<longrightarrow> free_end p' \<le> slot_offset s \<and> slot_offset s + slot_length s \<le> SP_PAGE_SIZE)"
      using assms(1) w le by (auto simp: p'_def wf_page_def dest!: set_update_subset_insert[THEN subsetD])
  qed (use assms(1) apart cnt in \<open>simp_all add: p'_def wf_page_def slot_array_end_def ss_def\<close>)
  show "tuple_at p' = (tuple_at p)(nat i \<mapsto> new)"
  proof
    fix j
    consider "j = nat i" | "j \<noteq> nat i" "j < length (slots p)" "live (slots p ! j)"
      | "j \<noteq> nat i" "\<not> (j < length (slots p) \<and> live (slots p ! j))" by blast
    then show "tuple_at p' j = ((tuple_at p)(nat i \<mapsto> new)) j"
    proof cases
      case 1
      then show ?thesis
        using i l[OF i(1)] bytes_at_copy_in[OF room] by (simp add: tuple_at_def p'_def ss_def[symmetric] n' s_def[symmetric]) (simp add: ss_def)
    next
      case 2
      have "slot_offset (slots p ! j) + slot_length (slots p ! j) \<le> slot_offset s \<or>
          slot_offset s + slot_length s \<le> slot_offset (slots p ! j)"
        using assms(1) 2 i unfolding wf_page_def slots_apart_def s_def by blast
      then have "bytes_at (copy_in new (slot_offset s) (sp_data p)) (slot_offset (slots p ! j)) (slot_length (slots p ! j)) =
          bytes_at (sp_data p) (slot_offset (slots p ! j)) (slot_length (slots p ! j))"
        using wf_slot[OF assms(1) 2(2,3)] room ld le by (intro bytes_at_apart) auto
      with 2 show ?thesis by (simp add: tuple_at_def p'_def ss_def[symmetric] n) (simp add: ss_def)
    next
      case 3
      then show ?thesis by (auto simp: tuple_at_def p'_def)
    qed
  qed
qed

lemma update_wf:
  assumes "wf_page p"
  obtains ok p' where "sp_update_tuple mem i new (int (length new)) p = Done (ok, p')" "wf_page p'"
    "tuple_at p' =
       (if new = [] \<or> \<not> slot_valid p i then tuple_at p
        else if int (length new) \<le> slot_length (slots p ! nat i) then (tuple_at p)(nat i \<mapsto> new)
        else if ok then (tuple_at p)(nat i := None, length (slots p) \<mapsto> new)
        else (tuple_at p)(nat i := None))"
    "new = [] \<or> \<not> slot_valid p i \<longrightarrow> \<not> ok \<and> p' = p"
    "new \<noteq> [] \<and> slot_valid p i \<and> int (length new) \<le> slot_length (slots p ! nat i) \<longrightarrow> ok"
proof (cases "new = [] \<or> \<not> slot_valid p i")
  case True
  then show ?thesis using that[of False p] assms by (auto simp: sp_update_tuple_def)
next
  case False
  then have v: "new \<noteq> []" "slot_valid p i" by auto
  show ?thesis
  proof (cases "int (length new) \<le> slot_length (slots p ! nat i)")
    case True
    note w = shrink_slot_wf[OF assms v(2,1) True]
    show ?thesis using that[OF _ w(2)] w(1,3) True v by (simp add: sp_update_tuple_def Let_def)
  next
    case grow: False
    note d = drop_slot_wf[OF assms v(2)]
    have len: "length (slots (drop_slot i p)) = length (slots p)" by (simp add: drop_slot_def)
    obtain r p1 where r: "sp_insert_tuple mem new (int (length new)) (drop_slot i p) = Done (r, p1)" "wf_page p1"
      "r = None \<and> tuple_at p1 = tuple_at (drop_slot i p) \<and> length (slots p1) = length (slots (drop_slot i p)) \<or>
       r = Some (int (length (slots (drop_slot i p)))) \<and>
         tuple_at p1 = (tuple_at (drop_slot i p))(length (slots (drop_slot i p)) \<mapsto> new)"
      using insert_wf[OF d(1)] by metis
    have wd: "wf_page (p1\<lparr> sp_dirty := True \<rparr>)" "tuple_at (p1\<lparr> sp_dirty := True \<rparr>) = tuple_at p1"
      using r(2) by (auto simp: wf_page_def tuple_at_def)
    show ?thesis
      using that[of False p1] that[of True "p1\<lparr> sp_dirty := True \<rparr>"] r wd v grow d(2) len
      by (auto simp: sp_update_tuple_def Let_def)
  qed
qed

section \<open>Pages under any operations\<close>

datatype page_op =
    Insert_Tuple bool "byte list"
  | Delete_Tuple int
  | Update_Tuple bool int "byte list"
  | Compact_Page bool

fun page_step :: "page_op \<Rightarrow> slotted_page \<Rightarrow> slotted_page outcome" where
  "page_step (Insert_Tuple mem tup) p =
     bind_outcome (sp_insert_tuple mem tup (int (length tup)) p) (\<lambda>(_, p'). Done p')"
| "page_step (Delete_Tuple i) p = Done (snd (sp_delete_tuple i p))"
| "page_step (Update_Tuple mem i tup) p =
     bind_outcome (sp_update_tuple mem i tup (int (length tup)) p) (\<lambda>(_, p'). Done p')"
| "page_step (Compact_Page mem) p = bind_outcome (sp_compact mem p) (\<lambda>(_, p'). Done p')"

definition page_next :: "page_op \<Rightarrow> slotted_page outcome \<Rightarrow> slotted_page outcome" where
  "page_next op x = bind_outcome x (page_step op)"

definition fresh_page :: "slotted_page outcome \<Rightarrow> bool" where
  "fresh_page x \<longleftrightarrow> (\<exists>pid. x = Done (sp_init_page pid))"

definition page_ok :: "slotted_page outcome \<Rightarrow> bool" where
  "page_ok x \<longleftrightarrow> (\<exists>p. x = Done p \<and> wf_page p)"

lemma wf_init_page: "wf_page (sp_init_page pid)"
  by (simp add: wf_page_def sp_init_page_def slot_array_end_def slots_apart_def c_consts)

lemma wf_dirty [simp]: "wf_page (p\<lparr> sp_dirty := b \<rparr>) = wf_page p" "tuple_at (p\<lparr> sp_dirty := b \<rparr>) = tuple_at p"
  by (auto simp: wf_page_def tuple_at_def)

lemma delete_wf:
  "wf_page p \<Longrightarrow> wf_page (snd (sp_delete_tuple i p)) \<and>
     tuple_at (snd (sp_delete_tuple i p)) = (if slot_valid p i then (tuple_at p)(nat i := None) else tuple_at p)"
  using drop_slot_wf[of p i] by (simp add: sp_delete_tuple_def)

lemma page_step_wf: "wf_page p \<Longrightarrow> \<exists>p'. page_step op p = Done p' \<and> wf_page p'"
proof (cases op)
  case (Insert_Tuple mem tup)
  assume "wf_page p"
  then show ?thesis by (rule insert_wf[where mem = mem and tup = tup]) (simp add: Insert_Tuple)
next
  case (Update_Tuple mem i tup)
  assume "wf_page p"
  then show ?thesis by (rule update_wf[where mem = mem and new = tup and i = i]) (simp add: Update_Tuple)
next
  case (Compact_Page mem)
  assume "wf_page p"
  then show ?thesis by (rule compact_wf[where mem = mem]) (simp add: Compact_Page)
qed (simp add: delete_wf)

interpretation page_sys: invariant_system fresh_page page_next page_ok
  by unfold_locales (auto simp: fresh_page_def page_ok_def page_next_def wf_init_page intro!: page_step_wf)

lemma tuple_count_card: "wf_page p \<Longrightarrow> tuple_count p = int (card (dom (tuple_at p)))"
proof -
  assume "wf_page p"
  moreover have "dom (tuple_at p) = {i. i < length (slots p) \<and> live (slots p ! i)}"
    by (auto simp: tuple_at_def dom_def)
  ultimately show ?thesis by (simp add: wf_page_def length_filter_conv_card)
qed

text \<open>
  C18. No sequence of insertions, deletions, updates and compactions on a fresh page reads or
  writes outside the page; afterwards the live tuples lie between the free space and the end of
  the page without overlapping, and the tuple count is the number of live tuples.
\<close>

theorem page_operations_safe:
  "\<exists>p. fold page_next ops (Done (sp_init_page pid)) = Done p \<and> wf_page p \<and>
       tuple_count p = int (card (dom (tuple_at p)))"
proof -
  have "page_ok (fold page_next ops (Done (sp_init_page pid)))"
    by (rule page_sys.run_inv) (auto simp: fresh_page_def)
  then show ?thesis by (auto simp: page_ok_def tuple_count_card)
qed

text \<open>
  C19. A well-formed page is a partial map from slots to tuples: an insertion adds the tuple
  under the next slot number or changes no tuple, a deletion removes exactly its slot, a
  compaction changes no tuple, and a read returns what the map holds.
\<close>

theorem page_refines_map:
  assumes "wf_page p"
  shows "(\<exists>r p'. sp_insert_tuple mem tup (int (length tup)) p = Done (r, p') \<and>
      tuple_at p' = (case r of None \<Rightarrow> tuple_at p | Some i \<Rightarrow> (tuple_at p)(length (slots p) \<mapsto> tup)) \<and>
      r \<in> {None, Some (int (length (slots p)))}) \<and>
    tuple_at (snd (sp_delete_tuple (int i) p)) = (tuple_at p)(i := None) \<and>
    (\<exists>ok p'. sp_compact mem p = Done (ok, p') \<and> tuple_at p' = tuple_at p) \<and>
    sp_get_tuple (int i) p = Done (tuple_at p i)"
proof (intro conjI)
  show "\<exists>r p'. sp_insert_tuple mem tup (int (length tup)) p = Done (r, p') \<and>
      tuple_at p' = (case r of None \<Rightarrow> tuple_at p | Some i \<Rightarrow> (tuple_at p)(length (slots p) \<mapsto> tup)) \<and>
      r \<in> {None, Some (int (length (slots p)))}"
    by (rule insert_wf[OF assms, of mem tup]) auto
  show "tuple_at (snd (sp_delete_tuple (int i) p)) = (tuple_at p)(i := None)"
    using delete_wf[OF assms, of "int i"] by (auto simp: slot_valid_iff[OF assms] tuple_at_def)
  show "\<exists>ok p'. sp_compact mem p = Done (ok, p') \<and> tuple_at p' = tuple_at p"
    by (rule compact_wf[OF assms, of mem]) auto
qed (simp add: get_tuple_at[OF assms])

theorem page_refines_map_witness:
  "(\<exists>r p'. sp_insert_tuple True [1, 2] (int (length [1, 2 :: byte])) (sp_init_page 7) = Done (r, p') \<and>
      tuple_at p' = (case r of None \<Rightarrow> tuple_at (sp_init_page 7) | Some i \<Rightarrow> (tuple_at (sp_init_page 7))(length (slots (sp_init_page 7)) \<mapsto> [1, 2])) \<and>
      r \<in> {None, Some (int (length (slots (sp_init_page 7))))}) \<and>
    tuple_at (snd (sp_delete_tuple (int 0) (sp_init_page 7))) = (tuple_at (sp_init_page 7))(0 := None) \<and>
    (\<exists>ok p'. sp_compact True (sp_init_page 7) = Done (ok, p') \<and> tuple_at p' = tuple_at (sp_init_page 7)) \<and>
    sp_get_tuple (int 0) (sp_init_page 7) = Done (tuple_at (sp_init_page 7) 0)"
  by (rule page_refines_map[OF wf_init_page])

text \<open>
  An update of a live tuple to at most its size is in place. A larger one moves the tuple
  to the next slot, which the caller is not told: its slot no longer holds anything. When the
  larger tuple does not fit, the update fails and the old tuple is gone.
\<close>

theorem page_update_outcomes:
  assumes "wf_page p" "tuple_at p i = Some old" "new \<noteq> []"
  shows "\<exists>ok p'. sp_update_tuple mem (int i) new (int (length new)) p = Done (ok, p') \<and> wf_page p' \<and>
    tuple_at p' =
      (if length new \<le> length old then (tuple_at p)(i \<mapsto> new)
       else if ok then (tuple_at p)(i := None, length (slots p) \<mapsto> new)
       else (tuple_at p)(i := None))"
proof -
  have i: "i < length (slots p)" "live (slots p ! i)" "old = bytes_at (sp_data p) (slot_offset (slots p ! i)) (slot_length (slots p ! i))"
    using assms(2) by (auto simp: tuple_at_def split: if_splits)
  have v: "slot_valid p (int i)" using i by (simp add: slot_valid_iff[OF assms(1)])
  have "length old = nat (slot_length (slots p ! i))"
    unfolding i(3) using wf_slot[OF assms(1) i(1,2)] length_page_data[OF assms(1)] by (intro length_bytes_at) auto
  then have l: "int (length new) \<le> slot_length (slots p ! nat (int i)) \<longleftrightarrow> length new \<le> length old"
    using wf_slot(3)[OF assms(1) i(1,2)] by auto
  show ?thesis
    by (rule update_wf[OF assms(1), of mem "int i" new]) (use assms(3) v l in auto)
qed

definition demo_page :: slotted_page where
  "demo_page =
     (case sp_insert_tuple True [1] 1 (sp_init_page 7) of Done (r, p) \<Rightarrow> p | _ \<Rightarrow> sp_init_page 7)"

lemma demo_page_tuple: "wf_page demo_page \<and> tuple_at demo_page 0 = Some [1]"
proof (rule insert_wf[OF wf_init_page, of True "[1]" 7])
  fix r p' assume p': "sp_insert_tuple True [1] (int (length [1 :: byte])) (sp_init_page 7) = Done (r, p')"
    "wf_page p'"
    "r = None \<and> tuple_at p' = tuple_at (sp_init_page 7) \<and> length (slots p') = length (slots (sp_init_page 7)) \<or>
     r = Some (int (length (slots (sp_init_page 7)))) \<and> tuple_at p' = (tuple_at (sp_init_page 7))(length (slots (sp_init_page 7)) \<mapsto> [1])"
  moreover have "r \<noteq> None"
    using p'(1) by (auto simp: sp_insert_tuple_def sp_init_page_def in_page_def Let_def c_consts)
  ultimately show ?thesis by (auto simp: demo_page_def sp_init_page_def)
qed

theorem page_update_outcomes_witness:
  "\<exists>ok p'. sp_update_tuple True (int 0) [3, 4] (int (length [3, 4 :: byte])) demo_page = Done (ok, p') \<and>
    wf_page p' \<and>
    tuple_at p' =
      (if length [3, 4 :: byte] \<le> length [1 :: byte] then (tuple_at demo_page)(0 \<mapsto> [3, 4])
       else if ok then (tuple_at demo_page)(0 := None, length (slots demo_page) \<mapsto> [3, 4])
       else (tuple_at demo_page)(0 := None))"
  by (rule page_update_outcomes) (use demo_page_tuple in simp_all)
end
