(* ===== verification/Disk_Manager.thy ===== *)
theory Disk_Manager
  imports Codec_Base
begin

text \<open>
  The disk manager of \<open>mini-db-kernel\<close> (\<open>disk_manager.h\<close>, \<open>disk_manager.c\<close>), which keeps
  the database in memory: a table of 65536 page slots, the I/O counters and the simulated
  crash. A slot that is not allocated is \<open>None\<close>; the arrays \<open>allocated\<close> and \<open>pages\<close> of the code
  always agree. Whether \<open>calloc\<close> succeeds is the parameter \<open>mem\<close>.
\<close>

definition DM_MAX_PAGES :: nat where [c_consts]: "DM_MAX_PAGES = 65536"
definition DM_PAGE_SIZE :: nat where [c_consts]: "DM_PAGE_SIZE = 4096"
definition DM_FILE_NAME_LEN :: nat where [c_consts]: "DM_FILE_NAME_LEN = 256"

record disk_manager =
  dm_pages :: "byte list option list"
  num_pages :: int
  read_count :: int
  write_count :: int
  simulated_crash :: bool
  db_name :: string

section \<open>Operations\<close>

definition dm_init :: "string option \<Rightarrow> disk_manager" where
  "dm_init name =
     \<lparr> dm_pages = replicate DM_MAX_PAGES None, num_pages = 0, read_count = 0, write_count = 0,
       simulated_crash = False,
       db_name = c_strncpy (DM_FILE_NAME_LEN - 1) (case name of None \<Rightarrow> ''default.db'' | Some n \<Rightarrow> n) \<rparr>"

definition dm_destroy :: "disk_manager \<Rightarrow> disk_manager" where
  "dm_destroy dm = dm\<lparr> dm_pages := map (\<lambda>_. None) (dm_pages dm), num_pages := 0 \<rparr>"

definition dm_allocate_page :: "bool \<Rightarrow> disk_manager \<Rightarrow> int \<times> disk_manager" where
  "dm_allocate_page mem dm =
     (if simulated_crash dm then (-1, dm)
      else
        (case find_idx (\<lambda>x. x = None) (dm_pages dm) of
           Some i \<Rightarrow>
             if \<not> mem then (-1, dm)
             else (int i, dm\<lparr> dm_pages := (dm_pages dm)[i := Some (replicate DM_PAGE_SIZE 0)],
                              num_pages := num_pages dm + 1 \<rparr>)
         | None \<Rightarrow> (-1, dm)))"

definition page_at :: "disk_manager \<Rightarrow> int \<Rightarrow> byte list option" where
  "page_at dm pid = (if pid < 0 \<or> pid \<ge> int DM_MAX_PAGES then None else dm_pages dm ! nat pid)"

definition dm_deallocate_page :: "int \<Rightarrow> disk_manager \<Rightarrow> disk_manager" where
  "dm_deallocate_page pid dm =
     (if pid < 0 \<or> pid \<ge> int DM_MAX_PAGES then dm
      else if page_at dm pid = None then dm
      else dm\<lparr> dm_pages := (dm_pages dm)[nat pid := None], num_pages := num_pages dm - 1 \<rparr>)"

definition dm_read_page :: "int \<Rightarrow> int \<Rightarrow> disk_manager \<Rightarrow> byte list option \<times> disk_manager" where
  "dm_read_page pid buf_size dm =
     (if buf_size < int DM_PAGE_SIZE then (None, dm)
      else if pid < 0 \<or> pid \<ge> int DM_MAX_PAGES then (None, dm)
      else if simulated_crash dm then (None, dm)
      else
        (case page_at dm pid of
           None \<Rightarrow> (None, dm)
         | Some page \<Rightarrow> (Some (take DM_PAGE_SIZE page), dm\<lparr> read_count := read_count dm + 1 \<rparr>)))"

text \<open>The buffer holds at least \<open>buf_size\<close> bytes.\<close>

definition dm_write_page :: "int \<Rightarrow> byte list \<Rightarrow> int \<Rightarrow> disk_manager \<Rightarrow> bool \<times> disk_manager" where
  "dm_write_page pid buffer buf_size dm =
     (if buf_size < int DM_PAGE_SIZE then (False, dm)
      else if pid < 0 \<or> pid \<ge> int DM_MAX_PAGES then (False, dm)
      else if simulated_crash dm then (False, dm)
      else
        (case page_at dm pid of
           None \<Rightarrow> (False, dm)
         | Some page \<Rightarrow>
             (True, dm\<lparr> dm_pages := (dm_pages dm)[nat pid := Some (take DM_PAGE_SIZE buffer @ drop DM_PAGE_SIZE page)],
                        write_count := write_count dm + 1 \<rparr>)))"

definition dm_get_num_pages :: "disk_manager \<Rightarrow> int" where "dm_get_num_pages dm = num_pages dm"
definition dm_get_read_count :: "disk_manager \<Rightarrow> int" where "dm_get_read_count dm = read_count dm"
definition dm_get_write_count :: "disk_manager \<Rightarrow> int" where "dm_get_write_count dm = write_count dm"

definition dm_simulate_crash :: "bool \<Rightarrow> disk_manager \<Rightarrow> disk_manager" where
  "dm_simulate_crash crash dm = dm\<lparr> simulated_crash := crash \<rparr>"

definition dm_is_crashed :: "disk_manager \<Rightarrow> bool" where "dm_is_crashed dm = simulated_crash dm"

section \<open>Invariant\<close>

definition wf_disk :: "disk_manager \<Rightarrow> bool" where
  "wf_disk dm \<longleftrightarrow> length (dm_pages dm) = DM_MAX_PAGES \<and>
     num_pages dm = int (length (filter (\<lambda>x. x \<noteq> None) (dm_pages dm))) \<and>
     (\<forall>page. Some page \<in> set (dm_pages dm) \<longrightarrow> length page = DM_PAGE_SIZE)"

datatype disk_op =
    Allocate bool | Deallocate int | Read_Page int int | Write_Page int "byte list" | Crash bool

fun disk_step :: "disk_op \<Rightarrow> disk_manager \<Rightarrow> disk_manager" where
  "disk_step (Allocate mem) dm = snd (dm_allocate_page mem dm)"
| "disk_step (Deallocate pid) dm = dm_deallocate_page pid dm"
| "disk_step (Read_Page pid n) dm = snd (dm_read_page pid n dm)"
| "disk_step (Write_Page pid buf) dm = snd (dm_write_page pid buf (int (length buf)) dm)"
| "disk_step (Crash c) dm = dm_simulate_crash c dm"

definition fresh_disk :: "disk_manager \<Rightarrow> bool" where
  "fresh_disk dm \<longleftrightarrow> (\<exists>name. dm = dm_init name)"

text \<open>The count of allocated slots under the three kinds of update, as \<open>simp\<close> writes the test.\<close>

lemma count_update:
  "i < length xs \<Longrightarrow>
   int (length (filter (\<lambda>x. \<exists>y. x = Some y) (xs[i := z]))) =
     int (length (filter (\<lambda>x. \<exists>y. x = Some y) xs)) + of_bool (z \<noteq> None) - of_bool (xs ! i \<noteq> None)"
proof (induction xs arbitrary: i)
  case (Cons x xs)
  then show ?case by (cases i; cases z; cases x) (auto simp: of_bool_def split: if_splits)
qed simp

lemma page_at_SomeD:
  assumes "page_at dm pid = Some page" "wf_disk dm"
  shows "0 \<le> pid" "nat pid < length (dm_pages dm)" "dm_pages dm ! nat pid = Some page" "length page = DM_PAGE_SIZE"
proof -
  show r: "0 \<le> pid" "nat pid < length (dm_pages dm)" "dm_pages dm ! nat pid = Some page"
    using assms by (auto simp: page_at_def wf_disk_def nat_less_iff split: if_splits)
  have "Some page \<in> set (dm_pages dm)" using r nth_mem[of "nat pid" "dm_pages dm"] by simp
  then show "length page = DM_PAGE_SIZE" using assms(2) by (simp add: wf_disk_def)
qed

lemma pages_update_length:
  "\<forall>page. Some page \<in> set xs \<longrightarrow> length page = n \<Longrightarrow> (case y of None \<Rightarrow> True | Some p \<Rightarrow> length p = n) \<Longrightarrow>
   \<forall>page. Some page \<in> set (xs[i := y]) \<longrightarrow> length page = n"
  by (auto dest!: set_update_subset_insert[THEN subsetD])

lemma wf_disk_update:
  assumes "wf_disk dm" "i < DM_MAX_PAGES" "case y of None \<Rightarrow> True | Some p \<Rightarrow> length p = DM_PAGE_SIZE"
    and "dm_pages dm' = (dm_pages dm)[i := y]"
    and "num_pages dm' = num_pages dm + of_bool (y \<noteq> None) - of_bool (dm_pages dm ! i \<noteq> None)"
  shows "wf_disk dm'"
  using assms pages_update_length[of "dm_pages dm" DM_PAGE_SIZE y i] count_update[of i "dm_pages dm" y]
  by (simp add: wf_disk_def)

lemma allocate_cases:
  assumes "wf_disk dm"
  obtains "dm_allocate_page mem dm = (-1, dm)"
  | i where "dm_allocate_page mem dm = (int i, dm\<lparr> dm_pages := (dm_pages dm)[i := Some (replicate DM_PAGE_SIZE 0)],
                              num_pages := num_pages dm + 1 \<rparr>)"
     "i < DM_MAX_PAGES" "dm_pages dm ! i = None" "\<not> simulated_crash dm" mem
proof (cases "find_idx (\<lambda>x. x = None) (dm_pages dm)")
  case None
  then have "dm_allocate_page mem dm = (-1, dm)" by (simp add: dm_allocate_page_def)
  then show ?thesis by (rule that(1))
next
  case (Some i)
  have i: "i < DM_MAX_PAGES" using find_idx_SomeD(1)[OF Some] assms by (simp add: wf_disk_def)
  show ?thesis
  proof (cases "simulated_crash dm \<or> \<not> mem")
    case True
    then have "dm_allocate_page mem dm = (-1, dm)" by (auto simp: dm_allocate_page_def Some)
    then show ?thesis by (rule that(1))
  next
    case False
    then show ?thesis using that(2)[of i] i find_idx_SomeD(2)[OF Some] by (simp add: dm_allocate_page_def Some)
  qed
qed

lemma allocate_wf:
  assumes "wf_disk dm"
  shows "wf_disk (snd (dm_allocate_page mem dm))"
  using assms
proof (cases rule: allocate_cases[of dm mem])
  case (2 i)
  then show ?thesis
    using wf_disk_update[OF assms, of i "Some (replicate DM_PAGE_SIZE 0)" "snd (dm_allocate_page mem dm)"] by simp
qed (use assms in simp)

lemma deallocate_wf:
  assumes "wf_disk dm"
  shows "wf_disk (dm_deallocate_page pid dm)"
proof (cases "page_at dm pid")
  case (Some page)
  note p = page_at_SomeD[OF Some assms]
  then have "nat pid < DM_MAX_PAGES" "\<not> int DM_MAX_PAGES \<le> pid" using assms by (auto simp: wf_disk_def)
  with p assms Some show ?thesis
    using wf_disk_update[OF assms, of "nat pid" None "dm_deallocate_page pid dm"]
    by (simp add: dm_deallocate_page_def)
qed (use assms in \<open>simp add: dm_deallocate_page_def\<close>)

lemma write_wf:
  assumes "wf_disk dm" "n \<le> int (length buf)"
  shows "wf_disk (snd (dm_write_page pid buf n dm))"
proof (cases "page_at dm pid = None \<or> simulated_crash dm \<or> n < int DM_PAGE_SIZE")
  case True
  then show ?thesis using assms by (auto simp: dm_write_page_def)
next
  case False
  then obtain page where Some: "page_at dm pid = Some page" by auto
  note p = page_at_SomeD[OF Some assms(1)]
  then have lt: "nat pid < DM_MAX_PAGES" using assms(1) by (simp add: wf_disk_def)
  let ?page = "take DM_PAGE_SIZE buf @ drop DM_PAGE_SIZE page"
  have w: "snd (dm_write_page pid buf n dm) =
      dm\<lparr> dm_pages := (dm_pages dm)[nat pid := Some ?page], write_count := write_count dm + 1 \<rparr>"
    using p(1) lt False Some by (auto simp: dm_write_page_def)
  have "DM_PAGE_SIZE \<le> length buf" using False assms(2) by simp
  with p lt show ?thesis
    using wf_disk_update[OF assms(1), of "nat pid" "Some ?page" "snd (dm_write_page pid buf n dm)"]
    by (simp add: w)
qed

lemma read_wf: "wf_disk dm \<Longrightarrow> wf_disk (snd (dm_read_page pid n dm))"
  by (auto simp: dm_read_page_def wf_disk_def split: option.split)

interpretation disk_sys: invariant_system fresh_disk disk_step wf_disk
proof unfold_locales
  fix s assume "fresh_disk s"
  then show "wf_disk s" by (auto simp: fresh_disk_def dm_init_def wf_disk_def)
next
  fix s op assume "wf_disk s"
  then show "wf_disk (disk_step op s)"
    by (cases op) (simp_all add: allocate_wf deallocate_wf read_wf write_wf, simp add: dm_simulate_crash_def wf_disk_def)
qed

lemma page_at_update:
  "wf_disk dm \<Longrightarrow> i < DM_MAX_PAGES \<Longrightarrow> dm_pages dm' = (dm_pages dm)[i := y] \<Longrightarrow>
   page_at dm' = (page_at dm)(int i := y)"
  by (rule ext) (auto simp: page_at_def wf_disk_def nth_list_update nat_eq_iff)

lemma card_pages: "card {i. i < length xs \<and> xs ! i \<noteq> None} = length (filter (\<lambda>x. x \<noteq> None) xs)"
  by (simp add: length_filter_conv_card)

lemmas card_pages_simp = card_pages[simplified]

lemma num_pages_card:
  assumes "wf_disk dm"
  shows "num_pages dm = int (card {q. page_at dm q \<noteq> None})"
proof -
  have "{q. page_at dm q \<noteq> None} = int ` {i. i < length (dm_pages dm) \<and> dm_pages dm ! i \<noteq> None}"
  proof (intro set_eqI iffI)
    fix q assume "q \<in> {q. page_at dm q \<noteq> None}"
    then have "q = int (nat q)" "nat q < length (dm_pages dm)" "dm_pages dm ! nat q \<noteq> None"
      using assms by (auto simp: page_at_def wf_disk_def nat_less_iff split: if_splits)
    then show "q \<in> int ` {i. i < length (dm_pages dm) \<and> dm_pages dm ! i \<noteq> None}" by blast
  qed (use assms in \<open>auto simp: page_at_def wf_disk_def\<close>)
  then show ?thesis using assms by (auto simp: card_image card_pages_simp[symmetric] wf_disk_def)
qed

lemma allocate_spec:
  assumes "wf_disk dm"
  shows "case dm_allocate_page mem dm of (r, dm') \<Rightarrow>
       if r < 0 then dm' = dm
       else \<not> simulated_crash dm \<and> page_at dm r = None \<and>
            page_at dm' = (page_at dm)(r \<mapsto> replicate DM_PAGE_SIZE 0)"
  using assms
proof (cases rule: allocate_cases[of dm mem])
  case (2 i)
  have "page_at dm (int i) = None" using 2 by (simp add: page_at_def)
  with 2 page_at_update[OF assms 2(2), of "snd (dm_allocate_page mem dm)"] show ?thesis by simp
qed simp

lemma write_spec:
  assumes "wf_disk dm" "length buf = DM_PAGE_SIZE"
  shows "case dm_write_page pid buf (int (length buf)) dm of (ok, dm') \<Rightarrow>
       ok = (\<not> simulated_crash dm \<and> page_at dm pid \<noteq> None) \<and>
       (if ok then page_at dm' = (page_at dm)(pid \<mapsto> buf) \<and>
                   fst (dm_read_page pid (int DM_PAGE_SIZE) dm') = Some buf
        else dm' = dm)"
proof (cases "page_at dm pid")
  case None
  then show ?thesis by (simp add: dm_write_page_def)
next
  case (Some page)
  note p = page_at_SomeD[OF Some assms(1)]
  then have lt: "nat pid < DM_MAX_PAGES" using assms(1) by (simp add: wf_disk_def)
  let ?dm = "snd (dm_write_page pid buf (int (length buf)) dm)"
  show ?thesis
  proof (cases "simulated_crash dm")
    case False
    have w: "dm_write_page pid buf (int (length buf)) dm = (True, ?dm)"
      "dm_pages ?dm = (dm_pages dm)[nat pid := Some buf]" "\<not> simulated_crash ?dm"
      using p lt False Some assms(2) by (auto simp: dm_write_page_def)
    have "page_at ?dm = (page_at dm)(pid \<mapsto> buf)" using page_at_update[OF assms(1) lt w(2)] p(1) by simp
    with w p(1) lt Some False assms(2) show ?thesis
      by (subst w(1)) (auto simp: dm_read_page_def)
  qed (simp add: dm_write_page_def)
qed

text \<open>
  After any operations on a fresh disk the page count is the number of allocated pages; an
  allocation returns a page that was free, zeroed, and leaves the others alone; what is written
  to an allocated page is what a read of it returns, other pages are untouched, and while the
  crash is simulated every allocation and write fails and changes nothing.
\<close>

theorem disk_pages_spec:
  assumes "reach fresh_disk disk_step dm" "length buf = DM_PAGE_SIZE"
  shows "num_pages dm = int (card {q. page_at dm q \<noteq> None}) \<and>
    (case dm_allocate_page mem dm of (r, dm') \<Rightarrow>
       if r < 0 then dm' = dm
       else \<not> simulated_crash dm \<and> page_at dm r = None \<and>
            page_at dm' = (page_at dm)(r \<mapsto> replicate DM_PAGE_SIZE 0)) \<and>
    (case dm_write_page pid buf (int (length buf)) dm of (ok, dm') \<Rightarrow>
       ok = (\<not> simulated_crash dm \<and> page_at dm pid \<noteq> None) \<and>
       (if ok then page_at dm' = (page_at dm)(pid \<mapsto> buf) \<and>
                   fst (dm_read_page pid (int DM_PAGE_SIZE) dm') = Some buf
        else dm' = dm))"
  using disk_sys.reach_inv[OF assms(1)] assms(2)
  by (intro conjI num_pages_card allocate_spec write_spec)

definition demo_disk :: disk_manager where
  "demo_disk = disk_step (Allocate True) (dm_init None)"

lemma demo_disk_reach: "reach fresh_disk disk_step demo_disk"
  unfolding demo_disk_def by (intro reach_step reach_init) (auto simp: fresh_disk_def)

theorem disk_pages_spec_witness:
  "num_pages demo_disk = int (card {q. page_at demo_disk q \<noteq> None})"
  using disk_pages_spec[OF demo_disk_reach, of "replicate DM_PAGE_SIZE 1" True 0] by simp

end
