(* ===== verification/Chained_Table.thy ===== *)
theory Chained_Table
  imports Prelude
begin

text \<open>
  Hash tables with chaining, as the buffer pool and the block cache use them: an array of
  buckets, each the chain of its entries from the head. The functions are what the C loops
  over one chain compute; the locale says when such a table is a finite set of entries with
  distinct keys, and what finding, prepending and unlinking an entry mean for that set.
\<close>

definition chain_find :: "('x \<Rightarrow> 'k) \<Rightarrow> ('k \<Rightarrow> nat) \<Rightarrow> 'x list list \<Rightarrow> 'k \<Rightarrow> 'x option" where
  "chain_find key hash tab k = find (\<lambda>x. key x = k) (tab ! hash k)"

definition chain_push :: "nat \<Rightarrow> 'x \<Rightarrow> 'x list list \<Rightarrow> 'x list list" where
  "chain_push b x tab = tab[b := x # tab ! b]"

text \<open>Unlinking the first cell of a chain that satisfies a test.\<close>

fun unlink_first :: "('x \<Rightarrow> bool) \<Rightarrow> 'x list \<Rightarrow> 'x list" where
  "unlink_first P [] = []"
| "unlink_first P (x # xs) = (if P x then xs else x # unlink_first P xs)"

definition chain_unlink :: "nat \<Rightarrow> ('x \<Rightarrow> bool) \<Rightarrow> 'x list list \<Rightarrow> 'x list list" where
  "chain_unlink b P tab = tab[b := unlink_first P (tab ! b)]"

lemma unlink_first_remove1: "unlink_first (\<lambda>x. x = y) xs = remove1 y xs"
  by (induction xs) auto

lemma unlink_first_unique:
  "distinct xs \<Longrightarrow> (\<And>y. y \<in> set xs \<Longrightarrow> P y \<longleftrightarrow> y = x) \<Longrightarrow> unlink_first P xs = filter (\<lambda>y. y \<noteq> x) xs"
proof (induction xs)
  case (Cons a xs)
  show ?case
  proof (cases "a = x")
    case True
    then have "x \<notin> set xs" using Cons.prems(1) by simp
    then have "filter (\<lambda>y. y \<noteq> x) xs = xs" by (auto intro: filter_True)
    then show ?thesis using True Cons.prems(2)[of a] by simp
  qed (use Cons in auto)
qed simp

definition chain_elems :: "'x list list \<Rightarrow> 'x set" where
  "chain_elems tab = \<Union> (set ` set tab)"

definition table_ok :: "('x \<Rightarrow> 'k) \<Rightarrow> ('k \<Rightarrow> nat) \<Rightarrow> nat \<Rightarrow> 'x list list \<Rightarrow> bool" where
  "table_ok key hash n tab \<longleftrightarrow> length tab = n \<and>
     (\<forall>b < n. distinct (map key (tab ! b)) \<and> (\<forall>x \<in> set (tab ! b). hash (key x) = b))"

lemma chain_elems_nth: "x \<in> chain_elems tab \<longleftrightarrow> (\<exists>b < length tab. x \<in> set (tab ! b))"
proof -
  have "set tab = {tab ! b | b. b < length tab}" by (auto simp: in_set_conv_nth)
  then show ?thesis by (auto simp: chain_elems_def)
qed

lemma bucket_elems: "b < length tab \<Longrightarrow> set (tab ! b) \<subseteq> chain_elems tab"
  by (auto simp: chain_elems_nth)

lemma elems_update:
  assumes "b < length tab"
  shows "x \<in> chain_elems (tab[b := xs]) \<longleftrightarrow> x \<in> set xs \<or> (\<exists>c < length tab. c \<noteq> b \<and> x \<in> set (tab ! c))"
proof -
  have "x \<in> chain_elems (tab[b := xs]) \<longleftrightarrow> (\<exists>c < length tab. x \<in> set (if c = b then xs else tab ! c))"
    unfolding chain_elems_nth length_list_update
    by (intro ex_cong1 conj_cong refl) (simp add: nth_list_update)
  then show ?thesis using assms by auto
qed

lemma chain_elems_empty [simp]: "chain_elems (replicate n []) = {}"
  by (simp add: chain_elems_def)

lemma table_ok_empty [simp]: "table_ok key hash n (replicate n [])"
  by (simp add: table_ok_def)

lemma table_ok_cong:
  "(\<And>x. x \<in> chain_elems tab \<Longrightarrow> key x = key' x) \<Longrightarrow> table_ok key hash n tab = table_ok key' hash n tab"
proof -
  assume eq: "\<And>x. x \<in> chain_elems tab \<Longrightarrow> key x = key' x"
  have keys: "\<forall>x \<in> set (tab ! b). key x = key' x" if "b < length tab" for b
    using bucket_elems[OF that] eq by blast
  then have "map key (tab ! b) = map key' (tab ! b)" if "b < length tab" for b
    using that by (intro map_cong) auto
  then have "distinct (map key (tab ! b)) = distinct (map key' (tab ! b))" if "b < length tab" for b
    using that by presburger
  moreover have "(\<forall>x \<in> set (tab ! b). hash (key x) = b) = (\<forall>x \<in> set (tab ! b). hash (key' x) = b)"
    if "b < length tab" for b
    using keys[OF that] by auto
  ultimately show ?thesis unfolding table_ok_def by metis
qed

locale chained_table =
  fixes hash :: "'k \<Rightarrow> nat" and n :: nat
  assumes hash_less: "hash k < n"
begin

lemma elem_bucket:
  "table_ok key hash n tab \<Longrightarrow> x \<in> chain_elems tab \<longleftrightarrow> x \<in> set (tab ! hash (key x))"
  using hash_less by (auto simp: table_ok_def chain_elems_nth)

lemma key_inj: "table_ok key hash n tab \<Longrightarrow> inj_on key (chain_elems tab)"
  using hash_less by (intro inj_onI) (auto simp: elem_bucket, auto simp: table_ok_def distinct_map inj_on_def)

lemma find_iff:
  assumes "table_ok key hash n tab"
  shows "chain_find key hash tab k = Some x \<longleftrightarrow> x \<in> chain_elems tab \<and> key x = k"
proof
  assume "chain_find key hash tab k = Some x"
  then have "x \<in> set (tab ! hash k)" "key x = k" by (auto simp: chain_find_def find_Some_iff)
  then show "x \<in> chain_elems tab \<and> key x = k" using elem_bucket[OF assms, of x] by simp
next
  assume x: "x \<in> chain_elems tab \<and> key x = k"
  then have "x \<in> set (tab ! hash k)" using elem_bucket[OF assms, of x] by auto
  with x obtain y where y: "chain_find key hash tab k = Some y"
    by (cases "find (\<lambda>x. key x = k) (tab ! hash k)") (auto simp: chain_find_def find_None_iff)
  then have "y \<in> set (tab ! hash k)" "key y = k" by (auto simp: chain_find_def find_Some_iff)
  then have "y \<in> chain_elems tab" using elem_bucket[OF assms, of y] by simp
  with x \<open>key y = k\<close> have "y = x" using key_inj[OF assms] by (auto dest: inj_onD)
  with y show "chain_find key hash tab k = Some x" by simp
qed

lemma find_None_iff:
  assumes "table_ok key hash n tab"
  shows "chain_find key hash tab k = None \<longleftrightarrow> k \<notin> key ` chain_elems tab"
proof -
  have "chain_find key hash tab k \<noteq> None \<longleftrightarrow> (\<exists>x. x \<in> chain_elems tab \<and> key x = k)"
    by (simp add: find_iff[OF assms])
  then show ?thesis by blast
qed

lemma push_elems:
  assumes "table_ok key hash n tab"
  shows "chain_elems (chain_push (hash k) x tab) = insert x (chain_elems tab)"
proof -
  have len: "hash k < length tab" using assms hash_less by (simp add: table_ok_def)
  show ?thesis
    unfolding set_eq_iff chain_push_def elems_update[OF len] insert_iff
    unfolding chain_elems_nth using len by auto
qed

lemma push_ok:
  assumes "table_ok key hash n tab" "key x \<notin> key ` chain_elems tab"
  shows "table_ok key hash n (chain_push (hash (key x)) x tab)"
proof -
  have "set (tab ! hash (key x)) \<subseteq> chain_elems tab"
    using assms(1) hash_less by (intro bucket_elems) (simp add: table_ok_def)
  then have "key x \<notin> key ` set (tab ! hash (key x))" using assms(2) by blast
  with assms(1) hash_less show ?thesis
    by (auto simp: table_ok_def chain_push_def nth_list_update)
qed

lemma unlink_bucket:
  assumes "table_ok key hash n tab" "x \<in> chain_elems tab"
    and "\<And>y. y \<in> chain_elems tab \<Longrightarrow> P y \<longleftrightarrow> y = x"
  shows "unlink_first P (tab ! hash (key x)) = filter (\<lambda>y. y \<noteq> x) (tab ! hash (key x))"
proof (rule unlink_first_unique)
  show "distinct (tab ! hash (key x))"
    using assms(1) hash_less by (auto simp: table_ok_def distinct_map)
  show "P y \<longleftrightarrow> y = x" if "y \<in> set (tab ! hash (key x))" for y
    using assms(1) that hash_less[of "key x"] by (intro assms(3)) (auto simp: chain_elems_nth table_ok_def)
qed

lemma unlink_elems:
  assumes "table_ok key hash n tab" "x \<in> chain_elems tab"
    and "\<And>y. y \<in> chain_elems tab \<Longrightarrow> P y \<longleftrightarrow> y = x"
  shows "chain_elems (chain_unlink (hash (key x)) P tab) = chain_elems tab - {x}"
proof -
  have len: "length tab = n" using assms(1) by (simp add: table_ok_def)
  have ub: "unlink_first P (tab ! hash (key x)) = filter (\<lambda>y. y \<noteq> x) (tab ! hash (key x))"
    using assms by (intro unlink_bucket)
  have hk: "hash (key x) < length tab" using hash_less len by simp
  have other: "x \<notin> set (tab ! b)" if "b < n" "b \<noteq> hash (key x)" for b
    using assms(1) that by (auto simp: table_ok_def)
  show ?thesis
    unfolding set_eq_iff chain_unlink_def elems_update[OF hk] ub set_filter
    unfolding Diff_iff chain_elems_nth using hk other len by auto
qed

lemma unlink_ok:
  assumes "table_ok key hash n tab" "x \<in> chain_elems tab"
    and "\<And>y. y \<in> chain_elems tab \<Longrightarrow> P y \<longleftrightarrow> y = x"
  shows "table_ok key hash n (chain_unlink (hash (key x)) P tab)"
  using assms(1) hash_less unlink_bucket[OF assms] unfolding chain_unlink_def
  by (auto simp: table_ok_def nth_list_update distinct_map_filter)

lemma unlink_absent:
  assumes "table_ok key hash n tab" "b < n" "\<And>y. y \<in> chain_elems tab \<Longrightarrow> \<not> P y"
  shows "chain_unlink b P tab = tab"
proof -
  have "unlink_first P xs = xs" if "\<And>y. y \<in> set xs \<Longrightarrow> \<not> P y" for xs
    using that by (induction xs) auto
  moreover have "\<not> P y" if "y \<in> set (tab ! b)" for y
    using assms that by (intro assms(3)) (auto simp: chain_elems_nth table_ok_def)
  ultimately have "unlink_first P (tab ! b) = tab ! b" by blast
  then show ?thesis by (simp add: chain_unlink_def)
qed

end

end
