(* ===== verification/Buffer_Pool.thy ===== *)
theory Buffer_Pool
  imports Chained_Table Codec_Base
begin

text \<open>
  The buffer pool of \<open>mini-db-kernel\<close> (\<open>buffer_pool.h\<close>, \<open>buffer_pool.c\<close>): 1024 frames, the page
  table as a chained hash table of pairs (page id, frame index), and the LRU list of frame
  indices, most recent first (the doubly linked list read from \<open>lru_head\<close>; \<open>lru_tail\<close> is its
  last element). Lookups that return \<open>-1\<close> in the code return \<open>None\<close>. \<open>malloc\<close> of list cells and
  table entries succeeds: the code does not check it.
\<close>

definition BP_PAGE_SIZE :: nat where [c_consts]: "BP_PAGE_SIZE = 4096"
definition BP_CAPACITY :: nat where [c_consts]: "BP_CAPACITY = 1024"
definition BP_HASH_BUCKETS :: nat where [c_consts]: "BP_HASH_BUCKETS = 2048"

record frame =
  page_id :: int
  pin_count :: int
  dirty :: bool
  frame_data :: "byte list"

record buffer_pool =
  frames :: "frame list"
  occupied :: "bool list"
  page_table :: "(int \<times> nat) list list"
  lru :: "nat list"
  capacity :: nat
  num_pages :: nat
  clock_hand :: int
  hits :: int
  misses :: int

section \<open>LRU list and page table\<close>

definition lru_remove :: "nat \<Rightarrow> buffer_pool \<Rightarrow> buffer_pool" where
  "lru_remove frame_idx bp = bp\<lparr> lru := unlink_first (\<lambda>i. i = frame_idx) (lru bp) \<rparr>"

definition lru_touch :: "nat \<Rightarrow> buffer_pool \<Rightarrow> buffer_pool" where
  "lru_touch frame_idx bp =
     (let bp = lru_remove frame_idx bp in bp\<lparr> lru := frame_idx # lru bp \<rparr>)"

definition hash_page_id :: "int \<Rightarrow> nat" where
  "hash_page_id pid = unat (word_of_int pid * 2654435761 :: 32 word) mod BP_HASH_BUCKETS"

definition page_table_lookup :: "int \<Rightarrow> buffer_pool \<Rightarrow> nat option" where
  "page_table_lookup pid bp = map_option snd (chain_find fst hash_page_id (page_table bp) pid)"

definition page_table_insert :: "int \<Rightarrow> nat \<Rightarrow> buffer_pool \<Rightarrow> buffer_pool" where
  "page_table_insert pid frame_idx bp =
     bp\<lparr> page_table := chain_push (hash_page_id pid) (pid, frame_idx) (page_table bp) \<rparr>"

definition page_table_remove :: "int \<Rightarrow> buffer_pool \<Rightarrow> buffer_pool" where
  "page_table_remove pid bp =
     bp\<lparr> page_table := chain_unlink (hash_page_id pid) (\<lambda>e. fst e = pid) (page_table bp) \<rparr>"

section \<open>Operations\<close>

definition empty_frame :: frame where
  "empty_frame = \<lparr> page_id = 0, pin_count = 0, dirty = False, frame_data = replicate BP_PAGE_SIZE 0 \<rparr>"

definition bp_init :: buffer_pool where
  "bp_init =
     \<lparr> frames = replicate BP_CAPACITY empty_frame, occupied = replicate BP_CAPACITY False,
       page_table = replicate BP_HASH_BUCKETS [], lru = [], capacity = BP_CAPACITY, num_pages = 0,
       clock_hand = 0, hits = 0, misses = 0 \<rparr>"

definition upd_frame :: "nat \<Rightarrow> (frame \<Rightarrow> frame) \<Rightarrow> buffer_pool \<Rightarrow> buffer_pool" where
  "upd_frame i f bp = bp\<lparr> frames := (frames bp)[i := f (frames bp ! i)] \<rparr>"

definition bp_flush_page :: "int \<Rightarrow> buffer_pool \<Rightarrow> buffer_pool" where
  "bp_flush_page pid bp =
     (case page_table_lookup pid bp of
        None \<Rightarrow> bp
      | Some i \<Rightarrow> if dirty (frames bp ! i) then upd_frame i (\<lambda>f. f\<lparr> dirty := False \<rparr>) bp else bp)"

text \<open>\<open>lru_evict\<close> walks from the tail to the first frame nobody has pinned.\<close>

definition lru_evict :: "buffer_pool \<Rightarrow> nat option \<times> buffer_pool" where
  "lru_evict bp =
     (case find (\<lambda>i. pin_count (frames bp ! i) = 0) (rev (lru bp)) of
        None \<Rightarrow> (None, bp)
      | Some i \<Rightarrow>
          (let bp = (if dirty (frames bp ! i) then bp_flush_page (page_id (frames bp ! i)) bp else bp)
           in (Some i, lru_remove i bp)))"

text \<open>Reusing a frame for a page: the page is not read from anywhere, its data is zeroed.\<close>

definition claim_frame :: "int \<Rightarrow> frame \<Rightarrow> frame" where
  "claim_frame pid f = f\<lparr> page_id := pid, pin_count := 1, dirty := False, frame_data := replicate BP_PAGE_SIZE 0 \<rparr>"

definition bp_fetch_page :: "int \<Rightarrow> buffer_pool \<Rightarrow> nat option \<times> buffer_pool" where
  "bp_fetch_page pid bp =
     (case page_table_lookup pid bp of
        Some i \<Rightarrow>
          (let bp = lru_touch i (upd_frame i (\<lambda>f. f\<lparr> pin_count := pin_count f + 1 \<rparr>) bp)
           in (Some i, bp\<lparr> hits := hits bp + 1 \<rparr>))
      | None \<Rightarrow>
          (let bp = bp\<lparr> misses := misses bp + 1 \<rparr> in
           if num_pages bp < capacity bp then
             (let i = num_pages bp;
                  bp = upd_frame i (claim_frame pid) (bp\<lparr> occupied := (occupied bp)[i := True] \<rparr>);
                  bp = bp\<lparr> num_pages := num_pages bp + 1 \<rparr>
              in (Some i, lru_touch i (page_table_insert pid i bp)))
           else
             (let (victim, bp) = lru_evict bp;
                  victim = (case victim of
                              None \<Rightarrow> find_idx (\<lambda>f. pin_count f = 0) (take (capacity bp) (frames bp))
                            | Some i \<Rightarrow> Some i)
              in case victim of
                   None \<Rightarrow> (None, bp)
                 | Some i \<Rightarrow>
                     (let bp = page_table_remove (page_id (frames bp ! i)) bp;
                          bp = upd_frame i (claim_frame pid) bp
                      in (Some i, lru_touch i (page_table_insert pid i bp))))))"

definition bp_unpin_page :: "int \<Rightarrow> buffer_pool \<Rightarrow> buffer_pool" where
  "bp_unpin_page pid bp =
     (case page_table_lookup pid bp of
        None \<Rightarrow> bp
      | Some i \<Rightarrow>
          if pin_count (frames bp ! i) > 0
          then upd_frame i (\<lambda>f. f\<lparr> pin_count := pin_count f - 1 \<rparr>) bp else bp)"

definition bp_flush_all :: "buffer_pool \<Rightarrow> buffer_pool" where
  "bp_flush_all bp =
     bp\<lparr> frames := map (\<lambda>(f, occ). if occ \<and> dirty f then f\<lparr> dirty := False \<rparr> else f)
                     (zip (frames bp) (occupied bp)) \<rparr>"

section \<open>Invariant\<close>

interpretation pages: chained_table hash_page_id BP_HASH_BUCKETS
  by unfold_locales (simp add: hash_page_id_def BP_HASH_BUCKETS_def)

definition wf_pool :: "buffer_pool \<Rightarrow> bool" where
  "wf_pool bp \<longleftrightarrow>
     capacity bp = BP_CAPACITY \<and> length (frames bp) = BP_CAPACITY \<and> length (occupied bp) = BP_CAPACITY \<and>
     num_pages bp \<le> BP_CAPACITY \<and>
     table_ok fst hash_page_id BP_HASH_BUCKETS (page_table bp) \<and>
     chain_elems (page_table bp) = (\<lambda>i. (page_id (frames bp ! i), i)) ` {..<num_pages bp} \<and>
     distinct (lru bp) \<and> set (lru bp) = {..<num_pages bp}"

text \<open>A caller that holds a frame writes its data and marks it dirty.\<close>

datatype pool_op = Fetch int | Unpin int | Flush int | Flush_All | Modify nat "byte list"

fun pool_step :: "pool_op \<Rightarrow> buffer_pool \<Rightarrow> buffer_pool" where
  "pool_step (Fetch pid) bp = snd (bp_fetch_page pid bp)"
| "pool_step (Unpin pid) bp = bp_unpin_page pid bp"
| "pool_step (Flush pid) bp = bp_flush_page pid bp"
| "pool_step Flush_All bp = bp_flush_all bp"
| "pool_step (Modify i d) bp = upd_frame i (\<lambda>f. f\<lparr> dirty := True, frame_data := d \<rparr>) bp"

definition fresh_pool :: "buffer_pool \<Rightarrow> bool" where
  "fresh_pool bp \<longleftrightarrow> bp = bp_init"

lemma lookup_iff:
  assumes "wf_pool bp"
  shows "page_table_lookup pid bp = Some i \<longleftrightarrow> i < num_pages bp \<and> page_id (frames bp ! i) = pid"
proof -
  have "table_ok fst hash_page_id BP_HASH_BUCKETS (page_table bp)" using assms by (simp add: wf_pool_def)
  from pages.find_iff[OF this] show ?thesis
    using assms by (auto simp: page_table_lookup_def wf_pool_def)
qed

lemma lookup_None_iff:
  assumes "wf_pool bp"
  shows "page_table_lookup pid bp = None \<longleftrightarrow> (\<forall>i < num_pages bp. page_id (frames bp ! i) \<noteq> pid)"
proof -
  have "page_table_lookup pid bp \<noteq> None \<longleftrightarrow> (\<exists>i. i < num_pages bp \<and> page_id (frames bp ! i) = pid)"
    by (simp add: lookup_iff[OF assms])
  then show ?thesis by blast
qed

text \<open>Whatever an operation does to pins, flags and data, the invariant only sees page ids.\<close>

definition same_pages :: "buffer_pool \<Rightarrow> buffer_pool \<Rightarrow> bool" where
  "same_pages bp bp' \<longleftrightarrow>
     map page_id (frames bp') = map page_id (frames bp) \<and> length (occupied bp') = length (occupied bp) \<and>
     capacity bp' = capacity bp \<and> num_pages bp' = num_pages bp \<and> page_table bp' = page_table bp"

lemma same_pages_wf:
  assumes "wf_pool bp" "same_pages bp bp'" "distinct (lru bp')" "set (lru bp') = {..<num_pages bp}"
  shows "wf_pool bp'"
proof -
  have ids: "map page_id (frames bp') = map page_id (frames bp)" using assms(2) by (simp add: same_pages_def)
  then have len: "length (frames bp') = length (frames bp)" by (rule map_eq_imp_length_eq)
  have "page_id (frames bp' ! i) = page_id (frames bp ! i)" if "i < num_pages bp" for i
  proof -
    have "i < length (frames bp)" using that assms(1) by (simp add: wf_pool_def)
    moreover have "map page_id (frames bp') ! i = map page_id (frames bp) ! i" by (simp only: ids)
    ultimately show ?thesis using len by simp
  qed
  then have "(\<lambda>i. (page_id (frames bp' ! i), i)) ` {..<num_pages bp} = (\<lambda>i. (page_id (frames bp ! i), i)) ` {..<num_pages bp}"
    by (intro image_cong) auto
  with assms len show ?thesis by (simp add: wf_pool_def same_pages_def)
qed

lemma upd_frame_same:
  "page_id (f (frames bp ! i)) = page_id (frames bp ! i) \<Longrightarrow> same_pages bp (upd_frame i f bp)"
  by (cases "i < length (frames bp)")
    (auto simp: same_pages_def upd_frame_def map_update_same list_update_beyond)

lemma upd_frame_wf:
  "wf_pool bp \<Longrightarrow> page_id (f (frames bp ! i)) = page_id (frames bp ! i) \<Longrightarrow> wf_pool (upd_frame i f bp)"
  by (rule same_pages_wf[OF _ upd_frame_same]) (auto simp: wf_pool_def upd_frame_def)

lemma flush_wf: "wf_pool bp \<Longrightarrow> wf_pool (bp_flush_page pid bp)"
  by (auto simp: bp_flush_page_def intro!: upd_frame_wf split: option.split)

lemma unpin_wf: "wf_pool bp \<Longrightarrow> wf_pool (bp_unpin_page pid bp)"
  by (auto simp: bp_unpin_page_def intro!: upd_frame_wf split: option.split)

lemma flush_all_wf:
  assumes "wf_pool bp"
  shows "wf_pool (bp_flush_all bp)"
proof (rule same_pages_wf[OF assms])
  let ?clean = "\<lambda>(f, occ). if occ \<and> dirty f then f\<lparr> dirty := False \<rparr> else f"
  have clean: "map page_id (map ?clean (zip fs os)) = map page_id fs" if "length fs = length os" for fs os
    using that by (induction fs os rule: list_induct2) auto
  have "map page_id (frames (bp_flush_all bp)) = map page_id (map ?clean (zip (frames bp) (occupied bp)))"
    by (simp add: bp_flush_all_def)
  also have "\<dots> = map page_id (frames bp)" using assms by (intro clean) (simp add: wf_pool_def)
  finally have "map page_id (frames (bp_flush_all bp)) = map page_id (frames bp)" .
  then show "same_pages bp (bp_flush_all bp)"
    by (simp add: same_pages_def) (simp add: bp_flush_all_def)
qed (use assms in \<open>simp_all add: wf_pool_def bp_flush_all_def\<close>)

section \<open>Fetching a page\<close>

lemma lru_touch_simps [simp]:
  "frames (lru_touch i bp) = frames bp" "page_table (lru_touch i bp) = page_table bp"
  "occupied (lru_touch i bp) = occupied bp" "capacity (lru_touch i bp) = capacity bp"
  "num_pages (lru_touch i bp) = num_pages bp" "lru (lru_touch i bp) = i # remove1 i (lru bp)"
  by (simp_all add: lru_touch_def lru_remove_def unlink_first_remove1)

text \<open>A pool whose frame \<open>i\<close> is in use by no page: between evicting a page and claiming its frame.\<close>

definition hole :: "nat \<Rightarrow> buffer_pool \<Rightarrow> bool" where
  "hole i bp \<longleftrightarrow>
     capacity bp = BP_CAPACITY \<and> length (frames bp) = BP_CAPACITY \<and> length (occupied bp) = BP_CAPACITY \<and>
     num_pages bp \<le> BP_CAPACITY \<and> i < num_pages bp \<and>
     table_ok fst hash_page_id BP_HASH_BUCKETS (page_table bp) \<and>
     chain_elems (page_table bp) = (\<lambda>j. (page_id (frames bp ! j), j)) ` ({..<num_pages bp} - {i}) \<and>
     distinct (lru bp) \<and> set (lru bp) = {..<num_pages bp} - {i}"

definition fill_hole :: "int \<Rightarrow> nat \<Rightarrow> buffer_pool \<Rightarrow> buffer_pool" where
  "fill_hole pid i bp = lru_touch i (page_table_insert pid i (upd_frame i (claim_frame pid) bp))"

lemma hole_fill:
  assumes h: "hole i bp" and new: "\<forall>j < num_pages bp. j \<noteq> i \<longrightarrow> page_id (frames bp ! j) \<noteq> pid"
  shows "wf_pool (fill_hole pid i bp)"
proof -
  let ?bp = "upd_frame i (claim_frame pid) bp"
  have i: "i < length (frames bp)" "i < num_pages bp" using h by (simp_all add: hole_def)
  have nth: "page_id (frames ?bp ! j) = (if j = i then pid else page_id (frames bp ! j))" for j
    using i by (simp add: upd_frame_def claim_frame_def nth_list_update)
  have ok: "table_ok fst hash_page_id BP_HASH_BUCKETS (page_table bp)"
    and el: "chain_elems (page_table bp) = (\<lambda>j. (page_id (frames bp ! j), j)) ` ({..<num_pages bp} - {i})"
    using h by (simp_all add: hole_def)
  have "pid \<notin> fst ` chain_elems (page_table bp)" using new by (auto simp: el)
  then have ok': "table_ok fst hash_page_id BP_HASH_BUCKETS (page_table (fill_hole pid i bp))"
    using pages.push_ok[of fst, OF ok, of "(pid, i)"]
    by (simp add: fill_hole_def page_table_insert_def upd_frame_def)
  have "chain_elems (page_table (fill_hole pid i bp)) = insert (pid, i) (chain_elems (page_table bp))"
    using pages.push_elems[OF ok] by (simp add: fill_hole_def page_table_insert_def upd_frame_def)
  also have "\<dots> = (\<lambda>j. (page_id (frames ?bp ! j), j)) ` {..<num_pages bp}"
    using i by (auto simp: el nth image_iff)
  finally have el': "chain_elems (page_table (fill_hole pid i bp)) =
    (\<lambda>j. (page_id (frames (fill_hole pid i bp) ! j), j)) ` {..<num_pages (fill_hole pid i bp)}"
    by (simp add: fill_hole_def page_table_insert_def upd_frame_def)
  show ?thesis
    using h ok' el' unfolding wf_pool_def hole_def
    by (auto simp: fill_hole_def page_table_insert_def upd_frame_def)
qed

lemma hole_evict:
  assumes wf: "wf_pool bp" and i: "i < num_pages bp"
  shows "hole i (page_table_remove (page_id (frames bp ! i)) (lru_remove i bp))"
proof -
  let ?e = "(page_id (frames bp ! i), i)"
  have ok: "table_ok fst hash_page_id BP_HASH_BUCKETS (page_table bp)"
    and el: "chain_elems (page_table bp) = (\<lambda>j. (page_id (frames bp ! j), j)) ` {..<num_pages bp}"
    using wf by (simp_all add: wf_pool_def)
  have e: "?e \<in> chain_elems (page_table bp)" using i by (auto simp: el)
  have only: "fst y = page_id (frames bp ! i) \<longleftrightarrow> y = ?e" if "y \<in> chain_elems (page_table bp)" for y
    using inj_onD[OF pages.key_inj[OF ok], of y ?e] that e by auto
  let ?t = "chain_unlink (hash_page_id (page_id (frames bp ! i))) (\<lambda>e. fst e = page_id (frames bp ! i)) (page_table bp)"
  have "table_ok fst hash_page_id BP_HASH_BUCKETS ?t"
    using pages.unlink_ok[OF ok e, of "\<lambda>e. fst e = page_id (frames bp ! i)"] only by simp
  moreover have "chain_elems ?t = chain_elems (page_table bp) - {?e}"
    using pages.unlink_elems[OF ok e, of "\<lambda>e. fst e = page_id (frames bp ! i)"] only by simp
  then have "chain_elems ?t = (\<lambda>j. (page_id (frames bp ! j), j)) ` ({..<num_pages bp} - {i})"
    by (auto simp: el)
  ultimately show ?thesis
    using wf i by (simp add: hole_def wf_pool_def page_table_remove_def lru_remove_def unlink_first_remove1 set_remove1_eq)
qed

lemma hole_free:
  assumes wf: "wf_pool bp" and "num_pages bp < capacity bp"
  shows "hole (num_pages bp) (bp\<lparr> occupied := (occupied bp)[i := True], num_pages := num_pages bp + 1, misses := m \<rparr>)"
proof -
  have "{..<num_pages bp + 1} - {num_pages bp} = {..<num_pages bp}" by auto
  then show ?thesis using assms by (simp add: hole_def wf_pool_def)
qed

lemma evict_scan:
  assumes "wf_pool bp"
  shows "find (\<lambda>i. pin_count (frames bp ! i) = 0) (rev (lru bp)) = None \<longleftrightarrow>
         (\<forall>i < num_pages bp. pin_count (frames bp ! i) \<noteq> 0)"
  using assms by (auto simp: find_None_iff wf_pool_def)

text \<open>The four ways a fetch ends.\<close>

lemma fetch_cases:
  assumes wf: "wf_pool bp"
  obtains
    (hit) i where "page_table_lookup pid bp = Some i" "bp_fetch_page pid bp =
       (Some i, (lru_touch i (upd_frame i (\<lambda>f. f\<lparr> pin_count := pin_count f + 1 \<rparr>) bp))\<lparr> hits := hits bp + 1 \<rparr>)"
  | (free) i bp1 where "page_table_lookup pid bp = None" "bp_fetch_page pid bp = (Some i, fill_hole pid i bp1)"
      "hole i bp1" "frames bp1 = frames bp" "i = num_pages bp" "num_pages bp1 = Suc i"
  | (evict) i bp1 where "page_table_lookup pid bp = None" "bp_fetch_page pid bp = (Some i, fill_hole pid i bp1)"
      "hole i bp1" "\<forall>j. j \<noteq> i \<longrightarrow> frames bp1 ! j = frames bp ! j" "length (frames bp1) = length (frames bp)"
      "num_pages bp1 = num_pages bp" "num_pages bp = capacity bp" "pin_count (frames bp ! i) = 0"
      "find (\<lambda>i. pin_count (frames bp ! i) = 0) (rev (lru bp)) = Some i"
  | (pinned) "page_table_lookup pid bp = None" "bp_fetch_page pid bp = (None, bp\<lparr> misses := misses bp + 1 \<rparr>)"
      "num_pages bp = capacity bp" "\<forall>i < capacity bp. pin_count (frames bp ! i) \<noteq> 0"
proof (cases "page_table_lookup pid bp")
  case (Some i)
  then show ?thesis by (intro hit) (simp_all add: bp_fetch_page_def upd_frame_def Let_def lru_touch_def lru_remove_def)
next
  case None
  let ?bp = "bp\<lparr> misses := misses bp + 1 \<rparr>"
  show ?thesis
  proof (cases "num_pages bp < capacity bp")
    case True
    let ?bp1 = "bp\<lparr> occupied := (occupied bp)[num_pages bp := True], num_pages := num_pages bp + 1, misses := misses bp + 1 \<rparr>"
    have "bp_fetch_page pid bp = (Some (num_pages bp), fill_hole pid (num_pages bp) ?bp1)"
      using None True
      by (simp add: bp_fetch_page_def Let_def fill_hole_def upd_frame_def lru_touch_def lru_remove_def page_table_insert_def)
    from free[OF None this hole_free[OF wf True]] show ?thesis by simp
  next
    case False
    then have full: "num_pages bp = capacity bp" using wf by (simp add: wf_pool_def)
    show ?thesis
    proof (cases "find (\<lambda>i. pin_count (frames bp ! i) = 0) (rev (lru bp))")
      case scan: None
      then have pins: "\<forall>i < capacity bp. pin_count (frames bp ! i) \<noteq> 0" using evict_scan[OF wf] full by simp
      then have "find_idx (\<lambda>f. pin_count f = 0) (take (capacity bp) (frames bp)) = None"
        by (auto simp: find_idx_None_iff in_set_conv_nth)
      with scan None False have "bp_fetch_page pid bp = (None, ?bp)"
        by (simp add: bp_fetch_page_def Let_def lru_evict_def)
      from pinned[OF None this full pins] show ?thesis .
    next
      case scan: (Some i)
      then have i: "i < num_pages bp" "pin_count (frames bp ! i) = 0"
        using wf by (auto simp: find_Some_iff wf_pool_def rev_nth)
      let ?fl = "if dirty (frames bp ! i) then bp_flush_page (page_id (frames bp ! i)) ?bp else ?bp"
      have wf': "wf_pool ?bp" using wf by (simp add: wf_pool_def)
      have flush: "bp_flush_page (page_id (frames bp ! i)) ?bp =
          (if dirty (frames bp ! i) then upd_frame i (\<lambda>f. f\<lparr> dirty := False \<rparr>) ?bp else ?bp)"
        using lookup_iff[OF wf', of "page_id (frames bp ! i)" i] i(1) by (simp add: bp_flush_page_def)
      have fl_wf: "wf_pool ?fl" using flush_wf[OF wf'] wf' by simp
      have fl: "page_id (frames ?fl ! i) = page_id (frames bp ! i)" "num_pages ?fl = num_pages bp"
        "\<forall>j. j \<noteq> i \<longrightarrow> frames ?fl ! j = frames bp ! j" "length (frames ?fl) = length (frames bp)"
        using wf i(1) by (auto simp: flush upd_frame_def wf_pool_def)
      let ?bp1 = "page_table_remove (page_id (frames ?fl ! i)) (lru_remove i ?fl)"
      have "bp_fetch_page pid bp = (Some i, fill_hole pid i ?bp1)"
        using None False scan
        by (simp add: bp_fetch_page_def Let_def lru_evict_def fill_hole_def lru_remove_def)
      from evict[OF None this hole_evict[OF fl_wf] _ _ _ full i(2) scan] i fl show ?thesis
        by (simp add: page_table_remove_def lru_remove_def)
    qed
  qed
qed

lemma lookup_touch: "page_table_lookup q (lru_touch i bp) = page_table_lookup q bp"
  by (simp add: page_table_lookup_def)

lemma fetch_wf:
  assumes "wf_pool bp"
  shows "wf_pool (snd (bp_fetch_page pid bp))"
  using assms
proof (cases rule: fetch_cases[of bp pid])
  case (hit i)
  then have i: "i < num_pages bp" using lookup_iff[OF assms] by simp
  let ?bp = "upd_frame i (\<lambda>f. f\<lparr> pin_count := pin_count f + 1 \<rparr>) bp"
  have d: "distinct (lru bp)" "set (lru bp) = {..<num_pages bp}" using assms by (simp_all add: wf_pool_def)
  let ?bp' = "snd (bp_fetch_page pid bp)"
  have lru': "lru ?bp' = i # remove1 i (lru bp)" using hit by (simp add: upd_frame_def)
  show ?thesis
  proof (rule same_pages_wf)
    show "wf_pool ?bp" by (rule upd_frame_wf[OF assms]) simp
    show "same_pages ?bp ?bp'" using hit by (simp add: same_pages_def)
    show "distinct (lru ?bp')" using d by (simp add: lru')
    show "set (lru ?bp') = {..<num_pages ?bp}" using d i by (auto simp: lru' upd_frame_def)
  qed
next
  case (free i bp1)
  have "\<forall>j < num_pages bp1. j \<noteq> i \<longrightarrow> page_id (frames bp1 ! j) \<noteq> pid"
    using free lookup_None_iff[OF assms] by (auto simp: less_Suc_eq)
  with hole_fill free show ?thesis by simp
next
  case (evict i bp1)
  have "\<forall>j < num_pages bp1. j \<noteq> i \<longrightarrow> page_id (frames bp1 ! j) \<noteq> pid"
    using evict lookup_None_iff[OF assms] by auto
  with hole_fill evict show ?thesis by simp
next
  case pinned
  then show ?thesis using assms by (simp add: wf_pool_def)
qed

definition pins_ok :: "buffer_pool \<Rightarrow> bool" where
  "pins_ok bp \<longleftrightarrow> (\<forall>f \<in> set (frames bp). 0 \<le> pin_count f)"

lemma pins_ok_nth: "pins_ok bp \<longleftrightarrow> (\<forall>i < length (frames bp). 0 \<le> pin_count (frames bp ! i))"
  by (simp add: pins_ok_def all_set_conv_all_nth)

lemma upd_frame_pins: "pins_ok bp \<Longrightarrow> (i < length (frames bp) \<Longrightarrow> 0 \<le> pin_count (f (frames bp ! i))) \<Longrightarrow> pins_ok (upd_frame i f bp)"
  by (auto simp: pins_ok_nth upd_frame_def nth_upd_if)

lemma frames_fill:
  "frames (fill_hole pid i bp) = (frames bp)[i := claim_frame pid (frames bp ! i)]"
  by (simp add: fill_hole_def page_table_insert_def upd_frame_def)

lemma fetch_pins:
  assumes "wf_pool bp" "pins_ok bp"
  shows "pins_ok (snd (bp_fetch_page pid bp))"
  using assms(1)
proof (cases rule: fetch_cases[of bp pid])
  case (hit i)
  have "pins_ok (upd_frame i (\<lambda>f. f\<lparr> pin_count := pin_count f + 1 \<rparr>) bp)"
    using assms(2) by (intro upd_frame_pins) (auto simp: pins_ok_nth)
  with hit show ?thesis by (simp add: pins_ok_def)
next
  case (free i bp1)
  then show ?thesis using assms(2) by (auto simp: pins_ok_nth frames_fill nth_upd_if claim_frame_def)
next
  case (evict i bp1)
  then show ?thesis using assms(2)
    by (auto simp: pins_ok_nth frames_fill nth_upd_if claim_frame_def)
next
  case pinned
  then show ?thesis using assms(2) by (simp add: pins_ok_def)
qed

lemma fetch_lookup:
  assumes wf: "wf_pool bp" and "bp_fetch_page pid bp = (Some f, bp')"
  shows "page_table_lookup q bp' =
    (if q = pid then Some f else if page_table_lookup q bp = Some f then None else page_table_lookup q bp)"
proof -
  have wf': "wf_pool bp'" using fetch_wf[OF wf, of pid] assms(2) by simp
  note look = lookup_iff[OF wf] lookup_iff[OF wf']
  have agree: "page_table_lookup q bp' = Some j \<longleftrightarrow>
      (if q = pid then j = f else page_table_lookup q bp = Some j \<and> j \<noteq> f)" for j
    using wf
  proof (cases rule: fetch_cases[of bp pid])
    case (hit i)
    then have "i < num_pages bp" "page_id (frames bp ! i) = pid" using look(1) by simp_all
    moreover have "page_id (frames bp' ! j) = page_id (frames bp ! j)" "num_pages bp' = num_pages bp" "f = i" for j
      using hit assms(2) by (auto simp: upd_frame_def nth_upd_if)
    moreover have "j = i" if "j < num_pages bp" "page_id (frames bp ! j) = page_id (frames bp ! i)"
      using that look(1)[of "page_id (frames bp ! i)"] calculation(1) by (metis option.inject)
    ultimately show ?thesis using look by auto
  next
    case (free i bp1)
    then have "f = i" "i < length (frames bp)" "num_pages bp' = Suc i" "num_pages bp = i"
      and b': "frames bp' = (frames bp)[i := claim_frame pid (frames bp ! i)]"
      using assms(2) by (auto simp: hole_def frames_fill fill_hole_def page_table_insert_def upd_frame_def)
    then show ?thesis
      using look free(1) lookup_None_iff[OF wf, of pid]
      by (auto simp: b' nth_upd_if claim_frame_def less_Suc_eq)
  next
    case (evict i bp1)
    then have *: "f = i" "i < length (frames bp)" "num_pages bp' = num_pages bp" "i < num_pages bp"
      and b': "frames bp' = (frames bp1)[i := claim_frame pid (frames bp1 ! i)]"
      using assms(2) by (auto simp: hole_def frames_fill fill_hole_def page_table_insert_def upd_frame_def)
    have "page_id (frames bp' ! j) = (if j = i then pid else page_id (frames bp ! j))"
      using * evict by (simp add: b' nth_upd_if claim_frame_def)
    then show ?thesis
      using look * evict(1) lookup_None_iff[OF wf, of pid] by auto
  next
    case pinned
    then show ?thesis using assms(2) by simp
  qed
  show ?thesis
  proof (cases "page_table_lookup q bp'")
    case None
    then have "\<not> (if q = pid then j = f else page_table_lookup q bp = Some j \<and> j \<noteq> f)" for j
      using agree[of j] by simp
    from this[of f] this[of "the (page_table_lookup q bp)"] None show ?thesis
      by (cases "page_table_lookup q bp") (auto split: if_splits)
  next
    case (Some j)
    then show ?thesis using agree[of j] by (auto split: if_splits)
  qed
qed

interpretation pool_sys: invariant_system fresh_pool pool_step "\<lambda>bp. wf_pool bp \<and> pins_ok bp"
proof unfold_locales
  fix s assume "fresh_pool s"
  then show "wf_pool s \<and> pins_ok s"
    by (simp add: fresh_pool_def bp_init_def wf_pool_def pins_ok_def empty_frame_def lessThan_0)
next
  fix s op assume inv: "wf_pool s \<and> pins_ok s"
  show "wf_pool (pool_step op s) \<and> pins_ok (pool_step op s)"
  proof (cases op)
    case (Fetch pid)
    then show ?thesis using inv fetch_wf fetch_pins by simp
  next
    case (Unpin pid)
    then show ?thesis using inv unpin_wf
      by (auto simp: bp_unpin_page_def intro!: upd_frame_pins split: option.split)
  next
    case (Flush pid)
    then show ?thesis using inv flush_wf
      by (auto simp: bp_flush_page_def pins_ok_nth upd_frame_def nth_upd_if split: option.split)
  next
    case Flush_All
    then show ?thesis using inv flush_all_wf
      by (auto simp: bp_flush_all_def pins_ok_nth wf_pool_def)
  next
    case (Modify i d)
    then show ?thesis using inv upd_frame_wf[of s "\<lambda>f. f\<lparr> dirty := True, frame_data := d \<rparr>" i]
      by (auto simp: pins_ok_nth upd_frame_def nth_upd_if)
  qed
qed

section \<open>What a fetch promises\<close>

definition cached :: "int \<Rightarrow> buffer_pool \<Rightarrow> bool" where
  "cached pid bp \<longleftrightarrow> page_table_lookup pid bp \<noteq> None"

lemma fetched_frame:
  assumes wf: "wf_pool bp" and "bp_fetch_page pid bp = (Some f, bp')"
  shows "f < length (frames bp') \<and> (\<forall>i. i \<noteq> f \<longrightarrow> frames bp' ! i = frames bp ! i) \<and>
    frames bp' ! f =
      (if cached pid bp then (frames bp ! f)\<lparr> pin_count := pin_count (frames bp ! f) + 1 \<rparr>
       else \<lparr> page_id = pid, pin_count = 1, dirty = False, frame_data = replicate BP_PAGE_SIZE 0 \<rparr>) \<and>
    (\<not> cached pid bp \<longrightarrow> f = num_pages bp \<or> pin_count (frames bp ! f) = 0)"
  using wf
proof (cases rule: fetch_cases[of bp pid])
  case (hit i)
  then have "i < length (frames bp)" using lookup_iff[OF wf] wf by (auto simp: wf_pool_def)
  with hit assms(2) show ?thesis by (auto simp: upd_frame_def nth_upd_if cached_def)
next
  case (free i bp1)
  then have "f = i" "i < length (frames bp)" "frames bp' = (frames bp)[i := claim_frame pid (frames bp ! i)]"
    using assms(2) by (auto simp: hole_def frames_fill)
  then show ?thesis using free by (simp add: nth_upd_if cached_def claim_frame_def)
next
  case (evict i bp1)
  then have "f = i" "i < length (frames bp1)" "frames bp' = (frames bp1)[i := claim_frame pid (frames bp1 ! i)]"
    using assms(2) by (auto simp: hole_def frames_fill)
  then show ?thesis using evict by (simp add: nth_upd_if cached_def claim_frame_def)
next
  case pinned
  then show ?thesis using assms(2) by simp
qed

lemma lookup_page_id: "wf_pool bp \<Longrightarrow> page_table_lookup pid bp = Some f \<Longrightarrow> page_id (frames bp ! f) = pid"
  by (simp add: lookup_iff)

text \<open>
  C20. In every reachable buffer pool a fetch either returns a frame that holds the page, pinned
  once more (with its data kept when the page was cached, and zeroed when it was not: nothing is
  read from disk, so what an evicted page held is gone), changes no other frame, and makes the
  page table map the page to that frame and forget only the page the frame held before; or it
  fails, and then all 1024 frames are in use, every one of them pinned, and only the miss is counted.
\<close>

theorem buffer_pool_fetch:
  assumes "reach fresh_pool pool_step bp"
  shows "case bp_fetch_page pid bp of
      (Some f, bp') \<Rightarrow>
        f < BP_CAPACITY \<and>
        frames bp' ! f =
          (if cached pid bp then (frames bp ! f)\<lparr> page_id := pid, pin_count := pin_count (frames bp ! f) + 1 \<rparr>
           else \<lparr> page_id = pid, pin_count = 1, dirty = False, frame_data = replicate BP_PAGE_SIZE 0 \<rparr>) \<and>
        (\<forall>i. i \<noteq> f \<longrightarrow> frames bp' ! i = frames bp ! i) \<and>
        (\<forall>q. page_table_lookup q bp' =
           (if q = pid then Some f else if page_table_lookup q bp = Some f then None else page_table_lookup q bp))
    | (None, bp') \<Rightarrow>
        \<not> cached pid bp \<and> num_pages bp = BP_CAPACITY \<and> (\<forall>i < BP_CAPACITY. 0 < pin_count (frames bp ! i)) \<and>
        bp' = bp\<lparr> misses := misses bp + 1 \<rparr>"
proof -
  have wf: "wf_pool bp" and pins: "pins_ok bp" using pool_sys.reach_inv[OF assms] by simp_all
  obtain r bp' where f: "bp_fetch_page pid bp = (r, bp')" by fastforce
  show ?thesis
  proof (cases r)
    case None
    from wf show ?thesis
    proof (cases rule: fetch_cases[of bp pid])
      case pinned
      moreover have "capacity bp = BP_CAPACITY" "\<forall>i < BP_CAPACITY. 0 \<le> pin_count (frames bp ! i)"
        using wf pins by (simp_all add: wf_pool_def pins_ok_nth)
      ultimately show ?thesis by (fastforce simp: cached_def)
    qed (use f None in simp_all)
  next
    case (Some fr)
    have wf': "wf_pool bp'" using fetch_wf[OF wf, of pid] f by simp
    have upd: "(frames bp ! fr)\<lparr> page_id := pid, pin_count := n \<rparr> = (frames bp ! fr)\<lparr> pin_count := n \<rparr>"
      if "cached pid bp" for n
    proof -
      obtain g where g: "page_table_lookup pid bp = Some g" using \<open>cached pid bp\<close> by (auto simp: cached_def)
      have "page_table_lookup pid bp' = Some fr" using fetch_lookup[OF wf, of pid fr bp' pid] f Some by simp
      have "g = fr" using g f Some by (simp add: bp_fetch_page_def Let_def)
      then have "page_id (frames bp ! fr) = pid" using lookup_page_id[OF wf g] by simp
      then show ?thesis by (cases "frames bp ! fr") simp
    qed
    have len: "length (frames bp') = BP_CAPACITY" using wf' by (simp add: wf_pool_def)
    note ff = fetched_frame[OF wf, of pid fr bp', unfolded f Some, OF refl]
    note fl = fetch_lookup[OF wf, of pid fr bp', unfolded f Some, OF refl]
    show ?thesis using ff len by (auto simp: f Some fl upd)
  qed
qed

lemma fresh_pool_reach: "reach fresh_pool pool_step bp_init"
  by (intro reach_init) (simp add: fresh_pool_def)

theorem buffer_pool_fetch_witness: "bp_fetch_page 7 bp_init \<noteq> (None, bp_init\<lparr> misses := 1 \<rparr>)"
  using buffer_pool_fetch[OF fresh_pool_reach, of 7] by (auto simp: bp_init_def BP_CAPACITY_def)

text \<open>One operation on a pinned page.\<close>

lemma pinned_fetch:
  assumes wf: "wf_pool bp" and look: "page_table_lookup pid bp = Some f" and pin: "0 < pin_count (frames bp ! f)"
  shows "page_table_lookup pid (snd (bp_fetch_page q bp)) = Some f \<and>
    pin_count (frames bp ! f) \<le> pin_count (frames (snd (bp_fetch_page q bp)) ! f)"
proof -
  obtain r bp' where f: "bp_fetch_page q bp = (r, bp')" by fastforce
  have fp: "f < num_pages bp" "page_id (frames bp ! f) = pid" using look by (simp_all add: lookup_iff[OF wf])
  show ?thesis
  proof (cases r)
    case None
    from wf show ?thesis
      by (cases rule: fetch_cases[of bp q]) (use f None look in \<open>simp_all add: page_table_lookup_def\<close>)
  next
    case (Some g)
    note ff = fetched_frame[OF wf f[unfolded Some]]
    note fl = fetch_lookup[OF wf f[unfolded Some]]
    show ?thesis
    proof (cases "page_table_lookup q bp")
      case miss: None
      have "g \<noteq> f" using ff miss pin fp by (auto simp: cached_def)
      moreover have "q \<noteq> pid" using miss look by auto
      ultimately show ?thesis using ff fl[of pid] look f by simp
    next
      case hit: (Some h)
      have "g = h" using hit f Some by (simp add: bp_fetch_page_def Let_def)
      moreover have "page_id (frames bp ! h) = q" using hit by (simp add: lookup_iff[OF wf])
      ultimately show ?thesis using ff fl[of pid] look f fp hit
        by (cases "g = f") (auto simp: cached_def)
    qed
  qed
qed

lemma pinned_step:
  assumes wf: "wf_pool bp" and look: "page_table_lookup pid bp = Some f" and pin: "0 < pin_count (frames bp ! f)"
  shows "page_table_lookup pid (pool_step op bp) = Some f \<and>
    pin_count (frames bp ! f) - of_bool (op = Unpin pid) \<le> pin_count (frames (pool_step op bp) ! f)"
proof -
  have same: "page_table_lookup pid (upd_frame i g bp) = Some f" for i g
    using look by (simp add: page_table_lookup_def upd_frame_def)
  show ?thesis
  proof (cases op)
    case (Fetch q)
    then show ?thesis using pinned_fetch[OF assms] by simp
  next
    case (Unpin q)
    show ?thesis
    proof (cases "page_table_lookup q bp")
      case None
      then show ?thesis using Unpin look by (simp add: bp_unpin_page_def)
    next
      case (Some i)
      then have "i = f \<Longrightarrow> q = pid" using look by (simp add: lookup_iff[OF wf])
      moreover have "pin_count (frames (upd_frame i (\<lambda>x. x\<lparr> pin_count := pin_count x - 1 \<rparr>) bp) ! f) =
          pin_count (frames bp ! f) - of_bool (i = f \<and> i < length (frames bp))"
        by (auto simp: upd_frame_def nth_upd_if)
      ultimately show ?thesis using Unpin same look Some by (simp add: bp_unpin_page_def)
    qed
  next
    case (Flush q)
    then show ?thesis using same look
      by (auto simp: bp_flush_page_def upd_frame_def nth_upd_if split: option.split)
  next
    case Flush_All
    have "f < length (frames bp)" "length (occupied bp) = length (frames bp)"
      using look wf by (auto simp: lookup_iff wf_pool_def)
    then show ?thesis using Flush_All look by (simp add: bp_flush_all_def page_table_lookup_def)
  next
    case (Modify i d)
    then show ?thesis using same by (auto simp: upd_frame_def nth_upd_if)
  qed
qed

definition unpins :: "int \<Rightarrow> pool_op list \<Rightarrow> nat" where
  "unpins pid ops = length (filter (\<lambda>op. op = Unpin pid) ops)"

text \<open>
  C21. A pinned page stays: while a page is pinned more often than the operations unpin it, no
  sequence of fetches, unpins, flushes and writes by frame holders moves it to another frame or
  gives its frame to another page.
\<close>

theorem pinned_page_stays:
  assumes "reach fresh_pool pool_step bp" "page_table_lookup pid bp = Some f"
    and "int (unpins pid ops) < pin_count (frames bp ! f)"
  shows "page_table_lookup pid (fold pool_step ops bp) = Some f \<and>
         pin_count (frames bp ! f) - int (unpins pid ops) \<le> pin_count (frames (fold pool_step ops bp) ! f)"
  using assms
proof (induction ops arbitrary: bp)
  case (Cons op ops)
  have "wf_pool bp" using pool_sys.reach_inv[OF Cons.prems(1)] by simp
  note step = pinned_step[OF this Cons.prems(2), of op]
  have u: "int (unpins pid (op # ops)) = of_bool (op = Unpin pid) + int (unpins pid ops)"
    by (simp add: unpins_def)
  have s: "page_table_lookup pid (pool_step op bp) = Some f \<and>
    pin_count (frames bp ! f) - of_bool (op = Unpin pid) \<le> pin_count (frames (pool_step op bp) ! f)"
    using Cons.prems(3) u by (intro step) simp
  then have "int (unpins pid ops) < pin_count (frames (pool_step op bp) ! f)"
    using Cons.prems(3) u by linarith
  with Cons.IH[OF reach_step[OF Cons.prems(1)], of op] s u show ?case by simp
qed (simp add: unpins_def)

lemma lookup_init: "page_table_lookup q bp_init = None"
  using pages.hash_less[of q] by (simp add: page_table_lookup_def chain_find_def bp_init_def)

lemma one_page_pool:
  "page_table_lookup 7 (pool_step (Fetch 7) bp_init) = Some 0 \<and>
   pin_count (frames (pool_step (Fetch 7) bp_init) ! 0) = 1"
proof -
  have wf: "wf_pool bp_init" using pool_sys.reach_inv[OF fresh_pool_reach] by simp
  have "num_pages bp_init < capacity bp_init" "num_pages bp_init = 0"
    by (simp_all add: bp_init_def BP_CAPACITY_def)
  then have f: "bp_fetch_page 7 bp_init = (Some 0, snd (bp_fetch_page 7 bp_init))"
    by (simp add: bp_fetch_page_def lookup_init Let_def)
  have "\<not> cached 7 bp_init" by (simp add: cached_def lookup_init)
  then show ?thesis using fetch_lookup[OF wf f, of 7] fetched_frame[OF wf f] by simp
qed

theorem pinned_page_stays_witness:
  "page_table_lookup 7 (fold pool_step [Fetch 8, Unpin 8, Flush_All] (pool_step (Fetch 7) bp_init)) = Some 0"
proof -
  have "int (unpins 7 [Fetch 8, Unpin 8, Flush_All]) < pin_count (frames (pool_step (Fetch 7) bp_init) ! 0)"
    using one_page_pool by (simp add: unpins_def del: pool_step.simps)
  from pinned_page_stays[OF reach_step[OF fresh_pool_reach] conjunct1[OF one_page_pool] this] show ?thesis ..
qed

end
