(* ===== verification/Lock_Manager.thy ===== *)
theory Lock_Manager
  imports Chained_Table Codec_Base
begin

text \<open>
  The lock manager of \<open>mini-db-kernel\<close> (\<open>lock_manager.h\<close>, \<open>lock_manager.c\<close>). Entries live in a
  pool of 4096 and are never reused; a pointer to an entry is its index in the pool, of which the
  model keeps the part already allocated, so that \<open>pool_idx\<close> is its length. The \<open>next\<close> pointers
  form the chain of a bucket, here a list of indices from the head; the queue of waiters hangs
  off an entry through the \<open>queue_next\<close> field.
\<close>

definition LM_NUM_BUCKETS :: nat where [c_consts]: "LM_NUM_BUCKETS = 256"
definition LM_POOL_SIZE :: nat where [c_consts]: "LM_POOL_SIZE = LM_NUM_BUCKETS * 16"

datatype lock_mode = LOCK_SHARED | LOCK_EXCLUSIVE

record lock_entry =
  txn_id :: int
  resource_id :: int
  lock_mode :: lock_mode
  granted :: bool
  queue_next :: "nat option"
  queue_prev :: "nat option"

record lock_manager =
  buckets :: "nat list list"
  entries_pool :: "lock_entry list"

section \<open>Operations\<close>

definition hash_resource :: "int \<Rightarrow> nat" where
  "hash_resource rid = unat (ucast (word_of_int rid * 2654435761 :: 64 word) :: 32 word) mod LM_NUM_BUCKETS"

definition lm_init :: lock_manager where
  "lm_init = \<lparr> buckets = replicate LM_NUM_BUCKETS [], entries_pool = [] \<rparr>"

text \<open>\<open>alloc_entry\<close> and the assignments that follow it in both branches of the caller.\<close>

definition alloc_entry :: "lock_entry \<Rightarrow> lock_manager \<Rightarrow> (nat \<times> lock_manager) option" where
  "alloc_entry e lm =
     (if length (entries_pool lm) \<ge> LM_POOL_SIZE then None
      else Some (length (entries_pool lm), lm\<lparr> entries_pool := entries_pool lm @ [e] \<rparr>))"

definition new_entry :: "int \<Rightarrow> int \<Rightarrow> lock_mode \<Rightarrow> bool \<Rightarrow> lock_entry" where
  "new_entry t r m g =
     \<lparr> txn_id = t, resource_id = r, lock_mode = m, granted = g, queue_next = None, queue_prev = None \<rparr>"

fun conflict_in :: "lock_entry list \<Rightarrow> int \<Rightarrow> lock_mode \<Rightarrow> int \<Rightarrow> nat list \<Rightarrow> bool" where
  "conflict_in pool r m t [] = False"
| "conflict_in pool r m t (i # is) =
     (let e = pool ! i in
      if resource_id e = r \<and> granted e then
        (if txn_id e = t \<and> (lock_mode e = LOCK_EXCLUSIVE \<or> m = LOCK_SHARED) then False
         else if lock_mode e = LOCK_EXCLUSIVE then True
         else if lock_mode e = LOCK_SHARED \<and> m = LOCK_EXCLUSIVE then True
         else conflict_in pool r m t is)
      else conflict_in pool r m t is)"

definition chain_of :: "int \<Rightarrow> lock_manager \<Rightarrow> nat list" where
  "chain_of r lm = buckets lm ! hash_resource r"

definition has_conflict :: "int \<Rightarrow> lock_mode \<Rightarrow> int \<Rightarrow> lock_manager \<Rightarrow> bool" where
  "has_conflict r m t lm = conflict_in (entries_pool lm) r m t (chain_of r lm)"

text \<open>The walk to the end of a queue; it visits each entry of the pool at most once.\<close>

fun queue_tail :: "nat \<Rightarrow> lock_entry list \<Rightarrow> nat \<Rightarrow> nat" where
  "queue_tail 0 pool i = i"
| "queue_tail (Suc n) pool i =
     (case queue_next (pool ! i) of None \<Rightarrow> i | Some j \<Rightarrow> queue_tail n pool j)"

definition push_bucket :: "nat \<Rightarrow> nat \<Rightarrow> lock_manager \<Rightarrow> lock_manager" where
  "push_bucket b i lm = lm\<lparr> buckets := (buckets lm)[b := i # buckets lm ! b] \<rparr>"

definition upd_entry :: "nat \<Rightarrow> (lock_entry \<Rightarrow> lock_entry) \<Rightarrow> lock_manager \<Rightarrow> lock_manager" where
  "upd_entry i f lm = lm\<lparr> entries_pool := (entries_pool lm)[i := f (entries_pool lm ! i)] \<rparr>"

definition lm_lock_acquire :: "int \<Rightarrow> int \<Rightarrow> lock_mode \<Rightarrow> lock_manager \<Rightarrow> bool \<times> lock_manager" where
  "lm_lock_acquire t r m lm =
     (if \<not> has_conflict r m t lm then
        (case alloc_entry (new_entry t r m True) lm of
           None \<Rightarrow> (False, lm)
         | Some (i, lm) \<Rightarrow> (True, push_bucket (hash_resource r) i lm))
      else
        (case alloc_entry (new_entry t r m False) lm of
           None \<Rightarrow> (False, lm)
         | Some (i, lm) \<Rightarrow>
             (case find (\<lambda>h. resource_id (entries_pool lm ! h) = r) (chain_of r lm) of
                Some h \<Rightarrow>
                  (let tail = queue_tail (length (entries_pool lm)) (entries_pool lm) h;
                       lm = upd_entry tail (\<lambda>e. e\<lparr> queue_next := Some i \<rparr>) lm
                   in (False, upd_entry i (\<lambda>e. e\<lparr> queue_prev := Some tail \<rparr>) lm))
              | None \<Rightarrow> (False, push_bucket (hash_resource r) i lm))))"

text \<open>Granting the entry that waits behind a released one.\<close>

definition promote :: "nat option \<Rightarrow> lock_entry list \<Rightarrow> nat list \<Rightarrow> lock_entry list \<times> nat list" where
  "promote w pool chain =
     (case w of
        None \<Rightarrow> (pool, chain)
      | Some i \<Rightarrow> if granted (pool ! i) then (pool, chain)
                  else (pool[i := (pool ! i)\<lparr> granted := True \<rparr>], i # chain))"

definition lm_lock_release :: "int \<Rightarrow> int \<Rightarrow> lock_manager \<Rightarrow> lock_manager" where
  "lm_lock_release t r lm =
     (let chain = chain_of r lm; pool = entries_pool lm in
      case find_idx (\<lambda>i. resource_id (pool ! i) = r \<and> txn_id (pool ! i) = t \<and> granted (pool ! i)) chain of
        None \<Rightarrow> lm
      | Some k \<Rightarrow>
          (let (pool', chain') = promote (queue_next (pool ! (chain ! k))) pool (take k chain @ drop (Suc k) chain)
           in lm\<lparr> entries_pool := pool', buckets := (buckets lm)[hash_resource r := chain'] \<rparr>))"

definition lm_detect_deadlock :: "lock_manager \<Rightarrow> bool" where
  "lm_detect_deadlock lm =
     (let p = entries_pool lm in
      list_ex (\<lambda>chain. list_ex (\<lambda>e. \<not> granted (p ! e) \<and>
        list_ex (\<lambda>h. resource_id (p ! h) = resource_id (p ! e) \<and> granted (p ! h) \<and> txn_id (p ! h) \<noteq> txn_id (p ! e) \<and>
          list_ex (\<lambda>w. \<not> granted (p ! w) \<and> txn_id (p ! w) = txn_id (p ! h) \<and>
            list_ex (\<lambda>w2. granted (p ! w2) \<and> resource_id (p ! w2) = resource_id (p ! w) \<and> txn_id (p ! w2) = txn_id (p ! e))
              (chain_of (resource_id (p ! w)) lm))
            (chain_of (txn_id (p ! h)) lm))
          (chain_of (resource_id (p ! e)) lm)) chain) (buckets lm))"

definition find_granted_entry :: "int \<Rightarrow> int \<Rightarrow> lock_manager \<Rightarrow> nat option" where
  "find_granted_entry t r lm =
     find (\<lambda>i. txn_id (entries_pool lm ! i) = t \<and> resource_id (entries_pool lm ! i) = r \<and> granted (entries_pool lm ! i))
       (chain_of r lm)"

definition other_holders :: "int \<Rightarrow> int \<Rightarrow> lock_manager \<Rightarrow> nat" where
  "other_holders t r lm =
     length (filter (\<lambda>i. resource_id (entries_pool lm ! i) = r \<and> granted (entries_pool lm ! i) \<and>
                         txn_id (entries_pool lm ! i) \<noteq> t \<and> lock_mode (entries_pool lm ! i) = LOCK_SHARED)
               (chain_of r lm))"

definition lm_lock_upgrade :: "int \<Rightarrow> int \<Rightarrow> lock_manager \<Rightarrow> bool \<times> lock_manager" where
  "lm_lock_upgrade t r lm =
     (case find_granted_entry t r lm of
        None \<Rightarrow> (False, lm)
      | Some i \<Rightarrow>
          if lock_mode (entries_pool lm ! i) = LOCK_EXCLUSIVE then (True, lm)
          else if has_conflict r LOCK_EXCLUSIVE t lm \<and> other_holders t r lm > 0 then (False, lm)
          else (True, upd_entry i (\<lambda>e. e\<lparr> lock_mode := LOCK_EXCLUSIVE \<rparr>) lm))"

text \<open>
  \<open>lm_release_all\<close> on one chain: \<open>front\<close> is what a reader of the bucket meets before the current
  entry, \<open>has_prev\<close> says whether \<open>prev\<close> is set. While it is not, unlinking stores the rest of the
  chain into the bucket itself, over whatever was pushed there.
\<close>

fun release_chain :: "int \<Rightarrow> lock_entry list \<Rightarrow> nat list \<Rightarrow> bool \<Rightarrow> nat list \<Rightarrow> lock_entry list \<times> nat list" where
  "release_chain t pool front has_prev [] = (pool, front)"
| "release_chain t pool front has_prev (i # rest) =
     (if txn_id (pool ! i) = t \<and> granted (pool ! i) then
        (let front = (if has_prev then front else []);
             (pool', front') = promote (queue_next (pool ! i)) pool front
         in release_chain t pool' front' has_prev rest)
      else release_chain t pool (front @ [i]) True rest)"

definition lm_release_all :: "int \<Rightarrow> lock_manager \<Rightarrow> lock_manager" where
  "lm_release_all t lm =
     fold (\<lambda>b lm. let (pool', chain') = release_chain t (entries_pool lm) [] False (buckets lm ! b)
                  in lm\<lparr> entries_pool := pool', buckets := (buckets lm)[b := chain'] \<rparr>)
       [0..<LM_NUM_BUCKETS] lm"

definition lm_count_waiters :: "int \<Rightarrow> lock_manager \<Rightarrow> nat" where
  "lm_count_waiters r lm =
     length (filter (\<lambda>i. resource_id (entries_pool lm ! i) = r \<and> \<not> granted (entries_pool lm ! i)) (chain_of r lm))"

datatype lock_op = Acquire int int lock_mode | Release int int | Upgrade int int | Release_All int

fun lock_step :: "lock_op \<Rightarrow> lock_manager \<Rightarrow> lock_manager" where
  "lock_step (Acquire t r m) lm = snd (lm_lock_acquire t r m lm)"
| "lock_step (Release t r) lm = lm_lock_release t r lm"
| "lock_step (Upgrade t r) lm = snd (lm_lock_upgrade t r lm)"
| "lock_step (Release_All t) lm = lm_release_all t lm"

definition fresh_locks :: "lock_manager \<Rightarrow> bool" where
  "fresh_locks lm \<longleftrightarrow> lm = lm_init"

section \<open>Invariant\<close>

definition wf_pool_queues :: "lock_entry list \<Rightarrow> bool" where
  "wf_pool_queues pool \<longleftrightarrow>
     (\<forall>i < length pool. \<forall>j. queue_next (pool ! i) = Some j \<longrightarrow>
        i < j \<and> j < length pool \<and> resource_id (pool ! j) = resource_id (pool ! i))"

definition wf_chain :: "lock_entry list \<Rightarrow> nat \<Rightarrow> nat list \<Rightarrow> bool" where
  "wf_chain pool b chain \<longleftrightarrow>
     (\<forall>i \<in> set chain. i < length pool \<and> granted (pool ! i) \<and> hash_resource (resource_id (pool ! i)) = b)"

definition wf_locks :: "lock_manager \<Rightarrow> bool" where
  "wf_locks lm \<longleftrightarrow> length (buckets lm) = LM_NUM_BUCKETS \<and> wf_pool_queues (entries_pool lm) \<and>
     (\<forall>b < LM_NUM_BUCKETS. wf_chain (entries_pool lm) b (buckets lm ! b))"

lemma hash_resource_less: "hash_resource r < LM_NUM_BUCKETS"
  by (simp add: hash_resource_def LM_NUM_BUCKETS_def)

text \<open>A chain stays well formed when the pool only grows or grants.\<close>

definition pool_le :: "lock_entry list \<Rightarrow> lock_entry list \<Rightarrow> bool" where
  "pool_le p q \<longleftrightarrow> length p \<le> length q \<and>
     (\<forall>i < length p. resource_id (q ! i) = resource_id (p ! i) \<and> (granted (p ! i) \<longrightarrow> granted (q ! i)))"

lemma pool_le_refl: "pool_le p p"
  by (simp add: pool_le_def)

lemma pool_le_trans: "pool_le p q \<Longrightarrow> pool_le q r \<Longrightarrow> pool_le p r"
  by (auto simp: pool_le_def)

lemma pool_le_append: "pool_le p (p @ q)"
  by (simp add: pool_le_def nth_append)

lemma pool_le_update:
  "resource_id e = resource_id (p ! i) \<Longrightarrow> (granted (p ! i) \<Longrightarrow> granted e) \<Longrightarrow> pool_le p (p[i := e])"
  by (auto simp: pool_le_def nth_upd_if)

lemma wf_chain_mono: "wf_chain p b chain \<Longrightarrow> pool_le p q \<Longrightarrow> wf_chain q b chain"
  by (fastforce simp: wf_chain_def pool_le_def)

lemma wf_chain_simps [simp]:
  "wf_chain p b []"
  "wf_chain p b (i # c) \<longleftrightarrow> i < length p \<and> granted (p ! i) \<and> hash_resource (resource_id (p ! i)) = b \<and> wf_chain p b c"
  "wf_chain p b (c @ d) \<longleftrightarrow> wf_chain p b c \<and> wf_chain p b d"
  by (auto simp: wf_chain_def)

lemma wf_chain_subset: "wf_chain p b c \<Longrightarrow> set d \<subseteq> set c \<Longrightarrow> wf_chain p b d"
  by (auto simp: wf_chain_def)

lemma queuesD:
  assumes "wf_pool_queues p" "i < length p" "queue_next (p ! i) = Some j"
  shows "i < j" "j < length p" "resource_id (p ! j) = resource_id (p ! i)"
  using assms unfolding wf_pool_queues_def by blast+

lemma queuesI:
  "(\<And>i j. i < length p \<Longrightarrow> queue_next (p ! i) = Some j \<Longrightarrow>
      i < j \<and> j < length p \<and> resource_id (p ! j) = resource_id (p ! i)) \<Longrightarrow> wf_pool_queues p"
  unfolding wf_pool_queues_def by blast

lemma queues_update:
  assumes "wf_pool_queues p" "resource_id e = resource_id (p ! k)"
    and "queue_next e = queue_next (p ! k) \<or>
         (\<exists>j. queue_next e = Some j \<and> k < j \<and> j < length p \<and> resource_id (p ! j) = resource_id (p ! k))"
  shows "wf_pool_queues (p[k := e])"
proof (rule queuesI)
  fix i j assume i: "i < length (p[k := e])" and q: "queue_next (p[k := e] ! i) = Some j"
  have res: "resource_id (p[k := e] ! m) = resource_id (p ! m)" for m
    using assms(2) by (simp add: nth_upd_if)
  have "queue_next (p ! i) = Some j \<or> i = k \<and> k < j \<and> j < length p \<and> resource_id (p ! j) = resource_id (p ! k)"
    using q i assms(3) by (auto simp: nth_upd_if split: if_splits)
  then show "i < j \<and> j < length (p[k := e]) \<and> resource_id (p[k := e] ! j) = resource_id (p[k := e] ! i)"
    using queuesD[OF assms(1), of i j] i unfolding res by (elim disjE conjE) (simp_all add: res)
qed

lemma queues_append:
  assumes "wf_pool_queues p" "queue_next e = None"
  shows "wf_pool_queues (p @ [e])"
proof (rule queuesI)
  fix i j assume i: "i < length (p @ [e])" and q: "queue_next ((p @ [e]) ! i) = Some j"
  then have "i < length p" "queue_next (p ! i) = Some j" using assms(2) by (auto simp: nth_append split: if_splits)
  from queuesD[OF assms(1) this] show "i < j \<and> j < length (p @ [e]) \<and> resource_id ((p @ [e]) ! j) = resource_id ((p @ [e]) ! i)"
    by (simp add: nth_append)
qed

lemma queue_tail_less:
  "wf_pool_queues p \<Longrightarrow> i < length p \<Longrightarrow>
   queue_tail n p i < length p \<and> i \<le> queue_tail n p i \<and> resource_id (p ! queue_tail n p i) = resource_id (p ! i)"
proof (induction n arbitrary: i)
  case (Suc n)
  show ?case
  proof (cases "queue_next (p ! i)")
    case (Some j)
    note j = queuesD[OF Suc.prems Some]
    with Suc.IH[of j] Suc.prems(1) Some show ?thesis by auto
  qed (use Suc.prems in simp)
qed simp

lemma queue_tail_append:
  "wf_pool_queues p \<Longrightarrow> i < length p \<Longrightarrow> queue_tail n (p @ [e]) i = queue_tail n p i"
proof (induction n arbitrary: i)
  case (Suc n)
  show ?case
  proof (cases "queue_next (p ! i)")
    case (Some j)
    note j = queuesD[OF Suc.prems Some]
    with Suc.IH[of j] Suc.prems Some show ?thesis by (simp add: nth_append)
  qed (use Suc.prems in \<open>simp add: nth_append\<close>)
qed simp

text \<open>The walk reaches an entry with nobody behind it, within the length of the pool.\<close>

lemma queue_tail_end:
  "wf_pool_queues p \<Longrightarrow> i < length p \<Longrightarrow> length p \<le> n + i \<Longrightarrow> queue_next (p ! queue_tail n p i) = None"
proof (induction n arbitrary: i)
  case (Suc n)
  show ?case
  proof (cases "queue_next (p ! i)")
    case (Some j)
    note j = queuesD[OF Suc.prems(1,2) Some]
    with Suc.IH[of j] Suc.prems Some show ?thesis by simp
  qed simp
qed simp

lemma wf_locks_chain: "wf_locks lm \<Longrightarrow> wf_chain (entries_pool lm) (hash_resource r) (chain_of r lm)"
  using hash_resource_less[of r] by (simp add: wf_locks_def chain_of_def)

lemma wf_locks_update:
  assumes "wf_locks lm" "pool_le (entries_pool lm) (entries_pool lm')" "wf_pool_queues (entries_pool lm')"
    and "buckets lm' = (buckets lm)[b := chain]" "wf_chain (entries_pool lm') b chain"
  shows "wf_locks lm'"
  using assms wf_chain_mono[OF _ assms(2)] by (auto simp: wf_locks_def nth_upd_if)

lemma promote_wf:
  assumes "wf_pool_queues p" "wf_chain p b chain" "i < length p" "hash_resource (resource_id (p ! i)) = b"
    and "promote (queue_next (p ! i)) p chain = (p', chain')"
  shows "pool_le p p' \<and> wf_pool_queues p' \<and> wf_chain p' b chain'"
proof (cases "\<exists>w. queue_next (p ! i) = Some w \<and> \<not> granted (p ! w)")
  case False
  then show ?thesis using assms by (auto simp: promote_def pool_le_refl split: option.splits if_splits)
next
  case True
  then obtain w where w: "queue_next (p ! i) = Some w" "\<not> granted (p ! w)" by blast
  note q = queuesD[OF assms(1,3) w(1)]
  have p': "p' = p[w := (p ! w)\<lparr> granted := True \<rparr>]" "chain' = w # chain"
    using assms(5) w by (auto simp: promote_def)
  have le: "pool_le p p'" unfolding p' by (rule pool_le_update) simp_all
  moreover have "wf_pool_queues p'" unfolding p' by (rule queues_update[OF assms(1)]) simp_all
  moreover have "wf_chain p' b chain'"
    using wf_chain_mono[OF assms(2) le] q assms(4) by (simp add: p')
  ultimately show ?thesis by blast
qed

text \<open>A conflict comes from an entry of the chain, so the waiter always finds a queue to join.\<close>

lemma conflict_head:
  assumes "wf_locks lm" "has_conflict r m t lm"
  obtains h where "find (\<lambda>h. resource_id ((entries_pool lm @ [e]) ! h) = r) (chain_of r lm) = Some h"
proof (cases "find (\<lambda>h. resource_id ((entries_pool lm @ [e]) ! h) = r) (chain_of r lm)")
  case None
  then have none: "\<forall>h \<in> set (chain_of r lm). resource_id (entries_pool lm ! h) \<noteq> r"
    using wf_locks_chain[OF assms(1), of r] by (auto simp: find_None_iff nth_append wf_chain_def)
  have "\<not> conflict_in (entries_pool lm) r m t chain"
    if "\<forall>h \<in> set chain. resource_id (entries_pool lm ! h) \<noteq> r" for chain
    using that by (induction chain) simp_all
  with none assms(2) show ?thesis by (simp add: has_conflict_def)
qed

lemma acquire_wf:
  assumes wf: "wf_locks lm"
  shows "wf_locks (snd (lm_lock_acquire t r m lm))"
proof -
  let ?p = "entries_pool lm" and ?n = "length (entries_pool lm)"
  have q: "wf_pool_queues ?p" and len: "length (buckets lm) = LM_NUM_BUCKETS" using wf by (simp_all add: wf_locks_def)
  note c = wf_locks_chain[OF wf, of r]
  show ?thesis
  proof (cases "?n \<ge> LM_POOL_SIZE")
    case True
    then show ?thesis using wf by (simp add: lm_lock_acquire_def alloc_entry_def)
  next
    case room: False
    show ?thesis
    proof (cases "has_conflict r m t lm")
      case False
      let ?e = "new_entry t r m True"
      have a: "snd (lm_lock_acquire t r m lm) = push_bucket (hash_resource r) ?n (lm\<lparr> entries_pool := ?p @ [?e] \<rparr>)"
        using room False by (simp add: lm_lock_acquire_def alloc_entry_def)
      show ?thesis
      proof (rule wf_locks_update[OF wf])
        show "pool_le ?p (entries_pool (snd (lm_lock_acquire t r m lm)))"
          by (simp add: a push_bucket_def pool_le_append)
        show "wf_pool_queues (entries_pool (snd (lm_lock_acquire t r m lm)))"
          using queues_append[OF q, of ?e] by (simp add: a push_bucket_def new_entry_def)
        show "buckets (snd (lm_lock_acquire t r m lm)) = (buckets lm)[hash_resource r := ?n # chain_of r lm]"
          by (simp add: a push_bucket_def chain_of_def)
        show "wf_chain (entries_pool (snd (lm_lock_acquire t r m lm))) (hash_resource r) (?n # chain_of r lm)"
          using wf_chain_mono[OF c pool_le_append[of ?p "[?e]"]]
          by (simp add: a push_bucket_def new_entry_def nth_append)
      qed
    next
      case True
      let ?e = "new_entry t r m False" and ?p' = "?p @ [new_entry t r m False]"
      have q': "wf_pool_queues ?p'" by (rule queues_append[OF q]) (simp add: new_entry_def)
      obtain h where h: "find (\<lambda>h. resource_id (?p' ! h) = r) (chain_of r lm) = Some h"
        by (rule conflict_head[OF wf True])
      then have h': "h \<in> set (chain_of r lm)" "resource_id (?p' ! h) = r" by (auto simp: find_Some_iff)
      then have hl: "h < length ?p" using c by (auto simp: wf_chain_def)
      let ?t = "queue_tail (length ?p') ?p' h"
      have same: "?t = queue_tail (length ?p') ?p h" by (rule queue_tail_append[OF q hl])
      have tn: "?t < ?n" unfolding same using queue_tail_less[OF q hl] by blast
      have t: "resource_id (?p' ! ?t) = r"
        using queue_tail_less[OF q', of h "length ?p'"] hl h'(2) by (simp del: queue_tail.simps)
      let ?p1 = "?p'[?t := (?p' ! ?t)\<lparr> queue_next := Some ?n \<rparr>]"
      let ?p2 = "?p1[?n := (?p1 ! ?n)\<lparr> queue_prev := Some ?t \<rparr>]"
      have a: "snd (lm_lock_acquire t r m lm) = lm\<lparr> entries_pool := ?p2 \<rparr>"
        using room True h by (simp add: lm_lock_acquire_def alloc_entry_def upd_entry_def Let_def chain_of_def
            del: queue_tail.simps)
      have "resource_id (?p' ! ?n) = r" by (simp add: new_entry_def)
      then have q1: "wf_pool_queues ?p1" using t tn by (intro queues_update[OF q']) (simp_all del: queue_tail.simps)
      have q2: "wf_pool_queues ?p2" by (intro queues_update[OF q1]) (simp_all del: queue_tail.simps)
      have l12: "pool_le ?p' ?p1" "pool_le ?p1 ?p2"
        by (intro pool_le_update; simp del: queue_tail.simps)+
      have le: "pool_le ?p ?p2" by (rule pool_le_trans[OF pool_le_append pool_le_trans[OF l12]])
      show ?thesis
        by (rule wf_locks_update[OF wf, of _ "hash_resource r" "chain_of r lm"])
          (use le q2 wf_chain_mono[OF c le] in \<open>simp_all add: a chain_of_def del: queue_tail.simps\<close>)
    qed
  qed
qed

lemma release_wf:
  assumes wf: "wf_locks lm"
  shows "wf_locks (lm_lock_release t r lm)"
proof -
  let ?p = "entries_pool lm" and ?c = "chain_of r lm"
  note c = wf_locks_chain[OF wf, of r]
  show ?thesis
  proof (cases "find_idx (\<lambda>i. resource_id (?p ! i) = r \<and> txn_id (?p ! i) = t \<and> granted (?p ! i)) ?c")
    case None
    then show ?thesis using wf by (simp add: lm_lock_release_def Let_def)
  next
    case (Some k)
    note k = find_idx_SomeD(1,2)[OF Some]
    obtain p' c' where pr: "promote (queue_next (?p ! (?c ! k))) ?p (take k ?c @ drop (Suc k) ?c) = (p', c')" by fastforce
    have "wf_chain ?p (hash_resource r) (take k ?c @ drop (Suc k) ?c)"
      by (rule wf_chain_subset[OF c]) (auto dest: in_set_takeD in_set_dropD)
    moreover have "?c ! k < length ?p" "wf_pool_queues ?p"
      using c k(1) wf by (auto simp: wf_chain_def wf_locks_def)
    ultimately have "pool_le ?p p' \<and> wf_pool_queues p' \<and> wf_chain p' (hash_resource r) c'"
      using k(2) pr by (intro promote_wf) simp_all
    then show ?thesis
      by (intro wf_locks_update[OF wf, of _ "hash_resource r" c']) (use pr Some in \<open>simp_all add: lm_lock_release_def Let_def\<close>)
  qed
qed

lemma upgrade_wf:
  assumes wf: "wf_locks lm"
  shows "wf_locks (snd (lm_lock_upgrade t r lm))"
proof -
  have "wf_locks (upd_entry i (\<lambda>e. e\<lparr> lock_mode := LOCK_EXCLUSIVE \<rparr>) lm)" for i
  proof (rule wf_locks_update[OF wf, of _ "hash_resource r" "chain_of r lm"])
    let ?lm = "upd_entry i (\<lambda>e. e\<lparr> lock_mode := LOCK_EXCLUSIVE \<rparr>) lm"
    show le: "pool_le (entries_pool lm) (entries_pool ?lm)"
      unfolding upd_entry_def by (simp add: pool_le_update)
    show "wf_pool_queues (entries_pool ?lm)"
      using wf by (simp add: upd_entry_def wf_locks_def queues_update)
    show "buckets ?lm = (buckets lm)[hash_resource r := chain_of r lm]"
      by (simp add: upd_entry_def chain_of_def)
    show "wf_chain (entries_pool ?lm) (hash_resource r) (chain_of r lm)"
      by (rule wf_chain_mono[OF wf_locks_chain[OF wf] le])
  qed
  then show ?thesis using wf by (simp add: lm_lock_upgrade_def split: option.split)
qed

lemma release_chain_wf:
  assumes "wf_pool_queues p" "wf_chain p b front" "wf_chain p b rest" "release_chain t p front hp rest = (p', c')"
  shows "pool_le p p' \<and> wf_pool_queues p' \<and> wf_chain p' b c'"
  using assms
proof (induction t p front hp rest rule: release_chain.induct)
  case (1 t p front hp)
  then show ?case by (simp add: pool_le_refl)
next
  case (2 t p front hp i rest)
  show ?case
  proof (cases "txn_id (p ! i) = t \<and> granted (p ! i)")
    case True
    let ?f = "if hp then front else []"
    obtain p1 c1 where pr: "promote (queue_next (p ! i)) p ?f = (p1, c1)" by fastforce
    have "pool_le p p1 \<and> wf_pool_queues p1 \<and> wf_chain p1 b c1"
      using 2(3-5) pr by (intro promote_wf) auto
    moreover from this have "wf_chain p1 b rest" using wf_chain_mono 2(5) by auto
    ultimately show ?thesis
      using 2(1)[OF True refl pr[symmetric] refl] 2(6) True pr pool_le_trans by (auto simp: Let_def)
  next
    case False
    then show ?thesis using 2(2)[OF False] 2(3-6) by simp
  qed
qed

lemma release_all_wf: "wf_locks lm \<Longrightarrow> wf_locks (lm_release_all t lm)"
proof -
  define step where "step = (\<lambda>b (lm :: lock_manager). let (pool', chain') = release_chain t (entries_pool lm) [] False (buckets lm ! b)
                  in lm\<lparr> entries_pool := pool', buckets := (buckets lm)[b := chain'] \<rparr>)"
  have one: "wf_locks (step b lm)" if "wf_locks lm" "b < LM_NUM_BUCKETS" for b lm
  proof -
    obtain p' c' where r: "release_chain t (entries_pool lm) [] False (buckets lm ! b) = (p', c')" by fastforce
    have "pool_le (entries_pool lm) p' \<and> wf_pool_queues p' \<and> wf_chain p' b c'"
      using that by (intro release_chain_wf[OF _ _ _ r]) (simp_all add: wf_locks_def)
    then show ?thesis by (intro wf_locks_update[OF that(1), of _ b c']) (simp_all add: step_def r)
  qed
  have "wf_locks (fold step bs lm)" if "wf_locks lm" "\<forall>b \<in> set bs. b < LM_NUM_BUCKETS" for bs lm
    using that by (induction bs arbitrary: lm) (simp_all add: one)
  moreover assume "wf_locks lm"
  ultimately show ?thesis by (simp add: lm_release_all_def step_def)
qed

interpretation lock_sys: invariant_system fresh_locks lock_step wf_locks
proof unfold_locales
  fix s assume "fresh_locks s"
  then show "wf_locks s" by (simp add: fresh_locks_def lm_init_def wf_locks_def wf_pool_queues_def)
next
  fix s op assume "wf_locks s"
  then show "wf_locks (lock_step op s)"
    by (cases op) (simp_all add: acquire_wf release_wf upgrade_wf release_all_wf)
qed

section \<open>Who holds what\<close>

definition holders :: "int \<Rightarrow> lock_manager \<Rightarrow> (int \<times> lock_mode) list" where
  "holders r lm =
     map (\<lambda>i. (txn_id (entries_pool lm ! i), lock_mode (entries_pool lm ! i)))
       (filter (\<lambda>i. resource_id (entries_pool lm ! i) = r) (chain_of r lm))"

definition exclusive_ok :: "(int \<times> lock_mode) list \<Rightarrow> bool" where
  "exclusive_ok hs \<longleftrightarrow> (\<forall>(t, m) \<in> set hs. \<forall>(t', m') \<in> set hs. t \<noteq> t' \<longrightarrow> m = LOCK_SHARED \<and> m' = LOCK_SHARED)"

definition mutual_exclusion :: "lock_manager \<Rightarrow> bool" where
  "mutual_exclusion lm \<longleftrightarrow> (\<forall>r. exclusive_ok (holders r lm))"

text \<open>The scan for conflicts in terms of the holders, first to last.\<close>

fun conflict_holders :: "lock_mode \<Rightarrow> int \<Rightarrow> (int \<times> lock_mode) list \<Rightarrow> bool" where
  "conflict_holders m t [] = False"
| "conflict_holders m t ((t', m') # hs) =
     (if t' = t \<and> (m' = LOCK_EXCLUSIVE \<or> m = LOCK_SHARED) then False
      else m' = LOCK_EXCLUSIVE \<or> m = LOCK_EXCLUSIVE \<or> conflict_holders m t hs)"

lemma has_conflict_holders:
  assumes "wf_locks lm"
  shows "has_conflict r m t lm = conflict_holders m t (holders r lm)"
proof -
  have "conflict_in (entries_pool lm) r m t c = conflict_holders m t
      (map (\<lambda>i. (txn_id (entries_pool lm ! i), lock_mode (entries_pool lm ! i)))
        (filter (\<lambda>i. resource_id (entries_pool lm ! i) = r) c))"
    if "wf_chain (entries_pool lm) b c" for b c
    using that
  proof (induction c)
    case (Cons i c)
    then show ?case
      by (cases "lock_mode (entries_pool lm ! i)"; cases m) (auto simp: Let_def)
  qed simp
  from this[OF wf_locks_chain[OF assms]] show ?thesis by (simp add: has_conflict_def holders_def)
qed

lemma conflict_free_ok:
  "exclusive_ok hs \<Longrightarrow> \<not> conflict_holders m t hs \<Longrightarrow> exclusive_ok ((t, m) # hs)"
proof (induction hs)
  case (Cons h hs)
  obtain t' m' where h: "h = (t', m')" by fastforce
  have ok: "exclusive_ok hs" using Cons.prems(1) by (auto simp: exclusive_ok_def)
  show ?case
  proof (cases "t' = t \<and> (m' = LOCK_EXCLUSIVE \<or> m = LOCK_SHARED)")
    case True
    then show ?thesis using Cons.prems(1) by (auto simp: h exclusive_ok_def)
  next
    case False
    then have "m' \<noteq> LOCK_EXCLUSIVE" "m \<noteq> LOCK_EXCLUSIVE" "\<not> conflict_holders m t hs"
      using Cons.prems(2) by (auto simp: h)
    then show ?thesis
      using Cons.IH[OF ok] Cons.prems(1) by (cases m; cases m') (auto simp: h exclusive_ok_def)
  qed
qed (simp add: exclusive_ok_def)

lemma holders_cong:
  assumes "chain_of q lm' = chain_of q lm"
    and "\<And>i. i \<in> set (chain_of q lm) \<Longrightarrow>
      txn_id (entries_pool lm' ! i) = txn_id (entries_pool lm ! i) \<and>
      lock_mode (entries_pool lm' ! i) = lock_mode (entries_pool lm ! i) \<and>
      resource_id (entries_pool lm' ! i) = resource_id (entries_pool lm ! i)"
  shows "holders q lm' = holders q lm"
proof -
  have "filter (\<lambda>i. resource_id (entries_pool lm' ! i) = q) (chain_of q lm) =
      filter (\<lambda>i. resource_id (entries_pool lm ! i) = q) (chain_of q lm)"
    using assms(2) by (intro filter_cong) auto
  then show ?thesis using assms by (simp add: holders_def)
qed

lemma chain_less: "wf_locks lm \<Longrightarrow> i \<in> set (chain_of q lm) \<Longrightarrow> i < length (entries_pool lm)"
  using wf_locks_chain[of lm q] by (auto simp: wf_chain_def)

lemma chain_of_update:
  "wf_locks lm \<Longrightarrow> buckets lm' = (buckets lm)[hash_resource r := c] \<Longrightarrow>
   chain_of q lm' = (if hash_resource q = hash_resource r then c else chain_of q lm)"
  using hash_resource_less[of r] by (auto simp: chain_of_def nth_upd_if wf_locks_def)

lemma acquire_holders:
  assumes wf: "wf_locks lm"
  shows "fst (lm_lock_acquire t r m lm) \<longleftrightarrow>
      length (entries_pool lm) < LM_POOL_SIZE \<and> \<not> conflict_holders m t (holders r lm)"
    "holders q (snd (lm_lock_acquire t r m lm)) =
      (if fst (lm_lock_acquire t r m lm) \<and> q = r then (t, m) # holders q lm else holders q lm)"
proof -
  let ?p = "entries_pool lm" and ?n = "length (entries_pool lm)"
  have grant: "fst (lm_lock_acquire t r m lm) \<longleftrightarrow> ?n < LM_POOL_SIZE \<and> \<not> has_conflict r m t lm"
    by (auto simp: lm_lock_acquire_def alloc_entry_def Let_def split: option.split)
  then show "fst (lm_lock_acquire t r m lm) \<longleftrightarrow> ?n < LM_POOL_SIZE \<and> \<not> conflict_holders m t (holders r lm)"
    by (simp add: has_conflict_holders[OF wf])
  show "holders q (snd (lm_lock_acquire t r m lm)) =
      (if fst (lm_lock_acquire t r m lm) \<and> q = r then (t, m) # holders q lm else holders q lm)"
  proof (cases "fst (lm_lock_acquire t r m lm)")
    case True
    let ?lm = "lm\<lparr> entries_pool := ?p @ [new_entry t r m True] \<rparr>"
    have s: "snd (lm_lock_acquire t r m lm) = push_bucket (hash_resource r) ?n ?lm"
      using True grant by (simp add: lm_lock_acquire_def alloc_entry_def)
    have c: "chain_of q (push_bucket (hash_resource r) ?n ?lm) =
        (if hash_resource q = hash_resource r then ?n # chain_of q lm else chain_of q lm)"
      by (subst chain_of_update[OF wf, of _ r "?n # chain_of r lm"]) (auto simp: push_bucket_def chain_of_def)
    have old: "holders q ?lm = holders q lm"
      by (rule holders_cong) (use chain_less[OF wf] in \<open>auto simp: chain_of_def nth_append\<close>)
    have k: "chain_of q ?lm = chain_of q lm" "entries_pool (push_bucket (hash_resource r) ?n ?lm) = entries_pool ?lm"
      by (simp_all add: chain_of_def push_bucket_def)
    have "holders q (push_bucket (hash_resource r) ?n ?lm) = (if q = r then (t, m) # holders q ?lm else holders q ?lm)"
      unfolding holders_def c k by (auto simp: new_entry_def)
    then show ?thesis unfolding s old using True by simp
  next
    case False
    have "holders q (snd (lm_lock_acquire t r m lm)) = holders q lm"
    proof (cases "?n < LM_POOL_SIZE")
      case False
      then show ?thesis by (simp add: lm_lock_acquire_def alloc_entry_def)
    next
      case room: True
      with False grant have conf: "has_conflict r m t lm" by simp
      let ?p' = "?p @ [new_entry t r m False]"
      have k: "lm' = lm\<lparr> entries_pool := ?p' \<rparr> \<Longrightarrow> chain_of q lm' = chain_of q lm" for lm'
        by (simp add: chain_of_def)
      obtain h where h: "find (\<lambda>h. resource_id (?p' ! h) = r) (chain_of r lm) = Some h"
        by (rule conflict_head[OF wf conf])
      show ?thesis
        by (rule holders_cong)
          (use room conf h chain_less[OF wf] in \<open>auto simp: lm_lock_acquire_def alloc_entry_def upd_entry_def Let_def
             chain_of_def nth_upd_if nth_append simp del: queue_tail.simps\<close>)
    qed
    with False show ?thesis by simp
  qed
qed

text \<open>The waiter behind the entry a release unlinks.\<close>

definition waiter_behind :: "int \<Rightarrow> int \<Rightarrow> lock_manager \<Rightarrow> (int \<times> lock_mode) option" where
  "waiter_behind t r lm =
     (case find_granted_entry t r lm of
        None \<Rightarrow> None
      | Some i \<Rightarrow>
          (case queue_next (entries_pool lm ! i) of
             None \<Rightarrow> None
           | Some w \<Rightarrow> if granted (entries_pool lm ! w) then None
                       else Some (txn_id (entries_pool lm ! w), lock_mode (entries_pool lm ! w))))"

lemma find_as_idx: "find P xs = map_option ((!) xs) (find_idx P xs)"
  by (induction xs) (auto simp: option.map_comp comp_def)

lemma unlink_first_idx:
  "unlink_first P xs = (case find_idx P xs of None \<Rightarrow> xs | Some k \<Rightarrow> take k xs @ drop (Suc k) xs)"
proof (induction xs)
  case (Cons x xs)
  then show ?case by (cases "find_idx P xs") simp_all
qed simp

lemma unlink_first_filter_map:
  "(\<And>x. x \<in> set xs \<Longrightarrow> P x \<longleftrightarrow> F x \<and> Q (g x)) \<Longrightarrow>
   map g (filter F (unlink_first P xs)) = unlink_first Q (map g (filter F xs))"
  by (induction xs) auto

lemma release_holders:
  assumes wf: "wf_locks lm"
  shows "holders q (lm_lock_release t r lm) =
    (if q = r then (case waiter_behind t r lm of None \<Rightarrow> [] | Some h \<Rightarrow> [h]) @ unlink_first (\<lambda>h. fst h = t) (holders r lm)
     else holders q lm)"
proof -
  let ?p = "entries_pool lm" and ?c = "chain_of r lm"
  let ?P = "\<lambda>i. resource_id (?p ! i) = r \<and> txn_id (?p ! i) = t \<and> granted (?p ! i)"
  let ?g = "\<lambda>i. (txn_id (?p ! i), lock_mode (?p ! i))"
  have granted: "granted (?p ! i)" if "i \<in> set ?c" for i
    using that wf_locks_chain[OF wf, of r] by (auto simp: wf_chain_def)
  have rest: "map ?g (filter (\<lambda>i. resource_id (?p ! i) = r) (unlink_first ?P ?c)) =
      unlink_first (\<lambda>h. fst h = t) (holders r lm)"
    unfolding holders_def using granted by (intro unlink_first_filter_map) auto
  have found: "find_granted_entry t r lm = map_option ((!) ?c) (find_idx ?P ?c)"
    by (simp add: find_granted_entry_def find_as_idx conj_ac)
  show ?thesis
  proof (cases "find_idx ?P ?c")
    case None
    then have "unlink_first ?P ?c = ?c" by (simp add: unlink_first_idx)
    then have "unlink_first (\<lambda>h. fst h = t) (holders r lm) = holders r lm"
      using rest by (simp add: holders_def)
    then show ?thesis using None found by (simp add: lm_lock_release_def Let_def waiter_behind_def)
  next
    case (Some k)
    let ?i = "?c ! k" and ?c' = "unlink_first ?P ?c"
    note k = find_idx_SomeD(1,2)[OF Some]
    have i: "?i < length ?p" using chain_less[OF wf nth_mem[OF k(1)]] .
    have c': "take k ?c @ drop (Suc k) ?c = ?c'" using Some by (simp add: unlink_first_idx)
    have keep: "map ?g (filter (\<lambda>i. resource_id (?p ! i) = q) ?c') = map ?g (filter (\<lambda>i. resource_id (?p ! i) = q) ?c)" if "q \<noteq> r" for q
    proof -
      have "filter (\<lambda>i. resource_id (?p ! i) = q) (unlink_first ?P xs) = filter (\<lambda>i. resource_id (?p ! i) = q) xs" for xs
        using that by (induction xs) auto
      then show ?thesis by simp
    qed
    show ?thesis
    proof (cases "\<exists>w. queue_next (?p ! ?i) = Some w \<and> \<not> granted (?p ! w)")
      case False
      then have pr: "promote (queue_next (?p ! ?i)) ?p ?c' = (?p, ?c')"
        by (auto simp: promote_def split: option.split)
      then have rel: "lm_lock_release t r lm = lm\<lparr> entries_pool := ?p, buckets := (buckets lm)[hash_resource r := ?c'] \<rparr>"
        using Some c' by (simp add: lm_lock_release_def Let_def)
      have ch: "chain_of q (lm_lock_release t r lm) = (if hash_resource q = hash_resource r then ?c' else chain_of q lm)"
        by (rule chain_of_update[OF wf]) (simp add: rel)
      have w: "waiter_behind t r lm = None"
        using False Some found by (auto simp: waiter_behind_def split: option.split)
      show ?thesis
        unfolding holders_def ch using w rest keep[of q] by (auto simp: rel holders_def chain_of_def)
    next
      case True
      then obtain w where w: "queue_next (?p ! ?i) = Some w" "\<not> granted (?p ! w)" by blast
      note wq = queuesD[OF _ i w(1)]
      let ?p' = "?p[w := (?p ! w)\<lparr> granted := True \<rparr>]"
      have pr: "promote (queue_next (?p ! ?i)) ?p ?c' = (?p', w # ?c')" using w by (simp add: promote_def)
      have rel: "lm_lock_release t r lm = lm\<lparr> entries_pool := ?p', buckets := (buckets lm)[hash_resource r := w # ?c'] \<rparr>"
        using Some c' pr by (simp add: lm_lock_release_def Let_def)
      have ch: "chain_of q (lm_lock_release t r lm) = (if hash_resource q = hash_resource r then w # ?c' else chain_of q lm)"
        by (rule chain_of_update[OF wf]) (simp add: rel)
      have wr: "resource_id (?p ! w) = r" using wq(3) wf k(2) by (simp add: wf_locks_def)
      have same: "resource_id (?p' ! j) = resource_id (?p ! j)" "txn_id (?p' ! j) = txn_id (?p ! j)"
        "lock_mode (?p' ! j) = lock_mode (?p ! j)" for j
        by (simp_all add: nth_upd_if)
      have wb: "waiter_behind t r lm = Some (?g w)"
        using w Some found by (simp add: waiter_behind_def)
      show ?thesis
        unfolding holders_def ch using wb rest keep[of q] wr
        by (auto simp: rel same holders_def chain_of_def)
    qed
  qed
qed

lemma acquire_exclusion:
  assumes wf: "wf_locks lm" and ex: "mutual_exclusion lm"
  shows "mutual_exclusion (snd (lm_lock_acquire t r m lm))"
proof -
  have "exclusive_ok (holders q (snd (lm_lock_acquire t r m lm)))" for q
    using ex conflict_free_ok[of "holders r lm" m t] acquire_holders(1)[OF wf, of t r m]
    unfolding acquire_holders(2)[OF wf] by (auto simp: mutual_exclusion_def)
  then show ?thesis by (simp add: mutual_exclusion_def)
qed

lemma upgrade_holders:
  assumes wf: "wf_locks lm" and ex: "mutual_exclusion lm"
  shows "mutual_exclusion (snd (lm_lock_upgrade t r lm)) \<and>
    (fst (lm_lock_upgrade t r lm) \<longrightarrow>
       (t, LOCK_EXCLUSIVE) \<in> set (holders r (snd (lm_lock_upgrade t r lm))))"
proof (cases "find_granted_entry t r lm")
  case None
  then show ?thesis using ex by (simp add: lm_lock_upgrade_def)
next
  case (Some i)
  let ?p = "entries_pool lm"
  have i: "i \<in> set (chain_of r lm)" "txn_id (?p ! i) = t" "resource_id (?p ! i) = r"
    using Some by (auto simp: find_granted_entry_def find_Some_iff)
  have mem: "(t, lock_mode (?p ! i)) \<in> set (holders r lm)" using i by (force simp: holders_def)
  have exr: "exclusive_ok (holders r lm)" using ex by (simp add: mutual_exclusion_def)
  show ?thesis
  proof (cases "lock_mode (?p ! i)")
    case LOCK_EXCLUSIVE
    then show ?thesis using ex mem Some by (simp add: lm_lock_upgrade_def)
  next
    case LOCK_SHARED
    show ?thesis
    proof (cases "has_conflict r LOCK_EXCLUSIVE t lm \<and> other_holders t r lm > 0")
      case True
      then show ?thesis using ex Some LOCK_SHARED by (simp add: lm_lock_upgrade_def)
    next
      case False
      let ?lm = "upd_entry i (\<lambda>e. e\<lparr> lock_mode := LOCK_EXCLUSIVE \<rparr>) lm"
      have u: "lm_lock_upgrade t r lm = (True, ?lm)"
        using False Some LOCK_SHARED by (simp add: lm_lock_upgrade_def)
      have own: "t' = t" if h: "(t', m') \<in> set (holders r lm)" for t' m'
      proof (rule ccontr)
        assume ne: "t' \<noteq> t"
        then have sh: "m' = LOCK_SHARED" using exr mem h by (auto simp: exclusive_ok_def)
        obtain j where j: "j \<in> set (chain_of r lm)" "resource_id (?p ! j) = r" "txn_id (?p ! j) = t'" "lock_mode (?p ! j) = m'"
          using h by (auto simp: holders_def)
        then have "granted (?p ! j)" using wf_locks_chain[OF wf, of r] by (auto simp: wf_chain_def)
        then have "other_holders t r lm > 0"
          using j ne sh by (auto simp: other_holders_def filter_empty_conv)
        then have "\<not> conflict_holders LOCK_EXCLUSIVE t (holders r lm)"
          using False has_conflict_holders[OF wf] by simp
        from conflict_free_ok[OF exr this] h ne show False by (auto simp: exclusive_ok_def)
      qed
      have chain: "chain_of q ?lm = chain_of q lm" for q by (simp add: chain_of_def upd_entry_def)
      have nth: "entries_pool ?lm ! j = (if j = i \<and> i < length ?p then (?p ! i)\<lparr> lock_mode := LOCK_EXCLUSIVE \<rparr> else ?p ! j)" for j
        by (simp add: upd_entry_def nth_upd_if)
      have txns: "fst ` set (holders q ?lm) = fst ` set (holders q lm)" for q
      proof -
        have "txn_id (entries_pool ?lm ! j) = txn_id (?p ! j)" "resource_id (entries_pool ?lm ! j) = resource_id (?p ! j)" for j
          by (simp_all add: nth)
        then show ?thesis by (simp add: holders_def chain image_image)
      qed
      have others: "holders q ?lm = holders q lm" if "q \<noteq> r" for q
      proof -
        have "filter (\<lambda>j. resource_id (entries_pool ?lm ! j) = q) c = filter (\<lambda>j. resource_id (?p ! j) = q) c" for c
          by (auto simp: nth intro: filter_cong)
        moreover have "\<forall>j \<in> set (filter (\<lambda>j. resource_id (?p ! j) = q) c). entries_pool ?lm ! j = ?p ! j" for c
          using that i(3) by (auto simp: nth)
        ultimately show ?thesis unfolding holders_def chain by (auto intro!: map_cong)
      qed
      have "exclusive_ok (holders q ?lm)" for q
      proof (cases "q = r")
        case True
        have "fst ` set (holders r ?lm) \<subseteq> {t}" using txns[of r] own by auto
        then have "t' = t" if "(t', m') \<in> set (holders r ?lm)" for t' m' using that by force
        then show ?thesis using True by (auto simp: exclusive_ok_def)
      next
        case False
        then show ?thesis using ex others by (simp add: mutual_exclusion_def)
      qed
      moreover have "(t, LOCK_EXCLUSIVE) \<in> set (holders r ?lm)"
        using i chain_less[OF wf i(1)] by (force simp: holders_def chain nth)
      ultimately show ?thesis by (simp add: u mutual_exclusion_def)
    qed
  qed
qed

text \<open>
  C22. While the lock table gives every resource either one owner or shared holders only, acquiring
  and upgrading keep it so. An acquire succeeds exactly when no holder met by the scan conflicts
  (and the pool has room) and then adds the transaction as a holder; a refused one changes no
  holder. A release takes away the first entry of the transaction and keeps exclusion when no
  waiter is granted in its place or nobody else holds the resource.
\<close>

theorem lock_exclusion:
  assumes "reach fresh_locks lock_step lm" "mutual_exclusion lm"
  shows "(case lm_lock_acquire t r m lm of (ok, lm') \<Rightarrow>
       mutual_exclusion lm' \<and>
       ok = (length (entries_pool lm) < LM_POOL_SIZE \<and> \<not> conflict_holders m t (holders r lm)) \<and>
       (\<forall>q. holders q lm' = (if ok \<and> q = r then (t, m) # holders q lm else holders q lm))) \<and>
    (case lm_lock_upgrade t r lm of (ok, lm') \<Rightarrow>
       mutual_exclusion lm' \<and> (\<not> ok \<or> (t, LOCK_EXCLUSIVE) \<in> set (holders r lm'))) \<and>
    (let rest = unlink_first (\<lambda>h. fst h = t) (holders r lm); lm' = lm_lock_release t r lm in
       (waiter_behind t r lm = None \<longrightarrow> holders r lm' = rest) \<and>
       (waiter_behind t r lm = None \<or> rest = [] \<longrightarrow> mutual_exclusion lm'))"
proof -
  have wf: "wf_locks lm" by (rule lock_sys.reach_inv[OF assms(1)])
  have ex: "exclusive_ok (holders q lm)" for q using assms(2) by (simp add: mutual_exclusion_def)
  obtain ok lm' where a: "lm_lock_acquire t r m lm = (ok, lm')" by fastforce
  have acq: "ok \<longleftrightarrow> length (entries_pool lm) < LM_POOL_SIZE \<and> \<not> conflict_holders m t (holders r lm)"
    "\<And>q. holders q lm' = (if ok \<and> q = r then (t, m) # holders q lm else holders q lm)"
    using acquire_holders[OF wf, where t = t and r = r and m = m] a by simp_all
  have acq_ex: "mutual_exclusion lm'"
    using acquire_exclusion[OF wf assms(2), of t r m] a by simp
  have sub: "set (unlink_first P hs) \<subseteq> set hs" for P and hs :: "(int \<times> lock_mode) list"
    by (induction hs) auto
  have rel: "mutual_exclusion (lm_lock_release t r lm)"
    if "waiter_behind t r lm = None \<or> unlink_first (\<lambda>h. fst h = t) (holders r lm) = []"
  proof -
    have "exclusive_ok (unlink_first (\<lambda>h. fst h = t) (holders r lm))"
      using ex[of r] sub[of "\<lambda>h. fst h = t" "holders r lm"] unfolding exclusive_ok_def by blast
    moreover have "exclusive_ok [h]" for h by (simp add: exclusive_ok_def split: prod.split)
    ultimately show ?thesis
      using that ex by (cases "waiter_behind t r lm") (auto simp: mutual_exclusion_def release_holders[OF wf])
  qed
  obtain uok ulm where up: "lm_lock_upgrade t r lm = (uok, ulm)" by fastforce
  from upgrade_holders[OF wf assms(2), of t r] acq acq_ex rel show ?thesis
    by (auto simp: a up Let_def release_holders[OF wf])
qed

definition demo_locks :: lock_manager where
  "demo_locks = fold lock_step [Acquire 1 5 LOCK_SHARED, Acquire 2 5 LOCK_SHARED, Acquire 3 5 LOCK_EXCLUSIVE] lm_init"

lemma demo_locks_reach: "reach fresh_locks lock_step demo_locks"
  unfolding demo_locks_def by (intro reach_fold reach_init) (simp add: fresh_locks_def)

lemma init_exclusion: "mutual_exclusion lm_init"
  using hash_resource_less by (simp add: mutual_exclusion_def holders_def chain_of_def lm_init_def exclusive_ok_def)

lemma init_locks_reach: "reach fresh_locks lock_step lm_init"
  by (intro reach_init) (simp add: fresh_locks_def)

theorem lock_exclusion_witness: "mutual_exclusion (snd (lm_lock_acquire 1 5 LOCK_SHARED lm_init))"
  using lock_exclusion[OF init_locks_reach init_exclusion, where t = 1 and r = 5 and m = LOCK_SHARED] by (simp split: prod.splits)

text \<open>A table in which only the chain of resource 5 is not empty.\<close>

definition one_chain :: "lock_entry list \<Rightarrow> nat list \<Rightarrow> lock_manager" where
  "one_chain pool c = \<lparr> buckets = (replicate LM_NUM_BUCKETS [])[hash_resource 5 := c], entries_pool = pool \<rparr>"

lemma one_chain_simps [simp]:
  "chain_of 5 (one_chain pool c) = c" "entries_pool (one_chain pool c) = pool"
  "push_bucket (hash_resource 5) i (one_chain pool c) = one_chain pool (i # c)"
  "(one_chain pool c)\<lparr> entries_pool := pool' \<rparr> = one_chain pool' c"
  using hash_resource_less[of 5] by (simp_all add: one_chain_def chain_of_def push_bucket_def)

lemma lm_init_one_chain: "lm_init = one_chain [] []"
  unfolding lm_init_def one_chain_def
  by (auto intro!: nth_equalityI simp: nth_upd_if)

lemma demo_locks_eq:
  "demo_locks = one_chain
     [new_entry 1 5 LOCK_SHARED True,
      (new_entry 2 5 LOCK_SHARED True)\<lparr> queue_next := Some 2 \<rparr>,
      (new_entry 3 5 LOCK_EXCLUSIVE False)\<lparr> queue_prev := Some 1 \<rparr>] [1, 0]"
  by (simp add: demo_locks_def lm_init_one_chain lm_lock_acquire_def has_conflict_def alloc_entry_def
      LM_POOL_SIZE_def LM_NUM_BUCKETS_def new_entry_def upd_entry_def Let_def
      numeral_2_eq_2)

text \<open>
  Exclusion is not kept in general: with two shared holders and an exclusive waiter queued
  behind the later one, releasing the later one grants the exclusive lock while the other shared
  lock is still held.
\<close>

theorem release_grants_exclusive_early:
  "mutual_exclusion demo_locks \<and> \<not> mutual_exclusion (lm_lock_release 2 5 demo_locks) \<and>
   holders 5 (lm_lock_release 2 5 demo_locks) = [(3, LOCK_EXCLUSIVE), (1, LOCK_SHARED)]"
proof -
  have demo: "mutual_exclusion demo_locks"
    unfolding demo_locks_def using init_locks_reach init_exclusion
    by (auto intro!: acquire_exclusion acquire_wf dest: lock_sys.reach_inv)
  have h: "holders 5 demo_locks = [(2, LOCK_SHARED), (1, LOCK_SHARED)]" and w: "waiter_behind 2 5 demo_locks = Some (3, LOCK_EXCLUSIVE)"
    by (simp_all add: demo_locks_eq holders_def waiter_behind_def find_granted_entry_def new_entry_def)
  have "holders 5 (lm_lock_release 2 5 demo_locks) = [(3, LOCK_EXCLUSIVE), (1, LOCK_SHARED)]"
    using lock_sys.reach_inv[OF demo_locks_reach] by (simp add: release_holders h w)
  moreover from this have "\<not> exclusive_ok (holders 5 (lm_lock_release 2 5 demo_locks))"
    by (simp add: exclusive_ok_def)
  ultimately show ?thesis using demo unfolding mutual_exclusion_def by blast
qed

lemma waiters_never_in_chains:
  assumes "wf_locks lm" "b < LM_NUM_BUCKETS" "i \<in> set (buckets lm ! b)"
  shows "granted (entries_pool lm ! i)"
  using assms by (auto simp: wf_locks_def wf_chain_def)

text \<open>
  Waiting entries are never linked into a bucket, where the deadlock detector and the waiter
  count look for them: in every reachable state the detector reports no deadlock and the count of
  waiters of every resource is zero, although requests may be waiting for each other.
\<close>

theorem deadlock_never_reported:
  assumes "reach fresh_locks lock_step lm"
  shows "\<not> lm_detect_deadlock lm \<and> lm_count_waiters r lm = 0"
proof -
  have wf: "wf_locks lm" by (rule lock_sys.reach_inv[OF assms])
  then have g: "granted (entries_pool lm ! i)" if "chain \<in> set (buckets lm)" "i \<in> set chain" for i chain
    using that waiters_never_in_chains[OF wf] by (auto simp: in_set_conv_nth wf_locks_def)
  then have "\<not> lm_detect_deadlock lm" by (fastforce simp: lm_detect_deadlock_def list_ex_iff Let_def)
  moreover have "lm_count_waiters r lm = 0"
    using wf_locks_chain[OF wf, of r] by (auto simp: lm_count_waiters_def wf_chain_def filter_empty_conv)
  ultimately show ?thesis by simp
qed

definition demo_deadlock :: lock_manager where
  "demo_deadlock = fold lock_step [Acquire 1 5 LOCK_EXCLUSIVE, Acquire 2 6 LOCK_EXCLUSIVE,
     Acquire 1 6 LOCK_EXCLUSIVE, Acquire 2 5 LOCK_EXCLUSIVE] lm_init"

lemma demo_deadlock_reach: "reach fresh_locks lock_step demo_deadlock"
  unfolding demo_deadlock_def by (intro reach_fold reach_init) (simp add: fresh_locks_def)

theorem deadlock_never_reported_witness: "\<not> lm_detect_deadlock demo_deadlock"
  using deadlock_never_reported[OF demo_deadlock_reach] by simp

end
