(* ===== verification/Mvcc.thy ===== *)
theory Mvcc
  imports Codec_Base
begin

text \<open>
  The multi version concurrency control of \<open>mini-db-kernel\<close> (\<open>mvcc.h\<close>, \<open>mvcc.c\<close>). The static
  tables of active, committed and aborted transactions, 64 entries each, are lists (the count of
  the code is their length); a version chain is the list of its versions from the newest. \<open>malloc\<close>
  of a version succeeds: the code does not check it.
\<close>

definition MVCC_MAX_DATA_SIZE :: int where [c_consts]: "MVCC_MAX_DATA_SIZE = 256"
definition MVCC_MAX_TXNS :: nat where [c_consts]: "MVCC_MAX_TXNS = 64"

record tuple_version =
  txn_id_begin :: int
  txn_id_end :: int
  ver_data :: "byte list"
  data_size :: int

record mvcc_tuple =
  tuple_id :: int
  version_chain :: "tuple_version list"

record mvcc_transaction =
  snap_txn_id :: int
  snapshot_xmin :: int
  snapshot_xmax :: int
  snapshot_active_txns :: "int list"

record mvcc_state =
  next_txn_id :: int
  active_txns :: "int list"
  committed_txns :: "int list"
  aborted_txns :: "int list"

section \<open>Transactions\<close>

definition is_active :: "mvcc_state \<Rightarrow> int \<Rightarrow> bool" where
  "is_active s t \<longleftrightarrow> t \<in> set (active_txns s)"

definition is_committed :: "mvcc_state \<Rightarrow> int \<Rightarrow> bool" where
  "is_committed s t \<longleftrightarrow> t \<in> set (committed_txns s)"

definition is_aborted :: "mvcc_state \<Rightarrow> int \<Rightarrow> bool" where
  "is_aborted s t \<longleftrightarrow> t \<in> set (aborted_txns s)"

definition mvcc_init :: mvcc_state where
  "mvcc_init = \<lparr> next_txn_id = 1, active_txns = [], committed_txns = [], aborted_txns = [] \<rparr>"

text \<open>Adding to a table of bounded size, and removing by moving the last entry into the gap.\<close>

definition record_txn :: "int \<Rightarrow> int list \<Rightarrow> int list" where
  "record_txn t ts = (if length ts < MVCC_MAX_TXNS then ts @ [t] else ts)"

definition swap_remove :: "int \<Rightarrow> int list \<Rightarrow> int list" where
  "swap_remove t ts =
     (case find_idx (\<lambda>x. x = t) ts of None \<Rightarrow> ts | Some i \<Rightarrow> butlast (ts[i := last ts]))"

definition mvcc_begin :: "mvcc_state \<Rightarrow> int \<times> mvcc_state" where
  "mvcc_begin s =
     (let t = next_txn_id s
      in (t, s\<lparr> next_txn_id := t + 1, active_txns := record_txn t (active_txns s) \<rparr>))"

definition mvcc_commit :: "int \<Rightarrow> mvcc_state \<Rightarrow> mvcc_state" where
  "mvcc_commit t s =
     s\<lparr> active_txns := swap_remove t (active_txns s), committed_txns := record_txn t (committed_txns s) \<rparr>"

definition mvcc_abort :: "int \<Rightarrow> mvcc_state \<Rightarrow> mvcc_state" where
  "mvcc_abort t s =
     s\<lparr> active_txns := swap_remove t (active_txns s), aborted_txns := record_txn t (aborted_txns s) \<rparr>"

definition mvcc_get_snapshot :: "mvcc_state \<Rightarrow> int \<Rightarrow> mvcc_transaction" where
  "mvcc_get_snapshot s t =
     \<lparr> snap_txn_id = t, snapshot_xmin = next_txn_id s - 1, snapshot_xmax = next_txn_id s + 64,
       snapshot_active_txns = swap_remove t (active_txns s) \<rparr>"

section \<open>Versions\<close>

definition is_visible :: "mvcc_state \<Rightarrow> int \<Rightarrow> int \<Rightarrow> mvcc_transaction \<Rightarrow> bool" where
  "is_visible s vbegin vend snap =
     (if vbegin = snap_txn_id snap then vend = 0
      else if is_aborted s vbegin then False
      else if \<not> is_committed s vbegin then False
      else if vend \<noteq> 0 \<and> vend \<noteq> snap_txn_id snap \<and> is_committed s vend then False
      else True)"

text \<open>The bytes copied to the caller and the size reported, of the first visible version.\<close>

definition version_out :: "tuple_version \<Rightarrow> byte list \<times> int" where
  "version_out v =
     ((if data_size v > 0 then take (nat (min (data_size v) MVCC_MAX_DATA_SIZE)) (ver_data v) else []), data_size v)"

definition mvcc_read :: "mvcc_state \<Rightarrow> mvcc_tuple \<Rightarrow> int \<Rightarrow> (byte list \<times> int) option" where
  "mvcc_read s tup t =
     (let snap = mvcc_get_snapshot s t
      in map_option version_out
           (find (\<lambda>v. is_visible s (txn_id_begin v) (txn_id_end v) snap) (version_chain tup)))"

text \<open>
  The loop of \<open>mvcc_update\<close> sets the end of the newest open version of the transaction, and the
  statement after it resets it to zero.
\<close>

definition mark_end :: "int \<Rightarrow> int \<Rightarrow> tuple_version list \<Rightarrow> tuple_version list" where
  "mark_end t nxt vs =
     (case find_idx (\<lambda>v. txn_id_begin v = t \<and> txn_id_end v = 0) vs of
        None \<Rightarrow> vs
      | Some i \<Rightarrow>
          (let vs = vs[i := (vs ! i)\<lparr> txn_id_end := nxt \<rparr>]
           in if txn_id_begin (vs ! i) = t \<and> txn_id_end (vs ! i) \<noteq> 0
              then vs[i := (vs ! i)\<lparr> txn_id_end := 0 \<rparr>] else vs))"

definition new_version :: "int \<Rightarrow> byte list option \<Rightarrow> int \<Rightarrow> tuple_version" where
  "new_version t new_data new_size =
     (let size = (if new_size < MVCC_MAX_DATA_SIZE then new_size else MVCC_MAX_DATA_SIZE);
          zeros = replicate (nat MVCC_MAX_DATA_SIZE) 0
      in \<lparr> txn_id_begin = t, txn_id_end = 0,
           ver_data = (case new_data of
                         Some d \<Rightarrow> if new_size > 0 then take (nat size) d @ drop (nat size) zeros else zeros
                       | None \<Rightarrow> zeros),
           data_size = size \<rparr>)"

definition mvcc_update :: "mvcc_state \<Rightarrow> mvcc_tuple \<Rightarrow> int \<Rightarrow> byte list option \<Rightarrow> int \<Rightarrow> bool \<times> mvcc_tuple" where
  "mvcc_update s tup t new_data new_size =
     (if \<not> is_active s t then (False, tup)
      else (True, tup\<lparr> version_chain :=
              new_version t new_data new_size # mark_end t (next_txn_id s) (version_chain tup) \<rparr>))"

definition min_active :: "mvcc_state \<Rightarrow> int" where
  "min_active s = fold (\<lambda>a m. if a < m then a else m) (active_txns s) (next_txn_id s)"

definition dead_version :: "mvcc_state \<Rightarrow> tuple_version \<Rightarrow> bool" where
  "dead_version s v \<longleftrightarrow> txn_id_end v \<noteq> 0 \<and> txn_id_end v < min_active s \<and> is_committed s (txn_id_end v)"

text \<open>Unlinking every dead version of every chain, with the count of what was freed.\<close>

definition mvcc_gc :: "mvcc_state \<Rightarrow> mvcc_tuple list \<Rightarrow> int \<times> mvcc_tuple list" where
  "mvcc_gc s tuples =
     (int (\<Sum>tup \<leftarrow> tuples. length (filter (dead_version s) (version_chain tup))),
      map (\<lambda>tup. tup\<lparr> version_chain := filter (\<lambda>v. \<not> dead_version s v) (version_chain tup) \<rparr>) tuples)"

section \<open>A database of tuples\<close>

datatype mvcc_op =
    Begin | Commit int | Abort int | Update nat int "byte list option" int | Gc

fun mvcc_step :: "mvcc_op \<Rightarrow> mvcc_state \<times> mvcc_tuple list \<Rightarrow> mvcc_state \<times> mvcc_tuple list" where
  "mvcc_step Begin (s, db) = (snd (mvcc_begin s), db)"
| "mvcc_step (Commit t) (s, db) = (mvcc_commit t s, db)"
| "mvcc_step (Abort t) (s, db) = (mvcc_abort t s, db)"
| "mvcc_step (Update i t d n) (s, db) = (s, db[i := snd (mvcc_update s (db ! i) t d n)])"
| "mvcc_step Gc (s, db) = (s, snd (mvcc_gc s db))"

definition fresh_db :: "mvcc_state \<times> mvcc_tuple list \<Rightarrow> bool" where
  "fresh_db sdb \<longleftrightarrow> fst sdb = mvcc_init \<and> (\<forall>tup \<in> set (snd sdb). version_chain tup = [])"

text \<open>No version is ever ended; identifiers in use are below the next one.\<close>

definition open_chain :: "tuple_version list \<Rightarrow> bool" where
  "open_chain vs \<longleftrightarrow> (\<forall>v \<in> set vs. txn_id_end v = 0)"

definition wf_mvcc :: "mvcc_state \<times> mvcc_tuple list \<Rightarrow> bool" where
  "wf_mvcc sdb \<longleftrightarrow>
     0 < next_txn_id (fst sdb) \<and> distinct (active_txns (fst sdb)) \<and>
     (\<forall>t \<in> set (active_txns (fst sdb)). 0 < t \<and> t < next_txn_id (fst sdb)) \<and>
     length (active_txns (fst sdb)) \<le> MVCC_MAX_TXNS \<and>
     length (committed_txns (fst sdb)) \<le> MVCC_MAX_TXNS \<and> length (aborted_txns (fst sdb)) \<le> MVCC_MAX_TXNS \<and>
     (\<forall>tup \<in> set (snd sdb). open_chain (version_chain tup))"

lemma swap_remove_set:
  assumes "distinct ts"
  shows "set (swap_remove t ts) = set ts - {t} \<and> distinct (swap_remove t ts)"
proof (cases "find_idx (\<lambda>x. x = t) ts")
  case None
  then have "t \<notin> set ts" by (auto simp: find_idx_None_iff)
  then show ?thesis using assms None by (simp add: swap_remove_def)
next
  case (Some i)
  note i = find_idx_SomeD(1,2)[OF Some]
  then have ne: "ts \<noteq> []" by auto
  have sr: "swap_remove t ts = butlast (ts[i := last ts])" by (simp add: swap_remove_def Some)
  from ne obtain us l where ts: "ts = us @ [l]" by (metis append_butlast_last_id)
  show ?thesis
  proof (cases "i = length us")
    case True
    then have "butlast (ts[i := last ts]) = us" by (simp add: ts)
    then show ?thesis using assms i True unfolding sr by (auto simp: ts)
  next
    case False
    with i have lt: "i < length us" "us ! i = t" by (auto simp: ts nth_append)
    then have "us = take i us @ t # drop (Suc i) us" by (metis id_take_nth_drop)
    moreover have "butlast (ts[i := last ts]) = take i us @ l # drop (Suc i) us"
      using lt(1) by (simp add: ts list_update_append upd_conv_take_nth_drop butlast_append)
    moreover have "distinct (us @ [l])" using assms by (simp add: ts)
    ultimately obtain a b where "us = a @ t # b" "butlast (ts[i := last ts]) = a @ l # b" "distinct (us @ [l])"
      by blast
    then show ?thesis unfolding sr by (auto simp: ts)
  qed
qed

lemma swap_remove_length: "length (swap_remove t ts) \<le> length ts"
  by (auto simp: swap_remove_def split: option.split)

lemma record_txn_simps [simp]:
  "length (record_txn t ts) \<le> MVCC_MAX_TXNS \<longleftrightarrow> length ts \<le> MVCC_MAX_TXNS"
  "set (record_txn t ts) = (if length ts < MVCC_MAX_TXNS then insert t (set ts) else set ts)"
  "distinct (record_txn t ts) \<longleftrightarrow> distinct ts \<and> (length ts < MVCC_MAX_TXNS \<longrightarrow> t \<notin> set ts)"
  by (auto simp: record_txn_def)

lemma mark_end_open:
  assumes "open_chain vs"
  shows "mark_end t nxt vs = vs"
proof (cases "find_idx (\<lambda>v. txn_id_begin v = t \<and> txn_id_end v = 0) vs")
  case (Some i)
  then show ?thesis
    using find_idx_SomeD[OF Some] by (auto simp: mark_end_def Let_def nth_upd_if intro!: nth_equalityI)
qed (simp add: mark_end_def)

lemma update_open:
  "open_chain (version_chain tup) \<Longrightarrow> open_chain (version_chain (snd (mvcc_update s tup t d n)))"
  by (auto simp: mvcc_update_def mark_end_open) (auto simp: open_chain_def new_version_def Let_def)

lemma mvcc_end_wf:
  assumes "wf_mvcc (s, db)"
  shows "wf_mvcc (mvcc_commit t s, db)" "wf_mvcc (mvcc_abort t s, db)"
proof -
  have d: "distinct (active_txns s)" using assms by (simp add: wf_mvcc_def)
  show "wf_mvcc (mvcc_commit t s, db)" "wf_mvcc (mvcc_abort t s, db)"
    using assms swap_remove_set[OF d, of t] swap_remove_length[of t "active_txns s"]
    by (auto simp: wf_mvcc_def mvcc_commit_def mvcc_abort_def)
qed

interpretation mvcc_sys: invariant_system fresh_db mvcc_step wf_mvcc
proof unfold_locales
  fix s assume "fresh_db s"
  then show "wf_mvcc s" by (auto simp: fresh_db_def wf_mvcc_def mvcc_init_def open_chain_def)
next
  fix sdb op assume wf: "wf_mvcc sdb"
  obtain s db where sdb: "sdb = (s, db)" by fastforce
  show "wf_mvcc (mvcc_step op sdb)"
  proof (cases op)
    case (Update i t d n)
    show ?thesis
    proof (cases "i < length db")
      case True
      then have "open_chain (version_chain (snd (mvcc_update s (db ! i) t d n)))"
        using wf by (intro update_open) (simp add: sdb wf_mvcc_def)
      then show ?thesis using wf Update
        by (auto simp: sdb wf_mvcc_def dest!: set_update_subset_insert[THEN subsetD])
    next
      case False
      then show ?thesis using wf Update by (simp add: sdb list_update_beyond)
    qed
  next
    case Gc
    then show ?thesis using wf by (auto simp: sdb wf_mvcc_def mvcc_gc_def open_chain_def)
  next
    case Begin
    then show ?thesis using wf by (fastforce simp: sdb wf_mvcc_def mvcc_begin_def Let_def)
  qed (use wf mvcc_end_wf in \<open>auto simp: sdb\<close>)
qed

section \<open>What readers see\<close>

text \<open>A writer whose versions every reader sees.\<close>

definition settled :: "mvcc_state \<Rightarrow> int \<Rightarrow> bool" where
  "settled s t \<longleftrightarrow> is_committed s t \<and> \<not> is_aborted s t"

lemma visible_open:
  "txn_id_end v = 0 \<Longrightarrow> is_visible s (txn_id_begin v) (txn_id_end v) (mvcc_get_snapshot s t) \<longleftrightarrow>
   txn_id_begin v = t \<or> settled s (txn_id_begin v)"
  by (auto simp: is_visible_def mvcc_get_snapshot_def settled_def)

lemma find_cong: "(\<And>x. x \<in> set xs \<Longrightarrow> P x = Q x) \<Longrightarrow> find P xs = find Q xs"
  by (induction xs) auto

lemma read_open:
  assumes "open_chain (version_chain tup)"
  shows "mvcc_read s tup t =
    map_option version_out (find (\<lambda>v. txn_id_begin v = t \<or> settled s (txn_id_begin v)) (version_chain tup))"
  unfolding mvcc_read_def Let_def
  using assms by (intro arg_cong[where f = "map_option version_out"] find_cong visible_open) (simp add: open_chain_def)

lemma new_version_simps [simp]: "txn_id_begin (new_version t d n) = t" "txn_id_end (new_version t d n) = 0"
  by (simp_all add: new_version_def Let_def)

lemma reach_open:
  assumes "reach fresh_db mvcc_step (s, db)" "i < length db"
  shows "open_chain (version_chain (db ! i))"
  using mvcc_sys.reach_inv[OF assms(1)] assms(2) by (simp add: wf_mvcc_def)

text \<open>
  C23. In every reachable database a read returns the newest version the transaction wrote itself
  or whose writer has committed (and not aborted). An update by an active transaction succeeds,
  is what the transaction itself reads next, and is not seen by others while its writer has not
  committed; an update by any other transaction is refused and changes nothing.
\<close>

theorem mvcc_read_committed:
  assumes "reach fresh_db mvcc_step (s, db)" "i < length db"
  shows "mvcc_read s (db ! i) t =
      map_option version_out (find (\<lambda>v. txn_id_begin v = t \<or> settled s (txn_id_begin v)) (version_chain (db ! i))) \<and>
    (case mvcc_update s (db ! i) t d n of (ok, tup) \<Rightarrow>
       ok = is_active s t \<and>
       (if ok then mvcc_read s tup t = Some (version_out (new_version t d n)) \<and>
                   (\<forall>t'. t' = t \<or> settled s t \<or> mvcc_read s tup t' = mvcc_read s (db ! i) t')
        else tup = db ! i))"
proof -
  note o = reach_open[OF assms]
  show ?thesis
  proof (cases "is_active s t")
    case False
    then show ?thesis by (simp add: read_open[OF o] mvcc_update_def)
  next
    case True
    let ?tup = "(db ! i)\<lparr> version_chain := new_version t d n # version_chain (db ! i) \<rparr>"
    have u: "mvcc_update s (db ! i) t d n = (True, ?tup)"
      using True by (simp add: mvcc_update_def mark_end_open[OF o])
    have o': "open_chain (version_chain ?tup)" using o by (simp add: open_chain_def)
    show ?thesis using True unfolding u read_open[OF o] prod.case read_open[OF o'] by auto
  qed
qed

text \<open>
  Garbage collection frees nothing: since no version of a reachable database is ever ended
  (an update resets the end it has just set), the collector reports zero and leaves every chain.
\<close>

theorem mvcc_gc_frees_nothing:
  assumes "reach fresh_db mvcc_step (s, db)"
  shows "mvcc_gc s db = (0, db)"
proof -
  have "filter (dead_version s) (version_chain tup) = []" "filter (\<lambda>v. \<not> dead_version s v) (version_chain tup) = version_chain tup"
    if "tup \<in> set db" for tup
  proof -
    have "open_chain (version_chain tup)"
      using mvcc_sys.reach_inv[OF assms] \<open>tup \<in> set db\<close> by (simp add: wf_mvcc_def)
    then show "filter (dead_version s) (version_chain tup) = []" "filter (\<lambda>v. \<not> dead_version s v) (version_chain tup) = version_chain tup"
      by (auto simp: dead_version_def open_chain_def filter_empty_conv intro: filter_True)
  qed
  then show ?thesis by (simp add: mvcc_gc_def map_idI cong: map_cong)
qed

definition demo_db :: "mvcc_state \<times> mvcc_tuple list" where
  "demo_db = fold mvcc_step [Begin, Begin, Update 0 2 (Some [7]) 1]
     (mvcc_init, [\<lparr> tuple_id = 1, version_chain = [] \<rparr>])"

lemma demo_db_reach: "reach fresh_db mvcc_step demo_db"
  unfolding demo_db_def by (intro reach_fold reach_init) (simp add: fresh_db_def)

lemma demo_db_eq:
  "demo_db = (\<lparr> next_txn_id = 3, active_txns = [1, 2], committed_txns = [], aborted_txns = [] \<rparr>,
     [\<lparr> tuple_id = 1, version_chain = [new_version 2 (Some [7]) 1] \<rparr>])"
  by (simp add: demo_db_def mvcc_init_def mvcc_begin_def record_txn_def MVCC_MAX_TXNS_def mvcc_update_def is_active_def
      mark_end_def Let_def)

theorem mvcc_read_committed_witness: "mvcc_read (fst demo_db) (snd demo_db ! 0) 1 = None"
proof -
  have "reach fresh_db mvcc_step (fst demo_db, snd demo_db)" "0 < length (snd demo_db)"
    using demo_db_reach by (simp_all add: demo_db_eq)
  from mvcc_read_committed[OF this, of 1] show ?thesis
    by (simp add: demo_db_eq settled_def is_committed_def)
qed

theorem mvcc_gc_frees_nothing_witness: "fst (mvcc_gc (fst demo_db) (snd demo_db)) = 0"
proof -
  have "reach fresh_db mvcc_step (fst demo_db, snd demo_db)" using demo_db_reach by simp
  from mvcc_gc_frees_nothing[OF this] show ?thesis by simp
qed

text \<open>
  Reads are not from a snapshot: a transaction that read nothing sees, on its next read, what
  a concurrent transaction that was active when it began has written and committed meanwhile.
\<close>

theorem mvcc_read_not_snapshot:
  "mvcc_read (fst demo_db) (snd demo_db ! 0) 1 = None \<and>
   2 \<in> set (snapshot_active_txns (mvcc_get_snapshot (fst demo_db) 1)) \<and>
   mvcc_read (fst (mvcc_step (Commit 2) demo_db)) (snd (mvcc_step (Commit 2) demo_db) ! 0) 1 = Some ([7], 1)"
  by (simp add: demo_db_eq mvcc_read_def mvcc_get_snapshot_def is_visible_def is_committed_def is_aborted_def
      swap_remove_def mvcc_commit_def record_txn_def MVCC_MAX_TXNS_def MVCC_MAX_DATA_SIZE_def Let_def
      version_out_def new_version_def)

text \<open>
  A commit beyond the table is lost: once 64 transactions have committed, committing another
  one changes nothing any other transaction reads.
\<close>

theorem commit_table_full:
  assumes "MVCC_MAX_TXNS \<le> length (committed_txns s)" "t' \<noteq> t"
  shows "mvcc_read (mvcc_commit t s) tup t' = mvcc_read s tup t'"
proof -
  have "is_visible (mvcc_commit t s) b e (mvcc_get_snapshot (mvcc_commit t s) t') = is_visible s b e (mvcc_get_snapshot s t')" for b e
    using assms(1) by (simp add: is_visible_def mvcc_get_snapshot_def mvcc_commit_def is_committed_def is_aborted_def
        record_txn_def)
  then show ?thesis by (simp add: mvcc_read_def Let_def)
qed

definition full_commits :: mvcc_state where
  "full_commits = mvcc_init\<lparr> committed_txns := replicate 64 1 \<rparr>"

theorem commit_table_full_witness:
  "mvcc_read (mvcc_commit 70 full_commits) \<lparr> tuple_id = 1, version_chain = [new_version 70 None 0] \<rparr> 71 =
   mvcc_read full_commits \<lparr> tuple_id = 1, version_chain = [new_version 70 None 0] \<rparr> 71"
  by (rule commit_table_full) (simp_all add: full_commits_def MVCC_MAX_TXNS_def)

end
