(* ===== verification/Wal.thy ===== *)
theory Wal
  imports Codec_Base
begin

text \<open>
  The write ahead log of \<open>mini-db-kernel\<close> (\<open>wal.h\<close>, \<open>wal.c\<close>): an array of records in memory that
  doubles when full, log sequence numbers from 1, the flush and checkpoint marks, and the three
  recovery passes, which only print what they would do. The model of recovery is the list of
  lines it prints; of the page images it keeps the bytes that are copied. \<open>malloc\<close> and \<open>realloc\<close>
  succeed: the code does not check them.
\<close>

definition WAL_MAX_RECORDS :: nat where [c_consts]: "WAL_MAX_RECORDS = 10000"
definition WAL_PAGE_SIZE :: int where [c_consts]: "WAL_PAGE_SIZE = 4096"
definition TXN_TABLE_CAPACITY :: nat where [c_consts]: "TXN_TABLE_CAPACITY = 256"

datatype wal_record_type =
    WAL_INSERT | WAL_UPDATE | WAL_DELETE | WAL_COMMIT | WAL_ABORT | WAL_BEGIN_CHECKPOINT

record wal_record =
  rec_lsn :: int
  rec_type :: wal_record_type
  rec_page_id :: int
  rec_offset :: int
  rec_txn_id :: int
  before_data :: "byte list"
  after_data :: "byte list"
  before_size :: int
  after_size :: int

record wal_manager =
  wal_records :: "wal_record list"
  wal_capacity :: nat
  next_lsn :: int
  flush_lsn :: int
  checkpoint_lsn :: int

section \<open>Writing\<close>

definition wal_init :: wal_manager where
  "wal_init = \<lparr> wal_records = [], wal_capacity = WAL_MAX_RECORDS, next_lsn = 1, flush_lsn = 0, checkpoint_lsn = 0 \<rparr>"

text \<open>A page image: the bytes copied into the record and the size stored with them.\<close>

definition page_image :: "byte list option \<Rightarrow> int \<Rightarrow> byte list \<times> int" where
  "page_image img sz =
     (case img of
        Some bs \<Rightarrow> if sz > 0 then (take (nat (if sz < WAL_PAGE_SIZE then sz else WAL_PAGE_SIZE)) bs, sz) else ([], 0)
      | None \<Rightarrow> ([], 0))"

definition wal_write ::
  "wal_record_type \<Rightarrow> int \<Rightarrow> int \<Rightarrow> int \<Rightarrow> byte list option \<Rightarrow> int \<Rightarrow> byte list option \<Rightarrow> int \<Rightarrow>
   wal_manager \<Rightarrow> int \<times> wal_manager" where
  "wal_write type pid off txn before bsize after asize wm =
     (let wm = (if length (wal_records wm) \<ge> wal_capacity wm
                then wm\<lparr> wal_capacity := wal_capacity wm * 2 \<rparr> else wm);
          (bdata, bsize) = page_image before bsize;
          (adata, asize) = page_image after asize;
          r = \<lparr> rec_lsn = next_lsn wm, rec_type = type, rec_page_id = pid, rec_offset = off, rec_txn_id = txn,
                before_data = bdata, after_data = adata, before_size = bsize, after_size = asize \<rparr>
      in (rec_lsn r, wm\<lparr> next_lsn := next_lsn wm + 1, wal_records := wal_records wm @ [r] \<rparr>))"

definition wal_flush :: "int \<Rightarrow> wal_manager \<Rightarrow> wal_manager" where
  "wal_flush lsn wm =
     wm\<lparr> flush_lsn :=
           fold (\<lambda>r m. if rec_lsn r \<le> lsn \<and> rec_lsn r > m then rec_lsn r else m) (wal_records wm) (flush_lsn wm) \<rparr>"

definition wal_checkpoint :: "wal_manager \<Rightarrow> wal_manager" where
  "wal_checkpoint wm =
     (let wm = wm\<lparr> checkpoint_lsn := flush_lsn wm \<rparr>
      in snd (wal_write WAL_BEGIN_CHECKPOINT (-1) 0 (-1) None 0 None 0 wm))"

section \<open>Recovery\<close>

type_synonym txn_table = "(int \<times> bool) list"

definition txn_table_set :: "int \<Rightarrow> bool \<Rightarrow> txn_table \<Rightarrow> txn_table" where
  "txn_table_set t c tt =
     (case find_idx (\<lambda>e. fst e = t) tt of
        Some i \<Rightarrow> tt[i := (t, c)]
      | None \<Rightarrow> if length tt < TXN_TABLE_CAPACITY then tt @ [(t, c)] else tt)"

definition txn_table_is_committed :: "int \<Rightarrow> txn_table \<Rightarrow> bool" where
  "txn_table_is_committed t tt = (case tab_get fst t tt of Some e \<Rightarrow> snd e | None \<Rightarrow> False)"

datatype recovery_line =
    Saw_Commit int int | Saw_Abort int int
  | Redo int wal_record_type int int | Undo int wal_record_type int int

definition is_data_record :: "wal_record \<Rightarrow> bool" where
  "is_data_record r \<longleftrightarrow> rec_type r \<in> {WAL_INSERT, WAL_UPDATE, WAL_DELETE}"

fun analysis :: "wal_record list \<Rightarrow> txn_table \<Rightarrow> recovery_line list \<times> txn_table" where
  "analysis [] tt = ([], tt)"
| "analysis (r # rs) tt =
     (if rec_type r = WAL_COMMIT then
        (let (ls, tt) = analysis rs (txn_table_set (rec_txn_id r) True tt) in (Saw_Commit (rec_lsn r) (rec_txn_id r) # ls, tt))
      else if rec_type r = WAL_ABORT then
        (let (ls, tt) = analysis rs (txn_table_set (rec_txn_id r) False tt) in (Saw_Abort (rec_lsn r) (rec_txn_id r) # ls, tt))
      else analysis rs tt)"

definition redo_pass :: "txn_table \<Rightarrow> wal_record list \<Rightarrow> recovery_line list" where
  "redo_pass tt rs =
     map (\<lambda>r. Redo (rec_lsn r) (rec_type r) (rec_page_id r) (rec_txn_id r))
       (filter (\<lambda>r. is_data_record r \<and> txn_table_is_committed (rec_txn_id r) tt) rs)"

definition undo_pass :: "txn_table \<Rightarrow> wal_record list \<Rightarrow> recovery_line list" where
  "undo_pass tt rs =
     map (\<lambda>r. Undo (rec_lsn r) (rec_type r) (rec_page_id r) (rec_txn_id r))
       (filter (\<lambda>r. is_data_record r \<and> \<not> txn_table_is_committed (rec_txn_id r) tt) (rev rs))"

definition wal_recover :: "wal_manager \<Rightarrow> recovery_line list" where
  "wal_recover wm =
     (if wal_records wm = [] then []
      else (let (ls, tt) = analysis (wal_records wm) []
            in ls @ redo_pass tt (wal_records wm) @ undo_pass tt (wal_records wm)))"

section \<open>Log sequence numbers\<close>

datatype wal_op =
    Write wal_record_type int int int "byte list option" int "byte list option" int | Flush int | Checkpoint

fun wal_step :: "wal_op \<Rightarrow> wal_manager \<Rightarrow> wal_manager" where
  "wal_step (Write ty p off t b bs a as) wm = snd (wal_write ty p off t b bs a as wm)"
| "wal_step (Flush lsn) wm = wal_flush lsn wm"
| "wal_step Checkpoint wm = wal_checkpoint wm"

definition fresh_wal :: "wal_manager \<Rightarrow> bool" where
  "fresh_wal wm \<longleftrightarrow> wm = wal_init"

definition wf_wal :: "wal_manager \<Rightarrow> bool" where
  "wf_wal wm \<longleftrightarrow>
     map rec_lsn (wal_records wm) = map int [1..<Suc (length (wal_records wm))] \<and>
     next_lsn wm = int (length (wal_records wm)) + 1 \<and>
     length (wal_records wm) \<le> wal_capacity wm \<and> 0 < wal_capacity wm \<and>
     0 \<le> checkpoint_lsn wm \<and> checkpoint_lsn wm \<le> flush_lsn wm \<and> flush_lsn wm < next_lsn wm"

lemma wal_write_wf:
  assumes "wf_wal wm"
  shows "wf_wal (snd (wal_write ty p off t b bs a as wm))"
    and "fst (wal_write ty p off t b bs a as wm) = int (length (wal_records wm)) + 1"
  using assms by (simp_all add: wf_wal_def wal_write_def Let_def split: prod.split)

text \<open>The highest number the scan of \<open>wal_flush\<close> finds.\<close>

lemma flush_scan:
  "0 \<le> m \<Longrightarrow> fold (\<lambda>x m. if x \<le> lsn \<and> x > m then x else m) (map int [1..<Suc n]) m = max m (min lsn (int n))"
  by (induction n) auto

lemma flush_lsn_eq:
  assumes "wf_wal wm"
  shows "flush_lsn (wal_flush lsn wm) = max (flush_lsn wm) (min lsn (int (length (wal_records wm))))"
proof -
  have "flush_lsn (wal_flush lsn wm) =
      fold (\<lambda>x m. if x \<le> lsn \<and> x > m then x else m) (map rec_lsn (wal_records wm)) (flush_lsn wm)"
    by (simp add: wal_flush_def fold_map comp_def)
  with assms flush_scan[of "flush_lsn wm"] show ?thesis by (simp add: wf_wal_def del: upt_Suc)
qed

lemma wal_flush_wf: "wf_wal wm \<Longrightarrow> wf_wal (wal_flush lsn wm)"
  using flush_lsn_eq[of wm lsn] by (auto simp: wf_wal_def wal_flush_def simp del: upt_Suc)

lemma wal_checkpoint_wf: "wf_wal wm \<Longrightarrow> wf_wal (wal_checkpoint wm)"
  unfolding wal_checkpoint_def Let_def by (intro wal_write_wf) (simp add: wf_wal_def)

interpretation wal_sys: monotone_system fresh_wal wal_step wf_wal flush_lsn
proof unfold_locales
  fix s assume "fresh_wal s"
  then show "wf_wal s" by (simp add: fresh_wal_def wf_wal_def wal_init_def WAL_MAX_RECORDS_def)
next
  fix s op assume "wf_wal s"
  then show "wf_wal (wal_step op s)"
    by (cases op) (simp_all add: wal_write_wf wal_flush_wf wal_checkpoint_wf)
next
  fix s op assume "wf_wal s"
  then show "flush_lsn s \<le> flush_lsn (wal_step op s)"
    by (cases op) (simp_all add: flush_lsn_eq, simp_all add: wal_checkpoint_def wal_write_def Let_def split: prod.split)
qed

text \<open>
  In every reachable log the sequence numbers are 1, 2, 3 and so on in the order of writing, a
  write returns the next one, the array always has room, and the marks are ordered:
  checkpoint, flushed, next. A flush up to a number moves the flushed mark to that number, or to
  the last record when it is beyond, and never back.
\<close>

theorem wal_numbering:
  assumes "reach fresh_wal wal_step wm"
  shows "map rec_lsn (wal_records wm) = map int [1..<Suc (length (wal_records wm))] \<and>
    fst (wal_write ty p off t b bs a as wm) = int (length (wal_records wm)) + 1 \<and>
    length (wal_records wm) \<le> wal_capacity wm \<and>
    checkpoint_lsn wm \<le> flush_lsn wm \<and> flush_lsn wm < next_lsn wm \<and>
    flush_lsn (wal_flush lsn wm) = max (flush_lsn wm) (min lsn (int (length (wal_records wm))))"
proof -
  have wf: "wf_wal wm" by (rule wal_sys.reach_inv[OF assms])
  from wf wal_write_wf(2)[OF wf] flush_lsn_eq[OF wf] show ?thesis by (simp add: wf_wal_def del: upt_Suc)
qed

definition demo_wal :: wal_manager where
  "demo_wal = fold wal_step [Write WAL_INSERT 3 0 1 None 0 (Some [1, 2]) 2, Write WAL_UPDATE 4 0 2 None 0 None 0,
     Write WAL_COMMIT 0 0 1 None 0 None 0] wal_init"

lemma demo_wal_reach: "reach fresh_wal wal_step demo_wal"
  unfolding demo_wal_def by (intro reach_fold reach_init) (simp add: fresh_wal_def)

theorem wal_numbering_witness: "map rec_lsn (wal_records demo_wal) = [1, 2, 3]"
proof -
  have "length (wal_records demo_wal) = 3"
    by (simp add: demo_wal_def wal_init_def wal_write_def WAL_MAX_RECORDS_def Let_def page_image_def WAL_PAGE_SIZE_def)
  moreover have "map int [1..<Suc 3] = [1, 2, 3]" by (simp add: upt_rec)
  ultimately show ?thesis using wal_numbering[OF demo_wal_reach] by (metis numeral_3_eq_3)
qed

section \<open>What recovery redoes and undoes\<close>

definition finishes :: "wal_record \<Rightarrow> bool" where
  "finishes r \<longleftrightarrow> rec_type r = WAL_COMMIT \<or> rec_type r = WAL_ABORT"

text \<open>The fate of a transaction: what the last of its commit and abort records says.\<close>

definition outcome_in :: "wal_record list \<Rightarrow> int \<Rightarrow> bool option" where
  "outcome_in rs t =
     map_option (\<lambda>r. rec_type r = WAL_COMMIT) (find (\<lambda>r. finishes r \<and> rec_txn_id r = t) (rev rs))"

definition finished :: "wal_record list \<Rightarrow> int set" where
  "finished rs = rec_txn_id ` set (filter finishes rs)"

text \<open>The table after the analysis pass, as one step per record.\<close>

definition note_record :: "wal_record \<Rightarrow> txn_table \<Rightarrow> txn_table" where
  "note_record r tt = (if finishes r then txn_table_set (rec_txn_id r) (rec_type r = WAL_COMMIT) tt else tt)"

lemma analysis_table: "snd (analysis rs tt) = fold note_record rs tt"
  by (induction rs tt rule: analysis.induct) (auto simp: note_record_def finishes_def Let_def split: prod.split)

lemma txn_table_set_room:
  assumes "distinct (map fst tt)" "t \<in> fst ` set tt \<or> length tt < TXN_TABLE_CAPACITY"
  shows "distinct (map fst (txn_table_set t c tt)) \<and> fst ` set (txn_table_set t c tt) = insert t (fst ` set tt) \<and>
    tab_get fst u (txn_table_set t c tt) = (if u = t then Some (t, c) else tab_get fst u tt)"
proof (cases "find_idx (\<lambda>e. fst e = t) tt")
  case None
  then have t: "t \<notin> fst ` set tt" by (auto simp: find_idx_None_iff)
  then have "tab_get fst t tt = None" by (simp add: tab_get_None_iff)
  with t None assms show ?thesis
    by (auto simp: txn_table_set_def tab_get_snoc split: option.split)
next
  case (Some i)
  note i = find_idx_SomeD(1,2)[OF Some]
  have m: "map fst (tt[i := (t, c)]) = map fst tt" using i by (intro map_update_same) auto
  then have "fst ` set (tt[i := (t, c)]) = fst ` set tt" by (metis set_map)
  moreover have "t \<in> fst ` set tt" using i by (metis image_eqI nth_mem)
  moreover have "tab_get fst u (tt[i := (t, c)]) = (if u = t then Some (t, c) else tab_get fst u tt)"
    by (rule tab_get_update[OF Some]) simp
  ultimately show ?thesis using m assms by (auto simp: txn_table_set_def Some)
qed

lemma table_outcomes:
  assumes "card (finished rs) \<le> TXN_TABLE_CAPACITY"
  shows "distinct (map fst (fold note_record rs [])) \<and> fst ` set (fold note_record rs []) = finished rs \<and>
    (\<forall>t. map_option snd (tab_get fst t (fold note_record rs [])) = outcome_in rs t)"
  using assms
proof (induction rs rule: rev_induct)
  case Nil
  then show ?case by (simp add: finished_def outcome_in_def)
next
  case (snoc r rs)
  let ?tt = "fold note_record rs []"
  have fin: "finite (finished (rs @ [r]))" by (simp add: finished_def)
  have sub: "finished rs \<subseteq> finished (rs @ [r])" by (auto simp: finished_def)
  then have "card (finished rs) \<le> TXN_TABLE_CAPACITY"
    using snoc.prems card_mono[OF fin sub] by simp
  note IH = snoc.IH[OF this]
  show ?case
  proof (cases "finishes r")
    case False
    then show ?thesis using IH by (simp add: note_record_def finished_def outcome_in_def)
  next
    case True
    have f: "finished (rs @ [r]) = insert (rec_txn_id r) (finished rs)" using True by (simp add: finished_def)
    have "length ?tt = card (finished rs)" using IH by (metis distinct_card length_map set_map)
    then have room: "rec_txn_id r \<in> fst ` set ?tt \<or> length ?tt < TXN_TABLE_CAPACITY"
      using IH f snoc.prems fin by (cases "rec_txn_id r \<in> finished rs") (auto simp: finished_def)
    from IH have "distinct (map fst ?tt)" by blast
    note set = txn_table_set_room[OF this room]
    have step: "fold note_record (rs @ [r]) [] = txn_table_set (rec_txn_id r) (rec_type r = WAL_COMMIT) ?tt"
      using True by (simp add: note_record_def)
    have out: "outcome_in (rs @ [r]) t =
        (if t = rec_txn_id r then Some (rec_type r = WAL_COMMIT) else outcome_in rs t)" for t
      using True by (simp add: outcome_in_def)
    show ?thesis unfolding step out f using IH set by simp
  qed
qed

text \<open>
  C24. Recovery of a log in which at most 256 transactions committed or aborted redoes exactly the
  data records of the transactions whose last such record is a commit, in log order, and undoes
  the data records of all others from the end of the log back.
\<close>

theorem recovery_redo_undo:
  assumes "card (finished (wal_records wm)) \<le> TXN_TABLE_CAPACITY" "wal_records wm \<noteq> []"
  shows "\<exists>seen. wal_recover wm =
      seen @
      map (\<lambda>r. Redo (rec_lsn r) (rec_type r) (rec_page_id r) (rec_txn_id r))
        (filter (\<lambda>r. is_data_record r \<and> outcome_in (wal_records wm) (rec_txn_id r) = Some True) (wal_records wm)) @
      map (\<lambda>r. Undo (rec_lsn r) (rec_type r) (rec_page_id r) (rec_txn_id r))
        (rev (filter (\<lambda>r. is_data_record r \<and> outcome_in (wal_records wm) (rec_txn_id r) \<noteq> Some True) (wal_records wm))) \<and>
      length seen = length (filter finishes (wal_records wm))"
proof -
  let ?rs = "wal_records wm" and ?tt = "fold note_record (wal_records wm) []"
  have comm: "txn_table_is_committed t ?tt \<longleftrightarrow> outcome_in ?rs t = Some True" for t
  proof -
    have "outcome_in ?rs t = map_option snd (tab_get fst t ?tt)" using table_outcomes[OF assms(1)] by simp
    then show ?thesis by (cases "tab_get fst t ?tt") (simp_all add: txn_table_is_committed_def)
  qed
  have seen: "length (fst (analysis rs tt)) = length (filter finishes rs)" for rs tt
    by (induction rs tt rule: analysis.induct) (auto simp: finishes_def Let_def split: prod.split)
  obtain ls tt where a: "analysis ?rs [] = (ls, tt)" by fastforce
  then have tt: "tt = ?tt" using analysis_table[of ?rs "[]"] by simp
  have "wal_recover wm = ls @ redo_pass ?tt ?rs @ undo_pass ?tt ?rs"
    using assms(2) by (simp add: wal_recover_def a tt)
  moreover have "length ls = length (filter finishes ?rs)" using seen[of ?rs "[]"] by (simp add: a)
  ultimately show ?thesis by (auto simp: redo_pass_def undo_pass_def comm rev_filter)
qed

theorem recovery_redo_undo_witness:
  "\<exists>seen. wal_recover demo_wal = seen @ [Redo 1 WAL_INSERT 3 1, Undo 2 WAL_UPDATE 4 2]"
proof -
  have r: "wal_records demo_wal \<noteq> []" "finished (wal_records demo_wal) = {1}"
    "filter (\<lambda>r. is_data_record r \<and> outcome_in (wal_records demo_wal) (rec_txn_id r) = Some True) (wal_records demo_wal) = [wal_records demo_wal ! 0]"
    "filter (\<lambda>r. is_data_record r \<and> outcome_in (wal_records demo_wal) (rec_txn_id r) \<noteq> Some True) (wal_records demo_wal) = [wal_records demo_wal ! 1]"
    by (simp_all add: demo_wal_def wal_init_def wal_write_def WAL_MAX_RECORDS_def Let_def page_image_def WAL_PAGE_SIZE_def
        finished_def finishes_def is_data_record_def outcome_in_def)
  have n: "wal_records demo_wal ! 0 = \<lparr> rec_lsn = 1, rec_type = WAL_INSERT, rec_page_id = 3, rec_offset = 0, rec_txn_id = 1,
      before_data = [], after_data = [1, 2], before_size = 0, after_size = 2 \<rparr>"
    "wal_records demo_wal ! 1 = \<lparr> rec_lsn = 2, rec_type = WAL_UPDATE, rec_page_id = 4, rec_offset = 0, rec_txn_id = 2,
      before_data = [], after_data = [], before_size = 0, after_size = 0 \<rparr>"
    by (simp_all add: demo_wal_def wal_init_def wal_write_def WAL_MAX_RECORDS_def Let_def page_image_def WAL_PAGE_SIZE_def)
  have c: "card (finished (wal_records demo_wal)) \<le> TXN_TABLE_CAPACITY" by (simp add: r TXN_TABLE_CAPACITY_def)
  from recovery_redo_undo[OF c r(1)] show ?thesis unfolding r n by auto
qed

end
