(* ===== verification/Block_Cache.thy ===== *)
theory Block_Cache
  imports Chained_Table Codec_Base
begin

text \<open>
  The block cache of \<open>mini-file-storage\<close> (\<open>block_cache.h\<close>, \<open>block_cache.c\<close>): entries on the heap,
  reachable both through the chains of a hash table and through the LRU list. A pointer to an
  entry is a number, \<open>heap\<close> maps the live ones to entries and \<open>fresh_ptr\<close> is the next one an
  allocation returns; chains and the LRU list (from \<open>lru_head\<close>) are lists of pointers. Whether an
  allocation succeeds is a parameter of \<open>bcache_put\<close>. The key of an entry is the list of its
  first \<open>key_len\<close> bytes.
\<close>

definition BCACHE_DEFAULT_CAPACITY :: nat where [c_consts]: "BCACHE_DEFAULT_CAPACITY = 128"
definition BCACHE_MAX_KEY_SIZE :: nat where [c_consts]: "BCACHE_MAX_KEY_SIZE = 256"

record bcache_entry =
  be_key :: "byte list"
  be_data :: "byte list option"
  data_size :: nat
  access_count :: "64 word"
  access_timestamp :: "64 word"

record block_cache =
  heap :: "nat \<rightharpoonup> bcache_entry"
  fresh_ptr :: nat
  hash_table :: "nat list list"
  hash_buckets :: nat
  lru :: "nat list"
  capacity :: nat
  bsize :: nat
  hits :: "64 word"
  misses :: "64 word"
  evictions :: "64 word"

section \<open>Hash\<close>

definition hash_byte :: "byte \<Rightarrow> 32 word \<Rightarrow> 32 word" where
  "hash_byte b h =
     (let k = ucast b * 0xCC9E2D51;
          k = push_bit 15 k OR drop_bit (32 - 15) k;
          k = k * 0x1B873593;
          h = h XOR k;
          h = push_bit 13 h OR drop_bit (32 - 13) h
      in h * 5 + 0xE6546B64)"

definition bcache_hash :: "byte list \<Rightarrow> 32 word \<Rightarrow> 32 word" where
  "bcache_hash key seed =
     (let h = fold hash_byte key seed;
          h = h XOR of_nat (length key);
          h = h XOR drop_bit 16 h;
          h = h * 0x85EBCA6B;
          h = h XOR drop_bit 13 h;
          h = h * 0xC2B2AE35
      in h XOR drop_bit 16 h)"

definition bucket_of :: "nat \<Rightarrow> byte list \<Rightarrow> nat" where
  "bucket_of n key = unat (bcache_hash key 0x517CC1B7) mod n"

section \<open>Operations\<close>

definition bcache_create :: "nat \<Rightarrow> block_cache" where
  "bcache_create cap =
     (let cap = (if cap = 0 then BCACHE_DEFAULT_CAPACITY else cap);
          n = (if cap > 1021 then 4099 else 1021)
      in \<lparr> heap = Map.empty, fresh_ptr = 0, hash_table = replicate n [], hash_buckets = n, lru = [],
           capacity = cap, bsize = 0, hits = 0, misses = 0, evictions = 0 \<rparr>)"

definition entry :: "block_cache \<Rightarrow> nat \<Rightarrow> bcache_entry" where
  "entry c p = the (heap c p)"

definition key_at :: "block_cache \<Rightarrow> nat \<Rightarrow> byte list" where
  "key_at c p = be_key (entry c p)"

definition upd_entry :: "nat \<Rightarrow> (bcache_entry \<Rightarrow> bcache_entry) \<Rightarrow> block_cache \<Rightarrow> block_cache" where
  "upd_entry p f c = c\<lparr> heap := (heap c)(p \<mapsto> f (entry c p)) \<rparr>"

definition lru_detach :: "nat \<Rightarrow> block_cache \<Rightarrow> block_cache" where
  "lru_detach p c = c\<lparr> lru := remove1 p (lru c) \<rparr>"

definition lru_attach_head :: "nat \<Rightarrow> block_cache \<Rightarrow> block_cache" where
  "lru_attach_head p c = c\<lparr> lru := p # lru c \<rparr>"

text \<open>Unlinking an entry from its chain and freeing it.\<close>

definition drop_entry :: "nat \<Rightarrow> block_cache \<Rightarrow> block_cache" where
  "drop_entry p c =
     c\<lparr> hash_table := chain_unlink (bucket_of (hash_buckets c) (key_at c p)) (\<lambda>q. q = p) (hash_table c),
        heap := (heap c)(p := None), bsize := bsize c - 1 \<rparr>"

definition lru_evict_tail :: "block_cache \<Rightarrow> block_cache" where
  "lru_evict_tail c =
     (if lru c = [] then c
      else (let p = last (lru c); c = drop_entry p (lru_detach p c)
            in c\<lparr> evictions := evictions c + 1 \<rparr>))"

definition bcache_find :: "byte list \<Rightarrow> block_cache \<Rightarrow> nat option" where
  "bcache_find key c = chain_find (key_at c) (bucket_of (hash_buckets c)) (hash_table c) key"

text \<open>The loop that evicts while the cache is full; \<open>None\<close> is a loop that does not end.\<close>

fun evict_loop :: "nat \<Rightarrow> block_cache \<Rightarrow> block_cache option" where
  "evict_loop 0 c = None"
| "evict_loop (Suc n) c = (if bsize c \<ge> capacity c then evict_loop n (lru_evict_tail c) else Some c)"

definition new_entry :: "byte list \<Rightarrow> byte list \<Rightarrow> bcache_entry" where
  "new_entry key data =
     \<lparr> be_key = key, be_data = Some data, data_size = length data, access_count = 1, access_timestamp = 1 \<rparr>"

definition bcache_put :: "bool \<Rightarrow> bool \<Rightarrow> byte list \<Rightarrow> byte list \<Rightarrow> block_cache \<Rightarrow> (int \<times> block_cache) outcome" where
  "bcache_put mem_entry mem_data key data c =
     (if length key > BCACHE_MAX_KEY_SIZE then Done (-1, c)
      else
        (case bcache_find key c of
           Some p \<Rightarrow>
             (if \<not> mem_data then Done (-1, upd_entry p (\<lambda>e. e\<lparr> be_data := None \<rparr>) c)
              else
                (let c = upd_entry p (\<lambda>e. e\<lparr> be_data := Some data, data_size := length data,
                                             access_timestamp := access_timestamp e + 1,
                                             access_count := access_count e + 1 \<rparr>) c
                 in Done (0, lru_attach_head p (lru_detach p c))))
         | None \<Rightarrow>
             (case evict_loop (Suc (bsize c)) c of
                None \<Rightarrow> Undefined
              | Some c \<Rightarrow>
                  (if \<not> mem_entry \<or> \<not> mem_data then Done (-1, c)
                   else
                     (let p = fresh_ptr c;
                          c = c\<lparr> heap := (heap c)(p \<mapsto> new_entry key data), fresh_ptr := p + 1 \<rparr>;
                          c = c\<lparr> hash_table := chain_push (bucket_of (hash_buckets c) key) p (hash_table c) \<rparr>;
                          c = lru_attach_head p c
                      in Done (0, c\<lparr> bsize := bsize c + 1 \<rparr>))))))"

text \<open>The value is the data copied out on a hit; copying from a lost data pointer is undefined.\<close>

definition bcache_get :: "byte list \<Rightarrow> block_cache \<Rightarrow> (byte list option \<times> block_cache) outcome" where
  "bcache_get key c =
     (case bcache_find key c of
        None \<Rightarrow> Done (None, c\<lparr> misses := misses c + 1 \<rparr>)
      | Some p \<Rightarrow>
          (let c = lru_attach_head p (lru_detach p c);
               c = upd_entry p (\<lambda>e. e\<lparr> access_count := access_count e + 1,
                                        access_timestamp := access_timestamp e + 1 \<rparr>) c
           in case be_data (entry c p) of
                Some d \<Rightarrow> Done (Some (take (data_size (entry c p)) d), c\<lparr> hits := hits c + 1 \<rparr>)
              | None \<Rightarrow> if data_size (entry c p) = 0 then Done (Some [], c\<lparr> hits := hits c + 1 \<rparr>) else Undefined))"

definition bcache_invalidate :: "byte list \<Rightarrow> block_cache \<Rightarrow> int \<times> block_cache" where
  "bcache_invalidate key c =
     (case bcache_find key c of
        None \<Rightarrow> (0, c)
      | Some p \<Rightarrow> (1, drop_entry p (lru_detach p c)))"

definition bcache_clear :: "block_cache \<Rightarrow> block_cache" where
  "bcache_clear c =
     c\<lparr> heap := fold (\<lambda>p h. h(p := None)) (lru c) (heap c), hash_table := replicate (hash_buckets c) [],
        lru := [], bsize := 0 \<rparr>"

section \<open>Invariant and contents\<close>

definition wf_cache :: "block_cache \<Rightarrow> bool" where
  "wf_cache c \<longleftrightarrow>
     0 < hash_buckets c \<and> 0 < capacity c \<and> bsize c = length (lru c) \<and> bsize c \<le> capacity c \<and>
     table_ok (key_at c) (bucket_of (hash_buckets c)) (hash_buckets c) (hash_table c) \<and>
     chain_elems (hash_table c) = set (lru c) \<and> distinct (lru c) \<and>
     (\<forall>p. (p \<in> set (lru c) \<longleftrightarrow> heap c p \<noteq> None) \<and> (heap c p \<noteq> None \<longrightarrow> p < fresh_ptr c)) \<and>
     (\<forall>p \<in> set (lru c). \<exists>d. be_data (entry c p) = Some d \<and> data_size (entry c p) = length d)"

lemma entry_data: "wf_cache c \<Longrightarrow> p \<in> set (lru c) \<Longrightarrow> \<exists>d. be_data (entry c p) = Some d \<and> data_size (entry c p) = length d"
  unfolding wf_cache_def by blast

text \<open>The cache as a list of keys and data, most recently used first.\<close>

definition contents :: "block_cache \<Rightarrow> (byte list \<times> byte list) list" where
  "contents c = map (\<lambda>p. (key_at c p, the (be_data (entry c p)))) (lru c)"

lemma bucket_table: "0 < n \<Longrightarrow> chained_table (bucket_of n) n"
  by unfold_locales (simp add: bucket_of_def)

lemma find_in_cache:
  assumes "wf_cache c"
  shows "bcache_find key c = Some p \<longleftrightarrow> p \<in> set (lru c) \<and> key_at c p = key"
    and "bcache_find key c = None \<longleftrightarrow> key \<notin> fst ` set (contents c)"
proof -
  have t: "chained_table (bucket_of (hash_buckets c)) (hash_buckets c)"
    using assms by (intro bucket_table) (simp add: wf_cache_def)
  have ok: "table_ok (key_at c) (bucket_of (hash_buckets c)) (hash_buckets c) (hash_table c)"
    and el: "chain_elems (hash_table c) = set (lru c)" using assms by (simp_all add: wf_cache_def)
  show "bcache_find key c = Some p \<longleftrightarrow> p \<in> set (lru c) \<and> key_at c p = key"
    using chained_table.find_iff[OF t ok] by (simp add: bcache_find_def el)
  show "bcache_find key c = None \<longleftrightarrow> key \<notin> fst ` set (contents c)"
    using chained_table.find_None_iff[OF t ok] by (simp add: bcache_find_def el contents_def image_image)
qed

lemma keys_distinct:
  assumes "wf_cache c"
  shows "inj_on (key_at c) (set (lru c))" "distinct (map fst (contents c))"
proof -
  have t: "chained_table (bucket_of (hash_buckets c)) (hash_buckets c)"
    using assms by (intro bucket_table) (simp add: wf_cache_def)
  show inj: "inj_on (key_at c) (set (lru c))"
    using chained_table.key_inj[OF t, of "key_at c" "hash_table c"] assms by (simp add: wf_cache_def)
  have "map fst (contents c) = map (key_at c) (lru c)" by (simp add: contents_def)
  then show "distinct (map fst (contents c))" using inj assms by (simp add: distinct_map wf_cache_def)
qed

lemma contents_lookup:
  assumes "wf_cache c" "bcache_find key c = Some p"
  shows "map_of (contents c) key = be_data (entry c p)"
proof -
  have p: "p \<in> set (lru c)" "key_at c p = key" using find_in_cache(1)[OF assms(1)] assms(2) by simp_all
  then have "(key, the (be_data (entry c p))) \<in> set (contents c)" by (auto simp: contents_def)
  moreover have "be_data (entry c p) = Some (the (be_data (entry c p)))"
    using assms(1) p(1) unfolding wf_cache_def by fastforce
  ultimately show ?thesis using keys_distinct(2)[OF assms(1)] by simp
qed

section \<open>Operations on the contents\<close>

lemma cache_table: "wf_cache c \<Longrightarrow> chained_table (bucket_of (hash_buckets c)) (hash_buckets c)"
  by (intro bucket_table) (simp add: wf_cache_def)

text \<open>Removing the pointer of a key is filtering the contents.\<close>

lemma contents_without:
  assumes "wf_cache c" "p \<in> set (lru c)"
  shows "map (\<lambda>p. (key_at c p, the (be_data (entry c p)))) (remove1 p (lru c)) =
    filter (\<lambda>x. fst x \<noteq> key_at c p) (contents c)"
proof -
  have "distinct (lru c)" using assms(1) by (simp add: wf_cache_def)
  then have "remove1 p (lru c) = filter (\<lambda>q. q \<noteq> p) (lru c)" by (simp add: distinct_remove1_removeAll removeAll_filter_not_eq eq_commute)
  also have "\<dots> = filter (\<lambda>q. key_at c q \<noteq> key_at c p) (lru c)"
    using inj_onD[OF keys_distinct(1)[OF assms(1)]] assms(2) by (auto intro!: filter_cong)
  finally show ?thesis by (simp add: contents_def filter_map comp_def)
qed

lemma touch_ok:
  assumes wf: "wf_cache c" and p: "p \<in> set (lru c)"
  shows "wf_cache (lru_attach_head p (lru_detach p c))"
    "contents (lru_attach_head p (lru_detach p c)) =
       (key_at c p, the (be_data (entry c p))) # filter (\<lambda>x. fst x \<noteq> key_at c p) (contents c)"
proof -
  let ?c = "lru_attach_head p (lru_detach p c)"
  have same: "key_at ?c = key_at c" "entry ?c = entry c" "lru ?c = p # remove1 p (lru c)"
    by (auto simp: lru_attach_head_def lru_detach_def key_at_def entry_def)
  have d: "distinct (lru c)" using wf by (simp add: wf_cache_def)
  then have "set (lru ?c) = set (lru c)" "distinct (lru ?c)" "length (lru ?c) = length (lru c)"
    using p by (auto simp: same(3) length_remove1) (metis Suc_pred length_pos_if_in_set)
  then show "wf_cache ?c"
    using wf unfolding wf_cache_def same(1,2) by (simp add: lru_attach_head_def lru_detach_def)
  show "contents ?c = (key_at c p, the (be_data (entry c p))) # filter (\<lambda>x. fst x \<noteq> key_at c p) (contents c)"
    using contents_without[OF wf p] by (simp add: contents_def same)
qed

lemma upd_entry_ok:
  assumes wf: "wf_cache c" and p: "p \<in> set (lru c)"
    and f: "be_key (f (entry c p)) = be_key (entry c p)"
      "\<exists>d. be_data (f (entry c p)) = Some d \<and> data_size (f (entry c p)) = length d"
  shows "wf_cache (upd_entry p f c)" "key_at (upd_entry p f c) = key_at c" "lru (upd_entry p f c) = lru c"
    "entry (upd_entry p f c) = (entry c)(p := f (entry c p))"
proof -
  show e: "entry (upd_entry p f c) = (entry c)(p := f (entry c p))"
    by (rule ext) (simp add: entry_def upd_entry_def)
  then show k: "key_at (upd_entry p f c) = key_at c" by (rule_tac ext) (simp add: key_at_def f(1))
  show l: "lru (upd_entry p f c) = lru c" by (simp add: upd_entry_def)
  have h: "heap (upd_entry p f c) q \<noteq> None \<longleftrightarrow> heap c q \<noteq> None" for q
    using wf p by (auto simp: upd_entry_def wf_cache_def)
  have data: "\<forall>q \<in> set (lru c). \<exists>d. be_data (entry (upd_entry p f c) q) = Some d \<and> data_size (entry (upd_entry p f c) q) = length d"
    using wf f(2) by (auto simp: e wf_cache_def)
  have rest: "hash_buckets (upd_entry p f c) = hash_buckets c" "capacity (upd_entry p f c) = capacity c"
    "bsize (upd_entry p f c) = bsize c" "hash_table (upd_entry p f c) = hash_table c" "fresh_ptr (upd_entry p f c) = fresh_ptr c"
    by (simp_all add: upd_entry_def)
  show "wf_cache (upd_entry p f c)"
    using wf data unfolding wf_cache_def k l h rest by blast
qed

lemma drop_ok:
  assumes wf: "wf_cache c" and p: "p \<in> set (lru c)"
  shows "wf_cache (drop_entry p (lru_detach p c))"
    "contents (drop_entry p (lru_detach p c)) = filter (\<lambda>x. fst x \<noteq> key_at c p) (contents c)"
    "capacity (drop_entry p (lru_detach p c)) = capacity c"
    "bsize (drop_entry p (lru_detach p c)) = bsize c - 1"
proof -
  let ?c = "drop_entry p (lru_detach p c)" and ?h = "bucket_of (hash_buckets c)"
  note t = cache_table[OF wf]
  have ok: "table_ok (key_at c) ?h (hash_buckets c) (hash_table c)" and el: "chain_elems (hash_table c) = set (lru c)"
    and d: "distinct (lru c)" using wf by (simp_all add: wf_cache_def)
  have tab: "hash_table ?c = chain_unlink (?h (key_at c p)) (\<lambda>q. q = p) (hash_table c)"
    by (simp add: drop_entry_def lru_detach_def key_at_def entry_def)
  have pe: "p \<in> chain_elems (hash_table c)" using p el by simp
  have entry: "entry ?c q = entry c q" if "q \<noteq> p" for q
    using that by (simp add: entry_def drop_entry_def lru_detach_def)
  then have key: "key_at ?c q = key_at c q" if "q \<noteq> p" for q using that by (simp add: key_at_def)
  have lru: "lru ?c = remove1 p (lru c)" by (simp add: drop_entry_def lru_detach_def)
  then have set_lru: "set (lru ?c) = set (lru c) - {p}" using d by (simp add: set_remove1_eq)
  have "table_ok (key_at c) ?h (hash_buckets c) (hash_table ?c)"
    unfolding tab by (rule chained_table.unlink_ok[OF t ok pe]) simp
  moreover have el': "chain_elems (hash_table ?c) = set (lru c) - {p}"
    using chained_table.unlink_elems[OF t ok pe, of "\<lambda>q. q = p"] by (simp add: tab el)
  ultimately have ok': "table_ok (key_at ?c) ?h (hash_buckets c) (hash_table ?c)"
    using table_ok_cong[of "hash_table ?c" "key_at c" "key_at ?c"] key by auto
  have len: "length (lru ?c) = length (lru c) - 1" using p by (simp add: lru length_remove1)
  show "wf_cache ?c"
    using wf ok' el' set_lru len lru entry d unfolding wf_cache_def
    by (auto simp: drop_entry_def lru_detach_def)
  have "map (\<lambda>q. (key_at ?c q, the (be_data (entry ?c q)))) (remove1 p (lru c)) =
      map (\<lambda>q. (key_at c q, the (be_data (entry c q)))) (remove1 p (lru c))"
    using d entry key by (intro map_cong) (auto simp: set_remove1_eq)
  then show "contents ?c = filter (\<lambda>x. fst x \<noteq> key_at c p) (contents c)"
    using contents_without[OF wf p] by (simp add: contents_def lru)
  show "capacity ?c = capacity c" "bsize ?c = bsize c - 1" by (simp_all add: drop_entry_def lru_detach_def)
qed

lemma wf_evictions [simp]:
  "wf_cache (c\<lparr> evictions := n \<rparr>) = wf_cache c" "contents (c\<lparr> evictions := n \<rparr>) = contents c"
  "wf_cache (c\<lparr> hits := n \<rparr>) = wf_cache c" "contents (c\<lparr> hits := n \<rparr>) = contents c"
  "wf_cache (c\<lparr> misses := n \<rparr>) = wf_cache c" "contents (c\<lparr> misses := n \<rparr>) = contents c"
  by (simp_all add: wf_cache_def contents_def key_at_def[abs_def] entry_def[abs_def])

lemma evict_ok:
  assumes wf: "wf_cache c" and ne: "lru c \<noteq> []"
  shows "wf_cache (lru_evict_tail c)" "contents (lru_evict_tail c) = butlast (contents c)"
    "capacity (lru_evict_tail c) = capacity c" "bsize (lru_evict_tail c) = bsize c - 1"
proof -
  let ?p = "last (lru c)"
  have p: "?p \<in> set (lru c)" using ne by simp
  note d = drop_ok[OF wf p]
  show "wf_cache (lru_evict_tail c)" using d(1) ne by (simp add: lru_evict_tail_def Let_def)
  show "capacity (lru_evict_tail c) = capacity c" "bsize (lru_evict_tail c) = bsize c - 1"
    using d(3,4) ne by (simp_all add: lru_evict_tail_def Let_def)
  have "contents c \<noteq> []" "fst (last (contents c)) = key_at c ?p"
    using ne by (simp_all add: contents_def last_map)
  then have "contents c = butlast (contents c) @ [last (contents c)]" "fst (last (contents c)) = key_at c ?p" by simp_all
  then obtain xs x where cx: "contents c = xs @ [x]" "fst x = key_at c ?p" by blast
  then have "filter (\<lambda>y. fst y \<noteq> key_at c ?p) xs = xs"
    using keys_distinct(2)[OF wf] by (intro filter_True) force
  then have "filter (\<lambda>y. fst y \<noteq> key_at c ?p) (contents c) = butlast (contents c)" using cx by simp
  then show "contents (lru_evict_tail c) = butlast (contents c)"
    using d(2) ne by (simp add: lru_evict_tail_def Let_def)
qed

text \<open>A cache within its capacity evicts at most one entry, so the loop ends.\<close>

lemma evict_loop_ok:
  assumes wf: "wf_cache c"
  obtains c' where "evict_loop (Suc (bsize c)) c = Some c'" "wf_cache c'" "capacity c' = capacity c" "bsize c' < capacity c"
    "contents c' = take (capacity c - 1) (contents c)"
proof (cases "bsize c \<ge> capacity c")
  case True
  then have full: "bsize c = capacity c" "bsize c = length (lru c)" "0 < capacity c" using wf by (simp_all add: wf_cache_def)
  then have ne: "lru c \<noteq> []" by auto
  note e = evict_ok[OF wf ne]
  obtain n where n: "bsize c = Suc n" using full(1,3) not0_implies_Suc[of "bsize c"] by auto
  have "evict_loop (Suc (bsize c)) c = evict_loop (Suc n) (lru_evict_tail c)" using True by (simp add: n)
  also have "\<dots> = Some (lru_evict_tail c)" using full(1,3) e(3,4) by auto
  finally have "evict_loop (Suc (bsize c)) c = Some (lru_evict_tail c)" .
  moreover have "butlast (contents c) = take (capacity c - 1) (contents c)"
    using full by (simp add: butlast_conv_take contents_def)
  ultimately show ?thesis using that[of "lru_evict_tail c"] e full by simp
next
  case False
  moreover have "length (contents c) = bsize c" using wf by (simp add: contents_def wf_cache_def)
  ultimately show ?thesis using that[of c] wf by simp
qed

lemma insert_ok:
  fixes data :: "byte list"
  assumes wf: "wf_cache c" and room: "bsize c < capacity c" and new: "key \<notin> fst ` set (contents c)"
  defines "c1 \<equiv> c\<lparr> heap := (heap c)(fresh_ptr c \<mapsto> new_entry key data), fresh_ptr := fresh_ptr c + 1,
             hash_table := chain_push (bucket_of (hash_buckets c) key) (fresh_ptr c) (hash_table c),
             lru := fresh_ptr c # lru c, bsize := bsize c + 1 \<rparr>"
  shows "wf_cache c1" "contents c1 = (key, data) # contents c"
proof -
  let ?p = "fresh_ptr c" and ?h = "bucket_of (hash_buckets c)"
  note t = cache_table[OF wf]
  have ok: "table_ok (key_at c) ?h (hash_buckets c) (hash_table c)" and el: "chain_elems (hash_table c) = set (lru c)"
    and fresh: "heap c ?p = None" "?p \<notin> set (lru c)"
    using wf by (auto simp: wf_cache_def)
  have c1: "heap c1 = (heap c)(?p \<mapsto> new_entry key data)" "fresh_ptr c1 = ?p + 1"
    "hash_table c1 = chain_push (?h key) ?p (hash_table c)" "lru c1 = ?p # lru c" "bsize c1 = bsize c + 1"
    "hash_buckets c1 = hash_buckets c" "capacity c1 = capacity c"
    by (simp_all add: c1_def)
  have entry: "entry c1 q = (if q = ?p then new_entry key data else entry c q)" for q
    by (simp add: entry_def c1)
  then have key: "key_at c1 q = (if q = ?p then key else key_at c q)" for q
    by (simp add: key_at_def new_entry_def)
  have "key_at c q = key_at c1 q" if "q \<in> chain_elems (hash_table c)" for q
    using that fresh(2) by (auto simp: key el)
  then have "table_ok (key_at c) ?h (hash_buckets c) (hash_table c) = table_ok (key_at c1) ?h (hash_buckets c) (hash_table c)"
    by (intro table_ok_cong)
  then have ok1: "table_ok (key_at c1) ?h (hash_buckets c) (hash_table c)" using ok by blast
  moreover have "key \<notin> key_at c1 ` chain_elems (hash_table c)"
    using new fresh by (auto simp: el key contents_def image_iff)
  ultimately have ok': "table_ok (key_at c1) ?h (hash_buckets c) (hash_table c1)"
    using chained_table.push_ok[OF t, of "key_at c1" "hash_table c" ?p] by (simp add: key c1(3))
  have el': "chain_elems (hash_table c1) = insert ?p (set (lru c))"
    using chained_table.push_elems[OF t ok] by (simp add: c1(3) el)
  have data: "\<forall>q \<in> set (lru c1). \<exists>d. be_data (entry c1 q) = Some d \<and> data_size (entry c1 q) = length d"
    using entry_data[OF wf] by (auto simp: entry new_entry_def c1(4))
  have ptrs: "\<forall>q. (q \<in> set (lru c1) \<longleftrightarrow> heap c1 q \<noteq> None) \<and> (heap c1 q \<noteq> None \<longrightarrow> q < fresh_ptr c1)"
    using wf by (auto simp: c1 wf_cache_def less_Suc_eq)
  show "wf_cache c1"
    using wf room fresh(2) ok' el' data ptrs unfolding wf_cache_def c1(4-7) by simp
  have "contents c1 = (key, data) # map (\<lambda>q. (key_at c1 q, the (be_data (entry c1 q)))) (lru c)"
    by (simp add: contents_def c1(4) key) (simp add: entry new_entry_def)
  also have "map (\<lambda>q. (key_at c1 q, the (be_data (entry c1 q)))) (lru c) = contents c"
    unfolding contents_def using fresh(2) by (intro map_cong) (auto simp: entry key)
  finally show "contents c1 = (key, data) # contents c" .
qed

section \<open>The cache is a least recently used list\<close>

text \<open>The abstract cache: distinct keys with their data, most recently used first.\<close>

definition lru_put :: "nat \<Rightarrow> 'k \<Rightarrow> 'd \<Rightarrow> ('k \<times> 'd) list \<Rightarrow> ('k \<times> 'd) list" where
  "lru_put cap k d xs = take cap ((k, d) # filter (\<lambda>x. fst x \<noteq> k) xs)"

definition lru_get :: "'k \<Rightarrow> ('k \<times> 'd) list \<Rightarrow> ('k \<times> 'd) list" where
  "lru_get k xs =
     (case map_of xs k of None \<Rightarrow> xs | Some d \<Rightarrow> (k, d) # filter (\<lambda>x. fst x \<noteq> k) xs)"

lemma put_ok:
  assumes wf: "wf_cache c" and key: "length key \<le> BCACHE_MAX_KEY_SIZE"
  shows "\<exists>c'. bcache_put True True key data c = Done (0, c') \<and> wf_cache c' \<and> capacity c' = capacity c \<and>
    contents c' = lru_put (capacity c) key data (contents c)"
proof (cases "bcache_find key c")
  case (Some p)
  let ?f = "\<lambda>e. e\<lparr> be_data := Some data, data_size := length data,
              access_timestamp := access_timestamp e + 1, access_count := access_count e + 1 \<rparr>"
  have p: "p \<in> set (lru c)" "key_at c p = key" using Some find_in_cache(1)[OF wf] by simp_all
  note u = upd_entry_ok[OF wf p(1), of ?f]
  let ?c1 = "upd_entry p ?f c"
  have w1: "wf_cache ?c1" and k1: "key_at ?c1 = key_at c" and l1: "lru ?c1 = lru c" and e1: "entry ?c1 = (entry c)(p := ?f (entry c p))"
    using u by simp_all
  have same: "filter (\<lambda>x. fst x \<noteq> key) (contents ?c1) = filter (\<lambda>x. fst x \<noteq> key) (contents c)"
  proof -
    have "map (\<lambda>q. (key_at ?c1 q, the (be_data (entry ?c1 q)))) (filter (\<lambda>q. key_at c q \<noteq> key) (lru c)) =
        map (\<lambda>q. (key_at c q, the (be_data (entry c q)))) (filter (\<lambda>q. key_at c q \<noteq> key) (lru c))"
      using p(2) by (intro map_cong) (auto simp: k1 e1)
    then show ?thesis by (simp add: contents_def filter_map comp_def k1 l1)
  qed
  have "length (filter (\<lambda>x. fst x \<noteq> key) (contents c)) < length (contents c)"
    using p by (intro length_filter_less[of "(key, the (be_data (entry c p)))"]) (auto simp: contents_def)
  then have fits: "lru_put (capacity c) key data (contents c) = (key, data) # filter (\<lambda>x. fst x \<noteq> key) (contents c)"
    using wf by (simp add: lru_put_def contents_def wf_cache_def)
  have put: "bcache_put True True key data c = Done (0, lru_attach_head p (lru_detach p ?c1))"
    using key Some by (simp add: bcache_put_def)
  have "capacity (lru_attach_head p (lru_detach p ?c1)) = capacity c"
    by (simp add: lru_attach_head_def lru_detach_def upd_entry_def)
  with put touch_ok[OF w1, of p] p same fits show ?thesis by (simp add: l1 k1 e1)
next
  case None
  then have new: "key \<notin> fst ` set (contents c)" using find_in_cache(2)[OF wf] by simp
  obtain c1 where c1: "evict_loop (Suc (bsize c)) c = Some c1" "wf_cache c1" "capacity c1 = capacity c" "bsize c1 < capacity c"
    "contents c1 = take (capacity c - 1) (contents c)"
    using evict_loop_ok[OF wf] by blast
  then have new1: "key \<notin> fst ` set (contents c1)" using new by (auto dest: in_set_takeD)
  have "filter (\<lambda>x. fst x \<noteq> key) (contents c) = contents c" using new by (force intro: filter_True)
  moreover have "0 < capacity c" using wf by (simp add: wf_cache_def)
  ultimately have "lru_put (capacity c) key data (contents c) = (key, data) # contents c1"
    by (simp add: lru_put_def c1(5) take_Cons')
  with insert_ok[OF c1(2) _ new1, of data] c1(1,3,4) None key show ?thesis
    by (simp add: bcache_put_def Let_def lru_attach_head_def)
qed

lemma get_ok:
  assumes wf: "wf_cache c"
  shows "\<exists>c'. bcache_get key c = Done (map_of (contents c) key, c') \<and> wf_cache c' \<and> capacity c' = capacity c \<and>
    contents c' = lru_get key (contents c)"
proof (cases "bcache_find key c")
  case None
  then have "map_of (contents c) key = None"
    using find_in_cache(2)[OF wf] by (simp add: map_of_eq_None_iff)
  with None wf show ?thesis by (simp add: bcache_get_def lru_get_def)
next
  case (Some p)
  let ?f = "\<lambda>e. e\<lparr> access_count := access_count e + 1, access_timestamp := access_timestamp e + 1 \<rparr>"
  have p: "p \<in> set (lru c)" "key_at c p = key" using Some find_in_cache(1)[OF wf] by simp_all
  then obtain d where d: "be_data (entry c p) = Some d" "data_size (entry c p) = length d"
    using entry_data[OF wf p(1)] by blast
  have m: "map_of (contents c) key = Some d" using contents_lookup[OF wf Some] d by simp
  let ?c1 = "lru_attach_head p (lru_detach p c)"
  note t = touch_ok[OF wf p(1)]
  have p1: "p \<in> set (lru ?c1)" and e1: "entry ?c1 = entry c"
    by (simp_all add: lru_attach_head_def lru_detach_def entry_def[abs_def])
  have "\<exists>d. be_data (?f (entry ?c1 p)) = Some d \<and> data_size (?f (entry ?c1 p)) = length d"
    using d by (simp add: e1)
  note u = upd_entry_ok[OF t(1) p1, of ?f, OF _ this]
  let ?c2 = "upd_entry p ?f ?c1"
  have w2: "wf_cache ?c2" and k2: "key_at ?c2 = key_at ?c1" and l2: "lru ?c2 = lru ?c1"
    and e2: "entry ?c2 = (entry ?c1)(p := ?f (entry ?c1 p))" using u by simp_all
  have c2: "contents ?c2 = contents ?c1" by (auto simp: contents_def k2 l2 e2)
  have "bcache_get key c = Done (Some d, ?c2\<lparr> hits := hits ?c2 + 1 \<rparr>)"
    using Some d by (simp add: bcache_get_def Let_def e2 e1)
  moreover have "capacity ?c2 = capacity c" by (simp add: lru_attach_head_def lru_detach_def upd_entry_def)
  ultimately show ?thesis using w2 t(2) p d m by (simp add: c2 lru_get_def)
qed

lemma invalidate_ok:
  assumes wf: "wf_cache c"
  shows "wf_cache (snd (bcache_invalidate key c)) \<and> capacity (snd (bcache_invalidate key c)) = capacity c \<and>
    contents (snd (bcache_invalidate key c)) = filter (\<lambda>x. fst x \<noteq> key) (contents c) \<and>
    fst (bcache_invalidate key c) = of_bool (key \<in> fst ` set (contents c))"
proof (cases "bcache_find key c")
  case None
  then have "key \<notin> fst ` set (contents c)" using find_in_cache(2)[OF wf] by simp
  moreover from this have "filter (\<lambda>x. fst x \<noteq> key) (contents c) = contents c" by (force intro: filter_True)
  ultimately show ?thesis using None wf by (simp add: bcache_invalidate_def)
next
  case (Some p)
  then have p: "p \<in> set (lru c)" "key_at c p = key" using find_in_cache(1)[OF wf] by simp_all
  then have "key \<in> fst ` set (contents c)" by (auto simp: contents_def image_iff)
  with drop_ok[OF wf p(1)] Some p(2) show ?thesis by (simp add: bcache_invalidate_def)
qed

lemma heap_cleared: "fold (\<lambda>p h. h(p := None)) ps h q = (if q \<in> set ps then None else h q)"
  by (induction ps arbitrary: h) auto

lemma clear_ok: "wf_cache c \<Longrightarrow> wf_cache (bcache_clear c) \<and> contents (bcache_clear c) = []"
  by (auto simp: wf_cache_def bcache_clear_def contents_def heap_cleared)

text \<open>The operations of a client, allocations succeeding and keys within the entry's array.\<close>

datatype cache_op = Put "byte list" "byte list" | Get "byte list" | Invalidate "byte list" | Clear

fun cache_step :: "cache_op \<Rightarrow> block_cache outcome \<Rightarrow> block_cache outcome" where
  "cache_step (Put k d) r = bind_outcome r (\<lambda>c. bind_outcome (bcache_put True True k d c) (\<lambda>(_, c). Done c))"
| "cache_step (Get k) r = bind_outcome r (\<lambda>c. bind_outcome (bcache_get k c) (\<lambda>(_, c). Done c))"
| "cache_step (Invalidate k) r = bind_outcome r (\<lambda>c. Done (snd (bcache_invalidate k c)))"
| "cache_step Clear r = bind_outcome r (\<lambda>c. Done (bcache_clear c))"

definition fresh_cache :: "block_cache outcome \<Rightarrow> bool" where
  "fresh_cache r \<longleftrightarrow> (\<exists>cap. r = Done (bcache_create cap))"

definition cache_ok :: "block_cache outcome \<Rightarrow> bool" where
  "cache_ok r \<longleftrightarrow> (\<exists>c. r = Done c \<and> wf_cache c)"

lemma put_cases:
  assumes "wf_cache c"
  obtains c' where "bcache_put True True k d c = Done (0, c')" "length k \<le> BCACHE_MAX_KEY_SIZE" "wf_cache c'"
      "capacity c' = capacity c" "contents c' = lru_put (capacity c) k d (contents c)"
  | "bcache_put True True k d c = Done (-1, c)" "BCACHE_MAX_KEY_SIZE < length k"
proof (cases "length k \<le> BCACHE_MAX_KEY_SIZE")
  case True
  then show ?thesis using put_ok[OF assms True, of d] that(1) by blast
next
  case False
  then show ?thesis by (intro that(2)) (simp_all add: bcache_put_def)
qed

lemma create_ok: "wf_cache (bcache_create cap) \<and> contents (bcache_create cap) = []"
  by (simp add: bcache_create_def Let_def wf_cache_def contents_def BCACHE_DEFAULT_CAPACITY_def)

interpretation cache_sys: invariant_system fresh_cache cache_step cache_ok
proof unfold_locales
  fix r assume "fresh_cache r"
  then show "cache_ok r" using create_ok by (auto simp: fresh_cache_def cache_ok_def)
next
  fix r op assume "cache_ok r"
  then obtain c where c: "r = Done c" "wf_cache c" by (auto simp: cache_ok_def)
  show "cache_ok (cache_step op r)"
  proof (cases op)
    case (Put k d)
    show ?thesis
      by (rule put_cases[OF c(2), of k d]) (use Put c in \<open>auto simp: cache_ok_def\<close>)
  next
    case (Get k)
    then show ?thesis using get_ok[OF c(2), of k] c by (auto simp: cache_ok_def)
  next
    case (Invalidate k)
    then show ?thesis using invalidate_ok[OF c(2), of k] c by (auto simp: cache_ok_def)
  next
    case Clear
    then show ?thesis using clear_ok[OF c(2)] c by (auto simp: cache_ok_def)
  qed
qed

text \<open>
  C25. The block cache is a least recently used list of bounded length: after any operations on a
  new cache a put moves the key with its data to the front and drops what exceeds the capacity, a
  get returns the data of the key and moves it to the front, an invalidation removes the key, a
  clear removes all. A key longer than 256 bytes is refused.
\<close>

theorem block_cache_refines_lru:
  assumes "reach fresh_cache cache_step (Done c)"
  shows "(\<exists>r c'. bcache_put True True k d c = Done (r, c') \<and>
      (if length k \<le> BCACHE_MAX_KEY_SIZE then r = 0 \<and> contents c' = lru_put (capacity c) k d (contents c)
       else r = -1 \<and> c' = c)) \<and>
    (\<exists>c'. bcache_get k c = Done (map_of (contents c) k, c') \<and> contents c' = lru_get k (contents c)) \<and>
    contents (snd (bcache_invalidate k c)) = filter (\<lambda>x. fst x \<noteq> k) (contents c) \<and>
    contents (bcache_clear c) = [] \<and>
    length (contents c) \<le> capacity c \<and> distinct (map fst (contents c))"
proof -
  have wf: "wf_cache c" using cache_sys.reach_inv[OF assms] by (auto simp: cache_ok_def)
  have put: "\<exists>r c'. bcache_put True True k d c = Done (r, c') \<and>
      (if length k \<le> BCACHE_MAX_KEY_SIZE then r = 0 \<and> contents c' = lru_put (capacity c) k d (contents c)
       else r = -1 \<and> c' = c)"
    by (rule put_cases[OF wf, of k d]) simp_all
  have "length (contents c) \<le> capacity c" using wf by (simp add: wf_cache_def contents_def)
  then show ?thesis
    using put get_ok[OF wf, of k] invalidate_ok[OF wf, of k] clear_ok[OF wf] keys_distinct(2)[OF wf] by blast
qed

theorem block_cache_refines_lru_witness: "contents (bcache_clear (bcache_create 2)) = []"
proof -
  have "reach fresh_cache cache_step (Done (bcache_create 2))" by (intro reach_init) (auto simp: fresh_cache_def)
  from block_cache_refines_lru[OF this, of "[1]" "[2]"] show ?thesis by blast
qed

section \<open>What stays in the cache\<close>

fun op_key :: "cache_op \<Rightarrow> byte list" where
  "op_key (Put k d) = k" | "op_key (Get k) = k" | "op_key (Invalidate k) = k" | "op_key Clear = []"

text \<open>The abstract operations of a client that puts and gets.\<close>

fun lru_op :: "nat \<Rightarrow> cache_op \<Rightarrow> (byte list \<times> byte list) list \<Rightarrow> (byte list \<times> byte list) list" where
  "lru_op cap (Put k d) xs = (if length k \<le> BCACHE_MAX_KEY_SIZE then lru_put cap k d xs else xs)"
| "lru_op cap (Get k) xs = lru_get k xs"
| "lru_op cap (Invalidate k) xs = filter (\<lambda>x. fst x \<noteq> k) xs"
| "lru_op cap Clear xs = []"

lemma step_contents:
  assumes "wf_cache c"
  shows "\<exists>c'. cache_step op (Done c) = Done c' \<and> wf_cache c' \<and> capacity c' = capacity c \<and>
    contents c' = lru_op (capacity c) op (contents c)"
proof (cases op)
  case (Put k d)
  show ?thesis by (rule put_cases[OF assms, of k d]) (use Put assms in auto)
next
  case (Get k)
  then show ?thesis using get_ok[OF assms, of k] by auto
next
  case (Invalidate k)
  then show ?thesis using invalidate_ok[OF assms, of k] by simp
next
  case Clear
  then show ?thesis using clear_ok[OF assms] by (simp add: bcache_clear_def)
qed

lemma run_contents:
  "wf_cache c \<Longrightarrow> \<exists>c'. fold cache_step ops (Done c) = Done c' \<and> wf_cache c' \<and> capacity c' = capacity c \<and>
    contents c' = fold (lru_op (capacity c)) ops (contents c)"
proof (induction ops arbitrary: c)
  case (Cons op ops)
  from step_contents[OF Cons.prems, of op] obtain c1 where c1: "cache_step op (Done c) = Done c1" "wf_cache c1"
    "capacity c1 = capacity c" "contents c1 = lru_op (capacity c) op (contents c)" by blast
  with Cons.IH[OF c1(2)] show ?case by simp
qed simp

text \<open>The key sits behind keys of a given set only.\<close>

definition behind :: "'k set \<Rightarrow> 'k \<Rightarrow> 'd \<Rightarrow> ('k \<times> 'd) list \<Rightarrow> bool" where
  "behind U k d xs \<longleftrightarrow> (\<exists>pre post. xs = pre @ (k, d) # post \<and> fst ` set pre \<subseteq> U) \<and> distinct (map fst xs)"

lemma behind_lookup: "behind U k d xs \<Longrightarrow> map_of xs k = Some d"
  unfolding behind_def by (intro map_of_is_SomeI) auto

lemma behind_length:
  assumes "finite U" "distinct (map fst pre)" "fst ` set pre \<subseteq> U"
  shows "length pre \<le> card U"
proof -
  have "length pre = card (fst ` set pre)" using assms(2) by (metis distinct_card length_map set_map)
  with card_mono[OF assms(1,3)] show ?thesis by simp
qed

lemma behind_new: "distinct (map fst xs) \<Longrightarrow> k \<notin> fst ` set xs \<Longrightarrow> behind U k d ((k, d) # xs)"
proof -
  assume "distinct (map fst xs)" "k \<notin> fst ` set xs"
  moreover have "(k, d) # xs = [] @ (k, d) # xs" "fst ` set [] \<subseteq> U" by simp_all
  ultimately show ?thesis unfolding behind_def by fastforce
qed

lemma behind_front:
  assumes b: "behind U k d xs" and "finite U" "x \<noteq> k" "x \<in> U" "card U < cap"
  shows "behind U k d (take cap ((x, e) # filter (\<lambda>y. fst y \<noteq> x) xs))"
proof -
  from b obtain pre post where xs: "xs = pre @ (k, d) # post" "fst ` set pre \<subseteq> U" "distinct (map fst xs)"
    by (auto simp: behind_def)
  let ?pre = "(x, e) # filter (\<lambda>y. fst y \<noteq> x) pre"
  have d: "distinct (map fst ((x, e) # filter (\<lambda>y. fst y \<noteq> x) xs))" using xs(3) by (auto simp: distinct_map_filter)
  have "distinct (map fst ?pre)" using d by (simp add: xs(1))
  moreover have sub: "fst ` set ?pre \<subseteq> U" using xs(2) assms(4) by auto
  ultimately have "length ?pre < cap" using behind_length[OF assms(2), of ?pre] assms(5) by simp
  moreover have "(x, e) # filter (\<lambda>y. fst y \<noteq> x) xs = ?pre @ (k, d) # filter (\<lambda>y. fst y \<noteq> x) post"
    using assms(3) by (simp add: xs(1))
  ultimately have "take cap ((x, e) # filter (\<lambda>y. fst y \<noteq> x) xs) =
      ?pre @ (k, d) # take (cap - length ?pre - 1) (filter (\<lambda>y. fst y \<noteq> x) post)"
    by (simp add: take_Cons')
  moreover have "distinct (map fst (take cap ((x, e) # filter (\<lambda>y. fst y \<noteq> x) xs)))"
    using d by (metis distinct_take take_map)
  ultimately show ?thesis using sub unfolding behind_def by blast
qed

lemma behind_step:
  assumes b: "behind U k d xs" and U: "finite U" "card U < cap" "length xs \<le> cap"
    and op: "op \<noteq> Clear" "op_key op \<noteq> k" "op_key op \<in> U"
  shows "behind U k d (lru_op cap op xs)"
proof (cases op)
  case (Put x e)
  then show ?thesis using behind_front[OF b U(1) _ _ U(2), of x e] b op by (simp add: lru_put_def)
next
  case (Get x)
  show ?thesis
  proof (cases "map_of xs x")
    case (Some e)
    then have "length (filter (\<lambda>y. fst y \<noteq> x) xs) < length xs"
      by (intro length_filter_less[of "(x, e)"]) (auto dest: map_of_SomeD)
    then have "take cap ((x, e) # filter (\<lambda>y. fst y \<noteq> x) xs) = (x, e) # filter (\<lambda>y. fst y \<noteq> x) xs"
      using U(3) by simp
    with behind_front[OF b U(1) _ _ U(2), of x e] Some Get op show ?thesis by (simp add: lru_get_def)
  qed (use Get b in \<open>simp add: lru_get_def\<close>)
next
  case (Invalidate x)
  from b obtain pre post where xs: "xs = pre @ (k, d) # post" "fst ` set pre \<subseteq> U" "distinct (map fst xs)"
    by (auto simp: behind_def)
  have "filter (\<lambda>y. fst y \<noteq> x) xs = filter (\<lambda>y. fst y \<noteq> x) pre @ (k, d) # filter (\<lambda>y. fst y \<noteq> x) post"
    using op Invalidate by (simp add: xs(1))
  moreover have "fst ` set (filter (\<lambda>y. fst y \<noteq> x) pre) \<subseteq> U" using xs(2) by auto
  moreover have "distinct (map fst (filter (\<lambda>y. fst y \<noteq> x) xs))" using xs(3) by (simp add: distinct_map_filter)
  ultimately show ?thesis unfolding Invalidate lru_op.simps behind_def by blast
qed (use op in simp)

lemma lru_op_length:
  assumes "length xs \<le> cap"
  shows "length (lru_op cap op xs) \<le> cap"
proof (cases op)
  case (Get x)
  then show ?thesis
  proof (cases "map_of xs x")
    case (Some e)
    then have "length (filter (\<lambda>y. fst y \<noteq> x) xs) < length xs"
      by (intro length_filter_less[of "(x, e)"]) (auto dest: map_of_SomeD)
    then show ?thesis using Get Some assms by (simp add: lru_get_def)
  qed (use Get assms in \<open>simp add: lru_get_def\<close>)
next
  case (Invalidate x)
  then show ?thesis using le_trans[OF length_filter_le assms] by simp
qed (use assms in \<open>simp_all add: lru_put_def\<close>)

lemma behind_run:
  "behind U k d xs \<Longrightarrow> finite U \<Longrightarrow> card U < cap \<Longrightarrow> length xs \<le> cap \<Longrightarrow>
   (\<And>op. op \<in> set ops \<Longrightarrow> op \<noteq> Clear \<and> op_key op \<noteq> k \<and> op_key op \<in> U) \<Longrightarrow>
   behind U k d (fold (lru_op cap) ops xs)"
proof (induction ops arbitrary: xs)
  case (Cons op ops)
  then have "behind U k d (lru_op cap op xs)" by (intro behind_step) auto
  with Cons show ?case by (auto intro: lru_op_length)
qed simp

text \<open>
  C26. What was put stays while it is recently used: if the operations after a put of a key use
  fewer distinct other keys than the capacity (and neither clear the cache nor touch the key), a
  get of the key still returns its data.
\<close>

theorem recently_put_is_cached:
  assumes "reach fresh_cache cache_step (Done c)" "length k \<le> BCACHE_MAX_KEY_SIZE"
    and "card (op_key ` set ops) < capacity c" "k \<notin> op_key ` set ops" "Clear \<notin> set ops"
  shows "\<exists>c1 c2. fold cache_step (Put k d # ops) (Done c) = Done c1 \<and> bcache_get k c1 = Done (Some d, c2)"
proof -
  have wf: "wf_cache c" using cache_sys.reach_inv[OF assms(1)] by (auto simp: cache_ok_def)
  let ?U = "op_key ` set ops"
  obtain c1 where c1: "fold cache_step (Put k d # ops) (Done c) = Done c1" "wf_cache c1"
    "contents c1 = fold (lru_op (capacity c)) (Put k d # ops) (contents c)"
    using run_contents[OF wf, of "Put k d # ops"] by blast
  note run = c1(3)[unfolded fold.simps comp_apply]
  have cap: "0 < capacity c" "length (contents c) \<le> capacity c" using wf by (simp_all add: wf_cache_def contents_def)
  then have put: "lru_op (capacity c) (Put k d) (contents c) = (k, d) # take (capacity c - 1) (filter (\<lambda>x. fst x \<noteq> k) (contents c))"
    using assms(2) by (simp add: lru_put_def take_Cons')
  have "distinct (map fst (take (capacity c - 1) (filter (\<lambda>x. fst x \<noteq> k) (contents c))))"
    using keys_distinct(2)[OF wf] by (simp add: distinct_map_filter flip: take_map)
  then have "behind ?U k d (lru_op (capacity c) (Put k d) (contents c))"
    unfolding put by (intro behind_new) (auto dest: in_set_takeD)
  then have "behind ?U k d (contents c1)"
    unfolding run using assms(3-5) by (intro behind_run lru_op_length[OF cap(2)]) (auto simp del: lru_op.simps)
  then have "map_of (contents c1) k = Some d" by (rule behind_lookup)
  with get_ok[OF c1(2), of k] obtain c2 where "bcache_get k c1 = Done (Some d, c2)" by auto
  with c1(1) show ?thesis by blast
qed

theorem recently_put_is_cached_witness:
  "\<exists>c1 c2. fold cache_step (Put [1] [9] # [Put [2] [8], Get [2]]) (Done (bcache_create 2)) = Done c1 \<and>
     bcache_get [1] c1 = Done (Some [9], c2)"
proof (rule recently_put_is_cached)
  show "reach fresh_cache cache_step (Done (bcache_create 2))" by (intro reach_init) (auto simp: fresh_cache_def)
qed (simp_all add: BCACHE_MAX_KEY_SIZE_def bcache_create_def Let_def)

end
