(* ===== verification/Byte_Order.thy ===== *)
theory Byte_Order
  imports Codec_Base "HOL-Library.List_Lexorder" "HOL-Library.While_Combinator"
begin

text \<open>
  How the storage components compare keys: \<open>memcmp\<close> over the shorter length, then the lengths
  (the comparison that \<open>skiplist.c\<close>, \<open>sstable.c\<close> and \<open>compaction.c\<close> write out). It is the
  lexicographic order on byte strings. Also shared here: loops as \<open>while_option\<close>, whose value is
  \<open>None\<close> where the loop does not end.
\<close>

fun memcmp :: "nat \<Rightarrow> byte list \<Rightarrow> byte list \<Rightarrow> int" where
  "memcmp (Suc n) (x # xs) (y # ys) = (if x = y then memcmp n xs ys else uint x - uint y)"
| "memcmp _ _ _ = 0"

definition key_cmp :: "byte list \<Rightarrow> byte list \<Rightarrow> int" where
  "key_cmp a b =
     (let c = memcmp (min (length a) (length b)) a b in
      if c = 0 \<and> length a \<noteq> length b then (if length a < length b then -1 else 1) else c)"

lemma key_cmp_nil: "key_cmp [] [] = 0" "key_cmp [] (y # ys) = -1" "key_cmp (x # xs) [] = 1"
  by (simp_all add: key_cmp_def)

lemma key_cmp_cons: "key_cmp (x # xs) (y # ys) = (if x = y then key_cmp xs ys else uint x - uint y)"
  by (simp add: key_cmp_def Let_def flip: word_uint_eq_iff)

lemma cons_less_cons: "(x # xs < y # ys) \<longleftrightarrow> x < y \<or> (x = y \<and> xs < ys)" for x :: "'a::linorder"
  by (auto simp: list_less_def)

lemma key_cmp_order: "(key_cmp a b < 0 \<longleftrightarrow> a < b) \<and> (key_cmp a b = 0 \<longleftrightarrow> a = b) \<and> (key_cmp a b > 0 \<longleftrightarrow> b < a)"
proof (induction a arbitrary: b)
  case Nil
  then show ?case by (cases b) (simp_all add: key_cmp_nil list_less_def)
next
  case (Cons x xs)
  then show ?case
  proof (cases b)
    case (Cons y ys)
    have "uint x - uint y < 0 \<longleftrightarrow> x < y" "uint x - uint y = 0 \<longleftrightarrow> x = y" "uint x - uint y > 0 \<longleftrightarrow> y < x"
      by (simp_all add: word_less_def flip: word_uint_eq_iff)
    with Cons.IH[of ys] Cons show ?thesis by (auto simp: key_cmp_cons cons_less_cons)
  qed (simp add: key_cmp_nil list_less_def)
qed

lemma key_cmp_iff [simp]: "key_cmp a b < 0 \<longleftrightarrow> a < b" "key_cmp a b = 0 \<longleftrightarrow> a = b" "0 < key_cmp a b \<longleftrightarrow> b < a"
  "key_cmp a b \<le> 0 \<longleftrightarrow> a \<le> b"
  using key_cmp_order[of a b] by (auto simp flip: not_less)

lemma nil_less_iff [simp]: "[] < xs \<longleftrightarrow> xs \<noteq> []" for xs :: "'a::linorder list"
  by (cases xs) (auto simp: list_less_def)

text \<open>A loop that follows a list of states to the first where its condition fails.\<close>

lemma while_path:
  assumes "successively (\<lambda>s t. b s \<and> c s = t) (xs @ [s])" "\<not> b s"
  shows "while_option b c (hd (xs @ [s])) = Some s"
  using assms(1)
proof (induction xs)
  case Nil
  then show ?case using assms(2) by (simp add: while_option_unfold)
next
  case (Cons x xs)
  then have "b x" "c x = hd (xs @ [s])" "successively (\<lambda>s t. b s \<and> c s = t) (xs @ [s])"
    by (cases xs; simp)+
  with Cons.IH show ?case by (simp add: while_option_unfold[of b c x])
qed

end
