(* ===== verification/Bloom_Filter.thy ===== *)
theory Bloom_Filter
  imports Byte_Order
begin

text \<open>
  The Bloom filter of the tables of \<open>mini-file-storage\<close> (first part of \<open>sstable.c\<close>): three
  seeded hashes of the key, each a bit of the array. A filter that has lost its array
  answers no for every key. A position is taken modulo the number of bits; a remainder by 0 bits,
  and a bit read or written outside the array, are \<open>Undefined\<close>. The arithmetic is that of 32 bits:
  the size of the array wraps.
\<close>

record bloom_filter =
  num_bits :: "32 word"
  num_bytes :: "32 word"
  bit_array :: "byte list option"

definition seeds :: "32 word list" where
  "seeds = [0x9747B28C, 0xE17A1465, 0x9AE16A3B]"

definition hash_mix :: "32 word \<Rightarrow> 32 word" where
  "hash_mix h =
     (let h = h XOR drop_bit 16 h;
          h = h * 0x85EBCA6B;
          h = h XOR drop_bit 13 h;
          h = h * 0xC2B2AE35
      in h XOR drop_bit 16 h)"

definition bloom_hash :: "byte list \<Rightarrow> 32 word \<Rightarrow> 32 word" where
  "bloom_hash data seed =
     hash_mix (fold (\<lambda>b h. let h = h XOR ucast b; h = h * 0x5BD1E995 in h XOR drop_bit 15 h) data seed)"

definition bloom_init :: "32 word \<Rightarrow> bloom_filter" where
  "bloom_init num_keys =
     (let bits = num_keys * 10;
          bits = (if bits < 64 then 64 else bits);
          bytes = (bits + 7) div 8
      in \<lparr> num_bits = bytes * 8, num_bytes = bytes, bit_array = Some (replicate (unat bytes) 0) \<rparr>)"

text \<open>One bit of the array, which must have it.\<close>

definition set_bit_at :: "32 word \<Rightarrow> byte list \<Rightarrow> byte list outcome" where
  "set_bit_at pos bits =
     (let i = unat (pos div 8) in
      if i < length bits then Done (bits[i := bits ! i OR push_bit (unat (pos mod 8)) 1]) else Undefined)"

definition get_bit_at :: "32 word \<Rightarrow> byte list \<Rightarrow> bool outcome" where
  "get_bit_at pos bits =
     (let i = unat (pos div 8) in
      if i < length bits then Done (drop_bit (unat (pos mod 8)) (bits ! i) AND 1 \<noteq> 0) else Undefined)"

definition positions :: "bloom_filter \<Rightarrow> byte list \<Rightarrow> 32 word list" where
  "positions bf key = map (\<lambda>seed. bloom_hash key seed mod num_bits bf) seeds"

fun set_bits :: "32 word list \<Rightarrow> byte list \<Rightarrow> byte list outcome" where
  "set_bits [] bits = Done bits"
| "set_bits (pos # ps) bits = bind_outcome (set_bit_at pos bits) (set_bits ps)"

fun get_bits :: "32 word list \<Rightarrow> byte list \<Rightarrow> bool list outcome" where
  "get_bits [] bits = Done []"
| "get_bits (pos # ps) bits = bind_outcome (get_bit_at pos bits) (\<lambda>ok. bind_outcome (get_bits ps bits) (\<lambda>oks. Done (ok # oks)))"

definition bloom_add :: "byte list \<Rightarrow> bloom_filter \<Rightarrow> bloom_filter outcome" where
  "bloom_add key bf =
     (if num_bits bf = 0 then Undefined
      else
        (case bit_array bf of
           None \<Rightarrow> Undefined
         | Some bits \<Rightarrow> bind_outcome (set_bits (positions bf key) bits) (\<lambda>bits. Done (bf\<lparr> bit_array := Some bits \<rparr>))))"

definition bloom_maybe_contain :: "bloom_filter \<Rightarrow> byte list \<Rightarrow> bool outcome" where
  "bloom_maybe_contain bf key =
     (case bit_array bf of
        None \<Rightarrow> Done False
      | Some bits \<Rightarrow>
          if num_bits bf = 0 then Undefined
          else bind_outcome (get_bits (positions bf key) bits) (\<lambda>oks. Done (list_all id oks)))"

text \<open>Adding several keys, one after the other.\<close>

fun bloom_add_all :: "byte list list \<Rightarrow> bloom_filter \<Rightarrow> bloom_filter outcome" where
  "bloom_add_all [] bf = Done bf"
| "bloom_add_all (key # keys) bf = bind_outcome (bloom_add key bf) (bloom_add_all keys)"

section \<open>No false negatives\<close>

text \<open>A position is inside the array of a filter.\<close>

definition wf_bloom :: "bloom_filter \<Rightarrow> bool" where
  "wf_bloom bf \<longleftrightarrow> num_bits bf \<noteq> 0 \<and>
     (\<exists>bits. bit_array bf = Some bits \<and> unat (num_bits bf) = 8 * length bits \<and> unat (num_bytes bf) = length bits)"

lemma position_inside:
  assumes "wf_bloom bf" "bit_array bf = Some bits"
  shows "unat ((h mod num_bits bf) div 8) < length bits"
proof -
  have "h mod num_bits bf < num_bits bf" using assms(1) by (simp add: wf_bloom_def word_mod_less_divisor word_neq_0_conv)
  then have "unat (h mod num_bits bf) < 8 * length bits" using assms by (simp add: wf_bloom_def word_less_nat_alt)
  moreover have "unat ((h mod num_bits bf) div 8) = unat (h mod num_bits bf) div 8" by (simp add: unat_div)
  ultimately show ?thesis by (simp add: less_mult_imp_div_less mult.commute)
qed

lemma positions_inside:
  assumes "wf_bloom bf" "bit_array bf = Some bits"
  shows "\<forall>pos \<in> set (positions bf key). unat (pos div 8) < length bits"
  using position_inside[OF assms] by (auto simp: positions_def)

text \<open>Inside the array, the operations are those on the bits.\<close>

definition bit_of :: "byte list \<Rightarrow> 32 word \<Rightarrow> bool" where
  "bit_of bits pos \<longleftrightarrow> bit (bits ! unat (pos div 8)) (unat (pos mod 8))"

lemma get_bit_inside: "unat (pos div 8) < length bits \<Longrightarrow> get_bit_at pos bits = Done (bit_of bits pos)"
  by (simp add: get_bit_at_def bit_of_def bit_iff_odd_drop_bit and_one_eq odd_iff_mod_2_eq_one)

lemma pos_mod_8: "unat (pos mod 8 :: 32 word) < 8"
  by (simp add: unat_mod)

lemma set_bit_inside:
  assumes "unat (pos div 8) < length bits"
  shows "\<exists>bits'. set_bit_at pos bits = Done bits' \<and> length bits' = length bits \<and>
    (\<forall>q. bit_of bits' q \<longleftrightarrow> q = pos \<or> bit_of bits q)"
proof -
  have same: "q = pos" if "unat (q div 8) = unat (pos div 8)" "unat (q mod 8) = unat (pos mod 8)" for q
  proof -
    have "q div 8 = pos div 8" "q mod 8 = pos mod 8" using that by (simp_all add: word_unat_eq_iff)
    then show ?thesis by (metis div_mult_mod_eq)
  qed
  let ?i = "unat (pos div 8)"
  let ?b = "bits[?i := bits ! ?i OR push_bit (unat (pos mod 8)) 1]"
  have "bit_of ?b q \<longleftrightarrow> q = pos \<or> bit_of bits q" for q
    using assms pos_mod_8[of q] same[of q]
    by (auto simp: bit_of_def nth_upd_if bit_or_iff bit_push_bit_iff bit_exp_iff)
  then show ?thesis using assms by (auto simp: set_bit_at_def Let_def)
qed

lemma set_bits_inside:
  "\<forall>pos \<in> set ps. unat (pos div 8) < length bits \<Longrightarrow>
   \<exists>bits'. set_bits ps bits = Done bits' \<and> length bits' = length bits \<and> (\<forall>q. bit_of bits' q \<longleftrightarrow> q \<in> set ps \<or> bit_of bits q)"
proof (induction ps arbitrary: bits)
  case (Cons pos ps)
  from set_bit_inside[of pos bits] Cons.prems obtain b1 where
    b1: "set_bit_at pos bits = Done b1" "length b1 = length bits" "\<forall>q. bit_of b1 q \<longleftrightarrow> q = pos \<or> bit_of bits q" by auto
  from Cons.IH[of b1] Cons.prems b1(2) obtain b2 where
    "set_bits ps b1 = Done b2" "length b2 = length b1" "\<forall>q. bit_of b2 q \<longleftrightarrow> q \<in> set ps \<or> bit_of b1 q" by auto
  with b1 show ?case by auto
qed simp

lemma get_bits_inside:
  "\<forall>pos \<in> set ps. unat (pos div 8) < length bits \<Longrightarrow> get_bits ps bits = Done (map (bit_of bits) ps)"
  by (induction ps) (simp_all add: get_bit_inside)

text \<open>The answer of a filter whose positions are inside its array.\<close>

definition bloom_holds :: "bloom_filter \<Rightarrow> byte list \<Rightarrow> bool" where
  "bloom_holds bf key \<longleftrightarrow> bloom_maybe_contain bf key = Done True"

lemma bloom_answers:
  assumes "wf_bloom bf" "bit_array bf = Some bits"
  shows "bloom_maybe_contain bf key = Done (\<forall>pos \<in> set (positions bf key). bit_of bits pos)"
  using assms(1) get_bits_inside[OF positions_inside[OF assms], of key]
  by (simp add: bloom_maybe_contain_def assms(2) wf_bloom_def list.pred_set)

lemma bloom_defined:
  assumes "wf_bloom bf"
  shows "\<exists>b. bloom_maybe_contain bf key = Done b"
proof -
  obtain bits where "bit_array bf = Some bits" using assms by (auto simp: wf_bloom_def)
  from bloom_answers[OF assms this] show ?thesis by blast
qed

lemma bloom_add_ok:
  assumes "wf_bloom bf"
  shows "\<exists>bf'. bloom_add key bf = Done bf' \<and> wf_bloom bf' \<and> num_bits bf' = num_bits bf \<and> num_bytes bf' = num_bytes bf \<and>
    bloom_holds bf' key \<and> (\<forall>k. bloom_holds bf k \<longrightarrow> bloom_holds bf' k)"
proof -
  obtain bits where b: "bit_array bf = Some bits" using assms by (auto simp: wf_bloom_def)
  from set_bits_inside[OF positions_inside[OF assms b], of key] obtain b' where
    s: "set_bits (positions bf key) bits = Done b'" "length b' = length bits"
    "\<forall>q. bit_of b' q \<longleftrightarrow> q \<in> set (positions bf key) \<or> bit_of bits q" by blast
  define bf' where "bf' = bf\<lparr> bit_array := Some b' \<rparr>"
  have add: "bloom_add key bf = Done bf'" using assms by (simp add: bloom_add_def wf_bloom_def b s(1) bf'_def)
  have wf: "wf_bloom bf'" using assms b s(2) by (simp add: wf_bloom_def bf'_def)
  have "bit_array bf' = Some b'" "positions bf' = positions bf" by (simp_all add: bf'_def positions_def fun_eq_iff)
  then have "bloom_maybe_contain bf' k = Done (\<forall>pos \<in> set (positions bf k). bit_of b' pos)" for k
    using bloom_answers[OF wf] by simp
  moreover have "bloom_maybe_contain bf k = Done (\<forall>pos \<in> set (positions bf k). bit_of bits pos)" for k
    by (rule bloom_answers[OF assms b])
  ultimately have "bloom_holds bf' key" "\<forall>k. bloom_holds bf k \<longrightarrow> bloom_holds bf' k"
    using s(3) by (auto simp: bloom_holds_def)
  then show ?thesis using add wf by (simp add: bf'_def)
qed

lemma bloom_add_all_ok:
  "wf_bloom bf \<Longrightarrow> \<exists>bf'. bloom_add_all keys bf = Done bf' \<and> wf_bloom bf' \<and> num_bytes bf' = num_bytes bf \<and>
     (\<forall>key. key \<in> set keys \<or> bloom_holds bf key \<longrightarrow> bloom_holds bf' key)"
proof (induction keys arbitrary: bf)
  case (Cons k ks)
  from bloom_add_ok[OF Cons.prems, of k] obtain b1 where
    b1: "bloom_add k bf = Done b1" "wf_bloom b1" "num_bytes b1 = num_bytes bf" "bloom_holds b1 k"
    "\<forall>k. bloom_holds bf k \<longrightarrow> bloom_holds b1 k" by blast
  from Cons.IH[OF b1(2)] obtain b2 where
    "bloom_add_all ks b1 = Done b2" "wf_bloom b2" "num_bytes b2 = num_bytes b1"
    "\<forall>key. key \<in> set ks \<or> bloom_holds b1 key \<longrightarrow> bloom_holds b2 key" by blast
  with b1 show ?case by auto
qed simp

lemma bloom_add_all_append:
  "bloom_add_all (xs @ ys) bf = bind_outcome (bloom_add_all xs bf) (bloom_add_all ys)"
proof (induction xs arbitrary: bf)
  case (Cons x xs)
  then show ?case by (cases "bloom_add x bf") simp_all
qed simp

text \<open>The size of the array: ten bits per key, at least 64, rounded up to whole bytes.\<close>

lemma bloom_init_eq:
  fixes n :: "32 word"
  defines "b \<equiv> (if n * 10 < 64 then 64 else n * 10)"
  shows "bloom_init n = \<lparr> num_bits = (b + 7) div 8 * 8, num_bytes = (b + 7) div 8, bit_array = Some (replicate (unat ((b + 7) div 8)) 0) \<rparr>"
    "unat b = max (unat (n * 10)) 64"
  by (auto simp: bloom_init_def b_def Let_def word_less_nat_alt)

lemma bloom_init_ok:
  assumes "unat (n * 10) + 7 < 2 ^ 32"
  shows "wf_bloom (bloom_init n)" "unat (num_bytes (bloom_init n)) = (max (unat (n * 10)) 64 + 7) div 8"
proof -
  define b where "b = (if n * 10 < 64 then 64 else n * 10)"
  define m where "m = unat (n * 10)"
  note i = bloom_init_eq[of n, folded b_def, folded m_def] and m = assms[folded m_def]
  have b7: "unat (b + 7) = max m 64 + 7" using m i(2) by (simp add: unat_word_ariths max_def)
  then have bytes: "unat ((b + 7) div 8) = (max m 64 + 7) div 8" by (simp add: unat_div)
  moreover have small: "(max m 64 + 7) div 8 * 8 < 2 ^ 32" "(max m 64 + 7) div 8 > 0"
    using m by (auto simp: max_def)
  ultimately have bits: "unat ((b + 7) div 8 * 8) = 8 * ((max m 64 + 7) div 8)"
    by (simp add: unat_word_ariths)
  have "(b + 7) div 8 * 8 \<noteq> 0" using bits small(2) by (metis mult_is_0 neq0_conv unat_0 zero_neq_numeral)
  then show "wf_bloom (bloom_init n)" "unat (num_bytes (bloom_init n)) = (max (unat (n * 10)) 64 + 7) div 8"
    using bits bytes unfolding m_def[symmetric] by (simp_all add: wf_bloom_def i)
qed

text \<open>When the rounding wraps, the filter has no bits, and using it divides by zero.\<close>

lemma bloom_init_wraps:
  assumes "\<not> unat (n * 10) + 7 < 2 ^ 32"
  shows "bloom_add key (bloom_init n) = Undefined" "bloom_maybe_contain (bloom_init n) key = Undefined"
proof -
  define b where "b = (if n * 10 < 64 then 64 else n * 10)"
  define m where "m = unat (n * 10)"
  note i = bloom_init_eq[of n, folded b_def, folded m_def]
  have "unat b < 2 ^ 32" using unsigned_less[of b, where ?'a = nat] by simp
  moreover have "2 ^ 32 \<le> unat b + 7" using assms[folded m_def] i(2) by simp
  ultimately have "(unat b + 7) mod 2 ^ 32 < 8" using le_mod_geq[of "2 ^ 32" "unat b + 7"] by simp
  then have "unat (b + 7) < 8" by (simp add: unat_word_ariths)
  then have "(b + 7) div 8 = 0" by (simp add: unat_div word_unat_eq_iff)
  then show "bloom_add key (bloom_init n) = Undefined" "bloom_maybe_contain (bloom_init n) key = Undefined"
    by (simp_all add: i(1) bloom_add_def bloom_maybe_contain_def)
qed

text \<open>
  C29. The filter has no false negatives, and never leaves its bit array: when the size computed for
  a new filter, ten bits per key in 32 bits, does not wrap on rounding to bytes, any keys can be
  added, the filter then answers yes for each of them, and it answers every other question; every
  bit written or read on the way is inside the array. When the rounding wraps (as for 429496729
  keys), the filter has no bits, and the first key added or asked for divides by zero.
\<close>

theorem bloom_no_false_negatives:
  "if unat (n * 10) + 7 < 2 ^ 32
   then \<exists>bf. bloom_add_all keys (bloom_init n) = Done bf \<and>
     (\<forall>key \<in> set keys. bloom_maybe_contain bf key = Done True) \<and> (\<forall>key. \<exists>b. bloom_maybe_contain bf key = Done b)
   else (keys \<noteq> [] \<longrightarrow> bloom_add_all keys (bloom_init n) = Undefined) \<and>
     (\<forall>key. bloom_maybe_contain (bloom_init n) key = Undefined)"
proof (cases "unat (n * 10) + 7 < 2 ^ 32")
  case True
  from bloom_add_all_ok[OF bloom_init_ok(1)[OF True], of keys] obtain bf where
    "bloom_add_all keys (bloom_init n) = Done bf" "wf_bloom bf" "\<forall>key. key \<in> set keys \<longrightarrow> bloom_holds bf key" by blast
  with True bloom_defined[of bf] show ?thesis by (simp add: bloom_holds_def)
next
  case False
  note w = bloom_init_wraps[OF False]
  have "bloom_add_all keys (bloom_init n) = Undefined" if "keys \<noteq> []" using that by (cases keys) (simp_all add: w)
  then show ?thesis using False w(2) by simp
qed

theorem bloom_no_false_negatives_witness:
  "(\<exists>bf. bloom_add_all [[1, 2], [3]] (bloom_init 2) = Done bf \<and> bloom_maybe_contain bf [3] = Done True) \<and>
   bloom_add_all [[1]] (bloom_init 429496729) = Undefined"
proof
  show "\<exists>bf. bloom_add_all [[1, 2], [3]] (bloom_init 2) = Done bf \<and> bloom_maybe_contain bf [3] = Done True"
    using bloom_no_false_negatives[of 2 "[[1, 2], [3]]"] by auto
  show "bloom_add_all [[1]] (bloom_init 429496729) = Undefined"
    using bloom_no_false_negatives[of 429496729 "[[1]]"] by simp
qed

end
