(* ===== verification/Sstable.thy ===== *)
theory Sstable
  imports Bloom_Filter
begin

text \<open>
  The sorted tables of \<open>mini-file-storage\<close> (\<open>sstable.h\<close>, \<open>sstable.c\<close>): a file of data blocks with
  prefix compressed entries, an index of the last key of each block, a Bloom filter and a footer.
  Writing yields the bytes of the file, reading starts from them; creating and opening files is
  assumed to succeed, and so are allocations. A read outside a buffer, of bytes never written,
  through a pointer that was left NULL, and a scan that does not end are \<open>Undefined\<close>.
\<close>

definition SSTABLE_MAGIC :: "32 word" where "SSTABLE_MAGIC = 0x88E2416B"
definition BLOCK_SIZE :: nat where [c_consts]: "BLOCK_SIZE = 4096"
definition MAX_KEY_SIZE :: nat where [c_consts]: "MAX_KEY_SIZE = 256"
definition MAX_VALUE_SIZE :: nat where [c_consts]: "MAX_VALUE_SIZE = 1024"
definition RESTART_INTERVAL :: nat where [c_consts]: "RESTART_INTERVAL = 16"
definition FOOTER_SIZE :: nat where [c_consts]: "FOOTER_SIZE = 48"

type_synonym kvs = "(byte list \<times> byte list) list"

record index_entry =
  last_key :: "byte list"
  block_offset :: "32 word"
  block_size :: "32 word"

record data_block =
  num_entries :: "32 word"
  data_size :: "32 word"
  data :: "byte list option"
  num_restarts :: "32 word"
  restart_offsets :: "32 word list option"

record sstable =
  file_size :: nat
  data_blocks :: "data_block list"
  index_block :: "index_entry list"
  bloom :: bloom_filter

abbreviation le32 :: "32 word \<Rightarrow> byte list" where
  "le32 w \<equiv> le_bytes 4 w"

section \<open>Writing\<close>

fun common_prefix :: "byte list \<Rightarrow> byte list \<Rightarrow> nat" where
  "common_prefix (x # xs) (y # ys) = (if x = y then Suc (common_prefix xs ys) else 0)"
| "common_prefix _ _ = 0"

text \<open>Entry \<open>i\<close> of a block, after the entry with key \<open>prev\<close>.\<close>

definition entry_bytes :: "nat \<Rightarrow> byte list \<Rightarrow> byte list \<Rightarrow> byte list \<Rightarrow> byte list" where
  "entry_bytes i prev key val =
     (let shared = (if i mod RESTART_INTERVAL \<noteq> 0 then common_prefix prev key else 0);
          non_shared = length key - shared
      in le32 (of_nat shared) @ le32 (of_nat non_shared) @ le32 (of_nat (length val)) @ drop shared key @ val)"

fun serialize_loop :: "nat \<Rightarrow> byte list \<Rightarrow> kvs \<Rightarrow> byte list \<Rightarrow> 32 word list \<Rightarrow> byte list \<times> 32 word list" where
  "serialize_loop i prev [] buf restarts = (buf, restarts)"
| "serialize_loop i prev ((k, v) # kvs) buf restarts =
     serialize_loop (Suc i) k kvs (buf @ entry_bytes i prev k v)
       (if i mod RESTART_INTERVAL = 0 then restarts @ [of_nat (length buf)] else restarts)"

definition serialize_data_block :: "kvs \<Rightarrow> (byte list \<times> 32 word list) outcome" where
  "serialize_data_block kvs =
     (let (buf, restarts) = serialize_loop 0 [] kvs [] [] in
      if length buf > BLOCK_SIZE then Undefined else Done (buf, restarts))"

fun block_count :: "nat \<Rightarrow> kvs \<Rightarrow> nat" where
  "block_count est_size [] = 0"
| "block_count est_size ((k, v) # kvs) =
     (if est_size + length k + length v + 16 < BLOCK_SIZE * 3 div 4
      then Suc (block_count (est_size + length k + length v + 16) kvs) else 0)"

definition next_block :: "kvs \<Rightarrow> nat" where
  "next_block kvs = (if block_count 0 kvs = 0 then 1 else block_count 0 kvs)"

definition block_bytes :: "kvs \<Rightarrow> byte list \<Rightarrow> 32 word list \<Rightarrow> byte list" where
  "block_bytes kvs buf restarts =
     le32 (of_nat (length kvs)) @ le32 (of_nat (length buf)) @ le32 (of_nat (length restarts)) @ buf @
     concat (map le32 restarts) @ le32 (of_nat (length restarts))"

text \<open>The blocks, with what has been written, the index entries and the filter so far.\<close>

function write_blocks :: "kvs \<Rightarrow> byte list \<Rightarrow> index_entry list \<Rightarrow> bloom_filter \<Rightarrow>
    (byte list \<times> index_entry list \<times> bloom_filter) outcome" where
  "write_blocks kvs file index bf =
     (if kvs = [] then Done (file, index, bf)
      else
        (let n = next_block kvs; block = take n kvs in
         bind_outcome (serialize_data_block block)
           (\<lambda>(buf, restarts).
              let file = file @ block_bytes block buf restarts;
                  key = fst (last block);
                  size = of_nat (length buf) + 12 + of_nat (length restarts) * 4 + 4
              in if length key > MAX_KEY_SIZE then Undefined
                 else bind_outcome (bloom_add_all (map fst block) bf)
                        (write_blocks (drop n kvs) file
                           (index @ [\<lparr> last_key = key, block_offset = of_nat (length file) - size, block_size = size \<rparr>])))))"
  by pat_completeness auto
termination
  by (relation "measure (\<lambda>(kvs, _). length kvs)") (auto simp: next_block_def)

declare write_blocks.simps [simp del]

definition index_entry_bytes :: "index_entry \<Rightarrow> byte list" where
  "index_entry_bytes e =
     le32 (of_nat (length (last_key e))) @ last_key e @ le32 (block_offset e) @ le32 (block_size e)"

definition index_bytes :: "index_entry list \<Rightarrow> byte list" where
  "index_bytes index = le32 (of_nat (length index)) @ concat (map index_entry_bytes index)"

definition footer_bytes :: "32 word \<Rightarrow> 32 word \<Rightarrow> byte list" where
  "footer_bytes index_start iblk_sz = le32 index_start @ le32 iblk_sz @ le32 SSTABLE_MAGIC @ replicate 36 0"

definition sstable_write :: "kvs \<Rightarrow> byte list outcome" where
  "sstable_write kvs =
     bind_outcome (write_blocks kvs [] [] (bloom_init (of_nat (length kvs))))
       (\<lambda>(file, index, bf).
          let index_start = of_nat (length file);
              iblk_sz = of_nat (sum_list (map (\<lambda>e. 12 + length (last_key e)) index) + 4)
          in Done (file @ index_bytes index @ le32 (num_bytes bf) @ the (bit_array bf) @ footer_bytes index_start iblk_sz))"

section \<open>Reading\<close>

text \<open>A value and the bytes after it.\<close>

definition read_u32 :: "byte list \<Rightarrow> (32 word \<times> byte list) option" where
  "read_u32 bs = (if length bs < 4 then None else Some (le_value (take 4 bs), drop 4 bs))"

definition read_index_entry :: "byte list \<Rightarrow> (index_entry \<times> byte list) option" where
  "read_index_entry bs =
     Option.bind (read_u32 bs) (\<lambda>(len, bs).
       if unat len > MAX_KEY_SIZE \<or> length bs < unat len then None
       else
         (let key = take (unat len) bs in
          Option.bind (read_u32 (drop (unat len) bs)) (\<lambda>(off, bs).
          Option.bind (read_u32 bs) (\<lambda>(sz, bs).
            Some (\<lparr> last_key = key, block_offset = off, block_size = sz \<rparr>, bs)))))"

fun read_index :: "nat \<Rightarrow> byte list \<Rightarrow> index_entry list option" where
  "read_index 0 bs = Some []"
| "read_index (Suc n) bs =
     Option.bind (read_index_entry bs) (\<lambda>(e, bs). Option.bind (read_index n bs) (\<lambda>es. Some (e # es)))"

definition read_bloom :: "byte list \<Rightarrow> bloom_filter" where
  "read_bloom bs =
     (case read_u32 bs of
        None \<Rightarrow> \<lparr> num_bits = 0, num_bytes = 0, bit_array = None \<rparr>
      | Some (n, bs) \<Rightarrow>
          \<lparr> num_bits = n * 8, num_bytes = n,
            bit_array = (if length bs < unat n then None else Some (take (unat n) bs)) \<rparr>)"

fun read_words :: "nat \<Rightarrow> byte list \<Rightarrow> 32 word list" where
  "read_words 0 bs = []"
| "read_words (Suc n) bs = (case read_u32 bs of None \<Rightarrow> [] | Some (w, bs) \<Rightarrow> w # read_words n bs)"

definition empty_block :: data_block where
  "empty_block = \<lparr> num_entries = 0, data_size = 0, data = None, num_restarts = 0, restart_offsets = None \<rparr>"

definition read_block :: "byte list \<Rightarrow> data_block" where
  "read_block bs =
     (case read_u32 bs of
        None \<Rightarrow> empty_block
      | Some (n, bs) \<Rightarrow>
          (let db = empty_block\<lparr> num_entries := n \<rparr> in
           case read_u32 bs of
             None \<Rightarrow> db
           | Some (sz, bs) \<Rightarrow>
               (let db = db\<lparr> data_size := sz \<rparr> in
                case read_u32 bs of
                  None \<Rightarrow> db
                | Some (r, bs) \<Rightarrow>
                    (let db = db\<lparr> num_restarts := r, data := Some (take (unat sz) bs) \<rparr> in
                     if length bs < unat sz then db
                     else db\<lparr> restart_offsets := Some (read_words (unat r) (drop (unat sz) bs)) \<rparr>))))"

definition sstable_read :: "byte list \<Rightarrow> sstable option" where
  "sstable_read file =
     (if length file < FOOTER_SIZE then None
      else
        (let footer = drop (length file - FOOTER_SIZE) file;
             index_block_offset = (le_value (take 4 footer) :: 32 word);
             index_block_size = (le_value (take 4 (drop 4 footer)) :: 32 word);
             magic = (le_value (take 4 (drop 8 footer)) :: 32 word)
         in if magic \<noteq> SSTABLE_MAGIC then None
            else
              Option.bind (read_u32 (drop (unat index_block_offset) file)) (\<lambda>(ie_count, bs).
              Option.bind (read_index (unat ie_count) bs) (\<lambda>index.
                Some \<lparr> file_size = length file,
                       data_blocks = map (\<lambda>e. read_block (drop (unat (block_offset e)) file)) index,
                       index_block = index,
                       bloom = read_bloom (drop (unat (index_block_offset + index_block_size)) file) \<rparr>))))"

section \<open>Searching\<close>

definition slice :: "byte list \<Rightarrow> nat \<Rightarrow> nat \<Rightarrow> byte list option" where
  "slice bs off n = (if off + n \<le> length bs then Some (take n (drop off bs)) else None)"

definition word_at :: "byte list \<Rightarrow> nat \<Rightarrow> 32 word option" where
  "word_at bs off = map_option le_value (slice bs off 4)"

text \<open>The key at a restart compared with the target.\<close>

definition restart_cmp :: "data_block \<Rightarrow> nat \<Rightarrow> byte list \<Rightarrow> int option" where
  "restart_cmp block i target =
     (case (data block, restart_offsets block) of
        (Some bs, Some offs) \<Rightarrow>
          if i < length offs
          then Option.bind (word_at bs (unat (offs ! i) + 4)) (\<lambda>rklen.
               let cmp_len = min (unat rklen) (length target) in
               Option.bind (slice bs (unat (offs ! i) + 12) cmp_len) (\<lambda>rkey.
                 let c = memcmp cmp_len rkey target in
                 Some (if c = 0 \<and> unat rklen \<noteq> length target
                       then (if unat rklen < length target then -1 else 1) else c)))
          else None
      | _ \<Rightarrow> None)"

text \<open>The last restart whose key is at most the target.\<close>

function restart_search :: "data_block \<Rightarrow> byte list \<Rightarrow> nat \<Rightarrow> nat \<Rightarrow> nat option" where
  "restart_search block target lo hi =
     (if lo < hi then
        (let mid = lo + (hi - lo + 1) div 2 in
         case restart_cmp block mid target of
           None \<Rightarrow> None
         | Some c \<Rightarrow> if c \<le> 0 then restart_search block target mid hi else restart_search block target lo (mid - 1))
      else Some lo)"
  by pat_completeness auto
termination
  by (relation "measure (\<lambda>(block, target, lo, hi). hi - lo)") auto

declare restart_search.simps [simp del]

text \<open>
  One entry at \<open>pos\<close>, as the scans read it: its key, the length of its value and the position of
  the value. \<open>prev\<close> is the part of the key buffer written so far.
\<close>

definition entry_at :: "byte list \<Rightarrow> 32 word \<Rightarrow> byte list \<Rightarrow> (byte list \<times> 32 word \<times> 32 word) option" where
  "entry_at bs pos prev =
     (case (word_at bs (unat pos), word_at bs (unat (pos + 4)), word_at bs (unat (pos + 8))) of
        (Some shared, Some nonshared, Some vlen) \<Rightarrow>
          (let pos = pos + 12 in
           case slice bs (unat pos) (unat nonshared) of
             None \<Rightarrow> None
           | Some rest \<Rightarrow>
               if unat shared > length prev \<or> unat shared + unat nonshared > MAX_KEY_SIZE then None
               else Some (take (unat shared) prev @ rest, vlen, pos + nonshared))
      | _ \<Rightarrow> None)"

text \<open>A found value is copied only when it fits the buffer of the caller.\<close>

partial_function (option) scan ::
    "byte list \<Rightarrow> byte list \<Rightarrow> 32 word \<Rightarrow> 32 word \<Rightarrow> byte list \<Rightarrow> (byte list option \<times> 32 word) option outcome option" where
  "scan bs target end_off pos prev =
     (if \<not> pos < end_off then Some (Done None)
      else
        (case entry_at bs pos prev of
           None \<Rightarrow> Some Undefined
         | Some (cur, vlen, pos) \<Rightarrow>
             if cur = target
             then (if unat vlen \<le> MAX_VALUE_SIZE
                   then Some (case slice bs (unat pos) (unat vlen) of
                                None \<Rightarrow> Undefined | Some v \<Rightarrow> Done (Some (Some v, vlen)))
                   else Some (Done (Some (None, vlen))))
             else scan bs target end_off (pos + vlen) (cur @ drop (length cur) prev)))"

definition block_search :: "data_block \<Rightarrow> byte list \<Rightarrow> (byte list option \<times> 32 word) option outcome" where
  "block_search block target =
     (if num_restarts block = 0 then Done None
      else
        (case (data block, restart_offsets block, restart_search block target 0 (unat (num_restarts block) - 1)) of
           (Some bs, Some offs, Some lo) \<Rightarrow>
             if lo < length offs \<and> (lo + 1 < unat (num_restarts block) \<longrightarrow> lo + 1 < length offs)
             then (let end_off = (if lo + 1 < unat (num_restarts block) then offs ! (lo + 1) else data_size block) in
                   case scan bs target end_off (offs ! lo) [] of None \<Rightarrow> Undefined | Some r \<Rightarrow> r)
             else Undefined
         | _ \<Rightarrow> Undefined))"

text \<open>The first index from \<open>lo\<close> on where \<open>p\<close> fails, by bisection.\<close>

function bisect :: "(nat \<Rightarrow> bool) \<Rightarrow> nat \<Rightarrow> nat \<Rightarrow> nat" where
  "bisect p lo hi =
     (if lo < hi then (let mid = lo + (hi - lo) div 2 in if p mid then bisect p (mid + 1) hi else bisect p lo mid)
      else lo)"
  by pat_completeness auto
termination
  by (relation "measure (\<lambda>(p, lo, hi). hi - lo)") auto

declare bisect.simps [simp del]

definition index_search :: "index_entry list \<Rightarrow> byte list \<Rightarrow> nat" where
  "index_search index key = bisect (\<lambda>i. key_cmp key (last_key (index ! i)) > 0) 0 (length index)"

definition sstable_get :: "sstable \<Rightarrow> byte list \<Rightarrow> (byte list option \<times> 32 word) option outcome" where
  "sstable_get table key =
     bind_outcome (if bit_array (bloom table) \<noteq> None then bloom_maybe_contain (bloom table) key else Done True)
       (\<lambda>maybe.
          if \<not> maybe \<or> index_block table = [] then Done None
          else
            (let lo = index_search (index_block table) key;
                 lo = (if lo \<ge> length (index_block table) then length (index_block table) - 1 else lo)
             in block_search (data_blocks table ! lo) key))"

section \<open>Bisection\<close>

lemma bisect_first:
  assumes "\<forall>i < j. p i" "\<forall>i. j \<le> i \<longrightarrow> i < n \<longrightarrow> \<not> p i" "lo \<le> j" "j \<le> hi" "hi \<le> n"
  shows "bisect p lo hi = j"
  using assms
proof (induction p lo hi rule: bisect.induct)
  case (1 p lo hi)
  define mid where "mid = lo + (hi - lo) div 2"
  show ?case
  proof (cases "lo < hi")
    case True
    then have mid: "lo \<le> mid" "mid < hi" by (auto simp: mid_def)
    have e: "bisect p lo hi = (if p mid then bisect p (mid + 1) hi else bisect p lo mid)"
      using True by (subst bisect.simps) (simp add: mid_def Let_def)
    show ?thesis
    proof (cases "p mid")
      case t: True
      then have "mid < j" using 1(4,7) mid by (meson less_le_trans not_le)
      then have "bisect p (mid + 1) hi = j" using 1(1)[OF True mid_def t] 1(3-7) by simp
      with e t show ?thesis by simp
    next
      case f: False
      then have "j \<le> mid" using 1(3) by (meson not_le)
      then have "bisect p lo mid = j" using 1(2)[OF True mid_def f] 1(3-7) mid by simp
      with e f show ?thesis by simp
    qed
  next
    case False
    then show ?thesis using 1(5,6) by (subst bisect.simps) simp
  qed
qed

section \<open>Reading back bytes\<close>

lemma slice_mid [simp]: "slice (pre @ xs @ post) (length pre) (length xs) = Some xs"
  by (simp add: slice_def)

lemma word_at_mid: "off = length pre \<Longrightarrow> word_at (pre @ le32 w @ post) off = Some w"
  by (simp add: word_at_def slice_def le_value_full)

lemma read_u32_le [simp]: "read_u32 (le32 w @ bs) = Some (w, bs)"
  by (simp add: read_u32_def le_value_full)

section \<open>The entries of a block\<close>

fun entries_bytes :: "nat \<Rightarrow> byte list \<Rightarrow> kvs \<Rightarrow> byte list" where
  "entries_bytes i prev [] = []"
| "entries_bytes i prev ((k, v) # kvs) = entry_bytes i prev k v @ entries_bytes (Suc i) k kvs"

definition last_of :: "byte list \<Rightarrow> kvs \<Rightarrow> byte list" where
  "last_of prev kvs = (if kvs = [] then prev else fst (last kvs))"

lemma entries_bytes_append:
  "entries_bytes i prev (xs @ ys) = entries_bytes i prev xs @ entries_bytes (i + length xs) (last_of prev xs) ys"
  by (induction i prev xs rule: entries_bytes.induct) (auto simp: last_of_def)

text \<open>The offsets of the restarts: the entries whose number is a multiple of the interval.\<close>

definition restarts_of :: "nat \<Rightarrow> byte list \<Rightarrow> kvs \<Rightarrow> nat list" where
  "restarts_of i prev kvs =
     map (\<lambda>j. length (entries_bytes i prev (take j kvs))) (filter (\<lambda>j. (i + j) mod RESTART_INTERVAL = 0) [0..<length kvs])"

lemma upt_Suc_map: "[0..<Suc n] = 0 # map Suc [0..<n]"
  by (simp add: map_Suc_upt upt_conv_Cons del: upt_Suc)

lemma restarts_of_Cons:
  "restarts_of i prev ((k, v) # kvs) =
     (if i mod RESTART_INTERVAL = 0 then [0] else []) @
     map ((+) (length (entry_bytes i prev k v))) (restarts_of (Suc i) k kvs)"
proof -
  have e: "[0..<length ((k, v) # kvs)] = 0 # map Suc [0..<length kvs]" using upt_Suc_map[of "length kvs"] by simp
  show ?thesis
    unfolding restarts_of_def e filter.simps filter_map list.map map_map comp_def by (simp del: upt_Suc map_Suc_upt)
qed

lemma serialize_loop_eq:
  "serialize_loop i prev kvs buf restarts =
     (buf @ entries_bytes i prev kvs, restarts @ map (\<lambda>n. of_nat (length buf + n)) (restarts_of i prev kvs))"
proof (induction i prev kvs buf restarts rule: serialize_loop.induct)
  case (2 i prev k v kvs buf restarts)
  then show ?case by (simp add: restarts_of_Cons comp_def add.assoc)
qed (simp add: restarts_of_def)

lemma multiples_upt: "filter (\<lambda>j. j mod 16 = 0) [0..<n] = map ((*) 16) [0..<(n + 15) div 16]"
proof (induction n)
  case (Suc n)
  show ?case
  proof (cases "n mod 16 = 0")
    case True
    then obtain m where "n = 16 * m" by auto
    then have "(n + 15) div 16 = m" "(Suc n + 15) div 16 = Suc m" by simp_all
    with Suc True \<open>n = 16 * m\<close> show ?thesis by simp
  next
    case False
    have "16 * (n div 16) + n mod 16 = n" "n mod 16 < 16" by simp_all
    then have "(Suc n + 15) div 16 = n div 16 + 1" "(n + 15) div 16 = n div 16 + 1"
      using False by (intro div_nat_eqI; simp; arith)+
    with Suc False show ?thesis by simp
  qed
qed simp

lemma restarts_of_block:
  "restarts_of 0 [] kvs = map (\<lambda>r. length (entries_bytes 0 [] (take (16 * r) kvs))) [0..<(length kvs + 15) div 16]"
  by (simp add: restarts_of_def RESTART_INTERVAL_def multiples_upt comp_def del: upt_Suc)

section \<open>Scanning entries\<close>

text \<open>Entries whose keys and values fit the arrays of the code.\<close>

definition small :: "kvs \<Rightarrow> bool" where
  "small kvs \<longleftrightarrow> (\<forall>(k, v) \<in> set kvs. length k \<le> MAX_KEY_SIZE \<and> length v \<le> MAX_VALUE_SIZE)"

definition shared_len :: "nat \<Rightarrow> byte list \<Rightarrow> byte list \<Rightarrow> nat" where
  "shared_len i prev key = (if i mod RESTART_INTERVAL \<noteq> 0 then common_prefix prev key else 0)"

lemma entry_bytes_eq: "entry_bytes i prev key val =
    le32 (of_nat (shared_len i prev key)) @ le32 (of_nat (length key - shared_len i prev key)) @
    le32 (of_nat (length val)) @ drop (shared_len i prev key) key @ val"
  by (simp add: entry_bytes_def shared_len_def Let_def)

lemma common_prefix_le: "common_prefix xs ys \<le> length xs" "common_prefix xs ys \<le> length ys"
  by (induction xs ys rule: common_prefix.induct) auto

lemma common_prefix_take: "take (common_prefix xs ys) xs = take (common_prefix xs ys) ys"
  by (induction xs ys rule: common_prefix.induct) auto

text \<open>The key buffer starts with the previous key, except at a restart, where it does not matter.\<close>

definition buffer_ok :: "nat \<Rightarrow> byte list \<Rightarrow> byte list \<Rightarrow> bool" where
  "buffer_ok i prev pb \<longleftrightarrow> i mod RESTART_INTERVAL = 0 \<or> take (length prev) pb = prev"

lemma shared_key:
  assumes "buffer_ok i prev pb"
  shows "shared_len i prev key \<le> length key" "shared_len i prev key \<le> length pb"
    "take (shared_len i prev key) pb @ drop (shared_len i prev key) key = key"
proof -
  let ?s = "shared_len i prev key"
  show le: "?s \<le> length key" by (simp add: shared_len_def common_prefix_le)
  have "?s \<le> length pb \<and> take ?s pb = take ?s key"
  proof (cases "i mod RESTART_INTERVAL = 0")
    case False
    then have p: "take (length prev) pb = prev" "?s = common_prefix prev key"
      using assms by (simp_all add: buffer_ok_def shared_len_def)
    have s: "?s \<le> length prev" by (simp add: p(2) common_prefix_le)
    have "length prev \<le> length pb" using p(1) by (metis length_take min.cobounded1)
    moreover have "take ?s pb = take ?s prev" using p(1) s by (metis min.absorb1 take_take)
    ultimately show ?thesis using s p(2) common_prefix_take[of prev key] by simp
  qed (simp add: shared_len_def)
  then show "?s \<le> length pb" "take ?s pb @ drop ?s key = key" by simp_all
qed

lemma unat_small: "n < 2 ^ 32 \<Longrightarrow> unat (of_nat n :: 32 word) = n"
  by (simp add: unat_of_nat)

lemma of_nat_add_small: "of_nat m + of_nat n = (of_nat (m + n) :: 32 word)"
  by simp

lemma entry_at_bytes:
  assumes bs: "bs = pre @ entry_bytes i prev k v @ post" and len: "length bs < 2 ^ 32"
    and buf: "buffer_ok i prev pb" and sz: "length k \<le> MAX_KEY_SIZE" "length v \<le> MAX_VALUE_SIZE"
  obtains p where "entry_at bs (of_nat (length pre)) pb = Some (k, of_nat (length v), p)"
    "slice bs (unat p) (length v) = Some v" "p + of_nat (length v) = of_nat (length (pre @ entry_bytes i prev k v))"
    "unat (of_nat (length v) :: 32 word) = length v"
proof -
  define s where "s = shared_len i prev k"
  note sk = shared_key[OF buf, of k, folded s_def]
  define d where "d = length k - s"
  have kd: "length k = s + d" using sk(1) by (simp add: d_def)
  have b: "bs = pre @ le32 (of_nat s) @ le32 (of_nat d) @ le32 (of_nat (length v)) @ drop s k @ v @ post"
    by (simp add: bs entry_bytes_eq s_def d_def)
  have n: "length pre + 12 + d + length v < 2 ^ 32" using len kd by (simp add: b)
  have u: "unat (of_nat (length pre) :: 32 word) = length pre"
    "unat (of_nat (length pre) + 4 :: 32 word) = length pre + 4" "unat (of_nat (length pre) + 8 :: 32 word) = length pre + 8"
    "unat (of_nat (length pre) + 12 :: 32 word) = length pre + 12"
    "unat (of_nat (length pre) + 12 + of_nat d :: 32 word) = length pre + 12 + d"
    using n unat_small[of "length pre"] unat_small[of "length pre + 4"] unat_small[of "length pre + 8"]
      unat_small[of "length pre + 12"] unat_small[of "length pre + 12 + d"] by simp_all
  have w: "word_at bs (length pre) = Some (of_nat s)" "word_at bs (length pre + 4) = Some (of_nat d)"
    "word_at bs (length pre + 8) = Some (of_nat (length v))"
    by (simp_all add: b word_at_def slice_def le_value_full)
  have l: "unat (of_nat s :: 32 word) = s" "unat (of_nat d :: 32 word) = d"
    "unat (of_nat (length v) :: 32 word) = length v"
    using sz kd by (intro unat_small; simp add: MAX_KEY_SIZE_def MAX_VALUE_SIZE_def)+
  have sl: "slice bs (length pre + 12) d = Some (drop s k)"
    "slice bs (length pre + 12 + d) (length v) = Some v"
    using kd by (simp_all add: b slice_def)
  show ?thesis
  proof (rule that)
    show "entry_at bs (of_nat (length pre)) pb = Some (k, of_nat (length v), of_nat (length pre) + 12 + of_nat d)"
      using sz kd sk by (simp add: entry_at_def u w l sl Let_def)
    show "slice bs (unat (of_nat (length pre) + 12 + of_nat d :: 32 word)) (length v) = Some v" by (simp add: u sl)
    show "of_nat (length pre) + 12 + of_nat d + of_nat (length v) = (of_nat (length (pre @ entry_bytes i prev k v)) :: 32 word)"
      using kd by (simp add: entry_bytes_eq flip: s_def d_def)
  qed (rule l)
qed

text \<open>The position of an entry lies before the end of the entries.\<close>

lemma entry_before:
  "length pre + length (entries_bytes i prev ((k, v) # kvs)) < 2 ^ 32 \<Longrightarrow>
   of_nat (length pre) < (of_nat (length (pre @ entries_bytes i prev ((k, v) # kvs))) :: 32 word)"
  using unat_small[of "length pre"] unat_small[of "length (pre @ entries_bytes i prev ((k, v) # kvs))"]
  by (simp add: word_less_nat_alt entry_bytes_eq del: of_nat_add)

lemma scan_entries:
  assumes "bs = pre @ entries_bytes i prev kvs @ post" "length bs < 2 ^ 32" "buffer_ok i prev pb" "small kvs"
    and "end_off = of_nat (length (pre @ entries_bytes i prev kvs))"
  shows "scan bs target end_off (of_nat (length pre)) pb =
    Some (Done (map_option (\<lambda>v. (Some v, of_nat (length v))) (map_of kvs target)))"
  using assms
proof (induction i prev kvs arbitrary: pre pb rule: entries_bytes.induct)
  case (1 i prev)
  then show ?case by (subst scan.simps) simp
next
  case (2 i prev k v kvs)
  have before: "of_nat (length pre) < end_off" unfolding 2(6) using 2(2,3) by (intro entry_before) simp
  from 2 obtain p where p: "entry_at bs (of_nat (length pre)) pb = Some (k, of_nat (length v), p)"
    "slice bs (unat p) (length v) = Some v" "p + of_nat (length v) = of_nat (length (pre @ entry_bytes i prev k v))"
    "unat (of_nat (length v) :: 32 word) = length v"
    using entry_at_bytes[of bs pre i prev k v "entries_bytes (Suc i) k kvs @ post" pb] by (auto simp: small_def)
  have "scan bs target end_off (of_nat (length (pre @ entry_bytes i prev k v))) (k @ drop (length k) pb) =
      Some (Done (map_option (\<lambda>v. (Some v, of_nat (length v))) (map_of kvs target)))"
    using 2(2-6) by (intro 2(1)) (auto simp: buffer_ok_def small_def)
  moreover have "length v \<le> MAX_VALUE_SIZE" using 2(5) by (simp add: small_def)
  ultimately show ?case by (subst scan.simps) (simp add: before p del: length_append of_nat_add)
qed

section \<open>Searching a block\<close>

definition restart_count :: "kvs \<Rightarrow> nat" where
  "restart_count g = (length g + 15) div 16"

text \<open>The block that reading gives for a group of entries.\<close>

definition block_of :: "kvs \<Rightarrow> data_block" where
  "block_of g =
     \<lparr> num_entries = of_nat (length g), data_size = of_nat (length (entries_bytes 0 [] g)),
       data = Some (entries_bytes 0 [] g), num_restarts = of_nat (restart_count g),
       restart_offsets = Some (map of_nat (restarts_of 0 [] g)) \<rparr>"

definition restart_offset :: "kvs \<Rightarrow> nat \<Rightarrow> nat" where
  "restart_offset g r = length (entries_bytes 0 [] (take (16 * r) g))"

lemma restarts_list: "restarts_of 0 [] g = map (restart_offset g) [0..<restart_count g]"
  by (simp add: restarts_of_block restart_count_def restart_offset_def)

lemma block_of_sel:
  "data_size (block_of g) = of_nat (length (entries_bytes 0 [] g))" "data (block_of g) = Some (entries_bytes 0 [] g)"
  "num_restarts (block_of g) = of_nat (restart_count g)"
  "restart_offsets (block_of g) = Some (map (\<lambda>r. of_nat (restart_offset g r)) [0..<restart_count g])"
  by (simp_all add: block_of_def restarts_list)

lemma restart_count_iff: "i < restart_count g \<longleftrightarrow> 16 * i < length g"
  by (auto simp: restart_count_def)

lemma entries_split:
  "entries_bytes 0 [] g = entries_bytes 0 [] (take (16 * r) g) @
     entries_bytes (min (length g) (16 * r)) (last_of [] (take (16 * r) g)) (take 16 (drop (16 * r) g)) @
     entries_bytes (min (length g) (16 * r) + length (take 16 (drop (16 * r) g)))
       (last_of (last_of [] (take (16 * r) g)) (take 16 (drop (16 * r) g))) (drop (16 * Suc r) g)"
proof -
  have "g = take (16 * r) g @ take 16 (drop (16 * r) g) @ drop 16 (drop (16 * r) g)"
    by (metis append_take_drop_id)
  moreover have "drop 16 (drop (16 * r) g) = drop (16 * Suc r) g" by (simp add: add.commute)
  ultimately have "g = take (16 * r) g @ take 16 (drop (16 * r) g) @ drop (16 * Suc r) g" by simp
  then show ?thesis by (metis (no_types) entries_bytes_append length_take plus_nat.add_0)
qed

lemma restart_offset_le: "restart_offset g r \<le> length (entries_bytes 0 [] g)"
  unfolding restart_offset_def by (subst entries_split[of g r]) simp

lemma memcmp_take: "memcmp n (take n a) b = memcmp n a b"
  by (induction n a b rule: memcmp.induct) auto

lemma restart_cmp_block:
  assumes r: "16 * r < length g" and len: "length (entries_bytes 0 [] g) < 2 ^ 32" and small: "small g"
  shows "restart_cmp (block_of g) r target = Some (key_cmp (fst (g ! (16 * r))) target)"
proof -
  let ?d = "entries_bytes 0 [] g"
  obtain k v where kv: "g ! (16 * r) = (k, v)" by fastforce
  have "drop (16 * r) g = (k, v) # drop (Suc (16 * r)) g" using Cons_nth_drop_Suc[OF r] kv by metis
  then have tk: "take 16 (drop (16 * r) g) = (k, v) # take 15 (drop (Suc (16 * r)) g)" by (simp add: numeral_eq_Suc)
  obtain post where "?d = entries_bytes 0 [] (take (16 * r) g) @
      entries_bytes (16 * r) (last_of [] (take (16 * r) g)) (take 16 (drop (16 * r) g)) @ post"
    using entries_split[of g r] r by (auto simp: min_def)
  note d0 = this[unfolded tk entries_bytes.simps(2)]
  define post' where "post' = v @ entries_bytes (Suc (16 * r)) k (take 15 (drop (Suc (16 * r)) g)) @ post"
  have d: "?d = entries_bytes 0 [] (take (16 * r) g) @ le32 0 @ le32 (of_nat (length k)) @ le32 (of_nat (length v)) @ k @ post'"
    unfolding d0 by (simp add: entry_bytes_eq shared_len_def RESTART_INTERVAL_def post'_def)
  have u: "unat (of_nat (restart_offset g r) :: 32 word) = restart_offset g r"
    using restart_offset_le[of g r] len by (intro unat_small) simp
  have "(k, v) \<in> set g" using r kv by (metis nth_mem)
  then have kl: "unat (of_nat (length k) :: 32 word) = length k"
    using small by (intro unat_small) (auto simp: small_def MAX_KEY_SIZE_def)
  let ?n = "min (length k) (length target)"
  have "word_at ?d (restart_offset g r + 4) = Some (of_nat (length k))"
    by (simp add: d restart_offset_def word_at_def slice_def le_value_full)
  moreover have "slice ?d (restart_offset g r + 12) ?n = Some (take ?n k)"
    by (simp add: d restart_offset_def slice_def)
  moreover have "r < restart_count g" using r by (simp add: restart_count_iff)
  ultimately show ?thesis
    by (simp add: restart_cmp_def block_of_def restarts_list u kl kv memcmp_take key_cmp_def Let_def)
qed

lemma restart_search_block:
  assumes cmp: "\<And>i. i < n \<Longrightarrow> restart_cmp block i target = Some (key_cmp (f i) target)"
    and up: "\<And>i j. i < j \<Longrightarrow> j < n \<Longrightarrow> f i < f j"
    and start: "lo \<le> hi" "hi < n" "lo = 0 \<or> f lo \<le> target" "\<forall>i. hi < i \<longrightarrow> i < n \<longrightarrow> target < f i"
  shows "\<exists>r. restart_search block target lo hi = Some r \<and> r < n \<and> (r = 0 \<or> f r \<le> target) \<and>
    (\<forall>i. r < i \<longrightarrow> i < n \<longrightarrow> target < f i)"
  using cmp start
proof (induction block target lo hi rule: restart_search.induct)
  case (1 block target lo hi)
  define mid where "mid = lo + (hi - lo + 1) div 2"
  note mid_eq = mid_def
  show ?case
  proof (cases "lo < hi")
    case True
    then have mid: "lo < mid" "mid \<le> hi" by (auto simp: mid_def)
    have m: "restart_cmp block mid target = Some (key_cmp (f mid) target)" using 1(3,5) mid by simp
    have e: "restart_search block target lo hi =
        (if f mid \<le> target then restart_search block target mid hi else restart_search block target lo (mid - 1))"
      using True by (subst restart_search.simps) (simp only: True if_True Let_def mid_def[symmetric] m option.case key_cmp_iff)
    show ?thesis
    proof (cases "f mid \<le> target")
      case t: True
      then have "\<exists>r. restart_search block target mid hi = Some r \<and> r < n \<and> (r = 0 \<or> f r \<le> target) \<and>
          (\<forall>i. r < i \<longrightarrow> i < n \<longrightarrow> target < f i)"
        by (intro 1(1)[OF True mid_eq m]) (use 1(3-7) mid in auto)
      with e t show ?thesis by simp
    next
      case g: False
      have above: "target < f i" if "mid - 1 < i" "i < n" for i
      proof (cases "i = mid")
        case False
        then have "f mid < f i" using up that mid by simp
        with g show ?thesis by simp
      qed (use g in simp)
      have "\<exists>r. restart_search block target lo (mid - 1) = Some r \<and> r < n \<and> (r = 0 \<or> f r \<le> target) \<and>
          (\<forall>i. r < i \<longrightarrow> i < n \<longrightarrow> target < f i)"
        by (intro 1(2)[OF True mid_eq m]) (use 1(3-7) mid g above in auto)
      with e g show ?thesis by simp
    qed
  next
    case False
    then show ?thesis using 1(4-7) by (subst restart_search.simps) auto
  qed
qed

text \<open>The entries that the scan from a restart reads hold the target if the block does.\<close>

lemma segment_lookup:
  assumes s: "sorted_wrt (<) (map fst g)" and r: "r < restart_count g"
    and lo: "r = 0 \<or> fst (g ! (16 * r)) \<le> target"
    and hi: "\<forall>i. r < i \<longrightarrow> i < restart_count g \<longrightarrow> target < fst (g ! (16 * i))"
  shows "map_of (take 16 (drop (16 * r) g)) target = map_of g target"
proof (cases "map_of g target")
  case None
  then have "target \<notin> fst ` set (take 16 (drop (16 * r) g))"
    by (auto simp: map_of_eq_None_iff dest!: in_set_takeD in_set_dropD)
  then show ?thesis using None by (simp add: map_of_eq_None_iff[symmetric])
next
  case (Some v)
  have d: "distinct (map fst g)" using s by (simp add: strict_sorted_iff)
  from Some obtain j where j: "j < length g" "g ! j = (target, v)" by (meson in_set_conv_nth map_of_SomeD)
  have less: "fst (g ! a) < fst (g ! b)" if "a < b" "b < length g" for a b
    using sorted_wrt_nth_less[OF s, of a b] that by simp
  have "16 * r \<le> j"
  proof (rule ccontr)
    assume "\<not> 16 * r \<le> j"
    then have "fst (g ! j) < fst (g ! (16 * r))" using less[of j "16 * r"] r by (simp add: restart_count_iff)
    with lo j show False using \<open>\<not> 16 * r \<le> j\<close> by auto
  qed
  moreover have "j < 16 * r + 16"
  proof (rule ccontr)
    assume a: "\<not> j < 16 * r + 16"
    then have "target < fst (g ! (16 * Suc r))" using hi[rule_format, of "Suc r"] j(1) by (simp add: restart_count_iff)
    moreover have "fst (g ! (16 * Suc r)) \<le> fst (g ! j)"
      using less[of "16 * Suc r" j] a j(1) by (cases "j = 16 * Suc r") auto
    ultimately show False using j(2) by simp
  qed
  ultimately have "take 16 (drop (16 * r) g) ! (j - 16 * r) = (target, v)" "j - 16 * r < length (take 16 (drop (16 * r) g))"
    using j by auto
  then have "(target, v) \<in> set (take 16 (drop (16 * r) g))" by (metis nth_mem)
  moreover have "distinct (map fst (take 16 (drop (16 * r) g)))"
    using d by (simp add: distinct_take distinct_drop flip: take_map drop_map)
  ultimately show ?thesis using Some by (simp add: map_of_is_SomeI)
qed

lemma block_search_block:
  assumes g: "g \<noteq> []" "sorted_wrt (<) (map fst g)" "small g" and len: "length (entries_bytes 0 [] g) < 2 ^ 32"
    and n: "length g < 2 ^ 32"
  shows "block_search (block_of g) target = Done (map_option (\<lambda>v. (Some v, of_nat (length v))) (map_of g target))"
proof -
  let ?d = "entries_bytes 0 [] g" and ?n = "restart_count g"
  have npos: "0 < ?n" using g(1) by (simp add: restart_count_iff)
  have un: "unat (of_nat ?n :: 32 word) = ?n" using n by (intro unat_small) (simp add: restart_count_def)
  have nz: "of_nat ?n \<noteq> (0 :: 32 word)" using un npos by (metis less_irrefl unat_0)
  have "\<exists>r. restart_search (block_of g) target 0 (?n - 1) = Some r \<and> r < ?n \<and> (r = 0 \<or> fst (g ! (16 * r)) \<le> target) \<and>
      (\<forall>i. r < i \<longrightarrow> i < ?n \<longrightarrow> target < fst (g ! (16 * i)))"
  proof (rule restart_search_block)
    show "restart_cmp (block_of g) i target = Some (key_cmp (fst (g ! (16 * i))) target)" if "i < ?n" for i
      using that by (intro restart_cmp_block[OF _ len g(3)]) (simp add: restart_count_iff)
    show "fst (g ! (16 * i)) < fst (g ! (16 * j))" if "i < j" "j < ?n" for i j
      using sorted_wrt_nth_less[OF g(2), of "16 * i" "16 * j"] that by (simp add: restart_count_iff)
  qed (use npos in auto)
  then obtain r where r: "restart_search (block_of g) target 0 (?n - 1) = Some r" "r < ?n"
    "r = 0 \<or> fst (g ! (16 * r)) \<le> target" "\<forall>i. r < i \<longrightarrow> i < ?n \<longrightarrow> target < fst (g ! (16 * i))" by blast
  have r16: "16 * r < length g" using r(2) by (simp add: restart_count_iff)
  let ?seg = "take 16 (drop (16 * r) g)"
  define end_off :: "32 word" where "end_off = (if r + 1 < ?n then of_nat (restart_offset g (r + 1)) else of_nat (length ?d))"
  have "restart_offset g (r + 1) = length (entries_bytes 0 [] (take (16 * r) g)) +
      length (entries_bytes (16 * r) (last_of [] (take (16 * r) g)) ?seg)"
  proof -
    have "take (16 * (r + 1)) g = take (16 * r) g @ ?seg"
      using take_add[of "16 * r" 16 g] by (simp add: algebra_simps)
    then show ?thesis using r16 by (simp add: restart_offset_def entries_bytes_append min_def)
  qed
  moreover have "?d = entries_bytes 0 [] (take (16 * r) g) @ entries_bytes (16 * r) (last_of [] (take (16 * r) g)) ?seg"
    if "\<not> r + 1 < ?n"
    using that r16 by (subst entries_split[of g r]) (simp add: restart_count_iff min_def)
  ultimately have e: "end_off = of_nat (length (entries_bytes 0 [] (take (16 * r) g) @
      entries_bytes (16 * r) (last_of [] (take (16 * r) g)) ?seg))"
    by (auto simp: end_off_def)
  have "small ?seg" using g(3) by (auto simp: small_def dest!: in_set_takeD in_set_dropD)
  moreover obtain post where "?d = entries_bytes 0 [] (take (16 * r) g) @ entries_bytes (16 * r) (last_of [] (take (16 * r) g)) ?seg @ post"
    using entries_split[of g r] r16 by (auto simp: min_def)
  ultimately have "scan ?d target end_off (of_nat (restart_offset g r)) [] =
      Some (Done (map_option (\<lambda>v. (Some v, of_nat (length v))) (map_of ?seg target)))"
    unfolding restart_offset_def using len e by (intro scan_entries) (auto simp: buffer_ok_def RESTART_INTERVAL_def)
  then show ?thesis
    using r(1,2) un npos nz segment_lookup[OF g(2) r(2-4)]
    by (auto simp: block_search_def block_of_sel end_off_def)
qed

section \<open>What the writer writes\<close>

function groups :: "kvs \<Rightarrow> kvs list" where
  "groups kvs = (if kvs = [] then [] else take (next_block kvs) kvs # groups (drop (next_block kvs) kvs))"
  by pat_completeness auto
termination
  by (relation "measure length") (auto simp: next_block_def)

declare groups.simps [simp del]

lemma concat_groups [simp]: "concat (groups kvs) = kvs"
  by (induction kvs rule: groups.induct) (subst groups.simps, simp)

lemma next_block_pos: "0 < next_block kvs"
  by (simp add: next_block_def)

lemma groups_nonempty: "g \<in> set (groups kvs) \<Longrightarrow> g \<noteq> []"
proof (induction kvs rule: groups.induct)
  case (1 kvs)
  then show ?case using next_block_pos[of kvs] by (subst (asm) (2) groups.simps) (auto split: if_splits)
qed

lemma length_entry: "length (entry_bytes i prev k v) \<le> 12 + length k + length v"
  by (simp add: entry_bytes_eq)

lemma length_entries: "length (entries_bytes i prev kvs) \<le> sum_list (map (\<lambda>(k, v). 12 + length k + length v) kvs)"
proof (induction i prev kvs rule: entries_bytes.induct)
  case (2 i prev k v kvs)
  then show ?case using length_entry[of i prev k v] by simp
qed simp

lemma block_count_size:
  "est + sum_list (map (\<lambda>(k, v). length k + length v + 16) (take (block_count est kvs) kvs)) < 3072 \<or> block_count est kvs = 0"
proof (induction est kvs rule: block_count.induct)
  case (2 est k v kvs)
  then show ?case by (cases "block_count (est + length k + length v + 16) kvs = 0") (auto simp: BLOCK_SIZE_def)
qed simp

text \<open>The estimate keeps a block within the buffer of 4096 bytes.\<close>

lemma block_fits:
  assumes "small kvs"
  shows "length (entries_bytes 0 [] (take (next_block kvs) kvs)) \<le> BLOCK_SIZE"
proof (cases "block_count 0 kvs = 0")
  case True
  then show ?thesis
    using assms length_entry[of 0 "[]"]
    by (cases kvs) (force simp: next_block_def small_def BLOCK_SIZE_def MAX_KEY_SIZE_def MAX_VALUE_SIZE_def)+
next
  case False
  let ?g = "take (next_block kvs) kvs"
  have "sum_list (map (\<lambda>(k, v). 12 + length k + length v) ?g) \<le> sum_list (map (\<lambda>(k, v). length k + length v + 16) ?g)"
    by (rule sum_list_mono) auto
  moreover have "sum_list (map (\<lambda>(k, v). length k + length v + 16) ?g) < 3072"
    using block_count_size[of 0 kvs] False by (simp add: next_block_def)
  ultimately show ?thesis using length_entries[of 0 "[]" ?g] by (simp add: BLOCK_SIZE_def)
qed

definition stored_block :: "kvs \<Rightarrow> byte list" where
  "stored_block g = block_bytes g (entries_bytes 0 [] g) (map of_nat (restarts_of 0 [] g))"

fun index_from :: "nat \<Rightarrow> kvs list \<Rightarrow> index_entry list" where
  "index_from off [] = []"
| "index_from off (g # gs) =
     \<lparr> last_key = fst (last g), block_offset = of_nat off, block_size = of_nat (length (stored_block g)) \<rparr> #
     index_from (off + length (stored_block g)) gs"

lemma length_stored_block: "length (stored_block g) = 16 + length (entries_bytes 0 [] g) + 4 * restart_count g"
  by (simp add: stored_block_def block_bytes_def restarts_list length_concat comp_def sum_list_triv)

lemma small_key: "small kvs \<Longrightarrow> x \<in> set kvs \<Longrightarrow> length (fst x) \<le> MAX_KEY_SIZE"
  by (auto simp: small_def)

lemma write_blocks_eq:
  "small kvs \<Longrightarrow> bloom_add_all (map fst kvs) bf = Done bf' \<Longrightarrow> write_blocks kvs out ix bf =
     Done (out @ concat (map stored_block (groups kvs)), ix @ index_from (length out) (groups kvs), bf')"
proof (induction kvs arbitrary: out ix bf rule: groups.induct)
  case (1 kvs)
  show ?case
  proof (cases "kvs = []")
    case True
    then show ?thesis using 1(3) by (simp add: write_blocks.simps groups.simps)
  next
    case False
    let ?n = "next_block kvs" let ?g = "take ?n kvs"
    let ?out = "out @ stored_block ?g"
    let ?e = "\<lparr> last_key = fst (last ?g), block_offset = of_nat (length out), block_size = of_nat (length (stored_block ?g)) \<rparr>"
    have ser: "serialize_data_block ?g = Done (entries_bytes 0 [] ?g, map of_nat (restarts_of 0 [] ?g))"
      using block_fits[OF 1(2)] by (simp add: serialize_data_block_def serialize_loop_eq)
    have "?g \<noteq> []" using False next_block_pos[of kvs] by simp
    then have "last ?g \<in> set kvs" by (meson in_set_takeD last_in_set)
    then have key: "\<not> length (fst (last ?g)) > MAX_KEY_SIZE" using small_key[OF 1(2)] by (simp add: not_less)
    have size: "of_nat (length (entries_bytes 0 [] ?g)) + 12 + of_nat (length (map of_nat (restarts_of 0 [] ?g) :: 32 word list)) * 4 + 4 =
        (of_nat (length (stored_block ?g)) :: 32 word)"
      by (simp add: length_stored_block restarts_list)
    have pos: "of_nat (length ?out) - of_nat (length (stored_block ?g)) = (of_nat (length out) :: 32 word)" by simp
    have "map fst kvs = map fst ?g @ map fst (drop ?n kvs)" by (simp flip: map_append)
    with 1(3) obtain bf1 where bf1: "bloom_add_all (map fst ?g) bf = Done bf1" "bloom_add_all (map fst (drop ?n kvs)) bf1 = Done bf'"
      by (auto simp: bloom_add_all_append)
    have "write_blocks kvs out ix bf = write_blocks (drop ?n kvs) ?out (ix @ [?e]) bf1"
      unfolding write_blocks.simps[of kvs] Let_def ser bind_outcome.simps prod.case size bf1(1)
      using False key by (simp add: stored_block_def[symmetric] pos)
    also have "\<dots> = Done (?out @ concat (map stored_block (groups (drop ?n kvs))),
        (ix @ [?e]) @ index_from (length ?out) (groups (drop ?n kvs)), bf')"
    proof -
      have "small (drop ?n kvs)" using 1(2) by (auto simp: small_def dest!: in_set_dropD)
      then show ?thesis using bf1(2) by (rule 1(1)[OF False])
    qed
    finally show ?thesis using False by (simp add: groups.simps[of kvs])
  qed
qed

section \<open>Reading back what was written\<close>

lemma restart_count_le: "restart_count g \<le> length g"
  unfolding restart_count_def by (cases g) simp_all

lemma read_words_le: "read_words (length ws) (concat (map le32 ws) @ bs) = ws"
  by (induction ws) simp_all

text \<open>Sizes that fit the fields of a block.\<close>

definition block_fits_words :: "kvs \<Rightarrow> bool" where
  "block_fits_words g \<longleftrightarrow> length g < 2 ^ 32 \<and> length (entries_bytes 0 [] g) < 2 ^ 32"

lemma read_stored_block:
  assumes "block_fits_words g"
  shows "read_block (stored_block g @ bs) = block_of g"
proof -
  have "restart_count g < 2 ^ 32" using assms restart_count_le[of g] by (simp add: block_fits_words_def)
  then have u: "unat (of_nat (restart_count g) :: 32 word) = restart_count g"
    "unat (of_nat (length (entries_bytes 0 [] g)) :: 32 word) = length (entries_bytes 0 [] g)"
    using assms by (intro unat_small; simp add: block_fits_words_def)+
  have n: "restart_count g = length (map of_nat (restarts_of 0 [] g) :: 32 word list)" by (simp add: restarts_list)
  note w = read_words_le[of "map of_nat (restarts_of 0 [] g)", folded n, unfolded map_map]
  show ?thesis
    unfolding stored_block_def block_bytes_def n[symmetric]
    by (simp add: read_block_def empty_block_def block_of_def u w Let_def)
qed

lemma read_blocks:
  assumes "\<forall>g \<in> set gs. block_fits_words g" "length (pre @ concat (map stored_block gs)) < 2 ^ 32"
  shows "map (\<lambda>e. read_block (drop (unat (block_offset e)) (pre @ concat (map stored_block gs) @ post)))
    (index_from (length pre) gs) = map block_of gs"
  using assms
proof (induction gs arbitrary: pre)
  case (Cons g gs)
  have "unat (of_nat (length pre) :: 32 word) = length pre" using Cons.prems(2) by (intro unat_small) simp
  moreover have "read_block (stored_block g @ concat (map stored_block gs) @ post) = block_of g"
    using Cons.prems(1) by (intro read_stored_block) simp
  ultimately show ?case using Cons.IH[of "pre @ stored_block g"] Cons.prems by simp
qed simp

lemma read_index_entry_bytes:
  assumes "length (last_key e) \<le> MAX_KEY_SIZE"
  shows "read_index_entry (index_entry_bytes e @ bs) = Some (e, bs)"
proof -
  have "unat (of_nat (length (last_key e)) :: 32 word) = length (last_key e)"
    using assms by (intro unat_small) (simp add: MAX_KEY_SIZE_def)
  then show ?thesis using assms by (simp add: read_index_entry_def index_entry_bytes_def)
qed

lemma read_index_bytes:
  "\<forall>e \<in> set ix. length (last_key e) \<le> MAX_KEY_SIZE \<Longrightarrow> read_index (length ix) (concat (map index_entry_bytes ix) @ bs) = Some ix"
  by (induction ix) (simp_all add: read_index_entry_bytes)

lemma length_index_from [simp]: "length (index_from off gs) = length gs"
  by (induction off gs rule: index_from.induct) simp_all

lemma index_from_keys: "map last_key (index_from off gs) = map (\<lambda>g. fst (last g)) gs"
  by (induction off gs rule: index_from.induct) simp_all

lemma length_index_bytes: "length (index_bytes ix) = sum_list (map (\<lambda>e. 12 + length (last_key e)) ix) + 4"
  by (simp add: index_bytes_def index_entry_bytes_def length_concat comp_def add.commute add.assoc)

lemma read_bloom_bytes:
  assumes "wf_bloom bf"
  shows "read_bloom (le32 (num_bytes bf) @ the (bit_array bf) @ bs) = bf"
proof -
  obtain bits where b: "bit_array bf = Some bits" "unat (num_bits bf) = 8 * length bits" "unat (num_bytes bf) = length bits"
    using assms by (auto simp: wf_bloom_def)
  have lt: "unat (num_bits bf) < 2 ^ LENGTH(32)" by (rule unsigned_less)
  have "unat (num_bytes bf * 8) = length bits * 8"
    using b(2,3) lt by (simp add: unat_word_ariths)
  then have "num_bytes bf * 8 = num_bits bf" using b(2) by (simp add: word_unat_eq_iff)
  then show ?thesis using b by (simp add: read_bloom_def)
qed

section \<open>Sizes\<close>

lemma length_stored_le: "small g \<Longrightarrow> g \<noteq> [] \<Longrightarrow> length (stored_block g) \<le> 1312 * length g"
proof -
  assume s: "small g" and g: "g \<noteq> []"
  have "sum_list (map (\<lambda>(k, v). 12 + length k + length v) g) \<le> sum_list (map (\<lambda>_. 1292) g)"
    using s by (intro sum_list_mono) (auto simp: small_def MAX_KEY_SIZE_def MAX_VALUE_SIZE_def)
  then have "length (entries_bytes 0 [] g) \<le> 1292 * length g"
    using length_entries[of 0 "[]" g] by (simp add: sum_list_triv)
  moreover have "1 \<le> length g" using g by (cases g) simp_all
  moreover have "restart_count g \<le> length g" by (rule restart_count_le)
  ultimately show ?thesis by (simp add: length_stored_block)
qed

lemma groups_small:
  assumes "small kvs" "g \<in> set (groups kvs)"
  shows "small g"
proof -
  have "set g \<subseteq> set (concat (groups kvs))"
    unfolding set_concat using assms(2) by (rule UN_upper)
  then have "set g \<subseteq> set kvs" by simp
  with assms(1) show ?thesis unfolding small_def by blast
qed

lemma length_blocks_le:
  "\<forall>g \<in> set gs. small g \<and> g \<noteq> [] \<Longrightarrow> length (concat (map stored_block gs)) \<le> 1312 * length (concat gs)"
  by (induction gs) (auto dest!: length_stored_le simp: algebra_simps)

lemma length_index_le:
  "\<forall>g \<in> set gs. small g \<and> g \<noteq> [] \<Longrightarrow> length (index_bytes (index_from off gs)) \<le> 268 * length (concat gs) + 4"
proof -
  assume "\<forall>g \<in> set gs. small g \<and> g \<noteq> []"
  then have "sum_list (map (\<lambda>g. 12 + length (fst (last g))) gs) \<le> 268 * length (concat gs)"
  proof (induction gs)
    case (Cons g gs)
    then have "length (fst (last g)) \<le> 256" "1 \<le> length g" using small_key[of g "last g"] by (auto simp: MAX_KEY_SIZE_def Suc_le_eq)
    with Cons show ?case by (simp add: algebra_simps)
  qed simp
  moreover have "map (\<lambda>e. 12 + length (last_key e)) (index_from off gs) = map (\<lambda>g. 12 + length (fst (last g))) gs"
    using arg_cong[OF index_from_keys[of off gs], of "map (\<lambda>k. 12 + length k)"] by (simp add: comp_def)
  ultimately show ?thesis by (simp add: length_index_bytes)
qed

text \<open>Few entries make one block.\<close>

lemma single_group:
  assumes "small kvs" "kvs \<noteq> []" "sum_list (map (\<lambda>(k, v). length k + length v + 16) kvs) < 3072"
  shows "groups kvs = [kvs]"
proof -
  have "block_count est kvs = length kvs" if "est + sum_list (map (\<lambda>(k, v). length k + length v + 16) kvs) < 3072" for est
    using that by (induction est kvs rule: block_count.induct) (auto simp: BLOCK_SIZE_def)
  from this[of 0] have "next_block kvs = length kvs" using assms(2,3) by (simp add: next_block_def)
  then show ?thesis using assms(2) by (simp add: groups.simps[of kvs] groups.simps[of "[]"])
qed


section \<open>The table in memory\<close>

text \<open>The filter of the keys of a list (it is built without leaving its array, see \<open>filter_of_ok\<close>).\<close>

definition filter_of :: "kvs \<Rightarrow> bloom_filter" where
  "filter_of kvs =
     (case bloom_add_all (map fst kvs) (bloom_init (of_nat (length kvs))) of
        Done bf \<Rightarrow> bf | _ \<Rightarrow> bloom_init (of_nat (length kvs)))"

text \<open>The table that reading gives.\<close>

definition table_of :: "nat \<Rightarrow> kvs \<Rightarrow> sstable" where
  "table_of n kvs =
     \<lparr> file_size = n, data_blocks = map block_of (groups kvs), index_block = index_from 0 (groups kvs), bloom = filter_of kvs \<rparr>"

lemma filter_of_ok:
  assumes "length kvs \<le> 2 ^ 20"
  shows "bloom_add_all (map fst kvs) (bloom_init (of_nat (length kvs))) = Done (filter_of kvs)"
    "wf_bloom (filter_of kvs)" "k \<in> fst ` set kvs \<Longrightarrow> bloom_holds (filter_of kvs) k"
    "unat (num_bytes (filter_of kvs)) \<le> 2 ^ 21"
proof -
  let ?n = "of_nat (length kvs) :: 32 word"
  have "unat ?n = length kvs" using assms by (intro unat_small) simp
  then have n10: "unat (?n * 10) = length kvs * 10" using assms by (simp add: unat_word_ariths)
  then have "unat (?n * 10) + 7 < 2 ^ 32" using assms by simp
  note i = bloom_init_ok[OF this]
  from bloom_add_all_ok[OF i(1), of "map fst kvs"] obtain bf where
    bf: "bloom_add_all (map fst kvs) (bloom_init ?n) = Done bf" "wf_bloom bf" "num_bytes bf = num_bytes (bloom_init ?n)"
    "\<forall>key. key \<in> set (map fst kvs) \<or> bloom_holds (bloom_init ?n) key \<longrightarrow> bloom_holds bf key" by blast
  then have f: "filter_of kvs = bf" by (simp add: filter_of_def)
  show "bloom_add_all (map fst kvs) (bloom_init ?n) = Done (filter_of kvs)" using bf(1) f by simp
  show "wf_bloom (filter_of kvs)" "k \<in> fst ` set kvs \<Longrightarrow> bloom_holds (filter_of kvs) k"
    using bf(2,4) by (simp_all add: f)
  have "max (length kvs * 10) 64 + 7 \<le> 2 ^ 24" using assms by simp
  from div_le_mono[OF this, of 8] show "unat (num_bytes (filter_of kvs)) \<le> 2 ^ 21"
    unfolding f bf(3) i(2) n10 by simp
qed

lemma groups_ok:
  assumes "small kvs" "g \<in> set (groups kvs)"
  shows "small g \<and> g \<noteq> []" "length g \<le> length kvs" "length (entries_bytes 0 [] g) \<le> 1292 * length kvs"
proof -
  show s: "small g \<and> g \<noteq> []" using groups_small[OF assms] groups_nonempty[OF assms(2)] by simp
  have "length g \<le> sum_list (map length (groups kvs))" using assms(2) by (intro member_le_sum_list) auto
  also have "\<dots> = length kvs" by (simp flip: length_concat)
  finally show "length g \<le> length kvs" .
  have "sum_list (map (\<lambda>(k, v). 12 + length k + length v) g) \<le> sum_list (map (\<lambda>_. 1292) g)"
    using s by (intro sum_list_mono) (auto simp: small_def MAX_KEY_SIZE_def MAX_VALUE_SIZE_def)
  then have "length (entries_bytes 0 [] g) \<le> 1292 * length g"
    using length_entries[of 0 "[]" g] by (simp add: sum_list_triv)
  with \<open>length g \<le> length kvs\<close> show "length (entries_bytes 0 [] g) \<le> 1292 * length kvs"
    by (meson le_trans mult_le_mono2)
qed

lemma write_read:
  assumes small: "small kvs" and n: "length kvs \<le> 2 ^ 20"
  shows "\<exists>sst. sstable_write kvs = Done sst \<and> sstable_read sst = Some (table_of (length sst) kvs)"
proof -
  let ?gs = "groups kvs" and ?bf = "filter_of kvs"
  let ?ix = "index_from 0 ?gs" and ?blocks = "concat (map stored_block (groups kvs))"
  have gs: "\<forall>g \<in> set ?gs. small g \<and> g \<noteq> []" using groups_ok[OF small] by blast
  obtain bits where bits: "bit_array ?bf = Some bits" "unat (num_bytes ?bf) = length bits"
    using filter_of_ok(2)[OF n] by (auto simp: wf_bloom_def)
  let ?foot = "footer_bytes (of_nat (length ?blocks)) (of_nat (length (index_bytes ?ix)))"
  define sst where "sst = ?blocks @ index_bytes ?ix @ le32 (num_bytes ?bf) @ the (bit_array ?bf) @ ?foot"
  have w: "sstable_write kvs = Done sst"
    by (simp add: sstable_write_def write_blocks_eq[OF small filter_of_ok(1)[OF n]] sst_def length_index_bytes)
  have size: "length ?blocks + length (index_bytes ?ix) < 2 ^ 32"
  proof -
    have "length ?blocks \<le> 1312 * length kvs" using length_blocks_le[OF gs] by simp
    moreover have "length (index_bytes ?ix) \<le> 268 * length kvs + 4" using length_index_le[OF gs] by simp
    ultimately show ?thesis using n by simp
  qed
  have u: "unat (of_nat (length ?blocks) :: 32 word) = length ?blocks"
    "unat (of_nat (length ?blocks) + of_nat (length (index_bytes ?ix)) :: 32 word) = length ?blocks + length (index_bytes ?ix)"
    using size by (simp_all add: unat_small flip: of_nat_add)
  have "length ?gs \<le> length kvs"
    using gs sum_list_mono[of ?gs "\<lambda>_. 1" length] by (simp add: Suc_le_eq sum_list_triv flip: length_concat)
  then have c: "unat (of_nat (length ?ix) :: 32 word) = length ?ix" using n by (intro unat_small) simp
  have keys: "\<forall>e \<in> set ?ix. length (last_key e) \<le> MAX_KEY_SIZE"
  proof
    fix e assume "e \<in> set ?ix"
    then have "last_key e \<in> set (map (\<lambda>g. fst (last g)) ?gs)" unfolding index_from_keys[of 0, symmetric] by simp
    then obtain g where "g \<in> set ?gs" "last_key e = fst (last g)" by auto
    with gs show "length (last_key e) \<le> MAX_KEY_SIZE" using small_key[of g "last g"] by simp
  qed
  have "length ?foot = FOOTER_SIZE" by (simp add: footer_bytes_def FOOTER_SIZE_def)
  then have foot: "\<not> length sst < FOOTER_SIZE" "drop (length sst - FOOTER_SIZE) sst = ?foot"
    by (simp_all add: sst_def)
  have fields: "le_value (take 4 ?foot) = (of_nat (length ?blocks) :: 32 word)"
    "le_value (take 4 (drop 4 ?foot)) = (of_nat (length (index_bytes ?ix)) :: 32 word)"
    "le_value (take 4 (drop 8 ?foot)) = SSTABLE_MAGIC"
    by (simp_all add: footer_bytes_def le_value_full)
  have index: "read_u32 (drop (length ?blocks) sst) =
      Some (of_nat (length ?ix), concat (map index_entry_bytes ?ix) @ le32 (num_bytes ?bf) @ the (bit_array ?bf) @ ?foot)"
    by (simp add: sst_def index_bytes_def)
  have filt: "read_bloom (drop (length ?blocks + length (index_bytes ?ix)) sst) = ?bf"
    using read_bloom_bytes[OF filter_of_ok(2)[OF n], of ?foot] by (simp add: sst_def)
  have blocks: "map (\<lambda>e. read_block (drop (unat (block_offset e)) sst)) ?ix = map block_of ?gs"
  proof -
    have "block_fits_words g" if "g \<in> set ?gs" for g
      using groups_ok(2,3)[OF small that] n by (simp add: block_fits_words_def)
    moreover obtain post where post: "sst = [] @ ?blocks @ post" by (simp add: sst_def)
    ultimately show ?thesis using read_blocks[of ?gs "[]" post, folded post] size by simp
  qed
  have "sstable_read sst = Some (table_of (length sst) kvs)"
    unfolding sstable_read_def Let_def foot(2) fields u index
    using foot(1) by (simp add: c read_index_bytes[OF keys] u filt blocks table_of_def del: length_index_from)
  with w show ?thesis by blast
qed

section \<open>Looking up a key in a table\<close>

lemma last_keys_sorted:
  fixes gs :: "kvs list"
  assumes "sorted_wrt (<) (map fst (concat gs))" "\<forall>g \<in> set gs. g \<noteq> []"
  shows "sorted_wrt (<) (map (\<lambda>g. fst (last g)) gs)"
  using assms by (induction gs) (auto simp: sorted_wrt_append)

text \<open>The first block whose last key is not below the target holds the target if any does.\<close>

lemma group_lookup:
  fixes gs :: "kvs list"
  assumes "sorted_wrt (<) (map fst (concat gs))" "\<forall>g \<in> set gs. g \<noteq> []"
    and j: "j = length (takeWhile (\<lambda>g. fst (last g) < key) gs)"
  shows "map_of (concat gs) key = (if j < length gs then map_of (gs ! j) key else None)"
proof -
  let ?P = "\<lambda>g. fst (last g) < key"
  define as where "as = takeWhile ?P gs"
  define bs where "bs = dropWhile ?P gs"
  have gs: "gs = as @ bs" by (simp add: as_def bs_def)
  have jl: "j = length as" by (simp add: j as_def)
  have below: "map_of (concat as) key = None"
  proof -
    have "fst x < key" if "g \<in> set as" "x \<in> set g" for g x
    proof -
      have "?P g" using that(1) by (auto simp: as_def dest: set_takeWhileD)
      moreover have "sorted_wrt (<) (map fst g)"
        using assms(1) that(1) by (auto simp: gs map_concat sorted_wrt_append in_set_conv_decomp)
      then have "fst x \<le> fst (last g)"
        using that(2) by (cases g rule: rev_cases) (auto simp: sorted_wrt_append less_imp_le)
      ultimately show ?thesis by simp
    qed
    then show ?thesis by (force simp: map_of_eq_None_iff)
  qed
  show ?thesis
  proof (cases bs)
    case Nil
    then show ?thesis using below by (simp add: gs jl)
  next
    case (Cons b bs')
    have "key \<le> fst (last b)" using Cons by (metis bs_def dropWhile_eq_Cons_conv not_less)
    moreover have "fst (last b) < fst x" if "x \<in> set (concat bs')" for x
      using assms that by (auto simp: gs Cons sorted_wrt_append)
    ultimately have "map_of (concat bs') key = None" by (force simp: map_of_eq_None_iff)
    moreover have "gs ! j = b" "j < length gs" by (simp_all add: jl gs Cons)
    ultimately show ?thesis using below by (simp add: gs Cons map_add_def split: option.split)
  qed
qed

lemma index_search_first:
  assumes "sorted_wrt (<) (map last_key ix)"
  shows "index_search ix key = length (takeWhile (\<lambda>e. last_key e < key) ix)"
proof -
  let ?j = "length (takeWhile (\<lambda>e. last_key e < key) ix)"
  have "last_key (ix ! i) < key" if "i < ?j" for i
    using that takeWhile_nth[of i "\<lambda>e. last_key e < key" ix] nth_mem[of i "takeWhile (\<lambda>e. last_key e < key) ix"]
    by (auto dest: set_takeWhileD)
  moreover have "\<not> last_key (ix ! i) < key" if i: "?j \<le> i" "i < length ix" for i
  proof -
    have "\<not> last_key (ix ! ?j) < key" using nth_length_takeWhile[of "\<lambda>e. last_key e < key" ix] i by simp
    moreover have "last_key (ix ! ?j) \<le> last_key (ix ! i)"
      using sorted_wrt_nth_less[OF assms, of ?j i] i by (cases "?j = i") (auto simp: less_imp_le)
    ultimately show ?thesis by (meson le_less_trans)
  qed
  ultimately show ?thesis unfolding index_search_def by (intro bisect_first[where n = "length ix"]) (auto simp: length_takeWhile_le)
qed

lemma get_table:
  assumes "small kvs" "length kvs \<le> 2 ^ 20" and s: "sorted_wrt (<) (map fst kvs)"
  shows "sstable_get (table_of n kvs) key = Done (map_option (\<lambda>v. (Some v, of_nat (length v))) (map_of kvs key))"
proof -
  let ?gs = "groups kvs" and ?t = "table_of n kvs"
  have gs: "\<forall>g \<in> set ?gs. g \<noteq> []" using groups_ok(1)[OF assms(1)] by blast
  have wf: "wf_bloom (bloom ?t)" using filter_of_ok(2)[OF assms(2)] by (simp add: table_of_def)
  then obtain b where b: "bloom_maybe_contain (bloom ?t) key = Done b" "bit_array (bloom ?t) \<noteq> None"
    using bloom_defined[OF wf, of key] by (auto simp: wf_bloom_def)
  have no: "map_of kvs key = None" if "\<not> b"
    using filter_of_ok(3)[OF assms(2), of key] b(1) that
    by (auto simp: table_of_def bloom_holds_def map_of_eq_None_iff)
  have sc: "sorted_wrt (<) (map fst (concat ?gs))" using s by simp
  have ls: "sorted_wrt (<) (map last_key (index_from 0 ?gs))"
    unfolding index_from_keys by (rule last_keys_sorted[OF sc gs])
  define j where "j = length (takeWhile (\<lambda>g. fst (last g) < key) ?gs)"
  have "length (takeWhile (\<lambda>e. last_key e < key) (index_from 0 ?gs)) = j"
    using arg_cong[OF index_from_keys[of 0 ?gs], of "\<lambda>ks. length (takeWhile (\<lambda>k. k < key) ks)"]
    by (simp add: j_def takeWhile_map comp_def)
  then have idx: "index_search (index_block ?t) key = j" using index_search_first[OF ls] by (simp add: table_of_def)
  have blk: "block_search (block_of g) key = Done (map_option (\<lambda>v. (Some v, of_nat (length v))) (map_of g key))"
    if "g \<in> set ?gs" for g
  proof (rule block_search_block)
    show "g \<noteq> []" using gs that by blast
    have "sorted_wrt (<) (map fst (concat ?gs))" by (rule sc)
    then show "sorted_wrt (<) (map fst g)" using split_list[OF that] by (auto simp: sorted_wrt_append simp del: concat_groups)
    show "small g" using groups_ok(1)[OF assms(1) that] by simp
    show "length (entries_bytes 0 [] g) < 2 ^ 32" "length g < 2 ^ 32"
      using groups_ok(2,3)[OF assms(1) that] assms(2) by simp_all
  qed
  have look: "map_of kvs key = (if j < length ?gs then map_of (?gs ! j) key else None)"
    using group_lookup[OF sc gs j_def] by simp
  show ?thesis
  proof (cases "b \<and> ?gs \<noteq> []")
    case True
    let ?lo = "if j \<ge> length ?gs then length ?gs - 1 else j"
    have lo: "?lo < length ?gs" using True by auto
    have "map_of (?gs ! ?lo) key = map_of kvs key"
    proof (cases "j < length ?gs")
      case False
      have "map_of (concat ?gs) key = None" using look False by simp
      then have "key \<notin> fst ` set g" if "g \<in> set ?gs" for g
        using that unfolding map_of_eq_None_iff set_concat by blast
      then have "map_of (?gs ! ?lo) key = None" using nth_mem[OF lo] by (simp add: map_of_eq_None_iff)
      with look False show ?thesis by simp
    qed (use look in simp)
    moreover have "sstable_get ?t key = block_search (block_of (?gs ! ?lo)) key"
    proof -
      have "length (index_from 0 ?gs) \<noteq> 0" using True by simp
      then have "index_from 0 ?gs \<noteq> []" by (metis list.size(3))
      then show ?thesis using True b idx lo by (simp add: sstable_get_def table_of_def)
    qed
    ultimately show ?thesis using blk[OF nth_mem[OF lo]] by simp
  next
    case False
    then have "map_of kvs key = None" using no look by auto
    moreover have "sstable_get ?t key = Done None" using False b by (auto simp: sstable_get_def table_of_def)
    ultimately show ?thesis by simp
  qed
qed

text \<open>
  C30. A table is a faithful copy of a sorted list of entries: writing at most a million entries
  with strictly increasing keys of at most 256 and values of at most 1024 bytes gives a file that
  can be read, and looking up a key in the table read returns exactly the value of that key in the
  list, or nothing; no read leaves its buffer.
\<close>

theorem sstable_roundtrip:
  assumes "sorted_wrt (<) (map fst kvs)" "\<forall>(k, v) \<in> set kvs. length k \<le> MAX_KEY_SIZE \<and> length v \<le> MAX_VALUE_SIZE"
    and "length kvs \<le> 2 ^ 20"
  shows "\<exists>file table. sstable_write kvs = Done file \<and> sstable_read file = Some table \<and>
    (\<forall>key. sstable_get table key = Done (map_option (\<lambda>v. (Some v, of_nat (length v))) (map_of kvs key)))"
proof -
  have s: "small kvs" using assms(2) by (simp add: small_def)
  show ?thesis using write_read[OF s assms(3)] get_table[OF s assms(3,1)] by blast
qed

theorem sstable_roundtrip_witness:
  "\<exists>file table. sstable_write [([1], [7]), ([1, 2], [8]), ([3], [])] = Done file \<and> sstable_read file = Some table \<and>
     sstable_get table [1, 2] = Done (Some (Some [8], 1)) \<and> sstable_get table [2] = Done None"
proof -
  have "sorted_wrt (<) (map fst [([1] :: byte list, [7]), ([1, 2], [8]), ([3], [] :: byte list)])"
    by (simp add: cons_less_cons)
  from sstable_roundtrip[OF this] show ?thesis by (force simp: MAX_KEY_SIZE_def MAX_VALUE_SIZE_def)
qed

end
