(* ===== verification/Merge_Heap.thy ===== *)
theory Merge_Heap
  imports Main "HOL-Library.Multiset"
begin

text \<open>
  The array heap of the merge iterator of \<open>sstable.c\<close>: sifting down and building, over the
  comparison of its nodes. The locale says what a comparison has to satisfy, and shows that
  the array keeps its elements, that sifting restores the heap below a changed element, and
  that the root of a heap is a least element.
\<close>

definition heap_swap :: "nat \<Rightarrow> nat \<Rightarrow> 'a list \<Rightarrow> 'a list" where
  "heap_swap a b ns = ns[a := ns ! b, b := ns ! a]"

definition smallest :: "('a \<Rightarrow> 'a \<Rightarrow> int) \<Rightarrow> nat \<Rightarrow> 'a list \<Rightarrow> nat \<Rightarrow> nat" where
  "smallest cmp n ns idx =
     (let smallest = idx; left = 2 * idx + 1; right = 2 * idx + 2;
          smallest = (if left < n \<and> cmp (ns ! left) (ns ! smallest) < 0 then left else smallest)
      in if right < n \<and> cmp (ns ! right) (ns ! smallest) < 0 then right else smallest)"

lemma smallest_cases: "smallest cmp n ns idx = idx \<or>
    (smallest cmp n ns idx < n \<and> (smallest cmp n ns idx = 2 * idx + 1 \<or> smallest cmp n ns idx = 2 * idx + 2))"
  by (simp add: smallest_def Let_def)

function heap_sift_down :: "('a \<Rightarrow> 'a \<Rightarrow> int) \<Rightarrow> nat \<Rightarrow> nat \<Rightarrow> 'a list \<Rightarrow> 'a list" where
  "heap_sift_down cmp n idx ns =
     (let s = smallest cmp n ns idx in
      if s = idx then ns else heap_sift_down cmp n s (heap_swap idx s ns))"
  by pat_completeness auto
termination
proof (relation "measure (\<lambda>(cmp, n, idx, ns). n - idx)")
  fix cmp :: "'a \<Rightarrow> 'a \<Rightarrow> int" and n idx s ns assume "s = smallest cmp n ns idx" "s \<noteq> idx"
  then have "idx < s" "s < n" using smallest_cases[of cmp n ns idx] by auto
  then show "((cmp, n, s, heap_swap idx s ns), cmp, n, idx, ns) \<in> measure (\<lambda>(cmp, n, idx, ns). n - idx)" by simp
qed simp

declare heap_sift_down.simps [simp del]

definition heap_build :: "('a \<Rightarrow> 'a \<Rightarrow> int) \<Rightarrow> nat \<Rightarrow> 'a list \<Rightarrow> 'a list" where
  "heap_build cmp n ns = fold (heap_sift_down cmp n) (rev [0..<n div 2]) ns"

lemma sift_cases:
  obtains (stop) "smallest cmp n ns idx = idx" "heap_sift_down cmp n idx ns = ns"
  | (swap) s where "s = smallest cmp n ns idx" "idx < s" "s < n" "s = 2 * idx + 1 \<or> s = 2 * idx + 2"
      "heap_sift_down cmp n idx ns = heap_sift_down cmp n s (heap_swap idx s ns)"
proof (cases "smallest cmp n ns idx = idx")
  case True
  then show ?thesis by (intro stop) (simp_all add: heap_sift_down.simps[of cmp n idx])
next
  case False
  moreover have "heap_sift_down cmp n idx ns =
      heap_sift_down cmp n (smallest cmp n ns idx) (heap_swap idx (smallest cmp n ns idx) ns)"
    using False by (subst heap_sift_down.simps) (simp add: Let_def)
  ultimately show ?thesis using smallest_cases[of cmp n ns idx] by (intro swap[of "smallest cmp n ns idx"]) auto
qed

section \<open>The elements\<close>

lemma length_heap_swap [simp]: "length (heap_swap a b ns) = length ns"
  by (simp add: heap_swap_def)

lemma nth_heap_swap:
  "a < length ns \<Longrightarrow> b < length ns \<Longrightarrow> heap_swap a b ns ! i = (if i = b then ns ! a else if i = a then ns ! b else ns ! i)"
  by (auto simp: heap_swap_def nth_list_update)

lemma heap_swap_elems:
  assumes "a < n" "b < n" "n \<le> length ns"
  shows "mset (take n (heap_swap a b ns)) = mset (take n ns)" "drop n (heap_swap a b ns) = drop n ns"
proof -
  have "take n (heap_swap a b ns) = (take n ns)[a := take n ns ! b, b := take n ns ! a]"
    using assms by (simp add: heap_swap_def take_update_swap)
  then show "mset (take n (heap_swap a b ns)) = mset (take n ns)" using mset_swap[of b "take n ns" a] assms by simp
  show "drop n (heap_swap a b ns) = drop n ns" using assms by (simp add: heap_swap_def)
qed

lemma sift_elems:
  "n \<le> length ns \<Longrightarrow> length (heap_sift_down cmp n idx ns) = length ns \<and>
     mset (take n (heap_sift_down cmp n idx ns)) = mset (take n ns) \<and> drop n (heap_sift_down cmp n idx ns) = drop n ns"
proof (induction "n - idx" arbitrary: idx ns rule: less_induct)
  case less
  show ?case
  proof (cases rule: sift_cases[where cmp = cmp and n = n and ns = ns and idx = idx])
    case (swap s)
    then have "n - s < n - idx" by simp
    from less(1)[OF this, of "heap_swap idx s ns"] swap less(2) heap_swap_elems[of idx n s ns] show ?thesis by simp
  qed simp
qed

lemma build_elems:
  "n \<le> length ns \<Longrightarrow> length (heap_build cmp n ns) = length ns \<and>
     mset (take n (heap_build cmp n ns)) = mset (take n ns) \<and> drop n (heap_build cmp n ns) = drop n ns"
proof -
  have "n \<le> length ns \<Longrightarrow> length (fold (heap_sift_down cmp n) is ns) = length ns \<and>
     mset (take n (fold (heap_sift_down cmp n) is ns)) = mset (take n ns) \<and>
     drop n (fold (heap_sift_down cmp n) is ns) = drop n ns" for "is"
    by (induction "is" arbitrary: ns) (simp_all add: sift_elems)
  then show "n \<le> length ns \<Longrightarrow> ?thesis" by (simp add: heap_build_def)
qed

section \<open>The order\<close>

definition heap_from :: "('a \<Rightarrow> 'a \<Rightarrow> int) \<Rightarrow> nat \<Rightarrow> nat \<Rightarrow> 'a list \<Rightarrow> bool" where
  "heap_from cmp n j ns \<longleftrightarrow> (\<forall>i < n. 0 < i \<and> j \<le> (i - 1) div 2 \<longrightarrow> cmp (ns ! ((i - 1) div 2)) (ns ! i) \<le> 0)"

text \<open>The order with a hole at \<open>idx\<close>: its element may be too large for its children.\<close>

definition heap_hole :: "('a \<Rightarrow> 'a \<Rightarrow> int) \<Rightarrow> nat \<Rightarrow> nat \<Rightarrow> nat \<Rightarrow> 'a list \<Rightarrow> bool" where
  "heap_hole cmp n j idx ns \<longleftrightarrow>
     (\<forall>i < n. 0 < i \<and> j \<le> (i - 1) div 2 \<and> (i - 1) div 2 \<noteq> idx \<longrightarrow> cmp (ns ! ((i - 1) div 2)) (ns ! i) \<le> 0) \<and>
     (0 < idx \<and> j \<le> (idx - 1) div 2 \<longrightarrow>
        (\<forall>i < n. 0 < i \<and> (i - 1) div 2 = idx \<longrightarrow> cmp (ns ! ((idx - 1) div 2)) (ns ! i) \<le> 0))"

lemma parent_iff:
  fixes i idx :: nat
  assumes "0 < i"
  shows "(i - 1) div 2 = idx \<longleftrightarrow> i = 2 * idx + 1 \<or> i = 2 * idx + 2"
  using assms by presburger

locale heap_order =
  fixes cmp :: "'a \<Rightarrow> 'a \<Rightarrow> int"
  assumes cmp_trans: "cmp a b \<le> 0 \<Longrightarrow> cmp b c \<le> 0 \<Longrightarrow> cmp a c \<le> 0"
    and cmp_total: "\<not> cmp a b < 0 \<Longrightarrow> cmp b a \<le> 0"
begin

lemma cmp_refl: "cmp a a \<le> 0"
  using cmp_total[of a a] by (cases "cmp a a < 0") auto

lemma smallest_least:
  assumes "s = smallest cmp n ns idx" "i < n" "i = 2 * idx + 1 \<or> i = 2 * idx + 2 \<or> i = idx"
  shows "cmp (ns ! s) (ns ! i) \<le> 0"
proof -
  define a where "a = (if 2 * idx + 1 < n \<and> cmp (ns ! (2 * idx + 1)) (ns ! idx) < 0 then 2 * idx + 1 else idx)"
  have s: "s = (if 2 * idx + 2 < n \<and> cmp (ns ! (2 * idx + 2)) (ns ! a) < 0 then 2 * idx + 2 else a)"
    unfolding assms(1) smallest_def a_def Let_def ..
  have al: "cmp (ns ! a) (ns ! idx) \<le> 0" "2 * idx + 1 < n \<Longrightarrow> cmp (ns ! a) (ns ! (2 * idx + 1)) \<le> 0"
    using cmp_refl cmp_total[of "ns ! (2 * idx + 1)" "ns ! idx"] by (auto simp: a_def)
  have sa: "cmp (ns ! s) (ns ! a) \<le> 0" "2 * idx + 2 < n \<Longrightarrow> cmp (ns ! s) (ns ! (2 * idx + 2)) \<le> 0"
    using cmp_refl cmp_total[of "ns ! (2 * idx + 2)" "ns ! a"] by (auto simp: s)
  show ?thesis using assms(2,3) al sa cmp_trans[OF sa(1)] by auto
qed

lemma swap_hole:
  assumes h: "heap_hole cmp n j idx ns" and s: "s = smallest cmp n ns idx" "idx < s" "s < n"
    "s = 2 * idx + 1 \<or> s = 2 * idx + 2" and len: "n \<le> length ns" and j: "j \<le> idx"
  shows "heap_hole cmp n j s (heap_swap idx s ns)"
proof -
  let ?ns = "heap_swap idx s ns"
  have sw: "?ns ! i = (if i = s then ns ! idx else if i = idx then ns ! s else ns ! i)" for i
    using s len by (simp add: nth_heap_swap)
  have ps: "(s - 1) div 2 = idx" using s(2,4) by auto
  note least = smallest_least[OF s(1)]
  have "cmp (?ns ! ((i - 1) div 2)) (?ns ! i) \<le> 0" if i: "i < n" "0 < i" "j \<le> (i - 1) div 2" "(i - 1) div 2 \<noteq> s" for i
  proof (cases "(i - 1) div 2 = idx")
    case True
    then have "i = 2 * idx + 1 \<or> i = 2 * idx + 2" using parent_iff[OF i(2), of idx] by simp
    then have "i < n" "i = 2 * idx + 1 \<or> i = 2 * idx + 2 \<or> i = idx" "i \<noteq> idx" using i by auto
    moreover have "idx < n" using s by simp
    ultimately show ?thesis using least[of i] least[of idx] True s(2) by (simp add: sw)
  next
    case False
    then have "i \<noteq> s" using ps by auto
    show ?thesis
    proof (cases "i = idx")
      case True
      have "cmp (ns ! ((idx - 1) div 2)) (ns ! s) \<le> 0"
        using h s(2,3) ps i True unfolding heap_hole_def by (metis gr_zeroI less_zeroE)
      then show ?thesis using True False i(4) \<open>i \<noteq> s\<close> by (simp add: sw)
    next
      case other: False
      have "cmp (ns ! ((i - 1) div 2)) (ns ! i) \<le> 0" using h i False unfolding heap_hole_def by blast
      then show ?thesis using False other i(4) \<open>i \<noteq> s\<close> by (simp add: sw)
    qed
  qed
  moreover have "cmp (?ns ! ((s - 1) div 2)) (?ns ! i) \<le> 0" if i: "i < n" "0 < i" "(i - 1) div 2 = s" for i
  proof -
    have "i \<noteq> s" "i \<noteq> idx" "s \<noteq> idx" using i s(2) by auto
    moreover have "cmp (ns ! ((i - 1) div 2)) (ns ! i) \<le> 0"
      using h i s(2) j unfolding heap_hole_def by (metis less_or_eq_imp_le less_imp_neq order_trans)
    ultimately show ?thesis using i(3) unfolding ps by (simp add: sw)
  qed
  ultimately show ?thesis unfolding heap_hole_def by blast
qed

lemma sift_heap:
  assumes "heap_hole cmp n j idx ns" "n \<le> length ns" "j \<le> idx"
  shows "heap_from cmp n j (heap_sift_down cmp n idx ns)"
  using assms
proof (induction "n - idx" arbitrary: idx ns rule: less_induct)
  case less
  show ?case
  proof (cases rule: sift_cases[where cmp = cmp and n = n and ns = ns and idx = idx])
    case stop
    have "cmp (ns ! ((i - 1) div 2)) (ns ! i) \<le> 0" if "i < n" "0 < i" "j \<le> (i - 1) div 2" for i
    proof (cases "(i - 1) div 2 = idx")
      case True
      then show ?thesis using smallest_least[OF stop(1)[symmetric], of i] parent_iff[OF that(2), of idx] that(1) by auto
    qed (use less(2) that in \<open>auto simp: heap_hole_def\<close>)
    then show ?thesis by (simp add: heap_from_def stop(2))
  next
    case (swap s)
    then have "n - s < n - idx" by simp
    moreover have "heap_hole cmp n j s (heap_swap idx s ns)" using swap_hole[OF less(2) swap(1-4) less(3,4)] .
    ultimately have "heap_from cmp n j (heap_sift_down cmp n s (heap_swap idx s ns))"
      using less(1,3,4) swap(2) by simp
    then show ?thesis by (simp add: swap(5))
  qed
qed

lemma build_heap:
  assumes "n \<le> length ns"
  shows "heap_from cmp n 0 (heap_build cmp n ns)"
proof -
  have "heap_from cmp n 0 (fold (heap_sift_down cmp n) (rev [0..<k]) ns)" if "heap_from cmp n k ns" "n \<le> length ns" for k ns
    using that
  proof (induction k arbitrary: ns)
    case (Suc k)
    have "heap_hole cmp n k k ns" using Suc.prems(1) by (auto simp: heap_from_def heap_hole_def)
    then have "heap_from cmp n k (heap_sift_down cmp n k ns)" using Suc.prems(2) by (intro sift_heap) simp_all
    then show ?case using Suc.IH sift_elems[OF Suc.prems(2), of cmp k] Suc.prems(2) by simp
  qed simp
  moreover have "heap_from cmp n (n div 2) ns" by (auto simp: heap_from_def)
  ultimately show ?thesis using assms by (simp add: heap_build_def)
qed

lemma root_least:
  assumes "heap_from cmp n 0 ns" "i < n"
  shows "cmp (ns ! 0) (ns ! i) \<le> 0"
  using assms(2)
proof (induction i rule: less_induct)
  case (less i)
  show ?case
  proof (cases "i = 0")
    case False
    then have "(i - 1) div 2 < i" by auto
    then have "cmp (ns ! 0) (ns ! ((i - 1) div 2)) \<le> 0" using less by simp
    moreover have "cmp (ns ! ((i - 1) div 2)) (ns ! i) \<le> 0" using assms(1) less.prems False by (simp add: heap_from_def)
    ultimately show ?thesis by (rule cmp_trans)
  qed (simp add: cmp_refl)
qed

text \<open>A changed root leaves a hole there.\<close>

lemma root_hole:
  assumes "heap_from cmp n 0 ns" "\<forall>i < n. 0 < i \<longrightarrow> ns' ! i = ns ! i"
  shows "heap_hole cmp n 0 0 ns'"
  using assms by (auto simp: heap_from_def heap_hole_def)

end

end
