(* ===== verification/Compaction.thy ===== *)
theory Compaction
  imports Sstable Merge_Heap
begin

text \<open>
  Merging tables (the iterator at the end of \<open>sstable.c\<close>) and compaction (\<open>compaction.c\<close>). The
  array of node pointers is the list of the nodes themselves, since no two slots share a node.
  Reading through a missing array, outside a buffer or bytes never written is \<open>Undefined\<close>, and so is
  overwriting the stored value of a key by one longer than the memory allocated for it.
\<close>

definition COMPACTION_INPUT_MAX :: nat where [c_consts]: "COMPACTION_INPUT_MAX = 8"

record merge_node =
  mn_table :: sstable
  block_idx :: nat
  entry_idx :: nat
  node_key :: "byte list"
  node_value :: "byte list"
  exhausted :: bool

record merge_iter =
  nodes :: "merge_node list"
  heap_size :: nat

definition heap_cmp :: "merge_node \<Rightarrow> merge_node \<Rightarrow> int" where
  "heap_cmp a b =
     (if exhausted a \<and> exhausted b then 0
      else if exhausted a then 1
      else if exhausted b then -1
      else
        (let c = memcmp (min (length (node_key a)) (length (node_key b))) (node_key a) (node_key b) in
         if c \<noteq> 0 then c
         else if length (node_key a) < length (node_key b) then -1
         else if length (node_key a) > length (node_key b) then 1
         else 0))"

section \<open>Loading an entry\<close>

text \<open>The loop over the entries of a block: whether entry \<open>entry_idx\<close> was reached, and the node.\<close>

partial_function (option) load_loop ::
    "byte list \<Rightarrow> 32 word \<Rightarrow> 32 word \<Rightarrow> nat \<Rightarrow> byte list \<Rightarrow> merge_node \<Rightarrow> (bool \<times> merge_node) outcome option" where
  "load_loop bs end_pos pos cur_entry prev node =
     (if \<not> pos < end_pos then Some (Done (False, node))
      else
        (case entry_at bs pos prev of
           None \<Rightarrow> Some Undefined
         | Some (key, vlen, pos) \<Rightarrow>
             (case slice bs (unat pos) (unat vlen) of
                None \<Rightarrow> Some Undefined
              | Some val \<Rightarrow>
                  if unat vlen > MAX_VALUE_SIZE then Some Undefined
                  else
                    (let node = node\<lparr> node_key := key, node_value := val \<rparr> in
                     if cur_entry = entry_idx node then Some (Done (True, node))
                     else load_loop bs end_pos (pos + vlen) (cur_entry + 1) (key @ drop (length key) prev) node))))"

definition merge_node_load_entry :: "merge_node \<Rightarrow> (int \<times> merge_node) outcome" where
  "merge_node_load_entry node =
     (if exhausted node then Done (-1, node)
      else if \<not> block_idx node < length (data_blocks (mn_table node)) then Undefined
      else
        (let db = data_blocks (mn_table node) ! block_idx node in
         case (data db, restart_offsets db) of
           (Some bs, Some (off # _)) \<Rightarrow>
             (case load_loop bs (data_size db) off 0 [] node of
                Some r \<Rightarrow> bind_outcome r (\<lambda>(found, node).
                            if found then Done (0, node) else Done (-1, node\<lparr> exhausted := True \<rparr>))
              | None \<Rightarrow> Undefined)
         | _ \<Rightarrow> Undefined))"

section \<open>The iterator\<close>

fun load_all :: "sstable list \<Rightarrow> merge_node list outcome" where
  "load_all [] = Done []"
| "load_all (t # ts) =
     bind_outcome (merge_node_load_entry
         \<lparr> mn_table = t, block_idx = 0, entry_idx = 0, node_key = [], node_value = [], exhausted = False \<rparr>)
       (\<lambda>(_, node). bind_outcome (load_all ts) (\<lambda>ns. Done (node # ns)))"

definition sstable_merge_iterator_create :: "sstable list \<Rightarrow> merge_iter outcome" where
  "sstable_merge_iterator_create tables =
     bind_outcome (load_all tables)
       (\<lambda>ns. Done \<lparr> nodes = heap_build heap_cmp (length tables) ns, heap_size = length tables \<rparr>)"

text \<open>Moving a node to its next entry.\<close>

definition advance_node :: "merge_node \<Rightarrow> merge_node outcome" where
  "advance_node node =
     bind_outcome (merge_node_load_entry (node\<lparr> entry_idx := entry_idx node + 1 \<rparr>))
       (\<lambda>(rc, top).
          if rc = 0 then Done top
          else
            (let top = top\<lparr> block_idx := block_idx top + 1 \<rparr> in
             if block_idx top \<ge> length (data_blocks (mn_table top)) then Done (top\<lparr> exhausted := True \<rparr>)
             else bind_outcome (merge_node_load_entry (top\<lparr> entry_idx := 0 \<rparr>)) (\<lambda>(_, top). Done top)))"

function drop_exhausted :: "merge_node list \<Rightarrow> nat \<Rightarrow> merge_iter" where
  "drop_exhausted ns n =
     (if n > 0 \<and> exhausted (ns ! 0)
      then drop_exhausted (heap_sift_down heap_cmp (n - 1) 0 (heap_swap 0 (n - 1) ns)) (n - 1)
      else \<lparr> nodes = ns, heap_size = n \<rparr>)"
  by pat_completeness auto
termination
  by (relation "measure (\<lambda>(ns, n). n)") auto

declare drop_exhausted.simps [simp del]

definition sstable_merge_iterator_next :: "merge_iter \<Rightarrow> ((byte list \<times> byte list) option \<times> merge_iter) outcome" where
  "sstable_merge_iterator_next iter =
     (if heap_size iter = 0 then Done (None, iter)
      else
        (let top = nodes iter ! 0 in
         if exhausted top then Done (None, iter)
         else
           bind_outcome (advance_node top)
             (\<lambda>top'.
                let iter = drop_exhausted ((nodes iter)[0 := top']) (heap_size iter);
                    iter = (if heap_size iter > 0
                            then iter\<lparr> nodes := heap_sift_down heap_cmp (heap_size iter) 0 (nodes iter) \<rparr> else iter)
                in Done (Some (node_key top, node_value top), iter))))"

section \<open>Compaction\<close>

text \<open>
  A gathered entry: its key, the number of bytes allocated for its value, and the value. The last
  entry is at the head of the list while gathering.
\<close>

type_synonym gathered = "byte list \<times> nat \<times> byte list"

fun gather_entry :: "byte list \<Rightarrow> byte list \<Rightarrow> gathered list \<Rightarrow> gathered list outcome" where
  "gather_entry k v ((k', n, v') # acc) =
     (if k' = k then (if length v > n then Undefined else Done ((k', n, v) # acc))
      else Done ((k, length v, v) # (k', n, v') # acc))"
| "gather_entry k v [] = Done [(k, length v, v)]"

partial_function (option) gather :: "merge_iter \<Rightarrow> gathered list \<Rightarrow> gathered list outcome option" where
  "gather iter acc =
     (case sstable_merge_iterator_next iter of
        Done (Some (k, v), iter) \<Rightarrow>
          (case gather_entry k v acc of Done acc \<Rightarrow> gather iter acc | Failed \<Rightarrow> Some Failed | Undefined \<Rightarrow> Some Undefined)
      | Done (None, iter) \<Rightarrow> Some (Done acc)
      | Failed \<Rightarrow> Some Failed
      | Undefined \<Rightarrow> Some Undefined)"

definition gathered_kvs :: "gathered list \<Rightarrow> kvs" where
  "gathered_kvs acc = map (\<lambda>(k, _, v). (k, v)) (rev acc)"

text \<open>The output table is NULL when there was nothing to write, and then the return value is still 0.\<close>

definition compaction_merge :: "sstable list \<Rightarrow> (int \<times> sstable option) outcome" where
  "compaction_merge inputs =
     (if inputs = [] then Done (-1, None)
      else
        bind_outcome (sstable_merge_iterator_create inputs)
          (\<lambda>iter.
             case gather iter [] of
               None \<Rightarrow> Undefined
             | Some r \<Rightarrow>
                 bind_outcome r (\<lambda>acc.
                   if acc = [] then Done (0, None)
                   else bind_outcome (sstable_write (gathered_kvs acc)) (\<lambda>out. Done (0, sstable_read out)))))"

section \<open>Choosing the inputs\<close>

record compaction_job =
  input_tables :: "sstable list"
  num_inputs :: nat
  job_level_n :: nat
  job_level_np1 :: nat

definition prefix_cmp :: "byte list \<Rightarrow> byte list \<Rightarrow> int" where
  "prefix_cmp a b = memcmp (min (length a) (length b)) a b"

text \<open>
  The test for an overlap. It compares the common prefixes only, and takes the last key of the
  first block for the first key of a table.
\<close>

definition overlaps :: "sstable \<Rightarrow> sstable \<Rightarrow> bool" where
  "overlaps chosen cand =
     (let first = last_key (hd (index_block chosen)); last' = last_key (last (index_block chosen));
          fst' = last_key (hd (index_block cand)); lst = last_key (last (index_block cand))
      in \<not> prefix_cmp lst first < 0 \<and> \<not> prefix_cmp fst' last' > 0)"

text \<open>The round robin index is the static variable of the function.\<close>

definition compaction_pick_leveled ::
    "32 word \<Rightarrow> sstable list \<Rightarrow> sstable list \<Rightarrow> int \<times> 32 word \<times> compaction_job option" where
  "compaction_pick_leveled round_robin_idx level_n level_np1 =
     (if level_n = [] then (-1, round_robin_idx, None)
      else
        (let chosen = level_n ! (unat round_robin_idx mod length level_n);
             overlap = take COMPACTION_INPUT_MAX (filter (overlaps chosen) level_np1)
         in (0, round_robin_idx + 1,
             Some \<lparr> input_tables = chosen # overlap, num_inputs = 1 + length overlap, job_level_n = 0, job_level_np1 = 1 \<rparr>)))"

text \<open>The job is left alone when there are not enough files.\<close>

definition compaction_pick_universal :: "sstable list \<Rightarrow> nat \<Rightarrow> compaction_job \<Rightarrow> int \<times> compaction_job" where
  "compaction_pick_universal level0 threshold job =
     (if length level0 < threshold then (0, job)
      else (0, \<lparr> input_tables = level0, num_inputs = length level0, job_level_n = 0, job_level_np1 = 1 \<rparr>))"

section \<open>What a node reads\<close>

text \<open>The first block of a table is the one of the entries \<open>g\<close>.\<close>

definition reads :: "sstable \<Rightarrow> kvs \<Rightarrow> bool" where
  "reads t g \<longleftrightarrow> g \<noteq> [] \<and> small g \<and> block_fits_words g \<and> sorted_wrt (<) (map fst g) \<and> (\<exists>bs. data_blocks t = block_of g # bs)"

lemma load_loop_entries:
  assumes "bs = pre @ entries_bytes i prev kvs" "length bs < 2 ^ 32" "buffer_ok i prev pb" "small kvs"
    and "i \<le> entry_idx node"
  shows "\<exists>k v. load_loop bs (of_nat (length bs)) (of_nat (length pre)) i pb node =
    Some (Done (if entry_idx node - i < length kvs
      then (True, node\<lparr> node_key := fst (kvs ! (entry_idx node - i)), node_value := snd (kvs ! (entry_idx node - i)) \<rparr>)
      else (False, node\<lparr> node_key := k, node_value := v \<rparr>)))"
  using assms
proof (induction i prev kvs arbitrary: pre pb node rule: entries_bytes.induct)
  case (1 i prev)
  then show ?case
    by (subst load_loop.simps) (simp, metis merge_node.surjective merge_node.update_convs(4,5))
next
  case (2 i prev k v kvs)
  have before: "of_nat (length pre) < (of_nat (length bs) :: 32 word)" unfolding 2(2) using 2(2,3) by (intro entry_before) simp
  have bs: "bs = pre @ entry_bytes i prev k v @ entries_bytes (Suc i) k kvs" using 2(2) by simp
  from entry_at_bytes[OF bs 2(3,4)] 2(5) obtain p where p: "entry_at bs (of_nat (length pre)) pb = Some (k, of_nat (length v), p)"
    "slice bs (unat p) (length v) = Some v" "p + of_nat (length v) = of_nat (length (pre @ entry_bytes i prev k v))"
    "unat (of_nat (length v) :: 32 word) = length v"
    by (auto simp: small_def)
  let ?node = "node\<lparr> node_key := k, node_value := v \<rparr>"
  have v: "\<not> MAX_VALUE_SIZE < length v" using 2(5) by (simp add: small_def)
  have step: "load_loop bs (of_nat (length bs)) (of_nat (length pre)) i pb node =
    (if i = entry_idx node then Some (Done (True, ?node))
     else load_loop bs (of_nat (length bs)) (of_nat (length (pre @ entry_bytes i prev k v))) (Suc i) (k @ drop (length k) pb) ?node)"
    by (subst load_loop.simps) (simp add: before p v Let_def del: length_append of_nat_add)
  show ?case
  proof (cases "i = entry_idx node")
    case True
    then show ?thesis using step by simp
  next
    case False
    have "\<exists>k' v'. load_loop bs (of_nat (length bs)) (of_nat (length (pre @ entry_bytes i prev k v))) (Suc i) (k @ drop (length k) pb) ?node =
      Some (Done (if entry_idx ?node - Suc i < length kvs
        then (True, ?node\<lparr> node_key := fst (kvs ! (entry_idx ?node - Suc i)), node_value := snd (kvs ! (entry_idx ?node - Suc i)) \<rparr>)
        else (False, ?node\<lparr> node_key := k', node_value := v' \<rparr>)))"
      using 2(2-6) False by (intro 2(1)) (auto simp: buffer_ok_def small_def)
    then obtain k' v' where l: "load_loop bs (of_nat (length bs)) (of_nat (length (pre @ entry_bytes i prev k v))) (Suc i) (k @ drop (length k) pb) ?node =
      Some (Done (if entry_idx ?node - Suc i < length kvs
        then (True, ?node\<lparr> node_key := fst (kvs ! (entry_idx ?node - Suc i)), node_value := snd (kvs ! (entry_idx ?node - Suc i)) \<rparr>)
        else (False, ?node\<lparr> node_key := k', node_value := v' \<rparr>)))" by blast
    have "entry_idx node - i = Suc (entry_idx node - Suc i)" using False 2(6) by simp
    then have "load_loop bs (of_nat (length bs)) (of_nat (length pre)) i pb node =
      Some (Done (if entry_idx node - i < length ((k, v) # kvs)
        then (True, node\<lparr> node_key := fst (((k, v) # kvs) ! (entry_idx node - i)), node_value := snd (((k, v) # kvs) ! (entry_idx node - i)) \<rparr>)
        else (False, node\<lparr> node_key := k', node_value := v' \<rparr>)))"
      using False unfolding step l by simp
    then show ?thesis by blast
  qed
qed

lemma load_entry:
  assumes r: "reads (mn_table node) g" and "block_idx node = 0" "\<not> exhausted node"
  shows "entry_idx node < length g \<Longrightarrow> merge_node_load_entry node =
      Done (0, node\<lparr> node_key := fst (g ! entry_idx node), node_value := snd (g ! entry_idx node) \<rparr>)"
    "\<not> entry_idx node < length g \<Longrightarrow> \<exists>k v. merge_node_load_entry node =
      Done (-1, node\<lparr> node_key := k, node_value := v, exhausted := True \<rparr>)"
proof -
  obtain bs where db: "data_blocks (mn_table node) = block_of g # bs" and g: "g \<noteq> []" "small g" "block_fits_words g"
    using r by (auto simp: reads_def)
  have "0 < restart_count g" using g(1) by (simp add: restart_count_iff)
  then obtain offs where offs: "map (\<lambda>r. of_nat (restart_offset g r)) [0..<restart_count g] = (0 :: 32 word) # offs"
    by (simp add: upt_conv_Cons restart_offset_def)
  let ?d = "entries_bytes 0 [] g"
  have "\<exists>k v. load_loop ?d (of_nat (length ?d)) 0 0 [] node =
      Some (Done (if entry_idx node < length g
        then (True, node\<lparr> node_key := fst (g ! entry_idx node), node_value := snd (g ! entry_idx node) \<rparr>)
        else (False, node\<lparr> node_key := k, node_value := v \<rparr>)))"
  proof -
    have "\<exists>k v. load_loop ?d (of_nat (length ?d)) (of_nat (length ([] :: byte list))) 0 [] node =
      Some (Done (if entry_idx node < length g
        then (True, node\<lparr> node_key := fst (g ! entry_idx node), node_value := snd (g ! entry_idx node) \<rparr>)
        else (False, node\<lparr> node_key := k, node_value := v \<rparr>)))"
      by (rule load_loop_entries[of ?d "[]" 0 "[]" g "[]" node, unfolded diff_zero])
        (use g in \<open>simp_all add: block_fits_words_def buffer_ok_def\<close>)
    then show ?thesis by (simp only: list.size(3) semiring_1_class.of_nat_0)
  qed
  then obtain k v where "load_loop ?d (of_nat (length ?d)) 0 0 [] node =
      Some (Done (if entry_idx node < length g
        then (True, node\<lparr> node_key := fst (g ! entry_idx node), node_value := snd (g ! entry_idx node) \<rparr>)
        else (False, node\<lparr> node_key := k, node_value := v \<rparr>)))" by blast
  note l = this
  show "entry_idx node < length g \<Longrightarrow> merge_node_load_entry node =
      Done (0, node\<lparr> node_key := fst (g ! entry_idx node), node_value := snd (g ! entry_idx node) \<rparr>)"
    using assms(2,3) l by (simp add: merge_node_load_entry_def db block_of_sel offs Let_def)
  show "\<not> entry_idx node < length g \<Longrightarrow> \<exists>k v. merge_node_load_entry node =
      Done (-1, node\<lparr> node_key := k, node_value := v, exhausted := True \<rparr>)"
    using assms(2,3) l by (simp add: merge_node_load_entry_def db block_of_sel offs Let_def)
      (metis merge_node.update_convs(6))
qed

text \<open>
  The entries a node still gives: those of the first block from \<open>entry_idx\<close> on, and nothing once it
  is exhausted, whatever blocks follow.
\<close>

definition gives :: "merge_node \<Rightarrow> kvs \<Rightarrow> bool" where
  "gives node es \<longleftrightarrow>
     (if exhausted node then es = []
      else \<exists>g. reads (mn_table node) g \<and> block_idx node = 0 \<and> es = drop (entry_idx node) g \<and>
             es \<noteq> [] \<and> hd es = (node_key node, node_value node))"

lemma gives_first:
  assumes "reads t g"
  shows "\<exists>rc node. merge_node_load_entry
      \<lparr> mn_table = t, block_idx = 0, entry_idx = 0, node_key = [], node_value = [], exhausted = False \<rparr> = Done (rc, node) \<and>
    gives node g"
proof -
  let ?n = "\<lparr> mn_table = t, block_idx = 0, entry_idx = 0, node_key = [], node_value = [], exhausted = False \<rparr>"
  have "g \<noteq> []" using assms by (simp add: reads_def)
  then show ?thesis using load_entry(1)[of ?n g] assms by (auto simp: gives_def hd_conv_nth)
qed

lemma gives_advance:
  assumes "gives node es" "\<not> exhausted node"
  shows "\<exists>node'. advance_node node = Done node' \<and> gives node' (tl es)"
proof -
  from assms obtain g where g: "reads (mn_table node) g" "block_idx node = 0" "es = drop (entry_idx node) g" "es \<noteq> []"
    by (auto simp: gives_def)
  let ?n = "node\<lparr> entry_idx := entry_idx node + 1 \<rparr>"
  have tl: "tl es = drop (entry_idx node + 1) g" using g(3) by (simp add: tl_drop drop_Suc)
  show ?thesis
  proof (cases "entry_idx node + 1 < length g")
    case True
    then have "drop (entry_idx node + 1) g \<noteq> []" "hd (drop (entry_idx node + 1) g) = g ! (entry_idx node + 1)"
      by (simp_all add: hd_drop_conv_nth)
    then show ?thesis using load_entry(1)[of ?n g] True g tl assms(2) by (auto simp: advance_node_def gives_def)
  next
    case False
    with load_entry(2)[of ?n g] g(1,2) assms(2) obtain k v where
      "merge_node_load_entry ?n = Done (-1, ?n\<lparr> node_key := k, node_value := v, exhausted := True \<rparr>)" by auto
    with False show ?thesis using tl by (auto simp: advance_node_def gives_def merge_node_load_entry_def Let_def)
  qed
qed

text \<open>A table has only one first block, so what a node gives is determined.\<close>

lemma reads_same_length:
  assumes "reads t g" "reads t h"
  shows "length g \<le> length h"
proof (rule ccontr)
  let ?n = "\<lparr> mn_table = t, block_idx = 0, entry_idx = length h, node_key = [], node_value = [], exhausted = False \<rparr>"
  assume "\<not> length g \<le> length h"
  then have "\<exists>n. merge_node_load_entry ?n = Done (0, n)" using load_entry(1)[of ?n g] assms(1) by auto
  moreover have "\<exists>n. merge_node_load_entry ?n = Done (-1, n)" using load_entry(2)[of ?n h] assms(2) by auto
  ultimately show False by auto
qed

lemma reads_unique:
  assumes "reads t g" "reads t h"
  shows "g = h"
proof (rule nth_equalityI)
  show len: "length g = length h" using reads_same_length assms by (meson le_antisym)
  show "g ! i = h ! i" if i: "i < length g" for i
  proof -
    let ?n = "\<lparr> mn_table = t, block_idx = 0, entry_idx = i, node_key = [], node_value = [], exhausted = False \<rparr>"
    have "merge_node_load_entry ?n = Done (0, ?n\<lparr> node_key := fst (g ! i), node_value := snd (g ! i) \<rparr>)"
      using load_entry(1)[of ?n g] assms(1) i by simp
    moreover have "merge_node_load_entry ?n = Done (0, ?n\<lparr> node_key := fst (h ! i), node_value := snd (h ! i) \<rparr>)"
      using load_entry(1)[of ?n h] assms(2) i len by simp
    ultimately show ?thesis by (simp add: prod_eq_iff)
  qed
qed

definition pending :: "merge_node \<Rightarrow> kvs" where
  "pending node = (THE es. gives node es)"

lemma gives_pending: "gives node es \<Longrightarrow> pending node = es"
  unfolding pending_def by (intro the_equality) (auto simp: gives_def dest: reads_unique split: if_splits)

section \<open>The heap of nodes\<close>

lemma heap_cmp_iff:
  "heap_cmp a b \<le> 0 \<longleftrightarrow> exhausted b \<or> (\<not> exhausted a \<and> node_key a \<le> node_key b)"
  "heap_cmp a b < 0 \<longleftrightarrow> \<not> exhausted a \<and> (exhausted b \<or> node_key a < node_key b)"
proof -
  have k: "(let c = memcmp (min (length x) (length y)) x y in
         if c \<noteq> 0 then c else if length x < length y then -1 else if length x > length y then 1 else 0) = key_cmp x y" for x y
    by (auto simp: key_cmp_def Let_def)
  show "heap_cmp a b \<le> 0 \<longleftrightarrow> exhausted b \<or> (\<not> exhausted a \<and> node_key a \<le> node_key b)"
    "heap_cmp a b < 0 \<longleftrightarrow> \<not> exhausted a \<and> (exhausted b \<or> node_key a < node_key b)"
    unfolding heap_cmp_def k by auto
qed

interpretation node_heap: heap_order heap_cmp
proof unfold_locales
  show "heap_cmp a c \<le> 0" if "heap_cmp a b \<le> 0" "heap_cmp b c \<le> 0" for a b c
    using that unfolding heap_cmp_iff by (auto intro: order_trans)
  show "heap_cmp b a \<le> 0" if "\<not> heap_cmp a b < 0" for a b
    using that unfolding heap_cmp_iff by (auto simp: not_less)
qed

text \<open>Whether all live nodes give entries, and all entries they give.\<close>

definition live :: "nat \<Rightarrow> merge_node list \<Rightarrow> bool" where
  "live n ns \<longleftrightarrow> n \<le> length ns \<and> (\<forall>node \<in># mset (take n ns). gives node (pending node))"

definition content :: "nat \<Rightarrow> merge_node list \<Rightarrow> (byte list \<times> byte list) multiset" where
  "content n ns = sum_mset (image_mset (\<lambda>node. mset (pending node)) (mset (take n ns)))"

lemma live_cong: "mset (take n ns) = mset (take n ns') \<Longrightarrow> length ns = length ns' \<Longrightarrow> live n ns = live n ns' \<and> content n ns = content n ns'"
  by (simp add: live_def content_def)

lemma sift_live: "live n ns \<Longrightarrow> live n (heap_sift_down heap_cmp n i ns) \<and> content n (heap_sift_down heap_cmp n i ns) = content n ns"
  using sift_elems[of n ns heap_cmp i] live_cong[of n "heap_sift_down heap_cmp n i ns" ns] by (simp add: live_def)

lemma drop_last_live:
  assumes l: "live n ns" and n: "0 < n" and e: "exhausted (ns ! 0)"
  shows "live (n - 1) (heap_swap 0 (n - 1) ns) \<and> content (n - 1) (heap_swap 0 (n - 1) ns) = content n ns"
proof -
  let ?ns = "heap_swap 0 (n - 1) ns"
  have len: "n \<le> length ns" using l by (simp add: live_def)
  have m: "mset (take n ?ns) = mset (take n ns)" using heap_swap_elems(1)[of 0 n "n - 1" ns] n len by simp
  have "take n ?ns = take (n - 1) ?ns @ [?ns ! (n - 1)]"
    using n len take_Suc_conv_app_nth[of "n - 1" ?ns] by simp
  moreover have "?ns ! (n - 1) = ns ! 0" using n len nth_heap_swap[of 0 ns "n - 1" "n - 1"] by fastforce
  ultimately have split: "mset (take n ns) = add_mset (ns ! 0) (mset (take (n - 1) ?ns))" using m by simp
  have "pending (ns ! 0) = []" using e by (intro gives_pending) (simp add: gives_def)
  then show ?thesis using l split len by (auto simp: live_def content_def)
qed

lemma drop_exhausted_ok:
  assumes "live n ns" "heap_hole heap_cmp n 0 0 ns"
  shows "\<exists>n' ns'. drop_exhausted ns n = \<lparr> nodes = ns', heap_size = n' \<rparr> \<and> live n' ns' \<and> content n' ns' = content n ns \<and>
    heap_hole heap_cmp n' 0 0 ns'"
  using assms
proof (induction n arbitrary: ns)
  case 0
  then show ?case by (simp add: drop_exhausted.simps[of ns 0])
next
  case (Suc n)
  show ?case
  proof (cases "exhausted (ns ! 0)")
    case True
    let ?ns = "heap_swap 0 n ns"
    have s: "live n ?ns" "content n ?ns = content (Suc n) ns" using drop_last_live[OF Suc.prems(1) _ True] by simp_all
    have "heap_hole heap_cmp n 0 0 ?ns"
    proof -
      have len: "0 < length ns" "n < length ns" using Suc.prems(1) by (auto simp: live_def)
      have "?ns ! i = ns ! i \<and> ?ns ! ((i - 1) div 2) = ns ! ((i - 1) div 2)" if "i < n" "(i - 1) div 2 \<noteq> 0" for i
      proof -
        have "(i - 1) div 2 < n" "i \<noteq> 0" using that by auto
        then show ?thesis using that nth_heap_swap[OF len] by auto
      qed
      then show ?thesis using Suc.prems(2) unfolding heap_hole_def by (simp del: One_nat_def)
    qed
    then have "heap_from heap_cmp n 0 (heap_sift_down heap_cmp n 0 ?ns)"
      using s(1) by (intro node_heap.sift_heap) (simp_all add: live_def)
    then have "heap_hole heap_cmp n 0 0 (heap_sift_down heap_cmp n 0 ?ns)" by (intro node_heap.root_hole) auto
    with Suc.IH[of "heap_sift_down heap_cmp n 0 ?ns"] sift_live[OF s(1), of 0] s(2) True show ?thesis by (simp add: drop_exhausted.simps[of ns "Suc n"])
  next
    case False
    then show ?thesis using Suc.prems by (simp add: drop_exhausted.simps[of ns "Suc n"])
  qed
qed

text \<open>Every call gives a least entry of those left, or says that none is left.\<close>

lemma gives_least: "gives node es \<Longrightarrow> e \<in> set es \<Longrightarrow> node_key node \<le> fst e \<and> \<not> exhausted node"
proof -
  assume g: "gives node es" and e: "e \<in> set es"
  then obtain g where r: "reads (mn_table node) g" "es = drop (entry_idx node) g" "es \<noteq> []"
    "hd es = (node_key node, node_value node)" "\<not> exhausted node" by (auto simp: gives_def split: if_splits)
  have "sorted_wrt (<) (map fst es)" using r(1,2) by (simp add: reads_def sorted_wrt_drop flip: drop_map)
  with r(3,4) e have "node_key node \<le> fst e" by (cases es) (auto simp: less_imp_le)
  with r(5) show ?thesis by simp
qed

lemma live_content: "live n ns \<Longrightarrow> e \<in># content n ns \<Longrightarrow> \<exists>i < n. e \<in> set (pending (ns ! i)) \<and> gives (ns ! i) (pending (ns ! i))"
proof -
  assume l: "live n ns" and "e \<in># content n ns"
  then obtain node where node: "node \<in> set (take n ns)" "e \<in> set (pending node)" by (auto simp: content_def)
  then obtain i where "i < n" "ns ! i = node" using l by (auto simp: in_set_conv_nth live_def)
  with node l show ?thesis by (auto simp: live_def)
qed

lemma next_ok:
  assumes l: "live n ns" and h: "heap_from heap_cmp n 0 ns"
  shows "(content n ns = {#} \<and> sstable_merge_iterator_next \<lparr> nodes = ns, heap_size = n \<rparr> = Done (None, \<lparr> nodes = ns, heap_size = n \<rparr>)) \<or>
    (\<exists>k v n' ns'. sstable_merge_iterator_next \<lparr> nodes = ns, heap_size = n \<rparr> = Done (Some (k, v), \<lparr> nodes = ns', heap_size = n' \<rparr>) \<and>
       live n' ns' \<and> heap_from heap_cmp n' 0 ns' \<and> content n ns = add_mset (k, v) (content n' ns') \<and>
       (\<forall>e \<in># content n ns. k \<le> fst e))"
proof (cases "n = 0 \<or> exhausted (ns ! 0)")
  case True
  have "content n ns = {#}"
  proof (rule ccontr)
    assume "content n ns \<noteq> {#}"
    then obtain e where "e \<in># content n ns" by blast
    from live_content[OF l this] obtain i where i: "i < n" "e \<in> set (pending (ns ! i))" "gives (ns ! i) (pending (ns ! i))" by blast
    have "heap_cmp (ns ! 0) (ns ! i) \<le> 0" by (rule node_heap.root_least[OF h i(1)])
    then show False using gives_least[OF i(3,2)] True i(1) by (simp add: heap_cmp_iff)
  qed
  then show ?thesis using True by (auto simp: sstable_merge_iterator_next_def Let_def)
next
  case False
  let ?top = "ns ! 0"
  have n: "0 < n" "n \<le> length ns" using False l by (simp_all add: live_def)
  have "?top \<in> set (take n ns)" using n by (metis length_take min.absorb2 nth_mem nth_take)
  then have g: "gives ?top (pending ?top)" using l by (simp add: live_def)
  with False obtain es where es: "pending ?top = (node_key ?top, node_value ?top) # es"
    by (cases "pending ?top") (auto simp: gives_def)
  from gives_advance[OF g] False es obtain top' where adv: "advance_node ?top = Done top'" "gives top' es" by auto
  let ?ns = "ns[0 := top']"
  have tk: "take n ns = ?top # tl (take n ns)" "take n ?ns = top' # tl (take n ns)"
    using n by (cases ns; cases n; simp)+
  have live': "live n ?ns"
  proof -
    have "set (tl (take n ns)) \<subseteq> set (take n ns)" by (cases "take n ns") auto
    then show ?thesis using l adv(2) gives_pending[OF adv(2)] unfolding live_def tk(2) by auto
  qed
  have cont: "content n ns = add_mset (node_key ?top, node_value ?top) (content n ?ns)"
    unfolding content_def tk(2) by (subst tk(1)) (simp add: es gives_pending[OF adv(2)])
  have hole: "heap_hole heap_cmp n 0 0 ?ns" by (rule node_heap.root_hole[OF h]) simp
  from drop_exhausted_ok[OF live' hole] obtain n' ns' where d: "drop_exhausted ?ns n = \<lparr> nodes = ns', heap_size = n' \<rparr>"
    "live n' ns'" "content n' ns' = content n ?ns" "heap_hole heap_cmp n' 0 0 ns'" by blast
  define ns'' where "ns'' = (if n' > 0 then heap_sift_down heap_cmp n' 0 ns' else ns')"
  have "live n' ns'' \<and> content n' ns'' = content n ?ns" using sift_live[OF d(2), of 0] d(2,3) by (auto simp: ns''_def)
  moreover have "heap_from heap_cmp n' 0 ns''"
    using d(2) node_heap.sift_heap[OF d(4)] by (auto simp: ns''_def live_def heap_from_def)
  moreover have "node_key ?top \<le> fst e" if "e \<in># content n ns" for e
  proof -
    from live_content[OF l that] obtain i where i: "i < n" "e \<in> set (pending (ns ! i))" "gives (ns ! i) (pending (ns ! i))" by blast
    have "heap_cmp (ns ! 0) (ns ! i) \<le> 0" by (rule node_heap.root_least[OF h i(1)])
    then show ?thesis using gives_least[OF i(3,2)] by (auto simp: heap_cmp_iff intro: order_trans)
  qed
  moreover have "sstable_merge_iterator_next \<lparr> nodes = ns, heap_size = n \<rparr> =
      Done (Some (node_key ?top, node_value ?top), \<lparr> nodes = ns'', heap_size = n' \<rparr>)"
    using False n by (simp add: sstable_merge_iterator_next_def adv d(1) ns''_def Let_def)
  ultimately show ?thesis using cont by metis
qed

section \<open>Gathering\<close>

fun absorb :: "kvs \<Rightarrow> gathered list \<Rightarrow> gathered list outcome" where
  "absorb [] acc = Done acc"
| "absorb ((k, v) # es) acc = bind_outcome (gather_entry k v acc) (absorb es)"

text \<open>Gathering is absorbing all entries in some order of increasing keys.\<close>

lemma gather_absorb:
  assumes "live n ns" "heap_from heap_cmp n 0 ns"
  shows "\<exists>es. mset es = content n ns \<and> sorted (map fst es) \<and>
    gather \<lparr> nodes = ns, heap_size = n \<rparr> acc = Some (absorb es acc)"
  using assms
proof (induction "size (content n ns)" arbitrary: n ns acc)
  case 0
  then have "sstable_merge_iterator_next \<lparr> nodes = ns, heap_size = n \<rparr> = Done (None, \<lparr> nodes = ns, heap_size = n \<rparr>)"
    using next_ok[of n ns] by auto
  then show ?case using 0(1) by (intro exI[of _ "[]"]) (simp add: gather.simps)
next
  case (Suc m)
  from next_ok[OF Suc.prems] Suc(2) obtain k v n' ns' where
    s: "sstable_merge_iterator_next \<lparr> nodes = ns, heap_size = n \<rparr> = Done (Some (k, v), \<lparr> nodes = ns', heap_size = n' \<rparr>)"
      "live n' ns'" "heap_from heap_cmp n' 0 ns'" "content n ns = add_mset (k, v) (content n' ns')"
      "\<forall>e \<in># content n ns. k \<le> fst e" by auto
  have m: "m = size (content n' ns')" using Suc(2) s(4) by simp
  have "\<exists>es. mset es = content n' ns' \<and> sorted (map fst es) \<and>
      gather \<lparr> nodes = ns, heap_size = n \<rparr> acc = Some (absorb ((k, v) # es) acc)"
  proof (cases "gather_entry k v acc")
    case (Done acc')
    from Suc(1)[OF m s(2,3), of acc'] Done s(1) show ?thesis by (subst gather.simps) auto
  next
    case Failed
    from Suc(1)[OF m s(2,3), of acc] Failed s(1) show ?thesis by (subst gather.simps) auto
  next
    case Undefined
    from Suc(1)[OF m s(2,3), of acc] Undefined s(1) show ?thesis by (subst gather.simps) auto
  qed
  then obtain es where es: "mset es = content n' ns'" "sorted (map fst es)"
    "gather \<lparr> nodes = ns, heap_size = n \<rparr> acc = Some (absorb ((k, v) # es) acc)" by blast
  have "sorted (map fst ((k, v) # es))" using es(1,2) s(4,5) by (auto simp flip: es(1) set_mset_mset)
  then show ?case using es s(4) by (intro exI[of _ "(k, v) # es"]) simp
qed

text \<open>Absorbing entries in order keeps one value per key, in the memory of the first.\<close>

definition gathered_ok :: "(byte list \<times> byte list) set \<Rightarrow> gathered list \<Rightarrow> bool" where
  "gathered_ok E acc \<longleftrightarrow> sorted_wrt (\<lambda>a b. fst b < fst a) acc \<and> (\<forall>(k, n, v) \<in> set acc. n = length v \<and> (k, v) \<in> E)"

definition same_lengths :: "(byte list \<times> byte list) set \<Rightarrow> bool" where
  "same_lengths E \<longleftrightarrow> (\<forall>k v w. (k, v) \<in> E \<and> (k, w) \<in> E \<longrightarrow> length v = length w)"

lemma gather_entry_ok:
  assumes acc: "gathered_ok E acc" and E: "same_lengths E" "(k, v) \<in> E" and above: "\<forall>a \<in> set acc. fst a \<le> k"
  shows "\<exists>acc'. gather_entry k v acc = Done acc' \<and> gathered_ok E acc' \<and> fst ` set acc' = insert k (fst ` set acc)"
proof (cases acc)
  case (Cons a as)
  obtain k' n v' where a: "a = (k', n, v')" by (cases a)
  have n: "n = length v'" "(k', v') \<in> E" using acc by (simp_all add: gathered_ok_def Cons a)
  show ?thesis
  proof (cases "k' = k")
    case True
    then have "length v = n" using n E unfolding same_lengths_def by blast
    then show ?thesis using acc E True by (auto simp: gathered_ok_def Cons a)
  next
    case False
    then have "k' < k" using above by (simp add: Cons a le_less)
    moreover have "\<forall>b \<in> set as. fst b < k'" using acc by (simp add: gathered_ok_def Cons a)
    ultimately have "\<forall>b \<in> set acc. fst b < k" by (auto simp: Cons a)
    then have "gathered_ok E ((k, length v, v) # acc)" using acc E(2) by (simp add: gathered_ok_def)
    then show ?thesis using False by (simp add: Cons a)
  qed
qed (use E in \<open>simp add: gathered_ok_def\<close>)

lemma absorb_ok:
  assumes "gathered_ok E acc" "same_lengths E" "set es \<subseteq> E" "sorted (map fst es)" "\<forall>a \<in> set acc. \<forall>e \<in> set es. fst a \<le> fst e"
  shows "\<exists>acc'. absorb es acc = Done acc' \<and> gathered_ok E acc' \<and> fst ` set acc' = fst ` set acc \<union> fst ` set es"
  using assms
proof (induction es arbitrary: acc)
  case (Cons e es)
  obtain k v where e: "e = (k, v)" by (cases e)
  from gather_entry_ok[OF Cons.prems(1,2), of k v] Cons.prems(3,5) obtain acc1 where
    a1: "gather_entry k v acc = Done acc1" "gathered_ok E acc1" "fst ` set acc1 = insert k (fst ` set acc)" by (auto simp: e)
  have above: "\<forall>a \<in> set acc1. \<forall>e \<in> set es. fst a \<le> fst e"
  proof (intro ballI)
    fix a x assume "a \<in> set acc1" "x \<in> set es"
    then have "fst a \<in> insert k (fst ` set acc)" using a1(3) by blast
    then show "fst a \<le> fst x" using Cons.prems(4,5) \<open>x \<in> set es\<close> by (auto simp: e)
  qed
  have sub: "set es \<subseteq> E" "sorted (map fst es)" using Cons.prems(3,4) by simp_all
  from Cons.IH[OF a1(2) Cons.prems(2) sub above] a1 show ?case by (auto simp: e)
qed simp

lemma gathered_kvs_ok:
  assumes "gathered_ok E acc"
  shows "sorted_wrt (<) (map fst (gathered_kvs acc))" "set (gathered_kvs acc) \<subseteq> E" "fst ` set (gathered_kvs acc) = fst ` set acc"
proof -
  have "map fst (gathered_kvs acc) = rev (map fst acc)" by (simp add: gathered_kvs_def rev_map comp_def case_prod_beta)
  moreover have "sorted_wrt (\<lambda>a b. b < a) (map fst acc)" using assms by (simp add: gathered_ok_def sorted_wrt_map)
  ultimately show "sorted_wrt (<) (map fst (gathered_kvs acc))" by (simp add: sorted_wrt_rev)
  show "set (gathered_kvs acc) \<subseteq> E" using assms by (auto simp: gathered_kvs_def gathered_ok_def)
  show "fst ` set (gathered_kvs acc) = fst ` set acc" by (force simp: gathered_kvs_def)
qed

section \<open>The merge of tables\<close>

lemma load_all_ok:
  assumes "list_all2 reads ts gs"
  shows "\<exists>ns. load_all ts = Done ns \<and> list_all2 gives ns gs"
  using assms
proof (induction ts gs rule: list_all2_induct)
  case (Cons t ts g gs)
  from gives_first[OF Cons(1)] Cons(3) show ?case by auto
qed simp

lemma content_all: "list_all2 gives ns gs \<Longrightarrow> live (length gs) ns \<and> content (length gs) ns = mset (concat gs)"
proof -
  assume "list_all2 gives ns gs"
  then have "length ns = length gs \<and> (\<forall>node \<in> set ns. gives node (pending node)) \<and> concat (map pending ns) = concat gs"
    by (induction ns gs rule: list_all2_induct) (auto simp: gives_pending)
  moreover have "sum_mset (image_mset (\<lambda>node. mset (pending node)) (mset ns)) = mset (concat (map pending ns))" for ns
    by (induction ns) simp_all
  ultimately show ?thesis by (simp add: live_def content_def)
qed

text \<open>The entries in the first blocks of the inputs are all that is merged.\<close>

lemma merge_absorb:
  assumes "list_all2 reads ts gs" "ts \<noteq> []"
  shows "\<exists>es. mset es = mset (concat gs) \<and> sorted (map fst es) \<and>
    compaction_merge ts = bind_outcome (absorb es []) (\<lambda>acc. if acc = [] then Done (0, None)
      else bind_outcome (sstable_write (gathered_kvs acc)) (\<lambda>out. Done (0, sstable_read out)))"
proof -
  from load_all_ok[OF assms(1)] obtain ns where ns: "load_all ts = Done ns" "list_all2 gives ns gs" by blast
  have len: "length ts = length gs" using assms(1) by (rule list_all2_lengthD)
  let ?n = "length gs" let ?b = "heap_build heap_cmp (length gs) ns"
  have l: "live ?n ns" "content ?n ns = mset (concat gs)" using content_all[OF ns(2)] by simp_all
  have "live ?n ?b \<and> content ?n ?b = mset (concat gs)"
    using build_elems[of ?n ns heap_cmp] live_cong[of ?n ?b ns] l by (simp add: live_def)
  moreover have "heap_from heap_cmp ?n 0 ?b" using l(1) by (intro node_heap.build_heap) (simp add: live_def)
  ultimately obtain es where es: "mset es = mset (concat gs)" "sorted (map fst es)"
    "gather \<lparr> nodes = ?b, heap_size = ?n \<rparr> [] = Some (absorb es [])"
    using gather_absorb[of ?n ?b "[]"] by auto
  then show ?thesis
    using assms(2) ns(1) by (intro exI[of _ es]) (simp add: compaction_merge_def sstable_merge_iterator_create_def len)
qed

text \<open>A table written from entries that fit it, and its first block.\<close>

definition table_entries :: "kvs \<Rightarrow> bool" where
  "table_entries kvs \<longleftrightarrow> kvs \<noteq> [] \<and> sorted_wrt (<) (map fst kvs) \<and> small kvs \<and> length kvs \<le> 2 ^ 20"

definition stored :: "kvs \<Rightarrow> sstable \<Rightarrow> bool" where
  "stored kvs t \<longleftrightarrow> (\<exists>bytes. sstable_write kvs = Done bytes \<and> sstable_read bytes = Some t)"

definition first_block :: "kvs \<Rightarrow> kvs" where
  "first_block kvs = hd (groups kvs)"

lemma first_block_ok:
  assumes "table_entries kvs"
  shows "groups kvs = first_block kvs # tl (groups kvs)" "kvs = first_block kvs @ concat (tl (groups kvs))"
    "first_block kvs \<in> set (groups kvs)"
proof -
  have "groups kvs \<noteq> []" using assms by (simp add: table_entries_def groups.simps[of kvs])
  then show g: "groups kvs = first_block kvs # tl (groups kvs)" by (simp add: first_block_def)
  then show "first_block kvs \<in> set (groups kvs)" by (metis list.set_intros(1))
  show "kvs = first_block kvs @ concat (tl (groups kvs))" using concat_groups[of kvs] by (subst (asm) g) simp
qed

lemma stored_table:
  assumes "table_entries kvs" "stored kvs t"
  shows "\<exists>n. t = table_of n kvs"
  using write_read[of kvs] assms by (auto simp: table_entries_def stored_def)

lemma stored_reads:
  assumes kvs: "table_entries kvs" and t: "stored kvs t"
  shows "reads t (first_block kvs)"
proof -
  from stored_table[OF kvs t] obtain n where t: "t = table_of n kvs" by blast
  have s: "small kvs" "length kvs \<le> 2 ^ 20" using kvs by (simp_all add: table_entries_def)
  note g = groups_ok[OF s(1) first_block_ok(3)[OF kvs]]
  have "sorted_wrt (<) (map fst (first_block kvs @ concat (tl (groups kvs))))"
    using kvs first_block_ok(2)[OF kvs] by (simp add: table_entries_def)
  then have "sorted_wrt (<) (map fst (first_block kvs))" by (simp add: sorted_wrt_append)
  moreover have "block_fits_words (first_block kvs)" using g(2,3) s(2) by (simp add: block_fits_words_def)
  moreover have "data_blocks t = block_of (first_block kvs) # map block_of (tl (groups kvs))"
    unfolding t table_of_def by (subst first_block_ok(1)[OF kvs]) simp
  ultimately show ?thesis using g(1) by (simp add: reads_def)
qed

definition merged :: "kvs list \<Rightarrow> kvs" where
  "merged inputs = concat (map first_block inputs)"

text \<open>What the merge writes: a sorted list of entries of the first blocks.\<close>

lemma merge_output:
  assumes "inputs \<noteq> []" "list_all2 stored inputs tables" "\<forall>kvs \<in> set inputs. table_entries kvs"
    and "same_lengths (set (merged inputs))" "length (merged inputs) \<le> 2 ^ 20"
  shows "\<exists>n out. compaction_merge tables = Done (0, Some (table_of n out)) \<and> stored out (table_of n out) \<and>
    sorted_wrt (<) (map fst out) \<and> small out \<and> length out \<le> 2 ^ 20 \<and>
    fst ` set out = fst ` set (merged inputs) \<and> set out \<subseteq> set (merged inputs)"
proof -
  have r: "list_all2 reads tables (map first_block inputs)"
    using assms(2,3) stored_reads by (auto simp: list_all2_conv_all_nth)
  have "tables \<noteq> []" using assms(1,2) by auto
  from merge_absorb[OF r this] obtain es where es: "mset es = mset (merged inputs)" "sorted (map fst es)"
    "compaction_merge tables = bind_outcome (absorb es []) (\<lambda>acc. if acc = [] then Done (0, None)
      else bind_outcome (sstable_write (gathered_kvs acc)) (\<lambda>out. Done (0, sstable_read out)))"
    by (auto simp: merged_def)
  have set_es: "set es = set (merged inputs)" using es(1) by (metis set_mset_mset)
  from absorb_ok[of "set (merged inputs)" "[]" es] assms(4) es(2) set_es obtain acc where
    acc: "absorb es [] = Done acc" "gathered_ok (set (merged inputs)) acc" "fst ` set acc = fst ` set (merged inputs)"
    by (auto simp: gathered_ok_def)
  let ?out = "gathered_kvs acc"
  note out = gathered_kvs_ok[OF acc(2)]
  have "small (merged inputs)"
  proof -
    have "small (first_block kvs)" if "kvs \<in> set inputs" for kvs
      using stored_reads[of kvs] assms(2,3) that groups_ok(1)[OF _ first_block_ok(3)] by (auto simp: table_entries_def)
    then show ?thesis by (auto simp: merged_def small_def)
  qed
  then have small: "small ?out" using out(2) by (auto simp: small_def)
  have len: "length ?out \<le> 2 ^ 20"
  proof -
    have "length ?out = card (set (map fst ?out))" using out(1) by (metis distinct_card length_map strict_sorted_iff)
    also have "\<dots> = card (fst ` set (merged inputs))" by (simp add: out(3) acc(3))
    also have "\<dots> \<le> length (merged inputs)" by (metis card_length length_map list.set_map)
    finally show ?thesis using assms(5) by simp
  qed
  from write_read[OF small len] obtain bytes where w: "sstable_write ?out = Done bytes"
    "sstable_read bytes = Some (table_of (length bytes) ?out)" by blast
  have "first_block (hd inputs) \<noteq> []"
    using stored_reads assms(1-3) by (cases inputs; cases tables) (auto simp: reads_def)
  then have "acc \<noteq> []" using acc(3) assms(1) by (cases inputs) (auto simp: merged_def)
  then have "compaction_merge tables = Done (0, Some (table_of (length bytes) ?out))" using es(3) acc(1) w by simp
  then show ?thesis using w out acc(3) small len by (intro exI[of _ "length bytes"] exI[of _ ?out]) (auto simp: stored_def)
qed

text \<open>
  C31. Compaction merges the first blocks of its inputs: if equal keys have values of equal length,
  it succeeds without leaving a buffer, and its output is a sorted table with exactly the keys of
  the first blocks, each with a value that one of them gives it.
\<close>

theorem compaction_merges_first_blocks:
  assumes "inputs \<noteq> []" "list_all2 stored inputs tables" "\<forall>kvs \<in> set inputs. table_entries kvs"
    and "same_lengths (set (merged inputs))" "length (merged inputs) \<le> 2 ^ 20"
  shows "\<exists>t out. compaction_merge tables = Done (0, Some t) \<and> stored out t \<and> sorted_wrt (<) (map fst out) \<and>
    fst ` set out = fst ` set (merged inputs) \<and> set out \<subseteq> set (merged inputs) \<and>
    (\<forall>key. sstable_get t key = Done (map_option (\<lambda>v. (Some v, of_nat (length v))) (map_of out key)))"
proof -
  from merge_output[OF assms] obtain n out where o: "compaction_merge tables = Done (0, Some (table_of n out))"
    "stored out (table_of n out)" "sorted_wrt (<) (map fst out)" "small out" "length out \<le> 2 ^ 20"
    "fst ` set out = fst ` set (merged inputs)" "set out \<subseteq> set (merged inputs)" by blast
  then show ?thesis using get_table[OF o(4,5,3)] by blast
qed

definition demo_kvs :: kvs where
  "demo_kvs = [([1], replicate 1024 0), ([2], replicate 1024 0), ([3], replicate 1024 7)]"

lemma distinct_same_lengths: "distinct (map fst kvs) \<Longrightarrow> same_lengths (set kvs)"
  unfolding same_lengths_def using eq_key_imp_eq_value[of kvs] by metis

lemma demo_entries: "table_entries demo_kvs" "same_lengths (set demo_kvs)"
proof -
  show t: "table_entries demo_kvs"
    by (simp add: table_entries_def demo_kvs_def small_def MAX_KEY_SIZE_def MAX_VALUE_SIZE_def cons_less_cons)
  show "same_lengths (set demo_kvs)"
    by (rule distinct_same_lengths) (use t in \<open>simp add: table_entries_def strict_sorted_iff\<close>)
qed

lemma stored_demo: "\<exists>t. stored demo_kvs t"
  using write_read[of demo_kvs] demo_entries by (auto simp: stored_def table_entries_def)

lemma merged_one: "merged [kvs] = first_block kvs"
  by (simp add: merged_def)

theorem compaction_merges_first_blocks_witness:
  "\<exists>t out tables. stored demo_kvs (hd tables) \<and> compaction_merge tables = Done (0, Some t) \<and> stored out t \<and>
     fst ` set out = fst ` set (first_block demo_kvs)"
proof -
  obtain t where t: "stored demo_kvs t" using stored_demo by blast
  have "set (first_block demo_kvs) \<subseteq> set demo_kvs" "length (first_block demo_kvs) \<le> length demo_kvs"
    using arg_cong[OF first_block_ok(2)[OF demo_entries(1)], of set]
      arg_cong[OF first_block_ok(2)[OF demo_entries(1)], of length] by auto
  moreover have "length demo_kvs \<le> 2 ^ 20" using demo_entries(1) by (simp add: table_entries_def)
  moreover have "same_lengths (set (first_block demo_kvs))"
    using demo_entries(2) calculation(1) unfolding same_lengths_def by blast
  ultimately have "\<exists>t' out. compaction_merge [t] = Done (0, Some t') \<and> stored out t' \<and>
      fst ` set out = fst ` set (first_block demo_kvs)"
    using compaction_merges_first_blocks[of "[demo_kvs]" "[t]"] t demo_entries(1) by (simp add: merged_one) blast
  then show ?thesis using t by (metis list.sel(1))
qed

text \<open>
  Compaction loses data: of a table with more than one block only the first survives, since a
  node that has come to the end of a block is never read again. A key of a later block is found
  in the table before and not found in the output.
\<close>

theorem compaction_loses_later_blocks:
  assumes "table_entries kvs" "stored kvs table" "key \<in> fst ` set (concat (tl (groups kvs)))"
  shows "(\<exists>v. sstable_get table key = Done (Some (Some v, of_nat (length v)))) \<and>
    (\<exists>t. compaction_merge [table] = Done (0, Some t) \<and> sstable_get t key = Done None)"
proof -
  note kvs = first_block_ok(2)[OF assms(1)]
  have s: "sorted_wrt (<) (map fst kvs)" "small kvs" "length kvs \<le> 2 ^ 20" using assms(1) by (simp_all add: table_entries_def)
  have d: "distinct (map fst (first_block kvs @ concat (tl (groups kvs))))"
    unfolding kvs[symmetric] using s(1) by (simp add: strict_sorted_iff)
  have "length (first_block kvs) \<le> length kvs" using arg_cong[OF kvs, of length] by simp
  moreover have "same_lengths (set (first_block kvs))" using d by (intro distinct_same_lengths) simp
  ultimately obtain t out where t: "compaction_merge [table] = Done (0, Some t)" "fst ` set out = fst ` set (first_block kvs)"
    "\<forall>key. sstable_get t key = Done (map_option (\<lambda>v. (Some v, of_nat (length v))) (map_of out key))"
    using merge_output[of "[kvs]" "[table]"] assms(1,2) s(3) get_table by (auto simp: merged_one)
  have "distinct (map fst (first_block kvs) @ map fst (concat (tl (groups kvs))))" using d by (simp only: map_append)
  then have "set (map fst (first_block kvs)) \<inter> set (map fst (concat (tl (groups kvs)))) = {}" unfolding distinct_append by blast
  then have "key \<notin> fst ` set (first_block kvs)" using assms(3) unfolding set_map by blast
  then have "map_of out key = None" using t(2) by (simp add: map_of_eq_None_iff)
  then have "sstable_get t key = Done None" using t(3) by simp
  moreover have "key \<in> fst ` set kvs"
  proof -
    have "fst ` set kvs = fst ` set (first_block kvs) \<union> fst ` set (concat (tl (groups kvs)))"
      unfolding image_Un[symmetric] set_append[symmetric] kvs[symmetric] ..
    then show ?thesis using assms(3) by blast
  qed
  then obtain v where "map_of kvs key = Some v" by (metis map_of_eq_None_iff not_None_eq)
  moreover obtain n where "table = table_of n kvs" using stored_table[OF assms(1,2)] by blast
  ultimately have "sstable_get table key = Done (Some (Some v, of_nat (length v)))"
    using get_table[OF s(2,3,1), of n key] by simp
  with \<open>sstable_get t key = Done None\<close> t(1) show ?thesis by blast
qed

theorem compaction_loses_later_blocks_witness:
  "\<exists>table t. stored demo_kvs table \<and> compaction_merge [table] = Done (0, Some t) \<and> sstable_get t [3] = Done None"
proof -
  obtain table where t: "stored demo_kvs table" using stored_demo by blast
  have "next_block demo_kvs = 2" by (simp add: next_block_def demo_kvs_def BLOCK_SIZE_def)
  then have "tl (groups demo_kvs) = groups [([3], replicate 1024 7)]" by (simp add: groups.simps[of demo_kvs]) (simp add: demo_kvs_def)
  then have "[3] \<in> fst ` set (concat (tl (groups demo_kvs)))" by simp
  from compaction_loses_later_blocks[OF demo_entries(1) t this] t show ?thesis by blast
qed

section \<open>Equal keys in two inputs\<close>

lemma sift_two: "heap_sift_down cmp 2 0 [a, b] = (if cmp b a < 0 then [b, a] else [a, b])"
  by (simp add: heap_sift_down.simps smallest_def heap_swap_def)

lemma sift_one: "heap_sift_down cmp (Suc 0) 0 ns = ns"
  by (simp add: heap_sift_down.simps smallest_def)

lemma build_two: "heap_build cmp 2 [a, b] = (if cmp b a < 0 then [b, a] else [a, b])"
  by (simp add: heap_build_def sift_two)

lemma gives_Nil: "gives n [] \<Longrightarrow> exhausted n"
  by (auto simp: gives_def split: if_splits)

lemma gives_Cons: "gives n (e # es) \<Longrightarrow> \<not> exhausted n \<and> node_key n = fst e \<and> node_value n = snd e"
  by (auto simp: gives_def split: if_splits)

lemma gives_step: "gives n (e # es) \<Longrightarrow> \<exists>n'. advance_node n = Done n' \<and> gives n' es"
  using gives_advance[of n "e # es"] gives_Cons[of n e es] by simp

text \<open>The last node of an iterator gives its entries and ends.\<close>

lemma next_last_two:
  assumes "gives a [(k, v)]" "\<not> exhausted b"
  shows "\<exists>a'. exhausted a' \<and> sstable_merge_iterator_next \<lparr> nodes = [a, b], heap_size = 2 \<rparr> =
    Done (Some (k, v), \<lparr> nodes = [b, a'], heap_size = Suc 0 \<rparr>)"
proof -
  from gives_step[OF assms(1)] obtain a' where a: "advance_node a = Done a'" "exhausted a'" using gives_Nil by blast
  have "drop_exhausted [a', b] 2 = \<lparr> nodes = [b, a'], heap_size = Suc 0 \<rparr>"
    using a(2) assms(2) by (simp add: drop_exhausted.simps heap_swap_def sift_one)
  then show ?thesis
    using a gives_Cons[OF assms(1)] by (auto simp: sstable_merge_iterator_next_def sift_one)
qed

lemma next_last_one:
  assumes "gives a [(k, v)]"
  shows "\<exists>ns. sstable_merge_iterator_next \<lparr> nodes = [a, b], heap_size = Suc 0 \<rparr> = Done (Some (k, v), \<lparr> nodes = ns, heap_size = 0 \<rparr>)"
proof -
  from gives_step[OF assms] obtain a' where a: "advance_node a = Done a'" "exhausted a'" using gives_Nil by blast
  then show ?thesis using gives_Cons[OF assms] by (simp add: sstable_merge_iterator_next_def drop_exhausted.simps)
qed

text \<open>When both nodes are at the same key, the root comes first.\<close>

lemma gather_tie:
  assumes "gives a [(k, v)]" "gives b [(k, w)]"
  shows "gather \<lparr> nodes = [a, b], heap_size = 2 \<rparr> acc = Some (absorb [(k, v), (k, w)] acc)"
proof -
  from next_last_two[OF assms(1)] gives_Cons[OF assms(2)] obtain a' where
    a: "sstable_merge_iterator_next \<lparr> nodes = [a, b], heap_size = 2 \<rparr> = Done (Some (k, v), \<lparr> nodes = [b, a'], heap_size = Suc 0 \<rparr>)" by blast
  from next_last_one[OF assms(2)] obtain ns where
    b: "sstable_merge_iterator_next \<lparr> nodes = [b, a'], heap_size = Suc 0 \<rparr> = Done (Some (k, w), \<lparr> nodes = ns, heap_size = 0 \<rparr>)" by blast
  have e: "sstable_merge_iterator_next \<lparr> nodes = ns, heap_size = 0 \<rparr> = Done (None, \<lparr> nodes = ns, heap_size = 0 \<rparr>)"
    by (simp add: sstable_merge_iterator_next_def)
  have g0: "gather \<lparr> nodes = ns, heap_size = 0 \<rparr> acc = Some (Done acc)" for acc by (subst gather.simps) (simp add: e)
  have g1: "gather \<lparr> nodes = [b, a'], heap_size = Suc 0 \<rparr> acc = Some (absorb [(k, w)] acc)" for acc
    by (subst gather.simps) (cases "gather_entry k w acc"; simp add: b g0)
  show ?thesis by (subst gather.simps) (cases "gather_entry k v acc"; simp add: a g1)
qed

lemma stored_gives:
  assumes "table_entries kvs" "stored kvs t" "groups kvs = [kvs]"
  shows "reads t kvs"
  using stored_reads[OF assms(1,2)] assms(3) by (simp add: first_block_def)

text \<open>
  Compaction can bring an old value back: when the newer of two tables has a smaller key in
  front, its entry for the common key is met before that of the older table, and the later met
  value wins. The inputs are in the order of their creation, the older first.
\<close>

lemma compaction_keeps_old:
  assumes "stored [(k, old)] t_old" "stored [(a, x), (k, new)] t_new" "a < k"
    and "small [(a, x), (k, new), (k, old)]" "length old \<le> length new"
    and "length a + length x + length k + length new + 32 < 3072"
  shows "sstable_get t_new k = Done (Some (Some new, of_nat (length new))) \<and>
    (\<exists>n. compaction_merge [t_old, t_new] = Done (0, Some (table_of n [(a, x), (k, old)])) \<and>
       sstable_get (table_of n [(a, x), (k, old)]) k = Done (Some (Some old, of_nat (length old))) \<and>
       last_key (hd (index_block (table_of n [(a, x), (k, old)]))) = k)"
proof -
  have te: "table_entries [(k, old)]" "table_entries [(a, x), (k, new)]" "table_entries [(a, x), (k, old)]"
    using assms(3,4) by (auto simp: table_entries_def small_def)
  have "groups [(k, old)] = [[(k, old)]]" "groups [(a, x), (k, new)] = [[(a, x), (k, new)]]"
    using assms(4-6) by (intro single_group; simp add: small_def)+
  then have r: "reads t_old [(k, old)]" "reads t_new [(a, x), (k, new)]" using stored_gives te assms(1,2) by blast+
  have "list_all2 reads [t_old, t_new] [[(k, old)], [(a, x), (k, new)]]" using r by simp
  from load_all_ok[OF this] obtain n1 n2 where n: "load_all [t_old, t_new] = Done [n1, n2]"
    "gives n1 [(k, old)]" "gives n2 [(a, x), (k, new)]" by (auto simp: list_all2_Cons2)
  note g = gives_Cons[OF n(2)] gives_Cons[OF n(3)]
  have create: "sstable_merge_iterator_create [t_old, t_new] = Done \<lparr> nodes = [n2, n1], heap_size = 2 \<rparr>"
    using g assms(3) n(1) build_two[of heap_cmp n1 n2]
    by (simp add: sstable_merge_iterator_create_def heap_cmp_iff numeral_2_eq_2 del: load_all.simps)
  from gives_step[OF n(3)] obtain n2' where a: "advance_node n2 = Done n2'" "gives n2' [(k, new)]" by blast
  note g' = gives_Cons[OF a(2)]
  have "sstable_merge_iterator_next \<lparr> nodes = [n2, n1], heap_size = 2 \<rparr> = Done (Some (a, x), \<lparr> nodes = [n2', n1], heap_size = 2 \<rparr>)"
    using g g' a(1) sift_two[of heap_cmp n2' n1]
    by (simp add: sstable_merge_iterator_next_def drop_exhausted.simps heap_cmp_iff)
  then have "gather \<lparr> nodes = [n2, n1], heap_size = 2 \<rparr> [] = Some (absorb [(k, new), (k, old)] [(a, length x, x)])"
    using gather_tie[OF a(2) n(2)] by (subst gather.simps) simp
  also have "\<dots> = Some (Done [(k, length new, old), (a, length x, x)])" using assms(3,5) by auto
  finally have "compaction_merge [t_old, t_new] =
      bind_outcome (sstable_write [(a, x), (k, old)]) (\<lambda>out. Done (0, sstable_read out))"
    by (simp add: compaction_merge_def create gathered_kvs_def)
  moreover have s: "small [(a, x), (k, old)]" "small [(a, x), (k, new)]" using assms(4) by (auto simp: small_def)
  then obtain bytes where w: "sstable_write [(a, x), (k, old)] = Done bytes"
    "sstable_read bytes = Some (table_of (length bytes) [(a, x), (k, old)])" using write_read by fastforce
  moreover obtain m where "t_new = table_of m [(a, x), (k, new)]" using stored_table[OF te(2) assms(2)] by blast
  moreover have "k \<noteq> a" using assms(3) by blast
  moreover have "last_key (hd (index_block (table_of n [(a, x), (k, old)]))) = k" for n
    using single_group[OF s(1)] assms(5,6) by (simp add: table_of_def)
  ultimately show ?thesis using get_table[OF s(1), of _ k] get_table[OF s(2), of m k] assms(3) by (simp, blast)
qed

text \<open>
  Compaction writes past a buffer when two inputs have the same key and the value met later is
  longer: it is copied into the memory allocated for the first.
\<close>

theorem compaction_value_overflow:
  assumes "stored [(k, v)] t1" "stored [(k, w)] t2" "small [(k, v), (k, w)]" "length v < length w"
  shows "compaction_merge [t1, t2] = Undefined"
proof -
  have te: "table_entries [(k, v)]" "table_entries [(k, w)]" using assms(3) by (auto simp: table_entries_def small_def)
  have "groups [(k, v)] = [[(k, v)]]" "groups [(k, w)] = [[(k, w)]]"
    using assms(3) by (intro single_group; simp add: small_def MAX_KEY_SIZE_def MAX_VALUE_SIZE_def)+
  then have r: "list_all2 reads [t1, t2] [[(k, v)], [(k, w)]]" using stored_gives te assms(1,2) by simp
  from load_all_ok[OF r] obtain n1 n2 where n: "load_all [t1, t2] = Done [n1, n2]" "gives n1 [(k, v)]" "gives n2 [(k, w)]"
    by (auto simp: list_all2_Cons2)
  have "sstable_merge_iterator_create [t1, t2] = Done \<lparr> nodes = [n1, n2], heap_size = 2 \<rparr>"
    using gives_Cons[OF n(2)] gives_Cons[OF n(3)] n(1) build_two[of heap_cmp n1 n2]
    by (simp add: sstable_merge_iterator_create_def heap_cmp_iff numeral_2_eq_2 del: load_all.simps)
  then show ?thesis using gather_tie[OF n(2,3), of "[]"] assms(4) by (simp add: compaction_merge_def)
qed

theorem compaction_value_overflow_witness:
  "\<exists>t1 t2. stored [([2], [7])] t1 \<and> stored [([2], [8, 9])] t2 \<and> compaction_merge [t1, t2] = Undefined"
proof -
  obtain t1 where 1: "stored [([2], [7])] t1"
    using write_read[of "[([2], [7])]"] by (auto simp: stored_def small_def MAX_KEY_SIZE_def MAX_VALUE_SIZE_def)
  obtain t2 where 2: "stored [([2], [8, 9])] t2"
    using write_read[of "[([2], [8, 9])]"] by (auto simp: stored_def small_def MAX_KEY_SIZE_def MAX_VALUE_SIZE_def)
  have "compaction_merge [t1, t2] = Undefined"
    by (rule compaction_value_overflow[OF 1 2]) (simp_all add: small_def MAX_KEY_SIZE_def MAX_VALUE_SIZE_def)
  with 1 2 show ?thesis by blast
qed

section \<open>The choice misses overlaps\<close>

text \<open>
  The leveled choice misses overlapping tables: a table whose last key is below that of the
  first block of the chosen one is left out of the job although both hold the same key, so that
  key ends up in two files of the next level.
\<close>

theorem leveled_pick_misses_overlap:
  assumes "stored [(k, v), (b, x)] chosen" "stored [(k, w)] cand" "k < b" "prefix_cmp k b < 0"
    and "small [(k, v), (b, x), (k, w)]" "length k + length v + length b + length x + 32 < 3072"
  shows "compaction_pick_leveled i [chosen] [cand] =
      (0, i + 1, Some \<lparr> input_tables = [chosen], num_inputs = 1, job_level_n = 0, job_level_np1 = 1 \<rparr>) \<and>
    sstable_get chosen k = Done (Some (Some v, of_nat (length v))) \<and> sstable_get cand k = Done (Some (Some w, of_nat (length w)))"
proof -
  have te: "table_entries [(k, v), (b, x)]" "table_entries [(k, w)]" using assms(3,5) by (auto simp: table_entries_def small_def)
  then have s: "small [(k, v), (b, x)]" "small [(k, w)]" by (simp_all add: table_entries_def)
  obtain m n where t: "chosen = table_of m [(k, v), (b, x)]" "cand = table_of n [(k, w)]"
    using stored_table te assms(1,2) by blast
  have g: "groups [(k, v), (b, x)] = [[(k, v), (b, x)]]" "groups [(k, w)] = [[(k, w)]]"
    using s assms(6) by (intro single_group; simp add: small_def MAX_KEY_SIZE_def MAX_VALUE_SIZE_def)+
  have "\<not> overlaps chosen cand" using assms(4) by (simp add: overlaps_def t table_of_def g)
  moreover have "k \<noteq> b" using assms(3) by blast
  ultimately show ?thesis
    using get_table[OF s(1), of m k] get_table[OF s(2), of n k] assms(3) by (simp add: compaction_pick_leveled_def t)
qed

theorem leveled_pick_misses_overlap_witness:
  "\<exists>chosen cand i. compaction_pick_leveled i [chosen] [cand] =
      (0, i + 1, Some \<lparr> input_tables = [chosen], num_inputs = 1, job_level_n = 0, job_level_np1 = 1 \<rparr>) \<and>
    sstable_get chosen [1] = Done (Some (Some [7], 1)) \<and> sstable_get cand [1] = Done (Some (Some [8], 1))"
proof -
  obtain c where c: "stored [([1], [7]), ([5], [])] c"
    using write_read[of "[([1], [7]), ([5], [])]"] by (auto simp: stored_def small_def MAX_KEY_SIZE_def MAX_VALUE_SIZE_def)
  obtain d where d: "stored [([1], [8])] d"
    using write_read[of "[([1], [8])]"] by (auto simp: stored_def small_def MAX_KEY_SIZE_def MAX_VALUE_SIZE_def)
  have "prefix_cmp [1] [5] < 0" by (simp add: prefix_cmp_def)
  then have "compaction_pick_leveled 0 [c] [d] =
      (0, 0 + 1, Some \<lparr> input_tables = [c], num_inputs = 1, job_level_n = 0, job_level_np1 = 1 \<rparr>) \<and>
    sstable_get c [1] = Done (Some (Some [7], of_nat (length [7::8 word]))) \<and>
    sstable_get d [1] = Done (Some (Some [8], of_nat (length [8::8 word])))"
    by (intro leveled_pick_misses_overlap[OF c d]) (simp_all add: cons_less_cons small_def MAX_KEY_SIZE_def MAX_VALUE_SIZE_def)
  then show ?thesis by (intro exI[of _ c] exI[of _ d] exI[of _ 0]) simp
qed

end
