(* ===== verification/Skiplist.thy ===== *)
theory Skiplist
  imports Byte_Order
begin

text \<open>
  The skip list of \<open>mini-file-storage\<close> (\<open>skiplist.h\<close>, \<open>skiplist.c\<close>). The nodes are the cells of a
  heap that only grows, a pointer is an index into it, and the header is cell 0. The key and the
  value of a node are the lists of their \<open>key_len\<close> and \<open>value_len\<close> bytes. The outcomes of the
  coin flips \<open>rand() / RAND_MAX < 0.5\<close> and whether \<open>calloc\<close> succeeds are parameters.
\<close>

definition SKIPLIST_MAX_LEVEL :: nat where [c_consts]: "SKIPLIST_MAX_LEVEL = 12"

record skip_node =
  sk_key :: "byte list"
  sk_value :: "byte list"
  forward :: "nat option list"

record skip_list =
  cells :: "skip_node list"
  level :: nat
  list_size :: nat

definition empty_node :: skip_node where
  "empty_node = \<lparr> sk_key = [], sk_value = [], forward = replicate SKIPLIST_MAX_LEVEL None \<rparr>"

definition skiplist_create :: skip_list where
  "skiplist_create = \<lparr> cells = [empty_node], level = 0, list_size = 0 \<rparr>"

fun random_level :: "nat \<Rightarrow> bool list \<Rightarrow> nat" where
  "random_level lev [] = lev"
| "random_level lev (c # coins) =
     (if c \<and> lev < SKIPLIST_MAX_LEVEL - 1 then random_level (lev + 1) coins else lev)"

section \<open>Searching\<close>

definition fwd :: "skip_list \<Rightarrow> nat \<Rightarrow> nat \<Rightarrow> nat option" where
  "fwd l i x = forward (cells l ! x) ! i"

definition advances :: "skip_list \<Rightarrow> nat \<Rightarrow> byte list \<Rightarrow> nat \<Rightarrow> bool" where
  "advances l i key x =
     (case fwd l i x of
        None \<Rightarrow> False
      | Some y \<Rightarrow> 0 < length (sk_key (cells l ! y)) \<and> key_cmp (sk_key (cells l ! y)) key < 0)"

text \<open>The inner loop of one level, then all levels from the top; \<open>update\<close> records where each ends.\<close>

definition walk :: "skip_list \<Rightarrow> nat \<Rightarrow> byte list \<Rightarrow> nat \<Rightarrow> nat option" where
  "walk l i key = while_option (advances l i key) (\<lambda>x. the (fwd l i x))"

fun descend :: "skip_list \<Rightarrow> byte list \<Rightarrow> nat \<Rightarrow> nat \<Rightarrow> (nat \<Rightarrow> nat option) \<Rightarrow> (nat \<times> (nat \<Rightarrow> nat option)) option" where
  "descend l key 0 x update = Some (x, update)"
| "descend l key (Suc i) x update =
     (case walk l i key x of None \<Rightarrow> None | Some y \<Rightarrow> descend l key i y (update(i \<mapsto> y)))"

definition holds_key :: "skip_list \<Rightarrow> byte list \<Rightarrow> nat option \<Rightarrow> bool" where
  "holds_key l key x = (case x of None \<Rightarrow> False | Some y \<Rightarrow> sk_key (cells l ! y) = key)"

definition skiplist_search :: "skip_list \<Rightarrow> byte list \<Rightarrow> nat option outcome" where
  "skiplist_search l key =
     (case descend l key (Suc (level l)) 0 Map.empty of
        None \<Rightarrow> Undefined
      | Some (x, _) \<Rightarrow>
          (let x = fwd l 0 x in Done (if holds_key l key x then x else None)))"

section \<open>Inserting\<close>

definition set_forward :: "nat \<Rightarrow> nat \<Rightarrow> nat option \<Rightarrow> skip_list \<Rightarrow> skip_list" where
  "set_forward x i p l =
     l\<lparr> cells := (cells l)[x := (cells l ! x)\<lparr> forward := (forward (cells l ! x))[i := p] \<rparr>] \<rparr>"

definition splice :: "(nat \<Rightarrow> nat option) \<Rightarrow> nat \<Rightarrow> nat \<Rightarrow> skip_list \<Rightarrow> skip_list" where
  "splice update node i l =
     (let u = the (update i);
          l = set_forward node i (fwd l i u) l
      in set_forward u i (Some node) l)"

definition raise_level :: "nat \<Rightarrow> skip_list \<Rightarrow> (nat \<Rightarrow> nat option) \<Rightarrow> (nat \<Rightarrow> nat option) \<times> skip_list" where
  "raise_level new_level l update =
     (if new_level > level l
      then (fold (\<lambda>i u. u(i \<mapsto> 0)) [level l + 1..<new_level + 1] update, l\<lparr> level := new_level \<rparr>)
      else (update, l))"

definition skiplist_insert ::
    "bool \<Rightarrow> bool list \<Rightarrow> byte list \<Rightarrow> byte list \<Rightarrow> skip_list \<Rightarrow> (int \<times> skip_list) outcome" where
  "skiplist_insert mem coins key val l =
     (if length key > 255 \<or> length val > 1023 then Done (-1, l)
      else
        (case descend l key (Suc (level l)) 0 Map.empty of
           None \<Rightarrow> Undefined
         | Some (x, update) \<Rightarrow>
             (let x = fwd l 0 x in
              if holds_key l key x
              then Done (0, l\<lparr> cells := (cells l)[the x := (cells l ! the x)\<lparr> sk_value := val \<rparr>] \<rparr>)
              else
                (let new_level = random_level 0 coins;
                     (update, l) = raise_level new_level l update
                 in if \<not> mem then Done (-1, l)
                    else
                      (let node = length (cells l);
                           l = l\<lparr> cells := cells l @ [empty_node\<lparr> sk_key := key, sk_value := val \<rparr>] \<rparr>;
                           l = fold (splice update node) [0..<new_level + 1] l
                       in Done (0, l\<lparr> list_size := list_size l + 1 \<rparr>))))))"

section \<open>Iterating\<close>

text \<open>An iterator is its current node; \<open>None\<close> is the end.\<close>

definition skiplist_iterator :: "skip_list \<Rightarrow> nat" where
  "skiplist_iterator l = 0"

definition skiplist_iterator_next :: "skip_list \<Rightarrow> nat \<Rightarrow> nat option" where
  "skiplist_iterator_next l current =
     (let current = fwd l 0 current in
      case current of
        Some y \<Rightarrow> if length (sk_key (cells l ! y)) = 0 then fwd l 0 y else current
      | None \<Rightarrow> None)"

text \<open>All entries from a node on, as a caller that iterates to the end reads them.\<close>

partial_function (option) iterate :: "skip_list \<Rightarrow> nat \<Rightarrow> (byte list \<times> byte list) list option" where
  "iterate l current =
     (case skiplist_iterator_next l current of
        None \<Rightarrow> Some []
      | Some y \<Rightarrow> Option.bind (iterate l y) (\<lambda>xs. Some ((sk_key (cells l ! y), sk_value (cells l ! y)) # xs)))"

section \<open>Chains\<close>

text \<open>From \<open>x\<close> the pointers lead through the given nodes to the end.\<close>

definition chain :: "(nat \<Rightarrow> nat option) \<Rightarrow> nat \<Rightarrow> nat list \<Rightarrow> bool" where
  "chain f x ps \<longleftrightarrow> map f (x # ps) = map Some ps @ [None]"

lemma chain_simps [simp]: "chain f x [] \<longleftrightarrow> f x = None" "chain f x (p # ps) \<longleftrightarrow> f x = Some p \<and> chain f p ps"
  by (auto simp: chain_def)

lemma chain_split: "chain f x (as @ bs) \<longleftrightarrow>
    map f (butlast (x # as)) = map Some as \<and> chain f (last (x # as)) bs"
proof (induction as arbitrary: x)
  case (Cons a as)
  show ?case using Cons.IH[of a] by simp
qed simp

lemma chain_cong: "(\<And>y. y \<in> set (x # ps) \<Longrightarrow> f y = g y) \<Longrightarrow> chain f x ps = chain g x ps"
  unfolding chain_def by (simp cong: map_cong)

lemma chain_insert:
  assumes c: "chain f x (as @ bs)" and d: "distinct (x # as @ bs)" "p \<notin> set (x # as @ bs)"
    and g: "\<And>y. g y = (if y = p then f (last (x # as)) else if y = last (x # as) then Some p else f y)"
  shows "chain g x (as @ p # bs)"
proof -
  obtain js u where x: "x # as = js @ [u]" by (cases "x # as" rule: rev_cases) auto
  then have lu: "last (x # as) = u" "butlast (x # as) = js" by (metis last_snoc, metis butlast_snoc)
  have "distinct ((x # as) @ bs)" "p \<notin> set ((x # as) @ bs)" using d by simp_all
  then have u: "u \<notin> set js" "u \<notin> set bs" "u \<noteq> p" "p \<notin> set js" "p \<notin> set bs" by (auto simp: x)
  note g = g[unfolded lu]
  have fs: "map f js = map Some as" "chain f u bs" using c unfolding chain_split lu by simp_all
  have "map g js = map f js" using u by (intro map_cong) (auto simp: g)
  moreover have "chain g p bs"
  proof (cases bs)
    case (Cons b bs')
    have "chain g b bs' = chain f b bs'" using u Cons by (intro chain_cong) (auto simp: g)
    with fs(2) Cons show ?thesis by (simp add: g)
  qed (use fs(2) in \<open>simp add: g\<close>)
  ultimately show ?thesis using fs u unfolding chain_split lu by (simp add: g)
qed

lemma chain_unique: "chain f x ps \<Longrightarrow> chain f x qs \<Longrightarrow> ps = qs"
proof (induction ps arbitrary: x qs)
  case Nil
  then show ?case by (cases qs) auto
next
  case (Cons p ps)
  then show ?case by (cases qs) auto
qed

section \<open>Invariant\<close>

abbreviation node_key :: "skip_list \<Rightarrow> nat \<Rightarrow> byte list" where
  "node_key l x \<equiv> sk_key (cells l ! x)"

text \<open>
  \<open>ps i\<close> are the nodes of level \<open>i\<close> in order: each level is a part of the one below it, level 0
  holds all nodes but the header, and the levels above \<open>level l\<close> are empty.
\<close>

definition levels :: "skip_list \<Rightarrow> (nat \<Rightarrow> nat list) \<Rightarrow> bool" where
  "levels l ps \<longleftrightarrow>
     level l < SKIPLIST_MAX_LEVEL \<and> list_size l = length (ps 0) \<and>
     (\<forall>c \<in> set (cells l). length (forward c) = SKIPLIST_MAX_LEVEL) \<and>
     (\<forall>i < SKIPLIST_MAX_LEVEL. chain (fwd l i) 0 (ps i)) \<and>
     (\<forall>i. sorted_wrt (<) (map (node_key l) (ps i))) \<and>
     (\<forall>i. set (ps (Suc i)) \<subseteq> set (ps i)) \<and> (\<forall>i > level l. ps i = []) \<and>
     cells l \<noteq> [] \<and> set (ps 0) = {1..<length (cells l)} \<and> (\<forall>p \<in> set (ps 0). node_key l p \<noteq> [])"

definition wf_skip :: "skip_list \<Rightarrow> bool" where
  "wf_skip l \<longleftrightarrow> (\<exists>ps. levels l ps)"

definition pred :: "skip_list \<Rightarrow> byte list \<Rightarrow> nat list \<Rightarrow> nat" where
  "pred l key ps = last (0 # takeWhile (\<lambda>p. node_key l p < key) ps)"

lemma levels_nodes: "levels l ps \<Longrightarrow> set (ps i) \<subseteq> {1..<length (cells l)}"
proof (induction i)
  case 0
  then show ?case by (simp add: levels_def)
next
  case (Suc i)
  then have "set (ps (Suc i)) \<subseteq> set (ps i)" by (simp add: levels_def)
  with Suc show ?case by blast
qed

lemma levels_keys: "levels l ps \<Longrightarrow> p \<in> set (ps i) \<Longrightarrow> node_key l p \<noteq> []"
  using levels_nodes[of l ps i] by (auto simp: levels_def)

lemma levels_distinct:
  assumes "levels l ps"
  shows "distinct (0 # ps i)" "distinct (map (node_key l) (ps i))"
proof -
  have "sorted_wrt (<) (map (node_key l) (ps i))" using assms by (simp add: levels_def)
  then show "distinct (map (node_key l) (ps i))" by (simp add: strict_sorted_iff)
  then have "distinct (ps i)" by (simp add: distinct_map)
  with levels_nodes[OF assms, of i] show "distinct (0 # ps i)" by auto
qed

section \<open>The walk\<close>

lemma walk_chain:
  assumes "chain (fwd l i) x ps" "\<And>p. p \<in> set ps \<Longrightarrow> node_key l p \<noteq> []"
  shows "walk l i key x = Some (last (x # takeWhile (\<lambda>p. node_key l p < key) ps))"
  using assms
proof (induction ps arbitrary: x)
  case Nil
  then show ?case by (simp add: walk_def while_option_unfold advances_def)
next
  case (Cons p ps)
  have "walk l i key x = (if advances l i key x then walk l i key p else Some x)"
    using Cons.prems(1) unfolding walk_def by (subst while_option_unfold) simp
  moreover have "advances l i key x \<longleftrightarrow> node_key l p < key" using Cons.prems by (simp add: advances_def)
  moreover have "walk l i key p = Some (last (p # takeWhile (\<lambda>p. node_key l p < key) ps))"
    using Cons.prems by (intro Cons.IH) auto
  ultimately show ?case by simp
qed

lemma takeWhile_through:
  assumes "sorted_wrt (<) (map f xs)" "xs = as @ y # bs" "f y < (k :: 'a::linorder)"
  shows "takeWhile (\<lambda>p. f p < k) xs = as @ y # takeWhile (\<lambda>p. f p < k) bs"
proof -
  have "\<forall>a \<in> set as. f a < f y" using assms(1) by (auto simp: assms(2) sorted_wrt_append)
  then have "\<forall>a \<in> set as. f a < k" using assms(3) by (meson less_trans)
  then show ?thesis using assms(3) by (simp add: assms(2))
qed

lemma walk_level:
  assumes l: "levels l ps" "i < SKIPLIST_MAX_LEVEL" and y: "y = 0 \<or> y \<in> set (ps i) \<and> node_key l y < key"
  shows "walk l i key y = Some (pred l key (ps i))"
proof -
  have c: "chain (fwd l i) 0 (ps i)" and s: "sorted_wrt (<) (map (node_key l) (ps i))"
    using l by (simp_all add: levels_def)
  show ?thesis
  proof (cases "y = 0")
    case True
    then show ?thesis using walk_chain[OF c] levels_keys[OF l(1)] by (simp add: pred_def)
  next
    case False
    with y obtain as bs where ps: "ps i = as @ y # bs" by (meson split_list)
    have "chain (fwd l i) y bs" using c unfolding ps chain_split by simp
    then have "walk l i key y = Some (last (y # takeWhile (\<lambda>p. node_key l p < key) bs))"
      using levels_keys[OF l(1), of _ i] by (intro walk_chain) (auto simp: ps)
    then show ?thesis using takeWhile_through[OF s ps] y False by (simp add: pred_def)
  qed
qed

lemma pred_cases: "pred l key ps = 0 \<or> pred l key ps \<in> set ps \<and> node_key l (pred l key ps) < key"
proof (cases "takeWhile (\<lambda>p. node_key l p < key) ps")
  case (Cons a as)
  then have "pred l key ps = last (takeWhile (\<lambda>p. node_key l p < key) ps)" by (simp add: pred_def)
  moreover have "last (takeWhile (\<lambda>p. node_key l p < key) ps) \<in> set (takeWhile (\<lambda>p. node_key l p < key) ps)"
    using Cons by (intro last_in_set) simp
  ultimately show ?thesis by (auto dest: set_takeWhileD)
qed (simp add: pred_def)

lemma descend_levels:
  assumes "levels l ps" "n \<le> SKIPLIST_MAX_LEVEL" "y = 0 \<or> y \<in> set (ps n) \<and> node_key l y < key"
  shows "descend l key n y update =
    Some (if n = 0 then y else pred l key (ps 0), \<lambda>i. if i < n then Some (pred l key (ps i)) else update i)"
  using assms(2,3)
proof (induction n arbitrary: y update)
  case (Suc n)
  have "set (ps (Suc n)) \<subseteq> set (ps n)" using assms(1) by (simp add: levels_def)
  then have y: "y = 0 \<or> y \<in> set (ps n) \<and> node_key l y < key" using Suc.prems by blast
  have w: "walk l n key y = Some (pred l key (ps n))" using Suc.prems y by (intro walk_level[OF assms(1)]) auto
  have "descend l key n (pred l key (ps n)) (update(n \<mapsto> pred l key (ps n))) =
    Some (if n = 0 then pred l key (ps n) else pred l key (ps 0),
      \<lambda>i. if i < n then Some (pred l key (ps i)) else (update(n \<mapsto> pred l key (ps n))) i)"
    using Suc.prems pred_cases by (intro Suc.IH) auto
  then show ?case using w by (auto simp: less_Suc_eq)
qed (use assms in auto)

section \<open>Contents\<close>

definition entries_of :: "skip_list \<Rightarrow> nat list \<Rightarrow> (byte list \<times> byte list) list" where
  "entries_of l ps = map (\<lambda>p. (node_key l p, sk_value (cells l ! p))) ps"

lemma entries_simps [simp]: "entries_of l [] = []" "entries_of l (as @ bs) = entries_of l as @ entries_of l bs"
  "entries_of l (p # ps) = (node_key l p, sk_value (cells l ! p)) # entries_of l ps"
  by (simp_all add: entries_of_def)

lemma entries_lookup_None: "map_of (entries_of l ps) k = None \<longleftrightarrow> (\<forall>p \<in> set ps. node_key l p \<noteq> k)"
  by (simp add: entries_of_def map_of_eq_None_iff image_image image_iff) (metis (full_types))

text \<open>Entering a key into a sorted list of entries.\<close>

fun upd_sorted :: "byte list \<Rightarrow> byte list \<Rightarrow> (byte list \<times> byte list) list \<Rightarrow> (byte list \<times> byte list) list" where
  "upd_sorted k v [] = [(k, v)]"
| "upd_sorted k v ((a, b) # xs) =
     (if a < k then (a, b) # upd_sorted k v xs else if a = k then (k, v) # xs else (k, v) # (a, b) # xs)"

lemma upd_sorted_split:
  assumes "\<forall>x \<in> set as. fst x < k" "bs = [] \<or> k < fst (hd bs)"
  shows "upd_sorted k v (as @ bs) = as @ (k, v) # bs" "upd_sorted k v (as @ (k, w) # bs) = as @ (k, v) # bs"
  using assms by (induction as) (cases bs; auto)+

lemma upd_sorted_map: "sorted_wrt (<) (map fst xs) \<Longrightarrow> map_of (upd_sorted k v xs) = (map_of xs)(k \<mapsto> v)"
  by (induction k v xs rule: upd_sorted.induct) (auto simp: fun_eq_iff)

lemma upd_sorted_keys: "fst ` set (upd_sorted k v xs) = insert k (fst ` set xs)"
  by (induction k v xs rule: upd_sorted.induct) (auto simp: image_iff)

lemma upd_sorted_sorted: "sorted_wrt (<) (map fst xs) \<Longrightarrow> sorted_wrt (<) (map fst (upd_sorted k v xs))"
proof (induction k v xs rule: upd_sorted.induct)
  case (2 k v a b xs)
  have "fst ` set (upd_sorted k v xs) = insert k (fst ` set xs)" by (rule upd_sorted_keys)
  then show ?case using 2 by (auto simp: image_iff dest: less_trans)
qed simp

lemma iterate_chain:
  "chain (fwd l 0) x ps \<Longrightarrow> (\<And>p. p \<in> set ps \<Longrightarrow> node_key l p \<noteq> []) \<Longrightarrow> iterate l x = Some (entries_of l ps)"
proof (induction ps arbitrary: x)
  case Nil
  then show ?case by (subst iterate.simps) (simp add: skiplist_iterator_next_def entries_of_def)
next
  case (Cons p ps)
  then have "iterate l p = Some (entries_of l ps)" by simp
  with Cons.prems show ?case
    by (subst iterate.simps) (simp add: skiplist_iterator_next_def entries_of_def)
qed

lemma iterate_levels: "levels l ps \<Longrightarrow> iterate l 0 = Some (entries_of l (ps 0))"
  by (intro iterate_chain) (auto simp: levels_def SKIPLIST_MAX_LEVEL_def)

text \<open>The nodes of level 0 before and from the place of a key.\<close>

lemma level0_split:
  assumes "levels l ps"
  obtains as bs where "ps 0 = as @ bs" "\<forall>p \<in> set as. node_key l p < key" "\<forall>p \<in> set bs. key \<le> node_key l p"
    "pred l key (ps 0) = last (0 # as)" "fwd l 0 (pred l key (ps 0)) = (case bs of [] \<Rightarrow> None | b # _ \<Rightarrow> Some b)"
proof -
  define as where "as = takeWhile (\<lambda>p. node_key l p < key) (ps 0)"
  define bs where "bs = dropWhile (\<lambda>p. node_key l p < key) (ps 0)"
  have ps: "ps 0 = as @ bs" by (simp add: as_def bs_def)
  have "sorted_wrt (<) (map (node_key l) (ps 0))" and "chain (fwd l 0) 0 (ps 0)"
    using assms by (simp_all add: levels_def SKIPLIST_MAX_LEVEL_def)
  note s = this(1)[unfolded ps] and c = this(2)[unfolded ps]
  have hb: "key \<le> node_key l b" if "bs = b # bs'" for b bs'
    using that by (metis bs_def dropWhile_eq_Cons_conv not_less)
  have 1: "\<forall>p \<in> set bs. key \<le> node_key l p"
  proof (cases bs)
    case (Cons b bs')
    have "\<forall>p \<in> set bs'. node_key l b < node_key l p" using s by (simp add: Cons sorted_wrt_append)
    with hb[OF Cons] show ?thesis by (auto simp: Cons intro: order_trans less_imp_le)
  qed simp
  have 2: "fwd l 0 (last (0 # as)) = (case bs of [] \<Rightarrow> None | b # _ \<Rightarrow> Some b)"
    using c unfolding chain_split by (cases bs) auto
  have 3: "\<forall>p \<in> set as. node_key l p < key" unfolding as_def by (auto dest: set_takeWhileD)
  have 4: "pred l key (ps 0) = last (0 # as)" by (simp add: pred_def as_def)
  show ?thesis by (rule that[OF ps 3 1 4]) (unfold 4, rule 2)
qed

lemma search_levels:
  assumes "levels l ps"
  shows "\<exists>r. skiplist_search l key = Done r \<and>
    map_option (\<lambda>p. sk_value (cells l ! p)) r = map_of (entries_of l (ps 0)) key \<and>
    (\<forall>p. r = Some p \<longrightarrow> p \<in> set (ps 0) \<and> node_key l p = key)"
proof -
  have d: "descend l key (Suc (level l)) 0 Map.empty =
    Some (pred l key (ps 0), \<lambda>i. if i < Suc (level l) then Some (pred l key (ps i)) else None)"
    using descend_levels[OF assms, of "Suc (level l)" 0 key Map.empty] assms by (auto simp: levels_def Suc_le_eq)
  from level0_split[OF assms, of key] obtain as bs where s: "ps 0 = as @ bs" "\<forall>p \<in> set as. node_key l p < key"
    "\<forall>p \<in> set bs. key \<le> node_key l p" "fwd l 0 (pred l key (ps 0)) = (case bs of [] \<Rightarrow> None | b # _ \<Rightarrow> Some b)" by metis
  have as: "map_of (entries_of l as) key = None" using s(2) by (auto simp: entries_lookup_None)
  have sorted: "sorted_wrt (<) (map (node_key l) (as @ bs))" using assms unfolding levels_def s(1)[symmetric] by blast
  show ?thesis
  proof (cases bs)
    case Nil
    then show ?thesis using d s(1,4) as by (simp add: skiplist_search_def holds_key_def)
  next
    case (Cons b bs')
    have "map_of (entries_of l bs') key = None" if "node_key l b \<noteq> key"
    proof -
      have "key < node_key l b" using s(3) Cons that by (simp add: less_le)
      moreover have "\<forall>p \<in> set bs'. node_key l b < node_key l p" using sorted Cons by (simp add: sorted_wrt_append)
      ultimately show ?thesis by (auto simp: entries_lookup_None)
    qed
    with d s(1,4) as Cons show ?thesis by (auto simp: skiplist_search_def holds_key_def map_add_def)
  qed
qed

section \<open>Inserting a node\<close>

text \<open>What a splice leaves alone.\<close>

definition same_nodes :: "skip_list \<Rightarrow> skip_list \<Rightarrow> bool" where
  "same_nodes l l' \<longleftrightarrow> length (cells l') = length (cells l) \<and> level l' = level l \<and> list_size l' = list_size l \<and>
     (\<forall>x < length (cells l). node_key l' x = node_key l x \<and> sk_value (cells l' ! x) = sk_value (cells l ! x) \<and>
        length (forward (cells l' ! x)) = length (forward (cells l ! x)))"

lemma set_forward_same: "same_nodes l (set_forward x i p l)"
  by (simp add: same_nodes_def set_forward_def nth_upd_if)

lemma same_nodes_trans: "same_nodes l l' \<Longrightarrow> same_nodes l' l'' \<Longrightarrow> same_nodes l l''"
  by (simp add: same_nodes_def)

lemma set_forward_fwd:
  assumes "x < length (cells l)" "i < length (forward (cells l ! x))"
  shows "fwd (set_forward x i p l) j y = (if y = x \<and> j = i then p else fwd l j y)"
  using assms by (auto simp: fwd_def set_forward_def nth_upd_if)

lemma splice_ok:
  assumes "node < length (cells l)" "u < node" "update i = Some u"
    and "\<forall>x < length (cells l). i < length (forward (cells l ! x))"
  shows "same_nodes l (splice update node i l)"
    "fwd (splice update node i l) j y =
       (if j = i then if y = node then fwd l i u else if y = u then Some node else fwd l i y else fwd l j y)"
proof -
  let ?l = "set_forward node i (fwd l i u) l"
  have s: "splice update node i l = set_forward u i (Some node) ?l" by (simp add: splice_def assms(3))
  have same: "same_nodes l ?l" by (rule set_forward_same)
  show "same_nodes l (splice update node i l)" unfolding s using same set_forward_same by (rule same_nodes_trans)
  have "u < length (cells ?l)" "i < length (forward (cells ?l ! u))"
    using same assms(1,2,4) by (simp_all add: same_nodes_def)
  then show "fwd (splice update node i l) j y =
      (if j = i then if y = node then fwd l i u else if y = u then Some node else fwd l i y else fwd l j y)"
    unfolding s using assms(1,2,4) by (auto simp: set_forward_fwd)
qed

lemma splices_ok:
  assumes "node < length (cells l)" "\<forall>i < n. update i = Some (u i) \<and> u i < node" "n \<le> SKIPLIST_MAX_LEVEL"
    and "\<forall>x < length (cells l). length (forward (cells l ! x)) = SKIPLIST_MAX_LEVEL"
  shows "same_nodes l (fold (splice update node) [0..<n] l) \<and>
    (\<forall>j y. fwd (fold (splice update node) [0..<n] l) j y =
       (if j < n then if y = node then fwd l j (u j) else if y = u j then Some node else fwd l j y else fwd l j y))"
  using assms(2,3)
proof (induction n)
  case 0
  then show ?case by (simp add: same_nodes_def)
next
  case (Suc n)
  let ?l = "fold (splice update node) [0..<n] l"
  from Suc have IH: "same_nodes l ?l" "\<forall>j y. fwd ?l j y =
      (if j < n then if y = node then fwd l j (u j) else if y = u j then Some node else fwd l j y else fwd l j y)" by simp_all
  have len: "length (cells ?l) = length (cells l)" using IH(1) by (simp add: same_nodes_def)
  have pre: "node < length (cells ?l)" "u n < node" "update n = Some (u n)"
    "\<forall>x < length (cells ?l). n < length (forward (cells ?l ! x))"
    using IH(1) assms(1,4) Suc.prems by (simp_all add: same_nodes_def)
  have e: "fold (splice update node) [0..<Suc n] l = splice update node n ?l" by simp
  have f: "fwd (splice update node n ?l) j y =
      (if j < Suc n then if y = node then fwd l j (u j) else if y = u j then Some node else fwd l j y else fwd l j y)" for j y
    using splice_ok(2)[of node ?l "u n" update n j y, OF pre] IH(2) by (auto simp: less_Suc_eq)
  show ?case unfolding e using same_nodes_trans[OF IH(1) splice_ok(1)[of node ?l "u n" update n, OF pre]] f by blast
qed

lemma raise_level_update:
  "fst (raise_level n l update) i = (if level l < i \<and> i \<le> n then Some 0 else update i)"
proof -
  have "fold (\<lambda>i u. u(i \<mapsto> 0)) [a..<b] update i = (if a \<le> i \<and> i < b then Some 0 else update i)" for a b
    by (induction b) (auto simp: less_Suc_eq)
  then show ?thesis by (simp add: raise_level_def Suc_le_eq less_Suc_eq_le del: upt_Suc)
qed

lemma raise_level_list: "snd (raise_level n l update) = l\<lparr> level := max (level l) n \<rparr>"
  by (simp add: raise_level_def max_def)

lemma random_level_bound: "lev < SKIPLIST_MAX_LEVEL \<Longrightarrow> random_level lev coins < SKIPLIST_MAX_LEVEL"
  by (induction lev coins rule: random_level.induct) (auto simp: SKIPLIST_MAX_LEVEL_def)

text \<open>The level lists after a new node of the given height.\<close>

definition with_node :: "skip_list \<Rightarrow> byte list \<Rightarrow> nat \<Rightarrow> nat \<Rightarrow> (nat \<Rightarrow> nat list) \<Rightarrow> nat \<Rightarrow> nat list" where
  "with_node l key node n ps i =
     (if i \<le> n then takeWhile (\<lambda>p. node_key l p < key) (ps i) @ node # dropWhile (\<lambda>p. node_key l p < key) (ps i)
      else ps i)"

lemma with_node_set: "set (with_node l key node n ps i) = (if i \<le> n then insert node (set (ps i)) else set (ps i))"
proof -
  have "set (takeWhile P xs) \<union> set (dropWhile P xs) = set xs" for P and xs :: "nat list"
    by (metis set_append takeWhile_dropWhile_id)
  then show ?thesis by (simp add: with_node_def)
qed

lemma with_node_split:
  assumes l: "levels l ps" and new: "map_of (entries_of l (ps 0)) key = None"
  obtains as bs where "ps i = as @ bs" "with_node l key node n ps i = (if i \<le> n then as @ node # bs else as @ bs)"
    "pred l key (ps i) = last (0 # as)" "\<forall>p \<in> set as. node_key l p < key" "\<forall>p \<in> set bs. key < node_key l p"
proof -
  define as where "as = takeWhile (\<lambda>p. node_key l p < key) (ps i)"
  define bs where "bs = dropWhile (\<lambda>p. node_key l p < key) (ps i)"
  have ps: "ps i = as @ bs" by (simp add: as_def bs_def)
  have "set (ps i) \<subseteq> set (ps 0)"
  proof (induction i)
    case (Suc i)
    have "set (ps (Suc i)) \<subseteq> set (ps i)" using l by (simp add: levels_def)
    with Suc.IH show ?case by (rule order_trans[rotated])
  qed simp
  then have ne: "\<forall>p \<in> set bs. node_key l p \<noteq> key" using new ps by (auto simp: entries_lookup_None)
  have "sorted_wrt (<) (map (node_key l) (ps i))" using l by (simp add: levels_def)
  note s = this[unfolded ps]
  have hb: "key \<le> node_key l b" if "bs = b # bs'" for b bs'
    using that by (metis bs_def dropWhile_eq_Cons_conv not_less)
  have above: "\<forall>p \<in> set bs. key < node_key l p"
  proof (cases bs)
    case (Cons b bs')
    have b: "\<forall>p \<in> set bs'. node_key l b < node_key l p" using s by (simp add: Cons sorted_wrt_append)
    have "key < node_key l b" using hb[OF Cons] ne by (auto simp: Cons le_less)
    with b show ?thesis by (auto simp: Cons dest: less_trans)
  qed simp
  show ?thesis
    by (rule that[OF ps _ _ _ above]) (auto simp: with_node_def as_def bs_def pred_def dest: set_takeWhileD)
qed

text \<open>The state after the splices, seen through the level lists.\<close>

lemma insert_levels:
  assumes l: "levels l ps" and new: "map_of (entries_of l (ps 0)) key = None" and key: "key \<noteq> []"
    and n: "n < SKIPLIST_MAX_LEVEL"
    and u: "\<forall>i \<le> n. update i = Some (pred l key (ps i))"
    and l1: "l1 = l\<lparr> level := max (level l) n, cells := cells l @ [empty_node\<lparr> sk_key := key, sk_value := val \<rparr>] \<rparr>"
    and l2: "l2 = fold (splice update (length (cells l))) [0..<n + 1] l1"
  shows "levels (l2\<lparr> list_size := list_size l2 + 1 \<rparr>) (with_node l key (length (cells l)) n ps)"
    "entries_of l2 (with_node l key (length (cells l)) n ps 0) = upd_sorted key val (entries_of l (ps 0))"
proof -
  let ?node = "length (cells l)" and ?P = "\<lambda>p. node_key l p < key"
  have lev: "\<forall>c \<in> set (cells l). length (forward c) = SKIPLIST_MAX_LEVEL" "set (ps 0) = {1..<length (cells l)}"
    "\<And>i. i < SKIPLIST_MAX_LEVEL \<Longrightarrow> chain (fwd l i) 0 (ps i)" "\<And>i. sorted_wrt (<) (map (node_key l) (ps i))"
    "cells l \<noteq> []" "\<And>i. set (ps (Suc i)) \<subseteq> set (ps i)"
    using l by (simp_all add: levels_def)
  have below: "pred l key (ps i) < ?node" for i
  proof -
    have "0 < ?node" using lev(5) by simp
    then show ?thesis using pred_cases[of l key "ps i"] levels_nodes[OF l, of i] by auto
  qed
  have len1: "\<forall>x < length (cells l1). length (forward (cells l1 ! x)) = SKIPLIST_MAX_LEVEL"
    using lev(1) by (simp add: l1 nth_append empty_node_def)
  have "\<forall>i < n + 1. update i = Some (pred l key (ps i)) \<and> pred l key (ps i) < ?node" using u below by simp
  from splices_ok[OF _ this _ len1] n
  have same: "same_nodes l1 l2" and f: "\<And>j y. fwd l2 j y = (if j < n + 1 then if y = ?node then fwd l1 j (pred l key (ps j))
      else if y = pred l key (ps j) then Some ?node else fwd l1 j y else fwd l1 j y)"
    by (simp_all add: l1 l2)
  have f1: "fwd l1 j y = fwd l j y" if "y < ?node" for j y using that by (simp add: l1 fwd_def nth_append)
  have k2: "node_key l2 y = (if y = ?node then key else node_key l y)"
    "sk_value (cells l2 ! y) = (if y = ?node then val else sk_value (cells l ! y))" if "y \<le> ?node" for y
    using same that by (auto simp: same_nodes_def l1 nth_append)
  have ps_below: "p \<in> set (ps i) \<Longrightarrow> 0 < p \<and> p < ?node" for p i using levels_nodes[OF l, of i] by auto
  have kp: "node_key l2 p = node_key l p" "sk_value (cells l2 ! p) = sk_value (cells l ! p)" if "p \<in> set (ps i)" for p i
    using k2[of p] ps_below[OF that] by auto
  have order: "sorted_wrt (<) (map (node_key l2) (with_node l key ?node n ps i))" for i
  proof -
    from with_node_split[OF l new, of i ?node n] obtain as bs where
      w: "ps i = as @ bs" "with_node l key ?node n ps i = (if i \<le> n then as @ ?node # bs else as @ bs)"
      "\<forall>p \<in> set as. node_key l p < key" "\<forall>p \<in> set bs. key < node_key l p" by metis
    have "map (node_key l2) as = map (node_key l) as" "map (node_key l2) bs = map (node_key l) bs"
      using kp(1)[of _ i] by (simp_all add: w(1))
    then have m: "map (node_key l2) (with_node l key ?node n ps i) =
        (if i \<le> n then map (node_key l) as @ key # map (node_key l) bs else map (node_key l) (as @ bs))"
      by (simp add: w(2) k2)
    have "sorted_wrt (<) (map (node_key l) (as @ bs))" using lev(4)[of i] w(1) by simp
    with w(3,4) show ?thesis unfolding m by (auto simp: sorted_wrt_append)
  qed
  have chains: "chain (fwd l2 i) 0 (with_node l key ?node n ps i)" if i: "i < SKIPLIST_MAX_LEVEL" for i
  proof -
    from with_node_split[OF l new, of i ?node n] obtain as bs where
      w: "ps i = as @ bs" "with_node l key ?node n ps i = (if i \<le> n then as @ ?node # bs else as @ bs)"
      "pred l key (ps i) = last (0 # as)" by metis
    have c: "chain (fwd l i) 0 (as @ bs)" using lev(3)[OF i] w(1) by simp
    have d: "distinct (0 # as @ bs)" "?node \<notin> set (0 # as @ bs)"
      using levels_distinct(1)[OF l, of i] ps_below[of _ i] lev(5) by (auto simp: w(1))
    have c1: "chain (fwd l1 i) 0 (as @ bs)" "fwd l1 i (last (0 # as)) = fwd l i (last (0 # as))"
      using c chain_cong[of 0 "as @ bs" "fwd l1 i" "fwd l i"] f1 d(2) ps_below[of _ i] lev(5) below[of i]
      unfolding w(3) by (auto simp: w(1) simp del: last.simps)
    show ?thesis
    proof (cases "i \<le> n")
      case True
      have "chain (fwd l2 i) 0 (as @ ?node # bs)"
        by (rule chain_insert[OF c1(1) d]) (use f[of i] True in \<open>simp add: w(3)\<close>)
      then show ?thesis using True by (simp add: w(2))
    next
      case False
      have "fwd l2 i = fwd l1 i" by (rule ext) (use f[of i] False in simp)
      then show ?thesis using c1(1) False by (simp add: w(2))
    qed
  qed
  have frame: "level l2 = max (level l) n" "length (cells l2) = ?node + 1" "list_size l2 = length (ps 0)"
    "level l < SKIPLIST_MAX_LEVEL"
    using same l by (simp_all add: same_nodes_def l1 levels_def)
  have len2: "\<forall>c \<in> set (cells l2). length (forward c) = SKIPLIST_MAX_LEVEL"
    using same len1 by (auto simp: same_nodes_def in_set_conv_nth)
  have "length (with_node l key ?node n ps 0) = length (ps 0) + 1"
    using length_append[of "takeWhile ?P (ps 0)" "dropWhile ?P (ps 0)"] by (simp add: with_node_def)
  moreover have "set (with_node l key ?node n ps 0) = {1..<?node + 1}"
    using lev(2,5) by (auto simp: with_node_set) (metis Suc_leI length_greater_0_conv)
  moreover have "\<forall>p \<in> {1..<?node + 1}. node_key l2 p \<noteq> []"
    using levels_keys[OF l, of _ 0] key k2(1) unfolding lev(2) by (auto simp: less_Suc_eq)
  moreover have "\<forall>i. set (with_node l key ?node n ps (Suc i)) \<subseteq> set (with_node l key ?node n ps i)"
    using lev(6) by (auto simp: with_node_set)
  moreover have "\<forall>i > max (level l) n. with_node l key ?node n ps i = []"
    using l by (simp add: with_node_def levels_def)
  moreover have "fwd (l2\<lparr> list_size := m \<rparr>) i = fwd l2 i" for m i by (rule ext) (simp add: fwd_def)
  ultimately show "levels (l2\<lparr> list_size := list_size l2 + 1 \<rparr>) (with_node l key ?node n ps)"
    using frame len2 n order chains unfolding levels_def by auto
  from with_node_split[OF l new, of 0 ?node n] obtain as bs where
    w: "ps 0 = as @ bs" "with_node l key ?node n ps 0 = as @ ?node # bs"
    "\<forall>p \<in> set as. node_key l p < key" "\<forall>p \<in> set bs. key < node_key l p" by (metis le0)
  have same_entries: "entries_of l2 as = entries_of l as" "entries_of l2 bs = entries_of l bs"
    using kp[of _ 0] by (auto simp: w(1) entries_of_def)
  have "upd_sorted key val (entries_of l as @ entries_of l bs) = entries_of l as @ (key, val) # entries_of l bs"
    by (rule upd_sorted_split; cases bs) (use w(3,4) in \<open>auto simp: entries_of_def\<close>)
  then show "entries_of l2 (with_node l key ?node n ps 0) = upd_sorted key val (entries_of l (ps 0))"
    by (simp add: w(1,2) same_entries k2)
qed

section \<open>The operations on the contents\<close>

definition skip_entries :: "skip_list \<Rightarrow> (byte list \<times> byte list) list" where
  "skip_entries l = the (iterate l (skiplist_iterator l))"

lemma skip_entries_levels: "levels l ps \<Longrightarrow> skip_entries l = entries_of l (ps 0)"
  by (simp add: skip_entries_def skiplist_iterator_def iterate_levels)

lemma insert_existing:
  assumes l: "levels l ps" and p: "p \<in> set (ps 0)" "node_key l p = key"
  shows "levels (l\<lparr> cells := (cells l)[p := (cells l ! p)\<lparr> sk_value := val \<rparr>] \<rparr>) ps"
    "entries_of (l\<lparr> cells := (cells l)[p := (cells l ! p)\<lparr> sk_value := val \<rparr>] \<rparr>) (ps 0) = upd_sorted key val (entries_of l (ps 0))"
proof -
  let ?l = "l\<lparr> cells := (cells l)[p := (cells l ! p)\<lparr> sk_value := val \<rparr>] \<rparr>"
  have len: "p < length (cells l)" using levels_nodes[OF l, of 0] p(1) by auto
  have k: "node_key ?l q = node_key l q" for q by (simp add: nth_upd_if)
  have f: "fwd ?l = fwd l" by (auto simp: nth_upd_if fwd_def fun_eq_iff)
  have "\<forall>c \<in> set (cells ?l). length (forward c) = SKIPLIST_MAX_LEVEL"
    using l len by (auto simp: levels_def dest!: set_update_subset_insert[THEN subsetD])
  then show "levels ?l ps" using l unfolding levels_def k f by simp
  from p(1) obtain as bs where ps: "ps 0 = as @ p # bs" by (meson split_list)
  have "sorted_wrt (<) (map (node_key l) (ps 0))" using l by (simp add: levels_def)
  note s = this[unfolded ps]
  have other: "entries_of ?l qs = entries_of l qs" if "p \<notin> set qs" for qs
    using that by (auto simp: entries_of_def nth_upd_if)
  have "p \<notin> set as" "p \<notin> set bs" using levels_distinct(1)[OF l, of 0] ps by auto
  moreover have "upd_sorted key val (entries_of l as @ (key, sk_value (cells l ! p)) # entries_of l bs) =
      entries_of l as @ (key, val) # entries_of l bs"
    using s p(2) by (intro upd_sorted_split; cases bs) (auto simp: entries_of_def sorted_wrt_append)
  ultimately show "entries_of ?l (ps 0) = upd_sorted key val (entries_of l (ps 0))"
    using len p(2) by (simp add: ps other)
qed

lemma skip_insert_ok:
  assumes "wf_skip l" "key \<noteq> []" "length key \<le> 255" "length val \<le> 1023"
  shows "\<exists>l'. skiplist_insert True coins key val l = Done (0, l') \<and> wf_skip l' \<and>
    skip_entries l' = upd_sorted key val (skip_entries l)"
proof -
  obtain ps where l: "levels l ps" using assms(1) by (auto simp: wf_skip_def)
  define update where "update = (\<lambda>i. if i < Suc (level l) then Some (pred l key (ps i)) else None)"
  have d: "descend l key (Suc (level l)) 0 Map.empty = Some (pred l key (ps 0), update)"
    using descend_levels[OF l, of "Suc (level l)" 0 key Map.empty] l by (auto simp: levels_def Suc_le_eq update_def)
  let ?x = "fwd l 0 (pred l key (ps 0))"
  from search_levels[OF l, of key] d
  have r: "map_option (\<lambda>p. sk_value (cells l ! p)) (if holds_key l key ?x then ?x else None) = map_of (entries_of l (ps 0)) key"
    "\<And>p. (if holds_key l key ?x then ?x else None) = Some p \<Longrightarrow> p \<in> set (ps 0) \<and> node_key l p = key"
    by (auto simp: skiplist_search_def)
  show ?thesis
  proof (cases "holds_key l key ?x")
    case True
    then obtain p where p: "?x = Some p" by (auto simp: holds_key_def split: option.splits)
    with r(2)[of p] True have "p \<in> set (ps 0)" "node_key l p = key" by simp_all
    note i = insert_existing[OF l this, of val]
    have "skiplist_insert True coins key val l = Done (0, l\<lparr> cells := (cells l)[p := (cells l ! p)\<lparr> sk_value := val \<rparr>] \<rparr>)"
      using assms(3,4) d True p by (simp add: skiplist_insert_def)
    then show ?thesis using i skip_entries_levels[OF i(1)] skip_entries_levels[OF l] by (auto simp: wf_skip_def)
  next
    case False
    then have new: "map_of (entries_of l (ps 0)) key = None" using r(1) by simp
    define n where "n = random_level 0 coins"
    define u where "u = fst (raise_level n l update)"
    have n: "n < SKIPLIST_MAX_LEVEL" unfolding n_def by (rule random_level_bound) (simp add: SKIPLIST_MAX_LEVEL_def)
    have u: "\<forall>i \<le> n. u i = Some (pred l key (ps i))"
      using l by (auto simp: u_def raise_level_update update_def levels_def pred_def)
    define l2 where "l2 = fold (splice u (length (cells l))) [0..<n + 1]
      (l\<lparr> level := max (level l) n, cells := cells l @ [empty_node\<lparr> sk_key := key, sk_value := val \<rparr>] \<rparr>)"
    note i = insert_levels[OF l new assms(2) n u refl l2_def]
    have "raise_level n l update = (u, l\<lparr> level := max (level l) n \<rparr>)"
      by (simp add: u_def prod_eq_iff raise_level_list)
    then have "skiplist_insert True coins key val l = Done (0, l2\<lparr> list_size := list_size l2 + 1 \<rparr>)"
      using assms(3,4) d False by (simp add: skiplist_insert_def Let_def l2_def del: upt_Suc flip: n_def)
    moreover have "entries_of (l2\<lparr> list_size := m \<rparr>) qs = entries_of l2 qs" for m qs by (simp add: entries_of_def)
    ultimately show ?thesis using i skip_entries_levels[OF i(1)] skip_entries_levels[OF l] by (auto simp: wf_skip_def)
  qed
qed

lemma insert_refused:
  "length key > 255 \<or> length val > 1023 \<Longrightarrow> skiplist_insert mem coins key val l = Done (-1, l)"
  by (simp add: skiplist_insert_def)

lemma insert_no_memory:
  assumes "wf_skip l"
  shows "\<exists>r l'. skiplist_insert False coins key val l = Done (r, l') \<and> wf_skip l'"
proof -
  obtain ps where l: "levels l ps" using assms by (auto simp: wf_skip_def)
  define update where "update = (\<lambda>i. if i < Suc (level l) then Some (pred l key (ps i)) else None)"
  have d: "descend l key (Suc (level l)) 0 Map.empty = Some (pred l key (ps 0), update)"
    using descend_levels[OF l, of "Suc (level l)" 0 key Map.empty] l by (auto simp: levels_def Suc_le_eq update_def)
  let ?x = "fwd l 0 (pred l key (ps 0))"
  show ?thesis
  proof (cases "length key > 255 \<or> length val > 1023")
    case True
    then show ?thesis using insert_refused assms by blast
  next
    case small: False
    show ?thesis
    proof (cases "holds_key l key ?x")
      case True
      then obtain p where p: "?x = Some p" by (auto simp: holds_key_def split: option.splits)
      with search_levels[OF l, of key] d True have "p \<in> set (ps 0)" "node_key l p = key" by (auto simp: skiplist_search_def)
      from insert_existing(1)[OF l this, of val] show ?thesis
        using small d True p by (auto simp: skiplist_insert_def wf_skip_def)
    next
      case False
      let ?n = "random_level 0 coins"
      have "?n < SKIPLIST_MAX_LEVEL" by (rule random_level_bound) (simp add: SKIPLIST_MAX_LEVEL_def)
      then have "levels (l\<lparr> level := max (level l) ?n \<rparr>) ps"
        using l by (simp add: levels_def fwd_def[abs_def])
      then have "wf_skip (snd (raise_level ?n l update))" by (auto simp: raise_level_list wf_skip_def)
      then show ?thesis using small d False by (auto simp: skiplist_insert_def Let_def split: prod.split)
    qed
  qed
qed

text \<open>A client that never enters the empty key.\<close>

type_synonym skip_op = "bool \<times> bool list \<times> byte list \<times> byte list"

fun skip_step :: "skip_op \<Rightarrow> skip_list outcome \<Rightarrow> skip_list outcome" where
  "skip_step (mem, coins, key, val) r =
     (if key = [] then r else bind_outcome r (\<lambda>l. bind_outcome (skiplist_insert mem coins key val l) (\<lambda>(_, l). Done l)))"

definition fresh_skip :: "skip_list outcome \<Rightarrow> bool" where
  "fresh_skip r \<longleftrightarrow> r = Done skiplist_create"

definition skip_ok :: "skip_list outcome \<Rightarrow> bool" where
  "skip_ok r \<longleftrightarrow> (\<exists>l. r = Done l \<and> wf_skip l)"

lemma create_levels: "levels skiplist_create (\<lambda>_. [])"
  by (simp add: levels_def skiplist_create_def empty_node_def SKIPLIST_MAX_LEVEL_def fwd_def)

lemma skip_insert_wf:
  assumes "wf_skip l" "key \<noteq> []"
  shows "\<exists>r l'. skiplist_insert mem coins key val l = Done (r, l') \<and> wf_skip l'"
proof (cases "length key > 255 \<or> length val > 1023 \<or> \<not> mem")
  case True
  then show ?thesis using insert_refused[of key val mem coins l] insert_no_memory[OF assms(1), of coins key val] assms(1)
    by (cases mem) auto
next
  case False
  then show ?thesis using skip_insert_ok[OF assms, of val coins] by auto
qed

interpretation skip_sys: invariant_system fresh_skip skip_step skip_ok
proof unfold_locales
  show "skip_ok r" if "fresh_skip r" for r
    using that create_levels by (auto simp: fresh_skip_def skip_ok_def wf_skip_def)
next
  fix r and op :: skip_op assume "skip_ok r"
  then obtain l where l: "r = Done l" "wf_skip l" by (auto simp: skip_ok_def)
  obtain mem coins key val where op: "op = (mem, coins, key, val)" by (cases op)
  show "skip_ok (skip_step op r)"
  proof (cases "key = []")
    case False
    from skip_insert_wf[OF l(2) this, of mem coins val] show ?thesis using l(1) False by (auto simp: op skip_ok_def)
  qed (use l op in \<open>simp add: skip_ok_def\<close>)
qed

text \<open>
  C28. The skip list is a sorted finite map, whatever the coins: after any insertions of non-empty
  keys a search returns the value last inserted for the key, an iteration ends and lists all
  entries in strictly increasing key order, their number is the stored size, and an insertion of
  a key and value within their arrays enters exactly that key.
\<close>

theorem skiplist_refines_map:
  assumes "reach fresh_skip skip_step (Done l)"
  shows "iterate l (skiplist_iterator l) = Some (skip_entries l) \<and> sorted_wrt (<) (map fst (skip_entries l)) \<and>
    length (skip_entries l) = list_size l \<and>
    (\<exists>r. skiplist_search l key = Done r \<and> map_option (\<lambda>p. sk_value (cells l ! p)) r = map_of (skip_entries l) key) \<and>
    (\<exists>r l'. skiplist_insert True coins (b # bs) val l = Done (r, l') \<and>
       (if length (b # bs) \<le> 255 \<and> length val \<le> 1023
        then r = 0 \<and> map_of (skip_entries l') = (map_of (skip_entries l))(b # bs \<mapsto> val)
        else r = -1 \<and> l' = l))"
proof -
  have "wf_skip l" using skip_sys.reach_inv[OF assms] by (auto simp: skip_ok_def)
  then obtain ps where l: "levels l ps" by (auto simp: wf_skip_def)
  have srt: "sorted_wrt (<) (map fst (skip_entries l))"
    using l by (simp add: skip_entries_levels[OF l] entries_of_def levels_def comp_def)
  have ins: "\<exists>r l'. skiplist_insert True coins (b # bs) val l = Done (r, l') \<and>
      (if length (b # bs) \<le> 255 \<and> length val \<le> 1023
       then r = 0 \<and> map_of (skip_entries l') = (map_of (skip_entries l))(b # bs \<mapsto> val) else r = -1 \<and> l' = l)"
  proof (cases "length (b # bs) \<le> 255 \<and> length val \<le> 1023")
    case True
    with skip_insert_ok[OF \<open>wf_skip l\<close>, of "b # bs" val coins] show ?thesis by (auto simp: upd_sorted_map[OF srt])
  next
    case False
    then show ?thesis using insert_refused[of "b # bs" val True coins l] by auto
  qed
  show ?thesis
    using ins srt search_levels[OF l, of key] iterate_levels[OF l] l
    by (auto simp: skip_entries_levels[OF l] skiplist_iterator_def levels_def entries_of_def)
qed

theorem skiplist_refines_map_witness:
  "\<exists>r l'. skiplist_insert True [True, False] [1] [2] skiplist_create = Done (r, l') \<and>
     map_of (skip_entries l') [1] = Some [2]"
proof -
  have "reach fresh_skip skip_step (Done skiplist_create)" by (intro reach_init) (simp add: fresh_skip_def)
  from skiplist_refines_map[OF this, of "[1]" "[True, False]" 1 "[]" "[2]"] show ?thesis by auto
qed

lemma front_node_hides:
  assumes "\<forall>j \<le> level l. fwd l j 0 = Some p" "node_key l p = []"
  shows "skiplist_search l (b # bs) = Done None"
proof -
  have stay: "walk l i k 0 = Some 0" if "i \<le> level l" for i k
    using assms that by (simp add: walk_def while_option_unfold advances_def)
  have "\<exists>upd'. descend l k m 0 upd = Some (0, upd')" if "m \<le> Suc (level l)" for k m upd
    using that by (induction m arbitrary: upd) (simp_all add: stay)
  then obtain upd where "descend l (b # bs) (Suc (level l)) 0 Map.empty = Some (0, upd)" by blast
  then show ?thesis using assms by (simp add: skiplist_search_def holds_key_def)
qed

text \<open>The empty key precedes every other one, so a walk for it stays at the header.\<close>

lemma descend_empty_key:
  assumes "levels l ps"
  shows "descend l [] (Suc (level l)) 0 Map.empty = Some (0, \<lambda>i. if i < Suc (level l) then Some 0 else None)"
    "\<not> holds_key l [] (fwd l 0 0)"
proof -
  have pred0: "pred l [] qs = 0" for qs using pred_cases[of l "[]" qs] by (auto simp: not_less[symmetric])
  show "descend l [] (Suc (level l)) 0 Map.empty = Some (0, \<lambda>i. if i < Suc (level l) then Some 0 else None)"
    using descend_levels[OF assms, of "Suc (level l)" 0 "[]" Map.empty] assms
    by (auto simp: levels_def Suc_le_eq pred0)
  have "chain (fwd l 0) 0 (ps 0)" using assms by (simp add: levels_def SKIPLIST_MAX_LEVEL_def)
  then show "\<not> holds_key l [] (fwd l 0 0)"
    using levels_keys[OF assms, of _ 0] by (cases "ps 0") (auto simp: holds_key_def)
qed

text \<open>
  The empty key breaks the list: a walk stops in front of it, so once it has been inserted
  with at least the height of the list, no search finds any other key any more.
\<close>

theorem skiplist_empty_key_hides:
  assumes "reach fresh_skip skip_step (Done l)" "level l \<le> random_level 0 coins" "length val \<le> 1023"
  shows "\<exists>l'. skiplist_insert True coins [] val l = Done (0, l') \<and>
    (\<forall>b bs. skiplist_search l' (b # bs) = Done None)"
proof -
  have "wf_skip l" using skip_sys.reach_inv[OF assms(1)] by (auto simp: skip_ok_def)
  then obtain ps where l: "levels l ps" by (auto simp: wf_skip_def)
  define update where "update = (\<lambda>i. if i < Suc (level l) then Some (0::nat) else None)"
  note d = descend_empty_key[OF l, folded update_def]
  define n where "n = random_level 0 coins"
  define u where "u = fst (raise_level n l update)"
  have n: "n < SKIPLIST_MAX_LEVEL" unfolding n_def by (rule random_level_bound) (simp add: SKIPLIST_MAX_LEVEL_def)
  have u: "\<forall>i < n + 1. u i = Some 0" by (auto simp: u_def raise_level_update update_def)
  define l1 where "l1 = l\<lparr> level := n, cells := cells l @ [empty_node\<lparr> sk_key := [], sk_value := val \<rparr>] \<rparr>"
  define l2 where "l2 = fold (splice u (length (cells l))) [0..<n + 1] l1"
  have cl: "0 < length (cells l)" "\<forall>c \<in> set (cells l). length (forward c) = SKIPLIST_MAX_LEVEL"
    using l by (simp_all add: levels_def)
  have "\<forall>x < length (cells l1). length (forward (cells l1 ! x)) = SKIPLIST_MAX_LEVEL"
    using cl(2) by (simp add: l1_def nth_append empty_node_def)
  from splices_ok[of "length (cells l)" l1 "n + 1" u "\<lambda>_. 0", OF _ _ _ this] u n cl(1)
  have same: "same_nodes l1 l2" and f: "\<forall>j < n + 1. fwd l2 j 0 = Some (length (cells l))"
    by (simp_all add: l1_def l2_def)
  define l' where "l' = l2\<lparr> list_size := list_size l2 + 1 \<rparr>"
  have "raise_level n l update = (u, l\<lparr> level := n \<rparr>)"
    using assms(2) by (simp add: u_def prod_eq_iff raise_level_list n_def max_def)
  then have ins: "skiplist_insert True coins [] val l = Done (0, l')"
    using assms(3) d by (simp add: skiplist_insert_def Let_def l2_def l1_def l'_def del: upt_Suc flip: n_def)
  have "level l' = n" "node_key l' (length (cells l)) = []" "\<forall>j \<le> n. fwd l' j 0 = Some (length (cells l))"
    using same f by (simp_all add: same_nodes_def l1_def l'_def fwd_def)
  then have "skiplist_search l' (b # bs) = Done None" for b bs by (intro front_node_hides) simp_all
  with ins show ?thesis by blast
qed

theorem skiplist_empty_key_hides_witness:
  "\<exists>l'. skiplist_insert True [] [] [7] skiplist_create = Done (0, l') \<and> (\<forall>b bs. skiplist_search l' (b # bs) = Done None)"
proof (rule skiplist_empty_key_hides)
  show "reach fresh_skip skip_step (Done skiplist_create)" by (intro reach_init) (simp add: fresh_skip_def)
qed (simp_all add: skiplist_create_def)

end
