(* ===== verification/Wal_File.thy ===== *)
theory Wal_File
  imports Codec_Base
begin

text \<open>
  The write ahead log file of \<open>mini-file-storage\<close> (\<open>wal_file.h\<close>, \<open>wal_file.c\<close>). The file is its
  sequence of bytes: appends go to its end (mode \<open>ab+\<close>) and are assumed to succeed, recovery reads
  it from the start. Integers are stored as the little-endian host does. A replayed record is an
  element of the result, in the order of the callback. Where the code writes past its 2048 byte
  buffer or reads bytes of it that it never wrote, the outcome is \<open>Undefined\<close>.
\<close>

definition WAL_RECORD_PUT :: byte where [c_consts]: "WAL_RECORD_PUT = 1"
definition WAL_RECORD_DEL :: byte where [c_consts]: "WAL_RECORD_DEL = 2"
definition WAL_BUFFER :: nat where [c_consts]: "WAL_BUFFER = 2048"

record wal_record =
  rec_type :: byte
  rec_key :: "byte list"
  rec_value :: "byte list"

record wal_writer =
  wal_bytes :: "byte list"
  current_offset :: "32 word"
  record_count :: "64 word"

section \<open>Checksum\<close>

definition crc_shift :: "32 word \<Rightarrow> 32 word" where
  "crc_shift crc = drop_bit 1 crc XOR (if crc AND 1 \<noteq> 0 then 0x82F63B78 else 0)"

definition crc32c_table :: "32 word list" where
  "crc32c_table = map (\<lambda>i. (crc_shift ^^ 8) (word_of_nat i)) [0..<256]"

definition crc32c_compute :: "byte list \<Rightarrow> 32 word" where
  "crc32c_compute data =
     foldl (\<lambda>crc b. drop_bit 8 crc XOR crc32c_table ! unat ((crc XOR ucast b) AND 0xFF)) 0xFFFFFFFF data XOR 0xFFFFFFFF"

section \<open>Appending\<close>

definition wal_open :: "byte list \<Rightarrow> wal_writer" where
  "wal_open contents = \<lparr> wal_bytes = contents, current_offset = of_nat (length contents), record_count = 0 \<rparr>"

text \<open>
  The payload as built in the buffer. A NULL value of positive length is announced but never
  copied, and a payload over 2048 bytes leaves the buffer.
\<close>

definition payload_bytes :: "byte \<Rightarrow> byte list \<Rightarrow> byte list option \<Rightarrow> nat \<Rightarrow> byte list outcome" where
  "payload_bytes type key val val_len =
     (case val of
        None \<Rightarrow> if val_len > 0 then Undefined
                else if 9 + length key > WAL_BUFFER then Undefined
                else Done (type # le_bytes 4 (of_nat (length key) :: 32 word) @ le_bytes 4 (0 :: 32 word) @ key)
      | Some v \<Rightarrow>
          if 9 + length key + val_len > WAL_BUFFER \<or> length v < val_len then Undefined
          else Done (type # le_bytes 4 (of_nat (length key) :: 32 word) @ le_bytes 4 (of_nat val_len :: 32 word) @
                     key @ take val_len v))"

definition wal_append :: "byte \<Rightarrow> byte list \<Rightarrow> byte list option \<Rightarrow> nat \<Rightarrow> wal_writer \<Rightarrow> (int \<times> wal_writer) outcome" where
  "wal_append type key val val_len wal =
     bind_outcome (payload_bytes type key val val_len)
       (\<lambda>payload.
          let payload_len = (of_nat (length payload) :: 32 word);
              checksum = crc32c_compute payload
          in Done (0, wal\<lparr> wal_bytes := wal_bytes wal @ le_bytes 4 checksum @ le_bytes 4 payload_len @ payload,
                           current_offset := current_offset wal + 8 + payload_len,
                           record_count := record_count wal + 1 \<rparr>))"

definition wal_sync :: "wal_writer \<Rightarrow> int" where
  "wal_sync wal = 0"

section \<open>Recovery\<close>

text \<open>One record in the buffer: stop, or replay it.\<close>

definition parse_payload :: "byte list \<Rightarrow> wal_record option outcome" where
  "parse_payload payload =
     (if length payload < 9 then Undefined
      else
        (let klen = unat (le_value (take 4 (drop 1 payload)) :: 32 word);
             vlen = unat (le_value (take 4 (drop 5 payload)) :: 32 word)
         in if klen > 255 \<or> vlen > 1023 then Done None
            else if 9 + klen + vlen > length payload then Undefined
            else Done (Some \<lparr> rec_type = hd payload, rec_key = take klen (drop 9 payload),
                              rec_value = take vlen (drop (9 + klen) payload) \<rparr>)))"

function recover_loop :: "32 word \<Rightarrow> 32 word \<Rightarrow> byte list \<Rightarrow> wal_record list outcome" where
  "recover_loop file_len offset rest =
     (if \<not> offset + 8 \<le> file_len then Done []
      else if length rest < 8 then Done []
      else
        (let stored_crc = (le_value (take 4 rest) :: 32 word);
             payload_len = (le_value (take 4 (drop 4 rest)) :: 32 word);
             rest' = drop 8 rest;
             offset = offset + 8
         in if offset + payload_len > file_len then Done []
            else if payload_len > 2048 then Done []
            else if length rest' < unat payload_len then Done []
            else
              (let payload = take (unat payload_len) rest' in
               if crc32c_compute payload \<noteq> stored_crc then Done []
               else
                 bind_outcome (parse_payload payload)
                   (\<lambda>r. case r of
                          None \<Rightarrow> Done []
                        | Some rec \<Rightarrow>
                            bind_outcome (recover_loop file_len (offset + payload_len) (drop (unat payload_len) rest'))
                              (\<lambda>rs. Done (rec # rs))))))"
  by pat_completeness auto
termination
  by (relation "measure (\<lambda>(file_len, offset, rest). length rest)") auto

definition wal_recover :: "wal_writer \<Rightarrow> (int \<times> wal_record list) outcome" where
  "wal_recover wal =
     bind_outcome (recover_loop (of_nat (length (wal_bytes wal))) 0 (wal_bytes wal))
       (\<lambda>rs. Done (int (length rs), rs))"

section \<open>Recovery without offsets\<close>

text \<open>The record at the front of a file, and the bytes it takes.\<close>

definition read_record :: "byte list \<Rightarrow> (wal_record \<times> nat) option outcome" where
  "read_record bs =
     (if length bs < 8 then Done None
      else
        (let len = unat (le_value (take 4 (drop 4 bs)) :: 32 word); payload = take len (drop 8 bs)
         in if len > 2048 \<or> len > length bs - 8 \<or> crc32c_compute payload \<noteq> le_value (take 4 bs) then Done None
            else bind_outcome (parse_payload payload) (\<lambda>r. Done (map_option (\<lambda>rec. (rec, 8 + len)) r))))"

lemma read_record_length:
  "read_record bs = Done (Some (r, n)) \<Longrightarrow> 8 \<le> n \<and> n \<le> length bs"
  by (auto simp: read_record_def Let_def split: if_splits)

function replay :: "byte list \<Rightarrow> wal_record list outcome" where
  "replay bs =
     (case read_record bs of
        Done None \<Rightarrow> Done []
      | Done (Some (r, n)) \<Rightarrow> bind_outcome (replay (drop n bs)) (\<lambda>rs. Done (r # rs))
      | Failed \<Rightarrow> Failed
      | Undefined \<Rightarrow> Undefined)"
  by pat_completeness auto
termination
  by (relation "measure length") (auto dest!: read_record_length)

declare recover_loop.simps [simp del] replay.simps [simp del]

text \<open>
  The offset of the loop is the position in the file, so as long as the file is shorter than
  4 GB the tests on offsets say what is left of it.
\<close>

lemma unat_of_nat_32: "m < 2 ^ 32 \<Longrightarrow> unat (of_nat m :: 32 word) = m"
  by (simp add: unat_of_nat)

lemma recover_loop_step:
  assumes "offset + 8 \<le> file_len" "\<not> length rest < 8"
    and "\<not> offset + 8 + le_value (take 4 (drop 4 rest)) > file_len"
    and "\<not> le_value (take 4 (drop 4 rest)) > (2048 :: 32 word)"
    and "unat (le_value (take 4 (drop 4 rest)) :: 32 word) \<le> length rest - 8"
    and "crc32c_compute (take (unat (le_value (take 4 (drop 4 rest)) :: 32 word)) (drop 8 rest)) = le_value (take 4 rest)"
  shows "recover_loop file_len offset rest =
    bind_outcome (parse_payload (take (unat (le_value (take 4 (drop 4 rest)) :: 32 word)) (drop 8 rest)))
      (\<lambda>r. case r of None \<Rightarrow> Done []
         | Some rec \<Rightarrow>
             bind_outcome (recover_loop file_len (offset + 8 + le_value (take 4 (drop 4 rest)))
                             (drop (8 + unat (le_value (take 4 (drop 4 rest)) :: 32 word)) rest))
               (\<lambda>rs. Done (rec # rs)))"
  by (subst recover_loop.simps) (use assms in \<open>simp add: Let_def add.commute\<close>)

lemma replay_step:
  assumes "\<not> length bs < 8" "unat (le_value (take 4 (drop 4 bs)) :: 32 word) \<le> 2048"
    and "unat (le_value (take 4 (drop 4 bs)) :: 32 word) \<le> length bs - 8"
    and "crc32c_compute (take (unat (le_value (take 4 (drop 4 bs)) :: 32 word)) (drop 8 bs)) = le_value (take 4 bs)"
  shows "replay bs =
    bind_outcome (parse_payload (take (unat (le_value (take 4 (drop 4 bs)) :: 32 word)) (drop 8 bs)))
      (\<lambda>r. case r of None \<Rightarrow> Done []
         | Some rec \<Rightarrow>
             bind_outcome (replay (drop (8 + unat (le_value (take 4 (drop 4 bs)) :: 32 word)) bs))
               (\<lambda>rs. Done (rec # rs)))"
proof -
  let ?p = "parse_payload (take (unat (le_value (take 4 (drop 4 bs)) :: 32 word)) (drop 8 bs))"
  have r: "read_record bs = bind_outcome ?p (\<lambda>r. Done (map_option (\<lambda>rec. (rec, 8 + unat (le_value (take 4 (drop 4 bs)) :: 32 word))) r))"
    using assms by (simp add: read_record_def Let_def)
  show ?thesis
    by (subst replay.simps, unfold r) (cases ?p, auto split: option.split)
qed

lemma recover_loop_replay:
  assumes "n < 2 ^ 32" "length rest \<le> n"
  shows "recover_loop (of_nat n) (of_nat (n - length rest)) rest = replay rest"
  using assms(2)
proof (induction rest rule: replay.induct)
  case (1 rest)
  let ?N = "of_nat n :: 32 word" and ?off = "of_nat (n - length rest) :: 32 word"
  let ?len = "le_value (take 4 (drop 4 rest)) :: 32 word"
  have un: "unat ?N = n" using assms(1) by (simp add: unat_of_nat_32)
  show ?case
  proof (cases "length rest < 8")
    case True
    then show ?thesis by (simp add: recover_loop.simps[of ?N] replay.simps[of rest] read_record_def)
  next
    case False
    have o: "?off + 8 = of_nat (n - length rest + 8)" by simp
    have le: "n - length rest + 8 \<le> n" using False 1(2) by simp
    have "unat (of_nat (n - length rest + 8) :: 32 word) = n - length rest + 8"
      by (rule unat_of_nat_32) (use le assms(1) in simp)
    then have off8: "unat (?off + 8) = n - length rest + 8" "?off + 8 \<le> ?N"
      unfolding word_le_nat_alt o un using le by (simp_all only:)
    show ?thesis
    proof (cases "unat ?len > 2048 \<or> unat ?len > length rest - 8 \<or> crc32c_compute (take (unat ?len) (drop 8 rest)) \<noteq> le_value (take 4 rest)")
      case True
      have "?len > 2048 \<longleftrightarrow> unat ?len > 2048" by (simp add: word_less_nat_alt)
      with True False show ?thesis
        by (auto simp: recover_loop.simps[of ?N] replay.simps[of rest] read_record_def Let_def)
    next
      case ok: False
      have small: "\<not> ?len > 2048" using ok by (simp add: word_less_nat_alt)
      have nxt: "?off + 8 + ?len = of_nat (n - length rest + 8 + unat ?len)" by simp
      have fits: "n - length rest + 8 + unat ?len \<le> n"
      proof -
        have "unat ?len \<le> length rest - 8" using ok by (simp only: not_less de_Morgan_disj)
        with False 1(2) show ?thesis by arith
      qed
      have "unat (of_nat (n - length rest + 8 + unat ?len) :: 32 word) = n - length rest + 8 + unat ?len"
        by (rule unat_of_nat_32) (use fits assms(1) in simp)
      then have "\<not> ?off + 8 + ?len > ?N"
        unfolding nxt word_less_nat_alt un using fits by (simp only: not_less)
      moreover have rest: "?off + 8 + ?len = of_nat (n - length (drop (8 + unat ?len) rest))"
      proof -
        have "unat ?len \<le> length rest - 8" using ok by (simp only: not_less de_Morgan_disj)
        with False 1(2) have "n - length rest + 8 + unat ?len = n - length (drop (8 + unat ?len) rest)"
          unfolding length_drop by arith
        then show ?thesis unfolding nxt by (rule arg_cong)
      qed
      moreover have "recover_loop ?N (of_nat (n - length (drop (8 + unat ?len) rest))) (drop (8 + unat ?len) rest) =
          replay (drop (8 + unat ?len) rest)" if "parse_payload (take (unat ?len) (drop 8 rest)) = Done (Some r)" for r
        using 1(1)[of "Some (r, 8 + unat ?len)" "(r, 8 + unat ?len)" r "8 + unat ?len"] that ok False 1(2)
        by (simp add: read_record_def Let_def)
      ultimately have loop: "recover_loop ?N ?off rest =
          bind_outcome (parse_payload (take (unat ?len) (drop 8 rest)))
            (\<lambda>r. case r of None \<Rightarrow> Done []
               | Some rec \<Rightarrow> bind_outcome (replay (drop (8 + unat ?len) rest)) (\<lambda>rs. Done (rec # rs)))"
        using recover_loop_step[of ?off ?N rest, OF off8(2)] False small ok
        by (cases "parse_payload (take (unat ?len) (drop 8 rest))") (auto split: option.split)
      have rep: "replay rest =
          bind_outcome (parse_payload (take (unat ?len) (drop 8 rest)))
            (\<lambda>r. case r of None \<Rightarrow> Done []
               | Some rec \<Rightarrow> bind_outcome (replay (drop (8 + unat ?len) rest)) (\<lambda>rs. Done (rec # rs)))"
        using ok False by (intro replay_step) auto
      show ?thesis unfolding loop rep ..
    qed
  qed
qed

section \<open>Records on the file\<close>

definition payload_of :: "wal_record \<Rightarrow> byte list" where
  "payload_of r =
     rec_type r # le_bytes 4 (of_nat (length (rec_key r)) :: 32 word) @ le_bytes 4 (of_nat (length (rec_value r)) :: 32 word) @
     rec_key r @ rec_value r"

definition encode_record :: "wal_record \<Rightarrow> byte list" where
  "encode_record r =
     le_bytes 4 (crc32c_compute (payload_of r)) @ le_bytes 4 (of_nat (length (payload_of r)) :: 32 word) @ payload_of r"

definition rec_ok :: "wal_record \<Rightarrow> bool" where
  "rec_ok r \<longleftrightarrow> length (rec_key r) \<le> 255 \<and> length (rec_value r) \<le> 1023"

lemma length_payload: "length (payload_of r) = 9 + length (rec_key r) + length (rec_value r)"
  by (simp add: payload_of_def)

lemma length_encode: "length (encode_record r) = 17 + length (rec_key r) + length (rec_value r)"
  by (simp add: encode_record_def length_payload)

lemma le_value_32: "le_value (take 4 (le_bytes 4 w @ bs)) = (w :: 32 word)"
  by (simp add: le_value_full)

lemma encode_fields:
  assumes "length (payload_of r) < 2 ^ 32"
  shows "le_value (take 4 (encode_record r @ rest)) = crc32c_compute (payload_of r)"
    "unat (le_value (take 4 (drop 4 (encode_record r @ rest))) :: 32 word) = length (payload_of r)"
    "take (length (payload_of r)) (drop 8 (encode_record r @ rest)) = payload_of r"
  using assms by (simp_all add: encode_record_def le_value_full unat_of_nat_32)

lemma parse_payload_of:
  assumes "length (rec_key r) < 2 ^ 32" "length (rec_value r) < 2 ^ 32"
  shows "parse_payload (payload_of r) = Done (if rec_ok r then Some r else None)"
proof -
  have k: "unat (le_value (take 4 (drop 1 (payload_of r))) :: 32 word) = length (rec_key r)"
    and v: "unat (le_value (take 4 (drop 5 (payload_of r))) :: 32 word) = length (rec_value r)"
    using assms by (simp_all add: payload_of_def le_value_full unat_of_nat_32)
  have d: "drop 9 (payload_of r) = rec_key r @ rec_value r" "hd (payload_of r) = rec_type r"
    by (simp_all add: payload_of_def)
  moreover have "drop (9 + length (rec_key r)) (payload_of r) = drop (length (rec_key r)) (drop 9 (payload_of r))"
    by (simp only: drop_drop add.commute)
  then have "drop (9 + length (rec_key r)) (payload_of r) = rec_value r" by (simp add: d)
  ultimately show ?thesis
    unfolding parse_payload_def k v Let_def by (cases r) (auto simp: length_payload rec_ok_def)
qed

lemma read_encode:
  assumes "length (payload_of r) \<le> WAL_BUFFER"
  shows "read_record (encode_record r @ rest) = Done (if rec_ok r then Some (r, length (encode_record r)) else None)"
proof -
  have len: "length (payload_of r) < 2 ^ 32" "length (payload_of r) \<le> 2048" using assms by (simp_all add: WAL_BUFFER_def)
  then have kv: "length (rec_key r) < 2 ^ 32" "length (rec_value r) < 2 ^ 32" by (simp_all add: length_payload)
  note f = encode_fields[OF len(1), of rest]
  have "\<not> length (encode_record r @ rest) < 8" "length (payload_of r) \<le> length (encode_record r @ rest) - 8"
    by (simp_all add: length_encode length_payload)
  then show ?thesis
    unfolding read_record_def Let_def f using len(2)
    by (simp add: parse_payload_of[OF kv] length_encode length_payload)
qed

lemma rec_ok_payload: "rec_ok r \<Longrightarrow> length (payload_of r) \<le> WAL_BUFFER"
  by (simp add: rec_ok_def length_payload WAL_BUFFER_def)

text \<open>What is left of a record that was cut off is not read.\<close>

lemma read_truncated:
  assumes "rec_ok r" "n < length (encode_record r)"
  shows "read_record (take n (encode_record r)) = Done None"
proof (cases "n < 8")
  case False
  have len: "length (payload_of r) < 2 ^ 32" using rec_ok_payload[OF assms(1)] by (simp add: WAL_BUFFER_def)
  have "take 4 (drop 4 (take n (encode_record r))) = take 4 (drop 4 (encode_record r))"
    using False by (simp add: drop_take min_def)
  then have "unat (le_value (take 4 (drop 4 (take n (encode_record r)))) :: 32 word) = length (payload_of r)"
    using encode_fields(2)[OF len, of "[]"] by simp
  moreover have "length (payload_of r) > length (take n (encode_record r)) - 8"
    using assms(2) False by (simp add: length_encode length_payload)
  ultimately show ?thesis by (simp add: read_record_def Let_def)
next
  case True
  then have "length (take n (encode_record r)) < 8" by simp
  then show ?thesis unfolding read_record_def by (simp only: if_True)
qed

definition read_one :: "byte list \<Rightarrow> (wal_record \<times> nat) option" where
  "read_one bs = (case read_record bs of Done x \<Rightarrow> x | _ \<Rightarrow> None)"

interpretation log_record: prefix_codec rec_ok encode_record read_one
  by unfold_locales (simp add: read_one_def read_encode[OF rec_ok_payload])

definition log_of :: "wal_record list \<Rightarrow> byte list" where
  "log_of rs = concat (map encode_record rs)"

lemma replay_log:
  "\<forall>r \<in> set rs. rec_ok r \<Longrightarrow> replay (log_of rs @ rest) = bind_outcome (replay rest) (\<lambda>ts. Done (rs @ ts))"
proof (induction rs)
  case Nil
  then show ?case by (cases "replay rest") (simp_all add: log_of_def)
next
  case (Cons r rs)
  then have "read_record (log_of (r # rs) @ rest) = Done (Some (r, length (encode_record r)))"
    using read_encode[OF rec_ok_payload, of r "log_of rs @ rest"] by (simp add: log_of_def)
  then have "replay (log_of (r # rs) @ rest) = bind_outcome (replay (log_of rs @ rest)) (\<lambda>rs. Done (r # rs))"
    by (subst replay.simps) (simp add: log_of_def)
  then show ?case using Cons by (cases "replay rest") simp_all
qed

text \<open>The number of records that are whole in the first \<open>n\<close> bytes of a log.\<close>

fun whole :: "nat \<Rightarrow> wal_record list \<Rightarrow> nat" where
  "whole n [] = 0"
| "whole n (r # rs) = (if length (encode_record r) \<le> n then Suc (whole (n - length (encode_record r)) rs) else 0)"

lemma replay_prefix:
  "\<forall>r \<in> set rs. rec_ok r \<Longrightarrow> replay (take n (log_of rs)) = Done (take (whole n rs) rs)"
proof (induction rs arbitrary: n)
  case Nil
  then show ?case by (simp add: log_of_def replay.simps[of "[]"] read_record_def)
next
  case (Cons r rs)
  show ?case
  proof (cases "length (encode_record r) \<le> n")
    case True
    then have t: "take n (log_of (r # rs)) = log_of [r] @ take (n - length (encode_record r)) (log_of rs)"
      by (simp add: log_of_def)
    have "\<forall>x \<in> set [r]. rec_ok x" using Cons.prems by simp
    then show ?thesis unfolding t replay_log[OF \<open>\<forall>x \<in> set [r]. rec_ok x\<close>] using Cons True by simp
  next
    case False
    then have "take n (log_of (r # rs)) = take n (encode_record r)" by (simp add: log_of_def)
    then show ?thesis using read_truncated[of r n] Cons.prems False by (simp add: replay.simps[of "take n (encode_record r)"])
  qed
qed

lemma recover_replay:
  "length bs < 2 ^ 32 \<Longrightarrow> wal_recover (wal_open bs) = bind_outcome (replay bs) (\<lambda>rs. Done (int (length rs), rs))"
  using recover_loop_replay[of "length bs" bs] by (simp add: wal_recover_def wal_open_def)

section \<open>Crash recovery\<close>

definition append_all :: "wal_record list \<Rightarrow> wal_writer \<Rightarrow> wal_writer outcome" where
  "append_all rs wal =
     fold (\<lambda>r w. bind_outcome w (\<lambda>w. bind_outcome (wal_append (rec_type r) (rec_key r) (Some (rec_value r)) (length (rec_value r)) w)
                                        (\<lambda>(_, w). Done w))) rs (Done wal)"

lemma append_record:
  "length (payload_of r) \<le> WAL_BUFFER \<Longrightarrow>
   \<exists>w. wal_append (rec_type r) (rec_key r) (Some (rec_value r)) (length (rec_value r)) wal = Done (0, w) \<and>
       wal_bytes w = wal_bytes wal @ encode_record r \<and> record_count w = record_count wal + 1"
  by (simp add: wal_append_def payload_bytes_def Let_def encode_record_def payload_of_def)

lemma append_log:
  "\<forall>r \<in> set rs. length (payload_of r) \<le> WAL_BUFFER \<Longrightarrow>
   \<exists>w. append_all rs wal = Done w \<and> wal_bytes w = wal_bytes wal @ log_of rs"
proof (induction rs arbitrary: wal)
  case (Cons r rs)
  then obtain w where w: "wal_append (rec_type r) (rec_key r) (Some (rec_value r)) (length (rec_value r)) wal = Done (0, w)"
    "wal_bytes w = wal_bytes wal @ encode_record r" using append_record[of r wal] by auto
  have "append_all (r # rs) wal = append_all rs w" by (simp add: append_all_def w)
  with Cons.IH[of w] Cons.prems w(2) show ?case by (auto simp: log_of_def)
qed (simp add: append_all_def log_of_def)

text \<open>
  C27. Records with keys of at most 255 and values of at most 1023 bytes, together below
  \<open>2 ^ 32\<close> bytes of log, are appended without error, and after a crash that leaves any prefix of the file, recovery replays exactly the
  records that are whole in it, in order, and counts them.
\<close>

theorem wal_crash_recovery:
  assumes "\<forall>r \<in> set rs. rec_ok r" "length (log_of rs) < 2 ^ 32"
  shows "\<exists>wal. append_all rs (wal_open []) = Done wal \<and>
    (\<forall>n. wal_recover (wal_open (take n (wal_bytes wal))) = Done (int (length (take (whole n rs) rs)), take (whole n rs) rs))"
proof -
  obtain w where w: "append_all rs (wal_open []) = Done w" "wal_bytes w = log_of rs"
    using append_log[of rs "wal_open []"] assms(1) rec_ok_payload by (auto simp: wal_open_def)
  have "wal_recover (wal_open (take n (log_of rs))) = Done (int (length (take (whole n rs) rs)), take (whole n rs) rs)" for n
    using recover_replay[of "take n (log_of rs)"] replay_prefix[OF assms(1), of n] assms(2) by simp
  with w show ?thesis by auto
qed

definition demo_record :: wal_record where
  "demo_record = \<lparr> rec_type = WAL_RECORD_PUT, rec_key = [1, 2], rec_value = [3] \<rparr>"

theorem wal_crash_recovery_witness:
  "\<exists>wal. append_all [demo_record, demo_record] (wal_open []) = Done wal \<and>
     wal_recover (wal_open (take 25 (wal_bytes wal))) = Done (1, [demo_record])"
proof -
  have "\<forall>r \<in> set [demo_record, demo_record]. rec_ok r" "length (log_of [demo_record, demo_record]) < 2 ^ 32"
    "whole 25 [demo_record, demo_record] = 1"
    by (simp_all add: demo_record_def rec_ok_def log_of_def length_encode)
  from wal_crash_recovery[OF this(1,2)] this(3) show ?thesis by fastforce
qed

text \<open>
  A record whose key is longer than 255 bytes is appended without an error when it fits the
  2048 byte buffer, but recovery stops at it: it and everything appended after it are lost.
\<close>

theorem wal_long_key_hides_rest:
  assumes "\<forall>r \<in> set rs. rec_ok r" "255 < length (rec_key big)" "length (payload_of big) \<le> WAL_BUFFER"
    and "\<forall>r \<in> set later. length (payload_of r) \<le> WAL_BUFFER" "length (log_of (rs @ big # later)) < 2 ^ 32"
  shows "\<exists>wal. append_all (rs @ big # later) (wal_open []) = Done wal \<and>
    wal_recover wal = Done (int (length rs), rs)"
proof -
  have "\<forall>r \<in> set (rs @ big # later). length (payload_of r) \<le> WAL_BUFFER"
    using assms(1,3,4) rec_ok_payload by auto
  from append_log[OF this, of "wal_open []"]
  obtain w where w: "append_all (rs @ big # later) (wal_open []) = Done w" "wal_bytes w = log_of (rs @ big # later)"
    by (auto simp: wal_open_def)
  have split: "log_of (rs @ big # later) = log_of rs @ encode_record big @ log_of later" by (simp add: log_of_def)
  have "read_record (encode_record big @ log_of later) = Done None"
    using read_encode[OF assms(3)] assms(2) by (simp add: rec_ok_def)
  then have "replay (encode_record big @ log_of later) = Done []" by (subst replay.simps) simp
  then have "replay (log_of (rs @ big # later)) = Done rs"
    unfolding split replay_log[OF assms(1)] by simp
  moreover have "wal_recover w = wal_recover (wal_open (wal_bytes w))" by (simp add: wal_recover_def wal_open_def)
  ultimately show ?thesis using w recover_replay[of "log_of (rs @ big # later)"] assms(5) by auto
qed

theorem wal_long_key_hides_rest_witness:
  "\<exists>wal. append_all ([] @ demo_record\<lparr> rec_key := replicate 256 0 \<rparr> # [demo_record]) (wal_open []) = Done wal \<and>
     wal_recover wal = Done (0, [])"
  using wal_long_key_hides_rest[of "[]" "demo_record\<lparr> rec_key := replicate 256 0 \<rparr>" "[demo_record]"]
  by (simp add: length_payload WAL_BUFFER_def demo_record_def log_of_def length_encode)

text \<open>
  Eight zero bytes are a valid record of an empty payload, whose checksum is zero: recovering
  a log that was padded with zeros reads the type and lengths from bytes it never wrote.
\<close>

theorem wal_zero_padding_undefined:
  assumes "\<forall>r \<in> set rs. rec_ok r" "8 \<le> n" "length (log_of rs) + n < 2 ^ 32"
  shows "wal_recover (wal_open (log_of rs @ replicate n 0)) = Undefined"
proof -
  have "take 4 (replicate n 0) = (replicate 4 0 :: byte list)" "take 4 (drop 4 (replicate n 0)) = (replicate 4 0 :: byte list)"
    using assms(2) by (simp_all add: min_def)
  moreover have "le_value (replicate 4 0) = (0 :: 32 word)" by (simp add: numeral_eq_Suc)
  moreover have "crc32c_compute [] = 0" by (simp add: crc32c_compute_def)
  ultimately have "read_record (replicate n 0) = Undefined"
    using assms(2) by (simp add: read_record_def Let_def parse_payload_def)
  then have "replay (replicate n 0) = Undefined" by (subst replay.simps) simp
  then show ?thesis
    using recover_replay[of "log_of rs @ replicate n 0"] assms(3) replay_log[OF assms(1)] by simp
qed

theorem wal_zero_padding_undefined_witness: "wal_recover (wal_open (log_of [demo_record] @ replicate 9 0)) = Undefined"
  by (rule wal_zero_padding_undefined) (simp_all add: rec_ok_def demo_record_def log_of_def length_encode)

end
