(* ===== verification/Lsm_Tree.thy ===== *)
theory Lsm_Tree
  imports Compaction Skiplist Wal_File
begin

text \<open>
  The log structured merge tree of \<open>mini-file-storage\<close> (\<open>lsm_tree.h\<close>, \<open>lsm_tree.c\<close>), which composes
  the skip list, the log file, the tables and compaction. The immutable memtables are a list, the
  oldest first, and a level is the list of its tables. Table files are written and read back at
  once and never opened again, so of the directory only the bytes of the log matter. Creating
  files and the allocations that the code does not check are assumed to succeed; whether the
  allocation of a skip list node succeeds, and its coin flips, are parameters. A loop that does
  not end is \<open>Undefined\<close>.
\<close>

definition LSM_MAX_LEVELS :: nat where [c_consts]: "LSM_MAX_LEVELS = 7"
definition LSM_MEMTABLE_SIZE :: nat where [c_consts]: "LSM_MEMTABLE_SIZE = 64 * 1024"
definition LSM_IMMUTABLE_MAX :: nat where [c_consts]: "LSM_IMMUTABLE_MAX = 4"
definition LSM_LEVEL0_FILE_LIMIT :: nat where [c_consts]: "LSM_LEVEL0_FILE_LIMIT = 4"
definition LSM_LEVEL_SIZE_RATIO :: nat where [c_consts]: "LSM_LEVEL_SIZE_RATIO = 10"

datatype compaction_picker = COMPACTION_LEVELED | COMPACTION_TIERED

record lsm_tree =
  memtable :: skip_list
  immutables :: "skip_list list"
  tree_levels :: "sstable list list"
  tree_wal :: wal_writer
  picker :: compaction_picker
  seqno :: "64 word"
  sstable_counter :: "32 word"

section \<open>Opening\<close>

text \<open>The callback inserts a single zero byte for a deletion record, which \<open>lsm_delete\<close> never writes.\<close>

definition wal_replay_cb :: "bool \<times> bool list \<Rightarrow> wal_record \<Rightarrow> skip_list \<Rightarrow> skip_list outcome" where
  "wal_replay_cb rnd r mem =
     (if rec_type r = WAL_RECORD_PUT
      then bind_outcome (skiplist_insert (fst rnd) (snd rnd) (rec_key r) (rec_value r) mem) (\<lambda>(_, mem). Done mem)
      else if rec_type r = WAL_RECORD_DEL
      then bind_outcome (skiplist_insert (fst rnd) (snd rnd) (rec_key r) [0] mem) (\<lambda>(_, mem). Done mem)
      else Done mem)"

fun replay_into :: "(nat \<Rightarrow> bool \<times> bool list) \<Rightarrow> nat \<Rightarrow> wal_record list \<Rightarrow> skip_list \<Rightarrow> skip_list outcome" where
  "replay_into rnd i [] mem = Done mem"
| "replay_into rnd i (r # rs) mem = bind_outcome (wal_replay_cb (rnd i) r mem) (replay_into rnd (Suc i) rs)"

definition lsm_open :: "(nat \<Rightarrow> bool \<times> bool list) \<Rightarrow> byte list \<Rightarrow> compaction_picker \<Rightarrow> lsm_tree outcome" where
  "lsm_open rnd contents p =
     (let wal = wal_open contents in
      bind_outcome (wal_recover wal) (\<lambda>(_, rs).
      bind_outcome (replay_into rnd 0 rs skiplist_create) (\<lambda>mem.
        Done \<lparr> memtable = mem, immutables = [], tree_levels = replicate LSM_MAX_LEVELS [], tree_wal = wal,
               picker = p, seqno = 0, sstable_counter = 0 \<rparr>)))"

section \<open>Flushing\<close>

definition flush_memtable_to_sstable :: "skip_list \<Rightarrow> lsm_tree \<Rightarrow> (int \<times> lsm_tree) outcome" where
  "flush_memtable_to_sstable mem tree =
     (case iterate mem (skiplist_iterator mem) of
        None \<Rightarrow> Undefined
      | Some kvs \<Rightarrow>
          if kvs = [] then Done (0, tree)
          else
            (let tree = tree\<lparr> sstable_counter := sstable_counter tree + 1 \<rparr> in
             bind_outcome (sstable_write kvs) (\<lambda>contents.
               case sstable_read contents of
                 None \<Rightarrow> Done (0, tree)
               | Some sst \<Rightarrow>
                   Done (0, tree\<lparr> tree_levels := (tree_levels tree)[0 := tree_levels tree ! 0 @ [sst]] \<rparr>))))"

definition freeze_memtable :: "lsm_tree \<Rightarrow> lsm_tree" where
  "freeze_memtable tree =
     tree\<lparr> immutables := immutables tree @ [memtable tree], memtable := skiplist_create \<rparr>"

definition flush_oldest_immutable :: "lsm_tree \<Rightarrow> (int \<times> lsm_tree) outcome" where
  "flush_oldest_immutable tree =
     (case immutables tree of
        [] \<Rightarrow> Done (-1, tree)
      | imm # imms \<Rightarrow>
          bind_outcome (flush_memtable_to_sstable imm tree)
            (\<lambda>(rc, tree). if rc = 0 then Done (0, tree\<lparr> immutables := imms \<rparr>) else Done (rc, tree)))"

text \<open>The loops that flush while there are more than \<open>limit\<close> immutable memtables.\<close>

partial_function (option) flush_while :: "nat \<Rightarrow> lsm_tree \<Rightarrow> lsm_tree outcome option" where
  "flush_while limit tree =
     (if length (immutables tree) > limit
      then (case flush_oldest_immutable tree of
              Done (_, tree) \<Rightarrow> flush_while limit tree
            | Failed \<Rightarrow> Some Failed
            | Undefined \<Rightarrow> Some Undefined)
      else Some (Done tree))"

definition ends :: "'a outcome option \<Rightarrow> 'a outcome" where
  "ends r = (case r of None \<Rightarrow> Undefined | Some x \<Rightarrow> x)"

section \<open>Writing\<close>

definition lsm_put ::
    "bool \<times> bool list \<Rightarrow> byte list \<Rightarrow> byte list \<Rightarrow> lsm_tree \<Rightarrow> (int \<times> lsm_tree) outcome" where
  "lsm_put rnd key val tree =
     bind_outcome (wal_append WAL_RECORD_PUT key (Some val) (length val) (tree_wal tree)) (\<lambda>(_, wal).
     bind_outcome (skiplist_insert (fst rnd) (snd rnd) key val (memtable tree)) (\<lambda>(rc, mem).
       let tree = tree\<lparr> tree_wal := wal, memtable := mem, seqno := seqno tree + 1 \<rparr> in
       if list_size mem \<ge> LSM_MEMTABLE_SIZE div 128
       then bind_outcome (ends (flush_while LSM_IMMUTABLE_MAX (freeze_memtable tree))) (\<lambda>tree. Done (rc, tree))
       else Done (rc, tree)))"

text \<open>The 13 bytes \<open>__TOMBSTONE__\<close>.\<close>

definition TOMBSTONE :: "byte list" where
  "TOMBSTONE = [95, 95, 84, 79, 77, 66, 83, 84, 79, 78, 69, 95, 95]"

definition lsm_delete :: "bool \<times> bool list \<Rightarrow> byte list \<Rightarrow> lsm_tree \<Rightarrow> (int \<times> lsm_tree) outcome" where
  "lsm_delete rnd key tree = lsm_put rnd key TOMBSTONE tree"

section \<open>Reading\<close>

text \<open>The loops that ask one layer after the other and stop at the first that knows the key.\<close>

fun first_hit :: "('l \<Rightarrow> 'r option outcome) \<Rightarrow> 'l list \<Rightarrow> 'r option outcome" where
  "first_hit get [] = Done None"
| "first_hit get (l # ls) = bind_outcome (get l) (\<lambda>r. case r of Some x \<Rightarrow> Done (Some x) | None \<Rightarrow> first_hit get ls)"

definition mem_get :: "byte list \<Rightarrow> skip_list \<Rightarrow> byte list option outcome" where
  "mem_get key l =
     bind_outcome (skiplist_search l key) (\<lambda>r. Done (map_option (\<lambda>p. sk_value (cells l ! p)) r))"

text \<open>The tables of a level that are asked: all of level 0, one of the others.\<close>

definition level_tables :: "byte list \<Rightarrow> nat \<Rightarrow> sstable list \<Rightarrow> sstable list" where
  "level_tables key lv files =
     (if lv = 0 then rev files
      else
        (let lo = bisect (\<lambda>i. prefix_cmp key (last_key (hd (index_block (files ! i)))) > 0) 0 (length files)
         in if lo < length files then [files ! lo] else []))"

definition tables_asked :: "byte list \<Rightarrow> sstable list list \<Rightarrow> sstable list" where
  "tables_asked key lss = concat (map (\<lambda>(lv, files). level_tables key lv files) (enumerate 0 lss))"

text \<open>
  The answer: not found, or the length and, where it was copied, the value. The buffers of the
  caller are assumed to hold \<open>MAX_VALUE_SIZE\<close> bytes and the length.
\<close>

definition answer_mem :: "byte list \<Rightarrow> (byte list option \<times> 32 word) option" where
  "answer_mem v = (if length v = 13 \<and> memcmp 13 v TOMBSTONE = 0 then None else Some (Some v, of_nat (length v)))"

definition answer_table :: "byte list option \<times> 32 word \<Rightarrow> (byte list option \<times> 32 word) option" where
  "answer_table r =
     (case r of
        (Some v, len) \<Rightarrow> if len = 13 \<and> memcmp 13 v TOMBSTONE = 0 then None else Some r
      | (None, len) \<Rightarrow> Some r)"

definition lsm_get :: "lsm_tree \<Rightarrow> byte list \<Rightarrow> (byte list option \<times> 32 word) option outcome" where
  "lsm_get tree key =
     bind_outcome (mem_get key (memtable tree)) (\<lambda>r. case r of Some v \<Rightarrow> Done (answer_mem v) | None \<Rightarrow>
       if length (immutables tree) > LSM_IMMUTABLE_MAX + 1 then Undefined
       else
         bind_outcome (first_hit (mem_get key) (rev (immutables tree))) (\<lambda>r. case r of Some v \<Rightarrow> Done (answer_mem v) | None \<Rightarrow>
           bind_outcome (first_hit (\<lambda>t. sstable_get t key) (tables_asked key (tree_levels tree)))
             (\<lambda>r. Done (Option.bind r answer_table))))"

section \<open>Compacting\<close>

text \<open>The compacted table goes before the first whose first index key is greater.\<close>

definition insert_table :: "sstable \<Rightarrow> sstable list \<Rightarrow> sstable list" where
  "insert_table out files =
     (let first_key = (\<lambda>t. last_key (hd (index_block t)));
          ins = (case find_idx (\<lambda>t. prefix_cmp (first_key out) (first_key t) < 0) files of
                   None \<Rightarrow> length files | Some i \<Rightarrow> i)
      in take ins files @ out # drop ins files)"

definition lsm_compact_level :: "nat \<Rightarrow> lsm_tree \<Rightarrow> (int \<times> lsm_tree) outcome" where
  "lsm_compact_level lv tree =
     (if lv \<ge> LSM_MAX_LEVELS - 1 then Done (-1, tree)
      else if tree_levels tree ! lv = [] then Done (0, tree)
      else
        (let src = tree_levels tree ! lv; dst = tree_levels tree ! (lv + 1);
             tree = tree\<lparr> sstable_counter := sstable_counter tree + 1 \<rparr> in
         bind_outcome (compaction_merge src) (\<lambda>(rc, out).
           case out of
             Some table \<Rightarrow>
               if rc = 0
               then Done (rc, tree\<lparr> tree_levels := (tree_levels tree)[lv + 1 := insert_table table dst, lv := []] \<rparr>)
               else Done (rc, tree)
           | None \<Rightarrow> Done (rc, tree))))"

text \<open>Compact a level while it has more than \<open>limit\<close> tables; the number of rounds is counted.\<close>

partial_function (option) compact_while :: "nat \<Rightarrow> nat \<Rightarrow> lsm_tree \<times> nat \<Rightarrow> (lsm_tree \<times> nat) outcome option" where
  "compact_while lv limit s =
     (if length (tree_levels (fst s) ! lv) > limit
      then (case lsm_compact_level lv (fst s) of
              Done (_, tree) \<Rightarrow> compact_while lv limit (tree, snd s + 1)
            | Failed \<Rightarrow> Some Failed
            | Undefined \<Rightarrow> Some Undefined)
      else Some (Done s))"

definition lsm_maybe_compact :: "lsm_tree \<Rightarrow> (nat \<times> lsm_tree) outcome" where
  "lsm_maybe_compact tree =
     bind_outcome (ends (flush_while 0 tree)) (\<lambda>tree.
       bind_outcome
         (if picker tree = COMPACTION_LEVELED
          then fold (\<lambda>lv r. bind_outcome r (\<lambda>s. ends (compact_while lv (LSM_LEVEL_SIZE_RATIO ^ (lv + 1)) s)))
                 [0..<LSM_MAX_LEVELS - 1] (ends (compact_while 0 LSM_LEVEL0_FILE_LIMIT (tree, 0)))
          else if length (tree_levels tree ! 0) \<ge> 4
          then bind_outcome (lsm_compact_level 0 tree) (\<lambda>(_, tree). Done (tree, 1))
          else Done (tree, 0))
         (\<lambda>(tree, n). Done (n, tree)))"

text \<open>What is left on disk and read again is the log.\<close>

definition lsm_close :: "lsm_tree \<Rightarrow> byte list outcome" where
  "lsm_close tree =
     bind_outcome (ends (flush_while 0 tree)) (\<lambda>tree.
     bind_outcome (ends (flush_while 0 (freeze_memtable tree))) (\<lambda>tree.
     bind_outcome (lsm_maybe_compact tree) (\<lambda>(_, tree). Done (wal_bytes (tree_wal tree)))))"

section \<open>Layers\<close>

text \<open>
  A layer answers for a list of entries; asking a list of layers in turn is looking up the
  concatenation of their entries. The memtables and the tables are both such layers.
\<close>

locale layered_lookup =
  fixes get :: "byte list \<Rightarrow> 'l \<Rightarrow> 'r option outcome" and holds :: "'l \<Rightarrow> kvs \<Rightarrow> bool" and view :: "byte list \<Rightarrow> 'r"
  assumes get_ok: "holds l es \<Longrightarrow> get key l = Done (map_option view (map_of es key))"
begin

lemma first_hit_ok:
  "list_all2 holds ls ess \<Longrightarrow> first_hit (get key) ls = Done (map_option view (map_of (concat ess) key))"
proof (induction ls ess rule: list_all2_induct)
  case (Cons l ls es ess)
  then show ?case using get_ok[of l es key] by (cases "map_of es key") (simp_all add: map_add_def)
qed simp

end

definition layer_ok :: "kvs \<Rightarrow> bool" where
  "layer_ok es \<longleftrightarrow> sorted_wrt (<) (map fst es) \<and>
     (\<forall>(k, v) \<in> set es. k \<noteq> [] \<and> length k \<le> 255 \<and> length v \<le> 1023) \<and> length es \<le> 2 ^ 20"

definition mem_holds :: "skip_list \<Rightarrow> kvs \<Rightarrow> bool" where
  "mem_holds l es \<longleftrightarrow> wf_skip l \<and> skip_entries l = es \<and> layer_ok es"

definition table_holds :: "sstable \<Rightarrow> kvs \<Rightarrow> bool" where
  "table_holds t es \<longleftrightarrow> layer_ok es \<and> (\<exists>n. t = table_of n es)"

lemma layer_small: "layer_ok es \<Longrightarrow> small es"
  by (auto simp: layer_ok_def small_def MAX_KEY_SIZE_def MAX_VALUE_SIZE_def)

lemma mem_get_entries:
  assumes "wf_skip l"
  shows "mem_get key l = Done (map_of (skip_entries l) key)"
proof -
  obtain ps where l: "levels l ps" using assms by (auto simp: wf_skip_def)
  then show ?thesis using search_levels[OF l, of key] by (auto simp: mem_get_def skip_entries_levels[OF l])
qed

interpretation mem_layer: layered_lookup mem_get mem_holds "\<lambda>v. v"
  by unfold_locales (auto simp: mem_get_entries mem_holds_def option.map_ident)

interpretation table_layer: layered_lookup "\<lambda>key t. sstable_get t key" table_holds "\<lambda>v. (Some v, of_nat (length v))"
proof unfold_locales
  fix t es key assume "table_holds t es"
  then obtain n where t: "t = table_of n es" "layer_ok es" by (auto simp: table_holds_def)
  then show "sstable_get t key = Done (map_option (\<lambda>v. (Some v, of_nat (length v))) (map_of es key))"
    using get_table[OF layer_small] by (simp add: layer_ok_def)
qed

lemma iterate_entries: "wf_skip l \<Longrightarrow> iterate l (skiplist_iterator l) = Some (skip_entries l)"
  unfolding wf_skip_def by (auto simp: skip_entries_levels iterate_levels skiplist_iterator_def)

lemma wf_skip_entries:
  assumes "wf_skip l"
  shows "sorted_wrt (<) (map fst (skip_entries l))" "list_size l = length (skip_entries l)"
proof -
  obtain ps where l: "levels l ps" using assms by (auto simp: wf_skip_def)
  then show "sorted_wrt (<) (map fst (skip_entries l))" "list_size l = length (skip_entries l)"
    unfolding skip_entries_levels[OF l] by (auto simp: entries_of_def levels_def comp_def)
qed

lemma create_holds: "mem_holds skiplist_create []"
proof -
  note l = create_levels
  have "skip_entries skiplist_create = []" by (simp add: skip_entries_levels[OF l])
  then show ?thesis using l by (auto simp: mem_holds_def wf_skip_def layer_ok_def)
qed

section \<open>The map a tree stands for\<close>

text \<open>
  The layers of a tree with tables on level 0 only, the newest first, and the map it stands for:
  the entry of the first layer that knows a key, with deletions as stored tombstones.
\<close>

definition lsm_layers :: "lsm_tree \<Rightarrow> kvs list \<Rightarrow> kvs list" where
  "lsm_layers t tabs = map skip_entries (memtable t # rev (immutables t)) @ rev tabs"

definition lsm_rel :: "lsm_tree \<Rightarrow> (byte list \<rightharpoonup> byte list) \<Rightarrow> bool" where
  "lsm_rel t m \<longleftrightarrow>
     (\<forall>l \<in> set (memtable t # immutables t). mem_holds l (skip_entries l)) \<and>
     (\<exists>files tabs. tree_levels t = files # replicate (LSM_MAX_LEVELS - 1) [] \<and> list_all2 table_holds files tabs \<and>
        m = map_of (concat (lsm_layers t tabs)))"

lemma layer_of_tables: "tables_asked key (files # replicate n []) = rev files"
proof -
  have "concat (map (\<lambda>(lv, fs). level_tables key lv fs) (enumerate m (replicate n []))) = []" if "0 < m" for m
    using that by (induction n arbitrary: m) (simp_all add: level_tables_def bisect.simps del: concat_eq_Nil_conv)
  from this[of 1] have "concat (map (\<lambda>(lv, fs). level_tables key lv fs) (enumerate (Suc 0) (replicate n []))) = []" by simp
  moreover have "level_tables key 0 files = rev files" by (simp add: level_tables_def)
  ultimately show ?thesis by (simp add: tables_asked_def del: concat_eq_Nil_conv)
qed

lemma memcmp_tombstone: "length v = 13 \<and> memcmp 13 v TOMBSTONE = 0 \<longleftrightarrow> v = TOMBSTONE"
proof -
  have "length TOMBSTONE = 13" by (simp add: TOMBSTONE_def)
  then show ?thesis using key_cmp_iff(2)[of v TOMBSTONE] by (auto simp: key_cmp_def simp del: key_cmp_iff(2))
qed

definition visible :: "byte list \<Rightarrow> byte list option" where
  "visible v = (if v = TOMBSTONE then None else Some v)"

definition result_of :: "byte list \<Rightarrow> byte list option \<times> 32 word" where
  "result_of v = (Some v, of_nat (length v))"

lemma answer_mem_visible: "answer_mem v = map_option result_of (visible v)"
  by (simp add: answer_mem_def visible_def result_of_def memcmp_tombstone)

lemma answer_table_visible: "length v \<le> 1023 \<Longrightarrow> answer_table (Some v, of_nat (length v)) = map_option result_of (visible v)"
proof -
  assume "length v \<le> 1023"
  then have "(of_nat (length v) :: 32 word) = 13 \<longleftrightarrow> length v = 13"
    using unat_small[of "length v"] by (auto simp: word_unat_eq_iff)
  then show ?thesis by (simp add: answer_table_def visible_def result_of_def memcmp_tombstone)
qed

lemma layers_bounded:
  assumes "list_all2 table_holds files tabs" "map_of (concat (rev tabs)) key = Some v"
  shows "length v \<le> 1023"
proof -
  have "(key, v) \<in> set (concat (rev tabs))" using assms(2) by (rule map_of_SomeD)
  then obtain es where "es \<in> set tabs" "(key, v) \<in> set es" by auto
  moreover then have "layer_ok es" using assms(1) by (auto simp: list_all2_conv_all_nth in_set_conv_nth table_holds_def)
  ultimately show ?thesis by (auto simp: layer_ok_def)
qed

lemma lsm_get_rel:
  assumes "lsm_rel t m" "length (immutables t) \<le> 5"
  shows "lsm_get t key = Done (map_option result_of (Option.bind (m key) visible))"
proof -
  from assms(1) obtain files tabs where f: "tree_levels t = files # replicate (LSM_MAX_LEVELS - 1) []"
    "list_all2 table_holds files tabs" "m = map_of (concat (lsm_layers t tabs))"
    and mem: "\<forall>l \<in> set (memtable t # immutables t). mem_holds l (skip_entries l)"
    by (auto simp: lsm_rel_def)
  have "list_all2 mem_holds (rev (immutables t)) (map skip_entries (rev (immutables t)))"
    using mem by (auto simp: list_all2_conv_all_nth rev_nth)
  note i = mem_layer.first_hit_ok[OF this, of key]
  have "list_all2 table_holds (rev files) (rev tabs)" using f(2) by simp
  note s = table_layer.first_hit_ok[OF this, of key]
  have w: "mem_get key (memtable t) = Done (map_of (skip_entries (memtable t)) key)"
    using mem mem_get_entries by (simp add: mem_holds_def)
  let ?m1 = "map_of (skip_entries (memtable t)) key" and ?m2 = "map_of (concat (map skip_entries (rev (immutables t)))) key"
    and ?m3 = "map_of (concat (rev tabs)) key"
  have m: "m key = (case ?m1 of Some v \<Rightarrow> Some v | None \<Rightarrow> case ?m2 of Some v \<Rightarrow> Some v | None \<Rightarrow> ?m3)"
    unfolding f(3) lsm_layers_def by (simp add: map_add_def split: option.split)
  have len: "length v \<le> 1023" if "?m3 = Some v" for v using layers_bounded[OF f(2) that] .
  show ?thesis
    using assms(2) i s w len unfolding lsm_get_def f(1) layer_of_tables m LSM_IMMUTABLE_MAX_def
    by (cases ?m1; cases ?m2; cases ?m3) (simp_all add: answer_mem_visible answer_table_visible option.map_ident)
qed

section \<open>What the operations do to the map\<close>

lemma upd_sorted_set: "set (upd_sorted k v xs) \<subseteq> insert (k, v) (set xs)"
  by (induction k v xs rule: upd_sorted.induct) auto

lemma upd_sorted_length: "length (upd_sorted k v xs) \<le> Suc (length xs)"
  by (induction k v xs rule: upd_sorted.induct) auto

lemma layer_ok_upd:
  assumes "layer_ok es" "length es < 2 ^ 20" "k \<noteq> []" "length k \<le> 255" "length v \<le> 1023"
  shows "layer_ok (upd_sorted k v es)"
proof -
  have "length (upd_sorted k v es) \<le> 2 ^ 20" using upd_sorted_length[of k v es] assms(2) by simp
  moreover have "\<forall>(k, v) \<in> set (upd_sorted k v es). k \<noteq> [] \<and> length k \<le> 255 \<and> length v \<le> 1023"
    using assms upd_sorted_set[of k v es] by (fastforce simp: layer_ok_def)
  ultimately show ?thesis using assms(1) upd_sorted_sorted by (simp add: layer_ok_def)
qed

lemma freeze_rel: "lsm_rel t m \<Longrightarrow> lsm_rel (freeze_memtable t) m"
  using create_holds unfolding lsm_rel_def
  by (auto simp: freeze_memtable_def lsm_layers_def mem_holds_def)

text \<open>What flushing leaves alone.\<close>

definition same_front :: "lsm_tree \<Rightarrow> lsm_tree \<Rightarrow> bool" where
  "same_front t t' \<longleftrightarrow> memtable t' = memtable t \<and> tree_wal t' = tree_wal t \<and> picker t' = picker t"

lemma flush_oldest_rel:
  assumes rel: "lsm_rel t m" and imm: "immutables t = l # ls"
  shows "\<exists>t'. flush_oldest_immutable t = Done (0, t') \<and> lsm_rel t' m \<and> immutables t' = ls \<and> same_front t t'"
proof -
  from rel obtain files tabs where f: "tree_levels t = files # replicate (LSM_MAX_LEVELS - 1) []"
    "list_all2 table_holds files tabs" "m = map_of (concat (lsm_layers t tabs))"
    and mem: "\<forall>l \<in> set (memtable t # immutables t). mem_holds l (skip_entries l)"
    by (auto simp: lsm_rel_def)
  then have l: "wf_skip l" "layer_ok (skip_entries l)" using imm by (simp_all add: mem_holds_def)
  show ?thesis
  proof (cases "skip_entries l = []")
    case True
    have "m = map_of (concat (lsm_layers (t\<lparr> immutables := ls \<rparr>) tabs))" using True f(3) imm by (simp add: lsm_layers_def)
    then have "lsm_rel (t\<lparr> immutables := ls \<rparr>) m" unfolding lsm_rel_def using f(1,2) mem imm by auto
    then show ?thesis using True imm iterate_entries[OF l(1)]
      by (simp add: flush_oldest_immutable_def flush_memtable_to_sstable_def same_front_def)
  next
    case False
    let ?es = "skip_entries l"
    obtain sst where sst: "sstable_write ?es = Done sst" "sstable_read sst = Some (table_of (length sst) ?es)"
      using write_read[OF layer_small[OF l(2)]] l(2) by (auto simp: layer_ok_def)
    let ?tab = "table_of (length sst) ?es"
    define t' where "t' = t\<lparr> sstable_counter := sstable_counter t + 1,
      tree_levels := (files @ [?tab]) # replicate (LSM_MAX_LEVELS - 1) [], immutables := ls \<rparr>"
    have "flush_oldest_immutable t = Done (0, t')"
      using False imm iterate_entries[OF l(1)] sst f(1)
      by (simp add: flush_oldest_immutable_def flush_memtable_to_sstable_def t'_def)
    moreover have "list_all2 table_holds (files @ [?tab]) (tabs @ [?es])"
      using f(2) l(2) by (auto simp: list_all2_append table_holds_def list_all2_lengthD)
    moreover have "m = map_of (concat (lsm_layers t' (tabs @ [?es])))" using f(3) imm by (simp add: lsm_layers_def t'_def)
    ultimately have "flush_oldest_immutable t = Done (0, t') \<and> lsm_rel t' m"
      unfolding lsm_rel_def using mem imm by (auto simp: t'_def)
    then show ?thesis by (auto simp: t'_def same_front_def)
  qed
qed

lemma flush_while_rel:
  assumes "lsm_rel t m"
  shows "\<exists>t'. flush_while limit t = Some (Done t') \<and> lsm_rel t' m \<and> length (immutables t') \<le> limit \<and> same_front t t'"
  using assms
proof (induction "length (immutables t)" arbitrary: t)
  case 0
  then show ?case by (subst flush_while.simps) (auto simp: same_front_def)
next
  case (Suc n)
  show ?case
  proof (cases "length (immutables t) > limit")
    case True
    from Suc.hyps(2) obtain l ls where "immutables t = l # ls" by (metis length_Suc_conv)
    with flush_oldest_rel[OF Suc.prems this] Suc.hyps(2) obtain t' where
      t': "flush_oldest_immutable t = Done (0, t')" "lsm_rel t' m" "n = length (immutables t')" "same_front t t'" by auto
    from Suc.hyps(1)[OF t'(3,2)] obtain t'' where "flush_while limit t' = Some (Done t'')" "lsm_rel t'' m"
      "length (immutables t'') \<le> limit" "same_front t' t''" by blast
    with True t' show ?thesis by (subst flush_while.simps) (auto simp: same_front_def)
  next
    case False
    then show ?thesis using Suc.prems by (subst flush_while.simps) (auto simp: same_front_def)
  qed
qed

text \<open>The states between operations: few immutable memtables, and room in the memtable.\<close>

definition lsm_ok :: "lsm_tree \<Rightarrow> (byte list \<rightharpoonup> byte list) \<Rightarrow> bool" where
  "lsm_ok t m \<longleftrightarrow> lsm_rel t m \<and> length (immutables t) \<le> LSM_IMMUTABLE_MAX \<and> list_size (memtable t) < 2 ^ 20"

definition put_record :: "byte list \<Rightarrow> byte list \<Rightarrow> wal_record" where
  "put_record key val = \<lparr> rec_type = WAL_RECORD_PUT, rec_key = key, rec_value = val \<rparr>"

lemma append_put:
  assumes "length key \<le> 255" "length val \<le> 1023"
  shows "\<exists>w. wal_append WAL_RECORD_PUT key (Some val) (length val) wal = Done (0, w) \<and>
    wal_bytes w = wal_bytes wal @ encode_record (put_record key val)"
  using append_record[OF rec_ok_payload, of "put_record key val" wal] assms by (auto simp: put_record_def rec_ok_def)

lemma lsm_put_ok:
  assumes "lsm_ok t m" "key \<noteq> []" "length key \<le> 255" "length val \<le> 1023"
  shows "\<exists>t'. lsm_put (True, coins) key val t = Done (0, t') \<and> lsm_ok t' (m(key \<mapsto> val)) \<and>
    wal_bytes (tree_wal t') = wal_bytes (tree_wal t) @ encode_record (put_record key val)"
proof -
  obtain w where w: "wal_append WAL_RECORD_PUT key (Some val) (length val) (tree_wal t) = Done (0, w)"
    "wal_bytes w = wal_bytes (tree_wal t) @ encode_record (put_record key val)" using append_put assms(3,4) by blast
  have rel: "lsm_rel t m" and l: "wf_skip (memtable t)" "layer_ok (skip_entries (memtable t))"
    using assms(1) by (auto simp: lsm_ok_def lsm_rel_def mem_holds_def)
  obtain l' where l': "skiplist_insert True coins key val (memtable t) = Done (0, l')" "wf_skip l'"
    "skip_entries l' = upd_sorted key val (skip_entries (memtable t))" using skip_insert_ok[OF l(1) assms(2-4)] by blast
  define t1 where "t1 = t\<lparr> tree_wal := w, memtable := l', seqno := seqno t + 1 \<rparr>"
  have "layer_ok (skip_entries l')"
    using l' l assms wf_skip_entries(2)[OF l(1)] by (auto simp: lsm_ok_def intro!: layer_ok_upd)
  then have r1: "lsm_rel t1 (m(key \<mapsto> val))"
    using rel l' wf_skip_entries(1)[OF l(1)] unfolding lsm_rel_def
    by (auto simp: t1_def mem_holds_def lsm_layers_def upd_sorted_map)
  show ?thesis
  proof (cases "list_size l' \<ge> LSM_MEMTABLE_SIZE div 128")
    case True
    from flush_while_rel[OF freeze_rel[OF r1]] obtain t2 where t2: "flush_while LSM_IMMUTABLE_MAX (freeze_memtable t1) = Some (Done t2)"
      "lsm_rel t2 (m(key \<mapsto> val))" "length (immutables t2) \<le> LSM_IMMUTABLE_MAX" "same_front (freeze_memtable t1) t2" by blast
    then show ?thesis using True w l'(1)
      by (auto simp: lsm_put_def ends_def lsm_ok_def same_front_def freeze_memtable_def skiplist_create_def t1_def)
  next
    case False
    then have "list_size l' < 2 ^ 20" by (simp add: LSM_MEMTABLE_SIZE_def)
    then show ?thesis using False w l'(1) r1 assms(1) by (auto simp: lsm_put_def lsm_ok_def t1_def)
  qed
qed

section \<open>Runs\<close>

text \<open>The operations of a client, with the coin flips of the insertions; every one must return 0.\<close>

datatype lsm_op = Put "bool list" "byte list" "byte list" | Delete "bool list" "byte list"

fun lsm_step :: "lsm_op \<Rightarrow> lsm_tree \<Rightarrow> lsm_tree outcome" where
  "lsm_step (Put coins k v) t = bind_outcome (lsm_put (True, coins) k v t) (\<lambda>(rc, t). if rc = 0 then Done t else Failed)"
| "lsm_step (Delete coins k) t = bind_outcome (lsm_delete (True, coins) k t) (\<lambda>(rc, t). if rc = 0 then Done t else Failed)"

fun lsm_run :: "lsm_op list \<Rightarrow> lsm_tree \<Rightarrow> lsm_tree outcome" where
  "lsm_run [] t = Done t"
| "lsm_run (op # ops) t = bind_outcome (lsm_step op t) (lsm_run ops)"

text \<open>Keys and values that fit, and values that are not taken for a deletion.\<close>

fun op_ok :: "lsm_op \<Rightarrow> bool" where
  "op_ok (Put _ k v) \<longleftrightarrow> k \<noteq> [] \<and> length k \<le> 255 \<and> length v \<le> 1023 \<and> v \<noteq> TOMBSTONE"
| "op_ok (Delete _ k) \<longleftrightarrow> k \<noteq> [] \<and> length k \<le> 255"

text \<open>What the client means: a finite map.\<close>

fun map_step :: "lsm_op \<Rightarrow> (byte list \<rightharpoonup> byte list) \<Rightarrow> byte list \<rightharpoonup> byte list" where
  "map_step (Put _ k v) m = m(k \<mapsto> v)"
| "map_step (Delete _ k) m = m(k := None)"

definition map_after :: "lsm_op list \<Rightarrow> byte list \<rightharpoonup> byte list" where
  "map_after ops = fold map_step ops Map.empty"

fun op_entry :: "lsm_op \<Rightarrow> byte list \<times> byte list" where
  "op_entry (Put _ k v) = (k, v)"
| "op_entry (Delete _ k) = (k, TOMBSTONE)"

definition op_record :: "lsm_op \<Rightarrow> wal_record" where
  "op_record op = put_record (fst (op_entry op)) (snd (op_entry op))"

definition stored_step :: "lsm_op \<Rightarrow> (byte list \<rightharpoonup> byte list) \<Rightarrow> byte list \<rightharpoonup> byte list" where
  "stored_step op m = m(fst (op_entry op) \<mapsto> snd (op_entry op))"

lemma op_ok_entry: "op_ok op \<Longrightarrow> fst (op_entry op) \<noteq> [] \<and> length (fst (op_entry op)) \<le> 255 \<and> length (snd (op_entry op)) \<le> 1023"
  by (cases op) (simp_all add: TOMBSTONE_def)

lemma op_ok_record: "op_ok op \<Longrightarrow> rec_ok (op_record op)"
  using op_ok_entry[of op] by (simp add: rec_ok_def op_record_def put_record_def)

text \<open>Reading through the tombstones turns the stored map into the one the client means.\<close>

lemma stored_visible:
  "\<forall>op \<in> set ops. op_ok op \<Longrightarrow>
   Option.bind (fold stored_step ops m k) visible = fold map_step ops (\<lambda>k. Option.bind (m k) visible) k"
proof (induction ops arbitrary: m)
  case (Cons op ops)
  have "(\<lambda>k. Option.bind (stored_step op m k) visible) = map_step op (\<lambda>k. Option.bind (m k) visible)"
    using Cons.prems by (cases op) (auto simp: stored_step_def visible_def fun_eq_iff)
  with Cons show ?case by simp
qed simp

lemma lsm_run_ok:
  assumes "lsm_ok t m" "\<forall>op \<in> set ops. op_ok op"
  shows "\<exists>t'. lsm_run ops t = Done t' \<and> lsm_ok t' (fold stored_step ops m) \<and>
    wal_bytes (tree_wal t') = wal_bytes (tree_wal t) @ log_of (map op_record ops)"
  using assms
proof (induction ops arbitrary: t m)
  case Nil
  then show ?case by (simp add: log_of_def)
next
  case (Cons op ops)
  from Cons.prems have e: "fst (op_entry op) \<noteq> []" "length (fst (op_entry op)) \<le> 255" "length (snd (op_entry op)) \<le> 1023"
    using op_ok_entry by auto
  obtain t1 where t1: "lsm_step op t = Done t1" "lsm_ok t1 (stored_step op m)"
    "wal_bytes (tree_wal t1) = wal_bytes (tree_wal t) @ encode_record (op_record op)"
  proof (cases op)
    case (Put coins k v)
    then show thesis using that lsm_put_ok[OF Cons.prems(1) e, of coins] by (auto simp: stored_step_def op_record_def)
  next
    case (Delete coins k)
    then show thesis using that lsm_put_ok[OF Cons.prems(1) e, of coins]
      by (auto simp: stored_step_def op_record_def lsm_delete_def)
  qed
  from Cons.IH[OF t1(2)] Cons.prems(2) t1 show ?case by (auto simp: log_of_def)
qed

lemma lsm_ok_get:
  assumes "lsm_ok t (fold stored_step ops Map.empty)" "\<forall>op \<in> set ops. op_ok op"
  shows "lsm_get t key = Done (map_option result_of (map_after ops key))"
  using lsm_get_rel[of t "fold stored_step ops Map.empty" key] assms stored_visible[OF assms(2), of Map.empty key]
  by (simp add: lsm_ok_def map_after_def LSM_IMMUTABLE_MAX_def)

section \<open>Opening\<close>

lemma replay_into_ok:
  assumes "\<forall>op \<in> set ops. op_ok op" "\<forall>i. fst (rnd i)" "mem_holds l es" "length es + length ops \<le> 2 ^ 20"
  shows "\<exists>l' es'. replay_into rnd i (map op_record ops) l = Done l' \<and> mem_holds l' es' \<and>
    map_of es' = fold stored_step ops (map_of es) \<and> length es' \<le> length es + length ops"
  using assms
proof (induction ops arbitrary: i l es)
  case Nil
  then show ?case by auto
next
  case (Cons op ops)
  let ?k = "fst (op_entry op)" and ?v = "snd (op_entry op)"
  have e: "?k \<noteq> []" "length ?k \<le> 255" "length ?v \<le> 1023" using Cons.prems(1) op_ok_entry by auto
  have l: "wf_skip l" "skip_entries l = es" "layer_ok es" using Cons.prems(3) by (simp_all add: mem_holds_def)
  from skip_insert_ok[OF l(1) e, of "snd (rnd i)"] obtain l1 where
    l1: "skiplist_insert True (snd (rnd i)) ?k ?v l = Done (0, l1)" "wf_skip l1" "skip_entries l1 = upd_sorted ?k ?v es"
    using l(2) by auto
  have h: "mem_holds l1 (upd_sorted ?k ?v es)"
    using l1 l(3) e Cons.prems(4) by (auto simp: mem_holds_def intro!: layer_ok_upd)
  have "sorted_wrt (<) (map fst es)" using l(3) by (simp add: layer_ok_def)
  then have m: "map_of (upd_sorted ?k ?v es) = stored_step op (map_of es)" by (simp add: upd_sorted_map stored_step_def)
  have "wal_replay_cb (rnd i) (op_record op) l = Done l1"
    using l1(1) Cons.prems(2) by (simp add: wal_replay_cb_def op_record_def put_record_def)
  moreover have "length (upd_sorted ?k ?v es) \<le> Suc (length es)" by (rule upd_sorted_length)
  ultimately show ?case using Cons.IH[OF _ Cons.prems(2) h, of "Suc i"] Cons.prems(1,4) m by fastforce
qed

lemma lsm_open_ok:
  assumes "replay bytes = Done (map op_record ops)" "length bytes < 2 ^ 32" "length ops < 2 ^ 20"
    and "\<forall>op \<in> set ops. op_ok op" "\<forall>i. fst (rnd i)"
  shows "\<exists>t. lsm_open rnd bytes p = Done t \<and> lsm_ok t (fold stored_step ops Map.empty) \<and> wal_bytes (tree_wal t) = bytes"
proof -
  from replay_into_ok[OF assms(4,5) create_holds, of 0] assms(3) obtain l es where
    l: "replay_into rnd 0 (map op_record ops) skiplist_create = Done l" "mem_holds l es"
    "map_of es = fold stored_step ops Map.empty" "length es \<le> length ops" by auto
  then have w: "wf_skip l" "skip_entries l = es" by (simp_all add: mem_holds_def)
  then have size: "list_size l < 2 ^ 20" using wf_skip_entries(2)[of l] l(4) assms(3) by simp
  define t where "t = \<lparr> memtable = l, immutables = [], tree_levels = replicate LSM_MAX_LEVELS [], tree_wal = wal_open bytes,
    picker = p, seqno = 0, sstable_counter = 0 \<rparr>"
  have "lsm_open rnd bytes p = Done t" using recover_replay[OF assms(2)] assms(1) l(1) by (simp add: lsm_open_def t_def)
  moreover have lv: "tree_levels t = [] # replicate (LSM_MAX_LEVELS - 1) []" by (simp add: t_def LSM_MAX_LEVELS_def numeral_eq_Suc)
  have "map_of (concat (lsm_layers t [])) = fold stored_step ops Map.empty" using l(3) w(2) by (simp add: lsm_layers_def t_def)
  then have "lsm_rel t (fold stored_step ops Map.empty)"
    unfolding lsm_rel_def lv using l(2) w(2) by (intro conjI exI[of _ "[]"]) (simp_all add: t_def)
  ultimately show ?thesis using size by (simp add: lsm_ok_def t_def wal_open_def)
qed

lemma log_length: "\<forall>op \<in> set ops. op_ok op \<Longrightarrow> length (log_of (map op_record ops)) \<le> 1295 * length ops"
proof (induction ops)
  case (Cons op ops)
  then have "length (encode_record (op_record op)) \<le> 1295"
    using op_ok_record[of op] by (simp add: length_encode rec_ok_def)
  with Cons show ?case by (simp add: log_of_def)
qed (simp add: log_of_def)

lemma lsm_open_empty:
  "\<exists>t. lsm_open rnd [] p = Done t \<and> lsm_ok t Map.empty \<and> wal_bytes (tree_wal t) = []"
proof -
  have "replay [] = Done []" by (simp add: replay.simps[of "[]"] read_record_def)
  then have "lsm_open rnd [] p = lsm_open (\<lambda>_. (True, [])) [] p"
    by (simp add: lsm_open_def recover_replay[of "[]"])
  moreover have "\<exists>t. lsm_open (\<lambda>_. (True, [])) [] p = Done t \<and> lsm_ok t (fold stored_step [] Map.empty) \<and> wal_bytes (tree_wal t) = []"
    using \<open>replay [] = Done []\<close> by (intro lsm_open_ok) simp_all
  ultimately show ?thesis by simp
qed

text \<open>
  C32. The tree is a map: opened on an empty directory, it carries out any sequence of puts and
  deletions of non-empty keys of at most 255 and values of at most 1023 bytes other than the marker
  \<open>__TOMBSTONE__\<close> of a deletion, allocations succeeding, each returning 0, and then returns for every key the value last put, or nothing when it was never put or has
  been deleted since; whether it is found in the memtable, in one that is immutable, or in a table.
\<close>

theorem lsm_refines_map:
  assumes "\<forall>op \<in> set ops. op_ok op"
  shows "\<exists>t0 t. lsm_open rnd [] p = Done t0 \<and> lsm_run ops t0 = Done t \<and>
    (\<forall>key. lsm_get t key = Done (map_option result_of (map_after ops key)))"
proof -
  from lsm_open_empty obtain t0 where t0: "lsm_open rnd [] p = Done t0" "lsm_ok t0 Map.empty" by blast
  from lsm_run_ok[OF t0(2) assms] obtain t where "lsm_run ops t0 = Done t" "lsm_ok t (fold stored_step ops Map.empty)" by blast
  then show ?thesis using t0(1) lsm_ok_get[OF _ assms] by blast
qed

theorem lsm_refines_map_witness:
  "\<exists>t0 t. lsm_open (\<lambda>_. (False, [])) [] COMPACTION_LEVELED = Done t0 \<and>
     lsm_run [Put [] [1] [7], Put [True] [2] [], Delete [] [1]] t0 = Done t \<and>
     lsm_get t [1] = Done None \<and> lsm_get t [2] = Done (Some (Some [], 0))"
proof -
  have "\<forall>op \<in> set [Put [] [1] [7], Put [True] [2] [], Delete [] [1]]. op_ok op" by (simp add: TOMBSTONE_def)
  from lsm_refines_map[OF this, of "(\<lambda>_. (False, []))" COMPACTION_LEVELED] obtain t0 t where
    "lsm_open (\<lambda>_. (False, [])) [] COMPACTION_LEVELED = Done t0" "lsm_run [Put [] [1] [7], Put [True] [2] [], Delete [] [1]] t0 = Done t"
    "\<And>key. lsm_get t key = Done (map_option result_of (map_after [Put [] [1] [7], Put [True] [2] [], Delete [] [1]] key))" by blast
  moreover from this(3) have "lsm_get t [1] = Done None" "lsm_get t [2] = Done (Some (Some [], 0))"
    by (simp_all add: map_after_def result_of_def)
  ultimately show ?thesis by blast
qed

text \<open>
  C33. The log makes the tree durable: after fewer than \<open>2 ^ 20\<close> operations with the limits of the
  property before, opening the tree again on the log as a crash leaves it, cut off at any byte, when
  all allocations succeed, gives a tree that answers every key as the operations
  whose records are whole in it do; on the whole log it answers as the tree before.
\<close>

theorem lsm_crash_recovery:
  assumes "\<forall>op \<in> set ops. op_ok op" "length ops < 2 ^ 20" "\<forall>i. fst (rnd' i)"
  shows "\<exists>t0 t. lsm_open rnd [] p = Done t0 \<and> lsm_run ops t0 = Done t \<and>
    (\<forall>n. \<exists>t'. lsm_open rnd' (take n (wal_bytes (tree_wal t))) p' = Done t' \<and>
       (\<forall>key. lsm_get t' key = Done (map_option result_of (map_after (take (whole n (map op_record ops)) ops) key)))) \<and>
    (\<exists>t'. lsm_open rnd' (wal_bytes (tree_wal t)) p' = Done t' \<and> lsm_get t' = lsm_get t)"
proof -
  from lsm_open_empty obtain t0 where t0: "lsm_open rnd [] p = Done t0" "lsm_ok t0 Map.empty"
    "wal_bytes (tree_wal t0) = []" by blast
  from lsm_run_ok[OF t0(2) assms(1)] t0(3) obtain t where t: "lsm_run ops t0 = Done t"
    "lsm_ok t (fold stored_step ops Map.empty)" "wal_bytes (tree_wal t) = log_of (map op_record ops)" by auto
  have ok: "\<forall>r \<in> set (map op_record ops). rec_ok r" using assms(1) op_ok_record by auto
  have size: "length (log_of (map op_record ops)) < 2 ^ 32" using log_length[OF assms(1)] assms(2) by simp
  have cut: "\<exists>t'. lsm_open rnd' (take n (log_of (map op_record ops))) p' = Done t' \<and>
      (\<forall>key. lsm_get t' key = Done (map_option result_of (map_after (take (whole n (map op_record ops)) ops) key)))" for n
  proof -
    let ?j = "whole n (map op_record ops)"
    have op: "\<forall>op \<in> set (take ?j ops). op_ok op" using assms(1) by (auto dest: in_set_takeD)
    have "replay (take n (log_of (map op_record ops))) = Done (map op_record (take ?j ops))"
      using replay_prefix[OF ok, of n] by (simp add: take_map)
    moreover have "length (take n (log_of (map op_record ops))) < 2 ^ 32" "length (take ?j ops) < 2 ^ 20"
      using size assms(2) by (simp_all add: min.strict_coboundedI1)
    ultimately obtain t' where "lsm_open rnd' (take n (log_of (map op_record ops))) p' = Done t'"
      "lsm_ok t' (fold stored_step (take ?j ops) Map.empty)"
      using lsm_open_ok[OF _ _ _ op assms(3)] by blast
    then show ?thesis using lsm_ok_get[OF _ op] by blast
  qed
  have "replay (log_of (map op_record ops)) = Done (map op_record ops)"
    using replay_log[OF ok, of "[]"] by (simp add: replay.simps[of "[]"] read_record_def)
  from lsm_open_ok[OF this size assms(2,1,3)] obtain t' where
    "lsm_open rnd' (log_of (map op_record ops)) p' = Done t'" "lsm_ok t' (fold stored_step ops Map.empty)" by blast
  then have "\<exists>t'. lsm_open rnd' (log_of (map op_record ops)) p' = Done t' \<and> lsm_get t' = lsm_get t"
    using lsm_ok_get[OF _ assms(1)] t(2) by (auto simp: fun_eq_iff)
  then show ?thesis using t0(1) t(1,3) cut by auto
qed

theorem lsm_crash_recovery_witness:
  "\<exists>t0 t t'. lsm_open (\<lambda>_. (False, [])) [] COMPACTION_TIERED = Done t0 \<and> lsm_run [Put [] [1] [7], Delete [] [1]] t0 = Done t \<and>
     lsm_open (\<lambda>_. (True, [])) (take 30 (wal_bytes (tree_wal t))) COMPACTION_LEVELED = Done t' \<and>
     lsm_get t' [1] = Done (Some (Some [7], 1)) \<and> lsm_get t [1] = Done None"
proof -
  let ?ops = "[Put [] [1] [7], Delete [] [1]]"
  have ok: "\<forall>op \<in> set ?ops. op_ok op" "length ?ops < 2 ^ 20" "\<forall>i. fst ((\<lambda>_ :: nat. (True, [] :: bool list)) i)"
    by (simp_all add: TOMBSTONE_def)
  have w: "whole 30 (map op_record ?ops) = 1" "whole 100 (map op_record ?ops) = 2"
    by (simp_all add: length_encode op_record_def put_record_def TOMBSTONE_def)
  from lsm_crash_recovery[OF ok, of "(\<lambda>_. (False, []))" COMPACTION_TIERED COMPACTION_LEVELED] obtain t0 t where
    t: "lsm_open (\<lambda>_. (False, [])) [] COMPACTION_TIERED = Done t0" "lsm_run ?ops t0 = Done t" and
    r: "\<And>n. \<exists>t'. lsm_open (\<lambda>_. (True, [])) (take n (wal_bytes (tree_wal t))) COMPACTION_LEVELED = Done t' \<and>
      (\<forall>key. lsm_get t' key = Done (map_option result_of (map_after (take (whole n (map op_record ?ops)) ?ops) key)))"
    and whole: "\<exists>t'. lsm_open (\<lambda>_. (True, [])) (wal_bytes (tree_wal t)) COMPACTION_LEVELED = Done t' \<and> lsm_get t' = lsm_get t"
    by blast
  from r[of 30] obtain t' where "lsm_open (\<lambda>_. (True, [])) (take 30 (wal_bytes (tree_wal t))) COMPACTION_LEVELED = Done t'"
    "lsm_get t' [1] = Done (Some (Some [7], 1))" unfolding w by (auto simp: map_after_def result_of_def)
  moreover have "lsm_get t [1] = Done None"
  proof -
    have "lsm_ok t0 Map.empty" using lsm_open_empty[of "(\<lambda>_. (False, []))" COMPACTION_TIERED] t(1) by auto
    from lsm_run_ok[OF this ok(1)] t(2) have "lsm_ok t (fold stored_step ?ops Map.empty)" by auto
    from lsm_ok_get[OF this ok(1), of "[1]"] show ?thesis by (simp add: map_after_def)
  qed
  ultimately show ?thesis using t by blast
qed

section \<open>A refused put hides the rest of the log\<close>

lemma refused_put:
  assumes "lsm_ok t m" "length key > 255 \<or> length val > 1023" "9 + length key + length val \<le> WAL_BUFFER"
  shows "\<exists>t'. lsm_put rnd key val t = Done (-1, t') \<and> lsm_ok t' m \<and>
    wal_bytes (tree_wal t') = wal_bytes (tree_wal t) @ encode_record (put_record key val)"
proof -
  have "length (payload_of (put_record key val)) \<le> WAL_BUFFER" using assms(3) by (simp add: length_payload put_record_def)
  from append_record[OF this, of "tree_wal t"] obtain w where
    w: "wal_append WAL_RECORD_PUT key (Some val) (length val) (tree_wal t) = Done (0, w)"
    "wal_bytes w = wal_bytes (tree_wal t) @ encode_record (put_record key val)" by (auto simp: put_record_def)
  note i = insert_refused[OF assms(2), of "fst rnd" "snd rnd" "memtable t"]
  define t1 where "t1 = t\<lparr> tree_wal := w, memtable := memtable t, seqno := seqno t + 1 \<rparr>"
  have r1: "lsm_rel t1 m" using assms(1) by (auto simp: lsm_ok_def lsm_rel_def lsm_layers_def t1_def)
  show ?thesis
  proof (cases "list_size (memtable t) \<ge> LSM_MEMTABLE_SIZE div 128")
    case True
    from flush_while_rel[OF freeze_rel[OF r1]] obtain t2 where t2: "flush_while LSM_IMMUTABLE_MAX (freeze_memtable t1) = Some (Done t2)"
      "lsm_rel t2 m" "length (immutables t2) \<le> LSM_IMMUTABLE_MAX" "same_front (freeze_memtable t1) t2" by blast
    then show ?thesis using True w i
      by (auto simp: lsm_put_def ends_def lsm_ok_def same_front_def freeze_memtable_def skiplist_create_def t1_def)
  next
    case False
    then show ?thesis using w i r1 assms(1) by (auto simp: lsm_put_def lsm_ok_def t1_def)
  qed
qed

text \<open>
  A put that the memtable refuses, because its key is over 255 or its value over 1023 bytes,
  returns -1 and changes no answer, but its record is in the log by then and stops recovery:
  whatever is put and deleted after it, with success, is lost when the tree is opened again.
\<close>

theorem lsm_refused_put_hides_log:
  assumes "\<forall>op \<in> set (ops1 @ ops2). op_ok op" "length (ops1 @ ops2) < 2 ^ 20" "\<forall>i. fst (rnd' i)"
    and "length key > 255 \<or> length val > 1023" "9 + length key + length val \<le> WAL_BUFFER"
  shows "\<exists>t0 t1 t2 t3. lsm_open rnd [] p = Done t0 \<and> lsm_run ops1 t0 = Done t1 \<and> lsm_put coins key val t1 = Done (-1, t2) \<and>
    lsm_run ops2 t2 = Done t3 \<and> (\<forall>k. lsm_get t3 k = Done (map_option result_of (map_after (ops1 @ ops2) k))) \<and>
    (\<exists>t'. lsm_open rnd' (wal_bytes (tree_wal t3)) p = Done t' \<and>
       (\<forall>k. lsm_get t' k = Done (map_option result_of (map_after ops1 k))))"
proof -
  have ok: "\<forall>op \<in> set ops1. op_ok op" "\<forall>op \<in> set ops2. op_ok op" using assms(1) by auto
  from lsm_open_empty obtain t0 where t0: "lsm_open rnd [] p = Done t0" "lsm_ok t0 Map.empty"
    "wal_bytes (tree_wal t0) = []" by blast
  from lsm_run_ok[OF t0(2) ok(1)] t0(3) obtain t1 where t1: "lsm_run ops1 t0 = Done t1"
    "lsm_ok t1 (fold stored_step ops1 Map.empty)" "wal_bytes (tree_wal t1) = log_of (map op_record ops1)" by auto
  from refused_put[OF t1(2) assms(4,5), of coins] obtain t2 where t2: "lsm_put coins key val t1 = Done (-1, t2)"
    "lsm_ok t2 (fold stored_step ops1 Map.empty)"
    "wal_bytes (tree_wal t2) = log_of (map op_record ops1) @ encode_record (put_record key val)" using t1(3) by auto
  from lsm_run_ok[OF t2(2) ok(2)] obtain t3 where t3: "lsm_run ops2 t2 = Done t3"
    "lsm_ok t3 (fold stored_step (ops1 @ ops2) Map.empty)"
    "wal_bytes (tree_wal t3) = log_of (map op_record ops1) @ encode_record (put_record key val) @ log_of (map op_record ops2)"
    using t2(3) by auto
  have "replay (encode_record (put_record key val) @ log_of (map op_record ops2)) = Done []"
    using assms(4,5) read_encode[of "put_record key val" "log_of (map op_record ops2)"]
    by (subst replay.simps) (auto simp: length_payload put_record_def rec_ok_def)
  moreover have rec: "\<forall>r \<in> set (map op_record ops1). rec_ok r" using ok(1) op_ok_record by auto
  ultimately have "replay (wal_bytes (tree_wal t3)) = Done (map op_record ops1)"
    unfolding t3(3) using replay_log[OF rec] by simp
  moreover have "length (wal_bytes (tree_wal t3)) < 2 ^ 32"
    using log_length[OF ok(1)] log_length[OF ok(2)] assms(2,5) unfolding t3(3)
    by (simp add: length_encode put_record_def WAL_BUFFER_def)
  ultimately obtain t' where "lsm_open rnd' (wal_bytes (tree_wal t3)) p = Done t'" "lsm_ok t' (fold stored_step ops1 Map.empty)"
    using lsm_open_ok[OF _ _ _ ok(1) assms(3)] assms(2) by fastforce
  then show ?thesis using t0(1) t1(1) t2(1) t3(1) lsm_ok_get[OF t3(2) assms(1)] lsm_ok_get[OF _ ok(1)] by blast
qed

theorem lsm_refused_put_hides_log_witness:
  "\<exists>t0 t2 t3 t'. lsm_open (\<lambda>_. (False, [])) [] COMPACTION_LEVELED = Done t0 \<and> lsm_put (True, []) (replicate 256 0) [] t0 = Done (-1, t2) \<and>
     lsm_run [Put [] [1] [7]] t2 = Done t3 \<and> lsm_get t3 [1] = Done (Some (Some [7], 1)) \<and>
     lsm_open (\<lambda>_. (True, [])) (wal_bytes (tree_wal t3)) COMPACTION_LEVELED = Done t' \<and> lsm_get t' [1] = Done None"
proof -
  have h: "\<forall>op \<in> set ([] @ [Put [] [1] [7]]). op_ok op" "length ([] @ [Put [] [1] [7]]) < 2 ^ 20"
    "\<forall>i. fst ((\<lambda>_ :: nat. (True, [] :: bool list)) i)"
    "length (replicate 256 (0 :: byte)) > 255 \<or> length ([] :: byte list) > 1023"
    "9 + length (replicate 256 (0 :: byte)) + length ([] :: byte list) \<le> WAL_BUFFER"
    by (simp_all add: TOMBSTONE_def WAL_BUFFER_def)
  from lsm_refused_put_hides_log[OF h, of "(\<lambda>_. (False, []))" COMPACTION_LEVELED "(True, [])"] obtain t0 t2 t3 t' where
    "lsm_open (\<lambda>_. (False, [])) [] COMPACTION_LEVELED = Done t0" "lsm_put (True, []) (replicate 256 0) [] t0 = Done (-1, t2)"
    "lsm_run [Put [] [1] [7]] t2 = Done t3"
    "\<And>k. lsm_get t3 k = Done (map_option result_of (map_after ([] @ [Put [] [1] [7]]) k))"
    "lsm_open (\<lambda>_. (True, [])) (wal_bytes (tree_wal t3)) COMPACTION_LEVELED = Done t'"
    "\<And>k. lsm_get t' k = Done (map_option result_of (map_after [] k))"
    by (auto simp del: append.simps lsm_run.simps(2))
  moreover from this(4,6) have "lsm_get t3 [1] = Done (Some (Some [7], 1))" "lsm_get t' [1] = Done None"
    by (simp_all add: map_after_def result_of_def)
  ultimately show ?thesis by blast
qed

end
