(* ===== verification/Snapshot.thy ===== *)
theory Snapshot
  imports Byte_Order
begin

text \<open>
  Snapshots and the version store of \<open>mini-file-storage\<close> (\<open>snapshot.h\<close>, \<open>snapshot.c\<close>). A snapshot
  handle is identified by its address; addresses, times and whether an allocation succeeds are
  parameters. A version chain is the list of its nodes, the newest first, and a bucket the list of
  its keys with their chains. Freeing a handle twice, and copying a value longer than the array of
  a node, are \<open>Undefined\<close>.
\<close>

definition SNAPSHOT_MAX_KEY_LEN :: nat where [c_consts]: "SNAPSHOT_MAX_KEY_LEN = 256"
definition SNAPSHOT_MAX_VALUE_LEN :: nat where [c_consts]: "SNAPSHOT_MAX_VALUE_LEN = 1024"
definition SNAPSHOT_MAX_STACK :: nat where [c_consts]: "SNAPSHOT_MAX_STACK = 64"

record snapshot =
  snap_address :: nat
  snapshot_seq :: "64 word"
  create_time_ms :: "64 word"

record snapshot_manager =
  global_seqno :: "64 word"
  active_snapshots :: "snapshot list"
  oldest_snapshot_seq :: "64 word"
  snapshot_counter :: "64 word"
  snapshot_released :: "64 word"

record version_node =
  vn_value :: "byte list"
  vn_value_len :: nat
  vn_seqno :: "64 word"
  is_deleted :: byte

type_synonym version_entry = "byte list \<times> version_node list"

record version_store =
  vs_buckets :: "version_entry list list"
  num_buckets :: "32 word"
  num_keys :: "32 word"

section \<open>The snapshot manager\<close>

definition snap_mgr_create :: snapshot_manager where
  "snap_mgr_create =
     \<lparr> global_seqno = 1, active_snapshots = [], oldest_snapshot_seq = -1, snapshot_counter = 0, snapshot_released = 0 \<rparr>"

definition snap_mgr_create_snapshot ::
    "nat option \<Rightarrow> 64 word \<Rightarrow> snapshot_manager \<Rightarrow> snapshot option \<times> snapshot_manager" where
  "snap_mgr_create_snapshot addr now mgr =
     (if length (active_snapshots mgr) \<ge> SNAPSHOT_MAX_STACK then (None, mgr)
      else
        (case addr of
           None \<Rightarrow> (None, mgr)
         | Some a \<Rightarrow>
             (let snap = \<lparr> snap_address = a, snapshot_seq = global_seqno mgr, create_time_ms = now \<rparr>;
                  mgr = mgr\<lparr> active_snapshots := active_snapshots mgr @ [snap], snapshot_counter := snapshot_counter mgr + 1 \<rparr>
              in (Some snap,
                  if snapshot_seq snap < oldest_snapshot_seq mgr
                  then mgr\<lparr> oldest_snapshot_seq := snapshot_seq snap \<rparr> else mgr))))"

fun remove_snapshot :: "nat \<Rightarrow> snapshot list \<Rightarrow> snapshot list" where
  "remove_snapshot a [] = []"
| "remove_snapshot a (s # ss) = (if snap_address s = a then ss else s # remove_snapshot a ss)"

definition oldest_of :: "snapshot list \<Rightarrow> 64 word" where
  "oldest_of ss = fold (\<lambda>s old. if snapshot_seq s < old then snapshot_seq s else old) ss (-1)"

definition snap_mgr_release_snapshot :: "nat \<Rightarrow> snapshot_manager \<Rightarrow> snapshot_manager outcome" where
  "snap_mgr_release_snapshot a mgr =
     (if a \<notin> snap_address ` set (active_snapshots mgr) then Undefined
      else
        (let ss = remove_snapshot a (active_snapshots mgr)
         in Done (mgr\<lparr> active_snapshots := ss, snapshot_released := snapshot_released mgr + 1,
                       oldest_snapshot_seq := oldest_of ss \<rparr>)))"

definition snap_mgr_next_seqno :: "snapshot_manager \<Rightarrow> 64 word \<times> snapshot_manager" where
  "snap_mgr_next_seqno mgr = (global_seqno mgr, mgr\<lparr> global_seqno := global_seqno mgr + 1 \<rparr>)"

definition snap_mgr_get_oldest_active :: "snapshot_manager \<Rightarrow> 64 word" where
  "snap_mgr_get_oldest_active mgr = oldest_snapshot_seq mgr"

section \<open>The version store\<close>

definition vs_hash :: "byte list \<Rightarrow> 32 word \<Rightarrow> 32 word" where
  "vs_hash key n = fold (\<lambda>b h. (h XOR ucast b) * 16777619) key 2166136261 mod n"

definition vs_create :: "32 word \<Rightarrow> version_store" where
  "vs_create n =
     (let n = (if n = 0 then 256 else n)
      in \<lparr> vs_buckets = replicate (unat n) [], num_buckets = n, num_keys = 0 \<rparr>)"

definition find_entry :: "byte list \<Rightarrow> version_entry list \<Rightarrow> version_entry option" where
  "find_entry key es = find (\<lambda>e. fst e = key) es"

fun add_version :: "byte list \<Rightarrow> version_node \<Rightarrow> version_entry list \<Rightarrow> version_entry list" where
  "add_version key node [] = []"
| "add_version key node ((k, vs) # es) = (if k = key then (k, node # vs) # es else (k, vs) # add_version key node es)"

text \<open>
  A value given has at least \<open>val_len\<close> bytes; a NULL pointer, or a length over the size of the
  array, leaves the zeros of \<open>calloc\<close> and stores the length all the same.
\<close>

definition new_version :: "byte list option \<Rightarrow> nat \<Rightarrow> 64 word \<Rightarrow> byte \<Rightarrow> version_node" where
  "new_version val val_len seq del =
     \<lparr> vn_value =
         (case val of
            Some v \<Rightarrow> if val_len > 0 \<and> val_len \<le> SNAPSHOT_MAX_VALUE_LEN
                      then take val_len v @ replicate (SNAPSHOT_MAX_VALUE_LEN - val_len) 0
                      else replicate SNAPSHOT_MAX_VALUE_LEN 0
          | None \<Rightarrow> replicate SNAPSHOT_MAX_VALUE_LEN 0),
       vn_value_len = val_len, vn_seqno = seq, is_deleted = del \<rparr>"

text \<open>\<open>mem\<close> says whether the allocations of the entry and of the node succeed.\<close>

definition vs_put ::
    "bool \<times> bool \<Rightarrow> byte list \<Rightarrow> byte list option \<Rightarrow> nat \<Rightarrow> 64 word \<Rightarrow> byte \<Rightarrow> version_store \<Rightarrow> int \<times> version_store" where
  "vs_put mem key val val_len seq del vs =
     (if length key > SNAPSHOT_MAX_KEY_LEN then (-1, vs)
      else
        (let b = unat (vs_hash key (num_buckets vs)); known = find_entry key (vs_buckets vs ! b) \<noteq> None in
         if \<not> known \<and> \<not> fst mem then (-1, vs)
         else
           (let vs = (if known then vs
                      else vs\<lparr> vs_buckets := (vs_buckets vs)[b := (key, []) # vs_buckets vs ! b], num_keys := num_keys vs + 1 \<rparr>)
            in if \<not> snd mem then (-1, vs)
               else (0, vs\<lparr> vs_buckets := (vs_buckets vs)[b := add_version key (new_version val val_len seq del) (vs_buckets vs ! b)] \<rparr>))))"

definition vs_get_at_snapshot :: "version_store \<Rightarrow> byte list \<Rightarrow> 64 word \<Rightarrow> byte list option outcome" where
  "vs_get_at_snapshot vs key seq =
     (case find_entry key (vs_buckets vs ! unat (vs_hash key (num_buckets vs))) of
        None \<Rightarrow> Done None
      | Some (_, versions) \<Rightarrow>
          (case find (\<lambda>v. vn_seqno v \<le> seq) versions of
             None \<Rightarrow> Done None
           | Some v \<Rightarrow>
               if is_deleted v \<noteq> 0 then Done None
               else if vn_value_len v > SNAPSHOT_MAX_VALUE_LEN then Undefined
               else Done (Some (take (vn_value_len v) (vn_value v)))))"

text \<open>The collector unlinks a node when there is an older one behind it.\<close>

fun gc_chain :: "64 word \<Rightarrow> version_node list \<Rightarrow> version_node list \<times> nat" where
  "gc_chain oldest [] = ([], 0)"
| "gc_chain oldest [v] = ([v], 0)"
| "gc_chain oldest (v # w # vs) =
     (let (vs', n) = gc_chain oldest (w # vs) in
      if vn_seqno v < oldest then (vs', n + 1) else (v # vs', n))"

definition vs_gc_old_versions :: "64 word \<Rightarrow> version_store \<Rightarrow> nat \<times> version_store" where
  "vs_gc_old_versions oldest vs =
     (let gc = (\<lambda>(k, versions). (k, fst (gc_chain oldest versions)));
          removed = (\<lambda>(k, versions). snd (gc_chain oldest versions))
      in (sum_list (map (\<lambda>es. sum_list (map removed es)) (vs_buckets vs)), vs\<lparr> vs_buckets := map (map gc) (vs_buckets vs) \<rparr>))"

record versioned_kv =
  kv_key :: "byte list"
  kv_value :: "byte list"
  kv_seqno :: "64 word"
  kv_deleted :: byte

definition versioned_kv_visible :: "versioned_kv \<Rightarrow> 64 word \<Rightarrow> bool" where
  "versioned_kv_visible kv seq = (kv_seqno kv \<le> seq)"

definition versioned_kv_is_tombstone :: "versioned_kv \<Rightarrow> byte" where
  "versioned_kv_is_tombstone kv = kv_deleted kv"

section \<open>What a store holds for a key\<close>

definition vs_ok :: "version_store \<Rightarrow> bool" where
  "vs_ok vs \<longleftrightarrow> 0 < num_buckets vs \<and> length (vs_buckets vs) = unat (num_buckets vs)"

definition versions_of :: "version_store \<Rightarrow> byte list \<Rightarrow> version_node list" where
  "versions_of vs key =
     (case find_entry key (vs_buckets vs ! unat (vs_hash key (num_buckets vs))) of None \<Rightarrow> [] | Some (_, versions) \<Rightarrow> versions)"

lemma hash_in_range: "vs_ok vs \<Longrightarrow> unat (vs_hash key (num_buckets vs)) < length (vs_buckets vs)"
  by (auto simp: vs_ok_def vs_hash_def unat_mod word_neq_0_conv[symmetric] unat_gt_0)

lemma create_versions: "vs_ok (vs_create n)" "versions_of (vs_create n) key = []"
proof -
  show ok: "vs_ok (vs_create n)" by (simp add: vs_ok_def vs_create_def word_neq_0_conv[symmetric])
  then have "unat (vs_hash key (num_buckets (vs_create n))) < length (vs_buckets (vs_create n))" by (rule hash_in_range)
  moreover have "vs_buckets (vs_create n) ! i = []" if "i < length (vs_buckets (vs_create n))" for i
    using that by (simp add: vs_create_def Let_def)
  ultimately show "versions_of (vs_create n) key = []" by (simp add: versions_of_def find_entry_def)
qed

lemma find_add_version:
  "find_entry k (add_version key node es) =
     (if k = key then map_option (\<lambda>(a, vs). (a, node # vs)) (find_entry key es) else find_entry k es)"
  by (induction key node es rule: add_version.induct) (auto simp: find_entry_def)

lemma put_versions:
  assumes "vs_ok vs" "length key \<le> SNAPSHOT_MAX_KEY_LEN" "vs_put (True, True) key val n seq del vs = (r, vs')"
  shows "r = 0 \<and> vs_ok vs' \<and>
    versions_of vs' k = (if k = key then new_version val n seq del # versions_of vs key else versions_of vs k)"
proof -
  let ?b = "unat (vs_hash key (num_buckets vs))"
  let ?es = "vs_buckets vs ! ?b"
  define es where "es = (if find_entry key ?es \<noteq> None then ?es else (key, []) # ?es)"
  have b: "?b < length (vs_buckets vs)" using assms(1) by (rule hash_in_range)
  have r: "r = 0 \<and> vs_buckets vs' = (vs_buckets vs)[?b := add_version key (new_version val n seq del) es] \<and>
      num_buckets vs' = num_buckets vs"
    using assms(2,3) b by (auto simp: vs_put_def Let_def es_def split: if_splits)
  have known: "find_entry key es = Some (key, versions_of vs key)"
  proof (cases "find_entry key ?es")
    case None
    then show ?thesis by (simp add: es_def versions_of_def find_entry_def)
  next
    case (Some e)
    then have "fst e = key" by (auto simp: find_entry_def find_Some_iff)
    with Some show ?thesis by (cases e) (simp add: es_def versions_of_def)
  qed
  have other: "find_entry k es = find_entry k ?es" if "k \<noteq> key" for k using that by (simp add: es_def find_entry_def)
  have "versions_of vs' k = (if k = key then new_version val n seq del # versions_of vs key else versions_of vs k)"
  proof (cases "unat (vs_hash k (num_buckets vs)) = ?b")
    case True
    then show ?thesis using r b known other[of k]
      by (simp add: versions_of_def[of vs'] find_add_version) (simp add: versions_of_def)
  next
    case False
    then show ?thesis using r by (auto simp: versions_of_def)
  qed
  then show ?thesis using r assms(1) by (simp add: vs_ok_def)
qed

section \<open>Reading a history of writes\<close>

record version_write =
  w_key :: "byte list"
  w_value :: "byte list"
  w_seq :: "64 word"
  w_deleted :: byte

definition write_ok :: "version_write \<Rightarrow> bool" where
  "write_ok w \<longleftrightarrow> length (w_key w) \<le> SNAPSHOT_MAX_KEY_LEN \<and> length (w_value w) \<le> SNAPSHOT_MAX_VALUE_LEN"

definition put_write :: "version_write \<Rightarrow> version_store \<Rightarrow> version_store" where
  "put_write w vs = snd (vs_put (True, True) (w_key w) (Some (w_value w)) (length (w_value w)) (w_seq w) (w_deleted w) vs)"

definition after_writes :: "32 word \<Rightarrow> version_write list \<Rightarrow> version_store" where
  "after_writes n ws = fold put_write ws (vs_create n)"

text \<open>What a write means, and the map that all writes up to a sequence number leave.\<close>

definition write_value :: "version_write \<Rightarrow> byte list option" where
  "write_value w = (if w_deleted w = 0 then Some (w_value w) else None)"

definition map_at :: "64 word \<Rightarrow> version_write list \<Rightarrow> byte list \<rightharpoonup> byte list" where
  "map_at seq ws = fold (\<lambda>w m. m(w_key w := write_value w)) (filter (\<lambda>w. w_seq w \<le> seq) ws) Map.empty"

definition node_of :: "version_write \<Rightarrow> version_node" where
  "node_of w = new_version (Some (w_value w)) (length (w_value w)) (w_seq w) (w_deleted w)"

definition read_node :: "version_node \<Rightarrow> byte list option outcome" where
  "read_node v =
     (if is_deleted v \<noteq> 0 then Done None
      else if vn_value_len v > SNAPSHOT_MAX_VALUE_LEN then Undefined
      else Done (Some (take (vn_value_len v) (vn_value v))))"

definition read_chain :: "64 word \<Rightarrow> version_node list \<Rightarrow> byte list option outcome" where
  "read_chain seq vs = (case find (\<lambda>v. vn_seqno v \<le> seq) vs of None \<Rightarrow> Done None | Some v \<Rightarrow> read_node v)"

lemma get_chain: "vs_get_at_snapshot vs key seq = read_chain seq (versions_of vs key)"
  by (auto simp: vs_get_at_snapshot_def read_chain_def versions_of_def read_node_def split: option.split)

lemma read_node_of: "write_ok w \<Longrightarrow> read_node (node_of w) = Done (write_value w)"
  by (auto simp: read_node_def node_of_def new_version_def write_ok_def write_value_def)

lemma node_of_seq [simp]: "vn_seqno (node_of w) = w_seq w"
  by (simp add: node_of_def new_version_def)

lemma after_writes_versions:
  assumes "\<forall>w \<in> set ws. write_ok w"
  shows "vs_ok (after_writes n ws) \<and>
    versions_of (after_writes n ws) key = rev (map node_of (filter (\<lambda>w. w_key w = key) ws))"
  using assms
proof (induction ws arbitrary: key rule: rev_induct)
  case Nil
  then show ?case by (simp add: after_writes_def create_versions)
next
  case (snoc w ws)
  obtain r vs' where p: "vs_put (True, True) (w_key w) (Some (w_value w)) (length (w_value w)) (w_seq w) (w_deleted w)
    (after_writes n ws) = (r, vs')" by fastforce
  then have "after_writes n (ws @ [w]) = vs'" by (simp add: after_writes_def put_write_def)
  moreover have "length (w_key w) \<le> SNAPSHOT_MAX_KEY_LEN" using snoc.prems by (simp add: write_ok_def)
  moreover have "vs_ok (after_writes n ws)" using snoc by simp
  ultimately show ?case using put_versions[OF _ _ p] snoc by (auto simp: node_of_def)
qed

lemma snapshot_history_read:
  assumes "\<forall>w \<in> set ws. write_ok w"
  shows "vs_get_at_snapshot (after_writes n ws) key seq = Done (map_at seq ws key)"
  using assms
proof (induction ws rule: rev_induct)
  case Nil
  then show ?case by (simp add: after_writes_def get_chain create_versions read_chain_def map_at_def)
next
  case (snoc w ws)
  note v = after_writes_versions[OF snoc.prems, of n key] after_writes_versions[of ws n key]
  have "read_node (node_of w) = Done (write_value w)" using snoc.prems by (intro read_node_of) simp
  then show ?case using snoc v by (auto simp: get_chain read_chain_def map_at_def)
qed

text \<open>
  C34. The version store gives consistent reads: after any writes and deletions with keys of at most
  256 and values of at most 1024 bytes put into a fresh store that is never collected, allocations succeeding, reading a key at a sequence
  number sees exactly the writes numbered up to it, so it returns the last of them for the key, or
  nothing when that is a deletion; writes with greater numbers change nothing.
\<close>

theorem snapshot_reads_history:
  assumes "\<forall>w \<in> set ws. write_ok w"
  shows "vs_get_at_snapshot (after_writes n ws) key seq = Done (map_at seq ws key)"
  using snapshot_history_read[OF assms] .

theorem snapshot_reads_history_witness:
  "vs_get_at_snapshot (after_writes 4
       [\<lparr> w_key = [1], w_value = [7], w_seq = 1, w_deleted = 0 \<rparr>, \<lparr> w_key = [1], w_value = [], w_seq = 3, w_deleted = 1 \<rparr>])
     [1] 2 = Done (Some [7])"
proof -
  have "\<forall>w \<in> set [\<lparr> w_key = [1], w_value = [7], w_seq = 1, w_deleted = 0 \<rparr>,
    \<lparr> w_key = [1], w_value = [], w_seq = 3, w_deleted = 1 \<rparr>]. write_ok w"
    by (simp add: write_ok_def SNAPSHOT_MAX_KEY_LEN_def SNAPSHOT_MAX_VALUE_LEN_def)
  from snapshot_reads_history[OF this, of 4 "[1]" 2] show ?thesis by (simp add: map_at_def write_value_def)
qed

section \<open>A snapshot is not closed\<close>

text \<open>
  A snapshot is not isolated from later writes: it takes the number that the next write will
  get, so the first write after it is visible in it. The second no longer is.
\<close>

theorem snapshot_sees_next_write:
  assumes "\<forall>w \<in> set ws. write_ok w" "length (active_snapshots mgr) < SNAPSHOT_MAX_STACK" "global_seqno mgr < -1"
    and "length key \<le> SNAPSHOT_MAX_KEY_LEN" "length v \<le> SNAPSHOT_MAX_VALUE_LEN" "length v' \<le> SNAPSHOT_MAX_VALUE_LEN"
  shows "\<exists>s mgr1 mgr2 mgr3 seq seq'. snap_mgr_create_snapshot (Some a) now mgr = (Some s, mgr1) \<and>
    snap_mgr_next_seqno mgr1 = (seq, mgr2) \<and> snap_mgr_next_seqno mgr2 = (seq', mgr3) \<and>
    vs_get_at_snapshot (after_writes n (ws @ [\<lparr> w_key = key, w_value = v, w_seq = seq, w_deleted = 0 \<rparr>])) key (snapshot_seq s) =
      Done (Some v) \<and>
    vs_get_at_snapshot (after_writes n (ws @ [\<lparr> w_key = key, w_value = v, w_seq = seq, w_deleted = 0 \<rparr>,
        \<lparr> w_key = key, w_value = v', w_seq = seq', w_deleted = 0 \<rparr>])) key (snapshot_seq s) = Done (Some v)"
proof -
  let ?g = "global_seqno mgr"
  let ?w1 = "\<lparr> w_key = key, w_value = v, w_seq = ?g, w_deleted = 0 \<rparr>"
  let ?w2 = "\<lparr> w_key = key, w_value = v', w_seq = ?g + 1, w_deleted = 0 \<rparr>"
  obtain s mgr1 where c: "snap_mgr_create_snapshot (Some a) now mgr = (Some s, mgr1)" "snapshot_seq s = ?g" "global_seqno mgr1 = ?g"
    using assms(2) by (auto simp: snap_mgr_create_snapshot_def Let_def)
  have "1 + ?g \<noteq> 0" using assms(3) by (auto simp: add_eq_0_iff)
  then have less: "\<not> ?g + 1 \<le> ?g" by (simp add: word_le_nat_alt unatSuc add.commute)
  have ok: "\<forall>w \<in> set (ws @ [?w1]). write_ok w" "\<forall>w \<in> set (ws @ [?w1, ?w2]). write_ok w"
    using assms(1,4-6) by (auto simp: write_ok_def)
  have "vs_get_at_snapshot (after_writes n (ws @ [?w1])) key (snapshot_seq s) = Done (Some v)"
    "vs_get_at_snapshot (after_writes n (ws @ [?w1, ?w2])) key (snapshot_seq s) = Done (Some v)"
    using snapshot_history_read[OF ok(1)] snapshot_history_read[OF ok(2)] less c(2)
    by (simp_all add: map_at_def write_value_def)
  moreover have "snap_mgr_next_seqno mgr1 = (?g, mgr1\<lparr> global_seqno := ?g + 1 \<rparr>)"
    "snap_mgr_next_seqno (mgr1\<lparr> global_seqno := ?g + 1 \<rparr>) = (?g + 1, mgr1\<lparr> global_seqno := ?g + 1 + 1 \<rparr>)"
    using c(3) by (simp_all add: snap_mgr_next_seqno_def)
  ultimately show ?thesis using c(1) by blast
qed

theorem snapshot_sees_next_write_witness:
  "\<exists>s mgr1 seq. snap_mgr_create_snapshot (Some 5) 0 snap_mgr_create = (Some s, mgr1) \<and> fst (snap_mgr_next_seqno mgr1) = seq \<and>
     vs_get_at_snapshot (after_writes 8 []) [1] (snapshot_seq s) = Done None \<and>
     vs_get_at_snapshot (after_writes 8 [\<lparr> w_key = [1], w_value = [7], w_seq = seq, w_deleted = 0 \<rparr>]) [1] (snapshot_seq s) = Done (Some [7])"
proof -
  have "(1 :: 64 word) < -1" by code_simp
  then have "length (active_snapshots snap_mgr_create) < SNAPSHOT_MAX_STACK" "global_seqno snap_mgr_create < -1"
    "length [1 :: byte] \<le> SNAPSHOT_MAX_KEY_LEN" "length [7 :: byte] \<le> SNAPSHOT_MAX_VALUE_LEN"
    by (simp_all add: snap_mgr_create_def SNAPSHOT_MAX_STACK_def SNAPSHOT_MAX_KEY_LEN_def SNAPSHOT_MAX_VALUE_LEN_def)
  from snapshot_sees_next_write[of "[]", OF _ this this(4), of 5 0 8] obtain s mgr1 mgr2 seq where
    "snap_mgr_create_snapshot (Some 5) 0 snap_mgr_create = (Some s, mgr1)" "snap_mgr_next_seqno mgr1 = (seq, mgr2)"
    "vs_get_at_snapshot (after_writes 8 [\<lparr> w_key = [1], w_value = [7], w_seq = seq, w_deleted = 0 \<rparr>]) [1] (snapshot_seq s) = Done (Some [7])"
    by auto
  moreover have "vs_get_at_snapshot (after_writes 8 []) [1] (snapshot_seq s) = Done None"
    by (simp add: snapshot_history_read map_at_def)
  ultimately show ?thesis by auto
qed

section \<open>Collecting versions\<close>

lemma gc_chain_filter:
  "fst (gc_chain oldest vs) = (if vs = [] then [] else filter (\<lambda>v. \<not> vn_seqno v < oldest) (butlast vs) @ [last vs])"
  by (induction oldest vs rule: gc_chain.induct) (auto split: prod.splits)

lemma gc_versions:
  assumes "vs_ok vs"
  shows "versions_of (snd (vs_gc_old_versions oldest vs)) key = fst (gc_chain oldest (versions_of vs key))"
proof -
  let ?gc = "\<lambda>(k, versions). (k, fst (gc_chain oldest versions))"
  have f: "find_entry key (map ?gc es) = map_option ?gc (find_entry key es)" for es
    by (induction es) (auto simp: find_entry_def)
  show ?thesis using hash_in_range[OF assms, of key]
    by (auto simp: versions_of_def vs_gc_old_versions_def f split: option.split)
qed

definition recent :: "64 word \<Rightarrow> 64 word \<Rightarrow> version_write list \<Rightarrow> bool" where
  "recent oldest seq ws \<longleftrightarrow> (\<exists>w \<in> set ws. oldest \<le> w_seq w \<and> w_seq w \<le> seq)"

lemma recent_snoc: "recent oldest seq (ws @ [w]) \<longleftrightarrow> recent oldest seq ws \<or> oldest \<le> w_seq w \<and> w_seq w \<le> seq"
  by (auto simp: recent_def)

lemma gc_read:
  assumes "sorted (map w_seq (w # rest))" "oldest \<le> seq"
  shows "read_chain seq (filter (\<lambda>v. \<not> vn_seqno v < oldest) (rev (map node_of rest)) @ [node_of w]) =
    (if recent oldest seq (w # rest) then read_chain seq (rev (map node_of (w # rest)))
     else if w_seq w \<le> seq then read_node (node_of w) else Done None)"
  using assms(1)
proof (induction rest rule: rev_induct)
  case Nil
  then show ?case by (simp add: read_chain_def)
next
  case (snoc x rest)
  then have IH: "read_chain seq (filter (\<lambda>v. \<not> vn_seqno v < oldest) (rev (map node_of rest)) @ [node_of w]) =
    (if recent oldest seq (w # rest) then read_chain seq (rev (map node_of (w # rest)))
     else if w_seq w \<le> seq then read_node (node_of w) else Done None)" by (simp add: sorted_append)
  have below: "\<forall>y \<in> set (w # rest). w_seq y \<le> w_seq x" using snoc.prems by (auto simp: sorted_append)
  have chain: "read_chain seq (v # vs) = (if vn_seqno v \<le> seq then read_node v else read_chain seq vs)" for v vs
    by (simp add: read_chain_def)
  consider "seq < w_seq x" | "w_seq x \<le> seq" "oldest \<le> w_seq x" | "w_seq x \<le> seq" "w_seq x < oldest" by force
  then show ?case
  proof cases
    case 1
    then have "\<not> w_seq x < oldest" "\<not> w_seq x \<le> seq" using assms(2) by auto
    then show ?thesis using IH recent_snoc[of oldest seq "w # rest" x] by (simp add: chain)
  next
    case 2
    then show ?thesis using recent_snoc[of oldest seq "w # rest" x] by (simp add: chain not_less)
  next
    case 3
    then have old: "w_seq y < oldest" if "y \<in> set (w # rest)" for y using below that by (meson le_less_trans)
    then have "\<not> recent oldest seq (w # rest)" unfolding recent_def by (meson not_less)
    moreover have "\<not> oldest \<le> w_seq x" using 3(2) by (simp add: not_le)
    ultimately show ?thesis using IH 3(2) recent_snoc[of oldest seq "w # rest" x] by simp
  qed
qed

text \<open>
  What the collector leaves, for writes numbered in order and a snapshot not older than the
  oldest: a read that returns a version of that age or younger is unchanged. But where all
  visible versions are older the collector removes every one except the oldest, so the read returns
  the first write of the key instead of the last.
\<close>

theorem gc_effect_on_reads:
  assumes "\<forall>w \<in> set ws. write_ok w" "sorted (map w_seq ws)" "oldest \<le> seq"
  shows "vs_get_at_snapshot (snd (vs_gc_old_versions oldest (after_writes n ws))) key seq =
    (if \<exists>w \<in> set ws. w_key w = key \<and> oldest \<le> w_seq w \<and> w_seq w \<le> seq
     then vs_get_at_snapshot (after_writes n ws) key seq
     else (case filter (\<lambda>w. w_key w = key) ws of
             [] \<Rightarrow> Done None | w # _ \<Rightarrow> Done (if w_seq w \<le> seq then write_value w else None)))"
proof -
  define ks where "ks = filter (\<lambda>w. w_key w = key) ws"
  have v: "vs_ok (after_writes n ws)" "versions_of (after_writes n ws) key = rev (map node_of ks)"
    using after_writes_versions[OF assms(1)] by (simp_all add: ks_def)
  show ?thesis
  proof (cases ks)
    case Nil
    then show ?thesis using v by (auto simp: get_chain gc_versions read_chain_def ks_def filter_empty_conv)
  next
    case (Cons w rest)
    then have "w \<in> set ks" by simp
    then have first: "read_node (node_of w) = Done (write_value w)"
      using assms(1) by (intro read_node_of) (simp add: ks_def)
    have "sorted (map w_seq ks)" using assms(2) unfolding ks_def by (intro sorted_filter)
    then have srt: "sorted (map w_seq (w # rest))" using Cons by simp
    have gc: "fst (gc_chain oldest (rev (map node_of ks))) =
        filter (\<lambda>v. \<not> vn_seqno v < oldest) (rev (map node_of rest)) @ [node_of w]"
      by (simp add: gc_chain_filter Cons butlast_append)
    have ex: "(\<exists>w \<in> set ws. w_key w = key \<and> oldest \<le> w_seq w \<and> w_seq w \<le> seq) \<longleftrightarrow> recent oldest seq ks"
      by (auto simp: ks_def recent_def)
    show ?thesis
      unfolding get_chain gc_versions[OF v(1)] v(2) gc ex
      using gc_read[OF srt assms(3)] first by (simp add: Cons flip: ks_def)
  qed
qed

theorem gc_effect_on_reads_witness:
  "vs_get_at_snapshot (after_writes 4
       [\<lparr> w_key = [1], w_value = [7], w_seq = 1, w_deleted = 0 \<rparr>, \<lparr> w_key = [1], w_value = [8], w_seq = 2, w_deleted = 0 \<rparr>]) [1] 9 =
     Done (Some [8]) \<and>
   vs_get_at_snapshot (snd (vs_gc_old_versions 5 (after_writes 4
       [\<lparr> w_key = [1], w_value = [7], w_seq = 1, w_deleted = 0 \<rparr>, \<lparr> w_key = [1], w_value = [8], w_seq = 2, w_deleted = 0 \<rparr>]))) [1] 9 =
     Done (Some [7])"
proof -
  let ?ws = "[\<lparr> w_key = [1], w_value = [7], w_seq = 1, w_deleted = 0 \<rparr>, \<lparr> w_key = [1], w_value = [8], w_seq = 2, w_deleted = 0 \<rparr>]"
  have ok: "\<forall>w \<in> set ?ws. write_ok w" "sorted (map w_seq ?ws)" "(5 :: 64 word) \<le> 9"
    by (simp_all add: write_ok_def SNAPSHOT_MAX_KEY_LEN_def SNAPSHOT_MAX_VALUE_LEN_def)
  have "\<not> (5 :: 64 word) \<le> 1" "\<not> (5 :: 64 word) \<le> 2" by code_simp+
  then show ?thesis
    using gc_effect_on_reads[OF ok, of 4 "[1]"] snapshot_history_read[OF ok(1), of 4 "[1]" 9]
    by (simp add: map_at_def write_value_def)
qed

section \<open>The oldest snapshot\<close>

text \<open>Addresses are those of live allocations, so a new one is not in use.\<close>

datatype mgr_op = Create "nat option" "64 word" | Release nat | Next

fun mgr_step :: "mgr_op \<Rightarrow> snapshot_manager \<Rightarrow> snapshot_manager" where
  "mgr_step (Create addr now) mgr =
     (if \<exists>a. addr = Some a \<and> a \<in> snap_address ` set (active_snapshots mgr) then mgr
      else snd (snap_mgr_create_snapshot addr now mgr))"
| "mgr_step (Release a) mgr = (case snap_mgr_release_snapshot a mgr of Done mgr \<Rightarrow> mgr | _ \<Rightarrow> mgr)"
| "mgr_step Next mgr = snd (snap_mgr_next_seqno mgr)"

definition mgr_ok :: "snapshot_manager \<Rightarrow> bool" where
  "mgr_ok mgr \<longleftrightarrow> length (active_snapshots mgr) \<le> SNAPSHOT_MAX_STACK \<and> distinct (map snap_address (active_snapshots mgr)) \<and>
     oldest_snapshot_seq mgr = oldest_of (active_snapshots mgr)"

lemma oldest_snoc: "oldest_of (ss @ [s]) = (if snapshot_seq s < oldest_of ss then snapshot_seq s else oldest_of ss)"
  by (simp add: oldest_of_def)

lemma oldest_of_least:
  "(\<forall>s \<in> set ss. oldest_of ss \<le> snapshot_seq s) \<and> (ss = [] \<and> oldest_of ss = -1 \<or> oldest_of ss = -1 \<or> oldest_of ss \<in> snapshot_seq ` set ss)"
proof (induction ss rule: rev_induct)
  case (snoc s ss)
  then show ?case by (auto simp: oldest_snoc not_less dest: order_trans less_imp_le)
qed (simp add: oldest_of_def)

lemma remove_snapshot_remove1:
  "distinct (map snap_address ss) \<Longrightarrow> map snap_address (remove_snapshot a ss) = remove1 a (map snap_address ss) \<and>
   length (remove_snapshot a ss) \<le> length ss"
  by (induction a ss rule: remove_snapshot.induct) auto

interpretation mgr_sys: invariant_system "\<lambda>mgr. mgr = snap_mgr_create" mgr_step mgr_ok
proof unfold_locales
  show "mgr_ok mgr" if "mgr = snap_mgr_create" for mgr
    using that by (simp add: mgr_ok_def snap_mgr_create_def oldest_of_def)
next
  fix op mgr assume ok: "mgr_ok mgr"
  show "mgr_ok (mgr_step op mgr)"
  proof (cases op)
    case (Create addr now)
    then show ?thesis using ok
      by (auto simp: mgr_ok_def snap_mgr_create_snapshot_def Let_def oldest_snoc not_le split: option.splits)
  next
    case (Release a)
    then show ?thesis using ok remove_snapshot_remove1[of "active_snapshots mgr" a]
      by (auto simp: mgr_ok_def snap_mgr_release_snapshot_def Let_def distinct_remove1)
  next
    case Next
    then show ?thesis using ok by (simp add: mgr_ok_def snap_mgr_next_seqno_def)
  qed
qed

text \<open>
  The manager knows its oldest snapshot: after any creations, releases and writes the bound
  for the collector is at most the number of every active snapshot, and it is the number of one of
  them or the greatest number; there are never more than 64 of them.
\<close>

theorem oldest_snapshot_is_least:
  assumes "reach (\<lambda>mgr. mgr = snap_mgr_create) mgr_step mgr"
  shows "(\<forall>s \<in> set (active_snapshots mgr). snap_mgr_get_oldest_active mgr \<le> snapshot_seq s) \<and>
    (snap_mgr_get_oldest_active mgr = -1 \<or> snap_mgr_get_oldest_active mgr \<in> snapshot_seq ` set (active_snapshots mgr)) \<and>
    length (active_snapshots mgr) \<le> SNAPSHOT_MAX_STACK"
  using mgr_sys.reach_inv[OF assms] oldest_of_least[of "active_snapshots mgr"]
  by (auto simp: mgr_ok_def snap_mgr_get_oldest_active_def)

theorem oldest_snapshot_is_least_witness:
  "active_snapshots (fold mgr_step [Next, Create (Some 3) 0, Next, Create (Some 4) 0, Release 3] snap_mgr_create) =
     [\<lparr> snap_address = 4, snapshot_seq = 3, create_time_ms = 0 \<rparr>] \<and>
   snap_mgr_get_oldest_active (fold mgr_step [Next, Create (Some 3) 0, Next, Create (Some 4) 0, Release 3] snap_mgr_create) \<le> 3"
proof -
  let ?m = "fold mgr_step [Next, Create (Some 3) 0, Next, Create (Some 4) 0, Release 3] snap_mgr_create"
  have "reach (\<lambda>mgr. mgr = snap_mgr_create) mgr_step ?m" by (intro reach_fold reach_init) simp
  note o = oldest_snapshot_is_least[OF this]
  have "active_snapshots ?m = [\<lparr> snap_address = 4, snapshot_seq = 3, create_time_ms = 0 \<rparr>]"
    by (simp add: snap_mgr_create_def snap_mgr_next_seqno_def snap_mgr_create_snapshot_def snap_mgr_release_snapshot_def
      SNAPSHOT_MAX_STACK_def Let_def split: if_split)
  with o show ?thesis by simp
qed

end
