(* ===== verification/Range_Query.thy ===== *)
theory Range_Query
  imports Sstable
begin

text \<open>
  Range scans over the tables of \<open>mini-file-storage\<close> (\<open>range_query.h\<close>, \<open>range_query.c\<close>). The two
  static variables of the decoder are its state, a \<open>decoder\<close> passed along by every function that
  decodes. Reading outside a buffer, overflowing one, and loops that do not end are \<open>Undefined\<close>;
  allocation is assumed to succeed, and results are given enough room for \<open>max_results\<close> entries.
  The decoder itself cuts values at 1024 bytes; where its caller passes a smaller buffer for the
  value, as the scan does with the 256 bytes of its \<open>last_key\<close>, the call is \<open>decode_kv_into\<close>.
\<close>

definition RANGE_MAX_KEY_LEN :: nat where [c_consts]: "RANGE_MAX_KEY_LEN = 256"
definition RANGE_MAX_VALUE_LEN :: nat where [c_consts]: "RANGE_MAX_VALUE_LEN = 1024"

text \<open>The buffer \<open>last_key\<close> of a scan, into which it decodes the values at restarts.\<close>

definition LAST_KEY_SIZE :: nat where [c_consts]: "LAST_KEY_SIZE = 256"

record key_range =
  start_key :: "byte list"
  start_inclusive :: bool
  end_key :: "byte list"
  end_inclusive :: bool

definition key_compare :: "byte list \<Rightarrow> byte list \<Rightarrow> int" where
  "key_compare a b =
     (let c = memcmp (min (length a) (length b)) a b in
      if c \<noteq> 0 then c
      else if length a < length b then -1
      else if length a > length b then 1
      else 0)"

definition below_start :: "key_range \<Rightarrow> byte list \<Rightarrow> bool" where
  "below_start rng key =
     (if start_inclusive rng then key_compare key (start_key rng) < 0 else key_compare key (start_key rng) \<le> 0)"

definition past_end :: "key_range \<Rightarrow> byte list \<Rightarrow> bool" where
  "past_end rng key =
     (if end_inclusive rng then key_compare key (end_key rng) > 0 else key_compare key (end_key rng) \<ge> 0)"

definition key_in_range :: "byte list \<Rightarrow> key_range \<Rightarrow> bool" where
  "key_in_range key rng = (if below_start rng key then False else if past_end rng key then False else True)"

definition find_start_block :: "sstable \<Rightarrow> key_range \<Rightarrow> nat option" where
  "find_start_block table rng =
     (if index_block table = [] then None
      else
        (let lo = bisect (\<lambda>i. key_compare (start_key rng) (last_key (index_block table ! i)) > 0) 0 (length (index_block table))
         in if lo \<ge> length (index_block table) then None else Some lo))"

section \<open>The decoder\<close>

record decoder =
  prev_key :: "byte list"
  prev_expected_offset :: "32 word"

definition decoder_init :: decoder where
  "decoder_init = \<lparr> prev_key = replicate RANGE_MAX_KEY_LEN 0, prev_expected_offset = 0xFFFFFFFF \<rparr>"

text \<open>A key, its value and the offset of the next entry, or nothing.\<close>

type_synonym decoded = "(byte list \<times> byte list \<times> 32 word) option"

definition decode_kv_from_block :: "data_block \<Rightarrow> 32 word \<Rightarrow> decoder \<Rightarrow> (decoded \<times> decoder) outcome" where
  "decode_kv_from_block db offset dec =
     (if offset \<ge> data_size db then Done (None, dec)
      else
        (case data db of
           None \<Rightarrow> Undefined
         | Some bs \<Rightarrow>
             (case (word_at bs (unat offset), word_at bs (unat (offset + 4)), word_at bs (unat (offset + 8))) of
                (Some shared, Some nonshared, Some vlen) \<Rightarrow>
                  (let pos = offset + 12 in
                   if pos + nonshared + vlen > data_size db then Done (None, dec)
                   else
                     (let prev = (if offset \<noteq> prev_expected_offset dec then replicate RANGE_MAX_KEY_LEN 0 else prev_key dec) in
                      if unat shared > RANGE_MAX_KEY_LEN \<or> unat shared + unat nonshared > RANGE_MAX_KEY_LEN then Undefined
                      else
                        (case slice bs (unat pos) (unat nonshared) of
                           None \<Rightarrow> Undefined
                         | Some rest \<Rightarrow>
                             (let key = take (unat shared) prev @ rest; pos = pos + nonshared;
                                  vlen = (if unat vlen \<le> RANGE_MAX_VALUE_LEN then vlen else of_nat RANGE_MAX_VALUE_LEN) in
                              case slice bs (unat pos) (unat vlen) of
                                None \<Rightarrow> Undefined
                              | Some val \<Rightarrow>
                                  Done (Some (key, val, pos + vlen),
                                        \<lparr> prev_key = key @ drop (length key) prev, prev_expected_offset = pos + vlen \<rparr>)))))
              | _ \<Rightarrow> Undefined)))"

text \<open>Decoding for a caller whose buffer for the value has \<open>room\<close> bytes.\<close>

definition decode_kv_into :: "nat \<Rightarrow> data_block \<Rightarrow> 32 word \<Rightarrow> decoder \<Rightarrow> (decoded \<times> decoder) outcome" where
  "decode_kv_into room db offset dec =
     bind_outcome (decode_kv_from_block db offset dec) (\<lambda>(r, dec).
       case r of
         None \<Rightarrow> Done (None, dec)
       | Some (key, val, pos) \<Rightarrow> if length val > room then Undefined else Done (Some (key, val, pos), dec))"

definition restart_at :: "data_block \<Rightarrow> nat \<Rightarrow> 32 word outcome" where
  "restart_at db i =
     (case restart_offsets db of
        Some offs \<Rightarrow> if i < length offs then Done (offs ! i) else Undefined
      | None \<Rightarrow> Undefined)"

section \<open>Scanning one table\<close>

text \<open>The bisection over the restarts for the first whose key is not below the start.\<close>

function restart_lower :: "data_block \<Rightarrow> key_range \<Rightarrow> nat \<Rightarrow> nat \<Rightarrow> decoder \<Rightarrow> (nat \<times> decoder) outcome" where
  "restart_lower db rng lo hi dec =
     (if lo < hi then
        (let mid = lo + (hi - lo) div 2 in
         case restart_at db mid of
           Done off \<Rightarrow>
             (case decode_kv_into LAST_KEY_SIZE db off dec of
                Done (None, dec) \<Rightarrow> restart_lower db rng (mid + 1) hi dec
              | Done (Some (key, _, _), dec) \<Rightarrow>
                  if key_compare (start_key rng) key > 0 then restart_lower db rng (mid + 1) hi dec
                  else restart_lower db rng lo mid dec
              | Failed \<Rightarrow> Failed
              | Undefined \<Rightarrow> Undefined)
         | Failed \<Rightarrow> Failed
         | Undefined \<Rightarrow> Undefined)
      else Done (lo, dec))"
  by pat_completeness auto
termination
  by (relation "measure (\<lambda>(db, rng, lo, hi, dec). hi - lo)") auto

declare restart_lower.simps [simp del]

text \<open>The loop over the entries of a block from \<open>pos\<close> on; \<open>results\<close> are the entries found so far.\<close>

partial_function (option) scan_from ::
    "data_block \<Rightarrow> key_range \<Rightarrow> nat \<Rightarrow> 32 word \<Rightarrow> kvs \<Rightarrow> decoder \<Rightarrow> (kvs \<times> decoder) outcome option" where
  "scan_from db rng max_results pos results dec =
     (if \<not> (pos < data_size db \<and> length results < max_results) then Some (Done (results, dec))
      else
        (case decode_kv_from_block db pos dec of
           Done (None, dec) \<Rightarrow> Some (Done (results, dec))
         | Done (Some (key, val, pos), dec) \<Rightarrow>
             if past_end rng key then Some (Done (results, dec))
             else scan_from db rng max_results pos
                    (if below_start rng key then results else results @ [(key, val)]) dec
         | Failed \<Rightarrow> Some Failed
         | Undefined \<Rightarrow> Some Undefined))"

definition scan_block :: "data_block \<Rightarrow> key_range \<Rightarrow> nat \<Rightarrow> kvs \<Rightarrow> decoder \<Rightarrow> (kvs \<times> decoder) outcome" where
  "scan_block db rng max_results results dec =
     bind_outcome (restart_lower db rng 0 (unat (num_restarts db)) dec) (\<lambda>(lo, dec).
     bind_outcome (restart_at db (if lo > 0 then lo - 1 else 0)) (\<lambda>pos.
       case scan_from db rng max_results pos results dec of None \<Rightarrow> Undefined | Some r \<Rightarrow> r))"

text \<open>The loop over the blocks from the start block on.\<close>

fun scan_blocks :: "data_block list \<Rightarrow> key_range \<Rightarrow> nat \<Rightarrow> kvs \<Rightarrow> decoder \<Rightarrow> (kvs \<times> decoder) outcome" where
  "scan_blocks [] rng max_results results dec = Done (results, dec)"
| "scan_blocks (db # dbs) rng max_results results dec =
     (if \<not> length results < max_results then Done (results, dec)
      else if num_restarts db = 0 then scan_blocks dbs rng max_results results dec
      else
        bind_outcome (restart_at db 0) (\<lambda>off.
        bind_outcome (decode_kv_into LAST_KEY_SIZE db off dec) (\<lambda>(r, dec).
          case r of
            None \<Rightarrow> scan_blocks dbs rng max_results results dec
          | Some (first_key, _, _) \<Rightarrow>
              (let cmp_end_vs_first = key_compare (end_key rng) first_key in
               if \<not> end_inclusive rng \<and> cmp_end_vs_first \<le> 0 then Done (results, dec)
               else if end_inclusive rng \<and> cmp_end_vs_first < 0 then Done (results, dec)
               else bind_outcome (scan_block db rng max_results results dec)
                      (\<lambda>(results, dec). scan_blocks dbs rng max_results results dec)))))"

text \<open>The return value, the entries found and the state of the decoder.\<close>

definition sstable_range_scan :: "sstable \<Rightarrow> key_range \<Rightarrow> nat \<Rightarrow> decoder \<Rightarrow> (int \<times> kvs \<times> decoder) outcome" where
  "sstable_range_scan table rng max_results dec =
     (if max_results = 0 then Done (-1, [], dec)
      else
        (case find_start_block table rng of
           None \<Rightarrow> Done (0, [], dec)
         | Some start \<Rightarrow>
             bind_outcome (scan_blocks (drop start (data_blocks table)) rng max_results [] dec)
               (\<lambda>(results, dec). Done (0, results, dec))))"

section \<open>Scanning several tables\<close>

text \<open>Every table is scanned into a buffer of 64 entries.\<close>

fun scan_tables :: "sstable list \<Rightarrow> key_range \<Rightarrow> decoder \<Rightarrow> (kvs list \<times> decoder) outcome" where
  "scan_tables [] rng dec = Done ([], dec)"
| "scan_tables (t # ts) rng dec =
     bind_outcome (sstable_range_scan t rng 64 dec) (\<lambda>(_, es, dec).
     bind_outcome (scan_tables ts rng dec) (\<lambda>(ess, dec). Done (es # ess, dec)))"

text \<open>The first of the streams with the smallest next key.\<close>

definition best_stream :: "kvs list \<Rightarrow> nat option" where
  "best_stream streams =
     fold (\<lambda>t best.
        if streams ! t = [] then best
        else (case best of
                None \<Rightarrow> Some t
              | Some b \<Rightarrow> if key_compare (fst (hd (streams ! t))) (fst (hd (streams ! b))) < 0 then Some t else best))
       [0..<length streams] None"

lemma stream_advance:
  "b < length xss \<Longrightarrow> xss ! b \<noteq> [] \<Longrightarrow>
   sum_list (map length (xss[b := tl (xss ! b)])) < sum_list (map length xss)"
proof (induction xss arbitrary: b)
  case (Cons xs xss)
  then show ?case by (cases b) auto
qed simp

text \<open>The results are kept in order; a repeated key overwrites the value of the last one.\<close>

function merge_streams :: "nat \<Rightarrow> kvs list \<Rightarrow> kvs \<Rightarrow> kvs" where
  "merge_streams max_results streams results =
     (if \<not> length results < max_results then results
      else
        (case best_stream streams of
           None \<Rightarrow> results
         | Some b \<Rightarrow>
             if \<not> (b < length streams \<and> streams ! b \<noteq> []) then results
             else
               (let e = hd (streams ! b); streams = streams[b := tl (streams ! b)] in
                if results \<noteq> [] \<and> fst (last results) = fst e
                then merge_streams max_results streams (butlast results @ [e])
                else merge_streams max_results streams (results @ [e]))))"
  by pat_completeness auto
termination
  by (relation "measure (\<lambda>(m, streams, r). sum_list (map length streams))") (simp_all add: stream_advance)

declare merge_streams.simps [simp del]

definition sstable_multi_range_scan :: "sstable list \<Rightarrow> key_range \<Rightarrow> nat \<Rightarrow> decoder \<Rightarrow> (int \<times> kvs \<times> decoder) outcome" where
  "sstable_multi_range_scan tables rng max_results dec =
     (if tables = [] then Done (-1, [], dec)
      else bind_outcome (scan_tables tables rng dec)
             (\<lambda>(streams, dec). Done (0, merge_streams max_results streams [], dec)))"

section \<open>The iterator\<close>

record range_iterator =
  it_table :: sstable
  it_range :: key_range
  current_block_idx :: nat
  current_data_offset :: "32 word"
  num_data_blocks :: nat
  it_exhausted :: bool

definition range_iterator_create :: "sstable \<Rightarrow> key_range \<Rightarrow> range_iterator outcome" where
  "range_iterator_create table rng =
     (let iter = \<lparr> it_table = table, it_range = rng, current_block_idx = 0, current_data_offset = 0,
                   num_data_blocks = 0, it_exhausted = False \<rparr>
      in case find_start_block table rng of
           None \<Rightarrow> Done (iter\<lparr> it_exhausted := True \<rparr>)
         | Some start \<Rightarrow>
             (let iter = iter\<lparr> current_block_idx := start, num_data_blocks := length (data_blocks table) \<rparr> in
              if num_restarts (data_blocks table ! start) > 0
              then bind_outcome (restart_at (data_blocks table ! start) 0)
                     (\<lambda>off. Done (iter\<lparr> current_data_offset := off \<rparr>))
              else Done (iter\<lparr> it_exhausted := True \<rparr>)))"

partial_function (option) iterator_loop ::
    "range_iterator \<Rightarrow> decoder \<Rightarrow> ((byte list \<times> byte list) option \<times> range_iterator \<times> decoder) outcome option" where
  "iterator_loop iter dec =
     (if \<not> current_block_idx iter < num_data_blocks iter then Some (Done (None, iter\<lparr> it_exhausted := True \<rparr>, dec))
      else
        (let blocks = data_blocks (it_table iter); db = blocks ! current_block_idx iter;
             forward = iter\<lparr> current_block_idx := current_block_idx iter + 1 \<rparr> in
         if num_restarts db = 0 then iterator_loop forward dec
         else if current_data_offset iter \<ge> data_size db
         then (if current_block_idx forward < num_data_blocks iter \<and> num_restarts (blocks ! current_block_idx forward) > 0
               then (case restart_at (blocks ! current_block_idx forward) 0 of
                       Done off \<Rightarrow> iterator_loop (forward\<lparr> current_data_offset := off \<rparr>) dec
                     | Failed \<Rightarrow> Some Failed
                     | Undefined \<Rightarrow> Some Undefined)
               else iterator_loop forward dec)
         else
           (case decode_kv_from_block db (current_data_offset iter) dec of
              Done (None, dec) \<Rightarrow> iterator_loop forward dec
            | Done (Some (key, val, next_off), dec) \<Rightarrow>
                (let iter = iter\<lparr> current_data_offset := next_off \<rparr> in
                 if \<not> key_in_range key (it_range iter)
                 then if past_end (it_range iter) key then Some (Done (None, iter\<lparr> it_exhausted := True \<rparr>, dec))
                      else iterator_loop iter dec
                 else Some (Done (Some (key, val), iter, dec)))
            | Failed \<Rightarrow> Some Failed
            | Undefined \<Rightarrow> Some Undefined)))"

definition range_iterator_next ::
    "range_iterator \<Rightarrow> decoder \<Rightarrow> ((byte list \<times> byte list) option \<times> range_iterator \<times> decoder) outcome" where
  "range_iterator_next iter dec =
     (if it_exhausted iter then Done (None, iter, dec)
      else (case iterator_loop iter dec of None \<Rightarrow> Undefined | Some r \<Rightarrow> r))"

section \<open>Filtering\<close>

fun range_filter_loop :: "(byte list \<Rightarrow> byte list \<Rightarrow> bool) \<Rightarrow> nat \<Rightarrow> kvs \<Rightarrow> kvs \<Rightarrow> kvs" where
  "range_filter_loop keep max_filtered [] out = out"
| "range_filter_loop keep max_filtered ((k, v) # es) out =
     (if length out < max_filtered
      then range_filter_loop keep max_filtered es (if keep k v then out @ [(k, v)] else out)
      else out)"

definition range_filter :: "(byte list \<Rightarrow> byte list \<Rightarrow> bool) \<Rightarrow> nat \<Rightarrow> kvs \<Rightarrow> kvs" where
  "range_filter keep max_filtered entries = range_filter_loop keep max_filtered entries []"

section \<open>Ranges\<close>

lemma key_compare_cmp: "key_compare a b = key_cmp a b"
  by (simp add: key_compare_def key_cmp_def Let_def)

lemma below_start_iff: "below_start rng k \<longleftrightarrow> (if start_inclusive rng then k < start_key rng else k \<le> start_key rng)"
  by (simp add: below_start_def key_compare_cmp)

lemma past_end_iff: "past_end rng k \<longleftrightarrow> (if end_inclusive rng then end_key rng < k else end_key rng \<le> k)"
  using key_cmp_iff(1)[of k "end_key rng"] by (auto simp: past_end_def key_compare_cmp not_less[symmetric] simp del: key_cmp_iff(1))

lemma below_less: "k < start_key rng \<Longrightarrow> below_start rng k"
  by (auto simp: below_start_iff)

lemma past_end_mono: "past_end rng k \<Longrightarrow> k \<le> k' \<Longrightarrow> past_end rng k'"
  by (auto simp: past_end_iff split: if_splits)

lemma key_in_range_iff: "key_in_range k rng \<longleftrightarrow> \<not> below_start rng k \<and> \<not> past_end rng k"
  by (simp add: key_in_range_def)

text \<open>The entries of a list that a scan should find.\<close>

definition hits :: "key_range \<Rightarrow> kvs \<Rightarrow> kvs" where
  "hits rng kvs = filter (\<lambda>(k, v). key_in_range k rng) kvs"

lemma hits_append [simp]: "hits rng (xs @ ys) = hits rng xs @ hits rng ys"
  by (simp add: hits_def)

lemma hits_Cons: "hits rng ((k, v) # kvs) = (if key_in_range k rng then (k, v) # hits rng kvs else hits rng kvs)"
  by (simp add: hits_def)

lemma hits_Nil [simp]: "hits rng [] = []"
  by (simp add: hits_def)

lemma hits_below: "\<forall>x \<in> set kvs. fst x < start_key rng \<Longrightarrow> hits rng kvs = []"
  by (auto simp: hits_def filter_empty_conv key_in_range_iff below_less)

lemma hits_past: "past_end rng k \<Longrightarrow> \<forall>x \<in> set kvs. k \<le> fst x \<Longrightarrow> hits rng kvs = []"
  by (auto simp: hits_def filter_empty_conv key_in_range_iff dest: past_end_mono)

section \<open>Decoding the entries of a block\<close>

definition offset_of :: "kvs \<Rightarrow> nat \<Rightarrow> nat" where
  "offset_of g i = length (entries_bytes 0 [] (take i g))"

definition before_key :: "kvs \<Rightarrow> nat \<Rightarrow> byte list" where
  "before_key g i = last_of [] (take i g)"

text \<open>Blocks whose sizes fit their fields and whose keys are in order.\<close>

definition good_block :: "kvs \<Rightarrow> bool" where
  "good_block g \<longleftrightarrow> g \<noteq> [] \<and> small g \<and> block_fits_words g \<and> sorted_wrt (<) (map fst g)"

lemma entry_at_Some:
  assumes "entry_at bs pos prev = Some (k, vlen, p)"
  shows "\<exists>shared nonshared rest. word_at bs (unat pos) = Some shared \<and> word_at bs (unat (pos + 4)) = Some nonshared \<and>
    word_at bs (unat (pos + 8)) = Some vlen \<and> slice bs (unat (pos + 12)) (unat nonshared) = Some rest \<and>
    unat shared \<le> length prev \<and> unat shared + unat nonshared \<le> MAX_KEY_SIZE \<and> k = take (unat shared) prev @ rest \<and>
    p = pos + 12 + nonshared"
  using assms by (auto simp: entry_at_def Let_def not_less split: option.splits if_splits)

lemma offset_Suc:
  assumes "i < length g"
  shows "entries_bytes 0 [] g = entries_bytes 0 [] (take i g) @
      entry_bytes i (before_key g i) (fst (g ! i)) (snd (g ! i)) @ entries_bytes (Suc i) (fst (g ! i)) (drop (Suc i) g)"
    "offset_of g (Suc i) = length (entries_bytes 0 [] (take i g) @ entry_bytes i (before_key g i) (fst (g ! i)) (snd (g ! i)))"
proof -
  have t: "take (Suc i) g = take i g @ [g ! i]" using assms by (rule take_Suc_conv_app_nth)
  obtain k v where kv: "g ! i = (k, v)" by fastforce
  then show "offset_of g (Suc i) = length (entries_bytes 0 [] (take i g) @ entry_bytes i (before_key g i) (fst (g ! i)) (snd (g ! i)))"
    using assms by (simp add: offset_of_def t entries_bytes_append before_key_def)
  have "g = take i g @ (k, v) # drop (Suc i) g" using assms kv by (metis id_take_nth_drop)
  then have "entries_bytes 0 [] g = entries_bytes 0 [] (take i g @ (k, v) # drop (Suc i) g)" by simp
  then show "entries_bytes 0 [] g = entries_bytes 0 [] (take i g) @
      entry_bytes i (before_key g i) (fst (g ! i)) (snd (g ! i)) @ entries_bytes (Suc i) (fst (g ! i)) (drop (Suc i) g)"
    using assms kv by (simp add: entries_bytes_append before_key_def)
qed

lemma offset_le: "offset_of g i \<le> length (entries_bytes 0 [] g)"
proof -
  have "g = take i g @ drop i g" by simp
  then have "length (entries_bytes 0 [] g) = length (entries_bytes 0 [] (take i g @ drop i g))" by simp
  then show ?thesis by (simp only: entries_bytes_append length_append offset_of_def)
qed

text \<open>The buffer the decoder reconstructs a key from.\<close>

definition decode_buffer :: "decoder \<Rightarrow> 32 word \<Rightarrow> byte list" where
  "decode_buffer dec off = (if off \<noteq> prev_expected_offset dec then replicate RANGE_MAX_KEY_LEN 0 else prev_key dec)"

lemma decode_entry_at:
  assumes "i < length g" "block_fits_words g"
    and e: "entry_at (entries_bytes 0 [] g) (of_nat (offset_of g i)) (decode_buffer dec (of_nat (offset_of g i))) =
      Some (k, of_nat (length v), p)"
    and v: "slice (entries_bytes 0 [] g) (unat p) (length v) = Some v" "p + of_nat (length v) = of_nat (offset_of g (Suc i))"
      "unat (of_nat (length v) :: 32 word) = length v" "length v \<le> MAX_VALUE_SIZE"
  shows "decode_kv_from_block (block_of g) (of_nat (offset_of g i)) dec =
    Done (Some (k, v, of_nat (offset_of g (Suc i))),
      \<lparr> prev_key = k @ drop (length k) (decode_buffer dec (of_nat (offset_of g i))), prev_expected_offset = of_nat (offset_of g (Suc i)) \<rparr>)"
proof -
  let ?bs = "entries_bytes 0 [] g" and ?off = "of_nat (offset_of g i) :: 32 word"
  have len: "length ?bs < 2 ^ 32" using assms(2) by (simp add: block_fits_words_def)
  have u: "unat (of_nat (length ?bs) :: 32 word) = length ?bs" "unat (of_nat (offset_of g (Suc i)) :: 32 word) = offset_of g (Suc i)"
    "unat ?off = offset_of g i"
    using len offset_le[of g i] offset_le[of g "Suc i"] by (intro unat_small; simp)+
  have "offset_of g i < offset_of g (Suc i)" using offset_Suc(2)[OF assms(1)] by (simp add: offset_of_def entry_bytes_eq)
  then have "\<not> ?off \<ge> data_size (block_of g)"
    using u offset_le[of g "Suc i"] by (simp add: block_of_sel word_le_nat_alt)
  moreover have "\<not> of_nat (offset_of g (Suc i)) > data_size (block_of g)"
    using u offset_le[of g "Suc i"] by (simp add: block_of_sel word_less_nat_alt)
  moreover from entry_at_Some[OF e] obtain s d rest where
    w: "word_at ?bs (unat ?off) = Some s" "word_at ?bs (unat (?off + 4)) = Some d" "word_at ?bs (unat (?off + 8)) = Some (of_nat (length v))"
    "slice ?bs (unat (?off + 12)) (unat d) = Some rest" "unat s + unat d \<le> MAX_KEY_SIZE"
    "k = take (unat s) (decode_buffer dec ?off) @ rest" "p = ?off + 12 + d" by blast
  moreover have "?off + 12 + d + of_nat (length v) = of_nat (offset_of g (Suc i))" using v(2) w(7) by simp
  ultimately show ?thesis
    using v unfolding decode_kv_from_block_def block_of_sel
    by (simp add: decode_buffer_def RANGE_MAX_KEY_LEN_def RANGE_MAX_VALUE_LEN_def MAX_KEY_SIZE_def MAX_VALUE_SIZE_def Let_def)
qed

text \<open>The decoder can read entry \<open>i\<close>: it is a restart, or the entry before it was read last.\<close>

definition dec_ready :: "kvs \<Rightarrow> nat \<Rightarrow> decoder \<Rightarrow> bool" where
  "dec_ready g i dec \<longleftrightarrow> length (prev_key dec) = RANGE_MAX_KEY_LEN \<and>
     (i mod RESTART_INTERVAL = 0 \<or>
      prev_expected_offset dec = of_nat (offset_of g i) \<and> take (length (before_key g i)) (prev_key dec) = before_key g i)"

lemma decode_entry:
  assumes "i < length g" "good_block g" "dec_ready g i dec"
  shows "\<exists>dec'. decode_kv_from_block (block_of g) (of_nat (offset_of g i)) dec =
    Done (Some (fst (g ! i), snd (g ! i), of_nat (offset_of g (Suc i))), dec') \<and> dec_ready g (Suc i) dec' \<and>
    prev_expected_offset dec' = of_nat (offset_of g (Suc i))"
proof -
  let ?bs = "entries_bytes 0 [] g" and ?b = "decode_buffer dec (of_nat (offset_of g i))"
  have len: "length ?bs < 2 ^ 32" and fit: "block_fits_words g" using assms(2) by (simp_all add: good_block_def block_fits_words_def)
  have sz: "length (fst (g ! i)) \<le> MAX_KEY_SIZE" "length (snd (g ! i)) \<le> MAX_VALUE_SIZE"
    using assms(2) nth_mem[OF assms(1)] by (cases "g ! i"; fastforce simp: good_block_def small_def)+
  have lb: "length ?b = RANGE_MAX_KEY_LEN" using assms(3) by (simp add: decode_buffer_def dec_ready_def)
  have buf: "buffer_ok i (before_key g i) ?b" using assms(3) by (auto simp: buffer_ok_def dec_ready_def decode_buffer_def)
  from entry_at_bytes[OF offset_Suc(1)[OF assms(1)] len buf sz] obtain p where
    "entry_at ?bs (of_nat (offset_of g i)) ?b = Some (fst (g ! i), of_nat (length (snd (g ! i))), p)"
    "slice ?bs (unat p) (length (snd (g ! i))) = Some (snd (g ! i))"
    "p + of_nat (length (snd (g ! i))) = of_nat (offset_of g (Suc i))"
    "unat (of_nat (length (snd (g ! i))) :: 32 word) = length (snd (g ! i))"
    unfolding offset_of_def[of g i, symmetric] offset_Suc(2)[OF assms(1), symmetric] by blast
  note d = decode_entry_at[OF assms(1) fit this sz(2)]
  have "before_key g (Suc i) = fst (g ! i)"
    using assms(1) by (simp add: before_key_def last_of_def take_Suc_conv_app_nth)
  then show ?thesis using d lb sz(1)
    by (simp add: dec_ready_def RANGE_MAX_KEY_LEN_def MAX_KEY_SIZE_def)
qed

lemma decode_into_fits:
  "decode_kv_from_block db off dec = Done (Some (k, v, p), dec') \<Longrightarrow> length v \<le> room \<Longrightarrow>
   decode_kv_into room db off dec = Done (Some (k, v, p), dec')"
  by (simp add: decode_kv_into_def)

lemma decode_into_overflows:
  "decode_kv_from_block db off dec = Done (Some (k, v, p), dec') \<Longrightarrow> room < length v \<Longrightarrow> decode_kv_into room db off dec = Undefined"
  by (simp add: decode_kv_into_def)

section \<open>Scanning a block\<close>

text \<open>The values at the restarts of a block fit the buffer of 256 bytes a scan has for them.\<close>

definition restarts_fit :: "kvs \<Rightarrow> bool" where
  "restarts_fit g \<longleftrightarrow> (\<forall>i < length g. i mod RESTART_INTERVAL = 0 \<longrightarrow> length (snd (g ! i)) \<le> LAST_KEY_SIZE)"

lemma restarts_fit_at: "restarts_fit g \<Longrightarrow> 16 * i < length g \<Longrightarrow> length (snd (g ! (16 * i))) \<le> LAST_KEY_SIZE"
  by (simp add: restarts_fit_def RESTART_INTERVAL_def)

lemma short_values_fit: "\<forall>x \<in> set g. length (snd x) \<le> LAST_KEY_SIZE \<Longrightarrow> restarts_fit g"
  by (simp add: restarts_fit_def)

lemma scan_from_done:
  "\<not> (pos < data_size db \<and> length results < m) \<Longrightarrow> scan_from db rng m pos results dec = Some (Done (results, dec))"
  by (subst scan_from.simps) simp

lemma offset_before_end:
  assumes "i < length g" "block_fits_words g"
  shows "of_nat (offset_of g i) < data_size (block_of g)"
proof -
  have "offset_of g i < offset_of g (Suc i)" using offset_Suc(2)[OF assms(1)] by (simp add: offset_of_def entry_bytes_eq)
  then have "offset_of g i < length (entries_bytes 0 [] g)" using offset_le[of g "Suc i"] by simp
  moreover have "length (entries_bytes 0 [] g) < 2 ^ 32" using assms(2) by (simp add: block_fits_words_def)
  ultimately show ?thesis
    using unat_small[of "offset_of g i"] unat_small[of "length (entries_bytes 0 [] g)"] by (simp add: block_of_sel word_less_nat_alt)
qed

lemma hits_drop:
  assumes "i < length g"
  shows "hits rng (drop i g) = (if key_in_range (fst (g ! i)) rng then g ! i # hits rng (drop (Suc i) g) else hits rng (drop (Suc i) g))"
proof -
  have "drop i g = g ! i # drop (Suc i) g" using assms by (simp add: Cons_nth_drop_Suc)
  then show ?thesis by (cases "g ! i") (simp add: hits_Cons)
qed

lemma later_keys:
  fixes g :: kvs
  assumes "sorted_wrt (<) (map fst g)" "i < length g"
  shows "\<forall>x \<in> set (drop i g). fst (g ! i) \<le> fst x"
proof -
  have "sorted_wrt (<) (map fst (drop i g))" using assms(1) by (metis drop_map sorted_wrt_drop)
  moreover have "drop i g = g ! i # drop (Suc i) g" using assms(2) by (simp add: Cons_nth_drop_Suc)
  ultimately show ?thesis by auto
qed

lemma scan_from_block:
  assumes "good_block g" "i \<le> length g" "i < length g \<longrightarrow> dec_ready g i dec" "length (prev_key dec) = RANGE_MAX_KEY_LEN"
  shows "\<exists>dec'. scan_from (block_of g) rng m (of_nat (offset_of g i)) results dec =
    Some (Done (results @ take (m - length results) (hits rng (drop i g)), dec')) \<and> length (prev_key dec') = RANGE_MAX_KEY_LEN"
  using assms
proof (induction "length g - i" arbitrary: i results dec)
  case 0
  then have "i = length g" by simp
  then show ?case using 0 by (subst scan_from_done) (simp_all add: offset_of_def block_of_sel)
next
  case (Suc n)
  then have i: "i < length g" and fit: "block_fits_words g" by (simp_all add: good_block_def)
  have srt: "sorted_wrt (<) (map fst g)" using Suc.prems(1) by (simp add: good_block_def)
  show ?case
  proof (cases "length results < m")
    case False
    then show ?thesis using Suc.prems by (subst scan_from_done) simp_all
  next
    case True
    from decode_entry[OF i Suc.prems(1)] Suc.prems(3) i obtain dec1 where
      d: "decode_kv_from_block (block_of g) (of_nat (offset_of g i)) dec = Done (Some (fst (g ! i), snd (g ! i), of_nat (offset_of g (Suc i))), dec1)"
      and r: "dec_ready g (Suc i) dec1" by blast
    then have len: "length (prev_key dec1) = RANGE_MAX_KEY_LEN" by (simp add: dec_ready_def)
    note b = offset_before_end[OF i fit]
    let ?k = "fst (g ! i)"
    show ?thesis
    proof (cases "past_end rng ?k")
      case past: True
      then have "hits rng (drop i g) = []" using later_keys[OF srt i] by (rule hits_past)
      then show ?thesis using True b d past len by (subst scan_from.simps) simp
    next
      case False
      have step: "scan_from (block_of g) rng m (of_nat (offset_of g i)) results dec =
          scan_from (block_of g) rng m (of_nat (offset_of g (Suc i)))
            (if below_start rng ?k then results else results @ [g ! i]) dec1"
        using True b d False by (subst scan_from.simps) simp
      note IH = Suc.hyps(1)[of "Suc i", OF _ Suc.prems(1) _ _ len]
      show ?thesis
      proof (cases "below_start rng ?k")
        case below: True
        then show ?thesis using IH[of results] step Suc.hyps(2) i r hits_drop[OF i, of rng] by (simp add: key_in_range_iff)
      next
        case above: False
        have "m - length results = Suc (m - length (results @ [g ! i]))" using True by simp
        then show ?thesis using IH[of "results @ [g ! i]"] step Suc.hyps(2) i r hits_drop[OF i, of rng] False above
          by (simp add: key_in_range_iff)
      qed
    qed
  qed
qed

text \<open>The restart the scan begins at: no entry before it is in the range.\<close>

lemma restart_at_block:
  assumes "16 * r < length g"
  shows "restart_at (block_of g) r = Done (of_nat (offset_of g (16 * r)))"
  using assms by (simp add: restart_at_def block_of_sel restart_count_iff restart_offset_def offset_of_def)

lemma restart_lower_block:
  assumes "good_block g" "length (prev_key dec) = RANGE_MAX_KEY_LEN" "hi \<le> restart_count g" "lo \<le> hi"
    and fits: "restarts_fit g"
    and "\<forall>i < lo. fst (g ! (16 * i)) < start_key rng"
  shows "\<exists>r dec'. restart_lower (block_of g) rng lo hi dec = Done (r, dec') \<and> r \<le> hi \<and> length (prev_key dec') = RANGE_MAX_KEY_LEN \<and>
    (\<forall>i < r. fst (g ! (16 * i)) < start_key rng)"
  using assms(1-4,6)
proof (induction "hi - lo" arbitrary: lo hi dec rule: less_induct)
  case less
  show ?case
  proof (cases "lo < hi")
    case False
    then show ?thesis using less.prems by (subst restart_lower.simps) auto
  next
    case True
    define mid where "mid = lo + (hi - lo) div 2"
    have mid: "lo \<le> mid" "mid < hi" using True by (auto simp: mid_def)
    then have m: "16 * mid < length g" using less.prems(3) by (simp add: restart_count_iff[symmetric])
    have "dec_ready g (16 * mid) dec" using less.prems(2) by (simp add: dec_ready_def RESTART_INTERVAL_def)
    from decode_entry[OF m less.prems(1) this] obtain dec1 where
      d: "decode_kv_from_block (block_of g) (of_nat (offset_of g (16 * mid))) dec =
        Done (Some (fst (g ! (16 * mid)), snd (g ! (16 * mid)), of_nat (offset_of g (Suc (16 * mid)))), dec1)"
      and l: "length (prev_key dec1) = RANGE_MAX_KEY_LEN" by (auto simp: dec_ready_def)
    note d' = decode_into_fits[OF d restarts_fit_at[OF fits m]]
    have srt: "sorted_wrt (<) (map fst g)" using less.prems(1) by (simp add: good_block_def)
    have e: "restart_lower (block_of g) rng lo hi dec =
        (if fst (g ! (16 * mid)) < start_key rng then restart_lower (block_of g) rng (mid + 1) hi dec1
         else restart_lower (block_of g) rng lo mid dec1)"
      using True by (subst restart_lower.simps) (simp add: mid_def[symmetric] restart_at_block[OF m] d' key_compare_cmp Let_def)
    show ?thesis
    proof (cases "fst (g ! (16 * mid)) < start_key rng")
      case below: True
      have "fst (g ! (16 * i)) < start_key rng" if "i < mid + 1" for i
      proof (cases "i = mid")
        case False
        then have "fst (g ! (16 * i)) < fst (g ! (16 * mid))"
          using sorted_wrt_nth_less[OF srt, of "16 * i" "16 * mid"] that m by simp
        with below show ?thesis by simp
      qed (use below in simp)
      then show ?thesis using less.hyps[of hi "mid + 1", OF _ less.prems(1) l less.prems(3)] e below mid by auto
    next
      case False
      have "\<exists>r dec'. restart_lower (block_of g) rng lo mid dec1 = Done (r, dec') \<and> r \<le> mid \<and>
          length (prev_key dec') = RANGE_MAX_KEY_LEN \<and> (\<forall>i < r. fst (g ! (16 * i)) < start_key rng)"
        using mid less.prems by (intro less.hyps[OF _ less.prems(1) l]) auto
      with e False mid show ?thesis by fastforce
    qed
  qed
qed

lemma scan_block_hits:
  assumes g: "good_block g" and l: "length (prev_key dec) = RANGE_MAX_KEY_LEN" and fits: "restarts_fit g"
  shows "\<exists>dec'. scan_block (block_of g) rng m results dec = Done (results @ take (m - length results) (hits rng g), dec') \<and>
    length (prev_key dec') = RANGE_MAX_KEY_LEN"
proof -
  have fit: "block_fits_words g" and srt: "sorted_wrt (<) (map fst g)" and ne: "g \<noteq> []" using g by (simp_all add: good_block_def)
  have n: "unat (num_restarts (block_of g)) = restart_count g"
    using fit restart_count_le[of g] unat_small[of "restart_count g"] by (simp add: block_of_sel block_fits_words_def)
  from restart_lower_block[OF g l order_refl _ fits, of 0 rng] obtain r dec1 where
    r: "restart_lower (block_of g) rng 0 (restart_count g) dec = Done (r, dec1)" "r \<le> restart_count g"
    "length (prev_key dec1) = RANGE_MAX_KEY_LEN" "\<forall>i < r. fst (g ! (16 * i)) < start_key rng" by auto
  define q where "q = (if r > 0 then r - 1 else 0)"
  have q: "16 * q < length g" using r(2) ne by (auto simp: q_def restart_count_iff[symmetric]) (simp add: restart_count_iff)
  have "dec_ready g (16 * q) dec1" using r(3) by (simp add: dec_ready_def RESTART_INTERVAL_def)
  from scan_from_block[OF g less_imp_le[OF q] _ r(3), of rng m results] this obtain dec2 where
    s: "scan_from (block_of g) rng m (of_nat (offset_of g (16 * q))) results dec1 =
      Some (Done (results @ take (m - length results) (hits rng (drop (16 * q) g)), dec2))"
    "length (prev_key dec2) = RANGE_MAX_KEY_LEN" by auto
  have "hits rng (take (16 * q) g) = []"
  proof (rule hits_below, rule ballI)
    fix x assume "x \<in> set (take (16 * q) g)"
    then obtain j where j: "j < 16 * q" "x = g ! j" using q by (auto simp: in_set_conv_nth)
    then have "fst x < fst (g ! (16 * q))" using sorted_wrt_nth_less[OF srt, of j "16 * q"] q by simp
    also have "q < r" using j(1) by (auto simp: q_def split: if_splits)
    then have "fst (g ! (16 * q)) < start_key rng" using r(4) by simp
    finally show "fst x < start_key rng" .
  qed
  then have "hits rng (drop (16 * q) g) = hits rng g" using hits_append[of rng "take (16 * q) g" "drop (16 * q) g"] by simp
  then show ?thesis using r(1) n s restart_at_block[OF q] by (simp add: scan_block_def q_def)
qed

section \<open>Scanning a table\<close>

lemma groups_good:
  assumes "small kvs" "length kvs \<le> 2 ^ 20" "sorted_wrt (<) (map fst kvs)"
  shows "\<forall>g \<in> set (groups kvs). good_block g"
proof
  fix g assume g: "g \<in> set (groups kvs)"
  note ok = groups_ok[OF assms(1) g]
  have "sorted_wrt (<) (map fst (concat (groups kvs)))" using assms(3) by simp
  then have "sorted_wrt (<) (map fst g)" using split_list[OF g] by (auto simp: sorted_wrt_append simp del: concat_groups)
  then show "good_block g" using ok assms(2) by (simp add: good_block_def block_fits_words_def)
qed

lemma first_entry:
  assumes "good_block g" "length (prev_key dec) = RANGE_MAX_KEY_LEN"
  shows "num_restarts (block_of g) \<noteq> 0 \<and> restart_at (block_of g) 0 = Done 0 \<and>
    (\<exists>dec'. decode_kv_from_block (block_of g) 0 dec = Done (Some (fst (hd g), snd (hd g), of_nat (offset_of g 1)), dec') \<and>
       length (prev_key dec') = RANGE_MAX_KEY_LEN)"
proof -
  have ne: "0 < length g" using assms(1) by (simp add: good_block_def)
  have "dec_ready g 0 dec" using assms(2) by (simp add: dec_ready_def)
  from decode_entry[OF ne assms(1) this] obtain dec' where
    d: "decode_kv_from_block (block_of g) (of_nat (offset_of g 0)) dec = Done (Some (fst (g ! 0), snd (g ! 0), of_nat (offset_of g (Suc 0))), dec')"
      "dec_ready g (Suc 0) dec'" by blast
  have "unat (num_restarts (block_of g)) = restart_count g"
    using assms(1) restart_count_le[of g] unat_small[of "restart_count g"]
    by (simp add: good_block_def block_of_sel block_fits_words_def)
  moreover have "0 < restart_count g" using ne by (simp add: restart_count_iff)
  ultimately have "num_restarts (block_of g) \<noteq> 0" by (metis less_irrefl unat_0)
  moreover have "offset_of g 0 = 0" by (simp add: offset_of_def)
  ultimately show ?thesis using d restart_at_block[of 0 g] ne by (auto simp: hd_conv_nth dec_ready_def)
qed

lemma later_blocks:
  fixes gs :: "kvs list"
  assumes "sorted_wrt (<) (map fst (concat (g # gs)))" "g \<noteq> []"
  shows "\<forall>x \<in> set (concat (g # gs)). fst (hd g) \<le> fst x"
proof -
  obtain e es where "g = e # es" using assms(2) by (cases g) auto
  then have c: "concat (g # gs) = e # (es @ concat gs)" "hd g = e" by simp_all
  then have less: "\<forall>y \<in> set (map fst (es @ concat gs)). fst e < y" using assms(1) by simp
  have "fst e \<le> fst x" if "x \<in> set (es @ concat gs)" for x
    using less that unfolding set_map by (blast intro: less_imp_le)
  then show ?thesis unfolding c by simp
qed

lemma scan_blocks_hits:
  assumes "\<forall>g \<in> set gs. good_block g \<and> restarts_fit g" "sorted_wrt (<) (map fst (concat gs))" "length (prev_key dec) = RANGE_MAX_KEY_LEN"
  shows "\<exists>dec'. scan_blocks (map block_of gs) rng m results dec =
    Done (results @ take (m - length results) (hits rng (concat gs)), dec') \<and> length (prev_key dec') = RANGE_MAX_KEY_LEN"
  using assms
proof (induction gs arbitrary: results dec)
  case (Cons g gs)
  have g: "good_block g" "g \<noteq> []" and fits: "restarts_fit g" using Cons.prems(1) by (simp_all add: good_block_def)
  have v: "length (snd (hd g)) \<le> LAST_KEY_SIZE" using restarts_fit_at[OF fits, of 0] g(2) by (simp add: hd_conv_nth)
  show ?case
  proof (cases "length results < m")
    case True
    from first_entry[OF g(1) Cons.prems(3)] obtain dec1 where
      f: "num_restarts (block_of g) \<noteq> 0" "restart_at (block_of g) 0 = Done 0"
      "decode_kv_into LAST_KEY_SIZE (block_of g) 0 dec = Done (Some (fst (hd g), snd (hd g), of_nat (offset_of g 1)), dec1)"
      "length (prev_key dec1) = RANGE_MAX_KEY_LEN" using decode_into_fits[OF _ v] by blast
    have stop: "(\<not> end_inclusive rng \<and> key_compare (end_key rng) (fst (hd g)) \<le> 0 \<or>
        end_inclusive rng \<and> key_compare (end_key rng) (fst (hd g)) < 0) \<longleftrightarrow> past_end rng (fst (hd g))"
      by (auto simp: past_end_iff key_compare_cmp)
    show ?thesis
    proof (cases "past_end rng (fst (hd g))")
      case past: True
      then have "hits rng (concat (g # gs)) = []" using later_blocks[OF Cons.prems(2) g(2)] by (rule hits_past)
      then show ?thesis using f past stop True by (auto simp: Let_def)
    next
      case False
      from scan_block_hits[OF g(1) f(4) fits, of rng m results] obtain dec2 where
        s: "scan_block (block_of g) rng m results dec1 = Done (results @ take (m - length results) (hits rng g), dec2)"
        "length (prev_key dec2) = RANGE_MAX_KEY_LEN" by blast
      let ?res = "results @ take (m - length results) (hits rng g)"
      have "sorted_wrt (<) (map fst (concat gs))" using Cons.prems(2) by (simp add: sorted_wrt_append)
      from Cons.IH[OF _ this s(2), of ?res] Cons.prems(1) obtain dec3 where
        "scan_blocks (map block_of gs) rng m ?res dec2 = Done (?res @ take (m - length ?res) (hits rng (concat gs)), dec3)"
        "length (prev_key dec3) = RANGE_MAX_KEY_LEN" by auto
      moreover have "?res @ take (m - length ?res) (hits rng (concat gs)) = results @ take (m - length results) (hits rng (concat (g # gs)))"
        using True by (cases "length (hits rng g) \<le> m - length results") simp_all
      ultimately show ?thesis using f False stop True s(1) by (simp add: Let_def) metis
    qed
  qed (use Cons.prems in simp)
qed simp

lemma find_start_index: "index_block t \<noteq> [] \<Longrightarrow> find_start_block t rng =
    (if index_search (index_block t) (start_key rng) \<ge> length (index_block t) then None
     else Some (index_search (index_block t) (start_key rng)))"
  by (simp add: find_start_block_def index_search_def key_compare_cmp Let_def)

text \<open>The blocks before the start block hold nothing in the range.\<close>

lemma start_block:
  assumes "small kvs" "length kvs \<le> 2 ^ 20" "sorted_wrt (<) (map fst kvs)"
  defines "gs \<equiv> groups kvs"
  shows "case find_start_block (table_of n kvs) rng of
      None \<Rightarrow> hits rng kvs = []
    | Some j \<Rightarrow> j < length gs \<and> hits rng kvs = hits rng (concat (drop j gs))"
proof (cases "kvs = []")
  case True
  then show ?thesis by (simp add: find_start_block_def table_of_def groups.simps[of "[]"])
next
  case False
  define P where "P = (\<lambda>g :: kvs. fst (last g) < start_key rng)"
  have ne: "\<forall>g \<in> set gs. g \<noteq> []" "sorted_wrt (<) (map fst (concat gs))"
    using groups_ok(1)[OF assms(1)] assms(3) by (auto simp: gs_def)
  have ix: "map last_key (index_block (table_of n kvs)) = map (\<lambda>g. fst (last g)) gs"
    by (simp add: table_of_def index_from_keys gs_def)
  then have len: "length (index_block (table_of n kvs)) = length gs" by (metis length_map)
  have "gs \<noteq> []" using False by (simp add: gs_def groups.simps[of kvs])
  then have nz: "index_block (table_of n kvs) \<noteq> []" using len by auto
  have srt: "sorted_wrt (<) (map last_key (index_block (table_of n kvs)))" unfolding ix by (rule last_keys_sorted[OF ne(2,1)])
  have "length (takeWhile (\<lambda>e. last_key e < start_key rng) (index_block (table_of n kvs))) = length (takeWhile P gs)"
    using arg_cong[OF ix, of "\<lambda>ks. length (takeWhile (\<lambda>k. k < start_key rng) ks)"] by (simp add: takeWhile_map comp_def P_def)
  then have j: "index_search (index_block (table_of n kvs)) (start_key rng) = length (takeWhile P gs)"
    using index_search_first[OF srt] by simp
  have "hits rng (concat (takeWhile P gs)) = []"
  proof (rule hits_below, rule ballI)
    fix x assume "x \<in> set (concat (takeWhile P gs))"
    then obtain g where g: "g \<in> set (takeWhile P gs)" "x \<in> set g" by auto
    then have "fst (last g) < start_key rng" "g \<in> set gs" by (auto simp: P_def dest: set_takeWhileD)
    moreover then have "sorted_wrt (<) (map fst g)" using ne(2) split_list[of g gs] by (auto simp: sorted_wrt_append)
    then have "fst x \<le> fst (last g)" using g(2) by (cases g rule: rev_cases) (auto simp: sorted_wrt_append less_imp_le)
    ultimately show "fst x < start_key rng" by simp
  qed
  moreover have "kvs = concat (takeWhile P gs) @ concat (dropWhile P gs)"
    by (metis concat_append concat_groups gs_def takeWhile_dropWhile_id)
  ultimately have h: "hits rng kvs = hits rng (concat (dropWhile P gs))" by (metis append_Nil hits_append)
  have d: "dropWhile P gs = drop (length (takeWhile P gs)) gs" by (rule dropWhile_eq_drop)
  show ?thesis
    using h d by (auto simp: find_start_index[OF nz] j len)
qed

lemma range_scan_hits:
  assumes "sorted_wrt (<) (map fst kvs)" "small kvs" "length kvs \<le> 2 ^ 20" "0 < max_results"
    and "length (prev_key dec) = RANGE_MAX_KEY_LEN" "\<forall>g \<in> set (groups kvs). restarts_fit g"
  shows "\<exists>dec'. sstable_range_scan (table_of n kvs) rng max_results dec = Done (0, take max_results (hits rng kvs), dec') \<and>
    length (prev_key dec') = RANGE_MAX_KEY_LEN"
proof (cases "find_start_block (table_of n kvs) rng")
  case None
  then show ?thesis using start_block[OF assms(2,3,1), of rng n] assms(4,5) by (simp add: sstable_range_scan_def)
next
  case (Some j)
  let ?gs = "drop j (groups kvs)"
  have "sorted_wrt (<) (map fst (concat (take j (groups kvs)) @ concat ?gs))" using assms(1) by (simp flip: concat_append)
  then have "sorted_wrt (<) (map fst (concat ?gs))" unfolding map_append sorted_wrt_append by blast
  moreover have "\<forall>g \<in> set ?gs. good_block g \<and> restarts_fit g"
    using groups_good[OF assms(2,3,1)] assms(6) by (auto dest: in_set_dropD)
  ultimately obtain dec' where
    "scan_blocks (map block_of ?gs) rng max_results [] dec = Done ([] @ take (max_results - length ([] :: kvs)) (hits rng (concat ?gs)), dec')"
    "length (prev_key dec') = RANGE_MAX_KEY_LEN" using scan_blocks_hits[OF _ _ assms(5)] by blast
  moreover have "hits rng kvs = hits rng (concat ?gs)" using start_block[OF assms(2,3,1), of rng n] Some by simp
  moreover have "drop j (data_blocks (table_of n kvs)) = map block_of ?gs" by (simp add: table_of_def drop_map)
  ultimately show ?thesis using Some assms(4) by (simp add: sstable_range_scan_def)
qed

lemma groups_short:
  assumes "\<forall>x \<in> set kvs. length (snd x) \<le> LAST_KEY_SIZE"
  shows "\<forall>g \<in> set (groups kvs). restarts_fit g"
proof (intro ballI short_values_fit)
  fix g x assume "g \<in> set (groups kvs)" "x \<in> set g"
  then have "x \<in> set (concat (groups kvs))" unfolding set_concat by blast
  then show "length (snd x) \<le> LAST_KEY_SIZE" using assms by simp
qed

text \<open>A scan of a block with a longer first value overflows the buffer before it looks at the key.\<close>

lemma scan_blocks_overflow:
  assumes "good_block g" "length (prev_key dec) = RANGE_MAX_KEY_LEN" "LAST_KEY_SIZE < length (snd (hd g))" "length results < m"
  shows "scan_blocks (block_of g # dbs) rng m results dec = Undefined"
  using first_entry[OF assms(1,2)] assms(3,4) by (auto simp: decode_into_overflows)

lemma range_scan_overflow:
  assumes "sorted_wrt (<) (map fst kvs)" "small kvs" "length kvs \<le> 2 ^ 20" "0 < max_results"
    and "length (prev_key dec) = RANGE_MAX_KEY_LEN"
    and start: "find_start_block (table_of n kvs) rng = Some j" and long: "LAST_KEY_SIZE < length (snd (hd (groups kvs ! j)))"
  shows "sstable_range_scan (table_of n kvs) rng max_results dec = Undefined"
proof -
  have j: "j < length (groups kvs)" using start_block[OF assms(2,3,1), of rng n] start by simp
  then have g: "good_block (groups kvs ! j)" using groups_good[OF assms(2,3,1)] by simp
  have "drop j (data_blocks (table_of n kvs)) = block_of (groups kvs ! j) # map block_of (drop (Suc j) (groups kvs))"
    using j by (simp add: table_of_def drop_map Cons_nth_drop_Suc[symmetric])
  then show ?thesis using start assms(4) scan_blocks_overflow[OF g assms(5) long] by (simp add: sstable_range_scan_def)
qed

text \<open>
  C35. A scan of a sorted table of at most \<open>2 ^ 20\<close> entries, with keys of at most 256 and values of at
  most 1024 bytes, asked for at least one result. When the values at the restarts (every sixteenth
  entry of a block) have at most 256 bytes, it finds exactly the entries in its range: whatever the
  decoder has read before, it returns the first \<open>max_results\<close> of them in key order, the bounds
  treated as asked, and leaves no buffer. When the block it starts at begins with a longer value, it
  overflows the 256 bytes of \<open>last_key\<close>.
\<close>

theorem range_scan_exact:
  assumes "sorted_wrt (<) (map fst kvs)" "small kvs" "length kvs \<le> 2 ^ 20" "0 < max_results"
    and "length (prev_key dec) = RANGE_MAX_KEY_LEN"
  shows "((\<forall>g \<in> set (groups kvs). restarts_fit g) \<longrightarrow>
      (\<exists>dec'. sstable_range_scan (table_of n kvs) rng max_results dec =
         Done (0, take max_results (filter (\<lambda>(k, v). key_in_range k rng) kvs), dec') \<and> length (prev_key dec') = RANGE_MAX_KEY_LEN)) \<and>
    (\<forall>j. find_start_block (table_of n kvs) rng = Some j \<longrightarrow> LAST_KEY_SIZE < length (snd (hd (groups kvs ! j))) \<longrightarrow>
      sstable_range_scan (table_of n kvs) rng max_results dec = Undefined)"
  using range_scan_hits[OF assms, unfolded hits_def] range_scan_overflow[OF assms] by blast

theorem range_scan_exact_witness:
  "(\<exists>dec'. sstable_range_scan (table_of 0 [([1], [7]), ([2], [8]), ([2, 0], []), ([3], [9])])
       \<lparr> start_key = [2], start_inclusive = False, end_key = [3], end_inclusive = True \<rparr> 5 decoder_init =
     Done (0, [([2, 0], []), ([3], [9])], dec')) \<and>
   sstable_range_scan (table_of 0 [([1], replicate 257 7)])
       \<lparr> start_key = [1], start_inclusive = True, end_key = [3], end_inclusive = True \<rparr> 5 decoder_init = Undefined"
proof
  let ?kvs = "[([1], [7]), ([2], [8]), ([2, 0], []), ([3], [9])] :: kvs"
  have "sorted_wrt (<) (map fst ?kvs)" "small ?kvs" "length ?kvs \<le> 2 ^ 20" "0 < (5 :: nat)"
    "length (prev_key decoder_init) = RANGE_MAX_KEY_LEN"
    by (simp_all add: cons_less_cons small_def MAX_KEY_SIZE_def MAX_VALUE_SIZE_def decoder_init_def)
  note e = range_scan_exact[OF this, THEN conjunct1, of 0 "\<lparr> start_key = [2], start_inclusive = False, end_key = [3], end_inclusive = True \<rparr>"]
  have "\<forall>g \<in> set (groups ?kvs). restarts_fit g" by (rule groups_short) (simp add: LAST_KEY_SIZE_def)
  with e show "\<exists>dec'. sstable_range_scan (table_of 0 ?kvs)
       \<lparr> start_key = [2], start_inclusive = False, end_key = [3], end_inclusive = True \<rparr> 5 decoder_init =
     Done (0, [([2, 0], []), ([3], [9])], dec')"
    by (auto simp: key_in_range_iff below_start_iff past_end_iff cons_less_cons less_le[symmetric] le_less)
next
  define v where "v = replicate 257 (7 :: byte)"
  then have len: "length v = 257" by simp
  let ?kvs = "[([1], v)] :: kvs"
  let ?rng = "\<lparr> start_key = [1], start_inclusive = True, end_key = [3], end_inclusive = True \<rparr>"
  have small: "sorted_wrt (<) (map fst ?kvs)" "small ?kvs" "length ?kvs \<le> 2 ^ 20" "0 < (5 :: nat)"
    "length (prev_key decoder_init) = RANGE_MAX_KEY_LEN"
    by (simp_all add: len small_def MAX_KEY_SIZE_def MAX_VALUE_SIZE_def decoder_init_def)
  have gs: "groups ?kvs = [?kvs]" by (rule single_group[OF small(2)]) (simp_all add: len)
  have "hits ?rng ?kvs \<noteq> []" by (simp add: hits_def key_in_range_iff below_start_iff past_end_iff cons_less_cons)
  then have "find_start_block (table_of 0 ?kvs) ?rng = Some 0"
  proof -
    have "length [?kvs] = Suc 0" by simp
    then show ?thesis if "hits ?rng ?kvs \<noteq> []"
      using start_block[OF small(2,3,1), of ?rng 0] that unfolding gs
      by (cases "find_start_block (table_of 0 ?kvs) ?rng") (simp_all only: option.case less_Suc0 simp_thms)
  qed
  then show "sstable_range_scan (table_of 0 [([1], replicate 257 7)]) ?rng 5 decoder_init = Undefined"
    using range_scan_exact[OF small, THEN conjunct2, of 0 ?rng] by (simp add: gs len LAST_KEY_SIZE_def v_def[symmetric])
qed

section \<open>Iterating over a table\<close>

definition rest_of :: "kvs list \<Rightarrow> nat \<Rightarrow> nat \<Rightarrow> kvs" where
  "rest_of gs b i = drop i (gs ! b) @ concat (drop (Suc b) gs)"

text \<open>An iterator before entry \<open>i\<close> of block \<open>b\<close>.\<close>

definition iter_at :: "kvs list \<Rightarrow> range_iterator \<Rightarrow> decoder \<Rightarrow> nat \<Rightarrow> nat \<Rightarrow> bool" where
  "iter_at gs iter dec b i \<longleftrightarrow>
     data_blocks (it_table iter) = map block_of gs \<and> num_data_blocks iter = length gs \<and> \<not> it_exhausted iter \<and>
     current_block_idx iter = b \<and> b < length gs \<and> i \<le> length (gs ! b) \<and>
     current_data_offset iter = of_nat (offset_of (gs ! b) i) \<and>
     (i < length (gs ! b) \<longrightarrow> dec_ready (gs ! b) i dec) \<and> length (prev_key dec) = RANGE_MAX_KEY_LEN"

text \<open>What a call of the iterator gives, when the entries still to come are \<open>es\<close>.\<close>

definition yields :: "kvs list \<Rightarrow> kvs \<Rightarrow> key_range \<Rightarrow> ((byte list \<times> byte list) option \<times> range_iterator \<times> decoder) \<Rightarrow> bool" where
  "yields gs es rng = (\<lambda>(r, iter, dec).
     (case es of
        [] \<Rightarrow> r = None \<and> it_exhausted iter
      | e # es \<Rightarrow> r = Some e \<and> it_range iter = rng \<and>
          (\<exists>b i. iter_at gs iter dec b i \<and> hits rng (rest_of gs b i) = es)))"

lemma iterator_loop_step:
  assumes "current_block_idx iter < num_data_blocks iter" "data_blocks (it_table iter) ! current_block_idx iter = db"
    "num_restarts db \<noteq> 0" "\<not> current_data_offset iter \<ge> data_size db"
    "decode_kv_from_block db (current_data_offset iter) dec = Done (Some (key, val, off), dec1)"
  shows "iterator_loop iter dec =
    (if key_in_range key (it_range iter) then Some (Done (Some (key, val), iter\<lparr> current_data_offset := off \<rparr>, dec1))
     else if past_end (it_range iter) key then Some (Done (None, iter\<lparr> current_data_offset := off, it_exhausted := True \<rparr>, dec1))
     else iterator_loop (iter\<lparr> current_data_offset := off \<rparr>) dec1)"
  using assms by (subst iterator_loop.simps) (simp add: Let_def)

lemma rest_sorted:
  assumes "sorted_wrt (<) (map fst (concat gs))" "b < length gs" "i < length (gs ! b)"
  shows "\<forall>x \<in> set (rest_of gs b i). fst (gs ! b ! i) \<le> fst x"
proof -
  have r: "rest_of gs b i = gs ! b ! i # (drop (Suc i) (gs ! b) @ concat (drop (Suc b) gs))"
    using assms(3) by (simp add: rest_of_def Cons_nth_drop_Suc)
  have "concat gs = concat (take b gs) @ gs ! b @ concat (drop (Suc b) gs)"
    using assms(2) by (metis concat.simps(2) concat_append id_take_nth_drop)
  also have "\<dots> = (concat (take b gs) @ take i (gs ! b)) @ rest_of gs b i" by (simp add: rest_of_def)
  finally have e: "concat gs = (concat (take b gs) @ take i (gs ! b)) @ rest_of gs b i" .
  have "sorted_wrt (<) (map fst ((concat (take b gs) @ take i (gs ! b)) @ rest_of gs b i))"
    by (subst e[symmetric]) (rule assms(1))
  then have "sorted_wrt (<) (map fst (rest_of gs b i))" unfolding map_append sorted_wrt_append by blast
  then have less: "\<forall>y \<in> set (map fst (drop (Suc i) (gs ! b) @ concat (drop (Suc b) gs))). fst (gs ! b ! i) < y"
    unfolding r by simp
  have "fst (gs ! b ! i) \<le> fst x" if "x \<in> set (drop (Suc i) (gs ! b) @ concat (drop (Suc b) gs))" for x
    using less that unfolding set_map by (blast intro: less_imp_le)
  then show ?thesis unfolding r by simp
qed

lemma iterator_loop_hits:
  assumes "\<forall>g \<in> set gs. good_block g" "sorted_wrt (<) (map fst (concat gs))" "iter_at gs iter dec b i"
  shows "\<exists>x. iterator_loop iter dec = Some (Done x) \<and> yields gs (hits (it_range iter) (rest_of gs b i)) (it_range iter) x"
  using assms(3)
proof (induction "length (rest_of gs b i) + (length gs - b)" arbitrary: iter dec b i rule: less_induct)
  case less
  let ?g = "gs ! b" and ?rng = "it_range iter"
  have at: "data_blocks (it_table iter) = map block_of gs" "num_data_blocks iter = length gs" "\<not> it_exhausted iter"
    "current_block_idx iter = b" "b < length gs" "i \<le> length ?g" "current_data_offset iter = of_nat (offset_of ?g i)"
    "i < length ?g \<longrightarrow> dec_ready ?g i dec" "length (prev_key dec) = RANGE_MAX_KEY_LEN"
    using less.prems by (simp_all add: iter_at_def)
  have g: "good_block ?g" using assms(1) at(5) by simp
  then have fit: "block_fits_words ?g" by (simp add: good_block_def)
  have nr: "num_restarts (block_of ?g) \<noteq> 0" using first_entry[OF g at(9)] by simp
  show ?case
  proof (cases "i < length ?g")
    case False
    then have i: "i = length ?g" using at(6) by simp
    then have size: "current_data_offset iter \<ge> data_size (block_of ?g)" using at(7) by (simp add: offset_of_def block_of_sel)
    show ?thesis
    proof (cases "Suc b < length gs")
      case last: False
      then have "rest_of gs b i = []" using i at(5) by (simp add: rest_of_def)
      moreover have "iterator_loop iter dec = Some (Done (None, iter\<lparr> current_block_idx := Suc b, it_exhausted := True \<rparr>, dec))"
        using at nr size last by (subst iterator_loop.simps) (simp add: iterator_loop.simps Let_def)
      ultimately show ?thesis by (simp add: yields_def)
    next
      case True
      let ?g' = "gs ! Suc b"
      let ?iter = "iter\<lparr> current_block_idx := Suc b, current_data_offset := 0 \<rparr>"
      have g': "good_block ?g'" using assms(1) True by simp
      note f = first_entry[OF g' at(9)]
      have pos: "0 < num_restarts (block_of ?g')" using f by (simp add: word_neq_0_conv[symmetric])
      have "iterator_loop iter dec = iterator_loop ?iter dec"
        using at nr size True f pos by (subst iterator_loop.simps) (simp add: Let_def)
      moreover have "iter_at gs ?iter dec (Suc b) 0"
        using at True g' by (simp add: iter_at_def offset_of_def dec_ready_def)
      moreover have r: "rest_of gs (Suc b) 0 = rest_of gs b i"
        using True i by (simp add: rest_of_def Cons_nth_drop_Suc[of "Suc b", symmetric])
      ultimately show ?thesis using less.hyps[of "Suc b" 0 ?iter dec] True by simp
    qed
  next
    case True
    from decode_entry[OF True g] at(8) True obtain dec1 where
      d: "decode_kv_from_block (block_of ?g) (of_nat (offset_of ?g i)) dec = Done (Some (fst (?g ! i), snd (?g ! i), of_nat (offset_of ?g (Suc i))), dec1)"
      "dec_ready ?g (Suc i) dec1" by blast
    let ?k = "fst (?g ! i)"
    let ?iter = "iter\<lparr> current_data_offset := of_nat (offset_of ?g (Suc i)) \<rparr>"
    have step: "iterator_loop iter dec =
      (if key_in_range ?k ?rng then Some (Done (Some (?k, snd (?g ! i)), ?iter, dec1))
       else if past_end ?rng ?k then Some (Done (None, ?iter\<lparr> it_exhausted := True \<rparr>, dec1)) else iterator_loop ?iter dec1)"
      using at nr offset_before_end[OF True fit] d(1) by (intro iterator_loop_step) (simp_all add: not_le)
    have next_at: "iter_at gs ?iter dec1 b (Suc i)" using at True d(2) by (simp add: iter_at_def dec_ready_def)
    have r: "rest_of gs b i = ?g ! i # rest_of gs b (Suc i)" using True by (simp add: rest_of_def Cons_nth_drop_Suc)
    have h: "hits ?rng (rest_of gs b i) = (if key_in_range ?k ?rng then ?g ! i # hits ?rng (rest_of gs b (Suc i)) else hits ?rng (rest_of gs b (Suc i)))"
      unfolding r by (cases "?g ! i") (simp add: hits_Cons)
    show ?thesis
    proof (cases "key_in_range ?k ?rng")
      case True
      then show ?thesis using step h next_at by (auto simp: yields_def)
    next
      case out: False
      show ?thesis
      proof (cases "past_end ?rng ?k")
        case True
        have "hits ?rng (rest_of gs b i) = []" using rest_sorted[OF assms(2) at(5) \<open>i < length ?g\<close>] True by (intro hits_past)
        then show ?thesis using step out True by (simp add: yields_def)
      next
        case False
        then show ?thesis using less.hyps[OF _ next_at] step out h r by simp
      qed
    qed
  qed
qed

lemma iterator_create_hits:
  assumes "sorted_wrt (<) (map fst kvs)" "small kvs" "length kvs \<le> 2 ^ 20" "length (prev_key dec) = RANGE_MAX_KEY_LEN"
  shows "\<exists>iter. range_iterator_create (table_of n kvs) rng = Done iter \<and> it_range iter = rng \<and>
    (it_exhausted iter \<and> hits rng kvs = [] \<or>
     (\<exists>b. iter_at (groups kvs) iter dec b 0 \<and> hits rng (rest_of (groups kvs) b 0) = hits rng kvs))"
proof (cases "find_start_block (table_of n kvs) rng")
  case None
  then show ?thesis using start_block[OF assms(2,3,1), of rng n] by (simp add: range_iterator_create_def)
next
  case (Some j)
  let ?gs = "groups kvs"
  have j: "j < length ?gs" "hits rng kvs = hits rng (concat (drop j ?gs))"
    using start_block[OF assms(2,3,1), of rng n] Some by simp_all
  have g: "good_block (?gs ! j)" using groups_good[OF assms(2,3,1)] j(1) by simp
  have d: "data_blocks (table_of n kvs) = map block_of ?gs" by (simp add: table_of_def)
  note f = first_entry[OF g assms(4)]
  have pos: "0 < num_restarts (block_of (?gs ! j))" using f by (simp add: word_neq_0_conv[symmetric])
  have "concat (drop j ?gs) = rest_of ?gs j 0" using j(1) by (simp add: rest_of_def Cons_nth_drop_Suc[symmetric])
  then show ?thesis
    using Some j f pos assms(4) by (simp add: range_iterator_create_def d iter_at_def offset_of_def dec_ready_def)
qed

text \<open>A client that asks \<open>m\<close> times and lets nobody else decode meanwhile.\<close>

fun ask :: "nat \<Rightarrow> range_iterator \<Rightarrow> decoder \<Rightarrow> (byte list \<times> byte list) option list outcome" where
  "ask 0 iter dec = Done []"
| "ask (Suc m) iter dec =
     bind_outcome (range_iterator_next iter dec) (\<lambda>(r, iter, dec). bind_outcome (ask m iter dec) (\<lambda>rs. Done (r # rs)))"

lemma ask_exhausted: "it_exhausted iter \<Longrightarrow> ask m iter dec = Done (replicate m None)"
  by (induction m) (simp_all add: range_iterator_next_def)

lemma ask_hits:
  assumes "\<forall>g \<in> set gs. good_block g" "sorted_wrt (<) (map fst (concat gs))" "iter_at gs iter dec b i"
    and "hits (it_range iter) (rest_of gs b i) = es"
  shows "ask m iter dec = Done (map Some (take m es) @ replicate (m - length es) None)"
  using assms(3,4)
proof (induction m arbitrary: iter dec b i es)
  case (Suc m)
  obtain r iter' dec' where n: "range_iterator_next iter dec = Done (r, iter', dec')" "yields gs es (it_range iter) (r, iter', dec')"
    using iterator_loop_hits[OF assms(1,2) Suc.prems(1)] Suc.prems by (auto simp: range_iterator_next_def iter_at_def)
  show ?case
  proof (cases es)
    case Nil
    then show ?thesis using n by (simp add: yields_def ask_exhausted)
  next
    case (Cons e es')
    then show ?thesis using n Suc.IH[of iter' dec'] by (auto simp: yields_def)
  qed
qed simp

text \<open>
  C36. On a sorted table of at most \<open>2 ^ 20\<close> entries, with keys of at most 256 and values of at most
  1024 bytes, an iterator that has the decoder for itself (the client lets nobody else decode
  between its calls) gives exactly the entries in its range, in key order, and then reports the end,
  however often it is asked.
\<close>

theorem range_iterator_exact:
  assumes "sorted_wrt (<) (map fst kvs)" "small kvs" "length kvs \<le> 2 ^ 20" "length (prev_key dec) = RANGE_MAX_KEY_LEN"
    and "es = filter (\<lambda>(k, v). key_in_range k rng) kvs"
  shows "\<exists>iter. range_iterator_create (table_of n kvs) rng = Done iter \<and>
    ask m iter dec = Done (map Some (take m es) @ replicate (m - length es) None)"
proof -
  from iterator_create_hits[OF assms(1-4)] obtain iter where c: "range_iterator_create (table_of n kvs) rng = Done iter"
    "it_range iter = rng" "it_exhausted iter \<and> hits rng kvs = [] \<or>
      (\<exists>b. iter_at (groups kvs) iter dec b 0 \<and> hits rng (rest_of (groups kvs) b 0) = hits rng kvs)" by blast
  have es: "hits rng kvs = es" by (simp add: assms(5) hits_def)
  have srt: "sorted_wrt (<) (map fst (concat (groups kvs)))" using assms(1) by simp
  have "ask m iter dec = Done (map Some (take m es) @ replicate (m - length es) None)"
    using c(3)
  proof (elim disjE exE conjE)
    assume "it_exhausted iter" "hits rng kvs = []"
    then show ?thesis using es by (simp add: ask_exhausted)
  next
    fix b assume "iter_at (groups kvs) iter dec b 0" "hits rng (rest_of (groups kvs) b 0) = hits rng kvs"
    then show ?thesis using ask_hits[OF groups_good[OF assms(2,3,1)] srt] c(2) es by simp
  qed
  with c(1) show ?thesis by blast
qed

theorem range_iterator_exact_witness:
  "\<exists>iter. range_iterator_create (table_of 0 [([1], [7]), ([1, 2], [8]), ([3], [9])])
       \<lparr> start_key = [1], start_inclusive = True, end_key = [3], end_inclusive = False \<rparr> = Done iter \<and>
     ask 3 iter decoder_init = Done [Some ([1], [7]), Some ([1, 2], [8]), None]"
proof -
  let ?kvs = "[([1], [7]), ([1, 2], [8]), ([3], [9])] :: kvs"
  have "sorted_wrt (<) (map fst ?kvs)" "small ?kvs" "length ?kvs \<le> 2 ^ 20" "length (prev_key decoder_init) = RANGE_MAX_KEY_LEN"
    by (simp_all add: cons_less_cons small_def MAX_KEY_SIZE_def MAX_VALUE_SIZE_def decoder_init_def)
  from range_iterator_exact[OF this refl, of 0 "\<lparr> start_key = [1], start_inclusive = True, end_key = [3], end_inclusive = False \<rparr>" 3]
  show ?thesis by (simp add: key_in_range_iff below_start_iff past_end_iff cons_less_cons le_less numeral_3_eq_3)
qed

section \<open>Two iterators disturb each other\<close>

lemma iterator_next_entry:
  assumes "iter_at gs iter dec b i" "\<forall>g \<in> set gs. good_block g" "i < length (gs ! b)" "key_in_range (fst (gs ! b ! i)) (it_range iter)"
  shows "\<exists>dec'. range_iterator_next iter dec =
      Done (Some (gs ! b ! i), iter\<lparr> current_data_offset := of_nat (offset_of (gs ! b) (Suc i)) \<rparr>, dec') \<and>
    iter_at gs (iter\<lparr> current_data_offset := of_nat (offset_of (gs ! b) (Suc i)) \<rparr>) dec' b (Suc i) \<and>
    prev_expected_offset dec' = of_nat (offset_of (gs ! b) (Suc i))"
proof -
  have at: "data_blocks (it_table iter) = map block_of gs" "num_data_blocks iter = length gs" "\<not> it_exhausted iter"
    "current_block_idx iter = b" "b < length gs" "current_data_offset iter = of_nat (offset_of (gs ! b) i)"
    "dec_ready (gs ! b) i dec" "length (prev_key dec) = RANGE_MAX_KEY_LEN"
    using assms(1,3) by (simp_all add: iter_at_def)
  have g: "good_block (gs ! b)" "block_fits_words (gs ! b)" using assms(2) at(5) by (auto simp: good_block_def)
  from decode_entry[OF assms(3) g(1) at(7)] obtain dec1 where
    d: "decode_kv_from_block (block_of (gs ! b)) (of_nat (offset_of (gs ! b) i)) dec =
      Done (Some (fst (gs ! b ! i), snd (gs ! b ! i), of_nat (offset_of (gs ! b) (Suc i))), dec1)" "dec_ready (gs ! b) (Suc i) dec1"
    "prev_expected_offset dec1 = of_nat (offset_of (gs ! b) (Suc i))" by blast
  have "num_restarts (block_of (gs ! b)) \<noteq> 0" using first_entry[OF g(1) at(8)] by simp
  then have "iterator_loop iter dec = Some (Done (Some (gs ! b ! i), iter\<lparr> current_data_offset := of_nat (offset_of (gs ! b) (Suc i)) \<rparr>, dec1))"
    using at offset_before_end[OF assms(3) g(2)] d(1) assms(4) iterator_loop_step[of iter "block_of (gs ! b)" dec]
    by (simp add: not_le)
  then show ?thesis using at(3) d(2,3) assms(1,3) by (auto simp: range_iterator_next_def iter_at_def dec_ready_def)
qed

text \<open>
  Two iterators over the same table disturb each other through the static variables of the
  decoder. On a table with keys \<open>[a, b]\<close> and \<open>[a, c]\<close> both give the first entry and one of them the
  second; the other then gives the key \<open>[0, c]\<close>, which is in no table.
\<close>

theorem interleaved_iterators_corrupt:
  assumes "b < c" "length v \<le> MAX_VALUE_SIZE" "length w \<le> MAX_VALUE_SIZE" "length (prev_key dec) = RANGE_MAX_KEY_LEN"
    and "rng = \<lparr> start_key = [], start_inclusive = True, end_key = [255, 255, 255], end_inclusive = True \<rparr>"
  shows "\<exists>it0 it1 it2 it3 d1 d2 d3 d4. range_iterator_create (table_of n [([a, b], v), ([a, c], w)]) rng = Done it0 \<and>
    range_iterator_next it0 dec = Done (Some ([a, b], v), it1, d1) \<and> range_iterator_next it0 d1 = Done (Some ([a, b], v), it1, d2) \<and>
    range_iterator_next it1 d2 = Done (Some ([a, c], w), it2, d3) \<and> range_iterator_next it1 d3 = Done (Some ([0, c], w), it3, d4)"
proof -
  let ?g = "[([a, b], v), ([a, c], w)]"
  have small: "small ?g" and srt: "sorted_wrt (<) (map fst ?g)"
    using assms(1-3) by (auto simp: small_def MAX_KEY_SIZE_def cons_less_cons)
  have gs: "groups ?g = [?g]" using small assms(2,3) by (intro single_group) (simp_all add: MAX_VALUE_SIZE_def)
  have good: "\<forall>g \<in> set [?g]. good_block g" using groups_good[OF small _ srt] gs by simp
  have "\<not> 255 < x" for x :: byte using unsigned_less[of x, where ?'a = nat] by (simp add: not_less word_le_nat_alt)
  then have top: "\<not> [255, 255, 255] < x # y # ([] :: byte list)" for x y :: byte by (simp add: cons_less_cons)
  have inr: "key_in_range [x, y] rng" for x y
    using top[where x = x and y = y] by (simp add: assms(5) key_in_range_iff below_start_iff past_end_iff)
  obtain it0 where c: "range_iterator_create (table_of n ?g) rng = Done it0" "it_range it0 = rng"
    and at0: "iter_at [?g] it0 dec 0 0"
  proof -
    from iterator_create_hits[OF srt small _ assms(4), of n rng] obtain it where
      "range_iterator_create (table_of n ?g) rng = Done it" "it_range it = rng"
      "it_exhausted it \<and> hits rng ?g = [] \<or> (\<exists>b. iter_at [?g] it dec b 0)" unfolding gs by auto
    then show thesis using that inr[of a b] by (auto simp: hits_Cons iter_at_def)
  qed
  let ?it1 = "it0\<lparr> current_data_offset := of_nat (offset_of ?g 1) \<rparr>"
  from iterator_next_entry[OF at0 good] c(2) inr obtain d1 where
    n1: "range_iterator_next it0 dec = Done (Some ([a, b], v), ?it1, d1)" and a1: "iter_at [?g] ?it1 d1 0 1" by auto
  have "iter_at [?g] it0 d1 0 0" using at0 a1 by (simp add: iter_at_def dec_ready_def)
  from iterator_next_entry[OF this good] c(2) inr obtain d2 where
    n2: "range_iterator_next it0 d1 = Done (Some ([a, b], v), ?it1, d2)" and a2: "iter_at [?g] ?it1 d2 0 1" by auto
  let ?it2 = "?it1\<lparr> current_data_offset := of_nat (offset_of ?g 2) \<rparr>"
  from iterator_next_entry[OF a2 good] c(2) inr obtain d3 where
    n3: "range_iterator_next ?it1 d2 = Done (Some ([a, c], w), ?it2, d3)"
    and e3: "prev_expected_offset d3 = of_nat (offset_of ?g 2)" and l3: "length (prev_key d3) = RANGE_MAX_KEY_LEN"
    by (auto simp: numeral_2_eq_2 iter_at_def)
  have fit: "block_fits_words ?g" using good by (simp add: good_block_def)
  have off: "offset_of ?g 1 < offset_of ?g 2"
    using offset_Suc(2)[of 1 ?g] by (simp add: offset_of_def entry_bytes_eq numeral_2_eq_2)
  have "length (entries_bytes 0 [] ?g) < 2 ^ 32" using fit by (simp add: block_fits_words_def)
  then have u: "unat (of_nat (offset_of ?g 1) :: 32 word) = offset_of ?g 1" "unat (of_nat (offset_of ?g 2) :: 32 word) = offset_of ?g 2"
    using offset_le[of ?g 1] offset_le[of ?g 2] by (intro unat_small; simp)+
  then have "of_nat (offset_of ?g 1) \<noteq> (of_nat (offset_of ?g 2) :: 32 word)" using off by (metis less_irrefl)
  then have buf: "decode_buffer d3 (of_nat (offset_of ?g 1)) = replicate RANGE_MAX_KEY_LEN 0" by (simp add: decode_buffer_def e3)
  have "c \<noteq> 0" "b \<noteq> c" using assms(1) by auto
  then have "entry_bytes 1 [a, b] [a, c] w = entry_bytes 1 [0, 0] [0, c] w"
    by (simp add: entry_bytes_def RESTART_INTERVAL_def)
  then have bs: "entries_bytes 0 [] ?g = entries_bytes 0 [] (take 1 ?g) @ entry_bytes 1 [0, 0] [0, c] w @ []"
    "offset_of ?g 2 = length (entries_bytes 0 [] (take 1 ?g) @ entry_bytes 1 [0, 0] [0, c] w)"
    by (simp_all add: offset_of_def)
  have len: "length (entries_bytes 0 [] ?g) < 2 ^ 32" by fact
  have ok: "buffer_ok 1 [0, 0] (replicate RANGE_MAX_KEY_LEN 0)" by (simp add: buffer_ok_def RANGE_MAX_KEY_LEN_def numeral_eq_Suc)
  from entry_at_bytes[OF bs(1) len ok _ assms(3)] obtain p where
    p: "entry_at (entries_bytes 0 [] ?g) (of_nat (offset_of ?g 1)) (replicate RANGE_MAX_KEY_LEN 0) = Some ([0, c], of_nat (length w), p)"
    "slice (entries_bytes 0 [] ?g) (unat p) (length w) = Some w" "p + of_nat (length w) = of_nat (offset_of ?g (Suc 1))"
    "unat (of_nat (length w) :: 32 word) = length w"
    unfolding offset_of_def[of ?g 1, symmetric] bs(2)[symmetric] by (auto simp: MAX_KEY_SIZE_def numeral_2_eq_2)
  note d = decode_entry_at[of 1 ?g d3 "[0, c]" w, OF _ fit _ p(2-4) assms(3), unfolded buf, OF _ p(1)]
  have "iterator_loop ?it1 d3 = Some (Done (Some ([0, c], w), ?it2, \<lparr> prev_key = [0, c] @ drop 2 (replicate RANGE_MAX_KEY_LEN 0),
      prev_expected_offset = of_nat (offset_of ?g 2) \<rparr>))"
    using iterator_loop_step[of ?it1 "block_of ?g" d3] d at0 c(2) inr first_entry[of ?g d3] good l3 offset_before_end[OF _ fit, of 1]
    by (simp add: iter_at_def not_le numeral_2_eq_2)
  then have "range_iterator_next ?it1 d3 = Done (Some ([0, c], w), ?it2, \<lparr> prev_key = [0, c] @ drop 2 (replicate RANGE_MAX_KEY_LEN 0),
      prev_expected_offset = of_nat (offset_of ?g 2) \<rparr>)" using at0 by (simp add: range_iterator_next_def iter_at_def)
  with c(1) n1 n2 n3 show ?thesis by blast
qed

theorem interleaved_iterators_corrupt_witness:
  "\<exists>it0 it1 it2 it3 d1 d2 d3 d4.
     range_iterator_create (table_of 0 [([1, 1], [7]), ([1, 2], [8])])
       \<lparr> start_key = [], start_inclusive = True, end_key = [255, 255, 255], end_inclusive = True \<rparr> = Done it0 \<and>
     range_iterator_next it0 decoder_init = Done (Some ([1, 1], [7]), it1, d1) \<and>
     range_iterator_next it0 d1 = Done (Some ([1, 1], [7]), it1, d2) \<and>
     range_iterator_next it1 d2 = Done (Some ([1, 2], [8]), it2, d3) \<and>
     range_iterator_next it1 d3 = Done (Some ([0, 2], [8]), it3, d4)"
  by (rule interleaved_iterators_corrupt[OF _ _ _ _ refl]) (simp_all add: MAX_VALUE_SIZE_def decoder_init_def)

section \<open>The last value of a merged scan may be old\<close>

text \<open>
  Scanning several tables is meant to let the later table win, and does when there is room for
  one more result; but the loop ends as soon as the buffer is full, so the last result keeps the
  value of the earlier table (here for values of at most 256 bytes, see \<open>range_scan_exact\<close>).
\<close>

theorem multi_scan_stale_value:
  assumes "key_in_range k rng" "small [(k, old), (k, new)]" "length (prev_key dec) = RANGE_MAX_KEY_LEN"
    and short: "length old \<le> LAST_KEY_SIZE" "length new \<le> LAST_KEY_SIZE"
  shows "(\<exists>d. sstable_multi_range_scan [table_of m [(k, old)], table_of n [(k, new)]] rng 1 dec = Done (0, [(k, old)], d)) \<and>
    (\<exists>d. sstable_multi_range_scan [table_of m [(k, old)], table_of n [(k, new)]] rng 2 dec = Done (0, [(k, new)], d))"
proof -
  have s: "small [(k, v)]" if "v = old \<or> v = new" for v using assms(2) that by (auto simp: small_def)
  have h: "hits rng [(k, v)] = [(k, v)]" for v using assms(1) by (simp add: hits_def)
  have fit: "\<forall>g \<in> set (groups [(k, v)]). restarts_fit g" if "v = old \<or> v = new" for v
    using short that by (intro groups_short) auto
  obtain d1 where d1: "sstable_range_scan (table_of m [(k, old)]) rng 64 dec = Done (0, [(k, old)], d1)"
    "length (prev_key d1) = RANGE_MAX_KEY_LEN"
    using range_scan_hits[of "[(k, old)]" 64 dec m rng, OF _ s _ _ assms(3) fit] h by auto
  obtain d2 where d2: "sstable_range_scan (table_of n [(k, new)]) rng 64 d1 = Done (0, [(k, new)], d2)"
    using range_scan_hits[of "[(k, new)]" 64 d1 n rng, OF _ s _ _ d1(2) fit] h by auto
  have t: "scan_tables [table_of m [(k, old)], table_of n [(k, new)]] rng dec = Done ([[(k, old)], [(k, new)]], d2)"
    using d1 d2 by simp
  have b: "best_stream [[(k, old)], [(k, new)]] = Some 0" "best_stream [[], [(k, new)]] = Some 1" "best_stream [[], []] = None"
    by (simp_all add: best_stream_def key_compare_cmp)
  show ?thesis
    by (simp add: sstable_multi_range_scan_def t merge_streams.simps b Let_def del: scan_tables.simps)
qed

theorem multi_scan_stale_value_witness:
  "\<exists>d. sstable_multi_range_scan [table_of 0 [([1], [7])], table_of 0 [([1], [8])]]
     \<lparr> start_key = [], start_inclusive = True, end_key = [2], end_inclusive = True \<rparr> 1 decoder_init = Done (0, [([1], [7])], d)"
  using multi_scan_stale_value[of "[1]" "\<lparr> start_key = [], start_inclusive = True, end_key = [2], end_inclusive = True \<rparr>" "[7]" "[8]"
      decoder_init 0 0]
  by (simp add: key_in_range_iff below_start_iff past_end_iff cons_less_cons small_def MAX_KEY_SIZE_def MAX_VALUE_SIZE_def decoder_init_def
      LAST_KEY_SIZE_def)

end
