(* ===== verification/Property_Graph.thy ===== *)
theory Property_Graph
  imports Prelude "HOL-Library.Word"
begin

text \<open>
  The property graph of \<open>property_graph.c\<close>: nodes and edges in fixed arrays, a hash table
  from node ids to array indices, and an adjacency list per node. A node carries labels and
  string properties, an edge a type and string properties. What a call to \<open>malloc\<close> or
  \<open>realloc\<close> returns is a Boolean argument of the operation that makes it, in the order of
  the calls; an index that the code encodes as \<open>-1\<close> for absent is an option.
\<close>

unbundle bit_operations_syntax

section \<open>Data\<close>

definition max_nodes :: nat where [c_consts]: "max_nodes = 4096"
definition max_edges :: nat where [c_consts]: "max_edges = 16384"
definition hash_table_size :: nat where [c_consts]: "hash_table_size = 1024"
definition max_node_labels :: nat where [c_consts]: "max_node_labels = 4"
definition max_node_properties :: nat where [c_consts]: "max_node_properties = 16"
definition max_edge_properties :: nat where [c_consts]: "max_edge_properties = 8"
definition max_label_len :: nat where [c_consts]: "max_label_len = 64"
definition max_key_len :: nat where [c_consts]: "max_key_len = 64"
definition max_value_len :: nat where [c_consts]: "max_value_len = 256"
definition max_edge_type_len :: nat where [c_consts]: "max_edge_type_len = 64"

type_synonym property = "string \<times> string"

text \<open>The used prefixes of the arrays are lists, so the three counters are their lengths.\<close>

record node =
  node_id :: int
  labels :: "string list"
  node_props :: "property list"

record edge =
  edge_id :: int
  edge_type :: string
  from_node :: int
  to_node :: int
  directed :: bool
  edge_props :: "property list"

record adj_node =
  adj_edge :: int
  neighbor :: int

record hash_entry =
  entry_id :: int
  entry_index :: nat

text \<open>
  The adjacency array, of \<open>adjacency_capacity\<close> cells, and the bucket array are functions of
  the index; a zeroed cell is the empty chain.
\<close>

record graph =
  nodes :: "node list"
  node_hash :: "nat \<Rightarrow> hash_entry list"
  edges :: "edge list"
  adjacency :: "nat \<Rightarrow> adj_node list"
  adjacency_capacity :: nat
  next_node_id :: int
  next_edge_id :: int

definition graph_create :: "bool \<Rightarrow> bool \<Rightarrow> graph option" where
  "graph_create m1 m2 =
     (if \<not> m1 then None else if \<not> m2 then None
      else Some \<lparr>nodes = [], node_hash = (\<lambda>_. []), edges = [], adjacency = (\<lambda>_. []),
                 adjacency_capacity = max_nodes, next_node_id = 1, next_edge_id = 1\<rparr>)"

section \<open>The hash table of nodes\<close>

text \<open>
  The key is folded to 32 bits with an arithmetic shift and a truncation, and mixed twice
  with 32-bit arithmetic.
\<close>

definition hash_int64 :: "int \<Rightarrow> nat" where
  "hash_int64 k =
     (let key = word_of_int k :: 64 word;
          h = ucast (key XOR signed_drop_bit 32 key) :: 32 word;
          h = (drop_bit 16 h XOR h) * 0x45d9f3b;
          h = (drop_bit 16 h XOR h) * 0x45d9f3b;
          h = drop_bit 16 h XOR h
      in unat (h mod 1024))"

definition hash_insert :: "bool \<Rightarrow> int \<Rightarrow> nat \<Rightarrow> graph \<Rightarrow> graph" where
  "hash_insert m i idx g =
     (let bucket = hash_int64 i in
      if \<not> m then g
      else g\<lparr>node_hash := (node_hash g)(bucket := \<lparr>entry_id = i, entry_index = idx\<rparr> # node_hash g bucket)\<rparr>)"

definition hash_lookup :: "graph \<Rightarrow> int \<Rightarrow> nat option" where
  "hash_lookup g i = map_option entry_index (find (\<lambda>e. entry_id e = i) (node_hash g (hash_int64 i)))"

section \<open>Nodes\<close>

definition new_node :: "int \<Rightarrow> node" where
  "new_node i = \<lparr>node_id = i, labels = [], node_props = []\<rparr>"

text \<open>
  The result is the index of the new node, whose address the code returns. The doubling of
  the adjacency array keeps the old cells and zeroes the new ones; when it fails, the node
  stays in the graph although the call reports a failure.
\<close>

definition graph_create_node :: "bool \<Rightarrow> bool \<Rightarrow> graph \<Rightarrow> nat option \<times> graph" where
  "graph_create_node m1 m2 g =
     (if max_nodes \<le> length (nodes g) then (None, g)
      else
        let idx = length (nodes g);
            i = next_node_id g;
            g = g\<lparr>nodes := nodes g @ [new_node i], next_node_id := i + 1\<rparr>;
            g = hash_insert m1 i idx g
        in if adjacency_capacity g \<le> idx then
             if \<not> m2 then (None, g)
             else (Some idx, g\<lparr>adjacency := (\<lambda>j. if adjacency_capacity g \<le> j then [] else adjacency g j),
                               adjacency_capacity := adjacency_capacity g * 2\<rparr>)
           else (Some idx, g))"

definition graph_get_node :: "graph \<Rightarrow> int \<Rightarrow> nat option" where
  "graph_get_node g i = hash_lookup g i"

definition graph_node_add_label :: "node \<Rightarrow> string \<Rightarrow> bool \<times> node" where
  "graph_node_add_label n label =
     (if max_node_labels \<le> length (labels n) then (False, n)
      else (True, n\<lparr>labels := labels n @ [c_strncpy (max_label_len - 1) label]\<rparr>))"

text \<open>
  Setting a property replaces the value of the first slot whose key compares equal to the
  whole argument, or appends a slot whose key is the argument cut to 63 characters. The
  loop is the same for nodes and for edges, with another limit on the number of slots.
\<close>

definition set_property :: "nat \<Rightarrow> property list \<Rightarrow> string \<Rightarrow> string \<Rightarrow> bool \<times> property list" where
  "set_property limit ps key val =
     (case find_idx (\<lambda>p. fst p = key) ps of
        Some i \<Rightarrow> (True, ps[i := (fst (ps ! i), c_strncpy (max_value_len - 1) val)])
      | None \<Rightarrow>
          if limit \<le> length ps then (False, ps)
          else (True, ps @ [(c_strncpy (max_key_len - 1) key, c_strncpy (max_value_len - 1) val)]))"

definition get_property :: "property list \<Rightarrow> string \<Rightarrow> string option" where
  "get_property ps key = map_option snd (find (\<lambda>p. fst p = key) ps)"

definition graph_node_set_property :: "node \<Rightarrow> string \<Rightarrow> string \<Rightarrow> bool \<times> node" where
  "graph_node_set_property n key val =
     (let (ok, ps) = set_property max_node_properties (node_props n) key val
      in (ok, n\<lparr>node_props := ps\<rparr>))"

definition graph_node_get_property :: "node \<Rightarrow> string \<Rightarrow> string option" where
  "graph_node_get_property n key = get_property (node_props n) key"

section \<open>Edges\<close>

definition new_edge :: "int \<Rightarrow> int \<Rightarrow> int \<Rightarrow> string \<Rightarrow> bool \<Rightarrow> edge" where
  "new_edge i from to typ dir =
     \<lparr>edge_id = i, edge_type = c_strncpy (max_edge_type_len - 1) typ, from_node = from,
      to_node = to, directed = dir, edge_props = []\<rparr>"

definition push_adj :: "nat \<Rightarrow> adj_node \<Rightarrow> graph \<Rightarrow> graph" where
  "push_adj i a g = g\<lparr>adjacency := (adjacency g)(i := a # adjacency g i)\<rparr>"

text \<open>
  The edge id is used up even when the first allocation fails; when only the second one
  fails, the edge is stored as undirected with one of its two adjacency cells.
\<close>

definition graph_create_edge ::
  "bool \<Rightarrow> bool \<Rightarrow> int \<Rightarrow> int \<Rightarrow> string \<Rightarrow> bool \<Rightarrow> graph \<Rightarrow> nat option \<times> graph" where
  "graph_create_edge m1 m2 from to typ dir g =
     (if max_edges \<le> length (edges g) then (None, g)
      else case (hash_lookup g from, hash_lookup g to) of
        (Some from_idx, Some to_idx) \<Rightarrow>
          let i = next_edge_id g;
              e = new_edge i from to typ dir;
              g = g\<lparr>next_edge_id := i + 1\<rparr>
          in if \<not> m1 then (None, g)
             else
               let g = push_adj from_idx \<lparr>adj_edge = i, neighbor = to\<rparr> g;
                   g = (if \<not> dir \<and> m2 then push_adj to_idx \<lparr>adj_edge = i, neighbor = from\<rparr> g else g)
               in (Some (length (edges g)), g\<lparr>edges := edges g @ [e]\<rparr>)
      | _ \<Rightarrow> (None, g))"

definition graph_get_edge :: "graph \<Rightarrow> int \<Rightarrow> nat option" where
  "graph_get_edge g i = find_idx (\<lambda>e. edge_id e = i) (edges g)"

definition graph_edge_set_property :: "edge \<Rightarrow> string \<Rightarrow> string \<Rightarrow> bool \<times> edge" where
  "graph_edge_set_property e key val =
     (let (ok, ps) = set_property max_edge_properties (edge_props e) key val
      in (ok, e\<lparr>edge_props := ps\<rparr>))"

section \<open>Queries\<close>

text \<open>Each fills an array of the caller up to its size, which is a C \<open>int\<close>.\<close>

definition graph_get_neighbors :: "graph \<Rightarrow> int \<Rightarrow> int \<Rightarrow> int list" where
  "graph_get_neighbors g i limit =
     (case hash_lookup g i of None \<Rightarrow> []
      | Some idx \<Rightarrow> take (nat limit) (map neighbor (adjacency g idx)))"

definition graph_get_edges_by_type :: "graph \<Rightarrow> string \<Rightarrow> int \<Rightarrow> int list" where
  "graph_get_edges_by_type g typ limit =
     take (nat limit) (map edge_id (filter (\<lambda>e. edge_type e = typ) (edges g)))"

definition graph_get_out_edges :: "graph \<Rightarrow> int \<Rightarrow> int \<Rightarrow> int list" where
  "graph_get_out_edges g i limit =
     (case hash_lookup g i of None \<Rightarrow> []
      | Some idx \<Rightarrow> take (nat limit) (map adj_edge (adjacency g idx)))"

definition graph_get_in_edges :: "graph \<Rightarrow> int \<Rightarrow> int \<Rightarrow> int list" where
  "graph_get_in_edges g i limit =
     take (nat limit) (map edge_id (filter (\<lambda>e. to_node e = i) (edges g)))"

definition graph_node_count :: "graph \<Rightarrow> nat" where
  "graph_node_count g = length (nodes g)"

definition graph_edge_count :: "graph \<Rightarrow> nat" where
  "graph_edge_count g = length (edges g)"

section \<open>Strings and properties\<close>

definition prop_ok :: "property \<Rightarrow> bool" where
  "prop_ok p \<longleftrightarrow> length (fst p) < max_key_len \<and> length (snd p) < max_value_len"

lemma set_property_bounds:
  assumes "set_property limit ps key val = (ok, ps')" "length ps \<le> limit" "\<forall>p \<in> set ps. prop_ok p"
  shows "length ps' \<le> limit \<and> (\<forall>p \<in> set ps'. prop_ok p)"
proof (cases "find_idx (\<lambda>p. fst p = key) ps")
  case None
  with assms show ?thesis
    by (auto simp: set_property_def prop_ok_def c_consts split: if_splits)
next
  case (Some i)
  then have "i < length ps" by (rule find_idx_SomeD)
  with Some assms show ?thesis
    by (auto simp: set_property_def prop_ok_def c_consts dest!: set_update_subset_insert[THEN subsetD])
qed

lemma get_property_Nil [simp]: "get_property [] key = None"
  by (simp add: get_property_def)

lemma get_property_Cons [simp]:
  "get_property (p # ps) key = (if fst p = key then Some (snd p) else get_property ps key)"
  by (simp add: get_property_def)

lemma get_property_None: "get_property ps key = None \<longleftrightarrow> key \<notin> fst ` set ps"
  by (induction ps) auto

lemma get_property_snoc:
  "get_property (ps @ [p]) key =
     (case get_property ps key of Some v \<Rightarrow> Some v | None \<Rightarrow> if fst p = key then Some (snd p) else None)"
  by (induction ps) auto

lemma get_property_update:
  "find_idx (\<lambda>p. fst p = key) ps = Some i \<Longrightarrow>
   get_property (ps[i := (fst (ps ! i), v)]) k = (if k = key then Some v else get_property ps k)"
  by (induction ps arbitrary: i) (auto split: if_splits nat.splits)

text \<open>A key of at most 63 characters behaves as in a finite map with a bounded domain.\<close>

lemma set_property_get:
  assumes "length key < max_key_len"
  shows "set_property limit ps key val =
     (if get_property ps key = None \<and> limit \<le> length ps then (False, ps)
      else (True, snd (set_property limit ps key val)))"
    and "fst (set_property limit ps key val) \<Longrightarrow>
     get_property (snd (set_property limit ps key val)) k =
       (if k = key then Some (take (max_value_len - 1) val) else get_property ps k)"
proof -
  have iff: "get_property ps key = None \<longleftrightarrow> find_idx (\<lambda>p. fst p = key) ps = None"
    by (auto simp: get_property_None find_idx_None_iff)
  then show "set_property limit ps key val =
     (if get_property ps key = None \<and> limit \<le> length ps then (False, ps)
      else (True, snd (set_property limit ps key val)))"
    by (auto simp: set_property_def split: option.splits)
  have cut: "c_strncpy (max_key_len - Suc 0) key = key" using assms by (simp add: c_consts)
  have valc: "c_strncpy (max_value_len - Suc 0) val = take (max_value_len - Suc 0) val"
    by (simp add: c_strncpy_def)
  show "get_property (snd (set_property limit ps key val)) k =
       (if k = key then Some (take (max_value_len - 1) val) else get_property ps k)"
    if "fst (set_property limit ps key val)"
  proof (cases "find_idx (\<lambda>p. fst p = key) ps")
    case None
    with that iff show ?thesis
      by (auto simp: set_property_def cut valc get_property_snoc split: if_splits option.splits)
  next
    case (Some i)
    then show ?thesis by (simp add: set_property_def get_property_update valc)
  qed
qed

text \<open>A longer key is stored cut, so it is never found again, and every call adds a slot.\<close>

lemma set_property_long_key:
  assumes "\<forall>p \<in> set ps. prop_ok p" "max_key_len \<le> length key" "length ps < limit"
  shows "set_property limit ps key val =
      (True, ps @ [(take (max_key_len - 1) key, take (max_value_len - 1) val)])"
    and "get_property (snd (set_property limit ps key val)) key = None"
proof -
  have no: "key \<noteq> fst p" if "p \<in> set ps" for p
    using assms(1,2) that by (auto simp: prop_ok_def)
  then have none: "find_idx (\<lambda>p. fst p = key) ps = None" by (auto simp: find_idx_None_iff)
  then show eq: "set_property limit ps key val =
      (True, ps @ [(take (max_key_len - 1) key, take (max_value_len - 1) val)])"
    using assms(3) by (simp add: set_property_def c_strncpy_def)
  have "length (take (max_key_len - 1) key) < length key"
    using assms(2) by (simp add: c_consts)
  then have "key \<noteq> take (max_key_len - 1) key" by (metis less_irrefl)
  moreover have "key \<notin> fst ` set ps" using no by blast
  ultimately show "get_property (snd (set_property limit ps key val)) key = None"
    unfolding eq get_property_None snd_conv set_append image_Un by simp
qed

section \<open>The state machine and its type invariant\<close>

text \<open>The operations a client can perform, the pointer-based ones through the node or edge id.\<close>

datatype graph_op =
    Create_Node bool bool
  | Create_Edge bool bool int int string bool
  | Add_Label int string
  | Set_Node_Property int string string
  | Set_Edge_Property int string string

definition at_node :: "(node \<Rightarrow> node) \<Rightarrow> int \<Rightarrow> graph \<Rightarrow> graph" where
  "at_node f i g =
     (case graph_get_node g i of None \<Rightarrow> g | Some k \<Rightarrow> g\<lparr>nodes := (nodes g)[k := f (nodes g ! k)]\<rparr>)"

definition at_edge :: "(edge \<Rightarrow> edge) \<Rightarrow> int \<Rightarrow> graph \<Rightarrow> graph" where
  "at_edge f i g =
     (case graph_get_edge g i of None \<Rightarrow> g | Some k \<Rightarrow> g\<lparr>edges := (edges g)[k := f (edges g ! k)]\<rparr>)"

fun graph_step :: "graph_op \<Rightarrow> graph \<Rightarrow> graph" where
  "graph_step (Create_Node m1 m2) g = snd (graph_create_node m1 m2 g)"
| "graph_step (Create_Edge m1 m2 u v t d) g = snd (graph_create_edge m1 m2 u v t d g)"
| "graph_step (Add_Label i l) g = at_node (\<lambda>n. snd (graph_node_add_label n l)) i g"
| "graph_step (Set_Node_Property i k v) g = at_node (\<lambda>n. snd (graph_node_set_property n k v)) i g"
| "graph_step (Set_Edge_Property i k v) g = at_edge (\<lambda>e. snd (graph_edge_set_property e k v)) i g"

definition graph_init :: "graph \<Rightarrow> bool" where
  "graph_init g \<longleftrightarrow> graph_create True True = Some g"

text \<open>Every array within its bounds, every string within its buffer.\<close>

definition node_ok :: "node \<Rightarrow> bool" where
  "node_ok n \<longleftrightarrow> length (labels n) \<le> max_node_labels \<and> (\<forall>l \<in> set (labels n). length l < max_label_len) \<and>
     length (node_props n) \<le> max_node_properties \<and> (\<forall>p \<in> set (node_props n). prop_ok p)"

definition edge_ok :: "edge \<Rightarrow> bool" where
  "edge_ok e \<longleftrightarrow> length (edge_type e) < max_edge_type_len \<and>
     length (edge_props e) \<le> max_edge_properties \<and> (\<forall>p \<in> set (edge_props e). prop_ok p)"

text \<open>The edge an adjacency cell of a node stands for.\<close>

definition adj_of :: "edge \<Rightarrow> int \<Rightarrow> adj_node \<Rightarrow> bool" where
  "adj_of e i a \<longleftrightarrow> edge_id e = adj_edge a \<and>
     (from_node e = i \<and> to_node e = neighbor a \<or> \<not> directed e \<and> to_node e = i \<and> from_node e = neighbor a)"

definition node_range :: "graph \<Rightarrow> int set" where
  "node_range g = {1..int (length (nodes g))}"

definition nodes_ok :: "graph \<Rightarrow> bool" where
  "nodes_ok g \<longleftrightarrow> length (nodes g) \<le> max_nodes \<and> next_node_id g = int (length (nodes g)) + 1 \<and>
     (\<forall>i < length (nodes g). node_id (nodes g ! i) = int i + 1 \<and> node_ok (nodes g ! i))"

definition hash_ok :: "graph \<Rightarrow> bool" where
  "hash_ok g \<longleftrightarrow> (\<forall>b. \<forall>e \<in> set (node_hash g b). hash_int64 (entry_id e) = b \<and>
     entry_index e < length (nodes g) \<and> entry_id e = int (entry_index e) + 1)"

definition edges_ok :: "graph \<Rightarrow> bool" where
  "edges_ok g \<longleftrightarrow> length (edges g) \<le> max_edges \<and> sorted_wrt (<) (map edge_id (edges g)) \<and>
     (\<forall>e \<in> set (edges g). edge_ok e \<and> 1 \<le> edge_id e \<and> edge_id e < next_edge_id g \<and>
        from_node e \<in> node_range g \<and> to_node e \<in> node_range g)"

definition adjacency_ok :: "graph \<Rightarrow> bool" where
  "adjacency_ok g \<longleftrightarrow> adjacency_capacity g = max_nodes \<and>
     (\<forall>i. \<forall>a \<in> set (adjacency g i). \<exists>e \<in> set (edges g). adj_of e (int i + 1) a)"

definition graph_ok :: "graph \<Rightarrow> bool" where
  "graph_ok g \<longleftrightarrow> nodes_ok g \<and> hash_ok g \<and> edges_ok g \<and> 1 \<le> next_edge_id g \<and> adjacency_ok g"

lemmas graph_ok_parts = nodes_ok_def hash_ok_def edges_ok_def adjacency_ok_def node_range_def

lemma hash_lookup_range:
  assumes "hash_ok g" "hash_lookup g i = Some k"
  shows "k < length (nodes g)" "i = int k + 1"
proof -
  obtain e where e: "find (\<lambda>e. entry_id e = i) (node_hash g (hash_int64 i)) = Some e" "k = entry_index e"
    using assms(2) by (auto simp: hash_lookup_def)
  then have "e \<in> set (node_hash g (hash_int64 i))" "entry_id e = i" by (auto simp: find_Some_iff)
  with e(2) assms(1) show "k < length (nodes g)" "i = int k + 1" by (auto simp: hash_ok_def)
qed

lemma hash_lookup_insert:
  "hash_lookup (hash_insert m i idx g) j = (if m \<and> j = i then Some idx else hash_lookup g j)"
  by (auto simp: hash_lookup_def hash_insert_def Let_def)

lemma hash_insert_frame [frames]:
  "nodes (hash_insert m i idx g) = nodes g" "edges (hash_insert m i idx g) = edges g"
  "adjacency (hash_insert m i idx g) = adjacency g" "next_node_id (hash_insert m i idx g) = next_node_id g"
  "next_edge_id (hash_insert m i idx g) = next_edge_id g"
  "adjacency_capacity (hash_insert m i idx g) = adjacency_capacity g"
  by (simp_all add: hash_insert_def Let_def)

lemma push_adj_frame [frames]:
  "nodes (push_adj i a g) = nodes g" "edges (push_adj i a g) = edges g"
  "node_hash (push_adj i a g) = node_hash g" "next_node_id (push_adj i a g) = next_node_id g"
  "next_edge_id (push_adj i a g) = next_edge_id g"
  "adjacency_capacity (push_adj i a g) = adjacency_capacity g"
  "adjacency (push_adj i a g) j = (if j = i then a # adjacency g i else adjacency g j)"
  by (simp_all add: push_adj_def)

lemma graph_create_ok: "graph_init g \<Longrightarrow> graph_ok g"
  by (auto simp: graph_init_def graph_create_def graph_ok_def graph_ok_parts)

text \<open>With the capacity the constructor allocates, the array of cells never has to grow.\<close>

lemma create_node_eq:
  assumes "graph_ok g"
  shows "graph_create_node m1 m2 g =
    (if max_nodes \<le> length (nodes g) then (None, g)
     else (Some (length (nodes g)),
           hash_insert m1 (next_node_id g) (length (nodes g))
             (g\<lparr>nodes := nodes g @ [new_node (next_node_id g)], next_node_id := next_node_id g + 1\<rparr>)))"
  using assms by (simp add: graph_create_node_def Let_def frames graph_ok_def adjacency_ok_def)

lemma create_node_ok [preserves]:
  assumes ok: "graph_ok g"
  shows "graph_ok (snd (graph_create_node m1 m2 g))"
proof (cases "max_nodes \<le> length (nodes g)")
  case False
  define h where "h = g\<lparr>nodes := nodes g @ [new_node (next_node_id g)], next_node_id := next_node_id g + 1\<rparr>"
  define g' where "g' = hash_insert m1 (next_node_id g) (length (nodes g)) h"
  have g': "snd (graph_create_node m1 m2 g) = g'"
    using False by (simp add: create_node_eq[OF ok] g'_def h_def)
  have "nodes_ok g'"
    using ok False
    by (auto simp: g'_def h_def frames graph_ok_def nodes_ok_def nth_append new_node_def node_ok_def less_Suc_eq)
  moreover have "hash_ok g'"
  proof -
    have len: "length (nodes g') = length (nodes g) + 1" by (simp add: g'_def h_def frames)
    have "hash_int64 (entry_id e) = b \<and> entry_index e < length (nodes g') \<and> entry_id e = int (entry_index e) + 1"
      if "e \<in> set (node_hash g' b)" for b e
      using that ok unfolding len
      by (fastforce simp: g'_def h_def hash_insert_def Let_def graph_ok_def hash_ok_def nodes_ok_def split: if_splits)
    then show ?thesis unfolding hash_ok_def by blast
  qed
  moreover have "edges_ok g'" "1 \<le> next_edge_id g'" "adjacency_ok g'"
    using ok by (auto simp: g'_def h_def frames graph_ok_def edges_ok_def node_range_def adjacency_ok_def)
  ultimately show ?thesis unfolding g' graph_ok_def by blast
qed (use ok in \<open>simp add: create_node_eq\<close>)

lemma create_edge_ok [preserves]:
  assumes ok: "graph_ok g"
  shows "graph_ok (snd (graph_create_edge m1 m2 u v t d g))"
proof (cases "length (edges g) < max_edges \<and> hash_lookup g u \<noteq> None \<and> hash_lookup g v \<noteq> None")
  case False
  then have "snd (graph_create_edge m1 m2 u v t d g) = g"
    by (auto simp: graph_create_edge_def split: option.splits)
  with ok show ?thesis by simp
next
  case True
  then obtain fi ti where look: "hash_lookup g u = Some fi" "hash_lookup g v = Some ti" by blast
  have idx: "fi < length (nodes g)" "u = int fi + 1" "ti < length (nodes g)" "v = int ti + 1"
    using look ok hash_lookup_range by (auto simp: graph_ok_def)
  let ?i = "next_edge_id g"
  let ?e = "new_edge ?i u v t d"
  show ?thesis
  proof (cases m1)
    case False
    then have "snd (graph_create_edge m1 m2 u v t d g) = g\<lparr>next_edge_id := ?i + 1\<rparr>"
      using True look by (simp add: graph_create_edge_def Let_def)
    moreover have "graph_ok (g\<lparr>next_edge_id := ?i + 1\<rparr>)"
      using ok by (fastforce simp: graph_ok_def nodes_ok_def hash_ok_def edges_ok_def adjacency_ok_def node_range_def)
    ultimately show ?thesis by simp
  next
    case m1: True
    define g1 where "g1 = push_adj fi \<lparr>adj_edge = ?i, neighbor = v\<rparr> (g\<lparr>next_edge_id := ?i + 1\<rparr>)"
    define g2 where "g2 = (if \<not> d \<and> m2 then push_adj ti \<lparr>adj_edge = ?i, neighbor = u\<rparr> g1 else g1)"
    define g' where "g' = g2\<lparr>edges := edges g2 @ [?e]\<rparr>"
    have g': "snd (graph_create_edge m1 m2 u v t d g) = g'"
      using True look m1 by (simp add: graph_create_edge_def Let_def g1_def g2_def g'_def)
    have flds: "nodes g' = nodes g" "node_hash g' = node_hash g" "edges g' = edges g @ [?e]"
      "next_node_id g' = next_node_id g" "next_edge_id g' = ?i + 1" "adjacency_capacity g' = adjacency_capacity g"
      by (simp_all add: g'_def g2_def g1_def frames)
    have "nodes_ok g'" "hash_ok g'"
      using ok unfolding graph_ok_def nodes_ok_def hash_ok_def flds by blast+
    moreover have "edges_ok g'"
      using ok True idx
      by (auto simp: graph_ok_def edges_ok_def node_range_def flds new_edge_def edge_ok_def sorted_wrt_append
          c_consts intro: less_imp_le)
    moreover have "1 \<le> next_edge_id g'" using ok by (simp add: flds graph_ok_def)
    moreover have "adjacency_ok g'"
    proof -
      have "\<exists>e \<in> set (edges g @ [?e]). adj_of e (int i + 1) a" if a: "a \<in> set (adjacency g' i)" for i a
      proof (cases "a \<in> set (adjacency g i)")
        case True
        then show ?thesis using ok by (fastforce simp: graph_ok_def adjacency_ok_def)
      next
        case False
        then have "adj_of ?e (int i + 1) a"
          using a idx by (auto simp: g'_def g2_def g1_def frames adj_of_def new_edge_def split: if_splits)
        then show ?thesis by simp
      qed
      then show ?thesis using ok by (auto simp: adjacency_ok_def flds graph_ok_def)
    qed
    ultimately show ?thesis unfolding g' graph_ok_def by blast
  qed
qed

lemma sorted_distinct_ids: "edges_ok g \<Longrightarrow> distinct (map edge_id (edges g))"
  by (simp add: edges_ok_def strict_sorted_iff)

lemma at_node_ok:
  assumes ok: "graph_ok g" and f: "\<And>n. node_id (f n) = node_id n" "\<And>n. node_ok n \<Longrightarrow> node_ok (f n)"
  shows "graph_ok (at_node f i g)"
proof (cases "graph_get_node g i")
  case (Some k)
  have k: "k < length (nodes g)"
    using Some ok hash_lookup_range(1) by (auto simp: graph_get_node_def graph_ok_def)
  define g' where "g' = g\<lparr>nodes := (nodes g)[k := f (nodes g ! k)]\<rparr>"
  have flds: "length (nodes g') = length (nodes g)" "node_hash g' = node_hash g" "edges g' = edges g"
    "adjacency g' = adjacency g" "adjacency_capacity g' = adjacency_capacity g" "next_edge_id g' = next_edge_id g"
    by (simp_all add: g'_def)
  have "nodes_ok g'"
    using ok f k by (auto simp: g'_def graph_ok_def nodes_ok_def nth_upd_if)
  moreover have "hash_ok g'" "edges_ok g'" "1 \<le> next_edge_id g'" "adjacency_ok g'"
    using ok unfolding graph_ok_def hash_ok_def edges_ok_def adjacency_ok_def node_range_def flds by blast+
  ultimately show ?thesis using Some by (simp add: at_node_def g'_def graph_ok_def)
qed (use ok in \<open>simp add: at_node_def\<close>)

lemma at_edge_ok:
  assumes ok: "graph_ok g"
    and f: "\<And>e. edge_id (f e) = edge_id e" "\<And>e. from_node (f e) = from_node e" "\<And>e. to_node (f e) = to_node e"
      "\<And>e. directed (f e) = directed e" "\<And>e. edge_ok e \<Longrightarrow> edge_ok (f e)"
  shows "graph_ok (at_edge f i g)"
proof (cases "graph_get_edge g i")
  case (Some k)
  have k: "k < length (edges g)" using Some by (auto simp: graph_get_edge_def dest: find_idx_SomeD)
  define g' where "g' = g\<lparr>edges := (edges g)[k := f (edges g ! k)]\<rparr>"
  have flds: "nodes g' = nodes g" "node_hash g' = node_hash g" "next_node_id g' = next_node_id g"
    "next_edge_id g' = next_edge_id g"
    by (simp_all add: g'_def)
  have ids: "map edge_id (edges g') = map edge_id (edges g)"
    using k by (simp add: g'_def map_update_same f)
  have same: "\<exists>e' \<in> set (edges g'). adj_of e' v a" if "e \<in> set (edges g)" "adj_of e v a" for e v a
  proof -
    obtain j where j: "j < length (edges g)" "e = edges g ! j" using \<open>e \<in> set (edges g)\<close> by (metis in_set_conv_nth)
    then have "edges g' ! j \<in> set (edges g')" by (simp add: g'_def)
    moreover have "adj_of (edges g' ! j) v a"
      using that(2) j by (auto simp: g'_def nth_upd_if adj_of_def f)
    ultimately show ?thesis by blast
  qed
  have "nodes_ok g'" "hash_ok g'" "1 \<le> next_edge_id g'"
    using ok unfolding graph_ok_def nodes_ok_def hash_ok_def flds by blast+
  moreover have "edges_ok g'"
  proof -
    have "edge_ok e \<and> 1 \<le> edge_id e \<and> edge_id e < next_edge_id g' \<and> from_node e \<in> node_range g' \<and> to_node e \<in> node_range g'"
      if e: "e \<in> set (edges g')" for e
    proof -
      have "e \<in> insert (f (edges g ! k)) (set (edges g))"
        using e set_update_subset_insert unfolding g'_def by fastforce
      then obtain e0 where "e0 \<in> set (edges g)" "e = e0 \<or> e = f e0"
        using nth_mem[OF k] by blast
      with ok show ?thesis by (auto simp: graph_ok_def edges_ok_def g'_def f node_range_def)
    qed
    moreover have "length (edges g') \<le> max_edges" using ok by (simp add: g'_def graph_ok_def edges_ok_def)
    ultimately show ?thesis using ok unfolding graph_ok_def edges_ok_def ids by blast
  qed
  moreover have "adjacency_ok g'"
  proof -
    have "adjacency g' = adjacency g" "adjacency_capacity g' = adjacency_capacity g" by (simp_all add: g'_def)
    then show ?thesis using ok same unfolding graph_ok_def adjacency_ok_def by metis
  qed
  ultimately show ?thesis using Some by (simp add: at_edge_def g'_def graph_ok_def)
qed (use ok in \<open>simp add: at_edge_def\<close>)

lemma node_update_ok [preserves]:
  "node_ok n \<Longrightarrow> node_ok (snd (graph_node_add_label n l))"
  "node_ok n \<Longrightarrow> node_ok (snd (graph_node_set_property n k v))"
  "node_id (snd (graph_node_add_label n l)) = node_id n"
  "node_id (snd (graph_node_set_property n k v)) = node_id n"
proof -
  obtain b ps where r: "set_property max_node_properties (node_props n) k v = (b, ps)"
    by (cases "set_property max_node_properties (node_props n) k v")
  show "node_ok (snd (graph_node_set_property n k v))" if "node_ok n"
    using set_property_bounds[OF r] that by (simp add: graph_node_set_property_def r node_ok_def)
  show "node_id (snd (graph_node_set_property n k v)) = node_id n"
    by (simp add: graph_node_set_property_def r)
qed (auto simp: graph_node_add_label_def node_ok_def c_consts)

lemma edge_update_ok [preserves]:
  "edge_ok e \<Longrightarrow> edge_ok (snd (graph_edge_set_property e k v))"
  "edge_id (snd (graph_edge_set_property e k v)) = edge_id e"
  "from_node (snd (graph_edge_set_property e k v)) = from_node e"
  "to_node (snd (graph_edge_set_property e k v)) = to_node e"
  "directed (snd (graph_edge_set_property e k v)) = directed e"
  "edge_type (snd (graph_edge_set_property e k v)) = edge_type e"
proof -
  obtain b ps where r: "set_property max_edge_properties (edge_props e) k v = (b, ps)"
    by (cases "set_property max_edge_properties (edge_props e) k v")
  show "edge_ok (snd (graph_edge_set_property e k v))" if "edge_ok e"
    using set_property_bounds[OF r] that by (simp add: graph_edge_set_property_def r edge_ok_def)
qed (simp_all add: graph_edge_set_property_def split: prod.splits)

lemma graph_step_ok [preserves]: "graph_ok g \<Longrightarrow> graph_ok (graph_step op g)"
  by (cases op) (auto intro!: preserves at_node_ok at_edge_ok simp: node_update_ok edge_update_ok)

interpretation graphs: invariant_system graph_init graph_step graph_ok
  by unfold_locales (auto intro: graph_create_ok graph_step_ok)

lemmas graph_runs_ok = graphs.run_inv

section \<open>Complete graphs: no allocation failed\<close>

text \<open>
  When every allocation succeeds, the hash table finds every node and every edge has all its
  adjacency cells; the neighbours of a node are then its arcs.
\<close>

definition arc :: "graph \<Rightarrow> int \<Rightarrow> int \<Rightarrow> bool" where
  "arc g u v \<longleftrightarrow> (\<exists>e \<in> set (edges g). from_node e = u \<and> to_node e = v \<or> \<not> directed e \<and> to_node e = u \<and> from_node e = v)"

definition graph_full :: "graph \<Rightarrow> bool" where
  "graph_full g \<longleftrightarrow> (\<forall>i < length (nodes g). hash_lookup g (int i + 1) = Some i) \<and>
     (\<forall>e \<in> set (edges g). \<forall>i a. adj_of e (int i + 1) a \<longrightarrow> a \<in> set (adjacency g i))"

fun allocs_ok :: "graph_op \<Rightarrow> bool" where
  "allocs_ok (Create_Node m1 m2) = (m1 \<and> m2)"
| "allocs_ok (Create_Edge m1 m2 _ _ _ _) = (m1 \<and> m2)"
| "allocs_ok _ = True"

lemma graph_create_full: "graph_init g \<Longrightarrow> graph_full g"
  by (auto simp: graph_init_def graph_create_def graph_full_def)

lemma full_lookup:
  assumes "graph_ok g" "graph_full g"
  shows "hash_lookup g v = (if v \<in> node_range g then Some (nat v - 1) else None)"
proof (cases "v \<in> node_range g")
  case True
  then have v: "v = int (nat v - 1) + 1" "nat v - 1 < length (nodes g)" by (auto simp: node_range_def)
  then have "hash_lookup g v = Some (nat v - 1)"
    using assms(2) unfolding graph_full_def by metis
  with True show ?thesis by simp
next
  case False
  then have "hash_lookup g v = None"
    using assms(1) hash_lookup_range[of g v] by (cases "hash_lookup g v") (auto simp: graph_ok_def node_range_def)
  with False show ?thesis by simp
qed

lemma create_node_full:
  assumes ok: "graph_ok g" and full: "graph_full g"
  shows "graph_full (snd (graph_create_node True m2 g))"
proof (cases "max_nodes \<le> length (nodes g)")
  case False
  have next_id: "next_node_id g = int (length (nodes g)) + 1" using ok by (simp add: graph_ok_def nodes_ok_def)
  have look: "hash_lookup (g\<lparr>nodes := ns, next_node_id := i\<rparr>) j = hash_lookup g j" for ns i j
    by (simp add: hash_lookup_def)
  show ?thesis
    using False full
    by (auto simp: create_node_eq[OF ok] graph_full_def hash_lookup_insert look next_id frames less_Suc_eq)
qed (use full in \<open>simp add: create_node_eq[OF ok]\<close>)

lemma create_edge_full:
  assumes ok: "graph_ok g" and full: "graph_full g"
  shows "graph_full (snd (graph_create_edge True True u v t d g))"
proof (cases "length (edges g) < max_edges \<and> hash_lookup g u \<noteq> None \<and> hash_lookup g v \<noteq> None")
  case False
  then have "snd (graph_create_edge True True u v t d g) = g"
    by (auto simp: graph_create_edge_def split: option.splits)
  with full show ?thesis by simp
next
  case True
  then obtain fi ti where look: "hash_lookup g u = Some fi" "hash_lookup g v = Some ti" by blast
  have idx: "u = int fi + 1" "v = int ti + 1"
    using look ok hash_lookup_range by (auto simp: graph_ok_def)
  let ?i = "next_edge_id g"
  let ?e = "new_edge ?i u v t d"
  define g1 where "g1 = push_adj fi \<lparr>adj_edge = ?i, neighbor = v\<rparr> (g\<lparr>next_edge_id := ?i + 1\<rparr>)"
  define g2 where "g2 = (if \<not> d then push_adj ti \<lparr>adj_edge = ?i, neighbor = u\<rparr> g1 else g1)"
  define g' where "g' = g2\<lparr>edges := edges g2 @ [?e]\<rparr>"
  have g': "snd (graph_create_edge True True u v t d g) = g'"
    using True look by (simp add: graph_create_edge_def Let_def g1_def g2_def g'_def)
  have flds: "nodes g' = nodes g" "edges g' = edges g @ [?e]" "hash_lookup g' = hash_lookup g"
    by (auto simp: g'_def g2_def g1_def frames hash_lookup_def)
  have mono: "a \<in> set (adjacency g i) \<Longrightarrow> a \<in> set (adjacency g' i)" for a i
    by (auto simp: g'_def g2_def g1_def frames)
  have new: "a \<in> set (adjacency g' i)" if "adj_of ?e (int i + 1) a" for a i
  proof -
    have "a = \<lparr>adj_edge = adj_edge a, neighbor = neighbor a\<rparr>" by simp
    then show ?thesis
      using that by (cases a) (auto simp: g'_def g2_def g1_def frames adj_of_def new_edge_def idx)
  qed
  show ?thesis
    using full mono new unfolding g' graph_full_def flds by auto
qed

lemma at_node_full:
  "graph_full g \<Longrightarrow> graph_full (at_node f i g)"
  by (auto simp: at_node_def graph_full_def hash_lookup_def split: option.splits)

lemma at_edge_full:
  assumes "graph_full g"
    and f: "\<And>e. edge_id (f e) = edge_id e" "\<And>e. from_node (f e) = from_node e" "\<And>e. to_node (f e) = to_node e"
      "\<And>e. directed (f e) = directed e"
  shows "graph_full (at_edge f i g)"
proof (cases "graph_get_edge g i")
  case (Some k)
  have k: "k < length (edges g)" using Some by (auto simp: graph_get_edge_def dest: find_idx_SomeD)
  define g' where "g' = g\<lparr>edges := (edges g)[k := f (edges g ! k)]\<rparr>"
  have flds: "nodes g' = nodes g" "adjacency g' = adjacency g" "hash_lookup g' = hash_lookup g"
    by (auto simp: g'_def hash_lookup_def)
  have "a \<in> set (adjacency g j)" if e: "e \<in> set (edges g')" "adj_of e (int j + 1) a" for e a j
  proof -
    have "e \<in> insert (f (edges g ! k)) (set (edges g))"
      using e(1) set_update_subset_insert unfolding g'_def by fastforce
    then obtain e0 where "e0 \<in> set (edges g)" "e = e0 \<or> e = f e0" using nth_mem[OF k] by blast
    then have "adj_of e0 (int j + 1) a" using e(2) by (auto simp: adj_of_def f)
    with \<open>e0 \<in> set (edges g)\<close> assms(1) show ?thesis unfolding graph_full_def by blast
  qed
  then have "graph_full g'" using assms(1) unfolding graph_full_def flds by blast
  then show ?thesis using Some by (simp add: at_edge_def g'_def)
qed (use assms(1) in \<open>simp add: at_edge_def\<close>)

lemma graph_step_full:
  assumes "graph_ok g" "graph_full g" "allocs_ok op"
  shows "graph_full (graph_step op g)"
  using assms by (cases op)
    (auto intro!: create_node_full create_edge_full at_node_full at_edge_full simp: edge_update_ok)

lemma graph_run_full:
  "graph_ok g \<Longrightarrow> graph_full g \<Longrightarrow> list_all allocs_ok ops \<Longrightarrow>
   graph_ok (fold graph_step ops g) \<and> graph_full (fold graph_step ops g)"
  by (induction ops arbitrary: g) (auto intro: graph_step_ok graph_step_full)

lemma adjacency_arcs:
  assumes "graph_ok g" "graph_full g" "1 \<le> u"
  shows "neighbor ` set (adjacency g (nat u - 1)) = {v. arc g u v}"
proof -
  define i where "i = nat u - 1"
  have u: "u = int i + 1" using assms(3) by (simp add: i_def)
  have "arc g u v \<longleftrightarrow> (\<exists>a. neighbor a = v \<and> (\<exists>e \<in> set (edges g). adj_of e u a))" for v
  proof
    assume "arc g u v"
    then obtain e where "e \<in> set (edges g)" "adj_of e u \<lparr>adj_edge = edge_id e, neighbor = v\<rparr>"
      by (auto simp: arc_def adj_of_def)
    then show "\<exists>a. neighbor a = v \<and> (\<exists>e \<in> set (edges g). adj_of e u a)" by (metis adj_node.select_convs(2))
  qed (auto simp: arc_def adj_of_def)
  moreover have "(\<exists>e \<in> set (edges g). adj_of e u a) \<longleftrightarrow> a \<in> set (adjacency g i)" for a
    using assms unfolding u graph_full_def graph_ok_def adjacency_ok_def by blast
  ultimately show ?thesis unfolding i_def[symmetric] by auto
qed

lemma arc_range: "graph_ok g \<Longrightarrow> arc g u v \<Longrightarrow> u \<in> node_range g \<and> v \<in> node_range g"
  by (auto simp: arc_def graph_ok_def edges_ok_def)

section \<open>Properties\<close>

text \<open>
  C37. The property graph never leaves its data layout. Whatever the client asks for and
  whichever allocations fail, every state the operations reach has at most 4096 nodes with
  the ids 1, 2, 3, \<dots> in array order, at most 16384 edges with increasing ids between
  existing nodes, hash entries that name the right slot, adjacency cells that each stand for
  an edge of their node, and every label, key, value and type inside its buffer.
\<close>

theorem graph_well_typed:
  "case graph_create m1 m2 of None \<Rightarrow> \<not> (m1 \<and> m2) | Some g \<Rightarrow> graph_ok (fold graph_step ops g)"
proof (cases "m1 \<and> m2")
  case True
  then obtain g where "graph_create m1 m2 = Some g" "graph_init g"
    by (auto simp: graph_init_def graph_create_def)
  then show ?thesis by (simp add: graphs.run_inv)
qed (auto simp: graph_create_def)

lemma empty_graph_init:
  "graph_init \<lparr>nodes = [], node_hash = (\<lambda>_. []), edges = [], adjacency = (\<lambda>_. []),
     adjacency_capacity = max_nodes, next_node_id = 1, next_edge_id = 1\<rparr>"
  by (simp add: graph_init_def graph_create_def)

text \<open>
  When no allocation has failed, the neighbour query answers with arcs of the graph
  only, and an answer shorter than the caller's array lists all of them: \<open>v\<close> is reported
  for \<open>u\<close> exactly when some edge leads from \<open>u\<close> to \<open>v\<close> or an undirected one from \<open>v\<close> to \<open>u\<close>.
\<close>

theorem neighbors_are_arcs:
  assumes "graph_init g0" "list_all allocs_ok ops" "g = fold graph_step ops g0"
  shows "set (graph_get_neighbors g u limit) \<subseteq> {v. arc g u v} \<and>
    (int (length (graph_get_neighbors g u limit)) < limit \<longrightarrow>
       set (graph_get_neighbors g u limit) = {v. arc g u v})"
proof -
  have g: "graph_ok g" "graph_full g"
    using graph_run_full[of g0 ops] assms by (simp_all add: graph_create_ok graph_create_full)
  show ?thesis
  proof (cases "u \<in> node_range g")
    case False
    then have "\<not> arc g u v" for v using arc_range[OF g(1)] by blast
    with False show ?thesis by (simp add: graph_get_neighbors_def full_lookup[OF g])
  next
    case True
    let ?adj = "adjacency g (nat u - 1)"
    have arcs: "neighbor ` set ?adj = {v. arc g u v}"
      using True by (intro adjacency_arcs g) (simp add: node_range_def)
    have eq: "graph_get_neighbors g u limit = take (nat limit) (map neighbor ?adj)"
      using True by (simp add: graph_get_neighbors_def full_lookup[OF g])
    have "take (nat limit) (map neighbor ?adj) = map neighbor ?adj"
      if "int (length (take (nat limit) (map neighbor ?adj))) < limit"
      using that by (auto simp: min_def split: if_splits)
    then show ?thesis
      using set_take_subset[of "nat limit" "map neighbor ?adj"] arcs unfolding eq by auto
  qed
qed

theorem neighbors_are_arcs_witness:
  "\<exists>g0. graph_init g0 \<and>
     (let g = fold graph_step [Create_Node True True, Create_Node True True, Create_Edge True True 1 2 ''knows'' False] g0
      in set (graph_get_neighbors g 2 8) \<subseteq> {v. arc g 2 v})"
  using neighbors_are_arcs[OF empty_graph_init, of "[Create_Node True True, Create_Node True True,
      Create_Edge True True 1 2 ''knows'' False]" _ 2 8] empty_graph_init
  by (fastforce simp: Let_def)

section \<open>Nodes that no allocation recorded\<close>

lemma lookup_step_new:
  assumes ok: "graph_ok g" and "hash_lookup g i = None" "i < next_node_id g"
  shows "hash_lookup (graph_step op g) i = None \<and> i < next_node_id (graph_step op g)"
proof -
  have look: "hash_lookup (g\<lparr>nodes := ns, next_node_id := n\<rparr>) i = hash_lookup g i" for ns n
    by (simp add: hash_lookup_def)
  show ?thesis
  proof (cases op)
    case (Create_Node m1 m2)
    with assms show ?thesis by (simp add: create_node_eq[OF ok] hash_lookup_insert look frames)
  next
    case (Create_Edge m1 m2 u v t d)
    with assms show ?thesis
      by (simp add: graph_create_edge_def Let_def frames hash_lookup_def split: option.splits)
  qed (use assms in \<open>simp_all add: at_node_def at_edge_def hash_lookup_def split: option.splits\<close>)
qed

text \<open>
  \<open>graph_create_node\<close> ignores a failed allocation of the hash entry: it reports success
  and the node takes a slot, but from then on no lookup finds it, whatever is done to the
  graph, and no edge can be attached to it.
\<close>

theorem lost_node_stays_lost:
  assumes "graph_init g0" "g = fold graph_step ops g0" "graph_create_node False m2 g = (Some k, g')"
  shows "graph_get_node (fold graph_step ops' g') (node_id (nodes g' ! k)) = None \<and>
    fst (graph_create_edge m1 m2' (node_id (nodes g' ! k)) v t d (fold graph_step ops' g')) = None"
proof -
  have ok: "graph_ok g" using assms(1,2) by (simp add: graphs.run_inv)
  have "\<not> max_nodes \<le> length (nodes g)" using assms(3) by (auto simp: create_node_eq[OF ok])
  then have k: "k = length (nodes g)"
    "g' = g\<lparr>nodes := nodes g @ [new_node (next_node_id g)], next_node_id := next_node_id g + 1\<rparr>"
    using assms(3) by (auto simp: create_node_eq[OF ok] hash_insert_def)
  then have i: "node_id (nodes g' ! k) = next_node_id g" by (simp add: new_node_def)
  have "next_node_id g \<notin> node_range g" using ok by (simp add: graph_ok_def nodes_ok_def node_range_def)
  then have "hash_lookup g (next_node_id g) = None"
    using ok hash_lookup_range[of g "next_node_id g"]
    by (cases "hash_lookup g (next_node_id g)") (auto simp: graph_ok_def node_range_def)
  then have start: "graph_ok g' \<and> hash_lookup g' (next_node_id g) = None \<and> next_node_id g < next_node_id g'"
    using create_node_ok[OF ok, of False m2] assms(3) by (simp add: k(2) hash_lookup_def)
  have "graph_ok (fold graph_step ops' h) \<and> hash_lookup (fold graph_step ops' h) (next_node_id g) = None"
    if "graph_ok h \<and> hash_lookup h (next_node_id g) = None \<and> next_node_id g < next_node_id h" for h
    using that by (induction ops' arbitrary: h) (auto simp: graph_step_ok lookup_step_new)
  from this[OF start] have "hash_lookup (fold graph_step ops' g') (next_node_id g) = None" by simp
  then show ?thesis by (simp add: i graph_get_node_def graph_create_edge_def)
qed

theorem lost_node_stays_lost_witness:
  "\<exists>g0 k g'. graph_init g0 \<and> graph_create_node False True g0 = (Some k, g') \<and>
     graph_get_node (fold graph_step [Create_Node True True] g') (node_id (nodes g' ! k)) = None"
proof -
  let ?g = "\<lparr>nodes = [], node_hash = (\<lambda>_. []), edges = [], adjacency = (\<lambda>_. []),
     adjacency_capacity = max_nodes, next_node_id = 1, next_edge_id = 1\<rparr> :: graph"
  have made: "graph_create_node False True ?g = (Some 0, ?g\<lparr>nodes := [new_node 1], next_node_id := 2\<rparr>)"
    by (simp add: graph_create_node_def hash_insert_def c_consts)
  have start: "?g = fold graph_step [] ?g" by simp
  show ?thesis
    using empty_graph_init made
      lost_node_stays_lost[OF empty_graph_init start made, of "[Create_Node True True]"]
    by blast
qed

text \<open>
  A node property whose key is longer than 63 characters cannot be read back: setting
  it succeeds while a slot is free, stores the cut key, and each further call with the same
  key fills another slot instead of replacing the value, until the sixteen are used up.
\<close>

theorem long_keys_fill_the_node:
  assumes "node_ok n" "node_props n = []" "max_key_len \<le> length key" "k \<le> max_node_properties"
  shows "let n' = fold (\<lambda>v n. snd (graph_node_set_property n key v)) (replicate k val) n in
     length (node_props n') = k \<and> graph_node_get_property n' key = None \<and>
     (k = max_node_properties \<longrightarrow> \<not> fst (graph_node_set_property n' key val))"
proof -
  let ?put = "\<lambda>v n. snd (graph_node_set_property n key v)"
  let ?p = "(take (max_key_len - 1) key, take (max_value_len - 1) val)"
  have pok: "prop_ok ?p" using assms(3) by (simp add: prop_ok_def c_consts)
  have "node_props (fold ?put (replicate k val) n) = replicate k ?p"
    using assms(4)
  proof (induction k)
    case (Suc k)
    then have IH: "node_props (fold ?put (replicate k val) n) = replicate k ?p" by simp
    have "fold ?put (replicate (Suc k) val) n = ?put val (fold ?put (replicate k val) n)"
      by (simp only: replicate_append_same[symmetric] replicate_Suc fold_append comp_def fold.simps id_def)
    moreover have "node_props (?put val m) = node_props m @ [?p]"
      if "node_props m = replicate k ?p" for m
      using set_property_long_key(1)[of "node_props m" key max_node_properties val] that pok assms(3) Suc.prems
      by (simp add: graph_node_set_property_def)
    ultimately show ?case using IH by (simp add: replicate_append_same)
  qed (simp add: assms(2))
  moreover have "get_property (replicate k ?p) key = None" for k
  proof -
    have "length (take (max_key_len - 1) key) < length key" using assms(3) by (simp add: c_consts)
    then have "key \<noteq> take (max_key_len - 1) key" by (metis less_irrefl)
    then show ?thesis by (auto simp: get_property_None)
  qed
  moreover have "\<not> fst (set_property max_node_properties (replicate max_node_properties ?p) key val)"
    using calculation(2)[of max_node_properties]
    by (auto simp: set_property_def get_property_None find_idx_None_iff split: option.splits dest: find_idx_SomeD)
  moreover have "fst (graph_node_set_property m key val) = fst (set_property max_node_properties (node_props m) key val)" for m
    by (simp add: graph_node_set_property_def case_prod_unfold Let_def)
  ultimately show ?thesis
    by (auto simp: Let_def graph_node_get_property_def)
qed

theorem long_keys_fill_the_node_witness:
  "let n' = fold (\<lambda>v n. snd (graph_node_set_property n (replicate 64 CHR ''k'') v)) (replicate 2 ''v'') (new_node 1)
   in length (node_props n') = 2"
proof -
  have "node_ok (new_node 1)" by (simp add: node_ok_def new_node_def)
  then show ?thesis
    using long_keys_fill_the_node[of "new_node 1" "replicate 64 CHR ''k''" 2 "''v''"]
    by (simp add: new_node_def c_consts Let_def)
qed
end
