(* ===== verification/Graph_Search.thy ===== *)
theory Graph_Search
  imports Prelude
begin

text \<open>
  Searching a finite graph given by the successors of its node indices: walks, what it means
  that every found node has a predecessor nearer to the root, the chain of predecessors the
  searches follow back, and the invariant of breadth first search with its consequence, that
  the nodes are found in the order of their distance. The traversals of the graph library
  are instances.
\<close>

type_synonym successors = "nat \<Rightarrow> (int \<times> nat) list"

section \<open>Walks\<close>

text \<open>A walk is the list of the edges taken, each with the node it leads to.\<close>

fun walk :: "successors \<Rightarrow> nat \<Rightarrow> (int \<times> nat) list \<Rightarrow> nat \<Rightarrow> bool" where
  "walk succ i [] j \<longleftrightarrow> i = j"
| "walk succ i ((e, m) # ps) j \<longleftrightarrow> (e, m) \<in> set (succ i) \<and> walk succ m ps j"

lemma walk_append: "walk succ i (ps @ qs) k \<longleftrightarrow> (\<exists>j. walk succ i ps j \<and> walk succ j qs k)"
  by (induction ps arbitrary: i) auto

lemma walk_snoc: "walk succ i (ps @ [(e, k)]) k' \<longleftrightarrow> (\<exists>j. walk succ i ps j \<and> (e, k) \<in> set (succ j) \<and> k' = k)"
  by (auto simp: walk_append)

definition linked :: "successors \<Rightarrow> nat \<Rightarrow> nat \<Rightarrow> bool" where
  "linked succ i j \<longleftrightarrow> (\<exists>ps. walk succ i ps j)"

lemma linked_refl [simp]: "linked succ i i"
  unfolding linked_def by (rule exI[of _ "[]"]) simp

lemma linked_step: "linked succ i j \<Longrightarrow> (e, k) \<in> set (succ j) \<Longrightarrow> linked succ i k"
  unfolding linked_def using walk_snoc by blast

lemma linked_closed:
  assumes "linked succ i j" "i \<in> S" "\<And>k e m. k \<in> S \<Longrightarrow> (e, m) \<in> set (succ k) \<Longrightarrow> m \<in> S"
  shows "j \<in> S"
proof -
  obtain ps where "walk succ i ps j" using assms(1) by (auto simp: linked_def)
  then show ?thesis
    using assms(2)
  proof (induction ps arbitrary: i)
    case (Cons p ps)
    obtain e m where [simp]: "p = (e, m)" by (cases p)
    show ?case using Cons.prems by (intro Cons.IH[of m]) (auto intro: assms(3))
  qed simp
qed

text \<open>A shortest walk does not repeat a node.\<close>

lemma walk_shorten:
  assumes "walk succ i ps j"
  shows "\<exists>qs. walk succ i qs j \<and> distinct (i # map snd qs) \<and> length qs \<le> length ps"
  using assms
proof (induction "length ps" arbitrary: ps rule: less_induct)
  case less
  show ?case
  proof (cases "distinct (i # map snd ps)")
    case False
    have "\<exists>qs. walk succ i qs j \<and> length qs < length ps"
    proof (cases "i \<in> snd ` set ps")
      case True
      then obtain e qs rs where ps: "ps = qs @ (e, i) # rs" by (fastforce simp: in_set_conv_decomp)
      then have "walk succ i rs j" using less.prems by (auto simp: walk_append)
      then show ?thesis using ps by auto
    next
      case no: False
      then have "\<not> distinct (map snd ps)" using False by auto
      then obtain xs ys zs m where "map snd ps = xs @ [m] @ ys @ [m] @ zs" by (auto dest!: not_distinct_decomp)
      then obtain as e bs e' cs where ps: "ps = as @ (e, m) # bs @ (e', m) # cs"
        by (auto simp: map_eq_append_conv map_eq_Cons_conv append_eq_map_conv Cons_eq_map_conv)
      then have "walk succ i (as @ (e, m) # cs) j" using less.prems by (auto simp: walk_append)
      then show ?thesis using ps by auto
    qed
    then obtain qs where "walk succ i qs j" "length qs < length ps" by blast
    with less.hyps[of qs] show ?thesis by (meson order.strict_implies_order le_trans)
  qed (use less.prems in blast)
qed

section \<open>Predecessors\<close>

text \<open>
  Every found node but the root has a found predecessor with an edge to it, whose rank is
  smaller, so that following the predecessors ends at the root.
\<close>

definition preds_ok :: "successors \<Rightarrow> nat \<Rightarrow> nat set \<Rightarrow> (nat \<Rightarrow> nat \<times> int) \<Rightarrow> (nat \<Rightarrow> nat) \<Rightarrow> bool" where
  "preds_ok succ root S prv rank \<longleftrightarrow> root \<in> S \<and>
     (\<forall>j \<in> S. j \<noteq> root \<longrightarrow> fst (prv j) \<in> S \<and> (snd (prv j), j) \<in> set (succ (fst (prv j))) \<and> rank (fst (prv j)) < rank j)"

fun chain :: "nat \<Rightarrow> (nat \<Rightarrow> nat \<times> int) \<Rightarrow> nat \<Rightarrow> nat \<Rightarrow> (int \<times> nat) list" where
  "chain 0 prv root j = []"
| "chain (Suc k) prv root j = (if j = root then [] else (snd (prv j), j) # chain k prv root (fst (prv j)))"

lemma length_chain: "length (chain k prv root j) \<le> k"
  by (induction k prv root j rule: chain.induct) auto

lemma chain_walk:
  assumes "preds_ok succ root S prv rank" "j \<in> S" "length (chain k prv root j) < k"
  shows "walk succ root (rev (chain k prv root j)) j"
  using assms(2,3)
proof (induction k arbitrary: j)
  case (Suc k)
  show ?case
  proof (cases "j = root")
    case False
    then have "fst (prv j) \<in> S" "(snd (prv j), j) \<in> set (succ (fst (prv j)))"
      using assms(1) Suc.prems(1) by (auto simp: preds_ok_def)
    then show ?thesis using Suc.IH[of "fst (prv j)"] Suc.prems(2) False by (auto simp: walk_snoc)
  qed simp
qed simp

lemma chain_exact:
  assumes "preds_ok succ root S prv depth" "depth root = 0"
    and "\<And>j. j \<in> S \<Longrightarrow> j \<noteq> root \<Longrightarrow> depth j = Suc (depth (fst (prv j)))" "j \<in> S"
  shows "length (chain k prv root j) = min k (depth j)"
  using assms(4)
proof (induction k arbitrary: j)
  case (Suc k)
  show ?case
  proof (cases "j = root")
    case False
    then have "fst (prv j) \<in> S" using assms(1) Suc.prems by (auto simp: preds_ok_def)
    with Suc.IH[of "fst (prv j)"] False assms(3)[OF Suc.prems False] show ?thesis by simp
  qed (simp add: assms(2))
qed simp

lemma preds_linked:
  assumes "preds_ok succ root S prv rank" "j \<in> S"
  shows "linked succ root j"
  using assms(2)
proof (induction "rank j" arbitrary: j rule: less_induct)
  case less
  show ?case
  proof (cases "j = root")
    case False
    then have "fst (prv j) \<in> S" "(snd (prv j), j) \<in> set (succ (fst (prv j)))" "rank (fst (prv j)) < rank j"
      using assms(1) less.prems by (auto simp: preds_ok_def)
    then show ?thesis using less.hyps by (blast intro: linked_step)
  qed simp
qed

section \<open>Breadth first search\<close>

record frontier =
  fr_queue :: "nat list"
  fr_depth :: "nat \<Rightarrow> nat"
  fr_from :: "nat \<Rightarrow> nat \<times> int"

definition discover :: "nat \<Rightarrow> int \<times> nat \<Rightarrow> frontier \<Rightarrow> frontier" where
  "discover c p s =
     (let (e, j) = p in
      if j \<in> set (fr_queue s) then s
      else \<lparr>fr_queue = fr_queue s @ [j], fr_depth = (fr_depth s)(j := Suc (fr_depth s c)),
            fr_from = (fr_from s)(j := (c, e))\<rparr>)"

definition frontier_start :: "nat \<Rightarrow> frontier" where
  "frontier_start root = \<lparr>fr_queue = [root], fr_depth = (\<lambda>_. 0), fr_from = (\<lambda>_. (0, 0))\<rparr>"

definition found_ok :: "successors \<Rightarrow> nat \<Rightarrow> frontier \<Rightarrow> bool" where
  "found_ok succ root s \<longleftrightarrow> distinct (fr_queue s) \<and> root \<in> set (fr_queue s) \<and> fr_depth s root = 0 \<and>
     sorted (map (fr_depth s) (fr_queue s)) \<and>
     (\<forall>j \<in> set (fr_queue s). j \<noteq> root \<longrightarrow> fst (fr_from s j) \<in> set (fr_queue s) \<and>
        (snd (fr_from s j), j) \<in> set (succ (fst (fr_from s j))) \<and> fr_depth s j = Suc (fr_depth s (fst (fr_from s j))))"

definition expanded :: "successors \<Rightarrow> nat \<Rightarrow> frontier \<Rightarrow> bool" where
  "expanded succ f s \<longleftrightarrow> (\<forall>i < f. \<forall>(e, j) \<in> set (succ (fr_queue s ! i)).
     j \<in> set (fr_queue s) \<and> fr_depth s j \<le> Suc (fr_depth s (fr_queue s ! i)))"

definition frontier_ok :: "successors \<Rightarrow> nat \<Rightarrow> nat \<Rightarrow> frontier \<Rightarrow> bool" where
  "frontier_ok succ root f s \<longleftrightarrow> found_ok succ root s \<and> f \<le> length (fr_queue s) \<and> expanded succ f s \<and>
     (f < length (fr_queue s) \<longrightarrow> (\<forall>j \<in> set (fr_queue s). fr_depth s j \<le> Suc (fr_depth s (fr_queue s ! f))))"

lemma frontier_start_ok: "frontier_ok succ root 0 (frontier_start root)"
  by (simp add: frontier_ok_def found_ok_def expanded_def frontier_start_def)

lemma found_preds:
  "found_ok succ root s \<Longrightarrow> preds_ok succ root (set (fr_queue s)) (fr_from s) (fr_depth s)"
  by (auto simp: found_ok_def preds_ok_def)

definition scanning :: "successors \<Rightarrow> nat \<Rightarrow> nat \<Rightarrow> nat \<Rightarrow> (int \<times> nat) set \<Rightarrow> frontier \<Rightarrow> bool" where
  "scanning succ root f c done s \<longleftrightarrow> found_ok succ root s \<and> f < length (fr_queue s) \<and> fr_queue s ! f = c \<and>
     expanded succ f s \<and> (\<forall>j \<in> set (fr_queue s). fr_depth s j \<le> Suc (fr_depth s c)) \<and>
     (\<forall>(e, j) \<in> done. j \<in> set (fr_queue s))"

lemma scanning_discover:
  assumes scan: "scanning succ root f c done s" and edge: "(e, j) \<in> set (succ c)"
  shows "scanning succ root f c (insert (e, j) done) (discover c (e, j) s)"
proof (cases "j \<in> set (fr_queue s)")
  case True
  then show ?thesis using scan by (auto simp: discover_def scanning_def)
next
  case False
  let ?s = "discover c (e, j) s"
  have q: "fr_queue ?s = fr_queue s @ [j]" "fr_from ?s = (fr_from s)(j := (c, e))"
    "fr_depth ?s = (fr_depth s)(j := Suc (fr_depth s c))"
    using False by (simp_all add: discover_def)
  have c: "c \<in> set (fr_queue s)" "c \<noteq> j" using scan False by (auto simp: scanning_def)
  have old: "fr_depth ?s i = fr_depth s i" "fr_from ?s i = fr_from s i" if "i \<in> set (fr_queue s)" for i
    using that False by (auto simp: q)
  have root: "root \<in> set (fr_queue s)" using scan by (simp add: scanning_def found_ok_def)
  have same: "map (fr_depth ?s) (fr_queue s) = map (fr_depth s) (fr_queue s)" using old by simp
  have "fr_depth ?s j = Suc (fr_depth s c)" by (simp add: q)
  moreover have "sorted (map (fr_depth s) (fr_queue s))" "\<forall>i \<in> set (fr_queue s). fr_depth s i \<le> Suc (fr_depth s c)"
    using scan by (simp_all add: scanning_def found_ok_def)
  ultimately have "sorted (map (fr_depth ?s) (fr_queue ?s))"
    unfolding q(1) map_append sorted_append same by simp
  moreover have "fr_depth ?s root = 0" using scan old(1)[OF root] by (simp add: scanning_def found_ok_def)
  moreover have "fst (fr_from ?s i) \<in> set (fr_queue ?s) \<and> (snd (fr_from ?s i), i) \<in> set (succ (fst (fr_from ?s i))) \<and>
      fr_depth ?s i = Suc (fr_depth ?s (fst (fr_from ?s i)))"
    if "i \<in> set (fr_queue ?s)" "i \<noteq> root" for i
  proof (cases "i = j")
    case True
    then show ?thesis using c edge by (simp add: q)
  next
    case False
    then have "i \<in> set (fr_queue s)" using that(1) by (simp add: q)
    moreover from this have "fst (fr_from s i) \<in> set (fr_queue s) \<and> (snd (fr_from s i), i) \<in> set (succ (fst (fr_from s i))) \<and>
        fr_depth s i = Suc (fr_depth s (fst (fr_from s i)))"
      using scan that(2) unfolding scanning_def found_ok_def by blast
    ultimately show ?thesis using old by (simp add: q(1))
  qed
  moreover have "distinct (fr_queue ?s)" "root \<in> set (fr_queue ?s)"
    using scan False root by (simp_all add: q(1) scanning_def found_ok_def)
  ultimately have "found_ok succ root ?s" unfolding found_ok_def by blast
  moreover have "expanded succ f ?s"
  proof -
    have "k \<in> set (fr_queue ?s) \<and> fr_depth ?s k \<le> Suc (fr_depth ?s (fr_queue ?s ! i))"
      if i: "i < f" "(e', k) \<in> set (succ (fr_queue ?s ! i))" for i e' k
    proof -
      have less: "i < length (fr_queue s)" using scan i(1) by (simp add: scanning_def)
      then have same: "fr_queue ?s ! i = fr_queue s ! i" by (simp add: q(1) nth_append)
      have "k \<in> set (fr_queue s) \<and> fr_depth s k \<le> Suc (fr_depth s (fr_queue s ! i))"
        using scan i unfolding scanning_def expanded_def same by blast
      then show ?thesis using old less unfolding same by (simp add: q(1))
    qed
    then show ?thesis unfolding expanded_def by blast
  qed
  moreover have "fr_depth ?s i \<le> Suc (fr_depth ?s c)" if "i \<in> set (fr_queue ?s)" for i
    using that scan c False by (auto simp: q scanning_def)
  moreover have "f < length (fr_queue ?s)" "fr_queue ?s ! f = c"
    using scan by (auto simp: scanning_def q(1) nth_append)
  moreover have "\<forall>(e', k) \<in> insert (e, j) done. k \<in> set (fr_queue ?s)"
    using scan by (auto simp: scanning_def q(1))
  ultimately show ?thesis unfolding scanning_def by blast
qed

lemma scanning_fold:
  "scanning succ root f c done s \<Longrightarrow> set as \<subseteq> set (succ c) \<Longrightarrow>
   scanning succ root f c (done \<union> set as) (fold (discover c) as s)"
proof (induction as arbitrary: "done" s)
  case (Cons a as)
  obtain e j where a: "a = (e, j)" by (cases a)
  have "scanning succ root f c (insert (e, j) done) (discover c (e, j) s)"
    using Cons.prems by (intro scanning_discover) (auto simp: a)
  from Cons.IH[OF this] Cons.prems(2) show ?case by (simp add: a)
qed simp

lemma frontier_expand:
  assumes ok: "frontier_ok succ root f s" and f: "f < length (fr_queue s)" and c: "c = fr_queue s ! f"
  shows "frontier_ok succ root (Suc f) (fold (discover c) (succ c) s)"
proof -
  let ?s = "fold (discover c) (succ c) s"
  have "scanning succ root f c {} s" using assms by (auto simp: scanning_def frontier_ok_def)
  from scanning_fold[OF this] have scan: "scanning succ root f c (set (succ c)) ?s" by simp
  have "expanded succ (Suc f) ?s"
    using scan by (fastforce simp: scanning_def expanded_def less_Suc_eq)
  moreover have "fr_depth ?s j \<le> Suc (fr_depth ?s (fr_queue ?s ! Suc f))"
    if "Suc f < length (fr_queue ?s)" "j \<in> set (fr_queue ?s)" for j
  proof -
    have "sorted (map (fr_depth ?s) (fr_queue ?s))" using scan by (simp add: scanning_def found_ok_def)
    from sorted_nth_mono[OF this, of f "Suc f"] that(1) scan
    have "fr_depth ?s c \<le> fr_depth ?s (fr_queue ?s ! Suc f)" by (simp add: scanning_def)
    moreover have "fr_depth ?s j \<le> Suc (fr_depth ?s c)" using scan that(2) by (simp add: scanning_def)
    ultimately show ?thesis by simp
  qed
  ultimately show ?thesis using scan by (simp add: frontier_ok_def scanning_def)
qed

text \<open>
  The depths are distances: a walk from the root either leads to a found node that is no
  deeper than the walk is long, or is longer than the depth of the next node to expand.
\<close>

lemma frontier_distance:
  assumes ok: "frontier_ok succ root f s" and "walk succ root ps j"
  shows "j \<in> set (fr_queue s) \<and> fr_depth s j \<le> length ps \<or>
    j \<notin> set (fr_queue s) \<and> f < length (fr_queue s) \<and> fr_depth s (fr_queue s ! f) < length ps"
  using assms(2)
proof (induction ps arbitrary: j rule: rev_induct)
  case Nil
  then show ?case using ok by (auto simp: frontier_ok_def found_ok_def)
next
  case (snoc p ps)
  obtain e where p: "p = (e, j)" using snoc.prems by (cases p) (auto simp: walk_append)
  with snoc.prems obtain i where i: "walk succ root ps i" "(e, j) \<in> set (succ i)" by (auto simp: walk_snoc)
  show ?case
  proof (cases "i \<in> set (fr_queue s)")
    case False
    with snoc.IH[OF i(1)] ok show ?thesis by (auto simp: frontier_ok_def)
  next
    case True
    then obtain k where k: "k < length (fr_queue s)" "i = fr_queue s ! k" by (metis in_set_conv_nth)
    have le: "fr_depth s i \<le> length ps" using snoc.IH[OF i(1)] True by blast
    show ?thesis
    proof (cases "k < f")
      case True
      then have "j \<in> set (fr_queue s)" "fr_depth s j \<le> Suc (fr_depth s i)"
        using ok i(2) k by (auto simp: frontier_ok_def expanded_def)
      with le show ?thesis by simp
    next
      case False
      have "sorted (map (fr_depth s) (fr_queue s))" using ok by (simp add: frontier_ok_def found_ok_def)
      from sorted_nth_mono[OF this, of f k] False k
      have "fr_depth s (fr_queue s ! f) \<le> length ps" using le by simp
      moreover have "f < length (fr_queue s)" using False k(1) by simp
      ultimately show ?thesis using ok by (auto simp: frontier_ok_def)
    qed
  qed
qed

lemma frontier_done:
  assumes "frontier_ok succ root (length (fr_queue s)) s"
  shows "j \<in> set (fr_queue s) \<longleftrightarrow> linked succ root j"
  using frontier_distance[OF assms] preds_linked[OF found_preds] assms
  by (auto simp: linked_def frontier_ok_def)

text \<open>The length of the queue is bounded in a graph with finitely many indices.\<close>

locale index_graph =
  fixes succ :: successors and n root :: nat
  assumes succ_less: "(e, j) \<in> set (succ i) \<Longrightarrow> j < n" and root_less: "root < n"
begin

lemma linked_less: "linked succ root j \<Longrightarrow> j < n"
  using linked_closed[of succ root j "{..<n}"] succ_less root_less by auto

lemma queue_bound:
  assumes "frontier_ok succ root f s"
  shows "length (fr_queue s) \<le> n"
proof -
  have "found_ok succ root s" using assms by (simp add: frontier_ok_def)
  then have "set (fr_queue s) \<subseteq> {..<n}" "distinct (fr_queue s)"
    using preds_linked[OF found_preds] linked_less by (auto simp: found_ok_def)
  then show ?thesis using card_mono[of "{..<n}" "set (fr_queue s)"] by (simp add: distinct_card)
qed

end

end
