(* ===== verification/Graph_Traversal.thy ===== *)
theory Graph_Traversal
  imports Property_Graph Graph_Search
begin

text \<open>
  The traversals of \<open>graph_traversal.c\<close> that need no floating point: breadth first and depth
  first search with path reconstruction, the search of all simple paths for a shortest one,
  and the two visitors. The arrays of node indices are functions of the index, the used part
  of a queue, stack or path is a list. A write behind the 256 cells of a path result or the
  4096 cells of the stack is undefined behaviour and the result \<open>None\<close>.
\<close>

section \<open>Results and node indices\<close>

definition max_path_length :: nat where [c_consts]: "max_path_length = 256"

record path_result =
  path_nodes :: "int list"
  path_edges :: "int list"
  found :: bool

definition no_path :: path_result where
  "no_path = \<lparr>path_nodes = [], path_edges = [], found = False\<rparr>"

text \<open>The linear search for an id that every traversal repeats; an unknown id gets index 0.\<close>

definition node_index :: "graph \<Rightarrow> int \<Rightarrow> nat" where
  "node_index g i = (case find_idx (\<lambda>n. node_id n = i) (nodes g) of Some k \<Rightarrow> k | None \<Rightarrow> 0)"

section \<open>Breadth first search\<close>

record bfs_state =
  bfs_queue :: "int list"
  bfs_front :: nat
  bfs_seen :: "nat \<Rightarrow> bool"
  bfs_parent :: "nat \<Rightarrow> int"
  bfs_parent_edge :: "nat \<Rightarrow> int"

definition bfs_visit :: "graph \<Rightarrow> nat \<Rightarrow> adj_node \<Rightarrow> bfs_state \<Rightarrow> bfs_state" where
  "bfs_visit g ci a st =
     (let ni = node_index g (neighbor a) in
      if bfs_seen st ni then st
      else st\<lparr>bfs_seen := (bfs_seen st)(ni := True),
              bfs_parent := (bfs_parent st)(ni := int ci),
              bfs_parent_edge := (bfs_parent_edge st)(ni := adj_edge a),
              bfs_queue := bfs_queue st @ [neighbor a]\<rparr>)"

text \<open>The first argument of the loop counts \<open>max_nodes_to_visit - visited_count\<close>.\<close>

fun bfs_loop :: "nat \<Rightarrow> graph \<Rightarrow> int \<Rightarrow> bfs_state \<Rightarrow> bfs_state" where
  "bfs_loop k g target st =
     (if \<not> (bfs_front st < length (bfs_queue st) \<and> 0 < k) then st
      else
        let cur = bfs_queue st ! bfs_front st;
            st = st\<lparr>bfs_front := Suc (bfs_front st)\<rparr>;
            ci = node_index g cur
        in if cur = target \<and> 0 \<le> target then st
           else if adjacency_capacity g \<le> ci then bfs_loop (k - 1) g target st
           else bfs_loop (k - 1) g target (fold (bfs_visit g ci) (adjacency g ci) st))"

declare bfs_loop.simps [simp del]

text \<open>
  Following the parents back from the target, at most 256 steps; then the start is stored
  behind the nodes passed, and all is turned round into the result.
\<close>

fun walk_back :: "nat \<Rightarrow> graph \<Rightarrow> (nat \<Rightarrow> int) \<Rightarrow> (nat \<Rightarrow> int) \<Rightarrow> nat \<Rightarrow> nat \<Rightarrow> (int \<times> int) list" where
  "walk_back k g par par_edge si cur =
     (if cur = si \<or> k = 0 then []
      else (node_id (nodes g ! cur), par_edge cur) # walk_back (k - 1) g par par_edge si (nat (par cur)))"

declare walk_back.simps [simp del]

definition path_back :: "graph \<Rightarrow> (nat \<Rightarrow> int) \<Rightarrow> (nat \<Rightarrow> int) \<Rightarrow> nat \<Rightarrow> nat \<Rightarrow> path_result option" where
  "path_back g par par_edge si ti =
     (let steps = walk_back max_path_length g par par_edge si ti in
      if max_path_length \<le> length steps then None
      else Some \<lparr>path_nodes = node_id (nodes g ! si) # rev (map fst steps),
                 path_edges = rev (map snd steps), found = True\<rparr>)"

definition bfs_start :: "graph \<Rightarrow> int \<Rightarrow> bfs_state" where
  "bfs_start g start =
     (let si = node_index g start in
      \<lparr>bfs_queue = [start], bfs_front = 0, bfs_seen = (\<lambda>_. False)(si := True),
       bfs_parent = (\<lambda>_. 0)(si := -1), bfs_parent_edge = (\<lambda>_. 0)(si := -1)\<rparr>)"

definition bfs_internal :: "graph \<Rightarrow> int \<Rightarrow> int \<Rightarrow> nat \<Rightarrow> path_result option" where
  "bfs_internal g start target limit =
     (if graph_get_node g start = None then Some no_path
      else
        let si = node_index g start;
            st = bfs_loop limit g target (bfs_start g start)
        in if target < 0 then
             if max_path_length < length (bfs_queue st) then None
             else Some \<lparr>path_nodes = bfs_queue st, path_edges = [], found = True\<rparr>
           else
             let ti = node_index g target in
             if \<not> bfs_seen st ti then Some no_path
             else path_back g (bfs_parent st) (bfs_parent_edge st) si ti)"

definition traverse_bfs :: "graph \<Rightarrow> int \<Rightarrow> int \<Rightarrow> path_result option" where
  "traverse_bfs g start target = bfs_internal g start target max_nodes"

definition traverse_shortest_path :: "graph \<Rightarrow> int \<Rightarrow> int \<Rightarrow> path_result option" where
  "traverse_shortest_path g start target = bfs_internal g start target max_nodes"

section \<open>Depth first search\<close>

record dfs_state =
  dfs_stack :: "int list"
  dfs_seen :: "nat \<Rightarrow> bool"
  dfs_parent :: "nat \<Rightarrow> int"
  dfs_parent_edge :: "nat \<Rightarrow> int"
  dfs_order :: "int list"

text \<open>
  The unvisited neighbours are collected first and pushed from the last to the first; the
  head of the list is the top of the stack.
\<close>

definition dfs_push :: "graph \<Rightarrow> nat \<Rightarrow> adj_node \<Rightarrow> dfs_state \<Rightarrow> dfs_state" where
  "dfs_push g ci a st =
     (let ni = node_index g (neighbor a) in
      st\<lparr>dfs_parent := (dfs_parent st)(ni := int ci),
         dfs_parent_edge := (dfs_parent_edge st)(ni := adj_edge a),
         dfs_stack := neighbor a # dfs_stack st\<rparr>)"

definition dfs_fresh :: "graph \<Rightarrow> nat \<Rightarrow> (nat \<Rightarrow> bool) \<Rightarrow> adj_node list" where
  "dfs_fresh g ci seen =
     take max_nodes (filter (\<lambda>a. \<not> seen (node_index g (neighbor a))) (adjacency g ci))"

lemma node_index_less: "node_index g i < max 1 (length (nodes g))"
  by (auto simp: node_index_def max_def split: option.splits dest: find_idx_SomeD(1))

text \<open>The number of indices a traversal has not visited yet.\<close>

definition unseen :: "graph \<Rightarrow> (nat \<Rightarrow> bool) \<Rightarrow> nat" where
  "unseen g seen = card {i. i < max 1 (length (nodes g)) \<and> \<not> seen i}"

lemma unseen_mark:
  assumes "\<not> seen i" "i < max 1 (length (nodes g))"
  shows "unseen g (seen(i := True)) < unseen g seen"
  unfolding unseen_def
proof (rule psubset_card_mono)
  show "{j. j < max 1 (length (nodes g)) \<and> \<not> (seen(i := True)) j} \<subset> {j. j < max 1 (length (nodes g)) \<and> \<not> seen j}"
    using assms by auto
qed simp

lemma fold_dfs_push_seen [simp]:
  "dfs_seen (fold (dfs_push g ci) as st) = dfs_seen st"
  "dfs_order (fold (dfs_push g ci) as st) = dfs_order st"
  by (induction as arbitrary: st) (simp_all add: dfs_push_def Let_def)

function dfs_loop :: "graph \<Rightarrow> int \<Rightarrow> dfs_state \<Rightarrow> dfs_state option" where
  "dfs_loop g target st =
     (case dfs_stack st of
        [] \<Rightarrow> Some st
      | cur # rest \<Rightarrow>
          let st = st\<lparr>dfs_stack := rest\<rparr>;
              ci = node_index g cur
          in if dfs_seen st ci then dfs_loop g target st
             else
               let st = st\<lparr>dfs_seen := (dfs_seen st)(ci := True),
                           dfs_order := (if length (dfs_order st) < max_nodes then dfs_order st @ [cur] else dfs_order st)\<rparr>
               in if cur = target \<and> 0 \<le> target then Some st
                  else
                    let fresh = dfs_fresh g ci (dfs_seen st) in
                    if max_nodes < length rest + length fresh then None
                    else dfs_loop g target (fold (dfs_push g ci) (rev fresh) st))"
  by auto
termination
  by (relation "measures [\<lambda>(g, t, st). unseen g (dfs_seen st), \<lambda>(g, t, st). length (dfs_stack st)]")
     (auto intro: unseen_mark node_index_less)

declare dfs_loop.simps [simp del]

definition dfs_start :: "graph \<Rightarrow> int \<Rightarrow> dfs_state" where
  "dfs_start g start =
     (let si = node_index g start in
      \<lparr>dfs_stack = [start], dfs_seen = (\<lambda>_. False), dfs_parent = (\<lambda>_. 0)(si := -1),
       dfs_parent_edge = (\<lambda>_. 0)(si := -1), dfs_order = []\<rparr>)"

definition traverse_dfs :: "graph \<Rightarrow> int \<Rightarrow> int \<Rightarrow> path_result option" where
  "traverse_dfs g start target =
     (if graph_get_node g start = None then Some no_path
      else
        let si = node_index g start in
        case dfs_loop g target (dfs_start g start) of
          None \<Rightarrow> None
        | Some st \<Rightarrow>
            if 0 \<le> target then
              let ti = node_index g target in
              if \<not> dfs_seen st ti then Some no_path
              else path_back g (dfs_parent st) (dfs_parent_edge st) si ti
            else if max_path_length < length (dfs_order st) then None
            else Some \<lparr>path_nodes = dfs_order st, path_edges = [], found = True\<rparr>)"

section \<open>All simple paths\<close>

text \<open>
  The recursion carries the current path, of which the code reads only the prefix up to the
  depth: its nodes and its edges, so the depth is the number of edges. The first argument
  is \<open>max_depth + 1 - depth\<close>, so that it is zero when the depth has passed the limit.
\<close>

fun dfs_all_paths :: "nat \<Rightarrow> graph \<Rightarrow> int \<Rightarrow> int \<Rightarrow> int list \<Rightarrow> int list \<Rightarrow> (nat \<Rightarrow> bool) \<Rightarrow> path_result \<Rightarrow>
      ((nat \<Rightarrow> bool) \<times> path_result) option"
  and all_paths_adj :: "nat \<Rightarrow> graph \<Rightarrow> int \<Rightarrow> adj_node list \<Rightarrow> int list \<Rightarrow> int list \<Rightarrow> (nat \<Rightarrow> bool) \<Rightarrow> path_result \<Rightarrow>
      ((nat \<Rightarrow> bool) \<times> path_result) option" where
  "dfs_all_paths 0 g target cur path edge_path seen best = Some (seen, best)"
| "dfs_all_paths (Suc k) g target cur path edge_path seen best =
     (let ci = node_index g cur in
      if cur = target then
        if \<not> found best \<or> length edge_path < length (path_nodes best) then
          if max_path_length \<le> length edge_path then None
          else Some (seen, \<lparr>path_nodes = path, path_edges = edge_path, found = True\<rparr>)
        else Some (seen, best)
      else
        case all_paths_adj k g target (adjacency g ci) path edge_path (seen(ci := True)) best of
          None \<Rightarrow> None
        | Some (seen, best) \<Rightarrow> Some (seen(ci := False), best))"
| "all_paths_adj k g target [] path edge_path seen best = Some (seen, best)"
| "all_paths_adj k g target (a # as) path edge_path seen best =
     (if \<not> seen (node_index g (neighbor a)) then
        case dfs_all_paths k g target (neighbor a) (path @ [neighbor a]) (edge_path @ [adj_edge a]) seen best of
          None \<Rightarrow> None
        | Some (seen, best) \<Rightarrow> all_paths_adj k g target as path edge_path seen best
      else all_paths_adj k g target as path edge_path seen best)"

text \<open>
  For the limit \<open>-2\<close> the path buffers have no cells and the first write is behind them, and
  with no nodes at all so is the first flag; below that the sizes are huge as unsigned
  numbers and it is for the allocations to fail.
\<close>

definition traverse_all_paths :: "bool \<Rightarrow> bool \<Rightarrow> bool \<Rightarrow> graph \<Rightarrow> int \<Rightarrow> int \<Rightarrow> int \<Rightarrow> path_result option" where
  "traverse_all_paths m1 m2 m3 g start target max_depth =
     (if \<not> m1 then Some no_path
      else if \<not> (m2 \<and> m3) then Some no_path
      else if max_depth = -2 then None
      else if nodes g = [] \<and> start \<noteq> target \<and> 0 \<le> max_depth then None
      else map_option snd
        (dfs_all_paths (nat (max_depth + 1)) g target start [start] [] (\<lambda>_. False) no_path))"

section \<open>Visitors\<close>

text \<open>
  The callback of the client is represented by the list of its calls, a node and its depth
  each; the number of calls is the value returned.
\<close>

record visit_state =
  vis_queue :: "(int \<times> int) list"
  vis_front :: nat
  vis_seen :: "nat \<Rightarrow> bool"

definition bfs_discover :: "graph \<Rightarrow> int \<Rightarrow> adj_node \<Rightarrow> visit_state \<Rightarrow> visit_state" where
  "bfs_discover g d a st =
     (let ni = node_index g (neighbor a) in
      if vis_seen st ni then st
      else st\<lparr>vis_seen := (vis_seen st)(ni := True), vis_queue := vis_queue st @ [(neighbor a, d + 1)]\<rparr>)"

lemma fold_bfs_discover_front [simp]: "vis_front (fold (bfs_discover g d) as st) = vis_front st"
  by (induction as arbitrary: st) (simp_all add: bfs_discover_def Let_def)

lemma fold_bfs_discover_measure:
  "length (vis_queue (fold (bfs_discover g d) as st)) + unseen g (vis_seen (fold (bfs_discover g d) as st))
     \<le> length (vis_queue st) + unseen g (vis_seen st)"
proof (induction as arbitrary: st)
  case (Cons a as)
  have "length (vis_queue (bfs_discover g d a st)) + unseen g (vis_seen (bfs_discover g d a st))
     \<le> length (vis_queue st) + unseen g (vis_seen st)"
    using unseen_mark[OF _ node_index_less, of "vis_seen st" g "neighbor a"]
    by (auto simp: bfs_discover_def Let_def)
  then show ?case using Cons.IH[of "bfs_discover g d a st"] by simp
qed simp

function bfs_visit_loop :: "graph \<Rightarrow> visit_state \<Rightarrow> (int \<times> int) list \<Rightarrow> (int \<times> int) list" where
  "bfs_visit_loop g st calls =
     (if \<not> vis_front st < length (vis_queue st) then calls
      else
        let (cur, d) = vis_queue st ! vis_front st;
            st = st\<lparr>vis_front := Suc (vis_front st)\<rparr>;
            ci = node_index g cur
        in bfs_visit_loop g (fold (bfs_discover g d) (adjacency g ci) st) (calls @ [(cur, d)]))"
  by auto
termination
proof (relation "measure (\<lambda>(g, st, _). length (vis_queue st) + unseen g (vis_seen st) - vis_front st)")
  fix g and st st' :: visit_state and calls :: "(int \<times> int) list" and p :: "int \<times> int" and cur d :: int and ci
  assume less: "\<not> \<not> vis_front st < length (vis_queue st)"
    and st': "st' = st\<lparr>vis_front := Suc (vis_front st)\<rparr>"
  let ?r = "fold (bfs_discover g d) (adjacency g ci) st'"
  have "length (vis_queue ?r) + unseen g (vis_seen ?r) \<le> length (vis_queue st) + unseen g (vis_seen st)"
    using fold_bfs_discover_measure[of g d "adjacency g ci" st'] st' by simp
  then show "((g, ?r, calls @ [(cur, d)]), g, st, calls)
      \<in> measure (\<lambda>(g, st, _). length (vis_queue st) + unseen g (vis_seen st) - vis_front st)"
    using less st' by simp
qed simp

declare bfs_visit_loop.simps [simp del]

text \<open>With no nodes at all the array of flags has no cell to mark.\<close>

definition traverse_bfs_visitor :: "bool \<Rightarrow> graph \<Rightarrow> int \<Rightarrow> (int \<times> int) list option" where
  "traverse_bfs_visitor m g start =
     (if \<not> m then Some []
      else if nodes g = [] then None
      else Some (bfs_visit_loop g
        \<lparr>vis_queue = [(start, 0)], vis_front = 0, vis_seen = (\<lambda>_. False)(node_index g start := True)\<rparr> []))"

function dfs_visit_loop :: "graph \<Rightarrow> (int \<times> int) list \<Rightarrow> (nat \<Rightarrow> bool) \<Rightarrow> (int \<times> int) list \<Rightarrow> (int \<times> int) list option" where
  "dfs_visit_loop g [] seen calls = Some calls"
| "dfs_visit_loop g ((cur, d) # rest) seen calls =
     (let ci = node_index g cur in
      if seen ci then dfs_visit_loop g rest seen calls
      else
        let seen = seen(ci := True);
            fresh = dfs_fresh g ci seen
        in if max_nodes < length rest + length fresh then None
           else dfs_visit_loop g (map (\<lambda>a. (neighbor a, d + 1)) fresh @ rest) seen (calls @ [(cur, d)]))"
  by pat_completeness auto
termination
  by (relation "measures [\<lambda>(g, stk, seen, _). unseen g seen, \<lambda>(g, stk, seen, _). length stk]")
     (auto intro: unseen_mark node_index_less)

definition traverse_dfs_visitor :: "bool \<Rightarrow> graph \<Rightarrow> int \<Rightarrow> (int \<times> int) list option" where
  "traverse_dfs_visitor m g start =
     (if \<not> m then Some []
      else if nodes g = [] then None
      else dfs_visit_loop g [(start, 0)] (\<lambda>_. False) [])"

end
