(* ===== verification/Graph_Walks.thy ===== *)
theory Graph_Walks
  imports Graph_Traversal
begin

text \<open>
  Walks in the graph, and the same walks in the indices of its nodes; graphs that the
  operations built with no failed allocation, in which reachability is the closure of the
  arcs; and a graph of two nodes that the witnesses use.
\<close>

section \<open>Walks in the graph and in its indices\<close>

text \<open>
  A walk from a node, as the list of the edge ids taken and the node ids they lead to; a path
  result stands for one when its two arrays list the nodes and the edges of it.
\<close>

fun graph_walk :: "graph \<Rightarrow> int \<Rightarrow> (int \<times> int) list \<Rightarrow> int \<Rightarrow> bool" where
  "graph_walk g u [] v \<longleftrightarrow> u = v"
| "graph_walk g u ((e, w) # ps) v \<longleftrightarrow>
     \<lparr>adj_edge = e, neighbor = w\<rparr> \<in> set (adjacency g (nat u - 1)) \<and> graph_walk g w ps v"

definition is_path :: "graph \<Rightarrow> int \<Rightarrow> int \<Rightarrow> path_result \<Rightarrow> bool" where
  "is_path g u v r \<longleftrightarrow>
     (\<exists>ps. path_nodes r = u # map snd ps \<and> path_edges r = map fst ps \<and> graph_walk g u ps v)"

definition reachable :: "graph \<Rightarrow> int \<Rightarrow> int \<Rightarrow> bool" where
  "reachable g u v \<longleftrightarrow> (\<exists>ps. graph_walk g u ps v)"

definition index_succ :: "graph \<Rightarrow> successors" where
  "index_succ g i = map (\<lambda>a. (adj_edge a, node_index g (neighbor a))) (adjacency g i)"

lemma index_succ_set: "(e, j) \<in> set (index_succ g i) \<longleftrightarrow>
    (\<exists>w. \<lparr>adj_edge = e, neighbor = w\<rparr> \<in> set (adjacency g i) \<and> j = node_index g w)"
proof -
  have "(e, j) \<in> set (index_succ g i) \<longleftrightarrow>
      (\<exists>a \<in> set (adjacency g i). e = adj_edge a \<and> j = node_index g (neighbor a))"
    by (auto simp: index_succ_def)
  also have "\<dots> \<longleftrightarrow> (\<exists>w. \<lparr>adj_edge = e, neighbor = w\<rparr> \<in> set (adjacency g i) \<and> j = node_index g w)"
  proof
    assume "\<exists>a \<in> set (adjacency g i). e = adj_edge a \<and> j = node_index g (neighbor a)"
    then obtain a where "a \<in> set (adjacency g i)" "e = adj_edge a" "j = node_index g (neighbor a)" by blast
    moreover have "a = \<lparr>adj_edge = adj_edge a, neighbor = neighbor a\<rparr>" by simp
    ultimately show "\<exists>w. \<lparr>adj_edge = e, neighbor = w\<rparr> \<in> set (adjacency g i) \<and> j = node_index g w" by metis
  qed force
  finally show ?thesis .
qed

interpretation index_nodes: index_graph "index_succ g" "max 1 (length (nodes g))" "node_index g start" for g start
  by unfold_locales (use node_index_less in \<open>auto simp: index_succ_def\<close>)

lemma node_index_range:
  assumes "graph_ok g" "v \<in> node_range g"
  shows "node_index g v = nat v - 1" "node_index g v < length (nodes g)" "int (node_index g v) + 1 = v"
    "node_id (nodes g ! node_index g v) = v"
proof -
  have ids: "node_id (nodes g ! i) = int i + 1" if "i < length (nodes g)" for i
    using assms(1) that by (simp add: graph_ok_def nodes_ok_def)
  have v: "nat v - 1 < length (nodes g)" "int (nat v - 1) + 1 = v" using assms(2) by (auto simp: node_range_def)
  have "find_idx (\<lambda>n. node_id n = v) (nodes g) = Some (nat v - 1)"
  proof (rule find_idx_SomeI)
    show "node_id (nodes g ! j) \<noteq> v" if "j < nat v - 1" for j
      using ids[of j] that v by linarith
  qed (use v ids[of "nat v - 1"] in auto)
  then show "node_index g v = nat v - 1" by (simp add: node_index_def)
  with v ids[of "nat v - 1"] show "node_index g v < length (nodes g)" "int (node_index g v) + 1 = v"
    "node_id (nodes g ! node_index g v) = v" by simp_all
qed

lemma adjacency_range:
  assumes "graph_ok g" "a \<in> set (adjacency g i)"
  shows "i < length (nodes g)" "neighbor a \<in> node_range g"
proof -
  obtain e where "e \<in> set (edges g)" "adj_of e (int i + 1) a"
    using assms unfolding graph_ok_def adjacency_ok_def by blast
  then have "int i + 1 \<in> node_range g \<and> neighbor a \<in> node_range g"
    using assms(1) unfolding graph_ok_def edges_ok_def adj_of_def by metis
  then show "i < length (nodes g)" "neighbor a \<in> node_range g" by (auto simp: node_range_def)
qed

lemma get_node_range: "graph_ok g \<Longrightarrow> graph_get_node g u \<noteq> None \<Longrightarrow> u \<in> node_range g"
  using hash_lookup_range[of g u] by (auto simp: graph_get_node_def graph_ok_def node_range_def)

lemma walk_of_graph_walk:
  assumes ok: "graph_ok g"
  shows "graph_walk g u ps v \<Longrightarrow> u \<in> node_range g \<Longrightarrow>
    walk (index_succ g) (node_index g u) (map (map_prod id (node_index g)) ps) (node_index g v) \<and> v \<in> node_range g"
proof (induction ps arbitrary: u)
  case (Cons p ps)
  obtain e w where p: "p = (e, w)" by (cases p)
  have step: "\<lparr>adj_edge = e, neighbor = w\<rparr> \<in> set (adjacency g (node_index g u))" "graph_walk g w ps v"
    using Cons.prems node_index_range(1)[OF ok, of u] by (auto simp: p)
  then have "w \<in> node_range g" using adjacency_range(2)[OF ok step(1)] by simp
  with Cons.IH[OF step(2)] step(1) show ?case by (auto simp: p index_succ_set)
qed simp

lemma graph_walk_of_walk:
  assumes ok: "graph_ok g"
  shows "walk (index_succ g) i ps j \<Longrightarrow> i < length (nodes g) \<Longrightarrow>
    graph_walk g (int i + 1) (map (map_prod id (\<lambda>k. int k + 1)) ps) (int j + 1) \<and> j < length (nodes g)"
proof (induction ps arbitrary: i)
  case (Cons p ps)
  obtain e m where p: "p = (e, m)" by (cases p)
  obtain w where w: "\<lparr>adj_edge = e, neighbor = w\<rparr> \<in> set (adjacency g i)" "m = node_index g w"
    using Cons.prems(1) by (auto simp: p index_succ_set)
  have "w \<in> node_range g" using adjacency_range(2)[OF ok w(1)] by simp
  then have "int m + 1 = w" "m < length (nodes g)" using node_index_range[OF ok] w(2) by auto
  moreover have "nat (int i + 1) - Suc 0 = i" by simp
  ultimately show ?case using Cons.IH[of m] Cons.prems(1) w(1) by (simp add: p)
qed simp

lemma reachable_linked:
  assumes "graph_ok g" "u \<in> node_range g"
  shows "reachable g u v \<longleftrightarrow> v \<in> node_range g \<and> linked (index_succ g) (node_index g u) (node_index g v)"
proof
  assume "reachable g u v"
  then show "v \<in> node_range g \<and> linked (index_succ g) (node_index g u) (node_index g v)"
    using walk_of_graph_walk[OF assms(1) _ assms(2)] unfolding reachable_def linked_def by blast
next
  assume v: "v \<in> node_range g \<and> linked (index_succ g) (node_index g u) (node_index g v)"
  then obtain ps where "walk (index_succ g) (node_index g u) ps (node_index g v)" by (auto simp: linked_def)
  from graph_walk_of_walk[OF assms(1) this] v assms show "reachable g u v"
    using node_index_range[OF assms(1)] by (auto simp: reachable_def)
qed

section \<open>Graphs that the operations built\<close>

lemma adj_cell: "\<lparr>adj_edge = adj_edge a, neighbor = neighbor a\<rparr> = (a :: adj_node)"
  by simp

definition built :: "graph \<Rightarrow> graph_op list \<Rightarrow> graph \<Rightarrow> bool" where
  "built g0 ops g \<longleftrightarrow> graph_init g0 \<and> list_all allocs_ok ops \<and> g = fold graph_step ops g0"

lemma built_ok: "built g0 ops g \<Longrightarrow> graph_ok g" "built g0 ops g \<Longrightarrow> graph_full g"
  using graph_run_full[of g0 ops] by (auto simp: built_def graph_create_ok graph_create_full)

lemma built_get: "built g0 ops g \<Longrightarrow> u \<in> node_range g \<Longrightarrow> graph_get_node g u \<noteq> None"
  by (simp add: graph_get_node_def full_lookup built_ok)

lemma reachable_arcs:
  assumes "built g0 ops g" "u \<in> node_range g"
  shows "reachable g u v \<longleftrightarrow> (arc g)\<^sup>*\<^sup>* u v"
proof
  have step: "(\<exists>e. \<lparr>adj_edge = e, neighbor = w\<rparr> \<in> set (adjacency g (nat x - 1))) \<longleftrightarrow> arc g x w" if "x \<in> node_range g" for x w
  proof -
    have "neighbor ` set (adjacency g (nat x - 1)) = {v. arc g x v}"
      using that by (intro adjacency_arcs built_ok[OF assms(1)]) (simp add: node_range_def)
    moreover have "(\<exists>e. \<lparr>adj_edge = e, neighbor = w\<rparr> \<in> S) \<longleftrightarrow> w \<in> neighbor ` S" for S
    proof
      assume "w \<in> neighbor ` S"
      then obtain a where "a \<in> S" "w = neighbor a" by blast
      then have "\<lparr>adj_edge = adj_edge a, neighbor = w\<rparr> \<in> S" by (simp only: adj_cell)
      then show "\<exists>e. \<lparr>adj_edge = e, neighbor = w\<rparr> \<in> S" ..
    qed force
    ultimately show ?thesis by blast
  qed
  note range = arc_range[OF built_ok(1)[OF assms(1)]]
  show "(arc g)\<^sup>*\<^sup>* u v" if "reachable g u v"
  proof -
    obtain ps where "graph_walk g u ps v" using \<open>reachable g u v\<close> by (auto simp: reachable_def)
    then show ?thesis using assms(2)
    proof (induction ps arbitrary: u)
      case (Cons p ps)
      obtain e w where p: "p = (e, w)" by (cases p)
      then have arc: "arc g u w" using Cons.prems step by auto
      then have "(arc g)\<^sup>*\<^sup>* w v" using Cons range by (auto simp: p)
      with arc show ?case by (rule converse_rtranclp_into_rtranclp)
    qed simp
  qed
  show "reachable g u v" if "(arc g)\<^sup>*\<^sup>* u v"
    using that assms(2)
  proof (induction rule: converse_rtranclp_induct)
    case base
    have "graph_walk g v [] v" by simp
    then show ?case unfolding reachable_def by blast
  next
    case (step x y)
    obtain e where "\<lparr>adj_edge = e, neighbor = y\<rparr> \<in> set (adjacency g (nat x - 1))"
      using step.hyps(1) \<open>\<And>x w. x \<in> node_range g \<Longrightarrow> _ = arc g x w\<close> step.prems by blast
    moreover obtain ps where "graph_walk g y ps v" using step range by (auto simp: reachable_def)
    ultimately have "graph_walk g x ((e, y) # ps) v" by simp
    then show ?case unfolding reachable_def by blast
  qed
qed

lemma node_index_unknown:
  assumes ok: "graph_ok g" and "t \<notin> node_range g"
  shows "node_index g t = 0"
proof -
  have "find_idx (\<lambda>n. node_id n = t) (nodes g) = None"
    unfolding find_idx_None_iff
  proof
    fix n assume "n \<in> set (nodes g)"
    then obtain i where "i < length (nodes g)" "n = nodes g ! i" by (metis in_set_conv_nth)
    then have "node_id n \<in> node_range g" using ok by (simp add: graph_ok_def nodes_ok_def node_range_def)
    with assms(2) show "node_id n \<noteq> t" by auto
  qed
  then show ?thesis by (simp add: node_index_def)
qed

section \<open>A small graph\<close>

definition pair_ops :: "graph_op list" where
  "pair_ops = [Create_Node True True, Create_Node True True, Create_Edge True True 1 2 ''knows'' False]"

lemma pair_built:
  obtains g0 g where "built g0 pair_ops g" "node_range g = {1..2}" "graph_walk g 1 [(1, 2)] 2"
    "\<forall>i. length (adjacency g i) \<le> 1" "arc g 1 2" "arc g 2 1" "length (nodes g) = 2"
proof -
  let ?g0 = "\<lparr>nodes = [], node_hash = (\<lambda>_. []), edges = [], adjacency = (\<lambda>_. []),
     adjacency_capacity = max_nodes, next_node_id = 1, next_edge_id = 1\<rparr> :: graph"
  define g2 where "g2 = fold graph_step [Create_Node True True, Create_Node True True] ?g0"
  define g where "g = fold graph_step pair_ops ?g0"
  have g: "g = snd (graph_create_edge True True 1 2 ''knows'' False g2)" by (simp add: g_def g2_def pair_ops_def)
  have ok: "graph_ok g2" "graph_full g2"
    using graph_run_full[of ?g0 "[Create_Node True True, Create_Node True True]"] empty_graph_init
    by (simp_all add: g2_def graph_create_ok graph_create_full)
  have flds: "length (nodes g2) = 2" "edges g2 = []" "adjacency g2 = (\<lambda>_. [])" "next_edge_id g2 = 1"
    by (simp_all add: g2_def graph_create_node_def Let_def frames c_consts)
  have look: "hash_lookup g2 1 = Some 0" "hash_lookup g2 2 = Some 1"
    by (simp_all add: full_lookup[OF ok] node_range_def flds(1))
  have gv: "nodes g = nodes g2" "adjacency g = (\<lambda>_. [])(0 := [\<lparr>adj_edge = 1, neighbor = 2\<rparr>], 1 := [\<lparr>adj_edge = 1, neighbor = 1\<rparr>])"
    by (auto simp: g graph_create_edge_def look flds Let_def push_adj_def c_consts)
  have "built ?g0 pair_ops g" using empty_graph_init by (simp add: built_def g_def pair_ops_def)
  moreover have "node_range g = {1..2}" by (simp add: node_range_def gv flds)
  moreover have "graph_walk g 1 [(1, 2)] 2" "\<forall>i. length (adjacency g i) \<le> 1" by (simp_all add: gv)
  moreover have "arc g 1 2" "arc g 2 1"
    by (simp_all add: arc_def g graph_create_edge_def look flds Let_def push_adj_def c_consts new_edge_def)
  moreover have "length (nodes g) = 2" by (simp add: gv flds)
  ultimately show thesis using that by blast
qed

end
