(* ===== verification/Graph_Paths.thy ===== *)
theory Graph_Paths
  imports Graph_Walks
begin

text \<open>
  Correctness of the traversals: breadth first search and its visitor as instances of the
  search of \<open>Graph_Search\<close>, the invariant of depth first
  search, the search of all simple paths, and the properties over graphs that the operations
  built.
\<close>


section \<open>Following predecessors\<close>

lemma walk_back_chain:
  assumes "preds_ok succ si S prv rank" "j \<in> S"
    and "\<And>i. i \<in> S \<Longrightarrow> i \<noteq> si \<Longrightarrow> par i = int (fst (prv i)) \<and> pe i = snd (prv i)"
  shows "walk_back k g par pe si j = map (\<lambda>(e, i). (node_id (nodes g ! i), e)) (chain k prv si j)"
  using assms(2)
proof (induction k arbitrary: j)
  case (Suc k)
  then show ?case
    using assms(1,3) by (subst walk_back.simps) (auto simp: preds_ok_def)
qed (simp add: walk_back.simps)

text \<open>Either the chain of predecessors is too long for the result, or the result is a path.\<close>

lemma path_back_spec:
  assumes ok: "graph_ok g" and u: "u \<in> node_range g" and v: "v \<in> node_range g"
    and preds: "preds_ok (index_succ g) (node_index g u) S prv rank" "node_index g v \<in> S"
    and par: "\<And>i. i \<in> S \<Longrightarrow> i \<noteq> node_index g u \<Longrightarrow> par i = int (fst (prv i)) \<and> pe i = snd (prv i)"
  shows "case path_back g par pe (node_index g u) (node_index g v) of
      None \<Rightarrow> max_path_length \<le> length (chain max_path_length prv (node_index g u) (node_index g v))
    | Some r \<Rightarrow> found r \<and> is_path g u v r \<and> length (path_edges r) < max_path_length \<and>
        length (path_edges r) = length (chain max_path_length prv (node_index g u) (node_index g v))"
proof (cases "max_path_length \<le> length (chain max_path_length prv (node_index g u) (node_index g v))")
  case True
  then show ?thesis by (simp add: path_back_def Let_def walk_back_chain[OF preds par])
next
  case False
  let ?ch = "chain max_path_length prv (node_index g u) (node_index g v)"
  have wb: "walk_back max_path_length g par pe (node_index g u) (node_index g v) =
      map (\<lambda>(e, i). (node_id (nodes g ! i), e)) ?ch"
    by (rule walk_back_chain[OF preds par])
  define ps where "ps = map (map_prod id (\<lambda>k. int k + 1)) (rev ?ch)"
  have w: "walk (index_succ g) (node_index g u) (rev ?ch) (node_index g v)"
    using chain_walk[OF preds] False by simp
  have gw: "graph_walk g u ps v"
    using graph_walk_of_walk[OF ok w] node_index_range[OF ok] u v by (simp add: ps_def)
  have less: "i < length (nodes g)" if "(e, i) \<in> set ?ch" for e i
  proof -
    have "(e, i) \<in> set (rev ?ch)" using that by simp
    then obtain as bs where "rev ?ch = as @ (e, i) # bs" by (meson split_list)
    then obtain j where "walk (index_succ g) (node_index g u) as j" "(e, i) \<in> set (index_succ g j)"
      using w by (auto simp: walk_append)
    then obtain a where "a \<in> set (adjacency g j)" "i = node_index g (neighbor a)" by (auto simp: index_succ_def)
    then show ?thesis using adjacency_range(2)[OF ok] node_index_range(2)[OF ok] by blast
  qed
  have "node_id (nodes g ! i) = int i + 1" if "i < length (nodes g)" for i
    using ok that by (simp add: graph_ok_def nodes_ok_def)
  then have nodes: "map fst (map (\<lambda>(e, i). (node_id (nodes g ! i), e)) ?ch) = map (\<lambda>(e, i). int i + 1) ?ch"
    unfolding map_map by (intro map_cong refl) (use less in auto)
  have edges: "map snd (map (\<lambda>(e, i). (node_id (nodes g ! i), e)) ?ch) = map fst ?ch"
    unfolding map_map by (intro map_cong refl) auto
  have ps: "map snd ps = rev (map (\<lambda>(e, i). int i + 1) ?ch)" "map fst ps = rev (map fst ?ch)"
    unfolding ps_def map_map rev_map[symmetric] by (intro arg_cong[of _ _ rev] map_cong refl; auto)+
  have "path_back g par pe (node_index g u) (node_index g v) =
      Some \<lparr>path_nodes = u # map snd ps, path_edges = map fst ps, found = True\<rparr>"
    using False node_index_range(4)[OF ok u]
    by (simp only: path_back_def Let_def wb length_map if_False nodes edges ps)
  moreover have "is_path g u v \<lparr>path_nodes = u # map snd ps, path_edges = map fst ps, found = True\<rparr>"
    using gw unfolding is_path_def path_result.simps by blast
  moreover have "length ps = length ?ch" by (simp add: ps_def)
  ultimately show ?thesis using False by simp
qed

section \<open>Breadth first search\<close>

definition bfs_rel :: "graph \<Rightarrow> nat \<Rightarrow> bfs_state \<Rightarrow> frontier \<Rightarrow> bool" where
  "bfs_rel g root st s \<longleftrightarrow> map (node_index g) (bfs_queue st) = fr_queue s \<and> root \<in> set (fr_queue s) \<and>
     (\<forall>i. bfs_seen st i \<longleftrightarrow> i \<in> set (fr_queue s)) \<and>
     (\<forall>i \<in> set (fr_queue s). i \<noteq> root \<longrightarrow>
        bfs_parent st i = int (fst (fr_from s i)) \<and> bfs_parent_edge st i = snd (fr_from s i))"

lemma bfs_visit_rel:
  "bfs_rel g root st s \<Longrightarrow> bfs_rel g root (bfs_visit g c a st) (discover c (adj_edge a, node_index g (neighbor a)) s)"
  by (auto simp: bfs_rel_def bfs_visit_def discover_def Let_def)

lemma bfs_visit_front [simp]: "bfs_front (fold (bfs_visit g c) as st) = bfs_front st"
  by (induction as arbitrary: st) (simp_all add: bfs_visit_def Let_def)

lemma bfs_expand_rel:
  "bfs_rel g root st s \<Longrightarrow> bfs_rel g root (fold (bfs_visit g c) (adjacency g c) st) (fold (discover c) (index_succ g c) s)"
proof -
  have "bfs_rel g root st s \<Longrightarrow>
      bfs_rel g root (fold (bfs_visit g c) as st)
        (fold (discover c) (map (\<lambda>a. (adj_edge a, node_index g (neighbor a))) as) s)" for as
    by (induction as arbitrary: st s) (auto intro: bfs_visit_rel)
  then show "bfs_rel g root st s \<Longrightarrow> ?thesis" by (simp add: index_succ_def)
qed

lemma bfs_loop_spec:
  assumes "max 1 (length (nodes g)) \<le> adjacency_capacity g"
    and "bfs_rel g (node_index g u) st s" "frontier_ok (index_succ g) (node_index g u) (bfs_front st) s"
    and "max 1 (length (nodes g)) \<le> bfs_front st + k"
  shows "\<exists>f s'. bfs_rel g (node_index g u) (bfs_loop k g t st) s' \<and>
    frontier_ok (index_succ g) (node_index g u) f s' \<and>
    (f = length (fr_queue s') \<or> 0 \<le> t \<and> node_index g t \<in> set (fr_queue s'))"
  using assms
proof (induction k g t st arbitrary: s rule: bfs_loop.induct)
  case (1 k g t st)
  let ?root = "node_index g u" and ?cur = "bfs_queue st ! bfs_front st"
  have len: "length (fr_queue s) = length (bfs_queue st)"
    using "1.prems"(2) by (metis bfs_rel_def length_map)
  show ?case
  proof (cases "bfs_front st < length (bfs_queue st) \<and> 0 < k")
    case False
    have "length (fr_queue s) \<le> max 1 (length (nodes g))"
      by (rule index_nodes.queue_bound[OF "1.prems"(3)])
    then have "bfs_front st = length (fr_queue s)"
      using False "1.prems" len by (auto simp: frontier_ok_def)
    moreover have "bfs_loop k g t st = st" using False by (subst bfs_loop.simps) simp
    ultimately show ?thesis using "1.prems" by auto
  next
    case True
    then have cur: "node_index g ?cur = fr_queue s ! bfs_front st"
      using "1.prems"(2) nth_map[of "bfs_front st" "bfs_queue st" "node_index g"] by (simp add: bfs_rel_def)
    have cur_in: "node_index g ?cur \<in> set (fr_queue s)" using True len unfolding cur by simp
    let ?st = "st\<lparr>bfs_front := Suc (bfs_front st)\<rparr>"
    have rel: "bfs_rel g ?root ?st s" using "1.prems"(2) by (simp add: bfs_rel_def)
    show ?thesis
    proof (cases "?cur = t \<and> 0 \<le> t")
      case True': True
      then have "bfs_loop k g t st = ?st" using True by (subst bfs_loop.simps) (simp add: Let_def)
      with rel "1.prems"(3) True' cur_in show ?thesis by auto
    next
      case no: False
      have "node_index g ?cur < max 1 (length (nodes g))" by (rule node_index_less)
      then have cap: "\<not> adjacency_capacity g \<le> node_index g ?cur" using "1.prems"(1) by linarith
      let ?st' = "fold (bfs_visit g (node_index g ?cur)) (adjacency g (node_index g ?cur)) ?st"
      let ?s' = "fold (discover (node_index g ?cur)) (index_succ g (node_index g ?cur)) s"
      have "bfs_loop k g t st = bfs_loop (k - 1) g t ?st'"
        using True no cap by (subst bfs_loop.simps) (auto simp: Let_def)
      moreover have "frontier_ok (index_succ g) ?root (bfs_front ?st') ?s'"
        using frontier_expand[OF "1.prems"(3) _ cur] True len by simp
      moreover have "bfs_rel g ?root ?st' ?s'" by (rule bfs_expand_rel[OF rel])
      ultimately show ?thesis
        using "1.IH"(2)[OF _ refl refl refl no cap "1.prems"(1), of ?s'] True "1.prems"(4) by simp
    qed
  qed
qed

lemma bfs_loop_range:
  assumes "graph_ok g" "set (bfs_queue st) \<subseteq> node_range g"
  shows "set (bfs_queue (bfs_loop k g t st)) \<subseteq> node_range g"
  using assms
proof (induction k g t st rule: bfs_loop.induct)
  case (1 k g t st)
  have visit: "set (bfs_queue (fold (bfs_visit g c) as st)) \<subseteq> node_range g"
    if "set (bfs_queue st) \<subseteq> node_range g" "\<forall>a \<in> set as. neighbor a \<in> node_range g" for c as st
    using that
  proof (induction as arbitrary: st)
    case (Cons a as)
    then have "set (bfs_queue (bfs_visit g c a st)) \<subseteq> node_range g" by (auto simp: bfs_visit_def Let_def)
    with Cons show ?case by simp
  qed simp
  have "\<forall>a \<in> set (adjacency g c). neighbor a \<in> node_range g" for c
    using adjacency_range(2)[OF "1.prems"(1)] by blast
  then show ?case
    using "1.IH" "1.prems" visit by (subst bfs_loop.simps) (simp add: Let_def)
qed

lemma bfs_start_rel: "bfs_rel g (node_index g u) (bfs_start g u) (frontier_start (node_index g u))"
  by (auto simp: bfs_rel_def bfs_start_def frontier_start_def Let_def)

lemma bfs_internal_state:
  assumes ok: "graph_ok g"
  obtains f s where "bfs_rel g (node_index g u) (bfs_loop max_nodes g t (bfs_start g u)) s"
    "frontier_ok (index_succ g) (node_index g u) f s"
    "f = length (fr_queue s) \<or> 0 \<le> t \<and> node_index g t \<in> set (fr_queue s)"
proof -
  have n: "max 1 (length (nodes g)) \<le> max_nodes" "adjacency_capacity g = max_nodes"
    using ok by (auto simp: graph_ok_def nodes_ok_def adjacency_ok_def c_consts)
  have "\<exists>f s. bfs_rel g (node_index g u) (bfs_loop max_nodes g t (bfs_start g u)) s \<and>
    frontier_ok (index_succ g) (node_index g u) f s \<and>
    (f = length (fr_queue s) \<or> 0 \<le> t \<and> node_index g t \<in> set (fr_queue s))"
    by (rule bfs_loop_spec[OF _ bfs_start_rel])
      (use n in \<open>simp_all add: bfs_start_def Let_def frontier_start_ok\<close>)
  then show thesis using that by blast
qed

lemma bfs_distance:
  assumes ok: "graph_ok g" and u: "u \<in> node_range g" and fr: "frontier_ok (index_succ g) (node_index g u) f s"
    and "node_index g v \<in> set (fr_queue s)" "graph_walk g u ps v"
  shows "fr_depth s (node_index g v) \<le> length ps"
  using frontier_distance[OF fr] walk_of_graph_walk[OF ok assms(5) u] assms(4) by fastforce

text \<open>
  The target may be any number that the linear search takes for the node \<open>v\<close>: for an
  unknown number that is the first node.
\<close>

lemma bfs_spec:
  assumes ok: "graph_ok g" and u: "graph_get_node g u \<noteq> None" and v: "v \<in> node_range g"
    and t: "0 \<le> t" "node_index g t = node_index g v"
  shows "case traverse_bfs g u t of
      None \<Rightarrow> reachable g u v \<and> (\<forall>ps. graph_walk g u ps v \<longrightarrow> max_path_length \<le> length ps)
    | Some r \<Rightarrow> if found r then is_path g u v r \<and> length (path_edges r) < max_path_length \<and>
                 (\<forall>ps. graph_walk g u ps v \<longrightarrow> length (path_edges r) \<le> length ps)
               else \<not> reachable g u v"
proof -
  let ?st = "bfs_loop max_nodes g t (bfs_start g u)"
  have range: "u \<in> node_range g" using get_node_range[OF ok u] .
  obtain f s where rel: "bfs_rel g (node_index g u) ?st s"
    and fr: "frontier_ok (index_succ g) (node_index g u) f s"
    and stop: "f = length (fr_queue s) \<or> 0 \<le> t \<and> node_index g v \<in> set (fr_queue s)"
    using bfs_internal_state[OF ok, of u t] t(2) by metis
  have eq: "traverse_bfs g u t = (if \<not> bfs_seen ?st (node_index g v) then Some no_path
      else path_back g (bfs_parent ?st) (bfs_parent_edge ?st) (node_index g u) (node_index g v))"
    using u t by (auto simp: traverse_bfs_def bfs_internal_def Let_def)
  show ?thesis
  proof (cases "node_index g v \<in> set (fr_queue s)")
    case False
    then have "f = length (fr_queue s)" using stop by blast
    then have "\<not> linked (index_succ g) (node_index g u) (node_index g v)"
      using frontier_done fr False by blast
    then have "\<not> reachable g u v" using reachable_linked[OF ok range] by blast
    moreover have "\<not> bfs_seen ?st (node_index g v)" using rel False by (simp add: bfs_rel_def)
    ultimately show ?thesis by (simp add: eq no_path_def)
  next
    case True
    have fo: "found_ok (index_succ g) (node_index g u) s" using fr by (simp add: frontier_ok_def)
    note preds = found_preds[OF fo]
    have seen: "bfs_seen ?st (node_index g v)" using rel True by (simp add: bfs_rel_def)
    have par: "bfs_parent ?st i = int (fst (fr_from s i)) \<and> bfs_parent_edge ?st i = snd (fr_from s i)"
      if "i \<in> set (fr_queue s)" "i \<noteq> node_index g u" for i
      using rel that by (simp add: bfs_rel_def)
    let ?ch = "chain max_path_length (fr_from s) (node_index g u) (node_index g v)"
    have len: "length ?ch = min max_path_length (fr_depth s (node_index g v))"
      by (rule chain_exact[OF preds _ _ True]) (use fo in \<open>auto simp: found_ok_def\<close>)
    have dist: "fr_depth s (node_index g v) \<le> length ps" if "graph_walk g u ps v" for ps
      using bfs_distance[OF ok range fr True that] .
    have reach: "reachable g u v"
      using reachable_linked[OF ok range] v preds_linked[OF preds True] by blast
    have spec: "case path_back g (bfs_parent ?st) (bfs_parent_edge ?st) (node_index g u) (node_index g v) of
        None \<Rightarrow> max_path_length \<le> length ?ch
      | Some r \<Rightarrow> found r \<and> is_path g u v r \<and> length (path_edges r) < max_path_length \<and> length (path_edges r) = length ?ch"
      by (rule path_back_spec[OF ok range v preds True par])
    show ?thesis
    proof (cases "path_back g (bfs_parent ?st) (bfs_parent_edge ?st) (node_index g u) (node_index g v)")
      case None
      with spec len have "max_path_length \<le> fr_depth s (node_index g v)" by simp
      with dist have "\<forall>ps. graph_walk g u ps v \<longrightarrow> max_path_length \<le> length ps" by (meson le_trans)
      then show ?thesis using None seen reach by (simp add: eq)
    next
      case (Some r)
      with spec len have "length (path_edges r) \<le> fr_depth s (node_index g v)" by simp
      with dist have "\<forall>ps. graph_walk g u ps v \<longrightarrow> length (path_edges r) \<le> length ps" by (meson le_trans)
      then show ?thesis using Some seen spec by (simp add: eq)
    qed
  qed
qed

text \<open>
  Without a target, breadth first search lists every node that can be reached, each once
  and in the order of distance, or writes behind the result when these are more than 256.
\<close>

lemma bfs_lists_reachable:
  assumes ok: "graph_ok g" and u: "graph_get_node g u \<noteq> None" and "t < 0"
  shows "case traverse_bfs g u t of
      None \<Rightarrow> max_path_length < card {v. reachable g u v}
    | Some r \<Rightarrow> found r \<and> distinct (path_nodes r) \<and> set (path_nodes r) = {v. reachable g u v}"
proof -
  let ?st = "bfs_loop max_nodes g t (bfs_start g u)"
  have range: "u \<in> node_range g" using get_node_range[OF ok u] .
  obtain f s where rel: "bfs_rel g (node_index g u) ?st s"
    and fr: "frontier_ok (index_succ g) (node_index g u) f s"
    and stop: "f = length (fr_queue s)"
    using bfs_internal_state[OF ok] assms(3) by (metis not_le)
  have q: "map (node_index g) (bfs_queue ?st) = fr_queue s" using rel by (simp add: bfs_rel_def)
  have qr: "set (bfs_queue ?st) \<subseteq> node_range g"
    by (rule bfs_loop_range[OF ok]) (use range in \<open>simp add: bfs_start_def Let_def\<close>)
  have inj: "inj_on (node_index g) (node_range g)"
    by (rule inj_on_inverseI[of _ "\<lambda>i. int i + 1"]) (use node_index_range[OF ok] in auto)
  have "distinct (map (node_index g) (bfs_queue ?st))"
    using fr unfolding q by (simp add: frontier_ok_def found_ok_def)
  then have d: "distinct (bfs_queue ?st)" by (simp add: distinct_map)
  have "v \<in> set (bfs_queue ?st) \<longleftrightarrow> reachable g u v" for v
  proof -
    have "v \<in> set (bfs_queue ?st) \<longleftrightarrow> v \<in> node_range g \<and> node_index g v \<in> set (fr_queue s)"
      using qr inj unfolding q[symmetric] set_map by (auto dest: inj_onD)
    then show ?thesis
      using frontier_done[of "index_succ g" "node_index g u" s "node_index g v"] fr stop
      by (simp add: reachable_linked[OF ok range])
  qed
  then have s: "set (bfs_queue ?st) = {v. reachable g u v}" by auto
  then have "card {v. reachable g u v} = length (bfs_queue ?st)" using d by (metis distinct_card)
  then show ?thesis
    using u assms(3) d s by (auto simp: traverse_bfs_def bfs_internal_def Let_def)
qed


section \<open>Depth first search\<close>

definition pred_ok :: "graph \<Rightarrow> dfs_state \<Rightarrow> nat \<Rightarrow> bool" where
  "pred_ok g st j \<longleftrightarrow> 0 \<le> dfs_parent st j \<and> dfs_seen st (nat (dfs_parent st j)) \<and>
     (dfs_parent_edge st j, j) \<in> set (index_succ g (nat (dfs_parent st j)))"

text \<open>
  A visited node has a predecessor that was visited earlier; a node that waits on the stack
  has a visited predecessor already.
\<close>

definition dfs_preds :: "graph \<Rightarrow> nat \<Rightarrow> (nat \<Rightarrow> nat) \<Rightarrow> dfs_state \<Rightarrow> bool" where
  "dfs_preds g root rank st \<longleftrightarrow> rank root = 0 \<and> (Ex (dfs_seen st) \<longrightarrow> dfs_seen st root) \<and>
     (\<forall>j. dfs_seen st j \<longrightarrow> rank j < length (dfs_order st) \<and>
        (j \<noteq> root \<longrightarrow> pred_ok g st j \<and> rank (nat (dfs_parent st j)) < rank j)) \<and>
     (\<forall>j \<in> node_index g ` set (dfs_stack st). \<not> dfs_seen st j \<longrightarrow> j \<noteq> root \<longrightarrow> pred_ok g st j)"

text \<open>The recorded order lists the visited nodes, and ids on the stack are ids of nodes.\<close>

definition dfs_listed :: "graph \<Rightarrow> dfs_state \<Rightarrow> bool" where
  "dfs_listed g st \<longleftrightarrow> distinct (map (node_index g) (dfs_order st)) \<and>
     node_index g ` set (dfs_order st) = {j. dfs_seen st j} \<and>
     set (dfs_order st) \<subseteq> node_range g \<and> set (dfs_stack st) \<subseteq> node_range g"

definition dfs_closed :: "graph \<Rightarrow> dfs_state \<Rightarrow> bool" where
  "dfs_closed g st \<longleftrightarrow> (\<forall>i j e. dfs_seen st i \<longrightarrow> (e, j) \<in> set (index_succ g i) \<longrightarrow>
     dfs_seen st j \<or> j \<in> node_index g ` set (dfs_stack st))"

definition degree_sum :: "graph \<Rightarrow> nat" where
  "degree_sum g = (\<Sum>i < length (nodes g). length (adjacency g i))"

text \<open>What is on the stack was paid for by the visited nodes.\<close>

definition dfs_paid :: "graph \<Rightarrow> dfs_state \<Rightarrow> bool" where
  "dfs_paid g st \<longleftrightarrow> length (dfs_stack st) +
     (\<Sum>i \<in> {i. i < length (nodes g) \<and> \<not> dfs_seen st i}. length (adjacency g i)) \<le> 1 + degree_sum g"

lemma dfs_push_stack [simp]: "dfs_stack (dfs_push g c a st) = neighbor a # dfs_stack st"
  by (simp add: dfs_push_def Let_def)

lemma dfs_push_fold_stack: "dfs_stack (fold (dfs_push g c) as st) = rev (map neighbor as) @ dfs_stack st"
  by (induction as arbitrary: st) simp_all

lemma dfs_push_fold:
  "(\<exists>a \<in> set as. node_index g (neighbor a) = j \<and>
      dfs_parent (fold (dfs_push g c) as st) j = int c \<and> dfs_parent_edge (fold (dfs_push g c) as st) j = adj_edge a) \<or>
   j \<notin> node_index g ` neighbor ` set as \<and>
      dfs_parent (fold (dfs_push g c) as st) j = dfs_parent st j \<and>
      dfs_parent_edge (fold (dfs_push g c) as st) j = dfs_parent_edge st j"
proof (induction as arbitrary: st)
  case (Cons a as)
  have push: "dfs_parent (dfs_push g c a st) = (dfs_parent st)(node_index g (neighbor a) := int c)"
    "dfs_parent_edge (dfs_push g c a st) = (dfs_parent_edge st)(node_index g (neighbor a) := adj_edge a)"
    by (simp_all add: dfs_push_def Let_def)
  show ?case using Cons.IH[of "dfs_push g c a st"] by (auto simp: push)
qed simp

lemma dfs_fresh_set: "set (dfs_fresh g c seen) \<subseteq> {a \<in> set (adjacency g c). \<not> seen (node_index g (neighbor a))}"
  unfolding dfs_fresh_def by (auto dest: in_set_takeD)

lemma dfs_fresh_all:
  "length (adjacency g c) \<le> max_nodes \<Longrightarrow>
   set (dfs_fresh g c seen) = {a \<in> set (adjacency g c). \<not> seen (node_index g (neighbor a))}"
  unfolding dfs_fresh_def by (auto simp: order_trans[OF length_filter_le])

lemma length_dfs_fresh: "length (dfs_fresh g c seen) \<le> length (adjacency g c)"
  unfolding dfs_fresh_def length_take by (meson length_filter_le min.coboundedI1)

text \<open>One visited node: marking it, and pushing its unvisited neighbours.\<close>

definition dfs_mark :: "graph \<Rightarrow> int \<Rightarrow> int list \<Rightarrow> dfs_state \<Rightarrow> dfs_state" where
  "dfs_mark g cur rest st = st\<lparr>dfs_stack := rest, dfs_seen := (dfs_seen st)(node_index g cur := True),
     dfs_order := dfs_order st @ [cur]\<rparr>"

definition dfs_grow :: "graph \<Rightarrow> int \<Rightarrow> dfs_state \<Rightarrow> dfs_state" where
  "dfs_grow g cur st =
     fold (dfs_push g (node_index g cur)) (rev (dfs_fresh g (node_index g cur) (dfs_seen st))) st"

lemma dfs_order_bound:
  assumes "graph_ok g" "dfs_listed g st" "\<not> dfs_seen st i" "i < max 1 (length (nodes g))"
  shows "length (dfs_order st) < max_nodes"
proof -
  have d: "distinct (map (node_index g) (dfs_order st))"
    and s: "set (map (node_index g) (dfs_order st)) = {j. dfs_seen st j}"
    using assms(2) unfolding dfs_listed_def by simp_all
  have "\<forall>j \<in> {j. dfs_seen st j}. j < max 1 (length (nodes g))"
    unfolding s[symmetric] set_map using node_index_less[of g] by blast
  then have "{j. dfs_seen st j} \<subseteq> {..<max 1 (length (nodes g))} - {i}"
    using assms(3) by auto
  then have "card {j. dfs_seen st j} \<le> card ({..<max 1 (length (nodes g))} - {i})"
    by (intro card_mono) auto
  also have "\<dots> < max 1 (length (nodes g))" using assms(4) by simp
  also have "\<dots> \<le> max_nodes" using assms(1) by (simp add: graph_ok_def nodes_ok_def c_consts)
  also have "card {j. dfs_seen st j} = length (dfs_order st)"
    using distinct_card[OF d] unfolding s by simp
  finally show ?thesis by simp
qed

lemma dfs_loop_unfold:
  assumes ok: "graph_ok g" and listed: "dfs_listed g st"
  shows "dfs_loop g t st = (case dfs_stack st of [] \<Rightarrow> Some st
    | cur # rest \<Rightarrow>
        if dfs_seen st (node_index g cur) then dfs_loop g t (st\<lparr>dfs_stack := rest\<rparr>)
        else let st' = dfs_mark g cur rest st in
          if cur = t \<and> 0 \<le> t then Some st'
          else if max_nodes < length rest + length (dfs_fresh g (node_index g cur) (dfs_seen st')) then None
          else dfs_loop g t (dfs_grow g cur st'))"
proof (cases "dfs_stack st")
  case Nil
  then show ?thesis by (subst dfs_loop.simps) simp
next
  case (Cons cur rest)
  show ?thesis
  proof (cases "dfs_seen st (node_index g cur)")
    case True
    then show ?thesis using Cons by (subst dfs_loop.simps) (simp add: Let_def)
  next
    case False
    from dfs_order_bound[OF ok listed False node_index_less] have "length (dfs_order st) < max_nodes" .
    then show ?thesis using False Cons
      by (subst dfs_loop.simps) (simp add: Let_def dfs_mark_def dfs_grow_def)
  qed
qed

lemma dfs_pop_seen:
  assumes "dfs_stack st = cur # rest" "dfs_seen st (node_index g cur)"
  shows "dfs_preds g root rank st \<Longrightarrow> dfs_preds g root rank (st\<lparr>dfs_stack := rest\<rparr>)"
    and "dfs_listed g st \<Longrightarrow> dfs_listed g (st\<lparr>dfs_stack := rest\<rparr>)"
    and "dfs_closed g st \<Longrightarrow> dfs_closed g (st\<lparr>dfs_stack := rest\<rparr>)"
    and "dfs_paid g st \<Longrightarrow> dfs_paid g (st\<lparr>dfs_stack := rest\<rparr>)"
proof -
  show "dfs_preds g root rank (st\<lparr>dfs_stack := rest\<rparr>)" if "dfs_preds g root rank st"
    using that assms(1) unfolding dfs_preds_def pred_ok_def by (simp del: split_paired_All)
  show "dfs_closed g (st\<lparr>dfs_stack := rest\<rparr>)" if "dfs_closed g st"
    using that assms unfolding dfs_closed_def by (simp, metis)
qed (use assms in \<open>auto simp: dfs_listed_def dfs_paid_def\<close>)

lemma dfs_mark_preds:
  assumes stack: "dfs_stack st = cur # rest" and new: "\<not> dfs_seen st (node_index g cur)"
    and preds: "dfs_preds g root rank st"
    and first: "\<not> Ex (dfs_seen st) \<Longrightarrow> node_index g cur = root" "dfs_order st = [] \<longleftrightarrow> \<not> Ex (dfs_seen st)"
  shows "dfs_preds g root (rank(node_index g cur := length (dfs_order st))) (dfs_mark g cur rest st)"
proof -
  let ?c = "node_index g cur" and ?st = "dfs_mark g cur rest st"
  let ?rank = "rank(?c := length (dfs_order st))"
  have seen: "dfs_seen ?st j \<longleftrightarrow> j = ?c \<or> dfs_seen st j" for j by (simp add: dfs_mark_def)
  have par: "dfs_parent ?st = dfs_parent st" "dfs_parent_edge ?st = dfs_parent_edge st"
    "dfs_stack ?st = rest" "length (dfs_order ?st) = Suc (length (dfs_order st))"
    by (simp_all add: dfs_mark_def)
  have keep: "pred_ok g ?st j" if "pred_ok g st j" for j
    using that by (auto simp: pred_ok_def seen par)
  have c: "pred_ok g st ?c" if "?c \<noteq> root"
    using preds stack new that by (simp add: dfs_preds_def)
  have ranks: "rank j < length (dfs_order st)" if "dfs_seen st j" for j
    using preds that by (simp add: dfs_preds_def)
  have root: "dfs_seen ?st root" using preds first(1) by (auto simp: seen dfs_preds_def)
  have rr: "?rank root = 0"
  proof (cases "?c = root")
    case True
    then have "\<not> dfs_seen st root" using new by simp
    then have "\<not> Ex (dfs_seen st)" using preds by (auto simp: dfs_preds_def)
    then show ?thesis using first(2) True by simp
  qed (use preds in \<open>simp add: dfs_preds_def\<close>)
  have "?rank j < length (dfs_order ?st) \<and> (j \<noteq> root \<longrightarrow> pred_ok g ?st j \<and> ?rank (nat (dfs_parent ?st j)) < ?rank j)"
    if "dfs_seen ?st j" for j
  proof (cases "j = ?c")
    case True
    have "?rank (nat (dfs_parent ?st j)) < ?rank j" if "j \<noteq> root"
    proof -
      have p: "dfs_seen st (nat (dfs_parent st ?c))" using c that True by (simp add: pred_ok_def)
      then have "nat (dfs_parent st ?c) \<noteq> ?c" using new by auto
      with ranks[OF p] True show ?thesis by (simp add: par)
    qed
    then show ?thesis using True c keep by (simp add: par)
  next
    case False
    then have sj: "dfs_seen st j" using that seen by simp
    have "pred_ok g ?st j \<and> ?rank (nat (dfs_parent ?st j)) < ?rank j" if "j \<noteq> root"
    proof -
      have p: "pred_ok g st j" "rank (nat (dfs_parent st j)) < rank j"
        using preds sj that by (auto simp: dfs_preds_def)
      then have "nat (dfs_parent st j) \<noteq> ?c" using new by (auto simp: pred_ok_def)
      with p keep False show ?thesis by (simp add: par)
    qed
    then show ?thesis using ranks[OF sj] False by (simp add: par)
  qed
  moreover have "pred_ok g ?st j" if "j \<in> node_index g ` set rest" "\<not> dfs_seen ?st j" "j \<noteq> root" for j
    using preds stack that keep by (auto simp: dfs_preds_def seen)
  ultimately show ?thesis using root rr unfolding dfs_preds_def par(3) by blast
qed

lemma dfs_grow_frame:
  "dfs_seen (dfs_grow g cur st) = dfs_seen st" "dfs_order (dfs_grow g cur st) = dfs_order st"
  "dfs_stack (dfs_grow g cur st) = map neighbor (dfs_fresh g (node_index g cur) (dfs_seen st)) @ dfs_stack st"
  by (simp_all add: dfs_grow_def dfs_push_fold_stack rev_map)

lemma dfs_grow_preds:
  assumes "dfs_preds g root rank st" and seen: "dfs_seen st (node_index g cur)"
  shows "dfs_preds g root rank (dfs_grow g cur st)"
proof -
  let ?c = "node_index g cur" and ?st = "dfs_grow g cur st"
  have new: "(\<exists>a \<in> set (adjacency g ?c). \<not> dfs_seen st j \<and> node_index g (neighbor a) = j \<and>
      dfs_parent ?st j = int ?c \<and> dfs_parent_edge ?st j = adj_edge a) \<or>
    j \<notin> node_index g ` neighbor ` set (dfs_fresh g ?c (dfs_seen st)) \<and>
      dfs_parent ?st j = dfs_parent st j \<and> dfs_parent_edge ?st j = dfs_parent_edge st j" for j
    using dfs_push_fold[of "rev (dfs_fresh g ?c (dfs_seen st))" g j ?c st] dfs_fresh_set[of g ?c "dfs_seen st"]
    unfolding dfs_grow_def by auto
  have pnew: "pred_ok g ?st j" if ch: "\<not> (dfs_parent ?st j = dfs_parent st j \<and> dfs_parent_edge ?st j = dfs_parent_edge st j)
      \<or> j \<in> node_index g ` neighbor ` set (dfs_fresh g ?c (dfs_seen st))" for j
  proof -
    obtain a where "a \<in> set (adjacency g ?c)" "node_index g (neighbor a) = j"
      "dfs_parent ?st j = int ?c" "dfs_parent_edge ?st j = adj_edge a"
      using new[of j] ch by blast
    then show ?thesis using seen by (auto simp: pred_ok_def dfs_grow_frame index_succ_def)
  qed
  have keep: "pred_ok g ?st j" if "pred_ok g st j" for j
    using that pnew[of j] by (cases "dfs_parent ?st j = dfs_parent st j \<and> dfs_parent_edge ?st j = dfs_parent_edge st j")
      (simp_all add: pred_ok_def dfs_grow_frame)
  have same: "dfs_parent ?st j = dfs_parent st j" if "dfs_seen st j" for j
    using new[of j] that by blast
  have "pred_ok g ?st j" if "j \<in> node_index g ` set (dfs_stack ?st)" "\<not> dfs_seen st j" "j \<noteq> root" for j
  proof (cases "j \<in> node_index g ` set (dfs_stack st)")
    case True
    then have "pred_ok g st j" using assms(1) that unfolding dfs_preds_def by blast
    then show ?thesis by (rule keep)
  next
    case False
    then show ?thesis using that by (intro pnew) (auto simp: dfs_grow_frame)
  qed
  then show ?thesis
    using assms(1) keep same unfolding dfs_preds_def dfs_grow_frame(1,2) by metis
qed

lemma dfs_mark_listed:
  assumes stack: "dfs_stack st = cur # rest" and new: "\<not> dfs_seen st (node_index g cur)"
    and "dfs_listed g st"
  shows "dfs_listed g (dfs_mark g cur rest st)"
proof -
  have s: "node_index g ` set (dfs_order st) = {j. dfs_seen st j}" using assms(3) by (simp add: dfs_listed_def)
  then have "node_index g cur \<notin> node_index g ` set (dfs_order st)" using new by simp
  then show ?thesis using assms(3) s stack by (auto simp: dfs_listed_def dfs_mark_def)
qed

lemma dfs_grow_listed:
  assumes "graph_ok g" "dfs_listed g st"
  shows "dfs_listed g (dfs_grow g cur st)"
proof -
  have "neighbor ` set (dfs_fresh g (node_index g cur) (dfs_seen st)) \<subseteq> node_range g"
    using dfs_fresh_set adjacency_range(2)[OF assms(1)] by blast
  then show ?thesis using assms(2) by (simp add: dfs_listed_def dfs_grow_frame)
qed

lemma dfs_visit_closed:
  assumes stack: "dfs_stack st = cur # rest" and deg: "length (adjacency g (node_index g cur)) \<le> max_nodes"
    and closed: "dfs_closed g st"
  shows "dfs_closed g (dfs_grow g cur (dfs_mark g cur rest st))"
proof -
  let ?c = "node_index g cur" and ?st = "dfs_grow g cur (dfs_mark g cur rest st)"
  have seen: "dfs_seen ?st j \<longleftrightarrow> j = ?c \<or> dfs_seen st j" for j by (simp add: dfs_grow_frame dfs_mark_def)
  have stk: "set (dfs_stack ?st) = neighbor ` {a \<in> set (adjacency g ?c). \<not> dfs_seen ?st (node_index g (neighbor a))} \<union> set rest"
    unfolding dfs_grow_frame(3) set_append set_map dfs_fresh_all[OF deg] dfs_grow_frame(1)
    by (simp add: dfs_mark_def)
  show ?thesis unfolding dfs_closed_def
  proof (intro allI impI)
    fix i j e assume i: "dfs_seen ?st i" "(e, j) \<in> set (index_succ g i)"
    show "dfs_seen ?st j \<or> j \<in> node_index g ` set (dfs_stack ?st)"
    proof (cases "i = ?c")
      case True
      then show ?thesis using i(2) unfolding stk by (auto simp: index_succ_def)
    next
      case False
      then have "dfs_seen st j \<or> j \<in> node_index g ` set (dfs_stack st)"
        using closed i seen unfolding dfs_closed_def by blast
      then show ?thesis using stack unfolding stk seen by auto
    qed
  qed
qed

lemma dfs_visit_paid:
  assumes ok: "graph_ok g" and stack: "dfs_stack st = cur # rest" and new: "\<not> dfs_seen st (node_index g cur)"
    and paid: "dfs_paid g st" and cur: "cur \<in> node_range g"
  shows "length rest + length (dfs_fresh g (node_index g cur) seen) \<le> degree_sum g"
    and "dfs_paid g (dfs_grow g cur (dfs_mark g cur rest st))"
proof -
  let ?c = "node_index g cur"
  let ?U = "{i. i < length (nodes g) \<and> \<not> dfs_seen st i}"
  have c: "?c \<in> ?U" using new node_index_range(2)[OF ok cur] by simp
  have split: "(\<Sum>i \<in> ?U. length (adjacency g i)) =
      length (adjacency g ?c) + (\<Sum>i \<in> ?U - {?c}. length (adjacency g i))"
    by (rule sum.remove) (use c in auto)
  have U: "{i. i < length (nodes g) \<and> \<not> ((dfs_seen st)(?c := True)) i} = ?U - {?c}" by auto
  have sum: "Suc (length rest) + (length (adjacency g ?c) + (\<Sum>i \<in> ?U - {?c}. length (adjacency g i))) \<le> 1 + degree_sum g"
    using paid unfolding dfs_paid_def stack split by simp
  then show "length rest + length (dfs_fresh g ?c seen) \<le> degree_sum g"
    using length_dfs_fresh[of g ?c seen] by linarith
  show "dfs_paid g (dfs_grow g cur (dfs_mark g cur rest st))"
    using sum length_dfs_fresh[of g ?c "(dfs_seen st)(?c := True)"] U
    unfolding dfs_paid_def dfs_grow_frame by (simp add: dfs_mark_def)
qed

definition dfs_inv :: "graph \<Rightarrow> nat \<Rightarrow> dfs_state \<Rightarrow> bool" where
  "dfs_inv g root st \<longleftrightarrow> (\<exists>rank. dfs_preds g root rank st) \<and> dfs_listed g st \<and> dfs_paid g st \<and>
     (Ex (dfs_seen st) \<or> node_index g ` set (dfs_stack st) \<subseteq> {root})"

lemma dfs_mark_inv:
  assumes ok: "graph_ok g" and stack: "dfs_stack st = cur # rest" and new: "\<not> dfs_seen st (node_index g cur)"
    and inv: "dfs_inv g root st"
  shows "\<exists>rank. dfs_preds g root rank (dfs_mark g cur rest st)" "dfs_listed g (dfs_mark g cur rest st)"
    "Ex (dfs_seen (dfs_mark g cur rest st))"
proof -
  obtain rank where preds: "dfs_preds g root rank st" using inv by (auto simp: dfs_inv_def)
  have listed: "dfs_listed g st" using inv by (simp add: dfs_inv_def)
  have "dfs_order st = [] \<longleftrightarrow> \<not> Ex (dfs_seen st)"
  proof -
    have "node_index g ` set (dfs_order st) = {j. dfs_seen st j}" using listed by (simp add: dfs_listed_def)
    then show ?thesis by (metis empty_Collect_eq image_is_empty set_empty)
  qed
  moreover have "node_index g cur = root" if "\<not> Ex (dfs_seen st)"
    using inv that stack by (auto simp: dfs_inv_def)
  ultimately show "\<exists>rank. dfs_preds g root rank (dfs_mark g cur rest st)"
    using dfs_mark_preds[OF stack new preds] by blast
  show "dfs_listed g (dfs_mark g cur rest st)" by (rule dfs_mark_listed[OF stack new listed])
  show "Ex (dfs_seen (dfs_mark g cur rest st))" by (auto simp: dfs_mark_def)
qed

lemma dfs_step_inv:
  assumes ok: "graph_ok g" and stack: "dfs_stack st = cur # rest" and new: "\<not> dfs_seen st (node_index g cur)"
    and inv: "dfs_inv g root st"
  shows "dfs_inv g root (dfs_grow g cur (dfs_mark g cur rest st))"
proof -
  have cur: "cur \<in> node_range g" using inv stack by (simp add: dfs_inv_def dfs_listed_def)
  have paid: "dfs_paid g st" using inv by (simp add: dfs_inv_def)
  note mark = dfs_mark_inv[OF ok stack new inv]
  then obtain rank where "dfs_preds g root rank (dfs_mark g cur rest st)" by blast
  then have "dfs_preds g root rank (dfs_grow g cur (dfs_mark g cur rest st))"
    by (rule dfs_grow_preds) (simp add: dfs_mark_def)
  moreover have "Ex (dfs_seen (dfs_grow g cur (dfs_mark g cur rest st)))" using mark(3) by (simp add: dfs_grow_frame)
  ultimately show ?thesis
    using dfs_grow_listed[OF ok mark(2)] dfs_visit_paid(2)[OF ok stack new paid cur] by (auto simp: dfs_inv_def)
qed

text \<open>
  What the loop returns: the predecessors and the order are right, and either the target was
  visited or the visited nodes are closed under the edges. It gives up only if the stack
  overflows, which takes more adjacency cells than the stack has.
\<close>

lemma dfs_loop_spec:
  assumes ok: "graph_ok g" and deg: "\<forall>i. length (adjacency g i) \<le> max_nodes"
  shows "dfs_inv g root st \<Longrightarrow> dfs_closed g st \<Longrightarrow>
    case dfs_loop g t st of
      None \<Rightarrow> max_nodes < degree_sum g
    | Some st' \<Rightarrow> (\<exists>rank. dfs_preds g root rank st') \<and> dfs_listed g st' \<and>
        (Ex (dfs_seen st) \<or> dfs_stack st \<noteq> [] \<longrightarrow> Ex (dfs_seen st')) \<and>
        (dfs_closed g st' \<and> dfs_stack st' = [] \<or> 0 \<le> t \<and> dfs_seen st' (node_index g t))"
proof (induction st rule: wf_induct_rule[OF wf_measures[of "[\<lambda>st. unseen g (dfs_seen st), \<lambda>st. length (dfs_stack st)]"]])
  case (1 st)
  have listed: "dfs_listed g st" using "1.prems"(1) by (simp add: dfs_inv_def)
  note unfold = dfs_loop_unfold[OF ok listed, of t]
  show ?case
  proof (cases "dfs_stack st")
    case Nil
    then show ?thesis using "1.prems" by (simp add: unfold dfs_inv_def)
  next
    case (Cons cur rest)
    show ?thesis
    proof (cases "dfs_seen st (node_index g cur)")
      case True
      have "dfs_inv g (root) (st\<lparr>dfs_stack := rest\<rparr>)"
        using "1.prems"(1) dfs_pop_seen[OF Cons True] True by (auto simp: dfs_inv_def)
      then show ?thesis
        using "1.IH"[of "st\<lparr>dfs_stack := rest\<rparr>"] dfs_pop_seen(3)[OF Cons True "1.prems"(2)] True Cons
        by (auto simp: unfold split: option.splits)
    next
      case new: False
      let ?m = "dfs_mark g cur rest st"
      note mark = dfs_mark_inv[OF ok Cons new "1.prems"(1)]
      show ?thesis
      proof (cases "cur = t \<and> 0 \<le> t")
        case True
        have "dfs_loop g t st = Some ?m" using True new Cons by (simp add: unfold Let_def)
        moreover have "dfs_seen ?m (node_index g t)" using True by (simp add: dfs_mark_def)
        ultimately show ?thesis using mark True by simp
      next
        case no: False
        let ?f = "dfs_fresh g (node_index g cur) (dfs_seen ?m)"
        show ?thesis
        proof (cases "max_nodes < length rest + length ?f")
          case True
          then have "dfs_loop g t st = None" using no new Cons by (auto simp: unfold Let_def)
          moreover have "length rest + length ?f \<le> degree_sum g"
            using "1.prems"(1) Cons by (intro dfs_visit_paid(1)[OF ok Cons new]) (auto simp: dfs_inv_def dfs_listed_def)
          ultimately show ?thesis using True by simp
        next
          case False
          let ?st = "dfs_grow g cur ?m"
          have eq: "dfs_loop g t st = dfs_loop g t ?st" using False no new Cons by (auto simp: unfold Let_def)
          have "unseen g (dfs_seen ?st) < unseen g (dfs_seen st)"
            unfolding dfs_grow_frame using unseen_mark[of "dfs_seen st" "node_index g cur" g] new node_index_less[of g cur] by (simp add: dfs_mark_def)
          moreover have "Ex (dfs_seen ?st)" using mark(3) by (simp add: dfs_grow_frame)
          moreover note dfs_step_inv[OF ok Cons new "1.prems"(1)]
            dfs_visit_closed[OF Cons deg[rule_format] "1.prems"(2)]
          ultimately show ?thesis using "1.IH"[of ?st] unfolding eq by (auto split: option.splits)
        qed
      qed
    qed
  qed
qed

lemma dfs_start_inv:
  assumes "u \<in> node_range g" "graph_ok g"
  shows "dfs_inv g (node_index g u) (dfs_start g u)" "dfs_closed g (dfs_start g u)"
proof -
  have "dfs_preds g (node_index g u) (\<lambda>_. 0) (dfs_start g u)"
    by (simp add: dfs_preds_def dfs_start_def Let_def)
  moreover have "dfs_listed g (dfs_start g u)" using assms by (simp add: dfs_listed_def dfs_start_def Let_def)
  moreover have "dfs_paid g (dfs_start g u)"
    by (simp add: dfs_paid_def dfs_start_def Let_def degree_sum_def lessThan_def)
  ultimately show "dfs_inv g (node_index g u) (dfs_start g u)"
    by (auto simp: dfs_inv_def dfs_start_def Let_def)
  show "dfs_closed g (dfs_start g u)" by (simp add: dfs_closed_def dfs_start_def Let_def)
qed

lemma dfs_result:
  assumes ok: "graph_ok g" and deg: "\<forall>i. length (adjacency g i) \<le> max_nodes"
    and u: "u \<in> node_range g" and run: "dfs_loop g t (dfs_start g u) = Some st"
  obtains rank where "dfs_preds g (node_index g u) rank st"
    "preds_ok (index_succ g) (node_index g u) {j. dfs_seen st j} (\<lambda>j. (nat (dfs_parent st j), dfs_parent_edge st j)) rank"
    "dfs_listed g st"
    "(\<forall>j. dfs_seen st j \<longleftrightarrow> linked (index_succ g) (node_index g u) j) \<or> 0 \<le> t \<and> dfs_seen st (node_index g t)"
proof -
  note spec = dfs_loop_spec[OF ok deg dfs_start_inv[OF u ok], of t]
  have "dfs_stack (dfs_start g u) \<noteq> []" by (simp add: dfs_start_def Let_def)
  with spec run obtain rank where preds: "dfs_preds g (node_index g u) rank st" and listed: "dfs_listed g st"
    and ex: "Ex (dfs_seen st)"
    and fin: "dfs_closed g st \<and> dfs_stack st = [] \<or> 0 \<le> t \<and> dfs_seen st (node_index g t)" by auto
  have root: "dfs_seen st (node_index g u)" using preds ex by (simp add: dfs_preds_def)
  let ?prv = "\<lambda>j. (nat (dfs_parent st j), dfs_parent_edge st j)"
  have po: "preds_ok (index_succ g) (node_index g u) {j. dfs_seen st j} ?prv rank"
    using preds root by (auto simp: preds_ok_def dfs_preds_def pred_ok_def)
  have "dfs_seen st j \<longleftrightarrow> linked (index_succ g) (node_index g u) j" if "dfs_closed g st" "dfs_stack st = []" for j
  proof
    show "linked (index_succ g) (node_index g u) j" if "dfs_seen st j" using preds_linked[OF po] that by simp
    show "dfs_seen st j" if "linked (index_succ g) (node_index g u) j"
    proof -
      have "j \<in> {j. dfs_seen st j}"
        by (rule linked_closed[OF that]) (use root \<open>dfs_closed g st\<close> \<open>dfs_stack st = []\<close> in \<open>auto simp: dfs_closed_def\<close>)
      then show ?thesis by simp
    qed
  qed
  then show thesis using that[OF preds po listed] fin by blast
qed

lemma chain_rank:
  assumes "preds_ok succ root S prv rank" "j \<in> S"
  shows "length (chain k prv root j) \<le> rank j"
  using assms(2)
proof (induction k arbitrary: j)
  case (Suc k)
  show ?case
  proof (cases "j = root")
    case False
    then have "fst (prv j) \<in> S" "rank (fst (prv j)) < rank j" using assms(1) Suc.prems by (auto simp: preds_ok_def)
    with Suc.IH[of "fst (prv j)"] False show ?thesis by simp
  qed simp
qed simp

text \<open>
  Depth first search, in a graph whose nodes have at most 4096 adjacency cells each:
  when the target can be reached the result is a path to it, though not always a shortest
  one, otherwise nothing is found. It runs into undefined behaviour only in a graph with
  more than 4096 adjacency cells, through its stack, or with more than 256 nodes, through
  the result.
\<close>

lemma dfs_spec:
  assumes ok: "graph_ok g" and deg: "\<forall>i. length (adjacency g i) \<le> max_nodes"
    and u: "graph_get_node g u \<noteq> None" and v: "v \<in> node_range g"
  shows "case traverse_dfs g u v of
      None \<Rightarrow> max_nodes < degree_sum g \<or> max_path_length < length (nodes g)
    | Some r \<Rightarrow> if found r then is_path g u v r else \<not> reachable g u v"
proof -
  have range: "u \<in> node_range g" using get_node_range[OF ok u] .
  have pos: "0 \<le> v" using v by (auto simp: node_range_def)
  have eq: "traverse_dfs g u v = (case dfs_loop g v (dfs_start g u) of None \<Rightarrow> None
      | Some st \<Rightarrow> if \<not> dfs_seen st (node_index g v) then Some no_path
          else path_back g (dfs_parent st) (dfs_parent_edge st) (node_index g u) (node_index g v))"
    using u pos by (auto simp: traverse_dfs_def Let_def split: option.splits)
  show ?thesis
  proof (cases "dfs_loop g v (dfs_start g u)")
    case None
    then show ?thesis using dfs_loop_spec[OF ok deg dfs_start_inv[OF range ok], of v] by (simp add: eq)
  next
    case (Some st)
    let ?prv = "\<lambda>j. (nat (dfs_parent st j), dfs_parent_edge st j)"
    obtain rank where preds: "dfs_preds g (node_index g u) rank st"
      and po: "preds_ok (index_succ g) (node_index g u) {j. dfs_seen st j} ?prv rank"
      and listed: "dfs_listed g st"
      and fin: "(\<forall>j. dfs_seen st j \<longleftrightarrow> linked (index_succ g) (node_index g u) j) \<or> 0 \<le> v \<and> dfs_seen st (node_index g v)"
      using dfs_result[OF ok deg range Some] by blast
    show ?thesis
    proof (cases "dfs_seen st (node_index g v)")
      case False
      then show ?thesis using fin reachable_linked[OF ok range] Some by (auto simp: eq no_path_def)
    next
      case True
      have par: "dfs_parent st i = int (fst (?prv i)) \<and> dfs_parent_edge st i = snd (?prv i)"
        if "i \<in> {j. dfs_seen st j}" "i \<noteq> node_index g u" for i
        using preds that by (simp add: dfs_preds_def pred_ok_def)
      have spec: "case path_back g (dfs_parent st) (dfs_parent_edge st) (node_index g u) (node_index g v) of
          None \<Rightarrow> max_path_length \<le> length (chain max_path_length ?prv (node_index g u) (node_index g v))
        | Some r \<Rightarrow> found r \<and> is_path g u v r \<and> length (path_edges r) < max_path_length \<and>
            length (path_edges r) = length (chain max_path_length ?prv (node_index g u) (node_index g v))"
        by (rule path_back_spec[OF ok range v po _ par]) (use True in auto)
      have "length (chain max_path_length ?prv (node_index g u) (node_index g v)) < length (nodes g)"
      proof -
        have "length (chain max_path_length ?prv (node_index g u) (node_index g v)) \<le> rank (node_index g v)"
          using chain_rank[OF po] True by simp
        also have "\<dots> < length (dfs_order st)" using preds True by (simp add: dfs_preds_def)
        also have "length (dfs_order st) \<le> length (nodes g)"
        proof -
          have "set (dfs_order st) \<subseteq> node_range g" using listed by (simp add: dfs_listed_def)
          then have "set (map (node_index g) (dfs_order st)) \<subseteq> {..<length (nodes g)}"
            unfolding set_map using node_index_range(2)[OF ok] by blast
          then have "card (set (map (node_index g) (dfs_order st))) \<le> length (nodes g)"
            using card_mono[of "{..<length (nodes g)}"] by fastforce
          then show ?thesis using distinct_card[of "map (node_index g) (dfs_order st)"] listed
            by (simp add: dfs_listed_def)
        qed
        finally show ?thesis .
      qed
      then show ?thesis using spec True Some by (auto simp: eq split: option.splits)
    qed
  qed
qed


section \<open>All simple paths\<close>

text \<open>A simple walk on nodes that are not marked.\<close>

definition simple :: "graph \<Rightarrow> (nat \<Rightarrow> bool) \<Rightarrow> int \<Rightarrow> (int \<times> int) list \<Rightarrow> int \<Rightarrow> bool" where
  "simple g seen u ps v \<longleftrightarrow> graph_walk g u ps v \<and> distinct (map (node_index g) (u # map snd ps)) \<and>
     (\<forall>w \<in> set (u # map snd ps). \<not> seen (node_index g w))"

lemma simple_Nil [simp]: "simple g seen u [] v \<longleftrightarrow> u = v \<and> \<not> seen (node_index g u)"
  by (auto simp: simple_def)

lemma graph_walk_last: "graph_walk g u ps v \<Longrightarrow> v \<in> set (u # map snd ps)"
  by (induction ps arbitrary: u) fastforce+

lemma simple_to_self: "simple g seen u ps u \<Longrightarrow> ps = []"
proof (cases ps)
  case (Cons p qs)
  assume s: "simple g seen u ps u"
  obtain e w where "p = (e, w)" by (cases p)
  with s Cons have "u \<in> set (map snd ps)" using graph_walk_last[of g w qs u] by (simp add: simple_def)
  then have "node_index g u \<in> set (map (node_index g) (map snd ps))" unfolding set_map[of "node_index g"] by (rule imageI)
  then show ?thesis using s by (simp add: simple_def del: map_map)
qed simp

lemma distinct_marked:
  "distinct (map f (u # ws)) \<and> (\<forall>x \<in> set (u # ws). \<not> seen (f x)) \<longleftrightarrow>
   \<not> seen (f u) \<and> distinct (map f ws) \<and> (\<forall>x \<in> set ws. \<not> (seen(f u := True)) (f x))"
  by auto (metis image_eqI)

lemma simple_Cons:
  assumes "graph_ok g" "u \<in> node_range g"
  shows "simple g seen u ((e, w) # ps) v \<longleftrightarrow>
    \<lparr>adj_edge = e, neighbor = w\<rparr> \<in> set (adjacency g (node_index g u)) \<and> \<not> seen (node_index g u) \<and>
    simple g (seen(node_index g u := True)) w ps v"
  using node_index_range(1)[OF assms] unfolding simple_def distinct_marked[of "node_index g" u] by auto

text \<open>What a search adds to the best path so far, in terms of the walks it has to consider.\<close>

definition improves :: "int list \<Rightarrow> int list \<Rightarrow> ((int \<times> int) list \<Rightarrow> bool) \<Rightarrow> path_result \<Rightarrow> path_result \<Rightarrow> bool" where
  "improves path edge_path W best best' \<longleftrightarrow>
     (best' = best \<or> found best' \<and> (\<exists>ps. W ps \<and> path_nodes best' = path @ map snd ps \<and> path_edges best' = edge_path @ map fst ps)) \<and>
     (\<forall>ps. W ps \<longrightarrow> found best' \<and> length (path_edges best') \<le> length edge_path + length ps) \<and>
     (found best \<longrightarrow> found best' \<and> length (path_edges best') \<le> length (path_edges best))"

definition search_spec :: "int list \<Rightarrow> int list \<Rightarrow> ((int \<times> int) list \<Rightarrow> bool) \<Rightarrow> (nat \<Rightarrow> bool) \<Rightarrow> path_result \<Rightarrow>
    ((nat \<Rightarrow> bool) \<times> path_result) option \<Rightarrow> bool" where
  "search_spec path edge_path W seen best r \<longleftrightarrow>
     (case r of None \<Rightarrow> \<exists>ps. W ps \<and> max_path_length \<le> length edge_path + length ps
      | Some (seen', best') \<Rightarrow> seen' = seen \<and> improves path edge_path W best best')"

definition sized :: "path_result \<Rightarrow> bool" where
  "sized r \<longleftrightarrow> (found r \<longrightarrow> length (path_nodes r) = Suc (length (path_edges r)))"

lemma improves_refl: "\<forall>ps. \<not> W ps \<Longrightarrow> improves path ep W best best"
  by (auto simp: improves_def)

lemma improves_sized: "improves path ep W best best' \<Longrightarrow> length path = Suc (length ep) \<Longrightarrow> sized best \<Longrightarrow> sized best'"
  by (auto simp: improves_def sized_def)

lemma improves_trans:
  assumes "improves path ep W1 b b1" "improves path ep W2 b1 b2" "\<And>ps. W ps \<longleftrightarrow> W1 ps \<or> W2 ps"
  shows "improves path ep W b b2"
  using assms unfolding improves_def by (auto intro: order_trans)

lemma improves_extend:
  assumes "improves (path @ [w]) (ep @ [e]) W b b'" "\<And>ps. W' ps \<longleftrightarrow> (\<exists>qs. ps = (e, w) # qs \<and> W qs)"
  shows "improves path ep W' b b'"
proof -
  have "b' = b \<or> found b' \<and> (\<exists>ps. W' ps \<and> path_nodes b' = path @ map snd ps \<and> path_edges b' = ep @ map fst ps)"
  proof (cases "b' = b")
    case False
    then obtain qs where "found b'" "W qs" "path_nodes b' = (path @ [w]) @ map snd qs" "path_edges b' = (ep @ [e]) @ map fst qs"
      using assms(1) unfolding improves_def by blast
    then show ?thesis using assms(2)[of "(e, w) # qs"] by force
  qed simp
  moreover have "found b' \<and> length (path_edges b') \<le> length ep + length ps" if "W' ps" for ps
    using assms that unfolding improves_def by fastforce
  ultimately show ?thesis using assms(1) unfolding improves_def by blast
qed

lemma all_paths_spec:
  assumes ok: "graph_ok g"
  shows "u \<in> node_range g \<Longrightarrow> length path = Suc (length ep) \<Longrightarrow> sized best \<Longrightarrow> \<not> seen (node_index g u) \<Longrightarrow>
      search_spec path ep (\<lambda>ps. simple g seen u ps t \<and> length ps < k) seen best (dfs_all_paths k g t u path ep seen best)"
    and "(\<forall>a \<in> set as. neighbor a \<in> node_range g) \<Longrightarrow> length path = Suc (length ep) \<Longrightarrow> sized best \<Longrightarrow>
      search_spec path ep (\<lambda>ps. \<exists>a \<in> set as. \<exists>qs. ps = (adj_edge a, neighbor a) # qs \<and> simple g seen (neighbor a) qs t \<and> length qs < k)
        seen best (all_paths_adj k g t as path ep seen best)"
  using ok
proof (induction k g t u path ep seen best and k g t as path ep seen best rule: dfs_all_paths_all_paths_adj.induct)
  case (1 g t u path ep seen best)
  then show ?case by (simp add: search_spec_def improves_refl)
next
  case (2 k g t u path ep seen best)
  note ok = "2.prems"(5)
  show ?case
  proof (cases "u = t")
    case True
    have W: "simple g seen u ps t \<and> length ps < Suc k \<longleftrightarrow> ps = []" for ps
      using simple_to_self "2.prems"(4) True by auto
    show ?thesis
      using "2.prems" True unfolding search_spec_def W
      by (auto simp: improves_def sized_def Let_def)
  next
    case False
    let ?seen = "seen(node_index g u := True)"
    have adj: "\<forall>a \<in> set (adjacency g (node_index g u)). neighbor a \<in> node_range g"
      using adjacency_range(2)[OF ok] by blast
    have W: "simple g seen u ps t \<and> length ps < Suc k \<longleftrightarrow>
        (\<exists>a \<in> set (adjacency g (node_index g u)). \<exists>qs. ps = (adj_edge a, neighbor a) # qs \<and> simple g ?seen (neighbor a) qs t \<and> length qs < k)"
      (is "?L \<longleftrightarrow> ?R") for ps
    proof
      assume ?L
      then obtain e w qs where ps: "ps = (e, w) # qs" using False by (cases ps) auto
      with \<open>?L\<close> have "\<lparr>adj_edge = e, neighbor = w\<rparr> \<in> set (adjacency g (node_index g u))" "simple g ?seen w qs t" "length qs < k"
        using simple_Cons[OF ok "2.prems"(1)] by auto
      then show ?R using ps by force
    next
      assume ?R
      then obtain a qs where a: "a \<in> set (adjacency g (node_index g u))" "ps = (adj_edge a, neighbor a) # qs"
        "simple g ?seen (neighbor a) qs t" "length qs < k" by blast
      moreover from a(1) have "\<lparr>adj_edge = adj_edge a, neighbor = neighbor a\<rparr> \<in> set (adjacency g (node_index g u))"
        unfolding adj_cell .
      ultimately show ?L using simple_Cons[OF ok "2.prems"(1)] "2.prems"(4) by simp
    qed
    have IH: "search_spec path ep
        (\<lambda>ps. \<exists>a \<in> set (adjacency g (node_index g u)). \<exists>qs. ps = (adj_edge a, neighbor a) # qs \<and> simple g ?seen (neighbor a) qs t \<and> length qs < k)
        ?seen best (all_paths_adj k g t (adjacency g (node_index g u)) path ep ?seen best)"
      by (rule "2.IH"[OF refl False adj "2.prems"(2,3) ok])
    have restore: "seen(node_index g u := False) = seen" using "2.prems"(4) by (intro ext) auto
    show ?thesis
      using IH False unfolding search_spec_def W
      by (auto simp: Let_def restore simp del: fun_upd_apply split: option.splits prod.splits)
  qed
next
  case (3 k g t path ep seen best)
  then show ?case by (simp add: search_spec_def improves_refl)
next
  case (4 k g t a as path ep seen best)
  note ok = "4.prems"(4)
  let ?W1 = "\<lambda>ps. \<exists>qs. ps = (adj_edge a, neighbor a) # qs \<and> simple g seen (neighbor a) qs t \<and> length qs < k"
  let ?W2 = "\<lambda>ps. \<exists>a \<in> set as. \<exists>qs. ps = (adj_edge a, neighbor a) # qs \<and> simple g seen (neighbor a) qs t \<and> length qs < k"
  let ?W = "\<lambda>ps. \<exists>a \<in> set (a # as). \<exists>qs. ps = (adj_edge a, neighbor a) # qs \<and> simple g seen (neighbor a) qs t \<and> length qs < k"
  have W: "?W ps \<longleftrightarrow> ?W1 ps \<or> ?W2 ps" for ps by auto
  show ?case
  proof (cases "seen (node_index g (neighbor a))")
    case True
    then have no: "\<not> simple g seen (neighbor a) qs t" for qs by (simp add: simple_def)
    have "search_spec path ep ?W2 seen best (all_paths_adj k g t as path ep seen best)"
      using "4.IH"(3)[OF _ _ "4.prems"(2,3) ok] True "4.prems"(1) by simp
    then show ?thesis using True no by simp
  next
    case False
    let ?r1 = "dfs_all_paths k g t (neighbor a) (path @ [neighbor a]) (ep @ [adj_edge a]) seen best"
    have r1: "search_spec (path @ [neighbor a]) (ep @ [adj_edge a]) (\<lambda>ps. simple g seen (neighbor a) ps t \<and> length ps < k) seen best ?r1"
      using "4.IH"(1)[OF False _ _ "4.prems"(3) _ ok] "4.prems"(1,2) False by simp
    show ?thesis
    proof (cases ?r1)
      case None
      with r1 obtain qs where "simple g seen (neighbor a) qs t" "length qs < k"
        "max_path_length \<le> length (ep @ [adj_edge a]) + length qs" by (auto simp: search_spec_def)
      then have "?W ((adj_edge a, neighbor a) # qs) \<and> max_path_length \<le> length ep + length ((adj_edge a, neighbor a) # qs)"
        by auto
      then have "\<exists>ps. ?W ps \<and> max_path_length \<le> length ep + length ps" by (rule exI)
      then show ?thesis using None False unfolding search_spec_def by simp
    next
      case (Some p)
      obtain s1 b1 where p: "p = (s1, b1)" by (cases p)
      with r1 Some have s1: "s1 = seen"
        and "improves (path @ [neighbor a]) (ep @ [adj_edge a]) (\<lambda>ps. simple g seen (neighbor a) ps t \<and> length ps < k) best b1"
        by (simp_all add: search_spec_def)
      from this(2) have imp1: "improves path ep ?W1 best b1" by (rule improves_extend) blast
      have sized: "sized b1" by (rule improves_sized[OF imp1 "4.prems"(2,3)])
      let ?r2 = "all_paths_adj k g t as path ep seen b1"
      have r2: "search_spec path ep ?W2 seen b1 ?r2"
        using "4.IH"(2)[OF False Some p[unfolded s1, symmetric] _ "4.prems"(2) sized ok] "4.prems"(1) by simp
      have eq: "all_paths_adj k g t (a # as) path ep seen best = ?r2" using False Some p s1 by simp
      show ?thesis
      proof (cases ?r2)
        case None
        with r2 have "\<exists>ps. ?W2 ps \<and> max_path_length \<le> length ep + length ps" by (simp add: search_spec_def)
        then have "\<exists>ps. ?W ps \<and> max_path_length \<le> length ep + length ps" unfolding W by blast
        then show ?thesis using None unfolding eq search_spec_def by simp
      next
        case (Some p2)
        obtain s2 b2 where p2: "p2 = (s2, b2)" by (cases p2)
        with r2 Some have "s2 = seen" "improves path ep ?W2 b1 b2" by (simp_all add: search_spec_def)
        with improves_trans[OF imp1 this(2) W] show ?thesis
          unfolding eq search_spec_def by (simp add: Some p2)
      qed
    qed
  qed
qed

lemma graph_walk_simple:
  assumes ok: "graph_ok g" and u: "u \<in> node_range g" and w: "graph_walk g u ps v"
  obtains qs where "simple g (\<lambda>_. False) u qs v" "length qs \<le> length ps"
proof -
  note iw = walk_of_graph_walk[OF ok w u]
  obtain xs where xs: "walk (index_succ g) (node_index g u) xs (node_index g v)"
    "distinct (node_index g u # map snd xs)" "length xs \<le> length ps"
    using walk_shorten[OF iw[THEN conjunct1]] by auto
  define qs where "qs = map (map_prod id (\<lambda>k. int k + 1)) xs"
  have ids: "int (node_index g u) + 1 = u" "int (node_index g v) + 1 = v" "node_index g u < length (nodes g)"
    using node_index_range[OF ok] u iw by auto
  have gw: "graph_walk g u qs v" using graph_walk_of_walk[OF ok xs(1) ids(3)] ids by (simp add: qs_def)
  have "m < length (nodes g)" if mem: "(e, m) \<in> set xs" for e m
  proof -
    obtain as bs where "xs = as @ (e, m) # bs" using split_list[OF mem] by blast
    then obtain j where "(e, m) \<in> set (index_succ g j)" using xs(1) by (auto simp: walk_append)
    then obtain w where w: "\<lparr>adj_edge = e, neighbor = w\<rparr> \<in> set (adjacency g j)" "m = node_index g w"
      by (auto simp: index_succ_set)
    then show ?thesis using adjacency_range(2)[OF ok w(1)] node_index_range(2)[OF ok] by simp
  qed
  moreover have "node_index g (int m + 1) = m" if "m < length (nodes g)" for m
    using node_index_range(1)[OF ok, of "int m + 1"] that by (simp add: node_range_def)
  ultimately have "map (node_index g) (map snd qs) = map snd xs"
    unfolding qs_def map_map by (intro map_cong refl) auto
  then have "distinct (map (node_index g) (u # map snd qs))" using xs(2) by (simp del: map_map)
  then show thesis using that[of qs] gw xs(3) by (simp add: simple_def qs_def)
qed

lemma traverse_all_paths_spec:
  assumes ok: "graph_ok g" and u: "u \<in> node_range g" and "0 \<le> max_depth"
  shows "case traverse_all_paths True True True g u v max_depth of
      None \<Rightarrow> \<exists>ps. graph_walk g u ps v \<and> max_path_length \<le> length ps \<and> int (length ps) \<le> max_depth
    | Some r \<Rightarrow>
        if found r then is_path g u v r \<and> int (length (path_edges r)) \<le> max_depth \<and>
          (\<forall>ps. graph_walk g u ps v \<longrightarrow> length (path_edges r) \<le> length ps)
        else (\<forall>ps. graph_walk g u ps v \<longrightarrow> max_depth < int (length ps))"
proof -
  let ?k = "nat (max_depth + 1)"
  let ?r = "dfs_all_paths ?k g v u [u] [] (\<lambda>_. False) no_path"
  have k: "length ps < ?k \<longleftrightarrow> int (length ps) \<le> max_depth" for ps :: "(int \<times> int) list"
    using assms(3) by auto
  have eq: "traverse_all_paths True True True g u v max_depth = map_option snd ?r"
    using u assms(3) by (auto simp: traverse_all_paths_def node_range_def)
  have spec: "search_spec [u] [] (\<lambda>ps. simple g (\<lambda>_. False) u ps v \<and> length ps < ?k) (\<lambda>_. False) no_path ?r"
    by (rule all_paths_spec(1)[OF ok u]) (simp_all add: sized_def no_path_def)
  show ?thesis
  proof (cases ?r)
    case None
    then obtain ps where "simple g (\<lambda>_. False) u ps v" "length ps < ?k" "max_path_length \<le> length ps"
      using spec by (auto simp: search_spec_def)
    then have "graph_walk g u ps v" "int (length ps) \<le> max_depth" using k by (auto simp: simple_def)
    with \<open>max_path_length \<le> length ps\<close> show ?thesis using None by (auto simp: eq)
  next
    case (Some p)
    obtain s b where p: "p = (s, b)" by (cases p)
    have imp: "improves [u] [] (\<lambda>ps. simple g (\<lambda>_. False) u ps v \<and> length ps < ?k) no_path b"
      using spec Some p by (simp add: search_spec_def)
    show ?thesis
    proof (cases "found b")
      case True
      then obtain qs where qs: "simple g (\<lambda>_. False) u qs v" "length qs < ?k"
        "path_nodes b = [u] @ map snd qs" "path_edges b = [] @ map fst qs"
        using imp by (auto simp: improves_def no_path_def)
      have "length (path_edges b) \<le> length ps" if walk: "graph_walk g u ps v" for ps
      proof -
        obtain xs where xs: "simple g (\<lambda>_. False) u xs v" "length xs \<le> length ps"
          using graph_walk_simple[OF ok u walk] .
        show ?thesis
        proof (cases "length xs < ?k")
          case True
          then have "length (path_edges b) \<le> length xs" using imp xs(1) unfolding improves_def by fastforce
          then show ?thesis using xs(2) by simp
        qed (use qs xs(2) in simp)
      qed
      moreover have "is_path g u v b" using qs by (auto simp: is_path_def simple_def)
      ultimately show ?thesis using True qs k[of qs] by (simp add: eq Some p)
    next
      case False
      have "max_depth < int (length ps)" if walk: "graph_walk g u ps v" for ps
      proof -
        obtain xs where xs: "simple g (\<lambda>_. False) u xs v" "length xs \<le> length ps"
          using graph_walk_simple[OF ok u walk] .
        have "\<not> length xs < ?k" using imp False xs(1) unfolding improves_def by blast
        then show ?thesis using k[of xs] xs(2) by simp
      qed
      then show ?thesis using False by (simp add: eq Some p)
    qed
  qed
qed

section \<open>Visitors\<close>

definition visit_rel :: "graph \<Rightarrow> nat \<Rightarrow> visit_state \<Rightarrow> frontier \<Rightarrow> bool" where
  "visit_rel g root st s \<longleftrightarrow> map (\<lambda>p. node_index g (fst p)) (vis_queue st) = fr_queue s \<and>
     (\<forall>p \<in> set (vis_queue st). snd p = int (fr_depth s (node_index g (fst p))) \<and> fst p \<in> node_range g) \<and>
     (\<forall>i. vis_seen st i \<longleftrightarrow> i \<in> set (fr_queue s))"

lemma bfs_discover_rel:
  assumes rel: "visit_rel g root st s" and a: "neighbor a \<in> node_range g" and c: "c \<in> set (fr_queue s)"
    and d: "d = int (fr_depth s c)"
  shows "visit_rel g root (bfs_discover g d a st) (discover c (adj_edge a, node_index g (neighbor a)) s)"
proof (cases "vis_seen st (node_index g (neighbor a))")
  case True
  then show ?thesis using rel by (simp add: visit_rel_def bfs_discover_def discover_def Let_def)
next
  case False
  let ?j = "node_index g (neighbor a)"
  have q: "map (\<lambda>p. node_index g (fst p)) (vis_queue st) = fr_queue s" using rel by (simp add: visit_rel_def)
  have new: "?j \<notin> set (fr_queue s)" using False rel by (simp add: visit_rel_def)
  have "node_index g (fst p) \<noteq> ?j" if "p \<in> set (vis_queue st)" for p
  proof
    assume "node_index g (fst p) = ?j"
    then have "?j = (\<lambda>p. node_index g (fst p)) p" by simp
    then have "?j \<in> (\<lambda>p. node_index g (fst p)) ` set (vis_queue st)" using that by blast
    then show False using new unfolding q[symmetric] set_map by blast
  qed
  then show ?thesis using rel a d new False c
    by (auto simp: visit_rel_def bfs_discover_def discover_def Let_def)
qed

lemma bfs_discover_fold:
  assumes "visit_rel g root st s" "\<forall>a \<in> set as. neighbor a \<in> node_range g" "c \<in> set (fr_queue s)" "d = int (fr_depth s c)"
  shows "visit_rel g root (fold (bfs_discover g d) as st) (fold (discover c) (map (\<lambda>a. (adj_edge a, node_index g (neighbor a))) as) s)"
  using assms
proof (induction as arbitrary: st s)
  case (Cons a as)
  let ?s = "discover c (adj_edge a, node_index g (neighbor a)) s"
  have "visit_rel g root (bfs_discover g d a st) ?s" using Cons.prems by (intro bfs_discover_rel) auto
  moreover have "c \<in> set (fr_queue ?s)" "fr_depth ?s c = fr_depth s c"
    using Cons.prems(3) by (auto simp: discover_def)
  ultimately show ?case using Cons.IH[of "bfs_discover g d a st" ?s] Cons.prems by simp
qed simp

lemma bfs_discover_queue: "\<exists>zs. vis_queue (fold (bfs_discover g d) as st) = vis_queue st @ zs"
proof (induction as arbitrary: st)
  case (Cons a as)
  have "\<exists>zs. vis_queue (bfs_discover g d a st) = vis_queue st @ zs" by (simp add: bfs_discover_def Let_def)
  then show ?case using Cons.IH[of "bfs_discover g d a st"] by fastforce
qed simp

lemma bfs_visit_loop_spec:
  assumes "graph_ok g" "visit_rel g root st s" "frontier_ok (index_succ g) root (vis_front st) s"
    "calls = take (vis_front st) (vis_queue st)"
  shows "\<exists>st' s'. bfs_visit_loop g st calls = vis_queue st' \<and> visit_rel g root st' s' \<and>
    frontier_ok (index_succ g) root (length (fr_queue s')) s'"
  using assms
proof (induction g st calls arbitrary: s rule: bfs_visit_loop.induct)
  case (1 g st calls)
  have q: "map (\<lambda>p. node_index g (fst p)) (vis_queue st) = fr_queue s" using "1.prems"(2) by (simp add: visit_rel_def)
  then have len: "length (fr_queue s) = length (vis_queue st)" by (metis length_map)
  show ?case
  proof (cases "vis_front st < length (vis_queue st)")
    case False
    then have "vis_front st = length (fr_queue s)" using "1.prems"(3) len by (simp add: frontier_ok_def)
    moreover from this have "bfs_visit_loop g st calls = vis_queue st"
      using False "1.prems"(4) by (subst bfs_visit_loop.simps) simp
    ultimately show ?thesis using "1.prems" by auto
  next
    case True
    obtain cur d where cd: "vis_queue st ! vis_front st = (cur, d)" by (cases "vis_queue st ! vis_front st")
    let ?c = "node_index g cur"
    let ?st = "st\<lparr>vis_front := Suc (vis_front st)\<rparr>"
    let ?st' = "fold (bfs_discover g d) (adjacency g ?c) ?st"
    let ?s' = "fold (discover ?c) (index_succ g ?c) s"
    have c: "?c = fr_queue s ! vis_front st"
      using nth_map[OF True, of "\<lambda>p. node_index g (fst p)"] unfolding q cd by simp
    then have cin: "?c \<in> set (fr_queue s)" using True len by simp
    have d: "d = int (fr_depth s ?c)"
      using "1.prems"(2) nth_mem[OF True] unfolding visit_rel_def cd by auto
    have rel: "visit_rel g root ?st s" using "1.prems"(2) by (simp add: visit_rel_def)
    have rel': "visit_rel g root ?st' ?s'"
      using bfs_discover_fold[OF rel _ cin d] adjacency_range(2)[OF "1.prems"(1)] by (simp add: index_succ_def)
    have "frontier_ok (index_succ g) root (vis_front ?st') ?s'"
      using frontier_expand[OF "1.prems"(3) _ c] True len by simp
    moreover have "calls @ [(cur, d)] = take (vis_front ?st') (vis_queue ?st')"
    proof -
      obtain zs where "vis_queue ?st' = vis_queue ?st @ zs" using bfs_discover_queue by blast
      then show ?thesis using "1.prems"(4) True cd by (simp add: take_Suc_conv_app_nth)
    qed
    moreover have "bfs_visit_loop g st calls = bfs_visit_loop g ?st' (calls @ [(cur, d)])"
      using True cd by (subst bfs_visit_loop.simps) (simp add: Let_def)
    ultimately show ?thesis
      using "1.IH"[OF _ cd[symmetric] refl refl refl "1.prems"(1) rel'] True by simp
  qed
qed


lemma bfs_visitor_spec:
  assumes ok: "graph_ok g" and u: "u \<in> node_range g"
  obtains st s where "traverse_bfs_visitor True g u = Some (vis_queue st)" "visit_rel g (node_index g u) st s"
    "frontier_ok (index_succ g) (node_index g u) (length (fr_queue s)) s"
proof -
  let ?st = "\<lparr>vis_queue = [(u, 0)], vis_front = 0, vis_seen = (\<lambda>_. False)(node_index g u := True)\<rparr>"
  have "visit_rel g (node_index g u) ?st (frontier_start (node_index g u))"
    using u by (auto simp: visit_rel_def frontier_start_def)
  then obtain st' s' where "bfs_visit_loop g ?st [] = vis_queue st'" "visit_rel g (node_index g u) st' s'"
    "frontier_ok (index_succ g) (node_index g u) (length (fr_queue s')) s'"
    using bfs_visit_loop_spec[OF ok, of "node_index g u" ?st "frontier_start (node_index g u)" "[]"] frontier_start_ok
    by auto
  moreover have "nodes g \<noteq> []" using u by (auto simp: node_range_def)
  ultimately show thesis using that by (simp add: traverse_bfs_visitor_def)
qed

text \<open>
  The visitor of the depth first search has the same stack and the same flags as the search
  without a target, so it calls back in the recorded order and overflows with it.
\<close>

lemma dfs_visit_loop_eq:
  "dfs_listed g st \<Longrightarrow> dfs_stack st = map fst stk \<Longrightarrow> dfs_order st = map fst calls \<Longrightarrow> seen = dfs_seen st \<Longrightarrow>
    graph_ok g \<Longrightarrow>
    map_option (map fst) (dfs_visit_loop g stk seen calls) = map_option dfs_order (dfs_loop g (-1) st)"
proof (induction g stk seen calls arbitrary: st rule: dfs_visit_loop.induct)
  case (1 g seen calls)
  then show ?case by (subst dfs_loop.simps) simp
next
  case (2 g cur d rest seen calls)
  note ok = "2.prems"(5)
  have stack: "dfs_stack st = cur # map fst rest" using "2.prems"(2) by simp
  note unfold = dfs_loop_unfold[OF ok "2.prems"(1), of "-1"]
  show ?case
  proof (cases "seen (node_index g cur)")
    case True
    have "map_option (map fst) (dfs_visit_loop g rest seen calls) = map_option dfs_order (dfs_loop g (-1) (st\<lparr>dfs_stack := map fst rest\<rparr>))"
      using "2.prems" True stack dfs_pop_seen(2)[OF stack] by (intro "2.IH"(1)[OF refl]) auto
    then show ?thesis using True stack "2.prems"(4) by (simp add: unfold Let_def)
  next
    case False
    let ?m = "dfs_mark g cur (map fst rest) st" and ?seen = "seen(node_index g cur := True)"
    have m: "dfs_seen ?m = ?seen" "dfs_order ?m = map fst (calls @ [(cur, d)])" "dfs_stack ?m = map fst rest"
      using "2.prems" by (simp_all add: dfs_mark_def)
    let ?f = "dfs_fresh g (node_index g cur) ?seen"
    have new: "\<not> dfs_seen st (node_index g cur)" using False "2.prems"(4) by simp
    show ?thesis
    proof (cases "max_nodes < length rest + length ?f")
      case True
      then show ?thesis using False stack new by (simp add: unfold Let_def m)
    next
      case no: False
      have "map_option (map fst) (dfs_visit_loop g (map (\<lambda>a. (neighbor a, d + 1)) ?f @ rest) ?seen (calls @ [(cur, d)])) =
          map_option dfs_order (dfs_loop g (-1) (dfs_grow g cur ?m))"
      proof (rule "2.IH"(2)[OF refl False refl refl no])
        show "dfs_listed g (dfs_grow g cur ?m)"
          by (rule dfs_grow_listed[OF ok dfs_mark_listed[OF stack new "2.prems"(1)]])
      qed (simp_all add: dfs_grow_frame m comp_def ok)
      then show ?thesis using False stack new no by (simp add: unfold Let_def m)
    qed
  qed
qed

lemma dfs_visitor_order:
  assumes ok: "graph_ok g" and u: "u \<in> node_range g"
  shows "map_option (map fst) (traverse_dfs_visitor True g u) = map_option dfs_order (dfs_loop g (-1) (dfs_start g u))"
proof -
  have "nodes g \<noteq> []" using u by (auto simp: node_range_def)
  moreover have "map_option (map fst) (dfs_visit_loop g [(u, 0)] (\<lambda>_. False) []) = map_option dfs_order (dfs_loop g (-1) (dfs_start g u))"
    by (rule dfs_visit_loop_eq) (use u ok in \<open>simp_all add: dfs_listed_def dfs_start_def Let_def\<close>)
  ultimately show ?thesis by (simp add: traverse_dfs_visitor_def)
qed

section \<open>Outcomes of the searches on built graphs\<close>

lemma is_path_walk: "is_path g u v r \<Longrightarrow> \<exists>ps. graph_walk g u ps v \<and> length ps = length (path_edges r)"
  by (auto simp: is_path_def)

lemma bfs_outcome:
  assumes "built g0 ops g" "u \<in> node_range g" "v \<in> node_range g"
  shows "case traverse_bfs g u v of
      None \<Rightarrow> (arc g)\<^sup>*\<^sup>* u v \<and> (\<forall>ps. graph_walk g u ps v \<longrightarrow> max_path_length \<le> length ps)
    | Some r \<Rightarrow> if found r then is_path g u v r \<and> length (path_edges r) < max_path_length \<and>
                 (\<forall>ps. graph_walk g u ps v \<longrightarrow> length (path_edges r) \<le> length ps)
               else \<not> (arc g)\<^sup>*\<^sup>* u v"
  using bfs_spec[OF built_ok(1)[OF assms(1)] built_get[OF assms(1,2)] assms(3) _ refl] assms(3)
  by (auto simp: node_range_def reachable_arcs[OF assms(1,2)] split: option.splits)

text \<open>The exhaustive search never stores a path of 256 edges.\<close>

lemma all_paths_short:
  "dfs_all_paths k g t u path ep seen best = Some (s, b) \<Longrightarrow>
     (found best \<longrightarrow> length (path_edges best) < max_path_length) \<Longrightarrow> found b \<longrightarrow> length (path_edges b) < max_path_length"
  "all_paths_adj k g t as path ep seen best = Some (s, b) \<Longrightarrow>
     (found best \<longrightarrow> length (path_edges best) < max_path_length) \<Longrightarrow> found b \<longrightarrow> length (path_edges b) < max_path_length"
proof (induction k g t u path ep seen best and k g t as path ep seen best arbitrary: s b and s b
    rule: dfs_all_paths_all_paths_adj.induct)
  case (2 k g t u path ep seen best)
  show ?case
  proof (cases "u = t")
    case True
    then show ?thesis using 2(2,3) by (auto simp: Let_def not_le split: if_splits)
  next
    case False
    with 2(2) obtain s1 where
      "all_paths_adj k g t (adjacency g (node_index g u)) path ep (seen(node_index g u := True)) best = Some (s1, b)"
      by (auto simp: Let_def split: option.splits)
    from 2(1)[OF refl False this 2(3)] show ?thesis .
  qed
next
  case (4 k g t a as path ep seen best)
  show ?case
  proof (cases "seen (node_index g (neighbor a))")
    case True
    then show ?thesis using 4 by simp
  next
    case False
    then obtain s1 b1 where first: "dfs_all_paths k g t (neighbor a) (path @ [neighbor a]) (ep @ [adj_edge a]) seen best = Some (s1, b1)"
      and rest: "all_paths_adj k g t as path ep s1 b1 = Some (s, b)"
      using 4(4) by (auto split: option.splits)
    show ?thesis using 4(2)[OF _ first refl rest] 4(1)[OF _ first 4(5)] False by simp
  qed
qed simp_all

lemma traverse_all_paths_outcome:
  assumes "built g0 ops g" "u \<in> node_range g" "0 \<le> max_depth"
    and "traverse_all_paths True True True g u v max_depth = Some r"
  shows "if found r then is_path g u v r \<and> length (path_edges r) < max_path_length \<and> int (length (path_edges r)) \<le> max_depth \<and>
        (\<forall>ps. graph_walk g u ps v \<longrightarrow> length (path_edges r) \<le> length ps)
      else (\<forall>ps. graph_walk g u ps v \<longrightarrow> max_depth < int (length ps))"
proof -
  obtain s where "dfs_all_paths (nat (max_depth + 1)) g v u [u] [] (\<lambda>_. False) no_path = Some (s, r)"
    using assms(3,4) by (auto simp: traverse_all_paths_def split: if_splits)
  from all_paths_short(1)[OF this] have "found r \<longrightarrow> length (path_edges r) < max_path_length" by (simp add: no_path_def)
  then show ?thesis using traverse_all_paths_spec[OF built_ok(1)[OF assms(1)] assms(2,3), of v] assms(4) by auto
qed

section \<open>Properties\<close>

text \<open>
  C38. Breadth first search between two existing nodes of a graph that was built without a
  failed allocation: when arcs lead to the target, the result is a path to it, nodes and
  edges in order, of fewer than 256 edges, and no walk to it has fewer edges; otherwise nothing is
  found. The only other outcome is a write behind the result, exactly when arcs lead to the target
  but every walk to it has 256 edges or more.
\<close>

theorem bfs_shortest_path:
  assumes "built g0 ops g" "u \<in> node_range g" "v \<in> node_range g"
  shows "(traverse_bfs g u v = None \<longleftrightarrow> (arc g)\<^sup>*\<^sup>* u v \<and> (\<forall>ps. graph_walk g u ps v \<longrightarrow> max_path_length \<le> length ps)) \<and>
    (\<forall>r. traverse_bfs g u v = Some r \<longrightarrow>
      (if found r then is_path g u v r \<and> length (path_edges r) < max_path_length \<and>
         (\<forall>ps. graph_walk g u ps v \<longrightarrow> length (path_edges r) \<le> length ps)
       else \<not> (arc g)\<^sup>*\<^sup>* u v))"
proof (cases "traverse_bfs g u v")
  case None
  then show ?thesis using bfs_outcome[OF assms] by simp
next
  case (Some r)
  have "\<exists>ps. graph_walk g u ps v \<and> \<not> max_path_length \<le> length ps" if "found r"
    using bfs_outcome[OF assms] Some that is_path_walk[of g u v r] by (auto simp: not_le)
  then show ?thesis using bfs_outcome[OF assms] Some by auto
qed

text \<open>
  C39. The exhaustive search of simple paths agrees with breadth first search, between two existing
  nodes of a graph that was built without a failed allocation: within its limit on the depth it
  finds a path exactly if breadth first search finds one that short, and then both have the same
  number of edges; when breadth first search writes behind its result, it finds none. It writes
  behind its own result only with a limit of 256 or more, when a walk of 256 edges or more, within
  the limit, leads to the target.
\<close>

theorem all_paths_agree_with_bfs:
  assumes "built g0 ops g" "u \<in> node_range g" "v \<in> node_range g" "0 \<le> max_depth"
  shows "case traverse_all_paths True True True g u v max_depth of
      None \<Rightarrow> int max_path_length \<le> max_depth \<and>
        (\<exists>ps. graph_walk g u ps v \<and> max_path_length \<le> length ps \<and> int (length ps) \<le> max_depth)
    | Some r' \<Rightarrow>
        (case traverse_bfs g u v of
           None \<Rightarrow> \<not> found r'
         | Some r \<Rightarrow> (found r' \<longleftrightarrow> found r \<and> int (length (path_edges r)) \<le> max_depth) \<and>
             (found r' \<longrightarrow> length (path_edges r') = length (path_edges r)))"
proof (cases "traverse_all_paths True True True g u v max_depth")
  case None
  then obtain ps where "graph_walk g u ps v" "max_path_length \<le> length ps" "int (length ps) \<le> max_depth"
    using traverse_all_paths_spec[OF built_ok(1)[OF assms(1)] assms(2,4), of v] by auto
  then show ?thesis using None by auto
next
  case r': (Some r')
  note all = traverse_all_paths_outcome[OF assms(1,2,4) r', of] and bfs = bfs_outcome[OF assms(1-3)]
  show ?thesis
  proof (cases "traverse_bfs g u v")
    case None
    have "\<not> found r'"
    proof
      assume "found r'"
      with all obtain ps where "graph_walk g u ps v" "length ps < max_path_length" using is_path_walk by fastforce
      then show False using bfs None by auto
    qed
    then show ?thesis using r' None by simp
  next
    case (Some r)
    have "found r \<and> int (length (path_edges r)) \<le> max_depth \<and> length (path_edges r') = length (path_edges r)" if f: "found r'"
    proof -
      from all f obtain qs where qs: "graph_walk g u qs v" "length qs = length (path_edges r')" using is_path_walk by fastforce
      then have "reachable g u v" by (auto simp: reachable_def)
      then have r: "found r" using bfs Some reachable_arcs[OF assms(1,2)] by (auto split: if_splits)
      with bfs Some obtain ps where ps: "graph_walk g u ps v" "length ps = length (path_edges r)" using is_path_walk by fastforce
      have "length (path_edges r) \<le> length qs" using bfs Some r qs(1) by simp
      moreover have "length (path_edges r') \<le> length ps" using all f ps(1) by simp
      ultimately show ?thesis using all f r qs(2) ps(2) by simp
    qed
    moreover have "max_depth < int (length (path_edges r))" if "\<not> found r'" "found r"
    proof -
      from bfs Some that(2) obtain ps where "graph_walk g u ps v" "length ps = length (path_edges r)" using is_path_walk by fastforce
      then show ?thesis using all that(1) by auto
    qed
    ultimately show ?thesis using r' Some by (cases "found r'") auto
  qed
qed

text \<open>
  C40. Depth first search, when no node has more than 4096 adjacency cells: the result is a
  path to the target when arcs lead there, otherwise nothing is found. It runs into
  undefined behaviour only in a graph with more than 4096 adjacency cells, through its
  stack, or with more than 256 nodes, through the result.
\<close>

theorem dfs_finds_path:
  assumes "built g0 ops g" "u \<in> node_range g" "v \<in> node_range g" "\<forall>i. length (adjacency g i) \<le> max_nodes"
  shows "case traverse_dfs g u v of
      None \<Rightarrow> max_nodes < degree_sum g \<or> max_path_length < length (nodes g)
    | Some r \<Rightarrow> if found r then is_path g u v r else \<not> (arc g)\<^sup>*\<^sup>* u v"
  using dfs_spec[OF built_ok(1)[OF assms(1)] assms(4) built_get[OF assms(1,2)] assms(3)]
  by (simp only: reachable_arcs[OF assms(1,2)])

text \<open>
  The breadth first visitor calls back once for every node that can be reached, in the
  order of distance, with the length of a shortest walk as the depth.
\<close>

theorem bfs_visitor_distances:
  assumes "built g0 ops g" "u \<in> node_range g"
  shows "\<exists>calls. traverse_bfs_visitor True g u = Some calls \<and> distinct (map fst calls) \<and>
    sorted (map snd calls) \<and> fst ` set calls = {v. (arc g)\<^sup>*\<^sup>* u v} \<and>
    (\<forall>(v, d) \<in> set calls. (\<exists>ps. graph_walk g u ps v \<and> int (length ps) = d) \<and>
       (\<forall>ps. graph_walk g u ps v \<longrightarrow> d \<le> int (length ps)))"
proof -
  note ok = built_ok(1)[OF assms(1)]
  obtain st s where run: "traverse_bfs_visitor True g u = Some (vis_queue st)"
    and rel: "visit_rel g (node_index g u) st s"
    and fr: "frontier_ok (index_succ g) (node_index g u) (length (fr_queue s)) s"
    using bfs_visitor_spec[OF ok assms(2)] .
  let ?calls = "vis_queue st"
  have q: "map (\<lambda>p. node_index g (fst p)) ?calls = fr_queue s"
    and d: "\<And>p. p \<in> set ?calls \<Longrightarrow> snd p = int (fr_depth s (node_index g (fst p))) \<and> fst p \<in> node_range g"
    using rel by (auto simp: visit_rel_def)
  have fo: "found_ok (index_succ g) (node_index g u) s" using fr by (simp add: frontier_ok_def)
  note preds = found_preds[OF fo]
  have inq: "node_index g (fst p) \<in> set (fr_queue s)" if "p \<in> set ?calls" for p
    unfolding q[symmetric] set_map using that by blast
  have "distinct (map (node_index g) (map fst ?calls))"
    using fo q by (simp add: found_ok_def comp_def)
  then have dist: "distinct (map fst ?calls)" by (simp only: distinct_map)
  have "map snd ?calls = map (\<lambda>i. int (fr_depth s i)) (fr_queue s)"
    unfolding q[symmetric] map_map by (intro map_cong refl) (use d in simp)
  moreover have "sorted (map int (map (fr_depth s) (fr_queue s)))"
    using fo by (simp add: found_ok_def sorted_map)
  ultimately have srt: "sorted (map snd ?calls)" by (simp add: comp_def)
  have "v \<in> fst ` set ?calls \<longleftrightarrow> reachable g u v" for v
  proof
    assume "v \<in> fst ` set ?calls"
    then obtain p where "p \<in> set ?calls" "v = fst p" by blast
    then show "reachable g u v"
      using reachable_linked[OF ok assms(2)] d inq preds_linked[OF preds] by blast
  next
    assume "reachable g u v"
    then have v: "v \<in> node_range g" "node_index g v \<in> set (fr_queue s)"
      using reachable_linked[OF ok assms(2)] frontier_done[OF fr] by auto
    then obtain p where p: "p \<in> set ?calls" "node_index g v = node_index g (fst p)"
      unfolding q[symmetric] by auto
    then have "v = fst p" using node_index_range(3)[OF ok v(1)] node_index_range(3)[OF ok, of "fst p"] d by metis
    with p(1) show "v \<in> fst ` set ?calls" by blast
  qed
  then have rch: "fst ` set ?calls = {v. (arc g)\<^sup>*\<^sup>* u v}" by (auto simp: reachable_arcs[OF assms])
  have "(\<exists>ps. graph_walk g u ps v \<and> int (length ps) = k) \<and> (\<forall>ps. graph_walk g u ps v \<longrightarrow> k \<le> int (length ps))"
    if c: "(v, k) \<in> set ?calls" for v k
  proof -
    have k: "k = int (fr_depth s (node_index g v))" and v: "v \<in> node_range g" using d[OF c] by simp_all
    have mem: "node_index g v \<in> set (fr_queue s)" using inq[OF c] by simp
    let ?ch = "chain (Suc (fr_depth s (node_index g v))) (fr_from s) (node_index g u) (node_index g v)"
    have len: "length ?ch = fr_depth s (node_index g v)"
      using chain_exact[OF preds _ _ mem, of "Suc (fr_depth s (node_index g v))"] fo by (simp add: found_ok_def)
    have "walk (index_succ g) (node_index g u) (rev ?ch) (node_index g v)"
      by (rule chain_walk[OF preds mem]) (simp only: len lessI)
    from graph_walk_of_walk[OF ok this] node_index_range[OF ok assms(2)] node_index_range[OF ok v]
    have "graph_walk g u (map (map_prod id (\<lambda>k. int k + 1)) (rev ?ch)) v" by simp
    then have "\<exists>ps. graph_walk g u ps v \<and> int (length ps) = k" using len k by (metis length_map length_rev)
    moreover have "k \<le> int (length ps)" if "graph_walk g u ps v" for ps
      using bfs_distance[OF ok assms(2) fr mem that] k by simp
    ultimately show ?thesis by blast
  qed
  then show ?thesis using run dist srt rch by blast
qed

text \<open>
  A target that is no node of the graph is taken for the first node: the search reports
  success and a path to node 1 whenever that can be reached.
\<close>

theorem bfs_unknown_target:
  assumes "built g0 ops g" "u \<in> node_range g" "0 \<le> t" "t \<notin> node_range g" "traverse_bfs g u t = Some r"
  shows "if (arc g)\<^sup>*\<^sup>* u 1 then found r \<and> is_path g u 1 r else \<not> found r"
proof -
  note ok = built_ok(1)[OF assms(1)]
  have one: "1 \<in> node_range g" using assms(2) by (auto simp: node_range_def)
  have "node_index g t = 0" by (rule node_index_unknown[OF ok assms(4)])
  then have "node_index g t = node_index g 1"
    using node_index_range(1)[OF ok one] by simp
  from bfs_spec[OF ok built_get[OF assms(1,2)] one assms(3) this] assms(5)
  have spec: "if found r then is_path g u 1 r else \<not> reachable g u 1" by (auto split: if_splits)
  moreover have "reachable g u 1" if "is_path g u 1 r" using that by (auto simp: is_path_def reachable_def)
  ultimately show ?thesis unfolding reachable_arcs[OF assms(1,2), symmetric] by (auto split: if_splits)
qed


theorem bfs_shortest_path_witness:
  "\<exists>g0 g r. built g0 pair_ops g \<and> traverse_bfs g 1 2 = Some r \<and> found r \<and> is_path g 1 2 r \<and> length (path_edges r) \<le> 1"
proof -
  obtain g0 g where g: "built g0 pair_ops g" "node_range g = {1..2}" "graph_walk g 1 [(1, 2)] 2" using pair_built .
  have one: "1 \<in> node_range g" and "2 \<in> node_range g" using g(2) by simp_all
  note spec = bfs_shortest_path[OF g(1) this]
  have "\<not> max_path_length \<le> length [(1 :: int, 2 :: int)]" by (simp add: c_consts)
  then obtain r where r: "traverse_bfs g 1 2 = Some r" using spec g(3) by blast
  have "reachable g 1 2" using g(3) by (auto simp only: reachable_def)
  then have "(arc g)\<^sup>*\<^sup>* 1 2" using reachable_arcs[OF g(1) one] by blast
  then have f: "found r" using spec r by (metis (full_types))
  then have "\<forall>ps. graph_walk g 1 ps 2 \<longrightarrow> length (path_edges r) \<le> length ps" "is_path g 1 2 r" using spec r by simp_all
  from this(1)[rule_format, OF g(3)] this(2) show ?thesis using g(1) r f by auto
qed

theorem all_paths_agree_with_bfs_witness:
  "\<exists>g0 g r r'. built g0 pair_ops g \<and> traverse_bfs g 1 2 = Some r \<and>
     traverse_all_paths True True True g 1 2 1 = Some r' \<and> found r' = (found r \<and> length (path_edges r) \<le> 1)"
proof -
  obtain g0 g where g: "built g0 pair_ops g" "node_range g = {1..2}" "graph_walk g 1 [(1, 2)] 2" using pair_built .
  have r: "1 \<in> node_range g" "2 \<in> node_range g" using g(2) by simp_all
  have "traverse_bfs g 1 2 \<noteq> None"
  proof
    assume "traverse_bfs g 1 2 = None"
    then have "\<forall>ps. graph_walk g 1 ps 2 \<longrightarrow> max_path_length \<le> length ps" using bfs_outcome[OF g(1) r] by simp
    from this[rule_format, OF g(3)] show False by (simp add: c_consts)
  qed
  then obtain x where x: "traverse_bfs g 1 2 = Some x" by blast
  have "\<not> int max_path_length \<le> 1" by (simp add: c_consts)
  with all_paths_agree_with_bfs[OF g(1) r, of 1] x obtain y where
    "traverse_all_paths True True True g 1 2 1 = Some y" "found y = (found x \<and> int (length (path_edges x)) \<le> 1)"
    by (auto split: option.splits)
  then have "traverse_all_paths True True True g 1 2 1 = Some y" "found y = (found x \<and> length (path_edges x) \<le> 1)" by simp_all
  with g(1) x show ?thesis by blast
qed

theorem dfs_finds_path_witness:
  "\<exists>g0 g. built g0 pair_ops g \<and>
    (case traverse_dfs g 1 2 of
      None \<Rightarrow> max_nodes < degree_sum g \<or> max_path_length < length (nodes g)
    | Some r \<Rightarrow> if found r then is_path g 1 2 r else \<not> (arc g)\<^sup>*\<^sup>* 1 2)"
proof -
  obtain g0 g where g: "built g0 pair_ops g" "node_range g = {1..2}" "\<forall>i. length (adjacency g i) \<le> 1" using pair_built .
  have r: "1 \<in> node_range g" "2 \<in> node_range g" using g(2) by simp_all
  have "\<forall>i. length (adjacency g i) \<le> max_nodes" using g(3) by (auto simp: c_consts intro: order_trans)
  from dfs_finds_path[OF g(1) r this] g(1) show ?thesis by blast
qed

theorem bfs_visitor_distances_witness:
  "\<exists>g0 g calls. built g0 pair_ops g \<and> traverse_bfs_visitor True g 1 = Some calls \<and>
     fst ` set calls = {v. (arc g)\<^sup>*\<^sup>* 1 v}"
proof -
  obtain g0 g where g: "built g0 pair_ops g" "node_range g = {1..2}" using pair_built .
  then have "1 \<in> node_range g" by simp
  with bfs_visitor_distances[OF g(1) this] g(1) show ?thesis by blast
qed

theorem bfs_unknown_target_witness:
  "\<exists>g0 g r. built g0 pair_ops g \<and> 9 \<notin> node_range g \<and> traverse_bfs g 1 9 = Some r \<and> found r \<and> is_path g 1 1 r"
proof -
  obtain g0 g where g: "built g0 pair_ops g" "node_range g = {1..2}" using pair_built .
  have one: "1 \<in> node_range g" and nine: "9 \<notin> node_range g" using g(2) by simp_all
  have walk: "graph_walk g 1 [] 1" by simp
  have "node_index g 9 = node_index g 1"
    using node_index_unknown[OF built_ok(1)[OF g(1)] nine] node_index_range(1)[OF built_ok(1)[OF g(1)] one] by simp
  note spec = bfs_spec[OF built_ok(1)[OF g(1)] built_get[OF g(1) one] one _ this]
  have "traverse_bfs g 1 9 \<noteq> None"
  proof
    assume "traverse_bfs g 1 9 = None"
    then have "\<forall>ps. graph_walk g 1 ps 1 \<longrightarrow> max_path_length \<le> length ps" using spec by simp
    from this[rule_format, OF walk] show False by (simp add: c_consts)
  qed
  then obtain r where r: "traverse_bfs g 1 9 = Some r" by blast
  from bfs_unknown_target[OF g(1) one _ nine r] g(1) nine r show ?thesis by auto
qed

end
