(* ===== verification/Union_Find.thy ===== *)
theory Union_Find
  imports Prelude
begin

text \<open>
  The union-find forest of \<open>graph_algo.c\<close>, with path halving and union by rank, and the
  proof that it is an equivalence relation in which a union joins two classes. The functions
  \<open>kruskal_uf_find\<close> and \<open>kruskal_uf_union\<close> are the same under other names.
\<close>

section \<open>Union-find\<close>

text \<open>The arrays are functions of the index; a loop that does not end is \<open>None\<close>.\<close>

partial_function (option) uf_find :: "(nat \<Rightarrow> nat) \<Rightarrow> nat \<Rightarrow> ((nat \<Rightarrow> nat) \<times> nat) option" where
  "uf_find parent x =
     (if parent x = x then Some (parent, x)
      else let parent = parent(x := parent (parent x)) in uf_find parent (parent x))"

definition uf_union :: "(nat \<Rightarrow> nat) \<Rightarrow> (nat \<Rightarrow> nat) \<Rightarrow> nat \<Rightarrow> nat \<Rightarrow> ((nat \<Rightarrow> nat) \<times> (nat \<Rightarrow> nat)) option" where
  "uf_union parent rank x y =
     (case uf_find parent x of None \<Rightarrow> None
      | Some (parent, rx) \<Rightarrow>
        (case uf_find parent y of None \<Rightarrow> None
         | Some (parent, ry) \<Rightarrow>
             Some (if rx = ry then (parent, rank)
                   else if rank rx < rank ry then (parent(rx := ry), rank)
                   else if rank ry < rank rx then (parent(ry := rx), rank)
                   else (parent(ry := rx), rank(rx := rank rx + 1)))))"

section \<open>The forest\<close>

inductive root_of :: "(nat \<Rightarrow> nat) \<Rightarrow> nat \<Rightarrow> nat \<Rightarrow> bool" for p where
  root_here: "p r = r \<Longrightarrow> root_of p r r"
| root_up: "p x \<noteq> x \<Longrightarrow> root_of p (p x) r \<Longrightarrow> root_of p x r"

inductive_cases root_ofE: "root_of p x r"

lemma root_of_root: "root_of p x r \<Longrightarrow> p r = r"
  by (induction rule: root_of.induct) auto

lemma root_of_unique: "root_of p x r \<Longrightarrow> root_of p x s \<Longrightarrow> r = s"
proof (induction arbitrary: s rule: root_of.induct)
  case (root_here r)
  from root_here.prems root_here.hyps show ?case by (cases rule: root_of.cases) simp_all
next
  case (root_up x r)
  from root_up.prems root_up.hyps(1) have "root_of p (p x) s" by (cases rule: root_of.cases) simp_all
  then show ?case by (rule root_up.IH)
qed

text \<open>Along the parents the rank grows, inside the used part of the arrays.\<close>

definition forest :: "nat \<Rightarrow> (nat \<Rightarrow> nat) \<Rightarrow> (nat \<Rightarrow> nat) \<Rightarrow> bool" where
  "forest n p rank \<longleftrightarrow> (\<forall>x. x < n \<longrightarrow> p x < n \<and> (p x \<noteq> x \<longrightarrow> rank x < rank (p x)))"

lemma rank_induct:
  fixes rank :: "nat \<Rightarrow> nat"
  assumes "x < n" and step: "\<And>x. x < n \<Longrightarrow> (\<And>y. y < n \<Longrightarrow> rank x < rank y \<Longrightarrow> P y) \<Longrightarrow> P x"
  shows "P x"
proof -
  define M where "M = Max (rank ` {..<n})"
  have M: "rank y \<le> M" if "y < n" for y using that by (simp add: M_def)
  show ?thesis
    using assms(1)
  proof (induction "M - rank x" arbitrary: x rule: less_induct)
    case less
    show ?case
    proof (rule step[OF less.prems])
      fix y assume "y < n" "rank x < rank y"
      then show "P y" using less.hyps[of y] M[of y] by simp
    qed
  qed
qed

lemma forest_root:
  assumes "forest n p rank" "x < n"
  obtains r where "root_of p x r" "r < n" "rank x \<le> rank r"
proof -
  have "\<exists>r. root_of p x r \<and> r < n \<and> rank x \<le> rank r"
    using assms(2)
  proof (induction x rule: rank_induct[where n = n and rank = rank, consumes 1, case_names up])
    case (up x)
    show ?case
    proof (cases "p x = x")
      case True
      then show ?thesis using up.hyps by (blast intro: root_here)
    next
      case False
      then have "p x < n" "rank x < rank (p x)" using assms(1) up.hyps by (auto simp: forest_def)
      with up.IH obtain r where "root_of p (p x) r" "r < n" "rank (p x) \<le> rank r" by blast
      with False \<open>rank x < rank (p x)\<close> show ?thesis by (meson root_up le_trans less_imp_le)
    qed
  qed
  then show thesis using that by blast
qed

text \<open>Halving a path keeps every root.\<close>

lemma halve_root:
  assumes "forest n p rank" "x < n" "y < n"
  shows "root_of (p(x := p (p x))) y r \<longleftrightarrow> root_of p y r"
proof -
  let ?p = "p(x := p (p x))"
  have keep: "root_of ?p y r" if "root_of p y r" for y r
    using that
  proof (induction rule: root_of.induct)
    case (root_here r)
    then show ?case by (intro root_of.root_here) auto
  next
    case (root_up y r)
    show ?case
    proof (cases "y = x")
      case False
      then show ?thesis using root_up by (auto intro: root_of.root_up)
    next
      case True
      have step: "root_of ?p (p x) r" using root_up.IH unfolding True .
      have "p (p x) \<noteq> x"
      proof
        assume "p (p x) = x"
        have px: "p x < n" "rank x < rank (p x)" using assms(1,2) root_up.hyps True by (auto simp: forest_def)
        with assms(1) have "p (p x) = p x \<or> rank (p x) < rank (p (p x))" by (auto simp: forest_def)
        with \<open>p (p x) = x\<close> px(2) root_up.hyps True show False by auto
      qed
      have "root_of ?p (p (p x)) r"
      proof (cases "p (p x) = p x")
        case False
        from step show ?thesis
        proof (cases rule: root_of.cases)
          case root_here
          have "p x \<noteq> x" using root_up.hyps(1) unfolding True .
          then have "?p (p x) = p (p x)" by simp
          with root_here False show ?thesis by (simp only:)
        next
          case root_up': root_up
          have "p x \<noteq> x" using root_up.hyps(1) unfolding True .
          then have "?p (p x) = p (p x)" by simp
          with root_up'(2) show ?thesis by (simp only:)
        qed
      qed (use step in simp)
      then have "root_of ?p (?p x) r" by simp
      moreover have "?p x \<noteq> x" using \<open>p (p x) \<noteq> x\<close> by simp
      ultimately have "root_of ?p x r" by (rule root_of.root_up[rotated])
      then show ?thesis unfolding True .
    qed
  qed
  show ?thesis
  proof
    assume r: "root_of ?p y r"
    obtain s where "root_of p y s" using forest_root[OF assms(1,3)] .
    with keep[OF this] root_of_unique[OF r] show "root_of p y r" by blast
  qed (rule keep)
qed

lemma halve_forest:
  assumes "forest n p rank" "x < n"
  shows "forest n (p(x := p (p x))) rank"
proof -
  have "p (p x) < n" "p (p x) \<noteq> x \<longrightarrow> rank x < rank (p (p x))"
    using assms unfolding forest_def by (metis, metis less_trans)
  then show ?thesis using assms by (auto simp: forest_def)
qed

lemma uf_find_spec:
  assumes "forest n p rank" "x < n"
  shows "\<exists>p' r. uf_find p x = Some (p', r) \<and> forest n p' rank \<and> root_of p x r \<and> r < n \<and>
    (\<forall>y s. y < n \<longrightarrow> root_of p' y s = root_of p y s)"
  using assms(2,1)
proof (induction x arbitrary: p rule: rank_induct[where n = n and rank = rank, consumes 1, case_names up])
  case (up x)
  note forest = up.prems
  show ?case
  proof (cases "p x = x")
    case True
    then show ?thesis using up.hyps up.prems by (subst uf_find.simps) (auto intro: root_here)
  next
    case False
    let ?p = "p(x := p (p x))"
    have f: "forest n ?p rank" by (rule halve_forest[OF forest \<open>x < n\<close>])
    have above: "p (p x) < n" "rank x < rank (p (p x))"
      using forest \<open>x < n\<close> False unfolding forest_def by (metis, metis less_trans)
    obtain p' r where r: "uf_find ?p (p (p x)) = Some (p', r)" "forest n p' rank" "root_of ?p (p (p x)) r" "r < n"
      "\<forall>y s. y < n \<longrightarrow> root_of p' y s = root_of ?p y s"
      using up.IH[OF above f] by blast
    have keep: "root_of ?p y s = root_of p y s" if "y < n" for y s
      by (rule halve_root[OF forest \<open>x < n\<close> that])
    have "root_of ?p x r"
    proof (rule root_up)
      show "?p x \<noteq> x" using above(2) by auto
      show "root_of ?p (?p x) r" using r(3) by simp
    qed
    then have "root_of p x r" using keep \<open>x < n\<close> by blast
    moreover have "uf_find p x = uf_find ?p (p (p x))" using False by (subst uf_find.simps) (simp add: Let_def)
    ultimately show ?thesis using r keep by auto
  qed
qed

definition same_root :: "(nat \<Rightarrow> nat) \<Rightarrow> nat \<Rightarrow> nat \<Rightarrow> bool" where
  "same_root p x y \<longleftrightarrow> (\<exists>r. root_of p x r \<and> root_of p y r)"

lemma link_root:
  assumes "forest n p rank" "p rx = rx" "p ry = ry" "rx \<noteq> ry" "y < n"
  shows "root_of (p(rx := ry)) y s \<longleftrightarrow> (\<exists>r. root_of p y r \<and> s = (if r = rx then ry else r))"
proof -
  let ?p = "p(rx := ry)"
  have go: "root_of ?p y (if r = rx then ry else r)" if "root_of p y r" for y r
    using that
  proof (induction rule: root_of.induct)
    case (root_here r)
    have ry: "root_of ?p ry ry" using assms(3,4) by (intro root_of.root_here) auto
    show ?case
    proof (cases "r = rx")
      case True
      have "root_of ?p rx ry" by (rule root_of.root_up) (use ry assms(4) in auto)
      then show ?thesis by (simp only: True refl if_True)
    next
      case False
      then have "root_of ?p r r" using root_here by (intro root_of.root_here) auto
      then show ?thesis by (simp only: False if_False)
    qed
  next
    case (root_up x r)
    then have "x \<noteq> rx" using assms(2) by auto
    then show ?case using root_up by (auto intro: root_of.root_up)
  qed
  obtain r where r: "root_of p y r" using forest_root[OF assms(1,5)] .
  show ?thesis
  proof
    assume "root_of ?p y s"
    with root_of_unique[OF go[OF r]] have "s = (if r = rx then ry else r)" by blast
    with r show "\<exists>r. root_of p y r \<and> s = (if r = rx then ry else r)" by blast
  qed (use go in blast)
qed

lemma same_root_root: "root_of p x r \<Longrightarrow> same_root p a r \<longleftrightarrow> same_root p a x"
proof -
  assume r: "root_of p x r"
  then have "root_of p r r" using root_of_root root_here by metis
  with r show ?thesis unfolding same_root_def using root_of_unique by blast
qed

lemma link_same:
  assumes "forest n p rank" "p rx = rx" "p ry = ry" "rx \<noteq> ry" "a < n" "b < n"
  shows "same_root (p(rx := ry)) a b \<longleftrightarrow>
    same_root p a b \<or> same_root p a rx \<and> same_root p b ry \<or> same_root p a ry \<and> same_root p b rx"
proof -
  obtain ra where ra: "root_of p a ra" using forest_root[OF assms(1,5)] .
  obtain rb where rb: "root_of p b rb" using forest_root[OF assms(1,6)] .
  have here: "root_of p rx rx" "root_of p ry ry" using assms(2,3) by (auto intro: root_here)
  have is_root: "root_of p z s \<longleftrightarrow> s = r" if "root_of p z r" for z r s
    using root_of_unique that by blast
  have "same_root (p(rx := ry)) a b \<longleftrightarrow> (if ra = rx then ry else ra) = (if rb = rx then ry else rb)"
    unfolding same_root_def link_root[OF assms(1-4,5)] link_root[OF assms(1-4,6)] is_root[OF ra] is_root[OF rb] by auto
  moreover have "same_root p a b \<longleftrightarrow> ra = rb" "same_root p a rx \<longleftrightarrow> ra = rx" "same_root p b ry \<longleftrightarrow> rb = ry"
    "same_root p a ry \<longleftrightarrow> ra = ry" "same_root p b rx \<longleftrightarrow> rb = rx"
    unfolding same_root_def is_root[OF ra] is_root[OF rb] is_root[OF here(1)] is_root[OF here(2)] by auto
  ultimately show ?thesis using assms(4) by auto
qed

lemma uf_union_spec:
  assumes "forest n p rank" "x < n" "y < n"
  shows "\<exists>p' rank'. uf_union p rank x y = Some (p', rank') \<and> forest n p' rank' \<and>
    (\<forall>a b. a < n \<longrightarrow> b < n \<longrightarrow> same_root p' a b \<longleftrightarrow>
       same_root p a b \<or> same_root p a x \<and> same_root p b y \<or> same_root p a y \<and> same_root p b x)"
proof -
  obtain p1 rx where 1: "uf_find p x = Some (p1, rx)" "forest n p1 rank" "root_of p x rx" "rx < n"
    "\<And>y s. y < n \<Longrightarrow> root_of p1 y s = root_of p y s" using uf_find_spec[OF assms(1,2)] by blast
  obtain p2 ry where 2: "uf_find p1 y = Some (p2, ry)" "forest n p2 rank" "root_of p1 y ry" "ry < n"
    "\<And>y s. y < n \<Longrightarrow> root_of p2 y s = root_of p1 y s" using uf_find_spec[OF 1(2) assms(3)] by blast
  have same: "root_of p2 a s = root_of p a s" if "a < n" for a s using 1(5) 2(5) that by simp
  have ry: "root_of p y ry" using 2(3) 1(5)[OF assms(3)] by simp
  have fixed: "p2 rx = rx" "p2 ry = ry"
    using root_of_root[of p2] same 1(3) ry assms by blast+
  show ?thesis
  proof (cases "rx = ry")
    case True
    have "same_root p2 a b \<longleftrightarrow> same_root p a b \<or> same_root p a x \<and> same_root p b y \<or> same_root p a y \<and> same_root p b x"
      if "a < n" "b < n" for a b
      using same that 1(3) ry True root_of_unique unfolding same_root_def by metis
    then show ?thesis using 1(1) 2(1,2) True by (auto simp: uf_union_def)
  next
    case False
    have old: "same_root p2 a b = same_root p a b" if "a < n" "b < n" for a b
      using same that by (simp add: same_root_def)
    have ends: "same_root p a rx = same_root p a x" "same_root p a ry = same_root p a y" if "a < n" for a
      using same_root_root[of p x rx a] same_root_root[of p y ry a] 1(3) ry by simp_all
    have merge: "same_root q a b \<longleftrightarrow> same_root p a b \<or> same_root p a x \<and> same_root p b y \<or> same_root p a y \<and> same_root p b x"
      if "a < n" "b < n" and q: "q = p2(rx := ry) \<or> q = p2(ry := rx)" for a b q
      using q link_same[OF 2(2) fixed False that(1,2)] link_same[OF 2(2) fixed(2,1) False[symmetric] that(1,2)]
        old that(1,2) ends 1(4) 2(4) by auto
    have f: "forest n (p2(rx := ry)) rank" if "rank rx < rank ry"
      using 2(2,4) that by (auto simp: forest_def)
    have f': "forest n (p2(ry := rx)) (rank(rx := rank rx + k))" if "rank ry < rank rx + k" for k
      unfolding forest_def
    proof (intro allI impI conjI)
      fix z assume z: "z < n"
      show "(p2(ry := rx)) z < n" using z 2(2) 1(4) by (simp add: forest_def)
      assume "(p2(ry := rx)) z \<noteq> z"
      show "(rank(rx := rank rx + k)) z < (rank(rx := rank rx + k)) ((p2(ry := rx)) z)"
      proof (cases "z = ry")
        case True
        then show ?thesis using that False by simp
      next
        case other: False
        then have "p2 z \<noteq> z" using \<open>(p2(ry := rx)) z \<noteq> z\<close> by simp
        then have "rank z < rank (p2 z)" "z \<noteq> rx" using 2(2) z fixed by (auto simp: forest_def)
        then show ?thesis using other by auto
      qed
    qed
    have result: ?thesis
      if "uf_union p rank x y = Some (q, rk)" "forest n q rk" "q = p2(rx := ry) \<or> q = p2(ry := rx)" for q rk
      using that(1,2) merge[OF _ _ that(3)] by blast
    show ?thesis
    proof (cases rule: linorder_cases[of "rank rx" "rank ry"])
      case less
      then show ?thesis using 1(1) 2(1) False f by (intro result[OF _ _ disjI1[OF refl]]) (simp_all add: uf_union_def)
    next
      case equal
      then show ?thesis using 1(1) 2(1) False f'[of 1] by (intro result[OF _ _ disjI2[OF refl]]) (simp_all add: uf_union_def)
    next
      case greater
      then show ?thesis using 1(1) 2(1) False f'[of 0] by (intro result[OF _ _ disjI2[OF refl]]) (simp_all add: uf_union_def)
    qed
  qed
qed
end
