(* ===== verification/Graph_Components.thy ===== *)
theory Graph_Components
  imports Property_Graph Union_Find
begin

text \<open>
  Connected components of \<open>graph_algo.c\<close>: the ends of every edge are joined in a union-find
  forest, the roots are numbered, and two nodes get the same number exactly when edges
  connect them, in either direction.
\<close>

section \<open>Components\<close>

text \<open>The search for an edge end runs through the whole array and keeps the last match.\<close>

definition last_index :: "graph \<Rightarrow> int \<Rightarrow> nat option" where
  "last_index g i = fold (\<lambda>j acc. if node_id (nodes g ! j) = i then Some j else acc) [0..<length (nodes g)] None"

fun join_edges :: "graph \<Rightarrow> edge list \<Rightarrow> (nat \<Rightarrow> nat) \<Rightarrow> (nat \<Rightarrow> nat) \<Rightarrow> ((nat \<Rightarrow> nat) \<times> (nat \<Rightarrow> nat)) option" where
  "join_edges g [] parent rank = Some (parent, rank)"
| "join_edges g (e # es) parent rank =
     (case (last_index g (from_node e), last_index g (to_node e)) of
        (Some i, Some j) \<Rightarrow>
          (case uf_union parent rank i j of None \<Rightarrow> None | Some (parent, rank) \<Rightarrow> join_edges g es parent rank)
      | _ \<Rightarrow> join_edges g es parent rank)"

text \<open>The roots met so far are the component numbers: a new root gets the next one.\<close>

fun number_roots :: "nat list \<Rightarrow> (nat \<Rightarrow> nat) \<Rightarrow> nat list \<Rightarrow> nat list \<Rightarrow> (nat list \<times> nat list) option" where
  "number_roots [] parent comp_root comps = Some (comp_root, comps)"
| "number_roots (i # js) parent comp_root comps =
     (case uf_find parent i of None \<Rightarrow> None
      | Some (parent, r) \<Rightarrow>
          (case find_idx (\<lambda>c. c = r) comp_root of
             Some c \<Rightarrow> number_roots js parent comp_root (comps @ [c])
           | None \<Rightarrow> number_roots js parent (comp_root @ [r]) (comps @ [length comp_root])))"

text \<open>The result is the component of each node, and the number of components.\<close>

definition connected_components :: "bool \<Rightarrow> bool \<Rightarrow> graph \<Rightarrow> (nat list \<times> nat) option option" where
  "connected_components m1 m2 g =
     (if \<not> (m1 \<and> m2) then Some None
      else case join_edges g (edges g) (\<lambda>i. i) (\<lambda>_. 0) of
        None \<Rightarrow> None
      | Some (parent, rank) \<Rightarrow>
          (case number_roots [0..<length (nodes g)] parent [] [] of
             None \<Rightarrow> None
           | Some (comp_root, comps) \<Rightarrow> Some (Some (comps, length comp_root))))"

section \<open>Joining the edges\<close>

lemma last_index_eq:
  assumes ok: "graph_ok g"
  shows "last_index g i = (if i \<in> node_range g then Some (nat i - 1) else None)"
proof -
  have ids: "node_id (nodes g ! j) = int j + 1" if "j < length (nodes g)" for j
    using ok that by (simp add: graph_ok_def nodes_ok_def)
  have "fold (\<lambda>j acc. if node_id (nodes g ! j) = i then Some j else acc) [0..<m] None =
      (if 1 \<le> i \<and> i \<le> int m then Some (nat i - 1) else None)" if "m \<le> length (nodes g)" for m
    using that
  proof (induction m)
    case (Suc m)
    then show ?case using ids[of m] by auto
  qed simp
  from this[of "length (nodes g)"] show ?thesis by (simp add: last_index_def node_range_def)
qed

definition edge_pairs :: "graph \<Rightarrow> edge list \<Rightarrow> (nat \<times> nat) set" where
  "edge_pairs g es = {(i, j). \<exists>e \<in> set es. last_index g (from_node e) = Some i \<and> last_index g (to_node e) = Some j}"

lemma same_root_props:
  assumes "forest n p rank" "a < n"
  shows "same_root p a a" "same_root p a b \<Longrightarrow> same_root p b a"
    "same_root p a b \<Longrightarrow> same_root p b c \<Longrightarrow> same_root p a c"
proof -
  obtain r where "root_of p a r" using forest_root[OF assms] .
  then show "same_root p a a" by (auto simp: same_root_def)
  show "same_root p a b \<Longrightarrow> same_root p b a" by (auto simp: same_root_def)
  show "same_root p a b \<Longrightarrow> same_root p b c \<Longrightarrow> same_root p a c"
    using root_of_unique unfolding same_root_def by metis
qed

lemma join_edges_spec:
  assumes "forest n p rank" "edge_pairs g es \<subseteq> {..<n} \<times> {..<n}"
    and T: "trans T" "sym T" "edge_pairs g es \<subseteq> T" "\<And>a b. a < n \<Longrightarrow> b < n \<Longrightarrow> same_root p a b \<Longrightarrow> (a, b) \<in> T"
  shows "\<exists>p' rank'. join_edges g es p rank = Some (p', rank') \<and> forest n p' rank' \<and>
    (\<forall>a b. a < n \<longrightarrow> b < n \<longrightarrow> same_root p' a b \<longrightarrow> (a, b) \<in> T) \<and>
    (\<forall>a b. a < n \<longrightarrow> b < n \<longrightarrow> same_root p a b \<longrightarrow> same_root p' a b) \<and>
    (\<forall>(a, b) \<in> edge_pairs g es. same_root p' a b)"
  using assms(1,2,5,6)
proof (induction es arbitrary: p rank)
  case Nil
  then show ?case by (auto simp: edge_pairs_def)
next
  case (Cons e es)
  have sub: "edge_pairs g es \<subseteq> edge_pairs g (e # es)" by (auto simp: edge_pairs_def)
  show ?case
  proof (cases "\<exists>i j. last_index g (from_node e) = Some i \<and> last_index g (to_node e) = Some j")
    case False
    then have "edge_pairs g (e # es) = edge_pairs g es" by (auto simp: edge_pairs_def)
    moreover have "join_edges g (e # es) p rank = join_edges g es p rank"
      using False by (auto split: option.splits)
    ultimately show ?thesis using Cons by simp
  next
    case True
    then obtain i j where ij: "last_index g (from_node e) = Some i" "last_index g (to_node e) = Some j" by blast
    have pairs: "edge_pairs g (e # es) = insert (i, j) (edge_pairs g es)" using ij by (auto simp: edge_pairs_def)
    have less: "i < n" "j < n" using Cons.prems(2) pairs by auto
    obtain p1 rank1 where u: "uf_union p rank i j = Some (p1, rank1)" "forest n p1 rank1"
      and same: "\<And>a b. a < n \<Longrightarrow> b < n \<Longrightarrow> same_root p1 a b \<longleftrightarrow>
         same_root p a b \<or> same_root p a i \<and> same_root p b j \<or> same_root p a j \<and> same_root p b i"
      using uf_union_spec[OF Cons.prems(1) less] by blast
    have ijT: "(i, j) \<in> T" "(j, i) \<in> T" using Cons.prems(3) pairs T(2) by (auto dest: symD)
    have inT: "(a, b) \<in> T" if "a < n" "b < n" "same_root p1 a b" for a b
    proof -
      have t: "(a, x) \<in> T" "(x, a) \<in> T" if "a < n" "x < n" "same_root p a x" for a x
        using Cons.prems(4)[OF that] T(2) by (auto dest: symD)
      show ?thesis using that same less t ijT T(1) by (meson transE)
    qed
    have "join_edges g (e # es) p rank = join_edges g es p1 rank1" using ij u(1) by simp
    moreover obtain p' rank' where r: "join_edges g es p1 rank1 = Some (p', rank')" "forest n p' rank'"
      "\<forall>a b. a < n \<longrightarrow> b < n \<longrightarrow> same_root p' a b \<longrightarrow> (a, b) \<in> T"
      "\<forall>a b. a < n \<longrightarrow> b < n \<longrightarrow> same_root p1 a b \<longrightarrow> same_root p' a b"
      "\<forall>(a, b) \<in> edge_pairs g es. same_root p' a b"
      using Cons.IH[OF u(2) _ _ inT] Cons.prems(2,3) sub by blast
    moreover have "same_root p' i j"
      using r(4) same less same_root_props(1)[OF Cons.prems(1)] by blast
    moreover have "\<forall>a b. a < n \<longrightarrow> b < n \<longrightarrow> same_root p a b \<longrightarrow> same_root p' a b" using r(4) same by blast
    ultimately show ?thesis unfolding pairs by simp
  qed
qed

lemma join_all_edges:
  assumes ok: "graph_ok g"
  shows "\<exists>p rank. join_edges g (edges g) (\<lambda>i. i) (\<lambda>_. 0) = Some (p, rank) \<and> forest (length (nodes g)) p rank \<and>
    (\<forall>a b. a < length (nodes g) \<longrightarrow> b < length (nodes g) \<longrightarrow>
       same_root p a b \<longleftrightarrow> (a, b) \<in> (edge_pairs g (edges g) \<union> (edge_pairs g (edges g))\<inverse>)\<^sup>*)"
proof -
  let ?n = "length (nodes g)" and ?R = "edge_pairs g (edges g)"
  let ?T = "(?R \<union> ?R\<inverse>)\<^sup>*"
  have id: "same_root (\<lambda>i. i) a b \<longleftrightarrow> a = b" for a b :: nat
  proof
    have "root_of (\<lambda>i. i) c r \<Longrightarrow> c = r" for c r :: nat by (induction rule: root_of.induct) auto
    then show "same_root (\<lambda>i. i) a b \<Longrightarrow> a = b" by (metis same_root_def)
    show "a = b \<Longrightarrow> same_root (\<lambda>i. i) a b" by (auto simp: same_root_def intro: root_here)
  qed
  have sub: "?R \<subseteq> {..<?n} \<times> {..<?n}"
    by (auto simp: edge_pairs_def last_index_eq[OF ok] node_range_def split: if_splits)
  have symm: "sym ?T" by (rule sym_rtrancl) (auto simp: sym_def)
  obtain p rank where p: "join_edges g (edges g) (\<lambda>i. i) (\<lambda>_. 0) = Some (p, rank)" "forest ?n p rank"
    "\<forall>a b. a < ?n \<longrightarrow> b < ?n \<longrightarrow> same_root p a b \<longrightarrow> (a, b) \<in> ?T" "\<forall>(a, b) \<in> ?R. same_root p a b"
  proof -
    have "forest ?n (\<lambda>i. i) (\<lambda>_. 0)" by (simp add: forest_def)
    moreover have "?R \<subseteq> ?T" by auto
    moreover have "(a, b) \<in> ?T" if "same_root (\<lambda>i. i) a b" for a b using that by (simp add: id)
    ultimately show thesis
      using join_edges_spec[of ?n "\<lambda>i. i" "\<lambda>_. 0" g "edges g" ?T, OF _ sub trans_rtrancl symm] that by blast
  qed
  have "same_root p a b" if "(a, b) \<in> ?T" "a < ?n" for a b
    using that
  proof (induction rule: rtrancl_induct)
    case base
    then show ?case by (rule same_root_props(1)[OF p(2)])
  next
    case (step y z)
    have yz: "y < ?n" "z < ?n" using step.hyps(2) sub by auto
    have "same_root p y z"
      using step.hyps(2) p(4) same_root_props(2)[OF p(2)] yz by auto
    then show ?case using step same_root_props(3)[OF p(2)] by blast
  qed
  then show ?thesis using p by blast
qed

section \<open>Numbering\<close>

lemma number_roots_spec:
  assumes "forest n p rank" "set js \<subseteq> {..<n}" "distinct cr"
  shows "\<exists>cr' cs. number_roots js p cr c0 = Some (cr @ cr', c0 @ cs) \<and> length cs = length js \<and> distinct (cr @ cr') \<and>
    (\<forall>k < length js. cs ! k < length (cr @ cr') \<and> root_of p (js ! k) ((cr @ cr') ! (cs ! k))) \<and>
    {length cr..<length (cr @ cr')} \<subseteq> set cs"
  using assms
proof (induction js arbitrary: p cr c0)
  case Nil
  then show ?case by simp
next
  case (Cons j js)
  obtain p1 r where f: "uf_find p j = Some (p1, r)" "forest n p1 rank" "root_of p j r" "r < n"
    "\<And>y s. y < n \<Longrightarrow> root_of p1 y s = root_of p y s"
    using uf_find_spec[OF Cons.prems(1), of j] Cons.prems(2) by auto
  have sub: "set js \<subseteq> {..<n}" using Cons.prems(2) by simp
  define cr1 c where "cr1 = (if r \<in> set cr then cr else cr @ [r])"
    and "c = (case find_idx (\<lambda>c. c = r) cr of Some c \<Rightarrow> c | None \<Rightarrow> length cr)"
  have c: "c < length cr1" "cr1 ! c = r" "distinct cr1"
    using Cons.prems(3) find_idx_SomeD[of "\<lambda>c. c = r" cr]
    by (auto simp: cr1_def c_def find_idx_None_iff split: option.splits)
  have eq: "number_roots (j # js) p cr c0 = number_roots js p1 cr1 (c0 @ [c])"
    using f(1) find_idx_SomeD[of "\<lambda>c. c = r" cr]
    by (auto simp: cr1_def c_def find_idx_None_iff split: option.splits)
  obtain cr' cs where IH: "number_roots js p1 cr1 (c0 @ [c]) = Some (cr1 @ cr', (c0 @ [c]) @ cs)" "length cs = length js"
    "distinct (cr1 @ cr')"
    "\<forall>k < length js. cs ! k < length (cr1 @ cr') \<and> root_of p1 (js ! k) ((cr1 @ cr') ! (cs ! k))"
    "{length cr1..<length (cr1 @ cr')} \<subseteq> set cs"
    using Cons.IH[OF f(2) sub c(3)] by blast
  define cr'' where "cr'' = (if r \<in> set cr then cr' else r # cr')"
  have cr: "cr1 @ cr' = cr @ cr''" by (simp add: cr1_def cr''_def)
  have "(c # cs) ! k < length (cr @ cr'') \<and> root_of p ((j # js) ! k) ((cr @ cr'') ! ((c # cs) ! k))"
    if k: "k < length (j # js)" for k
  proof (cases k)
    case 0
    have "(cr1 @ cr') ! c = r" using c by (simp add: nth_append)
    then show ?thesis using 0 c(1) f(3) unfolding cr[symmetric] by simp
  next
    case (Suc m)
    then have m: "m < length js" using k by simp
    then have "js ! m < n" using sub nth_mem by blast
    then have "root_of p1 (js ! m) s = root_of p (js ! m) s" for s by (rule f(5))
    with IH(4)[rule_format, OF m] show ?thesis unfolding cr[symmetric] Suc by simp
  qed
  moreover have "{length cr..<length (cr @ cr'')} \<subseteq> set (c # cs)"
  proof
    fix x assume x: "x \<in> {length cr..<length (cr @ cr'')}"
    show "x \<in> set (c # cs)"
    proof (cases "x < length cr1")
      case True
      then have "r \<notin> set cr" "x = length cr" using x by (auto simp: cr1_def split: if_splits)
      moreover from this have "find_idx (\<lambda>c. c = r) cr = None" by (auto simp: find_idx_None_iff)
      ultimately have "c = x" by (simp add: c_def)
      then show ?thesis by simp
    next
      case False
      then have "x \<in> {length cr1..<length (cr1 @ cr')}" using x unfolding cr by simp
      then show ?thesis using IH(5) by auto
    qed
  qed
  ultimately show ?case using IH(1-3) unfolding eq cr by (intro exI[of _ cr''] exI[of _ "c # cs"]) simp
qed

section \<open>Properties\<close>

text \<open>Two nodes with an edge between them, in whichever direction.\<close>

definition joined :: "graph \<Rightarrow> int \<Rightarrow> int \<Rightarrow> bool" where
  "joined g u v \<longleftrightarrow> (\<exists>e \<in> set (edges g). {from_node e, to_node e} = {u, v})"

lemma edge_pairs_joined:
  assumes ok: "graph_ok g"
  shows "(i, j) \<in> edge_pairs g (edges g) \<union> (edge_pairs g (edges g))\<inverse> \<longleftrightarrow> joined g (int i + 1) (int j + 1)"
proof -
  have ends: "from_node e \<in> node_range g" "to_node e \<in> node_range g" if "e \<in> set (edges g)" for e
    using ok that by (auto simp: graph_ok_def edges_ok_def)
  have num: "last_index g w = Some k \<longleftrightarrow> w = int k + 1" if "w \<in> node_range g" for w k
    using that by (auto simp: last_index_eq[OF ok] node_range_def)
  have "(i, j) \<in> edge_pairs g (edges g) \<longleftrightarrow> (\<exists>e \<in> set (edges g). from_node e = int i + 1 \<and> to_node e = int j + 1)" for i j
    unfolding edge_pairs_def using ends num by auto
  then show ?thesis unfolding joined_def by (auto simp: doubleton_eq_iff)
qed

lemma joined_closure:
  assumes ok: "graph_ok g"
  shows "(i, j) \<in> (edge_pairs g (edges g) \<union> (edge_pairs g (edges g))\<inverse>)\<^sup>* \<longleftrightarrow> (joined g)\<^sup>*\<^sup>* (int i + 1) (int j + 1)"
proof
  assume "(i, j) \<in> (edge_pairs g (edges g) \<union> (edge_pairs g (edges g))\<inverse>)\<^sup>*"
  then show "(joined g)\<^sup>*\<^sup>* (int i + 1) (int j + 1)"
  proof (induction rule: rtrancl_induct)
    case (step y z)
    have "joined g (int y + 1) (int z + 1)" using step.hyps(2) unfolding edge_pairs_joined[OF ok] .
    with step.IH show ?case by (rule rtranclp.rtrancl_into_rtrancl)
  qed simp
next
  have "(joined g)\<^sup>*\<^sup>* u v \<Longrightarrow> u = int i + 1 \<Longrightarrow>
      \<exists>k. v = int k + 1 \<and> (i, k) \<in> (edge_pairs g (edges g) \<union> (edge_pairs g (edges g))\<inverse>)\<^sup>*" for u v
  proof (induction rule: rtranclp_induct)
    case (step y z)
    then obtain k where k: "y = int k + 1" "(i, k) \<in> (edge_pairs g (edges g) \<union> (edge_pairs g (edges g))\<inverse>)\<^sup>*" by blast
    have "z \<in> node_range g"
      using step.hyps(2) ok by (auto simp: joined_def doubleton_eq_iff graph_ok_def edges_ok_def)
    then have z: "z = int (nat z - 1) + 1" by (auto simp: node_range_def)
    then have "(k, nat z - 1) \<in> edge_pairs g (edges g) \<union> (edge_pairs g (edges g))\<inverse>"
      using step.hyps(2) k(1) edge_pairs_joined[OF ok] by metis
    with k(2) z show ?case by (meson rtrancl.rtrancl_into_rtrancl)
  qed auto
  from this[of "int i + 1" "int j + 1"]
  show "(joined g)\<^sup>*\<^sup>* (int i + 1) (int j + 1) \<Longrightarrow> (i, j) \<in> (edge_pairs g (edges g) \<union> (edge_pairs g (edges g))\<inverse>)\<^sup>*"
    by auto
qed

text \<open>
  C13. In every state the operations can reach, the components are computed without a loop
  that runs forever: every node gets a number, the numbers in use are 0 up to the number
  of components, and two nodes have the same number exactly when edges connect them,
  followed in either direction.
\<close>

theorem connected_components_exact:
  assumes "reach graph_init graph_step g"
  shows "\<exists>comps count. connected_components True True g = Some (Some (comps, count)) \<and>
    length comps = length (nodes g) \<and> set comps = {..<count} \<and>
    (\<forall>u \<in> node_range g. \<forall>v \<in> node_range g.
       comps ! (nat u - 1) = comps ! (nat v - 1) \<longleftrightarrow> (joined g)\<^sup>*\<^sup>* u v)"
proof -
  have ok: "graph_ok g" using assms by (rule graphs.reach_inv)
  let ?n = "length (nodes g)"
  obtain p rank where j: "join_edges g (edges g) (\<lambda>i. i) (\<lambda>_. 0) = Some (p, rank)" "forest ?n p rank"
    and same: "\<forall>a b. a < ?n \<longrightarrow> b < ?n \<longrightarrow>
       same_root p a b \<longleftrightarrow> (a, b) \<in> (edge_pairs g (edges g) \<union> (edge_pairs g (edges g))\<inverse>)\<^sup>*"
    using join_all_edges[OF ok] by blast
  obtain cr cs where r: "number_roots [0..<?n] p [] [] = Some (cr, cs)" "length cs = ?n" "distinct cr"
    "\<forall>k < ?n. cs ! k < length cr \<and> root_of p k (cr ! (cs ! k))" "{..<length cr} \<subseteq> set cs"
    using number_roots_spec[OF j(2), of "[0..<?n]" "[]" "[]"] by (auto simp: lessThan_atLeast0)
  have "set cs = {..<length cr}" using r(2,4,5) by (auto simp: set_conv_nth)
  moreover have "cs ! (nat u - 1) = cs ! (nat v - 1) \<longleftrightarrow> (joined g)\<^sup>*\<^sup>* u v"
    if "u \<in> node_range g" "v \<in> node_range g" for u v
  proof -
    define a b where "a = nat u - 1" and "b = nat v - 1"
    have ab: "a < ?n" "b < ?n" "u = int a + 1" "v = int b + 1" using that by (auto simp: a_def b_def node_range_def)
    have "cs ! a = cs ! b \<longleftrightarrow> cr ! (cs ! a) = cr ! (cs ! b)"
      using r(3,4) ab by (simp add: nth_eq_iff_index_eq)
    also have "\<dots> \<longleftrightarrow> same_root p a b"
      using r(4) ab root_of_unique unfolding same_root_def by metis
    also have "\<dots> \<longleftrightarrow> (joined g)\<^sup>*\<^sup>* u v" using same ab joined_closure[OF ok] by simp
    finally show ?thesis by (simp add: a_def b_def)
  qed
  ultimately show ?thesis using j(1) r(1,2) by (simp add: connected_components_def)
qed

theorem connected_components_exact_witness:
  "\<exists>g. reach graph_init graph_step g \<and>
    (\<exists>comps count. connected_components True True g = Some (Some (comps, count)) \<and> set comps = {..<count})"
proof -
  have "reach graph_init graph_step
      \<lparr>nodes = [], node_hash = (\<lambda>_. []), edges = [], adjacency = (\<lambda>_. []),
       adjacency_capacity = max_nodes, next_node_id = 1, next_edge_id = 1\<rparr>"
    by (rule reach_init[where init = graph_init, OF empty_graph_init])
  from connected_components_exact[OF reach_step[OF reach_step[OF this], of "Create_Node True True" "Create_Node True True"]]
    reach_step[OF reach_step[OF this], of "Create_Node True True" "Create_Node True True"]
  show ?thesis by blast
qed
end
