(* ===== verification/Graph_Order.thy ===== *)
theory Graph_Order
  imports Graph_Walks
begin

text \<open>
  Degrees, topological sorting and cycle detection of \<open>graph_algo.c\<close>. The sort repeatedly takes
  a node without unprocessed predecessors; the cycle detection is a depth first search with
  three colours. Both are proved exact: the sort for graphs of directed edges, the detection
  for the arcs of any graph, where an undirected edge is a cycle of two arcs.
\<close>

section \<open>Degrees\<close>

definition node_out_degree :: "graph \<Rightarrow> int \<Rightarrow> nat" where
  "node_out_degree g i = length (adjacency g (node_index g i))"

definition node_in_degree :: "graph \<Rightarrow> int \<Rightarrow> nat" where
  "node_in_degree g i = length (filter (\<lambda>e. to_node e = i) (edges g))"

section \<open>Topological sort\<close>

record topo_state =
  in_deg :: "nat \<Rightarrow> int"
  topo_queue :: "nat list"
  topo_front :: nat

definition topo_visit :: "graph \<Rightarrow> adj_node \<Rightarrow> topo_state \<Rightarrow> topo_state" where
  "topo_visit g a st =
     (let ni = node_index g (neighbor a);
          st = st\<lparr>in_deg := (in_deg st)(ni := in_deg st ni - 1)\<rparr>
      in if in_deg st ni = 0 then st\<lparr>topo_queue := topo_queue st @ [ni]\<rparr> else st)"

definition pending :: "graph \<Rightarrow> (nat \<Rightarrow> int) \<Rightarrow> nat" where
  "pending g d = card {j. j < max 1 (length (nodes g)) \<and> 0 < d j}"

lemma topo_visit_measure:
  "length (topo_queue (topo_visit g a st)) + pending g (in_deg (topo_visit g a st)) \<le> length (topo_queue st) + pending g (in_deg st)"
  "topo_front (topo_visit g a st) = topo_front st"
proof -
  let ?ni = "node_index g (neighbor a)"
  let ?d = "(in_deg st)(?ni := in_deg st ?ni - 1)"
  let ?S = "\<lambda>d. {j. j < max 1 (length (nodes g)) \<and> 0 < (d j :: int)}"
  have sub: "?S ?d \<subseteq> ?S (in_deg st)" by (auto split: if_splits)
  then have le: "pending g ?d \<le> pending g (in_deg st)" unfolding pending_def by (intro card_mono) auto
  moreover have "pending g ?d < pending g (in_deg st)" if "in_deg st ?ni - 1 = 0"
  proof -
    have "?ni \<in> ?S (in_deg st)" "?ni \<notin> ?S ?d" using that node_index_less[of g "neighbor a"] by auto
    with sub show ?thesis unfolding pending_def by (intro psubset_card_mono) auto
  qed
  ultimately show "length (topo_queue (topo_visit g a st)) + pending g (in_deg (topo_visit g a st))
      \<le> length (topo_queue st) + pending g (in_deg st)"
    by (auto simp: topo_visit_def Let_def)
  show "topo_front (topo_visit g a st) = topo_front st" by (simp add: topo_visit_def Let_def)
qed

lemma topo_fold_measure:
  "length (topo_queue (fold (topo_visit g) as st)) + pending g (in_deg (fold (topo_visit g) as st))
     \<le> length (topo_queue st) + pending g (in_deg st) \<and> topo_front (fold (topo_visit g) as st) = topo_front st"
proof (induction as arbitrary: st)
  case (Cons a as)
  show ?case using Cons.IH[of "topo_visit g a st"] topo_visit_measure[of g a st] by simp
qed simp

function topo_loop :: "graph \<Rightarrow> topo_state \<Rightarrow> int list \<Rightarrow> int list" where
  "topo_loop g st out =
     (if \<not> topo_front st < length (topo_queue st) then out
      else
        let ci = topo_queue st ! topo_front st;
            st = st\<lparr>topo_front := Suc (topo_front st)\<rparr>
        in topo_loop g (fold (topo_visit g) (adjacency g ci) st) (out @ [node_id (nodes g ! ci)]))"
  by auto
termination
proof (relation "measure (\<lambda>(g, st, _). length (topo_queue st) + pending g (in_deg st) - topo_front st)")
  fix g and st st' :: topo_state and out :: "int list" and ci
  assume less: "\<not> \<not> topo_front st < length (topo_queue st)"
    and st': "st' = st\<lparr>topo_front := Suc (topo_front st)\<rparr>"
  show "((g, fold (topo_visit g) (adjacency g ci) st', out @ [node_id (nodes g ! ci)]), g, st, out)
      \<in> measure (\<lambda>(g, st, _). length (topo_queue st) + pending g (in_deg st) - topo_front st)"
    using topo_fold_measure[of g "adjacency g ci" st', THEN conjunct1]
      topo_fold_measure[of g "adjacency g ci" st', THEN conjunct2] less st' by simp
qed simp

declare topo_loop.simps [simp del]

definition topo_start :: "graph \<Rightarrow> topo_state" where
  "topo_start g =
     (let d = (\<lambda>i. if i < length (nodes g) then int (node_in_degree g (node_id (nodes g ! i))) else 0)
      in \<lparr>in_deg = d, topo_queue = filter (\<lambda>i. d i = 0) [0..<length (nodes g)], topo_front = 0\<rparr>)"

text \<open>The list sorted, whose length is the count, and whether it has all nodes.\<close>

definition topological_sort :: "bool \<Rightarrow> graph \<Rightarrow> bool \<times> int list option" where
  "topological_sort m g =
     (if \<not> m then (False, None)
      else let out = topo_loop g (topo_start g) [] in (length out = length (nodes g), Some out))"

section \<open>Cycle detection\<close>

text \<open>Following the parents from a node back to an open one; the array has 256 cells.\<close>

fun cycle_back :: "nat \<Rightarrow> graph \<Rightarrow> (nat \<Rightarrow> int) \<Rightarrow> nat \<Rightarrow> nat \<Rightarrow> int list" where
  "cycle_back k g parent ni cur =
     (if cur = ni \<or> k = 0 then []
      else node_id (nodes g ! cur) # cycle_back (k - 1) g parent ni (nat (parent cur)))"

declare cycle_back.simps [simp del]

type_synonym cycle_result = "(int list option \<times> (nat \<Rightarrow> nat) \<times> (nat \<Rightarrow> int)) option"

text \<open>
  The first argument bounds the depth of the recursion, which opens a new node each time, so
  that one more than the number of nodes is enough.
\<close>

fun dfs_cycle :: "nat \<Rightarrow> graph \<Rightarrow> nat \<Rightarrow> (nat \<Rightarrow> nat) \<Rightarrow> (nat \<Rightarrow> int) \<Rightarrow> cycle_result"
  and cycle_adj :: "nat \<Rightarrow> graph \<Rightarrow> nat \<Rightarrow> adj_node list \<Rightarrow> (nat \<Rightarrow> nat) \<Rightarrow> (nat \<Rightarrow> int) \<Rightarrow> cycle_result" where
  "dfs_cycle 0 g idx state parent = None"
| "dfs_cycle (Suc k) g idx state parent =
     (case cycle_adj k g idx (adjacency g idx) (state(idx := 1)) parent of
        None \<Rightarrow> None
      | Some (Some cycle, state, parent) \<Rightarrow> Some (Some cycle, state, parent)
      | Some (None, state, parent) \<Rightarrow> Some (None, state(idx := 2), parent))"
| "cycle_adj k g idx [] state parent = Some (None, state, parent)"
| "cycle_adj k g idx (a # as) state parent =
     (let ni = node_index g (neighbor a) in
      if state ni = 1 then
        let back = cycle_back max_path_length g parent ni idx in
        if max_path_length \<le> length back then None
        else Some (Some (back @ [node_id (nodes g ! ni)]), state, parent)
      else if state ni = 0 then
        case dfs_cycle k g ni state (parent(ni := int idx)) of
          None \<Rightarrow> None
        | Some (Some cycle, state, parent) \<Rightarrow> Some (Some cycle, state, parent)
        | Some (None, state, parent) \<Rightarrow> cycle_adj k g idx as state parent
      else cycle_adj k g idx as state parent)"

fun cycle_loop :: "nat list \<Rightarrow> graph \<Rightarrow> (nat \<Rightarrow> nat) \<Rightarrow> (nat \<Rightarrow> int) \<Rightarrow> int list option option" where
  "cycle_loop [] g state parent = Some None"
| "cycle_loop (i # js) g state parent =
     (if state i = 0 then
        case dfs_cycle (Suc (length (nodes g))) g i state parent of
          None \<Rightarrow> None
        | Some (Some cycle, state, parent) \<Rightarrow> Some (Some cycle)
        | Some (None, state, parent) \<Rightarrow> cycle_loop js g state parent
      else cycle_loop js g state parent)"

text \<open>The cycle found, if any; \<open>None\<close> when it does not fit the array of the caller.\<close>

definition cycle_detection :: "bool \<Rightarrow> bool \<Rightarrow> graph \<Rightarrow> int list option option" where
  "cycle_detection m1 m2 g =
     (if \<not> (m1 \<and> m2) then Some None
      else cycle_loop [0..<length (nodes g)] g (\<lambda>_. 0) (\<lambda>_. -1))"

section \<open>Arcs between indices\<close>

definition index_arc :: "graph \<Rightarrow> nat \<Rightarrow> nat \<Rightarrow> bool" where
  "index_arc g i j \<longleftrightarrow> (\<exists>a \<in> set (adjacency g i). node_index g (neighbor a) = j)"

lemma index_arc_iff:
  assumes "built g0 ops g"
  shows "index_arc g i j \<longleftrightarrow> arc g (int i + 1) (int j + 1)"
proof -
  note ok = built_ok(1)[OF assms]
  have arcs: "neighbor ` set (adjacency g i) = {v. arc g (int i + 1) v}"
    using adjacency_arcs[OF built_ok[OF assms], of "int i + 1"] by (simp add: nat_add_distrib)
  show ?thesis
  proof
    assume "index_arc g i j"
    then obtain a where a: "a \<in> set (adjacency g i)" "node_index g (neighbor a) = j" by (auto simp: index_arc_def)
    then have "neighbor a = int j + 1" using node_index_range(3)[OF ok adjacency_range(2)[OF ok a(1)]] by simp
    then show "arc g (int i + 1) (int j + 1)" using arcs a(1) by (metis imageI mem_Collect_eq)
  next
    assume "arc g (int i + 1) (int j + 1)"
    then obtain a where a: "a \<in> set (adjacency g i)" "neighbor a = int j + 1" using arcs by force
    then have "node_index g (neighbor a) = j"
      using node_index_range(1)[OF ok] adjacency_range(2)[OF ok a(1)] by simp
    with a(1) show "index_arc g i j" by (auto simp: index_arc_def)
  qed
qed

lemma index_arc_less:
  assumes "graph_ok g" "index_arc g i j"
  shows "i < length (nodes g)" "j < length (nodes g)"
  using assms adjacency_range[OF assms(1)] node_index_range(2)[OF assms(1)] by (auto simp: index_arc_def)

lemma arc_index:
  assumes "built g0 ops g" "arc g u v"
  obtains i j where "u = int i + 1" "v = int j + 1" "i < length (nodes g)" "j < length (nodes g)" "index_arc g i j"
proof -
  have r: "u \<in> node_range g" "v \<in> node_range g" using arc_range[OF built_ok(1)[OF assms(1)] assms(2)] by auto
  have "u = int (nat u - 1) + 1" "v = int (nat v - 1) + 1" "nat u - 1 < length (nodes g)" "nat v - 1 < length (nodes g)"
    using r by (auto simp: node_range_def)
  then show thesis using that index_arc_iff[OF assms(1)] assms(2) by metis
qed

lemma arc_cycle_index:
  assumes "built g0 ops g"
  shows "(\<exists>v. (arc g)\<^sup>+\<^sup>+ v v) \<longleftrightarrow> (\<exists>i. (index_arc g)\<^sup>+\<^sup>+ i i)"
proof
  have "(arc g)\<^sup>+\<^sup>+ u v \<Longrightarrow> \<exists>i j. u = int i + 1 \<and> v = int j + 1 \<and> (index_arc g)\<^sup>+\<^sup>+ i j" for u v
  proof (induction rule: tranclp_induct)
    case (base y)
    then show ?case using arc_index[OF assms base] by (metis tranclp.r_into_trancl)
  next
    case (step y z)
    then obtain i j where ij: "u = int i + 1" "y = int j + 1" "(index_arc g)\<^sup>+\<^sup>+ i j" by blast
    obtain k where "z = int k + 1" "index_arc g j k" using arc_index[OF assms step.hyps(2)] ij(2) by (metis add_right_cancel of_nat_eq_iff)
    moreover from this ij(3) have "(index_arc g)\<^sup>+\<^sup>+ i k" by (meson tranclp.trancl_into_trancl)
    ultimately show ?case using ij(1) by blast
  qed
  then show "\<exists>v. (arc g)\<^sup>+\<^sup>+ v v \<Longrightarrow> \<exists>i. (index_arc g)\<^sup>+\<^sup>+ i i" by (metis add_right_cancel of_nat_eq_iff)
next
  have "(index_arc g)\<^sup>+\<^sup>+ i j \<Longrightarrow> (arc g)\<^sup>+\<^sup>+ (int i + 1) (int j + 1)" for i j
    by (induction rule: tranclp_induct) (auto simp: index_arc_iff[OF assms] intro: tranclp.intros)
  then show "\<exists>i. (index_arc g)\<^sup>+\<^sup>+ i i \<Longrightarrow> \<exists>v. (arc g)\<^sup>+\<^sup>+ v v" by blast
qed

section \<open>The cycle detection\<close>

definition white :: "graph \<Rightarrow> (nat \<Rightarrow> nat) \<Rightarrow> nat" where
  "white g state = card {i. i < length (nodes g) \<and> state i = 0}"

text \<open>
  The open nodes are a path, from the current one back along the parents; the closed ones
  have only closed successors, and a function that grows against the arcs.
\<close>

fun open_path :: "graph \<Rightarrow> (nat \<Rightarrow> int) \<Rightarrow> nat list \<Rightarrow> bool" where
  "open_path g parent [] \<longleftrightarrow> True"
| "open_path g parent [i] \<longleftrightarrow> True"
| "open_path g parent (i # j # is') \<longleftrightarrow> parent i = int j \<and> index_arc g j i \<and> open_path g parent (j # is')"

definition closed_ok :: "graph \<Rightarrow> (nat \<Rightarrow> nat) \<Rightarrow> (nat \<Rightarrow> nat) \<Rightarrow> bool" where
  "closed_ok g state f \<longleftrightarrow> (\<forall>i j. state i = 2 \<longrightarrow> index_arc g i j \<longrightarrow> state j = 2 \<and> f j < f i)"

definition colours :: "graph \<Rightarrow> (nat \<Rightarrow> nat) \<Rightarrow> nat list \<Rightarrow> bool" where
  "colours g state stk \<longleftrightarrow> distinct stk \<and> (\<forall>i. state i = 1 \<longleftrightarrow> i \<in> set stk) \<and> (\<forall>i. state i \<le> 2) \<and>
     set stk \<subseteq> {..<length (nodes g)} \<and> (\<exists>f. closed_ok g state f)"

definition is_cycle :: "graph \<Rightarrow> int list \<Rightarrow> bool" where
  "is_cycle g c \<longleftrightarrow> c \<noteq> [] \<and> distinct c \<and> arc g (hd c) (last c) \<and>
     (\<forall>m. Suc m < length c \<longrightarrow> arc g (c ! Suc m) (c ! m))"

lemma white_mark:
  assumes "state i = 0" "i < length (nodes g)" "v \<noteq> 0"
  shows "Suc (white g (state(i := v))) = white g state"
proof -
  have "{j. j < length (nodes g) \<and> state j = 0} = insert i {j. j < length (nodes g) \<and> (state(i := v)) j = 0}"
    using assms by (auto split: if_splits)
  then show ?thesis unfolding white_def using assms(3) by (simp add: card_insert_disjoint)
qed

lemma white_mono: "(\<And>i. state' i = 0 \<Longrightarrow> state i = 0) \<Longrightarrow> white g state' \<le> white g state"
  unfolding white_def by (intro card_mono) auto

lemma open_path_update: "i \<notin> set stk \<Longrightarrow> open_path g (parent(i := v)) stk = open_path g parent stk"
  by (induction g parent stk rule: open_path.induct) auto

lemma open_path_cong: "(\<And>i. i \<in> set stk \<Longrightarrow> p i = q i) \<Longrightarrow> open_path g p stk = open_path g q stk"
proof (induction stk)
  case (Cons i stk)
  then show ?case by (cases stk) auto
qed simp

lemma open_path_arcs: "open_path g parent stk \<Longrightarrow> Suc m < length stk \<Longrightarrow> index_arc g (stk ! Suc m) (stk ! m)"
proof (induction g parent stk arbitrary: m rule: open_path.induct)
  case (3 g parent i j js)
  then show ?case by (cases m) auto
qed auto

lemma cycle_back_eq:
  "open_path g parent (cur # stk) \<Longrightarrow> ni \<in> set (cur # stk) \<Longrightarrow>
   cycle_back k g parent ni cur = map (\<lambda>v. node_id (nodes g ! v)) (take k (takeWhile (\<lambda>v. v \<noteq> ni) (cur # stk)))"
proof (induction k arbitrary: cur stk)
  case 0
  then show ?case by (simp add: cycle_back.simps)
next
  case (Suc k)
  show ?case
  proof (cases "cur = ni")
    case True
    then show ?thesis by (simp add: cycle_back.simps)
  next
    case False
    then obtain j js where stk: "stk = j # js" using Suc.prems(2) by (cases stk) auto
    then have p: "parent cur = int j" "open_path g parent (j # js)" "ni \<in> set (j # js)"
      using Suc.prems False by auto
    show ?thesis using False Suc.IH[OF p(2,3)] p(1) by (subst cycle_back.simps) (simp add: stk)
  qed
qed

lemma cycle_found:
  assumes b: "built g0 ops g" and path: "open_path g parent (idx # stk)" and d: "distinct (idx # stk)"
    and less: "set (idx # stk) \<subseteq> {..<length (nodes g)}" and ni: "ni \<in> set (idx # stk)" "index_arc g idx ni"
  shows "if max_path_length \<le> length (cycle_back max_path_length g parent ni idx)
    then max_path_length < length (nodes g)
    else is_cycle g (cycle_back max_path_length g parent ni idx @ [node_id (nodes g ! ni)])"
proof -
  let ?tw = "takeWhile (\<lambda>v. v \<noteq> ni) (idx # stk)"
  let ?bk = "cycle_back max_path_length g parent ni idx"
  obtain rest where split: "idx # stk = ?tw @ ni # rest"
  proof -
    have "dropWhile (\<lambda>v. v \<noteq> ni) (idx # stk) \<noteq> []" using ni(1) by (simp only: dropWhile_eq_Nil_conv) blast
    moreover from this have "hd (dropWhile (\<lambda>v. v \<noteq> ni) (idx # stk)) = ni" using hd_dropWhile by blast
    ultimately show thesis using that by (metis list.collapse takeWhile_dropWhile_id)
  qed
  have ids: "node_id (nodes g ! v) = int v + 1" if "v \<in> set (idx # stk)" for v
    using built_ok(1)[OF b] less that by (auto simp: graph_ok_def nodes_ok_def)
  have bk: "?bk = map (\<lambda>v. node_id (nodes g ! v)) (take max_path_length ?tw)"
    by (rule cycle_back_eq[OF path ni(1)])
  show ?thesis
  proof (cases "max_path_length \<le> length ?bk")
    case True
    have "length (idx # stk) \<le> length (nodes g)"
      using card_mono[OF _ less] distinct_card[OF d] by simp
    moreover have "length (idx # stk) = length (?tw @ ni # rest)" using split by (rule arg_cong)
    then have "length ?tw < length (idx # stk)" unfolding length_append length_Cons[of ni] by linarith
    moreover have "max_path_length \<le> length ?tw" using True unfolding bk by simp
    ultimately have "max_path_length < length (nodes g)" by linarith
    then show ?thesis using True by simp
  next
    case False
    then have "take max_path_length ?tw = ?tw" unfolding bk by simp
    define xs where "xs = ?tw @ [ni]"
    have c: "?bk @ [node_id (nodes g ! ni)] = map (\<lambda>v. int v + 1) xs"
      unfolding bk xs_def \<open>take max_path_length ?tw = ?tw\<close> using ids ni(1) set_takeWhileD[of _ "\<lambda>v. v \<noteq> ni" "idx # stk"]
      by (auto simp del: takeWhile.simps)
    have pre: "idx # stk = xs @ rest" using split unfolding xs_def append_assoc append.simps .
    have nonempty: "xs \<noteq> []" by (simp add: xs_def)
    have "hd (idx # stk) = hd (xs @ rest)" using pre by (rule arg_cong)
    then have hl: "hd xs = idx" "last xs = ni" using nonempty by (simp_all add: xs_def hd_append split: if_splits)
    have dx: "distinct xs" using d unfolding pre by simp
    have arcs: "index_arc g (xs ! Suc m) (xs ! m)" if "Suc m < length xs" for m
    proof -
      have "index_arc g ((idx # stk) ! Suc m) ((idx # stk) ! m)"
        by (rule open_path_arcs[OF path]) (use that in \<open>simp add: pre del: list.size\<close>)
      then show ?thesis using that unfolding pre by (simp add: nth_append)
    qed
    have "is_cycle g (map (\<lambda>v. int v + 1) xs)"
      unfolding is_cycle_def
      using nonempty dx hl ni(2) arcs index_arc_iff[OF b]
      by (auto simp: distinct_map inj_on_def hd_map last_map)
    then show ?thesis using False unfolding c by simp
  qed
qed

definition cycle_spec :: "graph \<Rightarrow> ((nat \<Rightarrow> nat) \<Rightarrow> (nat \<Rightarrow> int) \<Rightarrow> bool) \<Rightarrow> cycle_result \<Rightarrow> bool" where
  "cycle_spec g P r \<longleftrightarrow> (case r of None \<Rightarrow> max_path_length < length (nodes g)
     | Some (Some c, _) \<Rightarrow> is_cycle g c | Some (None, state, parent) \<Rightarrow> P state parent)"

lemma cycle_spec_mono: "cycle_spec g P r \<Longrightarrow> (\<And>s p. P s p \<Longrightarrow> Q s p) \<Longrightarrow> cycle_spec g Q r"
  by (auto simp: cycle_spec_def split: option.splits prod.splits)

lemma open_colours:
  assumes "colours g state stk" "state i = 0" "i < length (nodes g)"
  shows "colours g (state(i := 1)) (i # stk)"
proof -
  obtain f where f: "closed_ok g state f" using assms(1) by (auto simp: colours_def)
  have "closed_ok g (state(i := 1)) f"
    unfolding closed_ok_def
  proof (intro allI impI)
    fix j k assume jk: "(state(i := 1)) j = 2" "index_arc g j k"
    then have "state j = 2" by (auto split: if_splits)
    then have "state k = 2 \<and> f k < f j" using f jk(2) unfolding closed_ok_def by blast
    moreover from this have "k \<noteq> i" using assms(2) by auto
    ultimately show "(state(i := 1)) k = 2 \<and> f k < f j" by simp
  qed
  moreover have "i \<notin> set stk" using assms(1,2) unfolding colours_def by (metis zero_neq_one)
  ultimately show ?thesis using assms(1,3) by (auto simp: colours_def)
qed

lemma close_colours:
  assumes "colours g state (i # stk)" "\<And>j. index_arc g i j \<Longrightarrow> state j = 2"
  shows "colours g (state(i := 2)) stk"
proof -
  obtain f where f: "closed_ok g state f" using assms(1) by (auto simp: colours_def)
  have i: "state i = 1" using assms(1) by (simp add: colours_def)
  define f' where "f' = f(i := Suc (\<Sum>j \<in> {j. index_arc g i j}. f j))"
  have fin: "finite {j. index_arc g i j}"
    by (rule finite_subset[of _ "(\<lambda>a. node_index g (neighbor a)) ` set (adjacency g i)"]) (auto simp: index_arc_def)
  have "closed_ok g (state(i := 2)) f'"
    unfolding closed_ok_def
  proof (intro allI impI)
    fix j k assume jk: "(state(i := 2)) j = 2" "index_arc g j k"
    show "(state(i := 2)) k = 2 \<and> f' k < f' j"
    proof (cases "j = i")
      case True
      then have k: "state k = 2" "k \<noteq> i" using assms(2) jk(2) i by auto
      have "f k \<le> (\<Sum>j \<in> {j. index_arc g i j}. f j)" using jk(2) True by (intro member_le_sum fin) auto
      then show ?thesis using k True by (simp add: f'_def)
    next
      case False
      then have "state k = 2 \<and> f k < f j" using f jk unfolding closed_ok_def by simp
      moreover from this have "k \<noteq> i" using i by auto
      ultimately show ?thesis using False by (simp add: f'_def)
    qed
  qed
  then show ?thesis using assms(1) by (auto simp: colours_def)
qed

lemma dfs_cycle_spec:
  fixes g :: graph
  assumes b: "built g0 ops g"
  shows "\<forall>stk. colours g state stk \<longrightarrow> state idx = 0 \<longrightarrow> idx < length (nodes g) \<longrightarrow> open_path g parent (idx # stk) \<longrightarrow>
      white g state \<le> k \<longrightarrow>
      cycle_spec g (\<lambda>s p. colours g s stk \<and> s idx = 2 \<and> (\<forall>i. state i = 2 \<longrightarrow> s i = 2) \<and>
        (\<forall>i \<in> set stk. p i = parent i) \<and> (\<forall>i. s i = 0 \<longrightarrow> state i = 0)) (dfs_cycle k g idx state parent)"
    and "\<forall>stk. colours g state (idx # stk) \<longrightarrow> open_path g parent (idx # stk) \<longrightarrow> white g state \<le> k \<longrightarrow>
      set as \<subseteq> set (adjacency g idx) \<longrightarrow>
      cycle_spec g (\<lambda>s p. colours g s (idx # stk) \<and> (\<forall>a \<in> set as. s (node_index g (neighbor a)) = 2) \<and>
        (\<forall>i. state i = 2 \<longrightarrow> s i = 2) \<and> (\<forall>i \<in> set (idx # stk). p i = parent i) \<and> (\<forall>i. s i = 0 \<longrightarrow> state i = 0))
        (cycle_adj k g idx as state parent)"
  using b
proof (induction k g idx state parent and k g idx as state parent rule: dfs_cycle_cycle_adj.induct)
  case (1 g idx state parent)
  show ?case
  proof (intro allI impI)
    fix stk assume "state idx = 0" "idx < length (nodes g)" "white g state \<le> 0"
    then have "idx \<in> {i. i < length (nodes g) \<and> state i = 0}" "{i. i < length (nodes g) \<and> state i = 0} = {}"
      by (auto simp: white_def)
    then show "cycle_spec g (\<lambda>s p. colours g s stk \<and> s idx = 2 \<and> (\<forall>i. state i = 2 \<longrightarrow> s i = 2) \<and>
        (\<forall>i \<in> set stk. p i = parent i) \<and> (\<forall>i. s i = 0 \<longrightarrow> state i = 0)) (dfs_cycle 0 g idx state parent)" by blast
  qed
next
  case (2 k g idx state parent)
  show ?case
  proof (intro allI impI)
    fix stk assume pre: "colours g state stk" "state idx = 0" "idx < length (nodes g)" "open_path g parent (idx # stk)"
      "white g state \<le> Suc k"
    have w: "white g (state(idx := 1)) \<le> k" using white_mark[of state idx g 1] pre by simp
    have IH: "cycle_spec g (\<lambda>s p. colours g s (idx # stk) \<and> (\<forall>a \<in> set (adjacency g idx). s (node_index g (neighbor a)) = 2) \<and>
        (\<forall>i. (state(idx := 1)) i = 2 \<longrightarrow> s i = 2) \<and> (\<forall>i \<in> set (idx # stk). p i = parent i) \<and>
        (\<forall>i. s i = 0 \<longrightarrow> (state(idx := 1)) i = 0))
        (cycle_adj k g idx (adjacency g idx) (state(idx := 1)) parent)"
      using "2.IH"[OF "2.prems"] open_colours[OF pre(1-3)] pre(4) w by blast
    show "cycle_spec g (\<lambda>s p. colours g s stk \<and> s idx = 2 \<and> (\<forall>i. state i = 2 \<longrightarrow> s i = 2) \<and>
        (\<forall>i \<in> set stk. p i = parent i) \<and> (\<forall>i. s i = 0 \<longrightarrow> state i = 0)) (dfs_cycle (Suc k) g idx state parent)"
    proof (cases "\<exists>s p. cycle_adj k g idx (adjacency g idx) (state(idx := 1)) parent = Some (None, s, p)")
      case True
      then obtain s p where r: "cycle_adj k g idx (adjacency g idx) (state(idx := 1)) parent = Some (None, s, p)" by blast
      with IH have s: "colours g s (idx # stk)" "\<forall>a \<in> set (adjacency g idx). s (node_index g (neighbor a)) = 2"
        "\<forall>i. (state(idx := 1)) i = 2 \<longrightarrow> s i = 2" "\<forall>i \<in> set (idx # stk). p i = parent i"
        "\<forall>i. s i = 0 \<longrightarrow> (state(idx := 1)) i = 0" by (simp_all add: cycle_spec_def)
      have "colours g (s(idx := 2)) stk" using s(2) by (intro close_colours[OF s(1)]) (auto simp: index_arc_def)
      moreover have "\<forall>i. state i = 2 \<longrightarrow> (s(idx := 2)) i = 2" using s(3) pre(2) by (metis fun_upd_apply)
      moreover have "\<forall>i. (s(idx := 2)) i = 0 \<longrightarrow> state i = 0" using s(5) by (metis fun_upd_apply zero_neq_numeral)
      moreover have "dfs_cycle (Suc k) g idx state parent = Some (None, s(idx := 2), p)"
        unfolding dfs_cycle.simps r by simp
      ultimately show ?thesis using s(4) by (simp add: cycle_spec_def)
    next
      case False
      then show ?thesis using IH by (auto simp: cycle_spec_def split: option.splits)
    qed
  qed
next
  case (3 k g idx state parent)
  then show ?case by (simp add: cycle_spec_def)
next
  case (4 k g idx a as state parent)
  note b = "4.prems"
  let ?ni = "node_index g (neighbor a)"
  show ?case
  proof (intro allI impI)
    fix stk assume pre: "colours g state (idx # stk)" "open_path g parent (idx # stk)" "white g state \<le> k"
      "set (a # as) \<subseteq> set (adjacency g idx)"
    let ?P = "\<lambda>as s p. colours g s (idx # stk) \<and> (\<forall>a \<in> set as. s (node_index g (neighbor a)) = 2) \<and>
        (\<forall>i. state i = 2 \<longrightarrow> s i = 2) \<and> (\<forall>i \<in> set (idx # stk). p i = parent i) \<and> (\<forall>i. s i = 0 \<longrightarrow> state i = 0)"
    have arc: "index_arc g idx ?ni" using pre(4) by (auto simp: index_arc_def)
    have ni: "?ni < length (nodes g)" using index_arc_less(2)[OF built_ok(1)[OF b] arc] .
    consider (grey) "state ?ni = 1" | (new) "state ?ni = 0" | (closed) "state ?ni = 2"
    proof -
      have "state ?ni \<le> 2" using pre(1) by (simp add: colours_def)
      then show thesis using that by linarith
    qed
    then show "cycle_spec g (?P (a # as)) (cycle_adj k g idx (a # as) state parent)"
    proof cases
      case grey
      have "?ni \<in> set (idx # stk)" "distinct (idx # stk)" "set (idx # stk) \<subseteq> {..<length (nodes g)}"
        using grey pre(1) unfolding colours_def by blast+
      from cycle_found[OF b pre(2) this(2,3,1) arc] show ?thesis
        using grey by (auto simp: cycle_spec_def Let_def split: if_splits)
    next
      case closed
      have "cycle_spec g (?P as) (cycle_adj k g idx as state parent)"
        using "4.IH"(3)[OF refl _ _ b] closed pre by simp
      moreover have "cycle_adj k g idx (a # as) state parent = cycle_adj k g idx as state parent" using closed by (simp add: Let_def)
      ultimately show ?thesis using closed by (auto simp: cycle_spec_def split: option.splits prod.splits)
    next
      case new
      let ?q = "parent(?ni := int idx)"
      let ?r = "dfs_cycle k g ?ni state ?q"
      have notin: "?ni \<notin> set (idx # stk)" using new pre(1) unfolding colours_def by (metis zero_neq_one)
      have path: "open_path g ?q (?ni # idx # stk)" using arc open_path_update[OF notin] pre(2) by simp
      have r: "cycle_spec g (\<lambda>s p. colours g s (idx # stk) \<and> s ?ni = 2 \<and> (\<forall>i. state i = 2 \<longrightarrow> s i = 2) \<and>
          (\<forall>i \<in> set (idx # stk). p i = ?q i) \<and> (\<forall>i. s i = 0 \<longrightarrow> state i = 0)) ?r"
      proof -
        have "state ?ni \<noteq> 1" using new by simp
        from "4.IH"(1)[OF refl this new b, THEN spec[of _ "idx # stk"]] pre(1,3) new ni path
        show ?thesis by blast
      qed
      show ?thesis
      proof (cases "\<exists>s p. ?r = Some (None, s, p)")
        case False
        then show ?thesis using r new by (auto simp: cycle_spec_def Let_def split: option.splits)
      next
        case True
        then obtain s p where sp: "?r = Some (None, s, p)" by blast
        with r have s: "colours g s (idx # stk)" "s ?ni = 2" "\<forall>i. state i = 2 \<longrightarrow> s i = 2"
          "\<forall>i \<in> set (idx # stk). p i = ?q i" "\<forall>i. s i = 0 \<longrightarrow> state i = 0" by (simp_all add: cycle_spec_def)
        have pp: "\<forall>i \<in> set (idx # stk). p i = parent i" using s(4) notin by auto
        have "open_path g p (idx # stk)" using open_path_cong[of "idx # stk" p parent g] pp pre(2) by blast
        moreover have "white g s \<le> k" using white_mono[of s state g] s(5) pre(3) by simp
        ultimately have R: "cycle_spec g (\<lambda>s' p'. colours g s' (idx # stk) \<and> (\<forall>a \<in> set as. s' (node_index g (neighbor a)) = 2) \<and>
            (\<forall>i. s i = 2 \<longrightarrow> s' i = 2) \<and> (\<forall>i \<in> set (idx # stk). p' i = p i) \<and> (\<forall>i. s' i = 0 \<longrightarrow> s i = 0)) (cycle_adj k g idx as s p)"
        proof -
          assume path': "open_path g p (idx # stk)" and w: "white g s \<le> k"
          have ne: "state ?ni \<noteq> 1" and sub: "set as \<subseteq> set (adjacency g idx)" using new pre(4) by simp_all
          note IH = "4.IH"(2)[OF refl ne new sp refl refl refl b]
          show ?thesis
            by (rule IH[THEN spec[of _ "stk"], THEN mp, THEN mp, THEN mp, THEN mp, OF s(1) path' w sub])
        qed
        have E: "cycle_adj k g idx (a # as) state parent = cycle_adj k g idx as s p" using new sp by (simp add: Let_def)
        have M: "?P (a # as) s' p'"
          if h: "colours g s' (idx # stk) \<and> (\<forall>a \<in> set as. s' (node_index g (neighbor a)) = 2) \<and>
            (\<forall>i. s i = 2 \<longrightarrow> s' i = 2) \<and> (\<forall>i \<in> set (idx # stk). p' i = p i) \<and> (\<forall>i. s' i = 0 \<longrightarrow> s i = 0)" for s' p'
        proof -
          have "\<forall>a \<in> set (a # as). s' (node_index g (neighbor a)) = 2" using h s(2) by simp
          moreover have "\<forall>i. state i = 2 \<longrightarrow> s' i = 2" "\<forall>i. s' i = 0 \<longrightarrow> state i = 0" using h s(3,5) by blast+
          moreover have "\<forall>i \<in> set (idx # stk). p' i = parent i" using h pp by (metis (no_types))
          ultimately show ?thesis using h by blast
        qed
        show ?thesis unfolding E by (rule cycle_spec_mono[OF R M])
      qed
    qed
  qed
qed


lemma cycle_loop_spec:
  assumes b: "built g0 ops g"
  shows "colours g state [] \<Longrightarrow> set js \<subseteq> {..<length (nodes g)} \<Longrightarrow>
    case cycle_loop js g state parent of None \<Rightarrow> max_path_length < length (nodes g)
    | Some (Some c) \<Rightarrow> is_cycle g c
    | Some None \<Rightarrow> \<exists>s. colours g s [] \<and> (\<forall>i \<in> set js. s i = 2) \<and> (\<forall>i. state i = 2 \<longrightarrow> s i = 2)"
proof (induction js arbitrary: state parent)
  case (Cons i js)
  show ?case
  proof (cases "state i = 0")
    case False
    have "state i \<le> 2" "state i \<noteq> 1" using Cons.prems(1) by (auto simp: colours_def)
    then have "state i = 2" using False by linarith
    moreover have "cycle_loop (i # js) g state parent = cycle_loop js g state parent" using False by simp
    ultimately show ?thesis using Cons.IH[OF Cons.prems(1), of parent] Cons.prems(2)
      by (auto split: option.splits)
  next
    case True
    let ?r = "dfs_cycle (Suc (length (nodes g))) g i state parent"
    have "white g state \<le> length (nodes g)"
      unfolding white_def using card_mono[of "{..<length (nodes g)}" "{i. i < length (nodes g) \<and> state i = 0}"] by auto
    then have r: "cycle_spec g (\<lambda>s p. colours g s [] \<and> s i = 2 \<and> (\<forall>i. state i = 2 \<longrightarrow> s i = 2) \<and>
        (\<forall>i \<in> set []. p i = parent i) \<and> (\<forall>i. s i = 0 \<longrightarrow> state i = 0)) ?r"
      using dfs_cycle_spec(1)[OF b, of state i parent "Suc (length (nodes g))", THEN spec[of _ "[]"]] True Cons.prems by simp
    show ?thesis
    proof (cases "\<exists>s p. ?r = Some (None, s, p)")
      case False
      then show ?thesis using r True by (auto simp: cycle_spec_def split: option.splits)
    next
      case c: True
      then obtain s p where sp: "?r = Some (None, s, p)" by blast
      with r have s: "colours g s []" "s i = 2" "\<forall>i. state i = 2 \<longrightarrow> s i = 2" by (simp_all add: cycle_spec_def)
      have "cycle_loop (i # js) g state parent = cycle_loop js g s p" using True sp by simp
      moreover have "\<exists>s'. colours g s' [] \<and> (\<forall>i \<in> set (i # js). s' i = 2) \<and> (\<forall>i. state i = 2 \<longrightarrow> s' i = 2)"
        if "\<exists>s'. colours g s' [] \<and> (\<forall>i \<in> set js. s' i = 2) \<and> (\<forall>i. s i = 2 \<longrightarrow> s' i = 2)"
        using that s(2,3) by auto
      ultimately show ?thesis using Cons.IH[OF s(1), of p] Cons.prems(2) by (auto split: option.splits)
    qed
  qed
qed auto

lemma falling_acyclic:
  assumes "\<And>i j. index_arc g i j \<Longrightarrow> (f j :: nat) < f i"
  shows "\<not> (index_arc g)\<^sup>+\<^sup>+ i i"
proof -
  have "(index_arc g)\<^sup>+\<^sup>+ i j \<Longrightarrow> f j < f i" for i j
    by (induction rule: tranclp_induct) (auto dest: assms)
  then show ?thesis by blast
qed

text \<open>
  C14. Cycle detection is exact: what it returns is a cycle, listed from its last node back to
  its first with an arc closing it, and when it returns nothing the graph has no cycle of
  arcs. It runs over the array of the caller only in graphs of more than 256 nodes.
\<close>

theorem cycle_detection_exact:
  assumes "built g0 ops g"
  shows "case cycle_detection True True g of
      None \<Rightarrow> max_path_length < length (nodes g)
    | Some None \<Rightarrow> \<not> (\<exists>v. (arc g)\<^sup>+\<^sup>+ v v)
    | Some (Some c) \<Rightarrow> is_cycle g c"
proof -
  have "colours g (\<lambda>_. 0) []" by (auto simp: colours_def closed_ok_def)
  note spec = cycle_loop_spec[OF assms this, of "[0..<length (nodes g)]" "\<lambda>_. -1"]
  have "\<not> (\<exists>v. (arc g)\<^sup>+\<^sup>+ v v)" if s: "colours g s []" "\<forall>i \<in> set [0..<length (nodes g)]. s i = 2" for s
  proof -
    obtain f where f: "closed_ok g s f" using s(1) by (auto simp: colours_def)
    have "f j < f i" if "index_arc g i j" for i j
      using f s(2) index_arc_less(1)[OF built_ok(1)[OF assms] that] that by (auto simp: closed_ok_def)
    then have "\<not> (index_arc g)\<^sup>+\<^sup>+ i i" for i by (rule falling_acyclic)
    then show ?thesis using arc_cycle_index[OF assms] by blast
  qed
  then show ?thesis using spec by (auto simp: cycle_detection_def lessThan_atLeast0 split: option.splits)
qed

theorem cycle_detection_exact_witness:
  "\<exists>g0 g. built g0 pair_ops g \<and> (case cycle_detection True True g of None \<Rightarrow> False | Some None \<Rightarrow> False | Some (Some c) \<Rightarrow> is_cycle g c)"
proof -
  obtain g0 g where g: "built g0 pair_ops g" "arc g 1 2" "arc g 2 1" "length (nodes g) = 2" using pair_built .
  then have "(arc g)\<^sup>+\<^sup>+ 1 1" by (meson tranclp.r_into_trancl tranclp.trancl_into_trancl)
  moreover have "\<not> max_path_length < length (nodes g)" using g(4) by (simp add: c_consts)
  ultimately have "case cycle_detection True True g of None \<Rightarrow> False | Some None \<Rightarrow> False | Some (Some c) \<Rightarrow> is_cycle g c"
    using cycle_detection_exact[OF g(1)] by (auto split: option.splits)
  with g(1) show ?thesis by blast
qed

section \<open>The topological sort\<close>

text \<open>How often a node is the neighbour in the adjacency lists, in terms of the edges.\<close>

definition adj_count :: "graph \<Rightarrow> int \<Rightarrow> nat" where
  "adj_count g v = (\<Sum>i < length (nodes g). count_list (map neighbor (adjacency g i)) v)"

definition end_count :: "edge list \<Rightarrow> int \<Rightarrow> nat" where
  "end_count es v = length (filter (\<lambda>e. to_node e = v) es) + length (filter (\<lambda>e. \<not> directed e \<and> from_node e = v) es)"

lemma filter_update_length:
  "k < length xs \<Longrightarrow> P y = P (xs ! k) \<Longrightarrow> length (filter P (xs[k := y])) = length (filter P xs)"
proof (induction xs arbitrary: k)
  case (Cons x xs)
  then show ?case by (cases k) auto
qed simp

lemma step_count:
  assumes ok: "graph_ok g" "graph_full g" and al: "allocs_ok op" and c: "\<forall>v. adj_count g v = end_count (edges g) v"
  shows "adj_count (graph_step op g) v = end_count (edges (graph_step op g)) v"
proof (cases op)
  case (Create_Node m1 m2)
  have "adjacency g (length (nodes g)) = []"
    using adjacency_range(1)[OF ok(1)] by (metis less_irrefl list.set_intros(1) neq_Nil_conv)
  then show ?thesis using c Create_Node by (simp add: create_node_eq[OF ok(1)] adj_count_def frames)
next
  case (Create_Edge m1 m2 u w t d)
  show ?thesis
  proof (cases "length (edges g) < max_edges \<and> u \<in> node_range g \<and> w \<in> node_range g")
    case False
    then have "graph_step op g = g"
      by (auto simp: Create_Edge graph_create_edge_def full_lookup[OF ok] split: option.splits)
    with c show ?thesis by simp
  next
    case True
    let ?i = "next_edge_id g" and ?fi = "nat u - 1" and ?ti = "nat w - 1" and ?n = "length (nodes g)"
    have less: "?fi < ?n" "?ti < ?n" using True by (auto simp: node_range_def)
    have m: "m1" "m2" using al Create_Edge by auto
    define adj1 where "adj1 = (adjacency g)(?fi := \<lparr>adj_edge = ?i, neighbor = w\<rparr> # adjacency g ?fi)"
    define adj2 where "adj2 = (if d then adj1 else adj1(?ti := \<lparr>adj_edge = ?i, neighbor = u\<rparr> # adj1 ?ti))"
    have g': "nodes (graph_step op g) = nodes g" "edges (graph_step op g) = edges g @ [new_edge ?i u w t d]"
      "adjacency (graph_step op g) = adj2"
      using True m by (auto simp: Create_Edge graph_create_edge_def full_lookup[OF ok] Let_def push_adj_def adj1_def adj2_def)
    have upd: "(\<Sum>j < ?n. count_list (map neighbor ((f(k := x # f k)) j)) v) =
        (\<Sum>j < ?n. count_list (map neighbor (f j)) v) + (if neighbor x = v then 1 else 0)" if "k < ?n" for f k x
    proof -
      have "(\<Sum>j < ?n. count_list (map neighbor ((f(k := x # f k)) j)) v) =
          count_list (map neighbor (x # f k)) v + (\<Sum>j \<in> {..<?n} - {k}. count_list (map neighbor ((f(k := x # f k)) j)) v)"
        using that by (subst sum.remove[of _ k]) auto
      also have "(\<Sum>j \<in> {..<?n} - {k}. count_list (map neighbor ((f(k := x # f k)) j)) v) =
          (\<Sum>j \<in> {..<?n} - {k}. count_list (map neighbor (f j)) v)" by (intro sum.cong) auto
      also have "count_list (map neighbor (x # f k)) v + \<dots> =
          (\<Sum>j < ?n. count_list (map neighbor (f j)) v) + (if neighbor x = v then 1 else 0)"
        using that by (subst (2) sum.remove[of _ k]) auto
      finally show ?thesis .
    qed
    have "(\<Sum>j < ?n. count_list (map neighbor (adj1 j)) v) = adj_count g v + (if w = v then 1 else 0)"
      using upd[OF less(1), of "adjacency g" "\<lparr>adj_edge = ?i, neighbor = w\<rparr>"]
      unfolding adj1_def adj_count_def by (simp only: adj_node.select_convs)
    moreover have "(\<Sum>j < ?n. count_list (map neighbor (adj2 j)) v) =
        (\<Sum>j < ?n. count_list (map neighbor (adj1 j)) v) + (if \<not> d \<and> u = v then 1 else 0)"
    proof (cases d)
      case False
      then show ?thesis using upd[OF less(2), of adj1 "\<lparr>adj_edge = ?i, neighbor = u\<rparr>"]
        unfolding adj2_def by (simp only: adj_node.select_convs if_False simp_thms)
    qed (simp add: adj2_def)
    moreover have "adj_count (graph_step op g) v = (\<Sum>j < ?n. count_list (map neighbor (adj2 j)) v)"
      unfolding adj_count_def g' ..
    ultimately have "adj_count (graph_step op g) v =
        adj_count g v + (if w = v then 1 else 0) + (if \<not> d \<and> u = v then 1 else 0)" by simp
    then show ?thesis using c unfolding g'(2) by (simp add: end_count_def new_edge_def)
  qed
next
  case (Set_Edge_Property i k val)
  then show ?thesis
    using c by (auto simp: at_edge_def adj_count_def end_count_def graph_get_edge_def filter_update_length edge_update_ok
        split: option.splits dest!: find_idx_SomeD(1))
qed (use c in \<open>auto simp: at_node_def adj_count_def end_count_def split: option.splits\<close>)

lemma built_count:
  assumes "built g0 ops g"
  shows "adj_count g v = end_count (edges g) v"
proof -
  have "graph_ok h \<Longrightarrow> graph_full h \<Longrightarrow> list_all allocs_ok os \<Longrightarrow> \<forall>v. adj_count h v = end_count (edges h) v \<Longrightarrow>
      \<forall>v. adj_count (fold graph_step os h) v = end_count (edges (fold graph_step os h)) v" for os h
    by (induction os arbitrary: h) (simp_all add: step_count graph_step_ok graph_step_full)
  moreover have "adj_count g0 v = end_count (edges g0) v" for v
    using assms by (auto simp: built_def graph_init_def graph_create_def adj_count_def end_count_def)
  ultimately show ?thesis using assms graph_create_ok graph_create_full unfolding built_def by blast
qed


definition pred_count :: "graph \<Rightarrow> nat set \<Rightarrow> nat \<Rightarrow> nat" where
  "pred_count g S j = (\<Sum>i \<in> S. count_list (map (\<lambda>a. node_index g (neighbor a)) (adjacency g i)) j)"

lemma count_index:
  assumes "graph_ok g"
  shows "count_list (map (\<lambda>a. node_index g (neighbor a)) (adjacency g i)) j = count_list (map neighbor (adjacency g i)) (int j + 1)"
proof -
  have "count_list (map (\<lambda>a. node_index g (neighbor a)) as) j = count_list (map neighbor as) (int j + 1)"
    if "\<forall>a \<in> set as. neighbor a \<in> node_range g" for as
    using that
  proof (induction as)
    case (Cons a as)
    then have "int (node_index g (neighbor a)) + 1 = neighbor a" using node_index_range(3)[OF assms] by simp
    then have "node_index g (neighbor a) = j \<longleftrightarrow> neighbor a = int j + 1" by linarith
    then show ?case using Cons by simp
  qed simp
  then show ?thesis using adjacency_range(2)[OF assms] by blast
qed

lemma pred_count_zero: "finite S \<Longrightarrow> pred_count g S j = 0 \<longleftrightarrow> (\<forall>i \<in> S. \<not> index_arc g i j)"
  by (auto simp: pred_count_def index_arc_def count_list_0_iff)

lemma topo_visits:
  assumes "\<forall>j < n. int (count_list (map (\<lambda>a. node_index g (neighbor a)) as) j) \<le> in_deg st j"
    and "\<forall>a \<in> set as. node_index g (neighbor a) < n"
    and "distinct (topo_queue st)" "set (topo_queue st) = {j. j < n \<and> in_deg st j = 0}"
  shows "let st' = fold (topo_visit g) as st in
    (\<forall>j. in_deg st' j = in_deg st j - int (count_list (map (\<lambda>a. node_index g (neighbor a)) as) j)) \<and>
    distinct (topo_queue st') \<and> set (topo_queue st') = {j. j < n \<and> in_deg st' j = 0} \<and>
    (\<exists>new. topo_queue st' = topo_queue st @ new) \<and> topo_front st' = topo_front st"
  using assms
proof (induction as arbitrary: st)
  case Nil
  then show ?case by simp
next
  case (Cons a as)
  let ?k = "node_index g (neighbor a)" and ?c = "\<lambda>j. int (count_list (map (\<lambda>a. node_index g (neighbor a)) as) j)"
  let ?st = "topo_visit g a st"
  have k: "?k < n" using Cons.prems(2) by simp
  then have pos: "1 + ?c ?k \<le> in_deg st ?k" using Cons.prems(1)[rule_format, of ?k] by simp
  then have notin: "?k \<notin> set (topo_queue st)" using Cons.prems(4) by auto
  have d: "in_deg ?st j = in_deg st j - (if j = ?k then 1 else 0)" for j by (simp add: topo_visit_def Let_def)
  have q: "topo_queue ?st = topo_queue st @ (if in_deg st ?k = 1 then [?k] else [])" "topo_front ?st = topo_front st"
    by (simp_all add: topo_visit_def Let_def)
  have 1: "\<forall>j < n. ?c j \<le> in_deg ?st j" using Cons.prems(1) by (auto simp: d split: if_splits)
  have 2: "distinct (topo_queue ?st)" using Cons.prems(3) notin by (simp add: q)
  have 3: "set (topo_queue ?st) = {j. j < n \<and> in_deg ?st j = 0}"
  proof (rule set_eqI)
    fix j
    show "j \<in> set (topo_queue ?st) \<longleftrightarrow> j \<in> {j. j < n \<and> in_deg ?st j = 0}"
    proof (cases "j = ?k")
      case True
      then show ?thesis using notin k by (simp add: q(1) d)
    next
      case False
      then have "in_deg ?st j = in_deg st j" by (simp add: d)
      moreover have "j \<in> set (topo_queue ?st) \<longleftrightarrow> j \<in> set (topo_queue st)" using False by (simp add: q(1))
      ultimately show ?thesis using Cons.prems(4) by (simp only: mem_Collect_eq)
    qed
  qed
  have as: "\<forall>a \<in> set as. node_index g (neighbor a) < n" using Cons.prems(2) by simp
  let ?F = "fold (topo_visit g) as ?st"
  note IH = Cons.IH[OF 1 as 2 3, unfolded Let_def]
  note A = IH[THEN conjunct1] and B1 = IH[THEN conjunct2, THEN conjunct1]
    and B2 = IH[THEN conjunct2, THEN conjunct2, THEN conjunct1]
    and D = IH[THEN conjunct2, THEN conjunct2, THEN conjunct2, THEN conjunct1]
    and B3 = IH[THEN conjunct2, THEN conjunct2, THEN conjunct2, THEN conjunct2]
  have "\<forall>j. in_deg ?F j = in_deg st j - int (count_list (map (\<lambda>a. node_index g (neighbor a)) (a # as)) j)"
    using A by (simp add: d)
  moreover have "\<exists>new. topo_queue ?F = topo_queue st @ new" using D unfolding q(1) append_assoc by blast
  moreover have "topo_front ?F = topo_front st" using B3 q(2) by (rule trans)
  ultimately show ?case unfolding Let_def fold_simps comp_apply by (intro conjI B1 B2)
qed

definition topo_ok :: "graph \<Rightarrow> topo_state \<Rightarrow> bool" where
  "topo_ok g st \<longleftrightarrow> (let q = topo_queue st; f = topo_front st; n = length (nodes g) in
     distinct q \<and> f \<le> length q \<and> set q = {j. j < n \<and> in_deg st j = 0} \<and>
     (\<forall>j < n. in_deg st j = int (pred_count g ({..<n} - set (take f q)) j)) \<and>
     (\<forall>p < length q. \<forall>i. index_arc g i (q ! p) \<longrightarrow> i \<in> set (take p q)))"

lemma topo_step:
  assumes ok: "graph_ok g" and inv: "topo_ok g st" and f: "topo_front st < length (topo_queue st)"
    and c: "c = topo_queue st ! topo_front st"
  shows "topo_ok g (fold (topo_visit g) (adjacency g c) (st\<lparr>topo_front := Suc (topo_front st)\<rparr>))"
    and "\<exists>new. topo_queue (fold (topo_visit g) (adjacency g c) (st\<lparr>topo_front := Suc (topo_front st)\<rparr>)) = topo_queue st @ new"
    and "topo_front (fold (topo_visit g) (adjacency g c) (st\<lparr>topo_front := Suc (topo_front st)\<rparr>)) = Suc (topo_front st)"
proof -
  let ?n = "length (nodes g)" and ?q = "topo_queue st" and ?f = "topo_front st"
  let ?st = "st\<lparr>topo_front := Suc ?f\<rparr>"
  let ?st' = "fold (topo_visit g) (adjacency g c) ?st" and ?S = "{..<?n} - set (take ?f ?q)"
  let ?c = "\<lambda>j. count_list (map (\<lambda>a. node_index g (neighbor a)) (adjacency g c)) j"
  have q: "distinct ?q" "set ?q = {j. j < ?n \<and> in_deg st j = 0}"
    and d: "\<And>j. j < ?n \<Longrightarrow> in_deg st j = int (pred_count g ?S j)"
    and prec: "\<And>p i. p < length ?q \<Longrightarrow> index_arc g i (?q ! p) \<Longrightarrow> i \<in> set (take p ?q)"
    using inv by (simp_all add: topo_ok_def Let_def)
  have cn: "c < ?n" using f q(2) nth_mem c by blast
  have ctake: "c \<notin> set (take ?f ?q)"
  proof
    assume "c \<in> set (take ?f ?q)"
    then obtain m where "m < ?f" "?q ! m = c" using f by (auto simp: in_set_conv_nth)
    then show False using q(1) f c by (simp add: nth_eq_iff_index_eq)
  qed
  have split: "pred_count g ?S j = ?c j + pred_count g (?S - {c}) j" for j
    unfolding pred_count_def by (rule sum.remove) (use cn ctake in auto)
  have "\<forall>a \<in> set (adjacency g c). node_index g (neighbor a) < ?n"
    using adjacency_range(2)[OF ok] node_index_range(2)[OF ok] by blast
  then have "let st' = ?st' in
      (\<forall>j. in_deg st' j = in_deg ?st j - int (?c j)) \<and> distinct (topo_queue st') \<and>
      set (topo_queue st') = {j. j < ?n \<and> in_deg st' j = 0} \<and>
      (\<exists>new. topo_queue st' = topo_queue ?st @ new) \<and> topo_front st' = topo_front ?st"
    by (intro topo_visits) (use q d split in auto)
  then obtain new where d': "\<And>j. in_deg ?st' j = in_deg st j - int (?c j)" and q': "distinct (topo_queue ?st')"
    "set (topo_queue ?st') = {j. j < ?n \<and> in_deg ?st' j = 0}" "topo_queue ?st' = ?q @ new" "topo_front ?st' = Suc ?f"
    unfolding Let_def by auto
  have take': "take (Suc ?f) (topo_queue ?st') = take ?f ?q @ [c]"
    using f c unfolding q'(3) by (simp add: take_Suc_conv_app_nth)
  have S': "{..<?n} - set (take (Suc ?f) (topo_queue ?st')) = ?S - {c}" unfolding take' by auto
  have deg: "in_deg ?st' j = int (pred_count g (?S - {c}) j)" if "j < ?n" for j
    using d[OF that] split[of j] d' by simp
  have "i \<in> set (take p (topo_queue ?st'))" if p: "p < length (topo_queue ?st')" "index_arc g i (topo_queue ?st' ! p)" for p i
  proof (cases "p < length ?q")
    case True
    then show ?thesis using prec[OF True] p(2) unfolding q'(3) by (simp add: nth_append)
  next
    case False
    let ?j = "topo_queue ?st' ! p"
    have j: "?j < ?n" "in_deg ?st' ?j = 0" using nth_mem[OF p(1)] unfolding q'(2) by simp_all
    then have "pred_count g (?S - {c}) ?j = 0" using deg by simp
    then have "i \<notin> ?S - {c}" using p(2) pred_count_zero[of "?S - {c}" g ?j] by auto
    moreover have "i < ?n" using index_arc_less(1)[OF ok p(2)] .
    ultimately have "i \<in> set (take (Suc ?f) (topo_queue ?st'))" unfolding take' by auto
    moreover have "set (take (Suc ?f) (topo_queue ?st')) \<subseteq> set (take p (topo_queue ?st'))"
      using False f by (intro set_take_subset_set_take) simp
    ultimately show ?thesis by blast
  qed
  then show "topo_ok g ?st'"
    unfolding topo_ok_def Let_def q'(4) S' using q'(1,2) deg f q'(3) by simp
  show "\<exists>new. topo_queue ?st' = topo_queue st @ new" "topo_front ?st' = Suc (topo_front st)" using q' by auto
qed

lemma topo_loop_spec:
  assumes "graph_ok g" "topo_ok g st" "out = map (\<lambda>i. node_id (nodes g ! i)) (take (topo_front st) (topo_queue st))"
  shows "\<exists>st'. topo_ok g st' \<and> topo_front st' = length (topo_queue st') \<and>
    topo_loop g st out = map (\<lambda>i. node_id (nodes g ! i)) (topo_queue st')"
  using assms
proof (induction g st out rule: topo_loop.induct)
  case (1 g st out)
  show ?case
  proof (cases "topo_front st < length (topo_queue st)")
    case False
    then have "topo_front st = length (topo_queue st)" using "1.prems"(2) by (simp add: topo_ok_def Let_def)
    then show ?thesis using "1.prems" by (subst topo_loop.simps) auto
  next
    case True
    let ?c = "topo_queue st ! topo_front st"
    let ?st' = "fold (topo_visit g) (adjacency g ?c) (st\<lparr>topo_front := Suc (topo_front st)\<rparr>)"
    note step = topo_step[OF "1.prems"(1,2) True refl]
    obtain new where new: "topo_queue ?st' = topo_queue st @ new" using step(2) by blast
    have out: "out @ [node_id (nodes g ! ?c)] = map (\<lambda>i. node_id (nodes g ! i)) (take (topo_front ?st') (topo_queue ?st'))"
      unfolding step(3) new using "1.prems"(3) True by (simp add: take_Suc_conv_app_nth)
    have "topo_loop g st out = topo_loop g ?st' (out @ [node_id (nodes g ! ?c)])"
      using True by (subst topo_loop.simps) (simp add: Let_def)
    then show ?thesis using "1.IH"[OF _ refl refl "1.prems"(1) step(1) out] True by simp
  qed
qed

lemma topo_start_ok:
  assumes b: "built g0 ops g" and dir: "\<forall>e \<in> set (edges g). directed e"
  shows "topo_ok g (topo_start g)"
proof -
  note ok = built_ok(1)[OF b]
  let ?n = "length (nodes g)"
  have d: "in_deg (topo_start g) j = int (pred_count g {..<?n} j)" if "j < ?n" for j
  proof -
    have "node_in_degree g (int j + 1) = end_count (edges g) (int j + 1)"
      using dir by (auto simp: node_in_degree_def end_count_def filter_empty_conv)
    also have "\<dots> = adj_count g (int j + 1)" by (rule built_count[OF b, symmetric])
    also have "\<dots> = pred_count g {..<?n} j"
      unfolding adj_count_def pred_count_def by (intro sum.cong refl) (rule count_index[OF ok, symmetric])
    finally have "node_in_degree g (int j + 1) = pred_count g {..<?n} j" .
    moreover have "node_id (nodes g ! j) = int j + 1" using that ok by (simp add: graph_ok_def nodes_ok_def)
    ultimately show ?thesis using that by (simp add: topo_start_def Let_def)
  qed
  have q: "set (topo_queue (topo_start g)) = {j. j < ?n \<and> in_deg (topo_start g) j = 0}"
    by (auto simp: topo_start_def Let_def)
  have "False" if "p < length (topo_queue (topo_start g))" "index_arc g i (topo_queue (topo_start g) ! p)" for p i
  proof -
    let ?j = "topo_queue (topo_start g) ! p"
    have "?j < ?n" "in_deg (topo_start g) ?j = 0" using nth_mem[OF that(1)] unfolding q by simp_all
    then have "pred_count g {..<?n} ?j = 0" using d by simp
    then show False using that(2) index_arc_less(1)[OF ok that(2)] pred_count_zero[of "{..<?n}" g ?j] by auto
  qed
  moreover have "distinct (topo_queue (topo_start g))" "topo_front (topo_start g) = 0"
    by (simp_all add: topo_start_def Let_def)
  ultimately show ?thesis unfolding topo_ok_def Let_def using q d by auto
qed

lemma stuck_cycle:
  fixes R :: "nat \<Rightarrow> nat \<Rightarrow> bool"
  assumes "finite U" "U \<noteq> {}" "\<forall>j \<in> U. \<exists>i \<in> U. R i j"
  shows "\<exists>i. R\<^sup>+\<^sup>+ i i"
proof (rule ccontr)
  assume no: "\<nexists>i. R\<^sup>+\<^sup>+ i i"
  let ?r = "{(i, j). i \<in> U \<and> j \<in> U \<and> R i j}"
  have sub: "?r \<subseteq> U \<times> U" by auto
  have "(i, j) \<in> ?r\<^sup>+ \<Longrightarrow> R\<^sup>+\<^sup>+ i j" for i j
    by (induction rule: trancl_induct) (auto intro: tranclp.intros)
  then have "acyclic ?r" using no by (auto simp: acyclic_def)
  moreover have "finite ?r" using assms(1) sub by (meson finite_SigmaI finite_subset)
  ultimately have "wf ?r" by (rule finite_acyclic_wf[rotated])
  obtain x where "x \<in> U" using assms(2) by blast
  from wfE_min[OF \<open>wf ?r\<close> this] obtain m where "m \<in> U" "\<And>y. (y, m) \<in> ?r \<Longrightarrow> y \<notin> U" by blast
  then show False using assms(3) by blast
qed

text \<open>
  C15. For a graph of directed edges the topological sort is exact: it reports success
  exactly when the graph has no cycle, and the list it then fills has every node once, the
  tail of every edge before its head.
\<close>

theorem topological_sort_exact:
  assumes "built g0 ops g" "\<forall>e \<in> set (edges g). directed e"
  shows "\<exists>success out. topological_sort True g = (success, Some out) \<and>
    (success \<longleftrightarrow> \<not> (\<exists>v. (arc g)\<^sup>+\<^sup>+ v v)) \<and>
    (success \<longrightarrow> distinct out \<and> set out = node_range g \<and>
       (\<forall>u v. arc g u v \<longrightarrow> (\<exists>xs ys zs. out = xs @ u # ys @ v # zs)))"
proof -
  note ok = built_ok(1)[OF assms(1)]
  let ?n = "length (nodes g)" and ?id = "\<lambda>i. node_id (nodes g ! i)"
  obtain st where st: "topo_ok g st" "topo_front st = length (topo_queue st)"
    and run: "topo_loop g (topo_start g) [] = map ?id (topo_queue st)"
    using topo_loop_spec[OF ok topo_start_ok[OF assms], of "[]"] by (auto simp: topo_start_def Let_def)
  let ?q = "topo_queue st"
  have q: "distinct ?q" "set ?q = {j. j < ?n \<and> in_deg st j = 0}"
    and d: "\<And>j. j < ?n \<Longrightarrow> in_deg st j = int (pred_count g ({..<?n} - set ?q) j)"
    and prec: "\<And>p i. p < length ?q \<Longrightarrow> index_arc g i (?q ! p) \<Longrightarrow> i \<in> set (take p ?q)"
    using st by (simp_all add: topo_ok_def Let_def)
  have ids: "?id i = int i + 1" if "i < ?n" for i using ok that by (simp add: graph_ok_def nodes_ok_def)
  have qsub: "set ?q \<subseteq> {..<?n}" using q(2) by auto
  have out: "map ?id ?q = map (\<lambda>i. int i + 1) ?q" using ids qsub by (intro map_cong refl) auto
  have sort: "topological_sort True g = (length ?q = ?n, Some (map (\<lambda>i. int i + 1) ?q))"
    by (simp add: topological_sort_def run out del: map_map)
  have full: "length ?q = ?n \<longleftrightarrow> set ?q = {..<?n}"
  proof
    assume "length ?q = ?n"
    then have "card (set ?q) = card {..<?n}" using distinct_card[OF q(1)] by simp
    then show "set ?q = {..<?n}" by (intro card_subset_eq[OF _ qsub]) auto
  next
    assume "set ?q = {..<?n}"
    then have "card (set ?q) = ?n" by simp
    then show "length ?q = ?n" using distinct_card[OF q(1)] by simp
  qed
  have before: "\<exists>p. p < m \<and> ?q ! p = i" if "m < length ?q" "index_arc g i (?q ! m)" for m i
    using prec[OF that] that(1) by (auto simp: in_set_conv_nth)
  have acyc: "\<not> (index_arc g)\<^sup>+\<^sup>+ i i" if "set ?q = {..<?n}" for i
  proof
    have pos: "\<exists>p. p < m \<and> ?q ! p = i" if "(index_arc g)\<^sup>+\<^sup>+ i j" "m < length ?q" "?q ! m = j" for i j m
      using that
    proof (induction arbitrary: m rule: tranclp_induct)
      case (base y)
      then show ?case using before by blast
    next
      case (step y z)
      then obtain p where p: "p < m" "?q ! p = y" using before by blast
      then obtain p' where "p' < p" "?q ! p' = i" using step.IH[of p] step.prems(1) by auto
      then show ?case using p(1) by (intro exI[of _ p']) simp
    qed
    assume cyc: "(index_arc g)\<^sup>+\<^sup>+ i i"
    then obtain k where "index_arc g i k" by (meson tranclpD)
    then have "i \<in> set ?q" using index_arc_less(1)[OF ok] that by auto
    then obtain m where m: "m < length ?q" "?q ! m = i" by (metis in_set_conv_nth)
    from pos[OF cyc m] obtain p where "p < m" "?q ! p = i" by blast
    then show False using m nth_eq_iff_index_eq[OF q(1), of p m] by simp
  qed
  have cyc: "\<exists>i. (index_arc g)\<^sup>+\<^sup>+ i i" if ne: "set ?q \<noteq> {..<?n}"
  proof (rule stuck_cycle[of "{..<?n} - set ?q"])
    show "{..<?n} - set ?q \<noteq> {}" using ne qsub by blast
    show "\<forall>j \<in> {..<?n} - set ?q. \<exists>i \<in> {..<?n} - set ?q. index_arc g i j"
    proof
      fix j assume j: "j \<in> {..<?n} - set ?q"
      then have "in_deg st j \<noteq> 0" using q(2) by auto
      then have "pred_count g ({..<?n} - set ?q) j \<noteq> 0" using d j by simp
      then show "\<exists>i \<in> {..<?n} - set ?q. index_arc g i j" using pred_count_zero[of "{..<?n} - set ?q" g j] by auto
    qed
  qed simp
  have "(length ?q = ?n) \<longleftrightarrow> \<not> (\<exists>v. (arc g)\<^sup>+\<^sup>+ v v)"
    unfolding full arc_cycle_index[OF assms(1)] using acyc cyc by blast
  moreover have "distinct (map (\<lambda>i. int i + 1) ?q)" using q(1) by (simp add: distinct_map inj_on_def)
  moreover have "set (map (\<lambda>i. int i + 1) ?q) = node_range g" if "set ?q = {..<?n}"
  proof -
    have "v \<in> (\<lambda>i. int i + 1) ` {..<?n}" if "v \<in> node_range g" for v
      using that by (intro image_eqI[of _ _ "nat v - 1"]) (auto simp: node_range_def)
    then show ?thesis using that by (auto simp: node_range_def)
  qed
  moreover have "\<exists>xs ys zs. map (\<lambda>i. int i + 1) ?q = xs @ u # ys @ v # zs" if all: "set ?q = {..<?n}" and uv: "arc g u v" for u v
  proof -
    obtain i j where ij: "u = int i + 1" "v = int j + 1" "j < ?n" "index_arc g i j" using arc_index[OF assms(1) uv] .
    then have "j \<in> set ?q" using all by simp
    then obtain xs zs where split: "?q = xs @ j # zs" by (meson split_list)
    then have "i \<in> set xs" using prec[of "length xs" i] ij(4) by simp
    then obtain as bs where "xs = as @ i # bs" by (meson split_list)
    then have "map (\<lambda>i. int i + 1) ?q = map (\<lambda>i. int i + 1) as @ u # map (\<lambda>i. int i + 1) bs @ v # map (\<lambda>i. int i + 1) zs"
      using split ij by simp
    then show ?thesis by blast
  qed
  ultimately show ?thesis using sort full by blast
qed

theorem topological_sort_exact_witness:
  "\<exists>g0 g. built g0 [Create_Node True True, Create_Node True True, Create_Edge True True 1 2 ''knows'' True] g \<and>
     (\<exists>success out. topological_sort True g = (success, Some out) \<and> (success \<longleftrightarrow> \<not> (\<exists>v. (arc g)\<^sup>+\<^sup>+ v v)))"
proof -
  let ?ops = "[Create_Node True True, Create_Node True True, Create_Edge True True 1 2 ''knows'' True]"
  let ?g0 = "\<lparr>nodes = [], node_hash = (\<lambda>_. []), edges = [], adjacency = (\<lambda>_. []),
     adjacency_capacity = max_nodes, next_node_id = 1, next_edge_id = 1\<rparr> :: graph"
  have b: "built ?g0 ?ops (fold graph_step ?ops ?g0)" using empty_graph_init by (simp add: built_def)
  moreover have "\<forall>e \<in> set (edges (fold graph_step ?ops ?g0)). directed e"
    by (simp add: graph_create_node_def graph_create_edge_def Let_def frames new_edge_def split: option.splits)
  ultimately show ?thesis using topological_sort_exact[OF b] by blast
qed

end
