(* ===== verification/Bptree.thy ===== *)
theory Bptree
  imports Prelude "HOL-Library.List_Lexorder" "HOL-Library.Char_ord"
begin

text \<open>
  The B+ tree of \<open>mini-relational-db/src/bptree.c\<close>. An inner node owns its children, so a tree
  is a datatype; the only other pointers are the \<open>next\<close> pointers of the leaves, for which a leaf
  carries its address. The order of strings is that of \<open>strcmp\<close>: by unsigned characters, a
  prefix before its extensions; a string is the characters before its NUL. Arguments are not
  \<open>NULL\<close>, a failed allocation ends the program, and the count does not reach \<open>2 ^ 31\<close>. The tree is
  proved to be a finite map with exact range scans, all leaves at the same depth.
\<close>

section \<open>Nodes\<close>

definition BP_MAX_KEYS :: nat where [c_consts]: "BP_MAX_KEYS = 4"
definition BP_KEY_SIZE :: nat where [c_consts]: "BP_KEY_SIZE = 64"
definition BP_VAL_SIZE :: nat where [c_consts]: "BP_VAL_SIZE = 64"

type_synonym bp_entry = "string \<times> string"

text \<open>A leaf has its address, its entries and the address of the next leaf.\<close>

datatype bp_node =
    Bp_Leaf nat "bp_entry list" "nat option"
  | Bp_Internal "string list" "bp_node list"

record bptree =
  bp_root :: bp_node
  bp_count :: int
  bp_fresh :: nat

definition bptree_create :: bptree where
  "bptree_create = \<lparr>bp_root = Bp_Leaf 0 [] None, bp_count = 0, bp_fresh = 1\<rparr>"

section \<open>Searching a node\<close>

function leaf_search :: "bp_entry list \<Rightarrow> string \<Rightarrow> nat \<Rightarrow> nat \<Rightarrow> nat" where
  "leaf_search es key lo hi =
     (if lo < hi then
        let mid = (lo + hi) div 2 in
        if fst (es ! mid) < key then leaf_search es key (mid + 1) hi else leaf_search es key lo mid
      else lo)"
  by auto
termination by (relation "measure (\<lambda>(_, _, lo, hi). hi - lo)") auto

declare leaf_search.simps [simp del]

definition leaf_find :: "bp_entry list \<Rightarrow> string \<Rightarrow> nat" where
  "leaf_find es key = leaf_search es key 0 (length es)"

definition internal_find_child :: "string list \<Rightarrow> string \<Rightarrow> nat" where
  "internal_find_child ks key = length (takeWhile (\<lambda>k. k \<le> key) ks)"

section \<open>Operations\<close>

text \<open>
  What the recursive insertion gives back: the node changed; the node split in two with the
  separator between them; a duplicate key; or a string that overflows the arrays of an entry.
\<close>

datatype bp_result = Bp_Done bp_node | Bp_Split bp_node string bp_node | Bp_Duplicate | Bp_Overflow

lemma nth_size: "i < length cs \<Longrightarrow> size (cs ! i) < Suc (size_list size cs)"
  by (metis less_Suc_eq_le nth_mem size_list_estimation' order_refl)

function insert_rec :: "nat \<Rightarrow> bp_node \<Rightarrow> string \<Rightarrow> string \<Rightarrow> bp_result" where
  "insert_rec a (Bp_Leaf i es nx) key v =
     (let pos = leaf_find es key in
      if pos < length es \<and> fst (es ! pos) = key then Bp_Duplicate
      else if \<not> (length key < BP_KEY_SIZE \<and> length v < BP_VAL_SIZE) then Bp_Overflow
      else let all = take pos es @ (key, v) # drop pos es; split_pt = (BP_MAX_KEYS + 1) div 2 in
        if length es < BP_MAX_KEYS then Bp_Done (Bp_Leaf i all nx)
        else Bp_Split (Bp_Leaf i (take split_pt all) (Some a)) (fst (drop split_pt all ! 0))
               (Bp_Leaf a (drop split_pt all) nx))"
| "insert_rec a (Bp_Internal ks cs) key v =
     (let ci = internal_find_child ks key in
      if \<not> ci < length cs then Bp_Overflow
      else case insert_rec a (cs ! ci) key v of
        Bp_Done c \<Rightarrow> Bp_Done (Bp_Internal ks (cs[ci := c]))
      | Bp_Split c sep new \<Rightarrow>
          let ks = take ci ks @ sep # drop ci ks; cs = take ci cs @ c # new # drop (Suc ci) cs;
              mid = length ks div 2 in
          if length ks \<le> BP_MAX_KEYS then Bp_Done (Bp_Internal ks cs)
          else Bp_Split (Bp_Internal (take mid ks) (take (Suc mid) cs)) (ks ! mid)
                 (Bp_Internal (drop (Suc mid) ks) (drop (Suc mid) cs))
      | r \<Rightarrow> r)"
  by pat_completeness auto
termination by (relation "measure (\<lambda>(_, n, _). size n)") (auto simp: nth_size)

text \<open>The result is \<open>None\<close> where the code writes behind an array.\<close>

definition bptree_insert :: "string \<Rightarrow> string \<Rightarrow> bptree \<Rightarrow> (int \<times> bptree) option" where
  "bptree_insert key v t =
     (case insert_rec (bp_fresh t) (bp_root t) key v of
        Bp_Duplicate \<Rightarrow> Some (-1, t)
      | Bp_Overflow \<Rightarrow> None
      | Bp_Done n \<Rightarrow> Some (0, t\<lparr>bp_root := n, bp_count := bp_count t + 1, bp_fresh := bp_fresh t + 1\<rparr>)
      | Bp_Split l sep r \<Rightarrow>
          Some (0, t\<lparr>bp_root := Bp_Internal [sep] [l, r], bp_count := bp_count t + 1, bp_fresh := bp_fresh t + 1\<rparr>))"

type_synonym bp_leaf = "nat \<times> bp_entry list \<times> nat option"

function find_leaf :: "bp_node \<Rightarrow> string \<Rightarrow> bp_leaf option" where
  "find_leaf (Bp_Leaf i es nx) key = Some (i, es, nx)"
| "find_leaf (Bp_Internal ks cs) key =
     (let c = internal_find_child ks key in if c < length cs then find_leaf (cs ! c) key else None)"
  by pat_completeness auto
termination by (relation "measure (\<lambda>(n, _). size n)") (auto simp: nth_size)

definition bptree_search :: "bptree \<Rightarrow> string \<Rightarrow> string option option" where
  "bptree_search t key =
     (case find_leaf (bp_root t) key of
        None \<Rightarrow> None
      | Some (_, es, _) \<Rightarrow>
          let pos = leaf_find es key in
          Some (if pos < length es \<and> fst (es ! pos) = key then Some (snd (es ! pos)) else None))"

text \<open>The leaves from left to right, and the one at an address.\<close>

fun leaves :: "bp_node \<Rightarrow> bp_leaf list" where
  "leaves (Bp_Leaf i es nx) = [(i, es, nx)]"
| "leaves (Bp_Internal ks cs) = concat (map leaves cs)"

definition leaf_at :: "bp_node \<Rightarrow> nat \<Rightarrow> (bp_entry list \<times> nat option) option" where
  "leaf_at n a = map_of (leaves n) a"

text \<open>
  The entries of one leaf handed to the callback, and whether the scan ends there. The scan gives
  all the calls in order; the number it returns is theirs.
\<close>

fun bp_scan_entries :: "string \<Rightarrow> string \<Rightarrow> bp_entry list \<Rightarrow> bp_entry list \<times> bool" where
  "bp_scan_entries low high [] = ([], False)"
| "bp_scan_entries low high (e # es) =
     (let hit = (if low \<le> fst e \<and> fst e \<le> high then [e] else []) in
      if high < fst e then (hit, True)
      else let (out, stop) = bp_scan_entries low high es in (hit @ out, stop))"

partial_function (option) scan_leaves ::
  "bp_node \<Rightarrow> string \<Rightarrow> string \<Rightarrow> bp_entry list \<times> nat option \<Rightarrow> bp_entry list \<Rightarrow> bp_entry list option" where
  "scan_leaves root low high leaf acc =
     (let (out, stop) = bp_scan_entries low high (fst leaf) in
      if stop then Some (acc @ out)
      else case snd leaf of
        None \<Rightarrow> Some (acc @ out)
      | Some a \<Rightarrow>
          (case leaf_at root a of None \<Rightarrow> None
           | Some leaf \<Rightarrow> scan_leaves root low high leaf (acc @ out)))"

definition bptree_range_scan :: "bptree \<Rightarrow> string \<Rightarrow> string \<Rightarrow> bp_entry list option" where
  "bptree_range_scan t low high =
     (case find_leaf (bp_root t) low of
        None \<Rightarrow> None
      | Some (_, leaf) \<Rightarrow> scan_leaves (bp_root t) low high leaf [])"

text \<open>Deletion descends to a leaf; \<open>None\<close> inside when the key is not there.\<close>

function delete_rec :: "bp_node \<Rightarrow> string \<Rightarrow> bp_node option option" where
  "delete_rec (Bp_Leaf i es nx) key =
     (case find_idx (\<lambda>e. fst e = key) es of
        None \<Rightarrow> Some None
      | Some found \<Rightarrow> Some (Some (Bp_Leaf i (take found es @ drop (Suc found) es) nx)))"
| "delete_rec (Bp_Internal ks cs) key =
     (let c = internal_find_child ks key in
      if \<not> c < length cs then None
      else case delete_rec (cs ! c) key of
        Some (Some n) \<Rightarrow> Some (Some (Bp_Internal ks (cs[c := n])))
      | r \<Rightarrow> r)"
  by pat_completeness auto
termination by (relation "measure (\<lambda>(n, _). size n)") (auto simp: nth_size)

fun collapse_root :: "bp_node \<Rightarrow> bp_node" where
  "collapse_root (Bp_Internal [] (c # cs)) = c"
| "collapse_root n = n"

definition bptree_delete :: "string \<Rightarrow> bptree \<Rightarrow> (int \<times> bptree) option" where
  "bptree_delete key t =
     (case delete_rec (bp_root t) key of
        None \<Rightarrow> None
      | Some None \<Rightarrow> Some (-1, t)
      | Some (Some n) \<Rightarrow> Some (0, t\<lparr>bp_root := collapse_root n, bp_count := bp_count t - 1\<rparr>))"

section \<open>The order of the entries\<close>

definition bp_entries :: "bp_node \<Rightarrow> bp_entry list" where
  "bp_entries n = concat (map (\<lambda>l. fst (snd l)) (leaves n))"

lemma concat_map_concat: "concat (map f (concat xss)) = concat (map (\<lambda>xs. concat (map f xs)) xss)"
  by (induction xss) simp_all

lemma bp_entries_simps [simp]:
  "bp_entries (Bp_Leaf i es nx) = es"
  "bp_entries (Bp_Internal ks cs) = concat (map bp_entries cs)"
  by (simp_all add: bp_entries_def[abs_def] concat_map_concat comp_def)

abbreviation keys_sorted :: "bp_entry list \<Rightarrow> bool" where
  "keys_sorted es \<equiv> sorted_wrt (<) (map fst es)"

text \<open>The position found by bisection splits the entries at the key.\<close>

abbreviation cut :: "string \<Rightarrow> bp_entry list \<Rightarrow> nat" where
  "cut key es \<equiv> length (takeWhile (\<lambda>e. fst e < key) es)"

lemma cut_iff: "keys_sorted es \<Longrightarrow> m < length es \<Longrightarrow> fst (es ! m) < key \<longleftrightarrow> m < cut key es"
proof (induction es arbitrary: m)
  case (Cons e es)
  show ?case
  proof (cases m)
    case (Suc i)
    then have "fst e < fst (es ! i)" using Cons.prems by simp
    then have "fst (es ! i) < key \<Longrightarrow> fst e < key" by (rule less_trans)
    then show ?thesis using Cons Suc by auto
  qed simp
qed simp

lemma leaf_search_cut:
  "keys_sorted es \<Longrightarrow> lo \<le> cut key es \<Longrightarrow> cut key es \<le> hi \<Longrightarrow> hi \<le> length es \<Longrightarrow> leaf_search es key lo hi = cut key es"
proof (induction es key lo hi rule: leaf_search.induct)
  case (1 es key lo hi)
  show ?case
  proof (cases "lo < hi")
    case True
    let ?mid = "(lo + hi) div 2"
    have mid: "?mid < hi" "?mid < length es" using True "1.prems"(4) by auto
    show ?thesis
    proof (cases "fst (es ! ?mid) < key")
      case left: True
      then have "?mid + 1 \<le> cut key es" using cut_iff[OF "1.prems"(1) mid(2)] by simp
      then show ?thesis using "1.IH"(1)[OF True refl left "1.prems"(1)] "1.prems"(3,4) True left
        by (subst leaf_search.simps) (simp add: Let_def)
    next
      case right: False
      then have "cut key es \<le> ?mid" using cut_iff[OF "1.prems"(1) mid(2)] by (simp add: not_less)
      then show ?thesis using "1.IH"(2)[OF True refl right "1.prems"(1,2)] mid True right
        by (subst leaf_search.simps) (simp add: Let_def)
    qed
  qed (use 1 in \<open>simp add: leaf_search.simps\<close>)
qed

lemma leaf_find_cut: "keys_sorted es \<Longrightarrow> leaf_find es key = cut key es"
  by (simp add: leaf_find_def leaf_search_cut length_takeWhile_le)

text \<open>What insertion and deletion do to a sorted list of entries.\<close>

definition ins :: "string \<Rightarrow> string \<Rightarrow> bp_entry list \<Rightarrow> bp_entry list" where
  "ins key v es = takeWhile (\<lambda>e. fst e < key) es @ (key, v) # dropWhile (\<lambda>e. fst e < key) es"

definition del :: "string \<Rightarrow> bp_entry list \<Rightarrow> bp_entry list" where
  "del key es = filter (\<lambda>e. fst e \<noteq> key) es"

abbreviation has :: "string \<Rightarrow> bp_entry list \<Rightarrow> bool" where
  "has key es \<equiv> key \<in> fst ` set es"

lemma keys_sorted_append:
  "keys_sorted (xs @ ys) \<longleftrightarrow> keys_sorted xs \<and> keys_sorted ys \<and> (\<forall>x \<in> set xs. \<forall>y \<in> set ys. fst x < fst y)"
  by (simp add: sorted_wrt_append)

lemma cut_hit: "keys_sorted es \<Longrightarrow> cut key es < length es \<and> fst (es ! cut key es) = key \<longleftrightarrow> has key es"
proof (induction es)
  case (Cons e es)
  have gt: "x \<in> set es \<Longrightarrow> fst e < fst x" for x using Cons.prems by simp
  show ?case
  proof (cases "fst e < key")
    case True
    then show ?thesis using Cons by auto
  next
    case False
    then show ?thesis using gt by fastforce
  qed
qed simp

lemma dropWhile_not_less: "keys_sorted es \<Longrightarrow> e \<in> set (dropWhile (\<lambda>e. fst e < key) es) \<Longrightarrow> key \<le> fst e"
proof (induction es)
  case (Cons e' es)
  then show ?case by (fastforce split: if_splits simp: not_less)
qed simp

lemma ins_sorted:
  assumes "keys_sorted es" "\<not> has key es"
  shows "keys_sorted (ins key v es)"
proof -
  let ?T = "takeWhile (\<lambda>e. fst e < key) es" and ?D = "dropWhile (\<lambda>e. fst e < key) es"
  have s: "keys_sorted (?T @ ?D)" using assms(1) by simp
  have "fst e < key" if "e \<in> set ?T" for e using that by (meson set_takeWhileD)
  moreover have "key < fst e" if "e \<in> set ?D" for e
    using dropWhile_not_less[OF assms(1) that] assms(2) set_dropWhileD[OF that] by force
  ultimately show ?thesis using s unfolding ins_def keys_sorted_append by (simp del: takeWhile_dropWhile_id)
qed

lemma set_ins: "set (ins key v es) = insert (key, v) (set es)"
  unfolding ins_def by (metis Un_insert_right list.simps(15) set_append takeWhile_dropWhile_id)

lemma length_ins: "length (ins key v es) = Suc (length es)"
  unfolding ins_def by (metis add_Suc_right length_Cons length_append takeWhile_dropWhile_id)

lemma ins_at_cut: "take (cut key es) es @ (key, v) # drop (cut key es) es = ins key v es"
  by (simp add: ins_def takeWhile_eq_take[symmetric] dropWhile_eq_drop[symmetric])

lemma ins_context:
  assumes "\<forall>e \<in> set as. fst e < key" "\<forall>e \<in> set cs. key \<le> fst e"
  shows "ins key v (as @ bs @ cs) = as @ ins key v bs @ cs"
proof -
  have cs: "takeWhile (\<lambda>e. fst e < key) cs = []" "dropWhile (\<lambda>e. fst e < key) cs = cs"
    using assms(2) by (cases cs; fastforce)+
  have bs: "takeWhile P (bs @ cs) = takeWhile P bs" "dropWhile P (bs @ cs) = dropWhile P bs @ cs"
    if "takeWhile P cs = []" "dropWhile P cs = cs" for P :: "bp_entry \<Rightarrow> bool"
    using that by (induction bs) auto
  show ?thesis unfolding ins_def using assms(1) by (simp add: bs[OF cs])
qed

lemma ins_map:
  assumes "keys_sorted es" "\<not> has key es"
  shows "map_of (ins key v es) = (map_of es)(key \<mapsto> v)"
proof -
  let ?T = "takeWhile (\<lambda>e. fst e < key) es" and ?D = "dropWhile (\<lambda>e. fst e < key) es"
  have "key \<notin> fst ` set ?T" by (auto dest!: set_takeWhileD)
  then have "map_of (?T @ (key, v) # ?D) = (map_of ?D ++ map_of ?T)(key \<mapsto> v)"
    by (simp add: map_add_upd_left dom_map_of_conv_image_fst)
  also have "map_of ?D ++ map_of ?T = map_of es" by (metis map_of_append takeWhile_dropWhile_id)
  finally show ?thesis unfolding ins_def .
qed

lemma del_map: "map_of (del key es) = (map_of es)(key := None)"
  by (induction es) (auto simp: del_def)

section \<open>The invariant of a node\<close>

text \<open>The keys below a node lie from its lower bound on and before its upper bound, if it has them.\<close>

fun above :: "string option \<Rightarrow> string \<Rightarrow> bool" where
  "above None k \<longleftrightarrow> True"
| "above (Some lo) k \<longleftrightarrow> lo \<le> k"

fun below :: "string option \<Rightarrow> string \<Rightarrow> bool" where
  "below None k \<longleftrightarrow> True"
| "below (Some hi) k \<longleftrightarrow> k < hi"

fun up_to :: "string option \<Rightarrow> string \<Rightarrow> bool" where
  "up_to None k \<longleftrightarrow> True"
| "up_to (Some hi) k \<longleftrightarrow> k \<le> hi"

definition entry_fits :: "bp_entry \<Rightarrow> bool" where
  "entry_fits e \<longleftrightarrow> length (fst e) < BP_KEY_SIZE \<and> length (snd e) < BP_VAL_SIZE"

fun bp_ok :: "nat \<Rightarrow> string option \<Rightarrow> string option \<Rightarrow> bp_node \<Rightarrow> bool"
  and bp_oks :: "nat \<Rightarrow> string option \<Rightarrow> string option \<Rightarrow> string list \<Rightarrow> bp_node list \<Rightarrow> bool" where
  "bp_ok h lo hi (Bp_Leaf i es nx) \<longleftrightarrow> h = 0 \<and> length es \<le> BP_MAX_KEYS \<and> keys_sorted es \<and>
     (\<forall>e \<in> set es. above lo (fst e) \<and> below hi (fst e) \<and> entry_fits e)"
| "bp_ok h lo hi (Bp_Internal ks cs) \<longleftrightarrow> 0 < h \<and> 1 \<le> length ks \<and> length ks \<le> BP_MAX_KEYS \<and> bp_oks (h - 1) lo hi ks cs"
| "bp_oks h lo hi ks [] \<longleftrightarrow> False"
| "bp_oks h lo hi [] (c # cs) \<longleftrightarrow> cs = [] \<and> bp_ok h lo hi c"
| "bp_oks h lo hi (k # ks) (c # cs) \<longleftrightarrow> above lo k \<and> up_to hi k \<and> bp_ok h lo (Some k) c \<and> bp_oks h (Some k) hi ks cs"

lemma above_trans: "above lo k \<Longrightarrow> k \<le> k' \<Longrightarrow> above lo k'"
  by (cases lo) auto

lemma below_trans: "up_to hi k \<Longrightarrow> k' < k \<Longrightarrow> below hi k'"
  by (cases hi) auto

lemma below_up_to: "below hi k \<Longrightarrow> up_to hi k"
  by (cases hi) auto

lemma bp_oks_length: "bp_oks h lo hi ks cs \<Longrightarrow> length cs = Suc (length ks)"
proof (induction ks arbitrary: lo cs)
  case Nil
  then show ?case by (cases cs) auto
next
  case (Cons k ks)
  then show ?case by (cases cs) auto
qed

text \<open>The entries of a node are within its bounds and in order.\<close>

lemma bp_ok_entries:
  "bp_ok h lo hi n \<Longrightarrow> keys_sorted (bp_entries n) \<and> (\<forall>e \<in> set (bp_entries n). above lo (fst e) \<and> below hi (fst e) \<and> entry_fits e)"
  "bp_oks h lo hi ks cs \<Longrightarrow> keys_sorted (concat (map bp_entries cs)) \<and>
     (\<forall>e \<in> set (concat (map bp_entries cs)). above lo (fst e) \<and> below hi (fst e) \<and> entry_fits e)"
proof (induction h lo hi n and h lo hi ks cs rule: bp_ok_bp_oks.induct)
  case (5 h lo hi k ks c cs)
  have k: "above lo k" "up_to hi k" and c: "bp_ok h lo (Some k) c" and cs: "bp_oks h (Some k) hi ks cs" using "5.prems" by simp_all
  note c = "5.IH"(1)[OF c] and cs = "5.IH"(2)[OF cs]
  have "fst e < fst e'" if "e \<in> set (bp_entries c)" "e' \<in> set (concat (map bp_entries cs))" for e e'
  proof -
    have "fst e < k" "k \<le> fst e'" using c cs that by auto
    then show ?thesis by (rule less_le_trans)
  qed
  moreover have "above lo (fst e)" if "e \<in> set (concat (map bp_entries cs))" for e
    using cs that above_trans[OF k(1)] by auto
  moreover have "below hi (fst e)" if "e \<in> set (bp_entries c)" for e
    using c that below_trans[OF k(2)] by auto
  ultimately show ?case using c cs by (simp add: sorted_wrt_append) blast
qed simp_all

text \<open>
  Where the key belongs among the children: its child has bounds around the key, which may be
  replaced within these bounds, or split in two at a separator.
\<close>

definition located ::
  "nat \<Rightarrow> string option \<Rightarrow> string option \<Rightarrow> string list \<Rightarrow> bp_node list \<Rightarrow> string \<Rightarrow> nat \<Rightarrow> string option \<Rightarrow> string option \<Rightarrow> bool" where
  "located h lo hi ks cs key i lo' hi' \<longleftrightarrow>
    i < length cs \<and> bp_ok h lo' hi' (cs ! i) \<and> above lo' key \<and> below hi' key \<and>
    (\<forall>c. bp_ok h lo' hi' c \<longrightarrow> bp_oks h lo hi ks (cs[i := c])) \<and>
    (\<forall>c1 sep c2. bp_ok h lo' (Some sep) c1 \<longrightarrow> bp_ok h (Some sep) hi' c2 \<longrightarrow> above lo' sep \<longrightarrow> up_to hi' sep \<longrightarrow>
       bp_oks h lo hi (take i ks @ sep # drop i ks) (take i cs @ c1 # c2 # drop (Suc i) cs)) \<and>
    (\<forall>e \<in> set (concat (map bp_entries (take i cs))). fst e < key) \<and>
    (\<forall>e \<in> set (concat (map bp_entries (drop (Suc i) cs))). key < fst e)"

lemma locatedD:
  assumes "located h lo hi ks cs key i lo' hi'"
  shows "i < length cs" "bp_ok h lo' hi' (cs ! i)" "above lo' key" "below hi' key"
    "bp_ok h lo' hi' c \<Longrightarrow> bp_oks h lo hi ks (cs[i := c])"
    "bp_ok h lo' (Some sep) c1 \<Longrightarrow> bp_ok h (Some sep) hi' c2 \<Longrightarrow> above lo' sep \<Longrightarrow> up_to hi' sep \<Longrightarrow>
       bp_oks h lo hi (take i ks @ sep # drop i ks) (take i cs @ c1 # c2 # drop (Suc i) cs)"
    "\<forall>e \<in> set (concat (map bp_entries (take i cs))). fst e < key"
    "\<forall>e \<in> set (concat (map bp_entries (drop (Suc i) cs))). key < fst e"
  using assms unfolding located_def by simp_all

lemma oks_locate:
  assumes "bp_oks h lo hi ks cs" "above lo key" "below hi key"
  shows "\<exists>lo' hi'. located h lo hi ks cs key (internal_find_child ks key) lo' hi'"
  using assms(1,2)
proof (induction ks arbitrary: lo cs)
  case Nil
  then obtain c where "cs = [c]" "bp_ok h lo hi c" by (cases cs) auto
  then show ?case using Nil.prems assms(3)
    by (intro exI[of _ lo] exI[of _ hi]) (simp add: internal_find_child_def located_def)
next
  case (Cons k ks)
  then obtain c cs' where cs: "cs = c # cs'" by (cases cs) auto
  have k: "above lo k" "up_to hi k" "bp_ok h lo (Some k) c" "bp_oks h (Some k) hi ks cs'" using Cons.prems(1) cs by simp_all
  show ?case
  proof (cases "k \<le> key")
    case False
    have "internal_find_child (k # ks) key = 0" using False by (simp add: internal_find_child_def)
    moreover have "\<forall>e \<in> set (concat (map bp_entries cs')). key < fst e"
      using bp_ok_entries(2)[OF k(4)] False by (auto simp: not_le intro: less_le_trans)
    moreover have "up_to hi sep" if "sep \<le> k" for sep using k(2) that by (cases hi) auto
    ultimately show ?thesis using False k Cons.prems(2) cs unfolding located_def
      by (intro exI[of _ lo] exI[of _ "Some k"]) (auto simp: not_le)
  next
    case True
    have i: "internal_find_child (k # ks) key = Suc (internal_find_child ks key)" using True by (simp add: internal_find_child_def)
    have "\<forall>e \<in> set (bp_entries c). fst e < key" using bp_ok_entries(1)[OF k(3)] True by (auto intro: less_le_trans)
    moreover obtain lo' hi' where "located h (Some k) hi ks cs' key (internal_find_child ks key) lo' hi'"
      using Cons.IH[OF k(4)] True by auto
    ultimately show ?thesis using k cs unfolding i located_def
      by (intro exI[of _ lo'] exI[of _ hi']) auto
  qed
qed

text \<open>A run of keys and children split in two between them.\<close>

lemma oks_above: "bp_oks h lo hi ks cs \<Longrightarrow> k \<in> set ks \<Longrightarrow> above lo k \<and> up_to hi k"
proof (induction ks arbitrary: lo cs)
  case (Cons k' ks)
  then obtain c cs' where "cs = c # cs'" by (cases cs) auto
  with Cons.prems Cons.IH[of "Some k'" cs'] show ?case using above_trans[of lo k' k] by auto
qed simp

lemma oks_halves:
  "bp_oks h lo hi ks cs \<Longrightarrow> m < length ks \<Longrightarrow>
   bp_oks h lo (Some (ks ! m)) (take m ks) (take (Suc m) cs) \<and>
   bp_oks h (Some (ks ! m)) hi (drop (Suc m) ks) (drop (Suc m) cs)"
proof (induction m arbitrary: lo ks cs)
  case 0
  then obtain k ks' c cs' where "ks = k # ks'" "cs = c # cs'" by (cases ks; cases cs) auto
  with 0 show ?case by simp
next
  case (Suc m)
  then obtain k ks' c cs' where eq: "ks = k # ks'" "cs = c # cs'" by (cases ks; cases cs) auto
  have tail: "bp_oks h (Some k) hi ks' cs'" "m < length ks'" using Suc.prems eq by simp_all
  have "k \<le> ks' ! m" using oks_above[OF tail(1) nth_mem[OF tail(2)]] by simp
  then show ?case using Suc.IH[OF tail] Suc.prems eq by simp
qed

section \<open>Insertion\<close>

text \<open>
  An insertion changes the entries of one leaf, or splits it, putting a new leaf with a fresh
  address behind it.
\<close>

definition leaf_step :: "nat \<Rightarrow> bp_leaf list \<Rightarrow> bp_leaf list \<Rightarrow> bool" where
  "leaf_step a L L' \<longleftrightarrow> (\<exists>A i es nx B. L = A @ (i, es, nx) # B \<and>
     ((\<exists>es'. L' = A @ (i, es', nx) # B) \<or> (\<exists>es1 es2. L' = A @ (i, es1, Some a) # (a, es2, nx) # B)))"

lemma leaf_step_context: "leaf_step a L L' \<Longrightarrow> leaf_step a (X @ L @ Y) (X @ L' @ Y)"
  unfolding leaf_step_def
proof (elim exE conjE)
  fix A i es nx B assume L: "L = A @ (i, es, nx) # B"
    "(\<exists>es'. L' = A @ (i, es', nx) # B) \<or> (\<exists>es1 es2. L' = A @ (i, es1, Some a) # (a, es2, nx) # B)"
  then show "\<exists>A i es nx B. X @ L @ Y = A @ (i, es, nx) # B \<and>
     ((\<exists>es'. X @ L' @ Y = A @ (i, es', nx) # B) \<or> (\<exists>es1 es2. X @ L' @ Y = A @ (i, es1, Some a) # (a, es2, nx) # B))"
    by (intro exI[of _ "X @ A"] exI[of _ i] exI[of _ es] exI[of _ nx] exI[of _ "B @ Y"]) auto
qed

text \<open>What the result of an insertion below a node has to be.\<close>

definition bp_insert_ok :: "nat \<Rightarrow> nat \<Rightarrow> string option \<Rightarrow> string option \<Rightarrow> string \<Rightarrow> string \<Rightarrow> bp_node \<Rightarrow> bp_result \<Rightarrow> bool" where
  "bp_insert_ok a h lo hi key v n r \<longleftrightarrow>
     (case r of
        Bp_Duplicate \<Rightarrow> has key (bp_entries n)
      | Bp_Overflow \<Rightarrow> \<not> has key (bp_entries n) \<and> \<not> entry_fits (key, v)
      | Bp_Done n' \<Rightarrow> \<not> has key (bp_entries n) \<and> bp_ok h lo hi n' \<and>
          bp_entries n' = ins key v (bp_entries n) \<and> leaf_step a (leaves n) (leaves n')
      | Bp_Split l sep r \<Rightarrow> \<not> has key (bp_entries n) \<and> bp_ok h lo (Some sep) l \<and> bp_ok h (Some sep) hi r \<and>
          above lo sep \<and> up_to hi sep \<and>
          bp_entries l @ bp_entries r = ins key v (bp_entries n) \<and> leaf_step a (leaves n) (leaves l @ leaves r))"

lemma first_least: "keys_sorted es \<Longrightarrow> e \<in> set es \<Longrightarrow> fst (es ! 0) \<le> fst e"
  by (cases es) (auto intro: less_imp_le)

lemma insert_leaf:
  assumes ok: "bp_ok h lo hi (Bp_Leaf i es nx)" and key: "above lo key" "below hi key"
  shows "bp_insert_ok a h lo hi key v (Bp_Leaf i es nx) (insert_rec a (Bp_Leaf i es nx) key v)"
proof -
  have es: "h = 0" "length es \<le> 4" "keys_sorted es" "\<forall>e \<in> set es. above lo (fst e) \<and> below hi (fst e) \<and> entry_fits e"
    using ok by (simp_all add: c_consts)
  note hit = cut_hit[OF es(3), of key]
  consider (dup) "has key es" | (long) "\<not> has key es" "\<not> entry_fits (key, v)"
    | (room) "\<not> has key es" "entry_fits (key, v)" "length es < 4"
    | (full) "\<not> has key es" "entry_fits (key, v)" "length es = 4"
    using es(2) by fastforce
  then show ?thesis
  proof cases
    case dup
    then show ?thesis using hit by (simp add: bp_insert_ok_def leaf_find_cut[OF es(3)])
  next
    case long
    then show ?thesis using hit
      by (auto simp: bp_insert_ok_def leaf_find_cut[OF es(3)] entry_fits_def Let_def)
  next
    case room
    have r: "insert_rec a (Bp_Leaf i es nx) key v = Bp_Done (Bp_Leaf i (ins key v es) nx)"
      using room hit by (auto simp: leaf_find_cut[OF es(3)] entry_fits_def Let_def ins_at_cut c_consts)
    have "leaf_step a [(i, es, nx)] [(i, ins key v es, nx)]"
      unfolding leaf_step_def by (rule exI[of _ "[]"]) auto
    then show ?thesis unfolding r bp_insert_ok_def
      using room es key ins_sorted[OF es(3) room(1)] by (auto simp: length_ins set_ins c_consts)
  next
    case full
    let ?all = "ins key v es"
    have s: "keys_sorted ?all" by (rule ins_sorted[OF es(3) full(1)])
    have len: "length ?all = 5" using full by (simp add: length_ins)
    let ?l = "take 2 ?all" and ?r = "drop 2 ?all"
    have sep: "?r ! 0 \<in> set ?r" using len by (intro nth_mem) simp
    define sep where "sep = fst (?r ! 0)"
    have s2: "keys_sorted ?l" "keys_sorted ?r" "\<forall>x \<in> set ?l. \<forall>y \<in> set ?r. fst x < fst y"
      using s keys_sorted_append[of ?l ?r] by simp_all
    have all: "\<forall>e \<in> set ?all. above lo (fst e) \<and> below hi (fst e) \<and> entry_fits e"
      using es(4) key full(2) by (auto simp: set_ins)
    have sub: "set ?l \<subseteq> set ?all" "set ?r \<subseteq> set ?all" by (rule set_take_subset, rule set_drop_subset)
    have ge: "\<forall>e \<in> set ?r. sep \<le> fst e"
      using first_least[OF s2(2)] by (auto simp: sep_def)
    have r: "insert_rec a (Bp_Leaf i es nx) key v = Bp_Split (Bp_Leaf i ?l (Some a)) sep (Bp_Leaf a ?r nx)"
      using full hit by (auto simp: leaf_find_cut[OF es(3)] entry_fits_def Let_def ins_at_cut c_consts sep_def)
    have step: "leaf_step a [(i, es, nx)] [(i, ?l, Some a), (a, ?r, nx)]"
      unfolding leaf_step_def by (rule exI[of _ "[]"]) auto
    have "above lo sep" "up_to hi sep" using all sub(2) sep below_up_to by (auto simp: sep_def)
    moreover have "bp_ok h lo (Some sep) (Bp_Leaf i ?l (Some a))"
      using es(1) s2(1,3) sep all sub(1) len by (auto simp: sep_def c_consts)
    moreover have "bp_ok h (Some sep) hi (Bp_Leaf a ?r nx)"
      using es(1) s2(2) ge all sub(2) len by (auto simp: c_consts)
    ultimately show ?thesis unfolding r bp_insert_ok_def using full(1) step by simp
  qed
qed

lemma bp_entries_split:
  assumes "i < length cs"
  shows "concat (map f cs) = concat (map f (take i cs)) @ f (cs ! i) @ concat (map f (drop (Suc i) cs))"
proof -
  have "cs = take i cs @ cs ! i # drop (Suc i) cs" using assms by (rule id_take_nth_drop)
  then show ?thesis by (metis concat.simps(2) concat_append list.simps(9) map_append)
qed

lemma insert_rec_ok:
  "bp_ok h lo hi n \<Longrightarrow> above lo key \<Longrightarrow> below hi key \<Longrightarrow> bp_insert_ok a h lo hi key v n (insert_rec a n key v)"
proof (induction a n key v arbitrary: h lo hi rule: insert_rec.induct)
  case (1 a i es nx key v)
  then show ?case by (rule insert_leaf)
next
  case (2 a ks cs key v)
  let ?ci = "internal_find_child ks key"
  let ?n = "Bp_Internal ks cs"
  have h: "0 < h" "1 \<le> length ks" "length ks \<le> 4" and oks: "bp_oks (h - 1) lo hi ks cs" using "2.prems"(1) by (simp_all add: c_consts)
  obtain lo' hi' where L: "located (h - 1) lo hi ks cs key ?ci lo' hi'" using oks_locate[OF oks "2.prems"(2,3)] by (elim exE)
  note loc = locatedD(1-4)[OF L] and repl = locatedD(5)[OF L] and split = locatedD(6)[OF L]
    and before = locatedD(7)[OF L] and after = locatedD(8)[OF L]
  let ?A = "concat (map bp_entries (take ?ci cs))" and ?C = "concat (map bp_entries (drop (Suc ?ci) cs))"
  let ?X = "concat (map leaves (take ?ci cs))" and ?Y = "concat (map leaves (drop (Suc ?ci) cs))"
  have entries: "bp_entries ?n = ?A @ bp_entries (cs ! ?ci) @ ?C" and lv: "leaves ?n = ?X @ leaves (cs ! ?ci) @ ?Y"
    using bp_entries_split[OF loc(1)] by simp_all
  have has: "has key (bp_entries ?n) \<longleftrightarrow> has key (bp_entries (cs ! ?ci))"
    unfolding entries using before after by (simp only: set_append image_Un Un_iff) (metis (no_types, lifting) imageE less_irrefl)
  have insn: "ins key v (bp_entries ?n) = ?A @ ins key v (bp_entries (cs ! ?ci)) @ ?C"
    unfolding entries by (rule ins_context[OF before]) (metis after less_imp_le)
  let ?r = "insert_rec a (cs ! ?ci) key v"
  have IH: "bp_insert_ok a (h - 1) lo' hi' key v (cs ! ?ci) ?r" using "2.IH"[OF refl _ loc(2-4)] loc(1) by simp
  show ?case
  proof (cases ?r)
    case Bp_Duplicate
    then show ?thesis using IH loc(1) has by (simp add: bp_insert_ok_def)
  next
    case Bp_Overflow
    then show ?thesis using IH loc(1) has by (simp add: bp_insert_ok_def)
  next
    case (Bp_Done c)
    then have c: "\<not> has key (bp_entries (cs ! ?ci))" "bp_ok (h - 1) lo' hi' c" "bp_entries c = ins key v (bp_entries (cs ! ?ci))"
      "leaf_step a (leaves (cs ! ?ci)) (leaves c)" using IH by (simp_all add: bp_insert_ok_def)
    have r: "insert_rec a ?n key v = Bp_Done (Bp_Internal ks (cs[?ci := c]))" using loc(1) Bp_Done by (simp add: Let_def)
    have upd: "cs[?ci := c] = take ?ci cs @ c # drop (Suc ?ci) cs" using loc(1) by (rule upd_conv_take_nth_drop)
    have "bp_entries (Bp_Internal ks (cs[?ci := c])) = ins key v (bp_entries ?n)" unfolding insn upd using c(3) by simp
    moreover have "leaf_step a (leaves ?n) (leaves (Bp_Internal ks (cs[?ci := c])))"
      unfolding lv upd using leaf_step_context[OF c(4)] by simp
    moreover have "bp_ok h lo hi (Bp_Internal ks (cs[?ci := c]))" using h repl[OF c(2)] by (simp add: c_consts)
    ultimately show ?thesis unfolding r bp_insert_ok_def using c(1) has by simp
  next
    case (Bp_Split c1 sep c2)
    then have c: "\<not> has key (bp_entries (cs ! ?ci))" "bp_ok (h - 1) lo' (Some sep) c1" "bp_ok (h - 1) (Some sep) hi' c2"
      "above lo' sep" "up_to hi' sep" "bp_entries c1 @ bp_entries c2 = ins key v (bp_entries (cs ! ?ci))"
      "leaf_step a (leaves (cs ! ?ci)) (leaves c1 @ leaves c2)" using IH by (simp_all add: bp_insert_ok_def)
    define ks' where "ks' = take ?ci ks @ sep # drop ?ci ks"
    define cs' where "cs' = take ?ci cs @ c1 # c2 # drop (Suc ?ci) cs"
    have oks': "bp_oks (h - 1) lo hi ks' cs'" unfolding ks'_def cs'_def by (rule split[OF c(2-5)])
    have len: "length ks' = Suc (length ks)" by (simp add: ks'_def)
    have e': "concat (map bp_entries cs') = ins key v (bp_entries ?n)" unfolding insn cs'_def using c(6) by simp
    have l': "leaf_step a (leaves ?n) (concat (map leaves cs'))"
      unfolding lv cs'_def using leaf_step_context[OF c(7)] by simp
    show ?thesis
    proof (cases "length ks' \<le> 4")
      case True
      then have "insert_rec a ?n key v = Bp_Done (Bp_Internal ks' cs')"
        using loc(1) Bp_Split by (simp add: Let_def ks'_def cs'_def c_consts)
      moreover have "bp_ok h lo hi (Bp_Internal ks' cs')" using h oks' True len by (simp add: c_consts)
      ultimately show ?thesis unfolding bp_insert_ok_def using c(1) has e' l' by simp
    next
      case False
      then have five: "length ks' = 5" using h len by simp
      have "length cs = 5" using bp_oks_length[OF oks] five len by simp
      then have four: "length ks = 4" "min 4 ?ci + (4 - ?ci) = 4" using five len loc(1) by simp_all
      have r: "insert_rec a ?n key v = Bp_Split (Bp_Internal (take 2 ks') (take 3 cs')) (ks' ! 2) (Bp_Internal (drop 3 ks') (drop 3 cs'))"
        using loc(1) Bp_Split four by (simp add: Let_def ks'_def cs'_def c_consts numeral_3_eq_3)
      have half: "bp_oks (h - 1) lo (Some (ks' ! 2)) (take 2 ks') (take 3 cs')" "bp_oks (h - 1) (Some (ks' ! 2)) hi (drop 3 ks') (drop 3 cs')"
        using oks_halves[OF oks', of 2] five by (simp_all add: eval_nat_numeral)
      have mid: "above lo (ks' ! 2)" "up_to hi (ks' ! 2)" using oks_above[OF oks', of "ks' ! 2"] five by simp_all
      have cat: "concat (map f (take 3 cs')) @ concat (map f (drop 3 cs')) = concat (map f cs')" for f :: "bp_node \<Rightarrow> 'a list"
        by (metis append_take_drop_id concat_append map_append)
      show ?thesis unfolding r bp_insert_ok_def
        using h five half mid c(1) has cat[of bp_entries] cat[of leaves] e' l' by (simp add: c_consts)
    qed
  qed
qed

section \<open>Deletion\<close>

lemma remove_found: "keys_sorted es \<Longrightarrow> find_idx (\<lambda>e. fst e = key) es = Some i \<Longrightarrow> take i es @ drop (Suc i) es = del key es"
proof (induction es arbitrary: i)
  case (Cons e es)
  show ?case
  proof (cases "fst e = key")
    case True
    then have "filter (\<lambda>e. fst e \<noteq> key) es = es" using Cons.prems(1) by (auto simp: filter_id_conv)
    then show ?thesis using Cons.prems(2) True by (auto simp: del_def)
  next
    case False
    then show ?thesis using Cons by (auto simp: del_def)
  qed
qed simp

lemma del_absent: "\<not> has key es \<Longrightarrow> del key es = es"
  by (force simp: del_def filter_id_conv)

lemma length_del: "keys_sorted es \<Longrightarrow> has key es \<Longrightarrow> length (del key es) = length es - 1"
proof (induction es)
  case (Cons e es)
  show ?case
  proof (cases "fst e = key")
    case True
    then have "\<not> has key es" using Cons.prems(1) by auto
    then show ?thesis using del_absent True by (simp add: del_def)
  next
    case False
    then have "has key es" using Cons.prems(2) by auto
    moreover from this have "0 < length es" by (cases es) auto
    ultimately show ?thesis using Cons False by (simp add: del_def)
  qed
qed simp

lemma keys_sorted_del: "keys_sorted es \<Longrightarrow> keys_sorted (del key es)"
  unfolding del_def by (induction es) auto

definition bp_delete_ok :: "nat \<Rightarrow> nat \<Rightarrow> string option \<Rightarrow> string option \<Rightarrow> string \<Rightarrow> bp_node \<Rightarrow> bp_node option option \<Rightarrow> bool" where
  "bp_delete_ok a h lo hi key n r \<longleftrightarrow>
     (case r of None \<Rightarrow> False
      | Some None \<Rightarrow> \<not> has key (bp_entries n)
      | Some (Some n') \<Rightarrow> has key (bp_entries n) \<and> bp_ok h lo hi n' \<and>
          bp_entries n' = del key (bp_entries n) \<and> leaf_step a (leaves n) (leaves n') \<and>
          map fst (leaves n') = map fst (leaves n))"

lemma delete_rec_ok:
  "bp_ok h lo hi n \<Longrightarrow> above lo key \<Longrightarrow> below hi key \<Longrightarrow> bp_delete_ok a h lo hi key n (delete_rec n key)"
proof (induction n key arbitrary: h lo hi rule: delete_rec.induct)
  case (1 i es nx key)
  have es: "h = 0" "length es \<le> 4" "keys_sorted es" "\<forall>e \<in> set es. above lo (fst e) \<and> below hi (fst e) \<and> entry_fits e"
    using "1.prems"(1) by (simp_all add: c_consts)
  show ?case
  proof (cases "find_idx (\<lambda>e. fst e = key) es")
    case None
    then have "\<not> has key es" by (auto simp: find_idx_None_iff)
    with None show ?thesis by (simp add: bp_delete_ok_def)
  next
    case (Some found)
    have r: "delete_rec (Bp_Leaf i es nx) key = Some (Some (Bp_Leaf i (del key es) nx))"
      using Some remove_found[OF es(3) Some] by simp
    have "has key es" using find_idx_SomeD(1,2)[OF Some] by (metis image_eqI nth_mem)
    moreover have "leaf_step a [(i, es, nx)] [(i, del key es, nx)]"
      unfolding leaf_step_def by (rule exI[of _ "[]"]) auto
    moreover have "length (del key es) \<le> 4" unfolding del_def by (rule le_trans[OF length_filter_le es(2)])
    ultimately show ?thesis unfolding r bp_delete_ok_def
      using es(1,4) keys_sorted_del[OF es(3)] by (simp add: c_consts) (auto simp: del_def)
  qed
next
  case (2 ks cs key)
  let ?ci = "internal_find_child ks key"
  let ?n = "Bp_Internal ks cs"
  have h: "0 < h" "1 \<le> length ks" "length ks \<le> 4" and oks: "bp_oks (h - 1) lo hi ks cs" using "2.prems"(1) by (simp_all add: c_consts)
  obtain lo' hi' where L: "located (h - 1) lo hi ks cs key ?ci lo' hi'" using oks_locate[OF oks "2.prems"(2,3)] by (elim exE)
  note loc = locatedD(1-4)[OF L] and repl = locatedD(5)[OF L] and before = locatedD(7)[OF L] and after = locatedD(8)[OF L]
  let ?A = "concat (map bp_entries (take ?ci cs))" and ?C = "concat (map bp_entries (drop (Suc ?ci) cs))"
  let ?X = "concat (map leaves (take ?ci cs))" and ?Y = "concat (map leaves (drop (Suc ?ci) cs))"
  have entries: "bp_entries ?n = ?A @ bp_entries (cs ! ?ci) @ ?C" and lv: "leaves ?n = ?X @ leaves (cs ! ?ci) @ ?Y"
    using bp_entries_split[OF loc(1)] by simp_all
  have no: "\<not> has key ?A" "\<not> has key ?C" using before after by (metis imageE less_irrefl)+
  then have has: "has key (bp_entries ?n) \<longleftrightarrow> has key (bp_entries (cs ! ?ci))"
    unfolding entries by (simp only: set_append image_Un Un_iff) blast
  have deln: "del key (bp_entries ?n) = ?A @ del key (bp_entries (cs ! ?ci)) @ ?C"
    unfolding entries using del_absent[OF no(1)] del_absent[OF no(2)] by (simp add: del_def)
  let ?r = "delete_rec (cs ! ?ci) key"
  have IH: "bp_delete_ok a (h - 1) lo' hi' key (cs ! ?ci) ?r" using "2.IH"[OF refl _ loc(2-4)] loc(1) by simp
  consider "?r = None" | "?r = Some None" | c where "?r = Some (Some c)" by (metis not_Some_eq)
  then show ?case
  proof cases
    case 3
    then have c: "has key (bp_entries (cs ! ?ci))" "bp_ok (h - 1) lo' hi' c" "bp_entries c = del key (bp_entries (cs ! ?ci))"
      "leaf_step a (leaves (cs ! ?ci)) (leaves c)" "map fst (leaves c) = map fst (leaves (cs ! ?ci))" using IH by (simp_all add: bp_delete_ok_def)
    have r: "delete_rec ?n key = Some (Some (Bp_Internal ks (cs[?ci := c])))" using loc(1) 3 by (simp add: Let_def)
    have upd: "cs[?ci := c] = take ?ci cs @ c # drop (Suc ?ci) cs" using loc(1) by (rule upd_conv_take_nth_drop)
    have "bp_entries (Bp_Internal ks (cs[?ci := c])) = del key (bp_entries ?n)" unfolding deln upd using c(3) by simp
    moreover have "leaf_step a (leaves ?n) (leaves (Bp_Internal ks (cs[?ci := c])))"
      unfolding lv upd using leaf_step_context[OF c(4)] by simp
    moreover have "bp_ok h lo hi (Bp_Internal ks (cs[?ci := c]))" using h repl[OF c(2)] by (simp add: c_consts)
    moreover have "map fst (leaves (Bp_Internal ks (cs[?ci := c]))) = map fst (leaves ?n)" unfolding lv upd using c(5) by simp
    ultimately show ?thesis unfolding r bp_delete_ok_def using c(1) has by simp
  qed (use IH loc(1) has in \<open>simp_all add: bp_delete_ok_def\<close>)
qed

section \<open>Finding a leaf\<close>

definition flat :: "bp_leaf list \<Rightarrow> bp_entry list" where
  "flat L = concat (map (\<lambda>l. fst (snd l)) L)"

lemma flat_simps [simp]: "flat [] = []" "flat (l # L) = fst (snd l) @ flat L" "flat (L @ M) = flat L @ flat M"
  by (simp_all add: flat_def)

lemma entries_flat: "bp_entries n = flat (leaves n)"
  by (simp add: bp_entries_def flat_def)

lemma flat_leaves: "flat (concat (map leaves cs)) = concat (map bp_entries cs)"
  by (simp add: flat_def bp_entries_def[abs_def] concat_map_concat comp_def)

lemma find_leaf_ok:
  "bp_ok h lo hi n \<Longrightarrow> above lo key \<Longrightarrow> below hi key \<Longrightarrow>
   \<exists>A leaf B. find_leaf n key = Some leaf \<and> leaves n = A @ leaf # B \<and>
     (\<forall>e \<in> set (flat A). fst e < key) \<and> (\<forall>e \<in> set (flat B). key < fst e)"
proof (induction n key arbitrary: h lo hi rule: find_leaf.induct)
  case (1 i es nx key)
  show ?case by (rule exI[of _ "[]"]) simp
next
  case (2 ks cs key)
  let ?ci = "internal_find_child ks key"
  have oks: "bp_oks (h - 1) lo hi ks cs" using "2.prems"(1) by simp
  obtain lo' hi' where L: "located (h - 1) lo hi ks cs key ?ci lo' hi'" using oks_locate[OF oks "2.prems"(2,3)] by (elim exE)
  note loc = locatedD(1-4)[OF L] and before = locatedD(7)[OF L] and after = locatedD(8)[OF L]
  obtain A leaf B where IH: "find_leaf (cs ! ?ci) key = Some leaf" "leaves (cs ! ?ci) = A @ leaf # B"
    "\<forall>e \<in> set (flat A). fst e < key" "\<forall>e \<in> set (flat B). key < fst e"
    using "2.IH"[OF refl loc] by (elim exE conjE)
  let ?X = "concat (map leaves (take ?ci cs))" and ?Y = "concat (map leaves (drop (Suc ?ci) cs))"
  have "leaves (Bp_Internal ks cs) = (?X @ A) @ leaf # (B @ ?Y)"
    using bp_entries_split[OF loc(1), of leaves] IH(2) by simp
  moreover have "\<forall>e \<in> set (flat (?X @ A)). fst e < key"
    using before IH(3) unfolding flat_leaves flat_simps(3) set_append by (metis UnE)
  moreover have "\<forall>e \<in> set (flat (B @ ?Y)). key < fst e"
    using after IH(4) unfolding flat_leaves flat_simps(3) set_append by (metis UnE)
  moreover have "find_leaf (Bp_Internal ks cs) key = Some leaf" using IH(1) loc(1) by (simp add: Let_def)
  ultimately show ?case by (intro exI[of _ "?X @ A"] exI[of _ leaf] exI[of _ "B @ ?Y"] conjI)
qed

section \<open>The chain of leaves\<close>

fun chained :: "bp_leaf list \<Rightarrow> bool" where
  "chained [] \<longleftrightarrow> True"
| "chained (l # L) \<longleftrightarrow> snd (snd l) = (case L of [] \<Rightarrow> None | m # _ \<Rightarrow> Some (fst m)) \<and> chained L"

lemma chained_replace: "chained (A @ l # B) \<Longrightarrow> fst l' = fst l \<Longrightarrow> chained (l' # B') \<Longrightarrow> chained (A @ l' # B')"
proof (induction A)
  case (Cons m A)
  then show ?case by (cases A) auto
qed simp

lemma chained_suffix: "chained (A @ B) \<Longrightarrow> chained B"
  by (induction A) auto

lemma leaf_step_chain:
  assumes "leaf_step a L L'" "chained L" "distinct (map fst L)" "\<forall>l \<in> set L. fst l < a"
  shows "chained L' \<and> distinct (map fst L') \<and> (\<forall>l \<in> set L'. fst l < Suc a)"
proof -
  obtain A i es nx B where L: "L = A @ (i, es, nx) # B"
    and L': "(\<exists>es'. L' = A @ (i, es', nx) # B) \<or> (\<exists>es1 es2. L' = A @ (i, es1, Some a) # (a, es2, nx) # B)"
    using assms(1) by (auto simp: leaf_step_def)
  have tail: "chained ((i, es, nx) # B)" using assms(2) chained_suffix unfolding L by blast
  from L' show ?thesis
  proof (elim disjE exE)
    fix es' assume E: "L' = A @ (i, es', nx) # B"
    have "chained L'" unfolding E by (rule chained_replace[OF assms(2)[unfolded L]]) (use tail in simp_all)
    moreover have "map fst L' = map fst L" using E L by simp
    moreover have "\<forall>l \<in> set L'. fst l \<in> fst ` set L" using E L by auto
    ultimately show ?thesis using assms(3,4) by fastforce
  next
    fix es1 es2 assume E: "L' = A @ (i, es1, Some a) # (a, es2, nx) # B"
    have "chained L'" unfolding E by (rule chained_replace[OF assms(2)[unfolded L]]) (use tail in simp_all)
    moreover have "a \<notin> fst ` set L" using assms(4) by auto
    then have "distinct (map fst L')" using assms(3) E L by auto
    moreover have "\<forall>l \<in> set L'. fst l \<in> insert a (fst ` set L)" using E L by auto
    then have "\<forall>l \<in> set L'. fst l < Suc a" using assms(4) by fastforce
    ultimately show ?thesis by blast
  qed
qed

section \<open>Range scans\<close>

definition in_range :: "string \<Rightarrow> string \<Rightarrow> bp_entry \<Rightarrow> bool" where
  "in_range low high e \<longleftrightarrow> low \<le> fst e \<and> fst e \<le> high"

lemma bp_scan_entries_spec:
  "keys_sorted (es @ rest) \<Longrightarrow> bp_scan_entries low high es = (out, stop) \<Longrightarrow>
   out = filter (in_range low high) es \<and> (stop \<longrightarrow> filter (in_range low high) rest = [])"
proof (induction es arbitrary: out stop)
  case (Cons e es)
  show ?case
  proof (cases "high < fst e")
    case True
    have "\<not> in_range low high x" if "x \<in> set (es @ rest)" for x
    proof -
      have "fst e < fst x" using Cons.prems(1) that by auto
      then show ?thesis using True by (auto simp: in_range_def)
    qed
    then have "filter (in_range low high) es = []" "filter (in_range low high) rest = []" by (auto simp: filter_empty_conv)
    then show ?thesis using Cons.prems(2) True unfolding bp_scan_entries.simps Let_def filter.simps
      by (auto simp: in_range_def[of low high e])
  next
    case False
    obtain out' stop' where s: "bp_scan_entries low high es = (out', stop')" by (cases "bp_scan_entries low high es")
    then show ?thesis using Cons.IH[OF _ s] Cons.prems False by (auto simp: in_range_def Let_def)
  qed
qed simp

lemma scan_leaves_spec:
  "chained (l # B) \<Longrightarrow> distinct (map fst (leaves root)) \<Longrightarrow> leaves root = A @ l # B \<Longrightarrow> keys_sorted (flat (l # B)) \<Longrightarrow>
   scan_leaves root low high (snd l) acc = Some (acc @ filter (in_range low high) (flat (l # B)))"
proof (induction B arbitrary: l A acc)
  case Nil
  obtain out stop where s: "bp_scan_entries low high (fst (snd l)) = (out, stop)" by (cases "bp_scan_entries low high (fst (snd l))")
  have "out = filter (in_range low high) (fst (snd l))" using bp_scan_entries_spec[OF _ s, of "[]"] Nil.prems(4) by simp
  then show ?case using s Nil.prems(1) by (subst scan_leaves.simps) simp
next
  case (Cons m B)
  obtain out stop where s: "bp_scan_entries low high (fst (snd l)) = (out, stop)" by (cases "bp_scan_entries low high (fst (snd l))")
  have out: "out = filter (in_range low high) (fst (snd l))" "stop \<longrightarrow> filter (in_range low high) (flat (m # B)) = []"
    using bp_scan_entries_spec[OF _ s, of "flat (m # B)"] Cons.prems(4) by simp_all
  show ?case
  proof (cases stop)
    case True
    then show ?thesis using s out by (subst scan_leaves.simps) simp
  next
    case False
    have nx: "snd (snd l) = Some (fst m)" using Cons.prems(1) by simp
    have at: "leaf_at root (fst m) = Some (snd m)"
      unfolding leaf_at_def using Cons.prems(2,3) by (intro map_of_is_SomeI) auto
    have IH: "scan_leaves root low high (snd m) (acc @ out) = Some ((acc @ out) @ filter (in_range low high) (flat (m # B)))"
    proof (rule Cons.IH[of m "A @ [l]"])
      have "keys_sorted (fst (snd l) @ flat (m # B))" using Cons.prems(4) by simp
      then show "keys_sorted (flat (m # B))" unfolding keys_sorted_append by blast
    qed (use Cons.prems in simp_all)
    show ?thesis using s False nx at IH out(1) by (subst scan_leaves.simps) simp
  qed
qed

section \<open>Trees\<close>

definition bptree_ok :: "bptree \<Rightarrow> bool" where
  "bptree_ok t \<longleftrightarrow> (\<exists>h. bp_ok h None None (bp_root t)) \<and> chained (leaves (bp_root t)) \<and>
     distinct (map fst (leaves (bp_root t))) \<and> (\<forall>l \<in> set (leaves (bp_root t)). fst l < bp_fresh t) \<and>
     bp_count t = int (length (bp_entries (bp_root t)))"

definition bp_map :: "bptree \<Rightarrow> string \<Rightarrow> string option" where
  "bp_map t = map_of (bp_entries (bp_root t))"

datatype bp_op = Bp_Insert string string | Bp_Delete string

text \<open>An operation that would write behind an array is not performed.\<close>

fun bptree_step :: "bp_op \<Rightarrow> bptree \<Rightarrow> bptree" where
  "bptree_step (Bp_Insert key v) t = (case bptree_insert key v t of None \<Rightarrow> t | Some (_, t) \<Rightarrow> t)"
| "bptree_step (Bp_Delete key) t = (case bptree_delete key t of None \<Rightarrow> t | Some (_, t) \<Rightarrow> t)"

lemma bp_keys_distinct: "keys_sorted es \<Longrightarrow> distinct (map fst es)"
  by (simp add: strict_sorted_iff)

lemma bptree_entries:
  assumes "bptree_ok t"
  shows "keys_sorted (bp_entries (bp_root t))" "\<forall>e \<in> set (bp_entries (bp_root t)). entry_fits e"
  using assms bp_ok_entries(1) by (auto simp: bptree_ok_def)

lemma bp_map_None: "bp_map t key = None \<longleftrightarrow> \<not> has key (bp_entries (bp_root t))"
  by (simp add: bp_map_def map_of_eq_None_iff)

lemma bptree_insert_ok:
  assumes "bptree_ok t"
  shows "(bp_map t key \<noteq> None \<longrightarrow> bptree_insert key v t = Some (-1, t)) \<and>
    (bp_map t key = None \<longrightarrow> (bptree_insert key v t = None \<and> \<not> entry_fits (key, v)) \<or>
       (\<exists>t'. bptree_insert key v t = Some (0, t') \<and> bptree_ok t' \<and> bp_map t' = (bp_map t)(key \<mapsto> v)))"
proof -
  obtain h where h: "bp_ok h None None (bp_root t)" using assms by (auto simp: bptree_ok_def)
  note sorted = bptree_entries(1)[OF assms]
  let ?r = "insert_rec (bp_fresh t) (bp_root t) key v"
  have I: "bp_insert_ok (bp_fresh t) h None None key v (bp_root t) ?r" using insert_rec_ok[OF h] by simp
  have upd: "bptree_ok t' \<and> bp_map t' = (bp_map t)(key \<mapsto> v)"
    if "\<not> has key (bp_entries (bp_root t))" "bp_ok h' None None (bp_root t')" "bp_entries (bp_root t') = ins key v (bp_entries (bp_root t))"
      "leaf_step (bp_fresh t) (leaves (bp_root t)) (leaves (bp_root t'))" "bp_count t' = bp_count t + 1" "bp_fresh t' = bp_fresh t + 1" for h' t'
  proof -
    have "chained (leaves (bp_root t')) \<and> distinct (map fst (leaves (bp_root t'))) \<and> (\<forall>l \<in> set (leaves (bp_root t')). fst l < Suc (bp_fresh t))"
      by (rule leaf_step_chain[OF that(4)]) (use assms in \<open>simp_all add: bptree_ok_def\<close>)
    moreover have "bp_map t' = (bp_map t)(key \<mapsto> v)" unfolding bp_map_def that(3) by (rule ins_map[OF sorted that(1)])
    moreover have "bp_count t' = int (length (bp_entries (bp_root t')))" using assms that(3,5) by (simp add: bptree_ok_def length_ins)
    ultimately show ?thesis using that(2,6) unfolding bptree_ok_def by auto
  qed
  show ?thesis
  proof (cases ?r)
    case Bp_Duplicate
    then show ?thesis using I by (simp add: bp_insert_ok_def bptree_insert_def bp_map_None)
  next
    case Bp_Overflow
    then show ?thesis using I by (simp add: bp_insert_ok_def bptree_insert_def bp_map_None)
  next
    case (Bp_Done n)
    let ?t' = "t\<lparr>bp_root := n, bp_count := bp_count t + 1, bp_fresh := bp_fresh t + 1\<rparr>"
    have "\<not> has key (bp_entries (bp_root t))" using I Bp_Done by (simp add: bp_insert_ok_def)
    moreover from this have "bptree_ok ?t' \<and> bp_map ?t' = (bp_map t)(key \<mapsto> v)"
      by (rule upd[of h]) (use I Bp_Done in \<open>simp_all add: bp_insert_ok_def\<close>)
    ultimately show ?thesis using Bp_Done by (simp add: bptree_insert_def bp_map_None)
  next
    case (Bp_Split l sep r)
    let ?t' = "t\<lparr>bp_root := Bp_Internal [sep] [l, r], bp_count := bp_count t + 1, bp_fresh := bp_fresh t + 1\<rparr>"
    have "\<not> has key (bp_entries (bp_root t))" using I Bp_Split by (simp add: bp_insert_ok_def)
    moreover from this have "bptree_ok ?t' \<and> bp_map ?t' = (bp_map t)(key \<mapsto> v)"
      by (rule upd[of "Suc h"]) (use I Bp_Split in \<open>simp_all add: bp_insert_ok_def c_consts\<close>)
    ultimately show ?thesis using Bp_Split by (simp add: bptree_insert_def bp_map_None)
  qed
qed

lemma collapse_root_ok: "bp_ok h lo hi n \<Longrightarrow> collapse_root n = n"
  by (cases n rule: collapse_root.cases) auto

lemma bptree_delete_ok:
  assumes "bptree_ok t"
  shows "(bp_map t key = None \<longrightarrow> bptree_delete key t = Some (-1, t)) \<and>
    (bp_map t key \<noteq> None \<longrightarrow> (\<exists>t'. bptree_delete key t = Some (0, t') \<and> bptree_ok t' \<and> bp_map t' = (bp_map t)(key := None)))"
proof -
  obtain h where h: "bp_ok h None None (bp_root t)" using assms by (auto simp: bptree_ok_def)
  note sorted = bptree_entries(1)[OF assms]
  let ?r = "delete_rec (bp_root t) key"
  have I: "bp_delete_ok (bp_fresh t) h None None key (bp_root t) ?r" using delete_rec_ok[OF h] by simp
  consider "?r = Some None" "\<not> has key (bp_entries (bp_root t))" | n where "?r = Some (Some n)" "has key (bp_entries (bp_root t))"
    "bp_ok h None None n" "bp_entries n = del key (bp_entries (bp_root t))" "leaf_step (bp_fresh t) (leaves (bp_root t)) (leaves n)" "map fst (leaves n) = map fst (leaves (bp_root t))"
    using I unfolding bp_delete_ok_def by (auto split: option.splits)
  then show ?thesis
  proof cases
    case 1
    then show ?thesis by (simp add: bptree_delete_def bp_map_None)
  next
    case 2
    let ?t' = "t\<lparr>bp_root := n, bp_count := bp_count t - 1\<rparr>"
    have L: "chained (leaves n) \<and> distinct (map fst (leaves n))"
      using leaf_step_chain[OF 2(5)] assms by (simp add: bptree_ok_def)
    have "fst ` set (leaves n) = fst ` set (leaves (bp_root t))" using 2(6) by (metis list.set_map)
    moreover have "\<forall>i \<in> fst ` set (leaves (bp_root t)). i < bp_fresh t" using assms by (simp add: bptree_ok_def)
    ultimately have ids: "\<forall>l \<in> set (leaves n). fst l < bp_fresh t" by (metis imageI)
    have "0 < length (bp_entries (bp_root t))" using 2(2) by auto
    then have "length (bp_entries (bp_root t)) = Suc (length (bp_entries n))"
      unfolding 2(4) length_del[OF sorted 2(2)] by linarith
    then have "int (length (bp_entries n)) = bp_count t - 1" using assms by (simp add: bptree_ok_def)
    then have "bptree_ok ?t'" using assms 2(3) L ids by (auto simp: bptree_ok_def)
    moreover have "bp_map ?t' = (bp_map t)(key := None)" by (simp add: bp_map_def 2(4) del_map)
    ultimately show ?thesis using 2(1,2) collapse_root_ok[OF 2(3)] by (simp add: bptree_delete_def bp_map_None)
  qed
qed

interpretation bptrees: invariant_system "\<lambda>t. t = bptree_create" bptree_step bptree_ok
proof
  show "bptree_ok t" if "t = bptree_create" for t
    using that by (auto simp: bptree_create_def bptree_ok_def intro!: exI[of _ 0])
  show "bptree_ok (bptree_step op t)" if "bptree_ok t" for t op
  proof (cases op)
    case (Bp_Insert key v)
    then show ?thesis using bptree_insert_ok[OF that, of key v] that
      by (cases "bptree_insert key v t") auto
  next
    case (Bp_Delete key)
    then show ?thesis using bptree_delete_ok[OF that, of key] that
      by (cases "bptree_delete key t") auto
  qed
qed

lemma bp_search_spec:
  assumes "bptree_ok t"
  shows "bptree_search t key = Some (bp_map t key)"
proof -
  obtain h where h: "bp_ok h None None (bp_root t)" using assms by (auto simp: bptree_ok_def)
  obtain A leaf B where f: "find_leaf (bp_root t) key = Some leaf" "leaves (bp_root t) = A @ leaf # B"
    "\<forall>e \<in> set (flat A). fst e < key" "\<forall>e \<in> set (flat B). key < fst e"
    using find_leaf_ok[OF h, of key] by auto
  obtain i es nx where leaf: "leaf = (i, es, nx)" by (cases leaf)
  have e: "bp_entries (bp_root t) = flat A @ es @ flat B" by (simp add: entries_flat f(2) leaf)
  then have s: "keys_sorted es" using bptree_entries(1)[OF assms] by (simp add: sorted_wrt_append)
  have "\<not> has key (flat A)" "\<not> has key (flat B)" using f(3,4) by (metis imageE less_irrefl)+
  then have "map_of (flat A) key = None" "map_of (flat B) key = None" by (simp_all add: map_of_eq_None_iff)
  then have m: "bp_map t key = map_of es key" by (simp add: bp_map_def e map_add_def split: option.splits)
  show ?thesis
  proof (cases "has key es")
    case True
    then have c: "cut key es < length es" "fst (es ! cut key es) = key" using cut_hit[OF s] by blast+
    then have "(key, snd (es ! cut key es)) \<in> set es" by (metis nth_mem prod.collapse)
    then have "map_of es key = Some (snd (es ! cut key es))" using bp_keys_distinct[OF s] by simp
    then show ?thesis using c m f(1) leaf by (simp add: bptree_search_def Let_def leaf_find_cut[OF s])
  next
    case False
    then have "map_of es key = None" by (simp add: map_of_eq_None_iff)
    then show ?thesis using False cut_hit[OF s, of key] m f(1) leaf
      by (auto simp: bptree_search_def Let_def leaf_find_cut[OF s])
  qed
qed

lemma range_spec:
  assumes ok: "bptree_ok t"
  shows "\<exists>es. bptree_range_scan t low high = Some es \<and> sorted_wrt (<) (map fst es) \<and>
    set es = {(k, v). bp_map t k = Some v \<and> low \<le> k \<and> k \<le> high}"
proof -
  obtain h where h: "bp_ok h None None (bp_root t)" using ok by (auto simp: bptree_ok_def)
  obtain A leaf B where f: "find_leaf (bp_root t) low = Some leaf" "leaves (bp_root t) = A @ leaf # B"
    "\<forall>e \<in> set (flat A). fst e < low" using find_leaf_ok[OF h, of low] by auto
  have e: "bp_entries (bp_root t) = flat A @ flat (leaf # B)" by (simp add: entries_flat f(2))
  note sorted = bptree_entries(1)[OF ok]
  have "scan_leaves (bp_root t) low high (snd leaf) [] = Some ([] @ filter (in_range low high) (flat (leaf # B)))"
  proof (rule scan_leaves_spec[OF _ _ f(2)])
    show "chained (leaf # B)" using ok chained_suffix[of A "leaf # B"] f(2) by (simp add: bptree_ok_def)
    show "distinct (map fst (leaves (bp_root t)))" using ok by (simp add: bptree_ok_def)
    show "keys_sorted (flat (leaf # B))" using sorted unfolding e keys_sorted_append by blast
  qed
  moreover have "filter (in_range low high) (flat A) = []" using f(3) by (auto simp: filter_empty_conv in_range_def)
  ultimately have r: "bptree_range_scan t low high = Some (filter (in_range low high) (bp_entries (bp_root t)))"
    using f(1) unfolding e by (cases leaf) (simp add: bptree_range_scan_def)
  have "keys_sorted (filter (in_range low high) (bp_entries (bp_root t)))"
    using sorted by (simp add: sorted_wrt_map sorted_wrt_filter)
  moreover have "set (bp_entries (bp_root t)) = {(k, v). bp_map t k = Some v}"
    using map_of_eq_Some_iff[OF bp_keys_distinct[OF sorted]] by (auto simp: bp_map_def)
  ultimately show ?thesis using r by (auto simp: in_range_def)
qed

text \<open>The depths of the leaves below a node.\<close>

fun leaf_depths :: "bp_node \<Rightarrow> nat set" where
  "leaf_depths (Bp_Leaf i es nx) = {0}"
| "leaf_depths (Bp_Internal ks cs) = (\<Union>c \<in> set cs. Suc ` leaf_depths c)"

lemma bp_ok_depths:
  "bp_ok h lo hi n \<Longrightarrow> leaf_depths n = {h}"
  "bp_oks h lo hi ks cs \<Longrightarrow> (\<Union>c \<in> set cs. leaf_depths c) = {h}"
proof (induction h lo hi n and h lo hi ks cs rule: bp_ok_bp_oks.induct)
  case (2 h lo hi ks cs)
  then have "(\<Union>c \<in> set cs. Suc ` leaf_depths c) = Suc ` {h - 1}" unfolding image_UN[symmetric] by simp
  then show ?case using 2 by simp
qed auto

text \<open>Too long strings are refused by no check: they overflow.\<close>

lemma bptree_insert_fits:
  assumes "bptree_ok t" "bptree_insert key v t = Some (0, t')" "bp_map t key = None"
  shows "entry_fits (key, v)"
proof -
  have t': "bptree_ok t'" "bp_map t' = (bp_map t)(key \<mapsto> v)" using bptree_insert_ok[OF assms(1), of key v] assms(2,3) by auto
  then have "map_of (bp_entries (bp_root t')) key = Some v" by (simp add: bp_map_def)
  then show ?thesis using bptree_entries(2)[OF t'(1)] by (blast dest: map_of_SomeD)
qed

lemma bptree_count:
  assumes "bptree_ok t"
  shows "bp_count t = int (card (dom (bp_map t)))"
proof -
  have "card (dom (bp_map t)) = card (fst ` set (bp_entries (bp_root t)))" by (simp add: bp_map_def dom_map_of_conv_image_fst)
  also have "\<dots> = length (bp_entries (bp_root t))"
    using distinct_card[OF bp_keys_distinct[OF bptree_entries(1)[OF assms]]] by simp
  finally show ?thesis using assms by (simp add: bptree_ok_def)
qed

section \<open>Properties\<close>

text \<open>
  C16. In every state that insertions and deletions reach, the B+ tree is a finite map, its leaves all
  at the same depth: a search finds the value of the key or nothing; an insertion of a new key adds
  it and returns 0, one of a key already there returns -1 and changes nothing; a deletion removes
  the key and returns 0, or returns -1; the count is the number of keys; and a range scan calls back
  with exactly the entries whose key is in the range, each once and in increasing order. The only
  undefined behaviour is an insertion of a new key when it or its value has 64 characters or
  more, which writes behind the arrays of an entry.
\<close>

theorem bptree_refines_map:
  assumes "reach (\<lambda>t. t = bptree_create) bptree_step t"
  shows "bptree_search t key = Some (bp_map t key) \<and> bp_count t = int (card (dom (bp_map t))) \<and>
    (\<exists>h. leaf_depths (bp_root t) = {h}) \<and>
    (case bptree_insert key v t of
       None \<Rightarrow> bp_map t key = None \<and> (BP_KEY_SIZE \<le> length key \<or> BP_VAL_SIZE \<le> length v)
     | Some (r, t') \<Rightarrow>
         if bp_map t key = None
         then r = 0 \<and> bp_map t' = (bp_map t)(key \<mapsto> v) \<and> length key < BP_KEY_SIZE \<and> length v < BP_VAL_SIZE
         else r = -1 \<and> t' = t) \<and>
    (case bptree_delete key t of
       None \<Rightarrow> False
     | Some (r, t') \<Rightarrow> if bp_map t key = None then r = -1 \<and> t' = t else r = 0 \<and> bp_map t' = (bp_map t)(key := None)) \<and>
    (\<exists>es. bptree_range_scan t low high = Some es \<and> sorted_wrt (<) (map fst es) \<and>
       set es = {(k, v). bp_map t k = Some v \<and> low \<le> k \<and> k \<le> high})"
proof -
  have ok: "bptree_ok t" using assms by (rule bptrees.reach_inv)
  have "\<exists>h. leaf_depths (bp_root t) = {h}" using ok bp_ok_depths(1) by (auto simp: bptree_ok_def)
  moreover have "case bptree_insert key v t of
       None \<Rightarrow> bp_map t key = None \<and> (BP_KEY_SIZE \<le> length key \<or> BP_VAL_SIZE \<le> length v)
     | Some (r, t') \<Rightarrow>
         if bp_map t key = None
         then r = 0 \<and> bp_map t' = (bp_map t)(key \<mapsto> v) \<and> length key < BP_KEY_SIZE \<and> length v < BP_VAL_SIZE
         else r = -1 \<and> t' = t"
    using bptree_insert_ok[OF ok, of key v] bptree_insert_fits[OF ok, of key v]
    by (cases "bp_map t key") (auto simp: entry_fits_def)
  moreover have "case bptree_delete key t of
       None \<Rightarrow> False
     | Some (r, t') \<Rightarrow> if bp_map t key = None then r = -1 \<and> t' = t else r = 0 \<and> bp_map t' = (bp_map t)(key := None)"
    using bptree_delete_ok[OF ok, of key] by (cases "bp_map t key") auto
  ultimately show ?thesis using bp_search_spec[OF ok] bptree_count[OF ok] range_spec[OF ok] by blast
qed

theorem bptree_refines_map_witness:
  "bptree_search (bptree_step (Bp_Insert ''k'' ''v'') bptree_create) ''k'' = Some (Some ''v'') \<and>
   (\<exists>es. bptree_range_scan (bptree_step (Bp_Insert ''k'' ''v'') bptree_create) ''a'' ''z'' = Some es \<and> set es = {(''k'', ''v'')})"
proof -
  let ?t = "bptree_step (Bp_Insert ''k'' ''v'') bptree_create"
  have m: "bp_map ?t = [''k'' \<mapsto> ''v'']"
    by (simp add: bptree_create_def bptree_insert_def leaf_find_def leaf_search.simps bp_map_def c_consts)
  have "reach (\<lambda>t. t = bptree_create) bptree_step ?t"
    by (rule reach_step[OF reach_init[where init = "\<lambda>t. t = bptree_create", OF refl]])
  note spec = bptree_refines_map[OF this, of "''k''" "''v''" "''a''" "''z''", unfolded m]
  then obtain es where es: "bptree_range_scan ?t ''a'' ''z'' = Some es"
    "set es = {(k, v). [''k'' \<mapsto> ''v''] k = Some v \<and> ''a'' \<le> k \<and> k \<le> ''z''}" by blast
  have "''a'' \<le> ''k''" "''k'' \<le> ''z''" by (simp_all add: less_char_def less_eq_char_def)
  then have "set es = {(''k'', ''v'')}" unfolding es(2) by (auto split: if_splits)
  then show ?thesis using spec es(1) by auto
qed

end
