(* ===== verification/Spec2Isabelle.thy ===== *)
theory Spec2Isabelle
  imports Broker Consumer_Group Producer_Client Log_Cleaner Replication Encoding Message_Codec Wire_Protocol Stream_Processor
    Slotted_Page Disk_Manager Buffer_Pool Lock_Manager Mvcc Wal Block_Cache Lsm_Tree Snapshot Range_Query
    Graph_Paths Graph_Components Graph_Order Bptree
begin

text \<open>
  This library models the storage and messaging components of a collection of small data stores
  written in C, and proves what makes them correct, or where they are not.

  \<^bold>\<open>The program.\<close> The repository is a set of independent C libraries, one per directory \<open>src/mini-*\<close>.
  Modelled are parts of five of them. \<open>mini-message-stream\<close> is a log based broker: topics with
  partitions made of segments, a broker that routes produce and fetch requests to them, consumer
  groups with partition assignment, committed offsets, a batching producer, log retention and
  compaction, replication with leader election, a windowed stream processor, and the two wire
  formats. \<open>mini-db-kernel\<close> is the lower half of a database: slotted pages, a simulated disk, a
  buffer pool, a lock manager, multi version concurrency control and a write ahead log.
  \<open>mini-file-storage\<close> is a log structured store: key encodings, a skip list as memtable, a log
  file, sorted tables with Bloom filters, their compaction, a block cache, and the tree that puts
  these together. \<open>mini-graph-db\<close> keeps a property graph in memory and searches it. Of
  \<open>mini-relational-db\<close>, a small relational engine, the B+ tree is modelled.

  \<^bold>\<open>The theories\<close>, in the order of their imports:

  \<^item> \<open>Prelude\<close>: C strings, first-match loops over tables, \<open>reach\<close> and the locales
    \<open>invariant_system\<close> and \<open>monotone_system\<close>, through which every component proves its invariant.
  \<^item> \<open>Codec_Base\<close>: bytes, \<open>outcome\<close> (a value, an error, or undefined behaviour), integers as bytes,
    and the locales \<open>prefix_codec\<close> and \<open>codec_pair\<close>. \<open>Byte_Order\<close>: comparison of keys by \<open>memcmp\<close>
    and length. \<open>Chained_Table\<close>: hash tables with chains, used by the buffer pool and the block cache.
  \<^item> \<open>Topic_Partition\<close>, \<open>Offset_Manager\<close>, \<open>Consumer_Group\<close>, \<open>Broker\<close>, \<open>Producer_Client\<close>,
    \<open>Log_Cleaner\<close>, \<open>Replication\<close>, \<open>Stream_Processor\<close>: the files of the same name of
    \<open>mini-message-stream\<close>. The partition provides the locales \<open>offset_log\<close> and \<open>readable_log\<close>, the
    offset manager \<open>commit_store\<close>.
  \<^item> \<open>Encoding\<close> (\<open>mini-file-storage\<close>), \<open>Message_Codec\<close> and \<open>Wire_Protocol\<close>
    (\<open>mini-message-stream\<close>): the byte formats, as interpretations of \<open>prefix_codec\<close> where they do
    read back their own encoding.
  \<^item> \<open>Slotted_Page\<close>, \<open>Disk_Manager\<close>, \<open>Buffer_Pool\<close>, \<open>Lock_Manager\<close>, \<open>Mvcc\<close>, \<open>Wal\<close>: the files of the
    same name of \<open>mini-db-kernel\<close>.
  \<^item> \<open>Block_Cache\<close>, \<open>Wal_File\<close>, \<open>Skiplist\<close>: the files of the same name of \<open>mini-file-storage\<close>.
    \<open>Bloom_Filter\<close>, \<open>Sstable\<close>: the filter and the tables of \<open>sstable.c\<close>; \<open>Merge_Heap\<close>, with the locale
    \<open>heap_order\<close>, and \<open>Compaction\<close>: its merge iterator and \<open>compaction.c\<close>; \<open>Lsm_Tree\<close>: the tree over
    all of these, with the locale \<open>layered_lookup\<close> for what can be asked for a key. \<open>Snapshot\<close> and
    \<open>Range_Query\<close>: the version store and the range scans over tables.
  \<^item> \<open>Property_Graph\<close> (\<open>mini-graph-db\<close>): nodes, edges, their properties, the adjacency lists and the
    hash index of nodes. \<open>Graph_Search\<close>: the locale \<open>index_graph\<close> with the facts about walks and
    queues that the searches share. \<open>Graph_Traversal\<close>: the searches of \<open>graph_traversal.c\<close>;
    \<open>Graph_Walks\<close> and \<open>Graph_Paths\<close>: what they return, in terms of walks over arcs. \<open>Union_Find\<close>,
    \<open>Graph_Components\<close> and \<open>Graph_Order\<close>: the union-find forest, connected components, topological
    sort and cycle detection of \<open>graph_algo.c\<close>.
  \<^item> \<open>Bptree\<close> (\<open>mini-relational-db\<close>): the tree as a datatype, whose leaves have addresses for the
    pointers between them; the leaves from left to right hold the entries of a finite map.

  \<^bold>\<open>How the model corresponds to the code.\<close> A C struct is a record with its fields under their own
  names (with a suffix or prefix where a name is taken), a function is a definition of the same
  name that takes the state and returns it changed, with the return value first. Names of the
  definitions that stand for a part of a function (a loop, a branch) are listed with their lines
  in the manifest. Machine integers are words where the code wraps, shifts or masks them, and
  numbers where it only counts; fixed arrays are lists of their length; linked structures are
  lists of pointers into a heap of nodes, or plain lists where no aliasing can be seen. Reads
  and writes outside an array, use of bytes never written and loops that do not end are values
  of the model (\<open>Undefined\<close>, \<open>None\<close>), so that a theorem about a result also shows that they do
  not happen.

  \<^bold>\<open>What the lemmas show.\<close> Each theory first shows what one operation does, then an invariant and
  that every operation keeps it, by interpreting \<open>invariant_system\<close> or \<open>monotone_system\<close> on its own
  operations, and then its properties, over all reachable states: refinement of an abstract map,
  page, queue or log; functional behaviour on every branch; round trips of the formats; safety
  of memory accesses; and, where the code breaks its promise, the input that shows it.

  \<^bold>\<open>Loops and fuel.\<close> Loops are structural recursion or \<open>fold\<close> wherever the code counts, and
  recursion with a termination proof over what is left of the input in the codecs and the
  recovery of the log file. Loops over pointers are \<open>while_option\<close> or \<open>partial_function (option)\<close> in the skip
  list, and so are the scans of a block by stored offsets, the merge, and the loops of the tree
  that flush or compact until nothing is left; the eviction loop of the block cache has the fuel \<open>Suc (bsize c)\<close>, one more than the entries it
  can remove; the waiter queue of the lock manager is followed with the length of its pool as
  fuel. The searches of graphs are
  recursions with a termination proof over the nodes not yet seen, or have the depth as fuel,
  which no simple path exceeds; the union-find loop is a
  \<open>partial_function\<close>. In each case the invariant shows that the loop ends and the fuel is enough.

  \<^bold>\<open>Parameters.\<close> Time, the outcome of allocations where the code checks them, coin flips, the
  arithmetic on \<open>double\<close> in the stream processor, and the contents of buffers handed in. The host
  is little endian, as the formats that copy integers to files assume.

  \<^bold>\<open>Not modelled.\<close> NULL arguments where the code only returns an error for them; printing and
  statistics that are only printed; freeing of memory at destruction; failures of the file
  system. The components of the manifest marked so are not modelled: those built on floating
  point arithmetic (vectors, scores, metrics), for which the allowed theories have no model, the
  demos, and the parts left for later (the trees
  and the executor of \<open>mini-db-kernel\<close>, and most of the relational, search and NoSQL modules).
\<close>

end
